(* ===== verification/Lwip_Prelude.thy ===== *)
theory Lwip_Prelude
  imports Main "HOL-Library.Word" "HOL-Library.Monad_Syntax"
begin

text \<open>
  What the other theories share: the machine integers of the C code, the result of a C call,
  the error codes of \<^verbatim>\<open>include/lwip/err.h\<close>, and generic lemmas on words, options and lists.

  Abnormal termination. In this build \<^verbatim>\<open>LWIP_NOASSERT\<close> is not defined, so both
  \<^verbatim>\<open>LWIP_ASSERT(msg, e)\<close> and \<^verbatim>\<open>LWIP_ERROR(msg, e, handler)\<close> of \<^verbatim>\<open>include/lwip/debug.h\<close>
  call \<^verbatim>\<open>LWIP_PLATFORM_ASSERT\<close> of \<^verbatim>\<open>include/lwip/arch.h\<close>, which prints and calls
  \<^verbatim>\<open>abort()\<close>: the handler of \<^verbatim>\<open>LWIP_ERROR\<close> is dead code. A C function that can abort is
  modelled with an \<open>option\<close> result whose \<open>None\<close> is the abort (or the dereference of a
  null pointer); everything the function returns or writes is inside \<open>Some\<close>.
\<close>

unbundle bit_operations_syntax

section \<open>Machine integers\<close>

type_synonym u8 = "8 word"
type_synonym u16 = "16 word"
type_synonym u32 = "32 word"

named_theorems unat_lwip \<open>what the C arithmetic of the stack computes, read as natural numbers\<close>

lemma u8_lt: "unat (x :: u8) < 256"
  using unsigned_less [of x] by simp

lemma u16_lt: "unat (x :: u16) < 65536"
  using unsigned_less [of x] by simp

lemma u32_lt: "unat (x :: u32) < 4294967296"
  using unsigned_less [of x] by simp

lemmas uint_lt = u8_lt u16_lt u32_lt

lemma unat_and_mask: "unat (x AND mask n :: 'a::len word) = unat x mod 2 ^ n"
proof -
  have "unat (take_bit n x) = take_bit n (unat x)" by (rule unsigned_take_bit_eq)
  then show ?thesis by (simp add: take_bit_eq_mod [of n "unat x"] flip: take_bit_eq_mask)
qed

lemma unat_drop_bit_div: "unat (drop_bit n x :: 'a::len word) = unat x div 2 ^ n"
proof -
  have "unat (drop_bit n x) = drop_bit n (take_bit LENGTH('a) (unat x))"
    by (rule unsigned_drop_bit_eq)
  then show ?thesis
    by (simp add: drop_bit_eq_div [of n "unat x"] take_bit_nat_eq_self unsigned_less)
qed

lemma unat_and_ff [unat_lwip]: "unat (x AND 0xff :: u32) = unat x mod 256"
  using unat_and_mask [of x 8] by (simp add: mask_numeral)

lemma unat_and_ffff [unat_lwip]: "unat (x AND 0xffff :: u32) = unat x mod 65536"
  using unat_and_mask [of x 16] by (simp add: mask_numeral)

lemma unat_ucast_up [unat_lwip]:
  "unat (ucast (b :: u8) :: u16) = unat b"
  "unat (ucast (b :: u8) :: u32) = unat b"
  "unat (ucast (h :: u16) :: u32) = unat h"
  by (simp_all add: unsigned_ucast_eq take_bit_nat_eq_self uint_lt
      order.strict_trans [OF u8_lt] order.strict_trans [OF u16_lt])

lemma unat_ucast_u16 [unat_lwip]: "unat (ucast (w :: u32) :: u16) = unat w mod 65536"
  by (simp add: unsigned_ucast_eq take_bit_eq_mod)

lemma bit_uint_ge [simp]:
  "8 \<le> i \<Longrightarrow> \<not> bit (b :: u8) i"
  "16 \<le> i \<Longrightarrow> \<not> bit (h :: u16) i"
  "32 \<le> i \<Longrightarrow> \<not> bit (w :: u32) i"
  by (auto dest: bit_imp_le_length)

text \<open>A subtraction that does not wrap.\<close>

lemma unat_diff_le: "b \<le> a \<Longrightarrow> unat (a - b :: 'a::len word) = unat a - unat b"
  by (simp add: unat_sub)

lemma unat_add_no_wrap:
  "unat a + unat b < 2 ^ LENGTH('a) \<Longrightarrow> unat (a + b :: 'a::len word) = unat a + unat b"
  by (simp add: unat_word_ariths)

section \<open>Aborting computations\<close>

definition lwip_assert :: "bool \<Rightarrow> unit option" where
  "lwip_assert b = (if b then Some () else None)"

lemma lwip_assert_simps [simp]:
  "lwip_assert True = Some ()"
  "lwip_assert False = None"
  by (simp_all add: lwip_assert_def)

lemma lwip_assert_Some [simp]: "lwip_assert b = Some u \<longleftrightarrow> b"
  by (simp add: lwip_assert_def)

lemma lwip_assert_bind_Some:
  "(lwip_assert b \<bind> (\<lambda>_. m)) = Some y \<longleftrightarrow> b \<and> m = Some y"
  by (simp add: lwip_assert_def)

section \<open>Error codes\<close>

datatype err_t =
  ERR_OK | ERR_MEM | ERR_BUF | ERR_TIMEOUT | ERR_RTE | ERR_INPROGRESS | ERR_VAL
| ERR_WOULDBLOCK | ERR_USE | ERR_ALREADY | ERR_ISCONN | ERR_CONN | ERR_IF | ERR_ABRT
| ERR_RST | ERR_CLSD | ERR_ARG

end
