(* ===== verification/Lwip_Def.thy ===== *)
theory Lwip_Def
  imports Lwip_Prelude
begin

text \<open>
  The helpers of \<^verbatim>\<open>core/def.c\<close> and the byte-order macros of \<^verbatim>\<open>include/lwip/def.h\<close> for a
  little-endian host: \<^verbatim>\<open>lwip_htons\<close>, \<^verbatim>\<open>lwip_htonl\<close>, \<^verbatim>\<open>lwip_strnstr\<close>, \<^verbatim>\<open>lwip_stricmp\<close>,
  \<^verbatim>\<open>lwip_strnicmp\<close> and \<^verbatim>\<open>lwip_itoa\<close>. A C string is the list of its bytes before the
  terminating NUL; a read at the end of the list reads that NUL.
\<close>

section \<open>Byte order\<close>

definition lwip_htons :: "u16 \<Rightarrow> u16" where
  "lwip_htons n = push_bit 8 (n AND 0x00ff) OR drop_bit 8 (n AND 0xff00)"

definition lwip_htonl :: "u32 \<Rightarrow> u32" where
  "lwip_htonl n = push_bit 24 (n AND 0x000000ff) OR push_bit 8 (n AND 0x0000ff00) OR
     drop_bit 8 (n AND 0x00ff0000) OR drop_bit 24 (n AND 0xff000000)"

text \<open>The two byte swaps, bit by bit.\<close>

lemma u16_byte_masks:
  "(0x00ff :: u16) = mask 8" "(0xff00 :: u16) = push_bit 8 (mask 8)"
  by (simp_all add: mask_numeral push_bit_eq_mult)

lemma u32_byte_masks:
  "(0x000000ff :: u32) = mask 8" "(0x0000ff00 :: u32) = push_bit 8 (mask 8)"
  "(0x00ff0000 :: u32) = push_bit 16 (mask 8)" "(0xff000000 :: u32) = push_bit 24 (mask 8)"
  by (simp_all add: mask_numeral push_bit_eq_mult)

lemma bit_lwip_htons:
  "bit (lwip_htons n) i \<longleftrightarrow> i < 16 \<and> bit n (if i < 8 then 8 + i else i - 8)"
  unfolding lwip_htons_def u16_byte_masks by (auto simp: bit_simps simp del: push_bit_numeral)

lemma bit_lwip_htonl:
  "bit (lwip_htonl n) i \<longleftrightarrow> i < 32 \<and>
     bit n (if i < 8 then 24 + i else if i < 16 then 8 + i else if i < 24 then i - 8 else i - 24)"
  unfolding lwip_htonl_def u32_byte_masks by (auto simp: bit_simps simp del: push_bit_numeral)

lemma lwip_htons_htons [simp]: "lwip_htons (lwip_htons n) = n"
  by (rule bit_eqI) (auto simp: bit_lwip_htons)

lemma lwip_htonl_htonl [simp]: "lwip_htonl (lwip_htonl n) = n"
  by (rule bit_eqI) (auto simp: bit_lwip_htonl)

lemma unat_lwip_htons [unat_lwip]:
  "unat (lwip_htons n) = 256 * (unat n mod 256) + unat n div 256"
proof -
  have "lwip_htons n = push_bit 8 (n AND mask 8) OR drop_bit 8 n"
    by (rule bit_eqI) (auto simp: bit_lwip_htons bit_simps)
  also have "\<dots> = push_bit 8 (n AND mask 8) + drop_bit 8 n"
    by (rule disjunctive_add [symmetric]) (auto simp: bit_simps)
  finally have eq: "lwip_htons n = push_bit 8 (n AND mask 8) + drop_bit 8 n" .
  have "unat n mod 256 \<le> 255" "unat n div 256 \<le> 255"
    using u16_lt [of n] by simp_all
  then show ?thesis
    by (simp add: eq push_bit_eq_mult unat_word_ariths unat_and_mask unat_drop_bit_div)
qed

section \<open>Strings\<close>

text \<open>
  \<^verbatim>\<open>lwip_strnstr(buffer, token, n)\<close> returns a pointer into the buffer: here its offset. The loop
  variable \<^verbatim>\<open>p\<close> is the suffix it points to, with its offset \<open>i\<close>.
\<close>

fun strnstr_loop :: "u8 list \<Rightarrow> nat \<Rightarrow> u8 list \<Rightarrow> nat \<Rightarrow> nat option" where
  "strnstr_loop [] i token n = None"
| "strnstr_loop (c # p) i token n =
     (if i + length token \<le> n
      then if c = hd token \<and> take (length token) (c # p) = token then Some i
           else strnstr_loop p (i + 1) token n
      else None)"

definition lwip_strnstr :: "u8 list \<Rightarrow> u8 list \<Rightarrow> nat \<Rightarrow> nat option" where
  "lwip_strnstr buffer token n =
     (if length token = 0 then Some 0 else strnstr_loop buffer 0 token n)"

text \<open>One comparison of the \<^verbatim>\<open>do\<close> loops: whether the characters differ even without case.\<close>

definition chr_differ :: "u8 \<Rightarrow> u8 \<Rightarrow> bool" where
  "chr_differ c1 c2 =
     (if c1 \<noteq> c2 then
        let c1_upc = c1 OR 0x20
        in if c1_upc \<ge> 0x61 \<and> c1_upc \<le> 0x7a
           then let c2_upc = c2 OR 0x20 in c1_upc \<noteq> c2_upc
           else True
      else False)"

definition chr_at :: "u8 list \<Rightarrow> u8" where
  "chr_at s = (case s of [] \<Rightarrow> 0 | c # _ \<Rightarrow> c)"

text \<open>
  The loop reads the terminating NUL of \<^verbatim>\<open>str1\<close> and stops there; it has returned before it
  reads beyond the NUL of \<^verbatim>\<open>str2\<close>, because a NUL differs from every other character.
\<close>

fun lwip_stricmp :: "u8 list \<Rightarrow> u8 list \<Rightarrow> int" where
  "lwip_stricmp [] str2 = (if chr_differ 0 (chr_at str2) then 1 else 0)"
| "lwip_stricmp (c1 # str1) str2 =
     (if chr_differ c1 (chr_at str2) then 1
      else if c1 \<noteq> 0 then lwip_stricmp str1 (tl str2) else 0)"

text \<open>\<^verbatim>\<open>len\<close> is a \<^verbatim>\<open>size_t\<close>, decremented before it is tested: 0 wraps to its maximum.\<close>

fun lwip_strnicmp :: "u8 list \<Rightarrow> u8 list \<Rightarrow> 64 word \<Rightarrow> int" where
  "lwip_strnicmp [] str2 len = (if chr_differ 0 (chr_at str2) then 1 else 0)"
| "lwip_strnicmp (c1 # str1) str2 len =
     (if chr_differ c1 (chr_at str2) then 1
      else let len = len - 1
           in if len \<noteq> 0 \<and> c1 \<noteq> 0 then lwip_strnicmp str1 (tl str2) len else 0)"

section \<open>Integers to decimal strings\<close>

text \<open>
  \<^verbatim>\<open>lwip_itoa(result, bufsize, number)\<close> on the buffer as a list of bytes: \<open>res\<close> and \<open>tmp\<close> are the
  offsets of the two pointers. \<open>None\<close> is the signed overflow of \<^verbatim>\<open>-number\<close>.
\<close>

function itoa_digits :: "u8 list \<Rightarrow> nat \<Rightarrow> nat \<Rightarrow> nat \<Rightarrow> u8 list \<times> nat \<times> nat" where
  "itoa_digits buf n tmp res =
     (if n \<noteq> 0 \<and> tmp > res
      then itoa_digits (buf[tmp - 1 := 0x30 + word_of_nat (n mod 10)]) (n div 10) (tmp - 1) res
      else (buf, n, tmp))"
  by pat_completeness auto
termination by (relation "measure (\<lambda>(buf, n, tmp, res). n)") auto

declare itoa_digits.simps [simp del]

definition write_at :: "u8 list \<Rightarrow> nat \<Rightarrow> u8 list \<Rightarrow> u8 list" where
  "write_at buf i bs = take i buf @ bs @ drop (i + length bs) buf"

definition lwip_itoa :: "u8 list \<Rightarrow> int \<Rightarrow> u8 list option" where
  "lwip_itoa result number =
     (let bufsize = length result in
      if number = - (2 ^ 31) then None
      else if bufsize < 2 then Some (if bufsize = 1 then result[0 := 0] else result)
      else let n = nat \<bar>number\<bar>;
               (buf, res) = (if number < 0 then (result[0 := 0x2d], 1) else (result, 0));
               tmp = bufsize - 1;
               buf = buf[tmp := 0];
               (buf, n, tmp) = itoa_digits buf n tmp res
           in if n \<noteq> 0 then Some (buf[0 := 0])
              else if buf ! tmp = 0 then Some (buf[res := 0x30, res + 1 := 0])
              else Some (write_at buf res (drop tmp buf)))"

section \<open>Their contracts\<close>

lemma strnstr_loop_Some:
  assumes "token \<noteq> []"
  shows "strnstr_loop p i token n = Some k \<longleftrightarrow>
    (\<exists>j. k = i + j \<and> k + length token \<le> n \<and> j < length p \<and> take (length token) (drop j p) = token \<and>
      (\<forall>j' < j. take (length token) (drop j' p) \<noteq> token))"
proof (induction p arbitrary: i)
  case (Cons c p)
  show ?case
  proof (cases "i + length token \<le> n")
    case False
    then show ?thesis by auto
  next
    case True
    have hd: "c = hd token \<and> take (length token) (c # p) = token \<longleftrightarrow> take (length token) (c # p) = token"
      using assms by (cases token) auto
    show ?thesis
    proof (cases "take (length token) (c # p) = token")
      case here: True
      then have "strnstr_loop (c # p) i token n = Some i" using True hd by simp
      moreover have "j = 0" if "\<forall>j'<j. take (length token) (drop j' (c # p)) \<noteq> token" for j
        using that here by (metis drop0 gr0I)
      ultimately show ?thesis using True here by auto
    next
      case not_here: False
      then have step: "strnstr_loop (c # p) i token n = strnstr_loop p (i + 1) token n"
        using True hd by simp
      show ?thesis
        unfolding step Cons.IH
      proof (intro iffI; elim exE conjE)
        fix j assume "k = i + 1 + j" "k + length token \<le> n" "j < length p"
          "take (length token) (drop j p) = token" "\<forall>j'<j. take (length token) (drop j' p) \<noteq> token"
        then show "\<exists>j. k = i + j \<and> k + length token \<le> n \<and> j < length (c # p) \<and>
            take (length token) (drop j (c # p)) = token \<and>
            (\<forall>j'<j. take (length token) (drop j' (c # p)) \<noteq> token)"
          using not_here by (intro exI [of _ "Suc j"]) (auto simp: less_Suc_eq_0_disj)
      next
        fix j assume *: "k = i + j" "k + length token \<le> n" "j < length (c # p)"
          "take (length token) (drop j (c # p)) = token"
          "\<forall>j'<j. take (length token) (drop j' (c # p)) \<noteq> token"
        with not_here obtain m where "j = Suc m" by (cases j) auto
        with * show "\<exists>j. k = i + 1 + j \<and> k + length token \<le> n \<and> j < length p \<and>
            take (length token) (drop j p) = token \<and> (\<forall>j'<j. take (length token) (drop j' p) \<noteq> token)"
          by (intro exI [of _ m]) auto
      qed
    qed
  qed
qed simp

text \<open>\<^verbatim>\<open>lwip_strnstr\<close> returns the first occurrence of the token that lies within the
  first \<open>n\<close> bytes, the start for an empty token, and NULL exactly when there is none.\<close>

lemma lwip_strnstr_first:
  "lwip_strnstr buffer token n = Some k \<longleftrightarrow>
     (token = [] \<and> k = 0) \<or>
     (token \<noteq> [] \<and> k + length token \<le> n \<and> k < length buffer \<and>
      take (length token) (drop k buffer) = token \<and>
      (\<forall>j < k. take (length token) (drop j buffer) \<noteq> token))"
  by (cases "token = []") (auto simp: lwip_strnstr_def strnstr_loop_Some)

definition lower :: "u8 \<Rightarrow> u8" where
  "lower c = (if 0x41 \<le> c \<and> c \<le> 0x5a then c + 0x20 else c)"

text \<open>The same map on character codes, and what setting bit 5 does to a code.\<close>

lemma bit_5_div: "bit c 5 \<longleftrightarrow> odd (unat (c::u8) div 32)"
proof -
  have "bit c 5 \<longleftrightarrow> bit (unat c) 5" by (simp add: bit_unsigned_iff)
  then show ?thesis by (simp add: bit_iff_odd)
qed

lemma unat_or_20: "unat (c OR 0x20 :: u8) = (if odd (unat c div 32) then unat c else unat c + 32)"
proof -
  have m: "(0x20::u8) = push_bit 5 1" by (simp add: push_bit_eq_mult)
  have bm: "bit (push_bit 5 1 :: u8) n \<longleftrightarrow> n = 5" for n
    by (auto simp: bit_push_bit_iff bit_1_iff simp del: push_bit_of_1)
  show ?thesis
  proof (cases "bit c 5")
    case True
    then have "c OR push_bit 5 1 = c"
      by (intro bit_eqI) (auto simp: bit_or_iff bm simp del: push_bit_of_1)
    then show ?thesis using True unfolding bit_5_div m by simp
  next
    case False
    then have "c OR push_bit 5 1 = c + push_bit 5 1"
      by (intro disjunctive_add [symmetric]) (auto simp: bm simp del: push_bit_of_1)
    moreover have "unat c + 32 < 256"
    proof -
      have "unat c div 32 \<noteq> 7" using False unfolding bit_5_div by auto
      moreover have "unat c div 32 < 8" using u8_lt [of c] by simp
      ultimately have "unat c div 32 < 7" by linarith
      then have "unat c < 7 * 32" by (simp only: div_less_iff_less_mult)
      then show ?thesis by simp
    qed
    ultimately show ?thesis using False unfolding bit_5_div m by (simp add: push_bit_eq_mult unat_word_ariths)
  qed
qed

definition lw :: "nat \<Rightarrow> nat" where "lw x = (if 65 \<le> x \<and> x \<le> 90 then x + 32 else x)"
definition letter :: "nat \<Rightarrow> bool" where "letter y \<longleftrightarrow> 97 \<le> y \<and> y \<le> 122"
lemma arith_or20: "(x::nat) < 256 \<Longrightarrow> y = (if odd (x div 32) then x else x + 32) \<Longrightarrow>
  letter y = letter (lw x) \<and> (letter y \<longrightarrow> y = lw x) \<and> (\<not> letter y \<longrightarrow> lw x = x)"
proof -
  assume x: "x < 256" and y: "y = (if odd (x div 32) then x else x + 32)"
  consider "x < 32" | "32 \<le> x" "x < 64" | "64 \<le> x" "x < 96" | "96 \<le> x" "x < 128" | "128 \<le> x"
    by linarith
  then show ?thesis
  proof cases
    case 3
    then have "x div 32 = 2" by (simp add: div_nat_eqI)
    then have "y = x + 32" using y by simp
    then show ?thesis using 3 by (simp add: letter_def lw_def)
  next
    case 4
    then have "x div 32 = 3" by (simp add: div_nat_eqI)
    then have "y = x" using y by simp
    then show ?thesis using 4 by (simp add: letter_def lw_def)
  next
    case 1
    then have "y = x + 32" using y by simp
    then show ?thesis using 1 by (simp add: letter_def lw_def)
  next
    case 2
    then have "x div 32 = 1" by (simp add: div_nat_eqI)
    then have "y = x" using y by simp
    then show ?thesis using 2 by (simp add: letter_def lw_def)
  next
    case 5
    then have "y \<ge> 128" using y by simp
    then show ?thesis using 5 by (simp add: letter_def lw_def)
  qed
qed
lemma unat_lower: "unat (lower c) = (if 65 \<le> unat c \<and> unat c \<le> 90 then unat c + 32 else unat c)"
  by (simp add: lower_def word_le_nat_alt unat_word_ariths)
lemma chr_differ_lower: "chr_differ c1 c2 \<longleftrightarrow> lower c1 \<noteq> lower c2"
proof -
  have eq: "a = b \<longleftrightarrow> unat a = unat b" for a b :: u8 by (rule word_unat_eq_iff)
  define x1 where "x1 = unat c1" 
  define x2 where "x2 = unat c2" 
  define y1 where "y1 = unat (c1 OR 0x20)"
  define y2 where "y2 = unat (c2 OR 0x20)"
  note a1 = arith_or20[OF u8_lt unat_or_20, of c1, folded x1_def y1_def]
  note a2 = arith_or20[OF u8_lt unat_or_20, of c2, folded x2_def y2_def]
  have "chr_differ c1 c2 \<longleftrightarrow> x1 \<noteq> x2 \<and> (letter y1 \<longrightarrow> y1 \<noteq> y2)"
    by (auto simp: chr_differ_def Let_def eq word_le_nat_alt x1_def x2_def y1_def y2_def letter_def)
  moreover have "unat (lower c1) = lw x1" "unat (lower c2) = lw x2"
    by (simp_all add: unat_lower x1_def x2_def lw_def)
  moreover have "x1 \<noteq> x2 \<and> (letter y1 \<longrightarrow> y1 \<noteq> y2) \<longleftrightarrow> lw x1 \<noteq> lw x2"
    using a1 a2 by metis
  ultimately show ?thesis by (simp add: eq)
qed

lemma lower_0: "lower c = 0 \<longleftrightarrow> c = 0"
proof -
  have "unat (lower c) = 0 \<longleftrightarrow> unat c = 0" by (simp add: unat_lower)
  then show ?thesis by (simp add: unat_eq_zero)
qed

lemma lower_NUL [simp]: "lower 0 = 0" by (simp add: lower_0)

lemma stricmp_values: "lwip_stricmp str1 str2 \<in> {0, 1}"
  by (induction str1 str2 rule: lwip_stricmp.induct) auto

text \<open>\<^verbatim>\<open>lwip_stricmp\<close> returns 0 exactly for strings that are equal up to the case of the
  letters A to Z, and 1 otherwise.\<close>

lemma lwip_stricmp_iff:
  assumes "0 \<notin> set str1" and "0 \<notin> set str2"
  shows "lwip_stricmp str1 str2 = (if map lower str1 = map lower str2 then 0 else 1)"
  using assms
proof (induction str1 str2 rule: lwip_stricmp.induct)
  case (1 str2)
  then show ?case by (cases str2) (auto simp: chr_at_def chr_differ_lower lower_0)
next
  case (2 c1 str1 str2)
  then show ?case by (cases str2) (auto simp: chr_at_def chr_differ_lower lower_0)
qed

text \<open>\<^verbatim>\<open>lwip_strnicmp\<close> compares the first \<open>len\<close> characters in that way when \<open>len\<close> is
  positive; for \<open>len\<close> 0 the decrement wraps and it compares the whole strings.\<close>

lemma lwip_strnicmp_iff:
  assumes "0 \<notin> set str1" and "0 \<notin> set str2" and "length str1 < 2 ^ 64" and "length str2 < 2 ^ 64"
  shows "lwip_strnicmp str1 str2 len =
    (if len = 0 then lwip_stricmp str1 str2
     else lwip_stricmp (take (unat len) str1) (take (unat len) str2))"
proof -
  have pos: "lwip_strnicmp s1 s2 l = lwip_stricmp (take (unat l) s1) (take (unat l) s2)"
    if "0 \<notin> set s1" "0 \<notin> set s2" "l \<noteq> 0" for s1 s2 l
    using that
  proof (induction s1 s2 l rule: lwip_strnicmp.induct)
    case (1 str2 len)
    then show ?case by (cases str2) (auto simp: chr_at_def take_Cons' unat_eq_zero)
  next
    case (2 c1 str1 str2 len)
    then have l: "unat len = Suc (unat (len - 1))"
      by (simp add: unat_minus_one unat_gt_0)
    show ?case
    proof (cases "len = 1")
      case True
      then show ?thesis using 2 by (cases str2) (auto simp: chr_at_def chr_differ_lower lower_0)
    next
      case False
      then have "len - 1 \<noteq> 0" by simp
      moreover have "0 \<notin> set (tl str2)" using 2 by (cases str2) auto
      ultimately have "\<not> chr_differ c1 (chr_at str2) \<Longrightarrow> c1 \<noteq> 0 \<Longrightarrow>
          lwip_strnicmp str1 (tl str2) (len - 1) =
          lwip_stricmp (take (unat (len - 1)) str1) (take (unat (len - 1)) (tl str2))"
        using 2 by simp
      then show ?thesis using 2 \<open>len - 1 \<noteq> 0\<close> unfolding l by (cases str2) (auto simp: chr_at_def Let_def)
    qed
  qed
  show ?thesis
  proof (cases "len = 0")
    case False
    then show ?thesis using pos assms by simp
  next
    case True
    define m where "m = (- 1 :: 64 word)"
    have m: "unat m = 2 ^ 64 - 1"
      by (simp add: m_def unsigned_minus_1_eq_mask mask_eq_exp_minus_1)
    show ?thesis
    proof (cases str1)
      case Nil
      then show ?thesis using True by simp
    next
      case (Cons c r)
      have r: "0 \<notin> set (tl str2)" using assms by (cases str2) auto
      have "take (unat m) (tl str2) = tl str2" using assms m by simp
      then have "lwip_strnicmp r (tl str2) m = lwip_stricmp r (tl str2)"
        using pos [of r "tl str2" m] assms Cons r m by (simp add: m_def)
      then show ?thesis using True Cons by (simp add: Let_def m_def)
    qed
  qed
qed

text \<open>Decimal notation, most significant digit first, and the C string that a buffer holds.\<close>

fun digits :: "nat \<Rightarrow> u8 list" where
  "digits n = (if n = 0 then [] else digits (n div 10) @ [0x30 + word_of_nat (n mod 10)])"

declare digits.simps [simp del]

definition decimal :: "int \<Rightarrow> u8 list" where
  "decimal i = (if i < 0 then [0x2d] else []) @ (if i = 0 then [0x30] else digits (nat \<bar>i\<bar>))"

definition c_string :: "u8 list \<Rightarrow> u8 list" where
  "c_string buf = takeWhile (\<lambda>c. c \<noteq> 0) buf"

lemma digit_value: "m < 10 \<Longrightarrow> unat (0x30 + word_of_nat m :: u8) = 0x30 + m"
  by (simp add: unat_word_ariths unat_of_nat)

lemma digits_range: "c \<in> set (digits n) \<Longrightarrow> c \<noteq> 0"
proof (induction n rule: digits.induct)
  case (1 n)
  then show ?case
    using digit_value [of "n mod 10"] by (subst (asm) digits.simps) (auto split: if_splits)
qed

lemma itoa_digits_props:
  "itoa_digits buf n tmp res = (buf', n', tmp') \<Longrightarrow> res \<le> tmp \<Longrightarrow> tmp \<le> length buf \<Longrightarrow>
     length buf' = length buf \<and> take res buf' = take res buf \<and>
     (if length (digits n) \<le> tmp - res
      then n' = 0 \<and> tmp' = tmp - length (digits n) \<and> drop tmp' buf' = digits n @ drop tmp buf
      else n' \<noteq> 0)"
proof (induction buf n tmp res rule: itoa_digits.induct)
  case (1 buf n tmp res)
  show ?case
  proof (cases "n \<noteq> 0 \<and> tmp > res")
    case True
    define b where "b = buf[tmp - 1 := 0x30 + word_of_nat (n mod 10)]"
    have len: "length (digits n) = Suc (length (digits (n div 10)))"
      using True by (subst digits.simps) simp
    have dg: "digits n = digits (n div 10) @ [0x30 + word_of_nat (n mod 10)]"
      using True by (subst digits.simps) simp
    have lt: "tmp - 1 < length buf" using True "1.prems" by linarith
    have "drop (tmp - 1) buf = buf ! (tmp - 1) # drop tmp buf"
      using True Cons_nth_drop_Suc [OF lt] by (cases tmp) simp_all
    then have drop: "drop (tmp - 1) b = (0x30 + word_of_nat (n mod 10)) # drop tmp buf"
      using True "1.prems" by (simp add: b_def drop_update_swap)
    have ih: "length buf' = length b \<and> take res buf' = take res b \<and>
        (if length (digits (n div 10)) \<le> tmp - 1 - res
         then n' = 0 \<and> tmp' = tmp - 1 - length (digits (n div 10)) \<and>
           drop tmp' buf' = digits (n div 10) @ drop (tmp - 1) b
         else n' \<noteq> 0)"
    proof -
      have "itoa_digits b (n div 10) (tmp - 1) res = (buf', n', tmp')"
        using "1.prems"(1) True by (simp add: itoa_digits.simps [of buf] b_def)
      moreover have "res \<le> tmp - 1" "tmp - 1 \<le> length b" using True "1.prems" by (auto simp: b_def)
      ultimately show ?thesis using "1.IH" [OF True] unfolding b_def by blast
    qed
    have "take res b = take res buf" using True by (auto simp: b_def)
    with ih show ?thesis using True len dg drop by (auto simp: b_def split: if_splits)
  next
    case False
    then have eq: "buf' = buf" "n' = n" "tmp' = tmp"
      using "1.prems"(1) by (auto simp: itoa_digits.simps [of buf] split: if_splits)
    show ?thesis
    proof (cases "n = 0")
      case True
      then show ?thesis by (simp add: eq digits.simps)
    next
      case n: False
      then have "length (digits n) > 0" by (subst digits.simps) simp
      then show ?thesis using False n "1.prems" by (auto simp: eq)
    qed
  qed
qed

lemma c_string_append: "\<forall>c \<in> set s. c \<noteq> 0 \<Longrightarrow> c_string (s @ 0 # t) = s"
  by (simp add: c_string_def takeWhile_append2)

lemma c_string_0: "c_string (buf[0 := 0]) = []"
  by (cases buf) (simp_all add: c_string_def)

text \<open>For every number but \<open>INT_MIN\<close> and every buffer, \<^verbatim>\<open>lwip_itoa\<close> stays inside the buffer
  and leaves in it the decimal notation of the number, or the empty string when the notation
  with its NUL does not fit.\<close>

lemma lwip_itoa_decimal:
  assumes "- (2 ^ 31) < number"
  shows "\<exists>r. lwip_itoa result number = Some r \<and> length r = length result \<and>
    c_string r = (if length (decimal number) < length result then decimal number else [])"
proof (cases "length result < 2")
  case True
  moreover have "length (decimal number) \<noteq> 0" using digits.simps [of "nat \<bar>number\<bar>"]
    by (auto simp: decimal_def split: if_splits)
  ultimately show ?thesis using assms
    by (cases result) (auto simp: lwip_itoa_def Let_def c_string_def)
next
  case False
  define n where "n = nat \<bar>number\<bar>"
  define sign where "sign = (if number < 0 then [0x2d] else ([] :: u8 list))"
  define res where "res = length sign"
  define buf where "buf = (if number < 0 then result[0 := 0x2d] else result)[length result - 1 := 0]"
  obtain buf' n' tmp' where it: "itoa_digits buf n (length result - 1) res = (buf', n', tmp')"
    by (metis surj_pair)
  have len: "length buf = length result" by (simp add: buf_def)
  have sign: "take res buf = sign"
    using False by (cases result) (auto simp: buf_def res_def sign_def take_Cons' split: nat.splits)
  have last: "drop (length result - 1) buf = [0]"
    using False by (simp add: buf_def drop_update_swap) (cases result rule: rev_cases, auto simp: nth_append)
  have "res \<le> length result - 1" using False by (auto simp: res_def sign_def)
  note props = itoa_digits_props [OF it this, unfolded sign last len, simplified]
  have res_Some: "lwip_itoa result number = Some (if n' \<noteq> 0 then buf'[0 := 0]
      else if buf' ! tmp' = 0 then buf'[res := 0x30, res + 1 := 0]
      else write_at buf' res (drop tmp' buf'))"
    using False assms it
    by (auto simp: lwip_itoa_def Let_def buf_def res_def sign_def n_def split: if_splits)
  have n0: "digits n = [] \<longleftrightarrow> n = 0" by (subst digits.simps) simp
  have sgn_ok: "\<forall>c \<in> set (sign @ digits n). c \<noteq> 0" using digits_range by (auto simp: sign_def)
  have dec: "decimal number = (if n = 0 then [0x30] else sign @ digits n)"
    by (auto simp: decimal_def n_def sign_def)
  show ?thesis
  proof (cases "length (digits n) \<le> length result - 1 - res")
    case False
    then have "n' \<noteq> 0" "length buf' = length result" "n \<noteq> 0" using props n0 by auto
    then show ?thesis using False dec \<open>\<not> length result < 2\<close>
      by (auto simp: res_Some c_string_0 res_def)
  next
    case True
    then have p: "n' = 0" "tmp' = length result - 1 - length (digits n)"
      "drop tmp' buf' = digits n @ [0]" "length buf' = length result" "take res buf' = sign"
      using props by auto
    have at: "buf' ! tmp' = hd (digits n @ [0])"
      using p(3) by (metis append_is_Nil_conv drop_eq_Nil hd_drop_conv_nth list.distinct(1) not_less)
    show ?thesis
    proof (cases "n = 0")
      case True
      then have "sign = []" by (auto simp: sign_def n_def)
      moreover obtain b0 b1 bs where "buf' = b0 # b1 # bs"
        using p(4) \<open>\<not> length result < 2\<close> by (cases buf' rule: remdups_adj.cases) auto
      ultimately show ?thesis
        using True p(1,4) at n0 dec by (simp add: res_Some res_def c_string_def)
    next
      case n: False
      then have "hd (digits n @ [0]) \<noteq> 0"
        using n0 digits_range [of "hd (digits n)" n] by simp
      then have r: "lwip_itoa result number = Some (sign @ digits n @ [0] @
          drop (res + (length (digits n) + 1)) buf')"
        using p(1,3,5) at by (simp add: res_Some write_at_def)
      moreover have "length (digits n) + res + 1 \<le> length result" "decimal number = sign @ digits n"
        using True dec n \<open>\<not> length result < 2\<close> \<open>res \<le> length result - 1\<close> by simp_all
      ultimately show ?thesis
        using c_string_append [OF sgn_ok] p(4) by (simp add: res_def)
    qed
  qed
qed

end
