(* ===== verification/Inet_Chksum.thy ===== *)
theory Inet_Chksum
  imports Lwip_Def
begin

text \<open>
  The Internet checksum, \<^verbatim>\<open>core/inet_chksum.c\<close>: the three implementations of
  \<^verbatim>\<open>lwip_standard_chksum\<close> (\<^verbatim>\<open>lwipopts.h\<close> selects algorithm 3), \<^verbatim>\<open>inet_chksum\<close>, the sums
  over pbuf chains and the pseudo-header sums of TCP and UDP. A buffer is the list of its
  bytes together with the address of the first one, because the algorithms treat the bytes
  before the first aligned address separately; a pbuf chain is here the list of its
  \<open>(payload address, payload bytes)\<close> pairs. The host is little endian.

  The lemmas show that every routine computes one and the same ones'-complement sum,
  whatever the alignment and the way the bytes are cut into pbufs.
\<close>

section \<open>Loads and the macros of \<^verbatim>\<open>inet_chksum.h\<close>\<close>

definition load16 :: "u8 \<Rightarrow> u8 \<Rightarrow> u16" where
  "load16 b0 b1 = ucast b0 + 256 * ucast b1"

definition load32 :: "u8 \<Rightarrow> u8 \<Rightarrow> u8 \<Rightarrow> u8 \<Rightarrow> u32" where
  "load32 b0 b1 b2 b3 = ucast (load16 b0 b1) + 65536 * ucast (load16 b2 b3)"

definition store16 :: "u16 \<Rightarrow> u8 list" where
  "store16 n = [ucast n, ucast (drop_bit 8 n)]"

definition FOLD_U32T :: "u32 \<Rightarrow> u32" where
  "FOLD_U32T u = drop_bit 16 u + (u AND 0x0000ffff)"

definition SWAP_BYTES_IN_WORD :: "u32 \<Rightarrow> u32" where
  "SWAP_BYTES_IN_WORD w = push_bit 8 (w AND 0xff) OR drop_bit 8 (w AND 0xff00)"

lemma unat_load16 [unat_lwip]: "unat (load16 b0 b1) = unat b0 + 256 * unat b1"
  using u8_lt [of b0] u8_lt [of b1] by (simp add: load16_def unat_word_ariths unat_lwip)

lemma unat_load32 [unat_lwip]:
  "unat (load32 b0 b1 b2 b3) = unat (load16 b0 b1) + 65536 * unat (load16 b2 b3)"
  using u16_lt [of "load16 b0 b1"] u16_lt [of "load16 b2 b3"]
  by (simp add: load32_def unat_word_ariths unat_ucast_up)

lemma unat_FOLD_U32T [unat_lwip]: "unat (FOLD_U32T u) = unat u div 65536 + unat u mod 65536"
  using u32_lt [of u] unat_and_mask [of u 16]
  by (simp add: FOLD_U32T_def unat_word_ariths unat_drop_bit_div mask_numeral)

lemma bit_ff: "bit (0xff :: u32) n \<longleftrightarrow> n < 8"
proof -
  have *: "(0xff :: u32) = mask 8" by (simp add: mask_numeral)
  show ?thesis unfolding * by (auto simp: bit_mask_iff)
qed

lemma bit_ff00: "bit (0xff00 :: u32) n \<longleftrightarrow> 8 \<le> n \<and> n < 16"
proof -
  have *: "(0xff00 :: u32) = push_bit 8 (mask 8)" by (simp add: mask_numeral push_bit_eq_mult)
  show ?thesis unfolding * by (auto simp: bit_simps simp del: push_bit_numeral)
qed

lemma SWAP_BYTES_IN_WORD_add:
  "SWAP_BYTES_IN_WORD w = push_bit 8 (w AND 0xff) + (drop_bit 8 w AND 0xff)"
proof -
  have ff: "(0xff :: u32) = mask 8" by (simp add: mask_numeral)
  have "drop_bit 8 (w AND 0xff00) = drop_bit 8 w AND 0xff"
    by (rule bit_eqI) (auto simp: bit_simps bit_ff bit_ff00)
  moreover have "push_bit 8 (w AND 0xff) OR (drop_bit 8 w AND 0xff) =
      push_bit 8 (w AND 0xff) + (drop_bit 8 w AND 0xff)"
    unfolding ff
    by (rule disjunctive_add [symmetric]) (auto simp: bit_simps simp del: push_bit_and)
  ultimately show ?thesis by (simp add: SWAP_BYTES_IN_WORD_def)
qed

lemma unat_SWAP_BYTES_IN_WORD [unat_lwip]:
  "unat (SWAP_BYTES_IN_WORD w) = 256 * (unat w mod 256) + unat w div 256 mod 256"
proof -
  have "unat (drop_bit 8 w AND 0xff) = unat w div 256 mod 256"
    using unat_and_ff [of "drop_bit 8 w"] unat_drop_bit_div [of 8 w] by simp
  then show ?thesis
    by (simp add: SWAP_BYTES_IN_WORD_add push_bit_eq_mult unat_word_ariths unat_and_ff)
qed

section \<open>Ones'-complement sums as an abstract specification\<close>

text \<open>
  \<open>wsum bs\<close> is the plain sum of the 16-bit words of a buffer, an odd last byte padded with
  a zero byte; \<open>fold16\<close> is what folding all carries back into 16 bits gives: the remainder
  modulo 65535, with 65535 instead of 0 for a positive sum. \<open>sameones\<close> relates two partial
  sums with the same folding.
\<close>

fun wsum :: "u8 list \<Rightarrow> nat" where
  "wsum [] = 0"
| "wsum [b] = unat b"
| "wsum (b0 # b1 # bs) = unat b0 + 256 * unat b1 + wsum bs"

definition fold16 :: "nat \<Rightarrow> nat" where
  "fold16 n = (if n = 0 then 0 else (n - 1) mod 65535 + 1)"

definition sameones :: "nat \<Rightarrow> nat \<Rightarrow> bool" where
  "sameones x n \<longleftrightarrow> x mod 65535 = n mod 65535 \<and> (x = 0 \<longleftrightarrow> n = 0)"

lemma sameones_refl [simp]: "sameones n n"
  by (simp add: sameones_def)

lemma sameones_trans [trans]: "sameones x y \<Longrightarrow> sameones y z \<Longrightarrow> sameones x z"
  by (simp add: sameones_def)

lemma sameones_sym: "sameones x y \<Longrightarrow> sameones y x"
  by (auto simp: sameones_def)

lemma sameones_add: "sameones x n \<Longrightarrow> sameones y m \<Longrightarrow> sameones (x + y) (n + m)"
  unfolding sameones_def by (metis add_is_0 mod_add_cong)

lemma sameones_mult: "0 < k \<Longrightarrow> sameones x n \<Longrightarrow> sameones (k * x) (k * n)"
  unfolding sameones_def by (metis mod_mult_right_eq mult_is_0 neq0_conv)

lemma sameones_65536: "sameones (65536 * x) x"
proof -
  have "65536 * x = x + x * 65535" by simp
  then have "65536 * x mod 65535 = x mod 65535" by (metis mod_mult_self1)
  then show ?thesis by (simp add: sameones_def)
qed

lemma fold16_le: "fold16 n \<le> 65535"
  by (simp add: fold16_def Suc_le_eq)

lemma sameones_fold16: "sameones (fold16 n) n"
proof (cases n)
  case (Suc m)
  then show ?thesis by (simp add: fold16_def sameones_def mod_Suc_eq)
qed (simp add: fold16_def)

lemma sameones_eq: "sameones x y \<Longrightarrow> x \<le> 65535 \<Longrightarrow> y \<le> 65535 \<Longrightarrow> x = y"
  by (cases "x = 65535"; cases "y = 65535") (auto simp: sameones_def)

lemma fold16_unique: "sameones x n \<Longrightarrow> x \<le> 65535 \<Longrightarrow> x = fold16 n"
  using sameones_eq [of x "fold16 n"] sameones_fold16 fold16_le sameones_trans sameones_sym
  by blast

lemma fold16_cong: "sameones x n \<Longrightarrow> fold16 x = fold16 n"
  using fold16_unique [of "fold16 x" n] sameones_fold16 [of x] fold16_le [of x] sameones_trans
  by blast

lemma wsum_Cons: "sameones (wsum (b # bs)) (unat b + 256 * wsum bs)"
proof (induction bs arbitrary: b rule: wsum.induct)
  case (3 b0 b1 bs)
  have "sameones (wsum (b1 # bs)) (65536 * unat b1 + 256 * wsum bs)"
    using 3 [of b1] sameones_add [OF sameones_sym [OF sameones_65536] sameones_refl]
    by (rule sameones_trans)
  then have "sameones (unat b + 256 * unat b0 + wsum (b1 # bs))
      (unat b + 256 * unat b0 + (65536 * unat b1 + 256 * wsum bs))"
    by (rule sameones_add [OF sameones_refl])
  then show ?case by (simp add: algebra_simps)
qed simp_all

lemma wsum_append_even: "even (length xs) \<Longrightarrow> wsum (xs @ ys) = wsum xs + wsum ys"
  by (induction xs rule: wsum.induct) auto

lemma wsum_append_odd:
  "odd (length xs) \<Longrightarrow> sameones (wsum (xs @ ys)) (wsum xs + 256 * wsum ys)"
proof (induction xs rule: wsum.induct)
  case (2 b)
  then show ?case using wsum_Cons [of b ys] by simp
next
  case (3 b0 b1 xs)
  then have "sameones (unat b0 + 256 * unat b1 + wsum (xs @ ys))
      (unat b0 + 256 * unat b1 + (wsum xs + 256 * wsum ys))"
    by (intro sameones_add sameones_refl) simp
  then show ?case by (simp add: algebra_simps)
qed simp

section \<open>Folding and swapping as steps of such a sum\<close>

lemma sameones_FOLD: "sameones (unat (FOLD_U32T u)) (unat u)"
proof -
  have "sameones (unat u div 65536 + unat u mod 65536) (65536 * (unat u div 65536) + unat u mod 65536)"
    by (intro sameones_add sameones_refl sameones_sym [OF sameones_65536])
  then show ?thesis by (simp add: unat_FOLD_U32T)
qed

lemma FOLD_le: "unat u \<le> 0x1fffe \<Longrightarrow> unat (FOLD_U32T u) \<le> 65535"
proof -
  assume "unat u \<le> 0x1fffe"
  then consider "unat u < 65536" | "65536 \<le> unat u" "unat u - 65536 < 65535" by linarith
  then show ?thesis
  proof cases
    case 2
    then have "unat u div 65536 = 1" and "unat u mod 65536 = unat u - 65536"
      by (simp_all add: le_div_geq le_mod_geq)
    with 2 show ?thesis by (simp add: unat_FOLD_U32T)
  qed (simp add: unat_FOLD_U32T)
qed

lemma FOLD_bound: "unat (FOLD_U32T u) \<le> 0x1fffe"
proof -
  have "unat u div 65536 \<le> 65535" "unat u mod 65536 \<le> 65535"
    using u32_lt [of u] by simp_all
  then show ?thesis by (simp add: unat_FOLD_U32T)
qed

lemma FOLD_FOLD: "unat (FOLD_U32T (FOLD_U32T u)) = fold16 (unat u)"
  using sameones_trans [OF sameones_FOLD sameones_FOLD] FOLD_le [OF FOLD_bound]
  by (rule fold16_unique)

lemma sameones_SWAP:
  assumes "unat w \<le> 65535"
  shows "sameones (unat (SWAP_BYTES_IN_WORD w)) (256 * unat w)"
proof -
  have "unat w div 256 mod 256 = unat w div 256" using assms by simp
  then have s: "unat (SWAP_BYTES_IN_WORD w) = 256 * (unat w mod 256) + unat w div 256"
    by (simp add: unat_SWAP_BYTES_IN_WORD)
  have "sameones (256 * (unat w mod 256) + unat w div 256)
      (256 * (unat w mod 256) + 65536 * (unat w div 256))"
    by (intro sameones_add sameones_refl sameones_sym [OF sameones_65536])
  also have "256 * (unat w mod 256) + 65536 * (unat w div 256) = 256 * unat w"
    using mult_div_mod_eq [of 256 "unat w"] by linarith
  finally show ?thesis by (simp add: s)
qed

lemma SWAP_le: "unat (SWAP_BYTES_IN_WORD w) \<le> 65535"
proof -
  have "unat w mod 256 \<le> 255" "unat w div 256 mod 256 \<le> 255" by simp_all
  then show ?thesis by (simp add: unat_SWAP_BYTES_IN_WORD)
qed

section \<open>The three implementations of \<^verbatim>\<open>lwip_standard_chksum\<close>\<close>

text \<open>Algorithm 3: the ping/pong loop over 8 bytes adds back the carry of each 32-bit addition.\<close>

definition add_carry :: "u32 \<Rightarrow> u32 \<Rightarrow> u32" where
  "add_carry acc w = (let tmp = acc + w in if tmp < acc then tmp + 1 else tmp)"

fun chksum_loop8 :: "u32 \<Rightarrow> u8 list \<Rightarrow> u32 \<times> u8 list" where
  "chksum_loop8 acc (b0 # b1 # b2 # b3 # b4 # b5 # b6 # b7 # bs) =
     (let tmp = add_carry acc (load32 b0 b1 b2 b3);
          acc = add_carry tmp (load32 b4 b5 b6 b7)
      in chksum_loop8 acc bs)"
| "chksum_loop8 acc bs = (acc, bs)"

fun chksum_loop2 :: "u32 \<Rightarrow> u8 list \<Rightarrow> u32 \<times> u8 list" where
  "chksum_loop2 acc (b0 # b1 # bs) = chksum_loop2 (acc + ucast (load16 b0 b1)) bs"
| "chksum_loop2 acc bs = (acc, bs)"

definition lwip_standard_chksum :: "nat \<Rightarrow> u8 list \<Rightarrow> u16" where
  "lwip_standard_chksum dataptr bs =
     (let odd_addr = (dataptr mod 2 = 1);
          (t1, pb, bs) = (if odd_addr \<and> length bs > 0 then (hd bs, dataptr + 1, tl bs)
                          else (0, dataptr, bs));
          (acc, bs) = (if pb mod 4 \<noteq> 0 \<and> length bs > 1
                       then (ucast (load16 (bs ! 0) (bs ! 1)), drop 2 bs) else (0, bs));
          (acc, bs) = chksum_loop8 acc bs;
          acc = FOLD_U32T acc;
          (acc, bs) = chksum_loop2 acc bs;
          t0 = (if length bs > 0 then hd bs else 0);
          acc = acc + ucast (load16 t0 t1);
          acc = FOLD_U32T (FOLD_U32T acc)
      in ucast (if odd_addr then SWAP_BYTES_IN_WORD acc else acc))"

definition lwip_standard_chksum_v2 :: "nat \<Rightarrow> u8 list \<Rightarrow> u16" where
  "lwip_standard_chksum_v2 dataptr bs =
     (let odd_addr = (dataptr mod 2 = 1);
          (t1, bs) = (if odd_addr \<and> length bs > 0 then (hd bs, tl bs) else (0, bs));
          (acc, bs) = chksum_loop2 0 bs;
          t0 = (if length bs > 0 then hd bs else 0);
          acc = acc + ucast (load16 t0 t1);
          acc = FOLD_U32T (FOLD_U32T acc)
      in ucast (if odd_addr then SWAP_BYTES_IN_WORD acc else acc))"

text \<open>Algorithm 1 assembles the words in network order and swaps the result once.\<close>

fun chksum_v1_loop :: "u32 \<Rightarrow> u8 list \<Rightarrow> u32" where
  "chksum_v1_loop acc (b0 # b1 # bs) =
     chksum_v1_loop (acc + ucast (push_bit 8 (ucast b0) OR ucast b1 :: u16)) bs"
| "chksum_v1_loop acc [b0] = acc + ucast (push_bit 8 (ucast b0) :: u16)"
| "chksum_v1_loop acc [] = acc"

definition lwip_standard_chksum_v1 :: "u8 list \<Rightarrow> u16" where
  "lwip_standard_chksum_v1 bs =
     (let acc = chksum_v1_loop 0 bs;
          acc = drop_bit 16 acc + (acc AND 0x0000ffff);
          acc = (if acc AND 0xffff0000 \<noteq> 0 then drop_bit 16 acc + (acc AND 0x0000ffff) else acc)
      in lwip_htons (ucast acc))"

section \<open>All of them compute the ones'-complement acc\<close>

lemma unat_add_carry: "sameones (unat (add_carry s w)) (unat s + unat w)"
proof (cases "unat s + unat w < 2 ^ 32")
  case True
  then have "unat (s + w) = unat s + unat w" by (simp add: unat_add_no_wrap)
  then show ?thesis by (simp add: add_carry_def word_less_nat_alt)
next
  case False
  then have t: "unat (s + w) = unat s + unat w - 2 ^ 32"
    using u32_lt [of s] u32_lt [of w] by (simp add: unat_word_ariths le_mod_geq)
  then have lt: "s + w < s"
    using u32_lt [of w] False by (simp add: word_less_nat_alt)
  have "unat (s + w + 1) = unat (s + w) + 1"
    using t u32_lt [of s] u32_lt [of w] False by (simp add: unat_add_no_wrap)
  then have "unat (add_carry s w) + 65535 * 65537 = unat s + unat w"
    using lt t False by (simp add: add_carry_def)
  then have "(unat s + unat w) mod 65535 = unat (add_carry s w) mod 65535"
    by (metis mod_mult_self2)
  moreover have "unat (add_carry s w) \<noteq> 0"
    using lt \<open>unat (s + w + 1) = unat (s + w) + 1\<close> by (simp add: add_carry_def)
  ultimately show ?thesis using False by (auto simp: sameones_def)
qed

lemma chksum_loop8_sum:
  "chksum_loop8 s bs = (s', bs') \<Longrightarrow>
     sameones (unat s' + wsum bs') (unat s + wsum bs) \<and> length bs' < 8 \<and>
     even (length bs') = even (length bs)"
proof (induction s bs arbitrary: s' bs' rule: chksum_loop8.induct)
  case (1 acc b0 b1 b2 b3 b4 b5 b6 b7 bs)
  let ?l = "load32 b0 b1 b2 b3" and ?m = "load32 b4 b5 b6 b7"
  have half: "sameones (unat (load32 c0 c1 c2 c3)) (wsum [c0, c1, c2, c3])" for c0 c1 c2 c3
    using sameones_add [OF sameones_refl sameones_65536,
        of "unat (load16 c0 c1)" "unat (load16 c2 c3)"]
    by (simp add: unat_load32 unat_load16)
  have "sameones (unat (add_carry (add_carry acc ?l) ?m)) (unat acc + unat ?l + unat ?m)"
    by (rule sameones_trans [OF unat_add_carry sameones_add [OF unat_add_carry sameones_refl]])
  also have "sameones (unat acc + unat ?l + unat ?m)
      (unat acc + wsum [b0, b1, b2, b3] + wsum [b4, b5, b6, b7])"
    by (intro sameones_add sameones_refl half)
  finally have "sameones (unat (add_carry (add_carry acc ?l) ?m) + wsum bs)
      (unat acc + wsum [b0, b1, b2, b3] + wsum [b4, b5, b6, b7] + wsum bs)"
    by (rule sameones_add [OF _ sameones_refl])
  moreover have "sameones (unat s' + wsum bs') (unat (add_carry (add_carry acc ?l) ?m) + wsum bs)
      \<and> length bs' < 8 \<and> even (length bs') = even (length bs)"
    using 1 by (simp add: Let_def)
  ultimately show ?case using sameones_trans by (auto simp: algebra_simps)
qed auto

lemma chksum_loop2_sum:
  "chksum_loop2 s bs = (s', bs') \<Longrightarrow> unat s + 65535 * (length bs div 2) < 2 ^ 32 \<Longrightarrow>
     unat s' + wsum bs' = unat s + wsum bs \<and> length bs' \<le> 1 \<and>
     unat s' \<le> unat s + 65535 * (length bs div 2)"
proof (induction s bs arbitrary: s' bs' rule: chksum_loop2.induct)
  case (1 acc b0 b1 bs)
  have "unat (acc + ucast (load16 b0 b1)) = unat acc + unat (load16 b0 b1)"
    using "1.prems" u16_lt [of "load16 b0 b1"]
    by (simp add: unat_add_no_wrap unat_ucast_up)
  with 1 u16_lt [of "load16 b0 b1"] show ?case by (auto simp: unat_load16)
qed auto

lemma chksum_last_byte:
  fixes acc :: u32
  assumes "length bs \<le> 1" and "unat acc \<le> 2 ^ 32 - 65536"
  shows "unat (acc + ucast (load16 (if length bs > 0 then hd bs else 0) t1)) =
    unat acc + wsum bs + 256 * unat t1"
proof -
  define w where "w = load16 (if length bs > 0 then hd bs else 0) t1"
  have "unat w = wsum bs + 256 * unat t1"
    using assms(1) by (cases bs) (auto simp: unat_load16 w_def)
  moreover have "unat (acc + ucast w) = unat acc + unat w"
    using assms(2) u16_lt [of w] by (simp add: unat_add_no_wrap unat_ucast_up)
  ultimately show ?thesis by (simp add: w_def)
qed

lemma chksum_bulk:
  assumes "chksum_loop8 acc bs = (a8, b8)" and "chksum_loop2 (FOLD_U32T a8) b8 = (a2, b2)"
  shows "sameones (unat a2 + wsum b2) (unat acc + wsum bs) \<and> length b2 \<le> 1 \<and>
    unat a2 < 2 ^ 32 - 65536"
proof -
  note l8 = chksum_loop8_sum [OF assms(1)]
  have "unat (FOLD_U32T a8) + 65535 * (length b8 div 2) \<le> 0x1fffe + 65535 * 3"
    using l8 FOLD_bound [of a8] by (intro add_mono mult_le_mono2) auto
  then have l2: "unat a2 + wsum b2 = unat (FOLD_U32T a8) + wsum b8 \<and> length b2 \<le> 1 \<and>
      unat a2 < 2 ^ 32 - 65536"
    using chksum_loop2_sum [OF assms(2)] by auto
  have "sameones (unat (FOLD_U32T a8) + wsum b8) (unat a8 + wsum b8)"
    by (intro sameones_add sameones_FOLD sameones_refl)
  with l8 l2 show ?thesis by (auto intro: sameones_trans)
qed

lemma unat_ucast_u16_le: "unat (w :: u32) \<le> 65535 \<Longrightarrow> unat (ucast w :: u16) = unat w"
  by (simp add: unat_ucast_u16)

text \<open>The common end: the sum is folded twice and, for an odd address, swapped back.\<close>

lemma chksum_end_even:
  assumes "sameones (unat acc) n"
  shows "unat (ucast (FOLD_U32T (FOLD_U32T acc)) :: u16) = fold16 n"
  using assms by (simp add: unat_ucast_u16_le FOLD_FOLD fold16_le fold16_cong)

lemma chksum_end_odd:
  assumes "sameones (unat acc) (wsum bs + 256 * unat b)"
  shows "unat (ucast (SWAP_BYTES_IN_WORD (FOLD_U32T (FOLD_U32T acc))) :: u16) = fold16 (wsum (b # bs))"
proof -
  let ?w = "FOLD_U32T (FOLD_U32T acc)"
  have "sameones (unat (SWAP_BYTES_IN_WORD ?w)) (256 * unat ?w)"
    by (rule sameones_SWAP) (simp add: FOLD_FOLD fold16_le)
  also have "sameones (256 * unat ?w) (256 * (wsum bs + 256 * unat b))"
    using assms by (intro sameones_mult) (auto simp: FOLD_FOLD intro: sameones_trans sameones_fold16)
  also have "256 * (wsum bs + 256 * unat b) = 65536 * unat b + 256 * wsum bs" by simp
  also have "sameones (65536 * unat b + 256 * wsum bs) (unat b + 256 * wsum bs)"
    by (intro sameones_add sameones_65536 sameones_refl)
  also have "sameones (unat b + 256 * wsum bs) (wsum (b # bs))"
    by (rule sameones_sym [OF wsum_Cons])
  finally have "unat (SWAP_BYTES_IN_WORD ?w) = fold16 (wsum (b # bs))"
    using SWAP_le by (rule fold16_unique)
  then show ?thesis using SWAP_le [of ?w] by (simp add: unat_ucast_u16_le)
qed

lemma lwip_standard_chksum_fold: "unat (lwip_standard_chksum dataptr bs) = fold16 (wsum bs)"
proof -
  define od where "od \<longleftrightarrow> dataptr mod 2 = 1"
  define t1 where "t1 = (if od \<and> length bs > 0 then hd bs else 0)"
  define pb where "pb = (if od \<and> length bs > 0 then dataptr + 1 else dataptr)"
  define bs1 where "bs1 = (if od \<and> length bs > 0 then tl bs else bs)"
  define acc where "acc = (if pb mod 4 \<noteq> 0 \<and> length bs1 > 1
      then ucast (load16 (bs1 ! 0) (bs1 ! 1)) else (0 :: u32))"
  define bs2 where "bs2 = (if pb mod 4 \<noteq> 0 \<and> length bs1 > 1 then drop 2 bs1 else bs1)"
  obtain a8 b8 where l8: "chksum_loop8 acc bs2 = (a8, b8)" by (metis surj_pair)
  obtain a2 b2 where l2: "chksum_loop2 (FOLD_U32T a8) b8 = (a2, b2)" by (metis surj_pair)
  have start: "unat acc + wsum bs2 = wsum bs1"
    unfolding acc_def bs2_def
    by (cases bs1 rule: wsum.cases) (auto simp: unat_ucast_up unat_load16)
  note bulk = chksum_bulk [OF l8 l2]
  define t where "t = a2 + ucast (load16 (if length b2 > 0 then hd b2 else 0) t1)"
  have "unat t = unat a2 + wsum b2 + 256 * unat t1"
    unfolding t_def using bulk by (intro chksum_last_byte) auto
  moreover have "sameones (unat a2 + wsum b2 + 256 * unat t1) (wsum bs1 + 256 * unat t1)"
    using bulk start by (intro sameones_add sameones_refl) simp
  ultimately have t: "sameones (unat t) (wsum bs1 + 256 * unat t1)" by simp
  have "lwip_standard_chksum dataptr bs =
      ucast (if od then SWAP_BYTES_IN_WORD (FOLD_U32T (FOLD_U32T t)) else FOLD_U32T (FOLD_U32T t))"
    using l8 l2 unfolding lwip_standard_chksum_def t_def acc_def bs2_def bs1_def t1_def pb_def od_def
    by (auto simp: Let_def)
  moreover have "unat (ucast (FOLD_U32T (FOLD_U32T t)) :: u16) = fold16 (wsum bs)" if "\<not> od"
    using t that by (intro chksum_end_even) (simp add: t1_def bs1_def)
  moreover have "unat (ucast (SWAP_BYTES_IN_WORD (FOLD_U32T (FOLD_U32T t))) :: u16) = fold16 (wsum bs)"
    if od
    using that chksum_end_odd [OF t] by (cases bs) (simp_all add: t1_def bs1_def)
  ultimately show ?thesis by simp
qed

text \<open>The same holds of the other two implementations within the lengths their comments give.\<close>

lemma chksum_v2_sum:
  assumes "length bs \<le> 0x20000"
  shows "unat (lwip_standard_chksum_v2 dataptr bs) = fold16 (wsum bs)"
proof -
  define od where "od \<longleftrightarrow> dataptr mod 2 = 1"
  define t1 where "t1 = (if od \<and> length bs > 0 then hd bs else 0)"
  define bs1 where "bs1 = (if od \<and> length bs > 0 then tl bs else bs)"
  obtain a2 b2 where l2: "chksum_loop2 0 bs1 = (a2, b2)" by (metis surj_pair)
  have "length bs1 div 2 \<le> 0x10000 - (if od then 1 else 0)"
    using assms by (auto simp: bs1_def)
  then have "65535 * (length bs1 div 2) \<le> 65535 * 0x10000" by simp
  then have l2': "unat a2 + wsum b2 = wsum bs1" "length b2 \<le> 1" "unat a2 \<le> 2 ^ 32 - 65536"
    using chksum_loop2_sum [OF l2] by auto
  define t where "t = a2 + ucast (load16 (if length b2 > 0 then hd b2 else 0) t1)"
  have "unat t = unat a2 + wsum b2 + 256 * unat t1"
    unfolding t_def using l2' by (intro chksum_last_byte) auto
  then have t: "sameones (unat t) (wsum bs1 + 256 * unat t1)" using l2' by simp
  have "lwip_standard_chksum_v2 dataptr bs =
      ucast (if od then SWAP_BYTES_IN_WORD (FOLD_U32T (FOLD_U32T t)) else FOLD_U32T (FOLD_U32T t))"
    using l2 unfolding lwip_standard_chksum_v2_def t_def bs1_def t1_def od_def
    by (auto simp: Let_def)
  then show ?thesis
    using t chksum_end_even [of t "wsum bs"] chksum_end_odd [OF t]
    by (cases bs) (auto simp: t1_def bs1_def)
qed

lemma unat_be16: "unat (push_bit 8 (ucast b0) OR ucast b1 :: u16) = 256 * unat (b0 :: u8) + unat (b1 :: u8)"
proof -
  have "(push_bit 8 (ucast b0) OR ucast b1 :: u16) = push_bit 8 (ucast b0) + ucast b1"
    by (rule disjunctive_add [symmetric]) (auto simp: bit_simps)
  then show ?thesis
    using u8_lt [of b0] u8_lt [of b1]
    by (simp add: push_bit_eq_mult unat_word_ariths unat_ucast_up)
qed

lemma sameones_swap_bytes:
  assumes "x \<le> 65535"
  shows "sameones (256 * (x mod 256) + x div 256) (256 * x)"
proof -
  have "sameones (256 * (x mod 256) + x div 256) (256 * (x mod 256) + 65536 * (x div 256))"
    by (intro sameones_add sameones_refl sameones_sym [OF sameones_65536])
  also have "256 * (x mod 256) + 65536 * (x div 256) = 256 * x"
    using mult_div_mod_eq [of 256 x] by linarith
  finally show ?thesis .
qed

lemma chksum_v1_loop_sum:
  "unat acc + 65535 * ((length bs + 1) div 2) < 2 ^ 32 \<Longrightarrow>
     sameones (unat (chksum_v1_loop acc bs)) (unat acc + 256 * wsum bs)"
proof (induction acc bs rule: chksum_v1_loop.induct)
  case (1 acc b0 b1 bs)
  define w where "w = (push_bit 8 (ucast b0) OR ucast b1 :: u16)"
  have w: "unat w = 256 * unat b0 + unat b1" by (simp add: w_def unat_be16)
  have a: "unat (acc + ucast w) = unat acc + unat w"
    using "1.prems" u16_lt [of w] by (simp add: unat_add_no_wrap unat_ucast_up)
  have "sameones (unat (chksum_v1_loop (acc + ucast w) bs)) (unat (acc + ucast w) + 256 * wsum bs)"
    unfolding w_def by (rule "1.IH") (use "1.prems" a u16_lt [of w] in \<open>simp add: w_def\<close>)
  also have "unat (acc + ucast w) + 256 * wsum bs = unat acc + 256 * unat b0 + 256 * wsum bs + unat b1"
    using a w by simp
  also have "sameones \<dots> (unat acc + 256 * unat b0 + 256 * wsum bs + 65536 * unat b1)"
    by (intro sameones_add sameones_refl sameones_sym [OF sameones_65536])
  finally show ?case by (simp add: w_def algebra_simps)
next
  case (2 acc b0)
  have "unat (push_bit 8 (ucast b0) :: u16) = 256 * unat b0"
    using unat_be16 [of b0 0] by simp
  with 2 u16_lt [of "push_bit 8 (ucast b0)"] show ?case
    by (simp add: unat_add_no_wrap unat_ucast_up)
qed simp

lemma chksum_v1_sum:
  assumes "length bs \<le> 0x10000"
  shows "unat (lwip_standard_chksum_v1 bs) = fold16 (wsum bs)"
proof -
  define a where "a = chksum_v1_loop 0 bs"
  define f where "f = (if FOLD_U32T a AND 0xffff0000 \<noteq> 0 then FOLD_U32T (FOLD_U32T a) else FOLD_U32T a)"
  have "(length bs + 1) div 2 \<le> 0x8000" using assms by simp
  then have "65535 * ((length bs + 1) div 2) \<le> 65535 * 0x8000" by (rule mult_le_mono2)
  then have a: "sameones (unat a) (256 * wsum bs)"
    using chksum_v1_loop_sum [of 0 bs] by (simp add: a_def)
  have f: "unat f \<le> 65535 \<and> sameones (unat f) (unat a)"
  proof (cases "FOLD_U32T a AND 0xffff0000 = 0")
    case True
    have "unat (FOLD_U32T a) < 65536"
    proof (rule ccontr)
      assume "\<not> ?thesis"
      then have "drop_bit 16 (FOLD_U32T a) \<noteq> 0"
        using unat_drop_bit_div [of 16 "FOLD_U32T a"] by (auto simp: div_eq_0_iff)
      then obtain i where "bit (FOLD_U32T a) (16 + i)"
        by (auto simp: bit_eq_iff bit_simps)
      then have "bit (FOLD_U32T a AND push_bit 16 (mask 16)) (16 + i)"
        by (auto simp: bit_simps simp del: push_bit_numeral dest: bit_imp_le_length)
      then have "FOLD_U32T a AND push_bit 16 (mask 16) \<noteq> 0" by auto
      with True show False by (simp add: mask_numeral push_bit_eq_mult)
    qed
    then show ?thesis using True by (simp add: f_def sameones_FOLD)
  next
    case False
    then show ?thesis
      by (auto simp: f_def FOLD_FOLD fold16_le sameones_fold16)
  qed
  have "unat (ucast f :: u16) = unat f" using f by (simp add: unat_ucast_u16_le)
  then have "unat (lwip_standard_chksum_v1 bs) = 256 * (unat f mod 256) + unat f div 256"
    unfolding lwip_standard_chksum_v1_def Let_def FOLD_U32T_def [symmetric] a_def [symmetric]
      f_def [symmetric]
    by (simp add: unat_lwip_htons)
  moreover have "sameones (256 * (unat f mod 256) + unat f div 256) (256 * unat f)"
    using f by (intro sameones_swap_bytes) simp
  moreover have "sameones (256 * unat f) (256 * (256 * wsum bs))"
    using f a by (intro sameones_mult) (auto intro: sameones_trans)
  moreover have "sameones (256 * (256 * wsum bs)) (wsum bs)"
    using sameones_65536 [of "wsum bs"] by simp
  ultimately have "sameones (unat (lwip_standard_chksum_v1 bs)) (wsum bs)"
    using sameones_trans by metis
  then show ?thesis
    using u16_lt [of "lwip_standard_chksum_v1 bs"] by (intro fold16_unique) auto
qed

section \<open>Checksums of packets\<close>

definition inet_chksum :: "nat \<Rightarrow> u8 list \<Rightarrow> u16" where
  "inet_chksum dataptr bs = NOT (lwip_standard_chksum dataptr bs)"

text \<open>
  The loop over a pbuf chain that \<^verbatim>\<open>inet_chksum_pbuf\<close> and the pseudo-header sums share: after
  a pbuf of odd length the bytes of the running sum are swapped.
\<close>

type_synonym chain = "(nat \<times> u8 list) list"

fun chksum_chain :: "u32 \<Rightarrow> bool \<Rightarrow> chain \<Rightarrow> u32 \<times> bool" where
  "chksum_chain acc swapped [] = (acc, swapped)"
| "chksum_chain acc swapped ((payload, bs) # q) =
     (let acc = FOLD_U32T (acc + ucast (lwip_standard_chksum payload bs))
      in if length bs mod 2 \<noteq> 0
         then chksum_chain (SWAP_BYTES_IN_WORD acc) (\<not> swapped) q
         else chksum_chain acc swapped q)"

definition inet_chksum_pbuf :: "chain \<Rightarrow> u16" where
  "inet_chksum_pbuf p =
     (let (acc, swapped) = chksum_chain 0 False p;
          acc = (if swapped then SWAP_BYTES_IN_WORD acc else acc)
      in NOT (ucast (acc AND 0xffff)))"

definition inet_cksum_pseudo_base :: "chain \<Rightarrow> u8 \<Rightarrow> u16 \<Rightarrow> u32 \<Rightarrow> u16" where
  "inet_cksum_pseudo_base p proto proto_len acc =
     (let (acc, swapped) = chksum_chain acc False p;
          acc = (if swapped then SWAP_BYTES_IN_WORD acc else acc);
          acc = acc + ucast (lwip_htons (ucast proto));
          acc = acc + ucast (lwip_htons proto_len);
          acc = FOLD_U32T (FOLD_U32T acc)
      in NOT (ucast (acc AND 0xffff)))"

text \<open>Addresses are kept in network byte order, as the \<^verbatim>\<open>u32_t\<close> words of the structs.\<close>

definition add_addr :: "u32 \<Rightarrow> u32 \<Rightarrow> u32" where
  "add_addr acc addr = acc + (addr AND 0xffff) + (drop_bit 16 addr AND 0xffff)"

definition inet_chksum_pseudo :: "chain \<Rightarrow> u8 \<Rightarrow> u16 \<Rightarrow> u32 \<Rightarrow> u32 \<Rightarrow> u16" where
  "inet_chksum_pseudo p proto proto_len src dest =
     inet_cksum_pseudo_base p proto proto_len
       (FOLD_U32T (FOLD_U32T (add_addr (add_addr 0 src) dest)))"

type_synonym ip6_words = "u32 \<times> u32 \<times> u32 \<times> u32"

fun ip6_parts :: "ip6_words \<Rightarrow> u32 list" where
  "ip6_parts (a0, a1, a2, a3) = [a0, a1, a2, a3]"

fun ip6_addr_sum :: "u32 \<Rightarrow> (u32 \<times> u32) list \<Rightarrow> u32" where
  "ip6_addr_sum acc ((s, d) # parts) = ip6_addr_sum (add_addr (add_addr acc s) d) parts"
| "ip6_addr_sum acc [] = acc"

definition ip6_chksum_pseudo :: "chain \<Rightarrow> u8 \<Rightarrow> u16 \<Rightarrow> ip6_words \<Rightarrow> ip6_words \<Rightarrow> u16" where
  "ip6_chksum_pseudo p proto proto_len src dest =
     inet_cksum_pseudo_base p proto proto_len
       (FOLD_U32T (FOLD_U32T (ip6_addr_sum 0 (zip (ip6_parts src) (ip6_parts dest)))))"

text \<open>The sums over the first \<open>chksum_len\<close> bytes of a chain; the assertion aborts.\<close>

fun chksum_chain_partial :: "u32 \<Rightarrow> bool \<Rightarrow> u16 \<Rightarrow> chain \<Rightarrow> (u32 \<times> bool) option" where
  "chksum_chain_partial acc swapped chksum_len [] = Some (acc, swapped)"
| "chksum_chain_partial acc swapped chksum_len ((payload, bs) # q) =
     (if chksum_len > 0 then do {
        let chklen = (if length bs > unat chksum_len then chksum_len else word_of_nat (length bs));
        let acc = acc + ucast (lwip_standard_chksum payload (take (unat chklen) bs));
        let chksum_len = chksum_len - chklen;
        lwip_assert (chksum_len < 0x7fff);
        let acc = FOLD_U32T acc;
        if length bs mod 2 \<noteq> 0
        then chksum_chain_partial (SWAP_BYTES_IN_WORD acc) (\<not> swapped) chksum_len q
        else chksum_chain_partial acc swapped chksum_len q
      } else Some (acc, swapped))"

definition inet_cksum_pseudo_partial_base ::
  "chain \<Rightarrow> u8 \<Rightarrow> u16 \<Rightarrow> u16 \<Rightarrow> u32 \<Rightarrow> u16 option" where
  "inet_cksum_pseudo_partial_base p proto proto_len chksum_len acc = do {
     (acc, swapped) \<leftarrow> chksum_chain_partial acc False chksum_len p;
     let acc = (if swapped then SWAP_BYTES_IN_WORD acc else acc);
     let acc = acc + ucast (lwip_htons (ucast proto));
     let acc = acc + ucast (lwip_htons proto_len);
     let acc = FOLD_U32T (FOLD_U32T acc);
     Some (NOT (ucast (acc AND 0xffff)))
   }"

definition inet_chksum_pseudo_partial ::
  "chain \<Rightarrow> u8 \<Rightarrow> u16 \<Rightarrow> u16 \<Rightarrow> u32 \<Rightarrow> u32 \<Rightarrow> u16 option" where
  "inet_chksum_pseudo_partial p proto proto_len chksum_len src dest =
     inet_cksum_pseudo_partial_base p proto proto_len chksum_len
       (FOLD_U32T (FOLD_U32T (add_addr (add_addr 0 src) dest)))"

definition ip6_chksum_pseudo_partial ::
  "chain \<Rightarrow> u8 \<Rightarrow> u16 \<Rightarrow> u16 \<Rightarrow> ip6_words \<Rightarrow> ip6_words \<Rightarrow> u16 option" where
  "ip6_chksum_pseudo_partial p proto proto_len chksum_len src dest =
     inet_cksum_pseudo_partial_base p proto proto_len chksum_len
       (FOLD_U32T (FOLD_U32T (ip6_addr_sum 0 (zip (ip6_parts src) (ip6_parts dest)))))"

section \<open>Correctness of the packet checksums\<close>

definition chain_bytes :: "chain \<Rightarrow> u8 list" where
  "chain_bytes p = concat (map snd p)"

lemma chain_bytes_simps [simp]:
  "chain_bytes [] = []"
  "chain_bytes ((a, bs) # p) = bs @ chain_bytes p"
  by (simp_all add: chain_bytes_def)

text \<open>While \<open>swapped\<close> is set, the running sum is 256 times the sum of the bytes so far.\<close>

definition turned :: "bool \<Rightarrow> nat \<Rightarrow> nat" where
  "turned sw n = (if sw then 256 * n else n)"

lemma turned_turned: "sameones (turned sw (turned sw n)) n"
  using sameones_65536 [of n] by (simp add: turned_def)

lemma turned_add: "turned sw (a + b) = turned sw a + turned sw b"
  by (simp add: turned_def)

lemma sameones_turned: "sameones a b \<Longrightarrow> sameones (turned sw a) (turned sw b)"
  by (auto simp: turned_def intro: sameones_mult)

lemma turned_not: "sameones (turned (\<not> sw) n) (256 * turned sw n)"
  using sameones_sym [OF sameones_65536 [of n]] by (simp add: turned_def)

lemma wsum_append:
  "sameones (wsum (xs @ ys)) (wsum xs + turned (odd (length xs)) (wsum ys))"
  using wsum_append_odd [of xs ys] wsum_append_even [of xs ys] by (auto simp: turned_def)

lemma turned_append:
  "sameones (n + turned sw (wsum bs) + turned (sw \<noteq> odd (length bs)) (wsum cs))
     (n + turned sw (wsum (bs @ cs)))"
proof -
  have "sameones (turned sw (wsum bs) + turned sw (turned (odd (length bs)) (wsum cs)))
      (turned sw (wsum (bs @ cs)))"
    using sameones_turned [OF sameones_sym [OF wsum_append]] by (simp add: turned_add)
  moreover have "sameones (turned (sw \<noteq> odd (length bs)) (wsum cs))
      (turned sw (turned (odd (length bs)) (wsum cs)))"
    using sameones_sym [OF sameones_65536 [of "wsum cs"]] by (simp add: turned_def)
  ultimately have "sameones (turned sw (wsum bs) + turned (sw \<noteq> odd (length bs)) (wsum cs))
      (turned sw (wsum (bs @ cs)))"
    using sameones_trans [OF sameones_add [OF sameones_refl]] by blast
  from sameones_add [OF sameones_refl this, of n] show ?thesis by (simp add: add.assoc)
qed

lemma chksum_step:
  assumes "unat acc \<le> 65535" and "sameones (unat acc) (turned sw n)"
    and "a = FOLD_U32T (acc + ucast (lwip_standard_chksum payload bs))"
  shows "unat a \<le> 65535 \<and> sameones (unat a) (turned sw (n + turned sw (wsum bs)))"
proof -
  let ?c = "lwip_standard_chksum payload bs"
  have sum: "unat (acc + ucast ?c) = unat acc + unat ?c"
    using assms(1) u16_lt [of ?c] by (simp add: unat_add_no_wrap unat_ucast_up)
  have "unat a \<le> 65535"
    unfolding assms(3) by (rule FOLD_le) (use sum assms(1) u16_lt [of ?c] in simp)
  moreover have "sameones (unat a) (unat acc + unat ?c)"
    using sameones_FOLD [of "acc + ucast ?c"] sum by (simp add: assms(3))
  moreover have "sameones (unat acc + unat ?c) (turned sw n + turned sw (turned sw (wsum bs)))"
    using assms(2) sameones_trans [OF sameones_fold16 sameones_sym [OF turned_turned]]
    by (intro sameones_add) (simp_all add: lwip_standard_chksum_fold)
  ultimately show ?thesis by (auto simp: turned_add intro: sameones_trans)
qed

lemma chksum_swap_step:
  assumes "unat a \<le> 65535" and "sameones (unat a) (turned sw m)"
  shows "unat (if od then SWAP_BYTES_IN_WORD a else a) \<le> 65535 \<and>
    sameones (unat (if od then SWAP_BYTES_IN_WORD a else a)) (turned (sw \<noteq> od) m)"
proof (cases od)
  case True
  have "sameones (unat (SWAP_BYTES_IN_WORD a)) (turned (\<not> sw) m)"
    using sameones_trans [OF sameones_SWAP [OF assms(1)] sameones_trans [OF sameones_mult [OF _ assms(2)]
        sameones_sym [OF turned_not]]] by simp
  with True SWAP_le show ?thesis by simp
qed (use assms in simp)

lemma chksum_chain_Cons:
  "chksum_chain acc sw ((payload, bs) # q) =
     (let a = FOLD_U32T (acc + ucast (lwip_standard_chksum payload bs)); od = odd (length bs)
      in chksum_chain (if od then SWAP_BYTES_IN_WORD a else a) (sw \<noteq> od) q)"
  by (simp add: Let_def odd_iff_mod_2_eq_one)

lemma chksum_chain_sum:
  assumes "chksum_chain acc sw p = (acc', sw')"
    and "unat acc \<le> 65535" and "sameones (unat acc) (turned sw n)"
  shows "unat acc' \<le> 65535 \<and> sw' = (sw \<noteq> odd (length (chain_bytes p))) \<and>
    sameones (unat acc') (turned sw' (n + turned sw (wsum (chain_bytes p))))"
  using assms
proof (induction p arbitrary: acc sw n)
  case Nil
  then show ?case by (auto simp: turned_def split: if_splits)
next
  case (Cons x q)
  obtain payload bs where x: "x = (payload, bs)" by (metis surj_pair)
  define a where "a = FOLD_U32T (acc + ucast (lwip_standard_chksum payload bs))"
  define od where "od = odd (length bs)"
  define m where "m = n + turned sw (wsum bs)"
  have c: "chksum_chain (if od then SWAP_BYTES_IN_WORD a else a) (sw \<noteq> od) q = (acc', sw')"
    using Cons.prems(1) unfolding x chksum_chain_Cons Let_def a_def od_def .
  have a: "unat a \<le> 65535 \<and> sameones (unat a) (turned sw m)"
    unfolding m_def by (rule chksum_step [OF Cons.prems(2,3) a_def])
  note st = chksum_swap_step [OF conjunct1 [OF a] conjunct2 [OF a], of od]
  note ih = Cons.IH [OF c conjunct1 [OF st] conjunct2 [OF st]]
  have "sameones (m + turned (sw \<noteq> od) (wsum (chain_bytes q))) (n + turned sw (wsum (chain_bytes (x # q))))"
    unfolding m_def od_def x chain_bytes_simps by (rule turned_append)
  from sameones_turned [OF this] ih
  have "sameones (unat acc') (turned sw' (n + turned sw (wsum (chain_bytes (x # q)))))"
    by (metis sameones_trans)
  with ih show ?case by (auto simp: x od_def)
qed

lemma chksum_unswap:
  assumes "unat acc \<le> 65535" and "sameones (unat acc) (turned sw t)"
  shows "unat (if sw then SWAP_BYTES_IN_WORD acc else acc) \<le> 65535"
    and "sameones (unat (if sw then SWAP_BYTES_IN_WORD acc else acc)) t"
  using chksum_swap_step [OF assms, of sw] by (simp_all add: turned_def)

lemma chksum_chain_total:
  assumes "chksum_chain acc False p = (acc', sw')" and "unat acc \<le> 65535"
    and "sameones (unat acc) n" and "a = (if sw' then SWAP_BYTES_IN_WORD acc' else acc')"
  shows "unat a \<le> 65535 \<and> sameones (unat a) (n + wsum (chain_bytes p))"
proof -
  have start: "sameones (unat acc) (turned False n)" using assms(3) by (simp add: turned_def)
  have "unat acc' \<le> 65535" "sameones (unat acc') (turned sw' (n + wsum (chain_bytes p)))"
    using chksum_chain_sum [OF assms(1,2) start] by (auto simp: turned_def [of False])
  from chksum_unswap [OF this] show ?thesis by (simp add: assms(4))
qed

lemma NOT_u16: "unat (NOT x :: u16) = 65535 - unat x"
proof -
  have max: "x \<le> 65535" using u16_lt [of x] by (simp add: word_le_nat_alt)
  have "NOT x = 65535 - x" by (simp add: not_eq_complement)
  then show ?thesis using unat_diff_le [OF max] by simp
qed

text \<open>C39: the checksum of a pbuf chain is the complement of the ones'-complement sum of the
  concatenated payloads: neither the lengths of the pbufs (odd ones make the routine swap the
  bytes of its running sum) nor their alignment matter.\<close>

theorem inet_chksum_pbuf_concat:
  "unat (inet_chksum_pbuf p) = 65535 - fold16 (wsum (chain_bytes p))"
proof -
  obtain acc sw where c: "chksum_chain 0 False p = (acc, sw)" by (metis surj_pair)
  define a where "a = (if sw then SWAP_BYTES_IN_WORD acc else acc)"
  have a: "unat a \<le> 65535 \<and> sameones (unat a) (wsum (chain_bytes p))"
    using chksum_chain_total [OF c _ _ a_def, of 0] by simp
  have "unat (a AND 0xffff) = unat a" using a by (simp add: unat_and_ffff)
  moreover have "unat a = fold16 (wsum (chain_bytes p))" using a by (simp add: fold16_unique)
  ultimately have "unat (ucast (a AND 0xffff) :: u16) = fold16 (wsum (chain_bytes p))"
    using a by (simp add: unat_ucast_u16_le)
  then show ?thesis by (simp add: inet_chksum_pbuf_def c a_def NOT_u16)
qed

lemma pseudo_finish:
  assumes "unat a \<le> 65535" and "sameones (unat a) t"
  shows "unat (NOT (ucast (FOLD_U32T (FOLD_U32T (a + ucast h + ucast l)) AND 0xffff)) :: u16) =
    65535 - fold16 (t + unat (h :: u16) + unat (l :: u16))"
proof -
  have "unat (a + ucast h) = unat a + unat h"
    using assms u16_lt [of h] by (simp add: unat_add_no_wrap unat_ucast_up)
  then have s: "unat (a + ucast h + ucast l) = unat a + unat h + unat l"
    using assms u16_lt [of h] u16_lt [of l] by (simp add: unat_add_no_wrap unat_ucast_up)
  define f where "f = FOLD_U32T (FOLD_U32T (a + ucast h + ucast l))"
  have "unat f = fold16 (unat a + unat h + unat l)" by (simp add: f_def FOLD_FOLD s)
  also have "\<dots> = fold16 (t + unat h + unat l)"
    by (intro fold16_cong sameones_add assms sameones_refl)
  finally have f: "unat f = fold16 (t + unat h + unat l)" .
  then have "unat (f AND 0xffff) = unat f"
    using fold16_le [of "t + unat h + unat l"] by (simp add: unat_and_ffff)
  then have "unat (ucast (f AND 0xffff) :: u16) = unat f"
    using f fold16_le by (simp add: unat_ucast_u16_le)
  then show ?thesis using f by (simp add: NOT_u16 f_def)
qed

lemma inet_cksum_pseudo_base_sum:
  assumes "unat acc \<le> 65535" and "sameones (unat acc) n"
  shows "unat (inet_cksum_pseudo_base p proto proto_len acc) =
    65535 - fold16 (n + wsum (chain_bytes p) + unat (lwip_htons (ucast proto)) + unat (lwip_htons proto_len))"
proof -
  obtain acc' sw where c: "chksum_chain acc False p = (acc', sw)" by (metis surj_pair)
  define a where "a = (if sw then SWAP_BYTES_IN_WORD acc' else acc')"
  have "unat a \<le> 65535" "sameones (unat a) (n + wsum (chain_bytes p))"
    using chksum_chain_total [OF c assms a_def] by simp_all
  from pseudo_finish [OF this] show ?thesis
    unfolding inet_cksum_pseudo_base_def c a_def Let_def by simp
qed

text \<open>The pseudo headers of RFC 793 and RFC 8200, byte by byte.\<close>

definition addr_bytes :: "u32 \<Rightarrow> u8 list" where
  "addr_bytes a = [ucast a, ucast (drop_bit 8 a), ucast (drop_bit 16 a), ucast (drop_bit 24 a)]"

definition be16_bytes :: "u16 \<Rightarrow> u8 list" where
  "be16_bytes n = [ucast (drop_bit 8 n), ucast n]"

definition pseudo_header :: "u8 list \<Rightarrow> u8 list \<Rightarrow> u8 \<Rightarrow> u16 \<Rightarrow> u8 list" where
  "pseudo_header src dest proto len = src @ dest @ [0, proto] @ be16_bytes len"

lemma unat_ucast_u8 [unat_lwip]: "unat (ucast (w :: 'a::len word) :: u8) = unat w mod 256"
  by (simp add: unsigned_ucast_eq take_bit_eq_mod)

lemma addr_bytes_sum:
  "unat a mod 65536 + unat a div 65536 = wsum (addr_bytes a)"
proof -
  have "unat a mod 65536 = unat a mod 256 + 256 * (unat a div 256 mod 256)"
    using mod_mult2_eq [of "unat a" 256 256] by simp
  moreover have "unat a div 65536 = unat a div 65536 mod 256 + 256 * (unat a div 16777216)"
    using mult_div_mod_eq [of 256 "unat a div 65536"] by (simp add: div_mult2_eq [symmetric])
  moreover have "unat a div 16777216 mod 256 = unat a div 16777216"
    using u32_lt [of a] by simp
  ultimately show ?thesis
    by (simp add: addr_bytes_def unat_ucast_u8 unat_drop_bit_div)
qed

lemma wsum_addr_bytes_le: "wsum (addr_bytes a) \<le> 131070"
proof -
  have "unat a mod 65536 \<le> 65535" "unat a div 65536 \<le> 65535" using u32_lt [of a] by simp_all
  then show ?thesis by (simp add: addr_bytes_sum [symmetric])
qed

lemma unat_add_addr:
  assumes "unat acc \<le> 0xfff00000"
  shows "unat (add_addr acc a) = unat acc + wsum (addr_bytes a)"
proof -
  define l where "l = a AND 0xffff"
  define h where "h = drop_bit 16 a AND 0xffff"
  have "unat h = unat a div 65536" "unat l = unat a mod 65536"
    using u32_lt [of a] by (simp_all add: l_def h_def unat_and_ffff unat_drop_bit_div)
  then have hl: "unat l + unat h = wsum (addr_bytes a)" by (simp add: addr_bytes_sum)
  then have "unat (acc + l) = unat acc + unat l"
    using assms wsum_addr_bytes_le [of a] by (simp add: unat_add_no_wrap)
  then have "unat (acc + l + h) = unat acc + unat l + unat h"
    using assms hl wsum_addr_bytes_le [of a] by (simp add: unat_add_no_wrap)
  then show ?thesis using hl by (simp add: add_addr_def l_def h_def)
qed

lemma htons_sum:
  "unat (lwip_htons (ucast proto)) = 256 * unat (proto :: u8)"
  "unat (lwip_htons len) = wsum (be16_bytes len)"
  using u8_lt [of proto] u16_lt [of len]
  by (simp_all add: unat_lwip_htons unat_ucast_up be16_bytes_def unat_ucast_u8 unat_drop_bit_div)

lemma pseudo_base_bytes:
  "unat (inet_cksum_pseudo_base p proto len (FOLD_U32T (FOLD_U32T acc))) =
      65535 - fold16 (unat acc + wsum (chain_bytes p) + 256 * unat proto + wsum (be16_bytes len))"
proof -
  have f: "unat (FOLD_U32T (FOLD_U32T acc)) \<le> 65535"
    "sameones (unat (FOLD_U32T (FOLD_U32T acc))) (unat acc)"
    by (simp_all add: FOLD_FOLD fold16_le sameones_fold16)
  show ?thesis
    using inet_cksum_pseudo_base_sum [OF f, of p proto len, unfolded htons_sum(1)]
    by (simp only: htons_sum(2))
qed

lemma length_header_bytes [simp]: "length (addr_bytes a) = 4" "length (be16_bytes n) = 2"
  by (simp_all add: addr_bytes_def be16_bytes_def)

lemma unat_add_addr_pair:
  "unat (add_addr (add_addr 0 src) dest) = wsum (addr_bytes src) + wsum (addr_bytes dest)"
  using wsum_addr_bytes_le [of src] by (simp add: unat_add_addr)

text \<open>The IPv4 pseudo-header checksum of TCP and UDP is the complement of the
  ones'-complement sum of the pseudo header (source, destination, zero, protocol, length)
  followed by the bytes of the pbuf chain, wherever the chain is cut.\<close>

lemma inet_chksum_pseudo_rfc:
  "unat (inet_chksum_pseudo p proto len src dest) = 65535 - fold16 (wsum
     (pseudo_header (addr_bytes src) (addr_bytes dest) proto len @ chain_bytes p))"
  by (simp add: inet_chksum_pseudo_def pseudo_base_bytes pseudo_header_def wsum_append_even
      unat_add_addr_pair algebra_simps)

lemma unat_ip6_addr_sum:
  "unat acc + 262140 * length parts \<le> 0xfff00000 \<Longrightarrow>
     unat (ip6_addr_sum acc parts) =
       unat acc + (\<Sum>(s, d) \<leftarrow> parts. wsum (addr_bytes s) + wsum (addr_bytes d))"
proof (induction acc parts rule: ip6_addr_sum.induct)
  case (1 acc s d parts)
  have "unat (add_addr (add_addr acc s) d) = unat acc + wsum (addr_bytes s) + wsum (addr_bytes d)"
    using "1.prems" wsum_addr_bytes_le [of s] by (simp add: unat_add_addr)
  with 1 wsum_addr_bytes_le [of s] wsum_addr_bytes_le [of d] show ?case by simp
qed simp

definition pseudo_header6 :: "ip6_words \<Rightarrow> ip6_words \<Rightarrow> u8 \<Rightarrow> u16 \<Rightarrow> u8 list" where
  "pseudo_header6 src dest proto len =
     concat (map addr_bytes (ip6_parts src)) @ concat (map addr_bytes (ip6_parts dest)) @
     [0, 0] @ be16_bytes len @ [0, 0, 0, proto]"

text \<open>The IPv6 pseudo-header checksum is the complement of the sum of the RFC 8200
  pseudo header followed by the bytes of the chain.\<close>

lemma ip6_chksum_pseudo_rfc:
  "unat (ip6_chksum_pseudo p proto len src dest) = 65535 - fold16 (wsum
     (pseudo_header6 src dest proto len @ chain_bytes p))"
proof -
  obtain s0 s1 s2 s3 where s: "src = (s0, s1, s2, s3)" by (metis surj_pair)
  obtain d0 d1 d2 d3 where d: "dest = (d0, d1, d2, d3)" by (metis surj_pair)
  have "unat (ip6_addr_sum 0 (zip (ip6_parts src) (ip6_parts dest))) =
      wsum (addr_bytes s0) + wsum (addr_bytes d0) + (wsum (addr_bytes s1) + wsum (addr_bytes d1)) +
      (wsum (addr_bytes s2) + wsum (addr_bytes d2)) + (wsum (addr_bytes s3) + wsum (addr_bytes d3))"
    by (subst unat_ip6_addr_sum) (simp_all add: s d)
  then show ?thesis
    unfolding ip6_chksum_pseudo_def pseudo_base_bytes
    by (simp add: pseudo_header6_def s d wsum_append_even algebra_simps)
qed

lemma chksum_chain_partial_0 [simp]: "chksum_chain_partial acc sw 0 p = Some (acc, sw)"
  by (cases "(acc, sw, 0 :: u16, p)" rule: chksum_chain_partial.cases) auto

lemma chksum_chain_partial_sum:
  assumes "chksum_chain_partial acc sw l p = Some (acc', sw')"
    and "unat acc \<le> 65535" and "sameones (unat acc) (turned sw n)"
  shows "unat acc' \<le> 65535 \<and>
    sameones (unat acc') (turned sw' (n + turned sw (wsum (take (unat l) (chain_bytes p)))))"
  using assms
proof (induction p arbitrary: acc sw l n)
  case Nil
  then show ?case by (auto simp: turned_def split: if_splits)
next
  case (Cons x q)
  obtain payload bs where x: "x = (payload, bs)" by (metis surj_pair)
  define k where "k = (if length bs > unat l then l else word_of_nat (length bs))"
  define ds where "ds = take (unat k) bs"
  define a where "a = FOLD_U32T (acc + ucast (lwip_standard_chksum payload ds))"
  define od where "od = odd (length bs)"
  define acc2 where "acc2 = (if od then SWAP_BYTES_IN_WORD a else a)"
  define m where "m = n + turned sw (wsum ds)"
  show ?case
  proof (cases "l = 0")
    case True
    then show ?thesis using Cons.prems by (auto simp: x turned_def split: if_splits)
  next
    case False
    then have c: "chksum_chain_partial acc2 (sw \<noteq> od) (l - k) q = Some (acc', sw')"
      using Cons.prems(1) unfolding x acc2_def od_def a_def ds_def k_def
      by (auto simp: Let_def lwip_assert_bind_Some word_gt_0 odd_iff_mod_2_eq_one split: if_splits)
    have a: "unat a \<le> 65535 \<and> sameones (unat a) (turned sw m)"
      unfolding m_def by (rule chksum_step [OF Cons.prems(2,3) a_def])
    have st: "unat acc2 \<le> 65535" "sameones (unat acc2) (turned (sw \<noteq> od) m)"
      using chksum_swap_step [OF conjunct1 [OF a] conjunct2 [OF a], of od] by (simp_all add: acc2_def)
    show ?thesis
    proof (cases "length bs > unat l")
      case True
      then have "acc' = acc2" "sw' = (sw \<noteq> od)" "ds = take (unat l) bs"
        using c by (simp_all add: k_def ds_def)
      then show ?thesis using True st by (simp add: m_def x)
    next
      case False
      have "unat (word_of_nat (length bs) :: u16) = length bs"
        using False u16_lt [of l] by (simp add: unat_of_nat)
      then have k: "unat k = length bs" "unat (l - k) = unat l - length bs" "ds = bs"
        using False by (simp_all add: k_def ds_def unat_diff_le word_le_nat_alt)
      note ih = Cons.IH [OF c st]
      have "sameones (m + turned (sw \<noteq> od) (wsum (take (unat (l - k)) (chain_bytes q))))
          (n + turned sw (wsum (bs @ take (unat (l - k)) (chain_bytes q))))"
        unfolding m_def od_def k(3) by (rule turned_append)
      also have "bs @ take (unat (l - k)) (chain_bytes q) = take (unat l) (chain_bytes (x # q))"
        using False k by (simp add: x)
      finally show ?thesis using ih sameones_turned by (metis sameones_trans)
    qed
  qed
qed

text \<open>When the checksum over the first \<open>chksum_len\<close> bytes of a chain returns (its
  "delete me" assertion holds), it is the pseudo-header checksum of exactly those bytes.\<close>

lemma inet_chksum_pseudo_partial_rfc:
  assumes "inet_chksum_pseudo_partial p proto len chksum_len src dest = Some r"
  shows "unat r = 65535 - fold16 (wsum (pseudo_header (addr_bytes src) (addr_bytes dest) proto len @
    take (unat chksum_len) (chain_bytes p)))"
proof -
  define acc where "acc = FOLD_U32T (FOLD_U32T (add_addr (add_addr 0 src) dest))"
  define bs where "bs = take (unat chksum_len) (chain_bytes p)"
  obtain acc' sw where c: "chksum_chain_partial acc False chksum_len p = Some (acc', sw)"
    and r: "r = NOT (ucast (FOLD_U32T (FOLD_U32T ((if sw then SWAP_BYTES_IN_WORD acc' else acc') +
      ucast (lwip_htons (ucast proto)) + ucast (lwip_htons len))) AND 0xffff))"
    using assms
    by (auto simp: inet_chksum_pseudo_partial_def inet_cksum_pseudo_partial_base_def acc_def Let_def
        bind_eq_Some_conv split: prod.splits)
  have acc: "unat acc \<le> 65535"
    "sameones (unat acc) (turned False (wsum (addr_bytes src) + wsum (addr_bytes dest)))"
    by (simp_all add: acc_def FOLD_FOLD fold16_le sameones_fold16 unat_add_addr_pair turned_def)
  note s = chksum_chain_partial_sum [OF c acc, folded bs_def]
  note u = chksum_unswap [OF conjunct1 [OF s] conjunct2 [OF s]]
  have "unat r = 65535 - fold16 (wsum (addr_bytes src) + wsum (addr_bytes dest) + wsum bs +
      256 * unat proto + wsum (be16_bytes len))"
    using pseudo_finish [OF u, of "lwip_htons (ucast proto)" "lwip_htons len", unfolded htons_sum(1),
        unfolded htons_sum(2)]
    by (simp add: r turned_def [of False])
  then show ?thesis
    by (simp add: pseudo_header_def wsum_append_even bs_def algebra_simps)
qed

text \<open>The checksum routine that the build uses (algorithm 3) returns the
  ones'-complement sum of the buffer's 16-bit words, for every length and every alignment of
  the buffer, its end-around carries included.\<close>

lemma lwip_standard_chksum_sum: "unat (lwip_standard_chksum dataptr bs) = fold16 (wsum bs)"
  by (rule lwip_standard_chksum_fold)

text \<open>C37: a receiver that sums a packet whose checksum field, at an even offset, was filled
  with \<^verbatim>\<open>inet_chksum\<close> of the packet with a zero field computes 0, and so accepts it, at
  whatever addresses sender and receiver hold the packet.\<close>

theorem inet_chksum_verifies:
  assumes "even (length pre)"
  shows "inet_chksum a' (pre @ store16 (inet_chksum a (pre @ [0, 0] @ post)) @ post) = 0"
proof -
  define n where "n = wsum (pre @ [0, 0] @ post)"
  define c where "c = inet_chksum a (pre @ [0, 0] @ post)"
  have "unat c = 65535 - fold16 n"
    by (simp add: c_def inet_chksum_def NOT_u16 lwip_standard_chksum_fold n_def)
  moreover have "wsum (store16 c @ post) = unat c + wsum post"
    using u16_lt [of c] mult_div_mod_eq [of 256 "unat c"]
    by (simp add: store16_def unat_ucast_u8 unat_drop_bit_div)
  ultimately have "wsum (pre @ store16 c @ post) = n + (65535 - fold16 n)"
    using assms by (simp add: n_def wsum_append_even)
  moreover have "sameones (n + (65535 - fold16 n)) (fold16 n + (65535 - fold16 n))"
    by (intro sameones_add sameones_refl sameones_sym [OF sameones_fold16])
  moreover have "fold16 n + (65535 - fold16 n) = 65535" using fold16_le [of n] by simp
  ultimately have "fold16 (wsum (pre @ store16 c @ post)) = fold16 65535"
    by (metis fold16_cong)
  then have "unat (lwip_standard_chksum a' (pre @ store16 c @ post)) = 65535"
    by (simp add: lwip_standard_chksum_fold fold16_def)
  then have "unat (inet_chksum a' (pre @ store16 c @ post)) = 0"
    by (simp add: inet_chksum_def NOT_u16)
  then show ?thesis by (simp add: unat_eq_zero c_def)
qed

theorem inet_chksum_verifies_witness:
  "inet_chksum 1 ([0x45, 0x00] @ store16 (inet_chksum 0 ([0x45, 0x00] @ [0, 0] @ [0xc0, 0xa8, 7])) @
     [0xc0, 0xa8, 7]) = 0"
  by (rule inet_chksum_verifies) simp

text \<open>C38: the three checksum algorithms of the file agree on every buffer of at most 64 KiB,
  so the choice of \<^verbatim>\<open>LWIP_CHKSUM_ALGORITHM\<close> does not change a packet.\<close>

theorem chksum_algorithms_agree:
  assumes "length bs \<le> 0x10000"
  shows "lwip_standard_chksum_v1 bs = lwip_standard_chksum dataptr bs \<and>
    lwip_standard_chksum_v2 dataptr bs = lwip_standard_chksum dataptr bs"
  using assms by (simp add: word_unat_eq_iff chksum_v1_sum chksum_v2_sum lwip_standard_chksum_fold)

theorem chksum_algorithms_agree_witness:
  "lwip_standard_chksum_v1 [1, 2, 255] = lwip_standard_chksum 3 [1, 2, 255] \<and>
     lwip_standard_chksum_v2 3 [1, 2, 255] = lwip_standard_chksum 3 [1, 2, 255]"
  by (rule chksum_algorithms_agree) simp

end
