(* ===== verification/Window_Order.thy ===== *)
theory Window_Order
  imports Lwip_Prelude
begin

text \<open>
  The interface of the wrapping comparisons of the stack: \<^verbatim>\<open>TIME_LESS_THAN\<close> on the millisecond
  clock and \<^verbatim>\<open>TCP_SEQ_LT\<close> on sequence numbers compare two words by the sign of their
  difference. On words inside a window of half the range after some base, such a comparison is
  the order of the distances from the base; that is the law of the locale. Its lemmas are what
  the timeout list and the TCP segment queues need: a strict linear order, and insertion into a
  sorted list behind the elements that are not greater.
\<close>

fun insert_by :: "('a \<Rightarrow> 'a \<Rightarrow> bool) \<Rightarrow> ('e \<Rightarrow> 'a) \<Rightarrow> 'e \<Rightarrow> 'e list \<Rightarrow> 'e list" where
  "insert_by lt key x [] = [x]"
| "insert_by lt key x (y # ys) =
     (if lt (key x) (key y) then x # y # ys else y # insert_by lt key x ys)"

lemma mset_insert_by: "set (insert_by lt key x xs) = insert x (set xs)"
  "length (insert_by lt key x xs) = Suc (length xs)"
  by (induction xs) auto

lemma insert_by_filter:
  "filter P (insert_by lt key x xs) = (if P x then filter P (insert_by lt key x xs) else filter P xs)"
  by (induction xs) auto

locale window_order =
  fixes lt :: "'a \<Rightarrow> 'a \<Rightarrow> bool" and pos :: "'b \<Rightarrow> 'a \<Rightarrow> nat" and inside :: "'b \<Rightarrow> 'a \<Rightarrow> bool"
  assumes lt_pos: "inside b x \<Longrightarrow> inside b y \<Longrightarrow> lt x y \<longleftrightarrow> pos b x < pos b y"
    and pos_inj: "pos b x = pos b y \<Longrightarrow> x = y"
begin

lemma irrefl: "inside b x \<Longrightarrow> \<not> lt x x"
  by (simp add: lt_pos)

lemma trans: "inside b x \<Longrightarrow> inside b y \<Longrightarrow> inside b z \<Longrightarrow> lt x y \<Longrightarrow> lt y z \<Longrightarrow> lt x z"
  by (simp add: lt_pos)

lemma asym: "inside b x \<Longrightarrow> inside b y \<Longrightarrow> lt x y \<Longrightarrow> \<not> lt y x"
  by (simp add: lt_pos)

lemma total: "inside b x \<Longrightarrow> inside b y \<Longrightarrow> lt x y \<or> x = y \<or> lt y x"
  using pos_inj [of b x y] by (auto simp: lt_pos)

lemma insert_by_split:
  assumes "\<forall>y \<in> set xs. inside b (key y)" "inside b (key x)" "sorted (map (pos b \<circ> key) xs)"
  shows "insert_by lt key x xs =
    takeWhile (\<lambda>y. pos b (key y) \<le> pos b (key x)) xs @
    x # dropWhile (\<lambda>y. pos b (key y) \<le> pos b (key x)) xs"
  using assms by (induction xs) (auto simp: lt_pos [of b])

lemma insert_by_sorted:
  assumes "\<forall>y \<in> set xs. inside b (key y)" "inside b (key x)" "sorted (map (pos b \<circ> key) xs)"
  shows "sorted (map (pos b \<circ> key) (insert_by lt key x xs))"
  using assms
proof (induction xs)
  case (Cons y ys)
  then show ?case by (auto simp: lt_pos [of b] mset_insert_by)
qed simp

end

end
