(* ===== verification/Sys_Timeouts.thy ===== *)
theory Sys_Timeouts
  imports Window_Order
begin

text \<open>
  The timeout list of \<^verbatim>\<open>core/timeouts.c\<close>: one-shot timeouts ordered by expiry time on a 32-bit
  millisecond clock that wraps, the cyclic timers of the stack, the on-demand TCP timer and the
  loop of \<^verbatim>\<open>sys_check_timeouts\<close>. The linked list is a list of records; the pool
  \<^verbatim>\<open>MEMP_SYS_TIMEOUT\<close> is the number of its free elements. The functions behind the handler
  pointers are arguments of the definitions that call them.

  The lemmas read the clock relative to a base time: within half of its range the list is sorted,
  insertion is stable sorted insertion, cancelling removes the first match, and
  \<^verbatim>\<open>sys_check_timeouts\<close> returns with nothing due for the timers that the stack installs.
\<close>

section \<open>State\<close>

datatype sys_timeout_handler = Handler_tcpip_tcp_timer | Handler_lwip_cyclic_timer | Handler_other nat

record sys_timeo =
  time :: u32
  h :: "sys_timeout_handler option"
  arg :: nat

text \<open>
  \<open>sys_now\<close> is what \<^verbatim>\<open>sys_now()\<close> returns; handlers may advance it. \<open>world\<close> is the rest of the
  stack, which the handlers change. For a cyclic timer, \<open>arg\<close> is the index into
  \<^verbatim>\<open>lwip_cyclic_timers\<close>.
\<close>

record 'w timeouts =
  next_timeout :: "sys_timeo list"
  sys_timeout_pool :: nat
  current_timeout_due_time :: u32
  tcpip_tcp_timer_active :: bool
  sys_now :: u32
  world :: 'w

definition MEMP_NUM_SYS_TIMEOUT :: nat where "MEMP_NUM_SYS_TIMEOUT = 4"

definition LWIP_MAX_TIMEOUT :: u32 where "LWIP_MAX_TIMEOUT = 0x7fffffff"

definition LWIP_UINT32_MAX :: u32 where "LWIP_UINT32_MAX = 0xffffffff"

definition TIME_LESS_THAN :: "u32 \<Rightarrow> u32 \<Rightarrow> bool" where
  "TIME_LESS_THAN t compare_to \<longleftrightarrow> t - compare_to > LWIP_MAX_TIMEOUT"

text \<open>The intervals of \<^verbatim>\<open>lwip_cyclic_timers\<close>: TCP, IPv4 reassembly, ND6, IPv6 reassembly.\<close>

definition lwip_cyclic_timers :: "u32 list" where
  "lwip_cyclic_timers = [250, 1000, 1000, 1000]"

section \<open>Operations\<close>

text \<open>The search for the place of a new timeout, which the code does with two pointers.\<close>

fun timeout_insert :: "sys_timeo \<Rightarrow> sys_timeo list \<Rightarrow> sys_timeo list" where
  "timeout_insert timeout [] = [timeout]"
| "timeout_insert timeout (t # ts) =
     (if TIME_LESS_THAN (time timeout) (time t) then timeout # t # ts
      else t # timeout_insert timeout ts)"

definition sys_timeout_abs ::
  "u32 \<Rightarrow> sys_timeout_handler option \<Rightarrow> nat \<Rightarrow> 'w timeouts \<Rightarrow> 'w timeouts option" where
  "sys_timeout_abs abs_time handler a s = do {
     lwip_assert (sys_timeout_pool s \<noteq> 0);
     Some (s\<lparr>sys_timeout_pool := sys_timeout_pool s - 1,
       next_timeout := timeout_insert \<lparr>time = abs_time, h = handler, arg = a\<rparr> (next_timeout s)\<rparr>)
   }"

definition sys_timeout ::
  "u32 \<Rightarrow> sys_timeout_handler option \<Rightarrow> nat \<Rightarrow> 'w timeouts \<Rightarrow> 'w timeouts option" where
  "sys_timeout msecs handler a s = do {
     lwip_assert (msecs \<le> LWIP_UINT32_MAX div 4);
     let next_timeout_time = sys_now s + msecs;
     sys_timeout_abs next_timeout_time handler a s
   }"

text \<open>The removal of the first match, with whether there was one.\<close>

fun untimeout_list ::
  "sys_timeout_handler option \<Rightarrow> nat \<Rightarrow> sys_timeo list \<Rightarrow> sys_timeo list \<times> bool" where
  "untimeout_list handler a [] = ([], False)"
| "untimeout_list handler a (t # ts) =
     (if h t = handler \<and> arg t = a then (ts, True)
      else let (ts, found) = untimeout_list handler a ts in (t # ts, found))"

definition sys_untimeout :: "sys_timeout_handler option \<Rightarrow> nat \<Rightarrow> 'w timeouts \<Rightarrow> 'w timeouts" where
  "sys_untimeout handler a s =
     (let (ts, found) = untimeout_list handler a (next_timeout s)
      in s\<lparr>next_timeout := ts,
           sys_timeout_pool := (if found then sys_timeout_pool s + 1 else sys_timeout_pool s)\<rparr>)"

definition lwip_cyclic_timer ::
  "(nat \<Rightarrow> 'w timeouts \<Rightarrow> 'w timeouts option) \<Rightarrow> nat \<Rightarrow> 'w timeouts \<Rightarrow> 'w timeouts option" where
  "lwip_cyclic_timer cyclic_handler a s = do {
     let interval_ms = lwip_cyclic_timers ! a;
     s \<leftarrow> cyclic_handler a s;
     let now = sys_now s;
     let next_timeout_time = current_timeout_due_time s + interval_ms;
     if TIME_LESS_THAN next_timeout_time now
     then sys_timeout_abs (now + interval_ms) (Some Handler_lwip_cyclic_timer) a s
     else sys_timeout_abs next_timeout_time (Some Handler_lwip_cyclic_timer) a s
   }"

definition TCP_TMR_INTERVAL :: u32 where "TCP_TMR_INTERVAL = 250"

text \<open>\<open>tcp_pcbs\<close> says whether the world has active or time-wait TCP control blocks.\<close>

definition tcpip_tcp_timer ::
  "('w timeouts \<Rightarrow> 'w timeouts option) \<Rightarrow> ('w \<Rightarrow> bool) \<Rightarrow> 'w timeouts \<Rightarrow> 'w timeouts option" where
  "tcpip_tcp_timer tcp_tmr tcp_pcbs s = do {
     s \<leftarrow> tcp_tmr s;
     if tcp_pcbs (world s) then sys_timeout TCP_TMR_INTERVAL (Some Handler_tcpip_tcp_timer) 0 s
     else Some (s\<lparr>tcpip_tcp_timer_active := False\<rparr>)
   }"

definition tcp_timer_needed :: "('w \<Rightarrow> bool) \<Rightarrow> 'w timeouts \<Rightarrow> 'w timeouts option" where
  "tcp_timer_needed tcp_pcbs s =
     (if \<not> tcpip_tcp_timer_active s \<and> tcp_pcbs (world s)
      then sys_timeout TCP_TMR_INTERVAL (Some Handler_tcpip_tcp_timer) 0
             (s\<lparr>tcpip_tcp_timer_active := True\<rparr>)
      else Some s)"

fun sys_timeouts_init_loop :: "nat list \<Rightarrow> 'w timeouts \<Rightarrow> 'w timeouts option" where
  "sys_timeouts_init_loop [] s = Some s"
| "sys_timeouts_init_loop (i # is) s = do {
     s \<leftarrow> sys_timeout (lwip_cyclic_timers ! i) (Some Handler_lwip_cyclic_timer) i s;
     sys_timeouts_init_loop is s
   }"

definition sys_timeouts_init :: "'w timeouts \<Rightarrow> 'w timeouts option" where
  "sys_timeouts_init = sys_timeouts_init_loop [1 ..< length lwip_cyclic_timers]"

text \<open>
  One round of \<^verbatim>\<open>sys_check_timeouts\<close> (\<open>None\<close>: the loop returns) and the loop itself, which may
  run forever when handlers keep adding expired timeouts: like an abort, that is \<open>None\<close>.
\<close>

definition check_pop :: "u32 \<Rightarrow> 'w timeouts \<Rightarrow> (sys_timeo \<times> 'w timeouts) option" where
  "check_pop now s =
     (case next_timeout s of
        [] \<Rightarrow> None
      | tmptimeout # ts \<Rightarrow>
          if TIME_LESS_THAN now (time tmptimeout) then None
          else Some (tmptimeout, s\<lparr>next_timeout := ts, current_timeout_due_time := time tmptimeout,
                 sys_timeout_pool := sys_timeout_pool s + 1\<rparr>))"

definition call_handler ::
  "(sys_timeout_handler \<Rightarrow> nat \<Rightarrow> 'w timeouts \<Rightarrow> 'w timeouts option) \<Rightarrow> sys_timeo \<Rightarrow>
     'w timeouts \<Rightarrow> 'w timeouts option" where
  "call_handler call t s = (case h t of None \<Rightarrow> Some s | Some handler \<Rightarrow> call handler (arg t) s)"

text \<open>\<^verbatim>\<open>PBUF_CHECK_FREE_OOSEQ\<close>, which every round starts with, works on the rest of the stack.\<close>

definition PBUF_CHECK_FREE_OOSEQ :: "('w \<Rightarrow> 'w option) \<Rightarrow> 'w timeouts \<Rightarrow> 'w timeouts option" where
  "PBUF_CHECK_FREE_OOSEQ free_ooseq s = do {
     w \<leftarrow> free_ooseq (world s);
     Some (s\<lparr>world := w\<rparr>)
   }"

partial_function (option) sys_check_timeouts_loop ::
  "('w \<Rightarrow> 'w option) \<Rightarrow> (sys_timeout_handler \<Rightarrow> nat \<Rightarrow> 'w timeouts \<Rightarrow> 'w timeouts option) \<Rightarrow> u32 \<Rightarrow>
     'w timeouts \<Rightarrow> 'w timeouts option" where
  "sys_check_timeouts_loop free_ooseq call now s =
     PBUF_CHECK_FREE_OOSEQ free_ooseq s \<bind> (\<lambda>s.
     case check_pop now s of
        None \<Rightarrow> Some s
      | Some (t, s) \<Rightarrow> call_handler call t s \<bind> sys_check_timeouts_loop free_ooseq call now)"

definition sys_check_timeouts ::
  "('w \<Rightarrow> 'w option) \<Rightarrow> (sys_timeout_handler \<Rightarrow> nat \<Rightarrow> 'w timeouts \<Rightarrow> 'w timeouts option) \<Rightarrow>
     'w timeouts \<Rightarrow> 'w timeouts option" where
  "sys_check_timeouts free_ooseq call s = sys_check_timeouts_loop free_ooseq call (sys_now s) s"

definition sys_restart_timeouts :: "'w timeouts \<Rightarrow> 'w timeouts" where
  "sys_restart_timeouts s =
     (case next_timeout s of
        [] \<Rightarrow> s
      | t0 # ts \<Rightarrow>
          let now = sys_now s; base = time t0
          in s\<lparr>next_timeout := map (\<lambda>t. t\<lparr>time := (time t - base) + now\<rparr>) (next_timeout s)\<rparr>)"

definition SYS_TIMEOUTS_SLEEPTIME_INFINITE :: u32 where
  "SYS_TIMEOUTS_SLEEPTIME_INFINITE = 0xffffffff"

definition sys_timeouts_sleeptime :: "'w timeouts \<Rightarrow> u32 option" where
  "sys_timeouts_sleeptime s =
     (case next_timeout s of
        [] \<Rightarrow> Some SYS_TIMEOUTS_SLEEPTIME_INFINITE
      | t # _ \<Rightarrow>
          let now = sys_now s
          in if TIME_LESS_THAN (time t) now then Some 0
             else do {
               let ret = time t - now;
               lwip_assert (ret \<le> LWIP_MAX_TIMEOUT);
               Some ret
             })"

text \<open>
  What the stack installs: the handler pointers dispatch to \<^verbatim>\<open>tcpip_tcp_timer\<close> and
  \<^verbatim>\<open>lwip_cyclic_timer\<close>; other handlers belong to the application.
\<close>

definition stack_call ::
  "('w timeouts \<Rightarrow> 'w timeouts option) \<Rightarrow> ('w \<Rightarrow> bool) \<Rightarrow> (nat \<Rightarrow> 'w timeouts \<Rightarrow> 'w timeouts option) \<Rightarrow>
     (nat \<Rightarrow> nat \<Rightarrow> 'w timeouts \<Rightarrow> 'w timeouts option) \<Rightarrow>
     sys_timeout_handler \<Rightarrow> nat \<Rightarrow> 'w timeouts \<Rightarrow> 'w timeouts option" where
  "stack_call tcp_tmr tcp_pcbs cyclic_handler other handler a s =
     (case handler of
        Handler_tcpip_tcp_timer \<Rightarrow> tcpip_tcp_timer tcp_tmr tcp_pcbs s
      | Handler_lwip_cyclic_timer \<Rightarrow> lwip_cyclic_timer cyclic_handler a s
      | Handler_other n \<Rightarrow> other n a s)"

section \<open>The clock read relative to a base\<close>

definition rel :: "u32 \<Rightarrow> u32 \<Rightarrow> nat" where
  "rel base t = unat (t - base)"

text \<open>\<open>within base t\<close>: \<open>t\<close> is less than half of the clock's range after \<open>base\<close>.\<close>

definition within :: "u32 \<Rightarrow> u32 \<Rightarrow> bool" where
  "within base t \<longleftrightarrow> rel base t < 2 ^ 31"

definition timeouts_ok :: "u32 \<Rightarrow> sys_timeo list \<Rightarrow> bool" where
  "timeouts_ok base ts \<longleftrightarrow> (\<forall>t \<in> set ts. within base (time t)) \<and> sorted (map (rel base \<circ> time) ts)"

lemma unat_word_diff:
  "unat (a - b :: u32) = (if b \<le> a then unat a - unat b else unat a + 2 ^ 32 - unat b)"
proof -
  have "unat b \<le> 2 ^ 32" using u32_lt [of b] by simp
  then show ?thesis by (simp add: unat_sub_if_size word_size word_le_nat_alt)
qed

lemma TIME_LESS_THAN_rel:
  assumes "within base a" "within base b"
  shows "TIME_LESS_THAN a b \<longleftrightarrow> rel base a < rel base b"
proof -
  have "a - b = (a - base) - (b - base)" by simp
  then have "unat (a - b) = (if rel base b \<le> rel base a then rel base a - rel base b
      else rel base a + 2 ^ 32 - rel base b)"
    unfolding rel_def using unat_word_diff [of "a - base" "b - base"] by (simp add: word_le_nat_alt)
  then show ?thesis
    using assms by (auto simp: TIME_LESS_THAN_def LWIP_MAX_TIMEOUT_def word_less_nat_alt within_def)
qed


lemma rel_inj: "rel base a = rel base b \<Longrightarrow> a = b"
  by (simp add: rel_def word_unat_eq_iff [symmetric])

interpretation clock: window_order TIME_LESS_THAN rel within
  by unfold_locales (rule TIME_LESS_THAN_rel rel_inj; assumption)+

lemma timeout_insert_by: "timeout_insert t ts = insert_by TIME_LESS_THAN time t ts"
  by (induction ts) auto

lemma timeout_insert_split:
  assumes "timeouts_ok base ts" "within base (time t)"
  shows "timeout_insert t ts =
    takeWhile (\<lambda>u. rel base (time u) \<le> rel base (time t)) ts @
    t # dropWhile (\<lambda>u. rel base (time u) \<le> rel base (time t)) ts"
  using assms clock.insert_by_split [of ts base time t] by (simp add: timeouts_ok_def timeout_insert_by)

lemma timeout_insert_ok:
  assumes "timeouts_ok base ts" "within base (time t)"
  shows "timeouts_ok base (timeout_insert t ts)"
  using assms clock.insert_by_sorted [of ts base time t]
  by (simp add: timeouts_ok_def timeout_insert_by mset_insert_by)

lemma timeout_insert_set [simp]:
  "set (timeout_insert t ts) = insert t (set ts)"
  "length (timeout_insert t ts) = Suc (length ts)"
  by (simp_all add: timeout_insert_by mset_insert_by)

text \<open>C36: a timeout of at most a quarter of the clock's range is entered behind all timeouts
  that expire no later and before all others, so the list stays sorted by expiry time across a
  wrap of the clock and timeouts with the same time keep their order; one element leaves the pool.\<close>

theorem sys_timeout_sorted_insert:
  assumes "timeouts_ok base (next_timeout s)" and "within base (sys_now s + msecs)"
    and "msecs \<le> LWIP_UINT32_MAX div 4" and "sys_timeout_pool s \<noteq> 0"
  shows "\<exists>s' earlier later. sys_timeout msecs handler a s = Some s' \<and>
    next_timeout s = earlier @ later \<and>
    next_timeout s' = earlier @ \<lparr>time = sys_now s + msecs, h = handler, arg = a\<rparr> # later \<and>
    (\<forall>t \<in> set earlier. rel base (time t) \<le> rel base (sys_now s + msecs)) \<and>
    (\<forall>t \<in> set later. rel base (sys_now s + msecs) < rel base (time t)) \<and>
    timeouts_ok base (next_timeout s') \<and> sys_timeout_pool s' = sys_timeout_pool s - 1"
proof -
  define t where "t = \<lparr>time = sys_now s + msecs, h = handler, arg = a\<rparr>"
  define P where "P = (\<lambda>u :: sys_timeo. rel base (time u) \<le> rel base (time t))"
  define s' where "s' = s\<lparr>sys_timeout_pool := sys_timeout_pool s - 1,
    next_timeout := timeout_insert t (next_timeout s)\<rparr>"
  have w: "within base (time t)" using assms(2) by (simp add: t_def)
  have s': "sys_timeout msecs handler a s = Some s'"
    using assms by (simp add: sys_timeout_def sys_timeout_abs_def s'_def t_def)
  have split: "next_timeout s' = takeWhile P (next_timeout s) @ t # dropWhile P (next_timeout s)"
    using timeout_insert_split [OF assms(1) w] by (simp add: s'_def P_def)
  have srt: "sorted (map (rel base \<circ> time) (next_timeout s))"
    using assms(1) by (simp add: timeouts_ok_def)
  have later: "\<forall>u \<in> set (dropWhile P (next_timeout s)). \<not> P u"
  proof (cases "dropWhile P (next_timeout s)")
    case Nil
    show ?thesis unfolding Nil by simp
  next
    case (Cons v vs)
    then have "\<not> P v" by (metis dropWhile_eq_Cons_conv)
    moreover have "sorted (map (rel base \<circ> time) (v # vs))"
      using srt Cons by (metis dropWhile_eq_drop drop_map sorted_wrt_drop)
    ultimately show ?thesis using Cons by (auto simp: P_def)
  qed
  show ?thesis
  proof (intro exI conjI)
    show "sys_timeout msecs handler a s = Some s'" by (rule s')
    show "next_timeout s = takeWhile P (next_timeout s) @ dropWhile P (next_timeout s)" by simp
    show "next_timeout s' = takeWhile P (next_timeout s) @
        \<lparr>time = sys_now s + msecs, h = handler, arg = a\<rparr> # dropWhile P (next_timeout s)"
      using split by (simp add: t_def)
    show "\<forall>t \<in> set (takeWhile P (next_timeout s)). rel base (time t) \<le> rel base (sys_now s + msecs)"
    proof
      fix u assume "u \<in> set (takeWhile P (next_timeout s))"
      then have "P u" using set_takeWhileD by fast
      then show "rel base (time u) \<le> rel base (sys_now s + msecs)" by (simp add: P_def t_def)
    qed
    show "\<forall>t \<in> set (dropWhile P (next_timeout s)). rel base (sys_now s + msecs) < rel base (time t)"
    proof
      fix u assume "u \<in> set (dropWhile P (next_timeout s))"
      then have "\<not> P u" using later by blast
      then show "rel base (sys_now s + msecs) < rel base (time u)" by (simp add: P_def t_def)
    qed
    show "timeouts_ok base (next_timeout s')" using timeout_insert_ok [OF assms(1) w] by (simp add: s'_def)
    show "sys_timeout_pool s' = sys_timeout_pool s - 1" by (simp add: s'_def)
  qed
qed

theorem sys_timeout_sorted_insert_witness:
  fixes s :: "unit timeouts"
  defines "s \<equiv> \<lparr>next_timeout = [\<lparr>time = 0xffffffff, h = None, arg = 0\<rparr>], sys_timeout_pool = 3,
    current_timeout_due_time = 0, tcpip_tcp_timer_active = False, sys_now = 0xfffffff0, world = ()\<rparr>"
  shows "\<exists>s' earlier later. sys_timeout 250 (Some Handler_tcpip_tcp_timer) 0 s = Some s' \<and>
    next_timeout s = earlier @ later \<and>
    next_timeout s' = earlier @ \<lparr>time = sys_now s + 250, h = Some Handler_tcpip_tcp_timer, arg = 0\<rparr> # later \<and>
    (\<forall>t \<in> set earlier. rel 0xfffffff0 (time t) \<le> rel 0xfffffff0 (sys_now s + 250)) \<and>
    (\<forall>t \<in> set later. rel 0xfffffff0 (sys_now s + 250) < rel 0xfffffff0 (time t)) \<and>
    timeouts_ok 0xfffffff0 (next_timeout s') \<and> sys_timeout_pool s' = sys_timeout_pool s - 1"
  by (rule sys_timeout_sorted_insert)
    (simp_all add: s_def timeouts_ok_def within_def rel_def LWIP_UINT32_MAX_def)

section \<open>Cancelling, rebasing, sleeping\<close>

lemma untimeout_list_none:
  "\<forall>t \<in> set ts. h t \<noteq> handler \<or> arg t \<noteq> a \<Longrightarrow> untimeout_list handler a ts = (ts, False)"
  by (induction ts) auto

lemma untimeout_list_match:
  "\<forall>u \<in> set before. h u \<noteq> handler \<or> arg u \<noteq> a \<Longrightarrow> h t = handler \<Longrightarrow> arg t = a \<Longrightarrow>
     untimeout_list handler a (before @ t # after) = (before @ after, True)"
  by (induction before) auto

lemma next_timeout_update_same: "next_timeout s = ts \<Longrightarrow> s\<lparr>next_timeout := ts\<rparr> = (s :: 'w timeouts)"
  by simp

text \<open>\<^verbatim>\<open>sys_untimeout\<close> removes the first entry with that handler and argument and nothing else,
  and gives its element back to the pool; without such an entry it changes nothing.\<close>

lemma sys_untimeout_first:
  "(\<forall>t \<in> set (next_timeout s). h t \<noteq> handler \<or> arg t \<noteq> a) \<and> sys_untimeout handler a s = s \<or>
   (\<exists>before t after. next_timeout s = before @ t # after \<and> h t = handler \<and> arg t = a \<and>
     (\<forall>u \<in> set before. h u \<noteq> handler \<or> arg u \<noteq> a) \<and>
     sys_untimeout handler a s =
       s\<lparr>next_timeout := before @ after, sys_timeout_pool := sys_timeout_pool s + 1\<rparr>)"
proof (cases "\<exists>t \<in> set (next_timeout s). h t = handler \<and> arg t = a")
  case False
  then have none: "\<forall>t \<in> set (next_timeout s). h t \<noteq> handler \<or> arg t \<noteq> a" by blast
  then have "sys_untimeout handler a s = s"
    by (simp add: sys_untimeout_def untimeout_list_none)
  then show ?thesis using none by blast
next
  case True
  then obtain before t after where s: "next_timeout s = before @ t # after" "h t = handler" "arg t = a"
    and b: "\<forall>u \<in> set before. h u \<noteq> handler \<or> arg u \<noteq> a"
    using split_list_first_prop [of "next_timeout s" "\<lambda>t. h t = handler \<and> arg t = a"] by blast
  have "sys_untimeout handler a s =
      s\<lparr>next_timeout := before @ after, sys_timeout_pool := sys_timeout_pool s + 1\<rparr>"
    using untimeout_list_match [OF b s(2,3)] by (simp add: sys_untimeout_def s(1))
  then show ?thesis using s b by blast
qed

text \<open>After \<^verbatim>\<open>sys_restart_timeouts\<close> the first timeout is due now and the distances between
  all timeouts are what they were.\<close>

lemma sys_restart_timeouts_shift:
  "next_timeout (sys_restart_timeouts s) =
     map (\<lambda>t. t\<lparr>time := time t + (sys_now s - time (hd (next_timeout s)))\<rparr>) (next_timeout s)"
  by (cases "next_timeout s") (simp_all add: sys_restart_timeouts_def Let_def algebra_simps)

text \<open>The assertion of \<^verbatim>\<open>sys_timeouts_sleeptime\<close> never fails: it returns 0 for a first timeout
  in the past and otherwise the distance to it, the infinite value exactly for an empty list.\<close>

lemma sys_timeouts_sleeptime_total:
  "\<exists>r. sys_timeouts_sleeptime s = Some r \<and>
    (case next_timeout s of [] \<Rightarrow> r = SYS_TIMEOUTS_SLEEPTIME_INFINITE
     | t # _ \<Rightarrow> unat r = (if rel (time t) (sys_now s) \<le> 2 ^ 31 then 0 else 2 ^ 32 - rel (time t) (sys_now s)) \<and>
         r \<le> LWIP_MAX_TIMEOUT)"
proof (cases "next_timeout s")
  case (Cons t ts)
  define d where "d = sys_now s - time t"
  have d: "time t - sys_now s = - d" by (simp add: d_def)
  have "unat (- d) = (if d = 0 then 0 else 2 ^ 32 - unat d)"
    using unat_word_diff [of 0 d] by (auto simp: word_le_nat_alt unat_eq_zero)
  then show ?thesis
    using Cons u32_lt [of d] unat_eq_zero [of d]
    by (auto simp: sys_timeouts_sleeptime_def TIME_LESS_THAN_def LWIP_MAX_TIMEOUT_def d Let_def
        rel_def d_def [symmetric] word_less_nat_alt word_le_nat_alt not_less split: if_splits)
qed (simp add: sys_timeouts_sleeptime_def)


section \<open>The loop of \<^verbatim>\<open>sys_check_timeouts\<close> returns\<close>

text \<open>How long a timeout is overdue at \<open>now\<close>, in milliseconds and one more; 0 if it is not.\<close>

definition due_weight :: "u32 \<Rightarrow> sys_timeo \<Rightarrow> nat" where
  "due_weight now t = (if TIME_LESS_THAN now (time t) then 0 else unat (now - time t) + 1)"

definition overdue :: "u32 \<Rightarrow> sys_timeo list \<Rightarrow> nat" where
  "overdue now ts = sum_list (map (due_weight now) ts)"

lemma overdue_simps [simp]:
  "overdue now [] = 0" "overdue now (t # ts) = due_weight now t + overdue now ts"
  by (simp_all add: overdue_def)

lemma overdue_insert [simp]: "overdue now (timeout_insert t ts) = due_weight now t + overdue now ts"
  by (induction ts) auto

lemma check_pop_Some:
  "check_pop now s = Some (t, s') \<longleftrightarrow>
     \<not> TIME_LESS_THAN now (time t) \<and> (\<exists>ts. next_timeout s = t # ts \<and>
       s' = s\<lparr>next_timeout := ts, current_timeout_due_time := time t,
              sys_timeout_pool := sys_timeout_pool s + 1\<rparr>)"
  by (auto simp: check_pop_def split: list.splits if_splits)

lemma check_loop_returns:
  assumes step: "\<And>s t s1. Inv s \<Longrightarrow> check_pop now s = Some (t, s1) \<Longrightarrow>
      \<exists>s2. call_handler call t s1 = Some s2 \<and> Inv s2 \<and>
        overdue now (next_timeout s2) < overdue now (next_timeout s)"
    and ooseq: "\<And>w. \<exists>w'. free_ooseq w = Some w'" and world: "\<And>s w. Inv s \<Longrightarrow> Inv (s\<lparr>world := w\<rparr>)"
  shows "Inv s \<Longrightarrow> \<exists>s'. sys_check_timeouts_loop free_ooseq call now s = Some s' \<and> Inv s' \<and> check_pop now s' = None"
proof (induction "overdue now (next_timeout s)" arbitrary: s rule: less_induct)
  case (less s0)
  obtain w where w: "free_ooseq (world s0) = Some w" using ooseq by blast
  define s where "s = s0\<lparr>world := w\<rparr>"
  have s: "PBUF_CHECK_FREE_OOSEQ free_ooseq s0 = Some s" "Inv s" "next_timeout s = next_timeout s0"
    using w world less.prems by (simp_all add: PBUF_CHECK_FREE_OOSEQ_def s_def)
  show ?case
  proof (cases "check_pop now s")
    case None
    then show ?thesis using s by (subst sys_check_timeouts_loop.simps) simp
  next
    case (Some p)
    then obtain t s1 where p: "check_pop now s = Some (t, s1)" by (cases p) simp
    obtain s2 where s2: "call_handler call t s1 = Some s2" "Inv s2"
        "overdue now (next_timeout s2) < overdue now (next_timeout s)"
      using step [OF s(2) p] by blast
    from less.hyps [OF s2(3) [unfolded s(3)] s2(2)] show ?thesis
      by (subst sys_check_timeouts_loop.simps) (simp add: p s s2)
  qed
qed

text \<open>A handler's own work: it returns, leaves the timeouts alone and takes at most \<open>d\<close> milliseconds.\<close>

definition quiet :: "nat \<Rightarrow> ('w timeouts \<Rightarrow> 'w timeouts option) \<Rightarrow> bool" where
  "quiet d f \<longleftrightarrow> (\<forall>s. \<exists>s'. f s = Some s' \<and> next_timeout s' = next_timeout s \<and>
     sys_timeout_pool s' = sys_timeout_pool s \<and> current_timeout_due_time s' = current_timeout_due_time s \<and>
     tcpip_tcp_timer_active s' = tcpip_tcp_timer_active s \<and> rel (sys_now s) (sys_now s') \<le> d)"

text \<open>
  The invariant: only the timers of \<^verbatim>\<open>lwip_cyclic_timers\<close> and the TCP timer are installed, each at
  most once, the TCP timer exactly when its flag is set, and no element of the pool is lost.
\<close>

definition timer_key :: "sys_timeo \<Rightarrow> sys_timeout_handler option \<times> nat" where
  "timer_key t = (h t, arg t)"

definition stack_keys :: "(sys_timeout_handler option \<times> nat) set" where
  "stack_keys = {(Some Handler_tcpip_tcp_timer, 0), (Some Handler_lwip_cyclic_timer, 1),
     (Some Handler_lwip_cyclic_timer, 2), (Some Handler_lwip_cyclic_timer, 3)}"

definition timeouts_inv :: "'w timeouts \<Rightarrow> bool" where
  "timeouts_inv s \<longleftrightarrow> sys_timeout_pool s + length (next_timeout s) = MEMP_NUM_SYS_TIMEOUT \<and>
     distinct (map timer_key (next_timeout s)) \<and> timer_key ` set (next_timeout s) \<subseteq> stack_keys \<and>
     ((Some Handler_tcpip_tcp_timer, 0) \<in> timer_key ` set (next_timeout s) \<longleftrightarrow> tcpip_tcp_timer_active s)"

lemma distinct_timeout_insert:
  "distinct (map timer_key (timeout_insert t ts)) \<longleftrightarrow>
     timer_key t \<notin> timer_key ` set ts \<and> distinct (map timer_key ts)"
  by (induction ts) auto

lemma cyclic_interval: "i < length lwip_cyclic_timers \<Longrightarrow> lwip_cyclic_timers ! i \<in> {250, 1000}"
  by (auto simp: lwip_cyclic_timers_def nth_Cons split: nat.splits)

lemma rel_trans: "rel a b + rel b c < 2 ^ 32 \<Longrightarrow> rel a c = rel a b + rel b c"
proof -
  assume a: "rel a b + rel b c < 2 ^ 32"
  have "c - a = (b - a) + (c - b)" by simp
  then show ?thesis using a unat_add_no_wrap [of "b - a" "c - b"] by (simp add: rel_def)
qed

text \<open>A timeout that is entered late enough is not due; one that moves forward is less overdue.\<close>

lemma due_weight_later:
  assumes "0 < rel now t'" "rel now t' < 2 ^ 31"
  shows "due_weight now \<lparr>time = t', h = hh, arg = a\<rparr> = 0"
proof -
  have "now - t' = - (t' - now)" by simp
  then have "unat (now - t') = 2 ^ 32 - rel now t'"
    using assms unat_word_diff [of 0 "t' - now"]
    by (auto simp: rel_def word_le_nat_alt unat_eq_zero)
  then show ?thesis
    using assms by (simp add: due_weight_def TIME_LESS_THAN_def LWIP_MAX_TIMEOUT_def word_less_nat_alt)
qed

lemma due_weight_forward:
  assumes "\<not> TIME_LESS_THAN now (time t)" "0 < unat k" "unat k < 2 ^ 30"
  shows "due_weight now \<lparr>time = time t + k, h = hh, arg = a\<rparr> < due_weight now t"
proof (cases "unat k \<le> unat (now - time t)")
  case True
  have "now - (time t + k) = (now - time t) - k" by simp
  then have "unat (now - (time t + k)) = unat (now - time t) - unat k"
    using True by (metis unat_diff_le word_le_nat_alt)
  then show ?thesis using assms True by (simp add: due_weight_def)
next
  case False
  have "time t + k - now = k - (now - time t)" by simp
  then have "rel now (time t + k) = unat k - unat (now - time t)"
    using False unfolding rel_def by (metis unat_diff_le word_le_nat_alt nat_le_linear)
  then have "due_weight now \<lparr>time = time t + k, h = hh, arg = a\<rparr> = 0"
    using False assms by (intro due_weight_later) auto
  then show ?thesis using assms by (simp add: due_weight_def)
qed


text \<open>The clock cannot leave the window while overdue timeouts pay for the time that handlers take.\<close>

definition check_inv :: "nat \<Rightarrow> u32 \<Rightarrow> 'w timeouts \<Rightarrow> bool" where
  "check_inv d now s \<longleftrightarrow> timeouts_inv s \<and> rel now (sys_now s) + d * overdue now (next_timeout s) \<le> 2 ^ 30"

lemma check_inv_step:
  assumes inv: "check_inv d now s"
    and pop: "next_timeout s = t # ts"
    and s2: "next_timeout s2 = ts \<or> next_timeout s2 = timeout_insert t2 ts"
    and w: "next_timeout s2 \<noteq> ts \<Longrightarrow> due_weight now t2 < due_weight now t"
    and due: "0 < due_weight now t"
    and clk: "rel (sys_now s) (sys_now s2) \<le> d"
    and ok: "timeouts_inv s2"
  shows "check_inv d now s2 \<and> overdue now (next_timeout s2) < overdue now (next_timeout s)"
proof -
  have less: "overdue now (next_timeout s2) < overdue now (next_timeout s)"
    using s2 w due by (cases "next_timeout s2 = ts") (auto simp: pop)
  then have "d * overdue now (next_timeout s2) + d \<le> d * overdue now (next_timeout s)"
    by (metis Suc_leI mult_Suc_right add.commute mult_le_mono2)
  moreover have lim: "rel now (sys_now s) + d * overdue now (next_timeout s) \<le> 2 ^ 30"
    using inv by (simp add: check_inv_def)
  ultimately have *: "rel now (sys_now s) + rel (sys_now s) (sys_now s2) +
      d * overdue now (next_timeout s2) \<le> 2 ^ 30"
    using clk by linarith
  then have "rel now (sys_now s2) = rel now (sys_now s) + rel (sys_now s) (sys_now s2)"
    by (intro rel_trans) simp
  then show ?thesis using * ok less by (simp add: check_inv_def)
qed

text \<open>After the first timeout is taken off, its timer may be entered again.\<close>

lemma timeouts_inv_pop:
  assumes "timeouts_inv s" "next_timeout s = t # ts"
  shows "timer_key t \<in> stack_keys" "timer_key t \<notin> timer_key ` set ts"
    "sys_timeout_pool s + length ts + 1 = MEMP_NUM_SYS_TIMEOUT"
  using assms by (auto simp: timeouts_inv_def)

lemma timeouts_inv_reenter:
  assumes "timeouts_inv s" "next_timeout s = t # ts" "timer_key t2 = timer_key t"
    and "next_timeout s2 = timeout_insert t2 ts" "sys_timeout_pool s2 = sys_timeout_pool s"
    and "tcpip_tcp_timer_active s2 = tcpip_tcp_timer_active s"
  shows "timeouts_inv s2"
  using assms by (auto simp: timeouts_inv_def distinct_timeout_insert)

lemma timeouts_inv_drop_tcp:
  assumes "timeouts_inv s" "next_timeout s = t # ts" "h t = Some Handler_tcpip_tcp_timer"
    and "next_timeout s2 = ts" "sys_timeout_pool s2 = sys_timeout_pool s + 1" "\<not> tcpip_tcp_timer_active s2"
  shows "timeouts_inv s2"
  using assms by (auto simp: timeouts_inv_def timer_key_def stack_keys_def)

lemma check_inv_later:
  assumes inv: "check_inv d now s" and ts: "next_timeout s = t # ts" and pos: "0 < due_weight now t"
    and u: "rel (sys_now s) u \<le> d" and k: "0 < unat k" "unat k \<le> 1000"
  shows "due_weight now \<lparr>time = u + k, h = hh, arg = a\<rparr> = 0"
proof -
  have "d \<le> d * overdue now (next_timeout s)" using pos by (simp add: ts)
  then have "rel now (sys_now s) + rel (sys_now s) u \<le> 2 ^ 30"
    using u inv unfolding check_inv_def by linarith
  then have near: "rel now u \<le> 2 ^ 30" using rel_trans [of now "sys_now s" u] by simp
  have "rel u (u + k) = unat k" by (simp add: rel_def)
  then have "rel now (u + k) = rel now u + unat k"
    using rel_trans [of now u "u + k"] near k by simp
  then show ?thesis using near k by (intro due_weight_later) auto
qed

lemma stack_call_tcp:
  assumes q: "quiet d tcp_tmr" and inv: "check_inv d now s" and ts: "next_timeout s = t # ts"
    and pos: "0 < due_weight now t" and tcp: "h t = Some Handler_tcpip_tcp_timer"
    and s1: "s1 = s\<lparr>next_timeout := ts, current_timeout_due_time := time t,
      sys_timeout_pool := sys_timeout_pool s + 1\<rparr>"
  shows "\<exists>s2. tcpip_tcp_timer tcp_tmr tcp_pcbs s1 = Some s2 \<and>
    check_inv d now s2 \<and> overdue now (next_timeout s2) < overdue now (next_timeout s)"
proof -
  have tinv: "timeouts_inv s" using inv by (simp add: check_inv_def)
  note pi = timeouts_inv_pop [OF tinv ts]
  obtain s' where s': "tcp_tmr s1 = Some s'" "next_timeout s' = ts"
      "sys_timeout_pool s' = sys_timeout_pool s + 1"
      "tcpip_tcp_timer_active s' = tcpip_tcp_timer_active s" "rel (sys_now s) (sys_now s') \<le> d"
    using q unfolding quiet_def by (force simp: s1)
  show ?thesis
  proof (cases "tcp_pcbs (world s')")
    case True
    define t2 where "t2 = \<lparr>time = sys_now s' + 250, h = Some Handler_tcpip_tcp_timer, arg = 0\<rparr>"
    define s2 where "s2 = s'\<lparr>sys_timeout_pool := sys_timeout_pool s' - 1,
      next_timeout := timeout_insert t2 ts\<rparr>"
    have call: "tcpip_tcp_timer tcp_tmr tcp_pcbs s1 = Some s2"
      using s' True by (simp add: tcpip_tcp_timer_def sys_timeout_def sys_timeout_abs_def
          TCP_TMR_INTERVAL_def LWIP_UINT32_MAX_def s2_def t2_def)
    have "timer_key t2 = timer_key t" using pi(1) tcp by (auto simp: timer_key_def t2_def stack_keys_def)
    then have "timeouts_inv s2"
      using timeouts_inv_reenter [OF tinv ts, of t2 s2] s' by (simp add: s2_def)
    then show ?thesis
      using call check_inv_later [OF inv ts pos s'(5), of 250] s'(5) pos
        check_inv_step [OF inv ts, of s2 t2] by (simp add: s2_def t2_def)
  next
    case False
    define s2 where "s2 = s'\<lparr>tcpip_tcp_timer_active := False\<rparr>"
    have call: "tcpip_tcp_timer tcp_tmr tcp_pcbs s1 = Some s2"
      using s' False by (simp add: tcpip_tcp_timer_def s2_def)
    have "timeouts_inv s2"
      using timeouts_inv_drop_tcp [OF tinv ts tcp, of s2] s' by (simp add: s2_def)
    then show ?thesis using call s' pos check_inv_step [OF inv ts, of s2 t] by (simp add: s2_def)
  qed
qed

lemma stack_call_cyclic:
  assumes q: "\<And>i. quiet d (cyclic_handler i)" and inv: "check_inv d now s" and ts: "next_timeout s = t # ts"
    and due: "\<not> TIME_LESS_THAN now (time t)"
    and cyc: "h t = Some Handler_lwip_cyclic_timer" "arg t < length lwip_cyclic_timers"
    and s1: "s1 = s\<lparr>next_timeout := ts, current_timeout_due_time := time t,
      sys_timeout_pool := sys_timeout_pool s + 1\<rparr>"
  shows "\<exists>s2. lwip_cyclic_timer cyclic_handler (arg t) s1 = Some s2 \<and>
    check_inv d now s2 \<and> overdue now (next_timeout s2) < overdue now (next_timeout s)"
proof -
  have pos: "0 < due_weight now t" using due by (simp add: due_weight_def)
  obtain s' where s': "cyclic_handler (arg t) s1 = Some s'" "next_timeout s' = ts"
      "sys_timeout_pool s' = sys_timeout_pool s + 1" "current_timeout_due_time s' = time t"
      "tcpip_tcp_timer_active s' = tcpip_tcp_timer_active s" "rel (sys_now s) (sys_now s') \<le> d"
    using q unfolding quiet_def by (force simp: s1)
  define k where "k = lwip_cyclic_timers ! arg t"
  have k: "k \<in> {250, 1000}" using cyclic_interval [OF cyc(2)] by (simp add: k_def)
  define t' where "t' = (if TIME_LESS_THAN (time t + k) (sys_now s') then sys_now s' + k else time t + k)"
  define t2 where "t2 = \<lparr>time = t', h = Some Handler_lwip_cyclic_timer, arg = arg t\<rparr>"
  define s2 where "s2 = s'\<lparr>sys_timeout_pool := sys_timeout_pool s' - 1,
    next_timeout := timeout_insert t2 ts\<rparr>"
  have call: "lwip_cyclic_timer cyclic_handler (arg t) s1 = Some s2"
    using s' by (simp add: lwip_cyclic_timer_def sys_timeout_abs_def s2_def t2_def t'_def k_def)
  have "timeouts_inv s2"
    using timeouts_inv_reenter [OF _ ts, of t2 s2] inv s' cyc(1)
    by (simp add: s2_def check_inv_def timer_key_def t2_def)
  moreover have "due_weight now t2 < due_weight now t"
    using check_inv_later [OF inv ts pos s'(6), of k] due_weight_forward [OF due, of k] k pos
    by (auto simp: t2_def t'_def)
  ultimately have "check_inv d now s2 \<and> overdue now (next_timeout s2) < overdue now (next_timeout s)"
    using s'(6) pos by (intro check_inv_step [OF inv ts, of _ t2]) (simp_all add: s2_def)
  with call show ?thesis by blast
qed

lemma stack_call_step:
  assumes "quiet d tcp_tmr" and "\<And>i. quiet d (cyclic_handler i)"
    and inv: "check_inv d now s" and pop: "check_pop now s = Some (t, s1)"
  shows "\<exists>s2. call_handler (stack_call tcp_tmr tcp_pcbs cyclic_handler other) t s1 = Some s2 \<and>
    check_inv d now s2 \<and> overdue now (next_timeout s2) < overdue now (next_timeout s)"
proof -
  obtain ts where due: "\<not> TIME_LESS_THAN now (time t)" and ts: "next_timeout s = t # ts"
    and s1: "s1 = s\<lparr>next_timeout := ts, current_timeout_due_time := time t,
      sys_timeout_pool := sys_timeout_pool s + 1\<rparr>"
    using pop by (auto simp: check_pop_Some)
  have "timer_key t \<in> stack_keys"
    using inv timeouts_inv_pop [OF _ ts] by (simp add: check_inv_def)
  then consider (tcp) "h t = Some Handler_tcpip_tcp_timer"
    | (cyclic) "h t = Some Handler_lwip_cyclic_timer" "arg t < length lwip_cyclic_timers"
    by (auto simp: timer_key_def stack_keys_def lwip_cyclic_timers_def)
  then show ?thesis
  proof cases
    case tcp
    then show ?thesis using stack_call_tcp [OF assms(1) inv ts _ tcp s1] due
      by (simp add: call_handler_def stack_call_def due_weight_def)
  next
    case cyclic
    then show ?thesis using stack_call_cyclic [OF assms(2) inv ts due cyclic s1]
      by (simp add: call_handler_def stack_call_def)
  qed
qed

text \<open>C35: \<^verbatim>\<open>sys_check_timeouts\<close> returns, although every cyclic timer enters itself again. The timers of the stack are
  installed (\<^verbatim>\<open>timeouts_inv\<close>); the handlers return, do not touch the timeouts and let at most \<open>d\<close> milliseconds go by; and
  \<open>d\<close> times the total by which the timeouts are overdue (\<^verbatim>\<open>overdue\<close>), which bounds the number of calls, is at most two to the power of 30, so that
  the clock does not wrap in the meantime. Then the check returns, the first timeout is not due at the time it began, no element of the pool is
  lost, and the TCP timer is scheduled once exactly when its flag says so.\<close>

theorem sys_check_timeouts_returns:
  fixes s :: "'w timeouts"
  assumes "timeouts_inv s" and "quiet d tcp_tmr" and "\<And>i. quiet d (cyclic_handler i)"
    and "\<And>w. \<exists>w'. free_ooseq w = Some w'"
    and "d * overdue (sys_now s) (next_timeout s) \<le> 2 ^ 30"
  shows "\<exists>s'. sys_check_timeouts free_ooseq (stack_call tcp_tmr tcp_pcbs cyclic_handler other) s = Some s' \<and>
    timeouts_inv s' \<and> (next_timeout s' = [] \<or> TIME_LESS_THAN (sys_now s) (time (hd (next_timeout s'))))"
proof -
  define now where "now = sys_now s"
  have i: "check_inv d now s" using assms by (simp add: check_inv_def now_def rel_def)
  have w: "check_inv d now t \<Longrightarrow> check_inv d now (t\<lparr>world := w\<rparr>)" for t :: "'w timeouts" and w
    by (simp add: check_inv_def timeouts_inv_def)
  have "\<exists>s'. sys_check_timeouts_loop free_ooseq (stack_call tcp_tmr tcp_pcbs cyclic_handler other) now s = Some s' \<and>
      check_inv d now s' \<and> check_pop now s' = None"
    by (rule check_loop_returns [OF _ assms(4) w i]) (rule stack_call_step [OF assms(2,3)])
  then obtain s' where "sys_check_timeouts_loop free_ooseq (stack_call tcp_tmr tcp_pcbs cyclic_handler other) now s = Some s'"
      "check_inv d now s'" "check_pop now s' = None" by blast
  then show ?thesis
    by (auto simp: sys_check_timeouts_def now_def check_inv_def check_pop_def split: list.splits if_splits)
qed


definition busy :: "'w timeouts \<Rightarrow> 'w timeouts option" where
  "busy s = Some (s\<lparr>sys_now := sys_now s + 3\<rparr>)"

lemma quiet_busy: "quiet 3 busy"
  by (simp add: quiet_def busy_def rel_def)

theorem sys_check_timeouts_returns_witness:
  fixes s :: "bool timeouts"
  defines "s \<equiv> \<lparr>next_timeout = [\<lparr>time = 0xffffff00, h = Some Handler_lwip_cyclic_timer, arg = 1\<rparr>,
      \<lparr>time = 0xfffffff0, h = Some Handler_tcpip_tcp_timer, arg = 0\<rparr>], sys_timeout_pool = 2,
    current_timeout_due_time = 0, tcpip_tcp_timer_active = True, sys_now = 16, world = True\<rparr>"
  shows "\<exists>s'. sys_check_timeouts Some (stack_call busy id (\<lambda>_. busy) (\<lambda>_ _ _. None)) s = Some s' \<and>
    timeouts_inv s' \<and> (next_timeout s' = [] \<or> TIME_LESS_THAN (sys_now s) (time (hd (next_timeout s'))))"
  by (rule sys_check_timeouts_returns [of _ 3])
    (simp_all add: quiet_busy s_def timeouts_inv_def timer_key_def stack_keys_def MEMP_NUM_SYS_TIMEOUT_def
      due_weight_def TIME_LESS_THAN_def LWIP_MAX_TIMEOUT_def)

section \<open>Starting the timers\<close>

lemma stack_keys_card: "card stack_keys = 4"
  by (simp add: stack_keys_def)

text \<open>The pool has an element for the TCP timer whenever it is not installed.\<close>

lemma timeouts_inv_pool:
  assumes "timeouts_inv s" "\<not> tcpip_tcp_timer_active s"
  shows "sys_timeout_pool s \<noteq> 0"
proof -
  have "timer_key ` set (next_timeout s) \<subseteq> stack_keys - {(Some Handler_tcpip_tcp_timer, 0)}"
    using assms by (auto simp: timeouts_inv_def)
  then have "card (timer_key ` set (next_timeout s)) \<le> card (stack_keys - {(Some Handler_tcpip_tcp_timer, 0)})"
    by (intro card_mono) (simp_all add: stack_keys_def)
  also have "\<dots> = 3" by (simp add: stack_keys_def)
  finally have "length (next_timeout s) \<le> 3"
    using assms distinct_card [of "map timer_key (next_timeout s)"] by (simp add: timeouts_inv_def)
  then show ?thesis using assms by (simp add: timeouts_inv_def MEMP_NUM_SYS_TIMEOUT_def)
qed

text \<open>Registering a TCP control block never runs out of timeouts: \<^verbatim>\<open>tcp_timer_needed\<close> returns,
  keeps the invariant of the timers, and leaves the TCP timer running if there are control blocks.\<close>

lemma tcp_timer_needed_runs:
  assumes "timeouts_inv s"
  shows "\<exists>s'. tcp_timer_needed tcp_pcbs s = Some s' \<and> timeouts_inv s' \<and> world s' = world s \<and>
    (tcp_pcbs (world s) \<longrightarrow> tcpip_tcp_timer_active s' \<and>
       (\<exists>t \<in> set (next_timeout s'). h t = Some Handler_tcpip_tcp_timer))"
proof (cases "\<not> tcpip_tcp_timer_active s \<and> tcp_pcbs (world s)")
  case True
  define t where "t = \<lparr>time = sys_now s + 250, h = Some Handler_tcpip_tcp_timer, arg = 0\<rparr>"
  define s' where "s' = s\<lparr>tcpip_tcp_timer_active := True, sys_timeout_pool := sys_timeout_pool s - 1,
    next_timeout := timeout_insert t (next_timeout s)\<rparr>"
  have pool: "sys_timeout_pool s \<noteq> 0" using timeouts_inv_pool [OF assms] True by simp
  then have "tcp_timer_needed tcp_pcbs s = Some s'"
    using True by (simp add: tcp_timer_needed_def sys_timeout_def sys_timeout_abs_def
        TCP_TMR_INTERVAL_def LWIP_UINT32_MAX_def s'_def t_def)
  moreover have "timer_key t = (Some Handler_tcpip_tcp_timer, 0)" by (simp add: t_def timer_key_def)
  then have "timeouts_inv s'"
    using assms True pool by (auto simp: timeouts_inv_def s'_def distinct_timeout_insert stack_keys_def)
  ultimately show ?thesis by (auto simp: s'_def t_def)
next
  case False
  then have "tcp_timer_needed tcp_pcbs s = Some s" by (auto simp: tcp_timer_needed_def)
  then show ?thesis using assms False by (force simp: timeouts_inv_def timer_key_def)
qed

text \<open>From an empty list and a full pool, \<^verbatim>\<open>sys_timeouts_init\<close> installs the three cyclic
  timers that do not depend on TCP.\<close>

lemma sys_timeouts_init_inv:
  assumes "next_timeout s = []" and "sys_timeout_pool s = MEMP_NUM_SYS_TIMEOUT" and "\<not> tcpip_tcp_timer_active s"
  shows "\<exists>s'. sys_timeouts_init s = Some s' \<and> timeouts_inv s' \<and>
    map timer_key (next_timeout s') = map (\<lambda>i. (Some Handler_lwip_cyclic_timer, i)) [1, 2, 3]"
proof -
  have u: "[Suc 0..<4] = [1, 2, 3]" by (simp add: upt_rec)
  show ?thesis
    using assms
    by (simp add: sys_timeouts_init_def lwip_cyclic_timers_def u sys_timeout_def sys_timeout_abs_def
        LWIP_UINT32_MAX_def MEMP_NUM_SYS_TIMEOUT_def TIME_LESS_THAN_def LWIP_MAX_TIMEOUT_def
        timeouts_inv_def timer_key_def stack_keys_def Let_def)
qed

end
