(* ===== verification/Allocator.thy ===== *)
theory Allocator
  imports Lwip_Prelude
begin

text \<open>
  The interface between the users of memory (pbufs, timeouts, control blocks, segments) and the
  two allocators of the stack, the heap of \<^verbatim>\<open>mem.c\<close> and the pools of \<^verbatim>\<open>memp.c\<close>. An allocator
  keeps an invariant and a set of live pointers: allocation returns a pointer that was not live
  or NULL, and freeing a live pointer succeeds and removes exactly that one. \<open>ok\<close> restricts the
  requests for which this is promised.
\<close>

locale allocator =
  fixes alloc :: "'r \<Rightarrow> 'h \<Rightarrow> ('p option \<times> 'h) option"
    and free :: "'p \<Rightarrow> 'h \<Rightarrow> 'h option"
    and ok :: "'r \<Rightarrow> bool"
    and wf :: "'h \<Rightarrow> bool"
    and live :: "'h \<Rightarrow> 'p set"
  assumes alloc_total: "wf h \<Longrightarrow> ok r \<Longrightarrow> \<exists>p h'. alloc r h = Some (p, h')"
    and alloc_wf: "wf h \<Longrightarrow> ok r \<Longrightarrow> alloc r h = Some (p, h') \<Longrightarrow> wf h'"
    and alloc_null: "wf h \<Longrightarrow> ok r \<Longrightarrow> alloc r h = Some (None, h') \<Longrightarrow> live h' = live h"
    and alloc_fresh: "wf h \<Longrightarrow> ok r \<Longrightarrow> alloc r h = Some (Some q, h') \<Longrightarrow>
      q \<notin> live h \<and> live h' = insert q (live h)"
    and free_live: "wf h \<Longrightarrow> q \<in> live h \<Longrightarrow> \<exists>h'. free q h = Some h' \<and> wf h' \<and> live h' = live h - {q}"
begin

lemma free_freed:
  assumes "wf h" "ok r" "alloc r h = Some (Some p, h1)"
  shows "\<exists>h2. free p h1 = Some h2 \<and> wf h2 \<and> live h2 = live h"
  using alloc_fresh [OF assms] alloc_wf [OF assms] free_live [of h1 p] by auto

lemma alloc_keeps:
  assumes "wf h" "ok r" "alloc r h = Some (p, h')"
  shows "live h \<subseteq> live h'"
  using alloc_null [OF assms(1,2)] alloc_fresh [OF assms(1,2)] assms(3) by (cases p) auto

lemma alloc_alloc_distinct:
  assumes "wf h" "ok r" "alloc r h = Some (Some p, h1)" "ok r2" "alloc r2 h1 = Some (Some q, h2)"
  shows "p \<noteq> q"
  using alloc_fresh [OF assms(1-3)] alloc_fresh [OF alloc_wf [OF assms(1-3)] assms(4,5)] by auto

text \<open>Freeing a list of distinct live pointers.\<close>

fun free_all :: "'p list \<Rightarrow> 'h \<Rightarrow> 'h option" where
  "free_all [] h = Some h"
| "free_all (p # ps) h = (free p h \<bind> free_all ps)"

lemma free_all_live:
  "wf h \<Longrightarrow> distinct ps \<Longrightarrow> set ps \<subseteq> live h \<Longrightarrow>
     \<exists>h'. free_all ps h = Some h' \<and> wf h' \<and> live h' = live h - set ps"
proof (induction ps arbitrary: h)
  case (Cons p ps)
  obtain h1 where h1: "free p h = Some h1" "wf h1" "live h1 = live h - {p}"
    using free_live [OF Cons.prems(1), of p] Cons.prems(3) by auto
  have "set ps \<subseteq> live h1" "distinct ps" using Cons.prems h1 by auto
  from Cons.IH [OF h1(2) this(2,1)] h1 show ?case by auto
qed simp

end

end
