(* ===== verification/Memp_Pool.thy ===== *)
theory Memp_Pool
  imports Allocator
begin

text \<open>
  The fixed-size pools of \<^verbatim>\<open>core/memp.c\<close>, for the pools of \<^verbatim>\<open>priv/memp_std.h\<close> that the configuration
  has. The free list of a pool (\<^verbatim>\<open>*desc->tab\<close>) is the list of the offsets of its elements; the
  memory of the pools lies in different arrays, so an element is its pool and its offset.

  The lemmas show that the free list never holds an element twice, that an element is either
  free or live, and that the pools are an allocator for each of their types.
\<close>

datatype memp_t =
  MEMP_RAW_PCB | MEMP_UDP_PCB | MEMP_TCP_PCB | MEMP_TCP_PCB_LISTEN | MEMP_TCP_SEG
| MEMP_REASSDATA | MEMP_FRAG_PBUF | MEMP_SYS_TIMEOUT | MEMP_ND6_QUEUE | MEMP_IP6_REASSDATA | MEMP_PBUF | MEMP_PBUF_POOL

text \<open>The number and the aligned size of the elements.\<close>

record memp_desc =
  memp_num :: nat
  memp_elem_size :: nat

definition MEMP_SIZE :: nat where "MEMP_SIZE = 0"

type_synonym memp_tabs = "memp_t \<Rightarrow> nat list"

text \<open>\<^verbatim>\<open>memp_init_pool\<close> walks over the elements and pushes each on the free list.\<close>

fun memp_init_loop :: "memp_desc \<Rightarrow> nat \<Rightarrow> nat \<Rightarrow> nat list \<Rightarrow> nat list" where
  "memp_init_loop desc 0 memp tab = tab"
| "memp_init_loop desc (Suc i) memp tab =
     memp_init_loop desc i (memp + (MEMP_SIZE + memp_elem_size desc)) (memp # tab)"

definition memp_init_pool :: "memp_desc \<Rightarrow> nat list" where
  "memp_init_pool desc = memp_init_loop desc (memp_num desc) 0 []"

definition memp_init :: "(memp_t \<Rightarrow> memp_desc) \<Rightarrow> memp_tabs" where
  "memp_init descs = (\<lambda>t. memp_init_pool (descs t))"

definition do_memp_malloc_pool :: "nat list \<Rightarrow> nat option \<times> nat list" where
  "do_memp_malloc_pool tab =
     (case tab of
        memp # tab \<Rightarrow> (Some (memp + MEMP_SIZE), tab)
      | [] \<Rightarrow> (None, tab))"

definition memp_malloc :: "memp_t \<Rightarrow> memp_tabs \<Rightarrow> nat option \<times> memp_tabs" where
  "memp_malloc type tabs =
     (let (p, tab) = do_memp_malloc_pool (tabs type) in (p, tabs(type := tab)))"

definition do_memp_free_pool :: "nat \<Rightarrow> nat list \<Rightarrow> nat list" where
  "do_memp_free_pool mem tab = (let memp = mem - MEMP_SIZE in memp # tab)"

definition memp_free :: "memp_t \<Rightarrow> nat option \<Rightarrow> memp_tabs \<Rightarrow> memp_tabs" where
  "memp_free type mem tabs =
     (case mem of None \<Rightarrow> tabs | Some mem \<Rightarrow> tabs(type := do_memp_free_pool mem (tabs type)))"

section \<open>Elements, free and live\<close>

definition memp_elems :: "memp_desc \<Rightarrow> nat set" where
  "memp_elems desc = (\<lambda>i. i * memp_elem_size desc) ` {..< memp_num desc}"

definition memp_ok :: "(memp_t \<Rightarrow> memp_desc) \<Rightarrow> memp_tabs \<Rightarrow> bool" where
  "memp_ok descs tabs \<longleftrightarrow> (\<forall>t. distinct (tabs t) \<and> set (tabs t) \<subseteq> memp_elems (descs t))"

definition memp_live :: "(memp_t \<Rightarrow> memp_desc) \<Rightarrow> memp_tabs \<Rightarrow> (memp_t \<times> nat) set" where
  "memp_live descs tabs = {(t, e). e \<in> memp_elems (descs t) \<and> e \<notin> set (tabs t)}"

lemma memp_init_loop_eq:
  "memp_init_loop desc n memp tab =
     rev (map (\<lambda>i. memp + i * memp_elem_size desc) [0 ..< n]) @ tab"
proof (induction n arbitrary: memp tab)
  case (Suc n)
  have "map (\<lambda>i. memp + i * memp_elem_size desc) [0 ..< Suc n] =
      memp # map (\<lambda>i. memp + memp_elem_size desc + i * memp_elem_size desc) [0 ..< n]"
    by (subst upt_conv_Cons) (simp_all add: map_Suc_upt [symmetric] o_def add.assoc del: upt_Suc)
  then show ?case using Suc by (simp add: MEMP_SIZE_def del: upt_Suc)
qed simp

lemma memp_init_pool_elems:
  assumes "0 < memp_elem_size desc"
  shows "distinct (memp_init_pool desc)" "set (memp_init_pool desc) = memp_elems desc"
  using assms
  by (auto simp: memp_init_pool_def memp_init_loop_eq memp_elems_def distinct_map inj_on_def)

lemma memp_malloc_cases:
  "memp_malloc t tabs = (p, tabs') \<longleftrightarrow>
     (p = None \<and> tabs t = [] \<and> tabs' = tabs) \<or>
     (\<exists>e es. p = Some e \<and> tabs t = e # es \<and> tabs' = tabs(t := es))"
  by (cases "tabs t") (auto simp: memp_malloc_def do_memp_malloc_pool_def MEMP_SIZE_def)

lemma memp_free_eq: "memp_free t (Some e) tabs = tabs(t := e # tabs t)"
  by (simp add: memp_free_def do_memp_free_pool_def MEMP_SIZE_def)

lemma memp_ok_pop:
  assumes "memp_ok descs tabs" "tabs t = e # es"
  shows "memp_ok descs (tabs(t := es))" "(t, e) \<notin> memp_live descs tabs"
    "memp_live descs (tabs(t := es)) = insert (t, e) (memp_live descs tabs)"
proof -
  have "distinct (e # es)" "set (e # es) \<subseteq> memp_elems (descs t)"
    using assms by (metis memp_ok_def)+
  then show "memp_ok descs (tabs(t := es))" "(t, e) \<notin> memp_live descs tabs"
    "memp_live descs (tabs(t := es)) = insert (t, e) (memp_live descs tabs)"
    using assms by (auto simp: memp_ok_def memp_live_def split: if_splits)
qed

text \<open>The pools as an allocator of (pool, element) pairs.\<close>

definition pool_alloc :: "memp_t \<Rightarrow> memp_tabs \<Rightarrow> ((memp_t \<times> nat) option \<times> memp_tabs) option" where
  "pool_alloc t tabs = (let (p, tabs) = memp_malloc t tabs in Some (map_option (Pair t) p, tabs))"

definition pool_free :: "memp_t \<times> nat \<Rightarrow> memp_tabs \<Rightarrow> memp_tabs option" where
  "pool_free p tabs = Some (memp_free (fst p) (Some (snd p)) tabs)"

interpretation memp: allocator pool_alloc pool_free "\<lambda>_. True" "memp_ok descs" "memp_live descs"
proof
  fix h h' :: memp_tabs and r :: memp_t and p :: "(memp_t \<times> nat) option" and q :: "memp_t \<times> nat"
  show "\<exists>p h'. pool_alloc r h = Some (p, h')" by (simp add: pool_alloc_def split: prod.split)
  show "memp_ok descs h'" if "memp_ok descs h" "pool_alloc r h = Some (p, h')"
    using that memp_ok_pop [OF that(1)]
    by (auto simp: pool_alloc_def memp_malloc_cases split: prod.splits)
  show "memp_live descs h' = memp_live descs h" if "pool_alloc r h = Some (None, h')"
    using that by (auto simp: pool_alloc_def memp_malloc_cases split: prod.splits)
  show "q \<notin> memp_live descs h \<and> memp_live descs h' = insert q (memp_live descs h)"
    if "memp_ok descs h" "pool_alloc r h = Some (Some q, h')"
    using that memp_ok_pop [OF that(1)]
    by (auto simp: pool_alloc_def memp_malloc_cases split: prod.splits)
  show "\<exists>h'. pool_free q h = Some h' \<and> memp_ok descs h' \<and> memp_live descs h' = memp_live descs h - {q}"
    if "memp_ok descs h" "q \<in> memp_live descs h"
    using that by (cases q) (auto simp: pool_free_def memp_free_eq memp_live_def memp_ok_def split: if_splits)
qed

text \<open>Allocating several times in a row.\<close>

primrec memp_mallocs :: "nat \<Rightarrow> memp_t \<Rightarrow> memp_tabs \<Rightarrow> nat option list \<times> memp_tabs" where
  "memp_mallocs 0 t tabs = ([], tabs)"
| "memp_mallocs (Suc n) t tabs =
     (let (p, tabs) = memp_malloc t tabs; (ps, tabs) = memp_mallocs n t tabs in (p # ps, tabs))"

lemma memp_mallocs_all:
  assumes "tabs t = es" shows "memp_mallocs (length es) t tabs = (map Some es, tabs(t := []))"
  using assms
proof (induction es arbitrary: tabs)
  case (Cons e es)
  have "memp_malloc t tabs = (Some e, tabs(t := es))" using Cons.prems by (auto simp: memp_malloc_cases)
  moreover have "(tabs(t := es))(t := []) = tabs(t := [])" by simp
  then have "memp_mallocs (length es) t (tabs(t := es)) = (map Some es, tabs(t := []))"
    using Cons.IH [of "tabs(t := es)"] by (simp only: fun_upd_same)
  ultimately show ?case by (simp add: fun_upd_def)
qed (auto simp: fun_upd_idem)

text \<open>C34: after \<^verbatim>\<open>memp_init\<close> nothing is allocated, and the pools are well formed. Allocating \<^verbatim>\<open>num\<close> times hands out all
  elements of the pool, each once; the next allocation returns NULL and changes nothing; and in every
  well-formed state an element that is freed is what the next allocation returns.\<close>

theorem memp_pool_capacity:
  assumes "\<And>t. 0 < memp_elem_size (descs t)"
  shows "memp_ok descs (memp_init descs) \<and> memp_live descs (memp_init descs) = {} \<and>
    (\<exists>es tabs. memp_mallocs (memp_num (descs t)) t (memp_init descs) = (map Some es, tabs) \<and>
       distinct es \<and> set es = memp_elems (descs t) \<and> memp_malloc t tabs = (None, tabs)) \<and>
    (\<forall>tabs p. memp_ok descs tabs \<and> (t, p) \<in> memp_live descs tabs \<longrightarrow>
       memp_malloc t (memp_free t (Some p) tabs) = (Some p, tabs))"
proof (intro conjI)
  note init = memp_init_pool_elems [OF assms]
  show "memp_ok descs (memp_init descs)" "memp_live descs (memp_init descs) = {}"
    using init by (auto simp: memp_ok_def memp_live_def memp_init_def)
  have "length (memp_init descs t) = memp_num (descs t)"
    by (simp add: memp_init_def memp_init_pool_def memp_init_loop_eq)
  then have "memp_mallocs (memp_num (descs t)) t (memp_init descs) = (map Some (memp_init descs t), (memp_init descs)(t := []))"
    using memp_mallocs_all [of "memp_init descs" t, OF refl] by simp
  moreover have "distinct (memp_init descs t)" "set (memp_init descs t) = memp_elems (descs t)"
    using init by (simp_all add: memp_init_def)
  moreover have "memp_malloc t ((memp_init descs)(t := [])) = (None, (memp_init descs)(t := []))" by (simp add: memp_malloc_cases)
  ultimately show "\<exists>es tabs. memp_mallocs (memp_num (descs t)) t (memp_init descs) = (map Some es, tabs) \<and>
       distinct es \<and> set es = memp_elems (descs t) \<and> memp_malloc t tabs = (None, tabs)" by blast
  show "\<forall>tabs p. memp_ok descs tabs \<and> (t, p) \<in> memp_live descs tabs \<longrightarrow>
       memp_malloc t (memp_free t (Some p) tabs) = (Some p, tabs)"
    by (simp add: memp_malloc_cases memp_free_eq)
qed

theorem memp_pool_capacity_witness:
  fixes descs :: "memp_t \<Rightarrow> memp_desc"
  defines "descs \<equiv> (\<lambda>_. \<lparr>memp_num = 4, memp_elem_size = 24\<rparr>)"
  shows "(\<exists>es tabs. memp_mallocs 4 MEMP_SYS_TIMEOUT (memp_init descs) = (map Some es, tabs) \<and> distinct es \<and>
      memp_malloc MEMP_SYS_TIMEOUT tabs = (None, tabs)) \<and>
    memp_malloc MEMP_SYS_TIMEOUT (memp_free MEMP_SYS_TIMEOUT (Some 0) (\<lambda>_. [])) = (Some 0, \<lambda>_. [])"
proof -
  have "0 < memp_elem_size (descs t)" for t by (simp add: descs_def)
  note cap = memp_pool_capacity [of descs MEMP_SYS_TIMEOUT, OF this]
  have "memp_ok descs (\<lambda>_. [])" "(MEMP_SYS_TIMEOUT, 0) \<in> memp_live descs (\<lambda>_. [])" "memp_num (descs MEMP_SYS_TIMEOUT) = 4"
    by (simp_all add: memp_ok_def memp_live_def memp_elems_def descs_def)
  then show ?thesis using cap by metis
qed

end
