(* ===== verification/Mem_Heap.thy ===== *)
theory Mem_Heap
  imports Allocator
begin

text \<open>
  The heap of \<^verbatim>\<open>core/mem.c\<close>: a memory area tiled by blocks, each with a \<^verbatim>\<open>struct mem\<close> header that
  links to its neighbours, the pointer \<^verbatim>\<open>lfree\<close> to the lowest free block, first-fit
  \<^verbatim>\<open>mem_malloc\<close> with splitting, \<^verbatim>\<open>mem_free\<close> with \<^verbatim>\<open>plug_holes\<close>, \<^verbatim>\<open>mem_trim\<close> and \<^verbatim>\<open>mem_calloc\<close>.
  Pointers are offsets into \<^verbatim>\<open>ram\<close>; \<open>ram\<close> maps the offsets at which a header was written to
  the header, stale headers included. \<^verbatim>\<open>LWIP_MEM_ILLEGAL_FREE\<close> aborts.

  The abstract heap is the list of the sizes and states of the blocks. The lemmas show that the
  linked headers always represent such a list without two free neighbours, that allocation takes
  the first block that fits and never overlaps a block in use, and that freeing merges.
\<close>

section \<open>Layout\<close>

definition MEM_ALIGNMENT :: nat where "MEM_ALIGNMENT = 1"

definition LWIP_MEM_ALIGN_SIZE :: "nat \<Rightarrow> nat" where
  "LWIP_MEM_ALIGN_SIZE sz = (sz + MEM_ALIGNMENT - 1) div MEM_ALIGNMENT * MEM_ALIGNMENT"

definition MEM_SIZE_ALIGNED :: nat where "MEM_SIZE_ALIGNED = LWIP_MEM_ALIGN_SIZE (2 * 1024 * 1024)"
definition SIZEOF_STRUCT_MEM :: nat where "SIZEOF_STRUCT_MEM = LWIP_MEM_ALIGN_SIZE 12"
definition MIN_SIZE_ALIGNED :: nat where "MIN_SIZE_ALIGNED = LWIP_MEM_ALIGN_SIZE 12"

text \<open>The values of \<^verbatim>\<open>mem_size_t\<close>, a 32-bit type: subtraction wraps.\<close>

definition mem_size_t :: "nat \<Rightarrow> nat" where "mem_size_t n = n mod 2 ^ 32"

definition mem_size_minus :: "nat \<Rightarrow> nat \<Rightarrow> nat" where
  "mem_size_minus a b = (a + (2 ^ 32 - b mod 2 ^ 32)) mod 2 ^ 32"

record mem_hdr =
  mem_next :: nat
  mem_prev :: nat
  mem_used :: bool

record mem_heap =
  ram :: "nat \<Rightarrow> mem_hdr option"
  lfree :: nat

text \<open>Updates of one header through a pointer.\<close>

definition upd_hdr :: "nat \<Rightarrow> (mem_hdr \<Rightarrow> mem_hdr) \<Rightarrow> mem_heap \<Rightarrow> mem_heap option" where
  "upd_hdr p f h = (case ram h p of None \<Rightarrow> None | Some b \<Rightarrow> Some (h\<lparr>ram := (ram h)(p \<mapsto> f b)\<rparr>))"

text \<open>\<^verbatim>\<open>if (next != MEM_SIZE_ALIGNED) ptr_to_mem(next)->prev = p\<close>, which every operation ends with.\<close>

definition link_prev :: "nat \<Rightarrow> nat \<Rightarrow> mem_heap \<Rightarrow> mem_heap option" where
  "link_prev nxt p h =
     (if nxt \<noteq> MEM_SIZE_ALIGNED then upd_hdr nxt (mem_prev_update (\<lambda>_. p)) h else Some h)"

section \<open>Operations\<close>

definition mem_init :: mem_heap where
  "mem_init = \<lparr>ram = [0 \<mapsto> \<lparr>mem_next = MEM_SIZE_ALIGNED, mem_prev = 0, mem_used = False\<rparr>,
     MEM_SIZE_ALIGNED \<mapsto> \<lparr>mem_next = MEM_SIZE_ALIGNED, mem_prev = MEM_SIZE_ALIGNED, mem_used = True\<rparr>],
     lfree = 0\<rparr>"

text \<open>The two halves of \<^verbatim>\<open>plug_holes\<close>: combining with the next and with the previous block.\<close>

definition plug_forward :: "nat \<Rightarrow> mem_heap \<Rightarrow> mem_heap option" where
  "plug_forward mem h = do {
     m \<leftarrow> ram h mem;
     let nmem = mem_next m;
     n \<leftarrow> ram h nmem;
     if mem \<noteq> nmem \<and> \<not> mem_used n \<and> nmem \<noteq> MEM_SIZE_ALIGNED then do {
       let h = (if lfree h = nmem then h\<lparr>lfree := mem\<rparr> else h);
       h \<leftarrow> upd_hdr mem (mem_next_update (\<lambda>_. mem_next n)) h;
       link_prev (mem_next n) mem h
     } else Some h
   }"

definition plug_backward :: "nat \<Rightarrow> mem_heap \<Rightarrow> mem_heap option" where
  "plug_backward mem h = do {
     m \<leftarrow> ram h mem;
     let pmem = mem_prev m;
     p \<leftarrow> ram h pmem;
     if pmem \<noteq> mem \<and> \<not> mem_used p then do {
       let h = (if lfree h = mem then h\<lparr>lfree := pmem\<rparr> else h);
       h \<leftarrow> upd_hdr pmem (mem_next_update (\<lambda>_. mem_next m)) h;
       link_prev (mem_next m) pmem h
     } else Some h
   }"

definition plug_holes :: "nat \<Rightarrow> mem_heap \<Rightarrow> mem_heap option" where
  "plug_holes mem h = do {
     lwip_assert (mem < MEM_SIZE_ALIGNED);
     m \<leftarrow> ram h mem;
     lwip_assert (\<not> mem_used m);
     lwip_assert (mem_next m \<le> MEM_SIZE_ALIGNED);
     h \<leftarrow> plug_forward mem h;
     plug_backward mem h
   }"

definition mem_link_valid :: "nat \<Rightarrow> mem_heap \<Rightarrow> bool option" where
  "mem_link_valid mem h = do {
     m \<leftarrow> ram h mem;
     if mem_next m > MEM_SIZE_ALIGNED \<or> mem_prev m > MEM_SIZE_ALIGNED then Some False
     else do {
       n \<leftarrow> ram h (mem_next m);
       p \<leftarrow> ram h (mem_prev m);
       Some (\<not> ((mem_prev m \<noteq> mem \<and> mem_next p \<noteq> mem) \<or>
                (mem_next m \<noteq> MEM_SIZE_ALIGNED \<and> mem_prev n \<noteq> mem)))
     }
   }"

definition mem_free :: "nat option \<Rightarrow> mem_heap \<Rightarrow> mem_heap option" where
  "mem_free rmem h =
     (case rmem of
        None \<Rightarrow> Some h
      | Some rmem \<Rightarrow> do {
          lwip_assert (rmem mod MEM_ALIGNMENT = 0);
          lwip_assert (\<not> (rmem < SIZEOF_STRUCT_MEM \<or> rmem + MIN_SIZE_ALIGNED > MEM_SIZE_ALIGNED));
          let mem = rmem - SIZEOF_STRUCT_MEM;
          m \<leftarrow> ram h mem;
          lwip_assert (mem_used m);
          valid \<leftarrow> mem_link_valid mem h;
          lwip_assert valid;
          h \<leftarrow> upd_hdr mem (mem_used_update (\<lambda>_. False)) h;
          let h = (if mem < lfree h then h\<lparr>lfree := mem\<rparr> else h);
          plug_holes mem h
        })"

text \<open>
  \<^verbatim>\<open>mem_trim\<close>: the unused \<^verbatim>\<open>struct mem\<close> it creates behind the shrunk block, the two cases in which
  it does so, and the function with its checks.
\<close>

definition mem_trim_insert :: "nat \<Rightarrow> nat \<Rightarrow> nat \<Rightarrow> mem_heap \<Rightarrow> mem_heap option" where
  "mem_trim_insert ptr ptr2 nxt h = do {
     let h = h\<lparr>ram := (ram h)(ptr2 \<mapsto> \<lparr>mem_next = nxt, mem_prev = ptr, mem_used = False\<rparr>)\<rparr>;
     h \<leftarrow> upd_hdr ptr (mem_next_update (\<lambda>_. ptr2)) h;
     link_prev nxt ptr2 h
   }"

definition mem_trim_shrink :: "nat \<Rightarrow> nat \<Rightarrow> nat \<Rightarrow> nat \<Rightarrow> mem_heap \<Rightarrow> mem_heap option" where
  "mem_trim_shrink ptr nxt newsize sz h = do {
     m2 \<leftarrow> ram h nxt;
     let ptr2 = ptr + SIZEOF_STRUCT_MEM + newsize;
     if \<not> mem_used m2 then do {
       lwip_assert (nxt \<noteq> MEM_SIZE_ALIGNED);
       let h = (if lfree h = nxt then h\<lparr>lfree := ptr2\<rparr> else h);
       mem_trim_insert ptr ptr2 (mem_next m2) h
     }
     else if newsize + SIZEOF_STRUCT_MEM + MIN_SIZE_ALIGNED \<le> sz then do {
       lwip_assert (nxt \<noteq> MEM_SIZE_ALIGNED);
       let h = (if ptr2 < lfree h then h\<lparr>lfree := ptr2\<rparr> else h);
       mem_trim_insert ptr ptr2 nxt h
     }
     else Some h
   }"

definition mem_trim :: "nat \<Rightarrow> nat \<Rightarrow> mem_heap \<Rightarrow> (nat option \<times> mem_heap) option" where
  "mem_trim rmem new_size h = do {
     let newsize = mem_size_t (LWIP_MEM_ALIGN_SIZE new_size);
     let newsize = (if newsize < MIN_SIZE_ALIGNED then MIN_SIZE_ALIGNED else newsize);
     if newsize > MEM_SIZE_ALIGNED \<or> newsize < new_size then Some (None, h)
     else do {
       lwip_assert (SIZEOF_STRUCT_MEM \<le> rmem \<and> rmem < MEM_SIZE_ALIGNED);
       let ptr = rmem - SIZEOF_STRUCT_MEM;
       m \<leftarrow> ram h ptr;
       let sz = mem_size_minus (mem_size_minus (mem_next m) ptr) SIZEOF_STRUCT_MEM;
       lwip_assert (newsize \<le> sz);
       if newsize = sz then Some (Some rmem, h)
       else do {
         h \<leftarrow> mem_trim_shrink ptr (mem_next m) newsize sz h;
         Some (Some rmem, h)
       }
     }
   }"

text \<open>
  The search for the next free block after an allocation, and the first-fit search itself. On
  corrupted links the loops may run forever or leave the heap: \<open>None\<close>.
\<close>

partial_function (option) lfree_search :: "nat \<Rightarrow> mem_heap \<Rightarrow> nat option" where
  "lfree_search cur h =
     (case ram h cur of None \<Rightarrow> None
      | Some c \<Rightarrow> if mem_used c \<and> cur \<noteq> MEM_SIZE_ALIGNED then lfree_search (mem_next c) h else Some cur)"

text \<open>Marking the block at \<open>ptr\<close> used, with a split; moving \<^verbatim>\<open>lfree\<close>; both together.\<close>

definition mem_malloc_split :: "nat \<Rightarrow> nat \<Rightarrow> mem_hdr \<Rightarrow> mem_heap \<Rightarrow> mem_heap option" where
  "mem_malloc_split sz ptr m h =
     (if mem_size_minus (mem_next m) (ptr + SIZEOF_STRUCT_MEM) \<ge> sz + SIZEOF_STRUCT_MEM + MIN_SIZE_ALIGNED
      then do {
        let ptr2 = ptr + SIZEOF_STRUCT_MEM + sz;
        lwip_assert (ptr2 \<noteq> MEM_SIZE_ALIGNED);
        let h = h\<lparr>ram := (ram h)(ptr2 \<mapsto> \<lparr>mem_next = mem_next m, mem_prev = ptr, mem_used = False\<rparr>)\<rparr>;
        h \<leftarrow> upd_hdr ptr (\<lambda>m. m\<lparr>mem_next := ptr2, mem_used := True\<rparr>) h;
        link_prev (mem_next m) ptr2 h
      }
      else upd_hdr ptr (mem_used_update (\<lambda>_. True)) h)"

definition mem_malloc_adjust_lfree :: "nat \<Rightarrow> mem_heap \<Rightarrow> mem_heap option" where
  "mem_malloc_adjust_lfree ptr h =
     (if ptr = lfree h then do {
        cur \<leftarrow> lfree_search (lfree h) h;
        c \<leftarrow> ram h cur;
        lwip_assert (cur = MEM_SIZE_ALIGNED \<or> \<not> mem_used c);
        Some (h\<lparr>lfree := cur\<rparr>)
      } else Some h)"

definition mem_malloc_take :: "nat \<Rightarrow> nat \<Rightarrow> mem_heap \<Rightarrow> (nat option \<times> mem_heap) option" where
  "mem_malloc_take sz ptr h = do {
     m \<leftarrow> ram h ptr;
     h \<leftarrow> mem_malloc_split sz ptr m h;
     h \<leftarrow> mem_malloc_adjust_lfree ptr h;
     lwip_assert (ptr + SIZEOF_STRUCT_MEM + sz \<le> MEM_SIZE_ALIGNED);
     lwip_assert ((ptr + SIZEOF_STRUCT_MEM) mod MEM_ALIGNMENT = 0);
     Some (Some (ptr + SIZEOF_STRUCT_MEM), h)
   }"

partial_function (option) mem_malloc_search ::
  "nat \<Rightarrow> nat \<Rightarrow> mem_heap \<Rightarrow> (nat option \<times> mem_heap) option" where
  "mem_malloc_search sz ptr h =
     (if ptr < MEM_SIZE_ALIGNED - sz then
        (case ram h ptr of None \<Rightarrow> None
         | Some m \<Rightarrow>
             if \<not> mem_used m \<and> mem_size_minus (mem_next m) (ptr + SIZEOF_STRUCT_MEM) \<ge> sz
             then mem_malloc_take sz ptr h
             else mem_malloc_search sz (mem_next m) h)
      else Some (None, h))"

definition mem_malloc :: "nat \<Rightarrow> mem_heap \<Rightarrow> (nat option \<times> mem_heap) option" where
  "mem_malloc size_in h =
     (if size_in = 0 then Some (None, h)
      else let sz = mem_size_t (LWIP_MEM_ALIGN_SIZE size_in);
               sz = (if sz < MIN_SIZE_ALIGNED then MIN_SIZE_ALIGNED else sz)
           in if sz > MEM_SIZE_ALIGNED \<or> sz < size_in then Some (None, h)
              else mem_malloc_search sz (lfree h) h)"

text \<open>The product is computed in \<^verbatim>\<open>size_t\<close> (64 bits); the zeroed bytes are not part of the heap's state.\<close>

definition mem_calloc :: "nat \<Rightarrow> nat \<Rightarrow> mem_heap \<Rightarrow> (nat option \<times> mem_heap) option" where
  "mem_calloc count sz h =
     (let alloc_size = count * sz mod 2 ^ 64
      in if mem_size_t alloc_size \<noteq> alloc_size then Some (None, h)
         else mem_malloc (mem_size_t alloc_size) h)"


section \<open>The abstract heap: a list of blocks\<close>

text \<open>A block is its size, header included, and whether it is in use.\<close>

type_synonym blocks = "(nat \<times> bool) list"

definition sizes :: "blocks \<Rightarrow> nat" where "sizes bs = sum_list (map fst bs)"

fun tiled :: "(nat \<Rightarrow> mem_hdr option) \<Rightarrow> nat \<Rightarrow> nat \<Rightarrow> blocks \<Rightarrow> nat \<Rightarrow> bool" where
  "tiled m prv off [] e \<longleftrightarrow> off = e"
| "tiled m prv off ((n, us) # bs) e \<longleftrightarrow>
     m off = Some \<lparr>mem_next = off + n, mem_prev = prv, mem_used = us\<rparr> \<and>
     SIZEOF_STRUCT_MEM + MIN_SIZE_ALIGNED \<le> n \<and> tiled m off (off + n) bs e"

fun last_off :: "nat \<Rightarrow> nat \<Rightarrow> blocks \<Rightarrow> nat" where
  "last_off prv off [] = prv"
| "last_off prv off ((n, us) # bs) = last_off off (off + n) bs"

fun first_free :: "nat \<Rightarrow> blocks \<Rightarrow> nat" where
  "first_free off [] = off"
| "first_free off ((n, us) # bs) = (if us then first_free (off + n) bs else off)"

definition end_hdr :: mem_hdr where
  "end_hdr = \<lparr>mem_next = MEM_SIZE_ALIGNED, mem_prev = MEM_SIZE_ALIGNED, mem_used = True\<rparr>"

definition no_two_free :: "blocks \<Rightarrow> bool" where
  "no_two_free = successively (\<lambda>a b. snd a \<or> snd b)"

definition heap_tiled :: "mem_heap \<Rightarrow> blocks \<Rightarrow> bool" where
  "heap_tiled h bs \<longleftrightarrow> tiled (ram h) 0 0 bs MEM_SIZE_ALIGNED \<and> ram h MEM_SIZE_ALIGNED = Some end_hdr \<and>
     lfree h = first_free 0 bs"

definition heap_ok :: "mem_heap \<Rightarrow> blocks \<Rightarrow> bool" where
  "heap_ok h bs \<longleftrightarrow> heap_tiled h bs \<and> no_two_free bs"

text \<open>First fit, with a split when the remainder can hold a block.\<close>

fun first_fit :: "nat \<Rightarrow> nat \<Rightarrow> blocks \<Rightarrow> (nat \<times> blocks) option" where
  "first_fit sz off [] = None"
| "first_fit sz off ((n, us) # bs) =
     (if \<not> us \<and> sz + SIZEOF_STRUCT_MEM \<le> n
      then Some (off, (if sz + SIZEOF_STRUCT_MEM + (SIZEOF_STRUCT_MEM + MIN_SIZE_ALIGNED) \<le> n
                       then [(sz + SIZEOF_STRUCT_MEM, True), (n - (sz + SIZEOF_STRUCT_MEM), False)]
                       else [(n, True)]) @ bs)
      else map_option (\<lambda>(p, bs'). (p, (n, us) # bs')) (first_fit sz (off + n) bs))"

definition merge_next :: "nat \<Rightarrow> blocks \<Rightarrow> nat \<times> blocks" where
  "merge_next n ys = (case ys of (k, False) # zs \<Rightarrow> (n + k, zs) | _ \<Rightarrow> (n, ys))"

definition free_blocks :: "blocks \<Rightarrow> nat \<Rightarrow> blocks \<Rightarrow> blocks" where
  "free_blocks xs n ys =
     (if xs \<noteq> [] \<and> \<not> snd (last xs)
      then butlast xs @ (fst (last xs) + fst (merge_next n ys), False) # snd (merge_next n ys)
      else xs @ (fst (merge_next n ys), False) # snd (merge_next n ys))"

lemma sizes_simps [simp]:
  "sizes [] = 0" "sizes (b # bs) = fst b + sizes bs" "sizes (xs @ ys) = sizes xs + sizes ys"
  by (simp_all add: sizes_def)

lemmas mem_consts = MEM_SIZE_ALIGNED_def SIZEOF_STRUCT_MEM_def MIN_SIZE_ALIGNED_def
  LWIP_MEM_ALIGN_SIZE_def MEM_ALIGNMENT_def

lemma tiled_end: "tiled m prv off bs e \<Longrightarrow> e = off + sizes bs"
proof (induction bs arbitrary: prv off)
  case (Cons b bs)
  then show ?case using Cons.IH [of off "off + fst b"] by (cases b) auto
qed simp

lemma tiled_append:
  "tiled m prv off (xs @ ys) e \<longleftrightarrow>
     tiled m prv off xs (off + sizes xs) \<and> tiled m (last_off prv off xs) (off + sizes xs) ys e"
  by (induction m prv off xs e rule: tiled.induct) (auto simp: add.assoc)

lemma tiled_frame:
  "tiled m prv off bs e \<Longrightarrow> (\<And>a. off \<le> a \<Longrightarrow> a < e \<Longrightarrow> m' a = m a) \<Longrightarrow> tiled m' prv off bs e"
proof (induction m prv off bs e rule: tiled.induct)
  case (2 m prv off n us bs e)
  then show ?case using tiled_end [of m off "off + n" bs e] by (auto simp: mem_consts)
qed simp

lemma tiled_new_prev:
  assumes "tiled m prv off bs e" "bs \<noteq> []" "m off = Some b" "m' off = Some (b\<lparr>mem_prev := p\<rparr>)"
    and "\<And>a. off < a \<Longrightarrow> a < e \<Longrightarrow> m' a = m a"
  shows "tiled m' p off bs e"
proof (cases bs)
  case (Cons x xs)
  obtain n us where x: "x = (n, us)" by (cases x)
  then have t: "tiled m off (off + n) xs e" and n: "24 \<le> n"
    using assms(1) Cons by (auto simp: mem_consts)
  have "m' a = m a" if "off + n \<le> a" "a < e" for a using assms(5) [of a] that n by simp
  then have "tiled m' off (off + n) xs e" by (rule tiled_frame [OF t])
  then show ?thesis using assms Cons x by simp
qed (use assms in simp)

text \<open>Replacing the blocks between two neighbours by others of the same total size.\<close>

lemma retile:
  assumes t: "tiled m prv off (xs @ bs @ ys) e"
    and B': "tiled m' (last_off prv off xs) p bs' q" "p = off + sizes xs" "q = p + sizes bs"
    and out: "\<And>a. a < p \<or> q < a \<Longrightarrow> m' a = m a"
    and ys: "ys \<noteq> [] \<Longrightarrow> m' q = map_option (mem_prev_update (\<lambda>_. last_off (last_off prv off xs) p bs')) (m q)"
  shows "tiled m' prv off (xs @ bs' @ ys) e"
proof -
  have tx: "tiled m prv off xs p" and ty: "tiled m (last_off (last_off prv off xs) p bs) q ys e"
    using t B' by (auto simp: tiled_append)
  have "tiled m' prv off xs p" by (rule tiled_frame [OF tx]) (use out in auto)
  moreover have "tiled m' (last_off (last_off prv off xs) p bs') q ys e"
  proof (cases "ys = []")
    case False
    then obtain b where "m q = Some b" using ty by (cases ys) auto
    then show ?thesis
      by (intro tiled_new_prev [OF ty False, of b]) (use ys [OF False] out in auto)
  qed (use ty in simp)
  moreover have "q = p + sizes bs'" using tiled_end [OF B'(1)] .
  ultimately show ?thesis using B' by (auto simp: tiled_append)
qed

lemma first_free_append:
  "first_free off (xs @ ys) =
     (if \<forall>b \<in> set xs. snd b then first_free (off + sizes xs) ys else first_free off xs)"
  by (induction off xs rule: first_free.induct) (auto simp: add.assoc)

lemma first_free_used: "\<forall>b \<in> set bs. snd b \<Longrightarrow> first_free off bs = off + sizes bs"
  by (induction bs arbitrary: off) (auto simp: add.assoc)

lemma first_free_less:
  "b \<in> set bs \<Longrightarrow> \<not> snd b \<Longrightarrow> tiled m prv off bs e \<Longrightarrow> first_free off bs < e"
proof (induction m prv off bs e rule: tiled.induct)
  case (2 m prv off n us bs e)
  then show ?case using tiled_end [of m off "off + n" bs e] by (auto simp: mem_consts)
qed simp

lemma no_two_free_append:
  "no_two_free (xs @ ys) \<longleftrightarrow> no_two_free xs \<and> no_two_free ys \<and>
     (xs = [] \<or> ys = [] \<or> snd (last xs) \<or> snd (hd ys))"
  by (auto simp: no_two_free_def successively_append_iff)

lemma no_two_free_Cons:
  "no_two_free (b # ys) \<longleftrightarrow> no_two_free ys \<and> (ys = [] \<or> snd b \<or> snd (hd ys))"
  by (cases ys) (auto simp: no_two_free_def)

lemma no_two_free_Nil [simp]: "no_two_free []"
  by (simp add: no_two_free_def)

lemma mem_size_minus_le [simp]: "b \<le> a \<Longrightarrow> a < 2 ^ 32 \<Longrightarrow> mem_size_minus a b = a - b"
proof -
  assume "b \<le> a" "a < 2 ^ 32"
  then have "a + (2 ^ 32 - b mod 2 ^ 32) = (a - b) + 2 ^ 32" by simp
  then show ?thesis using \<open>a < 2 ^ 32\<close> unfolding mem_size_minus_def by simp
qed

lemma lfree_search_tiled:
  assumes "tiled (ram h) prv off bs MEM_SIZE_ALIGNED" "ram h MEM_SIZE_ALIGNED = Some end_hdr"
  shows "lfree_search off h = Some (first_free off bs)"
  using assms(1)
proof (induction bs arbitrary: prv off)
  case Nil
  then show ?case using assms(2) by (subst lfree_search.simps) (simp add: end_hdr_def)
next
  case (Cons b bs)
  obtain n us where b: "b = (n, us)" by (cases b)
  have "off + n \<le> MEM_SIZE_ALIGNED" using Cons.prems tiled_end [OF Cons.prems] by (simp add: b)
  moreover have "0 < n" using Cons.prems by (simp add: b mem_consts)
  ultimately show ?case using Cons by (subst lfree_search.simps) (auto simp: b)
qed


definition relink :: "nat \<Rightarrow> nat \<Rightarrow> (nat \<Rightarrow> mem_hdr option) \<Rightarrow> nat \<Rightarrow> mem_hdr option" where
  "relink q p m = (if q = MEM_SIZE_ALIGNED then m else m(q := map_option (mem_prev_update (\<lambda>_. p)) (m q)))"

lemma link_prev_relink:
  "ram h q \<noteq> None \<or> q = MEM_SIZE_ALIGNED \<Longrightarrow> link_prev q p h = Some (h\<lparr>ram := relink q p (ram h)\<rparr>)"
  by (auto simp: link_prev_def upd_hdr_def relink_def)

lemma heap_tiledD:
  assumes "heap_tiled h (xs @ bs @ ys)" "p = sizes xs" "q = p + sizes bs"
  shows "tiled (ram h) 0 0 xs p" "tiled (ram h) (last_off 0 0 xs) p bs q"
    "tiled (ram h) (last_off (last_off 0 0 xs) p bs) q ys MEM_SIZE_ALIGNED"
    "q \<le> MEM_SIZE_ALIGNED" "q = MEM_SIZE_ALIGNED \<longleftrightarrow> ys = []" "ram h q \<noteq> None"
proof -
  have t: "tiled (ram h) 0 0 (xs @ bs @ ys) MEM_SIZE_ALIGNED" using assms by (simp add: heap_tiled_def)
  then show "tiled (ram h) 0 0 xs p" "tiled (ram h) (last_off 0 0 xs) p bs q"
    and ty: "tiled (ram h) (last_off (last_off 0 0 xs) p bs) q ys MEM_SIZE_ALIGNED"
    using assms by (simp_all add: tiled_append)
  have e: "MEM_SIZE_ALIGNED = q + sizes ys" by (rule tiled_end [OF ty])
  then show "q \<le> MEM_SIZE_ALIGNED" by simp
  show "q = MEM_SIZE_ALIGNED \<longleftrightarrow> ys = []"
    using e ty by (cases ys) (auto simp: mem_consts)
  show "ram h q \<noteq> None"
    using ty assms(1) by (cases ys) (auto simp: heap_tiled_def end_hdr_def)
qed

text \<open>The heap after an operation that replaced \<open>bs\<close> by \<open>bs'\<close> and relinked the next block.\<close>

lemma heap_tiled_replace:
  assumes ok: "heap_tiled h (xs @ bs @ ys)" and pq: "p = sizes xs" "q = p + sizes bs"
    and t: "tiled m (last_off 0 0 xs) p bs' q" "\<And>a. a < p \<or> q \<le> a \<Longrightarrow> m a = ram h a"
    and r: "ram h' = relink q (last_off (last_off 0 0 xs) p bs') m"
    and lf: "lfree h' = first_free 0 (xs @ bs' @ ys)"
  shows "heap_tiled h' (xs @ bs' @ ys)"
proof -
  note d = heap_tiledD [OF ok pq]
  have old: "tiled (ram h) 0 0 (xs @ bs @ ys) MEM_SIZE_ALIGNED" and e: "ram h MEM_SIZE_ALIGNED = Some end_hdr"
    using ok by (simp_all add: heap_tiled_def)
  have "tiled (ram h') (last_off 0 0 xs) p bs' q"
    by (rule tiled_frame [OF t(1)]) (auto simp: r relink_def)
  then have "tiled (ram h') 0 0 (xs @ bs' @ ys) MEM_SIZE_ALIGNED"
    by (rule retile [OF old]) (use pq t d(5) in \<open>auto simp: r relink_def\<close>)
  moreover have "ram h' MEM_SIZE_ALIGNED = Some end_hdr"
    using d(4) e t(2) by (simp add: r relink_def)
  ultimately show ?thesis using lf by (simp add: heap_tiled_def)
qed

lemma lfree_position:
  assumes "heap_tiled h (xs @ (n, False) # ys)"
  shows "lfree h = sizes xs \<longleftrightarrow> (\<forall>b \<in> set xs. snd b)" "\<exists>b \<in> set xs. \<not> snd b \<Longrightarrow> lfree h = first_free 0 xs"
proof -
  have t: "tiled (ram h) 0 0 xs (sizes xs)"
    using heap_tiledD(1) [of h xs "[(n, False)]" ys] assms by simp
  have l: "lfree h = first_free 0 (xs @ (n, False) # ys)" using assms by (simp add: heap_tiled_def)
  show "lfree h = sizes xs \<longleftrightarrow> (\<forall>b \<in> set xs. snd b)"
  proof (cases "\<forall>b \<in> set xs. snd b")
    case False
    then have "first_free 0 xs < sizes xs" using first_free_less [OF _ _ t] by blast
    then show ?thesis using l False by (simp add: first_free_append)
  qed (use l in \<open>simp add: first_free_append\<close>)
  show "\<exists>b \<in> set xs. \<not> snd b \<Longrightarrow> lfree h = first_free 0 xs"
    using l by (auto simp: first_free_append)
qed

lemma first_free_hdr:
  "tiled m prv off bs e \<Longrightarrow> first_free off bs = e \<or>
     (\<exists>b. m (first_free off bs) = Some b \<and> \<not> mem_used b)"
  by (induction m prv off bs e rule: tiled.induct) auto

definition split_block :: "nat \<Rightarrow> nat \<Rightarrow> blocks" where
  "split_block sz n =
     (if sz + SIZEOF_STRUCT_MEM + (SIZEOF_STRUCT_MEM + MIN_SIZE_ALIGNED) \<le> n
      then [(sz + SIZEOF_STRUCT_MEM, True), (n - (sz + SIZEOF_STRUCT_MEM), False)] else [(n, True)])"

lemma mem_malloc_take_ok:
  assumes ok: "heap_ok h (xs @ (n, False) # ys)" and fit: "sz + SIZEOF_STRUCT_MEM \<le> n"
    and sz: "MIN_SIZE_ALIGNED \<le> sz"
  shows "\<exists>h'. mem_malloc_take sz (sizes xs) h = Some (Some (sizes xs + SIZEOF_STRUCT_MEM), h') \<and>
    heap_ok h' (xs @ split_block sz n @ ys)"
proof -
  define p where "p = sizes xs"
  define q where "q = p + n"
  define l where "l = last_off 0 0 xs"
  have ok': "heap_tiled h (xs @ [(n, False)] @ ys)" using ok by (simp add: heap_ok_def)
  have q': "q = p + sizes [(n, False)]" by (simp add: q_def)
  note d = heap_tiledD [OF ok' p_def q']
  have hp: "ram h p = Some \<lparr>mem_next = q, mem_prev = l, mem_used = False\<rparr>" and n24: "24 \<le> n"
    using d(2) by (auto simp: q_def l_def mem_consts)
  have qe: "q \<le> MEM_SIZE_ALIGNED" "MEM_SIZE_ALIGNED < 2 ^ 32" using d(4) by (simp_all add: mem_consts)
  have ms: "mem_size_minus q (p + SIZEOF_STRUCT_MEM) = n - SIZEOF_STRUCT_MEM"
    using fit qe by (simp add: q_def)
  define split where "split \<longleftrightarrow> sz + SIZEOF_STRUCT_MEM + (SIZEOF_STRUCT_MEM + MIN_SIZE_ALIGNED) \<le> n"
  define p2 where "p2 = p + SIZEOF_STRUCT_MEM + sz"
  define m1 where "m1 = (if split then (ram h)(p2 \<mapsto> \<lparr>mem_next = q, mem_prev = p, mem_used = False\<rparr>,
      p \<mapsto> \<lparr>mem_next = p2, mem_prev = l, mem_used = True\<rparr>)
    else (ram h)(p \<mapsto> \<lparr>mem_next = q, mem_prev = l, mem_used = True\<rparr>))"
  define h1 where "h1 = h\<lparr>ram := if split then relink q p2 m1 else m1\<rparr>"
  have p2: "split \<Longrightarrow> p < p2 \<and> p2 < q \<and> p2 \<noteq> MEM_SIZE_ALIGNED"
    using qe n24 by (simp add: p2_def split_def q_def mem_consts)
  have tl: "tiled m1 l p (split_block sz n) q"
    using fit n24 p2 sz by (auto simp: split_block_def split_def [symmetric] m1_def q_def p2_def)
      (auto simp: split_def mem_consts)
  have lo: "last_off l p (split_block sz n) = (if split then p2 else p)"
    by (simp add: split_block_def split_def [symmetric] p2_def)
  have nf: "no_two_free (xs @ split_block sz n @ ys)"
    using ok by (auto simp: heap_ok_def no_two_free_append no_two_free_Cons split_block_def)
  have id: "relink q p m1 = m1" if "\<not> split"
  proof (cases "ys = []")
    case False
    then have "q \<noteq> MEM_SIZE_ALIGNED" using d(5) by simp
    moreover have "\<exists>b. ram h q = Some b \<and> mem_prev b = p" using d(3) False by (cases ys) auto
    moreover have "p \<noteq> q" using n24 by (simp add: q_def)
    ultimately show ?thesis using that by (auto simp: relink_def m1_def)
  qed (use d(5) in \<open>simp add: relink_def\<close>)
  define hf where "hf = h1\<lparr>lfree := first_free 0 (xs @ split_block sz n @ ys)\<rparr>"
  have okf: "heap_tiled hf (xs @ split_block sz n @ ys)"
    using d(5) p2 n24 id lo
    by (intro heap_tiled_replace [OF ok' p_def, of q m1])
      (auto simp: q_def [symmetric] hf_def h1_def l_def [symmetric] tl, auto simp: m1_def q_def)
  have "tiled (ram hf) 0 0 (xs @ split_block sz n @ ys) MEM_SIZE_ALIGNED"
    "ram hf MEM_SIZE_ALIGNED = Some end_hdr" using okf by (simp_all add: heap_tiled_def)
  then have tp: "tiled (ram h1) l p (split_block sz n @ ys) MEM_SIZE_ALIGNED"
    and re: "ram h1 MEM_SIZE_ALIGNED = Some end_hdr"
    by (simp_all add: tiled_append [of _ 0 0 xs] hf_def l_def p_def)
  have code: "mem_malloc_split sz p \<lparr>mem_next = q, mem_prev = l, mem_used = False\<rparr> h = Some h1"
  proof (cases split)
    case True
    then have "n - SIZEOF_STRUCT_MEM \<ge> sz + SIZEOF_STRUCT_MEM + MIN_SIZE_ALIGNED" by (simp add: split_def)
    moreover have "p \<noteq> p2" "p2 \<noteq> MEM_SIZE_ALIGNED" "q \<noteq> p2" "q \<noteq> p" using p2 [OF True] by auto
    ultimately show ?thesis
      using True hp d(6)
      by (simp add: mem_malloc_split_def ms p2_def [symmetric] upd_hdr_def link_prev_relink h1_def m1_def)
  next
    case False
    then have "\<not> n - SIZEOF_STRUCT_MEM \<ge> sz + SIZEOF_STRUCT_MEM + MIN_SIZE_ALIGNED"
      by (simp add: split_def mem_consts)
    then show ?thesis using False hp by (simp add: mem_malloc_split_def ms upd_hdr_def h1_def m1_def)
  qed
  have lf: "mem_malloc_adjust_lfree p h1 = Some hf"
  proof (cases "\<forall>b \<in> set xs. snd b")
    case True
    then have "p = lfree h1" "first_free 0 (xs @ split_block sz n @ ys) = first_free p (split_block sz n @ ys)"
      using lfree_position(1) [of h xs n ys] ok' by (simp_all add: h1_def first_free_append p_def)
    then show ?thesis
      using lfree_search_tiled [OF tp re] first_free_hdr [OF tp] re by (auto simp: mem_malloc_adjust_lfree_def hf_def end_hdr_def)
  next
    case False
    then have "p \<noteq> lfree h1" "lfree h1 = first_free 0 (xs @ split_block sz n @ ys)"
      using lfree_position [of h xs n ys] ok' by (auto simp: h1_def first_free_append p_def)
    then show ?thesis by (simp add: mem_malloc_adjust_lfree_def hf_def)
  qed
  have "p + SIZEOF_STRUCT_MEM + sz \<le> MEM_SIZE_ALIGNED" "(p + SIZEOF_STRUCT_MEM) mod MEM_ALIGNMENT = 0"
    using fit qe by (simp_all add: q_def MEM_ALIGNMENT_def)
  then have "mem_malloc_take sz p h = Some (Some (p + SIZEOF_STRUCT_MEM), hf)"
    using code lf by (simp add: mem_malloc_take_def hp)
  then show ?thesis using okf nf by (auto simp: p_def heap_ok_def)
qed


lemma first_fit_split:
  "first_fit sz off ((n, us) # bs) =
     (if \<not> us \<and> sz + SIZEOF_STRUCT_MEM \<le> n then Some (off, split_block sz n @ bs)
      else map_option (\<lambda>(p, bs'). (p, (n, us) # bs')) (first_fit sz (off + n) bs))"
  by (simp add: split_block_def)

declare first_fit.simps(2) [simp del]

lemma first_fit_too_big:
  "tiled m prv off bs e \<Longrightarrow> e \<le> off + sz \<Longrightarrow> first_fit sz off bs = None"
proof (induction m prv off bs e rule: tiled.induct)
  case (2 m prv off n us bs e)
  have "e = off + n + sizes bs" using "2.prems" tiled_end [of m off "off + n" bs e] by simp
  then show ?case using 2 by (simp add: first_fit_split mem_consts)
qed simp

lemma first_fit_skip_used:
  "\<forall>b \<in> set xs. snd b \<Longrightarrow> first_fit sz off (xs @ ys) =
     map_option (\<lambda>(p, bs'). (p, xs @ bs')) (first_fit sz (off + sizes xs) ys)"
proof (induction xs arbitrary: off)
  case Nil
  then show ?case by (simp add: map_option_case split: option.split)
next
  case (Cons b xs)
  then show ?case
    by (cases b) (auto simp: first_fit_split add.assoc option.map_comp o_def split_def)
qed

lemma mem_malloc_search_ok:
  assumes "heap_ok h (xs @ ys)" and sz: "MIN_SIZE_ALIGNED \<le> sz"
  shows "\<exists>r h'. mem_malloc_search sz (sizes xs) h = Some (r, h') \<and>
    (case first_fit sz (sizes xs) ys of
       None \<Rightarrow> r = None \<and> h' = h
     | Some (p, ys') \<Rightarrow> r = Some (p + SIZEOF_STRUCT_MEM) \<and> heap_ok h' (xs @ ys'))"
  using assms(1)
proof (induction ys arbitrary: xs)
  case Nil
  then have "MEM_SIZE_ALIGNED = sizes xs" using tiled_end by (fastforce simp: heap_ok_def heap_tiled_def)
  then have "\<not> sizes xs < MEM_SIZE_ALIGNED - sz" by linarith
  then show ?case by (subst mem_malloc_search.simps) simp
next
  case (Cons b ys)
  obtain n us where b: "b = (n, us)" by (cases b)
  have ok': "heap_tiled h (xs @ [b] @ ys)" using Cons.prems by (simp add: heap_ok_def)
  note d = heap_tiledD [OF ok' refl refl]
  have hp: "ram h (sizes xs) = Some \<lparr>mem_next = sizes xs + n, mem_prev = last_off 0 0 xs, mem_used = us\<rparr>"
    and n: "24 \<le> n" using d(2) by (auto simp: b mem_consts)
  have e: "sizes xs + n \<le> MEM_SIZE_ALIGNED" using d(4) by (simp add: b)
  have lim: "MEM_SIZE_ALIGNED < 2 ^ 32" "SIZEOF_STRUCT_MEM \<le> n" using n by (simp_all add: mem_consts)
  have ms: "mem_size_minus (sizes xs + n) (sizes xs + SIZEOF_STRUCT_MEM) = n - SIZEOF_STRUCT_MEM"
    using e lim by simp
  show ?case
  proof (cases "sizes xs < MEM_SIZE_ALIGNED - sz")
    case False
    have "tiled (ram h) (last_off 0 0 xs) (sizes xs) (b # ys) MEM_SIZE_ALIGNED"
      using Cons.prems tiled_append [of "ram h" 0 0 xs "b # ys"] by (simp add: heap_ok_def heap_tiled_def)
    then have "first_fit sz (sizes xs) (b # ys) = None" using False by (intro first_fit_too_big) auto
    then show ?thesis using False by (subst mem_malloc_search.simps) simp
  next
    case in_range: True
    show ?thesis
    proof (cases "\<not> us \<and> sz + SIZEOF_STRUCT_MEM \<le> n")
      case True
      then have "heap_ok h (xs @ (n, False) # ys)" using Cons.prems b by simp
      from mem_malloc_take_ok [OF this _ sz] True in_range show ?thesis
        by (subst mem_malloc_search.simps) (auto simp: hp ms b first_fit_split)
    next
      case False
      have "heap_ok h ((xs @ [b]) @ ys)" using Cons.prems by simp
      from Cons.IH [OF this] obtain r h' where
        "mem_malloc_search sz (sizes xs + n) h = Some (r, h')"
        "case first_fit sz (sizes xs + n) ys of None \<Rightarrow> r = None \<and> h' = h
          | Some (p, ys') \<Rightarrow> r = Some (p + SIZEOF_STRUCT_MEM) \<and> heap_ok h' ((xs @ [b]) @ ys')"
        by (auto simp: b)
      moreover have "\<not> (\<not> us \<and> sz \<le> n - SIZEOF_STRUCT_MEM)" using False lim by auto
      ultimately show ?thesis using False in_range
        by (subst mem_malloc_search.simps) (auto simp: hp ms b first_fit_split split: option.splits)
    qed
  qed
qed

lemma heap_ok_free_prefix:
  assumes "heap_ok h bs"
  obtains xs ys where "bs = xs @ ys" "\<forall>b \<in> set xs. snd b" "lfree h = sizes xs"
proof -
  have *: "\<exists>xs ys. bs = xs @ ys \<and> (\<forall>b \<in> set xs. snd b) \<and> first_free off bs = off + sizes xs" for off
  proof (induction bs arbitrary: off)
    case (Cons b bs)
    obtain n us where b: "b = (n, us)" by (cases b)
    obtain xs ys where "bs = xs @ ys" "\<forall>b \<in> set xs. snd b" "first_free (off + n) bs = off + n + sizes xs"
      using Cons [of "off + n"] by blast
    then have "b # bs = (b # xs) @ ys" "us \<longrightarrow> (\<forall>b \<in> set (b # xs). snd b)"
      "us \<longrightarrow> first_free off (b # bs) = off + sizes (b # xs)" "\<not> us \<longrightarrow> first_free off (b # bs) = off"
      by (simp_all add: b)
    moreover have "b # bs = [] @ (b # bs)" "sizes [] = 0" by simp_all
    ultimately show ?case by (cases us) (blast, force)
  qed simp
  show ?thesis using * [of 0] assms that by (auto simp: heap_ok_def heap_tiled_def)
qed


definition request_size :: "nat \<Rightarrow> nat" where
  "request_size size_in = max (LWIP_MEM_ALIGN_SIZE size_in) MIN_SIZE_ALIGNED"

lemma mem_malloc_refines:
  assumes "heap_ok h bs" "0 < size_in" "size_in < 2 ^ 32"
  shows "\<exists>r h'. mem_malloc size_in h = Some (r, h') \<and>
    (case first_fit (request_size size_in) 0 bs of
       None \<Rightarrow> r = None \<and> h' = h
     | Some (p, bs') \<Rightarrow> r = Some (p + SIZEOF_STRUCT_MEM) \<and> heap_ok h' bs')"
proof -
  define sz where "sz = request_size size_in"
  have sz: "(if size_in < MIN_SIZE_ALIGNED then MIN_SIZE_ALIGNED else size_in) = sz"
      "MIN_SIZE_ALIGNED \<le> sz" "\<not> sz < size_in"
    by (auto simp: sz_def request_size_def mem_consts)
  have m: "mem_malloc size_in h = (if sz > MEM_SIZE_ALIGNED then Some (None, h)
      else mem_malloc_search sz (lfree h) h)"
    using assms sz by (simp add: mem_malloc_def mem_size_t_def Let_def LWIP_MEM_ALIGN_SIZE_def MEM_ALIGNMENT_def)
  show ?thesis
  proof (cases "sz > MEM_SIZE_ALIGNED")
    case True
    have "first_fit sz 0 bs = None"
      using assms(1) True by (intro first_fit_too_big) (auto simp: heap_ok_def heap_tiled_def)
    then show ?thesis using m True by (simp add: sz_def)
  next
    case False
    obtain xs ys where s: "bs = xs @ ys" "\<forall>b \<in> set xs. snd b" "lfree h = sizes xs"
      using heap_ok_free_prefix [OF assms(1)] .
    obtain r h' where "mem_malloc_search sz (sizes xs) h = Some (r, h')"
      "case first_fit sz (sizes xs) ys of None \<Rightarrow> r = None \<and> h' = h
        | Some (p, ys') \<Rightarrow> r = Some (p + SIZEOF_STRUCT_MEM) \<and> heap_ok h' (xs @ ys')"
      using mem_malloc_search_ok [OF _ sz(2), of h xs ys] assms(1) s(1) by auto
    then show ?thesis
      using m False s by (auto simp: sz_def [symmetric] first_fit_skip_used split: option.splits)
  qed
qed

section \<open>Memory areas in use\<close>

fun areas :: "nat \<Rightarrow> blocks \<Rightarrow> (nat \<times> nat) list" where
  "areas off [] = []"
| "areas off ((n, us) # bs) =
     (if us then [(off + SIZEOF_STRUCT_MEM, n - SIZEOF_STRUCT_MEM)] else []) @ areas (off + n) bs"

lemma areas_append: "areas off (xs @ ys) = areas off xs @ areas (off + sizes xs) ys"
  by (induction off xs rule: areas.induct) (auto simp: add.assoc)

lemma areas_inside:
  "tiled m prv off bs e \<Longrightarrow> (a, k) \<in> set (areas off bs) \<Longrightarrow>
     off + SIZEOF_STRUCT_MEM \<le> a \<and> a + k \<le> e \<and> MIN_SIZE_ALIGNED \<le> k"
proof (induction m prv off bs e rule: tiled.induct)
  case (2 m prv off n us bs e)
  have "e = off + n + sizes bs" using "2.prems" tiled_end [of m off "off + n" bs e] by simp
  then show ?case using 2 by (auto split: if_splits)
qed simp

lemma areas_disjoint:
  "tiled m prv off bs e \<Longrightarrow> sorted_wrt (\<lambda>(a, k) (b, _). a + k \<le> b) (areas off bs)"
proof (induction m prv off bs e rule: tiled.induct)
  case (2 m prv off n us bs e)
  then show ?case using areas_inside [of m off "off + n" bs e] by (fastforce simp: mem_consts)
qed simp

lemma first_fit_areas:
  "first_fit sz off bs = Some (p, bs') \<Longrightarrow>
     \<exists>k xs ys. areas off bs = xs @ ys \<and> areas off bs' = xs @ (p + SIZEOF_STRUCT_MEM, k) # ys \<and> sz \<le> k"
proof (induction bs arbitrary: off bs')
  case (Cons b bs)
  obtain n us where b: "b = (n, us)" by (cases b)
  show ?case
  proof (cases "\<not> us \<and> sz + SIZEOF_STRUCT_MEM \<le> n")
    case True
    then have e: "p = off" "bs' = split_block sz n @ bs" using Cons.prems by (simp_all add: b first_fit_split)
    have "\<exists>k. areas off bs' = (p + SIZEOF_STRUCT_MEM, k) # areas (off + n) bs \<and> sz \<le> k"
      using True by (auto simp: e split_block_def)
    then show ?thesis using True by (metis append_Nil areas.simps(2) b)
  next
    case False
    then obtain bs1 where r: "first_fit sz (off + n) bs = Some (p, bs1)" "bs' = b # bs1"
      using Cons.prems by (auto simp: b first_fit_split)
    from Cons.IH [OF r(1)] obtain k xs ys where "areas (off + n) bs = xs @ ys"
      "areas (off + n) bs1 = xs @ (p + SIZEOF_STRUCT_MEM, k) # ys" "sz \<le> k" by blast
    then show ?thesis
      by (intro exI [of _ k] exI [of _ "(if us then [(off + SIZEOF_STRUCT_MEM, n - SIZEOF_STRUCT_MEM)] else []) @ xs"]
          exI [of _ ys]) (simp add: b r(2))
  qed
qed simp

text \<open>C30: on a well-formed heap \<^verbatim>\<open>mem_malloc\<close> returns, and either leaves the heap alone and
  returns NULL, when no free block can hold the request, or returns an area inside the heap, of
  at least the requested size, that overlaps no area in use, and leaves all of those in use.\<close>

theorem mem_malloc_safe:
  assumes "heap_ok h bs" and "0 < size_in" and "size_in < 2 ^ 32"
  shows "\<exists>r h'. mem_malloc size_in h = Some (r, h') \<and>
    (r = None \<longrightarrow> h' = h \<and> (\<forall>(n, used) \<in> set bs. used \<or> n < size_in + SIZEOF_STRUCT_MEM \<or>
       n < MIN_SIZE_ALIGNED + SIZEOF_STRUCT_MEM)) \<and>
    (\<forall>p. r = Some p \<longrightarrow> (\<exists>bs' k xs ys. heap_ok h' bs' \<and> areas 0 bs = xs @ ys \<and>
       areas 0 bs' = xs @ (p, k) # ys \<and> size_in \<le> k \<and> p + k \<le> MEM_SIZE_ALIGNED \<and>
       (\<forall>(a, l) \<in> set (areas 0 bs). a + l \<le> p \<or> p + k \<le> a)))"
proof -
  define sz where "sz = request_size size_in"
  have none: "first_fit sz off bs = None \<longleftrightarrow> (\<forall>(n, used) \<in> set bs. used \<or> n < sz + SIZEOF_STRUCT_MEM)" for off
    by (induction bs arbitrary: off) (simp_all add: first_fit_split split_paired_all not_le, auto)
  have sz: "sz = max size_in MIN_SIZE_ALIGNED"
    by (simp add: sz_def request_size_def LWIP_MEM_ALIGN_SIZE_def MEM_ALIGNMENT_def)
  obtain r h' where m: "mem_malloc size_in h = Some (r, h')"
    and c: "case first_fit sz 0 bs of None \<Rightarrow> r = None \<and> h' = h
       | Some (p, bs') \<Rightarrow> r = Some (p + SIZEOF_STRUCT_MEM) \<and> heap_ok h' bs'"
    using mem_malloc_refines [OF assms] by (auto simp: sz_def)
  show ?thesis
  proof (cases "first_fit sz 0 bs")
    case None
    then show ?thesis using m c none [of 0] by (auto simp: sz max_def split: if_splits)
  next
    case (Some pb)
    then obtain p bs' where ff: "first_fit sz 0 bs = Some (p, bs')" by (cases pb) simp
    then have r: "r = Some (p + SIZEOF_STRUCT_MEM)" and ok: "heap_ok h' bs'" using c by simp_all
    obtain k xs ys where a: "areas 0 bs = xs @ ys" "areas 0 bs' = xs @ (p + SIZEOF_STRUCT_MEM, k) # ys"
      "sz \<le> k" using first_fit_areas [OF ff] by blast
    have t: "tiled (ram h') 0 0 bs' MEM_SIZE_ALIGNED" using ok by (simp add: heap_ok_def heap_tiled_def)
    have "p + SIZEOF_STRUCT_MEM + k \<le> MEM_SIZE_ALIGNED" using areas_inside [OF t] a(2) by fastforce
    moreover have "\<forall>(b, l) \<in> set (areas 0 bs). b + l \<le> p + SIZEOF_STRUCT_MEM \<or> p + SIZEOF_STRUCT_MEM + k \<le> b"
      using areas_disjoint [OF t] unfolding a by (auto simp: sorted_wrt_append)
    ultimately show ?thesis using m r ok a sz by auto
  qed
qed


section \<open>Freeing\<close>

lemma heap_tiled_at:
  assumes "heap_tiled h (xs @ (n, us) # ys)" "p = sizes xs" "q = p + n"
  shows "ram h p = Some \<lparr>mem_next = q, mem_prev = last_off 0 0 xs, mem_used = us\<rparr>"
    and "SIZEOF_STRUCT_MEM + MIN_SIZE_ALIGNED \<le> n" and "q \<le> MEM_SIZE_ALIGNED"
    and "q = MEM_SIZE_ALIGNED \<longleftrightarrow> ys = []"
    and "ys = [] \<Longrightarrow> ram h q = Some end_hdr"
    and "ys = (k, vs) # zs \<Longrightarrow> ram h q = Some \<lparr>mem_next = q + k, mem_prev = p, mem_used = vs\<rparr>"
proof -
  have t: "heap_tiled h (xs @ [(n, us)] @ ys)" using assms(1) by simp
  have q: "q = p + sizes [(n, us)]" by (simp add: assms(3))
  note d = heap_tiledD [OF t assms(2) q]
  show "ram h p = Some \<lparr>mem_next = q, mem_prev = last_off 0 0 xs, mem_used = us\<rparr>"
    "SIZEOF_STRUCT_MEM + MIN_SIZE_ALIGNED \<le> n"
    using d(2) by (simp_all add: q)
  show "q \<le> MEM_SIZE_ALIGNED" "q = MEM_SIZE_ALIGNED \<longleftrightarrow> ys = []" by (rule d(4), rule d(5))
  show "ys = [] \<Longrightarrow> ram h q = Some end_hdr" using d(5) t by (simp add: heap_tiled_def)
  show "ys = (k, vs) # zs \<Longrightarrow> ram h q = Some \<lparr>mem_next = q + k, mem_prev = p, mem_used = vs\<rparr>"
    using d(3) by (simp add: assms(3))
qed

lemma last_off_snoc [simp]: "last_off prv off (xs @ [b]) = off + sizes xs"
  by (induction prv off xs rule: last_off.induct) (cases b, auto simp: add.assoc)

lemma relink_id:
  assumes "heap_tiled h (xs @ (n, us) # ys)" "p = sizes xs" "q = p + n" "m q = ram h q"
  shows "relink q p m = m"
proof (cases ys)
  case (Cons y zs)
  obtain k vs where y: "y = (k, vs)" by (cases y)
  show ?thesis using heap_tiled_at(6) [OF assms(1-3), of k vs zs] Cons y assms(4)
    by (auto simp: relink_def)
qed (use heap_tiled_at(4) [OF assms(1-3)] in \<open>simp add: relink_def\<close>)

lemma first_free_ge: "off \<le> first_free off bs"
  by (induction off bs rule: first_free.induct) auto

lemma mem_free_mark:
  assumes "heap_tiled h (xs @ (n, True) # ys)" "p = sizes xs"
  shows "\<exists>h'. upd_hdr p (mem_used_update (\<lambda>_. False)) h = Some h' \<and>
    heap_tiled (if p < lfree h' then h'\<lparr>lfree := p\<rparr> else h') (xs @ (n, False) # ys)"
proof -
  have t: "heap_tiled h (xs @ [(n, True)] @ ys)" using assms(1) by simp
  have q: "p + n = p + sizes [(n, True)]" by simp
  note a = heap_tiled_at [OF assms refl]
  define h' where "h' = h\<lparr>ram := (ram h)(p \<mapsto> \<lparr>mem_next = p + n, mem_prev = last_off 0 0 xs, mem_used = False\<rparr>)\<rparr>"
  define h2 where "h2 = (if p < lfree h' then h'\<lparr>lfree := p\<rparr> else h')"
  have n: "0 < n" using a(2) by (simp add: mem_consts)
  have lf: "lfree h = (if \<forall>b \<in> set xs. snd b then first_free (p + n) ys else first_free 0 xs)"
    using assms by (simp add: heap_tiled_def first_free_append)
  have tx: "tiled (ram h) 0 0 xs p" using heap_tiledD(1) [OF t assms(2) q] .
  have lf2: "lfree h2 = first_free 0 (xs @ [(n, False)] @ ys)"
  proof (cases "\<forall>b \<in> set xs. snd b")
    case True
    then show ?thesis using lf first_free_ge [of "p + n" ys] n assms(2)
      by (simp add: h2_def h'_def first_free_append)
  next
    case False
    then have "first_free 0 xs < p" using first_free_less [OF _ _ tx] by blast
    then have "lfree h2 = first_free 0 xs" "(\<forall>b \<in> set xs. snd b) = False"
      using lf False by (auto simp: h2_def h'_def)
    then show ?thesis by (simp only: first_free_append if_False)
  qed
  have r: "relink (p + n) p (ram h') = ram h'"
    using n by (intro relink_id [OF assms refl]) (simp add: h'_def)
  have "heap_tiled h2 (xs @ [(n, False)] @ ys)"
    by (rule heap_tiled_replace [OF t assms(2) q, of "ram h'"])
      (use lf2 r n a(2) in \<open>auto simp: h2_def h'_def\<close>)
  moreover have "upd_hdr p (mem_used_update (\<lambda>_. False)) h = Some h'"
    using a(1) by (simp add: upd_hdr_def h'_def)
  ultimately show ?thesis by (intro exI [of _ h']) (simp only: h2_def append.simps simp_thms)
qed

lemma plug_forward_ok:
  assumes "heap_tiled h (xs @ (n, False) # ys)" "p = sizes xs"
  shows "\<exists>h'. plug_forward p h = Some h' \<and> heap_tiled h'
    (xs @ (fst (merge_next n ys), False) # snd (merge_next n ys))"
proof -
  note a = heap_tiled_at [OF assms refl]
  consider (last) "ys = []" | (used) k zs where "ys = (k, True) # zs" | (free) k zs where "ys = (k, False) # zs"
    using list.exhaust prod.exhaust by (metis (full_types))
  then show ?thesis
  proof cases
    case last
    then show ?thesis using a(1,4,5) assms(1) by (simp add: plug_forward_def end_hdr_def merge_next_def)
  next
    case used
    then show ?thesis using a(1) a(6) [OF used] assms(1) by (simp add: plug_forward_def merge_next_def)
  next
    case free
    have t: "heap_tiled h (xs @ [(n, False), (k, False)] @ zs)" using assms(1) free by simp
    have q: "p + (n + k) = p + sizes [(n, False), (k, False)]" by simp
    have t2: "heap_tiled h ((xs @ [(n, False)]) @ (k, False) # zs)" using assms(1) free by simp
    note b = heap_tiled_at [OF t2 refl refl, simplified]
    note d = heap_tiledD [OF t assms(2) q]
    define m where "m = (ram h)(p \<mapsto> \<lparr>mem_next = p + n + k, mem_prev = last_off 0 0 xs, mem_used = False\<rparr>)"
    define h' where "h' = h\<lparr>ram := relink (p + (n + k)) p m\<rparr>"
    have n: "0 < n" "0 < k" using a(2) b(2) by (simp_all add: mem_consts)
    have lf: "lfree h = first_free 0 (xs @ [(n + k, False)] @ zs)" "lfree h \<noteq> p + n"
    proof -
      show "lfree h = first_free 0 (xs @ [(n + k, False)] @ zs)"
        using assms free by (simp add: heap_tiled_def first_free_append)
      have "first_free 0 xs < p" if "\<exists>b \<in> set xs. \<not> snd b"
        using that first_free_less [OF _ _ d(1)] by blast
      then show "lfree h \<noteq> p + n"
        using assms free n by (cases "\<forall>b \<in> set xs. snd b") (auto simp: heap_tiled_def first_free_append)
    qed
    have "plug_forward p h = Some h'"
      using a(1,4) a(6) [OF free] free n lf(2) d(6)
      by (simp add: plug_forward_def upd_hdr_def link_prev_relink h'_def m_def add.assoc)
    moreover have "heap_tiled h' (xs @ [(n + k, False)] @ zs)"
      by (rule heap_tiled_replace [OF t assms(2) q, of m])
        (use lf n a(2) in \<open>auto simp: h'_def m_def add.assoc\<close>)
    ultimately show ?thesis using free by (simp add: merge_next_def)
  qed
qed

lemma plug_backward_ok:
  assumes "heap_tiled h (xs @ (n, False) # ys)" "p = sizes xs"
  shows "\<exists>h'. plug_backward p h = Some h' \<and> heap_tiled h'
    (if xs \<noteq> [] \<and> \<not> snd (last xs) then butlast xs @ (fst (last xs) + n, False) # ys
     else xs @ (n, False) # ys)"
proof (cases xs rule: rev_cases)
  case Nil
  then show ?thesis using heap_tiled_at(1) [OF assms refl] assms
    by (simp add: plug_backward_def)
next
  case (snoc ws b)
  obtain j us where b: "b = (j, us)" by (cases b)
  have t2: "heap_tiled h (ws @ (j, us) # (n, False) # ys)" using assms(1) snoc b by simp
  define l where "l = sizes ws"
  have pl: "p = l + j" using assms(2) snoc b by (simp add: l_def)
  note a = heap_tiled_at [OF assms refl]
  note c = heap_tiled_at [OF t2 l_def pl]
  have n: "0 < n" "0 < j" using a(2) c(2) by (simp_all add: mem_consts)
  show ?thesis
  proof (cases us)
    case True
    then show ?thesis using a(1) c(1) n assms(1) snoc b pl
      by (simp add: plug_backward_def l_def [symmetric])
  next
    case False
    have t: "heap_tiled h (ws @ [(j, False), (n, False)] @ ys)" using t2 False by simp
    have q: "p + n = l + sizes [(j, False), (n, False)]" by (simp add: pl)
    note d = heap_tiledD [OF t l_def q]
    define m where "m = (ram h)(l \<mapsto> \<lparr>mem_next = p + n, mem_prev = last_off 0 0 ws, mem_used = False\<rparr>)"
    define h' where "h' = h\<lparr>ram := relink (p + n) l m\<rparr>"
    have lf: "lfree h = first_free 0 (ws @ [(j + n, False)] @ ys)" "lfree h \<noteq> p"
    proof -
      show "lfree h = first_free 0 (ws @ [(j + n, False)] @ ys)"
        using t by (simp add: heap_tiled_def first_free_append)
      have "first_free 0 ws < l" if "\<exists>b \<in> set ws. \<not> snd b"
        using that first_free_less [OF _ _ d(1)] by blast
      then show "lfree h \<noteq> p"
        using t pl n by (cases "\<forall>b \<in> set ws. snd b") (auto simp: heap_tiled_def first_free_append l_def)
    qed
    have "plug_backward p h = Some h'"
      using a(1) c(1) False snoc b pl n lf(2) d(6)
      by (simp add: plug_backward_def upd_hdr_def link_prev_relink h'_def m_def l_def [symmetric])
    moreover have "heap_tiled h' (ws @ [(j + n, False)] @ ys)"
      by (rule heap_tiled_replace [OF t l_def q, of m])
        (use lf n a(2) pl in \<open>auto simp: h'_def m_def\<close>)
    ultimately show ?thesis using snoc b False by simp
  qed
qed


lemma mem_link_valid_ok:
  assumes "heap_tiled h (xs @ (n, us) # ys)" "p = sizes xs"
  shows "mem_link_valid p h = Some True"
proof -
  note a = heap_tiled_at [OF assms refl]
  have next_ok: "\<exists>b. ram h (p + n) = Some b \<and> (p + n = MEM_SIZE_ALIGNED \<or> mem_prev b = p)"
    using a(4,5,6) by (cases ys) (auto simp: end_hdr_def)
  have prev_ok: "\<exists>b. ram h (last_off 0 0 xs) = Some b \<and> last_off 0 0 xs \<le> p \<and>
      (last_off 0 0 xs = p \<or> mem_next b = p)"
  proof (cases xs rule: rev_cases)
    case Nil
    then show ?thesis using a(1) assms(2) by simp
  next
    case (snoc ws b)
    obtain j vs where b: "b = (j, vs)" by (cases b)
    have "heap_tiled h (ws @ (j, vs) # (n, us) # ys)" using assms(1) snoc b by simp
    from heap_tiled_at(1) [OF this refl refl] show ?thesis using assms(2) snoc b by simp
  qed
  then show ?thesis using a(1,3) next_ok by (auto simp: mem_link_valid_def)
qed

lemma no_two_free_merge_next:
  "no_two_free ys \<Longrightarrow> no_two_free ((fst (merge_next n ys), False) # snd (merge_next n ys))"
  by (auto simp: merge_next_def no_two_free_Cons split: list.splits bool.splits)

lemma no_two_free_free_blocks:
  assumes "no_two_free (xs @ (n, True) # ys)"
  shows "no_two_free (free_blocks xs n ys)"
proof -
  have "no_two_free xs" "no_two_free ((fst (merge_next n ys), False) # snd (merge_next n ys))"
    using assms no_two_free_merge_next [of ys n] by (auto simp: no_two_free_append no_two_free_Cons)
  then show ?thesis
    by (cases xs rule: rev_cases)
      (auto simp: free_blocks_def no_two_free_append no_two_free_Cons)
qed

text \<open>A freed header stays marked unused, also when its block was merged away.\<close>

lemma upd_hdr_used:
  "upd_hdr q f h = Some h' \<Longrightarrow> (\<And>b. mem_used (f b) = mem_used b) \<Longrightarrow>
     map_option mem_used (ram h' a) = map_option mem_used (ram h a)"
  by (auto simp: upd_hdr_def split: option.splits)

lemma link_prev_used:
  "link_prev q p h = Some h' \<Longrightarrow> map_option mem_used (ram h' a) = map_option mem_used (ram h a)"
  by (auto simp: link_prev_def upd_hdr_used split: if_splits)

lemma plug_used:
  "plug_forward p h = Some h' \<Longrightarrow> map_option mem_used (ram h' a) = map_option mem_used (ram h a)"
  "plug_backward p h = Some h' \<Longrightarrow> map_option mem_used (ram h' a) = map_option mem_used (ram h a)"
  by (auto simp: plug_forward_def plug_backward_def bind_eq_Some_conv Let_def upd_hdr_used link_prev_used
      split: if_splits)

lemma mem_free_refines:
  assumes "heap_ok h (xs @ (n, True) # ys)"
  shows "\<exists>h'. mem_free (Some (sizes xs + SIZEOF_STRUCT_MEM)) h = Some h' \<and> heap_ok h' (free_blocks xs n ys) \<and>
    mem_free (Some (sizes xs + SIZEOF_STRUCT_MEM)) h' = None"
proof -
  define p where "p = sizes xs"
  have t: "heap_tiled h (xs @ (n, True) # ys)" using assms by (simp add: heap_ok_def)
  note a = heap_tiled_at [OF t p_def refl]
  obtain h1 where h1: "upd_hdr p (mem_used_update (\<lambda>_. False)) h = Some h1"
    and t1: "heap_tiled (if p < lfree h1 then h1\<lparr>lfree := p\<rparr> else h1) (xs @ (n, False) # ys)"
    using mem_free_mark [OF t p_def] by blast
  define h2 where "h2 = (if p < lfree h1 then h1\<lparr>lfree := p\<rparr> else h1)"
  have t2: "heap_tiled h2 (xs @ (n, False) # ys)" using t1 by (simp add: h2_def)
  note b = heap_tiled_at [OF t2 p_def refl]
  obtain h3 where h3: "plug_forward p h2 = Some h3"
      "heap_tiled h3 (xs @ (fst (merge_next n ys), False) # snd (merge_next n ys))"
    using plug_forward_ok [OF t2 p_def] by blast
  obtain h4 where h4: "plug_backward p h3 = Some h4" "heap_tiled h4 (free_blocks xs n ys)"
    using plug_backward_ok [OF h3(2) p_def] by (auto simp: free_blocks_def)
  have "map_option mem_used (ram h4 p) = Some False"
    using b(1) plug_used(1) [OF h3(1), of p] plug_used(2) [OF h4(1), of p] by simp
  then have unused: "mem_free (Some (p + SIZEOF_STRUCT_MEM)) h4 = None"
    by (auto simp: mem_free_def Let_def lwip_assert_def)
  have "p < MEM_SIZE_ALIGNED" using a(2,3) by (simp add: mem_consts)
  then have plug: "plug_holes p h2 = Some h4"
    using b(1,3) h3(1) h4(1) by (simp add: plug_holes_def)
  have "p + SIZEOF_STRUCT_MEM + MIN_SIZE_ALIGNED \<le> MEM_SIZE_ALIGNED" using a(2,3) by linarith
  then have "mem_free (Some (p + SIZEOF_STRUCT_MEM)) h = Some h4"
    using a(1) mem_link_valid_ok [OF t p_def] h1 plug
    by (simp add: mem_free_def MEM_ALIGNMENT_def h2_def Let_def)
  then show ?thesis
    using h4(2) unused no_two_free_free_blocks [of xs n ys] assms by (auto simp: heap_ok_def p_def)
qed

lemma areas_merge_next: "areas (off + fst (merge_next n ys)) (snd (merge_next n ys)) = areas (off + n) ys"
  by (auto simp: merge_next_def add.assoc split: list.split bool.split)

lemma areas_free_blocks: "areas off (free_blocks xs n ys) = areas off xs @ areas (off + sizes xs + n) ys"
proof (cases xs rule: rev_cases)
  case (snoc us b)
  then show ?thesis using areas_merge_next [of "off + sizes xs" n ys]
    by (cases b) (auto simp: free_blocks_def areas_append add.assoc)
qed (use areas_merge_next [of off n ys] in \<open>simp add: free_blocks_def\<close>)

lemma areas_split:
  "areas off bs = as @ (p, k) # cs \<Longrightarrow>
     \<exists>xs n ys. bs = xs @ (n, True) # ys \<and> p = off + sizes xs + SIZEOF_STRUCT_MEM \<and>
       k = n - SIZEOF_STRUCT_MEM \<and> areas off xs = as \<and> areas (off + sizes xs + n) ys = cs"
proof (induction bs arbitrary: off as)
  case (Cons b bs)
  obtain n us where b: "b = (n, us)" by (cases b)
  show ?case
  proof (cases "us \<and> as = []")
    case True
    then show ?thesis using Cons.prems by (intro exI [of _ "[]"]) (auto simp: b)
  next
    case False
    then obtain as' where as': "as = (if us then [(off + SIZEOF_STRUCT_MEM, n - SIZEOF_STRUCT_MEM)] else []) @ as'"
      "areas (off + n) bs = as' @ (p, k) # cs"
      using Cons.prems by (cases as) (auto simp: b split: if_splits)
    from Cons.IH [OF as'(2)] obtain xs m ys where
      "bs = xs @ (m, True) # ys" "p = off + n + sizes xs + SIZEOF_STRUCT_MEM"
      "k = m - SIZEOF_STRUCT_MEM" "areas (off + n) xs = as'" "areas (off + n + sizes xs + m) ys = cs" by blast
    then show ?thesis
      by (intro exI [of _ "b # xs"] exI [of _ m] exI [of _ ys]) (auto simp: b as'(1) add.assoc)
  qed
qed simp

text \<open>C31: \<^verbatim>\<open>mem_free\<close> of an area in use returns, keeps the heap well formed (its neighbours are
  merged, so no two free blocks are adjacent), removes exactly that area, and a second
  \<^verbatim>\<open>mem_free\<close> of the same pointer aborts.\<close>

theorem mem_free_safe:
  assumes "heap_ok h bs" and "areas 0 bs = as @ (p, k) # cs"
  shows "\<exists>h' bs'. mem_free (Some p) h = Some h' \<and> heap_ok h' bs' \<and> areas 0 bs' = as @ cs \<and>
    mem_free (Some p) h' = None"
proof -
  obtain xs n ys where b: "bs = xs @ (n, True) # ys" "p = sizes xs + SIZEOF_STRUCT_MEM"
    "areas 0 xs = as" "areas (sizes xs + n) ys = cs"
    using areas_split [OF assms(2)] by auto
  then show ?thesis using mem_free_refines [of h xs n ys] areas_free_blocks [of 0 xs n ys] assms(1)
    by auto
qed


section \<open>Trimming\<close>

definition trim_block :: "nat \<Rightarrow> nat \<Rightarrow> blocks \<Rightarrow> blocks" where
  "trim_block ns n ys =
     (if ns + SIZEOF_STRUCT_MEM = n then (n, True) # ys
      else case ys of
        (k, False) # zs \<Rightarrow> (ns + SIZEOF_STRUCT_MEM, True) # (n - (ns + SIZEOF_STRUCT_MEM) + k, False) # zs
      | _ \<Rightarrow> if ns + SIZEOF_STRUCT_MEM + (SIZEOF_STRUCT_MEM + MIN_SIZE_ALIGNED) \<le> n
             then (ns + SIZEOF_STRUCT_MEM, True) # (n - (ns + SIZEOF_STRUCT_MEM), False) # ys
             else (n, True) # ys)"

lemma first_free_prefix_less:
  assumes "heap_tiled h (xs @ ys)" "\<exists>b \<in> set xs. \<not> snd b"
  shows "first_free 0 xs < sizes xs"
proof -
  have "tiled (ram h) 0 0 xs (sizes xs)" using assms(1) by (simp add: heap_tiled_def tiled_append)
  then show ?thesis using assms(2) first_free_less by blast
qed

lemma mem_trim_split:
  assumes t: "heap_tiled h (xs @ (n, True) # ys)" and p: "p = sizes xs"
    and ns: "MIN_SIZE_ALIGNED \<le> ns" "ns + SIZEOF_STRUCT_MEM < n"
    and bs: "bs = (n, True) # cs" "xs @ (n, True) # ys = xs @ bs @ zs"
    and bs': "bs' = [(ns + SIZEOF_STRUCT_MEM, True), (sizes bs - (ns + SIZEOF_STRUCT_MEM), False)]"
    and room: "SIZEOF_STRUCT_MEM + MIN_SIZE_ALIGNED \<le> sizes bs - (ns + SIZEOF_STRUCT_MEM)"
    and m: "m = (ram h)(p2 \<mapsto> \<lparr>mem_next = q, mem_prev = p, mem_used = False\<rparr>,
      p \<mapsto> \<lparr>mem_next = p2, mem_prev = last_off 0 0 xs, mem_used = True\<rparr>)"
    and pq: "p2 = p + SIZEOF_STRUCT_MEM + ns" "q = p + sizes bs"
    and h': "ram h' = relink q p2 m" "lfree h' = (if \<forall>b \<in> set xs. snd b then p2 else lfree h)"
  shows "heap_tiled h' (xs @ bs' @ zs)"
proof -
  have t': "heap_tiled h (xs @ bs @ zs)" using t bs by simp
  have lf: "lfree h' = first_free 0 (xs @ bs' @ zs)"
  proof (cases "\<forall>b \<in> set xs. snd b")
    case True
    then show ?thesis using h' p pq by (simp add: bs' first_free_append)
  next
    case False
    then have "lfree h' = lfree h" "lfree h = first_free 0 xs"
      using h' t by (auto simp: heap_tiled_def first_free_append)
    then show ?thesis using False by (simp only: first_free_append if_False)
  qed
  have s: "p2 < q" "p < p2" using room pq ns by (auto simp: mem_consts)
  have "tiled m (last_off 0 0 xs) p bs' q"
  proof -
    have "p + (ns + SIZEOF_STRUCT_MEM) = p2" "p2 + (sizes bs - (ns + SIZEOF_STRUCT_MEM)) = q"
      using room by (simp_all add: pq mem_consts)
    then show ?thesis using room ns s by (simp add: bs' m)
  qed
  moreover have "m a = ram h a" if "a < p \<or> q \<le> a" for a using that s by (auto simp: m)
  ultimately show ?thesis
    using heap_tiled_replace [OF t' p pq(2), of m bs' h'] h'(1) lf
    by (simp add: bs' pq(1) add.commute add.left_commute)
qed


lemma first_free_used_then:
  assumes "heap_tiled h (xs @ (n, True) # ys)" "p = sizes xs" "0 < n"
  shows "\<forall>b \<in> set xs. snd b \<Longrightarrow> p + n \<le> lfree h"
    "\<not> (\<forall>b \<in> set xs. snd b) \<Longrightarrow> lfree h < p"
    "\<forall>b \<in> set xs. snd b \<Longrightarrow> ys = (k, False) # zs \<Longrightarrow> lfree h = p + n"
proof -
  have l: "lfree h = first_free 0 (xs @ (n, True) # ys)" using assms by (simp add: heap_tiled_def)
  then show "\<forall>b \<in> set xs. snd b \<Longrightarrow> p + n \<le> lfree h"
    using first_free_ge assms(2) by (simp add: first_free_append)
  show "\<forall>b \<in> set xs. snd b \<Longrightarrow> ys = (k, False) # zs \<Longrightarrow> lfree h = p + n"
    using l assms(2) by (simp add: first_free_append)
  show "lfree h < p" if n: "\<not> (\<forall>b \<in> set xs. snd b)"
  proof -
    have "lfree h = first_free 0 xs" using l n by (simp only: first_free_append if_False)
    then show ?thesis using first_free_prefix_less [OF assms(1)] n assms(2) by auto
  qed
qed

lemma mem_trim_tiled:
  assumes t: "heap_tiled h (xs @ (n, True) # ys)" and ns: "ns = request_size new_size"
    and fit: "ns + SIZEOF_STRUCT_MEM \<le> n" and small: "new_size < 2 ^ 32"
    and last: "ys \<noteq> [] \<or> n < ns + SIZEOF_STRUCT_MEM + (SIZEOF_STRUCT_MEM + MIN_SIZE_ALIGNED)"
  shows "\<exists>h'. mem_trim (sizes xs + SIZEOF_STRUCT_MEM) new_size h =
      Some (Some (sizes xs + SIZEOF_STRUCT_MEM), h') \<and> heap_tiled h' (xs @ trim_block ns n ys)"
proof -
  define p where "p = sizes xs"
  define q where "q = p + n"
  define p2 where "p2 = p + SIZEOF_STRUCT_MEM + ns"
  note a = heap_tiled_at [OF t p_def q_def]
  have n: "0 < n" "n < 2 ^ 32" "q < 2 ^ 32" "n \<le> MEM_SIZE_ALIGNED" using a(2,3) by (auto simp: mem_consts q_def)
  have ns': "(if new_size < MIN_SIZE_ALIGNED then MIN_SIZE_ALIGNED else new_size) = ns" "MIN_SIZE_ALIGNED \<le> ns"
      "\<not> (MEM_SIZE_ALIGNED < ns \<or> ns < new_size)" "mem_size_t (LWIP_MEM_ALIGN_SIZE new_size) = new_size"
    using fit n small by (auto simp: ns request_size_def mem_consts mem_size_t_def)
  have sz: "mem_size_minus (mem_size_minus q p) SIZEOF_STRUCT_MEM = n - SIZEOF_STRUCT_MEM"
    using n fit by (simp add: q_def)
  have in_ram: "SIZEOF_STRUCT_MEM \<le> p + SIZEOF_STRUCT_MEM \<and> p + SIZEOF_STRUCT_MEM < MEM_SIZE_ALIGNED"
    using a(2,3) by (simp add: q_def mem_consts)
  note lf = first_free_used_then [OF t p_def n(1)]
  have le: "ns \<le> n - SIZEOF_STRUCT_MEM" using fit by simp
  have call: "mem_trim (p + SIZEOF_STRUCT_MEM) new_size h = (if ns = n - SIZEOF_STRUCT_MEM
      then Some (Some (p + SIZEOF_STRUCT_MEM), h) else do {
        h \<leftarrow> mem_trim_shrink p q ns (n - SIZEOF_STRUCT_MEM) h;
        Some (Some (p + SIZEOF_STRUCT_MEM), h) })"
    unfolding mem_trim_def ns'(4) Let_def ns'(1) using ns'(3) in_ram a(1) sz le by simp
  show ?thesis
  proof (cases "ns + SIZEOF_STRUCT_MEM = n")
    case True
    then show ?thesis using call t by (auto simp: p_def trim_block_def)
  next
    case False
    then have less: "ns + SIZEOF_STRUCT_MEM < n" "ns \<noteq> n - SIZEOF_STRUCT_MEM" using fit by auto
    have p2: "p < p2" "p2 < q" "p2 \<noteq> p" using less ns'(2) by (auto simp: p2_def q_def mem_consts)
    have "\<exists>h'. mem_trim_shrink p q ns (n - SIZEOF_STRUCT_MEM) h = Some h' \<and>
        heap_tiled h' (xs @ trim_block ns n ys)"
    proof (cases "\<exists>k zs. ys = (k, False) # zs")
      case True
      then obtain k zs where ys: "ys = (k, False) # zs" by blast
      have t2: "heap_tiled h ((xs @ [(n, True)]) @ (k, False) # zs)" using t ys by simp
      note b = heap_tiled_at [OF t2 refl refl, simplified]
      have q2: "q + k = p + sizes [(n, True), (k, False)]" by (simp add: q_def)
      have t3: "heap_tiled h (xs @ [(n, True), (k, False)] @ zs)" using t ys by simp
      note d = heap_tiledD [OF t3 p_def q2]
      define m where "m = (ram h)(p2 \<mapsto> \<lparr>mem_next = q + k, mem_prev = p, mem_used = False\<rparr>,
        p \<mapsto> \<lparr>mem_next = p2, mem_prev = last_off 0 0 xs, mem_used = True\<rparr>)"
      define h' where "h' = h\<lparr>ram := relink (q + k) p2 m,
        lfree := if \<forall>b \<in> set xs. snd b then p2 else lfree h\<rparr>"
      have "(lfree h = q) = (\<forall>b \<in> set xs. snd b)" using lf(2) lf(3) [OF _ ys] p2
        by (cases "\<forall>b \<in> set xs. snd b") (auto simp: q_def)
      then have "mem_trim_shrink p q ns (n - SIZEOF_STRUCT_MEM) h = Some h'"
        using a(1,4) a(6) [OF ys] ys p2 d(6)
        by (simp add: mem_trim_shrink_def p2_def [symmetric] mem_trim_insert_def upd_hdr_def
            link_prev_relink h'_def m_def)
      moreover have "heap_tiled h' (xs @ [(ns + SIZEOF_STRUCT_MEM, True),
          (sizes [(n, True), (k, False)] - (ns + SIZEOF_STRUCT_MEM), False)] @ zs)"
        by (rule mem_trim_split [OF t p_def ns'(2) less(1) refl _ refl _ m_def p2_def q2])
          (use less b(2) ys in \<open>simp_all add: h'_def q_def add.assoc\<close>)
      ultimately show ?thesis using less ys by (simp add: trim_block_def)
    next
      case used: False
      then obtain b where b: "ram h q = Some b" "mem_used b"
        using a(5) a(6) by (cases ys) (auto simp: end_hdr_def)
      show ?thesis
      proof (cases "ns + SIZEOF_STRUCT_MEM + (SIZEOF_STRUCT_MEM + MIN_SIZE_ALIGNED) \<le> n")
        case room: True
        then have "ys \<noteq> []" using last by auto
        then have qe: "q \<noteq> MEM_SIZE_ALIGNED" using a(4) by simp
        define m where "m = (ram h)(p2 \<mapsto> \<lparr>mem_next = q, mem_prev = p, mem_used = False\<rparr>,
          p \<mapsto> \<lparr>mem_next = p2, mem_prev = last_off 0 0 xs, mem_used = True\<rparr>)"
        define h' where "h' = h\<lparr>ram := relink q p2 m,
          lfree := if \<forall>b \<in> set xs. snd b then p2 else lfree h\<rparr>"
        have "(p2 < lfree h) = (\<forall>b \<in> set xs. snd b)"
          using lf(1,2) p2 by (cases "\<forall>b \<in> set xs. snd b") (auto simp: q_def)
        then have "mem_trim_shrink p q ns (n - SIZEOF_STRUCT_MEM) h = Some h'"
          using a(1) b room p2 qe
          by (simp add: mem_trim_shrink_def p2_def [symmetric] mem_trim_insert_def upd_hdr_def
              link_prev_relink h'_def m_def)
        moreover have "q = p + sizes [(n, True)]" by (simp add: q_def)
        then have "heap_tiled h' (xs @ [(ns + SIZEOF_STRUCT_MEM, True),
            (sizes [(n, True)] - (ns + SIZEOF_STRUCT_MEM), False)] @ ys)"
          by (intro mem_trim_split [OF t p_def ns'(2) less(1) refl _ refl _ m_def p2_def])
            (use room in \<open>simp_all add: h'_def\<close>)
        moreover have "trim_block ns n ys = (ns + SIZEOF_STRUCT_MEM, True) # (n - (ns + SIZEOF_STRUCT_MEM), False) # ys"
          using used less room by (auto simp: trim_block_def split: list.splits bool.splits)
        ultimately show ?thesis by simp
      next
        case False
        then have "mem_trim_shrink p q ns (n - SIZEOF_STRUCT_MEM) h = Some h"
          using b less by (auto simp: mem_trim_shrink_def Let_def)
        moreover have "trim_block ns n ys = (n, True) # ys"
          using used less False by (auto simp: trim_block_def split: list.splits bool.splits)
        ultimately show ?thesis using t by simp
      qed
    qed
    then show ?thesis using call less by (auto simp: p_def)
  qed
qed

lemma no_two_free_trim_block:
  "no_two_free (xs @ (n, True) # ys) \<Longrightarrow> no_two_free (xs @ trim_block ns n ys)"
  by (auto simp: trim_block_def no_two_free_append no_two_free_Cons split: list.splits bool.splits)

lemma areas_trim_block:
  assumes "ns + SIZEOF_STRUCT_MEM \<le> n"
  shows "\<exists>k. areas off (trim_block ns n ys) = (off + SIZEOF_STRUCT_MEM, k) # areas (off + n) ys \<and>
    ns \<le> k \<and> k \<le> n - SIZEOF_STRUCT_MEM"
  using assms by (auto simp: trim_block_def add.assoc split: list.split bool.split)

text \<open>
  The heap as an allocator. The block list is a function of the heap, so its areas are.
\<close>

lemma tiled_unique: "tiled m prv off bs e \<Longrightarrow> tiled m prv off bs' e \<Longrightarrow> bs = bs'"
proof (induction m prv off bs e arbitrary: bs' rule: tiled.induct)
  case (1 m prv off e)
  then show ?case using tiled_end [of m prv off bs' e] by (cases bs') (auto simp: mem_consts)
next
  case (2 m prv off n us bs e)
  have "e = off + n + sizes bs" "0 < n"
    using "2.prems"(1) tiled_end [of m off "off + n" bs e] by (auto simp: mem_consts)
  then obtain n' us' bs1 where "bs' = (n', us') # bs1" using "2.prems"(2) by (cases bs') auto
  then show ?case using 2 by auto
qed

lemma heap_ok_unique: "heap_ok h bs \<Longrightarrow> heap_ok h bs' \<Longrightarrow> bs = bs'"
  using tiled_unique by (auto simp: heap_ok_def heap_tiled_def)

definition mem_ok :: "mem_heap \<Rightarrow> bool" where "mem_ok h \<longleftrightarrow> (\<exists>bs. heap_ok h bs)"

definition mem_live :: "mem_heap \<Rightarrow> nat set" where
  "mem_live h = {p. \<exists>bs k. heap_ok h bs \<and> (p, k) \<in> set (areas 0 bs)}"

lemma mem_live_areas: "heap_ok h bs \<Longrightarrow> mem_live h = fst ` set (areas 0 bs)"
proof -
  assume "heap_ok h bs"
  then have "heap_ok h b \<longleftrightarrow> b = bs" for b using heap_ok_unique by blast
  then show ?thesis by (force simp: mem_live_def)
qed

lemma areas_distinct: "heap_ok h bs \<Longrightarrow> distinct (map fst (areas 0 bs))"
proof -
  assume ok: "heap_ok h bs"
  then have t: "tiled (ram h) 0 0 bs MEM_SIZE_ALIGNED" by (simp add: heap_ok_def heap_tiled_def)
  have "sorted_wrt (\<lambda>x y. fst x < fst y) (areas 0 bs)"
    by (rule sorted_wrt_mono_rel [OF _ areas_disjoint [OF t]])
      (use areas_inside [OF t] in \<open>fastforce simp: mem_consts\<close>)
  then have "sorted_wrt (<) (map fst (areas 0 bs))" by (simp add: sorted_wrt_map)
  then show ?thesis by (simp add: strict_sorted_iff)
qed

lemma mem_malloc_live:
  assumes "mem_ok h" "0 < n" "n < 2 ^ 32" "mem_malloc n h = Some (r, h')"
  shows "mem_ok h'"
    and "r = None \<Longrightarrow> mem_live h' = mem_live h"
    and "r = Some p \<Longrightarrow> p \<notin> mem_live h \<and> mem_live h' = insert p (mem_live h)"
proof -
  obtain bs where ok: "heap_ok h bs" using assms(1) by (auto simp: mem_ok_def)
  have c: "case first_fit (request_size n) 0 bs of None \<Rightarrow> r = None \<and> h' = h
       | Some (p, bs') \<Rightarrow> r = Some (p + SIZEOF_STRUCT_MEM) \<and> heap_ok h' bs'"
    using mem_malloc_refines [OF ok assms(2,3)] assms(4) by auto
  then show "mem_ok h'" using ok by (auto simp: mem_ok_def split: option.splits)
  show "r = None \<Longrightarrow> mem_live h' = mem_live h" using c by (auto split: option.splits)
  show "p \<notin> mem_live h \<and> mem_live h' = insert p (mem_live h)" if r: "r = Some p"
  proof -
    obtain q bs' where ff: "first_fit (request_size n) 0 bs = Some (q, bs')"
      and ok': "heap_ok h' bs'" and p: "p = q + SIZEOF_STRUCT_MEM"
      using c r by (auto split: option.splits)
    obtain k xs ys where "areas 0 bs = xs @ ys" "areas 0 bs' = xs @ (p, k) # ys"
      using first_fit_areas [OF ff] p by blast
    then show ?thesis using areas_distinct [OF ok'] mem_live_areas [OF ok] mem_live_areas [OF ok']
      by auto
  qed
qed

lemma mem_free_live:
  assumes "mem_ok h" "p \<in> mem_live h"
  shows "\<exists>h'. mem_free (Some p) h = Some h' \<and> mem_ok h' \<and> mem_live h' = mem_live h - {p}"
proof -
  obtain bs k where ok: "heap_ok h bs" and "(p, k) \<in> set (areas 0 bs)"
    using assms(2) by (auto simp: mem_live_def)
  then obtain xs ys where a: "areas 0 bs = xs @ (p, k) # ys" by (meson split_list)
  obtain us n vs where b: "bs = us @ (n, True) # vs" "p = sizes us + SIZEOF_STRUCT_MEM"
    "areas 0 us = xs" "areas (sizes us + n) vs = ys"
    using areas_split [OF a] by auto
  obtain h' where h': "mem_free (Some p) h = Some h'" "heap_ok h' (free_blocks us n vs)"
    using mem_free_refines [of h us n vs] ok b by auto
  have "areas 0 (free_blocks us n vs) = xs @ ys" using areas_free_blocks [of 0 us n vs] b by simp
  then have "mem_live h' = mem_live h - {p}"
    using mem_live_areas [OF ok] mem_live_areas [OF h'(2)] areas_distinct [OF ok] a by auto
  then show ?thesis using h' by (auto simp: mem_ok_def)
qed

interpretation mem: allocator mem_malloc "\<lambda>p. mem_free (Some p)" "\<lambda>n. 0 < n \<and> n < 2 ^ 32" mem_ok mem_live
proof
  fix h h' :: mem_heap and n :: nat and r :: "nat option" and p :: nat
  show "\<exists>r h'. mem_malloc n h = Some (r, h')" if "mem_ok h" "0 < n \<and> n < 2 ^ 32"
    using that mem_malloc_refines [of h _ n] unfolding mem_ok_def by blast
  show "mem_ok h'" if "mem_ok h" "0 < n \<and> n < 2 ^ 32" "mem_malloc n h = Some (r, h')"
    using that mem_malloc_live(1) by blast
  show "mem_live h' = mem_live h"
    if "mem_ok h" "0 < n \<and> n < 2 ^ 32" "mem_malloc n h = Some (None, h')"
    using that mem_malloc_live(2) by blast
  show "p \<notin> mem_live h \<and> mem_live h' = insert p (mem_live h)"
    if "mem_ok h" "0 < n \<and> n < 2 ^ 32" "mem_malloc n h = Some (Some p, h')"
    using that mem_malloc_live(3) by blast
  show "\<exists>h'. mem_free (Some p) h = Some h' \<and> mem_ok h' \<and> mem_live h' = mem_live h - {p}"
    if "mem_ok h" "p \<in> mem_live h"
    using that by (rule mem_free_live)
qed

text \<open>C32: \<^verbatim>\<open>mem_trim\<close> to a size that the block can hold returns the same pointer, keeps the heap
  well formed and all other areas as they are, and leaves at least the requested size; but for the
  last block of the heap this holds only if no new block fits behind the shrunk one.\<close>

theorem mem_trim_safe:
  assumes "heap_ok h bs" and "areas 0 bs = as @ (p, k) # cs" and "request_size new_size \<le> k"
    and "p + k \<noteq> MEM_SIZE_ALIGNED \<or> k < request_size new_size + SIZEOF_STRUCT_MEM + MIN_SIZE_ALIGNED"
  shows "\<exists>h' bs' k'. mem_trim p new_size h = Some (Some p, h') \<and> heap_ok h' bs' \<and>
    areas 0 bs' = as @ (p, k') # cs \<and> new_size \<le> k' \<and> k' \<le> k"
proof -
  obtain xs n ys where b: "bs = xs @ (n, True) # ys" "p = sizes xs + SIZEOF_STRUCT_MEM"
    "k = n - SIZEOF_STRUCT_MEM" "areas 0 xs = as" "areas (sizes xs + n) ys = cs"
    using areas_split [OF assms(2)] by auto
  have t: "heap_tiled h (xs @ (n, True) # ys)" using assms(1) b(1) by (simp add: heap_ok_def)
  note a = heap_tiled_at [OF t refl refl]
  have n: "request_size new_size + SIZEOF_STRUCT_MEM \<le> n" using assms(3) a(2) by (simp add: b(3))
  have small: "new_size < 2 ^ 32" and ge: "new_size \<le> request_size new_size"
    using n a(3) by (auto simp: request_size_def mem_consts)
  have last: "ys \<noteq> [] \<or> n < request_size new_size + SIZEOF_STRUCT_MEM + (SIZEOF_STRUCT_MEM + MIN_SIZE_ALIGNED)"
    using assms(4) a(2,4) n by (auto simp: b)
  obtain h' where "mem_trim p new_size h = Some (Some p, h')"
    "heap_tiled h' (xs @ trim_block (request_size new_size) n ys)"
    using mem_trim_tiled [OF t refl n small last] by (auto simp: b(2))
  moreover have "no_two_free (xs @ trim_block (request_size new_size) n ys)"
    using assms(1) no_two_free_trim_block by (simp add: heap_ok_def b(1))
  moreover obtain k' where "areas (sizes xs) (trim_block (request_size new_size) n ys) =
      (p, k') # cs" "request_size new_size \<le> k'" "k' \<le> k"
    using areas_trim_block [OF n, of "sizes xs" ys] by (auto simp: b)
  ultimately show ?thesis using ge b(4)
    by (intro exI [of _ h'] exI [of _ "xs @ trim_block (request_size new_size) n ys"] exI [of _ k'])
      (simp add: heap_ok_def areas_append)
qed

text \<open>C33: shrinking the last block of the heap so far that a new free block would fit behind it
  aborts: the assertion \<^verbatim>\<open>invalid next ptr\<close> forbids exactly the case that the next line handles.\<close>

theorem mem_trim_last_block_aborts:
  assumes "heap_ok h bs" and "areas 0 bs = as @ [(p, k)]" and "p + k = MEM_SIZE_ALIGNED"
    and "request_size new_size + SIZEOF_STRUCT_MEM + MIN_SIZE_ALIGNED \<le> k"
  shows "mem_trim p new_size h = None"
proof -
  obtain xs n ys where b: "bs = xs @ (n, True) # ys" "p = sizes xs + SIZEOF_STRUCT_MEM"
    "k = n - SIZEOF_STRUCT_MEM"
    using areas_split [OF assms(2)] by auto
  have t: "heap_tiled h (xs @ (n, True) # ys)" using assms(1) b(1) by (simp add: heap_ok_def)
  note a = heap_tiled_at [OF t refl refl]
  define ns where "ns = request_size new_size"
  have e: "sizes xs + n = MEM_SIZE_ALIGNED" using assms(3) a(2) b by auto
  then have hq: "ram h MEM_SIZE_ALIGNED = Some end_hdr" and n: "n < 2 ^ 32"
    using t by (auto simp: heap_tiled_def mem_consts)
  have fit: "ns + SIZEOF_STRUCT_MEM + MIN_SIZE_ALIGNED \<le> n - SIZEOF_STRUCT_MEM"
    using assms(4) by (simp add: ns_def b(3))
  have small: "mem_size_t (LWIP_MEM_ALIGN_SIZE new_size) = new_size"
    "(if new_size < MIN_SIZE_ALIGNED then MIN_SIZE_ALIGNED else new_size) = ns"
    "\<not> (MEM_SIZE_ALIGNED < ns \<or> ns < new_size)"
    using fit e n by (auto simp: ns_def request_size_def mem_consts mem_size_t_def)
  have sz: "mem_size_minus (mem_size_minus MEM_SIZE_ALIGNED (sizes xs)) SIZEOF_STRUCT_MEM = n - SIZEOF_STRUCT_MEM"
    using e n a(2) by (simp add: mem_consts)
  have "ns \<noteq> n - SIZEOF_STRUCT_MEM" using fit by (simp add: mem_consts)
  then show ?thesis unfolding mem_trim_def small(1) Let_def small(2)
    using small(3) a(1) e sz hq fit
    by (simp add: b(2) mem_trim_shrink_def end_hdr_def Let_def lwip_assert_def)
qed


section \<open>Concrete heaps\<close>

lemma mem_init_ok: "heap_ok mem_init [(MEM_SIZE_ALIGNED, False)]"
  by (simp add: heap_ok_def heap_tiled_def mem_init_def no_two_free_def mem_consts end_hdr_def)

theorem mem_malloc_safe_witness:
  "\<exists>r h'. mem_malloc 100 mem_init = Some (r, h') \<and>
    (r = None \<longrightarrow> h' = mem_init \<and> (\<forall>(n, used) \<in> set [(MEM_SIZE_ALIGNED, False)].
       used \<or> n < 100 + SIZEOF_STRUCT_MEM \<or> n < MIN_SIZE_ALIGNED + SIZEOF_STRUCT_MEM)) \<and>
    (\<forall>p. r = Some p \<longrightarrow> (\<exists>bs' k xs ys. heap_ok h' bs' \<and> areas 0 [(MEM_SIZE_ALIGNED, False)] = xs @ ys \<and>
       areas 0 bs' = xs @ (p, k) # ys \<and> 100 \<le> k \<and> p + k \<le> MEM_SIZE_ALIGNED \<and>
       (\<forall>(a, l) \<in> set (areas 0 [(MEM_SIZE_ALIGNED, False)]). a + l \<le> p \<or> p + k \<le> a)))"
  by (rule mem_malloc_safe [OF mem_init_ok]) simp_all

definition one_block :: mem_heap where
  "one_block = \<lparr>ram = [0 \<mapsto> \<lparr>mem_next = 112, mem_prev = 0, mem_used = True\<rparr>,
     112 \<mapsto> \<lparr>mem_next = 2097152, mem_prev = 0, mem_used = False\<rparr>, 2097152 \<mapsto> end_hdr], lfree = 112\<rparr>"

lemma one_block_ok: "heap_ok one_block [(112, True), (2097040, False)]"
  by (simp add: heap_ok_def heap_tiled_def one_block_def no_two_free_def mem_consts)

theorem mem_free_safe_witness:
  "\<exists>h' bs'. mem_free (Some 12) one_block = Some h' \<and> heap_ok h' bs' \<and> areas 0 bs' = [] @ [] \<and>
    mem_free (Some 12) h' = None"
  by (rule mem_free_safe [OF one_block_ok, of _ _ 100]) (simp add: mem_consts)

theorem mem_trim_safe_witness:
  "\<exists>h' bs' k'. mem_trim 12 20 one_block = Some (Some 12, h') \<and> heap_ok h' bs' \<and>
    areas 0 bs' = [] @ (12, k') # [] \<and> 20 \<le> k' \<and> k' \<le> (100 :: nat)"
  by (rule mem_trim_safe [OF one_block_ok]) (simp_all add: mem_consts request_size_def)

definition full_heap :: mem_heap where
  "full_heap = \<lparr>ram = [0 \<mapsto> \<lparr>mem_next = 2097152, mem_prev = 0, mem_used = True\<rparr>, 2097152 \<mapsto> end_hdr],
     lfree = 2097152\<rparr>"

theorem mem_trim_last_block_aborts_witness: "mem_trim 12 1000 full_heap = None"
proof -
  have "heap_ok full_heap [(2097152, True)]"
    by (simp add: heap_ok_def heap_tiled_def full_heap_def no_two_free_def mem_consts)
  then show ?thesis
    by (rule mem_trim_last_block_aborts [where as = "[]" and k = 2097140])
      (simp_all add: mem_consts request_size_def)
qed

end
