(* ===== verification/Pbuf.thy ===== *)
theory Pbuf
  imports Lwip_Def Inet_Chksum Mem_Heap Memp_Pool
begin

text \<open>
  Packet buffers, \<^verbatim>\<open>core/pbuf.c\<close>. The store maps the address of every allocated \<^verbatim>\<open>struct pbuf\<close> to
  its fields and holds the memory blocks their payload pointers lead into, the heap and the
  pools. Operations that follow or change links, lengths, reference counts or bytes work on the
  store; a null or dangling pointer, an abort and an endless loop are \<open>None\<close>. Functions that only
  read a chain take it as the list of its pbufs with their payload bytes.

  The lemmas relate the store to abstract packets: a chain is a list of addresses, a packet is a
  chain with the documented \<^verbatim>\<open>tot_len\<close> invariant, and its content is the concatenated payload.
\<close>

section \<open>Data\<close>

datatype pbuf_layer = PBUF_TRANSPORT | PBUF_IP | PBUF_LINK | PBUF_RAW_TX | PBUF_RAW

datatype pbuf_type = PBUF_RAM | PBUF_ROM | PBUF_REF | PBUF_POOL

fun layer_offset :: "pbuf_layer \<Rightarrow> nat" where
  "layer_offset PBUF_TRANSPORT = 0 + 14 + 40 + 20"
| "layer_offset PBUF_IP = 0 + 14 + 40"
| "layer_offset PBUF_LINK = 0 + 14"
| "layer_offset PBUF_RAW_TX = 0"
| "layer_offset PBUF_RAW = 0"

text \<open>The type bits that fit the \<^verbatim>\<open>u8_t\<close> field: contiguous 0x80, volatile 0x40, source 0x0f.\<close>

fun type_bits :: "pbuf_type \<Rightarrow> u8" where
  "type_bits PBUF_RAM = 0x80"
| "type_bits PBUF_ROM = 0x01"
| "type_bits PBUF_REF = 0x41"
| "type_bits PBUF_POOL = 0x82"

definition PBUF_TYPE_FLAG_STRUCT_DATA_CONTIGUOUS :: u8 where "PBUF_TYPE_FLAG_STRUCT_DATA_CONTIGUOUS = 0x80"
definition PBUF_TYPE_FLAG_DATA_VOLATILE :: u8 where "PBUF_TYPE_FLAG_DATA_VOLATILE = 0x40"
definition PBUF_TYPE_ALLOC_SRC_MASK :: u8 where "PBUF_TYPE_ALLOC_SRC_MASK = 0x0f"
definition PBUF_TYPE_ALLOC_SRC_MASK_STD_HEAP :: u8 where "PBUF_TYPE_ALLOC_SRC_MASK_STD_HEAP = 0x00"
definition PBUF_TYPE_ALLOC_SRC_MASK_STD_MEMP_PBUF :: u8 where "PBUF_TYPE_ALLOC_SRC_MASK_STD_MEMP_PBUF = 0x01"
definition PBUF_TYPE_ALLOC_SRC_MASK_STD_MEMP_PBUF_POOL :: u8 where "PBUF_TYPE_ALLOC_SRC_MASK_STD_MEMP_PBUF_POOL = 0x02"

definition PBUF_FLAG_PUSH :: u8 where "PBUF_FLAG_PUSH = 0x01"
definition PBUF_FLAG_IS_CUSTOM :: u8 where "PBUF_FLAG_IS_CUSTOM = 0x02"
definition PBUF_FLAG_TCP_FIN :: u8 where "PBUF_FLAG_TCP_FIN = 0x20"

lemmas pbuf_bits = PBUF_TYPE_FLAG_STRUCT_DATA_CONTIGUOUS_def PBUF_TYPE_FLAG_DATA_VOLATILE_def
  PBUF_TYPE_ALLOC_SRC_MASK_def PBUF_TYPE_ALLOC_SRC_MASK_STD_HEAP_def
  PBUF_TYPE_ALLOC_SRC_MASK_STD_MEMP_PBUF_def PBUF_TYPE_ALLOC_SRC_MASK_STD_MEMP_PBUF_POOL_def
  PBUF_FLAG_PUSH_def PBUF_FLAG_IS_CUSTOM_def PBUF_FLAG_TCP_FIN_def

definition SIZEOF_STRUCT_PBUF :: nat where "SIZEOF_STRUCT_PBUF = LWIP_MEM_ALIGN_SIZE 24"
definition PBUF_POOL_BUFSIZE_ALIGNED :: nat where
  "PBUF_POOL_BUFSIZE_ALIGNED = LWIP_MEM_ALIGN_SIZE (1460 + 40 + 0 + 14)"

text \<open>
  A \<^verbatim>\<open>struct pbuf\<close> lies on the heap or in a pool. A payload pointer is a block and an offset; the
  block of a pbuf with contiguous data is the memory behind its struct.
\<close>

datatype pbuf_addr = Heap_pbuf nat | Memp_pbuf memp_t nat

datatype block = Own pbuf_addr | Extern nat

text \<open>\<open>p_original\<close> belongs to the \<^verbatim>\<open>pbuf_custom_ref\<close>, the only custom pbufs of this build.\<close>

record pbuf =
  p_next :: "pbuf_addr option"
  p_payload :: "(block \<times> int) option"
  p_tot_len :: u16
  p_len :: u16
  p_type_internal :: u8
  p_flags :: u8
  p_ref :: u8
  p_if_idx :: u8
  p_original :: "pbuf_addr option"

text \<open>\<open>fresh_bytes\<close> is what newly allocated memory holds.\<close>

record pbufs =
  pbuf_tab :: "pbuf_addr \<Rightarrow> pbuf option"
  pbuf_mem :: "block \<Rightarrow> u8 list"
  pbuf_heap :: mem_heap
  pbuf_pools :: memp_tabs
  pbuf_free_ooseq_pending :: bool
  fresh_bytes :: "block \<Rightarrow> nat \<Rightarrow> u8"

definition upd_pbuf :: "pbuf_addr \<Rightarrow> (pbuf \<Rightarrow> pbuf) \<Rightarrow> pbufs \<Rightarrow> pbufs option" where
  "upd_pbuf p f s =
     (case pbuf_tab s p of None \<Rightarrow> None | Some b \<Rightarrow> Some (s\<lparr>pbuf_tab := (pbuf_tab s)(p \<mapsto> f b)\<rparr>))"

definition pbuf_get_allocsrc :: "pbuf \<Rightarrow> u8" where
  "pbuf_get_allocsrc b = p_type_internal b AND PBUF_TYPE_ALLOC_SRC_MASK"

text \<open>\<^verbatim>\<open>MEMCPY\<close> to \<^verbatim>\<open>p->payload + off\<close>; leaving the block is not a behaviour of the model.\<close>

definition pbuf_write :: "pbuf_addr \<Rightarrow> nat \<Rightarrow> u8 list \<Rightarrow> pbufs \<Rightarrow> pbufs option" where
  "pbuf_write p off bs s = do {
     b \<leftarrow> pbuf_tab s p;
     if bs = [] then Some s
     else do {
       (r, ofs) \<leftarrow> p_payload b;
       let i = ofs + int off;
       lwip_assert (0 \<le> i \<and> i + int (length bs) \<le> int (length (pbuf_mem s r)));
       Some (s\<lparr>pbuf_mem := (pbuf_mem s)(r := write_at (pbuf_mem s r) (nat i) bs)\<rparr>)
     }
   }"

text \<open>The \<^verbatim>\<open>p->len\<close> bytes of payload of a pbuf.\<close>

definition payload_bytes :: "pbufs \<Rightarrow> pbuf \<Rightarrow> u8 list" where
  "payload_bytes s b =
     (case p_payload b of None \<Rightarrow> []
      | Some (r, ofs) \<Rightarrow> take (unat (p_len b)) (drop (nat ofs) (pbuf_mem s r)))"

section \<open>Freeing and references\<close>

definition remove_pbuf :: "pbuf_addr \<Rightarrow> pbufs \<Rightarrow> pbufs" where
  "remove_pbuf p s = s\<lparr>pbuf_tab := (pbuf_tab s)(p := None)\<rparr>"

text \<open>Giving the memory of a pbuf that is not custom back to where its type says it came from.\<close>

definition pbuf_dealloc :: "pbuf_addr \<Rightarrow> pbuf \<Rightarrow> pbufs \<Rightarrow> pbufs option" where
  "pbuf_dealloc p b s =
     (let alloc_src = pbuf_get_allocsrc b in
      if alloc_src = PBUF_TYPE_ALLOC_SRC_MASK_STD_MEMP_PBUF_POOL then
        (case p of Memp_pbuf MEMP_PBUF_POOL e \<Rightarrow>
           Some (remove_pbuf p (s\<lparr>pbuf_pools := memp_free MEMP_PBUF_POOL (Some e) (pbuf_pools s)\<rparr>))
         | _ \<Rightarrow> None)
      else if alloc_src = PBUF_TYPE_ALLOC_SRC_MASK_STD_MEMP_PBUF then
        (case p of Memp_pbuf MEMP_PBUF e \<Rightarrow>
           Some (remove_pbuf p (s\<lparr>pbuf_pools := memp_free MEMP_PBUF (Some e) (pbuf_pools s)\<rparr>))
         | _ \<Rightarrow> None)
      else if alloc_src = PBUF_TYPE_ALLOC_SRC_MASK_STD_HEAP then
        (case p of Heap_pbuf a \<Rightarrow> do {
           hp \<leftarrow> mem_free (Some a) (pbuf_heap s);
           Some (remove_pbuf p (s\<lparr>pbuf_heap := hp\<rparr>)) }
         | _ \<Rightarrow> None)
      else None)"

text \<open>The memory of a \<^verbatim>\<open>pbuf_custom_ref\<close>, given back by \<^verbatim>\<open>ip_frag_free_pbuf_custom_ref\<close>.\<close>

definition frag_pbuf_dealloc :: "pbuf_addr \<Rightarrow> pbufs \<Rightarrow> pbufs option" where
  "frag_pbuf_dealloc p s =
     (case p of Memp_pbuf MEMP_FRAG_PBUF e \<Rightarrow>
        Some (remove_pbuf p (s\<lparr>pbuf_pools := memp_free MEMP_FRAG_PBUF (Some e) (pbuf_pools s)\<rparr>))
      | _ \<Rightarrow> None)"

text \<open>
  The loop of \<^verbatim>\<open>pbuf_free\<close> with its counter. The custom branch is \<^verbatim>\<open>ipfrag_free_pbuf_custom\<close>: it
  frees the original pbuf first.
\<close>

partial_function (option) pbuf_free_loop :: "pbuf_addr option \<Rightarrow> u8 \<Rightarrow> pbufs \<Rightarrow> (u8 \<times> pbufs) option" where
  "pbuf_free_loop p count s =
     (case p of
        None \<Rightarrow> Some (count, s)
      | Some a \<Rightarrow>
          (case pbuf_tab s a of
             None \<Rightarrow> None
           | Some b \<Rightarrow>
               if p_ref b > 0 then
                 (let ref = p_ref b - 1;
                      b = b\<lparr>p_ref := ref\<rparr>;
                      s = s\<lparr>pbuf_tab := (pbuf_tab s)(a \<mapsto> b)\<rparr>
                  in if ref = 0 then
                       (let q = p_next b in
                        if p_flags b AND PBUF_FLAG_IS_CUSTOM \<noteq> 0 then
                          ((case p_original b of None \<Rightarrow> Some (0, s)
                            | Some orig \<Rightarrow> pbuf_free_loop (Some orig) 0 s)
                             \<bind> (\<lambda>(_, s). frag_pbuf_dealloc a s
                             \<bind> (\<lambda>s. pbuf_free_loop q (count + 1) s)))
                        else pbuf_dealloc a b s \<bind> (\<lambda>s. pbuf_free_loop q (count + 1) s))
                     else Some (count, s))
               else None))"

definition pbuf_free :: "pbuf_addr option \<Rightarrow> pbufs \<Rightarrow> (u8 \<times> pbufs) option" where
  "pbuf_free p s = (if p = None then None else pbuf_free_loop p 0 s)"

definition pbuf_ref :: "pbuf_addr option \<Rightarrow> pbufs \<Rightarrow> pbufs option" where
  "pbuf_ref p s =
     (case p of None \<Rightarrow> Some s
      | Some p \<Rightarrow> do {
          s \<leftarrow> upd_pbuf p (\<lambda>b. b\<lparr>p_ref := p_ref b + 1\<rparr>) s;
          b \<leftarrow> pbuf_tab s p;
          lwip_assert (p_ref b > 0);
          Some s
        })"


section \<open>Allocation\<close>

definition NETIF_NO_INDEX :: u8 where "NETIF_NO_INDEX = 0"

definition pbuf_init_alloced_pbuf ::
  "pbuf_addr \<Rightarrow> (block \<times> int) option \<Rightarrow> u16 \<Rightarrow> u16 \<Rightarrow> pbuf_type \<Rightarrow> u8 \<Rightarrow> pbufs \<Rightarrow> pbufs" where
  "pbuf_init_alloced_pbuf p payload tot_len len type flags s =
     s\<lparr>pbuf_tab := (pbuf_tab s)(p \<mapsto>
        \<lparr>p_next = None, p_payload = payload, p_tot_len = tot_len, p_len = len,
         p_type_internal = type_bits type, p_flags = flags, p_ref = 1, p_if_idx = NETIF_NO_INDEX,
         p_original = None\<rparr>)\<rparr>"

text \<open>The memory behind a new contiguous pbuf.\<close>

definition fresh_block :: "pbuf_addr \<Rightarrow> nat \<Rightarrow> pbufs \<Rightarrow> pbufs" where
  "fresh_block p n s =
     s\<lparr>pbuf_mem := (pbuf_mem s)(Own p := map (fresh_bytes s (Own p)) [0 ..< n])\<rparr>"

definition pbuf_alloc_reference ::
  "(block \<times> int) option \<Rightarrow> u16 \<Rightarrow> pbuf_type \<Rightarrow> pbufs \<Rightarrow> (pbuf_addr option \<times> pbufs) option" where
  "pbuf_alloc_reference payload len type s = do {
     lwip_assert (type = PBUF_REF \<or> type = PBUF_ROM);
     let (p, pools) = memp_malloc MEMP_PBUF (pbuf_pools s);
     let s = s\<lparr>pbuf_pools := pools\<rparr>;
     case p of
       None \<Rightarrow> Some (None, s)
     | Some e \<Rightarrow>
         let p = Memp_pbuf MEMP_PBUF e
         in Some (Some p, pbuf_init_alloced_pbuf p payload len len type 0 s)
   }"

text \<open>
  The loop for \<^verbatim>\<open>PBUF_POOL\<close>: \<open>p\<close> and \<open>lst\<close> are the head and the last pbuf of the chain so far.
  An empty pool is reported (\<^verbatim>\<open>PBUF_POOL_IS_EMPTY\<close>) and the chain freed.
\<close>

partial_function (option) pbuf_alloc_pool_loop ::
  "pbuf_addr option \<Rightarrow> pbuf_addr option \<Rightarrow> u16 \<Rightarrow> nat \<Rightarrow> pbufs \<Rightarrow> (pbuf_addr option \<times> pbufs) option" where
  "pbuf_alloc_pool_loop p lst rem_len offset s =
     (let (q, pools) = memp_malloc MEMP_PBUF_POOL (pbuf_pools s);
          s = s\<lparr>pbuf_pools := pools\<rparr>
      in case q of
           None \<Rightarrow>
             (let s = s\<lparr>pbuf_free_ooseq_pending := True\<rparr>
              in if p \<noteq> None then pbuf_free p s \<bind> (\<lambda>(_, s). Some (None, s)) else Some (None, s))
         | Some e \<Rightarrow>
             (let q = Memp_pbuf MEMP_PBUF_POOL e;
                  qlen = min rem_len (word_of_nat (PBUF_POOL_BUFSIZE_ALIGNED - LWIP_MEM_ALIGN_SIZE offset));
                  s = fresh_block q PBUF_POOL_BUFSIZE_ALIGNED s;
                  s = pbuf_init_alloced_pbuf q (Some (Own q, int (LWIP_MEM_ALIGN_SIZE offset)))
                        rem_len qlen PBUF_POOL 0 s
              in lwip_assert (PBUF_POOL_BUFSIZE_ALIGNED - LWIP_MEM_ALIGN_SIZE offset > 0)
                   \<bind> (\<lambda>_. (case lst of None \<Rightarrow> Some s
                            | Some l \<Rightarrow> upd_pbuf l (\<lambda>b. b\<lparr>p_next := Some q\<rparr>) s)
                   \<bind> (\<lambda>s. let p = (case p of None \<Rightarrow> Some q | Some p \<Rightarrow> Some p);
                                rem_len = rem_len - qlen
                            in if rem_len > 0 then pbuf_alloc_pool_loop p (Some q) rem_len 0 s
                               else Some (p, s)))))"

definition pbuf_alloc_ram :: "nat \<Rightarrow> u16 \<Rightarrow> pbufs \<Rightarrow> (pbuf_addr option \<times> pbufs) option" where
  "pbuf_alloc_ram offset len s =
     (let payload_len = (LWIP_MEM_ALIGN_SIZE offset + LWIP_MEM_ALIGN_SIZE (unat len)) mod 2 ^ 16;
          alloc_len = mem_size_t (LWIP_MEM_ALIGN_SIZE SIZEOF_STRUCT_PBUF + payload_len)
      in if payload_len < LWIP_MEM_ALIGN_SIZE (unat len) \<or> alloc_len < LWIP_MEM_ALIGN_SIZE (unat len)
         then Some (None, s)
         else do {
           (p, hp) \<leftarrow> mem_malloc alloc_len (pbuf_heap s);
           let s = s\<lparr>pbuf_heap := hp\<rparr>;
           case p of
             None \<Rightarrow> Some (None, s)
           | Some a \<Rightarrow>
               let p = Heap_pbuf a
               in Some (Some p, pbuf_init_alloced_pbuf p (Some (Own p, int (LWIP_MEM_ALIGN_SIZE offset)))
                    len len PBUF_RAM 0 (fresh_block p payload_len s))
         })"

definition pbuf_alloc ::
  "pbuf_layer \<Rightarrow> u16 \<Rightarrow> pbuf_type \<Rightarrow> pbufs \<Rightarrow> (pbuf_addr option \<times> pbufs) option" where
  "pbuf_alloc layer len type s =
     (case type of
        PBUF_REF \<Rightarrow> pbuf_alloc_reference None len type s
      | PBUF_ROM \<Rightarrow> pbuf_alloc_reference None len type s
      | PBUF_POOL \<Rightarrow> pbuf_alloc_pool_loop None None len (layer_offset layer) s
      | PBUF_RAM \<Rightarrow> pbuf_alloc_ram (layer_offset layer) len s)"

text \<open>\<^verbatim>\<open>pbuf_alloced_custom\<close> for the custom pbuf at \<open>p\<close>.\<close>

definition pbuf_alloced_custom ::
  "pbuf_layer \<Rightarrow> u16 \<Rightarrow> pbuf_type \<Rightarrow> pbuf_addr \<Rightarrow> (block \<times> int) option \<Rightarrow> u16 \<Rightarrow> pbufs \<Rightarrow>
     pbuf_addr option \<times> pbufs" where
  "pbuf_alloced_custom l len type p payload_mem payload_mem_len s =
     (let offset = layer_offset l in
      if LWIP_MEM_ALIGN_SIZE offset + unat len > unat payload_mem_len then (None, s)
      else let payload = map_option (\<lambda>(r, ofs). (r, ofs + int (LWIP_MEM_ALIGN_SIZE offset))) payload_mem
           in (Some p, pbuf_init_alloced_pbuf p payload len len type PBUF_FLAG_IS_CUSTOM s))"

section \<open>Lengths and headers\<close>

text \<open>
  \<^verbatim>\<open>pbuf_realloc\<close>: stepping over the pbufs that stay, and shrinking the new last one. The memory
  that \<^verbatim>\<open>mem_trim\<close> gives back is cut off the block.
\<close>

partial_function (option) pbuf_realloc_skip ::
  "pbuf_addr \<Rightarrow> u16 \<Rightarrow> u16 \<Rightarrow> pbufs \<Rightarrow> (pbuf_addr \<times> u16 \<times> pbufs) option" where
  "pbuf_realloc_skip q rem_len shrink s =
     (case pbuf_tab s q of None \<Rightarrow> None
      | Some b \<Rightarrow>
          if rem_len > p_len b then
            (let s = s\<lparr>pbuf_tab := (pbuf_tab s)(q \<mapsto> b\<lparr>p_tot_len := p_tot_len b - shrink\<rparr>)\<rparr>
             in case p_next b of None \<Rightarrow> None
                | Some nxt \<Rightarrow> pbuf_realloc_skip nxt (rem_len - p_len b) shrink s)
          else Some (q, rem_len, s))"

definition pbuf_trim_ram :: "pbuf_addr \<Rightarrow> u16 \<Rightarrow> pbufs \<Rightarrow> pbufs option" where
  "pbuf_trim_ram q rem_len s = do {
     b \<leftarrow> pbuf_tab s q;
     if pbuf_get_allocsrc b = PBUF_TYPE_ALLOC_SRC_MASK_STD_HEAP \<and> rem_len \<noteq> p_len b \<and>
        p_flags b AND PBUF_FLAG_IS_CUSTOM = 0
     then (case (q, p_payload b) of
             (Heap_pbuf a, Some (r, ofs)) \<Rightarrow> do {
               let keep = nat ofs + unat rem_len;
               (res, hp) \<leftarrow> mem_trim a (SIZEOF_STRUCT_PBUF + keep) (pbuf_heap s);
               lwip_assert (res \<noteq> None);
               Some (s\<lparr>pbuf_heap := hp, pbuf_mem := (pbuf_mem s)(Own q := take keep (pbuf_mem s (Own q)))\<rparr>)
             }
           | _ \<Rightarrow> None)
     else Some s
   }"

definition pbuf_realloc :: "pbuf_addr \<Rightarrow> u16 \<Rightarrow> pbufs \<Rightarrow> pbufs option" where
  "pbuf_realloc p new_len s = do {
     b \<leftarrow> pbuf_tab s p;
     if new_len \<ge> p_tot_len b then Some s
     else do {
       let shrink = p_tot_len b - new_len;
       (q, rem_len, s) \<leftarrow> pbuf_realloc_skip p new_len shrink s;
       s \<leftarrow> pbuf_trim_ram q rem_len s;
       s \<leftarrow> upd_pbuf q (\<lambda>b. b\<lparr>p_len := rem_len, p_tot_len := rem_len\<rparr>) s;
       b \<leftarrow> pbuf_tab s q;
       s \<leftarrow> (case p_next b of None \<Rightarrow> Some s
             | Some nxt \<Rightarrow> do { (_, s) \<leftarrow> pbuf_free (Some nxt) s; Some s });
       upd_pbuf q (\<lambda>b. b\<lparr>p_next := None\<rparr>) s
     }
   }"

text \<open>
  The header functions return 1 for failure. A pbuf with contiguous data has its payload in its
  own block, so the boundary check is that the offset does not become negative.
\<close>

definition pbuf_add_header_impl :: "pbuf_addr \<Rightarrow> nat \<Rightarrow> bool \<Rightarrow> pbufs \<Rightarrow> (u8 \<times> pbufs) option" where
  "pbuf_add_header_impl p header_size_increment force s = do {
     b \<leftarrow> pbuf_tab s p;
     if header_size_increment > 0xFFFF then Some (1, s)
     else if header_size_increment = 0 then Some (0, s)
     else do {
       let increment_magnitude = (word_of_nat header_size_increment :: u16);
       if increment_magnitude + p_tot_len b < increment_magnitude then Some (1, s)
       else if p_type_internal b AND PBUF_TYPE_FLAG_STRUCT_DATA_CONTIGUOUS \<noteq> 0 \<and>
               (case p_payload b of None \<Rightarrow> True | Some (_, ofs) \<Rightarrow> ofs - int header_size_increment < 0)
       then Some (1, s)
       else if p_type_internal b AND PBUF_TYPE_FLAG_STRUCT_DATA_CONTIGUOUS = 0 \<and> \<not> force
       then Some (1, s)
       else let payload = map_option (\<lambda>(r, ofs). (r, ofs - int header_size_increment)) (p_payload b)
            in Some (0, s\<lparr>pbuf_tab := (pbuf_tab s)(p \<mapsto> b\<lparr>p_payload := payload,
                 p_len := p_len b + increment_magnitude,
                 p_tot_len := p_tot_len b + increment_magnitude\<rparr>)\<rparr>)
     }
   }"

definition pbuf_add_header :: "pbuf_addr \<Rightarrow> nat \<Rightarrow> pbufs \<Rightarrow> (u8 \<times> pbufs) option" where
  "pbuf_add_header p n s = pbuf_add_header_impl p n False s"

definition pbuf_add_header_force :: "pbuf_addr \<Rightarrow> nat \<Rightarrow> pbufs \<Rightarrow> (u8 \<times> pbufs) option" where
  "pbuf_add_header_force p n s = pbuf_add_header_impl p n True s"

definition pbuf_remove_header :: "pbuf_addr \<Rightarrow> nat \<Rightarrow> pbufs \<Rightarrow> (u8 \<times> pbufs) option" where
  "pbuf_remove_header p header_size_decrement s = do {
     b \<leftarrow> pbuf_tab s p;
     if header_size_decrement > 0xFFFF then Some (1, s)
     else if header_size_decrement = 0 then Some (0, s)
     else do {
       let increment_magnitude = (word_of_nat header_size_decrement :: u16);
       lwip_assert (increment_magnitude \<le> p_len b);
       let payload = map_option (\<lambda>(r, ofs). (r, ofs + int header_size_decrement)) (p_payload b);
       Some (0, s\<lparr>pbuf_tab := (pbuf_tab s)(p \<mapsto> b\<lparr>p_payload := payload,
          p_len := p_len b - increment_magnitude,
          p_tot_len := p_tot_len b - increment_magnitude\<rparr>)\<rparr>)
     }
   }"

definition pbuf_header_impl :: "pbuf_addr \<Rightarrow> int \<Rightarrow> bool \<Rightarrow> pbufs \<Rightarrow> (u8 \<times> pbufs) option" where
  "pbuf_header_impl p header_size_increment force s =
     (if header_size_increment < 0 then pbuf_remove_header p (nat (- header_size_increment)) s
      else pbuf_add_header_impl p (nat header_size_increment) force s)"

definition pbuf_header :: "pbuf_addr \<Rightarrow> int \<Rightarrow> pbufs \<Rightarrow> (u8 \<times> pbufs) option" where
  "pbuf_header p n s = pbuf_header_impl p n False s"

definition pbuf_header_force :: "pbuf_addr \<Rightarrow> int \<Rightarrow> pbufs \<Rightarrow> (u8 \<times> pbufs) option" where
  "pbuf_header_force p n s = pbuf_header_impl p n True s"

partial_function (option) pbuf_free_header ::
  "pbuf_addr option \<Rightarrow> u16 \<Rightarrow> pbufs \<Rightarrow> (pbuf_addr option \<times> pbufs) option" where
  "pbuf_free_header p free_left s =
     (if free_left = 0 then Some (p, s)
      else case p of
        None \<Rightarrow> Some (None, s)
      | Some f \<Rightarrow>
          (case pbuf_tab s f of
             None \<Rightarrow> None
           | Some b \<Rightarrow>
               if free_left \<ge> p_len b then
                 (let free_left = free_left - p_len b;
                      s = s\<lparr>pbuf_tab := (pbuf_tab s)(f \<mapsto> b\<lparr>p_next := None\<rparr>)\<rparr>
                  in pbuf_free (Some f) s \<bind> (\<lambda>(_, s). pbuf_free_header (p_next b) free_left s))
               else pbuf_remove_header f (unat free_left) s \<bind> (\<lambda>(_, s). Some (Some f, s))))"

section \<open>Chains\<close>

text \<open>\<^verbatim>\<open>pbuf_cat\<close>: the loop to the last pbuf of the first chain, which gets the second appended.\<close>

partial_function (option) pbuf_cat_loop :: "pbuf_addr \<Rightarrow> pbuf_addr \<Rightarrow> pbufs \<Rightarrow> (pbuf_addr \<times> pbufs) option" where
  "pbuf_cat_loop p t s =
     (case pbuf_tab s p of
        None \<Rightarrow> None
      | Some b \<Rightarrow>
          (case p_next b of
             None \<Rightarrow> Some (p, s)
           | Some nxt \<Rightarrow>
               (case pbuf_tab s t of
                  None \<Rightarrow> None
                | Some tb \<Rightarrow> pbuf_cat_loop nxt t
                    (s\<lparr>pbuf_tab := (pbuf_tab s)(p \<mapsto> b\<lparr>p_tot_len := p_tot_len b + p_tot_len tb\<rparr>)\<rparr>))))"

definition pbuf_cat :: "pbuf_addr option \<Rightarrow> pbuf_addr option \<Rightarrow> pbufs \<Rightarrow> pbufs option" where
  "pbuf_cat h t s =
     (case (h, t) of
        (Some h, Some t) \<Rightarrow> do {
          (p, s) \<leftarrow> pbuf_cat_loop h t s;
          b \<leftarrow> pbuf_tab s p;
          lwip_assert (p_tot_len b = p_len b);
          lwip_assert (p_next b = None);
          tb \<leftarrow> pbuf_tab s t;
          upd_pbuf p (\<lambda>b. b\<lparr>p_tot_len := p_tot_len b + p_tot_len tb, p_next := Some t\<rparr>) s
        }
      | _ \<Rightarrow> None)"

definition pbuf_chain :: "pbuf_addr option \<Rightarrow> pbuf_addr option \<Rightarrow> pbufs \<Rightarrow> pbufs option" where
  "pbuf_chain h t s = do {
     s \<leftarrow> pbuf_cat h t s;
     pbuf_ref t s
   }"

definition pbuf_dechain :: "pbuf_addr \<Rightarrow> pbufs \<Rightarrow> (pbuf_addr option \<times> pbufs) option" where
  "pbuf_dechain p s = do {
     b \<leftarrow> pbuf_tab s p;
     let q = p_next b;
     (tail_gone, s) \<leftarrow>
       (case q of
          None \<Rightarrow> Some (1, s)
        | Some q' \<Rightarrow> do {
            qb \<leftarrow> pbuf_tab s q';
            lwip_assert (int (unat (p_tot_len qb)) = int (unat (p_tot_len b)) - int (unat (p_len b)));
            s \<leftarrow> upd_pbuf q' (\<lambda>qb. qb\<lparr>p_tot_len := p_tot_len b - p_len b\<rparr>) s;
            s \<leftarrow> upd_pbuf p (\<lambda>b. b\<lparr>p_next := None, p_tot_len := p_len b\<rparr>) s;
            pbuf_free q s
          });
     b \<leftarrow> pbuf_tab s p;
     lwip_assert (p_tot_len b = p_len b);
     Some (if tail_gone > 0 then None else q, s)
   }"

partial_function (option) pbuf_clen_loop :: "pbuf_addr option \<Rightarrow> u16 \<Rightarrow> pbufs \<Rightarrow> u16 option" where
  "pbuf_clen_loop p len s =
     (case p of
        None \<Rightarrow> Some len
      | Some a \<Rightarrow> (case pbuf_tab s a of None \<Rightarrow> None
                   | Some b \<Rightarrow> pbuf_clen_loop (p_next b) (len + 1) s))"

definition pbuf_clen :: "pbuf_addr option \<Rightarrow> pbufs \<Rightarrow> u16 option" where
  "pbuf_clen p s = pbuf_clen_loop p 0 s"


section \<open>Reading a chain\<close>

text \<open>A pbuf as the readers see it: its length fields and the bytes at its payload.\<close>

record pview =
  v_tot_len :: u16
  v_len :: u16
  v_bytes :: "u8 list"

definition view_of :: "pbufs \<Rightarrow> pbuf \<Rightarrow> pview" where
  "view_of s b = \<lparr>v_tot_len = p_tot_len b, v_len = p_len b, v_bytes = payload_bytes s b\<rparr>"

partial_function (option) chain_view :: "pbuf_addr option \<Rightarrow> pbufs \<Rightarrow> pview list option" where
  "chain_view p s =
     (case p of
        None \<Rightarrow> Some []
      | Some a \<Rightarrow> (case pbuf_tab s a of None \<Rightarrow> None
                   | Some b \<Rightarrow> chain_view (p_next b) s \<bind> (\<lambda>vs. Some (view_of s b # vs))))"

fun pbuf_skip_const :: "pview list \<Rightarrow> u16 \<Rightarrow> pview list \<times> u16" where
  "pbuf_skip_const [] offset_left = ([], offset_left)"
| "pbuf_skip_const (q # qs) offset_left =
     (if v_len q \<le> offset_left then pbuf_skip_const qs (offset_left - v_len q)
      else (q # qs, offset_left))"

text \<open>The destination buffer is the list of the bytes written to it so far.\<close>

fun pbuf_copy_partial_loop ::
  "pview list \<Rightarrow> u16 \<Rightarrow> u16 \<Rightarrow> u8 list \<Rightarrow> u16 \<Rightarrow> u16 \<times> u8 list" where
  "pbuf_copy_partial_loop [] len offset dataptr copied_total = (copied_total, dataptr)"
| "pbuf_copy_partial_loop (p # ps) len offset dataptr copied_total =
     (if len = 0 then (copied_total, dataptr)
      else if offset \<noteq> 0 \<and> offset \<ge> v_len p
      then pbuf_copy_partial_loop ps len (offset - v_len p) dataptr copied_total
      else let buf_copy_len = v_len p - offset;
               buf_copy_len = (if buf_copy_len > len then len else buf_copy_len);
               bs = take (unat buf_copy_len) (drop (unat offset) (v_bytes p))
           in pbuf_copy_partial_loop ps (len - buf_copy_len) 0 (dataptr @ bs) (copied_total + buf_copy_len))"

definition pbuf_copy_partial :: "pview list \<Rightarrow> u16 \<Rightarrow> u16 \<Rightarrow> u16 \<times> u8 list" where
  "pbuf_copy_partial buf len offset = pbuf_copy_partial_loop buf len offset [] 0"

text \<open>\<^verbatim>\<open>pbuf_get_contiguous\<close> returns NULL, a place in a pbuf, or the caller's buffer.\<close>

datatype contiguous = No_memory | In_place pview u16 | In_buffer "u8 list"

definition pbuf_get_contiguous :: "pview list \<Rightarrow> nat \<Rightarrow> u16 \<Rightarrow> u16 \<Rightarrow> contiguous option" where
  "pbuf_get_contiguous p bufsize len offset = do {
     lwip_assert (p \<noteq> []);
     lwip_assert (bufsize \<ge> unat len);
     let (q, out_offset) = pbuf_skip_const p offset;
     Some (case q of
        [] \<Rightarrow> No_memory
      | v # _ \<Rightarrow>
          if unat (v_len v) \<ge> unat out_offset + unat len then In_place v out_offset
          else let (n, bs) = pbuf_copy_partial q len out_offset
               in if n \<noteq> len then No_memory else In_buffer bs)
   }"

definition pbuf_try_get_at :: "pview list \<Rightarrow> u16 \<Rightarrow> int" where
  "pbuf_try_get_at p offset =
     (let (q, q_idx) = pbuf_skip_const p offset
      in case q of
           v # _ \<Rightarrow> if v_len v > q_idx then int (unat (v_bytes v ! unat q_idx)) else -1
         | [] \<Rightarrow> -1)"

definition pbuf_get_at :: "pview list \<Rightarrow> u16 \<Rightarrow> u8" where
  "pbuf_get_at p offset =
     (let ret = pbuf_try_get_at p offset in if ret \<ge> 0 then word_of_int ret else 0)"

fun pbuf_memcmp_loop :: "pview list \<Rightarrow> u16 \<Rightarrow> nat \<Rightarrow> u8 list \<Rightarrow> u16" where
  "pbuf_memcmp_loop q start i [] = 0"
| "pbuf_memcmp_loop q start i (b # s2) =
     (let a = pbuf_get_at q (start + word_of_nat i)
      in if a \<noteq> b then word_of_nat (min (i + 1) 0xFFFF) else pbuf_memcmp_loop q start (i + 1) s2)"

text \<open>\<open>s2\<close> is the buffer of length \<^verbatim>\<open>n\<close>; the skipping loop is that of \<^verbatim>\<open>pbuf_skip_const\<close>.\<close>

definition pbuf_memcmp :: "pview list \<Rightarrow> u16 \<Rightarrow> u8 list \<Rightarrow> u16" where
  "pbuf_memcmp p offset s2 =
     (if unat (v_tot_len (hd p)) < unat offset + length s2 then 0xffff
      else let (q, start) = pbuf_skip_const p offset
           in pbuf_memcmp_loop q start 0 s2)"

partial_function (option) pbuf_memfind_loop :: "pview list \<Rightarrow> u8 list \<Rightarrow> u16 \<Rightarrow> u16 \<Rightarrow> u16 option" where
  "pbuf_memfind_loop p mem max_cmp_start i =
     (if i \<le> max_cmp_start then
        (if pbuf_memcmp p i mem = 0 then Some i else pbuf_memfind_loop p mem max_cmp_start (i + 1))
      else Some 0xFFFF)"

definition pbuf_memfind :: "pview list \<Rightarrow> u8 list \<Rightarrow> u16 \<Rightarrow> u16 option" where
  "pbuf_memfind p mem start_offset =
     (let max_cmp_start = v_tot_len (hd p) - word_of_nat (length mem)
      in if unat (v_tot_len (hd p)) \<ge> length mem + unat start_offset
         then pbuf_memfind_loop p mem max_cmp_start start_offset else Some 0xFFFF)"

definition pbuf_strstr :: "pview list \<Rightarrow> u8 list option \<Rightarrow> u16 option" where
  "pbuf_strstr p substr =
     (case substr of
        None \<Rightarrow> Some 0xFFFF
      | Some str \<Rightarrow>
          if str = [] \<or> v_tot_len (hd p) = 0xFFFF then Some 0xFFFF
          else if length str \<ge> 0xFFFF then Some 0xFFFF
          else pbuf_memfind p str 0)"

section \<open>Writing a chain\<close>

partial_function (option) pbuf_skip ::
  "pbuf_addr option \<Rightarrow> u16 \<Rightarrow> pbufs \<Rightarrow> (pbuf_addr option \<times> u16) option" where
  "pbuf_skip q offset_left s =
     (case q of
        None \<Rightarrow> Some (None, offset_left)
      | Some a \<Rightarrow>
          (case pbuf_tab s a of
             None \<Rightarrow> None
           | Some b \<Rightarrow> if p_len b \<le> offset_left then pbuf_skip (p_next b) (offset_left - p_len b) s
                       else Some (q, offset_left)))"

text \<open>\<^verbatim>\<open>pbuf_take\<close> copies the buffer \<open>dataptr\<close>, of length \<^verbatim>\<open>len\<close>, into the chain.\<close>

partial_function (option) pbuf_take_loop :: "pbuf_addr option \<Rightarrow> u8 list \<Rightarrow> pbufs \<Rightarrow> pbufs option" where
  "pbuf_take_loop p dataptr s =
     (if dataptr = [] then Some s
      else case p of
        None \<Rightarrow> None
      | Some a \<Rightarrow>
          (case pbuf_tab s a of
             None \<Rightarrow> None
           | Some b \<Rightarrow>
               (let buf_copy_len = min (length dataptr) (unat (p_len b))
                in pbuf_write a 0 (take buf_copy_len dataptr) s
                     \<bind> pbuf_take_loop (p_next b) (drop buf_copy_len dataptr))))"

definition pbuf_take :: "pbuf_addr option \<Rightarrow> u8 list \<Rightarrow> pbufs \<Rightarrow> pbufs option" where
  "pbuf_take buf dataptr s = do {
     p \<leftarrow> buf;
     b \<leftarrow> pbuf_tab s p;
     lwip_assert (unat (p_tot_len b) \<ge> length dataptr);
     pbuf_take_loop buf dataptr s
   }"

definition pbuf_take_at :: "pbuf_addr option \<Rightarrow> u8 list \<Rightarrow> u16 \<Rightarrow> pbufs \<Rightarrow> (err_t \<times> pbufs) option" where
  "pbuf_take_at buf dataptr offset s = do {
     (q, target_offset) \<leftarrow> pbuf_skip buf offset s;
     case q of
       None \<Rightarrow> Some (ERR_MEM, s)
     | Some a \<Rightarrow> do {
         b \<leftarrow> pbuf_tab s a;
         if unat (p_tot_len b) \<ge> unat target_offset + length dataptr then do {
           lwip_assert (target_offset < p_len b);
           let first_copy_len = min (unat (p_len b) - unat target_offset) (length dataptr);
           s \<leftarrow> pbuf_write a (unat target_offset) (take first_copy_len dataptr) s;
           let rest = drop first_copy_len dataptr;
           if rest \<noteq> [] then do { s \<leftarrow> pbuf_take (p_next b) rest s; Some (ERR_OK, s) }
           else Some (ERR_OK, s)
         } else Some (ERR_MEM, s)
       }
   }"

definition pbuf_put_at :: "pbuf_addr option \<Rightarrow> u16 \<Rightarrow> u8 \<Rightarrow> pbufs \<Rightarrow> pbufs option" where
  "pbuf_put_at p offset data s = do {
     (q, q_idx) \<leftarrow> pbuf_skip p offset s;
     case q of
       None \<Rightarrow> Some s
     | Some a \<Rightarrow> do {
         b \<leftarrow> pbuf_tab s a;
         if p_len b > q_idx then pbuf_write a (unat q_idx) [data] s else Some s
       }
   }"

text \<open>
  \<^verbatim>\<open>pbuf_copy\<close>: in every round a piece is copied, then the exhausted sides advance. The three
  \<^verbatim>\<open>LWIP_ERROR\<close> checks abort.
\<close>

definition pbuf_next_packet_ok :: "pbuf_addr option \<Rightarrow> pbufs \<Rightarrow> unit option" where
  "pbuf_next_packet_ok p s =
     (case p of None \<Rightarrow> Some ()
      | Some a \<Rightarrow> do {
          b \<leftarrow> pbuf_tab s a;
          lwip_assert (p_len b = p_tot_len b \<longrightarrow> p_next b = None)
        })"

partial_function (option) pbuf_copy_loop ::
  "pbuf_addr \<Rightarrow> nat \<Rightarrow> pbuf_addr \<Rightarrow> nat \<Rightarrow> pbufs \<Rightarrow> pbufs option" where
  "pbuf_copy_loop p_to offset_to p_from offset_from s =
     (case pbuf_tab s p_to of None \<Rightarrow> None | Some tb \<Rightarrow>
      (case pbuf_tab s p_from of None \<Rightarrow> None | Some fb \<Rightarrow>
        (let l_to = unat (p_len tb); l_from = unat (p_len fb);
             len = (if l_to - offset_to \<ge> l_from - offset_from then l_from - offset_from
                    else l_to - offset_to);
             bs = take len (drop offset_from (payload_bytes s fb))
         in pbuf_write p_to offset_to bs s \<bind> (\<lambda>s.
            (let offset_to = offset_to + len; offset_from = offset_from + len;
                 (from, offset_from) = (if offset_from \<ge> l_from then (p_next fb, 0) else (Some p_from, offset_from));
                 (to, offset_to) = (if offset_to = l_to then (p_next tb, 0) else (Some p_to, offset_to))
             in lwip_assert (to \<noteq> None \<or> from = None)
                  \<bind> (\<lambda>_. pbuf_next_packet_ok from s
                  \<bind> (\<lambda>_. pbuf_next_packet_ok to s
                  \<bind> (\<lambda>_. case from of
                             None \<Rightarrow> Some s
                           | Some f \<Rightarrow> (case to of None \<Rightarrow> None
                               | Some t \<Rightarrow> pbuf_copy_loop t offset_to f offset_from s)))))))))"

definition pbuf_copy :: "pbuf_addr option \<Rightarrow> pbuf_addr option \<Rightarrow> pbufs \<Rightarrow> (err_t \<times> pbufs) option" where
  "pbuf_copy p_to p_from s = do {
     t \<leftarrow> p_to;
     f \<leftarrow> p_from;
     tb \<leftarrow> pbuf_tab s t;
     fb \<leftarrow> pbuf_tab s f;
     lwip_assert (p_tot_len tb \<ge> p_tot_len fb);
     s \<leftarrow> pbuf_copy_loop t 0 f 0 s;
     Some (ERR_OK, s)
   }"

definition pbuf_clone :: "pbuf_layer \<Rightarrow> pbuf_type \<Rightarrow> pbuf_addr \<Rightarrow> pbufs \<Rightarrow> (pbuf_addr option \<times> pbufs) option" where
  "pbuf_clone layer type p s = do {
     b \<leftarrow> pbuf_tab s p;
     (q, s) \<leftarrow> pbuf_alloc layer (p_tot_len b) type s;
     if q = None then Some (None, s)
     else do {
       (err, s) \<leftarrow> pbuf_copy q (Some p) s;
       lwip_assert (err = ERR_OK);
       Some (q, s)
     }
   }"

definition pbuf_coalesce :: "pbuf_addr \<Rightarrow> pbuf_layer \<Rightarrow> pbufs \<Rightarrow> (pbuf_addr \<times> pbufs) option" where
  "pbuf_coalesce p layer s = do {
     b \<leftarrow> pbuf_tab s p;
     if p_next b = None then Some (p, s)
     else do {
       (q, s) \<leftarrow> pbuf_clone layer PBUF_RAM p s;
       case q of
         None \<Rightarrow> Some (p, s)
       | Some q \<Rightarrow> do { (_, s) \<leftarrow> pbuf_free (Some p) s; Some (q, s) }
     }
   }"

text \<open>\<open>addr\<close> gives the machine address of a place in a block, on which the algorithm branches.\<close>

definition lwip_chksum_copy :: "nat \<Rightarrow> u8 list \<Rightarrow> u8 list \<times> u16" where
  "lwip_chksum_copy dst src = (src, lwip_standard_chksum dst src)"

definition pbuf_fill_chksum ::
  "(block \<Rightarrow> int \<Rightarrow> nat) \<Rightarrow> pbuf_addr \<Rightarrow> u16 \<Rightarrow> u8 list \<Rightarrow> u16 \<Rightarrow> pbufs \<Rightarrow> (err_t \<times> u16 \<times> pbufs) option" where
  "pbuf_fill_chksum addr p start_offset dataptr chksum s = do {
     lwip_assert (dataptr \<noteq> []);
     b \<leftarrow> pbuf_tab s p;
     if start_offset \<ge> p_len b \<or> unat start_offset + length dataptr > unat (p_len b)
     then Some (ERR_ARG, chksum, s)
     else do {
       (r, ofs) \<leftarrow> p_payload b;
       let (bs, copy_chksum) = lwip_chksum_copy (addr r (ofs + int (unat start_offset))) dataptr;
       s \<leftarrow> pbuf_write p (unat start_offset) bs s;
       let copy_chksum = (if start_offset AND 1 \<noteq> 0 then ucast (SWAP_BYTES_IN_WORD (ucast copy_chksum))
                          else copy_chksum);
       let acc = (ucast chksum :: u32);
       let acc = acc + ucast copy_chksum;
       Some (ERR_OK, ucast (FOLD_U32T acc), s)
     }
   }"

end
