(* ===== verification/Pbuf_Read.thy ===== *)
theory Pbuf_Read
  imports Pbuf
begin

text \<open>
  What the functions that only read a pbuf chain compute, in terms of the bytes of the packet:
  skipping, copying a part, single bytes, comparison and search. \<open>views_ok\<close> says that every pbuf
  has \<^verbatim>\<open>len\<close> bytes of payload, \<open>packet_view\<close> adds that the \<^verbatim>\<open>tot_len\<close> of the first one is the sum.
\<close>

definition views_ok :: "pview list \<Rightarrow> bool" where
  "views_ok vs \<longleftrightarrow> (\<forall>v \<in> set vs. length (v_bytes v) = unat (v_len v))"

definition vbytes :: "pview list \<Rightarrow> u8 list" where
  "vbytes vs = concat (map v_bytes vs)"

definition packet_view :: "pview list \<Rightarrow> bool" where
  "packet_view vs \<longleftrightarrow> vs \<noteq> [] \<and> views_ok vs \<and> unat (v_tot_len (hd vs)) = length (vbytes vs)"

lemma views_simps [simp]:
  "views_ok []" "views_ok (v # vs) \<longleftrightarrow> length (v_bytes v) = unat (v_len v) \<and> views_ok vs"
  "vbytes [] = []" "vbytes (v # vs) = v_bytes v @ vbytes vs"
  by (auto simp: views_ok_def vbytes_def)

lemma pbuf_skip_const_bytes:
  "views_ok vs \<Longrightarrow> pbuf_skip_const vs off = (q, r) \<Longrightarrow>
     views_ok q \<and> drop (unat off) (vbytes vs) = drop (unat r) (vbytes q) \<and>
     (q = [] \<longleftrightarrow> length (vbytes vs) \<le> unat off) \<and> (q \<noteq> [] \<longrightarrow> r < v_len (hd q)) \<and>
     unat r \<le> unat off"
proof (induction vs off rule: pbuf_skip_const.induct)
  case (2 v vs off)
  show ?case
  proof (cases "v_len v \<le> off")
    case True
    then have "unat (off - v_len v) = unat off - unat (v_len v)" by (simp add: unat_diff_le)
    then show ?thesis using 2 True by (auto simp: word_le_nat_alt)
  next
    case False
    then show ?thesis using 2 by (auto simp: word_le_nat_alt word_less_nat_alt)
  qed
qed simp

lemma pbuf_try_get_at_nth:
  assumes "views_ok vs"
  shows "pbuf_try_get_at vs off =
    (if unat off < length (vbytes vs) then int (unat (vbytes vs ! unat off)) else -1)"
proof -
  obtain q r where s: "pbuf_skip_const vs off = (q, r)" by (metis surj_pair)
  note p = pbuf_skip_const_bytes [OF assms s]
  show ?thesis
  proof (cases q)
    case (Cons v q')
    then have r: "r < v_len v" and l: "unat off < length (vbytes vs)" using p by auto
    have "vbytes vs ! unat off = hd (drop (unat off) (vbytes vs))" using l by (simp add: hd_drop_conv_nth)
    also have "\<dots> = hd (drop (unat r) (v_bytes v @ vbytes q'))" using p Cons by simp
    also have "\<dots> = v_bytes v ! unat r"
      using r p Cons by (simp add: hd_drop_conv_nth nth_append word_less_nat_alt)
    finally show ?thesis using r l by (simp add: pbuf_try_get_at_def s Cons)
  qed (use p s in \<open>auto simp: pbuf_try_get_at_def\<close>)
qed

lemma pbuf_get_at_nth:
  "views_ok vs \<Longrightarrow> pbuf_get_at vs off = (if unat off < length (vbytes vs) then vbytes vs ! unat off else 0)"
  by (simp add: pbuf_get_at_def pbuf_try_get_at_nth)

text \<open>\<^verbatim>\<open>pbuf_try_get_at\<close> and \<^verbatim>\<open>pbuf_get_at\<close> return the byte of the packet at the offset, however
  the packet is cut into pbufs (empty ones included), and -1 and 0 behind its end.\<close>

lemma pbuf_get_at_byte:
  assumes "views_ok vs"
  shows "pbuf_try_get_at vs off =
      (if unat off < length (vbytes vs) then int (unat (vbytes vs ! unat off)) else -1) \<and>
    pbuf_get_at vs off = (if unat off < length (vbytes vs) then vbytes vs ! unat off else 0)"
  using assms pbuf_try_get_at_nth pbuf_get_at_nth by simp

definition example_views :: "pview list" where
  "example_views =
     [\<lparr>v_tot_len = 5, v_len = 2, v_bytes = [10, 20]\<rparr>, \<lparr>v_tot_len = 3, v_len = 0, v_bytes = []\<rparr>,
      \<lparr>v_tot_len = 3, v_len = 3, v_bytes = [30, 10, 20]\<rparr>]"

lemma example_views_ok: "views_ok example_views" "packet_view example_views"
  by (simp_all add: example_views_def packet_view_def)

lemma pbuf_copy_partial_loop_bytes:
  "views_ok vs \<Longrightarrow> pbuf_copy_partial_loop vs len off dst tot =
     (let bs = take (unat len) (drop (unat off) (vbytes vs)) in (tot + word_of_nat (length bs), dst @ bs))"
proof (induction vs len off dst tot rule: pbuf_copy_partial_loop.induct)
  case (2 p ps len off dst tot)
  have ok: "length (v_bytes p) = unat (v_len p)" "views_ok ps" using "2.prems" by simp_all
  consider "len = 0" | (skip) "len \<noteq> 0" "off \<noteq> 0 \<and> off \<ge> v_len p"
    | (copy) "len \<noteq> 0" "\<not> (off \<noteq> 0 \<and> off \<ge> v_len p)" by blast
  then show ?case
  proof cases
    case skip
    then have "unat (off - v_len p) = unat off - unat (v_len p)" by (simp add: unat_diff_le)
    then show ?thesis using 2 skip by (simp add: word_le_nat_alt)
  next
    case copy
    have le: "off \<le> v_len p" using copy by (cases "off = 0") auto
    then have d: "unat (v_len p - off) = unat (v_len p) - unat off" by (simp add: unat_diff_le)
    define n where "n = (if v_len p - off > len then len else v_len p - off)"
    have n: "unat n = min (unat len) (unat (v_len p) - unat off)"
      by (auto simp: n_def min_def word_less_nat_alt d)
    then have dn: "unat (len - n) = unat len - unat n" by (simp add: unat_diff_le word_le_nat_alt)
    define bs where "bs = take (unat n) (drop (unat off) (v_bytes p))"
    have lb: "length bs = unat n" using n ok le by (simp add: bs_def word_le_nat_alt)
    have step: "pbuf_copy_partial_loop (p # ps) len off dst tot =
        pbuf_copy_partial_loop ps (len - n) 0 (dst @ bs) (tot + n)"
      using copy by (auto simp: n_def bs_def Let_def)
    have ih: "pbuf_copy_partial_loop ps (len - n) 0 (dst @ bs) (tot + n) =
        (let bs' = take (unat (len - n)) (drop (unat (0 :: u16)) (vbytes ps))
         in (tot + n + word_of_nat (length bs'), (dst @ bs) @ bs'))"
      by (rule "2.IH"(2)) (use copy ok in \<open>auto simp: n_def bs_def\<close>)
    have "take (unat len) (drop (unat off) (v_bytes p @ vbytes ps)) = bs @ take (unat (len - n)) (vbytes ps)"
      using n ok le by (auto simp: bs_def dn word_le_nat_alt min_def)
    then show ?thesis using step ih lb by (simp add: Let_def)
  qed simp
qed simp

lemma pbuf_copy_partial_eq:
  assumes "views_ok vs"
  shows "pbuf_copy_partial vs len off =
    (word_of_nat (length (take (unat len) (drop (unat off) (vbytes vs)))),
     take (unat len) (drop (unat off) (vbytes vs)))"
  using pbuf_copy_partial_loop_bytes [OF assms] by (simp add: pbuf_copy_partial_def Let_def)

text \<open>\<^verbatim>\<open>pbuf_copy_partial\<close> writes to the buffer exactly the bytes of the packet from \<open>offset\<close> on, at
  most \<open>len\<close> and as far as the packet reaches, and returns their number.\<close>

lemma pbuf_copy_partial_bytes:
  assumes "views_ok vs"
  shows "snd (pbuf_copy_partial vs len off) = take (unat len) (drop (unat off) (vbytes vs)) \<and>
    unat (fst (pbuf_copy_partial vs len off)) = min (unat len) (length (vbytes vs) - unat off)"
  using pbuf_copy_partial_eq [OF assms, of len off] u16_lt [of len]
  by (simp add: unat_of_nat min_def)

section \<open>Comparing and searching\<close>

text \<open>\<open>differ_at f s2 k\<close>: \<open>k\<close> is the first index at which \<open>f\<close> does not give the byte of \<open>s2\<close>.\<close>

definition differ_at :: "(nat \<Rightarrow> u8) \<Rightarrow> u8 list \<Rightarrow> nat \<Rightarrow> bool" where
  "differ_at f s2 k \<longleftrightarrow> k < length s2 \<and> f k \<noteq> s2 ! k \<and> (\<forall>j < k. f j = s2 ! j)"

lemma not_differ_at:
  assumes "take (length s2) (drop n bs) = s2" "n + length s2 \<le> length bs"
  shows "\<not> differ_at (\<lambda>j. bs ! (n + j)) s2 k"
proof
  assume d: "differ_at (\<lambda>j. bs ! (n + j)) s2 k"
  then have k: "k < length s2" "bs ! (n + k) \<noteq> s2 ! k" by (simp_all add: differ_at_def)
  have "take (length s2) (drop n bs) ! k = bs ! (n + k)" using k(1) assms(2) by simp
  then show False using k(2) assms(1) by simp
qed

lemma differ_at_Suc: "f 0 = b \<Longrightarrow> differ_at f (b # s2) (Suc k) \<longleftrightarrow> differ_at (\<lambda>j. f (Suc j)) s2 k"
  by (auto simp: differ_at_def less_Suc_eq_0_disj)

lemma pbuf_memcmp_loop_spec:
  assumes "\<And>j. j < length s2 \<Longrightarrow> pbuf_get_at q (start + word_of_nat (i + j)) = f j"
  shows "(pbuf_memcmp_loop q start i s2 = 0 \<and> (\<forall>j < length s2. f j = s2 ! j)) \<or>
    (\<exists>k. differ_at f s2 k \<and> pbuf_memcmp_loop q start i s2 = word_of_nat (min (i + k + 1) 0xFFFF))"
  using assms
proof (induction s2 arbitrary: i f)
  case (Cons b s2)
  have a: "pbuf_get_at q (start + word_of_nat i) = f 0" using Cons.prems [of 0] by simp
  show ?case
  proof (cases "f 0 = b")
    case False
    then have "differ_at f (b # s2) 0" by (simp add: differ_at_def)
    then show ?thesis using a False by (intro disjI2 exI [of _ 0]) (simp add: Let_def)
  next
    case True
    have l: "pbuf_memcmp_loop q start i (b # s2) = pbuf_memcmp_loop q start (Suc i) s2"
      using a True by (simp add: Let_def)
    have "pbuf_get_at q (start + word_of_nat (Suc i + j)) = f (Suc j)" if "j < length s2" for j
      using Cons.prems [of "Suc j"] that by simp
    from Cons.IH [of "Suc i", OF this]
    consider "pbuf_memcmp_loop q start (Suc i) s2 = 0" "\<forall>j < length s2. f (Suc j) = s2 ! j"
      | k where "differ_at (\<lambda>j. f (Suc j)) s2 k"
        "pbuf_memcmp_loop q start (Suc i) s2 = word_of_nat (min (Suc i + k + 1) 0xFFFF)" by blast
    then show ?thesis
    proof cases
      case 1
      then show ?thesis using l True by (auto simp: less_Suc_eq_0_disj)
    next
      case 2
      then show ?thesis using l differ_at_Suc [of f b, OF True] by (intro disjI2 exI [of _ "Suc k"]) simp
    qed
  qed
qed simp

lemma pbuf_memcmp_spec:
  assumes p: "packet_view vs"
  shows "if length (vbytes vs) < unat off + length s2 then pbuf_memcmp vs off s2 = 0xffff
    else (pbuf_memcmp vs off s2 = 0 \<and> take (length s2) (drop (unat off) (vbytes vs)) = s2) \<or>
      (\<exists>k. differ_at (\<lambda>j. vbytes vs ! (unat off + j)) s2 k \<and>
        pbuf_memcmp vs off s2 = word_of_nat (min (k + 1) 0xFFFF))"
proof (cases "length (vbytes vs) < unat off + length s2")
  case True
  then show ?thesis using p by (simp add: pbuf_memcmp_def packet_view_def)
next
  case False
  have tot: "unat (v_tot_len (hd vs)) = length (vbytes vs)" "views_ok vs" using p by (simp_all add: packet_view_def)
  obtain q r where s: "pbuf_skip_const vs off = (q, r)" by (metis surj_pair)
  note k = pbuf_skip_const_bytes [OF tot(2) s]
  have "length (vbytes vs) - unat off = length (vbytes q) - unat r"
    using k by (metis length_drop)
  then have lq: "s2 \<noteq> [] \<Longrightarrow> unat r + length s2 \<le> length (vbytes q)" using False by (cases s2) auto
  have get: "pbuf_get_at q (r + word_of_nat (0 + j)) = vbytes vs ! (unat off + j)" if "j < length s2" for j
  proof -
    have j: "unat r + j < length (vbytes q)" using lq that by (cases s2) auto
    have off: "unat off + j < 65536" "unat off + j < length (vbytes vs)"
      using False that tot(1) u16_lt [of "v_tot_len (hd vs)"] by simp_all
    have r: "unat r \<le> unat off" using k by simp
    have u: "unat (r + word_of_nat j) = unat r + j"
      using off(1) r by (simp add: unat_word_ariths unat_of_nat)
    have "drop (unat off) (vbytes vs) ! j = drop (unat r) (vbytes q) ! j" using k by simp
    then have "vbytes vs ! (unat off + j) = vbytes q ! (unat r + j)" using j off by simp
    then show ?thesis using pbuf_get_at_nth [of q "r + word_of_nat j"] k j u by simp
  qed
  have m: "pbuf_memcmp vs off s2 = pbuf_memcmp_loop q r 0 s2"
    using False tot by (simp add: pbuf_memcmp_def s)
  have "take (length s2) (drop (unat off) (vbytes vs)) = s2 \<longleftrightarrow>
      (\<forall>j < length s2. vbytes vs ! (unat off + j) = s2 ! j)"
    using False by (auto simp: list_eq_iff_nth_eq)
  then show ?thesis using False m pbuf_memcmp_loop_spec [of s2 q r 0, OF get] by auto
qed

text \<open>\<^verbatim>\<open>pbuf_memcmp\<close> is 0xffff for a packet that is too short and otherwise 0 exactly if the
  packet holds the buffer at the offset, and else one more than the index of the first byte that
  differs (at most 0xffff).\<close>

lemma pbuf_memcmp_first_difference:
  assumes "packet_view vs"
  shows "if length (vbytes vs) < unat off + length s2 then pbuf_memcmp vs off s2 = 0xffff
    else if take (length s2) (drop (unat off) (vbytes vs)) = s2 then pbuf_memcmp vs off s2 = 0
    else \<exists>k. differ_at (\<lambda>j. vbytes vs ! (unat off + j)) s2 k \<and>
      pbuf_memcmp vs off s2 = word_of_nat (min (k + 1) 0xFFFF)"
proof -
  have "\<not> differ_at (\<lambda>j. vbytes vs ! (unat off + j)) s2 k"
    if "take (length s2) (drop (unat off) (vbytes vs)) = s2" "unat off + length s2 \<le> length (vbytes vs)" for k
    using not_differ_at [OF that] .
  then show ?thesis using pbuf_memcmp_spec [OF assms, of off s2] by (auto simp: not_less)
qed

text \<open>\<open>found vs mem i\<close>: the packet holds \<open>mem\<close> at \<open>i\<close>.\<close>

definition found :: "pview list \<Rightarrow> u8 list \<Rightarrow> nat \<Rightarrow> bool" where
  "found vs mem i \<longleftrightarrow> i + length mem \<le> length (vbytes vs) \<and> take (length mem) (drop i (vbytes vs)) = mem"

lemma pbuf_memcmp_found:
  assumes "packet_view vs" "unat i + length mem \<le> length (vbytes vs)"
  shows "pbuf_memcmp vs i mem = 0 \<longleftrightarrow> found vs mem (unat i)"
proof -
  have "(word_of_nat (min (k + 1) 0xFFFF) :: u16) \<noteq> 0" for k :: nat
  proof -
    have "unat (word_of_nat (min (k + 1) 0xFFFF) :: u16) = min (k + 1) 0xFFFF" by (simp add: unat_of_nat min_def)
    then show ?thesis by (metis unat_0 min_def One_nat_def add_is_0 zero_neq_numeral nat.simps(3))
  qed
  then have nz: "(word_of_nat (min (k + 1) 0xFFFF) :: u16) = 0 \<longleftrightarrow> False" for k by blast
  have "\<not> differ_at (\<lambda>j. vbytes vs ! (unat i + j)) mem k" if "found vs mem (unat i)" for k
    using not_differ_at [of mem "unat i" "vbytes vs"] that by (simp add: found_def)
  then show ?thesis using pbuf_memcmp_spec [OF assms(1), of i mem] assms(2) nz
    by (auto simp: found_def)
qed

lemma pbuf_memfind_loop_spec:
  assumes p: "packet_view vs" and m: "mem \<noteq> []" "length mem + unat i \<le> length (vbytes vs)"
    and mx: "unat mx = length (vbytes vs) - length mem"
  shows "\<exists>r. pbuf_memfind_loop vs mem mx i = Some r \<and>
    (r = 0xFFFF \<and> (\<forall>j \<ge> unat i. \<not> found vs mem j) \<or>
     found vs mem (unat r) \<and> i \<le> r \<and> r \<le> mx \<and> (\<forall>j. unat i \<le> j \<and> j < unat r \<longrightarrow> \<not> found vs mem j))"
  using m(2)
proof (induction "unat mx - unat i" arbitrary: i rule: less_induct)
  case less
  have tot: "length (vbytes vs) < 65536" using p u16_lt [of "v_tot_len (hd vs)"] by (simp add: packet_view_def)
  have i: "i \<le> mx" using less.prems mx by (simp add: word_le_nat_alt)
  show ?case
  proof (cases "found vs mem (unat i)")
    case True
    then have "pbuf_memcmp vs i mem = 0" using pbuf_memcmp_found [OF p] less.prems by (simp add: add.commute)
    then show ?thesis using True i by (subst pbuf_memfind_loop.simps) (auto intro!: exI [of _ i])
  next
    case False
    then have "pbuf_memcmp vs i mem \<noteq> 0" using pbuf_memcmp_found [OF p] less.prems by (simp add: add.commute)
    then have step: "pbuf_memfind_loop vs mem mx i = pbuf_memfind_loop vs mem mx (i + 1)"
      using i by (subst pbuf_memfind_loop.simps) simp
    have "unat mx < 65535" using mx m(1) tot by (cases mem) auto
    then have i1: "unat (i + 1) = unat i + 1" using i by (simp add: unat_word_ariths word_le_nat_alt)
    have split: "(\<forall>j \<ge> unat i. \<not> found vs mem j) \<longleftrightarrow> (\<forall>j \<ge> unat i + 1. \<not> found vs mem j)"
      using False by (metis Suc_eq_plus1 Suc_leI le_neq_implies_less le_SucI le_trans le_add1)
    show ?thesis
    proof (cases "length mem + unat (i + 1) \<le> length (vbytes vs)")
      case True
      then have "unat mx - unat (i + 1) < unat mx - unat i" using i1 mx by simp
      from less.hyps [OF this True] obtain r where r: "pbuf_memfind_loop vs mem mx (i + 1) = Some r"
        "r = 0xFFFF \<and> (\<forall>j \<ge> unat i + 1. \<not> found vs mem j) \<or>
         found vs mem (unat r) \<and> i + 1 \<le> r \<and> r \<le> mx \<and> (\<forall>j. unat i + 1 \<le> j \<and> j < unat r \<longrightarrow> \<not> found vs mem j)"
        by (auto simp: i1)
      from r(2) show ?thesis
      proof
        assume "r = 0xFFFF \<and> (\<forall>j \<ge> unat i + 1. \<not> found vs mem j)"
        then show ?thesis using r(1) step split by auto
      next
        assume f: "found vs mem (unat r) \<and> i + 1 \<le> r \<and> r \<le> mx \<and>
          (\<forall>j. unat i + 1 \<le> j \<and> j < unat r \<longrightarrow> \<not> found vs mem j)"
        then have "i \<le> r" by (simp add: word_le_nat_alt i1)
        moreover have "\<not> found vs mem j" if "unat i \<le> j" "j < unat r" for j
          using f that False by (cases "j = unat i") auto
        ultimately show ?thesis using r(1) step f by auto
      qed
    next
      case no: False
      then have "\<not> i + 1 \<le> mx" using mx i1 by (auto simp: word_le_nat_alt)
      then have "pbuf_memfind_loop vs mem mx (i + 1) = Some 0xFFFF" by (subst pbuf_memfind_loop.simps) simp
      moreover have "\<forall>j \<ge> unat i + 1. \<not> found vs mem j" using no i1 by (auto simp: found_def)
      ultimately show ?thesis using step split by simp
    qed
  qed
qed

text \<open>For a non-empty buffer \<^verbatim>\<open>pbuf_memfind\<close> returns, with the first position from the start
  offset on at which the packet holds the buffer, and with 0xFFFF if there is none.\<close>

lemma pbuf_memfind_first:
  assumes "packet_view vs" and "mem \<noteq> []"
  shows "\<exists>r. pbuf_memfind vs mem start = Some r \<and>
    (r = 0xFFFF \<and> (\<forall>j \<ge> unat start. \<not> found vs mem j) \<or>
     found vs mem (unat r) \<and> unat start \<le> unat r \<and>
       (\<forall>j. unat start \<le> j \<and> j < unat r \<longrightarrow> \<not> found vs mem j))"
proof (cases "length mem + unat start \<le> length (vbytes vs)")
  case True
  have tot: "unat (v_tot_len (hd vs)) = length (vbytes vs)" using assms(1) by (simp add: packet_view_def)
  then have lm: "length mem < 65536" using True u16_lt [of "v_tot_len (hd vs)"] by simp
  then have "unat (word_of_nat (length mem) :: u16) = length mem" by (simp add: unat_of_nat)
  then have "unat (v_tot_len (hd vs) - word_of_nat (length mem)) = length (vbytes vs) - length mem"
    using True tot by (simp add: unat_diff_le word_le_nat_alt)
  from pbuf_memfind_loop_spec [OF assms True this] show ?thesis
    using True tot by (auto simp: pbuf_memfind_def word_le_nat_alt)
next
  case False
  then show ?thesis using assms(1) by (auto simp: pbuf_memfind_def packet_view_def found_def)
qed

end
