(* ===== verification/Pbuf_Chain.thy ===== *)
theory Pbuf_Chain
  imports Pbuf
begin

text \<open>
  Chains in the store: reference counting and freeing, allocation, truncation, concatenation,
  headers and writing. \<open>store_ok\<close> ties the table of pbufs to the two allocators through the
  \<open>allocator\<close> interface: every pbuf is a live element of the pool or the heap that its type names.
\<close>

section \<open>Chains and packets\<close>

fun is_chain :: "(pbuf_addr \<Rightarrow> pbuf option) \<Rightarrow> pbuf_addr option \<Rightarrow> pbuf_addr list \<Rightarrow> bool" where
  "is_chain m p [] \<longleftrightarrow> p = None"
| "is_chain m p (q # qs) \<longleftrightarrow> p = Some q \<and> (\<exists>b. m q = Some b \<and> is_chain m (p_next b) qs)"

definition total :: "(pbuf_addr \<Rightarrow> pbuf option) \<Rightarrow> pbuf_addr list \<Rightarrow> nat" where
  "total m ps = sum_list (map (\<lambda>p. case m p of None \<Rightarrow> 0 | Some b \<Rightarrow> unat (p_len b)) ps)"

text \<open>The documented invariant: \<^verbatim>\<open>p->tot_len == p->len + (p->next? p->next->tot_len: 0)\<close>.\<close>

fun packet :: "(pbuf_addr \<Rightarrow> pbuf option) \<Rightarrow> pbuf_addr list \<Rightarrow> bool" where
  "packet m [] \<longleftrightarrow> True"
| "packet m (p # ps) \<longleftrightarrow> (\<exists>b. m p = Some b \<and> unat (p_tot_len b) = unat (p_len b) + total m ps) \<and> packet m ps"

lemma total_simps [simp]:
  "total m [] = 0"
  "total m (p # ps) = (case m p of None \<Rightarrow> 0 | Some b \<Rightarrow> unat (p_len b)) + total m ps"
  "total m (ps @ qs) = total m ps + total m qs"
  by (simp_all add: total_def)

lemma is_chain_unique: "is_chain m p ps \<Longrightarrow> is_chain m p qs \<Longrightarrow> ps = qs"
proof (induction m p ps arbitrary: qs rule: is_chain.induct)
  case (1 m p)
  then show ?case by (cases qs) auto
next
  case (2 m p q ps)
  then show ?case by (cases qs) auto
qed

lemma is_chain_append:
  "is_chain m p (ps @ q # qs) \<Longrightarrow> is_chain m (Some q) (q # qs)"
  by (induction m p ps rule: is_chain.induct) auto

lemma is_chain_distinct: "is_chain m p ps \<Longrightarrow> distinct ps"
proof (induction m p ps rule: is_chain.induct)
  case (2 m p q qs)
  then obtain b where b: "m q = Some b" "is_chain m (p_next b) qs" by auto
  have "q \<notin> set qs"
  proof
    assume "q \<in> set qs"
    then obtain xs ys where "qs = xs @ q # ys" by (meson split_list)
    then have "is_chain m (Some q) (q # ys)" using b(2) is_chain_append by blast
    moreover have "is_chain m (Some q) (q # qs)" using b by simp
    ultimately have "ys = qs" using is_chain_unique by blast
    then show False using \<open>qs = xs @ q # ys\<close> by (metis append_eq_conv_conj length_append list.size(4)
          length_Cons add_Suc_right not_add_less2 lessI)
  qed
  then show ?case using 2 b by auto
qed simp

lemma is_chain_frame:
  "is_chain m p ps \<Longrightarrow> (\<And>a. a \<in> set ps \<Longrightarrow> m' a = m a) \<Longrightarrow> is_chain m' p ps"
  by (induction m p ps rule: is_chain.induct) auto

lemma total_frame: "(\<And>a. a \<in> set ps \<Longrightarrow> map_option p_len (m' a) = map_option p_len (m a)) \<Longrightarrow> total m' ps = total m ps"
proof (induction ps)
  case (Cons p ps)
  have "map_option p_len (m' p) = map_option p_len (m p)" using Cons.prems by simp
  then have "(case m' p of None \<Rightarrow> 0 | Some b \<Rightarrow> unat (p_len b)) =
      (case m p of None \<Rightarrow> 0 | Some b \<Rightarrow> unat (p_len b))"
    by (cases "m' p"; cases "m p") auto
  then show ?case using Cons by simp
qed simp

lemma packet_frame:
  "packet m ps \<Longrightarrow> (\<And>a. a \<in> set ps \<Longrightarrow> m' a = m a) \<Longrightarrow> packet m' ps"
proof (induction ps)
  case (Cons p ps)
  then show ?case using total_frame [of ps m' m] by auto
qed simp

section \<open>The store and its allocators\<close>

fun pbuf_backed :: "(memp_t \<Rightarrow> memp_desc) \<Rightarrow> pbufs \<Rightarrow> pbuf_addr \<Rightarrow> pbuf \<Rightarrow> bool" where
  "pbuf_backed descs s (Heap_pbuf a) b \<longleftrightarrow>
     a \<in> mem_live (pbuf_heap s) \<and> pbuf_get_allocsrc b = PBUF_TYPE_ALLOC_SRC_MASK_STD_HEAP"
| "pbuf_backed descs s (Memp_pbuf t e) b \<longleftrightarrow>
     (t, e) \<in> memp_live descs (pbuf_pools s) \<and>
     (t = MEMP_PBUF \<and> pbuf_get_allocsrc b = PBUF_TYPE_ALLOC_SRC_MASK_STD_MEMP_PBUF \<or>
      t = MEMP_PBUF_POOL \<and> pbuf_get_allocsrc b = PBUF_TYPE_ALLOC_SRC_MASK_STD_MEMP_PBUF_POOL \<or>
      t = MEMP_FRAG_PBUF \<and> p_flags b AND PBUF_FLAG_IS_CUSTOM \<noteq> 0)"

definition store_ok :: "(memp_t \<Rightarrow> memp_desc) \<Rightarrow> pbufs \<Rightarrow> bool" where
  "store_ok descs s \<longleftrightarrow> mem_ok (pbuf_heap s) \<and> memp_ok descs (pbuf_pools s) \<and>
     (\<forall>a b. pbuf_tab s a = Some b \<longrightarrow> pbuf_backed descs s a b)"

text \<open>All memory that the heap and the pools have given out and not got back, whatever it is used for.\<close>

definition store_live :: "(memp_t \<Rightarrow> memp_desc) \<Rightarrow> pbufs \<Rightarrow> pbuf_addr set" where
  "store_live descs s =
     Heap_pbuf ` mem_live (pbuf_heap s) \<union> (\<lambda>(t, e). Memp_pbuf t e) ` memp_live descs (pbuf_pools s)"

lemma store_live_simps [simp]:
  "Heap_pbuf a \<in> store_live descs s \<longleftrightarrow> a \<in> mem_live (pbuf_heap s)"
  "Memp_pbuf t e \<in> store_live descs s \<longleftrightarrow> (t, e) \<in> memp_live descs (pbuf_pools s)"
  by (auto simp: store_live_def)

lemma store_live_same: "pbuf_heap s' = pbuf_heap s \<Longrightarrow> pbuf_pools s' = pbuf_pools s \<Longrightarrow> store_live descs s' = store_live descs s"
  by (simp add: store_live_def)

lemma store_liveI:
  assumes "\<And>a. a \<in> mem_live (pbuf_heap s') \<longleftrightarrow> a \<in> mem_live (pbuf_heap s) \<and> Heap_pbuf a \<notin> P"
    and "\<And>t e. (t, e) \<in> memp_live descs (pbuf_pools s') \<longleftrightarrow> (t, e) \<in> memp_live descs (pbuf_pools s) \<and> Memp_pbuf t e \<notin> P"
  shows "store_live descs s' = store_live descs s - P"
proof (rule set_eqI)
  fix a show "a \<in> store_live descs s' \<longleftrightarrow> a \<in> store_live descs s - P" using assms by (cases a) simp_all
qed

definition plain :: "pbuf \<Rightarrow> bool" where
  "plain b \<longleftrightarrow> p_flags b AND PBUF_FLAG_IS_CUSTOM = 0"

lemma store_ok_backed: "store_ok descs s \<Longrightarrow> pbuf_tab s a = Some b \<Longrightarrow> pbuf_backed descs s a b"
  by (simp add: store_ok_def)

text \<open>Fields that the memory of a pbuf does not depend on.\<close>

lemma pbuf_backed_cong:
  "p_type_internal b' = p_type_internal b \<Longrightarrow> p_flags b' = p_flags b \<Longrightarrow> pbuf_heap s' = pbuf_heap s \<Longrightarrow>
     pbuf_pools s' = pbuf_pools s \<Longrightarrow> pbuf_backed descs s' a b' = pbuf_backed descs s a b"
  by (cases a) (simp_all add: pbuf_get_allocsrc_def)

lemma store_ok_update:
  assumes "store_ok descs s" "pbuf_tab s a = Some b"
    and "p_type_internal b' = p_type_internal b" "p_flags b' = p_flags b"
  shows "store_ok descs (s\<lparr>pbuf_tab := (pbuf_tab s)(a \<mapsto> b')\<rparr>)"
proof -
  define s' where "s' = s\<lparr>pbuf_tab := (pbuf_tab s)(a \<mapsto> b')\<rparr>"
  have f: "pbuf_heap s' = pbuf_heap s" "pbuf_pools s' = pbuf_pools s" by (simp_all add: s'_def)
  have "pbuf_backed descs s' q c" if "pbuf_tab s' q = Some c" for q c
  proof (cases "q = a")
    case True
    then have "pbuf_backed descs s q b" "c = b'" using that assms(1,2) by (auto simp: s'_def store_ok_def)
    then show ?thesis using pbuf_backed_cong [OF assms(3,4) f] by simp
  next
    case False
    then have "pbuf_backed descs s q c" using that assms(1) by (simp add: s'_def store_ok_def)
    then show ?thesis using pbuf_backed_cong [OF refl refl f] by simp
  qed
  then show ?thesis using assms(1) f by (simp add: store_ok_def s'_def [symmetric])
qed

lemma pbuf_dealloc_ok:
  assumes ok: "store_ok descs s" and a: "pbuf_tab s a = Some b" and plain: "plain b"
  shows "\<exists>s'. pbuf_dealloc a b s = Some s' \<and> store_ok descs s' \<and>
    pbuf_tab s' = (pbuf_tab s)(a := None) \<and> pbuf_mem s' = pbuf_mem s \<and> store_live descs s' = store_live descs s - {a}"
proof -
  have mem: "mem_ok (pbuf_heap s)" and pools: "memp_ok descs (pbuf_pools s)" using ok by (simp_all add: store_ok_def)
  have bk: "pbuf_backed descs s a b" using ok a by (rule store_ok_backed)
  show ?thesis
  proof (cases a)
    case (Heap_pbuf p)
    then have l: "p \<in> mem_live (pbuf_heap s)" "pbuf_get_allocsrc b = PBUF_TYPE_ALLOC_SRC_MASK_STD_HEAP"
      using bk by simp_all
    obtain hp where hp: "mem_free (Some p) (pbuf_heap s) = Some hp" "mem_ok hp"
      "mem_live hp = mem_live (pbuf_heap s) - {p}"
      using mem.free_live [OF mem l(1)] by blast
    define s' where "s' = remove_pbuf a (s\<lparr>pbuf_heap := hp\<rparr>)"
    have "pbuf_backed descs s' q c" if "pbuf_tab s' q = Some c" for q c
      using that store_ok_backed [OF ok, of q c] hp(3)
      by (cases q) (auto simp: s'_def remove_pbuf_def Heap_pbuf split: if_splits)
    then have "store_ok descs s'" using hp pools by (simp add: store_ok_def s'_def remove_pbuf_def)
    moreover have "pbuf_dealloc a b s = Some s'"
      using l hp(1) by (simp add: pbuf_dealloc_def Heap_pbuf s'_def pbuf_bits)
    moreover have "store_live descs s' = store_live descs s - {a}"
      by (rule store_liveI) (simp_all add: s'_def remove_pbuf_def hp(3) Heap_pbuf)
    ultimately show ?thesis by (simp add: s'_def remove_pbuf_def)
  next
    case (Memp_pbuf t e)
    have l: "(t, e) \<in> memp_live descs (pbuf_pools s)"
      and t: "t = MEMP_PBUF \<and> pbuf_get_allocsrc b = PBUF_TYPE_ALLOC_SRC_MASK_STD_MEMP_PBUF \<or>
        t = MEMP_PBUF_POOL \<and> pbuf_get_allocsrc b = PBUF_TYPE_ALLOC_SRC_MASK_STD_MEMP_PBUF_POOL"
      using bk plain by (auto simp: Memp_pbuf plain_def)
    define pl where "pl = memp_free t (Some e) (pbuf_pools s)"
    have pl: "memp_ok descs pl" "memp_live descs pl = memp_live descs (pbuf_pools s) - {(t, e)}"
      using memp.free_live [OF pools l] by (simp_all add: pool_free_def pl_def)
    define s' where "s' = remove_pbuf a (s\<lparr>pbuf_pools := pl\<rparr>)"
    have "pbuf_backed descs s' q c" if "pbuf_tab s' q = Some c" for q c
      using that store_ok_backed [OF ok, of q c] pl(2)
      by (cases q) (auto simp: s'_def remove_pbuf_def Memp_pbuf split: if_splits)
    then have "store_ok descs s'" using pl mem by (simp add: store_ok_def s'_def remove_pbuf_def)
    moreover have "pbuf_dealloc a b s = Some s'"
      using t by (auto simp: pbuf_dealloc_def Memp_pbuf s'_def pl_def pbuf_bits)
    moreover have "store_live descs s' = store_live descs s - {a}"
      by (rule store_liveI) (simp_all add: s'_def remove_pbuf_def pl(2) Memp_pbuf)
    ultimately show ?thesis by (simp add: s'_def remove_pbuf_def)
  qed
qed


section \<open>Freeing\<close>

text \<open>The pbufs at the head of a chain that have one reference, and the table without them.\<close>

fun free_count :: "(pbuf_addr \<Rightarrow> pbuf option) \<Rightarrow> pbuf_addr list \<Rightarrow> nat" where
  "free_count m [] = 0"
| "free_count m (p # ps) =
     (case m p of None \<Rightarrow> 0 | Some b \<Rightarrow> if p_ref b = 1 then Suc (free_count m ps) else 0)"

definition freed_tab :: "(pbuf_addr \<Rightarrow> pbuf option) \<Rightarrow> pbuf_addr list \<Rightarrow> pbuf_addr \<Rightarrow> pbuf option" where
  "freed_tab m ps a =
     (let k = free_count m ps
      in if a \<in> set (take k ps) then None
         else if k < length ps \<and> a = ps ! k then map_option (\<lambda>b. b\<lparr>p_ref := p_ref b - 1\<rparr>) (m a)
         else m a)"

definition chain_refs_ok :: "(pbuf_addr \<Rightarrow> pbuf option) \<Rightarrow> pbuf_addr list \<Rightarrow> bool" where
  "chain_refs_ok m ps \<longleftrightarrow> (\<forall>q \<in> set ps. \<exists>b. m q = Some b \<and> plain b \<and> p_ref b > 0)"

lemma free_count_le: "free_count m ps \<le> length ps"
  by (induction ps) (auto split: option.splits)

lemma free_count_frame: "(\<And>a. a \<in> set ps \<Longrightarrow> m' a = m a) \<Longrightarrow> free_count m' ps = free_count m ps"
  by (induction ps) (auto split: option.splits)

lemma freed_tab_Cons:
  assumes "q \<notin> set qs" "m q = Some b" "p_ref b = 1"
  shows "freed_tab m (q # qs) = freed_tab (m(q := None)) qs"
proof
  fix a
  have fc: "free_count (m(q := None)) qs = free_count m qs"
    by (rule free_count_frame) (use assms(1) in auto)
  have k: "free_count m (q # qs) = Suc (free_count m qs)" using assms by simp
  show "freed_tab m (q # qs) a = freed_tab (m(q := None)) qs a"
  proof (cases "a = q")
    case True
    then have "a \<notin> set (take (free_count m qs) qs)" "\<not> (free_count m qs < length qs \<and> a = qs ! free_count m qs)"
      using assms(1) in_set_takeD nth_mem by (fast, auto)
    then show ?thesis using True unfolding freed_tab_def k fc Let_def by simp
  next
    case False
    then show ?thesis unfolding freed_tab_def k fc Let_def by simp
  qed
qed

lemma pbuf_free_loop_chain:
  assumes "store_ok descs s" "is_chain (pbuf_tab s) p ps" "chain_refs_ok (pbuf_tab s) ps"
  shows "\<exists>s'. pbuf_free_loop p c s = Some (c + word_of_nat (free_count (pbuf_tab s) ps), s') \<and>
    store_ok descs s' \<and> pbuf_mem s' = pbuf_mem s \<and> pbuf_tab s' = freed_tab (pbuf_tab s) ps \<and>
    store_live descs s' = store_live descs s - set (take (free_count (pbuf_tab s) ps) ps)"
  using assms
proof (induction ps arbitrary: p c s)
  case Nil
  then show ?case by (subst pbuf_free_loop.simps) (auto simp: freed_tab_def fun_eq_iff)
next
  case (Cons q qs)
  let ?m = "pbuf_tab s"
  obtain b where b: "?m q = Some b" "plain b" "p_ref b > 0" "is_chain ?m (p_next b) qs" and p: "p = Some q"
    using Cons.prems by (auto simp: chain_refs_ok_def)
  have nin: "q \<notin> set qs" using is_chain_distinct [OF Cons.prems(2)] by simp
  define b' where "b' = b\<lparr>p_ref := p_ref b - 1\<rparr>"
  define s1 where "s1 = s\<lparr>pbuf_tab := ?m(q \<mapsto> b')\<rparr>"
  have ok1: "store_ok descs s1" unfolding s1_def
    by (rule store_ok_update [OF Cons.prems(1) b(1)]) (simp_all add: b'_def)
  show ?case
  proof (cases "p_ref b = 1")
    case False
    then have "p_ref b - 1 \<noteq> 0" by (metis eq_iff_diff_eq_0)
    then have "pbuf_free_loop p c s = Some (c, s1)"
      using b p by (subst pbuf_free_loop.simps) (simp add: Let_def b'_def s1_def)
    moreover have "pbuf_tab s1 = freed_tab ?m (q # qs)"
      using b False by (auto simp: freed_tab_def s1_def b'_def fun_eq_iff)
    moreover have "store_live descs s1 = store_live descs s" by (rule store_live_same) (simp_all add: s1_def)
    ultimately show ?thesis using ok1 b False by (simp add: s1_def)
  next
    case True
    have "plain b'" "pbuf_tab s1 q = Some b'" using b(2) by (simp_all add: plain_def b'_def s1_def)
    then obtain s2 where s2: "pbuf_dealloc q b' s1 = Some s2" "store_ok descs s2"
      "pbuf_tab s2 = (pbuf_tab s1)(q := None)" "pbuf_mem s2 = pbuf_mem s1" "store_live descs s2 = store_live descs s1 - {q}"
      using pbuf_dealloc_ok [OF ok1] by blast
    have t2: "pbuf_tab s2 = ?m(q := None)" using s2(3) by (simp add: s1_def)
    have same: "pbuf_tab s2 a = ?m a" if "a \<in> set qs" for a using that nin by (auto simp: t2)
    have "is_chain (pbuf_tab s2) (p_next b) qs" by (rule is_chain_frame [OF b(4) same])
    moreover have "chain_refs_ok (pbuf_tab s2) qs"
      using Cons.prems(3) same by (simp add: chain_refs_ok_def)
    ultimately obtain s3 where s3: "pbuf_free_loop (p_next b) (c + 1) s2 =
        Some (c + 1 + word_of_nat (free_count (pbuf_tab s2) qs), s3)"
      "store_ok descs s3" "pbuf_mem s3 = pbuf_mem s2" "pbuf_tab s3 = freed_tab (pbuf_tab s2) qs"
      "store_live descs s3 = store_live descs s2 - set (take (free_count (pbuf_tab s2) qs) qs)"
      using Cons.IH [OF s2(2)] by blast
    have fc: "free_count (pbuf_tab s2) qs = free_count ?m qs" by (rule free_count_frame [OF same])
    have "pbuf_free_loop p c s = pbuf_free_loop (p_next b) (c + 1) s2"
      using b p True s2(1) by (subst pbuf_free_loop.simps) (simp add: Let_def b'_def s1_def plain_def)
    moreover have "pbuf_tab s3 = freed_tab ?m (q # qs)"
      using freed_tab_Cons [where m = ?m, OF nin b(1) True] s3(4) by (simp add: t2)
    moreover have "store_live descs s1 = store_live descs s" by (rule store_live_same) (simp_all add: s1_def)
    then have "store_live descs s3 = store_live descs s - set (take (free_count ?m (q # qs)) (q # qs))"
      using s3(5) s2(5) b(1) True fc by auto
    ultimately show ?thesis using s3 s2(4) b(1) True fc by (simp add: s1_def add.assoc)
  qed
qed

text \<open>C25: \<^verbatim>\<open>pbuf_free\<close> of a chain whose pbufs are all referenced returns. It frees exactly the pbufs at
  the head that had one reference: they are gone from the table, and their memory, and no other, is given back to the heap and the pools. It takes one
  reference from the pbuf at which it stops, leaves all others and every byte alone and returns the number of freed pbufs as a
  byte, so modulo 256.\<close>

theorem pbuf_free_chain:
  assumes "store_ok descs s" and "is_chain (pbuf_tab s) (Some p) ps" and "chain_refs_ok (pbuf_tab s) ps"
  shows "\<exists>s'. pbuf_free (Some p) s = Some (word_of_nat (free_count (pbuf_tab s) ps), s') \<and>
    store_ok descs s' \<and> pbuf_mem s' = pbuf_mem s \<and> pbuf_tab s' = freed_tab (pbuf_tab s) ps \<and>
    store_live descs s' = store_live descs s - set (take (free_count (pbuf_tab s) ps) ps)"
  using pbuf_free_loop_chain [OF assms, of 0] by (simp add: pbuf_free_def)


section \<open>Allocating\<close>

text \<open>
  \<open>new_chain m m' ps r\<close>: the chain \<open>ps\<close> is new in \<open>m'\<close>, has one reference each, and its \<^verbatim>\<open>tot_len\<close>
  fields count the lengths behind and \<open>r\<close> more bytes that are still to be allocated.
\<close>

fun packet_rest :: "(pbuf_addr \<Rightarrow> pbuf option) \<Rightarrow> nat \<Rightarrow> pbuf_addr list \<Rightarrow> bool" where
  "packet_rest m r [] \<longleftrightarrow> True"
| "packet_rest m r (p # ps) \<longleftrightarrow>
     (\<exists>b. m p = Some b \<and> unat (p_tot_len b) = unat (p_len b) + total m ps + r) \<and> packet_rest m r ps"

definition new_chain ::
  "(pbuf_addr \<Rightarrow> pbuf option) \<Rightarrow> (pbuf_addr \<Rightarrow> pbuf option) \<Rightarrow> pbuf_addr list \<Rightarrow> nat \<Rightarrow> bool" where
  "new_chain m m' ps r \<longleftrightarrow> packet_rest m' r ps \<and>
     (\<forall>q \<in> set ps. m q = None \<and> (\<exists>b. m' q = Some b \<and> plain b \<and> p_ref b = 1)) \<and>
     (\<forall>a. a \<notin> set ps \<longrightarrow> m' a = m a)"

lemma packet_rest_0: "packet_rest m 0 ps \<longleftrightarrow> packet m ps"
  by (induction ps) auto

lemma packet_rest_frame:
  "packet_rest m r ps \<Longrightarrow> (\<And>a. a \<in> set ps \<Longrightarrow> m' a = m a) \<Longrightarrow> packet_rest m' r ps"
proof (induction ps)
  case (Cons p ps)
  then show ?case using total_frame [of ps m' m] by auto
qed simp

lemma packet_rest_snoc:
  "packet_rest m r ps \<Longrightarrow> m q = Some b \<Longrightarrow> unat (p_tot_len b) = unat (p_len b) + r' \<Longrightarrow>
     r = unat (p_len b) + r' \<Longrightarrow> packet_rest m r' (ps @ [q])"
  by (induction ps) auto

lemma free_count_all: "\<forall>q \<in> set ps. \<exists>b. m q = Some b \<and> p_ref b = 1 \<Longrightarrow> free_count m ps = length ps"
  by (induction ps) auto

lemma freed_tab_all:
  "\<forall>q \<in> set ps. \<exists>b. m q = Some b \<and> p_ref b = 1 \<Longrightarrow> freed_tab m ps = (\<lambda>a. if a \<in> set ps then None else m a)"
  by (auto simp: freed_tab_def free_count_all fun_eq_iff)

lemma pbuf_free_new_chain:
  assumes "store_ok descs s" "is_chain (pbuf_tab s) (Some p) ps" "new_chain m (pbuf_tab s) ps r"
  shows "\<exists>c s'. pbuf_free (Some p) s = Some (c, s') \<and> store_ok descs s' \<and> pbuf_tab s' = m"
proof -
  have refs: "\<forall>q \<in> set ps. \<exists>b. pbuf_tab s q = Some b \<and> plain b \<and> p_ref b = 1"
    using assms(3) by (auto simp: new_chain_def)
  then have "chain_refs_ok (pbuf_tab s) ps" by (fastforce simp: chain_refs_ok_def)
  then obtain s' where "pbuf_free (Some p) s = Some (word_of_nat (free_count (pbuf_tab s) ps), s')"
    "store_ok descs s'" "pbuf_tab s' = freed_tab (pbuf_tab s) ps"
    using pbuf_free_loop_chain [OF assms(1,2), of 0] by (auto simp: pbuf_free_def)
  moreover have "freed_tab (pbuf_tab s) ps = m"
    using refs assms(3) by (subst freed_tab_all) (auto simp: new_chain_def fun_eq_iff)
  ultimately show ?thesis by blast
qed

text \<open>A new element of a pool or of the heap becomes a pbuf.\<close>

definition new_pbuf :: "(block \<times> int) option \<Rightarrow> u16 \<Rightarrow> u16 \<Rightarrow> pbuf_type \<Rightarrow> pbuf" where
  "new_pbuf payload tot_len len type =
     \<lparr>p_next = None, p_payload = payload, p_tot_len = tot_len, p_len = len,
      p_type_internal = type_bits type, p_flags = 0, p_ref = 1, p_if_idx = NETIF_NO_INDEX, p_original = None\<rparr>"

lemma pbuf_init_new: "pbuf_init_alloced_pbuf p payload tot len type 0 s =
    s\<lparr>pbuf_tab := (pbuf_tab s)(p \<mapsto> new_pbuf payload tot len type)\<rparr>"
  by (simp add: pbuf_init_alloced_pbuf_def new_pbuf_def)

lemma new_pbuf_fields [simp]:
  "p_next (new_pbuf payload tot len type) = None" "p_tot_len (new_pbuf payload tot len type) = tot"
  "p_len (new_pbuf payload tot len type) = len" "p_ref (new_pbuf payload tot len type) = 1"
  "plain (new_pbuf payload tot len type)" "p_payload (new_pbuf payload tot len type) = payload"
  by (simp_all add: new_pbuf_def plain_def)

lemma store_ok_new_memp:
  assumes ok: "store_ok descs s" and alloc: "memp_malloc t (pbuf_pools s) = (Some e, pl)"
    and t: "t = MEMP_PBUF \<and> (type = PBUF_REF \<or> type = PBUF_ROM) \<or> t = MEMP_PBUF_POOL \<and> type = PBUF_POOL"
    and s': "pbuf_tab s' = (pbuf_tab s)(Memp_pbuf t e \<mapsto> new_pbuf payload tot len type)"
      "pbuf_heap s' = pbuf_heap s" "pbuf_pools s' = pl"
  shows "store_ok descs s'" and "pbuf_tab s (Memp_pbuf t e) = None"
proof -
  have pools: "memp_ok descs (pbuf_pools s)" using ok by (simp add: store_ok_def)
  have pa: "pool_alloc t (pbuf_pools s) = Some (Some (t, e), pl)" using alloc by (simp add: pool_alloc_def)
  have pl: "memp_ok descs pl" "(t, e) \<notin> memp_live descs (pbuf_pools s)"
    "memp_live descs pl = insert (t, e) (memp_live descs (pbuf_pools s))"
    using memp.alloc_wf [OF pools _ pa] memp.alloc_fresh [OF pools _ pa] by auto
  show "pbuf_tab s (Memp_pbuf t e) = None"
    using pl(2) store_ok_backed [OF ok, of "Memp_pbuf t e"] by (cases "pbuf_tab s (Memp_pbuf t e)") auto
  have "pbuf_backed descs s' q c" if "pbuf_tab s' q = Some c" for q c
  proof (cases "q = Memp_pbuf t e")
    case True
    then have c: "c = new_pbuf payload tot len type" using that s'(1) by simp
    show ?thesis using t
      by (elim disjE conjE) (simp_all add: c True s'(2,3) pl(3) pbuf_get_allocsrc_def new_pbuf_def pbuf_bits)
  next
    case False
    then have "pbuf_tab s q = Some c" using that s'(1) by simp
    then have "pbuf_backed descs s q c" by (rule store_ok_backed [OF ok])
    then show ?thesis using False by (cases q) (auto simp: s'(2,3) pl(3))
  qed
  then show "store_ok descs s'" using pl(1) ok s' by (simp add: store_ok_def)
qed

lemma store_ok_new_heap:
  assumes ok: "store_ok descs s" and alloc: "mem_malloc n (pbuf_heap s) = Some (Some a, hp)" and n: "0 < n" "n < 2 ^ 32"
    and s': "pbuf_tab s' = (pbuf_tab s)(Heap_pbuf a \<mapsto> new_pbuf payload tot len PBUF_RAM)"
      "pbuf_heap s' = hp" "pbuf_pools s' = pbuf_pools s"
  shows "store_ok descs s'" and "pbuf_tab s (Heap_pbuf a) = None"
proof -
  have mem: "mem_ok (pbuf_heap s)" using ok by (simp add: store_ok_def)
  have hp: "mem_ok hp" "a \<notin> mem_live (pbuf_heap s)" "mem_live hp = insert a (mem_live (pbuf_heap s))"
    using mem.alloc_wf [OF mem _ alloc] mem.alloc_fresh [OF mem _ alloc] n by auto
  show "pbuf_tab s (Heap_pbuf a) = None"
    using hp(2) store_ok_backed [OF ok, of "Heap_pbuf a"] by (cases "pbuf_tab s (Heap_pbuf a)") auto
  have "pbuf_backed descs s' q c" if "pbuf_tab s' q = Some c" for q c
  proof (cases "q = Heap_pbuf a")
    case True
    then have "c = new_pbuf payload tot len PBUF_RAM" using that s'(1) by simp
    then show ?thesis by (simp add: True s'(2,3) hp(3) pbuf_get_allocsrc_def new_pbuf_def pbuf_bits)
  next
    case False
    then have "pbuf_tab s q = Some c" using that s'(1) by simp
    then have "pbuf_backed descs s q c" by (rule store_ok_backed [OF ok])
    then show ?thesis using False by (cases q) (auto simp: s'(2,3) hp(3))
  qed
  then show "store_ok descs s'" using hp(1) ok s' by (simp add: store_ok_def)
qed


lemma is_chain_snoc:
  assumes "is_chain m p ps" "ps = [] \<Longrightarrow> p' = Some q" "ps \<noteq> [] \<Longrightarrow> p' = p"
    and "m' q = Some b" "p_next b = None" "q \<notin> set ps"
    and "\<And>a. a \<in> set ps \<Longrightarrow> a \<noteq> last ps \<Longrightarrow> m' a = m a"
    and "ps \<noteq> [] \<Longrightarrow> m' (last ps) = map_option (\<lambda>b. b\<lparr>p_next := Some q\<rparr>) (m (last ps))"
  shows "is_chain m' p' (ps @ [q])"
  using assms
proof (induction m p ps arbitrary: p' rule: is_chain.induct)
  case (2 m p x xs)
  obtain b0 where b0: "p = Some x" "m x = Some b0" "is_chain m (p_next b0) xs" using "2.prems"(1) by auto
  show ?case
  proof (cases "xs = []")
    case True
    then show ?thesis using 2 b0 by auto
  next
    case False
    have x: "x \<notin> set xs" using is_chain_distinct [OF "2.prems"(1)] by simp
    then have "x \<noteq> last xs" using False last_in_set by metis
    then have "m' x = Some b0" using "2.prems"(7) [of x] False b0 by simp
    moreover have "is_chain m' (p_next b0) (xs @ [q])"
      using 2 b0 False by (intro "2.IH") auto
    ultimately show ?thesis using "2.prems"(3) b0 by simp
  qed
qed auto

text \<open>One round of the loop for \<^verbatim>\<open>PBUF_POOL\<close>: the chain grows by one pbuf.\<close>

lemma new_chain_snoc:
  assumes c: "is_chain m p ps" and n: "new_chain m0 m ps (unat rem_len)"
    and q: "m q = None" and le: "qlen \<le> rem_len"
    and m': "m' = (if ps = [] then m else m(last ps := map_option (\<lambda>b. b\<lparr>p_next := Some q\<rparr>) (m (last ps))))
      (q \<mapsto> new_pbuf payload rem_len qlen type)"
    and p': "p' = (if ps = [] then Some q else p)"
  shows "is_chain m' p' (ps @ [q])" "new_chain m0 m' (ps @ [q]) (unat (rem_len - qlen))"
    "total m' (ps @ [q]) = total m ps + unat qlen"
proof -
  have qn: "q \<notin> set ps" using n q by (auto simp: new_chain_def)
  have q0: "m0 q = None" using n qn q by (simp add: new_chain_def)
  show "is_chain m' p' (ps @ [q])"
    by (rule is_chain_snoc [OF c, where b = "new_pbuf payload rem_len qlen type"])
      (use qn m' p' last_in_set [of ps] in auto)
  have same: "map_option p_len (m' a) = map_option p_len (m a)"
      "map_option p_tot_len (m' a) = map_option p_tot_len (m a)"
      "map_option (\<lambda>b. (plain b, p_ref b)) (m' a) = map_option (\<lambda>b. (plain b, p_ref b)) (m a)"
    if "a \<noteq> q" for a
    using that by (auto simp: m' plain_def option.map_comp o_def)
  have tot: "total m' ps = total m ps"
  proof (rule total_frame)
    fix a assume "a \<in> set ps"
    then have "a \<noteq> q" using qn by auto
    then show "map_option p_len (m' a) = map_option p_len (m a)" by (rule same(1))
  qed
  show "total m' (ps @ [q]) = total m ps + unat qlen" by (simp add: tot) (simp add: m')
  have rem: "unat (rem_len - qlen) = unat rem_len - unat qlen" using le by (simp add: unat_diff_le)
  have pr: "packet_rest m' (unat rem_len) xs" if "packet_rest m (unat rem_len) xs" "set xs \<subseteq> set ps" for xs
    using that
  proof (induction xs)
    case (Cons x xs)
    obtain b where b: "m x = Some b" "unat (p_tot_len b) = unat (p_len b) + total m xs + unat rem_len"
      using Cons.prems by auto
    have xq: "x \<noteq> q" "\<And>a. a \<in> set xs \<Longrightarrow> a \<noteq> q" using Cons.prems qn by auto
    from xq(1) obtain b' where "m' x = Some b'" "p_len b' = p_len b" "p_tot_len b' = p_tot_len b"
      using same(1,2) [of x] b(1) by auto
    moreover have "total m' xs = total m xs" by (rule total_frame, rule same(1), rule xq(2))
    ultimately show ?case using b Cons by simp
  qed simp
  have "packet_rest m' (unat (rem_len - qlen)) (ps @ [q])"
    using n by (intro packet_rest_snoc [OF pr, of ps]) (auto simp: new_chain_def m' rem word_le_nat_alt [THEN iffD1, OF le])
  moreover have "\<exists>b. m' a = Some b \<and> plain b \<and> p_ref b = 1" if "a \<in> set ps" for a
  proof -
    have "\<exists>b. m a = Some b \<and> plain b \<and> p_ref b = 1" using n that by (simp add: new_chain_def)
    then obtain b where "m a = Some b" "plain b" "p_ref b = 1" by blast
    then show ?thesis using same(3) [of a] that qn by auto
  qed
  moreover have "m' a = m0 a" if "a \<notin> set (ps @ [q])" for a
    using that n last_in_set [of ps] by (auto simp: m' new_chain_def)
  ultimately show "new_chain m0 m' (ps @ [q]) (unat (rem_len - qlen))"
    using n q0 qn by (auto simp: new_chain_def m')
qed


text \<open>What an allocation returns: nothing and no new pbuf, or a new packet of the length asked for.\<close>

definition alloc_result ::
  "(memp_t \<Rightarrow> memp_desc) \<Rightarrow> (pbuf_addr \<Rightarrow> pbuf option) \<Rightarrow> nat \<Rightarrow> pbuf_addr option \<Rightarrow> pbufs \<Rightarrow> bool" where
  "alloc_result descs m n r s' \<longleftrightarrow> store_ok descs s' \<and>
     (case r of None \<Rightarrow> pbuf_tab s' = m
      | Some p \<Rightarrow> \<exists>ps. is_chain (pbuf_tab s') (Some p) ps \<and> new_chain m (pbuf_tab s') ps 0 \<and>
          total (pbuf_tab s') ps = n)"

lemma fresh_block_tab [simp]:
  "pbuf_tab (fresh_block p n s) = pbuf_tab s" "pbuf_heap (fresh_block p n s) = pbuf_heap s"
  "pbuf_pools (fresh_block p n s) = pbuf_pools s"
  by (simp_all add: fresh_block_def)

lemma pool_bufsize: "offset \<le> 74 \<Longrightarrow> 0 < PBUF_POOL_BUFSIZE_ALIGNED - LWIP_MEM_ALIGN_SIZE offset"
  "PBUF_POOL_BUFSIZE_ALIGNED - LWIP_MEM_ALIGN_SIZE offset < 2 ^ 16"
  by (simp_all add: PBUF_POOL_BUFSIZE_ALIGNED_def LWIP_MEM_ALIGN_SIZE_def MEM_ALIGNMENT_def)

lemma store_ok_pools:
  "store_ok descs s \<Longrightarrow> pbuf_tab s' = pbuf_tab s \<Longrightarrow> pbuf_heap s' = pbuf_heap s \<Longrightarrow>
     pbuf_pools s' = pbuf_pools s \<Longrightarrow> store_ok descs s'"
  using pbuf_backed_cong [OF refl refl, of s' s] by (simp add: store_ok_def)

text \<open>An empty pool stays as it is.\<close>

lemma memp_malloc_None: "memp_malloc t pools = (None, pl) \<Longrightarrow> pl = pools"
  by (auto simp: memp_malloc_def do_memp_malloc_pool_def split: list.splits option.splits)

lemma pbuf_alloc_pool_loop_ok:
  assumes "store_ok descs s" "is_chain (pbuf_tab s) p ps" "new_chain m (pbuf_tab s) ps (unat rem_len)"
    and "lst = (if ps = [] then None else Some (last ps))" "offset \<le> 74"
  shows "\<exists>r s'. pbuf_alloc_pool_loop p lst rem_len offset s = Some (r, s') \<and>
    alloc_result descs m (total (pbuf_tab s) ps + unat rem_len) r s'"
  using assms
proof (induction "unat rem_len" arbitrary: s p ps rem_len lst offset rule: less_induct)
  case less
  obtain q pl where al: "memp_malloc MEMP_PBUF_POOL (pbuf_pools s) = (q, pl)" by fastforce
  show ?case
  proof (cases q)
    case None
    define s1 where "s1 = s\<lparr>pbuf_pools := pl, pbuf_free_ooseq_pending := True\<rparr>"
    have ok1: "store_ok descs s1"
      by (rule store_ok_pools [OF less.prems(1)]) (use al None memp_malloc_None in \<open>auto simp: s1_def\<close>)
    show ?thesis
    proof (cases p)
      case None
      then have "ps = []" using less.prems(2) by (cases ps) auto
      then have "pbuf_tab s1 = m" using less.prems(3) by (auto simp: new_chain_def s1_def)
      then show ?thesis
        using al None \<open>q = None\<close> ok1
        by (subst pbuf_alloc_pool_loop.simps) (auto simp: s1_def alloc_result_def)
    next
      case (Some a)
      have "is_chain (pbuf_tab s1) (Some a) ps" "new_chain m (pbuf_tab s1) ps (unat rem_len)"
        using less.prems(2,3) Some by (simp_all add: s1_def)
      then obtain c s2 where "pbuf_free (Some a) s1 = Some (c, s2)" "store_ok descs s2" "pbuf_tab s2 = m"
        using pbuf_free_new_chain [OF ok1] by blast
      then show ?thesis using al Some \<open>q = None\<close>
        by (subst pbuf_alloc_pool_loop.simps) (simp add: s1_def alloc_result_def)
    qed
  next
    case (Some e)
    let ?room = "PBUF_POOL_BUFSIZE_ALIGNED - LWIP_MEM_ALIGN_SIZE offset"
    define qa where "qa = Memp_pbuf MEMP_PBUF_POOL e"
    define qlen where "qlen = min rem_len (word_of_nat ?room)"
    define nb where "nb = new_pbuf (Some (Own qa, int (LWIP_MEM_ALIGN_SIZE offset))) rem_len qlen PBUF_POOL"
    define s1 where "s1 = (fresh_block qa PBUF_POOL_BUFSIZE_ALIGNED (s\<lparr>pbuf_pools := pl\<rparr>))
      \<lparr>pbuf_tab := (pbuf_tab s)(qa \<mapsto> nb)\<rparr>"
    have tab1: "pbuf_tab s1 = (pbuf_tab s)(qa \<mapsto> nb)" by (simp add: s1_def)
    have ok1: "store_ok descs s1" and qn: "pbuf_tab s qa = None"
      using store_ok_new_memp [OF less.prems(1) al [unfolded Some], where s' = s1 and type = PBUF_POOL]
      by (auto simp: s1_def nb_def qa_def)
    have le: "qlen \<le> rem_len" by (simp add: qlen_def)
    define s2 where "s2 = (case lst of None \<Rightarrow> s1
      | Some l \<Rightarrow> s1\<lparr>pbuf_tab := (pbuf_tab s1)(l := map_option (\<lambda>b. b\<lparr>p_next := Some qa\<rparr>) (pbuf_tab s1 l))\<rparr>)"
    define p2 where "p2 = (if ps = [] then Some qa else p)"
    have last: "\<exists>b. pbuf_tab s (last ps) = Some b" if "ps \<noteq> []"
      using less.prems(3) that last_in_set [OF that] by (auto simp: new_chain_def)
    have lq: "last ps \<noteq> qa" if "ps \<noteq> []" using last [OF that] qn by auto
    have tab2: "pbuf_tab s2 =
        (if ps = [] then pbuf_tab s
         else (pbuf_tab s)(last ps := map_option (\<lambda>b. b\<lparr>p_next := Some qa\<rparr>) (pbuf_tab s (last ps))))(qa \<mapsto> nb)"
      using less.prems(4) lq by (auto simp: s2_def tab1 fun_upd_twist)
    have ok2: "store_ok descs s2"
    proof (cases "ps = []")
      case False
      obtain b where b: "pbuf_tab s1 (last ps) = Some b" using last [OF False] lq [OF False] by (auto simp: tab1)
      show ?thesis using False less.prems(4) b by (simp add: s2_def store_ok_update [OF ok1 b])
    qed (use less.prems(4) ok1 in \<open>simp add: s2_def\<close>)
    have step: "(case lst of None \<Rightarrow> Some s1 | Some l \<Rightarrow> upd_pbuf l (\<lambda>b. b\<lparr>p_next := Some qa\<rparr>) s1) = Some s2"
      using less.prems(4) last lq by (auto simp: s2_def upd_pbuf_def tab1)
    have grown: "is_chain (pbuf_tab s2) p2 (ps @ [qa])"
      "new_chain m (pbuf_tab s2) (ps @ [qa]) (unat (rem_len - qlen))"
      "total (pbuf_tab s2) (ps @ [qa]) = total (pbuf_tab s) ps + unat qlen"
      using new_chain_snoc [OF less.prems(2,3) qn le tab2 [unfolded nb_def] p2_def] by auto
    have p2: "(case p of None \<Rightarrow> Some qa | Some p \<Rightarrow> Some p) = p2"
      using less.prems(2) by (cases ps) (auto simp: p2_def split: option.split)
    have loop: "pbuf_alloc_pool_loop p lst rem_len offset s =
        (if rem_len - qlen > 0 then pbuf_alloc_pool_loop p2 (Some qa) (rem_len - qlen) 0 s2 else Some (p2, s2))"
    proof -
      have init: "pbuf_init_alloced_pbuf qa (Some (Own qa, int (LWIP_MEM_ALIGN_SIZE offset))) rem_len qlen
          PBUF_POOL 0 (fresh_block qa PBUF_POOL_BUFSIZE_ALIGNED (s\<lparr>pbuf_pools := pl\<rparr>)) = s1"
        by (simp add: pbuf_init_new s1_def nb_def)
      show ?thesis
        using al Some pool_bufsize(1) [OF less.prems(5)] step p2
        by (subst pbuf_alloc_pool_loop.simps, cases lst)
          (simp_all add: Let_def qa_def [symmetric] qlen_def [symmetric] init del: of_nat_diff)
    qed
    show ?thesis
    proof (cases "rem_len - qlen > 0")
      case False
      then have "rem_len = qlen" by (simp add: word_neq_0_conv [symmetric])
      moreover obtain y where "p2 = Some y" using grown(1) by (cases ps) auto
      ultimately have "alloc_result descs m (total (pbuf_tab s) ps + unat rem_len) p2 s2"
        using grown ok2 unfolding alloc_result_def by (auto simp del: total_simps)
      then show ?thesis using False loop by simp
    next
      case True
      have "qlen > 0"
      proof (rule ccontr)
        assume "\<not> qlen > 0"
        then have "qlen = 0" by (simp add: word_neq_0_conv [symmetric])
        then have "rem_len = 0 \<or> (word_of_nat ?room :: u16) = 0" by (auto simp: qlen_def min_def split: if_splits)
        then show False using pool_bufsize [of offset] less.prems(5) True \<open>qlen = 0\<close>
          by (auto simp: word_of_nat_eq_0_iff dest: nat_dvd_not_less)
      qed
      then have lt: "unat (rem_len - qlen) < unat rem_len"
        using le by (simp add: unat_diff_le word_less_nat_alt word_le_nat_alt)
      have "total (pbuf_tab s2) (ps @ [qa]) + unat (rem_len - qlen) = total (pbuf_tab s) ps + unat rem_len"
        using grown(3) le by (simp add: unat_diff_le word_le_nat_alt)
      then show ?thesis
        using less.hyps [OF lt ok2 grown(1,2), of "Some qa" 0] True loop by simp
    qed
  qed
qed


lemma alloc_result_single:
  assumes "store_ok descs s'" "pbuf_tab s' = m(p \<mapsto> new_pbuf payload len len type)" "m p = None"
  shows "alloc_result descs m (unat len) (Some p) s'"
  unfolding alloc_result_def using assms
  by (auto simp: new_chain_def intro!: exI [of _ "[p]"])

lemma alloc_result_None: "store_ok descs s \<Longrightarrow> pbuf_tab s = m \<Longrightarrow> alloc_result descs m n None s"
  by (simp add: alloc_result_def)

lemma pbuf_alloc_reference_ok:
  assumes ok: "store_ok descs s" and type: "type = PBUF_REF \<or> type = PBUF_ROM"
  shows "\<exists>r s'. pbuf_alloc_reference payload len type s = Some (r, s') \<and>
    alloc_result descs (pbuf_tab s) (unat len) r s'"
proof -
  obtain q pl where al: "memp_malloc MEMP_PBUF (pbuf_pools s) = (q, pl)" by fastforce
  show ?thesis
  proof (cases q)
    case None
    have "store_ok descs (s\<lparr>pbuf_pools := pl\<rparr>)"
      by (rule store_ok_pools [OF ok]) (use al None memp_malloc_None in auto)
    then show ?thesis using al None type
      by (auto simp: pbuf_alloc_reference_def alloc_result_None)
  next
    case (Some e)
    define s' where "s' = s\<lparr>pbuf_pools := pl, pbuf_tab := (pbuf_tab s)(Memp_pbuf MEMP_PBUF e \<mapsto>
      new_pbuf payload len len type)\<rparr>"
    have "store_ok descs s'" "pbuf_tab s (Memp_pbuf MEMP_PBUF e) = None"
      using store_ok_new_memp [OF ok al [unfolded Some], where s' = s' and type = type] type
      by (auto simp: s'_def)
    then have "alloc_result descs (pbuf_tab s) (unat len) (Some (Memp_pbuf MEMP_PBUF e)) s'"
      by (intro alloc_result_single) (auto simp: s'_def)
    moreover have "pbuf_alloc_reference payload len type s = Some (Some (Memp_pbuf MEMP_PBUF e), s')"
      using al Some type by (auto simp: pbuf_alloc_reference_def pbuf_init_new s'_def Let_def)
    ultimately show ?thesis by blast
  qed
qed

lemma pbuf_alloc_ram_ok:
  assumes ok: "store_ok descs s"
  shows "\<exists>r s'. pbuf_alloc_ram offset len s = Some (r, s') \<and>
    alloc_result descs (pbuf_tab s) (unat len) r s'"
proof -
  define payload_len where "payload_len = (LWIP_MEM_ALIGN_SIZE offset + LWIP_MEM_ALIGN_SIZE (unat len)) mod 2 ^ 16"
  define n where "n = mem_size_t (LWIP_MEM_ALIGN_SIZE SIZEOF_STRUCT_PBUF + payload_len)"
  have ram: "pbuf_alloc_ram offset len s =
      (if payload_len < LWIP_MEM_ALIGN_SIZE (unat len) \<or> n < LWIP_MEM_ALIGN_SIZE (unat len) then Some (None, s)
       else mem_malloc n (pbuf_heap s) \<bind> (\<lambda>(p, hp). case p of
          None \<Rightarrow> Some (None, s\<lparr>pbuf_heap := hp\<rparr>)
        | Some a \<Rightarrow> Some (Some (Heap_pbuf a), pbuf_init_alloced_pbuf (Heap_pbuf a)
            (Some (Own (Heap_pbuf a), int (LWIP_MEM_ALIGN_SIZE offset))) len len PBUF_RAM 0
            (fresh_block (Heap_pbuf a) payload_len (s\<lparr>pbuf_heap := hp\<rparr>)))))"
    unfolding pbuf_alloc_ram_def Let_def payload_len_def [symmetric] n_def [symmetric] by (rule refl)
  have mem: "mem_ok (pbuf_heap s)" using ok by (simp add: store_ok_def)
  have n: "n < 2 ^ 32" by (simp add: n_def mem_size_t_def)
  show ?thesis
  proof (cases "payload_len < LWIP_MEM_ALIGN_SIZE (unat len) \<or> n < LWIP_MEM_ALIGN_SIZE (unat len)")
    case True
    then show ?thesis using alloc_result_None [OF ok refl] by (auto simp: ram)
  next
    case False
    have n0: "0 < n"
      by (simp add: n_def mem_size_t_def SIZEOF_STRUCT_PBUF_def LWIP_MEM_ALIGN_SIZE_def MEM_ALIGNMENT_def payload_len_def)
    obtain q hp where al: "mem_malloc n (pbuf_heap s) = Some (q, hp)"
      using mem.alloc_total [OF mem] n n0 by blast
    show ?thesis
    proof (cases q)
      case None
      have "mem_ok hp" "mem_live hp = mem_live (pbuf_heap s)"
        using mem.alloc_wf [OF mem _ al] mem.alloc_null [OF mem _ al [unfolded None]] n n0 by auto
      moreover have "pbuf_backed descs (s\<lparr>pbuf_heap := hp\<rparr>) a b = pbuf_backed descs s a b" for a b
        using calculation(2) by (cases a) simp_all
      ultimately have "store_ok descs (s\<lparr>pbuf_heap := hp\<rparr>)" using ok by (simp add: store_ok_def)
      then show ?thesis using al None False by (auto simp: ram intro: alloc_result_None)
    next
      case (Some a)
      define s' where "s' = (fresh_block (Heap_pbuf a) payload_len (s\<lparr>pbuf_heap := hp\<rparr>))\<lparr>pbuf_tab :=
        (pbuf_tab s)(Heap_pbuf a \<mapsto>
          new_pbuf (Some (Own (Heap_pbuf a), int (LWIP_MEM_ALIGN_SIZE offset))) len len PBUF_RAM)\<rparr>"
      have "store_ok descs s'" "pbuf_tab s (Heap_pbuf a) = None"
        using store_ok_new_heap [OF ok al [unfolded Some] n0 n, where s' = s'] by (auto simp: s'_def)
      then have "alloc_result descs (pbuf_tab s) (unat len) (Some (Heap_pbuf a)) s'"
        by (intro alloc_result_single) (auto simp: s'_def)
      moreover have "pbuf_alloc_ram offset len s = Some (Some (Heap_pbuf a), s')"
        using al Some False by (simp add: ram pbuf_init_new s'_def)
      ultimately show ?thesis by blast
    qed
  qed
qed

text \<open>C24: \<^verbatim>\<open>pbuf_alloc\<close> returns for every layer, type and length: either \<^verbatim>\<open>NULL\<close>, and no pbuf is left
  behind (a pool chain that could not be completed is given back), or a chain of new pbufs, each
  with one reference and correct \<^verbatim>\<open>tot_len\<close>, whose lengths add up to the length asked for. The
  store stays consistent with the heap and the pools.\<close>

theorem pbuf_alloc_packet:
  assumes "store_ok descs s"
  shows "\<exists>r s'. pbuf_alloc layer len type s = Some (r, s') \<and>
    alloc_result descs (pbuf_tab s) (unat len) r s'"
proof (cases type)
  case PBUF_POOL
  have "layer_offset layer \<le> 74" by (cases layer) simp_all
  then show ?thesis
    using pbuf_alloc_pool_loop_ok [OF assms, of None "[]" "pbuf_tab s" len None "layer_offset layer"]
    by (simp add: pbuf_alloc_def PBUF_POOL new_chain_def)
next
  case PBUF_RAM
  then show ?thesis using pbuf_alloc_ram_ok [OF assms] by (cases layer) (auto simp: pbuf_alloc_def)
next
  case PBUF_REF
  then show ?thesis using pbuf_alloc_reference_ok [OF assms] by (simp add: pbuf_alloc_def)
next
  case PBUF_ROM
  then show ?thesis using pbuf_alloc_reference_ok [OF assms] by (simp add: pbuf_alloc_def)
qed

section \<open>Concrete stores\<close>

definition example_descs :: "memp_t \<Rightarrow> memp_desc" where
  "example_descs = (\<lambda>_. \<lparr>memp_num = 2, memp_elem_size = 24\<rparr>)"

text \<open>Two pbufs that refer to external bytes, the second with a reference of its own, and no free element.\<close>

definition example_store :: pbufs where
  "example_store = \<lparr>
     pbuf_tab = [Memp_pbuf MEMP_PBUF 0 \<mapsto>
         \<lparr>p_next = Some (Memp_pbuf MEMP_PBUF 24), p_payload = Some (Extern 0, 1), p_tot_len = 5, p_len = 3,
          p_type_internal = 0x41, p_flags = 0, p_ref = 1, p_if_idx = 0, p_original = None\<rparr>,
       Memp_pbuf MEMP_PBUF 24 \<mapsto>
         \<lparr>p_next = None, p_payload = Some (Extern 1, 0), p_tot_len = 2, p_len = 2,
          p_type_internal = 0x41, p_flags = 0, p_ref = 2, p_if_idx = 0, p_original = None\<rparr>],
     pbuf_mem = (\<lambda>_. [])(Extern 0 := [1, 2, 3, 4, 5], Extern 1 := [6, 7]),
     pbuf_heap = mem_init,
     pbuf_pools = (\<lambda>_. []),
     pbuf_free_ooseq_pending = False,
     fresh_bytes = (\<lambda>_ _. 0)\<rparr>"

lemma example_store_ok: "store_ok example_descs example_store"
proof -
  have elems: "memp_elems \<lparr>memp_num = 2, memp_elem_size = 24\<rparr> = {0, 24}"
    by (simp add: memp_elems_def lessThan_nat_numeral lessThan_Suc insert_commute)
  have "mem_ok mem_init" using mem_init_ok by (auto simp: mem_ok_def)
  moreover have "memp_ok example_descs (\<lambda>_. [])" by (simp add: memp_ok_def)
  ultimately show ?thesis
    by (auto simp: store_ok_def example_store_def memp_live_def example_descs_def elems
        pbuf_get_allocsrc_def pbuf_bits split: if_splits)
qed

abbreviation example_chain :: "pbuf_addr list" where
  "example_chain \<equiv> [Memp_pbuf MEMP_PBUF 0, Memp_pbuf MEMP_PBUF 24]"

lemma example_store_chain:
  "is_chain (pbuf_tab example_store) (Some (Memp_pbuf MEMP_PBUF 0)) example_chain"
  "packet (pbuf_tab example_store) example_chain"
  "chain_refs_ok (pbuf_tab example_store) example_chain"
  by (simp_all add: example_store_def chain_refs_ok_def plain_def)

theorem pbuf_free_chain_witness:
  "\<exists>s'. pbuf_free (Some (Memp_pbuf MEMP_PBUF 0)) example_store =
      Some (word_of_nat (free_count (pbuf_tab example_store) example_chain), s') \<and>
    store_ok example_descs s' \<and> pbuf_mem s' = pbuf_mem example_store \<and>
    pbuf_tab s' = freed_tab (pbuf_tab example_store) example_chain \<and>
    store_live example_descs s' = store_live example_descs example_store -
      set (take (free_count (pbuf_tab example_store) example_chain) example_chain)"
  by (rule pbuf_free_chain [OF example_store_ok example_store_chain(1,3)])

theorem pbuf_alloc_packet_witness:
  "\<exists>r s'. pbuf_alloc PBUF_IP 4000 PBUF_RAM example_store = Some (r, s') \<and>
    alloc_result example_descs (pbuf_tab example_store) (unat (4000 :: u16)) r s'"
  by (rule pbuf_alloc_packet [OF example_store_ok])

end
