(* ===== verification/Pbuf_Ops.thy ===== *)
theory Pbuf_Ops
  imports Pbuf_Chain
begin

text \<open>
  The operations on packets: concatenation and its inverse, headers, truncation and writing. A
  packet is a chain with correct \<^verbatim>\<open>tot_len\<close> fields; its content is what the payload pointers of
  its pbufs show of the memory.
\<close>

definition content :: "pbufs \<Rightarrow> pbuf_addr list \<Rightarrow> u8 list" where
  "content s ps = concat (map (\<lambda>p. case pbuf_tab s p of None \<Rightarrow> [] | Some b \<Rightarrow> payload_bytes s b) ps)"

lemma content_simps [simp]:
  "content s [] = []"
  "content s (p # ps) = (case pbuf_tab s p of None \<Rightarrow> [] | Some b \<Rightarrow> payload_bytes s b) @ content s ps"
  "content s (ps @ qs) = content s ps @ content s qs"
  by (simp_all add: content_def)

lemma content_frame:
  assumes "\<And>a. a \<in> set ps \<Longrightarrow> map_option (\<lambda>b. (p_payload b, p_len b)) (pbuf_tab s' a) =
      map_option (\<lambda>b. (p_payload b, p_len b)) (pbuf_tab s a)"
    and "pbuf_mem s' = pbuf_mem s"
  shows "content s' ps = content s ps"
  using assms(1)
proof (induction ps)
  case (Cons p ps)
  have "map_option (\<lambda>b. (p_payload b, p_len b)) (pbuf_tab s' p) =
      map_option (\<lambda>b. (p_payload b, p_len b)) (pbuf_tab s p)" using Cons.prems by simp
  then have "(case pbuf_tab s' p of None \<Rightarrow> [] | Some b \<Rightarrow> payload_bytes s' b) =
      (case pbuf_tab s p of None \<Rightarrow> [] | Some b \<Rightarrow> payload_bytes s b)"
    using assms(2) by (cases "pbuf_tab s p"; cases "pbuf_tab s' p") (auto simp: payload_bytes_def split: option.split)
  then show ?case using Cons by simp
qed simp

lemma packet_head: "packet m (p # ps) \<Longrightarrow> \<exists>b. m p = Some b \<and> unat (p_tot_len b) = total m (p # ps)"
  by auto

lemma is_chain_links:
  "is_chain m p ps \<Longrightarrow> (\<And>a. map_option p_next (m' a) = map_option p_next (m a)) \<Longrightarrow> is_chain m' p ps"
proof (induction m p ps rule: is_chain.induct)
  case (2 m p q qs)
  then obtain b where b: "p = Some q" "m q = Some b" "is_chain m (p_next b) qs" by auto
  moreover obtain b' where "m' q = Some b'" "p_next b' = p_next b" using b(2) "2.prems"(2) [of q] by auto
  ultimately show ?case using 2 by auto
qed simp

lemma packet_lengths:
  assumes "packet m ps" "\<And>a. map_option p_len (m' a) = map_option p_len (m a)"
    "\<And>a. map_option p_tot_len (m' a) = map_option p_tot_len (m a)"
  shows "packet m' ps"
  using assms(1)
proof (induction ps)
  case (Cons p ps)
  then obtain b where b: "m p = Some b" "unat (p_tot_len b) = unat (p_len b) + total m ps" by auto
  moreover obtain b' where "m' p = Some b'" "p_len b' = p_len b" "p_tot_len b' = p_tot_len b"
    using b(1) assms(2,3) [of p] by auto
  moreover have "total m' ps = total m ps" by (rule total_frame) (rule assms(2))
  ultimately show ?case using Cons by simp
qed simp

section \<open>Concatenation\<close>

text \<open>What \<^verbatim>\<open>pbuf_cat\<close> does to the table: more in every \<^verbatim>\<open>tot_len\<close>, and a new link at the end.\<close>

definition cat_tab :: "(pbuf_addr \<Rightarrow> pbuf option) \<Rightarrow> pbuf_addr list \<Rightarrow> u16 \<Rightarrow> pbuf_addr \<Rightarrow> pbuf_addr \<Rightarrow> pbuf option" where
  "cat_tab m hs tot t a =
     (if a \<notin> set hs then m a
      else map_option (\<lambda>b. b\<lparr>p_tot_len := p_tot_len b + tot,
             p_next := (if a = last hs then Some t else p_next b)\<rparr>) (m a))"

definition lengthen_tab :: "(pbuf_addr \<Rightarrow> pbuf option) \<Rightarrow> pbuf_addr list \<Rightarrow> u16 \<Rightarrow> pbuf_addr \<Rightarrow> pbuf option" where
  "lengthen_tab m hs tot a =
     (if a \<in> set hs then map_option (\<lambda>b. b\<lparr>p_tot_len := p_tot_len b + tot\<rparr>) (m a) else m a)"

lemma store_ok_lengthen:
  assumes "store_ok descs s" "pbuf_tab s a = Some b"
  shows "store_ok descs (s\<lparr>pbuf_tab := (pbuf_tab s)(a \<mapsto> b\<lparr>p_tot_len := tot\<rparr>)\<rparr>)"
  by (rule store_ok_update [OF assms]) simp_all

lemma pbuf_cat_loop_chain:
  assumes "store_ok descs s" "is_chain (pbuf_tab s) (Some h) hs" "pbuf_tab s t = Some tb" "t \<notin> set hs" "hs \<noteq> []"
  shows "\<exists>s'. pbuf_cat_loop h t s = Some (last hs, s') \<and> store_ok descs s' \<and> pbuf_mem s' = pbuf_mem s \<and>
    pbuf_tab s' = lengthen_tab (pbuf_tab s) (butlast hs) (p_tot_len tb)"
  using assms
proof (induction hs arbitrary: h s)
  case (Cons x hs)
  obtain b where b: "h = x" "pbuf_tab s x = Some b" "is_chain (pbuf_tab s) (p_next b) hs"
    using Cons.prems by auto
  have nin: "x \<notin> set hs" using is_chain_distinct [OF Cons.prems(2)] by simp
  show ?case
  proof (cases hs)
    case Nil
    then show ?thesis using b Cons.prems(1)
      by (subst pbuf_cat_loop.simps) (auto simp: lengthen_tab_def fun_eq_iff)
  next
    case (Cons y ys)
    then have nx: "p_next b = Some y" using b by simp
    define s1 where "s1 = s\<lparr>pbuf_tab := (pbuf_tab s)(x \<mapsto> b\<lparr>p_tot_len := p_tot_len b + p_tot_len tb\<rparr>)\<rparr>"
    have ok1: "store_ok descs s1" unfolding s1_def by (rule store_ok_lengthen [OF Cons.prems(1) b(2)])
    have "is_chain (pbuf_tab s1) (Some y) hs"
      by (rule is_chain_frame [OF b(3) [unfolded nx]]) (use nin in \<open>auto simp: s1_def\<close>)
    moreover have "pbuf_tab s1 t = Some tb" using Cons.prems(3,4) by (auto simp: s1_def)
    ultimately obtain s' where s': "pbuf_cat_loop y t s1 = Some (last hs, s')" "store_ok descs s'"
      "pbuf_mem s' = pbuf_mem s1" "pbuf_tab s' = lengthen_tab (pbuf_tab s1) (butlast hs) (p_tot_len tb)"
      using Cons.IH [OF ok1] Cons.prems(4) Cons by auto
    have "pbuf_cat_loop h t s = Some (last (x # hs), s')"
      using b nx s'(1) Cons.prems(3) Cons by (subst pbuf_cat_loop.simps) (simp add: s1_def)
    moreover have "x \<notin> set (butlast hs)" using nin in_set_butlastD by metis
    then have "pbuf_tab s' = lengthen_tab (pbuf_tab s) (butlast (x # hs)) (p_tot_len tb)"
      using b(2) Cons by (auto simp: s'(4) lengthen_tab_def s1_def fun_eq_iff)
    ultimately show ?thesis using s' by (simp add: s1_def)
  qed
qed simp

lemma cat_tab_chain:
  assumes "is_chain m p hs" "hs \<noteq> []" "is_chain m (Some t) ts" "set hs \<inter> set ts = {}"
  shows "is_chain (cat_tab m hs tot t) p (hs @ ts)"
proof -
  have ts: "is_chain (cat_tab m hs tot t) (Some t) ts"
    by (rule is_chain_frame [OF assms(3)]) (use assms(4) in \<open>auto simp: cat_tab_def\<close>)
  have "is_chain (cat_tab m hs tot t) q (xs @ ts)"
    if "is_chain m q xs" "xs \<noteq> []" "set xs \<subseteq> set hs" "last xs = last hs" "distinct hs" for q xs
    using that
  proof (induction xs arbitrary: q)
    case (Cons x xs)
    obtain b where b: "q = Some x" "m x = Some b" "is_chain m (p_next b) xs" using Cons.prems(1) by auto
    have x: "x \<in> set hs" "x \<notin> set xs" using Cons.prems(3) is_chain_distinct [OF Cons.prems(1)] by auto
    show ?case
    proof (cases "xs = []")
      case True
      then have "cat_tab m hs tot t x = Some (b\<lparr>p_tot_len := p_tot_len b + tot, p_next := Some t\<rparr>)"
        using Cons.prems(4) b x by (simp add: cat_tab_def)
      then show ?thesis using True b ts by simp
    next
      case False
      then have "x \<noteq> last hs" using x(2) Cons.prems(4) last_in_set [OF False] by auto
      then have "cat_tab m hs tot t x = Some (b\<lparr>p_tot_len := p_tot_len b + tot\<rparr>)"
        using b x by (simp add: cat_tab_def)
      moreover have "is_chain (cat_tab m hs tot t) (p_next b) (xs @ ts)"
        using Cons.IH [OF b(3) False] Cons.prems False by simp
      ultimately show ?thesis using b by simp
    qed
  qed simp
  then show ?thesis using assms(1,2) is_chain_distinct [OF assms(1)] by simp
qed


lemma cat_tab_packet:
  assumes "packet m hs" "packet m ts" "is_chain m (Some t) ts" "set hs \<inter> set ts = {}" "m t = Some tb"
    and "total m hs + total m ts < 2 ^ 16"
  shows "packet (cat_tab m hs (p_tot_len tb) t) (hs @ ts)"
    and "total (cat_tab m hs (p_tot_len tb) t) (hs @ ts) = total m hs + total m ts"
proof -
  let ?c = "cat_tab m hs (p_tot_len tb) t"
  have len: "map_option p_len (?c a) = map_option p_len (m a)" for a
    by (simp add: cat_tab_def option.map_comp o_def)
  have tot: "total ?c xs = total m xs" for xs by (rule total_frame) (rule len)
  show "total ?c (hs @ ts) = total m hs + total m ts" by (simp only: total_simps tot)
  obtain ts' where ts: "ts = t # ts'" using assms(3) by (cases ts) auto
  have tb: "unat (p_tot_len tb) = total m ts" using assms(2,5) ts by simp
  have pt: "packet ?c ts"
    by (rule packet_frame [OF assms(2)]) (use assms(4) in \<open>auto simp: cat_tab_def\<close>)
  have "packet ?c (xs @ ts)" if "packet m xs" "set xs \<subseteq> set hs" "total m xs \<le> total m hs" for xs
    using that
  proof (induction xs)
    case (Cons x xs)
    obtain b where b: "m x = Some b" "unat (p_tot_len b) = unat (p_len b) + total m xs"
      using Cons.prems(1) by auto
    obtain b' where b': "?c x = Some b'" "p_len b' = p_len b" "p_tot_len b' = p_tot_len b + p_tot_len tb"
      using b(1) Cons.prems(2) by (auto simp: cat_tab_def)
    have "unat (p_tot_len b) = total m (x # xs)" using b by simp
    then have "unat (p_tot_len b) + unat (p_tot_len tb) < 2 ^ 16" using tb Cons.prems(3) assms(6) by linarith
    then have "unat (p_tot_len b') = unat (p_tot_len b) + unat (p_tot_len tb)"
      using b'(3) by (simp add: unat_word_ariths)
    then have "unat (p_tot_len b') = unat (p_len b') + total ?c (xs @ ts)" using b b' tb by (simp add: tot)
    then show ?case using Cons b b' by simp
  qed (use pt in simp)
  then show "packet ?c (hs @ ts)" using assms(1) by simp
qed

lemma packet_last:
  "packet m ps \<Longrightarrow> ps \<noteq> [] \<Longrightarrow> \<exists>b. m (last ps) = Some b \<and> p_tot_len b = p_len b"
  by (induction ps) (auto simp: unat_arith_simps split: if_splits)

lemma chain_last: "is_chain m p ps \<Longrightarrow> ps \<noteq> [] \<Longrightarrow> \<exists>b. m (last ps) = Some b \<and> p_next b = None"
proof (induction ps arbitrary: p)
  case (Cons x xs)
  then show ?case by (cases "xs = []") auto
qed simp

lemma pbuf_cat_tab:
  assumes "store_ok descs s" "is_chain (pbuf_tab s) (Some h) hs" "packet (pbuf_tab s) hs" "t \<notin> set hs"
    and "pbuf_tab s t = Some tb"
  shows "\<exists>s'. pbuf_cat (Some h) (Some t) s = Some s' \<and> store_ok descs s' \<and> pbuf_mem s' = pbuf_mem s \<and>
    pbuf_tab s' = cat_tab (pbuf_tab s) hs (p_tot_len tb) t"
proof -
  have ne: "hs \<noteq> []" using assms(2) by auto
  obtain s1 where s1: "pbuf_cat_loop h t s = Some (last hs, s1)" "store_ok descs s1" "pbuf_mem s1 = pbuf_mem s"
    "pbuf_tab s1 = lengthen_tab (pbuf_tab s) (butlast hs) (p_tot_len tb)"
    using pbuf_cat_loop_chain [OF assms(1,2,5,4) ne] by blast
  obtain b where b: "pbuf_tab s (last hs) = Some b" "p_tot_len b = p_len b" "p_next b = None"
    using packet_last [OF assms(3) ne] chain_last [OF assms(2) ne] by auto
  have d: "last hs \<notin> set (butlast hs)"
    using is_chain_distinct [OF assms(2)] ne by (metis append_butlast_last_id distinct_append not_distinct_conv_prefix)
  have b1: "pbuf_tab s1 (last hs) = Some b" "pbuf_tab s1 t = Some tb"
    using b(1) d assms(4,5) by (auto simp: s1(4) lengthen_tab_def dest: in_set_butlastD)
  define b' where "b' = b\<lparr>p_tot_len := p_tot_len b + p_tot_len tb, p_next := Some t\<rparr>"
  define s' where "s' = s1\<lparr>pbuf_tab := (pbuf_tab s1)(last hs \<mapsto> b')\<rparr>"
  have "pbuf_cat (Some h) (Some t) s = Some s'"
    using s1(1) b b1 by (simp add: pbuf_cat_def upd_pbuf_def s'_def b'_def)
  moreover have "store_ok descs s'"
    unfolding s'_def by (rule store_ok_update [OF s1(2) b1(1)]) (simp_all add: b'_def)
  moreover have "pbuf_tab s' = cat_tab (pbuf_tab s) hs (p_tot_len tb) t"
  proof
    fix a
    have "a \<in> set hs \<longleftrightarrow> a \<in> set (butlast hs) \<or> a = last hs"
      using ne by (metis append_butlast_last_id Un_iff empty_iff insert_iff list.set(1) list.simps(15) set_append)
    then show "pbuf_tab s' a = cat_tab (pbuf_tab s) hs (p_tot_len tb) t a"
      using d b by (auto simp: s'_def s1(4) lengthen_tab_def cat_tab_def b'_def option.map_comp)
  qed
  ultimately show ?thesis using s1(3) by (auto simp: s'_def)
qed

text \<open>C26: \<^verbatim>\<open>pbuf_cat\<close> of two separate packets that fit together into 16 bits returns; the first
  chain is then the concatenation of both, with correct \<^verbatim>\<open>tot_len\<close> in every pbuf, and shows the
  bytes of the first packet followed by those of the second. No reference count and no pbuf
  outside the first chain changes.\<close>

theorem pbuf_cat_concat:
  assumes "store_ok descs s" and "is_chain (pbuf_tab s) (Some h) hs" and "packet (pbuf_tab s) hs"
    and "is_chain (pbuf_tab s) (Some t) ts" and "packet (pbuf_tab s) ts" and "set hs \<inter> set ts = {}"
    and "total (pbuf_tab s) hs + total (pbuf_tab s) ts < 2 ^ 16"
  shows "\<exists>s'. pbuf_cat (Some h) (Some t) s = Some s' \<and> store_ok descs s' \<and>
    is_chain (pbuf_tab s') (Some h) (hs @ ts) \<and> packet (pbuf_tab s') (hs @ ts) \<and>
    content s' (hs @ ts) = content s hs @ content s ts \<and>
    (\<forall>a. map_option p_ref (pbuf_tab s' a) = map_option p_ref (pbuf_tab s a)) \<and>
    (\<forall>a. a \<notin> set hs \<longrightarrow> pbuf_tab s' a = pbuf_tab s a)"
proof -
  have ne: "hs \<noteq> []" using assms(2) by auto
  obtain tb where tb: "pbuf_tab s t = Some tb" and t: "t \<in> set ts" using assms(4) by (cases ts) auto
  then have nin: "t \<notin> set hs" using assms(6) by auto
  obtain s' where s': "pbuf_cat (Some h) (Some t) s = Some s'" "store_ok descs s'" "pbuf_mem s' = pbuf_mem s"
    "pbuf_tab s' = cat_tab (pbuf_tab s) hs (p_tot_len tb) t"
    using pbuf_cat_tab [OF assms(1-3) nin tb] by blast
  have "content s' (hs @ ts) = content s (hs @ ts)"
    by (rule content_frame) (simp_all add: s'(3,4) cat_tab_def option.map_comp o_def)
  moreover have "map_option p_ref (pbuf_tab s' a) = map_option p_ref (pbuf_tab s a)" for a
    by (simp add: s'(4) cat_tab_def option.map_comp o_def)
  moreover have "pbuf_tab s' a = pbuf_tab s a" if "a \<notin> set hs" for a
    using that by (simp add: s'(4) cat_tab_def)
  ultimately show ?thesis
    using s'(1,2) cat_tab_chain [OF assms(2) ne assms(4,6)] cat_tab_packet(1) [OF assms(3,5,4,6) tb assms(7)]
    by (simp add: s'(4))
qed

section \<open>Dechaining\<close>

lemma free_count_pos: "m q = Some b \<Longrightarrow> 0 < free_count m (q # qs) \<longleftrightarrow> p_ref b = 1"
  by simp

lemma pbuf_dechain_tab:
  assumes "store_ok descs s" and "is_chain (pbuf_tab s) (Some p) (p # q # qs)"
    and "packet (pbuf_tab s) (p # q # qs)" and "chain_refs_ok (pbuf_tab s) (q # qs)"
  shows "\<exists>s'. pbuf_dechain p s =
      Some (if free_count (pbuf_tab s) (q # qs) mod 256 = 0 then Some q else None, s') \<and>
    store_ok descs s' \<and> pbuf_mem s' = pbuf_mem s \<and>
    pbuf_tab s' = (freed_tab (pbuf_tab s) (q # qs))
      (p := map_option (\<lambda>b. b\<lparr>p_next := None, p_tot_len := p_len b\<rparr>) (pbuf_tab s p))"
proof -
  let ?m = "pbuf_tab s"
  obtain b where b: "?m p = Some b" "p_next b = Some q" using assms(2) by auto
  obtain qb where qb: "?m q = Some qb" using assms(2) by auto
  have tot: "unat (p_tot_len b) = unat (p_len b) + unat (p_tot_len qb)"
    using assms(3) b qb by (auto split: option.splits)
  have nin: "p \<notin> set (q # qs)" using is_chain_distinct [OF assms(2)] by auto
  have diff: "p_tot_len b - p_len b = p_tot_len qb"
  proof (rule word_unat_eq_iff [THEN iffD2])
    show "unat (p_tot_len b - p_len b) = unat (p_tot_len qb)"
      using tot by (subst unat_diff_le) (simp_all add: word_le_nat_alt)
  qed
  define b' where "b' = b\<lparr>p_next := None, p_tot_len := p_len b\<rparr>"
  define s2 where "s2 = s\<lparr>pbuf_tab := ?m(p \<mapsto> b')\<rparr>"
  have ok2: "store_ok descs s2"
    unfolding s2_def by (rule store_ok_update [OF assms(1) b(1)]) (simp_all add: b'_def)
  have same: "pbuf_tab s2 a = ?m a" if "a \<in> set (q # qs)" for a using that nin by (auto simp: s2_def)
  have "is_chain (pbuf_tab s2) (Some q) (q # qs)"
    by (rule is_chain_frame [OF _ same]) (use assms(2) b in auto)
  moreover have "chain_refs_ok (pbuf_tab s2) (q # qs)"
    using assms(4) same by (simp add: chain_refs_ok_def)
  ultimately obtain s3 where s3: "pbuf_free_loop (Some q) 0 s2 = Some (0 + word_of_nat (free_count (pbuf_tab s2) (q # qs)), s3)"
    "store_ok descs s3" "pbuf_mem s3 = pbuf_mem s2" "pbuf_tab s3 = freed_tab (pbuf_tab s2) (q # qs)"
    using pbuf_free_loop_chain [OF ok2] by blast
  have fc: "free_count (pbuf_tab s2) (q # qs) = free_count ?m (q # qs)" by (rule free_count_frame [OF same])
  have tab3: "pbuf_tab s3 = (freed_tab ?m (q # qs))(p := Some b')"
  proof
    fix a
    have "p \<notin> set (take k (q # qs))" for k using nin in_set_takeD by fast
    then show "pbuf_tab s3 a = ((freed_tab ?m (q # qs))(p := Some b')) a"
      using nin nth_mem [of "free_count ?m (q # qs)" "q # qs"]
      unfolding s3(4) freed_tab_def Let_def fc by (cases "a = p") (auto simp: s2_def)
  qed
  have upd: "s\<lparr>pbuf_tab := ?m(q \<mapsto> qb\<lparr>p_tot_len := p_tot_len b - p_len b\<rparr>)\<rparr> = s"
    using qb diff by (simp add: fun_upd_idem)
  have "pbuf_dechain p s = Some (if (word_of_nat (free_count ?m (q # qs)) :: u8) > 0 then None else Some q, s3)"
    using b qb tot nin s3(1) upd tab3
    by (simp add: pbuf_dechain_def pbuf_free_def upd_pbuf_def s2_def [unfolded b'_def, symmetric] fc b'_def
        del: free_count.simps)
  moreover have "(word_of_nat k :: u8) > 0 \<longleftrightarrow> k mod 256 \<noteq> 0" for k
    by (simp add: word_less_nat_alt unat_of_nat)
  ultimately show ?thesis using s3(2,3) tab3 b by (auto simp: s2_def b'_def simp del: free_count.simps)
qed

text \<open>C27: \<^verbatim>\<open>pbuf_dechain\<close> of a packet with a successor returns. The first pbuf becomes a packet
  of its own; the rest loses one reference, with the effect of \<^verbatim>\<open>pbuf_free\<close>. The result is the
  rest when no pbuf of it was freed and NULL when between 1 and 255 were, but when a multiple of
  256 pbufs were freed the returned pointer dangles.\<close>

theorem pbuf_dechain_tail:
  assumes "store_ok descs s" and "is_chain (pbuf_tab s) (Some p) (p # q # qs)"
    and "packet (pbuf_tab s) (p # q # qs)" and "chain_refs_ok (pbuf_tab s) (q # qs)"
    and "n = free_count (pbuf_tab s) (q # qs)"
  shows "\<exists>s'. pbuf_dechain p s = Some (if n mod 256 = 0 then Some q else None, s') \<and>
    store_ok descs s' \<and> pbuf_mem s' = pbuf_mem s \<and>
    is_chain (pbuf_tab s') (Some p) [p] \<and> packet (pbuf_tab s') [p] \<and>
    (\<forall>a. a \<noteq> p \<longrightarrow> pbuf_tab s' a = freed_tab (pbuf_tab s) (q # qs) a) \<and>
    (pbuf_tab s' q = None \<longleftrightarrow> n \<noteq> 0)"
proof -
  obtain s' where s': "pbuf_dechain p s = Some (if n mod 256 = 0 then Some q else None, s')"
    "store_ok descs s'" "pbuf_mem s' = pbuf_mem s"
    "pbuf_tab s' = (freed_tab (pbuf_tab s) (q # qs))
      (p := map_option (\<lambda>b. b\<lparr>p_next := None, p_tot_len := p_len b\<rparr>) (pbuf_tab s p))"
    using pbuf_dechain_tab [OF assms(1-4)] assms(5) by blast
  obtain b where b: "pbuf_tab s p = Some b" using assms(2) by auto
  have "p \<noteq> q" using is_chain_distinct [OF assms(2)] by auto
  moreover have "freed_tab (pbuf_tab s) (q # qs) q = None \<longleftrightarrow> n \<noteq> 0"
  proof (cases n)
    case 0
    then show ?thesis using assms(2,5) by (auto simp: freed_tab_def simp del: free_count.simps)
  next
    case (Suc k)
    then show ?thesis using assms(5) by (simp add: freed_tab_def del: free_count.simps)
  qed
  ultimately show ?thesis using s' b by simp
qed

text \<open>Dechaining undoes chaining: after \<^verbatim>\<open>pbuf_chain\<close> of a single pbuf with a packet whose
  first pbuf is referenced, \<^verbatim>\<open>pbuf_dechain\<close> returns that packet and every pbuf is as it was,
  reference counts included.\<close>

lemma pbuf_chain_dechain:
  assumes "store_ok descs s" and "is_chain (pbuf_tab s) (Some h) [h]" and "packet (pbuf_tab s) [h]"
    and "is_chain (pbuf_tab s) (Some t) ts" and "packet (pbuf_tab s) ts" and "h \<notin> set ts"
    and "chain_refs_ok (pbuf_tab s) ts" and "pbuf_tab s t = Some tb" and "p_ref tb < 255"
    and "total (pbuf_tab s) [h] + total (pbuf_tab s) ts < 2 ^ 16"
  shows "\<exists>s1 s2. pbuf_chain (Some h) (Some t) s = Some s1 \<and> pbuf_dechain h s1 = Some (Some t, s2) \<and>
    store_ok descs s2 \<and> pbuf_tab s2 = pbuf_tab s \<and> pbuf_mem s2 = pbuf_mem s"
proof -
  let ?m = "pbuf_tab s"
  obtain ts' where ts: "ts = t # ts'" using assms(4) by (cases ts) auto
  have th: "t \<notin> set [h]" using assms(6) ts by auto
  obtain s0 where s0: "pbuf_cat (Some h) (Some t) s = Some s0" "store_ok descs s0" "pbuf_mem s0 = pbuf_mem s"
    "pbuf_tab s0 = cat_tab ?m [h] (p_tot_len tb) t"
    using pbuf_cat_tab [OF assms(1-3) th assms(8)] by blast
  have dis: "set [h] \<inter> set ts = {}" using assms(6) by simp
  have ch: "is_chain (pbuf_tab s0) (Some h) (h # t # ts')"
    using cat_tab_chain [OF assms(2) _ assms(4) dis] s0(4) ts by simp
  have pk: "packet (pbuf_tab s0) (h # t # ts')"
    using cat_tab_packet(1) [OF assms(3,5,4) dis assms(8,10)] s0(4) ts by simp
  have t0: "pbuf_tab s0 t = Some tb" using assms(8) th by (simp add: s0(4) cat_tab_def)
  define tb' where "tb' = tb\<lparr>p_ref := p_ref tb + 1\<rparr>"
  define s1 where "s1 = s0\<lparr>pbuf_tab := (pbuf_tab s0)(t \<mapsto> tb')\<rparr>"
  have ref: "p_ref tb + 1 > 0" "p_ref tb + 1 \<noteq> 1" "p_ref tb + 1 - 1 = p_ref tb"
    using assms(7-9) ts by (auto simp: chain_refs_ok_def word_less_nat_alt unat_word_ariths word_unat_eq_iff)
  have s1: "pbuf_chain (Some h) (Some t) s = Some s1"
    using s0(1) t0 ref by (simp add: pbuf_chain_def pbuf_ref_def upd_pbuf_def s1_def tb'_def)
  have ok1: "store_ok descs s1"
    unfolding s1_def by (rule store_ok_update [OF s0(2) t0]) (simp_all add: tb'_def)
  have keep: "map_option p_len (pbuf_tab s1 a) = map_option p_len (pbuf_tab s0 a)"
    "map_option p_next (pbuf_tab s1 a) = map_option p_next (pbuf_tab s0 a)"
    "map_option p_tot_len (pbuf_tab s1 a) = map_option p_tot_len (pbuf_tab s0 a)" for a
    using t0 by (simp_all add: s1_def tb'_def)
  have ch1: "is_chain (pbuf_tab s1) (Some h) (h # t # ts')"
    by (rule is_chain_links [OF ch keep(2)])
  have pk1: "packet (pbuf_tab s1) (h # t # ts')"
    by (rule packet_lengths [OF pk keep(1,3)])
  have refs1: "chain_refs_ok (pbuf_tab s1) (t # ts')"
    using assms(6,7) ts t0 ref(1) by (auto simp: chain_refs_ok_def s1_def tb'_def s0(4) cat_tab_def plain_def)
  have fc: "free_count (pbuf_tab s1) (t # ts') = 0" using ref(2) by (simp add: s1_def tb'_def)
  obtain s2 where s2: "pbuf_dechain h s1 = Some (Some t, s2)" "store_ok descs s2" "pbuf_mem s2 = pbuf_mem s1"
    "pbuf_tab s2 = (freed_tab (pbuf_tab s1) (t # ts'))
      (h := map_option (\<lambda>b. b\<lparr>p_next := None, p_tot_len := p_len b\<rparr>) (pbuf_tab s1 h))"
    using pbuf_dechain_tab [OF ok1 ch1 pk1 refs1] fc by auto
  have "pbuf_tab s2 a = ?m a" for a
  proof -
    obtain hb where hb: "?m h = Some hb" "p_next hb = None" "p_tot_len hb = p_len hb"
      using assms(2,3) by (auto simp: word_unat_eq_iff)
    then show ?thesis
      using th assms(8) ref(3) fc
      by (auto simp: s2(4) freed_tab_def s1_def tb'_def s0(4) cat_tab_def simp del: free_count.simps)
  qed
  then have "pbuf_tab s2 = ?m" by (rule ext)
  moreover have "pbuf_mem s2 = pbuf_mem s" using s2(3) s0(3) by (simp add: s1_def)
  ultimately show ?thesis using s1 s2(1,2) by blast
qed

section \<open>Headers\<close>

definition header_fails :: "pbuf \<Rightarrow> int \<Rightarrow> nat \<Rightarrow> bool" where
  "header_fails b ofs n \<longleftrightarrow> n \<noteq> 0 \<and> (n > 0xFFFF \<or> n + unat (p_tot_len b) > 0xFFFF \<or>
     p_type_internal b AND PBUF_TYPE_FLAG_STRUCT_DATA_CONTIGUOUS = 0 \<or> ofs < int n)"

definition header_moved :: "pbuf \<Rightarrow> block \<Rightarrow> int \<Rightarrow> nat \<Rightarrow> pbuf" where
  "header_moved b r ofs n = b\<lparr>p_payload := Some (r, ofs - int n), p_len := p_len b + word_of_nat n,
     p_tot_len := p_tot_len b + word_of_nat n\<rparr>"

lemma u16_add_overflow: "n \<le> 0xFFFF \<Longrightarrow> (word_of_nat n + x < (word_of_nat n :: u16)) = (n + unat x > 0xFFFF)"
proof -
  assume n: "n \<le> 0xFFFF"
  then have "unat (word_of_nat n :: u16) = n" by (simp add: unat_of_nat)
  then show ?thesis using n u16_lt [of x]
    by (auto simp: word_less_nat_alt unat_word_ariths mod_if not_less)
qed

lemma pbuf_add_header_result:
  assumes "pbuf_tab s p = Some b" "p_payload b = Some (r, ofs)"
  shows "pbuf_add_header p n s =
    Some (if header_fails b ofs n then (1, s) else (0, s\<lparr>pbuf_tab := (pbuf_tab s)(p \<mapsto> header_moved b r ofs n)\<rparr>))"
proof (cases "n = 0 \<or> n > 0xFFFF")
  case True
  have "b\<lparr>p_payload := Some (r, ofs)\<rparr> = b" by (simp add: assms(2) [symmetric])
  then show ?thesis using True assms
    by (auto simp: pbuf_add_header_def pbuf_add_header_impl_def header_fails_def header_moved_def fun_upd_idem)
next
  case False
  then show ?thesis using assms u16_add_overflow [of n "p_tot_len b"]
    by (auto simp: pbuf_add_header_def pbuf_add_header_impl_def header_fails_def header_moved_def Let_def)
qed

text \<open>\<^verbatim>\<open>pbuf_add_header\<close> fails, without an effect, exactly when the header does not fit: too
  long for the length fields, in front of the pbuf's own memory, or on a pbuf that only refers to
  its data. Otherwise the payload grows to the front by exactly the header, it does not leave the
  memory of the pbuf, and \<^verbatim>\<open>pbuf_remove_header\<close> takes the same state back.\<close>

lemma pbuf_header_roundtrip:
  assumes "pbuf_tab s p = Some b" and "p_payload b = Some (r, ofs)" and "p_len b \<le> p_tot_len b"
  shows "header_fails b ofs n \<and> pbuf_add_header p n s = Some (1, s) \<or>
    \<not> header_fails b ofs n \<and> (\<exists>s' b'. pbuf_add_header p n s = Some (0, s') \<and>
       pbuf_remove_header p n s' = Some (0, s) \<and> pbuf_tab s' p = Some b' \<and>
       p_payload b' = Some (r, ofs - int n) \<and> (n = 0 \<or> 0 \<le> ofs - int n) \<and>
       unat (p_len b') = unat (p_len b) + n \<and> unat (p_tot_len b') = unat (p_tot_len b) + n)"
proof (cases "header_fails b ofs n")
  case True
  then show ?thesis using pbuf_add_header_result [OF assms(1,2)] by simp
next
  case False
  define b' where "b' = header_moved b r ofs n"
  define s' where "s' = s\<lparr>pbuf_tab := (pbuf_tab s)(p \<mapsto> b')\<rparr>"
  have add: "pbuf_add_header p n s = Some (0, s')"
    using pbuf_add_header_result [OF assms(1,2)] False by (simp add: s'_def b'_def)
  have n: "n = 0 \<or> n \<le> 0xFFFF \<and> n + unat (p_tot_len b) \<le> 0xFFFF \<and> int n \<le> ofs"
    using False by (auto simp: header_fails_def)
  have nn: "n + unat (p_tot_len b) < 2 ^ 16" using n u16_lt [of "p_tot_len b"] by auto
  have le: "unat (p_len b) \<le> unat (p_tot_len b)" using assms(3) by (simp add: word_le_nat_alt)
  have w: "unat (word_of_nat n :: u16) = n" using nn by (simp add: unat_of_nat)
  have len: "unat (p_len b + word_of_nat n) = unat (p_len b) + n"
    "unat (p_tot_len b + word_of_nat n) = unat (p_tot_len b) + n"
    using nn le w by (simp_all add: unat_word_ariths)
  have "pbuf_remove_header p n s' = Some (0, s)"
  proof -
    have "b'\<lparr>p_payload := Some (r, ofs), p_len := p_len b, p_tot_len := p_tot_len b\<rparr> = b"
      by (simp add: b'_def header_moved_def assms(2) [symmetric])
    moreover have "(word_of_nat n :: u16) \<le> p_len b + word_of_nat n"
      using len(1) w by (simp add: word_le_nat_alt)
    ultimately show ?thesis using nn assms(1,2)
      by (auto simp: pbuf_remove_header_def s'_def b'_def header_moved_def fun_upd_idem)
  qed
  then show ?thesis using False add n len by (auto simp: s'_def b'_def header_moved_def)
qed

section \<open>Writing\<close>

definition block_of :: "pbufs \<Rightarrow> pbuf_addr \<Rightarrow> block option" where
  "block_of s a = (case pbuf_tab s a of None \<Rightarrow> None | Some b \<Rightarrow> map_option fst (p_payload b))"

text \<open>The payload of a pbuf lies inside its block, and no two pbufs of the packet share a block.\<close>

definition payload_fits :: "pbufs \<Rightarrow> pbuf \<Rightarrow> bool" where
  "payload_fits s b \<longleftrightarrow> (case p_payload b of None \<Rightarrow> False
     | Some (r, ofs) \<Rightarrow> 0 \<le> ofs \<and> nat ofs + unat (p_len b) \<le> length (pbuf_mem s r))"

definition writable :: "pbufs \<Rightarrow> pbuf_addr list \<Rightarrow> bool" where
  "writable s ps \<longleftrightarrow> (\<forall>a \<in> set ps. \<exists>b. pbuf_tab s a = Some b \<and> payload_fits s b) \<and>
     distinct (map (block_of s) ps)"

lemma write_at_window:
  assumes "i + n \<le> length xs" "off + length bs \<le> n"
  shows "take n (drop i (write_at xs (i + off) bs)) =
    take off (take n (drop i xs)) @ bs @ drop (off + length bs) (take n (drop i xs))"
proof (cases "n \<le> off")
  case True
  then have "n = off \<and> length bs = 0" using assms by linarith
  then show ?thesis by (simp add: write_at_def)
next
  case False
  then show ?thesis using assms
    by (auto simp: write_at_def drop_take min_def add.commute add.left_commute)
qed

text \<open>One write into one pbuf.\<close>

lemma pbuf_write_bytes:
  assumes a: "pbuf_tab s a = Some b" and fits: "payload_fits s b" and le: "off + length bs \<le> unat (p_len b)"
  shows "\<exists>m. pbuf_write a off bs s = Some (s\<lparr>pbuf_mem := m\<rparr>) \<and>
    payload_bytes (s\<lparr>pbuf_mem := m\<rparr>) b =
      take off (payload_bytes s b) @ bs @ drop (off + length bs) (payload_bytes s b) \<and>
    (\<forall>r. length (m r) = length (pbuf_mem s r)) \<and> (\<forall>r. Some r \<noteq> block_of s a \<longrightarrow> m r = pbuf_mem s r)"
proof -
  obtain r ofs where p: "p_payload b = Some (r, ofs)" "0 \<le> ofs" "nat ofs + unat (p_len b) \<le> length (pbuf_mem s r)"
    using fits by (auto simp: payload_fits_def split: option.splits)
  have len: "length (payload_bytes s b) = unat (p_len b)" using p by (simp add: payload_bytes_def)
  show ?thesis
  proof (cases "bs = []")
    case True
    then have "pbuf_write a off bs s = Some (s\<lparr>pbuf_mem := pbuf_mem s\<rparr>)" using a by (simp add: pbuf_write_def)
    then show ?thesis using True by (intro exI [of _ "pbuf_mem s"]) (simp add: payload_bytes_def)
  next
    case False
    define k where "k = nat ofs + off"
    define m where "m = (pbuf_mem s)(r := write_at (pbuf_mem s r) k bs)"
    have k: "nat (ofs + int off) = k" "k + length bs \<le> length (pbuf_mem s r)"
      using p(2,3) le by (simp_all add: k_def nat_add_distrib)
    have "ofs + int off + int (length bs) \<le> int (length (pbuf_mem s r))"
      using k(2) p(2) unfolding k_def by linarith
    note k = k this
    have "pbuf_write a off bs s = Some (s\<lparr>pbuf_mem := m\<rparr>)"
      using a p k False by (simp add: pbuf_write_def m_def Let_def)
    moreover have "payload_bytes (s\<lparr>pbuf_mem := m\<rparr>) b =
        take off (payload_bytes s b) @ bs @ drop (off + length bs) (payload_bytes s b)"
      using p(1) write_at_window [OF p(3) le] by (simp add: payload_bytes_def m_def k_def)
    moreover have "length (m r') = length (pbuf_mem s r')" for r'
      using k(2) by (simp add: m_def write_at_def)
    moreover have "m r' = pbuf_mem s r'" if "Some r' \<noteq> block_of s a" for r'
      using that a p by (auto simp: m_def block_of_def)
    ultimately show ?thesis by blast
  qed
qed

lemma payload_bytes_length: "payload_fits s b \<Longrightarrow> length (payload_bytes s b) = unat (p_len b)"
  by (auto simp: payload_fits_def payload_bytes_def split: option.splits)

lemma content_length: "\<forall>a \<in> set ps. \<exists>b. pbuf_tab s a = Some b \<and> payload_fits s b \<Longrightarrow>
    length (content s ps) = total (pbuf_tab s) ps"
  by (induction ps) (auto simp: payload_bytes_length)

lemma payload_bytes_mem:
  "pbuf_tab s a = Some b \<Longrightarrow> (\<And>r. block_of s a = Some r \<Longrightarrow> m r = pbuf_mem s r) \<Longrightarrow>
     payload_bytes (s\<lparr>pbuf_mem := m\<rparr>) b = payload_bytes s b"
  by (auto simp: payload_bytes_def block_of_def split: option.splits)

lemma content_mem:
  "(\<And>a r. a \<in> set ps \<Longrightarrow> block_of s a = Some r \<Longrightarrow> m r = pbuf_mem s r) \<Longrightarrow>
     content (s\<lparr>pbuf_mem := m\<rparr>) ps = content s ps"
proof (induction ps)
  case (Cons p ps)
  have "content (s\<lparr>pbuf_mem := m\<rparr>) ps = content s ps" by (rule Cons.IH) (rule Cons.prems, simp_all)
  moreover have "payload_bytes (s\<lparr>pbuf_mem := m\<rparr>) b = payload_bytes s b" if "pbuf_tab s p = Some b" for b
    by (rule payload_bytes_mem [OF that]) (rule Cons.prems, simp_all)
  ultimately show ?case by (simp split: option.split)
qed simp

lemma block_of_mem [simp]: "block_of (s\<lparr>pbuf_mem := m\<rparr>) = block_of s"
  by (simp add: block_of_def fun_eq_iff)

lemma payload_fits_mem:
  "(\<And>r. length (m r) = length (pbuf_mem s r)) \<Longrightarrow> payload_fits (s\<lparr>pbuf_mem := m\<rparr>) b = payload_fits s b"
  by (simp add: payload_fits_def split: option.split prod.split)

lemma pbufs_mem_id [simp]: "s\<lparr>pbuf_mem := pbuf_mem s\<rparr> = (s :: pbufs)"
  by simp

lemma writable_mem:
  "writable s ps \<Longrightarrow> (\<And>r. length (m r) = length (pbuf_mem s r)) \<Longrightarrow> writable (s\<lparr>pbuf_mem := m\<rparr>) ps"
  by (simp add: writable_def payload_fits_mem)

lemma pbuf_take_loop_chain:
  assumes "is_chain (pbuf_tab s) p ps" "writable s ps" "length bs \<le> total (pbuf_tab s) ps"
  shows "\<exists>m. pbuf_take_loop p bs s = Some (s\<lparr>pbuf_mem := m\<rparr>) \<and>
    content (s\<lparr>pbuf_mem := m\<rparr>) ps = bs @ drop (length bs) (content s ps) \<and>
    (\<forall>r. length (m r) = length (pbuf_mem s r)) \<and>
    (\<forall>r. Some r \<notin> block_of s ` set ps \<longrightarrow> m r = pbuf_mem s r)"
  using assms
proof (induction ps arbitrary: p bs s)
  case Nil
  then show ?case by (subst pbuf_take_loop.simps) (auto intro: exI [of _ "pbuf_mem s"])
next
  case (Cons x xs)
  obtain b where b: "p = Some x" "pbuf_tab s x = Some b" "is_chain (pbuf_tab s) (p_next b) xs"
    using Cons.prems(1) by auto
  have fits: "payload_fits s b" "writable s xs" "block_of s x \<notin> block_of s ` set xs"
    using Cons.prems(2) b by (auto simp: writable_def)
  define n where "n = min (length bs) (unat (p_len b))"
  define c where "c = payload_bytes s b"
  have lc: "length c = unat (p_len b)" using fits(1) by (simp add: c_def payload_bytes_length)
  obtain m1 where m1: "pbuf_write x 0 (take n bs) s = Some (s\<lparr>pbuf_mem := m1\<rparr>)"
    "payload_bytes (s\<lparr>pbuf_mem := m1\<rparr>) b = take n bs @ drop n c"
    "\<And>r. length (m1 r) = length (pbuf_mem s r)" "\<And>r. Some r \<noteq> block_of s x \<Longrightarrow> m1 r = pbuf_mem s r"
    using pbuf_write_bytes [OF b(2) fits(1), of 0 "take n bs"] by (auto simp: n_def c_def)
  define s1 where "s1 = s\<lparr>pbuf_mem := m1\<rparr>"
  have c1: "content s1 xs = content s xs" unfolding s1_def
  proof (rule content_mem)
    fix a r assume "a \<in> set xs" "block_of s a = Some r"
    then have "Some r \<noteq> block_of s x" using fits(3) by (metis image_eqI)
    then show "m1 r = pbuf_mem s r" by (rule m1(4))
  qed
  have bl: "block_of s1 a = block_of s a" for a by (simp add: s1_def block_of_def)
  have "length (drop n bs) \<le> total (pbuf_tab s1) xs" using Cons.prems(3) b(2) by (auto simp: n_def s1_def)
  moreover have "writable s1 xs" unfolding s1_def by (rule writable_mem [OF fits(2) m1(3)])
  ultimately obtain m where m: "pbuf_take_loop (p_next b) (drop n bs) s1 = Some (s1\<lparr>pbuf_mem := m\<rparr>)"
    "content (s1\<lparr>pbuf_mem := m\<rparr>) xs = drop n bs @ drop (length (drop n bs)) (content s1 xs)"
    "\<And>r. length (m r) = length (pbuf_mem s1 r)"
    "\<And>r. Some r \<notin> block_of s1 ` set xs \<Longrightarrow> m r = pbuf_mem s1 r"
    using Cons.IH [of s1 "p_next b" "drop n bs"] b(3) by (auto simp: s1_def)
  have s1m: "s1\<lparr>pbuf_mem := m\<rparr> = s\<lparr>pbuf_mem := m\<rparr>" by (simp add: s1_def)
  show ?case
  proof (cases "bs = []")
    case True
    then show ?thesis
      using b(2) by (subst pbuf_take_loop.simps) (auto intro!: exI [of _ "pbuf_mem s"])
  next
    case False
    have "pbuf_take_loop p bs s = Some (s\<lparr>pbuf_mem := m\<rparr>)"
      using False b m(1) m1(1) by (subst pbuf_take_loop.simps) (simp add: n_def [symmetric] s1_def Let_def)
    moreover have "payload_bytes (s\<lparr>pbuf_mem := m\<rparr>) b = take n bs @ drop n c"
    proof -
      have "payload_bytes (s1\<lparr>pbuf_mem := m\<rparr>) b = payload_bytes s1 b"
      proof (rule payload_bytes_mem [of _ x])
        show "pbuf_tab s1 x = Some b" using b by (simp add: s1_def)
        fix r assume "block_of s1 x = Some r"
        then have "Some r \<notin> block_of s1 ` set xs" using fits(3) by (auto simp: bl)
        then show "m r = pbuf_mem s1 r" by (rule m(4))
      qed
      then show ?thesis using m1(2) by (simp add: s1m) (simp add: s1_def)
    qed
    then have "content (s\<lparr>pbuf_mem := m\<rparr>) (x # xs) = bs @ drop (length bs) (content s (x # xs))"
      using b(2) m(2) lc by (simp add: s1m c1 n_def c_def [symmetric] min_def)
    moreover have "length (m r) = length (pbuf_mem s r)" for r using m(3) m1(3) by (simp add: s1_def)
    moreover have "m r = pbuf_mem s r" if "Some r \<notin> block_of s ` set (x # xs)" for r
      using that m(4) [of r] m1(4) [of r] by (auto simp: bl) (auto simp: s1_def)
    ultimately show ?thesis by blast
  qed
qed

lemma pbuf_skip_chain:
  assumes "is_chain (pbuf_tab s) p ps"
  shows "\<exists>q off' ps1 ps2. pbuf_skip p off s = Some (q, off') \<and> ps = ps1 @ ps2 \<and>
    is_chain (pbuf_tab s) q ps2 \<and> unat off = total (pbuf_tab s) ps1 + unat off' \<and>
    (\<forall>a. q = Some a \<longrightarrow> (\<exists>b. pbuf_tab s a = Some b \<and> off' < p_len b))"
  using assms
proof (induction ps arbitrary: p off)
  case Nil
  then show ?case by (subst pbuf_skip.simps) simp
next
  case (Cons x xs)
  obtain b where b: "p = Some x" "pbuf_tab s x = Some b" "is_chain (pbuf_tab s) (p_next b) xs"
    using Cons.prems by auto
  show ?case
  proof (cases "p_len b \<le> off")
    case True
    obtain q off' ps1 ps2 where r: "pbuf_skip (p_next b) (off - p_len b) s = Some (q, off')" "xs = ps1 @ ps2"
      "is_chain (pbuf_tab s) q ps2" "unat (off - p_len b) = total (pbuf_tab s) ps1 + unat off'"
      "\<forall>a. q = Some a \<longrightarrow> (\<exists>b. pbuf_tab s a = Some b \<and> off' < p_len b)"
      using Cons.IH [OF b(3)] by blast
    have "unat off = total (pbuf_tab s) (x # ps1) + unat off'"
      using r(4) True b(2) by (simp add: unat_diff_le word_le_nat_alt)
    moreover have "pbuf_skip p off s = Some (q, off')"
      using b True r(1) by (subst pbuf_skip.simps) simp
    ultimately show ?thesis using r(2,3,5) by (intro exI conjI) (auto simp: r(2) intro: append_Cons [symmetric])
  next
    case False
    then have "pbuf_skip p off s = Some (Some x, off)" using b by (subst pbuf_skip.simps) simp
    then show ?thesis using b False Cons.prems
      by (intro exI [of _ "Some x"] exI [of _ off] exI [of _ "[]"] exI [of _ "x # xs"]) simp
  qed
qed

lemma take_overwrite:
  assumes "length xs = k" "j + length bs1 \<le> length y" "bs2 \<noteq> [] \<Longrightarrow> j + length bs1 = length y"
  shows "xs @ (take j y @ bs1 @ drop (j + length bs1) y) @ (bs2 @ drop (length bs2) z) =
    take (k + j) (xs @ y @ z) @ (bs1 @ bs2) @ drop (k + j + length (bs1 @ bs2)) (xs @ y @ z)"
proof (cases "bs2 = []")
  case True
  then show ?thesis using assms by (simp add: add.assoc)
next
  case False
  have "length y = j + length bs1" using assms(3) False by simp
  then show ?thesis using assms(1) by (simp add: add.assoc)
qed

lemma packet_append: "packet m (ps @ qs) \<Longrightarrow> packet m qs"
  by (induction ps) auto

lemma pbuf_take_chain:
  assumes "is_chain (pbuf_tab s) p (y # ys)" "packet (pbuf_tab s) (y # ys)" "length bs \<le> total (pbuf_tab s) (y # ys)"
  shows "pbuf_take p bs s = pbuf_take_loop p bs s"
proof -
  obtain b where "p = Some y" "pbuf_tab s y = Some b" "unat (p_tot_len b) = total (pbuf_tab s) (y # ys)"
    using assms(1,2) by auto
  then show ?thesis using assms(3) by (simp add: pbuf_take_def)
qed

lemma writable_append: "writable s (ps1 @ ps2) \<Longrightarrow> writable s ps2"
  by (simp add: writable_def)

text \<open>C28: \<^verbatim>\<open>pbuf_take_at\<close> on a packet whose pbufs own separate memory always returns. It
  overwrites exactly the bytes from the offset on when the offset lies in the packet and the data
  fits behind it, across as many pbufs as needed; otherwise it reports an error and changes
  nothing. The structure of the packet and the memory of others stay.\<close>

theorem pbuf_take_at_overwrites:
  assumes "is_chain (pbuf_tab s) (Some p) ps" and "packet (pbuf_tab s) ps" and "writable s ps"
  shows "\<exists>m. pbuf_take_at (Some p) bs off s =
      Some (if unat off < total (pbuf_tab s) ps \<and> unat off + length bs \<le> total (pbuf_tab s) ps
            then ERR_OK else ERR_MEM, s\<lparr>pbuf_mem := m\<rparr>) \<and>
    content (s\<lparr>pbuf_mem := m\<rparr>) ps =
      (if unat off < total (pbuf_tab s) ps \<and> unat off + length bs \<le> total (pbuf_tab s) ps
       then take (unat off) (content s ps) @ bs @ drop (unat off + length bs) (content s ps)
       else content s ps) \<and>
    (\<forall>r. Some r \<notin> block_of s ` set ps \<longrightarrow> m r = pbuf_mem s r)"
proof -
  let ?t = "total (pbuf_tab s)"
  obtain q off' ps1 ps2 where sk: "pbuf_skip (Some p) off s = Some (q, off')" "ps = ps1 @ ps2"
    "is_chain (pbuf_tab s) q ps2" "unat off = ?t ps1 + unat off'"
    "\<And>a. q = Some a \<Longrightarrow> \<exists>b. pbuf_tab s a = Some b \<and> off' < p_len b"
    using pbuf_skip_chain [OF assms(1)] by blast
  show ?thesis
  proof (cases q)
    case None
    then have "ps2 = []" using sk(3) by (cases ps2) auto
    then have "\<not> unat off < ?t ps" using sk(2,4) by simp
    then show ?thesis using sk(1) None
      by (intro exI [of _ "pbuf_mem s"]) (simp add: pbuf_take_at_def)
  next
    case (Some a)
    obtain b where b: "pbuf_tab s a = Some b" "off' < p_len b" using sk(5) [OF Some] by blast
    obtain xs where ps2: "ps2 = a # xs" "is_chain (pbuf_tab s) (p_next b) xs"
      using sk(3) Some b by (cases ps2) auto
    have pk2: "packet (pbuf_tab s) (a # xs)" using packet_append assms(2) sk(2) ps2(1) by metis
    then have tot: "unat (p_tot_len b) = ?t (a # xs)" using b by simp
    have off: "unat off < ?t ps"
      using sk(2,4) ps2(1) b by (simp add: word_less_nat_alt)
    have fitsx: "unat off + length bs \<le> ?t ps \<longleftrightarrow> unat off' + length bs \<le> unat (p_tot_len b)"
      using sk(2,4) ps2(1) tot by simp
    show ?thesis
    proof (cases "unat off' + length bs \<le> unat (p_tot_len b)")
      case False
      then show ?thesis using sk(1) Some b fitsx
        by (intro exI [of _ "pbuf_mem s"]) (simp add: pbuf_take_at_def)
    next
      case True
      define n where "n = min (unat (p_len b) - unat off') (length bs)"
      define c where "c = payload_bytes s b"
      have w2: "writable s (a # xs)" using assms(3) sk(2) ps2(1) writable_append by metis
      then have fits: "payload_fits s b" "writable s xs" "block_of s a \<notin> block_of s ` set xs"
        using b by (auto simp: writable_def)
      have disj: "block_of s x \<noteq> block_of s y" if "x \<in> set ps1" "y \<in> set (a # xs)" for x y
      proof -
        have "distinct (map (block_of s) ps1 @ map (block_of s) (a # xs))"
          using assms(3) unfolding writable_def sk(2) ps2(1) map_append by blast
        then have "block_of s ` set ps1 \<inter> block_of s ` set (a # xs) = {}"
          by (simp only: distinct_append set_map)
        then show ?thesis using that by blast
      qed
      have n: "unat off' + length (take n bs) \<le> unat (p_len b)"
        using b(2) by (simp add: n_def word_less_nat_alt)
      obtain m1 where m1: "pbuf_write a (unat off') (take n bs) s = Some (s\<lparr>pbuf_mem := m1\<rparr>)"
        "payload_bytes (s\<lparr>pbuf_mem := m1\<rparr>) b = take (unat off') c @ take n bs @ drop (unat off' + length (take n bs)) c"
        "\<And>r. length (m1 r) = length (pbuf_mem s r)" "\<And>r. Some r \<noteq> block_of s a \<Longrightarrow> m1 r = pbuf_mem s r"
        using pbuf_write_bytes [OF b(1) fits(1) n] by (auto simp: c_def)
      define s1 where "s1 = s\<lparr>pbuf_mem := m1\<rparr>"
      have c1: "content s1 xs = content s xs" unfolding s1_def
      proof (rule content_mem)
        fix y r assume "y \<in> set xs" "block_of s y = Some r"
        then have "Some r \<noteq> block_of s a" using fits(3) by (metis image_eqI)
        then show "m1 r = pbuf_mem s r" by (rule m1(4))
      qed
      have rest: "length (drop n bs) \<le> total (pbuf_tab s1) xs"
        using True tot b by (simp add: n_def s1_def)
      have "writable s1 xs" unfolding s1_def by (rule writable_mem [OF fits(2) m1(3)])
      with rest obtain m where m: "pbuf_take_loop (p_next b) (drop n bs) s1 = Some (s1\<lparr>pbuf_mem := m\<rparr>)"
        "content (s1\<lparr>pbuf_mem := m\<rparr>) xs = drop n bs @ drop (length (drop n bs)) (content s1 xs)"
        "\<And>r. Some r \<notin> block_of s1 ` set xs \<Longrightarrow> m r = pbuf_mem s1 r"
        using pbuf_take_loop_chain [of s1 "p_next b" xs "drop n bs"] ps2(2) by (auto simp: s1_def)
      have s1m: "s1\<lparr>pbuf_mem := m\<rparr> = s\<lparr>pbuf_mem := m\<rparr>" by (simp add: s1_def)
      have bl: "block_of s1 = block_of s" by (simp add: s1_def)
      have take: "pbuf_take_at (Some p) bs off s = Some (ERR_OK, s\<lparr>pbuf_mem := m\<rparr>)"
      proof (cases "drop n bs = []")
        case nil: True
        then have "Some s1 = Some (s1\<lparr>pbuf_mem := m\<rparr>)" using m(1) by (simp add: pbuf_take_loop.simps)
        then have s1: "s1 = s\<lparr>pbuf_mem := m\<rparr>" by (simp add: s1m)
        show ?thesis using sk(1) Some b m1(1) nil True s1
          by (simp add: pbuf_take_at_def n_def [symmetric] s1_def)
      next
        case False
        obtain y ys where y: "xs = y # ys" using False rest ps2(2) by (cases xs) auto
        have "is_chain (pbuf_tab s1) (p_next b) (y # ys)" "packet (pbuf_tab s1) (y # ys)"
          using ps2(2) pk2 y by (simp_all add: s1_def)
        then have "pbuf_take (p_next b) (drop n bs) s1 = Some (s\<lparr>pbuf_mem := m\<rparr>)"
          using pbuf_take_chain [of s1 "p_next b" y ys "drop n bs"] rest m(1) y by (simp add: s1m)
        then show ?thesis using sk(1) Some b m1(1) False True
          by (simp add: pbuf_take_at_def n_def [symmetric] s1_def del: drop_eq_Nil)
      qed
      have mem: "m r = pbuf_mem s r" if "Some r \<notin> block_of s ` set (a # xs)" for r
        using that m(3) [of r] m1(4) [of r] by (auto simp: bl) (auto simp: s1_def)
      have cx: "payload_bytes (s\<lparr>pbuf_mem := m\<rparr>) b = take (unat off') c @ take n bs @ drop (unat off' + length (take n bs)) c"
      proof -
        have "payload_bytes (s1\<lparr>pbuf_mem := m\<rparr>) b = payload_bytes s1 b"
        proof (rule payload_bytes_mem [of _ a])
          show "pbuf_tab s1 a = Some b" using b by (simp add: s1_def)
          fix r assume "block_of s1 a = Some r"
          then have "Some r \<notin> block_of s1 ` set xs" using fits(3) by (auto simp: bl)
          then show "m r = pbuf_mem s1 r" by (rule m(3))
        qed
        then show ?thesis using m1(2) by (simp add: s1m) (simp add: s1_def)
      qed
      have cp: "content (s\<lparr>pbuf_mem := m\<rparr>) ps1 = content s ps1"
      proof (rule content_mem)
        fix x r assume "x \<in> set ps1" "block_of s x = Some r"
        then have "Some r \<notin> block_of s ` set (a # xs)" using disj by (metis imageE)
        then show "m r = pbuf_mem s r" by (rule mem)
      qed
      have l1: "length (content s ps1) = ?t ps1"
        using assms(3) sk(2) by (intro content_length) (auto simp: writable_def)
      have lc: "length c = unat (p_len b)" using fits(1) by (simp add: c_def payload_bytes_length)
      have "content (s\<lparr>pbuf_mem := m\<rparr>) ps =
          content s ps1 @ (take (unat off') c @ take n bs @ drop (unat off' + length (take n bs)) c) @
          (drop n bs @ drop (length (drop n bs)) (content s xs))"
        using b(1) by (simp add: sk(2) ps2(1) cp cx m(2) [unfolded s1m c1])
      also have "\<dots> = take (unat off) (content s ps) @ (take n bs @ drop n bs) @
          drop (unat off + length (take n bs @ drop n bs)) (content s ps)"
      proof (subst take_overwrite [OF l1])
        show "unat off' + length (take n bs) \<le> length c" using n lc by simp
        show "unat off' + length (take n bs) = length c" if "drop n bs \<noteq> []"
          using that n lc b(2) by (auto simp: n_def word_less_nat_alt)
      qed (use b(1) in \<open>simp add: sk(2,4) ps2(1) c_def\<close>)
      finally have "content (s\<lparr>pbuf_mem := m\<rparr>) ps =
        take (unat off) (content s ps) @ bs @ drop (unat off + length bs) (content s ps)" by simp
      moreover have "m r = pbuf_mem s r" if "Some r \<notin> block_of s ` set ps" for r
        using that by (intro mem) (auto simp: sk(2) ps2(1))
      ultimately show ?thesis using take off fitsx True by auto
    qed
  qed
qed

section \<open>Truncation\<close>

text \<open>The table after \<^verbatim>\<open>pbuf_realloc\<close>: shorter totals in \<open>ps1\<close>, the cut in \<open>q\<close>, and \<open>ps2\<close> gone.\<close>

definition cut_tab :: "(pbuf_addr \<Rightarrow> pbuf option) \<Rightarrow> pbuf_addr list \<Rightarrow> pbuf_addr \<Rightarrow> pbuf_addr list \<Rightarrow>
    u16 \<Rightarrow> u16 \<Rightarrow> pbuf_addr \<Rightarrow> pbuf option" where
  "cut_tab m ps1 q ps2 shrink rem_len a =
     (if a \<in> set ps2 then None
      else if a = q then map_option (\<lambda>b. b\<lparr>p_len := rem_len, p_tot_len := rem_len, p_next := None\<rparr>) (m a)
      else lengthen_tab m ps1 (- shrink) a)"

lemma pbuf_realloc_skip_chain:
  assumes "store_ok descs s" "is_chain (pbuf_tab s) (Some p) ps" "unat rem_len \<le> total (pbuf_tab s) ps"
  shows "\<exists>ps1 q ps2 rem' s'. ps = ps1 @ q # ps2 \<and> pbuf_realloc_skip p rem_len shrink s = Some (q, rem', s') \<and>
    unat rem_len = total (pbuf_tab s) ps1 + unat rem' \<and> unat rem' \<le> total (pbuf_tab s) [q] \<and>
    store_ok descs s' \<and> pbuf_mem s' = pbuf_mem s \<and> pbuf_tab s' = lengthen_tab (pbuf_tab s) ps1 (- shrink)"
  using assms
proof (induction ps arbitrary: p rem_len s)
  case (Cons x xs)
  obtain b where b: "p = x" "pbuf_tab s x = Some b" "is_chain (pbuf_tab s) (p_next b) xs"
    using Cons.prems(2) by auto
  have nin: "x \<notin> set xs" using is_chain_distinct [OF Cons.prems(2)] by simp
  show ?case
  proof (cases "rem_len > p_len b")
    case False
    then have "pbuf_realloc_skip p rem_len shrink s = Some (x, rem_len, s)"
      using b by (subst pbuf_realloc_skip.simps) simp
    moreover have "pbuf_tab s = lengthen_tab (pbuf_tab s) [] (- shrink)" by (simp add: lengthen_tab_def fun_eq_iff)
    ultimately show ?thesis using False b Cons.prems(1)
      by (intro exI [of _ "[]"] exI [of _ x] exI [of _ xs] exI [of _ rem_len] exI [of _ s])
        (simp add: word_le_nat_alt not_less)
  next
    case True
    then have lt: "unat (p_len b) < unat rem_len" by (simp add: word_less_nat_alt)
    then obtain y ys where y: "xs = y # ys" "p_next b = Some y"
      using Cons.prems(3) b by (cases xs) auto
    define s1 where "s1 = s\<lparr>pbuf_tab := (pbuf_tab s)(x \<mapsto> b\<lparr>p_tot_len := p_tot_len b - shrink\<rparr>)\<rparr>"
    have ok1: "store_ok descs s1" unfolding s1_def by (rule store_ok_lengthen [OF Cons.prems(1) b(2)])
    have same: "pbuf_tab s1 a = pbuf_tab s a" if "a \<in> set xs" for a using that nin by (auto simp: s1_def)
    have ch1: "is_chain (pbuf_tab s1) (Some y) xs"
      by (rule is_chain_frame [OF b(3) [unfolded y(2)] same])
    have tot1: "total (pbuf_tab s1) zs = total (pbuf_tab s) zs" for zs
      by (rule total_frame) (use b in \<open>simp add: s1_def\<close>)
    have r: "unat (rem_len - p_len b) = unat rem_len - unat (p_len b)"
      using lt by (intro unat_diff_le) (simp add: word_le_nat_alt)
    then have "unat (rem_len - p_len b) \<le> total (pbuf_tab s1) xs" using Cons.prems(3) b by (simp add: tot1)
    then obtain ps1 q ps2 rem' s' where IH: "xs = ps1 @ q # ps2"
      "pbuf_realloc_skip y (rem_len - p_len b) shrink s1 = Some (q, rem', s')"
      "unat (rem_len - p_len b) = total (pbuf_tab s) ps1 + unat rem'" "unat rem' \<le> total (pbuf_tab s) [q]"
      "store_ok descs s'" "pbuf_mem s' = pbuf_mem s1" "pbuf_tab s' = lengthen_tab (pbuf_tab s1) ps1 (- shrink)"
      using Cons.IH [OF ok1 ch1] unfolding tot1 by blast
    have "pbuf_realloc_skip p rem_len shrink s = Some (q, rem', s')"
      using b y True IH(2) by (subst pbuf_realloc_skip.simps) (simp add: s1_def)
    moreover have "unat rem_len = total (pbuf_tab s) (x # ps1) + unat rem'" using IH(3) r lt b by simp
    moreover have "pbuf_tab s' = lengthen_tab (pbuf_tab s) (x # ps1) (- shrink)"
      using nin b(2) IH(1) by (auto simp: IH(7) lengthen_tab_def s1_def fun_eq_iff)
    moreover have "pbuf_mem s' = pbuf_mem s" using IH(6) by (simp add: s1_def)
    ultimately show ?thesis using IH(1,4,5)
      by (intro exI [of _ "x # ps1"] exI [of _ q] exI [of _ ps2] exI [of _ rem'] exI [of _ s']) simp
  qed
qed simp

lemma pbuf_trim_not_heap:
  "pbuf_tab s q = Some b \<Longrightarrow> pbuf_get_allocsrc b \<noteq> PBUF_TYPE_ALLOC_SRC_MASK_STD_HEAP \<Longrightarrow> pbuf_trim_ram q r s = Some s"
  by (simp add: pbuf_trim_ram_def)

lemma pbuf_realloc_tab:
  assumes ok: "store_ok descs s" and ch: "is_chain (pbuf_tab s) (Some p) ps" and pk: "packet (pbuf_tab s) ps"
    and refs: "\<And>a. a \<in> set ps \<Longrightarrow> \<exists>b. pbuf_tab s a = Some b \<and> plain b \<and> p_ref b = 1 \<and>
      pbuf_get_allocsrc b \<noteq> PBUF_TYPE_ALLOC_SRC_MASK_STD_HEAP"
    and n: "unat new_len < total (pbuf_tab s) ps" and p: "pbuf_tab s p = Some b"
  shows "\<exists>ps1 q ps2 rem' s'. ps = ps1 @ q # ps2 \<and> pbuf_realloc p new_len s = Some s' \<and>
    unat new_len = total (pbuf_tab s) ps1 + unat rem' \<and> unat rem' \<le> total (pbuf_tab s) [q] \<and>
    store_ok descs s' \<and> pbuf_mem s' = pbuf_mem s \<and>
    pbuf_tab s' = cut_tab (pbuf_tab s) ps1 q ps2 (p_tot_len b - new_len) rem'"
proof -
  let ?m = "pbuf_tab s"
  define shrink where "shrink = p_tot_len b - new_len"
  obtain ps' where ps': "ps = p # ps'" using ch by (cases ps) auto
  have tot: "unat (p_tot_len b) = total ?m ps" using pk p ps' by simp
  obtain ps1 q ps2 rem' s1 where sk: "ps = ps1 @ q # ps2"
    "pbuf_realloc_skip p new_len shrink s = Some (q, rem', s1)"
    "unat new_len = total ?m ps1 + unat rem'" "unat rem' \<le> total ?m [q]"
    "store_ok descs s1" "pbuf_mem s1 = pbuf_mem s" "pbuf_tab s1 = lengthen_tab ?m ps1 (- shrink)"
    using pbuf_realloc_skip_chain [OF ok ch] n by (meson less_imp_le)
  have dist: "distinct ps" by (rule is_chain_distinct [OF ch])
  obtain qb where qb: "?m q = Some qb" "plain qb" "p_ref qb = 1"
    "pbuf_get_allocsrc qb \<noteq> PBUF_TYPE_ALLOC_SRC_MASK_STD_HEAP" using refs [of q] sk(1) by auto
  have q1: "pbuf_tab s1 q = Some qb" using qb dist sk(1) by (auto simp: sk(7) lengthen_tab_def)
  define qb2 where "qb2 = qb\<lparr>p_len := rem', p_tot_len := rem'\<rparr>"
  define s2 where "s2 = s1\<lparr>pbuf_tab := (pbuf_tab s1)(q \<mapsto> qb2)\<rparr>"
  have ok2: "store_ok descs s2"
    unfolding s2_def by (rule store_ok_update [OF sk(5) q1]) (simp_all add: qb2_def)
  have chq: "is_chain ?m (p_next qb) ps2" using is_chain_append [of ?m "Some p" ps1 q ps2] ch qb sk(1) by simp
  have same: "pbuf_tab s2 a = ?m a" if "a \<in> set ps2" for a
    using that dist sk(1) by (auto simp: s2_def sk(7) lengthen_tab_def)
  have ch2: "is_chain (pbuf_tab s2) (p_next qb) ps2" by (rule is_chain_frame [OF chq same])
  have refs2: "\<forall>a \<in> set ps2. \<exists>b. pbuf_tab s2 a = Some b \<and> plain b \<and> p_ref b = 1"
    using refs same sk(1) by fastforce
  have "\<exists>s3. (case p_next qb of None \<Rightarrow> Some s2
      | Some nxt \<Rightarrow> pbuf_free (Some nxt) s2 \<bind> (\<lambda>(_, s). Some s)) = Some s3 \<and> store_ok descs s3 \<and>
      pbuf_mem s3 = pbuf_mem s2 \<and> pbuf_tab s3 = (\<lambda>a. if a \<in> set ps2 then None else pbuf_tab s2 a)"
  proof (cases "p_next qb")
    case None
    then have "ps2 = []" using chq by (cases ps2) auto
    then show ?thesis using None ok2 by auto
  next
    case (Some nxt)
    have "chain_refs_ok (pbuf_tab s2) ps2" using refs2 by (fastforce simp: chain_refs_ok_def)
    then obtain s3 where "pbuf_free_loop (Some nxt) 0 s2 = Some (0 + word_of_nat (free_count (pbuf_tab s2) ps2), s3)"
      "store_ok descs s3" "pbuf_mem s3 = pbuf_mem s2" "pbuf_tab s3 = freed_tab (pbuf_tab s2) ps2"
      using pbuf_free_loop_chain [OF ok2] ch2 Some by metis
    moreover have "freed_tab (pbuf_tab s2) ps2 = (\<lambda>a. if a \<in> set ps2 then None else pbuf_tab s2 a)"
      by (rule freed_tab_all) (use refs2 in blast)
    ultimately show ?thesis using Some by (simp add: pbuf_free_def)
  qed
  then obtain s3 where s3: "(case p_next qb of None \<Rightarrow> Some s2
      | Some nxt \<Rightarrow> pbuf_free (Some nxt) s2 \<bind> (\<lambda>(_, s). Some s)) = Some s3" "store_ok descs s3"
      "pbuf_mem s3 = pbuf_mem s2" "pbuf_tab s3 = (\<lambda>a. if a \<in> set ps2 then None else pbuf_tab s2 a)"
    by blast
  have qn: "q \<notin> set ps2" using dist sk(1) by auto
  have q3: "pbuf_tab s3 q = Some qb2" using qn by (simp add: s3(4) s2_def)
  define s' where "s' = s3\<lparr>pbuf_tab := (pbuf_tab s3)(q \<mapsto> qb2\<lparr>p_next := None\<rparr>)\<rparr>"
  have "\<not> new_len \<ge> p_tot_len b" using n tot by (simp add: word_le_nat_alt)
  then have "pbuf_realloc p new_len s = Some s'"
    using p sk(2) q1 qb(4) s3(1) [unfolded s2_def qb2_def] q3 [unfolded qb2_def] pbuf_trim_not_heap [OF q1 qb(4)]
    by (simp add: pbuf_realloc_def shrink_def upd_pbuf_def s'_def qb2_def Let_def)
  moreover have "store_ok descs s'"
    unfolding s'_def by (rule store_ok_update [OF s3(2) q3]) simp_all
  moreover have "pbuf_tab s' = cut_tab ?m ps1 q ps2 shrink rem'"
    using qb(1) qn by (auto simp: s'_def s3(4) s2_def sk(7) cut_tab_def qb2_def fun_eq_iff)
  moreover have "pbuf_mem s' = pbuf_mem s" using s3(3) sk(6) by (simp add: s'_def s2_def)
  ultimately show ?thesis using sk(1,3,4) unfolding shrink_def by blast
qed

lemma cut_tab_packet:
  assumes ch: "is_chain m p (ps1 @ q # ps2)" and pk: "packet m (ps1 @ q # ps2)"
    and r: "unat rem' \<le> total m [q]" and shrink: "unat shrink + (total m ps1 + unat rem') = total m (ps1 @ q # ps2)"
  shows "is_chain (cut_tab m ps1 q ps2 shrink rem') p (ps1 @ [q])"
    and "packet (cut_tab m ps1 q ps2 shrink rem') (ps1 @ [q])"
    and "total (cut_tab m ps1 q ps2 shrink rem') (ps1 @ [q]) = total m ps1 + unat rem'"
proof -
  let ?c = "cut_tab m ps1 q ps2 shrink rem'"
  have dist: "distinct (ps1 @ q # ps2)" by (rule is_chain_distinct [OF ch])
  obtain qb where qb: "m q = Some qb" using is_chain_append [OF ch] by auto
  have cq: "?c q = Some (qb\<lparr>p_len := rem', p_tot_len := rem', p_next := None\<rparr>)"
    using dist qb by (simp add: cut_tab_def)
  have c1: "?c a = map_option (\<lambda>b. b\<lparr>p_tot_len := p_tot_len b - shrink\<rparr>) (m a)" if "a \<in> set ps1" for a
    using dist that by (auto simp: cut_tab_def lengthen_tab_def)
  have tot: "total ?c xs = total m xs" if "set xs \<subseteq> set ps1" for xs
    by (rule total_frame) (use that in \<open>auto simp: c1 option.map_comp o_def\<close>)
  show "total ?c (ps1 @ [q]) = total m ps1 + unat rem'" by (simp add: tot cq)
  have "is_chain ?c p' (xs @ [q])" if "is_chain m p' (xs @ q # ps2)" "set xs \<subseteq> set ps1" for p' xs
    using that
  proof (induction xs arbitrary: p')
    case Nil
    then show ?case using cq by simp
  next
    case (Cons x xs)
    then show ?case using c1 [of x] by auto
  qed
  then show "is_chain ?c p (ps1 @ [q])" using ch by simp
  have "packet ?c (xs @ [q])" if "packet m (xs @ q # ps2)" "set xs \<subseteq> set ps1" for xs
    using that
  proof (induction xs)
    case Nil
    then show ?case using cq by simp
  next
    case (Cons x xs)
    obtain b where b: "m x = Some b" "unat (p_tot_len b) = unat (p_len b) + total m (xs @ q # ps2)"
      using Cons.prems(1) by auto
    have "unat rem' \<le> unat (p_len qb)" using r qb by simp
    then have le: "unat shrink + (total m xs + unat rem') = total m (xs @ q # ps2)"
      using shrink by simp
    then have "unat (p_tot_len b - shrink) = unat (p_tot_len b) - unat shrink"
      using b(2) by (intro unat_diff_le) (simp add: word_le_nat_alt)
    then have "unat (p_tot_len b - shrink) = unat (p_len b) + total ?c (xs @ [q])"
      using b(2) le tot [of xs] Cons.prems(2) cq by simp
    then show ?case using Cons c1 [of x] b(1) by simp
  qed
  then show "packet ?c (ps1 @ [q])" using pk by simp
qed

lemma cut_tab_content:
  assumes "distinct (ps1 @ q # ps2)" "\<forall>a \<in> set (ps1 @ [q]). \<exists>b. pbuf_tab s a = Some b \<and> payload_fits s b"
    and "unat rem' \<le> total (pbuf_tab s) [q]" "pbuf_mem s' = pbuf_mem s"
    and tab: "pbuf_tab s' = cut_tab (pbuf_tab s) ps1 q ps2 shrink rem'"
  shows "content s' (ps1 @ [q]) = take (total (pbuf_tab s) ps1 + unat rem') (content s (ps1 @ q # ps2))"
proof -
  have "content s' ps1 = content s ps1"
  proof (rule content_frame [OF _ assms(4)])
    fix a assume "a \<in> set ps1"
    then show "map_option (\<lambda>b. (p_payload b, p_len b)) (pbuf_tab s' a) =
        map_option (\<lambda>b. (p_payload b, p_len b)) (pbuf_tab s a)"
      using assms(1) by (auto simp: tab cut_tab_def lengthen_tab_def option.map_comp o_def)
  qed
  moreover obtain qb where qb: "pbuf_tab s q = Some qb" "payload_fits s qb" using assms(2) by auto
  have "payload_bytes s' (qb\<lparr>p_len := rem', p_tot_len := rem', p_next := None\<rparr>) =
      take (unat rem') (payload_bytes s qb)"
    using assms(3) qb(1) by (simp add: payload_bytes_def assms(4) min_absorb1 split: option.split prod.split)
  moreover have "pbuf_tab s' q = Some (qb\<lparr>p_len := rem', p_tot_len := rem', p_next := None\<rparr>)"
    using assms(1) qb by (simp add: tab cut_tab_def)
  moreover have "length (content s ps1) = total (pbuf_tab s) ps1"
    using assms(2) by (intro content_length) auto
  moreover have "unat rem' \<le> length (payload_bytes s qb)" using payload_bytes_length [OF qb(2)] assms(3) qb(1) by simp
  ultimately show ?thesis using qb(1) by simp
qed

text \<open>C29: \<^verbatim>\<open>pbuf_realloc\<close> of a packet of pool or reference pbufs that nobody else references cuts
  it to the new length: the packet keeps its first bytes, all its \<^verbatim>\<open>tot_len\<close> fields are right again,
  and exactly the pbufs behind the cut are freed. A length that is not smaller
  changes nothing in the store.\<close>

theorem pbuf_realloc_truncates:
  assumes "store_ok descs s" and "is_chain (pbuf_tab s) (Some p) ps" and "packet (pbuf_tab s) ps"
    and "\<And>a. a \<in> set ps \<Longrightarrow> \<exists>b. pbuf_tab s a = Some b \<and> plain b \<and> p_ref b = 1 \<and>
      pbuf_get_allocsrc b \<noteq> PBUF_TYPE_ALLOC_SRC_MASK_STD_HEAP \<and> payload_fits s b"
  shows "\<exists>qs rest s'. ps = qs @ rest \<and> pbuf_realloc p new_len s = Some s' \<and> store_ok descs s' \<and>
    is_chain (pbuf_tab s') (Some p) qs \<and> packet (pbuf_tab s') qs \<and>
    total (pbuf_tab s') qs = min (unat new_len) (total (pbuf_tab s) ps) \<and>
    content s' qs = take (unat new_len) (content s ps) \<and>
    (\<forall>a. pbuf_tab s' a = None \<longleftrightarrow> pbuf_tab s a = None \<or> a \<in> set rest) \<and>
    (\<forall>a. a \<notin> set ps \<longrightarrow> pbuf_tab s' a = pbuf_tab s a) \<and>
    (unat new_len \<ge> total (pbuf_tab s) ps \<longrightarrow> s' = s)"
proof -
  let ?m = "pbuf_tab s"
  obtain ps' where ps': "ps = p # ps'" using assms(2) by (cases ps) simp_all
  obtain b where b: "?m p = Some b" using assms(2) unfolding ps' by (simp add: ex_in_conv) blast
  have tot: "unat (p_tot_len b) = total ?m ps" using assms(3) b unfolding ps' by simp
  show ?thesis
  proof (cases "unat new_len < total ?m ps")
    case False
    have "length (content s ps) = total ?m ps" by (rule content_length) (use assms(4) in blast)
    moreover have "pbuf_realloc p new_len s = Some s"
      using False b tot by (simp add: pbuf_realloc_def word_le_nat_alt)
    ultimately show ?thesis using False assms(1-3)
      by (intro exI [of _ ps] exI [of _ "[]"] exI [of _ s]) auto
  next
    case True
    have refs: "\<exists>b. ?m a = Some b \<and> plain b \<and> p_ref b = 1 \<and>
      pbuf_get_allocsrc b \<noteq> PBUF_TYPE_ALLOC_SRC_MASK_STD_HEAP" if "a \<in> set ps" for a using assms(4) [OF that] by blast
    obtain ps1 q ps2 rem' s' where r: "ps = ps1 @ q # ps2" "pbuf_realloc p new_len s = Some s'"
      "unat new_len = total ?m ps1 + unat rem'" "unat rem' \<le> total ?m [q]"
      "store_ok descs s'" "pbuf_mem s' = pbuf_mem s"
      "pbuf_tab s' = cut_tab ?m ps1 q ps2 (p_tot_len b - new_len) rem'"
      using pbuf_realloc_tab [OF assms(1-3) refs True b] by blast
    have "unat (p_tot_len b - new_len) = total ?m ps - unat new_len"
      using True tot by (subst unat_diff_le) (simp_all add: word_le_nat_alt)
    then have sh: "unat (p_tot_len b - new_len) + (total ?m ps1 + unat rem') = total ?m (ps1 @ q # ps2)"
      using r(1,3) True by simp
    note cut = cut_tab_packet [OF assms(2,3) [unfolded r(1)] r(4) sh, folded r(7)]
    have dist: "distinct (ps1 @ q # ps2)" using is_chain_distinct [OF assms(2)] r(1) by simp
    have fits: "\<forall>a \<in> set (ps1 @ [q]). \<exists>b. ?m a = Some b \<and> payload_fits s b"
      using assms(4) r(1) by fastforce
    have cont: "content s' (ps1 @ [q]) = take (unat new_len) (content s ps)"
      using cut_tab_content [OF dist fits r(4,6,7)] r(1,3) by simp
    have none: "pbuf_tab s' a = None \<longleftrightarrow> ?m a = None \<or> a \<in> set ps2" for a
      by (simp add: r(7) cut_tab_def lengthen_tab_def)
    have out: "pbuf_tab s' a = ?m a" if "a \<notin> set ps" for a
      using that r(1) by (simp add: r(7) cut_tab_def lengthen_tab_def)
    show ?thesis
      by (intro exI [of _ "ps1 @ [q]"] exI [of _ ps2] exI [of _ s'])
        (use r(1,2,5) cut cont none out True in \<open>simp add: r(3) min_absorb1 del: total_simps content_simps\<close>)
  qed
qed

section \<open>Concrete packets\<close>

abbreviation pb0 :: pbuf_addr where "pb0 \<equiv> Memp_pbuf MEMP_PBUF 0"
abbreviation pb1 :: pbuf_addr where "pb1 \<equiv> Memp_pbuf MEMP_PBUF 24"

text \<open>The two pbufs of the example as two packets, and as one packet that is referenced once.\<close>

definition split_store :: pbufs where
  "split_store = example_store\<lparr>pbuf_tab := (pbuf_tab example_store)
     (pb0 \<mapsto> (the (pbuf_tab example_store pb0))\<lparr>p_next := None, p_tot_len := 3\<rparr>)\<rparr>"

definition single_store :: pbufs where
  "single_store = example_store\<lparr>pbuf_tab := (pbuf_tab example_store)
     (pb1 \<mapsto> (the (pbuf_tab example_store pb1))\<lparr>p_ref := 1\<rparr>)\<rparr>"

lemma example_stores_ok: "store_ok example_descs split_store" "store_ok example_descs single_store"
proof -
  show "store_ok example_descs split_store" unfolding split_store_def
    by (rule store_ok_update [OF example_store_ok, where b = "the (pbuf_tab example_store pb0)"])
      (simp_all add: example_store_def)
  show "store_ok example_descs single_store" unfolding single_store_def
    by (rule store_ok_update [OF example_store_ok, where b = "the (pbuf_tab example_store pb1)"])
      (simp_all add: example_store_def)
qed

lemma split_store_packets:
  "is_chain (pbuf_tab split_store) (Some pb0) [pb0]" "is_chain (pbuf_tab split_store) (Some pb1) [pb1]"
  "packet (pbuf_tab split_store) [pb0]" "packet (pbuf_tab split_store) [pb1]"
  by (simp_all add: split_store_def example_store_def)

lemma single_store_packet:
  "is_chain (pbuf_tab single_store) (Some pb0) [pb0, pb1]" "packet (pbuf_tab single_store) [pb0, pb1]"
  "chain_refs_ok (pbuf_tab single_store) [pb1]" "writable single_store [pb0, pb1]"
  by (simp_all add: single_store_def example_store_def chain_refs_ok_def plain_def writable_def
      payload_fits_def block_of_def)

theorem pbuf_cat_concat_witness:
  "\<exists>s'. pbuf_cat (Some pb0) (Some pb1) split_store = Some s' \<and> content s' [pb0, pb1] = [2, 3, 4, 6, 7]"
proof -
  have "content split_store [pb0] @ content split_store [pb1] = [2, 3, 4, 6, 7]"
    by (simp add: split_store_def example_store_def payload_bytes_def)
  moreover have "total (pbuf_tab split_store) [pb0] + total (pbuf_tab split_store) [pb1] < 2 ^ 16"
    by (simp add: split_store_def example_store_def)
  ultimately show ?thesis
    using pbuf_cat_concat [OF example_stores_ok(1) split_store_packets(1,3,2,4)] by force
qed

theorem pbuf_dechain_tail_witness:
  "\<exists>s'. pbuf_dechain pb0 single_store = Some (None, s') \<and> store_ok example_descs s' \<and> pbuf_tab s' pb1 = None"
proof -
  have "free_count (pbuf_tab single_store) [pb1] = 1" by (simp add: single_store_def example_store_def)
  then show ?thesis
    using pbuf_dechain_tail [OF example_stores_ok(2) single_store_packet(1-3) refl] by auto
qed

theorem pbuf_take_at_overwrites_witness:
  "\<exists>m. pbuf_take_at (Some pb0) [9, 8] 2 single_store = Some (ERR_OK, single_store\<lparr>pbuf_mem := m\<rparr>) \<and>
    content (single_store\<lparr>pbuf_mem := m\<rparr>) [pb0, pb1] = [2, 3, 9, 8, 7]"
proof -
  have "total (pbuf_tab single_store) [pb0, pb1] = 5" "content single_store [pb0, pb1] = [2, 3, 4, 6, 7]"
    by (simp_all add: single_store_def example_store_def payload_bytes_def)
  then show ?thesis
    using pbuf_take_at_overwrites [OF single_store_packet(1,2,4), of "[9, 8]" 2]
    by (auto simp del: content_simps total_simps)
qed

theorem pbuf_realloc_truncates_witness:
  "\<exists>qs rest s'. [pb0, pb1] = qs @ rest \<and> pbuf_realloc pb0 2 single_store = Some s' \<and>
    is_chain (pbuf_tab s') (Some pb0) qs \<and> content s' qs = [2, 3]"
proof -
  have "content single_store [pb0, pb1] = [2, 3, 4, 6, 7]"
    by (simp add: single_store_def example_store_def payload_bytes_def)
  moreover have "\<exists>b. pbuf_tab single_store a = Some b \<and> plain b \<and> p_ref b = 1 \<and>
      pbuf_get_allocsrc b \<noteq> PBUF_TYPE_ALLOC_SRC_MASK_STD_HEAP \<and> payload_fits single_store b"
    if "a \<in> set [pb0, pb1]" for a
    using that by (auto simp: single_store_def example_store_def plain_def pbuf_get_allocsrc_def pbuf_bits
        payload_fits_def)
  ultimately show ?thesis
    using pbuf_realloc_truncates [OF example_stores_ok(2) single_store_packet(1,2), of 2]
    by (force simp del: content_simps)
qed

end
