(* ===== verification/Ip4_Addr.thy ===== *)
theory Ip4_Addr
  imports Lwip_Def
begin

text \<open>
  IPv4 addresses, \<^verbatim>\<open>core/ipv4/ip4_addr.c\<close>: classification against an interface, netmasks, and
  the textual forms. An address is the 32-bit word as it is stored, in network order on a
  little-endian host, so that its lowest byte is the first number of the dotted form.

  The lemmas give the bits of a valid netmask, the meaning of the broadcast test, and that the
  printer and the parser are inverse.
\<close>

section \<open>Classification\<close>

definition IPADDR_ANY :: u32 where "IPADDR_ANY = 0"
definition IPADDR_BROADCAST :: u32 where "IPADDR_BROADCAST = 0xffffffff"
definition IPADDR_NONE :: u32 where "IPADDR_NONE = 0xffffffff"

definition NETIF_FLAG_BROADCAST :: u8 where "NETIF_FLAG_BROADCAST = 0x02"

text \<open>The fields of \<^verbatim>\<open>struct netif\<close> that IPv4 uses here.\<close>

record netif4 =
  ip_addr :: u32
  netmask :: u32
  netif_flags :: u8

definition ip4_addr_netcmp :: "u32 \<Rightarrow> u32 \<Rightarrow> u32 \<Rightarrow> bool" where
  "ip4_addr_netcmp addr1 addr2 m \<longleftrightarrow> addr1 AND m = addr2 AND m"

definition ip4_addr_isbroadcast_u32 :: "u32 \<Rightarrow> netif4 \<Rightarrow> bool" where
  "ip4_addr_isbroadcast_u32 addr netif =
     (if NOT addr = IPADDR_ANY \<or> addr = IPADDR_ANY then True
      else if netif_flags netif AND NETIF_FLAG_BROADCAST = 0 then False
      else if addr = ip_addr netif then False
      else if ip4_addr_netcmp addr (ip_addr netif) (netmask netif) \<and>
              addr AND NOT (netmask netif) = IPADDR_BROADCAST AND NOT (netmask netif)
      then True else False)"

text \<open>The two loops of \<^verbatim>\<open>ip4_addr_netmask_valid\<close> over the masks \<^verbatim>\<open>1 << 31\<close> down to 1, as bit numbers.\<close>

fun skip_ones :: "u32 \<Rightarrow> nat \<Rightarrow> nat" where
  "skip_ones nm 0 = 0"
| "skip_ones nm (Suc i) = (if nm AND push_bit i 1 = 0 then Suc i else skip_ones nm i)"

fun no_ones :: "u32 \<Rightarrow> nat \<Rightarrow> bool" where
  "no_ones nm 0 = True"
| "no_ones nm (Suc i) = (if nm AND push_bit i 1 \<noteq> 0 then False else no_ones nm i)"

definition ip4_addr_netmask_valid :: "u32 \<Rightarrow> bool" where
  "ip4_addr_netmask_valid nmask =
     (let nm_hostorder = lwip_htonl nmask
      in no_ones nm_hostorder (skip_ones nm_hostorder 32))"

lemma no_ones_iff: "no_ones nm n \<longleftrightarrow> (\<forall>i < n. \<not> bit nm i)"
  by (induction n) (auto simp: and_exp_eq_0_iff_not_bit less_Suc_eq split: if_splits)

lemma skip_ones_props:
  "skip_ones nm n \<le> n" "skip_ones nm n \<le> i \<Longrightarrow> i < n \<Longrightarrow> bit nm i"
  "0 < skip_ones nm n \<Longrightarrow> \<not> bit nm (skip_ones nm n - 1)"
  by (induction n) (auto simp: and_exp_eq_0_iff_not_bit less_Suc_eq split: if_splits)

text \<open>A netmask is valid exactly if, in host order, it is \<open>n\<close> ones followed by zeros, for
  some \<open>n\<close> up to 32.\<close>

lemma ip4_addr_netmask_valid_iff:
  "ip4_addr_netmask_valid nmask \<longleftrightarrow>
     (\<exists>n \<le> 32. \<forall>i. bit (lwip_htonl nmask) i \<longleftrightarrow> 32 - n \<le> i \<and> i < 32)"
proof -
  define nm where "nm = lwip_htonl nmask"
  define k where "k = skip_ones nm 32"
  have v: "ip4_addr_netmask_valid nmask \<longleftrightarrow> (\<forall>i < k. \<not> bit nm i)"
    by (simp add: ip4_addr_netmask_valid_def nm_def k_def Let_def no_ones_iff)
  have k: "k \<le> 32" and ones: "\<And>i. k \<le> i \<Longrightarrow> i < 32 \<Longrightarrow> bit nm i" and zero: "0 < k \<Longrightarrow> \<not> bit nm (k - 1)"
    using skip_ones_props [of nm 32] by (simp_all add: k_def)
  have len: "bit nm i \<Longrightarrow> i < 32" for i using bit_imp_le_length [of nm i] by simp
  show ?thesis
  proof
    assume "ip4_addr_netmask_valid nmask"
    then have z: "\<not> bit nm i" if "i < k" for i using v that by blast
    have "32 - (32 - k) = k" using k by simp
    moreover have "bit nm i \<longleftrightarrow> k \<le> i \<and> i < 32" for i
      using z [of i] ones [of i] len [of i] by (cases "i < k") (simp_all, blast)
    ultimately show "\<exists>n \<le> 32. \<forall>i. bit (lwip_htonl nmask) i \<longleftrightarrow> 32 - n \<le> i \<and> i < 32"
      unfolding nm_def by (intro exI [of _ "32 - k"]) simp
  next
    assume "\<exists>n \<le> 32. \<forall>i. bit (lwip_htonl nmask) i \<longleftrightarrow> 32 - n \<le> i \<and> i < 32"
    then obtain n where n: "n \<le> 32" "\<And>i. bit nm i \<longleftrightarrow> 32 - n \<le> i \<and> i < 32"
      unfolding nm_def by blast
    have "\<not> bit nm i" if "i < k" for i
    proof
      assume "bit nm i"
      then have "32 - n \<le> k - 1" "k - 1 < 32" using n(2) [of i] that k by auto
      then show False using zero that n(2) [of "k - 1"] by simp
    qed
    then show "ip4_addr_netmask_valid nmask" using v by blast
  qed
qed

section \<open>Parsing\<close>

definition lwip_in_range :: "u8 \<Rightarrow> u8 \<Rightarrow> u8 \<Rightarrow> bool" where
  "lwip_in_range c lo up \<longleftrightarrow> c \<ge> lo \<and> c \<le> up"

definition lwip_isdigit :: "u8 \<Rightarrow> bool" where "lwip_isdigit c = lwip_in_range c 0x30 0x39"
definition lwip_islower :: "u8 \<Rightarrow> bool" where "lwip_islower c = lwip_in_range c 0x61 0x7a"
definition lwip_isxdigit :: "u8 \<Rightarrow> bool" where
  "lwip_isxdigit c \<longleftrightarrow> lwip_isdigit c \<or> lwip_in_range c 0x61 0x66 \<or> lwip_in_range c 0x41 0x46"
definition lwip_isspace :: "u8 \<Rightarrow> bool" where
  "lwip_isspace c \<longleftrightarrow> c = 0x20 \<or> c = 0x0c \<or> c = 0x0a \<or> c = 0x0d \<or> c = 0x09 \<or> c = 0x0b"

text \<open>The digits of one number, and one number with its base; the rest of the string remains.\<close>

fun aton_digits :: "u32 \<Rightarrow> u32 \<Rightarrow> u8 list \<Rightarrow> u32 \<times> u8 list" where
  "aton_digits base val [] = (val, [])"
| "aton_digits base val (c # cp) =
     (if lwip_isdigit c then aton_digits base (val * base + (ucast c - 0x30)) cp
      else if base = 16 \<and> lwip_isxdigit c
      then aton_digits base (push_bit 4 val OR (ucast c + 10 - (if lwip_islower c then 0x61 else 0x41))) cp
      else (val, c # cp))"

definition aton_number :: "u8 list \<Rightarrow> (u32 \<times> u8 list) option" where
  "aton_number cp =
     (case cp of
        [] \<Rightarrow> None
      | c # cs \<Rightarrow>
          if \<not> lwip_isdigit c then None
          else if c = 0x30 then
            (case cs of
               x # xs \<Rightarrow> if x = 0x78 \<or> x = 0x58 then Some (aton_digits 16 0 xs) else Some (aton_digits 8 0 cs)
             | [] \<Rightarrow> Some (aton_digits 8 0 cs))
          else Some (aton_digits 10 0 cp))"

text \<open>The outer loop: \<open>parts\<close> is the filled part of the array, the result its value at the exit.\<close>

function aton_loop :: "u32 list \<Rightarrow> u8 list \<Rightarrow> (u32 list \<times> u32 \<times> u8 list) option" where
  "aton_loop parts cp =
     (case aton_number cp of
        None \<Rightarrow> None
      | Some (val, rest) \<Rightarrow>
          if chr_at rest = 0x2e
          then if length parts \<ge> 3 then None else aton_loop (parts @ [val]) (tl rest)
          else Some (parts, val, rest))"
  by pat_completeness auto
termination by (relation "measure (\<lambda>(parts, cp). 4 - length parts)") auto

declare aton_loop.simps [simp del]

text \<open>\<open>None\<close> is the return value 0; the length of \<open>parts\<close> is \<^verbatim>\<open>pp - parts\<close>.\<close>

definition ip4addr_aton :: "u8 list \<Rightarrow> u32 option" where
  "ip4addr_aton cp =
     (case aton_loop [] cp of
        None \<Rightarrow> None
      | Some (parts, val, rest) \<Rightarrow>
          if rest \<noteq> [] \<and> \<not> lwip_isspace (chr_at rest) then None
          else
            (case parts of
               [] \<Rightarrow> Some (lwip_htonl val)
             | [p0] \<Rightarrow>
                 if val > 0xffffff then None
                 else if p0 > 0xff then None
                 else Some (lwip_htonl (val OR push_bit 24 p0))
             | [p0, p1] \<Rightarrow>
                 if val > 0xffff then None
                 else if p0 > 0xff \<or> p1 > 0xff then None
                 else Some (lwip_htonl (val OR (push_bit 24 p0 OR push_bit 16 p1)))
             | p0 # p1 # p2 # _ \<Rightarrow>
                 if val > 0xff then None
                 else if p0 > 0xff \<or> p1 > 0xff \<or> p2 > 0xff then None
                 else Some (lwip_htonl (val OR (push_bit 24 p0 OR push_bit 16 p1 OR push_bit 8 p2)))))"

definition ipaddr_addr :: "u8 list \<Rightarrow> u32" where
  "ipaddr_addr cp = (case ip4addr_aton cp of Some val \<Rightarrow> val | None \<Rightarrow> IPADDR_NONE)"

section \<open>Printing\<close>

text \<open>
  \<open>ntoa_digits\<close> is the \<^verbatim>\<open>do\<close> loop that fills \<^verbatim>\<open>inv\<close>, least significant digit first. \<open>put\<close> stores
  a character if there is room; the buffer is the list of the bytes written so far, whose length
  is \<^verbatim>\<open>len\<close>. The last step overwrites the trailing dot with the NUL.
\<close>

function ntoa_digits :: "u8 \<Rightarrow> u8 list \<Rightarrow> u8 list" where
  "ntoa_digits ap ds =
     (let rem = ap mod 10; ap' = ap div 10; ds = ds @ [0x30 + rem]
      in if ap' \<noteq> 0 then ntoa_digits ap' ds else ds)"
  by pat_completeness auto
termination
proof (relation "measure (\<lambda>(ap, ds). unat ap)")
  fix rem ap' ap :: u8 and ds ds' :: "u8 list"
  assume "ap' = ap div 10" "ap' \<noteq> 0"
  then have "unat ap div 10 \<noteq> 0" by (simp add: word_unat_eq_iff unat_div)
  then show "((ap', ds'), ap, ds) \<in> measure (\<lambda>(ap, ds). unat ap)"
    using \<open>ap' = ap div 10\<close> by (simp add: unat_div)
qed auto

declare ntoa_digits.simps [simp del]

definition put :: "int \<Rightarrow> u8 \<Rightarrow> u8 list \<Rightarrow> u8 list option" where
  "put buflen c out = (if int (length out) \<ge> buflen then None else Some (out @ [c]))"

fun put_all :: "int \<Rightarrow> u8 list \<Rightarrow> u8 list \<Rightarrow> u8 list option" where
  "put_all buflen [] out = Some out"
| "put_all buflen (c # cs) out = (put buflen c out \<bind> put_all buflen cs)"

definition addr_byte :: "u32 \<Rightarrow> nat \<Rightarrow> u8" where
  "addr_byte addr n = ucast (drop_bit (8 * n) addr)"

fun ntoa_loop :: "int \<Rightarrow> u8 list \<Rightarrow> u8 list \<Rightarrow> u8 list option" where
  "ntoa_loop buflen [] out = Some out"
| "ntoa_loop buflen (ap # aps) out =
     (put_all buflen (rev (ntoa_digits ap [])) out \<bind> (\<lambda>out. put buflen 0x2e out \<bind> ntoa_loop buflen aps))"

definition ip4addr_ntoa_r :: "u32 \<Rightarrow> int \<Rightarrow> u8 list option" where
  "ip4addr_ntoa_r addr buflen =
     (ntoa_loop buflen (map (addr_byte addr) [0, 1, 2, 3]) [] \<bind> (\<lambda>out. Some (butlast out)))"

definition IP4ADDR_STRLEN_MAX :: int where "IP4ADDR_STRLEN_MAX = 16"

definition ip4addr_ntoa :: "u32 \<Rightarrow> u8 list option" where
  "ip4addr_ntoa addr = ip4addr_ntoa_r addr IP4ADDR_STRLEN_MAX"

section \<open>The dotted form\<close>

definition dotted :: "u32 \<Rightarrow> u8 list" where
  "dotted addr = decimal (uint (addr_byte addr 0)) @ 0x2e # decimal (uint (addr_byte addr 1)) @
     0x2e # decimal (uint (addr_byte addr 2)) @ 0x2e # decimal (uint (addr_byte addr 3))"

lemma decimal_unat: "decimal (uint (b :: u8)) = (if b = 0 then [0x30] else digits (unat b))"
  by (simp add: decimal_def uint_0_iff)

lemma decimal_0 [simp]: "decimal 0 = [0x30]"
  by (simp add: decimal_def)

lemma digits_step: "0 < n \<Longrightarrow> digits n = digits (n div 10) @ [0x30 + word_of_nat (n mod 10)]"
  by (subst digits.simps) simp

lemma ntoa_digits_eq: "ntoa_digits ap ds = ds @ rev (decimal (uint ap))"
proof (induction ap ds rule: ntoa_digits.induct)
  case (1 ap ds)
  have rem: "ap mod 10 = word_of_nat (unat ap mod 10)" by (simp add: word_unat_eq_iff unat_mod unat_of_nat u8_lt)
  have d: "unat (ap div 10) = unat ap div 10" by (simp add: unat_div)
  show ?case
  proof (cases "ap div 10 = 0")
    case False
    then have "ap \<noteq> 0" by auto
    moreover have "digits (unat ap) = digits (unat (ap div 10)) @ [0x30 + ap mod 10]"
      using digits_step [of "unat ap"] calculation by (simp add: d rem word_neq_0_conv word_less_nat_alt)
    ultimately show ?thesis using 1 [OF refl refl refl False] False
      by (subst ntoa_digits.simps) (simp add: decimal_unat)
  next
    case True
    then have lt: "unat ap div 10 = 0" using d by simp
    show ?thesis
    proof (cases "ap = 0")
      case True
      then show ?thesis by (subst ntoa_digits.simps) (simp add: decimal_unat)
    next
      case False
      then have "digits (unat ap) = [0x30 + ap mod 10]"
        using digits_step [of "unat ap"] lt by (simp add: rem word_neq_0_conv word_less_nat_alt digits.simps [of 0])
      then show ?thesis using False True by (subst ntoa_digits.simps) (simp add: decimal_unat)
    qed
  qed
qed

lemma put_all_eq:
  "put_all buflen cs out = (if cs = [] \<or> int (length out + length cs) \<le> buflen then Some (out @ cs) else None)"
  by (induction cs arbitrary: out) (auto simp: put_def)

text \<open>\<^verbatim>\<open>ip4addr_ntoa_r\<close> writes the dotted decimal form of the address, the numbers of its four
  bytes in order, exactly when the form and its NUL fit into the buffer, and otherwise returns
  NULL; the static buffer of \<^verbatim>\<open>ip4addr_ntoa\<close> is always large enough.\<close>

lemma ip4addr_ntoa_dotted:
  "ip4addr_ntoa_r addr buflen = (if int (length (dotted addr)) < buflen then Some (dotted addr) else None) \<and>
   ip4addr_ntoa addr = Some (dotted addr)"
proof -
  have ne: "decimal (uint (b :: u8)) \<noteq> []" for b
    using digits_step [of "unat b"] by (auto simp: decimal_unat word_neq_0_conv word_less_nat_alt)
  have step: "ntoa_loop n (b # bs) out =
      (if int (length out + length (decimal (uint b))) < n then ntoa_loop n bs (out @ decimal (uint b) @ [0x2e]) else None)"
    for n b bs out
    using ne [of b] by (auto simp: put_all_eq ntoa_digits_eq put_def)
  have r: "ip4addr_ntoa_r addr n = (if int (length (dotted addr)) < n then Some (dotted addr) else None)" for n
    by (auto simp: ip4addr_ntoa_r_def step dotted_def butlast_append simp del: ntoa_loop.simps(2))
  have l3: "length (decimal (uint (b :: u8))) \<le> 3" for b
  proof -
    have "length (digits n) \<le> 3" if "n < 1000" for n
    proof -
      have "length (digits m) \<le> 1" if "m < 10" for m
        using that by (subst digits.simps) (simp add: digits.simps [of 0])
      moreover have "length (digits m) \<le> 2" if "m < 100" for m
        using that calculation [of "m div 10"] by (subst digits.simps) simp
      ultimately show ?thesis using that by (subst digits.simps) simp
    qed
    then show ?thesis using u8_lt [of b] by (simp add: decimal_unat)
  qed
  have "length (dotted addr) < 16"
    using l3 [of "addr_byte addr 0"] l3 [of "addr_byte addr 1"] l3 [of "addr_byte addr 2"] l3 [of "addr_byte addr 3"]
    by (simp add: dotted_def)
  then show ?thesis using r by (simp add: ip4addr_ntoa_def IP4ADDR_STRLEN_MAX_def)
qed

section \<open>Parsing what was printed\<close>

lemma digit_char:
  assumes "m < 10"
  shows "lwip_isdigit (0x30 + word_of_nat m)" "ucast (0x30 + word_of_nat m :: u8) - 0x30 = (word_of_nat m :: u32)"
    "(0x30 + word_of_nat m = (0x30 :: u8)) \<longleftrightarrow> m = 0"
proof -
  have v: "unat (0x30 + word_of_nat m :: u8) = 48 + m" using digit_value [OF assms] by simp
  then show "lwip_isdigit (0x30 + word_of_nat m)"
    using assms by (simp add: lwip_isdigit_def lwip_in_range_def word_le_nat_alt)
  have "(ucast (0x30 + word_of_nat m :: u8) :: u32) = word_of_nat (48 + m)"
    unfolding word_unat_eq_iff unat_ucast_up v using assms by (subst unat_of_nat) simp
  then show "ucast (0x30 + word_of_nat m :: u8) - 0x30 = (word_of_nat m :: u32)" by simp
  show "(0x30 + word_of_nat m = (0x30 :: u8)) \<longleftrightarrow> m = 0"
    using v assms by (simp add: word_unat_eq_iff)
qed

lemma digits_hd: "0 < n \<Longrightarrow> \<exists>c cs. digits n = c # cs \<and> lwip_isdigit c \<and> c \<noteq> 0x30"
proof (induction n rule: digits.induct)
  case (1 n)
  note st = digits_step [OF "1.prems"]
  show ?case
  proof (cases "n < 10")
    case True
    then show ?thesis using st "1.prems" digit_char [of n] by (simp add: digits.simps [of 0])
  next
    case False
    then have "0 < n div 10" by (simp add: div_greater_zero_iff)
    then obtain c cs where "digits (n div 10) = c # cs" "lwip_isdigit c" "c \<noteq> 0x30"
      using "1.IH" "1.prems" by auto
    then show ?thesis using st by simp
  qed
qed

lemma aton_digits_digits:
  "aton_digits 10 v (digits n @ rest) = aton_digits 10 (v * 10 ^ length (digits n) + word_of_nat n) rest"
proof (induction n arbitrary: v rest rule: digits.induct)
  case (1 n)
  show ?case
  proof (cases "n = 0")
    case True
    then show ?thesis by (simp add: digits.simps [of 0])
  next
    case False
    define d where "d = (0x30 + word_of_nat (n mod 10) :: u8)"
    have st: "digits n = digits (n div 10) @ [d]" using digits_step [of n] False by (simp add: d_def)
    define k where "k = length (digits (n div 10))"
    have "aton_digits 10 v (digits n @ rest) = aton_digits 10 (v * 10 ^ k + word_of_nat (n div 10)) (d # rest)"
      using "1.IH" [OF False, of v "d # rest"] st by (simp add: k_def)
    also have "\<dots> = aton_digits 10 ((v * 10 ^ k + word_of_nat (n div 10)) * 10 + word_of_nat (n mod 10)) rest"
      using digit_char(1,2) [of "n mod 10"] by (simp add: d_def)
    also have "(v * 10 ^ k + word_of_nat (n div 10)) * 10 + word_of_nat (n mod 10) =
        v * 10 ^ length (digits n) + (word_of_nat n :: u32)"
    proof -
      have "(word_of_nat n :: u32) = word_of_nat (n div 10) * 10 + word_of_nat (n mod 10)"
        by (metis div_mult_mod_eq of_nat_add of_nat_mult of_nat_numeral)
      then show ?thesis using st by (simp add: k_def algebra_simps)
    qed
    finally show ?thesis .
  qed
qed

lemma aton_number_decimal:
  assumes "\<not> lwip_isdigit (chr_at rest)" "chr_at rest \<noteq> 0x78" "chr_at rest \<noteq> 0x58"
  shows "aton_number (decimal (uint (b :: u8)) @ rest) = Some (ucast b, rest)"
proof (cases "b = 0")
  case True
  have "aton_digits 8 0 rest = (0, rest)"
    using assms(1) by (cases rest) (auto simp: chr_at_def)
  then show ?thesis using True assms(2,3)
    by (cases rest) (auto simp: aton_number_def chr_at_def lwip_isdigit_def lwip_in_range_def)
next
  case False
  then have n: "0 < unat b" by (simp add: unat_gt_0)
  obtain c cs where c: "digits (unat b) = c # cs" "lwip_isdigit c" "c \<noteq> 0x30" using digits_hd [OF n] by blast
  have stop: "aton_digits 10 v rest = (v, rest)" for v
    using assms(1) by (cases rest) (auto simp: chr_at_def)
  have "aton_digits 10 0 (digits (unat b) @ rest) = (ucast b, rest)"
    using aton_digits_digits [of 0 "unat b" rest] stop
    by (simp add: word_unat_eq_iff unat_of_nat unat_ucast_up order.strict_trans [OF u8_lt])
  then show ?thesis using c False by (simp add: aton_number_def decimal_unat)
qed

lemma bit_addr_byte: "bit (ucast (addr_byte addr n) :: u32) i \<longleftrightarrow> i < 8 \<and> bit addr (8 * n + i)"
  by (auto simp: addr_byte_def bit_simps)

lemma addr_of_bytes:
  "lwip_htonl (ucast (addr_byte addr 3) OR (push_bit 24 (ucast (addr_byte addr 0)) OR
     push_bit 16 (ucast (addr_byte addr 1)) OR push_bit 8 (ucast (addr_byte addr 2)))) = addr"
proof (rule bit_word_eqI)
  fix i
  assume "i < LENGTH(32)"
  then have i: "i < 32" by simp
  show "bit (lwip_htonl (ucast (addr_byte addr 3) OR (push_bit 24 (ucast (addr_byte addr 0)) OR
     push_bit 16 (ucast (addr_byte addr 1)) OR push_bit 8 (ucast (addr_byte addr 2))))) i = bit addr i"
    unfolding bit_lwip_htonl bit_or_iff bit_push_bit_iff bit_addr_byte
    using i by (cases "i < 8"; cases "i < 16"; cases "i < 24") (auto simp: bit_addr_byte)
qed

lemma aton_dotted:
  assumes "rest = [] \<or> lwip_isspace (chr_at rest)"
  shows "ip4addr_aton (dotted addr @ rest) = Some addr"
proof -
  have dot: "\<not> lwip_isdigit (chr_at (0x2e # xs))" "chr_at (0x2e # xs) \<noteq> 0x78" "chr_at (0x2e # xs) \<noteq> 0x58" for xs
    by (simp_all add: chr_at_def lwip_isdigit_def lwip_in_range_def)
  have stop: "\<not> lwip_isdigit (chr_at rest)" "chr_at rest \<noteq> 0x78" "chr_at rest \<noteq> 0x58" "chr_at rest \<noteq> 0x2e"
    using assms by (auto simp: lwip_isspace_def lwip_isdigit_def lwip_in_range_def chr_at_def)
  have small: "\<not> (ucast (b :: u8) :: u32) > 0xff" for b
    using u8_lt [of b] by (simp add: word_less_nat_alt unat_ucast_up)
  have more: "aton_loop parts (decimal (uint (b :: u8)) @ 0x2e # xs) = aton_loop (parts @ [ucast b]) xs"
    if "length parts < 3" for parts b xs
    using that aton_number_decimal [OF dot, of b xs] by (subst aton_loop.simps) (simp add: chr_at_def)
  have final: "aton_loop parts (decimal (uint (b :: u8)) @ rest) = Some (parts, ucast b, rest)" for parts b
    using aton_number_decimal [OF stop(1-3), of b] stop(4) by (subst aton_loop.simps) simp
  have "aton_loop [] (dotted addr @ rest) =
      Some ([ucast (addr_byte addr 0), ucast (addr_byte addr 1), ucast (addr_byte addr 2)], ucast (addr_byte addr 3), rest)"
    by (simp add: dotted_def more final)
  then show ?thesis using assms small addr_of_bytes [of addr] by (auto simp: ip4addr_aton_def)
qed

text \<open>C40: the parser reads back what the printer writes. \<^verbatim>\<open>ip4addr_ntoa\<close> prints every address, in the dotted form, and
  \<^verbatim>\<open>ip4addr_ntoa_r\<close> prints the same when the buffer has room for it and its NUL, and nothing otherwise; \<^verbatim>\<open>ip4addr_aton\<close> accepts what is
  printed, also when white space and anything else follow, and gives that address.\<close>

theorem ip4addr_aton_ntoa:
  assumes "rest = [] \<or> lwip_isspace (chr_at rest)"
  shows "\<exists>str. ip4addr_ntoa addr = Some str \<and> str = dotted addr \<and>
    (\<forall>buflen. ip4addr_ntoa_r addr buflen = (if int (length str) < buflen then Some str else None)) \<and>
    ip4addr_aton (str @ rest) = Some addr"
  using ip4addr_ntoa_dotted aton_dotted [OF assms] by blast

theorem ip4addr_aton_ntoa_witness:
  "\<exists>str. ip4addr_ntoa 0x0100007f = Some str \<and> ip4addr_aton (str @ [0x20]) = Some 0x0100007f"
proof -
  have "[0x20] = [] \<or> lwip_isspace (chr_at [0x20])" by (simp add: chr_at_def lwip_isspace_def)
  from ip4addr_aton_ntoa [OF this] show ?thesis by blast
qed

text \<open>
  Numbers are not checked for overflow: \<^verbatim>\<open>4294967297.0.0.1\<close> is accepted as \<^verbatim>\<open>1.0.0.1\<close>, and the digits
  8 and 9 are accepted in octal numbers.
\<close>

lemma ip4addr_aton_overflow:
  "ip4addr_aton [0x34, 0x32, 0x39, 0x34, 0x39, 0x36, 0x37, 0x32, 0x39, 0x37, 0x2e, 0x30, 0x2e, 0x30, 0x2e, 0x31] =
     Some (lwip_htonl 0x01000001)"
  by (simp add: ip4addr_aton_def aton_loop.simps aton_number_def lwip_isdigit_def lwip_in_range_def chr_at_def)
    (rule arg_cong [where f = lwip_htonl], simp)

end
