(* ===== verification/Tcp_Base.thy ===== *)
theory Tcp_Base
  imports Sys_Timeouts Lwip_Def
begin

text \<open>
  What the TCP theories share: sequence numbers (\<^verbatim>\<open>include/lwip/priv/tcp_priv.h\<close>), the states,
  segments and control blocks (\<^verbatim>\<open>tcpbase.h\<close>, \<^verbatim>\<open>tcp.h\<close>, \<^verbatim>\<open>tcp_priv.h\<close>), the segment pool, the
  receive window and the segments without data that \<^verbatim>\<open>core/tcp_out.c\<close> sends.

  A segment's pbuf chain is the list of the payloads of its pbufs behind the TCP header; the theory
  \<^verbatim>\<open>Pbuf_Ops\<close> justifies this view. Freeing a buffer has no effect on values and is not shown, but
  the pool of the segments is counted. The header of a queued segment is part of the segment, in
  host byte order.

  The lemmas say that on positions within half of the number range the comparisons of sequence
  numbers are those of the positions, and how the announced window moves.
\<close>

section \<open>Sequence numbers\<close>

definition TCP_SEQ_LT :: "u32 \<Rightarrow> u32 \<Rightarrow> bool" where "TCP_SEQ_LT a b \<longleftrightarrow> sint (a - b) < 0"
definition TCP_SEQ_LEQ :: "u32 \<Rightarrow> u32 \<Rightarrow> bool" where "TCP_SEQ_LEQ a b \<longleftrightarrow> sint (a - b) \<le> 0"
definition TCP_SEQ_GT :: "u32 \<Rightarrow> u32 \<Rightarrow> bool" where "TCP_SEQ_GT a b \<longleftrightarrow> sint (a - b) > 0"
definition TCP_SEQ_GEQ :: "u32 \<Rightarrow> u32 \<Rightarrow> bool" where "TCP_SEQ_GEQ a b \<longleftrightarrow> sint (a - b) \<ge> 0"
definition TCP_SEQ_BETWEEN :: "u32 \<Rightarrow> u32 \<Rightarrow> u32 \<Rightarrow> bool" where
  "TCP_SEQ_BETWEEN a b c \<longleftrightarrow> TCP_SEQ_GEQ a b \<and> TCP_SEQ_LEQ a c"

text \<open>The number of a position in the unbounded sequence space.\<close>

abbreviation sq :: "nat \<Rightarrow> u32" where "sq \<equiv> word_of_nat"

lemma sq_add: "sq p + sq q = sq (p + q)"
  by simp

lemma sint_of_int_small: "- 2147483648 \<le> k \<Longrightarrow> k < 2147483648 \<Longrightarrow> sint (word_of_int k :: u32) = k"
  by (simp add: signed_take_bit_int_eq_self sint_sbintrunc')

lemma sq_diff: "sq p - sq q = word_of_int (int p - int q)"
  by (simp add: of_int_diff)

lemma sint_sq_diff:
  assumes "p < q + 2147483648" "q < p + 2147483648"
  shows "sint (sq p - sq q) = int p - int q"
  unfolding sq_diff using assms by (intro sint_of_int_small) linarith+

lemma sq_compare:
  assumes "p < q + 2147483648" "q < p + 2147483648"
  shows "TCP_SEQ_LT (sq p) (sq q) \<longleftrightarrow> p < q" "TCP_SEQ_LEQ (sq p) (sq q) \<longleftrightarrow> p \<le> q"
    "TCP_SEQ_GT (sq p) (sq q) \<longleftrightarrow> q < p" "TCP_SEQ_GEQ (sq p) (sq q) \<longleftrightarrow> q \<le> p"
    "sq p = sq q \<longleftrightarrow> p = q"
proof -
  have e: "sint (sq p - sq q) = int p - int q" by (rule sint_sq_diff [OF assms])
  show "TCP_SEQ_LT (sq p) (sq q) \<longleftrightarrow> p < q" "TCP_SEQ_LEQ (sq p) (sq q) \<longleftrightarrow> p \<le> q"
    "TCP_SEQ_GT (sq p) (sq q) \<longleftrightarrow> q < p" "TCP_SEQ_GEQ (sq p) (sq q) \<longleftrightarrow> q \<le> p"
    unfolding TCP_SEQ_LT_def TCP_SEQ_LEQ_def TCP_SEQ_GT_def TCP_SEQ_GEQ_def e by linarith+
  show "sq p = sq q \<longleftrightarrow> p = q"
  proof
    assume "sq p = sq q"
    then have "sint (sq p - sq q) = 0" by simp
    then show "p = q" using e by simp
  qed simp
qed

lemma sq_between:
  assumes "p < a + 2147483648" "a < p + 2147483648" "p < b + 2147483648" "b < p + 2147483648"
  shows "TCP_SEQ_BETWEEN (sq p) (sq a) (sq b) \<longleftrightarrow> a \<le> p \<and> p \<le> b"
  unfolding TCP_SEQ_BETWEEN_def using sq_compare(4) [OF assms(1,2)] sq_compare(2) [OF assms(3,4)] by simp

text \<open>The comparison of sequence numbers is that of the millisecond clock.\<close>

lemma TCP_SEQ_LT_TIME: "TCP_SEQ_LT a b \<longleftrightarrow> TIME_LESS_THAN a b"
proof -
  have "sint x < 0 \<longleftrightarrow> x > 0x7fffffff" for x :: u32
  proof -
    have low: "x = word_of_int (int (unat x))" by simp
    have "(4294967296 :: u32) = 0" by simp
    then have high: "x = word_of_int (int (unat x) - 4294967296)" by (simp only: of_int_diff) simp
    show ?thesis
    proof (cases "unat x < 2147483648")
      case True
      then have "sint x = int (unat x)"
        by (subst low) (rule sint_of_int_small, linarith+)
      then show ?thesis using True by (simp add: word_less_nat_alt)
    next
      case False
      then have "sint x = int (unat x) - 4294967296"
        by (subst high) (rule sint_of_int_small, (use u32_lt [of x] in linarith)+)
      moreover have "int (unat x) - 4294967296 < 0" using u32_lt [of x] by linarith
      ultimately show ?thesis using False by (simp add: word_less_nat_alt)
    qed
  qed
  then show ?thesis by (simp add: TCP_SEQ_LT_def TIME_LESS_THAN_def LWIP_MAX_TIMEOUT_def)
qed

interpretation seq: window_order TCP_SEQ_LT rel within
  by unfold_locales (use clock.lt_pos rel_inj in \<open>auto simp: TCP_SEQ_LT_TIME\<close>)


text \<open>Signed 16-bit and 8-bit arithmetic of C: the result of a cast to \<^verbatim>\<open>s16_t\<close>.\<close>

definition s16 :: "int \<Rightarrow> int" where "s16 x = signed_take_bit 15 x"

lemma s16_id: "- 32768 \<le> x \<Longrightarrow> x < 32768 \<Longrightarrow> s16 x = x"
  by (simp add: s16_def signed_take_bit_int_eq_self)

section \<open>Constants\<close>

definition TCP_FIN :: u8 where "TCP_FIN = 0x01"
definition TCP_SYN :: u8 where "TCP_SYN = 0x02"
definition TCP_RST :: u8 where "TCP_RST = 0x04"
definition TCP_PSH :: u8 where "TCP_PSH = 0x08"
definition TCP_ACK :: u8 where "TCP_ACK = 0x10"

definition TF_ACK_DELAY :: u16 where "TF_ACK_DELAY = 0x01"
definition TF_ACK_NOW :: u16 where "TF_ACK_NOW = 0x02"
definition TF_INFR :: u16 where "TF_INFR = 0x04"
definition TF_CLOSEPEND :: u16 where "TF_CLOSEPEND = 0x08"
definition TF_RXCLOSED :: u16 where "TF_RXCLOSED = 0x10"
definition TF_FIN :: u16 where "TF_FIN = 0x20"
definition TF_NODELAY :: u16 where "TF_NODELAY = 0x40"
definition TF_NAGLEMEMERR :: u16 where "TF_NAGLEMEMERR = 0x80"
definition TF_RTO :: u16 where "TF_RTO = 0x0800"

definition TF_RESET :: u8 where "TF_RESET = 0x08"
definition TF_CLOSED :: u8 where "TF_CLOSED = 0x10"
definition TF_GOT_FIN :: u8 where "TF_GOT_FIN = 0x20"

definition TF_SEG_OPTS_MSS :: u8 where "TF_SEG_OPTS_MSS = 0x01"
definition TF_SEG_DATA_CHECKSUMMED :: u8 where "TF_SEG_DATA_CHECKSUMMED = 0x04"

definition TCP_HLEN :: nat where "TCP_HLEN = 20"
definition TCP_MSS :: u16 where "TCP_MSS = 1460"
definition TCP_WND :: u16 where "TCP_WND = 46720"
definition TCP_SND_BUF :: u16 where "TCP_SND_BUF = 23360"
definition TCP_SND_QUEUELEN :: u16 where "TCP_SND_QUEUELEN = 64"
definition TCP_SYNMAXRTX :: u8 where "TCP_SYNMAXRTX = 6"
definition TCP_MAXRTX :: u8 where "TCP_MAXRTX = 12"

lemmas tcp_hdr_flag_defs = TCP_FIN_def TCP_SYN_def TCP_RST_def TCP_PSH_def TCP_ACK_def
lemmas tcp_pcb_flag_defs = TF_ACK_DELAY_def TF_ACK_NOW_def TF_INFR_def TF_CLOSEPEND_def TF_RXCLOSED_def
  TF_FIN_def TF_NODELAY_def TF_NAGLEMEMERR_def TF_RTO_def
lemmas tcp_recv_flag_defs = TF_RESET_def TF_CLOSED_def TF_GOT_FIN_def

section \<open>States\<close>

datatype tcp_state =
  CLOSED | LISTEN | SYN_SENT | SYN_RCVD | ESTABLISHED | FIN_WAIT_1 | FIN_WAIT_2
| CLOSE_WAIT | CLOSING | LAST_ACK | TIME_WAIT

text \<open>The numbers of the enumeration order the states.\<close>

primrec state_number :: "tcp_state \<Rightarrow> nat" where
  "state_number CLOSED = 0"
| "state_number LISTEN = 1"
| "state_number SYN_SENT = 2"
| "state_number SYN_RCVD = 3"
| "state_number ESTABLISHED = 4"
| "state_number FIN_WAIT_1 = 5"
| "state_number FIN_WAIT_2 = 6"
| "state_number CLOSE_WAIT = 7"
| "state_number CLOSING = 8"
| "state_number LAST_ACK = 9"
| "state_number TIME_WAIT = 10"

lemma state_number_inj: "state_number s = state_number t \<Longrightarrow> s = t"
  by (cases s; cases t) simp_all

instantiation tcp_state :: linorder
begin

definition less_eq_tcp_state :: "tcp_state \<Rightarrow> tcp_state \<Rightarrow> bool" where
  "less_eq_tcp_state s t \<longleftrightarrow> state_number s \<le> state_number t"

definition less_tcp_state :: "tcp_state \<Rightarrow> tcp_state \<Rightarrow> bool" where
  "less_tcp_state s t \<longleftrightarrow> state_number s < state_number t"

instance
  by standard (auto simp: less_eq_tcp_state_def less_tcp_state_def dest: state_number_inj)

end

lemmas tcp_state_order = less_eq_tcp_state_def less_tcp_state_def

section \<open>Segments and control blocks\<close>

text \<open>The types of addresses; \<open>IP_ADDR_ANY_TYPE\<close> is \<^verbatim>\<open>ip_addr_any_type\<close>, which no packet carries.\<close>

datatype ip_addr_t = IP_ADDR4 u32 | IP_ADDR6 u32 u32 u32 u32 u8 | IP_ADDR_ANY_TYPE

type_synonym payloads = "u8 list list"

definition tot_len :: "payloads \<Rightarrow> nat" where "tot_len p = length (concat p)"

text \<open>\<^verbatim>\<open>pbuf_realloc\<close> on the payloads: the walk to the last pbuf that stays, and its cut.\<close>

fun realloc :: "payloads \<Rightarrow> nat \<Rightarrow> payloads" where
  "realloc [] n = []"
| "realloc (q # p) n = (if n > length q then q # realloc p (n - length q) else [take n q])"

definition pbuf_realloc_to :: "payloads \<Rightarrow> u16 \<Rightarrow> payloads" where
  "pbuf_realloc_to p n = (if unat n \<ge> tot_len p then p else realloc p (unat n))"

text \<open>
  \<open>hdr\<close> is \<^verbatim>\<open>TCPH_FLAGS(tcphdr)\<close>, \<open>seqno\<close> the number in the header, \<open>seg_flags\<close> the field
  \<^verbatim>\<open>flags\<close>, and \<open>p_ref\<close> the reference count of the first pbuf.
\<close>

record tcp_seg =
  seqno :: u32
  len :: u16
  hdr :: u8
  seg_flags :: u8
  seg_p :: payloads
  p_ref :: u8
  oversize_left :: u16

definition TCP_TCPLEN :: "tcp_seg \<Rightarrow> u32" where
  "TCP_TCPLEN seg = ucast (len seg) + (if hdr seg AND (TCP_FIN OR TCP_SYN) \<noteq> 0 then 1 else 0)"

text \<open>
  The callbacks of a control block are set together: \<^verbatim>\<open>tcp_alloc\<close> leaves \<^verbatim>\<open>tcp_recv_null\<close> and nothing
  else, \<^verbatim>\<open>TcpStream::new\<close> sets all of them, and dropping the stream clears all of them.
\<close>

datatype tcp_callbacks = Cb_initial | Cb_stream | Cb_cleared

record tcp_pcb =
  local_ip :: ip_addr_t
  remote_ip :: ip_addr_t
  netif_idx :: u8
  so_options :: u8
  tos :: u8
  ttl :: u8
  state :: tcp_state
  prio :: u8
  local_port :: u16
  remote_port :: u16
  flags :: u16
  polltmr :: u8
  pollinterval :: u8
  last_timer :: u8
  tmr :: u32
  rcv_nxt :: u32
  rcv_wnd :: u16
  rcv_ann_wnd :: u16
  rcv_ann_right_edge :: u32
  rtime :: int
  mss :: u16
  rttest :: u32
  rtseq :: u32
  sa :: int
  sv :: int
  rto :: int
  nrtx :: u8
  dupacks :: u8
  lastack :: u32
  cwnd :: u16
  ssthresh :: u16
  rto_end :: u32
  snd_nxt :: u32
  snd_wl1 :: u32
  snd_wl2 :: u32
  snd_lbb :: u32
  snd_wnd :: u16
  snd_wnd_max :: u16
  snd_buf :: u16
  snd_queuelen :: u16
  unsent_oversize :: u16
  bytes_acked :: u16
  unsent :: "tcp_seg list"
  unacked :: "tcp_seg list"
  ooseq :: "tcp_seg list"
  refused_data :: "payloads option"
  refused_fin :: bool
  listener :: "nat option"
  keep_idle :: u32
  persist_cnt :: u8
  persist_backoff :: u8
  persist_probe :: u8
  keep_cnt_sent :: u8
  callbacks :: tcp_callbacks


text \<open>
  The surroundings of a control block. \<open>tx_log\<close> holds the segments that were handed to the IP
  layer, oldest first, and \<open>ip_out\<close> what happens to the next one: \<open>None\<close> when no pbuf can be
  allocated for it, otherwise the result of routing and sending. The IP layer, the interface
  driver and the heap are the source of these answers, so every answer is possible. In the same way
  \<open>pbuf_mem_ok\<close> says which of the allocations of pbufs for data succeed, counted by \<open>pbuf_mem_n\<close>, and the
  functions of \<^verbatim>\<open>netif.c\<close>, \<^verbatim>\<open>ip4.c\<close>, \<^verbatim>\<open>ip6.c\<close> and \<^verbatim>\<open>nd6.c\<close> that choose the interface and its MTU
  are fields.
\<close>

record tx_seg =
  tx_src :: ip_addr_t
  tx_dst :: ip_addr_t
  tx_src_port :: u16
  tx_dst_port :: u16
  tx_seqno :: u32
  tx_ackno :: u32
  tx_hdr :: u8
  tx_wnd :: u16
  tx_opts :: "u8 list"
  tx_data :: "u8 list"

record tcp_netif =
  nif_index :: u8
  nif_mtu :: u16
  nif_local_ip :: "ip_addr_t \<Rightarrow> ip_addr_t option"

record tcp_env =
  tcp_ticks :: u32
  tcp_seg_pool :: nat
  tx_log :: "tx_seg list"
  ip_out :: "tx_seg list \<Rightarrow> tx_seg \<Rightarrow> err_t option"
  pbuf_mem_ok :: "nat \<Rightarrow> bool"
  pbuf_mem_n :: nat
  netif_get_by_index :: "u8 \<Rightarrow> tcp_netif option"
  ip_route :: "ip_addr_t \<Rightarrow> ip_addr_t \<Rightarrow> tcp_netif option"
  nd6_get_destination_mtu :: "ip_addr_t \<Rightarrow> tcp_netif option \<Rightarrow> u16"

text \<open>What \<^verbatim>\<open>tcp_alloc\<close> writes into a new block, with the time and the counter of the slow timer.\<close>

definition INITIAL_MSS :: u16 where "INITIAL_MSS = 536"

definition tcp_pcb_new :: "u8 \<Rightarrow> u32 \<Rightarrow> u8 \<Rightarrow> tcp_pcb" where
  "tcp_pcb_new pr ticks timer_ctr =
     \<lparr>local_ip = IP_ADDR4 0, remote_ip = IP_ADDR4 0, netif_idx = 0, so_options = 0, tos = 0, ttl = 64,
      state = CLOSED, prio = pr, local_port = 0, remote_port = 0, flags = 0, polltmr = 0,
      pollinterval = 0, last_timer = timer_ctr, tmr = ticks, rcv_nxt = 0, rcv_wnd = TCP_WND,
      rcv_ann_wnd = TCP_WND, rcv_ann_right_edge = 0, rtime = - 1, mss = INITIAL_MSS, rttest = 0,
      rtseq = 0, sa = 0, sv = 6, rto = 6, nrtx = 0, dupacks = 0, lastack = 0, cwnd = 1,
      ssthresh = TCP_SND_BUF, rto_end = 0, snd_nxt = 0, snd_wl1 = 0, snd_wl2 = 0, snd_lbb = 0,
      snd_wnd = 0, snd_wnd_max = 0, snd_buf = TCP_SND_BUF, snd_queuelen = 0, unsent_oversize = 0,
      bytes_acked = 0, unsent = [], unacked = [], ooseq = [], refused_data = None, refused_fin = False,
      listener = None, keep_idle = 30000, persist_cnt = 0, persist_backoff = 0, persist_probe = 0,
      keep_cnt_sent = 0, callbacks = Cb_initial\<rparr>"

section \<open>Segments\<close>

text \<open>Whether the next allocation of a pbuf for data succeeds.\<close>

definition pbuf_alloc_data :: "tcp_env \<Rightarrow> bool \<times> tcp_env" where
  "pbuf_alloc_data e = (pbuf_mem_ok e (pbuf_mem_n e), e\<lparr>pbuf_mem_n := pbuf_mem_n e + 1\<rparr>)"

definition tcp_seg_free :: "tcp_seg \<Rightarrow> tcp_env \<Rightarrow> tcp_env" where
  "tcp_seg_free seg e = e\<lparr>tcp_seg_pool := tcp_seg_pool e + 1\<rparr>"

fun tcp_segs_free :: "tcp_seg list \<Rightarrow> tcp_env \<Rightarrow> tcp_env" where
  "tcp_segs_free [] e = e"
| "tcp_segs_free (seg # segs) e = tcp_segs_free segs (tcp_seg_free seg e)"

text \<open>
  The copy refers to the same pbufs. \<^verbatim>\<open>pbuf_ref\<close> counts the second reference, and \<^verbatim>\<open>tcp_input\<close> drops the first one when it is done with
  the segment, so the count of the copy that stays on a queue is the one before.
\<close>

definition tcp_seg_copy :: "tcp_seg \<Rightarrow> tcp_env \<Rightarrow> (tcp_seg \<times> tcp_env) option" where
  "tcp_seg_copy seg e =
     (if tcp_seg_pool e = 0 then None else Some (seg, e\<lparr>tcp_seg_pool := tcp_seg_pool e - 1\<rparr>))"

lemma tcp_segs_free_pool [simp]:
  "tcp_segs_free segs e = e\<lparr>tcp_seg_pool := tcp_seg_pool e + length segs\<rparr>"
  by (induction segs arbitrary: e) (simp_all add: tcp_seg_free_def)

section \<open>Flags and windows\<close>

definition tcp_set_flags :: "u16 \<Rightarrow> tcp_pcb \<Rightarrow> tcp_pcb" where
  "tcp_set_flags f pcb = pcb\<lparr>flags := flags pcb OR f\<rparr>"

definition tcp_clear_flags :: "u16 \<Rightarrow> tcp_pcb \<Rightarrow> tcp_pcb" where
  "tcp_clear_flags f pcb = pcb\<lparr>flags := flags pcb AND NOT f\<rparr>"

definition tcp_is_flag_set :: "u16 \<Rightarrow> tcp_pcb \<Rightarrow> bool" where
  "tcp_is_flag_set f pcb \<longleftrightarrow> flags pcb AND f \<noteq> 0"

definition tcp_ack_now :: "tcp_pcb \<Rightarrow> tcp_pcb" where
  "tcp_ack_now pcb = tcp_set_flags TF_ACK_NOW pcb"

definition tcp_ack :: "tcp_pcb \<Rightarrow> tcp_pcb" where
  "tcp_ack pcb =
     (if tcp_is_flag_set TF_ACK_DELAY pcb then tcp_ack_now (tcp_clear_flags TF_ACK_DELAY pcb)
      else tcp_set_flags TF_ACK_DELAY pcb)"

definition TCP_WND_INC :: "u16 \<Rightarrow> u16 \<Rightarrow> u16" where
  "TCP_WND_INC wnd inc = (if wnd + inc \<ge> wnd then wnd + inc else - 1)"

definition tcp_update_rcv_ann_wnd :: "tcp_pcb \<Rightarrow> (u32 \<times> tcp_pcb) option" where
  "tcp_update_rcv_ann_wnd pcb =
     (let new_right_edge = rcv_nxt pcb + ucast (rcv_wnd pcb)
      in if TCP_SEQ_GEQ new_right_edge (rcv_ann_right_edge pcb + ucast (min (TCP_WND div 2) (mss pcb)))
         then Some (new_right_edge - rcv_ann_right_edge pcb, pcb\<lparr>rcv_ann_wnd := rcv_wnd pcb\<rparr>)
         else if TCP_SEQ_GT (rcv_nxt pcb) (rcv_ann_right_edge pcb)
         then Some (0, pcb\<lparr>rcv_ann_wnd := 0\<rparr>)
         else let new_rcv_ann_wnd = rcv_ann_right_edge pcb - rcv_nxt pcb
              in if new_rcv_ann_wnd \<le> 0xffff
                 then Some (0, pcb\<lparr>rcv_ann_wnd := ucast new_rcv_ann_wnd\<rparr>)
                 else None)"

section \<open>Segments without data\<close>

text \<open>
  \<^verbatim>\<open>tcp_output_alloc_header_common\<close> fills the header; without options \<^verbatim>\<open>tcp_output_fill_options\<close>
  writes nothing. Host byte order, so \<^verbatim>\<open>tcp_rst\<close>, which swaps the bytes of the window once more
  than needed, announces the swapped number.
\<close>

definition tcp_output_alloc_header_common ::
  "u32 \<Rightarrow> u8 list \<Rightarrow> u32 \<Rightarrow> u16 \<Rightarrow> u16 \<Rightarrow> u8 \<Rightarrow> u16 \<Rightarrow> ip_addr_t \<Rightarrow> ip_addr_t \<Rightarrow> tx_seg" where
  "tcp_output_alloc_header_common ackno data sno src_port dst_port fl wnd src dst =
     \<lparr>tx_src = src, tx_dst = dst, tx_src_port = src_port, tx_dst_port = dst_port, tx_seqno = sno,
      tx_ackno = ackno, tx_hdr = fl, tx_wnd = wnd, tx_opts = [], tx_data = data\<rparr>"

text \<open>\<open>None\<close> when the pbuf of the header cannot be allocated.\<close>

definition tcp_output_control_segment :: "tx_seg \<Rightarrow> tcp_env \<Rightarrow> (err_t \<times> tcp_env) option" where
  "tcp_output_control_segment t e =
     (case ip_out e (tx_log e) t of
        None \<Rightarrow> None
      | Some err \<Rightarrow> Some (err, e\<lparr>tx_log := tx_log e @ [t]\<rparr>))"

definition tcp_output_alloc_header :: "u8 list \<Rightarrow> u32 \<Rightarrow> tcp_pcb \<Rightarrow> tx_seg" where
  "tcp_output_alloc_header data sno pcb =
     tcp_output_alloc_header_common (rcv_nxt pcb) data sno (local_port pcb) (remote_port pcb) TCP_ACK
       (rcv_ann_wnd pcb) (local_ip pcb) (remote_ip pcb)"

definition announced :: "tcp_pcb \<Rightarrow> tcp_pcb" where
  "announced pcb = pcb\<lparr>rcv_ann_right_edge := rcv_nxt pcb + ucast (rcv_ann_wnd pcb)\<rparr>"

definition tcp_send_empty_ack :: "tcp_pcb \<Rightarrow> tcp_env \<Rightarrow> err_t \<times> tcp_pcb \<times> tcp_env" where
  "tcp_send_empty_ack pcb e =
     (case tcp_output_control_segment (tcp_output_alloc_header [] (snd_nxt pcb) pcb) e of
        None \<Rightarrow> (ERR_BUF, tcp_set_flags (TF_ACK_DELAY OR TF_ACK_NOW) pcb, e)
      | Some (err, e) \<Rightarrow>
          if err \<noteq> ERR_OK then (err, tcp_set_flags (TF_ACK_DELAY OR TF_ACK_NOW) (announced pcb), e)
          else (err, tcp_clear_flags (TF_ACK_DELAY OR TF_ACK_NOW) (announced pcb), e))"

definition tcp_rst ::
  "u32 \<Rightarrow> u32 \<Rightarrow> ip_addr_t \<Rightarrow> ip_addr_t \<Rightarrow> u16 \<Rightarrow> u16 \<Rightarrow> tcp_env \<Rightarrow> tcp_env" where
  "tcp_rst sno ackno loc_ip rem_ip loc_port rem_port e =
     (case tcp_output_control_segment
             (tcp_output_alloc_header_common ackno [] sno loc_port rem_port (TCP_RST OR TCP_ACK)
                (lwip_htons TCP_WND) loc_ip rem_ip) e of
        None \<Rightarrow> e
      | Some (err, e) \<Rightarrow> e)"

definition tcp_keepalive :: "tcp_pcb \<Rightarrow> tcp_env \<Rightarrow> err_t \<times> tcp_pcb \<times> tcp_env" where
  "tcp_keepalive pcb e =
     (case tcp_output_control_segment (tcp_output_alloc_header [] (snd_nxt pcb - 1) pcb) e of
        None \<Rightarrow> (ERR_MEM, pcb, e)
      | Some (err, e) \<Rightarrow> (err, announced pcb, e))"

text \<open>
  The probe of a closed window takes the first byte behind the header of the first unsent segment.
  Of a segment without data it would be the unset byte of the new pbuf; the model then sends none.
\<close>

definition tcp_zero_window_probe :: "tcp_pcb \<Rightarrow> tcp_env \<Rightarrow> err_t \<times> tcp_pcb \<times> tcp_env" where
  "tcp_zero_window_probe pcb e =
     (case unsent pcb of
        [] \<Rightarrow> (ERR_OK, pcb, e)
      | seg # _ \<Rightarrow>
          (let pcb = (if persist_probe pcb < 0xff then pcb\<lparr>persist_probe := persist_probe pcb + 1\<rparr> else pcb);
               is_fin = (hdr seg AND TCP_FIN \<noteq> 0 \<and> len seg = 0);
               data = (if is_fin then [] else take 1 (concat (seg_p seg)));
               t = tcp_output_alloc_header data (seqno seg) pcb;
               t = (if is_fin then t\<lparr>tx_hdr := TCP_ACK OR TCP_FIN\<rparr> else t);
               nxt = seqno seg + 1;
               pcb' = announced pcb;
               pcb' = (if TCP_SEQ_LT (snd_nxt pcb') nxt then pcb'\<lparr>snd_nxt := nxt\<rparr> else pcb')
           in case tcp_output_control_segment t e of
                None \<Rightarrow> (ERR_MEM, pcb, e)
              | Some (err, e) \<Rightarrow> (err, pcb', e)))"

end
