(* ===== verification/Tcp_Receive.thy ===== *)
theory Tcp_Receive
  imports Tcp_Base
begin

text \<open>
  The data part of \<^verbatim>\<open>tcp_receive\<close> in \<^verbatim>\<open>core/tcp_in.c\<close>: trimming of the incoming segment to what is
  new and fits the window, delivery in sequence, and the queue \<^verbatim>\<open>ooseq\<close> of segments that arrived
  early. The file-scope variables of \<^verbatim>\<open>tcp_in.c\<close> are the record \<open>tcp_in\<close>. \<open>None\<close> is a failed
  assertion.
\<close>

section \<open>The incoming segment\<close>

text \<open>
  \<open>i_seqno\<close>, \<open>i_flags\<close> and \<open>i_wnd\<close> are the variables \<^verbatim>\<open>seqno\<close> and \<^verbatim>\<open>flags\<close> and the field
  \<^verbatim>\<open>tcphdr->wnd\<close>. A buffer is a value here, so the copy of \<^verbatim>\<open>inseg\<close> on the queue, which shares
  its buffer with \<^verbatim>\<open>inseg\<close>, is the only one that is used after the copy.
\<close>

record tcp_in =
  inseg :: tcp_seg
  i_seqno :: u32
  i_ackno :: u32
  i_wnd :: u16
  i_flags :: u8
  tcplen :: u16
  recv_acked :: u16
  recv_flags :: u8
  recv_data :: "payloads option"

definition has_hdr :: "u8 \<Rightarrow> tcp_seg \<Rightarrow> bool" where
  "has_hdr f seg \<longleftrightarrow> hdr seg AND f \<noteq> 0"

text \<open>Cutting a segment to a length.\<close>

definition seg_cut :: "u16 \<Rightarrow> tcp_seg \<Rightarrow> tcp_seg" where
  "seg_cut n seg = seg\<lparr>len := n, seg_p := pbuf_realloc_to (seg_p seg) n\<rparr>"

section \<open>Trimming the front\<close>

text \<open>
  The loop over the pbufs that are trimmed completely, and \<^verbatim>\<open>pbuf_remove_header\<close> on the next one.
\<close>

fun trim_payloads :: "nat \<Rightarrow> payloads \<Rightarrow> payloads option" where
  "trim_payloads off [] = None"
| "trim_payloads off (q # p) =
     (if length q < off then trim_payloads (off - length q) p \<bind> (\<lambda>p. Some ([] # p))
      else Some (drop off q # p))"

definition rcv_trim_front :: "tcp_pcb \<Rightarrow> tcp_in \<Rightarrow> (tcp_pcb \<times> tcp_in) option" where
  "rcv_trim_front pcb i =
     (if TCP_SEQ_BETWEEN (rcv_nxt pcb) (i_seqno i + 1) (i_seqno i + ucast (tcplen i) - 1)
      then do {
        let off32 = rcv_nxt pcb - i_seqno i;
        lwip_assert (off32 < 0xffff);
        let off = (ucast off32 :: u16);
        lwip_assert (tot_len (seg_p (inseg i)) \<ge> unat off);
        p \<leftarrow> trim_payloads (unat off) (seg_p (inseg i));
        Some (pcb, i\<lparr>inseg := (inseg i)\<lparr>len := len (inseg i) - off, seg_p := p, seqno := rcv_nxt pcb\<rparr>,
          i_seqno := rcv_nxt pcb\<rparr>)
      }
      else if TCP_SEQ_LT (i_seqno i) (rcv_nxt pcb) then Some (tcp_ack_now pcb, i)
      else Some (pcb, i))"

section \<open>Segments in sequence\<close>

definition set_tcplen :: "tcp_in \<Rightarrow> tcp_in" where
  "set_tcplen i = i\<lparr>tcplen := ucast (TCP_TCPLEN (inseg i))\<rparr>"

text \<open>The cut at the right edge of the window.\<close>

definition rcv_trim_window :: "tcp_pcb \<Rightarrow> tcp_in \<Rightarrow> tcp_in option" where
  "rcv_trim_window pcb i =
     (let i = set_tcplen i
      in if tcplen i > rcv_wnd pcb
         then
           (let s = inseg i;
                s = (if has_hdr TCP_FIN s then s\<lparr>hdr := hdr s AND NOT TCP_FIN\<rparr> else s);
                n = (if has_hdr TCP_SYN s then rcv_wnd pcb - 1 else rcv_wnd pcb);
                i = set_tcplen (i\<lparr>inseg := seg_cut n s\<rparr>)
            in if i_seqno i + ucast (tcplen i) = rcv_nxt pcb + ucast (rcv_wnd pcb) then Some i else None)
         else Some i)"

text \<open>The queued segments that the incoming one covers; a FIN among them moves over.\<close>

fun rcv_covered :: "tcp_in \<Rightarrow> tcp_seg list \<Rightarrow> tcp_env \<Rightarrow> tcp_in \<times> tcp_seg list \<times> tcp_env" where
  "rcv_covered i [] e = (i, [], e)"
| "rcv_covered i (next # ns) e =
     (if TCP_SEQ_GEQ (i_seqno i + ucast (tcplen i)) (seqno next + ucast (len next))
      then
        (let i = (if has_hdr TCP_FIN next \<and> \<not> has_hdr TCP_SYN (inseg i)
                  then set_tcplen (i\<lparr>inseg := (inseg i)\<lparr>hdr := hdr (inseg i) OR TCP_FIN\<rparr>\<rparr>) else i)
         in rcv_covered i ns (tcp_seg_free next e))
      else (i, next # ns, e))"

definition rcv_trim_overlap :: "tcp_in \<Rightarrow> tcp_seg list \<Rightarrow> tcp_in option" where
  "rcv_trim_overlap i ns =
     (case ns of
        [] \<Rightarrow> Some i
      | next # _ \<Rightarrow>
          if TCP_SEQ_GT (i_seqno i + ucast (tcplen i)) (seqno next)
          then
            (let n = (ucast (seqno next - i_seqno i) :: u16);
                 n = (if has_hdr TCP_SYN (inseg i) then n - 1 else n);
                 i = set_tcplen (i\<lparr>inseg := seg_cut n (inseg i)\<rparr>)
             in if i_seqno i + ucast (tcplen i) = seqno next then Some i else None)
          else Some i)"

definition rcv_adjust_ooseq :: "tcp_pcb \<Rightarrow> tcp_in \<Rightarrow> tcp_env \<Rightarrow> (tcp_pcb \<times> tcp_in \<times> tcp_env) option" where
  "rcv_adjust_ooseq pcb i e =
     (if ooseq pcb = [] then Some (pcb, i, e)
      else if has_hdr TCP_FIN (inseg i)
      then Some (pcb\<lparr>ooseq := []\<rparr>, i, tcp_segs_free (ooseq pcb) e)
      else
        (let (i, ns, e) = rcv_covered i (ooseq pcb) e
         in do { i \<leftarrow> rcv_trim_overlap i ns; Some (pcb\<lparr>ooseq := ns\<rparr>, i, e) }))"

text \<open>Moving \<^verbatim>\<open>rcv_nxt\<close> and the window over a number of received positions.\<close>

definition rcv_advance :: "u32 \<Rightarrow> tcp_pcb \<Rightarrow> tcp_pcb option" where
  "rcv_advance n pcb =
     (if ucast (rcv_wnd pcb) \<ge> n
      then do {
        (_, pcb) \<leftarrow> tcp_update_rcv_ann_wnd (pcb\<lparr>rcv_nxt := rcv_nxt pcb + n, rcv_wnd := rcv_wnd pcb - ucast n\<rparr>);
        Some pcb
      }
      else None)"

text \<open>Handing a segment's data and its FIN over to the application.\<close>

definition rcv_pass_data :: "payloads \<Rightarrow> tcp_in \<Rightarrow> tcp_in" where
  "rcv_pass_data p i =
     (if tot_len p > 0
      then i\<lparr>recv_data := Some (case recv_data i of Some d \<Rightarrow> d @ p | None \<Rightarrow> p)\<rparr>
      else i)"

definition rcv_got_fin :: "tcp_seg \<Rightarrow> tcp_in \<Rightarrow> tcp_in" where
  "rcv_got_fin s i = (if has_hdr TCP_FIN s then i\<lparr>recv_flags := recv_flags i OR TF_GOT_FIN\<rparr> else i)"

text \<open>The queued segments that are now in sequence.\<close>

fun rcv_dequeue ::
  "tcp_seg list \<Rightarrow> tcp_pcb \<Rightarrow> tcp_in \<Rightarrow> tcp_env \<Rightarrow> (tcp_pcb \<times> tcp_in \<times> tcp_env) option" where
  "rcv_dequeue [] pcb i e = Some (pcb\<lparr>ooseq := []\<rparr>, i, e)"
| "rcv_dequeue (cseg # cs) pcb i e =
     (if seqno cseg = rcv_nxt pcb
      then do {
        let i = i\<lparr>i_seqno := seqno cseg\<rparr>;
        pcb \<leftarrow> rcv_advance (TCP_TCPLEN cseg) pcb;
        let i = rcv_got_fin cseg (rcv_pass_data (seg_p cseg) i);
        let pcb = (if has_hdr TCP_FIN cseg \<and> state pcb = ESTABLISHED then pcb\<lparr>state := CLOSE_WAIT\<rparr> else pcb);
        rcv_dequeue cs pcb i (tcp_seg_free cseg e)
      }
      else Some (pcb\<lparr>ooseq := cseg # cs\<rparr>, i, e))"

definition rcv_in_sequence :: "tcp_pcb \<Rightarrow> tcp_in \<Rightarrow> tcp_env \<Rightarrow> (tcp_pcb \<times> tcp_in \<times> tcp_env) option" where
  "rcv_in_sequence pcb i e = do {
     i \<leftarrow> rcv_trim_window pcb i;
     (pcb, i, e) \<leftarrow> rcv_adjust_ooseq pcb i e;
     pcb \<leftarrow> rcv_advance (ucast (tcplen i)) (pcb\<lparr>rcv_nxt := i_seqno i\<rparr>);
     let i = (if tot_len (seg_p (inseg i)) > 0 then i\<lparr>recv_data := Some (seg_p (inseg i))\<rparr> else i);
     let i = rcv_got_fin (inseg i) i;
     (pcb, i, e) \<leftarrow> rcv_dequeue (ooseq pcb) pcb i e;
     Some (tcp_ack pcb, i, e)
   }"

section \<open>Segments out of sequence\<close>

fun oos_covered :: "u32 \<Rightarrow> tcp_seg \<Rightarrow> tcp_seg list \<Rightarrow> tcp_env \<Rightarrow> tcp_seg \<times> tcp_seg list \<times> tcp_env" where
  "oos_covered sno cseg [] e = (cseg, [], e)"
| "oos_covered sno cseg (next # ns) e =
     (if TCP_SEQ_GEQ (sno + ucast (len cseg)) (seqno next + ucast (len next))
      then oos_covered sno (if has_hdr TCP_FIN next then cseg\<lparr>hdr := hdr cseg OR TCP_FIN\<rparr> else cseg) ns
             (tcp_seg_free next e)
      else (cseg, next # ns, e))"

definition tcp_oos_insert_segment ::
  "u32 \<Rightarrow> tcp_seg \<Rightarrow> tcp_seg list \<Rightarrow> tcp_env \<Rightarrow> tcp_seg list \<times> tcp_env" where
  "tcp_oos_insert_segment sno cseg ns e =
     (if has_hdr TCP_FIN cseg then ([cseg], tcp_segs_free ns e)
      else
        (let (cseg, ns, e) = oos_covered sno cseg ns e
         in case ns of
              [] \<Rightarrow> ([cseg], e)
            | next # _ \<Rightarrow>
                if TCP_SEQ_GT (sno + ucast (len cseg)) (seqno next)
                then (seg_cut (ucast (seqno next - sno)) cseg # ns, e)
                else (cseg # ns, e)))"

text \<open>The cut of the segment before the new one.\<close>

definition oos_trim_prev :: "u32 \<Rightarrow> tcp_seg \<Rightarrow> tcp_seg" where
  "oos_trim_prev sno prev =
     (if TCP_SEQ_GT (seqno prev + ucast (len prev)) sno then seg_cut (ucast (sno - seqno prev)) prev else prev)"

text \<open>Appending behind the last segment \<open>next\<close>, with the cut at the right edge of the window.\<close>

definition oos_append ::
  "tcp_pcb \<Rightarrow> tcp_seg \<Rightarrow> tcp_in \<Rightarrow> tcp_env \<Rightarrow> (tcp_seg list \<times> tcp_in \<times> tcp_env) option" where
  "oos_append pcb next i e =
     (case tcp_seg_copy (inseg i) e of
        None \<Rightarrow> Some ([next], i, e)
      | Some (cseg, e) \<Rightarrow>
          (let next = oos_trim_prev (i_seqno i) next
           in if TCP_SEQ_GT (ucast (tcplen i) + i_seqno i) (rcv_nxt pcb + ucast (rcv_wnd pcb))
              then
                (let cseg = (if has_hdr TCP_FIN cseg then cseg\<lparr>hdr := hdr cseg AND NOT TCP_FIN\<rparr> else cseg);
                     cseg = seg_cut (ucast (rcv_nxt pcb + ucast (rcv_wnd pcb) - i_seqno i)) cseg;
                     i = i\<lparr>tcplen := ucast (TCP_TCPLEN cseg)\<rparr>
                 in if i_seqno i + ucast (tcplen i) = rcv_nxt pcb + ucast (rcv_wnd pcb)
                    then Some ([next, cseg], i, e) else None)
              else Some ([next, cseg], i, e)))"

text \<open>
  The walk along a queue that is not empty. The result replaces the queue from \<open>prev\<close> on; it is
  unchanged where the code leaves the loop without an insertion.
\<close>

fun oos_walk ::
  "tcp_pcb \<Rightarrow> tcp_in \<Rightarrow> tcp_seg option \<Rightarrow> tcp_seg list \<Rightarrow> tcp_env \<Rightarrow>
     (tcp_seg list \<times> tcp_in \<times> tcp_env) option" where
  "oos_walk pcb i prev [] e = Some (case prev of Some p \<Rightarrow> [p] | None \<Rightarrow> [], i, e)"
| "oos_walk pcb i prev (next # ns) e =
     (let sno = i_seqno i;
          passed_by = (case prev of Some p \<Rightarrow> [p] | None \<Rightarrow> []);
          keep = Some (passed_by @ next # ns, i, e);
          insert = (\<lambda>passed_by. case tcp_seg_copy (inseg i) e of
              None \<Rightarrow> keep
            | Some (cseg, e) \<Rightarrow>
                (let (q, e) = tcp_oos_insert_segment sno cseg (next # ns) e in Some (passed_by @ q, i, e)))
      in if sno = seqno next then (if len (inseg i) > len next then insert passed_by else keep)
         else if (case prev of None \<Rightarrow> TCP_SEQ_LT sno (seqno next)
                  | Some p \<Rightarrow> TCP_SEQ_BETWEEN sno (seqno p + 1) (seqno next - 1))
         then insert (map (oos_trim_prev sno) passed_by)
         else if ns = [] \<and> TCP_SEQ_GT sno (seqno next)
         then (if has_hdr TCP_FIN next then keep
               else do { (q, i, e) \<leftarrow> oos_append pcb next i e; Some (passed_by @ q, i, e) })
         else do { (q, i, e) \<leftarrow> oos_walk pcb i (Some next) ns e; Some (passed_by @ q, i, e) })"

definition rcv_out_of_sequence :: "tcp_pcb \<Rightarrow> tcp_in \<Rightarrow> tcp_env \<Rightarrow> (tcp_pcb \<times> tcp_in \<times> tcp_env) option" where
  "rcv_out_of_sequence pcb i e = do {
     (q, i, e) \<leftarrow>
       (if ooseq pcb = []
        then (case tcp_seg_copy (inseg i) e of
                None \<Rightarrow> Some ([], i, e)
              | Some (cseg, e) \<Rightarrow> Some ([cseg], i, e))
        else oos_walk pcb i None (ooseq pcb) e);
     let (err, pcb, e) = tcp_send_empty_ack (pcb\<lparr>ooseq := q\<rparr>) e;
     Some (pcb, i, e)
   }"

section \<open>The data part of \<^verbatim>\<open>tcp_receive\<close>\<close>

definition rcv_in_window :: "tcp_pcb \<Rightarrow> tcp_in \<Rightarrow> tcp_env \<Rightarrow> (tcp_pcb \<times> tcp_in \<times> tcp_env) option" where
  "rcv_in_window pcb i e =
     (if TCP_SEQ_BETWEEN (i_seqno i) (rcv_nxt pcb) (rcv_nxt pcb + ucast (rcv_wnd pcb) - 1)
      then (if rcv_nxt pcb = i_seqno i then rcv_in_sequence pcb i e else rcv_out_of_sequence pcb i e)
      else let (err, pcb, e) = tcp_send_empty_ack pcb e in Some (pcb, i, e))"

definition tcp_receive_data :: "tcp_pcb \<Rightarrow> tcp_in \<Rightarrow> tcp_env \<Rightarrow> (tcp_pcb \<times> tcp_in \<times> tcp_env) option" where
  "tcp_receive_data pcb i e =
     (if tcplen i > 0 \<and> state pcb < CLOSE_WAIT
      then do { (pcb, i) \<leftarrow> rcv_trim_front pcb i; rcv_in_window pcb i e }
      else if \<not> TCP_SEQ_BETWEEN (i_seqno i) (rcv_nxt pcb) (rcv_nxt pcb + ucast (rcv_wnd pcb) - 1)
      then Some (tcp_ack_now pcb, i, e)
      else Some (pcb, i, e))"

end
