(* ===== verification/Tcp_Reassembly.thy ===== *)
theory Tcp_Reassembly
  imports Tcp_Receive
begin

text \<open>
  The contract of the receive path and the proof that \<^verbatim>\<open>tcp_receive\<close> keeps it. The remote side
  sends one stream: a byte at every position and possibly an end. Segments carry slices of the
  stream in any order, repeated and overlapping in any way. The contract: what the application gets
  is the stream from the position \<^verbatim>\<open>rcv_nxt\<close> on, without gaps and repetitions, and its end
  exactly once; the queue \<^verbatim>\<open>ooseq\<close> stays a sorted list of disjoint slices in the window.

  Positions are natural numbers, the sequence number of a position is the position as a word.
\<close>

section \<open>Slices of the stream\<close>

record stream =
  byte_at :: "nat \<Rightarrow> u8"
  fin_at :: "nat option"

abbreviation slen :: "tcp_seg \<Rightarrow> nat" where "slen s \<equiv> unat (len s)"

text \<open>The number of positions a segment without SYN takes.\<close>

definition tlen :: "tcp_seg \<Rightarrow> nat" where
  "tlen s = slen s + (if has_hdr TCP_FIN s then 1 else 0)"

definition seg_at :: "stream \<Rightarrow> nat \<Rightarrow> tcp_seg \<Rightarrow> bool" where
  "seg_at S q s \<longleftrightarrow>
     seqno s = sq q \<and> concat (seg_p s) = map (byte_at S) [q ..< q + slen s] \<and>
     \<not> has_hdr TCP_SYN s \<and> 0 < tlen s \<and> tlen s < 65536 \<and>
     (has_hdr TCP_FIN s \<longrightarrow> fin_at S = Some (q + slen s)) \<and>
     (\<forall>f. fin_at S = Some f \<longrightarrow> q + slen s \<le> f)"

text \<open>A queue of disjoint slices from position \<open>lo\<close> on that ends before the edge.\<close>

fun oos_ok :: "stream \<Rightarrow> nat \<Rightarrow> nat \<Rightarrow> tcp_seg list \<Rightarrow> bool" where
  "oos_ok S edge lo [] = True"
| "oos_ok S edge lo (s # ss) =
     (\<exists>q \<ge> lo. seg_at S q s \<and> q + tlen s \<le> edge \<and> oos_ok S edge (q + tlen s) ss)"

lemma oos_okI:
  "lo \<le> q \<Longrightarrow> seg_at S q s \<Longrightarrow> q + tlen s \<le> edge \<Longrightarrow> oos_ok S edge (q + tlen s) ss \<Longrightarrow>
   oos_ok S edge lo (s # ss)"
  by auto

lemma oos_ok_mono: "oos_ok S edge lo ss \<Longrightarrow> lo' \<le> lo \<Longrightarrow> oos_ok S edge lo' ss"
  by (cases ss) (simp, simp, meson order_trans)

lemma flags_exp: "TCP_FIN = 2 ^ 0" "TCP_SYN = 2 ^ 1"
  by (simp_all add: tcp_hdr_flag_defs)

lemma has_hdr_bit: "has_hdr TCP_FIN s \<longleftrightarrow> bit (hdr s) 0" "has_hdr TCP_SYN s \<longleftrightarrow> bit (hdr s) 1"
  unfolding has_hdr_def flags_exp and_exp_eq_0_iff_not_bit by simp_all

lemma bit_flags: "bit TCP_FIN n \<longleftrightarrow> n = (0 :: nat)" "bit TCP_SYN n \<longleftrightarrow> n = (1 :: nat)"
  unfolding flags_exp bit_exp_iff by (auto simp: possible_bit_def)

lemma has_hdr_simps [simp]:
  "has_hdr TCP_FIN (s\<lparr>hdr := hdr s OR TCP_FIN\<rparr>)" "\<not> has_hdr TCP_FIN (s\<lparr>hdr := hdr s AND NOT TCP_FIN\<rparr>)"
  "has_hdr TCP_SYN (s\<lparr>hdr := hdr s OR TCP_FIN\<rparr>) = has_hdr TCP_SYN s"
  "has_hdr TCP_SYN (s\<lparr>hdr := hdr s AND NOT TCP_FIN\<rparr>) = has_hdr TCP_SYN s"
  by (simp_all add: has_hdr_bit bit_simps bit_flags)

lemma has_hdr_fields [simp]:
  "has_hdr f (s\<lparr>len := n\<rparr>) = has_hdr f s" "has_hdr f (s\<lparr>seg_p := p\<rparr>) = has_hdr f s"
  "has_hdr f (s\<lparr>seqno := m\<rparr>) = has_hdr f s" "has_hdr f (seg_cut n s) = has_hdr f s"
  by (simp_all add: has_hdr_def seg_cut_def)

lemma hdr_fin_syn:
  "hdr s AND (TCP_FIN OR TCP_SYN) \<noteq> 0 \<longleftrightarrow> has_hdr TCP_FIN s \<or> has_hdr TCP_SYN s"
  by (simp add: has_hdr_def bit.conj_disj_distrib or_eq_0_iff)

lemma TCP_TCPLEN_tlen: "\<not> has_hdr TCP_SYN s \<Longrightarrow> TCP_TCPLEN s = sq (tlen s)"
  unfolding TCP_TCPLEN_def hdr_fin_syn by (simp add: tlen_def)

section \<open>Cutting\<close>

lemma concat_realloc: "n \<le> tot_len p \<Longrightarrow> concat (realloc p n) = take n (concat p)"
  by (induction p n rule: realloc.induct) (auto simp: tot_len_def)

lemma concat_pbuf_realloc_to: "concat (pbuf_realloc_to p n) = take (unat n) (concat p)"
  by (simp add: pbuf_realloc_to_def concat_realloc tot_len_def)

lemma trim_payloads_drop:
  "off \<le> tot_len p \<Longrightarrow> p \<noteq> [] \<Longrightarrow> \<exists>p'. trim_payloads off p = Some p' \<and> concat p' = drop off (concat p) \<and> p' \<noteq> []"
proof (induction off p rule: trim_payloads.induct)
  case (2 off q p)
  show ?case
  proof (cases "length q < off")
    case True
    moreover have "p \<noteq> []" using 2(2) True by (auto simp: tot_len_def)
    ultimately show ?thesis using 2 by (fastforce simp: tot_len_def)
  next
    case False
    then show ?thesis by simp
  qed
qed simp

lemma ucast16: "(ucast (x :: u16) :: u32) = sq (unat x)"
proof -
  have "unat (sq (unat x)) = unat x" using u16_lt [of x] by (simp only: unat_of_nat) simp
  then show ?thesis by (simp only: word_unat_eq_iff unat_ucast_up(3))
qed

lemma sq_ucast: "sq p + ucast (x :: u16) = sq (p + unat x)"
  by (simp only: ucast16 of_nat_add)

lemma unat_of_nat16: "n < 65536 \<Longrightarrow> unat (word_of_nat n :: u16) = n"
  by (simp add: unat_of_nat)

lemma ucast_sq16: "n < 65536 \<Longrightarrow> (ucast (sq n) :: u16) = word_of_nat n"
  by (rule word_unat_eq_iff [THEN iffD2]) (simp add: unat_ucast_u16 unat_of_nat)

lemma seg_atD:
  assumes "seg_at S q s"
  shows "seqno s = sq q" "concat (seg_p s) = map (byte_at S) [q ..< q + slen s]" "\<not> has_hdr TCP_SYN s"
    "0 < tlen s" "tlen s < 65536" "has_hdr TCP_FIN s \<Longrightarrow> fin_at S = Some (q + slen s)"
    "fin_at S = Some f \<Longrightarrow> q + slen s \<le> f" "TCP_TCPLEN s = sq (tlen s)"
  using assms TCP_TCPLEN_tlen [of s] by (auto simp: seg_at_def)

lemma tlen_simps: "has_hdr TCP_FIN s \<Longrightarrow> tlen s = slen s + 1" "\<not> has_hdr TCP_FIN s \<Longrightarrow> tlen s = slen s"
  by (simp_all add: tlen_def)

text \<open>Behind the end of the stream there is no segment.\<close>

lemma seg_at_end: "seg_at S q s \<Longrightarrow> fin_at S = Some f \<Longrightarrow> q \<le> f"
  by (auto simp: seg_at_def)

lemma oos_ok_end: "oos_ok S edge (f + 1) ss \<Longrightarrow> fin_at S = Some f \<Longrightarrow> ss = []"
  by (cases ss) (auto dest: seg_at_end)

lemma slen_seg_cut [simp]: "len (seg_cut n s) = n" "seqno (seg_cut n s) = seqno s"
  by (simp_all add: seg_cut_def)

lemma seg_at_cut:
  assumes "seg_at S q s" "0 < n" "unat n \<le> slen s" "\<not> has_hdr TCP_FIN s"
  shows "seg_at S q (seg_cut n s)" "tlen (seg_cut n s) = unat n"
proof -
  show t: "tlen (seg_cut n s) = unat n" using assms(4) by (simp add: tlen_def)
  have "concat (seg_p (seg_cut n s)) = take (unat n) (concat (seg_p s))"
    by (simp add: seg_cut_def concat_pbuf_realloc_to)
  also have "\<dots> = map (byte_at S) [q ..< q + unat n]"
    using assms(3) by (simp add: seg_atD(2) [OF assms(1)] take_map)
  finally show "seg_at S q (seg_cut n s)"
    using assms u16_lt [of n] t by (auto simp: seg_at_def word_less_nat_alt)
qed

lemma seg_at_clear_fin:
  assumes "seg_at S q s" "0 < slen s"
  shows "seg_at S q (s\<lparr>hdr := hdr s AND NOT TCP_FIN\<rparr>)"
  using assms u16_lt [of "len s"] by (auto simp: seg_at_def tlen_def)

lemma seg_at_set_fin:
  assumes "seg_at S q s" "fin_at S = Some (q + slen s)" "slen s < 65535"
  shows "seg_at S q (s\<lparr>hdr := hdr s OR TCP_FIN\<rparr>)" "tlen (s\<lparr>hdr := hdr s OR TCP_FIN\<rparr>) = slen s + 1"
  using assms by (auto simp: seg_at_def tlen_def)

section \<open>The segment in sequence\<close>

definition in_at :: "stream \<Rightarrow> nat \<Rightarrow> tcp_in \<Rightarrow> bool" where
  "in_at S q i \<longleftrightarrow> seg_at S q (inseg i) \<and> i_seqno i = sq q \<and> tcplen i = word_of_nat (tlen (inseg i))"

lemma in_atD:
  assumes "in_at S q i"
  shows "seg_at S q (inseg i)" "i_seqno i = sq q" "unat (tcplen i) = tlen (inseg i)"
    "i_seqno i + ucast (tcplen i) = sq (q + tlen (inseg i))"
proof -
  show a: "seg_at S q (inseg i)" "i_seqno i = sq q" using assms by (simp_all add: in_at_def)
  show t: "unat (tcplen i) = tlen (inseg i)"
    using assms seg_atD(5) [OF a(1)] by (simp add: in_at_def unat_of_nat16)
  show "i_seqno i + ucast (tcplen i) = sq (q + tlen (inseg i))" by (simp only: a(2) sq_ucast t)
qed

lemma in_at_set_tcplen: "seg_at S q (inseg i) \<Longrightarrow> i_seqno i = sq q \<Longrightarrow> in_at S q (set_tcplen i)"
  using seg_atD(5) [of S q "inseg i"] by (simp add: in_at_def set_tcplen_def seg_atD(8) ucast_sq16)

lemma set_tcplen_same [simp]:
  "inseg (set_tcplen i) = inseg i" "i_seqno (set_tcplen i) = i_seqno i"
  "recv_data (set_tcplen i) = recv_data i" "recv_flags (set_tcplen i) = recv_flags i"
  by (simp_all add: set_tcplen_def)

text \<open>What the steps on the incoming segment leave alone.\<close>

definition same_recv :: "tcp_in \<Rightarrow> tcp_in \<Rightarrow> bool" where
  "same_recv i j \<longleftrightarrow> recv_data i = recv_data j \<and> recv_flags i = recv_flags j"

lemma rcv_trim_window_ok:
  assumes "seg_at S r (inseg i)" "i_seqno i = sq r" "rcv_nxt pcb = sq r" "rcv_wnd pcb > 0"
  shows "\<exists>i'. rcv_trim_window pcb i = Some i' \<and> in_at S r i' \<and> same_recv i' i \<and>
    tlen (inseg i') = min (tlen (inseg i)) (unat (rcv_wnd pcb))"
proof -
  let ?s = "inseg i" and ?w = "rcv_wnd pcb"
  have at: "in_at S r (set_tcplen i)" by (rule in_at_set_tcplen [OF assms(1,2)])
  note t = in_atD(3) [OF at]
  show ?thesis
  proof (cases "tcplen (set_tcplen i) > ?w")
    case True
    then have w: "unat ?w < tlen ?s" "0 < unat ?w" using t assms(4) by (simp_all add: word_less_nat_alt)
    define s where "s = (if has_hdr TCP_FIN ?s then ?s\<lparr>hdr := hdr ?s AND NOT TCP_FIN\<rparr> else ?s)"
    have s: "seg_at S r s" "\<not> has_hdr TCP_FIN s" "len s = len ?s" "\<not> has_hdr TCP_SYN s"
      using assms(1) w seg_at_clear_fin [OF assms(1)] by (auto simp: s_def tlen_def seg_at_def split: if_splits)
    have le: "unat ?w \<le> slen s" using w(1) s(3) by (auto simp: tlen_def split: if_splits)
    note c = seg_at_cut [OF s(1) assms(4) le s(2)]
    let ?i = "set_tcplen (set_tcplen i\<lparr>inseg := seg_cut ?w s\<rparr>)"
    have at': "in_at S r ?i" using in_at_set_tcplen [of S r "set_tcplen i\<lparr>inseg := seg_cut ?w s\<rparr>"] c(1) assms(2)
      by simp
    have "rcv_trim_window pcb i = Some ?i"
      using True in_atD(4) [OF at'] s(4) assms(3) c(2)
      by (simp add: rcv_trim_window_def Let_def s_def [symmetric] sq_ucast del: of_nat_add)
    then show ?thesis using at' c(2) w(1) by (auto simp: same_recv_def)
  next
    case False
    then show ?thesis using at t by (auto simp: rcv_trim_window_def same_recv_def word_less_nat_alt)
  qed
qed


text \<open>A queue whose first segment ends behind a position.\<close>

definition oos_past :: "stream \<Rightarrow> nat \<Rightarrow> nat \<Rightarrow> nat \<Rightarrow> tcp_seg list \<Rightarrow> bool" where
  "oos_past S edge lo x ns \<longleftrightarrow>
     (case ns of
        [] \<Rightarrow> True
      | n # ss \<Rightarrow> \<exists>p \<ge> lo. seg_at S p n \<and> p + tlen n \<le> edge \<and> oos_ok S edge (p + tlen n) ss \<and> x < p + slen n)"

lemma oos_past_ok: "oos_past S edge lo x ns \<Longrightarrow> oos_ok S edge lo ns"
  by (cases ns) (auto simp: oos_past_def)

lemma rcv_covered_ok:
  assumes "in_at S r i" "\<not> has_hdr TCP_FIN (inseg i)" "oos_ok S edge lo ns" "r < lo"
    "r + tlen (inseg i) \<le> edge" "edge < r + 65536"
  shows "\<exists>i' ns' e'. rcv_covered i ns e = (i', ns', e') \<and> in_at S r i' \<and> same_recv i' i \<and>
    slen (inseg i') = slen (inseg i) \<and> r + tlen (inseg i') \<le> edge \<and> tlen (inseg i) \<le> tlen (inseg i') \<and>
    oos_past S edge lo (r + tlen (inseg i')) ns' \<and> (has_hdr TCP_FIN (inseg i') \<longrightarrow> ns' = [])"
  using assms(3,4)
proof (induction ns arbitrary: e lo)
  case Nil
  then show ?case using assms by (auto simp: same_recv_def oos_past_def)
next
  case (Cons n ns)
  then obtain p where p: "p \<ge> lo" "seg_at S p n" "p + tlen n \<le> edge" "oos_ok S edge (p + tlen n) ns" by auto
  have tl: "tlen (inseg i) = slen (inseg i)" using assms(2) by (simp add: tlen_simps)
  note at = assms(1) [THEN in_atD(1)]
  have le: "slen n \<le> tlen n" by (simp add: tlen_def)
  have cmp: "TCP_SEQ_GEQ (i_seqno i + ucast (tcplen i)) (seqno n + ucast (len n)) \<longleftrightarrow>
      p + slen n \<le> r + tlen (inseg i)"
    unfolding in_atD(4) [OF assms(1)] seg_atD(1) [OF p(2)] sq_ucast
    by (rule sq_compare(4)) (use assms(5,6) p(1,3) le Cons.prems(2) in linarith)+
  show ?case
  proof (cases "p + slen n \<le> r + tlen (inseg i)")
    case False
    then have "oos_past S edge lo (r + tlen (inseg i)) (n # ns)" using p by (auto simp: oos_past_def)
    then show ?thesis using False cmp assms by (auto simp: same_recv_def)
  next
    case cov: True
    show ?thesis
    proof (cases "has_hdr TCP_FIN n")
      case False
      have "oos_ok S edge lo ns" using oos_ok_mono [OF p(4)] p(1) by simp
      then show ?thesis using Cons.IH [of lo "tcp_seg_free n e"] Cons.prems(2) cmp cov False by simp
    next
      case True
      then have f: "fin_at S = Some (p + slen n)" by (rule seg_atD(6) [OF p(2)])
      have e: "r + slen (inseg i) = p + slen n" using seg_atD(7) [OF at f] cov tl by simp
      have "ns = []" using oos_ok_end [OF _ f] p(4) True by (simp add: tlen_simps)
      have b: "r + slen (inseg i) + 1 \<le> edge" using p(3) True e by (simp add: tlen_simps)
      let ?s = "inseg i\<lparr>hdr := hdr (inseg i) OR TCP_FIN\<rparr>" let ?i = "set_tcplen (i\<lparr>inseg := ?s\<rparr>)"
      have s: "seg_at S r ?s" "tlen ?s = slen (inseg i) + 1"
        using seg_at_set_fin [OF at] f e b assms(6) by simp_all
      have "in_at S r ?i" using in_at_set_tcplen [of S r "i\<lparr>inseg := ?s\<rparr>"] s(1) in_atD(2) [OF assms(1)] by simp
      moreover have "rcv_covered i (n # ns) e = (?i, [], tcp_seg_free n e)"
        using cmp cov True seg_atD(3) [OF at] \<open>ns = []\<close> by simp
      ultimately show ?thesis using s(2) b tl by (auto simp: same_recv_def oos_past_def)
    qed
  qed
qed

text \<open>A position is reached, or the queue continues there and reaches it.\<close>

definition reaches :: "stream \<Rightarrow> nat \<Rightarrow> nat \<Rightarrow> tcp_seg list \<Rightarrow> bool" where
  "reaches S x r ns \<longleftrightarrow> x \<le> r \<or> (\<exists>n ss. ns = n # ss \<and> seg_at S r n \<and> x \<le> r + tlen n)"

lemma rcv_trim_overlap_ok:
  assumes "in_at S r i" "oos_past S edge lo (r + tlen (inseg i)) ns" "r < lo"
    "has_hdr TCP_FIN (inseg i) \<Longrightarrow> ns = []" "r + tlen (inseg i) \<le> edge" "edge < r + 65536"
  shows "\<exists>i'. rcv_trim_overlap i ns = Some i' \<and> in_at S r i' \<and> same_recv i' i \<and>
    r + tlen (inseg i') \<le> edge \<and> oos_ok S edge (r + tlen (inseg i')) ns \<and>
    reaches S (r + tlen (inseg i)) (r + tlen (inseg i')) ns"
proof (cases ns)
  case Nil
  then show ?thesis using assms by (auto simp: rcv_trim_overlap_def same_recv_def reaches_def)
next
  case (Cons n ns')
  then obtain p where p: "p \<ge> lo" "seg_at S p n" "p + tlen n \<le> edge" "oos_ok S edge (p + tlen n) ns'"
      "r + tlen (inseg i) < p + slen n"
    using assms(2) by (auto simp: oos_past_def)
  have nofin: "\<not> has_hdr TCP_FIN (inseg i)" using assms(4) Cons by auto
  then have tl: "tlen (inseg i) = slen (inseg i)" by (simp add: tlen_simps)
  note at = assms(1) [THEN in_atD(1)] and sno = assms(1) [THEN in_atD(2)]
  have cmp: "TCP_SEQ_GT (i_seqno i + ucast (tcplen i)) (seqno n) \<longleftrightarrow> p < r + tlen (inseg i)"
    unfolding in_atD(4) [OF assms(1)] seg_atD(1) [OF p(2)]
    by (rule sq_compare(3)) (use assms(3,5,6) p(1,3) in linarith)+
  show ?thesis
  proof (cases "p < r + tlen (inseg i)")
    case False
    then have "oos_ok S edge (r + tlen (inseg i)) ns" using p Cons by (auto intro!: exI [of _ p])
    then show ?thesis using False cmp assms Cons by (auto simp: rcv_trim_overlap_def same_recv_def reaches_def)
  next
    case True
    have "seqno n - i_seqno i = sq (p - r)"
      using p(1) assms(3) by (simp add: seg_atD(1) [OF p(2)] sno of_nat_diff)
    then have n: "(ucast (seqno n - i_seqno i) :: u16) = word_of_nat (p - r)"
      using p(1,3) assms(6) by (simp add: ucast_sq16 del: of_nat_diff)
    have m: "unat (word_of_nat (p - r) :: u16) = p - r"
      using p(3) assms(6) by (intro unat_of_nat16) linarith
    define m16 :: u16 where "m16 = word_of_nat (p - r)"
    have c: "seg_at S r (seg_cut m16 (inseg i))" "tlen (seg_cut m16 (inseg i)) = p - r"
      using seg_at_cut [OF at, of m16] True tl nofin m p(1) assms(3)
      by (simp_all add: m16_def word_less_nat_alt)
    let ?i = "set_tcplen (i\<lparr>inseg := seg_cut m16 (inseg i)\<rparr>)"
    have at': "in_at S r ?i" using in_at_set_tcplen [of S r "i\<lparr>inseg := seg_cut m16 (inseg i)\<rparr>"] c(1) sno by simp
    have "i_seqno ?i + ucast (tcplen ?i) = sq p"
      using in_atD(4) [OF at'] c(2) p(1) assms(3) by simp
    then have "rcv_trim_overlap i ns = Some ?i"
      using True cmp seg_atD(1) [OF p(2)] seg_atD(3) [OF at]
      by (simp add: rcv_trim_overlap_def Cons n [unfolded seg_atD(1) [OF p(2)]] m16_def Let_def)
    moreover have "reaches S (r + tlen (inseg i)) (r + tlen (inseg ?i)) ns"
      using p Cons c(2) assms(3) by (auto simp: reaches_def tlen_def)
    ultimately show ?thesis using at' c(2) p Cons assms(3) by (auto simp: same_recv_def)
  qed
qed

lemma rcv_adjust_ooseq_ok:
  assumes "in_at S r i" "oos_ok S edge lo (ooseq pcb)" "r < lo" "r + tlen (inseg i) \<le> edge" "edge < r + 65536"
  shows "\<exists>i' ns e'. rcv_adjust_ooseq pcb i e = Some (pcb\<lparr>ooseq := ns\<rparr>, i', e') \<and> in_at S r i' \<and> same_recv i' i \<and>
    r + tlen (inseg i') \<le> edge \<and> oos_ok S edge (r + tlen (inseg i')) ns \<and>
    reaches S (r + tlen (inseg i)) (r + tlen (inseg i')) ns"
proof (cases "ooseq pcb = [] \<or> has_hdr TCP_FIN (inseg i)")
  case True
  have "pcb\<lparr>ooseq := ooseq pcb\<rparr> = pcb" by simp
  then have "rcv_adjust_ooseq pcb i e = Some (pcb\<lparr>ooseq := []\<rparr>, i,
      if ooseq pcb = [] then e else tcp_segs_free (ooseq pcb) e)"
    using True by (auto simp: rcv_adjust_ooseq_def simp del: tcp_segs_free_pool)
  then show ?thesis using assms by (auto simp: same_recv_def reaches_def)
next
  case False
  then obtain i1 ns e1 where 1: "rcv_covered i (ooseq pcb) e = (i1, ns, e1)" "in_at S r i1" "same_recv i1 i"
      "r + tlen (inseg i1) \<le> edge" "oos_past S edge lo (r + tlen (inseg i1)) ns"
      "tlen (inseg i) \<le> tlen (inseg i1)" "has_hdr TCP_FIN (inseg i1) \<Longrightarrow> ns = []"
    using rcv_covered_ok [OF assms(1) _ assms(2-5)] by blast
  obtain i2 where 2: "rcv_trim_overlap i1 ns = Some i2" "in_at S r i2" "same_recv i2 i1"
      "r + tlen (inseg i2) \<le> edge" "oos_ok S edge (r + tlen (inseg i2)) ns"
      "reaches S (r + tlen (inseg i1)) (r + tlen (inseg i2)) ns"
    using rcv_trim_overlap_ok [OF 1(2,5) assms(3) 1(7,4) assms(5)] by blast
  moreover have "reaches S (r + tlen (inseg i)) (r + tlen (inseg i2)) ns"
    using 2(6) 1(6) by (auto simp: reaches_def)
  ultimately show ?thesis using False 1 by (auto simp: rcv_adjust_ooseq_def same_recv_def)
qed


section \<open>The receive window\<close>

text \<open>
  \<open>rcv_at\<close> relates a control block to the position \<open>r\<close> of the next byte and the right edge of the
  window: the announced edge and the edge that the next segment will announce do not pass it.
\<close>

definition edge_at :: "nat \<Rightarrow> nat \<Rightarrow> tcp_pcb \<Rightarrow> bool" where
  "edge_at r edge pcb \<longleftrightarrow>
     rcv_nxt pcb = sq r \<and> edge = r + unat (rcv_wnd pcb) \<and>
     (\<exists>a. rcv_ann_right_edge pcb = sq a \<and> a \<le> edge \<and> edge < a + 1073741824)"

definition rcv_at :: "nat \<Rightarrow> nat \<Rightarrow> tcp_pcb \<Rightarrow> bool" where
  "rcv_at r edge pcb \<longleftrightarrow> edge_at r edge pcb \<and> r + unat (rcv_ann_wnd pcb) \<le> edge"

lemma rcv_atD:
  assumes "rcv_at r edge pcb"
  shows "rcv_nxt pcb = sq r" "rcv_nxt pcb + ucast (rcv_wnd pcb) = sq edge" "r \<le> edge" "edge < r + 65536"
    "unat (rcv_wnd pcb) = edge - r"
  using assms u16_lt [of "rcv_wnd pcb"] sq_ucast [of r "rcv_wnd pcb"] by (auto simp: rcv_at_def edge_at_def)

lemma rcv_at_cong:
  "rcv_nxt pcb' = rcv_nxt pcb \<Longrightarrow> rcv_wnd pcb' = rcv_wnd pcb \<Longrightarrow> rcv_ann_wnd pcb' = rcv_ann_wnd pcb \<Longrightarrow>
   rcv_ann_right_edge pcb' = rcv_ann_right_edge pcb \<Longrightarrow> rcv_at r edge pcb' = rcv_at r edge pcb"
  by (simp add: rcv_at_def edge_at_def)

lemma rcv_at_fields [simp]:
  "rcv_at r edge (pcb\<lparr>ooseq := q\<rparr>) = rcv_at r edge pcb" "rcv_at r edge (pcb\<lparr>state := t\<rparr>) = rcv_at r edge pcb"
  "rcv_at r edge (pcb\<lparr>flags := fl\<rparr>) = rcv_at r edge pcb" "rcv_at r edge (tcp_ack_now pcb) = rcv_at r edge pcb"
  "rcv_at r edge (tcp_ack pcb) = rcv_at r edge pcb"
  by (simp_all add: rcv_at_def edge_at_def tcp_ack_now_def tcp_ack_def tcp_set_flags_def tcp_clear_flags_def)

lemma edge_at_fields: "edge_at r edge (pcb\<lparr>rcv_ann_wnd := x\<rparr>) = edge_at r edge pcb"
  by (simp add: edge_at_def)

lemma tcp_update_rcv_ann_wnd_ok:
  assumes "edge_at r edge pcb"
  shows "\<exists>n w. tcp_update_rcv_ann_wnd pcb = Some (n, pcb\<lparr>rcv_ann_wnd := w\<rparr>) \<and>
    rcv_at r edge (pcb\<lparr>rcv_ann_wnd := w\<rparr>)"
proof -
  obtain a where a: "rcv_nxt pcb = sq r" "edge = r + unat (rcv_wnd pcb)" "rcv_ann_right_edge pcb = sq a"
      "a \<le> edge" "edge < a + 1073741824"
    using assms by (auto simp: edge_at_def)
  define m where "m = min (TCP_WND div 2) (mss pcb)"
  have m: "unat m < 65536" and w: "unat (rcv_wnd pcb) < 65536" by (rule u16_lt)+
  have e: "rcv_nxt pcb + ucast (rcv_wnd pcb) = sq edge"
    unfolding a(1) a(2) by (rule sq_ucast)
  have ge: "TCP_SEQ_GEQ (sq edge) (sq a + ucast m) \<longleftrightarrow> a + unat m \<le> edge"
    unfolding sq_ucast using a(4,5) m by (intro sq_compare(4)) linarith+
  have gt: "TCP_SEQ_GT (sq r) (sq a) \<longleftrightarrow> a < r"
    using a(2,4,5) w by (intro sq_compare(3)) linarith+
  have d: "unat (sq a - sq r) = a - r" if "\<not> a < r"
  proof -
    have "sq a - sq r = sq (a - r)" using that by (simp add: of_nat_diff)
    then show ?thesis using that a(2,4) w by (simp only: unat_of_nat) simp
  qed
  have lt: "a - r < 65536" using a(2,4) w by linarith
  have eq: "tcp_update_rcv_ann_wnd pcb =
      (if a + unat m \<le> edge then Some (sq edge - sq a, pcb\<lparr>rcv_ann_wnd := rcv_wnd pcb\<rparr>)
       else if a < r then Some (0, pcb\<lparr>rcv_ann_wnd := 0\<rparr>)
       else if sq a - sq r \<le> 0xffff then Some (0, pcb\<lparr>rcv_ann_wnd := ucast (sq a - sq r)\<rparr>) else None)"
    unfolding tcp_update_rcv_ann_wnd_def Let_def m_def [symmetric] e unfolding a(1) a(3) ge gt ..
  have ok: "rcv_at r edge (pcb\<lparr>rcv_ann_wnd := x\<rparr>)" if "r + unat x \<le> edge" for x
    using assms that unfolding rcv_at_def edge_at_fields by simp
  consider "a + unat m \<le> edge" | "\<not> a + unat m \<le> edge" "a < r" | "\<not> a + unat m \<le> edge" "\<not> a < r" by blast
  then show ?thesis
  proof cases
    case 1
    then have "tcp_update_rcv_ann_wnd pcb = Some (sq edge - sq a, pcb\<lparr>rcv_ann_wnd := rcv_wnd pcb\<rparr>)"
      unfolding eq by (rule if_P)
    then show ?thesis using ok [of "rcv_wnd pcb"] a(2) by blast
  next
    case 2
    then have "tcp_update_rcv_ann_wnd pcb = Some (0, pcb\<lparr>rcv_ann_wnd := 0\<rparr>)" unfolding eq by (simp only: if_False if_True)
    moreover have "r + unat (0 :: u16) \<le> edge" using a(2) by simp
    ultimately show ?thesis using ok [of 0] by blast
  next
    case 3
    have "unat (0xffff :: u32) = 65535" by simp
    then have "sq a - sq r \<le> 0xffff" unfolding word_le_nat_alt d [OF 3(2)] using lt by linarith
    then have "tcp_update_rcv_ann_wnd pcb = Some (0, pcb\<lparr>rcv_ann_wnd := ucast (sq a - sq r)\<rparr>)"
      unfolding eq using 3 by (simp only: if_False if_True)
    moreover have "unat (ucast (sq a - sq r) :: u16) = a - r"
      unfolding unat_ucast_u16 d [OF 3(2)] using lt by (rule mod_less)
    ultimately show ?thesis using ok [of "ucast (sq a - sq r)"] 3(2) a(4) by auto
  qed
qed

lemma rcv_advance_ok:
  assumes "rcv_at r edge pcb" "r + n \<le> edge"
  shows "\<exists>w. rcv_advance (sq n) pcb =
      Some (pcb\<lparr>rcv_nxt := sq (r + n), rcv_wnd := rcv_wnd pcb - word_of_nat n, rcv_ann_wnd := w\<rparr>) \<and>
    rcv_at (r + n) edge (pcb\<lparr>rcv_nxt := sq (r + n), rcv_wnd := rcv_wnd pcb - word_of_nat n, rcv_ann_wnd := w\<rparr>)"
proof -
  note at = rcv_atD [OF assms(1)]
  have n: "n \<le> unat (rcv_wnd pcb)" "n < 65536" using at assms(2) u16_lt [of "rcv_wnd pcb"] by linarith+
  then have n': "unat (sq n) = n" "unat (word_of_nat n :: u16) = n" "(ucast (sq n) :: u16) = word_of_nat n"
    by (simp_all only: unat_of_nat ucast_sq16) simp_all
  have le: "ucast (rcv_wnd pcb) \<ge> sq n" using n n' by (simp only: word_le_nat_alt unat_ucast_up)
  have w: "unat (rcv_wnd pcb - word_of_nat n) = unat (rcv_wnd pcb) - n"
    using unat_diff_le [of "word_of_nat n" "rcv_wnd pcb"] n n' by (simp add: word_le_nat_alt)
  let ?p = "pcb\<lparr>rcv_nxt := rcv_nxt pcb + sq n, rcv_wnd := rcv_wnd pcb - ucast (sq n)\<rparr>"
  have "edge_at (r + n) edge ?p"
    using assms at w n n'(3) by (auto simp: rcv_at_def edge_at_def)
  from tcp_update_rcv_ann_wnd_ok [OF this] show ?thesis
    using le n'(3) at(1) by (auto simp: rcv_advance_def)
qed


section \<open>Delivery\<close>

definition delivered :: "tcp_in \<Rightarrow> u8 list" where
  "delivered i = (case recv_data i of None \<Rightarrow> [] | Some d \<Rightarrow> concat d)"

definition got_fin :: "tcp_in \<Rightarrow> bool" where
  "got_fin i \<longleftrightarrow> recv_flags i AND TF_GOT_FIN \<noteq> 0"

text \<open>The end of the bytes among the first positions; the position behind the bytes is the FIN's.\<close>

definition data_end :: "stream \<Rightarrow> nat \<Rightarrow> nat" where
  "data_end S r = (case fin_at S of None \<Rightarrow> r | Some f \<Rightarrow> min r f)"

definition fin_passed :: "stream \<Rightarrow> nat \<Rightarrow> bool" where
  "fin_passed S r \<longleftrightarrow> (\<exists>f. fin_at S = Some f \<and> f < r)"

definition passed :: "stream \<Rightarrow> nat \<Rightarrow> nat \<Rightarrow> tcp_in \<Rightarrow> bool" where
  "passed S r r' i \<longleftrightarrow>
     delivered i = map (byte_at S) [r ..< data_end S r'] \<and> (got_fin i \<longleftrightarrow> fin_passed S r')"

lemma got_fin_exp: "TF_GOT_FIN = 2 ^ 5"
  by (simp add: tcp_recv_flag_defs)

lemma got_fin_bit: "got_fin i \<longleftrightarrow> bit (recv_flags i) 5"
  unfolding got_fin_def got_fin_exp and_exp_eq_0_iff_not_bit by simp

lemma got_fin_set [simp]: "got_fin (i\<lparr>recv_flags := recv_flags i OR TF_GOT_FIN\<rparr>)"
  unfolding got_fin_bit got_fin_exp by (simp add: bit_or_iff bit_exp_iff possible_bit_def del: power_numeral)

lemma rcv_got_fin_simps [simp]:
  "recv_data (rcv_got_fin s i) = recv_data i" "delivered (rcv_got_fin s i) = delivered i"
  "got_fin (rcv_got_fin s i) \<longleftrightarrow> got_fin i \<or> has_hdr TCP_FIN s"
  "inseg (rcv_got_fin s i) = inseg i" "i_seqno (rcv_got_fin s i) = i_seqno i"
  by (auto simp: rcv_got_fin_def delivered_def)

lemma rcv_pass_data_simps [simp]:
  "delivered (rcv_pass_data p i) = delivered i @ concat p" "got_fin (rcv_pass_data p i) = got_fin i"
  by (auto simp: rcv_pass_data_def delivered_def tot_len_def got_fin_def split: option.splits)

lemma data_end_seg:
  assumes "seg_at S p s"
  shows "data_end S p = p" "data_end S (p + tlen s) = p + slen s"
    "\<not> fin_passed S p" "fin_passed S (p + tlen s) \<longleftrightarrow> has_hdr TCP_FIN s"
proof -
  note D = seg_at_end [OF assms] seg_atD(6,7) [OF assms]
  show "data_end S p = p" using D(1) by (cases "fin_at S") (simp_all add: data_end_def)
  show "data_end S (p + tlen s) = p + slen s"
    using D(2,3) by (cases "fin_at S"; cases "has_hdr TCP_FIN s") (simp_all add: data_end_def tlen_simps)
  show "\<not> fin_passed S p" using D(1) by (auto simp: fin_passed_def)
  show "fin_passed S (p + tlen s) \<longleftrightarrow> has_hdr TCP_FIN s"
    using D(2,3) by (cases "fin_at S"; cases "has_hdr TCP_FIN s") (simp_all add: fin_passed_def tlen_simps not_less)
qed

lemma passed_seg:
  assumes "passed S r p i" "seg_at S p s" "r \<le> p"
  shows "passed S r (p + tlen s) (rcv_got_fin s (rcv_pass_data (seg_p s) i))"
proof -
  have "[r ..< p] @ [p ..< p + slen s] = [r ..< p + slen s]"
    by (rule upt_add_eq_append [OF assms(3), symmetric])
  then have "map (byte_at S) [r ..< p] @ concat (seg_p s) = map (byte_at S) [r ..< p + slen s]"
    by (simp only: seg_atD(2) [OF assms(2)] map_append [symmetric])
  then show ?thesis
    using assms(1) data_end_seg(3) [OF assms(2)] unfolding passed_def data_end_seg(1,2,4) [OF assms(2)] by simp
qed

lemma passed_cong: "same_recv i j \<Longrightarrow> passed S r r' i = passed S r r' j"
  by (simp add: same_recv_def passed_def delivered_def got_fin_def)

lemma rcv_dequeue_ok:
  assumes "rcv_at r1 edge pcb" "oos_ok S edge r1 cs" "passed S r r1 i" "r \<le> r1"
  shows "\<exists>pcb' i' e' r2. rcv_dequeue cs pcb i e = Some (pcb', i', e') \<and> r1 \<le> r2 \<and> rcv_at r2 edge pcb' \<and>
    oos_ok S edge (r2 + 1) (ooseq pcb') \<and> passed S r r2 i' \<and> (\<forall>x. reaches S x r1 cs \<longrightarrow> x \<le> r2)"
  using assms
proof (induction cs arbitrary: pcb i e r1)
  case Nil
  then show ?case by (auto simp: reaches_def)
next
  case (Cons c cs)
  then obtain p where p: "p \<ge> r1" "seg_at S p c" "p + tlen c \<le> edge" "oos_ok S edge (p + tlen c) cs" by auto
  note at = rcv_atD [OF Cons.prems(1)]
  have eq: "seqno c = rcv_nxt pcb \<longleftrightarrow> p = r1"
    unfolding at(1) seg_atD(1) [OF p(2)] using p(1,3) at(4) by (intro sq_compare(5)) linarith+
  show ?case
  proof (cases "p = r1")
    case False
    then have "oos_ok S edge (r1 + 1) (c # cs)" using p by (auto intro!: exI [of _ p])
    moreover have "\<forall>x. reaches S x r1 (c # cs) \<longrightarrow> x \<le> r1"
      using False eq at(1) by (auto simp: reaches_def dest: seg_atD(1))
    ultimately show ?thesis using False eq Cons.prems by (auto intro!: exI [of _ r1] simp del: oos_ok.simps)
  next
    case True
    obtain w where w: "rcv_advance (sq (tlen c)) pcb =
        Some (pcb\<lparr>rcv_nxt := sq (r1 + tlen c), rcv_wnd := rcv_wnd pcb - word_of_nat (tlen c), rcv_ann_wnd := w\<rparr>)"
      "rcv_at (r1 + tlen c) edge
        (pcb\<lparr>rcv_nxt := sq (r1 + tlen c), rcv_wnd := rcv_wnd pcb - word_of_nat (tlen c), rcv_ann_wnd := w\<rparr>)"
      using rcv_advance_ok [OF Cons.prems(1), of "tlen c"] p(3) True by blast
    let ?i = "rcv_got_fin c (rcv_pass_data (seg_p c) (i\<lparr>i_seqno := seqno c\<rparr>))"
    have "passed S r r1 (i\<lparr>i_seqno := seqno c\<rparr>)"
      using Cons.prems(3) by (simp add: passed_def delivered_def got_fin_def)
    then have i: "passed S r (r1 + tlen c) ?i"
      using passed_seg [of S r r1 _ c] p(2) True Cons.prems(4) by blast
    define q where "q = pcb\<lparr>rcv_nxt := sq (r1 + tlen c), rcv_wnd := rcv_wnd pcb - word_of_nat (tlen c), rcv_ann_wnd := w\<rparr>"
    define q' where "q' = (if has_hdr TCP_FIN c \<and> state q = ESTABLISHED then q\<lparr>state := CLOSE_WAIT\<rparr> else q)"
    have "rcv_at (r1 + tlen c) edge q'" using w(2) by (simp add: q'_def q_def)
    moreover have "oos_ok S edge (r1 + tlen c) cs" using p(4) True by simp
    moreover have "r \<le> r1 + tlen c" using Cons.prems(4) by simp
    ultimately obtain pcb' i' e' r2 where
        "rcv_dequeue cs q' ?i (tcp_seg_free c e) = Some (pcb', i', e')" "r1 + tlen c \<le> r2" "rcv_at r2 edge pcb'"
        "oos_ok S edge (r2 + 1) (ooseq pcb')" "passed S r r2 i'"
      using Cons.IH [OF _ _ i] by blast
    moreover have "rcv_dequeue (c # cs) pcb i e = rcv_dequeue cs q' ?i (tcp_seg_free c e)"
      using True eq w(1) by (simp add: seg_atD(8) [OF p(2)] q_def q'_def Let_def)
    moreover have "\<forall>x. reaches S x r1 (c # cs) \<longrightarrow> x \<le> r2"
      using calculation(2) by (auto simp: reaches_def)
    ultimately show ?thesis by (metis add_leD1)
  qed
qed


section \<open>In sequence\<close>

lemma rcv_pass_data_None:
  "recv_data i = None \<Longrightarrow>
   (if tot_len p > 0 then i\<lparr>recv_data := Some p\<rparr> else i) = rcv_pass_data p i"
  by (simp add: rcv_pass_data_def)

lemma rcv_in_sequence_ok:
  assumes "rcv_at r edge pcb" "oos_ok S edge (r + 1) (ooseq pcb)" "seg_at S r (inseg i)" "i_seqno i = sq r"
    "recv_data i = None" "\<not> got_fin i" "r < edge"
  shows "\<exists>pcb' i' e' r2. rcv_in_sequence pcb i e = Some (pcb', i', e') \<and> min (r + tlen (inseg i)) edge \<le> r2 \<and>
    rcv_at r2 edge pcb' \<and> oos_ok S edge (r2 + 1) (ooseq pcb') \<and> passed S r r2 i'"
proof -
  note at = rcv_atD [OF assms(1)]
  have "rcv_wnd pcb > 0" using at(5) assms(7) by (simp add: word_less_nat_alt)
  from rcv_trim_window_ok [OF assms(3,4) at(1) this] obtain i1 where
    1: "rcv_trim_window pcb i = Some i1" "in_at S r i1" "same_recv i1 i" "tlen (inseg i1) = min (tlen (inseg i)) (edge - r)"
    using at(5) by auto
  have "r + tlen (inseg i1) \<le> edge" using 1(4) at(3) by simp
  from rcv_adjust_ooseq_ok [OF 1(2) assms(2) _ this at(4), of e] obtain i2 ns e2 where
    2: "rcv_adjust_ooseq pcb i1 e = Some (pcb\<lparr>ooseq := ns\<rparr>, i2, e2)" "in_at S r i2" "same_recv i2 i1"
      "r + tlen (inseg i2) \<le> edge" "oos_ok S edge (r + tlen (inseg i2)) ns"
      "reaches S (r + tlen (inseg i1)) (r + tlen (inseg i2)) ns"
    by (auto simp del: oos_ok.simps)
  let ?n = "tlen (inseg i2)"
  note at2 = in_atD [OF 2(2)]
  have p0: "rcv_at r edge (pcb\<lparr>ooseq := ns, rcv_nxt := sq r\<rparr>)"
    using assms(1) rcv_at_cong [of "pcb\<lparr>ooseq := ns, rcv_nxt := sq r\<rparr>" pcb r edge] at(1) by simp
  have n: "ucast (tcplen i2) = sq ?n" by (simp only: ucast16 at2(3))
  obtain w where w: "rcv_advance (ucast (tcplen i2)) (pcb\<lparr>ooseq := ns, rcv_nxt := i_seqno i2\<rparr>) =
      Some (pcb\<lparr>ooseq := ns, rcv_nxt := sq (r + ?n), rcv_wnd := rcv_wnd pcb - word_of_nat ?n, rcv_ann_wnd := w\<rparr>)"
    "rcv_at (r + ?n) edge
      (pcb\<lparr>ooseq := ns, rcv_nxt := sq (r + ?n), rcv_wnd := rcv_wnd pcb - word_of_nat ?n, rcv_ann_wnd := w\<rparr>)"
    using rcv_advance_ok [OF p0 2(4)] unfolding n at2(2) by auto
  define q where
    "q = pcb\<lparr>ooseq := ns, rcv_nxt := sq (r + ?n), rcv_wnd := rcv_wnd pcb - word_of_nat ?n, rcv_ann_wnd := w\<rparr>"
  define j where "j = rcv_got_fin (inseg i2) (rcv_pass_data (seg_p (inseg i2)) i2)"
  have "recv_data i2 = None" "\<not> got_fin i2" using 1(3) 2(3) assms(5,6) by (auto simp: same_recv_def got_fin_def)
  then have "passed S r r i2"
    using data_end_seg(1,3) [OF at2(1)] by (simp add: passed_def delivered_def)
  from passed_seg [OF this at2(1)] have j: "passed S r (r + ?n) j" by (simp add: j_def)
  obtain pcb' i' e' r2 where d: "rcv_dequeue ns q j e2 = Some (pcb', i', e')" "r + ?n \<le> r2" "rcv_at r2 edge pcb'"
      "oos_ok S edge (r2 + 1) (ooseq pcb')" "passed S r r2 i'" "\<forall>x. reaches S x (r + ?n) ns \<longrightarrow> x \<le> r2"
    using rcv_dequeue_ok [of "r + ?n" edge q S ns r j e2] w(2) 2(5) j unfolding q_def [symmetric] by auto
  have "rcv_in_sequence pcb i e = Some (tcp_ack pcb', i', e')"
    using w(1) d(1) \<open>recv_data i2 = None\<close>
    by (cases "0 < tot_len (seg_p (inseg i2))")
      (simp_all add: rcv_in_sequence_def 1(1) 2(1) j_def q_def rcv_pass_data_def Let_def)
  moreover have "min (r + tlen (inseg i)) edge \<le> r2"
    using d(6) 2(6) 1(4) by (auto simp: min_def split: if_splits)
  moreover have "ooseq (tcp_ack pcb') = ooseq pcb'"
    by (simp add: tcp_ack_def tcp_ack_now_def tcp_set_flags_def tcp_clear_flags_def)
  ultimately show ?thesis using d(3-5) by (intro exI [of _ "tcp_ack pcb'"] exI [of _ i'] exI [of _ e'] exI [of _ r2]) simp
qed


section \<open>Out of sequence\<close>

lemma oos_trim_prev_ok:
  assumes "seg_at S p s" "\<not> has_hdr TCP_FIN s" "p < q" "q < p + 1073741824"
  shows "seg_at S p (oos_trim_prev (sq q) s)" "p + tlen (oos_trim_prev (sq q) s) \<le> q"
    "tlen (oos_trim_prev (sq q) s) \<le> tlen s" "\<not> has_hdr TCP_FIN (oos_trim_prev (sq q) s)"
proof -
  have lt: "slen s < 65536" by (rule u16_lt)
  have cmp: "TCP_SEQ_GT (seqno s + ucast (len s)) (sq q) \<longleftrightarrow> q < p + slen s"
    unfolding seg_atD(1) [OF assms(1)] sq_ucast using assms(3,4) lt by (intro sq_compare(3)) linarith+
  define m :: u16 where "m = word_of_nat (q - p)"
  have "sq q - seqno s = sq (q - p)" using assms(3) by (simp add: seg_atD(1) [OF assms(1)] of_nat_diff)
  then have e: "oos_trim_prev (sq q) s = (if q < p + slen s then seg_cut m s else s)" if "q < p + slen s \<Longrightarrow> q - p < 65536"
    using cmp that by (simp add: oos_trim_prev_def m_def ucast_sq16 del: of_nat_diff)
  have d: "q - p < 65536" if "q < p + slen s" using that lt by linarith
  have m: "unat m = q - p" if "q < p + slen s" using d [OF that] by (simp add: m_def unat_of_nat16 del: of_nat_diff)
  have c: "seg_at S p (seg_cut m s)" "tlen (seg_cut m s) = q - p" if "q < p + slen s"
    using seg_at_cut [OF assms(1), of m] that m [OF that] assms(2,3) by (simp_all add: word_less_nat_alt)
  note e = e [OF d]
  show "seg_at S p (oos_trim_prev (sq q) s)" using c(1) assms(1) by (simp add: e)
  show "p + tlen (oos_trim_prev (sq q) s) \<le> q" using c(2) assms(2,3) by (auto simp: e tlen_simps)
  show "tlen (oos_trim_prev (sq q) s) \<le> tlen s" using c(2) assms(2,3) by (auto simp: e tlen_simps)
  show "\<not> has_hdr TCP_FIN (oos_trim_prev (sq q) s)" using assms(2) by (simp add: e)
qed

lemma oos_covered_ok:
  assumes "seg_at S q c" "\<not> has_hdr TCP_FIN c" "oos_ok S edge lo ns" "q \<le> lo" "q + tlen c \<le> edge" "edge < q + 65536"
  shows "\<exists>c' ns' e'. oos_covered (sq q) c ns e = (c', ns', e') \<and> seg_at S q c' \<and> len c' = len c \<and>
    q + tlen c' \<le> edge \<and> oos_past S edge lo (q + tlen c') ns' \<and> (has_hdr TCP_FIN c' \<longrightarrow> ns' = [])"
  using assms(3,4)
proof (induction ns arbitrary: e lo)
  case Nil
  then show ?case using assms by (auto simp: oos_past_def)
next
  case (Cons n ns)
  then obtain p where p: "p \<ge> lo" "seg_at S p n" "p + tlen n \<le> edge" "oos_ok S edge (p + tlen n) ns" by auto
  have tl: "tlen c = slen c" using assms(2) by (simp add: tlen_simps)
  have le: "slen n \<le> tlen n" by (simp add: tlen_def)
  have cmp: "TCP_SEQ_GEQ (sq q + ucast (len c)) (seqno n + ucast (len n)) \<longleftrightarrow> p + slen n \<le> q + slen c"
    unfolding seg_atD(1) [OF p(2)] sq_ucast
    by (rule sq_compare(4)) (use assms(5,6) tl p(1,3) le Cons.prems(2) in linarith)+
  show ?case
  proof (cases "p + slen n \<le> q + slen c")
    case False
    then have "oos_past S edge lo (q + tlen c) (n # ns)" using p tl by (auto simp: oos_past_def)
    then show ?thesis using False cmp assms by auto
  next
    case cov: True
    show ?thesis
    proof (cases "has_hdr TCP_FIN n")
      case False
      have "oos_ok S edge lo ns" using oos_ok_mono [OF p(4)] p(1) by simp
      then show ?thesis using Cons.IH [of lo "tcp_seg_free n e"] Cons.prems(2) cmp cov False by simp
    next
      case True
      then have f: "fin_at S = Some (p + slen n)" by (rule seg_atD(6) [OF p(2)])
      have e: "q + slen c = p + slen n" using seg_atD(7) [OF assms(1) f] cov by simp
      have "ns = []" using oos_ok_end [OF _ f] p(4) True by (simp add: tlen_simps)
      have b: "q + slen c + 1 \<le> edge" using p(3) True e by (simp add: tlen_simps)
      have "seg_at S q (c\<lparr>hdr := hdr c OR TCP_FIN\<rparr>)" "tlen (c\<lparr>hdr := hdr c OR TCP_FIN\<rparr>) = slen c + 1"
        using seg_at_set_fin [OF assms(1)] f e b assms(6) by simp_all
      then show ?thesis using cmp cov True \<open>ns = []\<close> b by (auto simp: oos_past_def)
    qed
  qed
qed

lemma tcp_oos_insert_segment_ok:
  assumes "seg_at S q c" "oos_ok S edge lo ns" "q < lo" "q + tlen c \<le> edge" "edge < q + 65536"
  shows "\<exists>q' e'. tcp_oos_insert_segment (sq q) c ns e = (q', e') \<and> oos_ok S edge q q'"
proof (cases "has_hdr TCP_FIN c")
  case True
  then show ?thesis using assms by (auto simp: tcp_oos_insert_segment_def)
next
  case nofin: False
  then have tl: "tlen c = slen c" by (simp add: tlen_simps)
  obtain c' ns' e' where 1: "oos_covered (sq q) c ns e = (c', ns', e')" "seg_at S q c'" "len c' = len c"
      "q + tlen c' \<le> edge" "oos_past S edge lo (q + tlen c') ns'" "has_hdr TCP_FIN c' \<longrightarrow> ns' = []"
    using oos_covered_ok [OF assms(1) nofin assms(2) less_imp_le [OF assms(3)] assms(4,5)] by blast
  show ?thesis
  proof (cases ns')
    case Nil
    then show ?thesis using 1 nofin by (auto simp: tcp_oos_insert_segment_def)
  next
    case (Cons n ss)
    then obtain p where p: "p \<ge> lo" "seg_at S p n" "p + tlen n \<le> edge" "oos_ok S edge (p + tlen n) ss"
        "q + tlen c' < p + slen n"
      using 1(5) by (auto simp: oos_past_def)
    have nf: "\<not> has_hdr TCP_FIN c'" using 1(6) Cons by auto
    then have tl': "tlen c' = slen c'" by (simp add: tlen_simps)
    have cmp: "TCP_SEQ_GT (sq q + ucast (len c')) (seqno n) \<longleftrightarrow> p < q + slen c'"
      unfolding seg_atD(1) [OF p(2)] sq_ucast
      by (rule sq_compare(3)) (use assms(3,5) 1(4) tl' p(1,3) in linarith)+
    have trim: "tcp_oos_insert_segment (sq q) c ns e =
        (if p < q + slen c' then (seg_cut (ucast (seqno n - sq q)) c' # ns', e') else (c' # ns', e'))"
      using nofin cmp by (simp add: tcp_oos_insert_segment_def 1(1) Cons)
    show ?thesis
    proof (cases "p < q + slen c'")
      case False
      then have "oos_ok S edge (q + tlen c') ns'" using p Cons tl' by (auto intro!: exI [of _ p])
      then show ?thesis using trim False 1(2,4) by (auto intro!: exI [of _ q])
    next
      case True
      have "q < p" using p(1) assms(3) by simp
      define m :: u16 where "m = word_of_nat (p - q)"
      have "seqno n - sq q = sq (p - q)" using \<open>q < p\<close> by (simp add: seg_atD(1) [OF p(2)] of_nat_diff)
      moreover have "p - q < 65536" using p(3) assms(5) by linarith
      ultimately have m: "(ucast (seqno n - sq q) :: u16) = m" "unat m = p - q"
        by (simp_all add: m_def ucast_sq16 unat_of_nat16 del: of_nat_diff)
      have c: "seg_at S q (seg_cut m c')" "tlen (seg_cut m c') = p - q"
        using seg_at_cut [OF 1(2), of m] m(2) nf True \<open>q < p\<close> by (simp_all add: word_less_nat_alt)
      have "oos_ok S edge (q + tlen (seg_cut m c')) ns'" using p Cons c(2) \<open>q < p\<close> by (auto intro!: exI [of _ p])
      then show ?thesis using trim True m(1) c p(3) \<open>q < p\<close> by (auto intro!: exI [of _ q])
    qed
  qed
qed

lemma tcp_oos_insert_segment_same:
  assumes "seg_at S q c" "seg_at S q n" "oos_ok S edge (q + tlen n) ss" "q + tlen c \<le> edge" "edge < q + 65536"
    "slen n < slen c"
  shows "\<exists>q' e'. tcp_oos_insert_segment (sq q) c (n # ss) e = (q', e') \<and> oos_ok S edge q q'"
proof -
  have "\<not> has_hdr TCP_FIN n"
    using seg_atD(6) [OF assms(2)] seg_atD(7) [OF assms(1)] assms(6) by force
  moreover have "TCP_SEQ_GEQ (sq q + ucast (len c)) (seqno n + ucast (len n))"
    unfolding seg_atD(1) [OF assms(2)] sq_ucast
    by (subst sq_compare(4)) (use assms(6) u16_lt [of "len c"] u16_lt [of "len n"] in linarith)+
  ultimately have "tcp_oos_insert_segment (sq q) c (n # ss) e =
      tcp_oos_insert_segment (sq q) c ss (tcp_seg_free n e)"
    by (simp add: tcp_oos_insert_segment_def tcp_seg_free_def)
  moreover have "q < q + tlen n" using seg_atD(4) [OF assms(2)] by simp
  ultimately show ?thesis using tcp_oos_insert_segment_ok [OF assms(1,3) _ assms(4,5)] by metis
qed

text \<open>The queue before the position of the walk.\<close>

definition before_ok :: "stream \<Rightarrow> nat \<Rightarrow> nat \<Rightarrow> nat \<Rightarrow> tcp_seg option \<Rightarrow> tcp_seg list \<Rightarrow> bool" where
  "before_ok S edge lo q prev ns \<longleftrightarrow>
     (case prev of
        None \<Rightarrow> oos_ok S edge lo ns
      | Some s \<Rightarrow> \<exists>p \<ge> lo. p < q \<and> seg_at S p s \<and> p + tlen s \<le> edge \<and> oos_ok S edge (p + tlen s) ns)"

lemma oos_insert_cases:
  assumes "oos_ok S edge lo K" "\<And>e1. \<exists>q' e'. tcp_oos_insert_segment sno c ns e1 = (q', e') \<and> oos_ok S edge p q'"
    "\<And>q'. oos_ok S edge p q' \<Longrightarrow> oos_ok S edge lo (B @ q')"
  shows "\<exists>q' e'.
    (case tcp_seg_copy c e of None \<Rightarrow> Some (K, i, e)
     | Some (cseg, e) \<Rightarrow> (let (q, e) = tcp_oos_insert_segment sno cseg ns e in Some (B @ q, i, e))) =
      Some (q', i, e') \<and> oos_ok S edge lo q'"
proof (cases "tcp_seg_pool e = 0")
  case False
  obtain q' e' where "tcp_oos_insert_segment sno c ns (e\<lparr>tcp_seg_pool := tcp_seg_pool e - 1\<rparr>) = (q', e')" "oos_ok S edge p q'"
    using assms(2) by blast
  then show ?thesis using False assms(3) by (simp add: tcp_seg_copy_def)
qed (use assms(1) in \<open>simp add: tcp_seg_copy_def\<close>)

lemma oos_walk_ok:
  assumes "in_at S q i" "q + tlen (inseg i) \<le> edge" "rcv_nxt pcb + ucast (rcv_wnd pcb) = sq edge"
    and "before_ok S edge lo q prev ns" "lo \<le> q" "edge < lo + 65536" "0 < lo"
  shows "\<exists>q' e'. oos_walk pcb i prev ns e = Some (q', i, e') \<and> oos_ok S edge lo q'"
  using assms(4-)
proof (induction ns arbitrary: lo prev e)
  case Nil
  then show ?case by (auto simp: before_ok_def split: option.splits)
next
  case (Cons n ns)
  note at = in_atD [OF assms(1)]
  let ?before = "case prev of Some p \<Rightarrow> [p] | None \<Rightarrow> []"
  obtain p where p: "p \<ge> lo" "seg_at S p n" "p + tlen n \<le> edge" "oos_ok S edge (p + tlen n) ns"
    and before: "\<And>ss. oos_ok S edge p ss \<Longrightarrow> oos_ok S edge lo (?before @ ss)"
    and prev: "\<And>s. prev = Some s \<Longrightarrow> \<exists>pp \<ge> lo. pp < q \<and> seg_at S pp s \<and> pp + tlen s \<le> p \<and> pp + tlen s \<le> edge"
  proof (cases prev)
    case None
    then show ?thesis using that Cons.prems(1) by (auto simp: before_ok_def intro: oos_ok_mono)
  next
    case (Some s)
    then obtain pp where pp: "pp \<ge> lo" "pp < q" "seg_at S pp s" "pp + tlen s \<le> edge"
        "oos_ok S edge (pp + tlen s) (n # ns)"
      using Cons.prems(1) by (auto simp: before_ok_def simp del: oos_ok.simps)
    then obtain p where p: "p \<ge> pp + tlen s" "seg_at S p n" "p + tlen n \<le> edge" "oos_ok S edge (p + tlen n) ns"
      by auto
    then show ?thesis using that [of p] pp Some by (fastforce intro: oos_ok_mono)
  qed
  have full: "oos_ok S edge lo (?before @ n # ns)" using before [of "n # ns"] p by auto
  have tq: "tlen (inseg i) < 65536" by (rule seg_atD(5) [OF at(1)])
  have eq: "i_seqno i = seqno n \<longleftrightarrow> q = p"
    unfolding at(2) seg_atD(1) [OF p(2)] by (rule sq_compare(5)) (use assms(2) Cons.prems(2,3) p(1,3) in linarith)+
  have lt: "TCP_SEQ_LT (i_seqno i) (seqno n) \<longleftrightarrow> q < p"
    unfolding at(2) seg_atD(1) [OF p(2)] by (rule sq_compare(1)) (use assms(2) Cons.prems(2,3) p(1,3) in linarith)+
  have gt: "TCP_SEQ_GT (i_seqno i) (seqno n) \<longleftrightarrow> p < q"
    unfolding at(2) seg_atD(1) [OF p(2)] by (rule sq_compare(3)) (use assms(2) Cons.prems(2,3) p(1,3) in linarith)+
  have keep: "\<exists>q' e'. Some (?before @ n # ns, i, e) = Some (q', i, e') \<and> oos_ok S edge lo q'"
    using full by blast
  have edge: "edge < q + 65536" using Cons.prems(2,3) by simp
  have cond: "(case prev of None \<Rightarrow> TCP_SEQ_LT (i_seqno i) (seqno n)
      | Some s \<Rightarrow> TCP_SEQ_BETWEEN (i_seqno i) (seqno s + 1) (seqno n - 1)) \<longleftrightarrow> q < p"
  proof (cases prev)
    case (Some s)
    then obtain pp where pp: "pp \<ge> lo" "pp < q" "seg_at S pp s" using prev by blast
    have e: "seqno s + 1 = sq (pp + 1)" "seqno n - 1 = sq (p - 1)"
      using Cons.prems(4) p(1) by (simp_all add: seg_atD(1) [OF pp(3)] seg_atD(1) [OF p(2)] of_nat_diff)
    show ?thesis unfolding Some option.case at(2) e
      by (subst sq_between) (use pp(1,2) p(1,3) assms(2) Cons.prems(3,4) in linarith)+
  qed (use lt in simp)
  consider "q = p" | "q < p" | "p < q" by linarith
  then show ?case
  proof cases
    case 1
    then have walk: "oos_walk pcb i prev (n # ns) e =
        (if len (inseg i) > len n then
          (case tcp_seg_copy (inseg i) e of None \<Rightarrow> Some (?before @ n # ns, i, e)
           | Some (cseg, e) \<Rightarrow>
              (let (q, e) = tcp_oos_insert_segment (seqno n) cseg (n # ns) e in Some (?before @ q, i, e)))
         else Some (?before @ n # ns, i, e))"
      using eq by (simp add: Let_def)
    have ins1: "\<exists>q' e'. tcp_oos_insert_segment (seqno n) (inseg i) (n # ns) e1 = (q', e') \<and> oos_ok S edge p q'"
      if "len (inseg i) > len n" for e1
      using tcp_oos_insert_segment_same [OF at(1) _ _ assms(2) edge, of n ns e1] p 1 that seg_atD(1) [OF p(2)]
      by (auto simp: word_less_nat_alt)
    show ?thesis
    proof (cases "len (inseg i) > len n")
      case True
      show ?thesis unfolding walk if_P [OF True] by (rule oos_insert_cases [OF full ins1 [OF True] before])
    next
      case False
      show ?thesis unfolding walk if_not_P [OF False] by (rule keep)
    qed
  next
    case 2
    have ins: "oos_ok S edge lo (map (oos_trim_prev (i_seqno i)) ?before @ q')" if "oos_ok S edge q q'" for q'
    proof (cases prev)
      case None
      then show ?thesis using that Cons.prems(2) by (auto intro: oos_ok_mono)
    next
      case (Some s)
      then obtain pp where pp: "pp \<ge> lo" "pp < q" "seg_at S pp s" "pp + tlen s \<le> p" "pp + tlen s \<le> edge"
        using prev by blast
      have "\<not> has_hdr TCP_FIN s"
        using seg_atD(6) [OF pp(3)] seg_at_end [OF p(2)] pp(4) by (auto simp: tlen_def)
      note t = oos_trim_prev_ok [OF pp(3) this pp(2)]
      have "q < pp + 1073741824" using edge Cons.prems(3) pp(1) assms(2) by linarith
      with t that pp(1,5) show ?thesis unfolding at(2) Some
        by (auto intro!: exI [of _ pp] oos_ok_mono [of S edge q q'] intro: le_trans)
    qed
    have walk: "oos_walk pcb i prev (n # ns) e =
        (case tcp_seg_copy (inseg i) e of None \<Rightarrow> Some (?before @ n # ns, i, e)
         | Some (cseg, e) \<Rightarrow>
            (let (q, e) = tcp_oos_insert_segment (i_seqno i) cseg (n # ns) e
             in Some (map (oos_trim_prev (i_seqno i)) ?before @ q, i, e)))"
      using eq cond 2 by (simp add: Let_def)
    have ins2: "\<exists>q' e'. tcp_oos_insert_segment (i_seqno i) (inseg i) (n # ns) e1 = (q', e') \<and> oos_ok S edge q q'" for e1
      using tcp_oos_insert_segment_ok [OF at(1) _ 2 assms(2) edge, of "n # ns" e1] p at(2) by auto
    show ?thesis unfolding walk by (rule oos_insert_cases [OF full ins2 ins])
  next
    case 3
    show ?thesis
    proof (cases ns)
      case Nil
      have tr: "seg_at S p (oos_trim_prev (i_seqno i) n)" "p + tlen (oos_trim_prev (i_seqno i) n) \<le> q"
          "tlen (oos_trim_prev (i_seqno i) n) \<le> tlen n" if "\<not> has_hdr TCP_FIN n"
        using oos_trim_prev_ok [OF p(2) that 3] edge p(1) Cons.prems(3) assms(2) unfolding at(2) by auto
      have over: "\<not> TCP_SEQ_GT (ucast (tcplen i) + i_seqno i) (rcv_nxt pcb + ucast (rcv_wnd pcb))"
        unfolding add.commute [of "ucast (tcplen i)"] at(4) assms(3)
        by (subst sq_compare(3)) (use assms(2) edge in linarith)+
      have "oos_ok S edge p [oos_trim_prev (i_seqno i) n, inseg i]" if "\<not> has_hdr TCP_FIN n"
        by (rule oos_okI [of _ p], simp, rule tr(1) [OF that], use tr(3) [OF that] p(3) in simp,
            rule oos_okI [of _ q]) (use tr(2) [OF that] at(1) assms(2) in simp_all)
      then have "\<exists>q' e'. oos_append pcb n i e = Some (q', i, e') \<and> oos_ok S edge p q'" if "\<not> has_hdr TCP_FIN n"
        using that over p Nil by (auto simp: oos_append_def tcp_seg_copy_def)
      moreover have walk: "oos_walk pcb i prev (n # ns) e =
          (if has_hdr TCP_FIN n then Some (?before @ n # ns, i, e)
           else do { (q, i, e) \<leftarrow> oos_append pcb n i e; Some (?before @ q, i, e) })"
        using eq cond gt 3 Nil by (simp add: Let_def)
      ultimately show ?thesis unfolding walk using keep before by (cases "has_hdr TCP_FIN n") auto
    next
      case (Cons n' ns')
      have "before_ok S edge p q (Some n) ns" using p 3 by (auto simp: before_ok_def)
      moreover have "p \<le> q" "edge < p + 65536" "0 < p" using 3 p(1) Cons.prems(3,4) by simp_all
      ultimately obtain q' e' where "oos_walk pcb i (Some n) ns e = Some (q', i, e')" "oos_ok S edge p q'"
        using Cons.IH by blast
      moreover have walk: "oos_walk pcb i prev (n # ns) e =
          do { (q, i, e) \<leftarrow> oos_walk pcb i (Some n) ns e; Some (?before @ q, i, e) }"
        using eq cond 3 Cons by (simp add: Let_def)
      ultimately show ?thesis unfolding walk using before by auto
    qed
  qed
qed


lemma tcp_send_empty_ack_pcb:
  assumes "tcp_send_empty_ack pcb e = (err, pcb', e')"
  shows "\<exists>fl. pcb' = pcb\<lparr>flags := fl\<rparr> \<or> pcb' = announced pcb\<lparr>flags := fl\<rparr>"
proof (cases "tcp_output_control_segment (tcp_output_alloc_header [] (snd_nxt pcb) pcb) e")
  case None
  then have "pcb' = tcp_set_flags (TF_ACK_DELAY OR TF_ACK_NOW) pcb" using assms by (simp add: tcp_send_empty_ack_def)
  then show ?thesis by (metis tcp_set_flags_def)
next
  case (Some x)
  then have "pcb' = tcp_set_flags (TF_ACK_DELAY OR TF_ACK_NOW) (announced pcb) \<or>
      pcb' = tcp_clear_flags (TF_ACK_DELAY OR TF_ACK_NOW) (announced pcb)"
    using assms by (cases x) (auto simp: tcp_send_empty_ack_def split: if_splits)
  then show ?thesis by (metis tcp_set_flags_def tcp_clear_flags_def)
qed

lemma rcv_at_announced:
  assumes "rcv_at r edge pcb"
  shows "rcv_at r edge (announced pcb)"
proof -
  have "rcv_ann_right_edge (announced pcb) = sq (r + unat (rcv_ann_wnd pcb))"
    using rcv_atD(1) [OF assms] by (simp only: announced_def sq_ucast) simp
  then show ?thesis
    using assms rcv_atD(4) [OF assms] unfolding rcv_at_def edge_at_def
    by (intro conjI exI [of _ "r + unat (rcv_ann_wnd pcb)"]) (simp_all add: announced_def del: of_nat_add)
qed

lemma tcp_send_empty_ack_ok:
  assumes "rcv_at r edge pcb" "tcp_send_empty_ack pcb e = (err, pcb', e')"
  shows "rcv_at r edge pcb'" "ooseq pcb' = ooseq pcb" "state pcb' = state pcb"
proof -
  obtain fl where pcb': "pcb' = pcb\<lparr>flags := fl\<rparr> \<or> pcb' = announced pcb\<lparr>flags := fl\<rparr>"
    using tcp_send_empty_ack_pcb [OF assms(2)] by blast
  then show "rcv_at r edge pcb'" using assms(1) rcv_at_announced [OF assms(1)] by auto
  show "ooseq pcb' = ooseq pcb" "state pcb' = state pcb" using pcb' by (auto simp: announced_def)
qed


lemma rcv_out_of_sequence_ok:
  assumes "rcv_at r edge pcb" "oos_ok S edge (r + 1) (ooseq pcb)" "in_at S q i" "r < q" "q + tlen (inseg i) \<le> edge"
  shows "\<exists>pcb' e'. rcv_out_of_sequence pcb i e = Some (pcb', i, e') \<and> rcv_at r edge pcb' \<and>
    oos_ok S edge (r + 1) (ooseq pcb')"
proof -
  note at = rcv_atD [OF assms(1)]
  have "before_ok S edge (r + 1) q None (ooseq pcb)" using assms(2) by (simp add: before_ok_def)
  from oos_walk_ok [OF assms(3,5) at(2) this] have walk:
    "\<exists>q' e'. oos_walk pcb i None (ooseq pcb) e = Some (q', i, e') \<and> oos_ok S edge (r + 1) q'"
    using assms(4) at(4) by simp
  have "oos_ok S edge (r + 1) [inseg i]"
    using in_atD(1) [OF assms(3)] assms(4,5) by (auto intro!: exI [of _ q])
  then obtain q' e' where q':
    "(if ooseq pcb = []
      then (case tcp_seg_copy (inseg i) e of None \<Rightarrow> Some ([], i, e) | Some (cseg, e) \<Rightarrow> Some ([cseg], i, e))
      else oos_walk pcb i None (ooseq pcb) e) = Some (q', i, e')" "oos_ok S edge (r + 1) q'"
    using walk by (cases "ooseq pcb = []"; cases "tcp_seg_pool e = 0")
      (auto simp: tcp_seg_copy_def simp del: oos_ok.simps(2))
  obtain err pcb' e2 where ack: "tcp_send_empty_ack (pcb\<lparr>ooseq := q'\<rparr>) e' = (err, pcb', e2)"
    by (cases "tcp_send_empty_ack (pcb\<lparr>ooseq := q'\<rparr>) e'")
  have "rcv_at r edge (pcb\<lparr>ooseq := q'\<rparr>)" using assms(1) by simp
  note ok = tcp_send_empty_ack_ok [OF this ack]
  have "rcv_out_of_sequence pcb i e = Some (pcb', i, e2)"
    unfolding rcv_out_of_sequence_def q'(1) by (simp add: ack)
  then show ?thesis using ok(1,2) q'(2) by simp
qed

section \<open>The contract\<close>

lemma rcv_trim_front_overlap:
  assumes "rcv_at r edge pcb" "in_at S q i" "q < r" "r < q + tlen (inseg i)"
  shows "\<exists>i'. rcv_trim_front pcb i = Some (pcb, i') \<and> seg_at S r (inseg i') \<and> i_seqno i' = sq r \<and> same_recv i' i \<and>
    r + tlen (inseg i') = q + tlen (inseg i)"
proof -
  note at = in_atD [OF assms(2)] and r = rcv_atD(1) [OF assms(1)]
  let ?s = "inseg i"
  note s = seg_atD [OF at(1)]
  have d: "r - q \<le> slen ?s" "0 < r - q" using assms(3,4) by (auto simp: tlen_def split: if_splits)
  have lt: "r - q < 65535" using assms(3,4) s(5) by linarith
  have e1: "i_seqno i + 1 = sq (q + 1)" by (simp add: at(2))
  have e2: "i_seqno i + ucast (tcplen i) - 1 = sq (q + tlen ?s - 1)"
    unfolding at(4) using s(4) by (simp add: of_nat_diff)
  have between: "TCP_SEQ_BETWEEN (rcv_nxt pcb) (i_seqno i + 1) (i_seqno i + ucast (tcplen i) - 1)"
    unfolding r e1 e2 by (subst sq_between) (use assms(3,4) s(5) in linarith)+
  have "rcv_nxt pcb - i_seqno i = sq (r - q)" using assms(3) by (simp add: r at(2) of_nat_diff)
  moreover have "unat (sq (r - q)) = r - q" using lt by (simp only: unat_of_nat) simp
  ultimately have off: "rcv_nxt pcb - i_seqno i < 0xffff" "ucast (rcv_nxt pcb - i_seqno i) = (word_of_nat (r - q) :: u16)"
    "unat (word_of_nat (r - q) :: u16) = r - q"
    using lt by (simp_all add: word_less_nat_alt ucast_sq16 unat_of_nat16 del: of_nat_diff)
  have tot: "tot_len (seg_p ?s) = slen ?s" by (simp add: tot_len_def s(2))
  moreover have "seg_p ?s \<noteq> []" using d tot by (auto simp: tot_len_def)
  ultimately obtain p' where p': "trim_payloads (r - q) (seg_p ?s) = Some p'" "concat p' = drop (r - q) (concat (seg_p ?s))"
    using trim_payloads_drop [of "r - q" "seg_p ?s"] d(1) by auto
  define s' where "s' = ?s\<lparr>len := len ?s - word_of_nat (r - q), seg_p := p', seqno := sq r\<rparr>"
  have len: "slen s' = slen ?s - (r - q)"
    using d(1) off(3) by (simp add: s'_def unat_diff_le word_le_nat_alt)
  have fin: "has_hdr f s' = has_hdr f ?s" for f by (simp add: s'_def)
  have tl: "r + tlen s' = q + tlen ?s" using d len assms(3) by (simp add: tlen_def fin)
  have eq: "r + slen s' = q + slen ?s" using d len assms(3) by simp
  have "concat (seg_p s') = map (byte_at S) [r ..< r + slen s']"
    using p'(2) assms(3) unfolding eq s(2) by (simp add: s'_def drop_map)
  moreover have "seqno s' = sq r" by (simp add: s'_def)
  ultimately have "seg_at S r s'"
    using s(3-7) assms(3,4) tl unfolding seg_at_def eq fin by simp
  then show ?thesis
    using between off d tot p'(1) tl unfolding s'_def
    by (auto simp: rcv_trim_front_def r same_recv_def Let_def)
qed

text \<open>Where a position lies relative to the window, and a segment relative to \<^verbatim>\<open>rcv_nxt\<close>.\<close>

lemma window_iff:
  assumes "rcv_at r edge pcb" "p < r + 1073741824" "r < p + 1073741824" "0 < r"
  shows "TCP_SEQ_BETWEEN (sq p) (rcv_nxt pcb) (rcv_nxt pcb + ucast (rcv_wnd pcb) - 1) \<longleftrightarrow> r \<le> p \<and> p < edge"
proof -
  note r = rcv_atD [OF assms(1)]
  have e: "rcv_nxt pcb + ucast (rcv_wnd pcb) - 1 = sq (edge - 1)"
    unfolding r(2) using assms(4) r(3) by (simp add: of_nat_diff)
  show ?thesis unfolding e unfolding r(1) by (subst sq_between) (use assms(2-4) r(3,4) in linarith)+
qed

lemma trim_iff:
  assumes "rcv_at r edge pcb" "in_at S q i" "q < r + 1073741824" "r < q + 1073741824"
  shows "TCP_SEQ_BETWEEN (rcv_nxt pcb) (i_seqno i + 1) (i_seqno i + ucast (tcplen i) - 1) \<longleftrightarrow>
      q < r \<and> r < q + tlen (inseg i)"
    "TCP_SEQ_LT (i_seqno i) (rcv_nxt pcb) \<longleftrightarrow> q < r"
proof -
  note at = in_atD [OF assms(2)] and r = rcv_atD(1) [OF assms(1)]
  note t = seg_atD(4,5) [OF at(1)]
  have "i_seqno i + 1 = sq (q + 1)" by (simp add: at(2))
  moreover have "i_seqno i + ucast (tcplen i) - 1 = sq (q + tlen (inseg i) - 1)"
    unfolding at(4) using t(1) by (simp add: of_nat_diff)
  ultimately show "TCP_SEQ_BETWEEN (rcv_nxt pcb) (i_seqno i + 1) (i_seqno i + ucast (tcplen i) - 1) \<longleftrightarrow>
      q < r \<and> r < q + tlen (inseg i)"
    unfolding r by (simp only:) (subst sq_between, (use assms(3,4) t in linarith)+)
  show "TCP_SEQ_LT (i_seqno i) (rcv_nxt pcb) \<longleftrightarrow> q < r"
    unfolding at(2) r by (rule sq_compare(1)) (use assms(3,4) in linarith)+
qed

lemma rcv_trim_front_new:
  assumes "rcv_at r edge pcb" "in_at S q i" "q < r + 1073741824" "r \<le> q"
  shows "rcv_trim_front pcb i = Some (pcb, i)"
  using trim_iff [OF assms(1-3)] assms(4) by (simp add: rcv_trim_front_def)

lemma tcp_receive_data_trim:
  assumes "in_at S q i" "state pcb < CLOSE_WAIT"
  shows "tcp_receive_data pcb i e = do { (pcb, i) \<leftarrow> rcv_trim_front pcb i; rcv_in_window pcb i e }"
  using in_atD(3) [OF assms(1)] seg_atD(4) [OF in_atD(1) [OF assms(1)]] assms(2)
  by (simp add: tcp_receive_data_def word_less_nat_alt)

lemma passed_nothing:
  assumes "\<not> fin_passed S r" "recv_data i = None" "\<not> got_fin i" "same_recv j i"
  shows "passed S r r j"
proof -
  have "data_end S r \<le> r" by (simp add: data_end_def split: option.split)
  then show ?thesis using assms unfolding passed_cong [OF assms(4)] by (simp add: passed_def delivered_def)
qed

text \<open>A segment in sequence, and one outside the window.\<close>

lemma rcv_in_window_ack:
  assumes "rcv_at r edge pcb" "oos_ok S edge (r + 1) (ooseq pcb)"
    "\<not> TCP_SEQ_BETWEEN (i_seqno i) (rcv_nxt pcb) (rcv_nxt pcb + ucast (rcv_wnd pcb) - 1)"
  shows "\<exists>pcb' e'. rcv_in_window pcb i e = Some (pcb', i, e') \<and> rcv_at r edge pcb' \<and>
    oos_ok S edge (r + 1) (ooseq pcb')"
proof -
  obtain err p' e' where "tcp_send_empty_ack pcb e = (err, p', e')" by (cases "tcp_send_empty_ack pcb e")
  with tcp_send_empty_ack_ok [OF assms(1) this] assms(2,3) show ?thesis by (simp add: rcv_in_window_def)
qed

lemma rcv_in_window_next:
  assumes "rcv_at r edge pcb" "oos_ok S edge (r + 1) (ooseq pcb)" "seg_at S r (inseg i)" "i_seqno i = sq r"
    "recv_data i = None" "\<not> got_fin i" "\<not> fin_passed S r" "0 < r"
  shows "\<exists>pcb' i' e' r2. rcv_in_window pcb i e = Some (pcb', i', e') \<and> r \<le> r2 \<and>
    min (r + tlen (inseg i)) edge \<le> r2 \<and> rcv_at r2 edge pcb' \<and> oos_ok S edge (r2 + 1) (ooseq pcb') \<and> passed S r r2 i'"
proof (cases "r < edge")
  case True
  have "rcv_in_window pcb i e = rcv_in_sequence pcb i e"
    using window_iff [OF assms(1) _ _ assms(8), of r] True assms(4) rcv_atD(1) [OF assms(1)]
    by (simp add: rcv_in_window_def)
  moreover have "r \<le> r2" if "min (r + tlen (inseg i)) edge \<le> r2" for r2 using that True by simp
  ultimately show ?thesis using rcv_in_sequence_ok [OF assms(1-6) True, of e] by metis
next
  case False
  then have e: "edge = r" using rcv_atD(3) [OF assms(1)] by simp
  have "\<not> TCP_SEQ_BETWEEN (i_seqno i) (rcv_nxt pcb) (rcv_nxt pcb + ucast (rcv_wnd pcb) - 1)"
    using window_iff [OF assms(1) _ _ assms(8), of r] False assms(4) by simp
  from rcv_in_window_ack [OF assms(1,2) this, of e] obtain pcb' e' where
    "rcv_in_window pcb i e = Some (pcb', i, e')" "rcv_at r edge pcb'" "oos_ok S edge (r + 1) (ooseq pcb')" by blast
  moreover have "passed S r r i" by (rule passed_nothing [OF assms(7,5,6)]) (simp add: same_recv_def)
  ultimately show ?thesis using e by (intro exI [of _ pcb'] exI [of _ i] exI [of _ e'] exI [of _ r]) simp
qed

lemma tcp_receive_data_ok:
  assumes "rcv_at r edge pcb" and "oos_ok S edge (r + 1) (ooseq pcb)" and "in_at S q i"
    and "q < r + 1073741824" and "r < q + 1073741824" and "r < q \<Longrightarrow> q + tlen (inseg i) \<le> edge"
    and "0 < r" and "\<not> fin_passed S r" and "state pcb < CLOSE_WAIT"
    and "recv_data i = None" and "\<not> got_fin i"
  shows "\<exists>pcb' i' e' r'. tcp_receive_data pcb i e = Some (pcb', i', e') \<and> r \<le> r' \<and>
    (q \<le> r \<longrightarrow> min (q + tlen (inseg i)) edge \<le> r') \<and>
    rcv_at r' edge pcb' \<and> oos_ok S edge (r' + 1) (ooseq pcb') \<and> passed S r r' i'"
proof -
  note at = in_atD [OF assms(3)] and r = rcv_atD [OF assms(1)]
  note t = seg_atD(4,5) [OF at(1)]
  note window = window_iff [OF assms(1,4,5,7)]
  note unfold = tcp_receive_data_trim [OF assms(3,9)]
  note between = trim_iff(1) [OF assms(1,3,4,5)] and less = trim_iff(2) [OF assms(1,3,4,5)]
  have none: "passed S r r i" by (rule passed_nothing [OF assms(8,10,11)]) (simp add: same_recv_def)
  consider (over) "q < r" "r < q + tlen (inseg i)" | (old) "q + tlen (inseg i) \<le> r" | (new) "r < q" | (same) "q = r"
    by linarith
  then show ?thesis
  proof cases
    case over
    obtain j where j: "rcv_trim_front pcb i = Some (pcb, j)" "seg_at S r (inseg j)" "i_seqno j = sq r" "same_recv j i"
        "r + tlen (inseg j) = q + tlen (inseg i)"
      using rcv_trim_front_overlap [OF assms(1,3) over] by blast
    have "recv_data j = None" "\<not> got_fin j" using j(4) assms(10,11) by (simp_all add: same_recv_def got_fin_def)
    from rcv_in_window_next [OF assms(1,2) j(2,3) this assms(8,7), of e]
    show ?thesis unfolding unfold j(1) j(5) by auto
  next
    case old
    then have tf: "rcv_trim_front pcb i = Some (tcp_ack_now pcb, i)"
      unfolding rcv_trim_front_def between less using t(1) by simp
    let ?p = "tcp_ack_now pcb"
    have same: "ooseq ?p = ooseq pcb" "rcv_nxt ?p = rcv_nxt pcb" "rcv_wnd ?p = rcv_wnd pcb"
      by (simp_all add: tcp_ack_now_def tcp_set_flags_def)
    have "\<exists>pcb' e'. rcv_in_window ?p i e = Some (pcb', i, e') \<and> rcv_at r edge pcb' \<and> oos_ok S edge (r + 1) (ooseq pcb')"
      using window old t(1) assms(1,2) by (intro rcv_in_window_ack) (simp_all only: same rcv_at_fields at(2), linarith)
    then show ?thesis unfolding unfold tf using none old by (auto intro!: exI [of _ r])
  next
    case new
    then have tf: "rcv_trim_front pcb i = Some (pcb, i)" using rcv_trim_front_new [OF assms(1,3,4)] by simp
    have "sq r \<noteq> sq q" using sq_compare(5) [of r q] new assms(4) by simp
    moreover have "q < edge" using assms(6) [OF new] t(1) by simp
    ultimately have "rcv_in_window pcb i e = rcv_out_of_sequence pcb i e"
      using window new at(2) r(1) by (simp add: rcv_in_window_def)
    then show ?thesis
      unfolding unfold tf using rcv_out_of_sequence_ok [OF assms(1,2,3) new assms(6) [OF new], of e] none new
      by (auto intro!: exI [of _ r])
  next
    case same
    then have tf: "rcv_trim_front pcb i = Some (pcb, i)" using rcv_trim_front_new [OF assms(1,3,4)] by simp
    have "seg_at S r (inseg i)" "i_seqno i = sq r" using at(1,2) same by simp_all
    from rcv_in_window_next [OF assms(1,2) this assms(10,11,8,7), of e] show ?thesis unfolding unfold tf using same by auto
  qed
qed

text \<open>CLAIM: the receive path delivers the stream. Whatever slice of the remote stream arrives, early,
  late, repeated or overlapping, as long as an early one stays inside the window, \<^verbatim>\<open>tcp_receive\<close>
  passes no assertion that fails; what it hands to the application are exactly the bytes of the
  stream between the old and the new \<^verbatim>\<open>rcv_nxt\<close>, with \<^verbatim>\<open>TF_GOT_FIN\<close> exactly when the end was
  passed; a slice that is not early is taken completely up to the edge of the window, whose
  right edge does not move; and \<^verbatim>\<open>ooseq\<close> is again a sorted list of disjoint slices of the stream
  behind a gap.\<close>

theorem tcp_receive_data_stream:
  assumes "rcv_at r edge pcb" and "oos_ok S edge (r + 1) (ooseq pcb)" and "in_at S q i"
    and "q < r + 1073741824" and "r < q + 1073741824" and "r < q \<Longrightarrow> q + tlen (inseg i) \<le> edge"
    and "0 < r" and "\<not> fin_passed S r" and "state pcb < CLOSE_WAIT"
    and "recv_data i = None" and "\<not> got_fin i"
  shows "\<exists>pcb' i' e' r'. tcp_receive_data pcb i e = Some (pcb', i', e') \<and> r \<le> r' \<and>
    (q \<le> r \<longrightarrow> min (q + tlen (inseg i)) edge \<le> r') \<and>
    rcv_at r' edge pcb' \<and> oos_ok S edge (r' + 1) (ooseq pcb') \<and> passed S r r' i'"
  using assms by (rule tcp_receive_data_ok)

text \<open>A small instance: eight bytes arrive in two overlapping slices, the second one first.\<close>

definition example_stream :: stream where
  "example_stream = \<lparr>byte_at = word_of_nat, fin_at = None\<rparr>"

definition example_seg :: "nat \<Rightarrow> nat \<Rightarrow> tcp_seg" where
  "example_seg q n =
     \<lparr>seqno = sq q, len = word_of_nat n, hdr = TCP_ACK, seg_flags = 0,
      seg_p = [map (byte_at example_stream) [q ..< q + n]], p_ref = 1, oversize_left = 0\<rparr>"

definition example_in :: "nat \<Rightarrow> nat \<Rightarrow> tcp_in" where
  "example_in q n =
     \<lparr>inseg = example_seg q n, i_seqno = sq q, i_ackno = 0, i_wnd = 0, i_flags = TCP_ACK,
      tcplen = word_of_nat n, recv_acked = 0, recv_flags = 0, recv_data = None\<rparr>"

definition example_rcv :: "nat \<Rightarrow> u16 \<Rightarrow> tcp_seg list \<Rightarrow> tcp_pcb" where
  "example_rcv r w q =
     (tcp_pcb_new 1 0 0)\<lparr>state := ESTABLISHED, rcv_nxt := sq r, rcv_wnd := w, rcv_ann_wnd := w,
       rcv_ann_right_edge := sq (r + unat w), ooseq := q\<rparr>"

definition example_env :: tcp_env where
  "example_env = \<lparr>tcp_ticks = 0, tcp_seg_pool = 4096, tx_log = [], ip_out = (\<lambda>_ _. Some ERR_OK),
      pbuf_mem_ok = (\<lambda>_. True), pbuf_mem_n = 0, netif_get_by_index = (\<lambda>_. None),
      ip_route = (\<lambda>_ _. Some \<lparr>nif_index = 1, nif_mtu = 1500, nif_local_ip = (\<lambda>_. Some (IP_ADDR4 0x7f000001))\<rparr>),
      nd6_get_destination_mtu = (\<lambda>_ _. 1500)\<rparr>"

lemma example_seg_at:
  assumes "0 < n" "n < 65536"
  shows "seg_at example_stream q (example_seg q n)" "tlen (example_seg q n) = n" "slen (example_seg q n) = n"
proof -
  have h: "\<not> has_hdr TCP_FIN (example_seg q n)" "\<not> has_hdr TCP_SYN (example_seg q n)"
    by (simp_all add: has_hdr_def example_seg_def tcp_hdr_flag_defs)
  show l: "slen (example_seg q n) = n" using assms(2) by (simp add: example_seg_def unat_of_nat16)
  show t: "tlen (example_seg q n) = n" using h l by (simp add: tlen_def)
  show "seg_at example_stream q (example_seg q n)"
    unfolding seg_at_def t l using h assms by (simp add: example_seg_def example_stream_def)
qed

lemma example_in_at: "0 < n \<Longrightarrow> n < 65536 \<Longrightarrow> in_at example_stream q (example_in q n)"
  using example_seg_at [of n q] by (simp add: in_at_def example_in_def)

lemma example_rcv_at: "rcv_at r (r + unat w) (example_rcv r w q)"
  unfolding rcv_at_def edge_at_def by (simp add: example_rcv_def) (metis le_refl less_add_same_cancel1 of_nat_add ucast16 zero_less_numeral)

theorem tcp_receive_data_stream_witness:
  defines "pcb \<equiv> example_rcv 1000 100 [example_seg 1003 5]"
  shows "\<exists>pcb' i' e' r'. tcp_receive_data pcb (example_in 998 7) example_env = Some (pcb', i', e') \<and> 1000 \<le> r' \<and>
    (998 \<le> (1000 :: nat) \<longrightarrow> min (998 + tlen (inseg (example_in 998 7))) 1100 \<le> r') \<and>
    rcv_at r' 1100 pcb' \<and> oos_ok example_stream 1100 (r' + 1) (ooseq pcb') \<and> passed example_stream 1000 r' i'"
proof (rule tcp_receive_data_stream)
  show "rcv_at 1000 1100 pcb" using example_rcv_at [of 1000 100] by (simp add: pcb_def)
  show "oos_ok example_stream 1100 (1000 + 1) (ooseq pcb)"
    using example_seg_at [of 5 1003] by (simp add: pcb_def example_rcv_def) (rule exI [of _ 1003], simp)
  show "in_at example_stream 998 (example_in 998 7)" by (rule example_in_at) simp_all
  show "\<not> fin_passed example_stream 1000" by (simp add: fin_passed_def example_stream_def)
  show "state pcb < CLOSE_WAIT" by (simp add: pcb_def example_rcv_def tcp_state_order)
  show "recv_data (example_in 998 7) = None" "\<not> got_fin (example_in 998 7)"
    by (simp_all add: example_in_def got_fin_def)
qed simp_all

section \<open>Slices beyond the window\<close>

lemma rcv_in_sequence_overrun:
  assumes "rcv_at r edge pcb" "ooseq pcb = [s]" "seg_at S (r + 1) s" "r + 1 < edge" "edge < r + 1 + tlen s"
    "in_at S r j" "tlen (inseg j) = 1" "\<not> has_hdr TCP_FIN (inseg j)"
  shows "rcv_in_sequence pcb j e = None"
proof -
  note r = rcv_atD [OF assms(1)] and j = in_atD [OF assms(6)] and s = seg_atD [OF assms(3)]
  have j': "in_at S r (set_tcplen j)" by (rule in_at_set_tcplen [OF j(1,2)])
  note at = in_atD [OF j']
  let ?j = "set_tcplen j"
  have window: "rcv_trim_window pcb j = Some ?j"
    using at(3) assms(4,7) r(5) by (simp add: rcv_trim_window_def Let_def word_less_nat_alt)
  have n: "ucast (tcplen ?j) = sq 1" using at(3) assms(7) by (simp only: ucast16 set_tcplen_same)
  have end_j: "i_seqno ?j + ucast (tcplen ?j) = sq (r + 1)" using at(4) assms(7) by (simp only: set_tcplen_same)
  have "slen s > 0" using assms(4,5) by (auto simp: tlen_def split: if_splits)
  then have "\<not> TCP_SEQ_GEQ (sq (r + 1)) (sq (r + 1 + slen s))"
    by (subst sq_compare(4)) (use u16_lt [of "len s"] in linarith)+
  moreover have "seqno s + ucast (len s) = sq (r + 1 + slen s)" by (simp only: s(1) sq_ucast)
  ultimately have "rcv_covered ?j [s] e = (?j, [s], e)" by (simp only: rcv_covered.simps end_j if_False)
  moreover have "rcv_trim_overlap ?j [s] = Some ?j"
  proof -
    have "\<not> TCP_SEQ_GT (sq (r + 1)) (sq (r + 1))" by (simp add: TCP_SEQ_GT_def)
    then show ?thesis by (simp only: rcv_trim_overlap_def list.case end_j s(1) if_False)
  qed
  ultimately have adjust: "rcv_adjust_ooseq pcb ?j e = Some (pcb\<lparr>ooseq := [s]\<rparr>, ?j, e)"
    using assms(2,8) by (simp add: rcv_adjust_ooseq_def)
  have deq: "rcv_dequeue [s] p i e = None" if "rcv_at (r + 1) edge p" for p i e
  proof -
    have "unat (sq (tlen s)) = tlen s" using s(5) by (simp only: unat_of_nat) simp
    then have "\<not> ucast (rcv_wnd p) \<ge> sq (tlen s)"
      using rcv_atD(5) [OF that] assms(4,5) by (simp add: word_le_nat_alt unat_ucast_up)
    then show ?thesis using s(1,8) rcv_atD(1) [OF that] by (simp add: rcv_advance_def Let_def)
  qed
  have "rcv_at r edge (pcb\<lparr>ooseq := [s], rcv_nxt := sq r\<rparr>)"
    using assms(1) rcv_at_cong [of "pcb\<lparr>ooseq := [s], rcv_nxt := sq r\<rparr>" pcb r edge] r(1) by simp
  then obtain w where "rcv_advance (sq 1) (pcb\<lparr>ooseq := [s], rcv_nxt := sq r\<rparr>) =
        Some (pcb\<lparr>ooseq := [s], rcv_nxt := sq (r + 1), rcv_wnd := rcv_wnd pcb - word_of_nat 1, rcv_ann_wnd := w\<rparr>)"
      "rcv_at (r + 1) edge (pcb\<lparr>ooseq := [s], rcv_nxt := sq (r + 1), rcv_wnd := rcv_wnd pcb - word_of_nat 1, rcv_ann_wnd := w\<rparr>)"
    using rcv_advance_ok [of r edge "pcb\<lparr>ooseq := [s], rcv_nxt := sq r\<rparr>" 1] assms(4) by auto
  then show ?thesis
    by (simp del: rcv_dequeue.simps tot_len_def
        add: rcv_in_sequence_def window adjust n j(2) deq rcv_got_fin_def assms(8) Let_def)
qed

text \<open>C17: the hypothesis that early slices stay inside the window is necessary. A slice that starts one
  position early and ends beyond the window is queued uncut when \<^verbatim>\<open>ooseq\<close> is empty, and the one
  missing byte then runs into the assertion \<^verbatim>\<open>ooseq tcplen > rcv_wnd\<close>, which aborts the process.\<close>

theorem tcp_receive_overrun_aborts:
  assumes "rcv_at r edge pcb" and "ooseq pcb = []" and "state pcb < CLOSE_WAIT" and "0 < r"
    and "in_at S (r + 1) i" and "r + 1 < edge" and "edge < r + 1 + tlen (inseg i)" and "tcp_seg_pool e \<noteq> 0"
    and "in_at S r j" and "tlen (inseg j) = 1" and "\<not> has_hdr TCP_FIN (inseg j)"
  shows "\<exists>pcb' e'. tcp_receive_data pcb i e = Some (pcb', i, e') \<and> tcp_receive_data pcb' j e' = None"
proof -
  note r = rcv_atD [OF assms(1)] and i = in_atD [OF assms(5)] and j = in_atD [OF assms(9)]
  have "sq r \<noteq> sq (r + 1)" using sq_compare(5) [of r "r + 1"] by simp
  then have "rcv_in_window pcb i e = rcv_out_of_sequence pcb i e"
    using window_iff [OF assms(1) _ _ assms(4), of "r + 1"] assms(6) r(1) i(2) by (simp add: rcv_in_window_def)
  moreover obtain err p e' where
    ack: "tcp_send_empty_ack (pcb\<lparr>ooseq := [inseg i]\<rparr>) (e\<lparr>tcp_seg_pool := tcp_seg_pool e - 1\<rparr>) = (err, p, e')"
    by (cases "tcp_send_empty_ack (pcb\<lparr>ooseq := [inseg i]\<rparr>) (e\<lparr>tcp_seg_pool := tcp_seg_pool e - 1\<rparr>)")
  ultimately have first: "tcp_receive_data pcb i e = Some (p, i, e')"
    using tcp_receive_data_trim [OF assms(5,3)] rcv_trim_front_new [OF assms(1,5)] assms(2,8)
    by (simp add: rcv_out_of_sequence_def tcp_seg_copy_def)
  have "rcv_at r edge (pcb\<lparr>ooseq := [inseg i]\<rparr>)" using assms(1) by simp
  note p = tcp_send_empty_ack_ok [OF this ack, simplified]
  have "rcv_in_window p j e' = rcv_in_sequence p j e'"
    using window_iff [OF p(1) _ _ assms(4), of r] assms(6) rcv_atD(1) [OF p(1)] j(2) by (simp add: rcv_in_window_def)
  then have "tcp_receive_data p j e' = None"
    using tcp_receive_data_trim [OF assms(9), of p e'] rcv_trim_front_new [OF p(1) assms(9)] p(3) assms(3)
      rcv_in_sequence_overrun [OF p(1,2) i(1) assms(6,7,9-11), of e'] by simp
  with first show ?thesis by blast
qed

theorem tcp_receive_overrun_aborts_witness:
  "\<exists>pcb' e'. tcp_receive_data (example_rcv 1000 100 []) (example_in 1001 200) example_env =
       Some (pcb', example_in 1001 200, e') \<and> tcp_receive_data pcb' (example_in 1000 1) e' = None"
proof (rule tcp_receive_overrun_aborts)
  show "rcv_at 1000 1100 (example_rcv 1000 100 [])" using example_rcv_at [of 1000 100] by simp
  show "ooseq (example_rcv 1000 100 []) = []" "state (example_rcv 1000 100 []) < CLOSE_WAIT"
    by (simp_all add: example_rcv_def tcp_state_order)
  show "in_at example_stream (1000 + 1) (example_in 1001 200)" "in_at example_stream 1000 (example_in 1000 1)"
    using example_in_at [of 200 1001] by (simp_all add: example_in_at)
  show "1100 < 1000 + 1 + tlen (inseg (example_in 1001 200))" "tlen (inseg (example_in 1000 1)) = 1"
    "\<not> has_hdr TCP_FIN (inseg (example_in 1000 1))"
    by (simp_all add: example_in_def example_seg_def tlen_def has_hdr_def tcp_hdr_flag_defs)
  show "tcp_seg_pool example_env \<noteq> 0" by (simp add: example_env_def)
qed simp_all

end
