(* ===== verification/Tcp_Opt.thy ===== *)
theory Tcp_Opt
  imports Tcp_Base
begin

text \<open>
  The options of an incoming segment, \<^verbatim>\<open>tcp_get_next_optbyte\<close> and \<^verbatim>\<open>tcp_parseopt\<close> in
  \<^verbatim>\<open>core/tcp_in.c\<close>. The options may be split over two pbufs. The reference is a parser of the list
  of the option bytes; the code agrees with it for every split, whatever bytes follow the options,
  as long as one byte follows them.
\<close>

text \<open>
  \<open>opt_hdr\<close> are the bytes behind the fixed header in the first pbuf and \<open>opt_2\<close> those at
  \<^verbatim>\<open>tcphdr_opt2\<close>, both up to the end of their buffers. Reading behind a buffer is \<open>None\<close>.
\<close>

record tcp_opts =
  opt_hdr :: "u8 list"
  tcphdr_opt2 :: "u8 list option"
  tcphdr_opt1len :: u16
  tcphdr_optlen :: u16

definition read_byte :: "u8 list \<Rightarrow> nat \<Rightarrow> u8 option" where
  "read_byte bs i = (if i < length bs then Some (bs ! i) else None)"

definition tcp_get_next_optbyte :: "tcp_opts \<Rightarrow> u16 \<Rightarrow> (u8 \<times> u16) option" where
  "tcp_get_next_optbyte opts tcp_optidx = do {
     let optidx = tcp_optidx;
     let tcp_optidx = tcp_optidx + 1;
     b \<leftarrow>
       (case tcphdr_opt2 opts of
          None \<Rightarrow> read_byte (opt_hdr opts) (unat optidx)
        | Some opt2 \<Rightarrow>
            if optidx < tcphdr_opt1len opts then read_byte (opt_hdr opts) (unat optidx)
            else read_byte opt2 (unat (ucast (optidx - tcphdr_opt1len opts) :: u8)));
     Some (b, tcp_optidx)
   }"

definition LWIP_TCP_OPT_LEN_MSS :: u8 where "LWIP_TCP_OPT_LEN_MSS = 4"

definition mss_of_option :: "u8 \<Rightarrow> u8 \<Rightarrow> u16" where
  "mss_of_option b0 b1 =
     (let m = push_bit 8 (ucast b0) OR ucast b1 in if m > TCP_MSS \<or> m = 0 then TCP_MSS else m)"

text \<open>The loop of \<^verbatim>\<open>tcp_parseopt\<close>; of the options only the MSS is compiled in.\<close>

partial_function (option) parseopt_loop :: "tcp_opts \<Rightarrow> u16 \<Rightarrow> u16 \<Rightarrow> u16 option" where
  "parseopt_loop opts tcp_optidx m =
     (if \<not> tcp_optidx < tcphdr_optlen opts then Some m
      else tcp_get_next_optbyte opts tcp_optidx \<bind> (\<lambda>(opt, tcp_optidx).
        if opt = 0 then Some m
        else if opt = 1 then parseopt_loop opts tcp_optidx m
        else if opt = 2 then
          tcp_get_next_optbyte opts tcp_optidx \<bind> (\<lambda>(l, tcp_optidx).
            if l \<noteq> LWIP_TCP_OPT_LEN_MSS \<or>
               int (unat tcp_optidx) - 2 + int (unat LWIP_TCP_OPT_LEN_MSS) > int (unat (tcphdr_optlen opts))
            then Some m
            else tcp_get_next_optbyte opts tcp_optidx \<bind> (\<lambda>(b0, tcp_optidx).
              tcp_get_next_optbyte opts tcp_optidx \<bind> (\<lambda>(b1, tcp_optidx).
                parseopt_loop opts tcp_optidx (mss_of_option b0 b1))))
        else
          tcp_get_next_optbyte opts tcp_optidx \<bind> (\<lambda>(data, tcp_optidx).
            if data < 2 then Some m
            else parseopt_loop opts (tcp_optidx + (ucast data - 2)) m)))"

definition tcp_parseopt :: "tcp_opts \<Rightarrow> tcp_pcb \<Rightarrow> tcp_pcb option" where
  "tcp_parseopt opts pcb =
     (if tcphdr_optlen opts \<noteq> 0 then parseopt_loop opts 0 (mss pcb) \<bind> (\<lambda>m. Some (pcb\<lparr>mss := m\<rparr>))
      else Some pcb)"

section \<open>The reference\<close>

text \<open>The MSS after the options \<open>bs\<close>, of RFC 793: kind, length and value, or a single byte.\<close>

function mss_option :: "u8 list \<Rightarrow> u16 \<Rightarrow> u16" where
  "mss_option [] m = m"
| "mss_option (opt # bs) m =
     (if opt = 0 then m
      else if opt = 1 then mss_option bs m
      else case bs of
        [] \<Rightarrow> m
      | l # vs \<Rightarrow>
          if opt = 2 then
            (if l = 4 \<and> length vs \<ge> 2 then mss_option (drop 2 vs) (mss_of_option (vs ! 0) (vs ! 1)) else m)
          else if l < 2 then m
          else mss_option (drop (unat l - 2) vs) m)"
  by pat_completeness auto
termination by (relation "measure (\<lambda>(bs, m). length bs)") auto

definition opt_bytes :: "tcp_opts \<Rightarrow> u8 list" where
  "opt_bytes opts =
     (case tcphdr_opt2 opts of
        None \<Rightarrow> opt_hdr opts
      | Some opt2 \<Rightarrow> take (unat (tcphdr_opt1len opts)) (opt_hdr opts) @ opt2)"

text \<open>
  What \<^verbatim>\<open>tcp_input\<close> guarantees of the parts: the options are at most 40 bytes, their first part is
  in the first pbuf, and their second part in the second one. One more byte can be read.
\<close>

definition opts_ok :: "tcp_opts \<Rightarrow> bool" where
  "opts_ok opts \<longleftrightarrow>
     tcphdr_optlen opts \<le> 40 \<and> tcphdr_opt1len opts \<le> tcphdr_optlen opts \<and>
     unat (tcphdr_optlen opts) < length (opt_bytes opts) \<and>
     (tcphdr_opt2 opts \<noteq> None \<longrightarrow> unat (tcphdr_opt1len opts) \<le> length (opt_hdr opts))"

lemma tcp_get_next_optbyte_nth:
  assumes "opts_ok opts" "k \<le> unat (tcphdr_optlen opts)"
  shows "tcp_get_next_optbyte opts (word_of_nat k) = Some (opt_bytes opts ! k, word_of_nat (Suc k))"
proof -
  note ok = assms(1) [unfolded opts_ok_def word_le_nat_alt]
  have k: "k \<le> 40" using ok assms(2) by simp
  then have u: "unat (word_of_nat k :: u16) = k" by (simp add: unat_of_nat)
  have len: "k < length (opt_bytes opts)" using ok assms(2) by simp
  show ?thesis
  proof (cases "tcphdr_opt2 opts")
    case None
    then show ?thesis using len u by (simp add: tcp_get_next_optbyte_def read_byte_def opt_bytes_def)
  next
    case (Some opt2)
    let ?n = "unat (tcphdr_opt1len opts)"
    have n: "?n \<le> length (opt_hdr opts)" using ok Some by simp
    have lt: "word_of_nat k < tcphdr_opt1len opts \<longleftrightarrow> k < ?n" using u by (simp add: word_less_nat_alt)
    show ?thesis
    proof (cases "k < ?n")
      case True
      then show ?thesis
        using Some u lt n by (simp add: tcp_get_next_optbyte_def read_byte_def opt_bytes_def nth_append)
    next
      case False
      then have "tcphdr_opt1len opts \<le> word_of_nat k" using lt by (simp add: not_less)
      then have "unat (word_of_nat k - tcphdr_opt1len opts) = k - ?n" using u by (simp add: unat_sub)
      then have "unat (ucast (word_of_nat k - tcphdr_opt1len opts) :: u8) = k - ?n"
        using k by (simp add: unsigned_ucast_eq take_bit_nat_eq_self)
      then show ?thesis
        using Some lt n len False by (simp add: tcp_get_next_optbyte_def read_byte_def opt_bytes_def nth_append)
    qed
  qed
qed

lemma parseopt_loop_mss_option:
  assumes "opts_ok opts" and "k < 1000"
  shows "parseopt_loop opts (word_of_nat k) m =
    Some (mss_option (drop k (take (unat (tcphdr_optlen opts)) (opt_bytes opts))) m)"
  using assms(2)
proof (induction "unat (tcphdr_optlen opts) - k" arbitrary: k m rule: less_induct)
  case less
  let ?n = "unat (tcphdr_optlen opts)" and ?bs = "opt_bytes opts"
  note ok = assms(1) [unfolded opts_ok_def word_le_nat_alt]
  have len: "length (take ?n ?bs) = ?n" using ok by simp
  have lt: "word_of_nat k < tcphdr_optlen opts \<longleftrightarrow> k < ?n"
    using less.prems by (simp add: word_less_nat_alt unat_of_nat)
  show ?case
  proof (cases "k < ?n")
    case False
    then show ?thesis using lt by (simp add: parseopt_loop.simps)
  next
    case True
    have n: "?n \<le> 40" using ok by simp
    note next_byte = tcp_get_next_optbyte_nth [OF assms(1)]
    have drop_k: "drop k (take ?n ?bs) = ?bs ! k # drop (Suc k) (take ?n ?bs)"
      using True len by (subst Cons_nth_drop_Suc [symmetric]) simp_all
    have loop: "parseopt_loop opts (word_of_nat j) m' = Some (mss_option (drop j (take ?n ?bs)) m')"
      if "k < j" "j < 1000" for j m' using less.hyps [of j m'] that True by simp
    note unfold = parseopt_loop.simps [of opts "word_of_nat k"] next_byte [OF less_imp_le [OF True]]
    have k1: "Suc k \<le> ?n" using True by simp
    show ?thesis
    proof (cases "?bs ! k = 0 \<or> ?bs ! k = 1")
      case True
      then show ?thesis using lt \<open>k < ?n\<close> n loop [of "Suc k"] by (auto simp: unfold drop_k)
    next
      case single: False
      let ?l = "?bs ! Suc k"
      note len_byte = next_byte [OF k1]
      show ?thesis
      proof (cases "?bs ! k = 2")
        case mss: True
        have "unat (word_of_nat (Suc (Suc k)) :: u16) = k + 2" using less.prems by (simp only: unat_of_nat) simp
        moreover have "unat LWIP_TCP_OPT_LEN_MSS = 4" by (simp add: LWIP_TCP_OPT_LEN_MSS_def)
        ultimately have cond: "int (unat (word_of_nat (Suc (Suc k)) :: u16)) - 2 + int (unat LWIP_TCP_OPT_LEN_MSS) > int ?n
            \<longleftrightarrow> \<not> k + 4 \<le> ?n"
          by (simp only:) linarith
        show ?thesis
        proof (cases "?l = 4 \<and> k + 4 \<le> ?n")
          case True
          then have "Suc (Suc k) \<le> ?n" "Suc (Suc (Suc k)) \<le> ?n" by simp_all
          note value_bytes = next_byte [OF this(1)] next_byte [OF this(2)]
          have "drop (Suc k) (take ?n ?bs) =
              ?l # ?bs ! Suc (Suc k) # ?bs ! Suc (Suc (Suc k)) # drop (Suc (Suc (Suc (Suc k)))) (take ?n ?bs)"
            using True len by (simp add: Cons_nth_drop_Suc [symmetric])
          moreover have "parseopt_loop opts (word_of_nat (Suc (Suc (Suc (Suc k))))) m' =
              Some (mss_option (drop (Suc (Suc (Suc (Suc k)))) (take ?n ?bs)) m')" for m'
            using True n by (intro loop) simp_all
          ultimately show ?thesis
            using lt \<open>k < ?n\<close> single mss True cond
            by (simp del: of_nat_Suc add: unfold len_byte value_bytes drop_k) (simp add: LWIP_TCP_OPT_LEN_MSS_def)
        next
          case False
          have "mss_option (drop k (take ?n ?bs)) m = m"
          proof (cases "drop (Suc k) (take ?n ?bs)")
            case (Cons l vs)
            then have "l = ?l" "length vs = ?n - (k + 2)" using len
              by (metis hd_drop_conv_nth length_drop length_greater_0_conv list.distinct(1) list.sel(1) nth_take zero_less_diff,
                  metis len Suc_eq_plus1 add_2_eq_Suc' diff_Suc_1 diff_Suc_eq_diff_pred diff_diff_left length_Cons length_drop)
            then show ?thesis using False single mss Cons by (auto simp: drop_k)
          qed (simp add: drop_k mss)
          then show ?thesis
            using lt \<open>k < ?n\<close> single mss False cond by (simp del: of_nat_Suc add: unfold len_byte) (auto simp: LWIP_TCP_OPT_LEN_MSS_def)
        qed
      next
        case other: False
        show ?thesis
        proof (cases "?l < 2")
          case True
          have "mss_option (drop k (take ?n ?bs)) m = m"
          proof (cases "drop (Suc k) (take ?n ?bs)")
            case (Cons l vs)
            then have "l = ?l" using len
              by (metis hd_drop_conv_nth length_drop length_greater_0_conv list.distinct(1) list.sel(1) nth_take zero_less_diff)
            then show ?thesis using single other True Cons by (simp add: drop_k)
          qed (simp add: drop_k single other)
          then show ?thesis
            using lt \<open>k < ?n\<close> single other True by (simp del: of_nat_Suc add: unfold len_byte)
        next
          case False
          then have l: "2 \<le> unat ?l" by (simp add: word_less_nat_alt)
          have "word_of_nat (Suc (Suc k)) + (ucast ?l - 2) = (word_of_nat (k + unat ?l) :: u16)"
            by (simp add: of_nat_unat)
          moreover have "parseopt_loop opts (word_of_nat (k + unat ?l)) m = Some (mss_option (drop (k + unat ?l) (take ?n ?bs)) m)"
            using l n \<open>k < ?n\<close> u8_lt [of ?l] by (intro loop) simp_all
          moreover have "mss_option (drop k (take ?n ?bs)) m = mss_option (drop (k + unat ?l) (take ?n ?bs)) m"
          proof (cases "Suc k < ?n")
            case True
            then have "drop (Suc k) (take ?n ?bs) = ?l # drop (Suc (Suc k)) (take ?n ?bs)"
              using len by (subst Cons_nth_drop_Suc [symmetric]) simp_all
            moreover have "Suc (Suc k) + (unat ?l - 2) = k + unat ?l" "unat ?l - 2 + Suc (Suc k) = k + unat ?l"
              using l by linarith+
            ultimately show ?thesis using single other False by (simp only: drop_k mss_option.simps list.case drop_drop) simp
          qed (use l single other len in \<open>simp add: drop_k\<close>)
          ultimately show ?thesis
            using lt \<open>k < ?n\<close> single other False by (simp del: of_nat_Suc of_nat_add add: unfold len_byte)
        qed
      qed
    qed
  qed
qed

lemma mss_of_option_bounds: "0 < mss_of_option b0 b1" "mss_of_option b0 b1 \<le> TCP_MSS"
  by (auto simp: mss_of_option_def Let_def TCP_MSS_def word_neq_0_conv)

lemma mss_option_bounds: "0 < m \<Longrightarrow> m \<le> TCP_MSS \<Longrightarrow> 0 < mss_option bs m \<and> mss_option bs m \<le> TCP_MSS"
  by (induction bs m rule: mss_option.induct) (auto simp: mss_of_option_bounds split: list.splits)

text \<open>C23: options are parsed as RFC 793 asks. However the options are split over the first two pbufs
  and whatever bytes follow them, \<^verbatim>\<open>tcp_parseopt\<close> ends and leaves the MSS that the reference parser
  finds in the option bytes, which lies between 1 and \<^verbatim>\<open>TCP_MSS\<close> when the old one did; the
  other fields stay. One byte behind the options has to be readable.\<close>

theorem tcp_parseopt_reference:
  assumes "opts_ok opts" and "0 < mss pcb" and "mss pcb \<le> TCP_MSS"
  shows "\<exists>m. tcp_parseopt opts pcb = Some (pcb\<lparr>mss := m\<rparr>) \<and>
    m = mss_option (take (unat (tcphdr_optlen opts)) (opt_bytes opts)) (mss pcb) \<and> 0 < m \<and> m \<le> TCP_MSS"
  using parseopt_loop_mss_option [OF assms(1), of 0 "mss pcb"] mss_option_bounds [OF assms(2,3)]
  by (simp add: tcp_parseopt_def)

theorem tcp_parseopt_reference_witness:
  defines "opts \<equiv> \<lparr>opt_hdr = [1, 2, 4], tcphdr_opt2 = Some [2, 24, 0, 7], tcphdr_opt1len = 3, tcphdr_optlen = 6\<rparr>"
  shows "\<exists>m. tcp_parseopt opts (tcp_pcb_new 1 0 0) = Some ((tcp_pcb_new 1 0 0)\<lparr>mss := m\<rparr>) \<and>
    m = mss_option (take (unat (tcphdr_optlen opts)) (opt_bytes opts)) (mss (tcp_pcb_new 1 0 0)) \<and>
    0 < m \<and> m \<le> TCP_MSS"
proof (rule tcp_parseopt_reference)
  show "opts_ok opts" by (simp add: opts_def opts_ok_def opt_bytes_def)
  show "0 < mss (tcp_pcb_new 1 0 0)" "mss (tcp_pcb_new 1 0 0) \<le> TCP_MSS"
    by (simp_all add: tcp_pcb_new_def INITIAL_MSS_def TCP_MSS_def)
qed

text \<open>
  Without the byte behind them, options that end with the kind of an option with a length make
  \<^verbatim>\<open>tcp_parseopt\<close> read outside the packet.
\<close>

lemma tcp_parseopt_reads_behind:
  assumes "tcphdr_opt2 opts = None" "tcphdr_optlen opts = 4" "opt_hdr opts = [1, 1, 1, opt]" "2 \<le> opt"
  shows "tcp_parseopt opts pcb = None"
proof -
  have "opt \<noteq> 0 \<and> opt \<noteq> 1" using assms(4) by (auto simp: word_le_nat_alt)
  then show ?thesis
    using assms by (simp add: tcp_parseopt_def parseopt_loop.simps tcp_get_next_optbyte_def read_byte_def)
qed

end
