(* ===== verification/Tcp_Send.thy ===== *)
theory Tcp_Send
  imports Tcp_Base Mem_Heap
begin

text \<open>
  The sending side of a connection, \<^verbatim>\<open>core/tcp_out.c\<close>: the queue of unsent segments that
  \<^verbatim>\<open>tcp_write\<close> and \<^verbatim>\<open>tcp_enqueue_flags\<close> extend, \<^verbatim>\<open>tcp_output\<close>, which sends what the windows
  allow and moves it to the unacknowledged queue, and the functions that move segments back.

  \<^verbatim>\<open>tcp_write\<close> is modelled for calls with \<^verbatim>\<open>TCP_WRITE_FLAG_COPY\<close>, the only ones in
  \<^verbatim>\<open>tcp_stream.rs\<close>. Local variables that are positions in the argument are natural numbers; they
  do not exceed its length, which is a \<^verbatim>\<open>u16_t\<close>. The checksum of a segment is recomputed from its
  bytes at every use, so its running value is not part of the segment. A pbuf with the layer
  \<^verbatim>\<open>PBUF_TRANSPORT\<close> has room for the TCP header. \<open>None\<close> is a failed assertion.
\<close>

section \<open>Creating segments\<close>

definition TCP_WRITE_FLAG_MORE :: u8 where "TCP_WRITE_FLAG_MORE = 0x02"
definition TCP_OVERSIZE :: nat where "TCP_OVERSIZE = unat TCP_MSS"

definition LWIP_TCP_OPT_LENGTH :: "u8 \<Rightarrow> nat" where
  "LWIP_TCP_OPT_LENGTH fl = (if fl AND TF_SEG_OPTS_MSS \<noteq> 0 then 4 else 0)"

definition tcp_create_segment ::
  "payloads \<Rightarrow> u8 \<Rightarrow> u32 \<Rightarrow> u8 \<Rightarrow> tcp_env \<Rightarrow> tcp_seg option \<times> tcp_env" where
  "tcp_create_segment p hdrflags sno optflags e =
     (if tcp_seg_pool e = 0 then (None, e)
      else (Some \<lparr>seqno = sno, len = word_of_nat (tot_len p), hdr = hdrflags, seg_flags = optflags, seg_p = p,
              p_ref = 1, oversize_left = 0\<rparr>, e\<lparr>tcp_seg_pool := tcp_seg_pool e - 1\<rparr>))"

text \<open>The number of usable bytes at the end of the new pbuf, when there is memory for it.\<close>

definition tcp_pbuf_prealloc ::
  "nat \<Rightarrow> nat \<Rightarrow> tcp_pcb \<Rightarrow> u8 \<Rightarrow> bool \<Rightarrow> tcp_env \<Rightarrow> nat option \<times> tcp_env" where
  "tcp_pbuf_prealloc n max_length pcb apiflags first_seg e =
     (let alloc =
            (if n < max_length \<and>
                (apiflags AND TCP_WRITE_FLAG_MORE \<noteq> 0 \<or>
                 \<not> tcp_is_flag_set TF_NODELAY pcb \<and> (\<not> first_seg \<or> unsent pcb \<noteq> [] \<or> unacked pcb \<noteq> []))
             then min max_length (LWIP_MEM_ALIGN_SIZE (n + TCP_OVERSIZE)) else n);
          (ok, e) = pbuf_alloc_data e
      in (if ok then Some (alloc - n) else None, e))"

section \<open>Writing\<close>

definition tcp_write_checks :: "tcp_pcb \<Rightarrow> u16 \<Rightarrow> (err_t \<times> tcp_pcb) option" where
  "tcp_write_checks pcb n =
     (if state pcb \<notin> {ESTABLISHED, CLOSE_WAIT, SYN_SENT, SYN_RCVD} then Some (ERR_CONN, pcb)
      else if n = 0 then Some (ERR_OK, pcb)
      else if n > snd_buf pcb then Some (ERR_MEM, tcp_set_flags TF_NAGLEMEMERR pcb)
      else if snd_queuelen pcb \<ge> TCP_SND_QUEUELEN then Some (ERR_MEM, tcp_set_flags TF_NAGLEMEMERR pcb)
      else do {
        lwip_assert (if snd_queuelen pcb \<noteq> 0 then unacked pcb \<noteq> [] \<or> unsent pcb \<noteq> []
                     else unacked pcb = [] \<and> unsent pcb = []);
        Some (ERR_OK, pcb)
      })"

definition tcp_mss_local :: "tcp_pcb \<Rightarrow> nat" where
  "tcp_mss_local pcb =
     (let m = min (mss pcb) (snd_wnd_max pcb div 2) in unat (if m \<noteq> 0 then m else mss pcb))"

text \<open>
  The first two phases, on the last unsent segment: what fits behind its last pbuf, and a new pbuf
  for what else fits into the segment. The result is the number of bytes of the first kind, the
  new payload, the queue length, the oversize, and what is added to \<^verbatim>\<open>oversize_left\<close>; \<open>None\<close> inside
  is \<^verbatim>\<open>goto memerr\<close>.
\<close>

definition tcp_write_tail ::
  "tcp_pcb \<Rightarrow> tcp_seg \<Rightarrow> nat \<Rightarrow> u8 list \<Rightarrow> u8 \<Rightarrow> tcp_env \<Rightarrow>
     ((nat \<times> u8 list \<times> u16 \<times> nat \<times> nat) option \<times> tcp_env) option" where
  "tcp_write_tail pcb last_unsent mss_local buf apiflags e = do {
     let used_space = unat (len last_unsent) + LWIP_TCP_OPT_LENGTH (seg_flags last_unsent);
     lwip_assert (mss_local \<ge> used_space);
     let space = mss_local - used_space;
     lwip_assert (unsent_oversize pcb = oversize_left last_unsent);
     let oversize = unat (unsent_oversize pcb);
     lwip_assert (oversize \<le> space);
     let oversize_used = min space (min oversize (length buf));
     let oversize = oversize - oversize_used;
     let space = space - oversize_used;
     lwip_assert (oversize = 0 \<or> oversize_used = length buf);
     if oversize_used < length buf \<and> space > 0 \<and> len last_unsent > 0 then
       (let seglen = min space (length buf - oversize_used)
        in case tcp_pbuf_prealloc seglen space pcb apiflags True e of
             (None, e) \<Rightarrow> Some (None, e)
           | (Some oversize, e) \<Rightarrow>
               Some (Some (oversize_used, take seglen (drop oversize_used buf), snd_queuelen pcb + 1, oversize,
                 oversize), e))
     else Some (Some (oversize_used, [], snd_queuelen pcb, oversize, 0), e)
   }"

text \<open>The third phase: new segments. The first component is \<open>False\<close> for \<^verbatim>\<open>goto memerr\<close>.\<close>

partial_function (option) tcp_write_segments ::
  "tcp_pcb \<Rightarrow> nat \<Rightarrow> u8 \<Rightarrow> nat \<Rightarrow> u8 list \<Rightarrow> tcp_seg list \<Rightarrow> u16 \<Rightarrow> nat \<Rightarrow> tcp_env \<Rightarrow>
     (bool \<times> tcp_seg list \<times> u16 \<times> nat \<times> tcp_env) option" where
  "tcp_write_segments pcb mss_local apiflags pos rest queue queuelen oversize e =
     (if rest = [] then Some (True, queue, queuelen, oversize, e)
      else
        let seglen = min (length rest) mss_local
        in case tcp_pbuf_prealloc seglen mss_local pcb apiflags (queue = []) e of
             (None, e) \<Rightarrow> Some (False, queue, queuelen, oversize, e)
           | (Some oversize, e) \<Rightarrow>
               (let queuelen = queuelen + 1
                in if queuelen > TCP_SND_QUEUELEN then Some (False, queue, queuelen, oversize, e)
                   else case tcp_create_segment [take seglen rest] 0 (snd_lbb pcb + word_of_nat pos) 0 e of
                          (None, e) \<Rightarrow> Some (False, queue, queuelen, oversize, e)
                        | (Some seg, e) \<Rightarrow>
                            tcp_write_segments pcb mss_local apiflags (pos + seglen) (drop seglen rest)
                              (queue @ [seg\<lparr>oversize_left := word_of_nat oversize,
                                 seg_flags := seg_flags seg OR TF_SEG_DATA_CHECKSUMMED\<rparr>])
                              queuelen oversize e))"

text \<open>The commit on the last unsent segment.\<close>

definition seg_fill_tail :: "u8 list \<Rightarrow> tcp_seg \<Rightarrow> tcp_seg" where
  "seg_fill_tail d s =
     s\<lparr>seg_p := butlast (seg_p s) @ [last (seg_p s) @ d], len := len s + word_of_nat (length d),
       seg_flags := seg_flags s OR TF_SEG_DATA_CHECKSUMMED, oversize_left := oversize_left s - word_of_nat (length d)\<rparr>"

definition seg_add_pbuf :: "u8 list \<Rightarrow> tcp_seg \<Rightarrow> tcp_seg" where
  "seg_add_pbuf d s =
     s\<lparr>seg_p := seg_p s @ [d], len := len s + word_of_nat (length d),
       seg_flags := seg_flags s OR TF_SEG_DATA_CHECKSUMMED\<rparr>"

definition tcp_write_commit_tail :: "u8 list \<Rightarrow> u8 list \<Rightarrow> nat \<Rightarrow> tcp_seg \<Rightarrow> tcp_seg option" where
  "tcp_write_commit_tail filled added oversize_add s = do {
     let s = s\<lparr>oversize_left := oversize_left s + word_of_nat oversize_add\<rparr>;
     lwip_assert (filled = [] \<or> unat (oversize_left s) \<ge> length filled);
     let s = (if filled \<noteq> [] then seg_fill_tail filled s else s);
     Some (if added \<noteq> [] then seg_add_pbuf added s else s)
   }"

definition set_psh :: "tcp_seg \<Rightarrow> tcp_seg" where
  "set_psh s = s\<lparr>hdr := hdr s OR TCP_PSH\<rparr>"

definition on_last :: "('a \<Rightarrow> 'a) \<Rightarrow> 'a list \<Rightarrow> 'a list" where
  "on_last f xs = (if xs = [] then [] else butlast xs @ [f (last xs)])"

definition tcp_write_memerr :: "tcp_seg list \<Rightarrow> tcp_pcb \<Rightarrow> tcp_env \<Rightarrow> (err_t \<times> tcp_pcb \<times> tcp_env) option" where
  "tcp_write_memerr queue pcb e = do {
     lwip_assert (snd_queuelen pcb = 0 \<or> unacked pcb \<noteq> [] \<or> unsent pcb \<noteq> []);
     Some (ERR_MEM, tcp_set_flags TF_NAGLEMEMERR pcb, tcp_segs_free queue e)
   }"

definition tcp_write :: "tcp_pcb \<Rightarrow> u8 list \<Rightarrow> u8 \<Rightarrow> tcp_env \<Rightarrow> (err_t \<times> tcp_pcb \<times> tcp_env) option" where
  "tcp_write pcb buf apiflags e = do {
     let mss_local = tcp_mss_local pcb;
     (err, pcb) \<leftarrow> tcp_write_checks pcb (word_of_nat (length buf));
     if err \<noteq> ERR_OK then Some (err, pcb, e)
     else do {
       (tail, e) \<leftarrow>
         (if unsent pcb = []
          then do { lwip_assert (unsent_oversize pcb = 0); Some (Some (0, [], snd_queuelen pcb, 0, 0), e) }
          else tcp_write_tail pcb (last (unsent pcb)) mss_local buf apiflags e);
       case tail of
         None \<Rightarrow> tcp_write_memerr [] pcb e
       | Some (oversize_used, added, queuelen, oversize, oversize_add) \<Rightarrow> do {
           let pos = oversize_used + length added;
           (ok, queue, queuelen, oversize, e) \<leftarrow>
             tcp_write_segments pcb mss_local apiflags pos (drop pos buf) [] queuelen oversize e;
           if \<not> ok then tcp_write_memerr queue pcb e
           else do {
             old \<leftarrow>
               (if unsent pcb = [] then Some []
                else do {
                  s \<leftarrow> tcp_write_commit_tail (take oversize_used buf) added oversize_add (last (unsent pcb));
                  Some (butlast (unsent pcb) @ [s])
                });
             let touched = (queue \<noteq> [] \<or> added \<noteq> [] \<or> unsent pcb \<noteq> [] \<and> unsent_oversize pcb > 0);
             let segs = old @ queue;
             let segs = (if touched \<and> apiflags AND TCP_WRITE_FLAG_MORE = 0 then on_last set_psh segs else segs);
             lwip_assert (queuelen = 0 \<or> unacked pcb \<noteq> [] \<or> segs \<noteq> []);
             Some (ERR_OK, pcb\<lparr>unsent := segs, unsent_oversize := word_of_nat oversize,
               snd_lbb := snd_lbb pcb + word_of_nat (length buf), snd_buf := snd_buf pcb - word_of_nat (length buf),
               snd_queuelen := queuelen\<rparr>, e)
           }
         }
     }
   }"

section \<open>SYN and FIN\<close>

definition tcp_enqueue_flags :: "tcp_pcb \<Rightarrow> u8 \<Rightarrow> tcp_env \<Rightarrow> (err_t \<times> tcp_pcb \<times> tcp_env) option" where
  "tcp_enqueue_flags pcb fl e = do {
     lwip_assert (fl AND (TCP_SYN OR TCP_FIN) \<noteq> 0);
     let optflags = (if fl AND TCP_SYN \<noteq> 0 then TF_SEG_OPTS_MSS else 0);
     let (ok, e) = pbuf_alloc_data e;
     if \<not> ok then Some (ERR_MEM, tcp_set_flags TF_NAGLEMEMERR pcb, e)
     else case tcp_create_segment [[]] fl (snd_lbb pcb) optflags e of
       (None, e) \<Rightarrow> Some (ERR_MEM, tcp_set_flags TF_NAGLEMEMERR pcb, e)
     | (Some seg, e) \<Rightarrow> do {
         let pcb = pcb\<lparr>unsent := unsent pcb @ [seg], unsent_oversize := 0, snd_lbb := snd_lbb pcb + 1\<rparr>;
         let pcb = (if fl AND TCP_FIN \<noteq> 0 then tcp_set_flags TF_FIN pcb else pcb);
         let pcb = pcb\<lparr>snd_queuelen := snd_queuelen pcb + word_of_nat (length (seg_p seg))\<rparr>;
         Some (ERR_OK, pcb, e)
       }
   }"

definition tcp_send_fin :: "tcp_pcb \<Rightarrow> tcp_env \<Rightarrow> (err_t \<times> tcp_pcb \<times> tcp_env) option" where
  "tcp_send_fin pcb e =
     (if unsent pcb \<noteq> [] \<and> hdr (last (unsent pcb)) AND (TCP_SYN OR TCP_FIN OR TCP_RST) = 0
      then Some (ERR_OK,
        tcp_set_flags TF_FIN (pcb\<lparr>unsent := on_last (\<lambda>s. s\<lparr>hdr := hdr s OR TCP_FIN\<rparr>) (unsent pcb)\<rparr>), e)
      else tcp_enqueue_flags pcb TCP_FIN e)"

section \<open>Splitting the first unsent segment\<close>

definition tcp_split_unsent_seg :: "tcp_pcb \<Rightarrow> u16 \<Rightarrow> tcp_env \<Rightarrow> (err_t \<times> tcp_pcb \<times> tcp_env) option" where
  "tcp_split_unsent_seg pcb split e =
     (case unsent pcb of
        [] \<Rightarrow> Some (ERR_MEM, pcb, e)
      | useg # segs \<Rightarrow>
          if split = 0 then None
          else if len useg \<le> split then Some (ERR_OK, pcb, e)
          else do {
            lwip_assert (split \<le> mss pcb);
            lwip_assert (len useg > 0);
            let optflags = seg_flags useg AND NOT TF_SEG_DATA_CHECKSUMMED;
            let remainder = len useg - split;
            let (ok, e) = pbuf_alloc_data e;
            if \<not> ok then Some (ERR_MEM, pcb, e)
            else do {
              let offset = tot_len (seg_p useg) - unat (len useg) + unat split;
              let data = take (unat remainder) (drop offset (concat (seg_p useg)));
              if length data \<noteq> unat remainder then Some (ERR_MEM, pcb, e)
              else do {
                let split_flags = hdr useg AND NOT TCP_PSH AND NOT TCP_FIN;
                let remainder_flags = hdr useg AND (TCP_PSH OR TCP_FIN);
                case tcp_create_segment [data] remainder_flags (seqno useg + ucast split) optflags e of
                  (None, e) \<Rightarrow> Some (ERR_MEM, pcb, e)
                | (Some seg, e) \<Rightarrow> do {
                    let seg = seg\<lparr>seg_flags := seg_flags seg OR TF_SEG_DATA_CHECKSUMMED\<rparr>;
                    let clen = length (seg_p useg);
                    let useg = useg\<lparr>seg_p := realloc (seg_p useg) (tot_len (seg_p useg) - unat remainder),
                      len := len useg - remainder, hdr := hdr useg OR split_flags, oversize_left := 0\<rparr>;
                    let pcb = pcb\<lparr>snd_queuelen := snd_queuelen pcb - word_of_nat clen + word_of_nat (length (seg_p useg)) +
                        word_of_nat (length (seg_p seg)), unsent := useg # seg # segs\<rparr>;
                    let pcb = (if segs = [] then pcb\<lparr>unsent_oversize := 0\<rparr> else pcb);
                    Some (ERR_OK, pcb, e)
                  }
              }
            }
          })"

section \<open>Output\<close>

definition tcp_do_output_nagle :: "tcp_pcb \<Rightarrow> bool" where
  "tcp_do_output_nagle pcb \<longleftrightarrow>
     unacked pcb = [] \<or> tcp_is_flag_set (TF_NODELAY OR TF_INFR) pcb \<or>
     (case unsent pcb of [] \<Rightarrow> False | s # segs \<Rightarrow> segs \<noteq> [] \<or> len s \<ge> mss pcb) \<or>
     snd_buf pcb = 0 \<or> snd_queuelen pcb \<ge> TCP_SND_QUEUELEN"

fun ip_addr_isany :: "ip_addr_t \<Rightarrow> bool" where
  "ip_addr_isany (IP_ADDR4 a) \<longleftrightarrow> a = 0"
| "ip_addr_isany (IP_ADDR6 a b c d z) \<longleftrightarrow> a = 0 \<and> b = 0 \<and> c = 0 \<and> d = 0"
| "ip_addr_isany IP_ADDR_ANY_TYPE \<longleftrightarrow> True"

definition IP_IS_V6 :: "ip_addr_t \<Rightarrow> bool" where
  "IP_IS_V6 a \<longleftrightarrow> (case a of IP_ADDR6 _ _ _ _ _ \<Rightarrow> True | _ \<Rightarrow> False)"

definition tcp_route :: "tcp_pcb \<Rightarrow> ip_addr_t \<Rightarrow> ip_addr_t \<Rightarrow> tcp_env \<Rightarrow> tcp_netif option" where
  "tcp_route pcb src dst e =
     (if netif_idx pcb \<noteq> 0 then netif_get_by_index e (netif_idx pcb) else ip_route e src dst)"

definition tcp_eff_send_mss_netif :: "u16 \<Rightarrow> tcp_netif option \<Rightarrow> ip_addr_t \<Rightarrow> tcp_env \<Rightarrow> u16" where
  "tcp_eff_send_mss_netif sendmss outif dst e =
     (let v6 = IP_IS_V6 dst;
          mtu = (if v6 then Some (nd6_get_destination_mtu e dst outif) else map_option nif_mtu outif)
      in case mtu of
           None \<Rightarrow> sendmss
         | Some mtu \<Rightarrow>
             if mtu \<noteq> 0 then
               (let offset = (if v6 then 40 + 20 else 20 + 20)
                in min sendmss (if mtu > offset then mtu - offset else 0))
             else sendmss)"

definition tcp_output_segment_busy :: "tcp_seg \<Rightarrow> bool" where
  "tcp_output_segment_busy seg \<longleftrightarrow> p_ref seg \<noteq> 1"

definition TCP_BUILD_MSS_OPTION :: "u16 \<Rightarrow> u8 list" where
  "TCP_BUILD_MSS_OPTION m = [0x02, 0x04, ucast (drop_bit 8 m), ucast m]"

definition tcp_output_segment ::
  "tcp_seg \<Rightarrow> tcp_pcb \<Rightarrow> tcp_netif \<Rightarrow> tcp_env \<Rightarrow> (err_t \<times> tcp_pcb \<times> tcp_env) option" where
  "tcp_output_segment seg pcb netif e =
     (if tcp_output_segment_busy seg then Some (ERR_OK, pcb, e)
      else do {
        let pcb = announced pcb;
        let opts = (if seg_flags seg AND TF_SEG_OPTS_MSS \<noteq> 0
                    then TCP_BUILD_MSS_OPTION (tcp_eff_send_mss_netif TCP_MSS (Some netif) (remote_ip pcb) e) else []);
        let pcb = (if rtime pcb < 0 then pcb\<lparr>rtime := 0\<rparr> else pcb);
        let pcb = (if rttest pcb = 0 then pcb\<lparr>rttest := tcp_ticks e, rtseq := seqno seg\<rparr> else pcb);
        lwip_assert (length opts = LWIP_TCP_OPT_LENGTH (seg_flags seg));
        lwip_assert (seg_flags seg AND TF_SEG_DATA_CHECKSUMMED \<noteq> 0 \<or> tot_len (seg_p seg) = 0);
        let t = \<lparr>tx_src = local_ip pcb, tx_dst = remote_ip pcb, tx_src_port = local_port pcb,
                 tx_dst_port = remote_port pcb, tx_seqno = seqno seg, tx_ackno = rcv_nxt pcb, tx_hdr = hdr seg,
                 tx_wnd = rcv_ann_wnd pcb, tx_opts = opts, tx_data = concat (seg_p seg)\<rparr>;
        case ip_out e (tx_log e) t of
          None \<Rightarrow> Some (ERR_BUF, pcb, e)
        | Some err \<Rightarrow> Some (err, pcb, e\<lparr>tx_log := tx_log e @ [t]\<rparr>)
      })"

text \<open>Sorted insertion into a queue, and the way a sent segment joins the unacknowledged ones.\<close>

fun seg_insert :: "tcp_seg \<Rightarrow> tcp_seg list \<Rightarrow> tcp_seg list" where
  "seg_insert seg [] = [seg]"
| "seg_insert seg (cur # segs) =
     (if TCP_SEQ_LT (seqno cur) (seqno seg) then cur # seg_insert seg segs else seg # cur # segs)"

definition put_unacked :: "tcp_seg \<Rightarrow> tcp_seg list \<Rightarrow> tcp_seg list" where
  "put_unacked seg segs =
     (if segs = [] then [seg]
      else if TCP_SEQ_LT (seqno seg) (seqno (last segs)) then seg_insert seg segs
      else segs @ [seg])"

text \<open>The fields of the control block after a segment was sent.\<close>

definition tcp_output_sent :: "tcp_seg \<Rightarrow> tcp_seg list \<Rightarrow> tcp_pcb \<Rightarrow> tcp_env \<Rightarrow> tcp_pcb \<times> tcp_env" where
  "tcp_output_sent seg segs pcb e =
     (let seg = seg\<lparr>oversize_left := 0\<rparr>;
          pcb = pcb\<lparr>unsent := segs\<rparr>;
          pcb = (if state pcb \<noteq> SYN_SENT then tcp_clear_flags (TF_ACK_DELAY OR TF_ACK_NOW) pcb else pcb);
          nxt = seqno seg + TCP_TCPLEN seg;
          pcb = (if TCP_SEQ_LT (snd_nxt pcb) nxt then pcb\<lparr>snd_nxt := nxt\<rparr> else pcb)
      in if TCP_TCPLEN seg > 0 then (pcb\<lparr>unacked := put_unacked seg (unacked pcb)\<rparr>, e)
         else (pcb, tcp_seg_free seg e))"

fun tcp_output_loop ::
  "u32 \<Rightarrow> tcp_netif \<Rightarrow> tcp_seg list \<Rightarrow> tcp_pcb \<Rightarrow> tcp_env \<Rightarrow> (err_t \<times> tcp_pcb \<times> tcp_env) option" where
  "tcp_output_loop wnd netif [] pcb e = Some (ERR_OK, pcb, e)"
| "tcp_output_loop wnd netif (seg # segs) pcb e =
     (if seqno seg - lastack pcb + ucast (len seg) \<le> wnd
      then do {
        lwip_assert (hdr seg AND TCP_RST = 0);
        if \<not> tcp_do_output_nagle pcb \<and> \<not> tcp_is_flag_set (TF_NAGLEMEMERR OR TF_FIN) pcb then Some (ERR_OK, pcb, e)
        else do {
          let seg = (if state pcb \<noteq> SYN_SENT then seg\<lparr>hdr := hdr seg OR TCP_ACK\<rparr> else seg);
          let pcb = pcb\<lparr>unsent := seg # segs\<rparr>;
          (err, pcb, e) \<leftarrow> tcp_output_segment seg pcb netif e;
          if err \<noteq> ERR_OK then Some (err, tcp_set_flags TF_NAGLEMEMERR pcb, e)
          else (let (pcb, e) = tcp_output_sent seg segs pcb e in tcp_output_loop wnd netif segs pcb e)
        }
      }
      else Some (ERR_OK, pcb, e))"

text \<open>\<open>input\<close> is the condition \<^verbatim>\<open>tcp_input_pcb == pcb\<close>.\<close>

definition tcp_output :: "bool \<Rightarrow> tcp_pcb \<Rightarrow> tcp_env \<Rightarrow> (err_t \<times> tcp_pcb \<times> tcp_env) option" where
  "tcp_output input pcb e = do {
     lwip_assert (state pcb \<noteq> LISTEN);
     let wnd = (ucast (min (snd_wnd pcb) (cwnd pcb)) :: u32);
     let output_done = (\<lambda>pcb e. Some (ERR_OK, tcp_clear_flags TF_NAGLEMEMERR pcb, e));
     if input then Some (ERR_OK, pcb, e)
     else case unsent pcb of
       [] \<Rightarrow> if tcp_is_flag_set TF_ACK_NOW pcb then Some (tcp_send_empty_ack pcb e) else output_done pcb e
     | seg # segs \<Rightarrow>
         (case tcp_route pcb (local_ip pcb) (remote_ip pcb) e of
            None \<Rightarrow> Some (ERR_RTE, pcb, e)
          | Some netif \<Rightarrow>
              (case (if ip_addr_isany (local_ip pcb) then nif_local_ip netif (remote_ip pcb)
                     else Some (local_ip pcb)) of
                 None \<Rightarrow> Some (ERR_RTE, pcb, e)
               | Some ip \<Rightarrow>
                   let pcb = pcb\<lparr>local_ip := ip\<rparr>
                   in if seqno seg - lastack pcb + ucast (len seg) > wnd
                      then
                        (let pcb = (if wnd = ucast (snd_wnd pcb) \<and> unacked pcb = [] \<and> persist_backoff pcb = 0
                                    then pcb\<lparr>persist_cnt := 0, persist_backoff := 1, persist_probe := 0\<rparr> else pcb)
                         in if tcp_is_flag_set TF_ACK_NOW pcb then Some (tcp_send_empty_ack pcb e)
                            else output_done pcb e)
                      else do {
                        (err, pcb, e) \<leftarrow> tcp_output_loop wnd netif (seg # segs) (pcb\<lparr>persist_backoff := 0\<rparr>) e;
                        if err \<noteq> ERR_OK then Some (err, pcb, e)
                        else output_done (if unsent pcb = [] then pcb\<lparr>unsent_oversize := 0\<rparr> else pcb) e
                      }))
   }"

section \<open>Retransmission\<close>

definition tcp_rexmit_rto_prepare :: "tcp_pcb \<Rightarrow> err_t \<times> tcp_pcb" where
  "tcp_rexmit_rto_prepare pcb =
     (if unacked pcb = [] \<or> (\<exists>seg \<in> set (unacked pcb). tcp_output_segment_busy seg) then (ERR_VAL, pcb)
      else
        (let seg = last (unacked pcb);
             pcb = (if unsent pcb = [] then pcb\<lparr>unsent_oversize := oversize_left seg\<rparr> else pcb);
             pcb = tcp_set_flags TF_RTO (pcb\<lparr>unsent := unacked pcb @ unsent pcb, unacked := []\<rparr>)
         in (ERR_OK, pcb\<lparr>rto_end := seqno seg + TCP_TCPLEN seg, rttest := 0\<rparr>)))"

definition tcp_rexmit_rto_commit :: "bool \<Rightarrow> tcp_pcb \<Rightarrow> tcp_env \<Rightarrow> (tcp_pcb \<times> tcp_env) option" where
  "tcp_rexmit_rto_commit input pcb e = do {
     (_, pcb, e) \<leftarrow> tcp_output input (if nrtx pcb < 0xff then pcb\<lparr>nrtx := nrtx pcb + 1\<rparr> else pcb) e;
     Some (pcb, e)
   }"

definition tcp_rexmit_rto :: "bool \<Rightarrow> tcp_pcb \<Rightarrow> tcp_env \<Rightarrow> (tcp_pcb \<times> tcp_env) option" where
  "tcp_rexmit_rto input pcb e =
     (let (err, pcb) = tcp_rexmit_rto_prepare pcb
      in if err = ERR_OK then tcp_rexmit_rto_commit input pcb e else Some (pcb, e))"

definition tcp_rexmit :: "tcp_pcb \<Rightarrow> err_t \<times> tcp_pcb" where
  "tcp_rexmit pcb =
     (case unacked pcb of
        [] \<Rightarrow> (ERR_VAL, pcb)
      | seg # segs \<Rightarrow>
          if tcp_output_segment_busy seg then (ERR_VAL, pcb)
          else
            (let q = seg_insert seg (unsent pcb);
                 pcb = (if \<forall>cur \<in> set (unsent pcb). TCP_SEQ_LT (seqno cur) (seqno seg)
                        then pcb\<lparr>unsent_oversize := 0\<rparr> else pcb);
                 pcb = pcb\<lparr>unacked := segs, unsent := q\<rparr>;
                 pcb = (if nrtx pcb < 0xff then pcb\<lparr>nrtx := nrtx pcb + 1\<rparr> else pcb)
             in (ERR_OK, pcb\<lparr>rttest := 0\<rparr>)))"

definition tcp_rexmit_fast :: "tcp_pcb \<Rightarrow> tcp_pcb" where
  "tcp_rexmit_fast pcb =
     (if unacked pcb \<noteq> [] \<and> \<not> tcp_is_flag_set TF_INFR pcb
      then
        (let (err, pcb) = tcp_rexmit pcb
         in if err = ERR_OK then
              (let pcb = pcb\<lparr>ssthresh := min (cwnd pcb) (snd_wnd pcb) div 2\<rparr>;
                   pcb = (if unat (ssthresh pcb) < 2 * unat (mss pcb) then pcb\<lparr>ssthresh := 2 * mss pcb\<rparr> else pcb);
                   pcb = tcp_set_flags TF_INFR (pcb\<lparr>cwnd := ssthresh pcb + 3 * mss pcb\<rparr>)
               in pcb\<lparr>rtime := 0\<rparr>)
            else pcb)
      else pcb)"

end
