(* ===== verification/Tcp_Send_Queue.thy ===== *)
theory Tcp_Send_Queue
  imports Tcp_Send Tcp_Reassembly
begin

text \<open>
  The send queue. The segments that are not acknowledged cover the stream of the sender without
  gaps from some position \<open>q\<close> on up to the end \<open>z\<close> of what was written, and each of them is on one
  of the two queues, which are sorted: the list of all is a shuffle of \<^verbatim>\<open>unacked\<close> and \<^verbatim>\<open>unsent\<close>.
  The lemmas say that writing extends the covered stretch at its end or changes nothing, and that
  output and retransmission only move segments between the queues.
\<close>

section \<open>Stretches of the stream\<close>

definition qlen :: "tcp_seg \<Rightarrow> nat" where
  "qlen s = slen s + (if has_hdr TCP_FIN s \<or> has_hdr TCP_SYN s then 1 else 0)"

lemma TCP_TCPLEN_qlen: "TCP_TCPLEN s = sq (qlen s)"
  unfolding TCP_TCPLEN_def hdr_fin_syn by (simp add: qlen_def)

definition seg_ok :: "stream \<Rightarrow> nat \<Rightarrow> tcp_seg \<Rightarrow> bool" where
  "seg_ok S q s \<longleftrightarrow>
     seqno s = sq q \<and> concat (seg_p s) = map (byte_at S) [q ..< q + slen s] \<and> seg_p s \<noteq> [] \<and> 0 < qlen s \<and>
     p_ref s = 1 \<and> \<not> has_hdr TCP_RST s \<and>
     (has_hdr TCP_SYN s \<longrightarrow> slen s = 0 \<and> \<not> has_hdr TCP_FIN s \<and> oversize_left s = 0) \<and>
     (has_hdr TCP_FIN s \<longrightarrow> fin_at S = Some (q + slen s)) \<and> (\<forall>f. fin_at S = Some f \<longrightarrow> q + slen s \<le> f) \<and>
     (slen s \<noteq> 0 \<longrightarrow> seg_flags s AND TF_SEG_DATA_CHECKSUMMED \<noteq> 0)"

lemma seg_okD:
  assumes "seg_ok S q s"
  shows "seqno s = sq q" "concat (seg_p s) = map (byte_at S) [q ..< q + slen s]" "seg_p s \<noteq> []" "0 < qlen s"
    "p_ref s = 1" "\<not> has_hdr TCP_RST s" "has_hdr TCP_FIN s \<Longrightarrow> fin_at S = Some (q + slen s)"
    "has_hdr TCP_SYN s \<Longrightarrow> slen s = 0" "tot_len (seg_p s) = slen s"
    "slen s \<noteq> 0 \<Longrightarrow> seg_flags s AND TF_SEG_DATA_CHECKSUMMED \<noteq> 0"
  using assms by (simp_all add: seg_ok_def tot_len_def)

fun snd_segs :: "stream \<Rightarrow> nat \<Rightarrow> tcp_seg list \<Rightarrow> nat \<Rightarrow> bool" where
  "snd_segs S q [] z \<longleftrightarrow> q = z"
| "snd_segs S q (s # ss) z \<longleftrightarrow> seg_ok S q s \<and> snd_segs S (q + qlen s) ss z"

lemma snd_segs_append:
  "snd_segs S q (xs @ ys) z \<longleftrightarrow> (\<exists>m. snd_segs S q xs m \<and> snd_segs S m ys z)"
  by (induction xs arbitrary: q) auto

definition slens :: "tcp_seg list \<Rightarrow> nat" where "slens Q = sum_list (map slen Q)"
definition clens :: "tcp_seg list \<Rightarrow> nat" where "clens Q = sum_list (map (\<lambda>s. length (seg_p s)) Q)"

lemma lens_simps [simp]:
  "slens [] = 0" "slens (s # ss) = slen s + slens ss" "slens (xs @ ys) = slens xs + slens ys"
  "clens [] = 0" "clens (s # ss) = length (seg_p s) + clens ss" "clens (xs @ ys) = clens xs + clens ys"
  by (simp_all add: slens_def clens_def)

lemma lens_shuffles:
  assumes "Q \<in> shuffles A B"
  shows "slens Q = slens A + slens B" "clens Q = clens A + clens B"
  using assms by (induction A B arbitrary: Q rule: shuffles.induct) auto

lemma snd_segs_le: "snd_segs S q Q z \<Longrightarrow> q \<le> z \<and> z \<le> q + slens Q + clens Q"
proof (induction Q arbitrary: q)
  case (Cons s ss)
  then have "q + qlen s \<le> z \<and> z \<le> q + qlen s + slens ss + clens ss" by auto
  moreover have "qlen s \<le> slen s + length (seg_p s)"
    using Cons.prems by (auto simp: qlen_def seg_ok_def Suc_le_eq)
  ultimately show ?case by simp
qed simp

section \<open>Sorted insertion\<close>

text \<open>Segments of a stretch that is short enough to be compared by sequence numbers.\<close>

lemma snd_segs_mem:
  "snd_segs S q Q z \<Longrightarrow> s \<in> set Q \<Longrightarrow> \<exists>p. q \<le> p \<and> p + qlen s \<le> z \<and> seg_ok S p s"
proof (induction Q arbitrary: q)
  case (Cons t ts)
  then show ?case
  proof (cases "s = t")
    case True
    then show ?thesis using Cons.prems snd_segs_le by fastforce
  next
    case False
    then obtain p where "q + qlen t \<le> p" "p + qlen s \<le> z" "seg_ok S p s" using Cons by auto
    then show ?thesis by (meson add_leD1 le_trans)
  qed
qed simp

lemma snd_segs_first_less:
  assumes "snd_segs S q (s # ss) z" "z \<le> q + 1073741824" "t \<in> set ss"
  shows "TCP_SEQ_LT (seqno s) (seqno t)" "\<not> TCP_SEQ_LT (seqno t) (seqno s)"
proof -
  have s: "seg_ok S q s" "0 < qlen s" using assms(1) by (simp_all add: seg_ok_def)
  obtain p where p: "q + qlen s \<le> p" "p + qlen t \<le> z" "seg_ok S p t"
    using snd_segs_mem [of S "q + qlen s" ss z t] assms by auto
  have "q < p + 2147483648" "p < q + 2147483648" "q < p" using p s(2) assms(2) by linarith+
  then show "TCP_SEQ_LT (seqno s) (seqno t)" "\<not> TCP_SEQ_LT (seqno t) (seqno s)"
    using sq_compare(1) [of q p] sq_compare(1) [of p q] seg_okD(1) [OF s(1)] seg_okD(1) [OF p(3)] by simp_all
qed

lemma shuffles_ConsE:
  assumes "s # Q \<in> shuffles A B"
  obtains A' where "A = s # A'" "Q \<in> shuffles A' B" | B' where "B = s # B'" "Q \<in> shuffles A B'"
  using assms by (auto simp: Cons_in_shuffles_iff neq_Nil_conv)

lemma shuffles_seg_insert:
  assumes "Q \<in> shuffles A (s # B)" "snd_segs S q Q z" "z \<le> q + 1073741824"
  shows "Q \<in> shuffles (seg_insert s A) B"
  using assms
proof (induction Q arbitrary: A q)
  case (Cons t Q)
  have bound: "z \<le> q + qlen t + 1073741824" using Cons.prems(3) by simp
  from Cons.prems(1) show ?case
  proof (cases rule: shuffles_ConsE)
    case (1 A')
    then have "s \<in> set Q" by (auto simp: set_shuffles)
    then have "TCP_SEQ_LT (seqno t) (seqno s)" using snd_segs_first_less(1) [OF Cons.prems(2,3)] by simp
    moreover have "Q \<in> shuffles (seg_insert s A') B" using Cons.IH [OF 1(2) _ bound] Cons.prems(2) by simp
    ultimately show ?thesis using 1(1) by (simp add: Cons_in_shuffles_leftI)
  next
    case (2 B')
    have less: "\<not> TCP_SEQ_LT (seqno a) (seqno s)" if "a \<in> set A" for a
    proof -
      have "a \<in> set Q" using that 2(2) by (auto simp: set_shuffles)
      then show ?thesis using snd_segs_first_less(2) [OF Cons.prems(2,3)] 2(1) by simp
    qed
    then have "seg_insert s A = s # A" by (cases A) simp_all
    then show ?thesis using 2 by (simp add: Cons_in_shuffles_leftI)
  qed
qed simp

lemma put_unacked_insert:
  assumes "Q \<in> shuffles A (s # B)" "snd_segs S q Q z" "z \<le> q + 1073741824"
  shows "put_unacked s A = seg_insert s A"
  using assms
proof (induction Q arbitrary: A q)
  case (Cons t Q)
  have bound: "z \<le> q + qlen t + 1073741824" using Cons.prems(3) by simp
  from Cons.prems(1) show ?case
  proof (cases rule: shuffles_ConsE)
    case (1 A')
    then have "s \<in> set Q" by (auto simp: set_shuffles)
    then have "TCP_SEQ_LT (seqno t) (seqno s)" "\<not> TCP_SEQ_LT (seqno s) (seqno t)"
      using snd_segs_first_less [OF Cons.prems(2,3)] by simp_all
    moreover have "put_unacked s A' = seg_insert s A'" using Cons.IH [OF 1(2) _ bound] Cons.prems(2) by simp
    ultimately show ?thesis using 1(1) by (cases "A' = []") (auto simp: put_unacked_def split: if_splits)
  next
    case (2 B')
    have "TCP_SEQ_LT (seqno s) (seqno (last A))" if "A \<noteq> []"
    proof -
      have "last A \<in> set Q" using that 2(2) by (auto simp: set_shuffles)
      then show ?thesis using snd_segs_first_less(1) [OF Cons.prems(2,3)] 2(1) by simp
    qed
    then show ?thesis by (cases A) (simp_all add: put_unacked_def)
  qed
qed simp

text \<open>Replacing a segment by one that covers the same stretch.\<close>

definition same_stretch :: "stream \<Rightarrow> tcp_seg \<Rightarrow> tcp_seg \<Rightarrow> bool" where
  "same_stretch S s t \<longleftrightarrow> qlen t = qlen s \<and> (\<forall>q. seg_ok S q s \<longrightarrow> seg_ok S q t)"

lemma shuffles_replace:
  assumes "Q \<in> shuffles A (s # B)" "snd_segs S q Q z" "same_stretch S s t"
  shows "\<exists>Q'. Q' \<in> shuffles A (t # B) \<and> snd_segs S q Q' z"
  using assms(1,2)
proof (induction Q arbitrary: A q)
  case (Cons u Q)
  from Cons.prems(1) show ?case
  proof (cases rule: shuffles_ConsE)
    case (1 A')
    then obtain Q' where "Q' \<in> shuffles A' (t # B)" "snd_segs S (q + qlen u) Q' z"
      using Cons.IH [OF 1(2)] Cons.prems(2) by auto
    then show ?thesis using 1(1) Cons.prems(2)
      by (intro exI [of _ "u # Q'"]) (simp add: Cons_in_shuffles_leftI)
  next
    case (2 B')
    then show ?thesis using Cons.prems(2) assms(3)
      by (intro exI [of _ "t # Q"]) (simp add: Cons_in_shuffles_rightI same_stretch_def)
  qed
qed simp

section \<open>The invariant of the send queue\<close>

definition snd_inv :: "stream \<Rightarrow> nat \<Rightarrow> nat \<Rightarrow> tcp_pcb \<Rightarrow> bool" where
  "snd_inv S q z pcb \<longleftrightarrow>
     (\<exists>Q. Q \<in> shuffles (unacked pcb) (unsent pcb) \<and> snd_segs S q Q z) \<and>
     unat (snd_queuelen pcb) = clens (unacked pcb) + clens (unsent pcb) \<and>
     unat (snd_buf pcb) + slens (unacked pcb) + slens (unsent pcb) = unat TCP_SND_BUF"

lemma snd_inv_short: "snd_inv S q z pcb \<Longrightarrow> q \<le> z \<and> z \<le> q + 88895"
  using u16_lt [of "snd_queuelen pcb"] snd_segs_le lens_shuffles
  unfolding snd_inv_def TCP_SND_BUF_def by fastforce

lemma snd_inv_cong:
  assumes "snd_inv S q z pcb" "unacked pcb' = unacked pcb" "unsent pcb' = unsent pcb"
    "snd_queuelen pcb' = snd_queuelen pcb" "snd_buf pcb' = snd_buf pcb"
  shows "snd_inv S q z pcb'"
  using assms by (simp add: snd_inv_def)

text \<open>The positions of \<^verbatim>\<open>lastack\<close> and \<^verbatim>\<open>snd_nxt\<close>.\<close>

definition snd_at :: "nat \<Rightarrow> nat \<Rightarrow> nat \<Rightarrow> nat \<Rightarrow> tcp_pcb \<Rightarrow> bool" where
  "snd_at q z a n pcb \<longleftrightarrow> lastack pcb = sq a \<and> snd_nxt pcb = sq n \<and> q \<le> a \<and> a \<le> n \<and> n \<le> z"

section \<open>Output\<close>

lemma ack_rst_exp: "TCP_ACK = 2 ^ 4" "TCP_RST = 2 ^ 2"
  by (simp_all add: tcp_hdr_flag_defs)

lemma bit_ack_rst: "bit TCP_ACK n \<longleftrightarrow> n = (4 :: nat)" "bit TCP_RST n \<longleftrightarrow> n = (2 :: nat)"
  unfolding ack_rst_exp bit_exp_iff by (auto simp: possible_bit_def)

lemma has_hdr_rst_bit: "has_hdr TCP_RST s \<longleftrightarrow> bit (hdr s) 2"
  unfolding has_hdr_def ack_rst_exp and_exp_eq_0_iff_not_bit by simp

lemma has_hdr_set_ack [simp]:
  "has_hdr TCP_FIN (s\<lparr>hdr := hdr s OR TCP_ACK\<rparr>) = has_hdr TCP_FIN s"
  "has_hdr TCP_SYN (s\<lparr>hdr := hdr s OR TCP_ACK\<rparr>) = has_hdr TCP_SYN s"
  "has_hdr TCP_RST (s\<lparr>hdr := hdr s OR TCP_ACK\<rparr>) = has_hdr TCP_RST s"
  by (simp_all add: has_hdr_bit has_hdr_rst_bit bit_simps bit_ack_rst)

lemma has_hdr_oversize [simp]: "has_hdr f (s\<lparr>oversize_left := n\<rparr>) = has_hdr f s"
  by (simp add: has_hdr_def)

lemma same_stretch_sent:
  "same_stretch S s (s\<lparr>hdr := hdr s OR TCP_ACK\<rparr>)" "same_stretch S s (s\<lparr>oversize_left := 0\<rparr>)"
  "same_stretch S s s"
  by (auto simp: same_stretch_def seg_ok_def qlen_def)

lemma same_stretch_trans: "same_stretch S s t \<Longrightarrow> same_stretch S t u \<Longrightarrow> same_stretch S s u"
  by (simp add: same_stretch_def)

text \<open>The part of a control block that the queue functions are about.\<close>

definition snd_part where
  "snd_part pcb = (unacked pcb, unsent pcb, snd_queuelen pcb, snd_buf pcb, lastack pcb, snd_nxt pcb, snd_lbb pcb,
     unsent_oversize pcb, mss pcb, snd_wnd_max pcb, state pcb)"

lemmas snd_part_simps = snd_part_def announced_def tcp_set_flags_def tcp_clear_flags_def

lemma snd_part_inv: "snd_part pcb' = snd_part pcb \<Longrightarrow> snd_inv S q z pcb' = snd_inv S q z pcb"
  by (simp add: snd_part_def snd_inv_def)

lemma snd_part_at: "snd_part pcb' = snd_part pcb \<Longrightarrow> snd_at q z a n pcb' = snd_at q z a n pcb"
  by (simp add: snd_part_def snd_at_def)

text \<open>A transmitted segment that carries a slice of the stream up to a limit.\<close>

definition tx_ok :: "stream \<Rightarrow> nat \<Rightarrow> nat \<Rightarrow> tx_seg \<Rightarrow> bool" where
  "tx_ok S q lim t \<longleftrightarrow>
     (\<exists>p \<ge> q. tx_seqno t = sq p \<and> tx_data t = map (byte_at S) [p ..< p + length (tx_data t)] \<and>
        p + length (tx_data t) \<le> lim \<and> length (tx_data t) < 65536 \<and>
        (tx_hdr t AND TCP_FIN \<noteq> 0 \<longrightarrow> fin_at S = Some (p + length (tx_data t))) \<and>
        (\<forall>f. fin_at S = Some f \<longrightarrow> p + length (tx_data t) \<le> f) \<and>
        (tx_hdr t AND TCP_SYN \<noteq> 0 \<longrightarrow> tx_data t = []))"

lemma tcp_output_segment_ok:
  assumes "seg_ok S p s" and "q \<le> p" and "p + slen s \<le> lim"
  shows "\<exists>err pcb' e'. tcp_output_segment s pcb netif e = Some (err, pcb', e') \<and> snd_part pcb' = snd_part pcb \<and>
    (\<exists>ts. tx_log e' = tx_log e @ ts \<and> (\<forall>t \<in> set ts. tx_ok S q lim t)) \<and>
    (err = ERR_OK \<longrightarrow> (\<exists>t. tx_log e' = tx_log e @ [t] \<and> tx_seqno t = seqno s \<and> tx_data t = concat (seg_p s)))"
proof -
  note s = seg_okD [OF assms(1)]
  have opts: "length (if seg_flags s AND TF_SEG_OPTS_MSS \<noteq> 0 then TCP_BUILD_MSS_OPTION m else []) =
      LWIP_TCP_OPT_LENGTH (seg_flags s)" for m
    by (simp add: TCP_BUILD_MSS_OPTION_def LWIP_TCP_OPT_LENGTH_def)
  have chk: "seg_flags s AND TF_SEG_DATA_CHECKSUMMED \<noteq> 0 \<or> tot_len (seg_p s) = 0" using s(9,10) by auto
  have l: "length (concat (seg_p s)) = slen s" using s(2) by simp
  have "tx_ok S q lim t" if "tx_seqno t = seqno s" "tx_data t = concat (seg_p s)" "tx_hdr t = hdr s" for t
    unfolding tx_ok_def that l using s(1,2,7,8) assms u16_lt [of "len s"]
    by (intro exI [of _ p]) (auto simp: has_hdr_def seg_ok_def)
  then show ?thesis
    using s(5) opts chk
    by (auto simp: tcp_output_segment_def tcp_output_segment_busy_def Let_def snd_part_simps split: option.splits)
qed

lemma window_limit:
  assumes "sq p - sq a + ucast (l :: u16) \<le> (wnd :: u32)" "p < a + 1073741824" "a < p + 1073741824"
  shows "p + unat l \<le> a + unat wnd"
proof (cases "a \<le> p + unat l")
  case True
  then have "sq p - sq a + ucast l = sq (p + unat l - a)" by (simp only: ucast16 of_nat_diff of_nat_add) simp
  moreover have "unat (sq (p + unat l - a)) = p + unat l - a"
    using assms(2) True u16_lt [of l] by (simp only: unat_of_nat) simp
  ultimately show ?thesis using assms(1) by (simp add: word_le_nat_alt)
qed simp

text \<open>After a segment was sent it is on the other queue.\<close>

lemma tcp_output_sent_ok:
  assumes "snd_inv S q z pcb" "unsent pcb = s # segs" "snd_at q z a n pcb"
    "tcp_output_sent s segs pcb e = (pcb', e')"
  shows "snd_inv S q z pcb'" "\<exists>n'. n \<le> n' \<and> snd_at q z a n' pcb'" "e' = e" "unsent pcb' = segs"
    "unsent_oversize pcb' = unsent_oversize pcb" "snd_lbb pcb' = snd_lbb pcb" "mss pcb' = mss pcb"
    "snd_wnd_max pcb' = snd_wnd_max pcb" "state pcb' = state pcb" "lastack pcb' = lastack pcb"
proof -
  obtain Q where Q: "Q \<in> shuffles (unacked pcb) (s # segs)" "snd_segs S q Q z"
    using assms(1,2) by (auto simp: snd_inv_def)
  note short = snd_inv_short [OF assms(1)]
  have "s \<in> set Q" using Q(1) by (auto simp: set_shuffles)
  then obtain p where p: "q \<le> p" "p + qlen s \<le> z" "seg_ok S p s" using snd_segs_mem [OF Q(2)] by blast
  note ok = seg_okD [OF p(3)]
  let ?s = "s\<lparr>oversize_left := 0\<rparr>"
  have q: "qlen ?s = qlen s" "TCP_TCPLEN ?s = sq (qlen s)" by (simp_all add: TCP_TCPLEN_qlen qlen_def)
  have "unat (sq (qlen s)) = qlen s" using u16_lt [of "len s"] by (simp only: unat_of_nat) (simp add: qlen_def)
  then have pos: "TCP_TCPLEN ?s > 0" using ok(4) q(2) by (simp add: word_less_nat_alt)
  have e: "seqno ?s + TCP_TCPLEN ?s = sq (p + qlen s)" by (simp add: q(2) ok(1))
  let ?n = "if n < p + qlen s then p + qlen s else n"
  note at = assms(3) [unfolded snd_at_def]
  have lt: "TCP_SEQ_LT (snd_nxt pcb) (sq (p + qlen s)) \<longleftrightarrow> n < p + qlen s"
    using at sq_compare(1) [of n "p + qlen s"] p(1,2) short by simp
  obtain Q' where Q': "Q' \<in> shuffles (unacked pcb) (?s # segs)" "snd_segs S q Q' z"
    using shuffles_replace [OF Q same_stretch_sent(2)] by blast
  have z: "z \<le> q + 1073741824" using short by simp
  have put: "Q' \<in> shuffles (put_unacked ?s (unacked pcb)) segs"
    using shuffles_seg_insert [OF Q' z] put_unacked_insert [OF Q' z] by simp
  have pcb': "unacked pcb' = put_unacked ?s (unacked pcb)" "unsent pcb' = segs" "snd_queuelen pcb' = snd_queuelen pcb"
      "snd_buf pcb' = snd_buf pcb" "lastack pcb' = lastack pcb" "snd_nxt pcb' = sq ?n" "e' = e"
    using assms(4) pos e lt at by (auto simp: tcp_output_sent_def Let_def tcp_clear_flags_def split: if_splits)
  show "e' = e" "unsent pcb' = segs" "lastack pcb' = lastack pcb" by (fact pcb')+
  show "unsent_oversize pcb' = unsent_oversize pcb" "snd_lbb pcb' = snd_lbb pcb" "mss pcb' = mss pcb"
      "snd_wnd_max pcb' = snd_wnd_max pcb" "state pcb' = state pcb"
    using assms(4) by (auto simp: tcp_output_sent_def Let_def tcp_clear_flags_def split: if_splits)
  show "\<exists>n'. n \<le> n' \<and> snd_at q z a n' pcb'"
    using at p pcb' by (intro exI [of _ ?n]) (auto simp: snd_at_def)
  have "slens (put_unacked ?s (unacked pcb)) + slens segs = slens (unacked pcb) + slens (unsent pcb)"
      "clens (put_unacked ?s (unacked pcb)) + clens segs = clens (unacked pcb) + clens (unsent pcb)"
    using lens_shuffles [OF put] lens_shuffles [OF Q'(1)] assms(2) by simp_all
  then show "snd_inv S q z pcb'" using assms(1) put Q'(2) pcb' by (auto simp: snd_inv_def)
qed

text \<open>
  The free bytes at the end of the last unsent segment are within the segment size, so that
  \<^verbatim>\<open>tcp_write\<close> can use them.
\<close>

definition tail_fits :: "tcp_pcb \<Rightarrow> bool" where
  "tail_fits pcb \<longleftrightarrow>
     (unsent pcb \<noteq> [] \<longrightarrow>
        unsent_oversize pcb = oversize_left (last (unsent pcb)) \<and>
        slen (last (unsent pcb)) + LWIP_TCP_OPT_LENGTH (seg_flags (last (unsent pcb))) + unat (unsent_oversize pcb)
          \<le> tcp_mss_local pcb)"

lemma tcp_mss_local_cong:
  "mss pcb' = mss pcb \<Longrightarrow> snd_wnd_max pcb' = snd_wnd_max pcb \<Longrightarrow> tcp_mss_local pcb' = tcp_mss_local pcb"
  by (simp add: tcp_mss_local_def Let_def split: if_split)

definition tail_ok :: "tcp_pcb \<Rightarrow> bool" where
  "tail_ok pcb \<longleftrightarrow> tail_fits pcb \<and> (unsent pcb = [] \<longrightarrow> unsent_oversize pcb = 0)"

lemma snd_part_tail:
  "snd_part pcb' = snd_part pcb \<Longrightarrow> tail_fits pcb' = tail_fits pcb"
  using tcp_mss_local_cong [of pcb' pcb] by (simp add: snd_part_def tail_fits_def)

text \<open>Why output stopped: nothing left, the window is full, or the Nagle algorithm waits.\<close>

definition held_back :: "u32 \<Rightarrow> tcp_pcb \<Rightarrow> bool" where
  "held_back wnd pcb \<longleftrightarrow>
     (case unsent pcb of
        [] \<Rightarrow> True
      | s # _ \<Rightarrow> \<not> seqno s - lastack pcb + ucast (len s) \<le> wnd \<or>
          \<not> tcp_do_output_nagle pcb \<and> \<not> tcp_is_flag_set (TF_NAGLEMEMERR OR TF_FIN) pcb)"

definition snd_const where
  "snd_const pcb = (snd_lbb pcb, mss pcb, snd_wnd_max pcb, state pcb, lastack pcb)"

lemma snd_inv_head:
  assumes "snd_inv S q z pcb" "unsent pcb = s # segs"
  shows "\<exists>p \<ge> q. p + qlen s \<le> z \<and> seg_ok S p s"
proof -
  obtain Q where Q: "Q \<in> shuffles (unacked pcb) (s # segs)" "snd_segs S q Q z"
    using assms by (auto simp: snd_inv_def)
  then have "s \<in> set Q" by (auto simp: set_shuffles)
  then show ?thesis using snd_segs_mem [OF Q(2)] by blast
qed

lemma snd_inv_replace_head:
  assumes "snd_inv S q z pcb" "unsent pcb = s # segs" "same_stretch S s t" "slen t = slen s" "seg_p t = seg_p s"
  shows "snd_inv S q z (pcb\<lparr>unsent := t # segs\<rparr>)"
  using assms shuffles_replace [of _ "unacked pcb" s segs S q z t] by (auto simp: snd_inv_def)

lemma tcp_output_loop_ok:
  assumes "snd_inv S q z pcb" "unsent pcb = segs" "snd_at q z a n pcb" "T \<longrightarrow> tail_fits pcb"
  shows "\<exists>err pcb' e' n'. tcp_output_loop wnd netif segs pcb e = Some (err, pcb', e') \<and> snd_inv S q z pcb' \<and>
    n \<le> n' \<and> snd_at q z a n' pcb' \<and> (T \<longrightarrow> tail_fits pcb') \<and> snd_const pcb' = snd_const pcb \<and>
    (err = ERR_OK \<longrightarrow> held_back wnd pcb') \<and> (err \<noteq> ERR_OK \<longrightarrow> unsent pcb' \<noteq> []) \<and>
    (\<exists>ts. tx_log e' = tx_log e @ ts \<and> (\<forall>t \<in> set ts. tx_ok S q (a + unat wnd) t))"
  using assms
proof (induction segs arbitrary: pcb n e)
  case Nil
  then show ?case by (auto simp: held_back_def)
next
  case (Cons s segs)
  note at = Cons.prems(3) [unfolded snd_at_def]
  obtain p where p: "q \<le> p" "p + qlen s \<le> z" "seg_ok S p s" using snd_inv_head [OF Cons.prems(1,2)] by blast
  note ok = seg_okD [OF p(3)]
  show ?case
  proof (cases "seqno s - lastack pcb + ucast (len s) \<le> wnd \<and>
      \<not> (\<not> tcp_do_output_nagle pcb \<and> \<not> tcp_is_flag_set (TF_NAGLEMEMERR OR TF_FIN) pcb)")
    case False
    then have "held_back wnd pcb" using Cons.prems(2) by (auto simp: held_back_def)
    moreover have "tcp_output_loop wnd netif (s # segs) pcb e = Some (ERR_OK, pcb, e)"
      using False ok(6) by (auto simp: has_hdr_def)
    ultimately show ?thesis using Cons.prems by auto
  next
    case True
    define t where "t = (if state pcb \<noteq> SYN_SENT then s\<lparr>hdr := hdr s OR TCP_ACK\<rparr> else s)"
    have t: "same_stretch S s t" "seqno t = seqno s" "slen t = slen s" "seg_p t = seg_p s" "oversize_left t = oversize_left s"
        "seg_flags t = seg_flags s" "len t = len s"
      by (simp_all add: t_def same_stretch_sent)
    then have "seg_ok S p t" using p(3) by (simp add: same_stretch_def)
    have "p + slen s \<le> a + unat wnd"
      using True ok(1) at p snd_inv_short [OF Cons.prems(1)] by (intro window_limit) (simp_all add: qlen_def)
    then obtain err pcb1 e1 ts where out: "tcp_output_segment t (pcb\<lparr>unsent := t # segs\<rparr>) netif e = Some (err, pcb1, e1)"
        "snd_part pcb1 = snd_part (pcb\<lparr>unsent := t # segs\<rparr>)" "tx_log e1 = tx_log e @ ts"
        "\<forall>t \<in> set ts. tx_ok S q (a + unat wnd) t"
      using tcp_output_segment_ok [OF \<open>seg_ok S p t\<close> p(1)] t(3) by metis
    have inv1: "snd_inv S q z pcb1"
      using snd_inv_replace_head [OF Cons.prems(1,2) t(1,3,4)] snd_part_inv [OF out(2)] by simp
    have "snd_at q z a n (pcb\<lparr>unsent := t # segs\<rparr>)" using at by (simp add: snd_at_def)
    then have at1: "snd_at q z a n pcb1" using snd_part_at [OF out(2)] by simp
    have "T \<longrightarrow> tail_fits (pcb\<lparr>unsent := t # segs\<rparr>)"
      using Cons.prems(2,4) t tcp_mss_local_cong [of "pcb\<lparr>unsent := t # segs\<rparr>" pcb] by (auto simp: tail_fits_def)
    then have tail1: "T \<longrightarrow> tail_fits pcb1" using snd_part_tail [OF out(2)] by simp
    have unsent1: "unsent pcb1 = t # segs" and const1: "snd_const pcb1 = snd_const pcb"
      using out(2) by (simp_all add: snd_part_def snd_const_def)
    show ?thesis
    proof (cases "err = ERR_OK")
      case False
      then have run: "tcp_output_loop wnd netif (s # segs) pcb e = Some (err, tcp_set_flags TF_NAGLEMEMERR pcb1, e1)"
        using True ok(6) out(1) by (simp add: has_hdr_def t_def)
      have part: "snd_part (tcp_set_flags TF_NAGLEMEMERR pcb1) = snd_part pcb1" by (simp add: snd_part_simps)
      show ?thesis
        unfolding run using inv1 at1 tail1 const1 unsent1 False out(3,4) snd_part_inv [OF part] snd_part_at [OF part]
          snd_part_tail [OF part]
        by (intro exI [of _ err] exI [of _ "tcp_set_flags TF_NAGLEMEMERR pcb1"] exI [of _ e1] exI [of _ n])
          (auto simp: snd_const_def tcp_set_flags_def)
    next
      case True': True
      obtain pcb2 e2 where sent: "tcp_output_sent t segs pcb1 e1 = (pcb2, e2)" by fastforce
      note s2 = tcp_output_sent_ok [OF inv1 unsent1 at1 sent]
      obtain n' where n': "n \<le> n'" "snd_at q z a n' pcb2" using s2(2) by blast
      have tail2: "T \<longrightarrow> tail_fits pcb2"
        using tail1 unsent1 s2(4,5) tcp_mss_local_cong [OF s2(7,8)] by (auto simp: tail_fits_def)
      have run: "tcp_output_loop wnd netif (s # segs) pcb e = tcp_output_loop wnd netif segs pcb2 e1"
        using True True' ok(6) out(1) sent s2(3) by (auto simp: has_hdr_def t_def Let_def)
      have const2: "snd_const pcb2 = snd_const pcb" using const1 s2(6-10) by (simp add: snd_const_def)
      obtain err' pcb' e' m ts' where "tcp_output_loop wnd netif segs pcb2 e1 = Some (err', pcb', e')" "snd_inv S q z pcb'"
          "n' \<le> m" "snd_at q z a m pcb'" "T \<longrightarrow> tail_fits pcb'" "snd_const pcb' = snd_const pcb2"
          "err' = ERR_OK \<longrightarrow> held_back wnd pcb'" "err' \<noteq> ERR_OK \<longrightarrow> unsent pcb' \<noteq> []"
          "tx_log e' = tx_log e1 @ ts'" "\<forall>t \<in> set ts'. tx_ok S q (a + unat wnd) t"
        using Cons.IH [OF s2(1,4) n'(2) tail2, of e1] by blast
      then show ?thesis unfolding run using n'(1) out(3,4) const2
        by (intro exI [of _ err'] exI [of _ pcb'] exI [of _ e'] exI [of _ m]) auto
    qed
  qed
qed

lemma tcp_send_empty_ack_part:
  assumes "tcp_send_empty_ack pcb e = (err, pcb', e')"
  shows "snd_part pcb' = snd_part pcb" "\<exists>ts. tx_log e' = tx_log e @ ts \<and> (\<forall>t \<in> set ts. tx_data t = [] \<and> tx_seqno t = snd_nxt pcb \<and> tx_hdr t = TCP_ACK)"
  using assms
  by (auto simp: tcp_send_empty_ack_def tcp_output_control_segment_def tcp_output_alloc_header_def
      tcp_output_alloc_header_common_def snd_part_simps split: option.splits if_splits)

text \<open>What goes out: slices of the stream, and empty acknowledgements.\<close>

definition tx_sent :: "stream \<Rightarrow> nat \<Rightarrow> nat \<Rightarrow> tx_seg \<Rightarrow> bool" where
  "tx_sent S q lim t \<longleftrightarrow> tx_ok S q lim t \<or> (tx_data t = [] \<and> tx_hdr t = TCP_ACK)"

definition send_window :: "tcp_pcb \<Rightarrow> u32" where
  "send_window pcb = ucast (min (snd_wnd pcb) (cwnd pcb))"

lemma held_back_clear:
  assumes "held_back w p" "unsent p' = unsent p" "unacked p' = unacked p" "flags p' = flags p" "lastack p' = lastack p"
    "mss p' = mss p" "snd_buf p' = snd_buf p" "snd_queuelen p' = snd_queuelen p"
  shows "held_back w (tcp_clear_flags TF_NAGLEMEMERR p')"
proof -
  have "(flags p AND NOT TF_NAGLEMEMERR) AND (TF_NODELAY OR TF_INFR) = flags p AND (TF_NODELAY OR TF_INFR)"
    by (simp only: and.assoc) (simp add: tcp_pcb_flag_defs)
  moreover have "(flags p AND NOT TF_NAGLEMEMERR) AND (TF_NAGLEMEMERR OR TF_FIN) = 0" if "flags p AND (TF_NAGLEMEMERR OR TF_FIN) = 0"
    using that by (metis and.assoc and.commute and_zero_eq)
  ultimately show ?thesis
    using assms by (auto simp: held_back_def tcp_clear_flags_def tcp_is_flag_set_def tcp_do_output_nagle_def split: list.splits)
qed

definition tcp_output_quiet :: "tcp_pcb \<Rightarrow> tcp_env \<Rightarrow> (err_t \<times> tcp_pcb \<times> tcp_env) option" where
  "tcp_output_quiet pcb e =
     (if tcp_is_flag_set TF_ACK_NOW pcb then Some (tcp_send_empty_ack pcb e)
      else Some (ERR_OK, tcp_clear_flags TF_NAGLEMEMERR pcb, e))"

lemma tcp_output_quiet_ok:
  "\<exists>err pcb' e'. tcp_output_quiet pcb e = Some (err, pcb', e') \<and> snd_part pcb' = snd_part pcb \<and>
    (\<exists>ts. tx_log e' = tx_log e @ ts \<and> (\<forall>t \<in> set ts. tx_data t = [] \<and> tx_hdr t = TCP_ACK))"
proof (cases "tcp_is_flag_set TF_ACK_NOW pcb")
  case True
  obtain err pcb' e' where ack: "tcp_send_empty_ack pcb e = (err, pcb', e')" by (cases "tcp_send_empty_ack pcb e")
  show ?thesis using True ack tcp_send_empty_ack_part [OF ack]
    by (auto simp: tcp_output_quiet_def)
qed (simp add: tcp_output_quiet_def snd_part_simps)

lemma tcp_output_ok:
  assumes "snd_inv S q z pcb" and "snd_at q z a n pcb" and "state pcb \<noteq> LISTEN"
  shows "\<exists>err pcb' e' n'. tcp_output False pcb e = Some (err, pcb', e') \<and>
    snd_inv S q z pcb' \<and> n \<le> n' \<and> snd_at q z a n' pcb' \<and> (tail_fits pcb \<longrightarrow> tail_fits pcb') \<and>
    snd_lbb pcb' = snd_lbb pcb \<and> mss pcb' = mss pcb \<and> state pcb' = state pcb \<and>
    (\<exists>ts. tx_log e' = tx_log e @ ts \<and> (\<forall>t \<in> set ts. tx_sent S q (a + unat (send_window pcb)) t)) \<and>
    (err = ERR_OK \<longrightarrow> held_back (send_window pcb) pcb')"
proof -
  note at = assms(2) [unfolded snd_at_def]
  define w where "w = send_window pcb"
  have w: "ucast (min (snd_wnd pcb) (cwnd pcb)) = w" by (simp add: w_def send_window_def)
  have part: "\<exists>n' \<ge> n. snd_inv S q z p \<and> snd_at q z a n' p \<and> (tail_fits pcb \<longrightarrow> tail_fits p) \<and> snd_lbb p = snd_lbb pcb \<and>
      mss p = mss pcb \<and> state p = state pcb" if "snd_part p = snd_part pcb" for p
    using that assms snd_part_inv [OF that] snd_part_at [OF that] snd_part_tail [OF that]
    by (intro exI [of _ n]) (simp add: snd_part_def)
  have quiet: "?thesis" if run: "tcp_output False pcb e = tcp_output_quiet p e" and p: "snd_part p = snd_part pcb"
      and held: "\<And>p'. snd_part p' = snd_part pcb \<Longrightarrow> held_back w p'" for p
  proof -
    obtain err pcb' e' where "tcp_output_quiet p e = Some (err, pcb', e')" "snd_part pcb' = snd_part p"
        "\<exists>ts. tx_log e' = tx_log e @ ts \<and> (\<forall>t \<in> set ts. tx_data t = [] \<and> tx_hdr t = TCP_ACK)"
      using tcp_output_quiet_ok [of p e] by blast
    then show ?thesis
      unfolding run w_def [symmetric] tx_sent_def using part [of pcb'] p held [of pcb'] by auto
  qed
  have err: ?thesis if "tcp_output False pcb e = Some (err, p, e)" "snd_part p = snd_part pcb" "err \<noteq> ERR_OK" for err p
    unfolding that(1) using part [OF that(2)] that(3) by auto
  show ?thesis
  proof (cases "unsent pcb")
    case Nil
    have "tcp_output False pcb e = tcp_output_quiet pcb e"
      using assms(3) Nil by (simp add: tcp_output_def tcp_output_quiet_def Let_def)
    then show ?thesis by (rule quiet) (simp_all add: Nil snd_part_def held_back_def)
  next
    case (Cons s segs)
    show ?thesis
    proof (cases "tcp_route pcb (local_ip pcb) (remote_ip pcb) e")
      case None
      then have "tcp_output False pcb e = Some (ERR_RTE, pcb, e)" using assms(3) Cons by (simp add: tcp_output_def Let_def)
      then show ?thesis by (rule err) simp_all
    next
      case (Some netif)
      let ?ip = "if ip_addr_isany (local_ip pcb) then nif_local_ip netif (remote_ip pcb) else Some (local_ip pcb)"
      show ?thesis
      proof (cases ?ip)
        case None
        then have "tcp_output False pcb e = Some (ERR_RTE, pcb, e)"
          using assms(3) Cons Some by (simp add: tcp_output_def Let_def)
        then show ?thesis by (rule err) simp_all
      next
        case ip: (Some ip)
        let ?p = "pcb\<lparr>local_ip := ip\<rparr>"
        show ?thesis
        proof (cases "seqno s - lastack pcb + ucast (len s) > w")
          case True
          define p1 where "p1 = (if w = ucast (snd_wnd ?p) \<and> unacked ?p = [] \<and> persist_backoff ?p = 0
              then ?p\<lparr>persist_cnt := 0, persist_backoff := 1, persist_probe := 0\<rparr> else ?p)"
          have "snd_part p1 = snd_part pcb" by (simp add: p1_def snd_part_def)
          moreover have "tcp_output False pcb e = tcp_output_quiet p1 e"
            using assms(3) Cons Some ip True w by (simp add: tcp_output_def tcp_output_quiet_def Let_def p1_def)
          moreover have "held_back w p'" if "snd_part p' = snd_part pcb" for p'
            using that Cons True by (simp add: held_back_def snd_part_def not_le)
          ultimately show ?thesis by (intro quiet)
        next
          case False
          let ?p' = "?p\<lparr>persist_backoff := 0\<rparr>"
          have p': "snd_part ?p' = snd_part pcb" by (simp add: snd_part_def)
          have pre: "snd_inv S q z ?p'" "unsent ?p' = s # segs" "snd_at q z a n ?p'" "tail_fits pcb \<longrightarrow> tail_fits ?p'"
            using assms(1,2) Cons snd_part_inv [OF p'] snd_part_at [OF p'] snd_part_tail [OF p'] by simp_all
          obtain err p2 e2 n' ts where loop: "tcp_output_loop w netif (s # segs) ?p' e = Some (err, p2, e2)"
              "snd_inv S q z p2" "n \<le> n'" "snd_at q z a n' p2" "tail_fits pcb \<longrightarrow> tail_fits p2" "snd_const p2 = snd_const ?p'"
              "err = ERR_OK \<longrightarrow> held_back w p2"
              "tx_log e2 = tx_log e @ ts" "\<forall>t \<in> set ts. tx_ok S q (a + unat w) t"
            using tcp_output_loop_ok [OF pre, of w netif e] by blast
          define p3 where "p3 = (if err \<noteq> ERR_OK then p2
            else tcp_clear_flags TF_NAGLEMEMERR (if unsent p2 = [] then p2\<lparr>unsent_oversize := 0\<rparr> else p2))"
          have run: "tcp_output False pcb e = Some (err, p3, e2)"
            using assms(3) Cons Some ip False w loop(1) by (simp add: tcp_output_def Let_def p3_def)
          have p3: "snd_inv S q z p3" "snd_at q z a n' p3" "tail_fits pcb \<longrightarrow> tail_fits p3" "snd_const p3 = snd_const pcb"
            using loop(2,4-6) tcp_mss_local_cong [of p3 p2]
            by (auto simp: p3_def snd_inv_def snd_at_def tail_fits_def snd_const_def tcp_clear_flags_def)
          have "held_back w p3" if "err = ERR_OK"
          proof -
            have "held_back w p2" using loop(7) that by simp
            then show ?thesis using that held_back_clear [of w p2 "p2\<lparr>unsent_oversize := 0\<rparr>"] held_back_clear [of w p2 p2]
              by (simp add: p3_def)
          qed
          then show ?thesis
            unfolding run w_def [symmetric] using p3 loop(3,8,9)
            by (intro exI [of _ err] exI [of _ p3] exI [of _ e2] exI [of _ n']) (auto simp: snd_const_def tx_sent_def)
        qed
      qed
    qed
  qed
qed

text \<open>C18: output sends what was written, inside the window. \<^verbatim>\<open>tcp_output\<close> fails no assertion and keeps the
  send queue: every byte that is written and not acknowledged stays on exactly one of the two queues,
  whatever the IP layer answers. Each segment that goes out is empty or a slice of the stream of the
  sender that ends at most \<^verbatim>\<open>min(snd_wnd, cwnd)\<close> bytes behind \<^verbatim>\<open>lastack\<close>; \<^verbatim>\<open>snd_nxt\<close> never moves
  back or beyond the written bytes. When it reports success, nothing is left to send, or the next
  segment does not fit into the window, or the Nagle algorithm holds it back.\<close>

theorem tcp_output_sends_slices:
  assumes "snd_inv S q z pcb" and "snd_at q z a n pcb" and "state pcb \<noteq> LISTEN"
  shows "\<exists>err pcb' e' n'. tcp_output False pcb e = Some (err, pcb', e') \<and>
    snd_inv S q z pcb' \<and> n \<le> n' \<and> snd_at q z a n' pcb' \<and> (tail_fits pcb \<longrightarrow> tail_fits pcb') \<and>
    snd_lbb pcb' = snd_lbb pcb \<and> mss pcb' = mss pcb \<and> state pcb' = state pcb \<and>
    (\<exists>ts. tx_log e' = tx_log e @ ts \<and> (\<forall>t \<in> set ts. tx_sent S q (a + unat (send_window pcb)) t)) \<and>
    (err = ERR_OK \<longrightarrow> held_back (send_window pcb) pcb')"
  using assms by (rule tcp_output_ok)

text \<open>Instances: segments and connections of a small stream.\<close>

definition example_queue :: "nat \<Rightarrow> nat \<Rightarrow> nat \<Rightarrow> tcp_seg" where
  "example_queue q n free =
     (example_seg q n)\<lparr>seg_flags := TF_SEG_DATA_CHECKSUMMED, oversize_left := word_of_nat free\<rparr>"

definition example_snd :: "nat \<Rightarrow> nat \<Rightarrow> tcp_seg list \<Rightarrow> tcp_seg list \<Rightarrow> tcp_pcb" where
  "example_snd a z un us =
     (tcp_pcb_new 1 0 0)\<lparr>state := ESTABLISHED, lastack := sq a, snd_nxt := sq a, snd_lbb := sq z, snd_wnd := 3000,
       snd_wnd_max := 3000, cwnd := 3000, unacked := un, unsent := us, local_ip := IP_ADDR4 1,
       unsent_oversize := (if us = [] then 0 else oversize_left (last us)),
       snd_queuelen := word_of_nat (clens un + clens us), snd_buf := TCP_SND_BUF - word_of_nat (slens un + slens us)\<rparr>"

lemma example_queue_ok:
  assumes "0 < n" "n < 65536"
  shows "seg_ok example_stream q (example_queue q n free)" "qlen (example_queue q n free) = n"
    "slen (example_queue q n free) = n" "length (seg_p (example_queue q n free)) = 1"
proof -
  note s = example_seg_at [OF assms, of q]
  have h: "\<not> has_hdr TCP_FIN (example_queue q n free)" "\<not> has_hdr TCP_SYN (example_queue q n free)"
      "\<not> has_hdr TCP_RST (example_queue q n free)"
    by (simp_all add: has_hdr_def example_queue_def example_seg_def tcp_hdr_flag_defs)
  show l: "slen (example_queue q n free) = n" using s(3) by (simp add: example_queue_def)
  show q: "qlen (example_queue q n free) = n" using h l by (simp add: qlen_def)
  show "length (seg_p (example_queue q n free)) = 1" by (simp add: example_queue_def example_seg_def)
  show "seg_ok example_stream q (example_queue q n free)"
    unfolding seg_ok_def l q using h assms(1)
    by (simp add: example_queue_def example_seg_def example_stream_def TF_SEG_DATA_CHECKSUMMED_def)
qed

lemma example_snd_ok:
  fixes a q n free :: nat
  assumes "0 < n" "n + free \<le> 536"
  defines "pcb \<equiv> example_snd a (q + n) [] [example_queue q n free]"
  shows "snd_segs example_stream q (unacked pcb @ unsent pcb) (q + n)" "snd_inv example_stream q (q + n) pcb" "tail_fits pcb"
proof -
  have n: "n < 65536" "n < 23360" using assms(2) by simp_all
  note s = example_queue_ok [OF assms(1) n(1), of q free]
  have segs: "unacked pcb = []" "unsent pcb = [example_queue q n free]" by (simp_all add: pcb_def example_snd_def)
  show "snd_segs example_stream q (unacked pcb @ unsent pcb) (q + n)" using s(1,2) segs by simp
  have "unat (word_of_nat n :: u16) = n" using n(1) by (simp add: unat_of_nat16)
  then have "unat (23360 - word_of_nat n :: u16) = 23360 - n" using n(2) by (simp add: unat_sub word_le_nat_alt)
  then show "snd_inv example_stream q (q + n) pcb"
    using s n(2) by (simp add: snd_inv_def pcb_def example_snd_def TCP_SND_BUF_def)
  have "tcp_mss_local pcb = 536"
    by (simp add: pcb_def example_snd_def tcp_mss_local_def tcp_pcb_new_def INITIAL_MSS_def)
  moreover have "unsent_oversize pcb = word_of_nat free" "oversize_left (example_queue q n free) = word_of_nat free"
      "LWIP_TCP_OPT_LENGTH (seg_flags (example_queue q n free)) = 0"
    by (simp_all add: pcb_def example_snd_def example_queue_def LWIP_TCP_OPT_LENGTH_def TF_SEG_DATA_CHECKSUMMED_def TF_SEG_OPTS_MSS_def)
  ultimately show "tail_fits pcb" using segs s(3) assms(2) by (simp add: tail_fits_def unat_of_nat16)
qed

theorem tcp_output_sends_slices_witness:
  defines "pcb \<equiv> example_snd 1000 1010 [] [example_queue 1000 10 4]"
  shows "\<exists>err pcb' e' n'. tcp_output False pcb example_env = Some (err, pcb', e') \<and>
    snd_inv example_stream 1000 1010 pcb' \<and> 1000 \<le> n' \<and> snd_at 1000 1010 1000 n' pcb' \<and> (tail_fits pcb \<longrightarrow> tail_fits pcb') \<and>
    snd_lbb pcb' = snd_lbb pcb \<and> mss pcb' = mss pcb \<and> state pcb' = state pcb \<and>
    (\<exists>ts. tx_log e' = tx_log example_env @ ts \<and>
      (\<forall>t \<in> set ts. tx_sent example_stream 1000 (1000 + unat (send_window pcb)) t)) \<and>
    (err = ERR_OK \<longrightarrow> held_back (send_window pcb) pcb')"
proof (rule tcp_output_sends_slices)
  show "snd_inv example_stream 1000 1010 pcb"
    using example_snd_ok [where n = 10 and free = 4 and q = 1000 and a = 1000] by (simp_all add: pcb_def)
  show "snd_at 1000 1010 1000 1000 pcb" "state pcb \<noteq> LISTEN"
    by (simp_all add: snd_at_def pcb_def example_snd_def)
qed

end
