(* ===== verification/Tcp_Write.thy ===== *)
theory Tcp_Write
  imports Tcp_Send_Queue
begin

text \<open>
  The correctness of \<^verbatim>\<open>tcp_write\<close>: it appends the bytes to the send queue or changes nothing. The
  hypotheses that this needs are shown to be necessary: the last unsent segment has to be the last
  of the queue, and the segment size must not have shrunk.
\<close>

lemma tcp_pbuf_prealloc_ok:
  assumes "tcp_pbuf_prealloc k m pcb apiflags first e = (ov, e')" "k \<le> m"
  shows "tcp_seg_pool e' = tcp_seg_pool e" "tx_log e' = tx_log e" "ov = Some o' \<Longrightarrow> k + o' \<le> m"
  using assms by (auto simp: tcp_pbuf_prealloc_def pbuf_alloc_data_def Let_def split: if_splits)

lemma tcp_create_segment_ok:
  assumes "tcp_create_segment p hd_fl sno fl e = (r, e')"
  shows "tx_log e' = tx_log e" "r = None \<Longrightarrow> e' = e"
    "r = Some seg \<Longrightarrow> tcp_seg_pool e' + 1 = tcp_seg_pool e \<and>
       seg = \<lparr>seqno = sno, len = word_of_nat (tot_len p), hdr = hd_fl, seg_flags = fl, seg_p = p, p_ref = 1, oversize_left = 0\<rparr>"
  using assms by (auto simp: tcp_create_segment_def split: if_splits)

text \<open>The end of a queue of new segments: the free bytes of its last segment.\<close>

definition queue_tail :: "nat \<Rightarrow> nat \<Rightarrow> tcp_seg list \<Rightarrow> bool" where
  "queue_tail m oversize queue \<longleftrightarrow>
     queue \<noteq> [] \<longrightarrow>
       oversize_left (last queue) = word_of_nat oversize \<and> slen (last queue) + oversize \<le> m \<and>
       LWIP_TCP_OPT_LENGTH (seg_flags (last queue)) = 0"

lemma checksummed_flag:
  "(f OR TF_SEG_DATA_CHECKSUMMED) AND TF_SEG_DATA_CHECKSUMMED \<noteq> 0"
  "LWIP_TCP_OPT_LENGTH (f OR TF_SEG_DATA_CHECKSUMMED) = LWIP_TCP_OPT_LENGTH f"
proof -
  have e: "TF_SEG_DATA_CHECKSUMMED = 2 ^ 2" "TF_SEG_OPTS_MSS = 2 ^ 0"
    by (simp_all add: TF_SEG_DATA_CHECKSUMMED_def TF_SEG_OPTS_MSS_def)
  show "(f OR TF_SEG_DATA_CHECKSUMMED) AND TF_SEG_DATA_CHECKSUMMED \<noteq> 0"
    unfolding e and_exp_eq_0_iff_not_bit by (simp add: bit_or_iff bit_exp_iff possible_bit_def)
  show "LWIP_TCP_OPT_LENGTH (f OR TF_SEG_DATA_CHECKSUMMED) = LWIP_TCP_OPT_LENGTH f"
    unfolding LWIP_TCP_OPT_LENGTH_def e and_exp_eq_0_iff_not_bit by (simp add: bit_or_iff bit_exp_iff)
qed

lemma new_data_segment:
  assumes "d = map (byte_at S) [p ..< p + length d]" "d \<noteq> []" "length d < 65536"
    "\<And>f. fin_at S = Some f \<Longrightarrow> p + length d \<le> f"
    "s = \<lparr>seqno = sq p, len = word_of_nat (length d), hdr = 0, seg_flags = fl OR TF_SEG_DATA_CHECKSUMMED, seg_p = [d],
        p_ref = 1, oversize_left = ov\<rparr>"
  shows "seg_ok S p s" "qlen s = length d" "slen s = length d"
proof -
  have h: "\<not> has_hdr f s" for f by (simp add: has_hdr_def assms(5))
  show l: "slen s = length d" using assms(3) by (simp add: assms(5) unat_of_nat16)
  show q: "qlen s = length d" by (simp add: qlen_def h l)
  show "seg_ok S p s"
    unfolding seg_ok_def q l using h assms(1,2,4) checksummed_flag(1) by (simp add: assms(5))
qed

lemma tcp_write_segments_ok:
  assumes "0 < m" "m < 65536" "rest = map (byte_at S) [p ..< p + length rest]"
    "\<And>f. fin_at S = Some f \<Longrightarrow> p + length rest \<le> f" "snd_lbb pcb = sq z" "p = z + pos" "snd_segs S p0 queue p"
    "rest \<noteq> [] \<Longrightarrow> unat queuelen \<le> 64" "queue_tail m oversize queue"
  shows "\<exists>ok queue' queuelen' oversize' e'.
    tcp_write_segments pcb m apiflags pos rest queue queuelen oversize e = Some (ok, queue', queuelen', oversize', e') \<and>
    tx_log e' = tx_log e \<and> tcp_seg_pool e' + length queue' = tcp_seg_pool e + length queue \<and>
    (ok \<longrightarrow> snd_segs S p0 queue' (p + length rest) \<and> queue_tail m oversize' queue' \<and>
      slens queue' = slens queue + length rest \<and> unat queuelen' + clens queue = unat queuelen + clens queue' \<and>
      (rest = [] \<longrightarrow> queue' = queue \<and> oversize' = oversize) \<and> (rest \<noteq> [] \<longrightarrow> queue' \<noteq> []))"
  using assms(3-9)
proof (induction "length rest" arbitrary: rest p pos queue queuelen oversize e rule: less_induct)
  case less
  note run = tcp_write_segments.simps [of pcb m apiflags pos rest queue queuelen oversize e]
  show ?case
  proof (cases "rest = []")
    case True
    then have "tcp_write_segments pcb m apiflags pos rest queue queuelen oversize e = Some (True, queue, queuelen, oversize, e)"
      using run by simp
    then show ?thesis using less.prems True by auto
  next
    case False
    define k where "k = min (length rest) m"
    have k: "0 < k" "k \<le> m" "k \<le> length rest" using False assms(1) by (auto simp: k_def)
    obtain ov e1 where pre: "tcp_pbuf_prealloc k m pcb apiflags (queue = []) e = (ov, e1)" by fastforce
    note pre_ok = tcp_pbuf_prealloc_ok [OF pre k(2)]
    show ?thesis
    proof (cases ov)
      case None
      then show ?thesis using False pre pre_ok(1,2) by (auto simp: run k_def [symmetric] Let_def)
    next
      case (Some ov')
      note o' = pre_ok(3) [OF Some]
      show ?thesis
      proof (cases "queuelen + 1 > TCP_SND_QUEUELEN")
        case True
        then show ?thesis using False pre Some pre_ok(1,2) by (auto simp: run k_def [symmetric] Let_def)
      next
        case small: False
        obtain r e2 where create: "tcp_create_segment [take k rest] 0 (snd_lbb pcb + word_of_nat pos) 0 e1 = (r, e2)"
          by fastforce
        note create_ok = tcp_create_segment_ok [OF create]
        show ?thesis
        proof (cases r)
          case None
          then show ?thesis
            using False pre Some small create create_ok(1,2) pre_ok(1,2) by (auto simp: run k_def [symmetric] Let_def)
        next
          case seg: (Some s)
          let ?s = "s\<lparr>oversize_left := word_of_nat ov', seg_flags := seg_flags s OR TF_SEG_DATA_CHECKSUMMED\<rparr>"
          let ?rest = "drop k rest" and ?queue = "queue @ [?s]"
          have len_k: "length (take k rest) = k" using k(3) by simp
          have bytes: "take k rest = map (byte_at S) [p ..< p + k]" "?rest = map (byte_at S) [p + k ..< p + k + length ?rest]"
            using less.prems(1) k(3) by (metis add.commute take_map take_upt add_le_cancel_left,
              metis add.assoc drop_map drop_upt length_drop le_add_diff_inverse k(3))
          have s: "?s = \<lparr>seqno = sq p, len = word_of_nat (length (take k rest)), hdr = 0,
              seg_flags = 0 OR TF_SEG_DATA_CHECKSUMMED, seg_p = [take k rest], p_ref = 1, oversize_left = word_of_nat ov'\<rparr>"
            using create_ok(3) [OF seg] less.prems(3,4) by (simp add: tot_len_def)
          have fin: "fin_at S = Some f \<Longrightarrow> p + length (take k rest) \<le> f" for f
            using less.prems(2) [of f] k(3) by simp
          have "take k rest \<noteq> []" "length (take k rest) < 65536" using k False assms(2) by auto
          note new = new_data_segment [OF _ this fin s]
          have bytes': "take k rest = map (byte_at S) [p ..< p + length (take k rest)]" using bytes(1) len_k by simp
          note new' = new [OF bytes', unfolded len_k]
          have segs: "snd_segs S p0 ?queue (p + k)" using less.prems(5) new' by (simp add: snd_segs_append)
          have ql: "unat (queuelen + 1) = unat queuelen + 1" "unat (queuelen + 1) \<le> 64"
            using less.prems(6) [OF False] small by (simp_all add: unat_word_ariths TCP_SND_QUEUELEN_def word_less_nat_alt)
          have tail: "queue_tail m ov' ?queue"
            using o' new'(3) checksummed_flag(2) [of 0] s by (simp add: queue_tail_def LWIP_TCP_OPT_LENGTH_def)
          have shorter: "length ?rest < length rest" "p + k = z + (pos + k)" using k less.prems(4) by simp_all
          have fin': "\<And>f. fin_at S = Some f \<Longrightarrow> p + k + length ?rest \<le> f" using less.prems(2) k(3) by simp
          obtain ok q' ql' o'' e' where rec:
              "tcp_write_segments pcb m apiflags (pos + k) ?rest ?queue (queuelen + 1) ov' e2 = Some (ok, q', ql', o'', e')"
              "tx_log e' = tx_log e2" "tcp_seg_pool e' + length q' = tcp_seg_pool e2 + length ?queue"
              "ok \<longrightarrow> snd_segs S p0 q' (p + k + length ?rest) \<and> queue_tail m o'' q' \<and>
                slens q' = slens ?queue + length ?rest \<and> unat ql' + clens ?queue = unat (queuelen + 1) + clens q' \<and>
                (?rest = [] \<longrightarrow> q' = ?queue \<and> o'' = ov') \<and> (?rest \<noteq> [] \<longrightarrow> q' \<noteq> [])"
            using less.hyps [OF shorter(1) bytes(2) fin' less.prems(3) shorter(2) segs _ tail, of "queuelen + 1" e2] ql(2) by blast
          have "tcp_write_segments pcb m apiflags pos rest queue queuelen oversize e = Some (ok, q', ql', o'', e')"
            using False pre Some small create seg rec(1) by (auto simp: run k_def [symmetric] Let_def)
          moreover have "length (seg_p ?s) = 1" using s by simp
          ultimately show ?thesis
            using rec(2-4) pre_ok(1,2) create_ok(1) create_ok(3) [OF seg] new'(3) ql(1) k False by auto
        qed
      qed
    qed
  qed
qed

section \<open>Extending the last segment\<close>

lemma slice_append: "p \<le> q \<Longrightarrow> q \<le> r \<Longrightarrow> map f [p ..< q] @ map f [q ..< r] = map f [p ..< r]"
  by (metis le_add_diff_inverse map_append upt_add_eq_append)

lemma seg_extend:
  assumes "seg_ok S p s" "\<not> has_hdr TCP_FIN s" "\<not> has_hdr TCP_SYN s"
    "d = map (byte_at S) [p + slen s ..< p + slen s + length d]" "slen s + length d < 65536"
    "\<And>f. fin_at S = Some f \<Longrightarrow> p + slen s + length d \<le> f"
    "concat (seg_p t) = concat (seg_p s) @ d" "seg_p t \<noteq> []" "len t = len s + word_of_nat (length d)" "hdr t = hdr s"
    "seqno t = seqno s" "p_ref t = p_ref s" "seg_flags t = seg_flags s OR TF_SEG_DATA_CHECKSUMMED"
  shows "seg_ok S p t" "slen t = slen s + length d" "qlen t = qlen s + length d"
    "LWIP_TCP_OPT_LENGTH (seg_flags t) = LWIP_TCP_OPT_LENGTH (seg_flags s)"
proof -
  note s = seg_okD [OF assms(1)]
  have h: "has_hdr f t = has_hdr f s" for f by (simp add: has_hdr_def assms(10))
  have "unat (word_of_nat (length d) :: u16) = length d" using assms(5) by (simp add: unat_of_nat16)
  then show l: "slen t = slen s + length d"
    unfolding assms(9) using assms(5) by (subst unat_add_no_wrap) simp_all
  show q: "qlen t = qlen s + length d" using assms(2,3) by (simp add: qlen_def h l)
  have "concat (seg_p t) = map (byte_at S) [p ..< p + slen t]"
    unfolding assms(7) l s(2) by (subst assms(4)) (simp add: slice_append add.assoc [symmetric])
  then show "seg_ok S p t"
    using assms s(1,4-6) h l q checksummed_flag(1) by (simp add: seg_ok_def add.assoc)
  show "LWIP_TCP_OPT_LENGTH (seg_flags t) = LWIP_TCP_OPT_LENGTH (seg_flags s)"
    by (simp add: assms(13) checksummed_flag(2))
qed

text \<open>The commit on the last segment: some bytes behind its last pbuf, and a new pbuf.\<close>

lemma tcp_write_commit_tail_ok:
  assumes "seg_ok S p s" "filled @ added = map (byte_at S) [p + slen s ..< p + slen s + length filled + length added]"
    "filled @ added \<noteq> [] \<Longrightarrow> \<not> has_hdr TCP_FIN s \<and> \<not> has_hdr TCP_SYN s"
    "\<And>f. fin_at S = Some f \<Longrightarrow> p + slen s + length filled + length added \<le> f"
    "slen s + length filled + length added < 65536" "unat (oversize_left s) = o1" "length filled \<le> o1 + o2"
    "o1 + o2 < 65536" "has_hdr TCP_SYN s \<Longrightarrow> o2 = 0"
  shows "\<exists>t. tcp_write_commit_tail filled added o2 s = Some t \<and> seg_ok S p t \<and>
    slen t = slen s + length filled + length added \<and> qlen t = qlen s + length filled + length added \<and>
    length (seg_p t) = length (seg_p s) + (if added = [] then 0 else 1) \<and>
    unat (oversize_left t) = o1 + o2 - length filled \<and>
    LWIP_TCP_OPT_LENGTH (seg_flags t) = LWIP_TCP_OPT_LENGTH (seg_flags s)"
proof -
  define s1 where "s1 = s\<lparr>oversize_left := oversize_left s + word_of_nat o2\<rparr>"
  have o: "unat (oversize_left s1) = o1 + o2"
  proof -
    have "unat (word_of_nat o2 :: u16) = o2" using assms(8) by (simp add: unat_of_nat16)
    then show ?thesis using assms(6,8) by (simp add: s1_def unat_add_no_wrap)
  qed
  have h: "has_hdr f s1 = has_hdr f s" for f by (simp add: s1_def)
  have s1: "slen s1 = slen s" "qlen s1 = qlen s" "seg_p s1 = seg_p s" "seg_flags s1 = seg_flags s" "seqno s1 = seqno s"
    by (simp_all add: s1_def qlen_def)
  have ok1: "seg_ok S p s1" using assms(1,9) by (auto simp: seg_ok_def s1_def qlen_def)
  define s2 where "s2 = (if filled \<noteq> [] then seg_fill_tail filled s1 else s1)"
  have bytes: "filled = map (byte_at S) [p + slen s ..< p + slen s + length filled]"
      "added = map (byte_at S) [p + slen s + length filled ..< p + slen s + length filled + length added]"
    using arg_cong [OF assms(2), of "take (length filled)"] arg_cong [OF assms(2), of "drop (length filled)"]
    by (simp_all add: take_map drop_map)
  have ok2: "seg_ok S p s2 \<and> slen s2 = slen s + length filled \<and> qlen s2 = qlen s + length filled \<and>
      length (seg_p s2) = length (seg_p s) \<and> unat (oversize_left s2) = o1 + o2 - length filled \<and>
      LWIP_TCP_OPT_LENGTH (seg_flags s2) = LWIP_TCP_OPT_LENGTH (seg_flags s) \<and> (\<forall>f. has_hdr f s2 = has_hdr f s)"
  proof (cases "filled = []")
    case True
    then show ?thesis using ok1 s1 o h by (simp add: s2_def)
  next
    case False
    have ne: "seg_p s1 \<noteq> []" by (rule seg_okD(3) [OF ok1])
    then have c: "concat (butlast (seg_p s1) @ [last (seg_p s1) @ filled]) = concat (seg_p s1) @ filled"
      by (cases "seg_p s1" rule: rev_cases) simp_all
    have b: "filled = map (byte_at S) [p + slen s1 ..< p + slen s1 + length filled]" using bytes(1) s1 by simp
    have fin: "fin_at S = Some f \<Longrightarrow> p + slen s1 + length filled \<le> f" for f using assms(4) [of f] s1 by simp
    have "unat (word_of_nat (length filled) :: u16) = length filled" using assms(5) by (simp add: unat_of_nat16)
    then have sub: "unat (oversize_left s1 - word_of_nat (length filled)) = o1 + o2 - length filled"
      using o assms(7) by (simp add: unat_sub word_le_nat_alt)
    have fl: "\<not> has_hdr TCP_FIN s1" "\<not> has_hdr TCP_SYN s1" using False assms(3) h by auto
    have room: "slen s1 + length filled < 65536" using assms(5) s1 by simp
    have t: "concat (seg_p s2) = concat (seg_p s1) @ filled" "seg_p s2 \<noteq> []"
        "len s2 = len s1 + word_of_nat (length filled)" "hdr s2 = hdr s1" "seqno s2 = seqno s1" "p_ref s2 = p_ref s1"
        "seg_flags s2 = seg_flags s1 OR TF_SEG_DATA_CHECKSUMMED" "length (seg_p s2) = length (seg_p s1)"
        "oversize_left s2 = oversize_left s1 - word_of_nat (length filled)"
      using False c ne by (simp_all add: s2_def seg_fill_tail_def)
    have "has_hdr f s2 = has_hdr f s" for f using h t(4) by (simp add: has_hdr_def)
    then show ?thesis using seg_extend [OF ok1 fl b room fin t(1-7)] s1 sub t(8,9) by simp
  qed
  define t where "t = (if added \<noteq> [] then seg_add_pbuf added s2 else s2)"
  have run: "tcp_write_commit_tail filled added o2 s = Some t"
    using o assms(7) by (simp add: tcp_write_commit_tail_def Let_def s1_def [symmetric] s2_def [symmetric] t_def)
  show ?thesis
  proof (cases "added = []")
    case True
    then show ?thesis using run ok2 by (simp add: t_def)
  next
    case False
    have b: "added = map (byte_at S) [p + slen s2 ..< p + slen s2 + length added]" using bytes(2) ok2 by (simp add: add.assoc)
    have fin: "fin_at S = Some f \<Longrightarrow> p + slen s2 + length added \<le> f" for f using assms(4) [of f] ok2 by simp
    have fl: "\<not> has_hdr TCP_FIN s2" "\<not> has_hdr TCP_SYN s2" using False assms(3) ok2 by auto
    have room: "slen s2 + length added < 65536" using assms(5) ok2 by simp
    have t: "concat (seg_p t) = concat (seg_p s2) @ added" "seg_p t \<noteq> []" "len t = len s2 + word_of_nat (length added)"
        "hdr t = hdr s2" "seqno t = seqno s2" "p_ref t = p_ref s2" "seg_flags t = seg_flags s2 OR TF_SEG_DATA_CHECKSUMMED"
        "length (seg_p t) = length (seg_p s2) + 1" "oversize_left t = oversize_left s2"
      using False by (simp_all add: t_def seg_add_pbuf_def)
    show ?thesis using seg_extend [OF conjunct1 [OF ok2] fl b room fin t(1-7)] run ok2 t(8,9) False by simp
  qed
qed

definition tail_result_ok where
  "tail_result_ok S p s m pcb buf r \<longleftrightarrow>
     (case r of None \<Rightarrow> True
      | Some (used, added, queuelen, oversize, oversize_add) \<Rightarrow>
          used + length added \<le> length buf \<and> added = take (length added) (drop used buf) \<and>
          unat queuelen = unat (snd_queuelen pcb) + (if added = [] then 0 else 1) \<and> oversize \<le> m \<and>
          (\<exists>t. tcp_write_commit_tail (take used buf) added oversize_add s = Some t \<and> seg_ok S p t \<and>
            slen t = slen s + used + length added \<and> qlen t = qlen s + used + length added \<and>
            length (seg_p t) = length (seg_p s) + (if added = [] then 0 else 1) \<and>
            (used + length added = length buf \<longrightarrow>
              oversize_left t = word_of_nat oversize \<and>
              slen t + LWIP_TCP_OPT_LENGTH (seg_flags t) + oversize \<le> m)))"

lemma tcp_write_tail_ok:
  assumes "seg_ok S p s" "p + qlen s = z" "unsent_oversize pcb = oversize_left s"
    "slen s + LWIP_TCP_OPT_LENGTH (seg_flags s) + unat (unsent_oversize pcb) \<le> m" "m < 65536"
    "buf = map (byte_at S) [z ..< z + length buf]" "\<And>f. fin_at S = Some f \<Longrightarrow> z + length buf \<le> f"
    "buf \<noteq> [] \<Longrightarrow> unat (snd_queuelen pcb) < 64"
  shows "\<exists>r e'. tcp_write_tail pcb s m buf apiflags e = Some (r, e') \<and> tx_log e' = tx_log e \<and>
    tcp_seg_pool e' = tcp_seg_pool e \<and> tail_result_ok S p s m pcb buf r"
proof -
  note s = seg_okD [OF assms(1)]
  have fin: "\<not> has_hdr TCP_FIN s" using s(7) assms(2) assms(7) [of "p + slen s"] by (auto simp: qlen_def)
  define o1 where "o1 = unat (oversize_left s)"
  let ?opt = "LWIP_TCP_OPT_LENGTH (seg_flags s)"
  let ?used = "min o1 (length buf)"
  have room: "slen s + ?opt + o1 \<le> m" using assms(3,4) by (simp add: o1_def)
  have syn: "slen s = 0 \<and> o1 = 0" if "has_hdr TCP_SYN s" using that assms(1) by (simp add: seg_ok_def o1_def)
  have z: "z = p + slen s" if "\<not> has_hdr TCP_SYN s" using that fin assms(2) by (simp add: qlen_def)
  have commit: "\<exists>t. tcp_write_commit_tail (take ?used buf) added o2 s = Some t \<and> seg_ok S p t \<and>
        slen t = slen s + ?used + length added \<and> qlen t = qlen s + ?used + length added \<and>
        length (seg_p t) = length (seg_p s) + (if added = [] then 0 else 1) \<and>
        unat (oversize_left t) = o1 + o2 - ?used \<and> LWIP_TCP_OPT_LENGTH (seg_flags t) = ?opt"
      if added: "added = take k (drop ?used buf)" "length added = k" and o2: "has_hdr TCP_SYN s \<Longrightarrow> o2 = 0 \<and> k = 0"
        "slen s + ?used + k + o2 \<le> m" "o1 + o2 < 65536" for added k o2
  proof -
    have all: "take ?used buf @ added = take (?used + k) buf" unfolding added(1) by (simp add: take_add)
    have len: "length (take ?used buf) = ?used" "?used + k \<le> length buf" using added by auto
    have "take (?used + k) buf = map (byte_at S) [z ..< z + (?used + k)]"
      using len(2) by (subst assms(6)) (simp add: take_map)
    moreover have "map (byte_at S) [z ..< z + (?used + k)] = map (byte_at S) [p + slen s ..< p + slen s + (?used + k)]"
      using z o2(1) syn by (cases "has_hdr TCP_SYN s") simp_all
    ultimately have bytes: "take ?used buf @ added =
        map (byte_at S) [p + slen s ..< p + slen s + length (take ?used buf) + length added]"
      unfolding all using len added(2) by (simp add: add.assoc)
    have "take ?used buf @ added \<noteq> [] \<Longrightarrow> \<not> has_hdr TCP_FIN s \<and> \<not> has_hdr TCP_SYN s"
      using fin syn o2(1) len added by auto
    moreover have "p + slen s + length (take ?used buf) + length added \<le> f" if "fin_at S = Some f" for f
      using assms(7) [OF that] len added(2) assms(2) by (simp add: qlen_def split: if_splits)
    ultimately show ?thesis
      using tcp_write_commit_tail_ok [OF assms(1) bytes _ _ _ o1_def [symmetric], of o2] o2 len added(2) assms(5)
      by auto
  qed
  define sp where "sp = m - (slen s + ?opt)"
  define used where "used = ?used"
  have used: "min sp (min o1 (length buf)) = used" "o1 - used = 0 \<or> used = length buf" "used \<le> length buf" "used \<le> o1" "o1 \<le> sp"
    using room by (auto simp: used_def sp_def)
  have unfold: "tcp_write_tail pcb s m buf apiflags e =
     (if used < length buf \<and> sp - used > 0 \<and> len s > 0 then
       (let seglen = min (sp - used) (length buf - used)
        in case tcp_pbuf_prealloc seglen (sp - used) pcb apiflags True e of
             (None, e) \<Rightarrow> Some (None, e)
           | (Some oversize, e) \<Rightarrow>
               Some (Some (used, take seglen (drop used buf), snd_queuelen pcb + 1, oversize, oversize), e))
     else Some (Some (used, [], snd_queuelen pcb, o1 - used, 0), e))"
    unfolding tcp_write_tail_def Let_def o1_def [symmetric] assms(3) sp_def [symmetric] used(1)
    using room used by simp
  show ?thesis
  proof (cases "used < length buf \<and> sp - used > 0 \<and> len s > 0")
    case False
    have "slen s + ?used \<le> m" "o1 < 65536" using room assms(5) by auto
    then obtain t where "tcp_write_commit_tail (take used buf) [] 0 s = Some t" "seg_ok S p t" "slen t = slen s + used"
        "qlen t = qlen s + used" "length (seg_p t) = length (seg_p s)" "unat (oversize_left t) = o1 - used"
        "LWIP_TCP_OPT_LENGTH (seg_flags t) = ?opt"
      using commit [of "[]" 0 0] by (auto simp: used_def)
    moreover from this(6) have "oversize_left t = word_of_nat (o1 - used)" by (metis of_nat_unat ucast_id)
    moreover have "tcp_write_tail pcb s m buf apiflags e = Some (Some (used, [], snd_queuelen pcb, o1 - used, 0), e)"
      by (rule trans [OF unfold if_not_P [OF False]])
    ultimately show ?thesis using room used by (simp add: tail_result_ok_def)
  next
    case True
    define k where "k = min (sp - used) (length buf - used)"
    have k: "0 < k" "k \<le> sp - used" "k \<le> length buf - used" using True by (auto simp: k_def)
    have nosyn: "\<not> has_hdr TCP_SYN s" using True syn by (auto simp: word_less_nat_alt)
    have full: "used = o1" using used True by auto
    obtain r e1 where pre: "tcp_pbuf_prealloc k (sp - used) pcb apiflags True e = (r, e1)" by fastforce
    note pre_ok = tcp_pbuf_prealloc_ok [OF pre k(2)]
    have unfold': "tcp_write_tail pcb s m buf apiflags e =
        (case r of None \<Rightarrow> Some (None, e1)
         | Some oversize \<Rightarrow> Some (Some (used, take k (drop used buf), snd_queuelen pcb + 1, oversize, oversize), e1))"
      unfolding unfold if_P [OF True] Let_def k_def [symmetric] pre by simp
    show ?thesis
    proof (cases r)
      case None
      then show ?thesis using unfold' pre_ok(1,2) by (simp add: tail_result_ok_def)
    next
      case (Some o2)
      have len: "length (take k (drop used buf)) = k" using k(3) by simp
      have o2: "k + o2 \<le> sp - used" by (rule pre_ok(3) [OF Some])
      have "slen s + used + k + o2 \<le> m" "o1 + o2 < 65536" using o2 used full assms(5) k room by (auto simp: sp_def)
      then obtain t where t: "tcp_write_commit_tail (take used buf) (take k (drop used buf)) o2 s = Some t" "seg_ok S p t"
          "slen t = slen s + used + k" "qlen t = qlen s + used + k"
          "length (seg_p t) = length (seg_p s) + (if take k (drop used buf) = [] then 0 else 1)"
          "unat (oversize_left t) = o1 + o2 - used" "LWIP_TCP_OPT_LENGTH (seg_flags t) = ?opt"
        using commit [of "take k (drop used buf)" k o2] len nosyn by (auto simp: used_def)
      have ov: "oversize_left t = word_of_nat o2" using t(6) full by (metis add_diff_cancel_left' of_nat_unat ucast_id)
      have "buf \<noteq> []" using True by auto
      then have "unat (snd_queuelen pcb + 1) = unat (snd_queuelen pcb) + 1" using assms(8) by (simp add: unat_word_ariths)
      moreover have "take k (drop used buf) \<noteq> []" using len k(1) by (metis less_numeral_extra(3) list.size(3))
      moreover have "slen t + LWIP_TCP_OPT_LENGTH (seg_flags t) + o2 \<le> m" using t(3,7) o2 k True by (simp add: sp_def)
      moreover have "o2 \<le> m" using o2 by (simp add: sp_def)
      moreover have "used + k \<le> length buf" using k(3) used(3) by simp
      ultimately show ?thesis
        using unfold' Some pre_ok(1,2) t len ov by (simp add: tail_result_ok_def)
    qed
  qed
qed


section \<open>Appending or nothing\<close>

text \<open>The last unsent segment ends at the next byte that is written.\<close>

definition tail_ends :: "tcp_pcb \<Rightarrow> bool" where
  "tail_ends pcb \<longleftrightarrow>
     (unsent pcb \<noteq> [] \<longrightarrow> seqno (last (unsent pcb)) + TCP_TCPLEN (last (unsent pcb)) = snd_lbb pcb)"

text \<open>The same over positions: the unsent segment at the end comes last in the shuffle of the queues.\<close>

definition queue_ends :: "stream \<Rightarrow> nat \<Rightarrow> tcp_seg list \<Rightarrow> tcp_seg list \<Rightarrow> nat \<Rightarrow> bool" where
  "queue_ends S q A U z \<longleftrightarrow>
     (\<exists>Q p. Q \<in> shuffles A (butlast U) \<and> snd_segs S q Q p \<and>
        (if U = [] then p = z else seg_ok S p (last U) \<and> p + qlen (last U) = z))"

lemma shuffles_append_right: "Q \<in> shuffles A B \<Longrightarrow> Q @ V \<in> shuffles A (B @ V)"
proof (induction A B arbitrary: Q rule: shuffles.induct)
  case (1 ys)
  then show ?case by simp
next
  case (2 xs)
  then show ?case by (induction xs arbitrary: Q) (auto intro: Cons_in_shuffles_leftI split: list.splits)
next
  case (3 x xs y ys)
  then show ?case by (auto simp: Cons_in_shuffles_leftI Cons_in_shuffles_rightI)
qed

lemma shuffles_snocE:
  assumes "Q @ [x] \<in> shuffles A B"
  shows "(\<exists>A'. A = A' @ [x] \<and> Q \<in> shuffles A' B) \<or> (\<exists>B'. B = B' @ [x] \<and> Q \<in> shuffles A B')"
  using assms
proof (induction Q arbitrary: A B)
  case Nil
  then show ?case by (auto simp: Cons_in_shuffles_iff neq_Nil_conv)
next
  case (Cons y Q)
  then have "y # (Q @ [x]) \<in> shuffles A B" by simp
  then show ?case
  proof (cases rule: shuffles_ConsE)
    case (1 A')
    then show ?thesis using Cons.IH [OF 1(2)] by (auto intro: Cons_in_shuffles_leftI)
  next
    case (2 B')
    then show ?thesis using Cons.IH [OF 2(2)] by (auto intro: Cons_in_shuffles_rightI)
  qed
qed

lemma queue_ends_append:
  assumes "queue_ends S q A U m" "snd_segs S m V z"
  shows "queue_ends S q A (U @ V) z"
proof (cases V rule: rev_cases)
  case Nil
  then have "m = z" using assms(2) by simp
  then show ?thesis using assms(1) Nil by simp
next
  case (snoc W s)
  obtain Q p where Q: "Q \<in> shuffles A (butlast U)" "snd_segs S q Q p"
      "if U = [] then p = m else seg_ok S p (last U) \<and> p + qlen (last U) = m"
    using assms(1) by (auto simp: queue_ends_def)
  obtain k where k: "snd_segs S m W k" "seg_ok S k s" "k + qlen s = z"
    using assms(2) unfolding snoc snd_segs_append by auto
  have "Q @ (if U = [] then [] else [last U]) \<in> shuffles A U"
    using Q(1) shuffles_append_right [OF Q(1), of "[last U]"] by (cases "U = []") simp_all
  then have "(Q @ (if U = [] then [] else [last U])) @ W \<in> shuffles A (U @ W)" by (rule shuffles_append_right)
  moreover have "snd_segs S q ((Q @ (if U = [] then [] else [last U])) @ W) k"
    using Q(2,3) k(1) by (auto simp: snd_segs_append)
  ultimately show ?thesis unfolding queue_ends_def snoc using k(2,3)
    by (intro exI [of _ "(Q @ (if U = [] then [] else [last U])) @ W"] exI [of _ k])
      (simp add: butlast_append del: append_assoc)
qed

lemma queue_ends_shuffle:
  assumes "queue_ends S q A U z"
  shows "\<exists>Q \<in> shuffles A U. snd_segs S q Q z"
proof -
  obtain Q p where Q: "Q \<in> shuffles A (butlast U)" "snd_segs S q Q p"
      "if U = [] then p = z else seg_ok S p (last U) \<and> p + qlen (last U) = z"
    using assms by (auto simp: queue_ends_def)
  show ?thesis
  proof (cases "U = []")
    case True
    then show ?thesis using Q by auto
  next
    case False
    have "snd_segs S q (Q @ [last U]) z" using Q(2,3) False by (auto simp: snd_segs_append)
    then show ?thesis using shuffles_append_right [OF Q(1), of "[last U]"] False by auto
  qed
qed

lemma queue_ends_last:
  assumes "queue_ends S q A U z" "U \<noteq> []"
  shows "seqno (last U) + TCP_TCPLEN (last U) = sq z"
  using assms by (auto simp: queue_ends_def TCP_TCPLEN_qlen seg_okD(1))

lemma tail_ends_queue:
  assumes "snd_inv S q z pcb" "tail_ends pcb" "snd_lbb pcb = sq z"
  shows "queue_ends S q (unacked pcb) (unsent pcb) z"
proof (cases "unsent pcb = []")
  case True
  then show ?thesis using assms(1) by (auto simp: queue_ends_def snd_inv_def)
next
  case False
  let ?s = "last (unsent pcb)"
  obtain Q where Q: "Q \<in> shuffles (unacked pcb) (unsent pcb)" "snd_segs S q Q z" using assms(1) by (auto simp: snd_inv_def)
  have mem: "?s \<in> set Q" using False set_shuffles [OF Q(1)] by simp
  then obtain Q' x where Q': "Q = Q' @ [x]" by (cases Q rule: rev_cases) auto
  obtain p where p: "snd_segs S q Q' p" "seg_ok S p x" "p + qlen x = z" using Q(2) unfolding Q' snd_segs_append by auto
  have "?s \<notin> set Q'"
  proof
    assume "?s \<in> set Q'"
    then obtain k where k: "q \<le> k" "k + qlen ?s \<le> p" "seg_ok S k ?s" using snd_segs_mem [OF p(1)] by blast
    have "sq (k + qlen ?s) = sq z"
      using assms(2,3) False k(3) by (simp add: tail_ends_def TCP_TCPLEN_qlen seg_okD(1))
    moreover have "k + qlen ?s < z" using k(2) p(2,3) by (simp add: seg_ok_def)
    ultimately show False using sq_compare(1) [of "k + qlen ?s" z] k(1) snd_inv_short [OF assms(1)]
      by (simp add: TCP_SEQ_LT_def)
  qed
  then have "?s = x" using mem Q' by simp
  consider A' where "unacked pcb = A' @ [x]" "Q' \<in> shuffles A' (unsent pcb)"
    | U' where "unsent pcb = U' @ [x]" "Q' \<in> shuffles (unacked pcb) U'"
    using shuffles_snocE [OF Q(1) [unfolded Q']] by blast
  then show ?thesis
  proof cases
    case 1
    then show ?thesis using \<open>?s \<notin> set Q'\<close> False set_shuffles [OF 1(2)] by simp
  next
    case 2
    then show ?thesis using p unfolding queue_ends_def by (intro exI [of _ Q'] exI [of _ p]) simp
  qed
qed

lemma snd_segs_nonempty: "snd_segs S q Q z \<Longrightarrow> clens Q = 0 \<longleftrightarrow> Q = []"
  by (cases Q) (auto simp: seg_ok_def)

lemma on_last_simps [simp]: "on_last f [] = []" "on_last f (xs @ [x]) = xs @ [f x]" "on_last f xs = [] \<longleftrightarrow> xs = []"
  by (simp_all add: on_last_def)

lemma set_psh_same: "same_stretch S s (set_psh s)" "slen (set_psh s) = slen s" "seg_p (set_psh s) = seg_p s"
  "oversize_left (set_psh s) = oversize_left s" "seg_flags (set_psh s) = seg_flags s"
proof -
  have psh: "TCP_PSH = 2 ^ 3" by (simp add: tcp_hdr_flag_defs)
  have "bit TCP_PSH n \<longleftrightarrow> n = 3" for n :: nat unfolding psh bit_exp_iff by (auto simp: possible_bit_def)
  then have "has_hdr f (set_psh s) = has_hdr f s" if "f \<in> {TCP_FIN, TCP_SYN, TCP_RST}" for f
    using that by (auto simp: has_hdr_bit has_hdr_rst_bit set_psh_def bit_or_iff)
  then show "same_stretch S s (set_psh s)" by (simp add: same_stretch_def seg_ok_def qlen_def) (auto simp: set_psh_def)
qed (simp_all add: set_psh_def)

lemma queue_ends_psh:
  assumes "queue_ends S q A segs z"
  shows "queue_ends S q A (on_last set_psh segs) z" "slens (on_last set_psh segs) = slens segs"
    "clens (on_last set_psh segs) = clens segs"
  using assms set_psh_same by (cases segs rule: rev_cases; auto simp: queue_ends_def same_stretch_def)+

text \<open>The first two phases and their commit, also for an empty queue.\<close>

definition write_tail_step where
  "write_tail_step pcb buf apiflags e =
     (if unsent pcb = []
      then do { lwip_assert (unsent_oversize pcb = 0); Some (Some (0, [], snd_queuelen pcb, 0, 0), e) }
      else tcp_write_tail pcb (last (unsent pcb)) (tcp_mss_local pcb) buf apiflags e)"

definition write_old where
  "write_old pcb buf used added oversize_add =
     (if unsent pcb = [] then Some []
      else do {
        s \<leftarrow> tcp_write_commit_tail (take used buf) added oversize_add (last (unsent pcb));
        Some (butlast (unsent pcb) @ [s])
      })"

definition write_finish where
  "write_finish pcb buf apiflags added old queue ql ov e = do {
     let touched = (queue \<noteq> [] \<or> added \<noteq> [] \<or> unsent pcb \<noteq> [] \<and> unsent_oversize pcb > 0);
     let segs = old @ queue;
     let segs = (if touched \<and> apiflags AND TCP_WRITE_FLAG_MORE = 0 then on_last set_psh segs else segs);
     lwip_assert (ql = 0 \<or> unacked pcb \<noteq> [] \<or> segs \<noteq> []);
     Some (ERR_OK, pcb\<lparr>unsent := segs, unsent_oversize := word_of_nat ov,
       snd_lbb := snd_lbb pcb + word_of_nat (length buf), snd_buf := snd_buf pcb - word_of_nat (length buf),
       snd_queuelen := ql\<rparr>, e)
   }"

lemma tcp_write_run:
  assumes "tcp_write_checks pcb (word_of_nat (length buf)) = Some (ERR_OK, pcb)"
  shows "tcp_write pcb buf apiflags e = do {
    (tail, e) \<leftarrow> write_tail_step pcb buf apiflags e;
    case tail of
      None \<Rightarrow> tcp_write_memerr [] pcb e
    | Some (used, added, ql, ov, oa) \<Rightarrow> do {
        let pos = used + length added;
        (ok, queue, ql, ov, e) \<leftarrow> tcp_write_segments pcb (tcp_mss_local pcb) apiflags pos (drop pos buf) [] ql ov e;
        if \<not> ok then tcp_write_memerr queue pcb e
        else do { old \<leftarrow> write_old pcb buf used added oa; write_finish pcb buf apiflags added old queue ql ov e }
      }
  }"
  unfolding tcp_write_def assms Let_def write_tail_step_def write_old_def write_finish_def by simp

definition tail_of where
  "tail_of m oversize segs \<longleftrightarrow>
     (if segs = [] then oversize = 0
      else oversize_left (last segs) = word_of_nat oversize \<and>
        slen (last segs) + LWIP_TCP_OPT_LENGTH (seg_flags (last segs)) + oversize \<le> m)"

lemma write_tail_step_ok:
  assumes "queue_ends S q (unacked pcb) (unsent pcb) z" "snd_inv S q z pcb" "tail_ok pcb" "tcp_mss_local pcb < 65536"
    "buf = map (byte_at S) [z ..< z + length buf]" "\<And>f. fin_at S = Some f \<Longrightarrow> z + length buf \<le> f"
    "buf \<noteq> [] \<Longrightarrow> unat (snd_queuelen pcb) < 64"
  shows "\<exists>r e'. write_tail_step pcb buf apiflags e = Some (r, e') \<and> tx_log e' = tx_log e \<and> tcp_seg_pool e' = tcp_seg_pool e \<and>
    (case r of None \<Rightarrow> True
     | Some (used, added, queuelen, oversize, oversize_add) \<Rightarrow>
         \<exists>old. write_old pcb buf used added oversize_add = Some old \<and> used + length added \<le> length buf \<and>
           queue_ends S q (unacked pcb) old (z + (used + length added)) \<and>
           slens old = slens (unsent pcb) + used + length added \<and>
           unat queuelen = clens (unacked pcb) + clens old \<and> (buf \<noteq> [] \<longrightarrow> unat queuelen \<le> 64) \<and>
           oversize \<le> tcp_mss_local pcb \<and>
           (used + length added = length buf \<longrightarrow> tail_of (tcp_mss_local pcb) oversize old))"
proof (cases "unsent pcb = []")
  case True
  then show ?thesis using assms by (auto simp: write_tail_step_def write_old_def tail_ok_def tail_of_def snd_inv_def)
next
  case False
  let ?s = "last (unsent pcb)" and ?m = "tcp_mss_local pcb" and ?bl = "butlast (unsent pcb)"
  have unsent: "unsent pcb = ?bl @ [?s]" using False by simp
  obtain Q p where Q: "Q \<in> shuffles (unacked pcb) ?bl" "snd_segs S q Q p" and p: "seg_ok S p ?s" "p + qlen ?s = z"
    using assms(1) False by (auto simp: queue_ends_def)
  have tail: "unsent_oversize pcb = oversize_left ?s"
      "slen ?s + LWIP_TCP_OPT_LENGTH (seg_flags ?s) + unat (unsent_oversize pcb) \<le> ?m"
    using assms(3) False by (auto simp only: tail_ok_def tail_fits_def)
  have lens: "slens (unsent pcb) = slens ?bl + slen ?s" "clens (unsent pcb) = clens ?bl + length (seg_p ?s)"
    using unsent by (metis lens_simps(1,2,3) add.right_neutral, metis lens_simps(4,5,6) add.right_neutral)
  obtain r e' where r: "tcp_write_tail pcb ?s ?m buf apiflags e = Some (r, e')" "tx_log e' = tx_log e"
      "tcp_seg_pool e' = tcp_seg_pool e" "tail_result_ok S p ?s ?m pcb buf r"
    using tcp_write_tail_ok [OF p tail assms(4-7), of apiflags e] by blast
  show ?thesis
  proof (cases r)
    case None
    then show ?thesis using r False by (simp add: write_tail_step_def)
  next
    case (Some res)
    obtain used added ql ov oa where res: "res = (used, added, ql, ov, oa)" by (cases res)
    obtain t where t: "used + length added \<le> length buf" "unat ql = unat (snd_queuelen pcb) + (if added = [] then 0 else 1)"
        "ov \<le> ?m" "tcp_write_commit_tail (take used buf) added oa ?s = Some t" "seg_ok S p t"
        "slen t = slen ?s + used + length added" "qlen t = qlen ?s + used + length added"
        "length (seg_p t) = length (seg_p ?s) + (if added = [] then 0 else 1)"
        "used + length added = length buf \<longrightarrow> oversize_left t = word_of_nat ov \<and>
           slen t + LWIP_TCP_OPT_LENGTH (seg_flags t) + ov \<le> ?m"
      using r(4) unfolding Some res tail_result_ok_def by auto
    have "queue_ends S q (unacked pcb) (?bl @ [t]) (z + (used + length added))"
      unfolding queue_ends_def using Q p t(5,7) by (intro exI [of _ Q] exI [of _ p]) simp
    moreover have "unat (snd_queuelen pcb) = clens (unacked pcb) + clens (unsent pcb)"
      using assms(2) by (simp add: snd_inv_def)
    ultimately show ?thesis
      using r(1-3) False t lens assms(7) unfolding Some res
      by (auto simp: write_tail_step_def write_old_def tail_of_def)
  qed
qed

lemma tcp_mss_local_bounds:
  assumes "0 < mss pcb" shows "0 < tcp_mss_local pcb" "tcp_mss_local pcb < 65536"
proof -
  have "0 < unat (mss pcb)" using assms by (simp add: word_less_nat_alt)
  then show "0 < tcp_mss_local pcb" by (auto simp: tcp_mss_local_def Let_def word_neq_0_conv word_less_nat_alt)
  show "tcp_mss_local pcb < 65536" by (simp add: tcp_mss_local_def Let_def u16_lt)
qed

lemma snd_queuelen_zero:
  assumes "snd_inv S q z pcb"
  shows "snd_queuelen pcb = 0 \<longleftrightarrow> unacked pcb = [] \<and> unsent pcb = []"
proof -
  obtain Q where Q: "Q \<in> shuffles (unacked pcb) (unsent pcb)" "snd_segs S q Q z"
      "unat (snd_queuelen pcb) = clens (unacked pcb) + clens (unsent pcb)"
    using assms by (auto simp: snd_inv_def)
  have "Q = [] \<longleftrightarrow> unacked pcb = [] \<and> unsent pcb = []" using Q(1) set_shuffles [OF Q(1)] by auto
  then show ?thesis using snd_segs_nonempty [OF Q(2)] lens_shuffles(2) [OF Q(1)] Q(3) by (simp add: unat_eq_0 [symmetric])
qed

lemma tcp_write_checks_ok:
  assumes "snd_inv S q z pcb" "length buf < 65536"
  shows "\<exists>err pcb'. tcp_write_checks pcb (word_of_nat (length buf)) = Some (err, pcb') \<and>
    (if err = ERR_OK then pcb' = pcb \<and> (buf \<noteq> [] \<longrightarrow> unat (snd_queuelen pcb) < 64) \<and> length buf \<le> unat (snd_buf pcb)
     else pcb' = pcb \<or> pcb' = tcp_set_flags TF_NAGLEMEMERR pcb)"
proof -
  have n: "unat (word_of_nat (length buf) :: u16) = length buf" using assms(2) by (simp add: unat_of_nat16)
  have "(word_of_nat (length buf) :: u16) = 0 \<longleftrightarrow> buf = []" using n by (simp add: unat_eq_0 [symmetric])
  moreover have "(word_of_nat (length buf) :: u16) > snd_buf pcb \<longleftrightarrow> length buf > unat (snd_buf pcb)"
    using n by (simp add: word_less_nat_alt)
  ultimately show ?thesis
    using snd_queuelen_zero [OF assms(1)] by (auto simp: tcp_write_checks_def TCP_SND_QUEUELEN_def word_le_nat_alt not_le)
qed

text \<open>The state after a successful write, before and after PSH is set.\<close>

lemma tcp_write_result_ok:
  assumes "snd_inv S q z pcb" "queue_ends S q (unacked pcb) segs (z + k)" "slens segs = slens (unsent pcb) + k"
    "unat ql = clens (unacked pcb) + clens segs" "tail_of (tcp_mss_local pcb) ov segs" "k \<le> unat (snd_buf pcb)"
    "k < 65536" "snd_lbb pcb = sq z" "tcp_mss_local pcb < 65536" "segs' = segs \<or> segs' = on_last set_psh segs"
    "pcb' = pcb\<lparr>unsent := segs', unsent_oversize := word_of_nat ov, snd_lbb := snd_lbb pcb + word_of_nat k,
       snd_buf := snd_buf pcb - word_of_nat k, snd_queuelen := ql\<rparr>"
  shows "snd_inv S q (z + k) pcb' \<and> tail_ends pcb' \<and> tail_ok pcb' \<and> snd_lbb pcb' = sq (z + k)"
proof -
  have segs': "queue_ends S q (unacked pcb) segs' (z + k)" "slens segs' = slens segs" "clens segs' = clens segs"
    using assms(2,10) queue_ends_psh [OF assms(2)] by auto
  have pcb': "unacked pcb' = unacked pcb" "unsent pcb' = segs'" "unsent_oversize pcb' = word_of_nat ov"
      "snd_lbb pcb' = snd_lbb pcb + word_of_nat k" "snd_buf pcb' = snd_buf pcb - word_of_nat k" "snd_queuelen pcb' = ql"
      "mss pcb' = mss pcb" "snd_wnd_max pcb' = snd_wnd_max pcb"
    by (simp_all add: assms(11))
  note m = tcp_mss_local_cong [OF pcb'(7,8)]
  have "unat (word_of_nat k :: u16) = k" using assms(7) by (simp add: unat_of_nat16)
  then have "unat (snd_buf pcb') = unat (snd_buf pcb) - k" using assms(6) pcb'(5) by (simp add: unat_sub word_le_nat_alt)
  then have "snd_inv S q (z + k) pcb'"
    using assms(1,3,4,6) segs' pcb' queue_ends_shuffle [OF segs'(1)] by (auto simp: snd_inv_def)
  moreover have "tail_of (tcp_mss_local pcb) ov segs'"
    using assms(5,10) set_psh_same(2,4,5) by (cases segs rule: rev_cases) (auto simp: tail_of_def)
  then have "tail_ok pcb'"
    using assms(9) m pcb' by (auto simp: tail_of_def tail_ok_def tail_fits_def unat_of_nat16 split: if_splits)
  moreover have "tail_ends pcb'" using queue_ends_last [OF segs'(1)] pcb'(2,4) assms(8) by (simp add: tail_ends_def)
  ultimately show ?thesis using pcb' assms(8) by simp
qed

lemma tcp_write_ok:
  assumes "snd_inv S q z pcb" and "tail_ends pcb" and "tail_ok pcb" and "snd_lbb pcb = sq z"
    and "0 < mss pcb" and "buf = map (byte_at S) [z ..< z + length buf]" and "length buf < 65536"
    and "\<And>f. fin_at S = Some f \<Longrightarrow> z + length buf \<le> f"
  shows "\<exists>err pcb' e'. tcp_write pcb buf apiflags e = Some (err, pcb', e') \<and> tx_log e' = tx_log e \<and>
    (if err = ERR_OK
     then snd_inv S q (z + length buf) pcb' \<and> tail_ends pcb' \<and> tail_ok pcb' \<and> snd_lbb pcb' = sq (z + length buf) \<and>
       unacked pcb' = unacked pcb \<and> lastack pcb' = lastack pcb \<and> snd_nxt pcb' = snd_nxt pcb \<and> mss pcb' = mss pcb \<and>
       state pcb' = state pcb
     else (pcb' = pcb \<or> pcb' = tcp_set_flags TF_NAGLEMEMERR pcb) \<and> tcp_seg_pool e' = tcp_seg_pool e)"
proof -
  let ?m = "tcp_mss_local pcb"
  note m = tcp_mss_local_bounds [OF assms(5)] and ends = tail_ends_queue [OF assms(1,2,4)]
  obtain err p where checks: "tcp_write_checks pcb (word_of_nat (length buf)) = Some (err, p)"
      "if err = ERR_OK then p = pcb \<and> (buf \<noteq> [] \<longrightarrow> unat (snd_queuelen pcb) < 64) \<and> length buf \<le> unat (snd_buf pcb)
       else p = pcb \<or> p = tcp_set_flags TF_NAGLEMEMERR pcb"
    using tcp_write_checks_ok [OF assms(1,7)] by blast
  show ?thesis
  proof (cases "err = ERR_OK")
    case False
    then show ?thesis using checks by (simp add: tcp_write_def)
  next
    case True
    then have p: "p = pcb" "buf \<noteq> [] \<Longrightarrow> unat (snd_queuelen pcb) < 64" "length buf \<le> unat (snd_buf pcb)"
      using checks(2) by auto
    have memerr: "tcp_write_memerr queue pcb e' =
        Some (ERR_MEM, tcp_set_flags TF_NAGLEMEMERR pcb, e'\<lparr>tcp_seg_pool := tcp_seg_pool e' + length queue\<rparr>)" for queue e'
      using snd_queuelen_zero [OF assms(1)] by (simp add: tcp_write_memerr_def)
    have "tcp_write_checks pcb (word_of_nat (length buf)) = Some (ERR_OK, pcb)" using checks(1) True p(1) by simp
    note run = tcp_write_run [OF this, of apiflags e]
    obtain r e1 where tail: "write_tail_step pcb buf apiflags e = Some (r, e1)" "tx_log e1 = tx_log e"
        "tcp_seg_pool e1 = tcp_seg_pool e"
        "case r of None \<Rightarrow> True
         | Some (used, added, queuelen, oversize, oversize_add) \<Rightarrow>
             \<exists>old. write_old pcb buf used added oversize_add = Some old \<and> used + length added \<le> length buf \<and>
               queue_ends S q (unacked pcb) old (z + (used + length added)) \<and>
               slens old = slens (unsent pcb) + used + length added \<and>
               unat queuelen = clens (unacked pcb) + clens old \<and> (buf \<noteq> [] \<longrightarrow> unat queuelen \<le> 64) \<and>
               oversize \<le> ?m \<and> (used + length added = length buf \<longrightarrow> tail_of ?m oversize old)"
      using write_tail_step_ok [OF ends assms(1,3) m(2) assms(6,8) p(2), of apiflags e] by blast
    show ?thesis
    proof (cases r)
      case None
      then show ?thesis using run tail(1-3) memerr by simp
    next
      case (Some res)
      obtain used added ql ov oa where res: "res = (used, added, ql, ov, oa)" by (cases res)
      define k where "k = used + length added"
      obtain old where old: "write_old pcb buf used added oa = Some old" "k \<le> length buf"
          "queue_ends S q (unacked pcb) old (z + k)" "slens old = slens (unsent pcb) + k"
          "unat ql = clens (unacked pcb) + clens old" "buf \<noteq> [] \<Longrightarrow> unat ql \<le> 64" "k = length buf \<Longrightarrow> tail_of ?m ov old"
        using tail(4) unfolding Some res k_def by auto
      have bytes: "drop k buf = map (byte_at S) [z + k ..< z + k + length (drop k buf)]"
        using old(2) by (subst assms(6)) (simp add: drop_map)
      have fin: "\<And>f. fin_at S = Some f \<Longrightarrow> z + k + length (drop k buf) \<le> f" using assms(8) old(2) by simp
      have ql: "drop k buf \<noteq> [] \<Longrightarrow> unat ql \<le> 64" by (rule old(6)) auto
      obtain ok queue ql' ov' e2 where segs:
          "tcp_write_segments pcb ?m apiflags k (drop k buf) [] ql ov e1 = Some (ok, queue, ql', ov', e2)"
          "tx_log e2 = tx_log e1" "tcp_seg_pool e2 + length queue = tcp_seg_pool e1"
          "ok \<Longrightarrow> snd_segs S (z + k) queue (z + k + length (drop k buf)) \<and> queue_tail ?m ov' queue \<and>
             slens queue = length (drop k buf) \<and> unat ql' = unat ql + clens queue \<and>
             (drop k buf = [] \<longrightarrow> queue = [] \<and> ov' = ov) \<and> (drop k buf \<noteq> [] \<longrightarrow> queue \<noteq> [])"
        using tcp_write_segments_ok [OF m bytes fin assms(4) refl _ ql, of "z + k" "[]" ov apiflags e1]
        by (auto simp: queue_tail_def)
      show ?thesis
      proof (cases ok)
        case False
        then show ?thesis
          using run tail(1-3) segs(1-3) memerr unfolding Some res by (simp add: k_def [symmetric])
      next
        case True
        note q = segs(4) [OF True]
        let ?segs = "old @ queue"
        have all: "queue_ends S q (unacked pcb) ?segs (z + length buf)"
          using queue_ends_append [OF old(3), of queue "z + k + length (drop k buf)"] q old(2) by simp
        have tail_of: "tail_of ?m ov' ?segs"
        proof (cases "queue = []")
          case True
          have rest: "drop k buf = []" using q True by blast
          then have "ov' = ov" using q by blast
          moreover have "k = length buf" using rest old(2) by simp
          ultimately show ?thesis using old(7) True by (metis append_Nil2)
        next
          case False
          then show ?thesis using q by (simp add: tail_of_def queue_tail_def)
        qed
        define segs' where "segs' = (if (queue \<noteq> [] \<or> added \<noteq> [] \<or> unsent pcb \<noteq> [] \<and> unsent_oversize pcb > 0) \<and>
            apiflags AND TCP_WRITE_FLAG_MORE = 0 then on_last set_psh ?segs else ?segs)"
        define pcb' where "pcb' = pcb\<lparr>unsent := segs', unsent_oversize := word_of_nat ov',
            snd_lbb := snd_lbb pcb + word_of_nat (length buf), snd_buf := snd_buf pcb - word_of_nat (length buf),
            snd_queuelen := ql'\<rparr>"
        have lens: "slens ?segs = slens (unsent pcb) + length buf" "unat ql' = clens (unacked pcb) + clens ?segs"
          using old(2,4,5) q by simp_all
        have "ql' = 0 \<or> unacked pcb \<noteq> [] \<or> segs' \<noteq> []"
          using lens(2) by (auto simp: segs'_def unat_eq_0 [symmetric])
        then have "write_finish pcb buf apiflags added old queue ql' ov' e2 = Some (ERR_OK, pcb', e2)"
          unfolding write_finish_def Let_def segs'_def [symmetric] pcb'_def [symmetric] by simp
        then have "tcp_write pcb buf apiflags e = Some (ERR_OK, pcb', e2)"
          using run tail(1) segs(1) True old(1) unfolding Some res by (simp add: k_def [symmetric])
        moreover have "segs' = ?segs \<or> segs' = on_last set_psh ?segs" by (simp add: segs'_def)
        from tcp_write_result_ok [OF assms(1) all lens tail_of p(3) assms(7,4) m(2) this pcb'_def]
        have "snd_inv S q (z + length buf) pcb' \<and> tail_ends pcb' \<and> tail_ok pcb' \<and> snd_lbb pcb' = sq (z + length buf)" .
        moreover have "unacked pcb' = unacked pcb" "lastack pcb' = lastack pcb" "snd_nxt pcb' = snd_nxt pcb"
            "mss pcb' = mss pcb" "state pcb' = state pcb"
          by (simp_all add: pcb'_def)
        ultimately show ?thesis using segs(2) tail(2) by simp
      qed
    qed
  qed
qed

text \<open>C19: writing is all or nothing. On a connection with a positive \<^verbatim>\<open>mss\<close> whose queues cover the written part of the stream, the
  last unsent segment at the end (\<^verbatim>\<open>tail_ends\<close>) and with \<^verbatim>\<open>unsent_oversize\<close> the free bytes of that segment, within the
  segment size (\<^verbatim>\<open>tail_ok\<close>), \<^verbatim>\<open>tcp_write\<close> of less than 65536 bytes that lie before the FIN fails no assertion, and it ends. With \<^verbatim>\<open>ERR_OK\<close> the
  queues cover exactly the given bytes in addition, and \<^verbatim>\<open>snd_lbb\<close>, \<^verbatim>\<open>snd_buf\<close> and
  \<^verbatim>\<open>snd_queuelen\<close> account for them. With an error, in particular when memory runs out in the middle,
  the control block is unchanged except for \<^verbatim>\<open>TF_NAGLEMEMERR\<close>, and no segment is lost.\<close>

theorem tcp_write_appends:
  assumes "snd_inv S q z pcb" and "tail_ends pcb" and "tail_ok pcb" and "snd_lbb pcb = sq z"
    and "0 < mss pcb" and "buf = map (byte_at S) [z ..< z + length buf]" and "length buf < 65536"
    and "\<And>f. fin_at S = Some f \<Longrightarrow> z + length buf \<le> f"
  shows "\<exists>err pcb' e'. tcp_write pcb buf apiflags e = Some (err, pcb', e') \<and> tx_log e' = tx_log e \<and>
    (if err = ERR_OK
     then snd_inv S q (z + length buf) pcb' \<and> tail_ends pcb' \<and> tail_ok pcb' \<and> snd_lbb pcb' = sq (z + length buf) \<and>
       unacked pcb' = unacked pcb \<and> lastack pcb' = lastack pcb \<and> snd_nxt pcb' = snd_nxt pcb \<and> mss pcb' = mss pcb \<and>
       state pcb' = state pcb
     else (pcb' = pcb \<or> pcb' = tcp_set_flags TF_NAGLEMEMERR pcb) \<and> tcp_seg_pool e' = tcp_seg_pool e)"
  using assms by (rule tcp_write_ok)

theorem tcp_write_appends_witness:
  defines "pcb \<equiv> example_snd 1000 1010 [] [example_queue 1000 10 4]" and "buf \<equiv> map (byte_at example_stream) [1010 ..< 1030]"
  shows "\<exists>err pcb' e'. tcp_write pcb buf 0 example_env = Some (err, pcb', e') \<and> tx_log e' = tx_log example_env \<and>
    (if err = ERR_OK
     then snd_inv example_stream 1000 (1010 + length buf) pcb' \<and> tail_ends pcb' \<and> tail_ok pcb' \<and>
       snd_lbb pcb' = sq (1010 + length buf) \<and> unacked pcb' = unacked pcb \<and>
       lastack pcb' = lastack pcb \<and> snd_nxt pcb' = snd_nxt pcb \<and> mss pcb' = mss pcb \<and> state pcb' = state pcb
     else (pcb' = pcb \<or> pcb' = tcp_set_flags TF_NAGLEMEMERR pcb) \<and> tcp_seg_pool e' = tcp_seg_pool example_env)"
proof (rule tcp_write_appends)
  note q = example_queue_ok [of 10 1000 4, simplified] and ok = example_snd_ok [where n = 10 and free = 4 and q = 1000 and a = 1000]
  have segs: "unacked pcb = []" "unsent pcb = [example_queue 1000 10 4]" by (simp_all add: pcb_def example_snd_def)
  show "snd_inv example_stream 1000 1010 pcb" "tail_ok pcb"
    using ok segs by (simp_all add: pcb_def tail_ok_def)
  show "snd_lbb pcb = sq 1010" by (simp add: pcb_def example_snd_def)
  then show "tail_ends pcb" using segs q(2) seg_okD(1) [OF q(1)] by (simp add: tail_ends_def TCP_TCPLEN_qlen)
  show "0 < mss pcb" by (simp add: pcb_def example_snd_def tcp_pcb_new_def INITIAL_MSS_def)
  show "buf = map (byte_at example_stream) [1010 ..< 1010 + length buf]" "length buf < 65536" by (simp_all add: buf_def)
  show "\<And>f. fin_at example_stream = Some f \<Longrightarrow> 1010 + length buf \<le> f" by (simp add: example_stream_def)
qed

section \<open>Writing behind a retransmitted segment\<close>

text \<open>C21: the hypothesis that the last unsent segment ends the queue is necessary. When a fast retransmit has
  put a short segment \<open>s1\<close> back and nothing else is unsent, \<^verbatim>\<open>tcp_write\<close> appends the new bytes to
  \<open>s1\<close>, at the positions of the segment \<open>s2\<close> that follows it and is still unacknowledged: the
  retransmitted segment carries bytes of two different positions of the stream.\<close>

theorem tcp_write_after_rexmit_overlaps:
  assumes "unacked pcb = s1 # s2 # ss" and "unsent pcb = []" and "p_ref s1 = 1" and "0 < slen s1"
    and "oversize_left s1 = 0" and "LWIP_TCP_OPT_LENGTH (seg_flags s1) = 0" and "seqno s2 = seqno s1 + ucast (len s1)"
    and "slen s1 + length buf \<le> tcp_mss_local pcb" and "buf \<noteq> []" and "state pcb = ESTABLISHED"
    and "length buf \<le> unat (snd_buf pcb)" and "0 < snd_queuelen pcb" and "snd_queuelen pcb < TCP_SND_QUEUELEN"
    and "pbuf_mem_ok e (pbuf_mem_n e)"
  shows "\<exists>p pcb' e' s. tcp_rexmit pcb = (ERR_OK, p) \<and> tcp_write p buf 0 e = Some (ERR_OK, pcb', e') \<and>
    unsent pcb' = [s] \<and> unacked pcb' = s2 # ss \<and> seqno s = seqno s1 \<and> seqno s + ucast (len s1) = seqno s2 \<and>
    concat (seg_p s) = concat (seg_p s1) @ buf"
proof -
  define p where "p = (if nrtx pcb < 0xff then pcb\<lparr>unsent_oversize := 0, unacked := s2 # ss, unsent := [s1], nrtx := nrtx pcb + 1\<rparr>
      else pcb\<lparr>unsent_oversize := 0, unacked := s2 # ss, unsent := [s1]\<rparr>)\<lparr>rttest := 0\<rparr>"
  have rexmit: "tcp_rexmit pcb = (ERR_OK, p)"
    using assms(1-3) by (simp add: tcp_rexmit_def tcp_output_segment_busy_def p_def Let_def)
  have p: "unacked p = s2 # ss" "unsent p = [s1]" "unsent_oversize p = 0" "state p = ESTABLISHED"
      "snd_buf p = snd_buf pcb" "snd_queuelen p = snd_queuelen pcb" "mss p = mss pcb" "snd_wnd_max p = snd_wnd_max pcb"
    using assms(10) by (simp_all add: p_def)
  note mss = tcp_mss_local_cong [OF p(7,8)]
  let ?n = "length buf"
  have n: "?n < 65536" using assms(11) u16_lt [of "snd_buf pcb"] by linarith
  have u: "unat (word_of_nat ?n :: u16) = ?n" using n by (simp add: unat_of_nat16)
  then have "(word_of_nat ?n :: u16) \<noteq> 0" using assms(9) by (metis length_0_conv unat_0)
  then have checks: "tcp_write_checks p (word_of_nat ?n) = Some (ERR_OK, p)"
    using p assms(11-13) u by (auto simp: tcp_write_checks_def word_less_nat_alt not_le)
  obtain ov e1 where pre: "tcp_pbuf_prealloc ?n (tcp_mss_local pcb - slen s1) p 0 True e = (Some ov, e1)"
    using assms(14) by (auto simp: tcp_pbuf_prealloc_def pbuf_alloc_data_def Let_def)
  have "0 < ?n" using assms(9) by simp
  moreover have "len s1 > 0" using assms(4) by (simp add: word_less_nat_alt)
  moreover have "slen s1 < tcp_mss_local pcb" using assms(8) \<open>0 < ?n\<close> by linarith
  ultimately have tail: "write_tail_step p buf 0 e = Some (Some (0, buf, snd_queuelen p + 1, ov, ov), e1)"
    using p assms(5,6,8) pre mss by (simp add: write_tail_step_def tcp_write_tail_def Let_def min_absorb2)
  define s where "s = seg_add_pbuf buf (s1\<lparr>oversize_left := oversize_left s1 + word_of_nat ov\<rparr>)"
  have old: "write_old p buf 0 buf ov = Some [s]"
    using p(2) assms(9) by (simp add: write_old_def tcp_write_commit_tail_def s_def)
  have segs: "tcp_write_segments p (tcp_mss_local p) 0 ?n [] [] ql ov e1 = Some (True, [], ql, ov, e1)" for ql
    by (simp add: tcp_write_segments.simps)
  obtain pcb' where "write_finish p buf 0 buf [s] [] (snd_queuelen p + 1) ov e1 = Some (ERR_OK, pcb', e1)"
      "unsent pcb' = [set_psh s]" "unacked pcb' = s2 # ss"
    using p(1) assms(9) by (simp add: write_finish_def on_last_def)
  moreover have "tcp_write p buf 0 e = write_finish p buf 0 buf [s] [] (snd_queuelen p + 1) ov e1"
    using tcp_write_run [OF checks, of 0 e] tail old segs by simp
  ultimately show ?thesis
    using rexmit assms(7) by (auto simp: s_def seg_add_pbuf_def set_psh_def)
qed

theorem tcp_write_after_rexmit_overlaps_witness:
  defines "pcb \<equiv> example_snd 1000 1030 [example_queue 1000 10 0, example_queue 1010 20 0] []"
  shows "\<exists>p pcb' e' s. tcp_rexmit pcb = (ERR_OK, p) \<and> tcp_write p [7, 8] 0 example_env = Some (ERR_OK, pcb', e') \<and>
    unsent pcb' = [s] \<and> unacked pcb' = [example_queue 1010 20 0] \<and> seqno s = seqno (example_queue 1000 10 0) \<and>
    seqno s + ucast (len (example_queue 1000 10 0)) = seqno (example_queue 1010 20 0) \<and>
    concat (seg_p s) = concat (seg_p (example_queue 1000 10 0)) @ [7, 8]"
proof (rule tcp_write_after_rexmit_overlaps)
  note q = example_queue_ok [of 10 1000 0, simplified] example_queue_ok [of 20 1010 0, simplified]
  show "unacked pcb = [example_queue 1000 10 0, example_queue 1010 20 0]" "unsent pcb = []"
      "state pcb = ESTABLISHED" by (simp_all add: pcb_def example_snd_def)
  show "p_ref (example_queue 1000 10 0) = 1" "oversize_left (example_queue 1000 10 0) = 0"
      "LWIP_TCP_OPT_LENGTH (seg_flags (example_queue 1000 10 0)) = 0"
      "seqno (example_queue 1010 20 0) = seqno (example_queue 1000 10 0) + ucast (len (example_queue 1000 10 0))"
    by (simp_all add: example_queue_def example_seg_def LWIP_TCP_OPT_LENGTH_def TF_SEG_DATA_CHECKSUMMED_def TF_SEG_OPTS_MSS_def)
  show "0 < slen (example_queue 1000 10 0)" using q by simp
  have "tcp_mss_local pcb = 536"
    by (simp add: pcb_def example_snd_def tcp_mss_local_def tcp_pcb_new_def INITIAL_MSS_def)
  then show "slen (example_queue 1000 10 0) + length ([7, 8] :: u8 list) \<le> tcp_mss_local pcb" using q by simp
  show "length ([7, 8] :: u8 list) \<le> unat (snd_buf pcb)" "0 < snd_queuelen pcb" "snd_queuelen pcb < TCP_SND_QUEUELEN"
    using q by (simp_all add: pcb_def example_snd_def TCP_SND_BUF_def TCP_SND_QUEUELEN_def)
  show "pbuf_mem_ok example_env (pbuf_mem_n example_env)" by (simp add: example_env_def)
qed simp_all

end
