(* ===== verification/Tcp_Ack.thy ===== *)
theory Tcp_Ack
  imports Tcp_Write
begin

text \<open>
  The acknowledgement part of \<^verbatim>\<open>tcp_receive\<close> in \<^verbatim>\<open>core/tcp_in.c\<close>: the window of the remote side,
  duplicate acknowledgements and fast retransmit, acknowledged segments, the congestion window and
  the estimate of the round-trip time, which is in signed 16-bit integers. The lemmas show that
  every acknowledgement number, also a bogus one, keeps the invariant of the send queue.

  The reachability hint for neighbour discovery has no effect on the control block and is left out.
\<close>

section \<open>Definitions\<close>

definition ack_update_window :: "tcp_pcb \<Rightarrow> tcp_in \<Rightarrow> tcp_pcb" where
  "ack_update_window pcb i =
     (if TCP_SEQ_LT (snd_wl1 pcb) (i_seqno i) \<or>
         snd_wl1 pcb = i_seqno i \<and> TCP_SEQ_LT (snd_wl2 pcb) (i_ackno i) \<or>
         snd_wl2 pcb = i_ackno i \<and> i_wnd i > snd_wnd pcb
      then
        (let pcb = pcb\<lparr>snd_wnd := i_wnd i\<rparr>;
             pcb = (if snd_wnd_max pcb < snd_wnd pcb then pcb\<lparr>snd_wnd_max := snd_wnd pcb\<rparr> else pcb)
         in pcb\<lparr>snd_wl1 := i_seqno i, snd_wl2 := i_ackno i\<rparr>)
      else pcb)"

definition ack_duplicate :: "u32 \<Rightarrow> tcp_pcb \<Rightarrow> tcp_in \<Rightarrow> tcp_pcb" where
  "ack_duplicate right_wnd_edge pcb i =
     (if tcplen i = 0 \<and> snd_wl2 pcb + ucast (snd_wnd pcb) = right_wnd_edge \<and> rtime pcb \<ge> 0 \<and> lastack pcb = i_ackno i
      then
        (let pcb = (if dupacks pcb + 1 > dupacks pcb then pcb\<lparr>dupacks := dupacks pcb + 1\<rparr> else pcb);
             pcb = (if dupacks pcb > 3 then pcb\<lparr>cwnd := TCP_WND_INC (cwnd pcb) (mss pcb)\<rparr> else pcb)
         in if dupacks pcb \<ge> 3 then tcp_rexmit_fast pcb else pcb)
      else pcb\<lparr>dupacks := 0\<rparr>)"

text \<open>The second list of segments is \<^verbatim>\<open>dbg_other_seg_list\<close>; the number is \<^verbatim>\<open>recv_acked\<close>.\<close>

fun tcp_free_acked_segments ::
  "u32 \<Rightarrow> tcp_seg list \<Rightarrow> tcp_seg list \<Rightarrow> tcp_pcb \<Rightarrow> u16 \<Rightarrow> tcp_env \<Rightarrow>
     (tcp_seg list \<times> tcp_pcb \<times> u16 \<times> tcp_env) option" where
  "tcp_free_acked_segments ackno [] other pcb acked e = Some ([], pcb, acked, e)"
| "tcp_free_acked_segments ackno (s # ss) other pcb acked e =
     (if TCP_SEQ_LEQ (seqno s + TCP_TCPLEN s) ackno
      then do {
        let clen = word_of_nat (length (seg_p s));
        lwip_assert (snd_queuelen pcb \<ge> clen);
        let pcb = pcb\<lparr>snd_queuelen := snd_queuelen pcb - clen\<rparr>;
        lwip_assert (snd_queuelen pcb = 0 \<or> ss \<noteq> [] \<or> other \<noteq> []);
        tcp_free_acked_segments ackno ss other pcb (acked + len s) (tcp_seg_free s e)
      }
      else Some (s # ss, pcb, acked, e))"

definition ack_congestion :: "u16 \<Rightarrow> tcp_pcb \<Rightarrow> tcp_pcb" where
  "ack_congestion acked pcb =
     (if state pcb \<ge> ESTABLISHED then
        (if cwnd pcb < ssthresh pcb then
           (let num_seg = (if tcp_is_flag_set TF_RTO pcb then 1 else 2);
                increase = min acked (num_seg * mss pcb)
            in pcb\<lparr>cwnd := TCP_WND_INC (cwnd pcb) increase\<rparr>)
         else
           (let pcb = pcb\<lparr>bytes_acked := TCP_WND_INC (bytes_acked pcb) acked\<rparr>
            in if bytes_acked pcb \<ge> cwnd pcb
               then pcb\<lparr>bytes_acked := bytes_acked pcb - cwnd pcb, cwnd := TCP_WND_INC (cwnd pcb) (mss pcb)\<rparr>
               else pcb))
      else pcb)"

text \<open>The end of a retransmission after a timeout.\<close>

definition ack_rto_done :: "tcp_pcb \<Rightarrow> tcp_pcb" where
  "ack_rto_done pcb =
     (if tcp_is_flag_set TF_RTO pcb \<and>
         (case unacked pcb of
            [] \<Rightarrow> (case unsent pcb of [] \<Rightarrow> True | s # _ \<Rightarrow> TCP_SEQ_LEQ (rto_end pcb) (seqno s))
          | s # _ \<Rightarrow> TCP_SEQ_LEQ (rto_end pcb) (seqno s))
      then tcp_clear_flags TF_RTO pcb else pcb)"

definition ack_new_data :: "tcp_pcb \<Rightarrow> tcp_in \<Rightarrow> tcp_env \<Rightarrow> (tcp_pcb \<times> tcp_in \<times> tcp_env) option" where
  "ack_new_data pcb i e = do {
     let pcb = (if tcp_is_flag_set TF_INFR pcb
                then (tcp_clear_flags TF_INFR pcb)\<lparr>cwnd := ssthresh pcb, bytes_acked := 0\<rparr> else pcb);
     let pcb = pcb\<lparr>nrtx := 0, rto := s16 (sa pcb div 8 + sv pcb)\<rparr>;
     let acked = (ucast (i_ackno i - lastack pcb) :: u16);
     let pcb = ack_congestion acked (pcb\<lparr>dupacks := 0, lastack := i_ackno i\<rparr>);
     (segs, pcb, n, e) \<leftarrow> tcp_free_acked_segments (i_ackno i) (unacked pcb) (unsent pcb) pcb (recv_acked i) e;
     let pcb = pcb\<lparr>unacked := segs\<rparr>;
     (segs, pcb, n, e) \<leftarrow> tcp_free_acked_segments (i_ackno i) (unsent pcb) (unacked pcb) pcb n e;
     let pcb = pcb\<lparr>unsent := segs\<rparr>;
     let pcb = pcb\<lparr>rtime := (if unacked pcb = [] then - 1 else 0), polltmr := 0\<rparr>;
     let pcb = (if unsent pcb = [] then pcb\<lparr>unsent_oversize := 0\<rparr> else pcb);
     let pcb = ack_rto_done (pcb\<lparr>snd_buf := snd_buf pcb + n\<rparr>);
     Some (pcb, i\<lparr>recv_acked := n\<rparr>, e)
   }"

definition ack_rtt :: "tcp_pcb \<Rightarrow> tcp_in \<Rightarrow> tcp_env \<Rightarrow> tcp_pcb" where
  "ack_rtt pcb i e =
     (if rttest pcb \<noteq> 0 \<and> TCP_SEQ_LT (rtseq pcb) (i_ackno i)
      then
        (let m = s16 (uint (tcp_ticks e - rttest pcb));
             m = s16 (m - sa pcb div 8);
             new_sa = s16 (sa pcb + m);
             m = (if m < 0 then s16 (- m) else m);
             m = s16 (m - sv pcb div 4);
             new_sv = s16 (sv pcb + m)
         in pcb\<lparr>sa := new_sa, sv := new_sv, rto := s16 (new_sa div 8 + new_sv), rttest := 0\<rparr>)
      else pcb)"

definition tcp_receive_ack :: "tcp_pcb \<Rightarrow> tcp_in \<Rightarrow> tcp_env \<Rightarrow> (tcp_pcb \<times> tcp_in \<times> tcp_env) option" where
  "tcp_receive_ack pcb i e =
     (if i_flags i AND TCP_ACK \<noteq> 0
      then do {
        let right_wnd_edge = ucast (snd_wnd pcb) + snd_wl2 pcb;
        let pcb = ack_update_window pcb i;
        (pcb, i, e) \<leftarrow>
          (if TCP_SEQ_LEQ (i_ackno i) (lastack pcb) then Some (ack_duplicate right_wnd_edge pcb i, i, e)
           else if TCP_SEQ_BETWEEN (i_ackno i) (lastack pcb + 1) (snd_nxt pcb) then ack_new_data pcb i e
           else (let (_, pcb, e) = tcp_send_empty_ack pcb e in Some (pcb, i, e)));
        Some (ack_rtt pcb i e, i, e)
      }
      else Some (pcb, i, e))"

definition tcp_receive :: "tcp_pcb \<Rightarrow> tcp_in \<Rightarrow> tcp_env \<Rightarrow> (tcp_pcb \<times> tcp_in \<times> tcp_env) option" where
  "tcp_receive pcb i e = do {
     lwip_assert (state pcb \<ge> ESTABLISHED);
     (pcb, i, e) \<leftarrow> tcp_receive_ack pcb i e;
     tcp_receive_data pcb i e
   }"

section \<open>Retransmission\<close>

lemma snd_inv_short': "snd_inv S q z pcb \<Longrightarrow> z \<le> q + 1073741824"
  using snd_inv_short by fastforce

lemma tcp_rexmit_ok:
  assumes "snd_inv S q z pcb" "tcp_rexmit pcb = (err, pcb')"
  shows "snd_inv S q z pcb'" "snd_const pcb' = snd_const pcb" "snd_nxt pcb' = snd_nxt pcb"
    "err = ERR_OK \<Longrightarrow> unacked pcb = s # ss \<Longrightarrow> unacked pcb' = ss \<and> unsent pcb' = seg_insert s (unsent pcb)"
    "snd_buf pcb' = snd_buf pcb"
proof -
  show "snd_const pcb' = snd_const pcb" "snd_nxt pcb' = snd_nxt pcb" "snd_buf pcb' = snd_buf pcb"
    using assms(2) by (auto simp: tcp_rexmit_def Let_def snd_const_def split: list.splits if_splits)
  show "err = ERR_OK \<Longrightarrow> unacked pcb = s # ss \<Longrightarrow> unacked pcb' = ss \<and> unsent pcb' = seg_insert s (unsent pcb)"
    using assms(2) by (auto simp: tcp_rexmit_def Let_def split: if_splits)
  show "snd_inv S q z pcb'"
  proof (cases "unacked pcb' = unacked pcb \<and> unsent pcb' = unsent pcb")
    case True
    moreover have "snd_queuelen pcb' = snd_queuelen pcb" "snd_buf pcb' = snd_buf pcb"
      using assms(2) by (auto simp: tcp_rexmit_def Let_def split: list.splits if_splits)
    ultimately show ?thesis using assms(1) by (auto intro: snd_inv_cong)
  next
    case False
    then obtain s ss where s: "unacked pcb = s # ss" "unacked pcb' = ss" "unsent pcb' = seg_insert s (unsent pcb)"
        "snd_queuelen pcb' = snd_queuelen pcb" "snd_buf pcb' = snd_buf pcb"
      using assms(2) by (auto simp: tcp_rexmit_def Let_def split: list.splits if_splits)
    obtain Q where Q: "Q \<in> shuffles (s # ss) (unsent pcb)" "snd_segs S q Q z" using assms(1) s(1) by (auto simp: snd_inv_def)
    have put: "Q \<in> shuffles ss (seg_insert s (unsent pcb))"
      using shuffles_seg_insert [of Q "unsent pcb" s ss S q z] Q snd_inv_short' [OF assms(1)]
      by (simp add: shuffles_commutes)
    have "slens ss + slens (seg_insert s (unsent pcb)) = slens (unacked pcb) + slens (unsent pcb)"
        "clens ss + clens (seg_insert s (unsent pcb)) = clens (unacked pcb) + clens (unsent pcb)"
      using lens_shuffles [OF put] lens_shuffles [OF Q(1)] s(1) by simp_all
    then show ?thesis using assms(1) put Q(2) s by (auto simp: snd_inv_def)
  qed
qed

lemma tcp_rexmit_fast_ok:
  assumes "snd_inv S q z pcb"
  shows "snd_inv S q z (tcp_rexmit_fast pcb)" "snd_const (tcp_rexmit_fast pcb) = snd_const pcb"
    "snd_nxt (tcp_rexmit_fast pcb) = snd_nxt pcb" "snd_buf (tcp_rexmit_fast pcb) = snd_buf pcb"
proof -
  obtain err p where r: "tcp_rexmit pcb = (err, p)" by fastforce
  note ok = tcp_rexmit_ok [OF assms r]
  show "snd_inv S q z (tcp_rexmit_fast pcb)"
    using ok(1) assms r
    by (auto simp: tcp_rexmit_fast_def Let_def tcp_set_flags_def intro: snd_inv_cong)
  show "snd_const (tcp_rexmit_fast pcb) = snd_const pcb" "snd_nxt (tcp_rexmit_fast pcb) = snd_nxt pcb"
    "snd_buf (tcp_rexmit_fast pcb) = snd_buf pcb"
    using ok(2,3,5) r by (auto simp: tcp_rexmit_fast_def Let_def tcp_set_flags_def snd_const_def)
qed

text \<open>C22: on a connection with no fast retransmit under way, whose oldest unacknowledged segment does not come after the first unsent one,
  fast retransmit puts the oldest unacknowledged segment at the head of the unsent queue and keeps
  the send queue. The slow start threshold becomes half of the smaller window, but at least two
  segments, and the congestion window is three segments above it, without wrap-around for every
  segment size up to \<^verbatim>\<open>TCP_MSS\<close>; the retransmission timer starts anew.\<close>

theorem tcp_rexmit_fast_window:
  assumes "snd_inv S q z pcb" and "unacked pcb = s # ss" and "unsent pcb = [] \<or> \<not> TCP_SEQ_LT (seqno (hd (unsent pcb))) (seqno s)"
    and "\<not> tcp_is_flag_set TF_INFR pcb" and "mss pcb \<le> TCP_MSS"
  defines "pcb' \<equiv> tcp_rexmit_fast pcb"
  shows "snd_inv S q z pcb' \<and> unacked pcb' = ss \<and> unsent pcb' = s # unsent pcb \<and> tcp_is_flag_set TF_INFR pcb' \<and> rtime pcb' = 0 \<and>
    unat (ssthresh pcb') = max (min (unat (cwnd pcb)) (unat (snd_wnd pcb)) div 2) (2 * unat (mss pcb)) \<and>
    unat (cwnd pcb') = unat (ssthresh pcb') + 3 * unat (mss pcb)"
proof -
  obtain Q where Q: "Q \<in> shuffles (unacked pcb) (unsent pcb)" "snd_segs S q Q z" using assms(1) by (auto simp: snd_inv_def)
  then have "s \<in> set Q" using assms(2) by (auto simp: set_shuffles)
  then obtain p where "seg_ok S p s" using snd_segs_mem [OF Q(2)] by blast
  then have "p_ref s = 1" by (simp add: seg_ok_def)
  then obtain p where rex: "tcp_rexmit pcb = (ERR_OK, p)" "mss p = mss pcb" "cwnd p = cwnd pcb" "snd_wnd p = snd_wnd pcb"
    using assms(2) by (auto simp: tcp_rexmit_def tcp_output_segment_busy_def Let_def)
  have queues: "unacked p = ss \<and> unsent p = seg_insert s (unsent pcb)" by (rule tcp_rexmit_ok(4) [OF assms(1) rex(1) refl assms(2)])
  moreover have "seg_insert s (unsent pcb) = s # unsent pcb" using assms(3) by (cases "unsent pcb") simp_all
  ultimately have q': "unacked pcb' = ss" "unsent pcb' = s # unsent pcb"
    using assms(2,4) rex(1) by (simp_all add: pcb'_def tcp_rexmit_fast_def Let_def tcp_set_flags_def)
  have m: "unat (mss pcb) \<le> 1460" using assms(5) by (simp add: word_le_nat_alt TCP_MSS_def)
  have two: "unat (2 * mss pcb) = 2 * unat (mss pcb)" "unat (3 * mss pcb) = 3 * unat (mss pcb)"
    using m by (simp_all add: unat_word_ariths)
  define h where "h = min (cwnd pcb) (snd_wnd pcb) div 2"
  have h: "unat h = min (unat (cwnd pcb)) (unat (snd_wnd pcb)) div 2"
    by (simp add: h_def unat_div_distrib min_def word_le_nat_alt)
  define ss' where "ss' = (if unat h < 2 * unat (mss pcb) then 2 * mss pcb else h)"
  have sst: "ssthresh pcb' = ss'" "cwnd pcb' = ss' + 3 * mss pcb" "rtime pcb' = 0" "flags pcb' = flags p OR TF_INFR"
    using assms(2,4) rex by (simp_all add: pcb'_def tcp_rexmit_fast_def Let_def tcp_set_flags_def ss'_def h_def [symmetric])
  have u: "unat ss' = max (min (unat (cwnd pcb)) (unat (snd_wnd pcb)) div 2) (2 * unat (mss pcb))"
    using two(1) h by (simp add: ss'_def max_def)
  have "unat (ss' + 3 * mss pcb) = unat ss' + 3 * unat (mss pcb)"
    using u two(2) m u16_lt [of "cwnd pcb"] by (subst unat_add_no_wrap) simp_all
  moreover have "(flags p OR TF_INFR) AND TF_INFR \<noteq> 0" by (simp add: bit_eq_iff bit_simps TF_INFR_def) (auto intro: exI [of _ 2])
  ultimately show ?thesis
    using tcp_rexmit_fast_ok(1) [OF assms(1)] q' sst u by (simp add: pcb'_def [symmetric] tcp_is_flag_set_def)
qed

text \<open>An instance: two segments of a small stream in flight.\<close>

lemma example_snd2_ok:
  fixes a q n :: nat and pcb :: tcp_pcb
  assumes "0 < n" "n \<le> 536"
    and pcb: "pcb = (example_snd a (q + n + n) [example_queue q n 0, example_queue (q + n) n 0] [])\<lparr>snd_nxt := sq (q + n + n)\<rparr>"
  shows "snd_inv example_stream q (q + n + n) pcb"
proof -
  have n: "n < 65536" "n + n < 23360" using assms(2) by simp_all
  note s = example_queue_ok [OF assms(1) n(1), of q 0] example_queue_ok [OF assms(1) n(1), of "q + n" 0]
  let ?Q = "[example_queue q n 0, example_queue (q + n) n 0]"
  have segs: "snd_segs example_stream q ?Q (q + n + n)" using s by simp
  have "unat (23360 - word_of_nat (n + n) :: u16) = 23360 - (n + n)"
    using n(2) by (simp add: unat_sub word_le_nat_alt unat_of_nat16 del: of_nat_add)
  then show ?thesis
    using s n(2) segs unfolding snd_inv_def pcb
    by (intro conjI exI [of _ ?Q]) (simp_all add: example_snd_def TCP_SND_BUF_def del: of_nat_add)
qed

theorem tcp_rexmit_fast_window_witness:
  defines "pcb \<equiv> (example_snd 1000 1020 [example_queue 1000 10 0, example_queue 1010 10 0] [])\<lparr>snd_nxt := sq 1020\<rparr>"
  defines "pcb' \<equiv> tcp_rexmit_fast pcb"
  shows "snd_inv example_stream 1000 1020 pcb' \<and> unacked pcb' = [example_queue 1010 10 0] \<and>
    unsent pcb' = example_queue 1000 10 0 # unsent pcb \<and> tcp_is_flag_set TF_INFR pcb' \<and> rtime pcb' = 0 \<and>
    unat (ssthresh pcb') = max (min (unat (cwnd pcb)) (unat (snd_wnd pcb)) div 2) (2 * unat (mss pcb)) \<and>
    unat (cwnd pcb') = unat (ssthresh pcb') + 3 * unat (mss pcb)"
  unfolding pcb'_def
proof (rule tcp_rexmit_fast_window)
  show "snd_inv example_stream 1000 1020 pcb"
    using example_snd2_ok [where n = 10 and q = 1000 and a = 1000] by (simp add: pcb_def)
  show "unacked pcb = example_queue 1000 10 0 # [example_queue 1010 10 0]"
    by (simp add: pcb_def example_snd_def)
  show "unsent pcb = [] \<or> \<not> TCP_SEQ_LT (seqno (hd (unsent pcb))) (seqno (example_queue 1000 10 0))" "\<not> tcp_is_flag_set TF_INFR pcb" "mss pcb \<le> TCP_MSS"
    by (simp_all add: pcb_def example_snd_def tcp_pcb_new_def tcp_is_flag_set_def TCP_MSS_def INITIAL_MSS_def)
qed

section \<open>Acknowledged segments\<close>

definition acked_by :: "u32 \<Rightarrow> tcp_seg \<Rightarrow> bool" where
  "acked_by ackno s \<longleftrightarrow> TCP_SEQ_LEQ (seqno s + TCP_TCPLEN s) ackno"

lemma acked_by_iff:
  assumes "seg_ok S p s" "p + qlen s < b + 2147483648" "b < p + qlen s + 2147483648"
  shows "acked_by (sq b) s \<longleftrightarrow> p + qlen s \<le> b"
proof -
  have "seqno s + TCP_TCPLEN s = sq (p + qlen s)" by (simp add: TCP_TCPLEN_qlen seg_okD(1) [OF assms(1)])
  then show ?thesis unfolding acked_by_def using sq_compare(2) [OF assms(2,3)] by simp
qed

lemma dropWhile_none: "(\<And>x. x \<in> set xs \<Longrightarrow> \<not> P x) \<Longrightarrow> dropWhile P xs = xs"
  by (cases xs) simp_all

lemma shuffles_acked:
  assumes "Q \<in> shuffles A B" "snd_segs S q Q z" "z \<le> q + 1073741824" "q \<le> b" "b \<le> z"
  shows "\<exists>q'. q \<le> q' \<and> q' \<le> b \<and> dropWhile (acked_by (sq b)) Q \<in> shuffles (dropWhile (acked_by (sq b)) A) (dropWhile (acked_by (sq b)) B) \<and>
    snd_segs S q' (dropWhile (acked_by (sq b)) Q) z \<and> (\<forall>s ss. dropWhile (acked_by (sq b)) Q = s # ss \<longrightarrow> b < q' + qlen s)"
  using assms
proof (induction Q arbitrary: q A B)
  case (Cons t Q)
  let ?P = "acked_by (sq b)"
  have t: "seg_ok S q t" "snd_segs S (q + qlen t) Q z" using Cons.prems(2) by simp_all
  have "q + qlen t \<le> z" using snd_segs_le [OF t(2)] by simp
  then have P: "?P t \<longleftrightarrow> q + qlen t \<le> b" using acked_by_iff [OF t(1)] Cons.prems(3-5) by simp
  show ?case
  proof (cases "?P t")
    case True
    from Cons.prems(1) obtain A' B' where AB: "Q \<in> shuffles A' B'" "dropWhile ?P A = dropWhile ?P A'" "dropWhile ?P B = dropWhile ?P B'"
      by (cases rule: shuffles_ConsE) (use True in auto)
    have "z \<le> q + qlen t + 1073741824" using Cons.prems(3) by simp
    from Cons.IH [OF AB(1) t(2) this] P True Cons.prems(5) AB(2,3) show ?thesis by (fastforce dest: le_trans [OF le_add1])
  next
    case False
    have "\<not> ?P u" if "u \<in> set (t # Q)" for u
    proof (cases "u = t")
      case False
      then have "u \<in> set Q" using that by simp
      then obtain p where p: "q + qlen t \<le> p" "p + qlen u \<le> z" "seg_ok S p u" using snd_segs_mem [OF t(2)] by blast
      then show ?thesis
        using acked_by_iff [OF p(3), of b] P \<open>\<not> ?P t\<close> Cons.prems(3-5) by simp
    qed (use False in simp)
    moreover have "set (t # Q) = set A \<union> set B" using Cons.prems(1) set_shuffles by blast
    ultimately have "\<not> ?P u" if "u \<in> set A \<union> set B" for u using that by blast
    then have "dropWhile ?P A = A" "dropWhile ?P B = B" by (blast intro: dropWhile_none)+
    then show ?thesis using False P Cons.prems by (intro exI [of _ q]) auto
  qed
qed auto

lemma tcp_free_acked_segments_ok:
  assumes "unat (snd_queuelen pcb) = clens segs + clens other" "\<And>s. s \<in> set segs \<Longrightarrow> seg_p s \<noteq> []"
  shows "tcp_free_acked_segments ackno segs other pcb acked e =
    Some (dropWhile (acked_by ackno) segs,
      pcb\<lparr>snd_queuelen := word_of_nat (clens (dropWhile (acked_by ackno) segs) + clens other)\<rparr>,
      acked + word_of_nat (slens (takeWhile (acked_by ackno) segs)),
      e\<lparr>tcp_seg_pool := tcp_seg_pool e + length (takeWhile (acked_by ackno) segs)\<rparr>)"
  using assms
proof (induction segs arbitrary: pcb acked e)
  case Nil
  then have "snd_queuelen pcb = word_of_nat (clens other)" by (metis add_0 lens_simps(4) of_nat_unat ucast_id)
  then show ?case by simp
next
  case (Cons s ss)
  let ?n = "length (seg_p s)"
  show ?case
  proof (cases "acked_by ackno s")
    case False
    have "snd_queuelen pcb = word_of_nat (clens (s # ss) + clens other)" using Cons.prems(1) by (metis of_nat_unat ucast_id)
    then show ?thesis using False by (simp add: acked_by_def)
  next
    case True
    have "?n < 65536" using Cons.prems(1) u16_lt [of "snd_queuelen pcb"] by simp
    then have n: "unat (word_of_nat ?n :: u16) = ?n" by (simp add: unat_of_nat16)
    then have le: "snd_queuelen pcb \<ge> word_of_nat ?n" using Cons.prems(1) by (simp add: word_le_nat_alt)
    let ?p = "pcb\<lparr>snd_queuelen := snd_queuelen pcb - word_of_nat ?n\<rparr>"
    have q: "unat (snd_queuelen ?p) = clens ss + clens other" using le n Cons.prems(1) by (simp add: unat_sub)
    have "snd_queuelen ?p = 0 \<or> ss \<noteq> [] \<or> other \<noteq> []" using q by (auto simp: unat_eq_0 [symmetric])
    moreover note Cons.IH [OF q, of "acked + len s" "tcp_seg_free s e"]
    ultimately show ?thesis using True le Cons.prems(2)
      by (simp add: acked_by_def Let_def tcp_seg_free_def add.assoc)
  qed
qed

lemma slens_take_drop: "slens (takeWhile P xs) + slens (dropWhile P xs) = slens xs"
  by (metis lens_simps(3) takeWhile_dropWhile_id)

lemma clens_dropWhile: "clens (dropWhile P xs) \<le> clens xs"
  by (metis lens_simps(6) le_add2 takeWhile_dropWhile_id)

text \<open>The fields that acknowledging does not touch.\<close>

definition ack_const where
  "ack_const pcb = (snd_lbb pcb, mss pcb, state pcb, snd_nxt pcb, rcv_nxt pcb, rcv_wnd pcb, ooseq pcb)"

lemma ack_congestion_fields:
  "unacked (ack_congestion k pcb) = unacked pcb" "unsent (ack_congestion k pcb) = unsent pcb"
  "snd_queuelen (ack_congestion k pcb) = snd_queuelen pcb" "snd_buf (ack_congestion k pcb) = snd_buf pcb"
  "lastack (ack_congestion k pcb) = lastack pcb" "unsent_oversize (ack_congestion k pcb) = unsent_oversize pcb"
  "ack_const (ack_congestion k pcb) = ack_const pcb" "snd_wnd_max (ack_congestion k pcb) = snd_wnd_max pcb"
  by (simp_all add: ack_congestion_def ack_const_def Let_def)

lemma ack_rto_done_fields:
  "unacked (ack_rto_done pcb) = unacked pcb" "unsent (ack_rto_done pcb) = unsent pcb"
  "snd_queuelen (ack_rto_done pcb) = snd_queuelen pcb" "snd_buf (ack_rto_done pcb) = snd_buf pcb"
  "lastack (ack_rto_done pcb) = lastack pcb" "unsent_oversize (ack_rto_done pcb) = unsent_oversize pcb"
  "ack_const (ack_rto_done pcb) = ack_const pcb" "snd_wnd_max (ack_rto_done pcb) = snd_wnd_max pcb"
  "rtime (ack_rto_done pcb) = rtime pcb"
  by (simp_all add: ack_rto_done_def ack_const_def tcp_clear_flags_def)

lemma ack_new_data_ok:
  assumes "snd_inv S q z pcb" "snd_at q z a n pcb" "i_ackno i = sq b" "a < b" "b \<le> n" "recv_acked i = 0"
  shows "\<exists>pcb' acked q'. ack_new_data pcb i e =
      Some (pcb', i\<lparr>recv_acked := acked\<rparr>, e\<lparr>tcp_seg_pool := tcp_seg_pool e + length (unacked pcb) + length (unsent pcb) - length (unacked pcb') - length (unsent pcb')\<rparr>) \<and>
    snd_inv S q' z pcb' \<and> q \<le> q' \<and> snd_at q' z b n pcb' \<and>
    unat acked + slens (unacked pcb') + slens (unsent pcb') = slens (unacked pcb) + slens (unsent pcb) \<and>
    unacked pcb' = dropWhile (acked_by (sq b)) (unacked pcb) \<and> unsent pcb' = dropWhile (acked_by (sq b)) (unsent pcb) \<and>
    (\<forall>s \<in> set (unacked pcb') \<union> set (unsent pcb'). \<exists>p. seg_ok S p s \<and> b < p + qlen s) \<and>
    (tail_ok pcb \<longrightarrow> tail_ok pcb') \<and> ack_const pcb' = ack_const pcb \<and> snd_wnd_max pcb' = snd_wnd_max pcb \<and>
    (rtime pcb' = - 1 \<longleftrightarrow> unacked pcb' = [])"
proof -
  let ?P = "acked_by (sq b)"
  let ?A = "dropWhile ?P (unacked pcb)" and ?B = "dropWhile ?P (unsent pcb)"
  note at = assms(2) [unfolded snd_at_def]
  obtain Q where Q: "Q \<in> shuffles (unacked pcb) (unsent pcb)" "snd_segs S q Q z" using assms(1) by (auto simp: snd_inv_def)
  have b: "q \<le> b" "b \<le> z" using at assms(4,5) by simp_all
  obtain q' where q': "q \<le> q'" "q' \<le> b" "dropWhile ?P Q \<in> shuffles ?A ?B" "snd_segs S q' (dropWhile ?P Q) z"
      "\<And>s ss. dropWhile ?P Q = s # ss \<Longrightarrow> b < q' + qlen s"
    using shuffles_acked [OF Q snd_inv_short' [OF assms(1)] b] by blast
  have ne: "seg_p s \<noteq> []" if "s \<in> set (unacked pcb) \<union> set (unsent pcb)" for s
  proof -
    have "s \<in> set Q" using that Q(1) set_shuffles by blast
    then show ?thesis using snd_segs_mem [OF Q(2)] seg_okD(3) by blast
  qed
  define p0 where "p0 = (if tcp_is_flag_set TF_INFR pcb
      then (tcp_clear_flags TF_INFR pcb)\<lparr>cwnd := ssthresh pcb, bytes_acked := 0\<rparr> else pcb)"
  define p1 where "p1 = ack_congestion (ucast (i_ackno i - lastack (p0\<lparr>nrtx := 0, rto := s16 (sa p0 div 8 + sv p0)\<rparr>)))
      (p0\<lparr>nrtx := 0, rto := s16 (sa p0 div 8 + sv p0)\<rparr>\<lparr>dupacks := 0, lastack := i_ackno i\<rparr>)"
  have p1: "unacked p1 = unacked pcb" "unsent p1 = unsent pcb" "snd_queuelen p1 = snd_queuelen pcb" "snd_buf p1 = snd_buf pcb"
      "lastack p1 = sq b" "unsent_oversize p1 = unsent_oversize pcb" "ack_const p1 = ack_const pcb" "snd_wnd_max p1 = snd_wnd_max pcb"
    unfolding p1_def ack_congestion_fields using assms(3)
    by (simp_all add: p0_def tcp_clear_flags_def ack_const_def)
  have len: "unat (snd_queuelen p1) = clens (unacked pcb) + clens (unsent pcb)"
      "unat (snd_buf p1) + slens (unacked pcb) + slens (unsent pcb) = 23360"
    using assms(1) p1 by (simp_all add: snd_inv_def TCP_SND_BUF_def)
  let ?n1 = "word_of_nat (slens (takeWhile ?P (unacked pcb))) :: u16"
  let ?e1 = "e\<lparr>tcp_seg_pool := tcp_seg_pool e + length (takeWhile ?P (unacked pcb))\<rparr>"
  let ?p2 = "p1\<lparr>snd_queuelen := word_of_nat (clens ?A + clens (unsent pcb)), unacked := ?A\<rparr>"
  have free1: "tcp_free_acked_segments (sq b) (unacked pcb) (unsent pcb) p1 (recv_acked i) e =
      Some (?A, p1\<lparr>snd_queuelen := word_of_nat (clens ?A + clens (unsent pcb))\<rparr>, ?n1, ?e1)"
    using tcp_free_acked_segments_ok [OF len(1), of "sq b" "recv_acked i" e] ne assms(6) by simp
  have q2: "unat (word_of_nat (clens ?A + clens (unsent pcb)) :: u16) = clens ?A + clens (unsent pcb)"
    using len(1) u16_lt [of "snd_queuelen p1"] clens_dropWhile [of ?P "unacked pcb"] by (subst unat_of_nat16) simp_all
  let ?n2 = "?n1 + word_of_nat (slens (takeWhile ?P (unsent pcb))) :: u16"
  let ?e2 = "?e1\<lparr>tcp_seg_pool := tcp_seg_pool ?e1 + length (takeWhile ?P (unsent pcb))\<rparr>"
  have free2: "tcp_free_acked_segments (sq b) (unsent pcb) ?A ?p2 ?n1 ?e1 =
      Some (?B, ?p2\<lparr>snd_queuelen := word_of_nat (clens ?B + clens ?A)\<rparr>, ?n2, ?e2)"
    using tcp_free_acked_segments_ok [of ?p2 "unsent pcb" ?A "sq b" ?n1 ?e1] ne q2 by simp
  define p3 where "p3 = ?p2\<lparr>snd_queuelen := word_of_nat (clens ?B + clens ?A), unsent := ?B,
      rtime := (if ?A = [] then - 1 else 0), polltmr := 0\<rparr>"
  define p4 where "p4 = (if ?B = [] then p3\<lparr>unsent_oversize := 0\<rparr> else p3)"
  define p5 where "p5 = ack_rto_done (p4\<lparr>snd_buf := snd_buf p4 + ?n2\<rparr>)"
  have run: "ack_new_data pcb i e = Some (p5, i\<lparr>recv_acked := ?n2\<rparr>, ?e2)"
  proof -
    have "ack_new_data pcb i e = do {
        (segs, pcb, n, e) \<leftarrow> tcp_free_acked_segments (i_ackno i) (unacked p1) (unsent p1) p1 (recv_acked i) e;
        let pcb = pcb\<lparr>unacked := segs\<rparr>;
        (segs, pcb, n, e) \<leftarrow> tcp_free_acked_segments (i_ackno i) (unsent pcb) (unacked pcb) pcb n e;
        let pcb = pcb\<lparr>unsent := segs\<rparr>;
        let pcb = pcb\<lparr>rtime := (if unacked pcb = [] then - 1 else 0), polltmr := 0\<rparr>;
        let pcb = (if unsent pcb = [] then pcb\<lparr>unsent_oversize := 0\<rparr> else pcb);
        let pcb = ack_rto_done (pcb\<lparr>snd_buf := snd_buf pcb + n\<rparr>);
        Some (pcb, i\<lparr>recv_acked := n\<rparr>, e)
      }"
      unfolding ack_new_data_def Let_def p1_def p0_def by (rule refl)
    then show ?thesis
      using free1 free2 p1(1,2) assms(3)
      by (simp add: Let_def p3_def p4_def p5_def)
  qed
  have p5: "unacked p5 = ?A" "unsent p5 = ?B" "snd_queuelen p5 = word_of_nat (clens ?B + clens ?A)"
      "snd_buf p5 = snd_buf p1 + ?n2" "lastack p5 = sq b" "ack_const p5 = ack_const pcb" "snd_wnd_max p5 = snd_wnd_max pcb"
      "unsent_oversize p5 = (if ?B = [] then 0 else unsent_oversize pcb)" "rtime p5 = (if ?A = [] then - 1 else 0)"
    unfolding p5_def ack_rto_done_fields using p1 by (simp_all add: p4_def p3_def ack_const_def)
  have freed: "slens (takeWhile ?P (unacked pcb)) + slens ?A = slens (unacked pcb)"
      "slens (takeWhile ?P (unsent pcb)) + slens ?B = slens (unsent pcb)"
    by (rule slens_take_drop)+
  have n2: "unat ?n2 = slens (takeWhile ?P (unacked pcb)) + slens (takeWhile ?P (unsent pcb))"
    using freed len(2) unfolding of_nat_add [symmetric] by (subst unat_of_nat16) simp_all
  have "unat (snd_buf p5) = unat (snd_buf p1) + unat ?n2"
    unfolding p5(4) using n2 freed len(2) by (subst unat_add_no_wrap) simp_all
  moreover have "unat (snd_queuelen p5) = clens ?A + clens ?B"
    unfolding p5(3) using q2 len(1) u16_lt [of "snd_queuelen p1"] clens_dropWhile [of ?P "unsent pcb"] clens_dropWhile [of ?P "unacked pcb"]
    by (subst unat_of_nat16) simp_all
  ultimately have inv: "snd_inv S q' z p5"
    using q'(3,4) p5(1,2) freed n2 len(2) by (auto simp: snd_inv_def TCP_SND_BUF_def)
  have at': "snd_at q' z b n p5" using at assms(5) q'(2) p5(5,6) by (simp add: snd_at_def ack_const_def)
  have beyond: "\<exists>p. seg_ok S p s \<and> b < p + qlen s" if "s \<in> set ?A \<union> set ?B" for s
  proof -
    have "s \<in> set (dropWhile ?P Q)" using that set_shuffles [OF q'(3)] by simp
    then obtain t ts where ts: "dropWhile ?P Q = t # ts" "s \<in> set (t # ts)" by (cases "dropWhile ?P Q") auto
    have t: "seg_ok S q' t" "snd_segs S (q' + qlen t) ts z" "b < q' + qlen t" using q'(4,5) ts(1) by simp_all
    then show ?thesis using ts(2) snd_segs_mem [OF t(2), of s] by force
  qed
  have tail: "tail_ok p5" if "tail_ok pcb"
  proof -
    have "mss p5 = mss pcb" using p5(6) by (simp add: ack_const_def)
    note m = tcp_mss_local_cong [OF this p5(7)]
    have "last ?B = last (unsent pcb)" "unsent pcb \<noteq> []" if "?B \<noteq> []"
      using that by (metis dropWhile.simps(1) last_appendR takeWhile_dropWhile_id, metis dropWhile.simps(1))
    then show ?thesis using \<open>tail_ok pcb\<close> p5(2,8) m by (auto simp: tail_ok_def tail_fits_def)
  qed
  have pool: "length (takeWhile ?P xs) = length xs - length (dropWhile ?P xs) \<and> length (dropWhile ?P xs) \<le> length xs" for xs
    by (metis add_diff_cancel_right' le_add2 length_append takeWhile_dropWhile_id)
  have "?e2 = e\<lparr>tcp_seg_pool := tcp_seg_pool e + length (unacked pcb) + length (unsent pcb) - length (unacked p5) - length (unsent p5)\<rparr>"
    using pool [of "unacked pcb"] pool [of "unsent pcb"] p5(1,2) by simp
  then show ?thesis
    using run inv at' beyond tail p5 n2 freed q'(1)
    by (intro exI [of _ p5] exI [of _ ?n2] exI [of _ q']) simp
qed

lemma ack_position:
  assumes "\<not> TCP_SEQ_LEQ x (sq a)" "TCP_SEQ_BETWEEN x (sq a + 1) (sq n)" "a \<le> n" "n \<le> a + 1073741824"
  shows "\<exists>b. x = sq b \<and> a < b \<and> b \<le> n"
proof -
  define d where "d = unat (x - sq a)"
  have x: "x = sq (a + d)" by (simp add: d_def)
  have "\<not> TCP_SEQ_LT x (sq a)" using assms(1) by (auto simp: TCP_SEQ_LEQ_def TCP_SEQ_LT_def)
  then have small: "d < 2147483648"
    by (simp add: TCP_SEQ_LT_TIME TIME_LESS_THAN_def LWIP_MAX_TIMEOUT_def d_def word_less_nat_alt)
  have "0 < d" using assms(1) x by (cases d) (auto simp: TCP_SEQ_LEQ_def)
  moreover have "TCP_SEQ_LEQ (sq (a + d)) (sq n) \<longleftrightarrow> a + d \<le> n" using small assms(3,4) by (intro sq_compare(2)) linarith+
  ultimately show ?thesis using assms(2) x unfolding TCP_SEQ_BETWEEN_def by (intro exI [of _ "a + d"]) simp
qed

lemma ack_update_window_fields:
  "unacked (ack_update_window pcb i) = unacked pcb" "unsent (ack_update_window pcb i) = unsent pcb"
  "snd_queuelen (ack_update_window pcb i) = snd_queuelen pcb" "snd_buf (ack_update_window pcb i) = snd_buf pcb"
  "lastack (ack_update_window pcb i) = lastack pcb" "snd_nxt (ack_update_window pcb i) = snd_nxt pcb"
  "snd_lbb (ack_update_window pcb i) = snd_lbb pcb" "mss (ack_update_window pcb i) = mss pcb"
  "state (ack_update_window pcb i) = state pcb"
  by (simp_all add: ack_update_window_def Let_def)

lemma ack_rtt_fields:
  "unacked (ack_rtt pcb i e) = unacked pcb" "unsent (ack_rtt pcb i e) = unsent pcb"
  "snd_queuelen (ack_rtt pcb i e) = snd_queuelen pcb" "snd_buf (ack_rtt pcb i e) = snd_buf pcb"
  "lastack (ack_rtt pcb i e) = lastack pcb" "snd_nxt (ack_rtt pcb i e) = snd_nxt pcb"
  "snd_lbb (ack_rtt pcb i e) = snd_lbb pcb" "mss (ack_rtt pcb i e) = mss pcb" "state (ack_rtt pcb i e) = state pcb"
  by (simp_all add: ack_rtt_def Let_def)

lemma ack_duplicate_ok:
  assumes "snd_inv S q z pcb"
  shows "snd_inv S q z (ack_duplicate w pcb i)" "snd_const (ack_duplicate w pcb i) = snd_const pcb"
    "snd_nxt (ack_duplicate w pcb i) = snd_nxt pcb" "snd_buf (ack_duplicate w pcb i) = snd_buf pcb"
proof -
  define p1 where "p1 = (if dupacks pcb + 1 > dupacks pcb then pcb\<lparr>dupacks := dupacks pcb + 1\<rparr> else pcb)"
  define p2 where "p2 = (if dupacks p1 > 3 then p1\<lparr>cwnd := TCP_WND_INC (cwnd p1) (mss p1)\<rparr> else p1)"
  have p1: "snd_inv S q z p1" "snd_const p1 = snd_const pcb" "snd_nxt p1 = snd_nxt pcb" "snd_buf p1 = snd_buf pcb"
    using assms by (auto simp: p1_def snd_inv_def snd_const_def)
  have p2: "snd_inv S q z p2" "snd_const p2 = snd_const pcb" "snd_nxt p2 = snd_nxt pcb" "snd_buf p2 = snd_buf pcb"
    using p1 by (auto simp: p2_def snd_inv_def snd_const_def)
  have "ack_duplicate w pcb i \<in> {p2, tcp_rexmit_fast p2, pcb\<lparr>dupacks := 0\<rparr>}"
    unfolding ack_duplicate_def Let_def p1_def [symmetric] p2_def [symmetric] by simp
  moreover have "snd_inv S q z (pcb\<lparr>dupacks := 0\<rparr>)" using assms by (simp add: snd_inv_def)
  ultimately show "snd_inv S q z (ack_duplicate w pcb i)" "snd_const (ack_duplicate w pcb i) = snd_const pcb"
    "snd_nxt (ack_duplicate w pcb i) = snd_nxt pcb" "snd_buf (ack_duplicate w pcb i) = snd_buf pcb"
    using p2 tcp_rexmit_fast_ok [OF p2(1)] by (auto simp: snd_const_def)
qed

lemma tcp_receive_ack_ok:
  assumes "snd_inv S q z pcb" and "snd_at q z a n pcb" and "recv_acked i = 0"
  shows "\<exists>pcb' i' e' q' b. tcp_receive_ack pcb i e = Some (pcb', i', e') \<and> q \<le> q' \<and> a \<le> b \<and>
    snd_inv S q' z pcb' \<and> snd_at q' z b n pcb' \<and> snd_lbb pcb' = snd_lbb pcb \<and> state pcb' = state pcb \<and> mss pcb' = mss pcb \<and>
    unat (snd_buf pcb') = unat (snd_buf pcb) + unat (recv_acked i') \<and>
    (a < b \<longrightarrow> i_ackno i = sq b \<and> (\<forall>s \<in> set (unacked pcb') \<union> set (unsent pcb'). \<exists>p. seg_ok S p s \<and> b < p + qlen s)) \<and>
    (a = b \<longrightarrow> recv_acked i' = 0)"
proof -
  define p where "p = ack_update_window pcb i"
  note p = ack_update_window_fields [of pcb i, folded p_def]
  have inv: "snd_inv S q z p" using assms(1) p by (simp add: snd_inv_cong)
  have at: "snd_at q z a n p" using assms(2) p by (simp add: snd_at_def)
  note at' = at [unfolded snd_at_def]
  have buf: "unat (snd_buf p) + slens (unacked p) + slens (unsent p) = 23360" using inv by (simp add: snd_inv_def TCP_SND_BUF_def)
  have quiet: ?thesis if "tcp_receive_ack pcb i e = Some (p', i, e')" "snd_inv S q z p'" "snd_const p' = snd_const p"
      "snd_nxt p' = snd_nxt p" "snd_buf p' = snd_buf p" for p' e'
    unfolding that(1) using that(2-5) assms(3) at' p
    by (intro exI [of _ p'] exI [of _ i] exI [of _ e'] exI [of _ q] exI [of _ a]) (simp add: snd_const_def snd_at_def)
  show ?thesis
  proof (cases "i_flags i AND TCP_ACK = 0")
    case True
    then show ?thesis using assms
      by (intro exI [of _ pcb] exI [of _ i] exI [of _ e] exI [of _ q] exI [of _ a]) (simp add: tcp_receive_ack_def snd_at_def)
  next
    case False
    show ?thesis
    proof (cases "TCP_SEQ_LEQ (i_ackno i) (lastack p)")
      case True
      define d where "d = ack_duplicate (ucast (snd_wnd pcb) + snd_wl2 pcb) p i"
      note d = ack_duplicate_ok [OF inv, of "ucast (snd_wnd pcb) + snd_wl2 pcb" i, folded d_def]
      show ?thesis
        using False True d ack_rtt_fields [of d i e]
        by (intro quiet [of "ack_rtt d i e" e])
          (simp_all add: tcp_receive_ack_def p_def [symmetric] d_def [symmetric] snd_const_def snd_inv_def ack_rtt_def Let_def)
    next
      case notold: False
      show ?thesis
      proof (cases "TCP_SEQ_BETWEEN (i_ackno i) (lastack p + 1) (snd_nxt p)")
        case True
        then obtain b where b: "i_ackno i = sq b" "a < b" "b \<le> n"
          using ack_position [of "i_ackno i" a n] notold at' snd_inv_short' [OF inv] by auto
        obtain p' acked q' e' where new: "ack_new_data p i e = Some (p', i\<lparr>recv_acked := acked\<rparr>, e')"
            "snd_inv S q' z p'" "q \<le> q'" "snd_at q' z b n p'"
            "unat acked + slens (unacked p') + slens (unsent p') = slens (unacked p) + slens (unsent p)"
            "\<forall>s \<in> set (unacked p') \<union> set (unsent p'). \<exists>p. seg_ok S p s \<and> b < p + qlen s" "ack_const p' = ack_const p"
          using ack_new_data_ok [OF inv at b assms(3), of e] by blast
        let ?r = "ack_rtt p' (i\<lparr>recv_acked := acked\<rparr>) e'"
        have run: "tcp_receive_ack pcb i e = Some (?r, i\<lparr>recv_acked := acked\<rparr>, e')"
          using False notold True new(1) by (simp add: tcp_receive_ack_def p_def [symmetric])
        note r = ack_rtt_fields [of p' "i\<lparr>recv_acked := acked\<rparr>" e']
        have "unat (snd_buf p') + slens (unacked p') + slens (unsent p') = 23360" using new(2) by (simp add: snd_inv_def TCP_SND_BUF_def)
        then have "unat (snd_buf ?r) = unat (snd_buf pcb) + unat acked" using buf new(5) r p by simp
        moreover have "snd_inv S q' z ?r" using new(2) r by (simp add: snd_inv_cong)
        moreover have "snd_at q' z b n ?r" using new(4) r by (simp add: snd_at_def)
        ultimately show ?thesis
          unfolding run using new(3,6,7) b r p
          by (intro exI [of _ ?r] exI [of _ "i\<lparr>recv_acked := acked\<rparr>"] exI [of _ e'] exI [of _ q'] exI [of _ b])
            (simp add: ack_const_def)
      next
        case out: False
        obtain err p' e' where ack: "tcp_send_empty_ack p e = (err, p', e')" by (cases "tcp_send_empty_ack p e")
        note part = tcp_send_empty_ack_part(1) [OF ack]
        have "tcp_receive_ack pcb i e = Some (ack_rtt p' i e', i, e')"
          using False notold out ack by (simp add: tcp_receive_ack_def p_def [symmetric])
        then show ?thesis
          using snd_part_inv [OF part] inv part ack_rtt_fields [of p' i e']
          by (intro quiet [of "ack_rtt p' i e'" e']) (simp_all add: snd_part_def snd_const_def snd_inv_def ack_rtt_def Let_def)
      qed
    qed
  qed
qed

text \<open>C20: every acknowledgement keeps the send queue. Whatever numbers and window the segment carries,
  \<^verbatim>\<open>tcp_receive\<close> fails no assertion in its acknowledgement part. \<^verbatim>\<open>lastack\<close> moves only to an
  acknowledged position that was sent; exactly the segments that end there or before are freed, the
  bytes they held are returned to \<^verbatim>\<open>snd_buf\<close> and counted in \<^verbatim>\<open>recv_acked\<close>, and the written bytes
  behind stay on the queues.\<close>

theorem tcp_receive_ack_frees:
  assumes "snd_inv S q z pcb" and "snd_at q z a n pcb" and "recv_acked i = 0"
  shows "\<exists>pcb' i' e' q' b. tcp_receive_ack pcb i e = Some (pcb', i', e') \<and> q \<le> q' \<and> a \<le> b \<and>
    snd_inv S q' z pcb' \<and> snd_at q' z b n pcb' \<and> snd_lbb pcb' = snd_lbb pcb \<and> state pcb' = state pcb \<and> mss pcb' = mss pcb \<and>
    unat (snd_buf pcb') = unat (snd_buf pcb) + unat (recv_acked i') \<and>
    (a < b \<longrightarrow> i_ackno i = sq b \<and> (\<forall>s \<in> set (unacked pcb') \<union> set (unsent pcb'). \<exists>p. seg_ok S p s \<and> b < p + qlen s)) \<and>
    (a = b \<longrightarrow> recv_acked i' = 0)"
  using assms by (rule tcp_receive_ack_ok)

theorem tcp_receive_ack_frees_witness:
  defines "pcb \<equiv> (example_snd 1000 1020 [example_queue 1000 10 0, example_queue 1010 10 0] [])\<lparr>snd_nxt := sq 1020\<rparr>"
  defines "i \<equiv> (example_in 0 0)\<lparr>i_flags := TCP_ACK, i_ackno := sq 1010\<rparr>"
  shows "\<exists>pcb' i' e' q' b. tcp_receive_ack pcb i example_env = Some (pcb', i', e') \<and> 1000 \<le> q' \<and> 1000 \<le> b \<and>
    snd_inv example_stream q' 1020 pcb' \<and> snd_at q' 1020 b 1020 pcb' \<and> snd_lbb pcb' = snd_lbb pcb \<and> state pcb' = state pcb \<and> mss pcb' = mss pcb \<and>
    unat (snd_buf pcb') = unat (snd_buf pcb) + unat (recv_acked i') \<and>
    (1000 < b \<longrightarrow> i_ackno i = sq b \<and>
      (\<forall>s \<in> set (unacked pcb') \<union> set (unsent pcb'). \<exists>p. seg_ok example_stream p s \<and> b < p + qlen s)) \<and>
    (1000 = b \<longrightarrow> recv_acked i' = 0)"
proof (rule tcp_receive_ack_frees)
  show "snd_inv example_stream 1000 1020 pcb"
    using example_snd2_ok [where n = 10 and q = 1000 and a = 1000] by (simp add: pcb_def)
  show "snd_at 1000 1020 1000 1020 pcb" by (simp add: snd_at_def pcb_def example_snd_def)
  show "recv_acked i = 0" by (simp add: i_def example_in_def)
qed

end
