(* ===== verification/Tcp_Frame.thy ===== *)
theory Tcp_Frame
  imports Tcp_Ack
begin

text \<open>
  The two directions of a connection are independent: the functions of the sending side leave the
  receive window and \<^verbatim>\<open>ooseq\<close> alone and put the current \<^verbatim>\<open>rcv_nxt\<close> into every segment, and the data
  part of \<^verbatim>\<open>tcp_receive\<close> leaves the send queue alone.
\<close>

section \<open>The sending side keeps the receive window\<close>

definition rcv_part where
  "rcv_part pcb = (rcv_nxt pcb, rcv_wnd pcb, rcv_ann_wnd pcb, ooseq pcb)"

text \<open>A segment that goes out announces the window; nothing else of the receiving side changes.\<close>

definition rcv_kept :: "tcp_pcb \<Rightarrow> tcp_pcb \<Rightarrow> bool" where
  "rcv_kept pcb pcb' \<longleftrightarrow>
     rcv_part pcb' = rcv_part pcb \<and>
     rcv_ann_right_edge pcb' \<in> {rcv_ann_right_edge pcb, rcv_nxt pcb + ucast (rcv_ann_wnd pcb)}"

definition log_acks :: "u32 \<Rightarrow> tcp_env \<Rightarrow> tcp_env \<Rightarrow> bool" where
  "log_acks k e e' \<longleftrightarrow> (\<exists>ts. tx_log e' = tx_log e @ ts \<and> (\<forall>t \<in> set ts. tx_ackno t = k))"

definition snd_frame :: "tcp_pcb \<times> tcp_env \<Rightarrow> tcp_pcb \<times> tcp_env \<Rightarrow> bool" where
  "snd_frame x y \<longleftrightarrow> rcv_kept (fst x) (fst y) \<and> log_acks (rcv_nxt (fst x)) (snd x) (snd y)"

named_theorems frame_simps

lemma rcv_kept_refl [simp]: "rcv_kept pcb pcb"
  by (simp add: rcv_kept_def)

lemma log_acks_refl [simp]: "tx_log e' = tx_log e \<Longrightarrow> log_acks k e e'"
  by (simp add: log_acks_def)

lemma rcv_kept_trans: "rcv_kept p1 p2 \<Longrightarrow> rcv_kept p2 p3 \<Longrightarrow> rcv_kept p1 p3"
  by (auto simp: rcv_kept_def rcv_part_def)

lemma log_acks_trans: "log_acks k e1 e2 \<Longrightarrow> log_acks k e2 e3 \<Longrightarrow> log_acks k e1 e3"
  by (auto simp: log_acks_def)

lemma snd_frame_trans: "snd_frame x y \<Longrightarrow> snd_frame y z \<Longrightarrow> snd_frame x z"
proof -
  assume "snd_frame x y" "snd_frame y z"
  moreover from this have "rcv_nxt (fst y) = rcv_nxt (fst x)" by (simp add: snd_frame_def rcv_kept_def rcv_part_def)
  ultimately show ?thesis unfolding snd_frame_def using rcv_kept_trans log_acks_trans by metis
qed

lemma snd_frame_same: "rcv_part p' = rcv_part p \<Longrightarrow> rcv_ann_right_edge p' = rcv_ann_right_edge p \<Longrightarrow> tx_log e' = tx_log e \<Longrightarrow>
  snd_frame (p, e) (p', e')"
  by (simp add: snd_frame_def rcv_kept_def)

lemma snd_frame_refl [simp]: "snd_frame x x"
  by (cases x) (simp add: snd_frame_same)

lemma rcv_at_kept:
  assumes "rcv_at r edge pcb" "rcv_kept pcb pcb'"
  shows "rcv_at r edge pcb'"
proof -
  have "rcv_nxt pcb + ucast (rcv_ann_wnd pcb) = sq (r + unat (rcv_ann_wnd pcb))"
    using rcv_atD(1) [OF assms(1)] sq_ucast [of r "rcv_ann_wnd pcb"] by simp
  moreover have "r + unat (rcv_ann_wnd pcb) \<le> edge" "edge < r + 65536"
    using assms(1) rcv_atD(4) [OF assms(1)] by (simp_all add: rcv_at_def)
  ultimately show ?thesis using assms unfolding rcv_at_def edge_at_def rcv_kept_def rcv_part_def
    by (auto intro: exI [of _ "r + unat (rcv_ann_wnd pcb)"])
qed

lemma frame_flags [frame_simps]:
  "rcv_part (tcp_set_flags f p) = rcv_part p" "rcv_part (tcp_clear_flags f p) = rcv_part p"
  "rcv_ann_right_edge (tcp_set_flags f p) = rcv_ann_right_edge p" "rcv_ann_right_edge (tcp_clear_flags f p) = rcv_ann_right_edge p"
  by (simp_all add: rcv_part_def tcp_set_flags_def tcp_clear_flags_def)

lemma tcp_send_empty_ack_frame:
  "tcp_send_empty_ack pcb e = (err, pcb', e') \<Longrightarrow> snd_frame (pcb, e) (pcb', e')"
  by (auto simp: tcp_send_empty_ack_def tcp_output_control_segment_def tcp_output_alloc_header_def announced_def frame_simps
      tcp_output_alloc_header_common_def snd_frame_def rcv_kept_def rcv_part_def log_acks_def tcp_set_flags_def
      tcp_clear_flags_def split: option.splits if_splits)

lemma tcp_output_segment_frame:
  "tcp_output_segment seg pcb netif e = Some (err, pcb', e') \<Longrightarrow> snd_frame (pcb, e) (pcb', e')"
  by (auto simp: tcp_output_segment_def announced_def Let_def snd_frame_def rcv_kept_def rcv_part_def log_acks_def
      bind_eq_Some_conv lwip_assert_def split: option.splits if_splits)

lemma tcp_output_sent_frame:
  "tcp_output_sent seg segs pcb e = (pcb', e') \<Longrightarrow> snd_frame (pcb, e) (pcb', e')"
  by (auto simp: tcp_output_sent_def Let_def tcp_seg_free_def tcp_clear_flags_def rcv_part_def
      intro!: snd_frame_same split: if_splits)

lemma tcp_output_loop_frame:
  "tcp_output_loop wnd netif segs pcb e = Some (err, pcb', e') \<Longrightarrow> snd_frame (pcb, e) (pcb', e')"
proof (induction segs arbitrary: pcb e)
  case Nil
  then show ?case by (auto intro: snd_frame_same)
next
  case (Cons seg segs)
  show ?case
  proof (cases "seqno seg - lastack pcb + ucast (len seg) \<le> wnd \<and> hdr seg AND TCP_RST = 0 \<and>
      \<not> (\<not> tcp_do_output_nagle pcb \<and> \<not> tcp_is_flag_set (TF_NAGLEMEMERR OR TF_FIN) pcb)")
    case False
    then show ?thesis using Cons.prems by (auto simp: lwip_assert_def intro: snd_frame_same split: if_splits)
  next
    case True
    let ?seg = "if state pcb \<noteq> SYN_SENT then seg\<lparr>hdr := hdr seg OR TCP_ACK\<rparr> else seg"
    obtain err1 p1 e1 where out: "tcp_output_segment ?seg (pcb\<lparr>unsent := ?seg # segs\<rparr>) netif e = Some (err1, p1, e1)"
      using Cons.prems True by (auto simp: lwip_assert_def Let_def bind_eq_Some_conv simp del: split_paired_Ex split: if_splits)
    have f1: "snd_frame (pcb, e) (p1, e1)"
      using snd_frame_trans [OF snd_frame_same tcp_output_segment_frame [OF out], of pcb e]
      by (simp add: rcv_part_def)
    show ?thesis
    proof (cases "err1 = ERR_OK")
      case False
      then have "pcb' = tcp_set_flags TF_NAGLEMEMERR p1" "e' = e1"
        using Cons.prems True out by (auto simp: lwip_assert_def Let_def split: if_splits)
      then show ?thesis using snd_frame_trans [OF f1 snd_frame_same] by (simp add: frame_simps)
    next
      case ok: True
      obtain p2 e2 where sent: "tcp_output_sent ?seg segs p1 e1 = (p2, e2)" by fastforce
      have "tcp_output_loop wnd netif segs p2 e2 = Some (err, pcb', e')"
        using Cons.prems True out ok sent by (auto simp: lwip_assert_def Let_def split: if_splits)
      then have "snd_frame (p2, e2) (pcb', e')" by (rule Cons.IH)
      then show ?thesis using snd_frame_trans [OF f1] snd_frame_trans [OF tcp_output_sent_frame [OF sent]] by blast
    qed
  qed
qed

lemma snd_frame_before:
  "snd_frame (p, e) y \<Longrightarrow> rcv_part p = rcv_part pcb \<Longrightarrow> rcv_ann_right_edge p = rcv_ann_right_edge pcb \<Longrightarrow> snd_frame (pcb, e) y"
  by (rule snd_frame_trans [OF snd_frame_same]) simp_all

lemma snd_frame_after:
  "snd_frame x (p, e) \<Longrightarrow> rcv_part p' = rcv_part p \<Longrightarrow> rcv_ann_right_edge p' = rcv_ann_right_edge p \<Longrightarrow> snd_frame x (p', e)"
  by (rule snd_frame_trans [OF _ snd_frame_same]) simp_all

lemma tcp_output_quiet_frame:
  "tcp_output_quiet pcb e = Some (err, pcb', e') \<Longrightarrow> snd_frame (pcb, e) (pcb', e')"
  using tcp_send_empty_ack_frame [of pcb e err pcb' e']
  by (auto simp: tcp_output_quiet_def frame_simps intro: snd_frame_same split: if_splits)

lemma tcp_output_frame:
  assumes "tcp_output input pcb e = Some (err, pcb', e')"
  shows "snd_frame (pcb, e) (pcb', e')"
proof (cases "input \<or> unsent pcb = []")
  case True
  then have "pcb' = pcb \<and> e' = e \<or> tcp_output_quiet pcb e = Some (err, pcb', e')"
    using assms by (auto simp: tcp_output_def tcp_output_quiet_def Let_def lwip_assert_bind_Some split: if_splits)
  then show ?thesis using tcp_output_quiet_frame by auto
next
  case False
  then obtain s segs where segs: "unsent pcb = s # segs" by (cases "unsent pcb") auto
  let ?wnd = "ucast (min (snd_wnd pcb) (cwnd pcb)) :: u32"
  show ?thesis
  proof (cases "\<exists>netif ip. tcp_route pcb (local_ip pcb) (remote_ip pcb) e = Some netif \<and>
      (if ip_addr_isany (local_ip pcb) then nif_local_ip netif (remote_ip pcb) else Some (local_ip pcb)) = Some ip")
    case False
    then have "pcb' = pcb \<and> e' = e"
      using assms \<open>\<not> (input \<or> unsent pcb = [])\<close> segs
      by (auto simp: tcp_output_def Let_def lwip_assert_bind_Some split: if_splits option.splits)
    then show ?thesis by (auto intro: snd_frame_same)
  next
    case True
    then obtain netif ip where route: "tcp_route pcb (local_ip pcb) (remote_ip pcb) e = Some netif"
        "(if ip_addr_isany (local_ip pcb) then nif_local_ip netif (remote_ip pcb) else Some (local_ip pcb)) = Some ip" by auto
    let ?p = "pcb\<lparr>local_ip := ip\<rparr>"
    have run: "tcp_output input pcb e = do {
        lwip_assert (state pcb \<noteq> LISTEN);
        if seqno s - lastack ?p + ucast (len s) > ?wnd
        then tcp_output_quiet (if ?wnd = ucast (snd_wnd ?p) \<and> unacked ?p = [] \<and> persist_backoff ?p = 0
          then ?p\<lparr>persist_cnt := 0, persist_backoff := 1, persist_probe := 0\<rparr> else ?p) e
        else do {
          (err, pcb, e) \<leftarrow> tcp_output_loop ?wnd netif (s # segs) (?p\<lparr>persist_backoff := 0\<rparr>) e;
          if err \<noteq> ERR_OK then Some (err, pcb, e)
          else Some (ERR_OK, tcp_clear_flags TF_NAGLEMEMERR (if unsent pcb = [] then pcb\<lparr>unsent_oversize := 0\<rparr> else pcb), e)
        }
      }"
      using False route segs by (simp add: tcp_output_def tcp_output_quiet_def Let_def)
    show ?thesis
    proof (cases "seqno s - lastack ?p + ucast (len s) > ?wnd")
      case True
      then show ?thesis
        using assms run tcp_output_quiet_frame [THEN snd_frame_before, of _ _ err pcb' e' pcb]
        by (auto simp: lwip_assert_bind_Some rcv_part_def split: if_splits)
    next
      case False
      then obtain err1 p1 where loop: "tcp_output_loop ?wnd netif (s # segs) (?p\<lparr>persist_backoff := 0\<rparr>) e = Some (err1, p1, e')"
          "pcb' = p1 \<or> pcb' = tcp_clear_flags TF_NAGLEMEMERR (if unsent p1 = [] then p1\<lparr>unsent_oversize := 0\<rparr> else p1)"
        using assms unfolding run
        by (auto simp: lwip_assert_bind_Some bind_eq_Some_conv simp del: tcp_output_loop.simps split: if_splits)
      have "snd_frame (pcb, e) (p1, e')"
        by (rule snd_frame_before [OF tcp_output_loop_frame [OF loop(1)]]) (simp_all add: rcv_part_def)
      then show ?thesis by (rule snd_frame_after) (use loop(2) in \<open>auto simp: rcv_part_def tcp_clear_flags_def\<close>)
    qed
  qed
qed

lemma tcp_write_checks_frame:
  "tcp_write_checks pcb n = Some (err, p) \<Longrightarrow> p = pcb \<or> p = tcp_set_flags TF_NAGLEMEMERR pcb"
  by (auto simp: tcp_write_checks_def lwip_assert_bind_Some split: if_splits)

lemma write_finish_frame:
  "write_finish pcb buf fl added old queue ql ov e = Some (err, p, e') \<Longrightarrow>
     rcv_part p = rcv_part pcb \<and> rcv_ann_right_edge p = rcv_ann_right_edge pcb"
  "tcp_write_memerr queue pcb e = Some (err, p, e') \<Longrightarrow>
     rcv_part p = rcv_part pcb \<and> rcv_ann_right_edge p = rcv_ann_right_edge pcb"
  unfolding write_finish_def tcp_write_memerr_def Let_def lwip_assert_bind_Some
  by (auto simp: frame_simps) (simp_all add: rcv_part_def)

lemma tcp_write_frame:
  assumes "tcp_write pcb buf fl e = Some (err, pcb', e')" "tx_log e' = tx_log e"
  shows "snd_frame (pcb, e) (pcb', e')"
proof -
  obtain err1 p where checks: "tcp_write_checks pcb (word_of_nat (length buf)) = Some (err1, p)"
    using assms(1) by (auto simp: tcp_write_def Let_def bind_eq_Some_conv)
  have p: "err1 = ERR_OK \<longrightarrow> p = pcb" using checks
    by (auto simp: tcp_write_checks_def lwip_assert_bind_Some split: if_splits)
  show ?thesis
  proof (cases "err1 = ERR_OK")
    case False
    then have "pcb' = p" using assms(1) checks by (simp add: tcp_write_def)
    then show ?thesis using tcp_write_checks_frame [OF checks] assms(2) by (auto simp: frame_simps intro!: snd_frame_same)
  next
    case True
    then have "tcp_write_checks pcb (word_of_nat (length buf)) = Some (ERR_OK, pcb)" using checks p by simp
    from assms(1) [unfolded tcp_write_run [OF this]]
    have "(\<exists>queue e1. tcp_write_memerr queue pcb e1 = Some (err, pcb', e')) \<or>
        (\<exists>(added :: u8 list) old queue ql ov e1. write_finish pcb buf fl added old queue ql ov e1 = Some (err, pcb', e'))"
      unfolding bind_eq_Some_conv Let_def
      by (auto simp: bind_eq_Some_conv split: option.splits prod.splits if_splits) (blast+)
    then show ?thesis using write_finish_frame assms(2) by (blast intro: snd_frame_same)
  qed
qed

lemma tcp_rexmit_frame:
  "tcp_rexmit pcb = (err, p) \<Longrightarrow> rcv_part p = rcv_part pcb \<and> rcv_ann_right_edge p = rcv_ann_right_edge pcb"
  "tcp_rexmit_rto_prepare pcb = (err, p) \<Longrightarrow> rcv_part p = rcv_part pcb \<and> rcv_ann_right_edge p = rcv_ann_right_edge pcb"
  by (auto simp: tcp_rexmit_def tcp_rexmit_rto_prepare_def rcv_part_def Let_def tcp_set_flags_def split: list.splits if_splits)

lemma rcv_part_fields [frame_simps]:
  "rcv_part (p\<lparr>cwnd := w\<rparr>) = rcv_part p" "rcv_part (p\<lparr>ssthresh := w\<rparr>) = rcv_part p" "rcv_part (p\<lparr>rtime := t\<rparr>) = rcv_part p"
  "rcv_part (p\<lparr>dupacks := d\<rparr>) = rcv_part p" "rcv_part (p\<lparr>unacked := q\<rparr>) = rcv_part p" "rcv_part (p\<lparr>unsent := q\<rparr>) = rcv_part p"
  by (simp_all add: rcv_part_def)

lemma tcp_rexmit_fast_frame:
  "rcv_part (tcp_rexmit_fast pcb) = rcv_part pcb" "rcv_ann_right_edge (tcp_rexmit_fast pcb) = rcv_ann_right_edge pcb"
proof -
  obtain err p where r: "tcp_rexmit pcb = (err, p)" by fastforce
  note f = tcp_rexmit_frame(1) [OF r]
  show "rcv_part (tcp_rexmit_fast pcb) = rcv_part pcb" "rcv_ann_right_edge (tcp_rexmit_fast pcb) = rcv_ann_right_edge pcb"
    using f by (simp_all add: tcp_rexmit_fast_def Let_def r frame_simps)
qed

lemma ack_parts_frame:
  "rcv_part (ack_update_window pcb i) = rcv_part pcb" "rcv_ann_right_edge (ack_update_window pcb i) = rcv_ann_right_edge pcb"
  "rcv_part (ack_rtt pcb i e) = rcv_part pcb" "rcv_ann_right_edge (ack_rtt pcb i e) = rcv_ann_right_edge pcb"
  "rcv_part (ack_congestion n pcb) = rcv_part pcb" "rcv_ann_right_edge (ack_congestion n pcb) = rcv_ann_right_edge pcb"
  "rcv_part (ack_rto_done pcb) = rcv_part pcb" "rcv_ann_right_edge (ack_rto_done pcb) = rcv_ann_right_edge pcb"
proof -
  show "rcv_part (ack_update_window pcb i) = rcv_part pcb" "rcv_ann_right_edge (ack_update_window pcb i) = rcv_ann_right_edge pcb"
    by (simp_all add: ack_update_window_def Let_def rcv_part_def)
  show "rcv_part (ack_rtt pcb i e) = rcv_part pcb" "rcv_ann_right_edge (ack_rtt pcb i e) = rcv_ann_right_edge pcb"
    by (simp_all add: ack_rtt_def Let_def rcv_part_def)
  show "rcv_part (ack_congestion n pcb) = rcv_part pcb" "rcv_ann_right_edge (ack_congestion n pcb) = rcv_ann_right_edge pcb"
    by (simp_all add: ack_congestion_def Let_def rcv_part_def)
  have "ack_rto_done pcb \<in> {pcb, tcp_clear_flags TF_RTO pcb}" by (simp add: ack_rto_done_def)
  then show "rcv_part (ack_rto_done pcb) = rcv_part pcb" "rcv_ann_right_edge (ack_rto_done pcb) = rcv_ann_right_edge pcb"
    by (auto simp: frame_simps)
qed

lemma ack_duplicate_frame:
  "rcv_part (ack_duplicate w pcb i) = rcv_part pcb" "rcv_ann_right_edge (ack_duplicate w pcb i) = rcv_ann_right_edge pcb"
  by (simp_all add: ack_duplicate_def Let_def tcp_rexmit_fast_frame frame_simps)

lemma tcp_free_acked_segments_frame:
  "tcp_free_acked_segments ackno segs other pcb n e = Some (segs', p, n', e') \<Longrightarrow>
     rcv_part p = rcv_part pcb \<and> rcv_ann_right_edge p = rcv_ann_right_edge pcb \<and> tx_log e' = tx_log e"
  by (induction segs arbitrary: pcb n e)
    (fastforce simp: Let_def lwip_assert_bind_Some rcv_part_def tcp_seg_free_def split: if_splits)+

lemma ack_new_data_frame:
  assumes "ack_new_data pcb i e = Some (p, i', e')"
  shows "snd_frame (pcb, e) (p, e') \<and> (\<exists>n. i' = i\<lparr>recv_acked := n\<rparr>)"
proof -
  define p1 where "p1 = ack_congestion (ucast (i_ackno i - lastack pcb))
    ((if tcp_is_flag_set TF_INFR pcb then (tcp_clear_flags TF_INFR pcb)\<lparr>cwnd := ssthresh pcb, bytes_acked := 0\<rparr> else pcb)
       \<lparr>nrtx := 0, rto := s16 (sa pcb div 8 + sv pcb), dupacks := 0, lastack := i_ackno i\<rparr>)"
  have p1: "rcv_part p1 = rcv_part pcb" "rcv_ann_right_edge p1 = rcv_ann_right_edge pcb"
    unfolding p1_def ack_parts_frame by (simp_all add: rcv_part_def tcp_clear_flags_def)
  have "ack_new_data pcb i e = do {
      (segs, pcb, n, e) \<leftarrow> tcp_free_acked_segments (i_ackno i) (unacked p1) (unsent p1) p1 (recv_acked i) e;
      let pcb = pcb\<lparr>unacked := segs\<rparr>;
      (segs, pcb, n, e) \<leftarrow> tcp_free_acked_segments (i_ackno i) (unsent pcb) (unacked pcb) pcb n e;
      let pcb = pcb\<lparr>unsent := segs\<rparr>;
      let pcb = pcb\<lparr>rtime := (if unacked pcb = [] then - 1 else 0), polltmr := 0\<rparr>;
      let pcb = (if unsent pcb = [] then pcb\<lparr>unsent_oversize := 0\<rparr> else pcb);
      Some (ack_rto_done (pcb\<lparr>snd_buf := snd_buf pcb + n\<rparr>), i\<lparr>recv_acked := n\<rparr>, e)
    }"
    unfolding ack_new_data_def Let_def p1_def by (simp add: tcp_clear_flags_def)
  with assms have "do {
      (segs, pcb, n, e) \<leftarrow> tcp_free_acked_segments (i_ackno i) (unacked p1) (unsent p1) p1 (recv_acked i) e;
      let pcb = pcb\<lparr>unacked := segs\<rparr>;
      (segs, pcb, n, e) \<leftarrow> tcp_free_acked_segments (i_ackno i) (unsent pcb) (unacked pcb) pcb n e;
      let pcb = pcb\<lparr>unsent := segs\<rparr>;
      let pcb = pcb\<lparr>rtime := (if unacked pcb = [] then - 1 else 0), polltmr := 0\<rparr>;
      let pcb = (if unsent pcb = [] then pcb\<lparr>unsent_oversize := 0\<rparr> else pcb);
      Some (ack_rto_done (pcb\<lparr>snd_buf := snd_buf pcb + n\<rparr>), i\<lparr>recv_acked := n\<rparr>, e)
    } = Some (p, i', e')" by simp
  then obtain segs p2 n e1 where run1:
      "tcp_free_acked_segments (i_ackno i) (unacked p1) (unsent p1) p1 (recv_acked i) e = Some (segs, p2, n, e1)"
      "do {
        (segs, pcb, n, e) \<leftarrow> tcp_free_acked_segments (i_ackno i) (unsent p2) segs (p2\<lparr>unacked := segs\<rparr>) n e1;
        let pcb = pcb\<lparr>unsent := segs\<rparr>;
        let pcb = pcb\<lparr>rtime := (if unacked pcb = [] then - 1 else 0), polltmr := 0\<rparr>;
        let pcb = (if unsent pcb = [] then pcb\<lparr>unsent_oversize := 0\<rparr> else pcb);
        Some (ack_rto_done (pcb\<lparr>snd_buf := snd_buf pcb + n\<rparr>), i\<lparr>recv_acked := n\<rparr>, e)
      } = Some (p, i', e')"
    unfolding bind_eq_Some_conv [of "tcp_free_acked_segments (i_ackno i) (unacked p1) (unsent p1) p1 (recv_acked i) e"]
    by (auto simp del: Let_def)
  obtain segs' p3 n' where run2:
      "tcp_free_acked_segments (i_ackno i) (unsent p2) segs (p2\<lparr>unacked := segs\<rparr>) n e1 = Some (segs', p3, n', e')"
      "i' = i\<lparr>recv_acked := n'\<rparr>" "\<exists>p4. p = ack_rto_done p4 \<and> rcv_part p4 = rcv_part p3 \<and>
         rcv_ann_right_edge p4 = rcv_ann_right_edge p3"
  proof -
    obtain segs' p3 n' e3 where f: "tcp_free_acked_segments (i_ackno i) (unsent p2) segs (p2\<lparr>unacked := segs\<rparr>) n e1 = Some (segs', p3, n', e3)"
      using run1(2) by (auto simp: bind_eq_Some_conv)
    let ?p4 = "p3\<lparr>unsent := segs'\<rparr>\<lparr>rtime := (if unacked (p3\<lparr>unsent := segs'\<rparr>) = [] then - 1 else 0), polltmr := 0\<rparr>"
    let ?p5 = "if unsent ?p4 = [] then ?p4\<lparr>unsent_oversize := 0\<rparr> else ?p4"
    have "Some (ack_rto_done (?p5\<lparr>snd_buf := snd_buf ?p5 + n'\<rparr>), i\<lparr>recv_acked := n'\<rparr>, e3) = Some (p, i', e')"
      using run1(2) f by (simp add: Let_def)
    then show thesis using f by (intro that [of segs' p3 n']) (auto simp: rcv_part_def)
  qed
  then obtain p4 where p4: "p = ack_rto_done p4" "rcv_part p4 = rcv_part p3" "rcv_ann_right_edge p4 = rcv_ann_right_edge p3"
    by blast
  have "rcv_part (p2\<lparr>unacked := segs\<rparr>) = rcv_part p2" by (simp add: rcv_part_def)
  then show ?thesis
    using tcp_free_acked_segments_frame [OF run1(1)] tcp_free_acked_segments_frame [OF run2(1)] p1 p4 run2(2)
    by (auto intro!: snd_frame_same simp: ack_parts_frame)
qed

lemma tcp_receive_ack_frame:
  assumes "tcp_receive_ack pcb i e = Some (p, i', e')"
  shows "snd_frame (pcb, e) (p, e') \<and> (\<exists>n. i' = i\<lparr>recv_acked := n\<rparr>)"
proof (cases "i_flags i AND TCP_ACK = 0")
  case True
  then have "p = pcb" "i' = i" "e' = e" using assms by (simp_all add: tcp_receive_ack_def)
  moreover have "i = i\<lparr>recv_acked := recv_acked i\<rparr>" by simp
  ultimately show ?thesis by (metis snd_frame_same)
next
  case False
  let ?w = "ucast (snd_wnd pcb) + snd_wl2 pcb"
  let ?q = "ack_update_window pcb i"
  have same: "i = i\<lparr>recv_acked := recv_acked i\<rparr>" by simp
  obtain p1 e1 where part: "p = ack_rtt p1 i' e'" "e1 = e'"
      "p1 = ack_duplicate ?w ?q i \<and> i' = i \<and> e' = e \<or> ack_new_data ?q i e = Some (p1, i', e') \<or>
       (\<exists>err. tcp_send_empty_ack ?q e = (err, p1, e')) \<and> i' = i"
    using assms False by (auto simp: tcp_receive_ack_def Let_def bind_eq_Some_conv split: if_splits prod.splits)
  have "snd_frame (?q, e) (p1, e') \<and> (\<exists>n. i' = i\<lparr>recv_acked := n\<rparr>)"
    using part(3) ack_new_data_frame [of ?q i e p1 i' e'] tcp_send_empty_ack_frame same
    by (metis snd_frame_same ack_duplicate_frame)
  then show ?thesis
    using snd_frame_before [of ?q e "(p1, e')" pcb] snd_frame_after [of "(pcb, e)" p1 e' p]
    by (simp add: part(1) ack_parts_frame)
qed

section \<open>The receiving side keeps the send queue\<close>

definition snd_data where
  "snd_data pcb = (unacked pcb, unsent pcb, snd_queuelen pcb, snd_buf pcb, lastack pcb, snd_nxt pcb, snd_lbb pcb,
     unsent_oversize pcb, mss pcb, snd_wnd_max pcb)"

definition log_empty :: "tcp_env \<Rightarrow> tcp_env \<Rightarrow> u32 \<Rightarrow> bool" where
  "log_empty e e' k \<longleftrightarrow>
     (\<exists>ts. tx_log e' = tx_log e @ ts \<and> (\<forall>t \<in> set ts. tx_data t = [] \<and> tx_hdr t = TCP_ACK \<and> tx_ackno t = k))"

lemma log_empty_refl [simp]: "tx_log e' = tx_log e \<Longrightarrow> log_empty e e' k"
  by (simp add: log_empty_def)

lemma log_empty_same: "tx_log e1 = tx_log e \<Longrightarrow> log_empty e1 e' k = log_empty e e' k"
  by (simp add: log_empty_def)

text \<open>Only a FIN changes the state.\<close>

definition rcv_frame :: "tcp_pcb \<times> tcp_env \<Rightarrow> tcp_pcb \<times> tcp_in \<times> tcp_env \<Rightarrow> bool" where
  "rcv_frame x y \<longleftrightarrow>
     (case (x, y) of ((pcb, e), (pcb', i', e')) \<Rightarrow>
        snd_data pcb' = snd_data pcb \<and> (state pcb' = state pcb \<or> got_fin i') \<and> log_empty e e' (rcv_nxt pcb) \<and>
        rcv_ann_right_edge pcb' \<in> {rcv_ann_right_edge pcb, rcv_nxt pcb + ucast (rcv_ann_wnd pcb)})"

lemma tcp_segs_free_log [simp]: "tx_log (tcp_segs_free ss e) = tx_log e" "tx_log (tcp_seg_free s e) = tx_log e"
  by (induction ss arbitrary: e) (simp_all add: tcp_seg_free_def)

lemma tcp_seg_copy_log: "tcp_seg_copy s e = Some (c, e') \<Longrightarrow> tx_log e' = tx_log e"
  by (auto simp: tcp_seg_copy_def split: if_splits)

lemma rcv_covered_log: "rcv_covered i ns e = (i', ns', e') \<Longrightarrow> tx_log e' = tx_log e"
  by (induction ns arbitrary: i e) (auto simp: Let_def split: if_splits)

lemma oos_covered_log: "oos_covered sno c ns e = (c', ns', e') \<Longrightarrow> tx_log e' = tx_log e"
  by (induction ns arbitrary: c e) (auto split: if_splits)

lemma tcp_oos_insert_segment_log: "tcp_oos_insert_segment sno c ns e = (q, e') \<Longrightarrow> tx_log e' = tx_log e"
  by (auto simp: tcp_oos_insert_segment_def dest: oos_covered_log split: if_splits prod.splits list.splits)

lemma oos_append_log: "oos_append pcb next i e = Some (q, i', e') \<Longrightarrow> tx_log e' = tx_log e"
  by (auto simp: oos_append_def Let_def dest: tcp_seg_copy_log split: option.splits if_splits)

lemma copy_insert_log:
  "tcp_seg_copy s e = Some (c, e1) \<Longrightarrow> tcp_oos_insert_segment sno c ns e1 = (q, e') \<Longrightarrow> tx_log e' = tx_log e"
  using tcp_seg_copy_log tcp_oos_insert_segment_log by metis

lemma oos_walk_log:
  "oos_walk pcb i prev ns e = Some (q, i', e') \<Longrightarrow> tx_log e' = tx_log e"
proof (induction ns arbitrary: prev e q i')
  case (Cons t ns)
  show ?case
    using Cons.prems
    by (auto simp: Let_def bind_eq_Some_conv dest: copy_insert_log oos_append_log Cons.IH
        split: if_splits option.splits prod.splits)
qed simp

lemma snd_data_fields [frame_simps]:
  "snd_data (p\<lparr>ooseq := q\<rparr>) = snd_data p" "snd_data (p\<lparr>rcv_nxt := r\<rparr>) = snd_data p" "snd_data (p\<lparr>rcv_wnd := w\<rparr>) = snd_data p"
  "snd_data (p\<lparr>rcv_ann_wnd := w\<rparr>) = snd_data p" "snd_data (p\<lparr>state := t\<rparr>) = snd_data p" "snd_data (tcp_ack p) = snd_data p"
  "snd_data (tcp_ack_now p) = snd_data p" "snd_data (announced p) = snd_data p" "snd_data (p\<lparr>flags := f\<rparr>) = snd_data p"
  "state (tcp_ack p) = state p" "state (tcp_ack_now p) = state p" "rcv_nxt (tcp_ack_now p) = rcv_nxt p"
  "rcv_ann_right_edge (tcp_ack p) = rcv_ann_right_edge p" "rcv_ann_right_edge (tcp_ack_now p) = rcv_ann_right_edge p"
  "rcv_ann_wnd (tcp_ack_now p) = rcv_ann_wnd p"
  by (simp_all add: snd_data_def tcp_ack_def tcp_ack_now_def tcp_set_flags_def tcp_clear_flags_def announced_def)

lemma rcv_advance_frame:
  "rcv_advance n pcb = Some p \<Longrightarrow>
     snd_data p = snd_data pcb \<and> state p = state pcb \<and> rcv_ann_right_edge p = rcv_ann_right_edge pcb"
  by (auto simp: rcv_advance_def tcp_update_rcv_ann_wnd_def Let_def frame_simps split: if_splits)

lemma got_fin_seqno [simp]: "got_fin (i\<lparr>i_seqno := n\<rparr>) = got_fin i"
  by (simp add: got_fin_def)

lemma rcv_dequeue_got_fin: "rcv_dequeue cs pcb i e = Some (p, i', e') \<Longrightarrow> got_fin i \<Longrightarrow> got_fin i'"
proof (induction cs arbitrary: pcb i e)
  case (Cons c cs)
  then show ?case
    by (cases "seqno c = rcv_nxt pcb") (auto simp: Let_def bind_eq_Some_conv)
qed simp

lemma rcv_dequeue_frame:
  "rcv_dequeue cs pcb i e = Some (p, i', e') \<Longrightarrow>
     snd_data p = snd_data pcb \<and> (state p = state pcb \<or> got_fin i') \<and> tx_log e' = tx_log e \<and>
     rcv_ann_right_edge p = rcv_ann_right_edge pcb"
proof (induction cs arbitrary: pcb i e)
  case (Cons c cs)
  show ?case
  proof (cases "seqno c = rcv_nxt pcb")
    case True
    obtain p1 where p1: "rcv_advance (TCP_TCPLEN c) pcb = Some p1" using Cons.prems True by (auto simp: bind_eq_Some_conv)
    let ?i = "rcv_got_fin c (rcv_pass_data (seg_p c) (i\<lparr>i_seqno := seqno c\<rparr>))"
    let ?p = "if has_hdr TCP_FIN c \<and> state p1 = ESTABLISHED then p1\<lparr>state := CLOSE_WAIT\<rparr> else p1"
    have run: "rcv_dequeue cs ?p ?i (tcp_seg_free c e) = Some (p, i', e')"
      using Cons.prems True p1 by (simp add: Let_def)
    have "got_fin i'" if "has_hdr TCP_FIN c" using rcv_dequeue_got_fin [OF run] that by simp
    then show ?thesis using Cons.IH [OF run] rcv_advance_frame [OF p1] by (auto simp: frame_simps split: if_splits)
  qed (use Cons.prems in \<open>auto simp: frame_simps\<close>)
qed (auto simp: frame_simps)

lemma rcv_in_sequence_frame:
  assumes "rcv_in_sequence pcb i e = Some (p, i', e')"
  shows "rcv_frame (pcb, e) (p, i', e')"
proof -
  obtain i1 p2 i2 e2 p3 i3 p4 where run: "rcv_adjust_ooseq pcb i1 e = Some (p2, i2, e2)"
      "rcv_advance (ucast (tcplen i2)) (p2\<lparr>rcv_nxt := i_seqno i2\<rparr>) = Some p3"
      "rcv_dequeue (ooseq p3) p3 i3 e2 = Some (p4, i', e')" "p = tcp_ack p4"
    using assms unfolding rcv_in_sequence_def Let_def by (clarsimp simp: bind_eq_Some_conv)
  have "snd_data p2 = snd_data pcb" "state p2 = state pcb" "tx_log e2 = tx_log e" "rcv_ann_right_edge p2 = rcv_ann_right_edge pcb"
    using run(1) by (auto simp: rcv_adjust_ooseq_def bind_eq_Some_conv frame_simps dest: rcv_covered_log split: if_splits prod.splits)
  then show ?thesis
    using rcv_advance_frame [OF run(2)] rcv_dequeue_frame [OF run(3)] run(4) by (auto simp: rcv_frame_def frame_simps)
qed

lemma tcp_send_empty_ack_rcv_frame:
  assumes "tcp_send_empty_ack p e = (err, p', e')" "snd_data p = snd_data pcb" "state p = state pcb" "rcv_nxt p = rcv_nxt pcb"
    "rcv_ann_wnd p = rcv_ann_wnd pcb" "rcv_ann_right_edge p = rcv_ann_right_edge pcb"
  shows "rcv_frame (pcb, e) (p', i', e')"
proof -
  note part = tcp_send_empty_ack_part [OF assms(1)]
  obtain ts where "tx_log e' = tx_log e @ ts" "\<forall>t \<in> set ts. tx_data t = [] \<and> tx_hdr t = TCP_ACK" using part(2) by blast
  moreover obtain us where "tx_log e' = tx_log e @ us" "\<forall>t \<in> set us. tx_ackno t = rcv_nxt pcb"
    using tcp_send_empty_ack_frame [OF assms(1)] assms(4) by (auto simp: snd_frame_def log_acks_def)
  ultimately have "tx_log e' = tx_log e @ ts" "\<forall>t \<in> set ts. tx_data t = [] \<and> tx_hdr t = TCP_ACK \<and> tx_ackno t = rcv_nxt pcb"
    by simp_all
  then have "log_empty e e' (rcv_nxt pcb)" unfolding log_empty_def by blast
  moreover have "snd_data p' = snd_data p" "state p' = state p" using part(1) by (simp_all add: snd_part_def snd_data_def)
  moreover have "rcv_ann_right_edge p' \<in> {rcv_ann_right_edge pcb, rcv_nxt pcb + ucast (rcv_ann_wnd pcb)}"
    using tcp_send_empty_ack_frame [OF assms(1)] assms(4-6) by (simp add: snd_frame_def rcv_kept_def)
  ultimately show ?thesis using assms(2,3) by (simp add: rcv_frame_def)
qed

lemma tcp_receive_data_frame:
  assumes "tcp_receive_data pcb i e = Some (p, i', e')"
  shows "rcv_frame (pcb, e) (p, i', e')"
proof (cases "tcplen i > 0 \<and> state pcb < CLOSE_WAIT")
  case False
  then have "(p = tcp_ack_now pcb \<or> p = pcb) \<and> e' = e" using assms by (auto simp: tcp_receive_data_def split: if_splits)
  then show ?thesis by (auto simp: rcv_frame_def frame_simps)
next
  case True
  then obtain p1 i1 where front: "rcv_trim_front pcb i = Some (p1, i1)" "rcv_in_window p1 i1 e = Some (p, i', e')"
    using assms by (auto simp: tcp_receive_data_def bind_eq_Some_conv split: if_splits)
  have p1: "snd_data p1 = snd_data pcb" "state p1 = state pcb" "rcv_nxt p1 = rcv_nxt pcb"
      "rcv_ann_wnd p1 = rcv_ann_wnd pcb" "rcv_ann_right_edge p1 = rcv_ann_right_edge pcb"
    using front(1) by (auto simp: rcv_trim_front_def Let_def bind_eq_Some_conv frame_simps split: if_splits)
  have "rcv_frame (p1, e) (p, i', e')"
  proof -
    consider (seq) "rcv_in_sequence p1 i1 e = Some (p, i', e')" | (oos) "rcv_out_of_sequence p1 i1 e = Some (p, i', e')"
      | (out) err where "tcp_send_empty_ack p1 e = (err, p, e')"
      using front(2) by (auto simp: rcv_in_window_def split: if_splits prod.splits)
    then show ?thesis
    proof cases
      case seq
      then show ?thesis by (rule rcv_in_sequence_frame)
    next
      case oos
      then obtain q i2 e2 where q1: "(if ooseq p1 = []
            then (case tcp_seg_copy (inseg i1) e of None \<Rightarrow> Some ([], i1, e) | Some (cseg, e) \<Rightarrow> Some ([cseg], i1, e))
            else oos_walk p1 i1 None (ooseq p1) e) = Some (q, i2, e2)"
          "(let (err, pcb, e) = tcp_send_empty_ack (p1\<lparr>ooseq := q\<rparr>) e2 in Some (pcb, i2, e)) = Some (p, i', e')"
        unfolding rcv_out_of_sequence_def bind_eq_Some_conv by auto
      obtain err where q: "tcp_send_empty_ack (p1\<lparr>ooseq := q\<rparr>) e2 = (err, p, e')"
        using q1(2) by (cases "tcp_send_empty_ack (p1\<lparr>ooseq := q\<rparr>) e2") auto
      have log: "tx_log e2 = tx_log e"
        using q1(1) by (auto dest: tcp_seg_copy_log oos_walk_log split: if_splits option.splits)
      have "rcv_frame (p1, e2) (p, i', e')"
        by (rule tcp_send_empty_ack_rcv_frame [OF q]) (simp_all add: frame_simps)
      then show ?thesis using log_empty_same [OF log] by (simp add: rcv_frame_def)
    next
      case out
      then show ?thesis by (rule tcp_send_empty_ack_rcv_frame) simp_all
    qed
  qed
  then show ?thesis using p1 by (simp add: rcv_frame_def)
qed

end
