(* ===== verification/Tcp_App.thy ===== *)
theory Tcp_App
  imports Tcp_Frame
begin

text \<open>
  What the application calls on a connection that receives, \<^verbatim>\<open>tcp_recved\<close> of \<^verbatim>\<open>core/tcp.c\<close>: it opens
  the window for the bytes that the application has taken.
\<close>

definition TCP_WND_UPDATE_THRESHOLD :: u32 where
  "TCP_WND_UPDATE_THRESHOLD = ucast (min (TCP_WND div 4) (TCP_MSS * 4))"

definition tcp_recved :: "bool \<Rightarrow> tcp_pcb \<Rightarrow> u16 \<Rightarrow> tcp_env \<Rightarrow> (tcp_pcb \<times> tcp_env) option" where
  "tcp_recved input pcb n e = do {
     lwip_assert (state pcb \<noteq> LISTEN);
     let w = rcv_wnd pcb + n;
     let pcb = (if w > TCP_WND \<or> w < rcv_wnd pcb then pcb\<lparr>rcv_wnd := TCP_WND\<rparr> else pcb\<lparr>rcv_wnd := w\<rparr>);
     (wnd_inflation, pcb) \<leftarrow> tcp_update_rcv_ann_wnd pcb;
     if wnd_inflation \<ge> TCP_WND_UPDATE_THRESHOLD
     then do { (_, pcb, e) \<leftarrow> tcp_output input (tcp_ack_now pcb) e; Some (pcb, e) }
     else Some (pcb, e)
   }"

text \<open>The send queue and the positions of a connection, with the announced edge.\<close>

lemma snd_inv_data: "snd_data pcb' = snd_data pcb \<Longrightarrow> snd_inv S q z pcb' = snd_inv S q z pcb"
  by (simp add: snd_data_def snd_inv_def)

lemma snd_at_data: "snd_data pcb' = snd_data pcb \<Longrightarrow> snd_at q z a n pcb' = snd_at q z a n pcb"
  by (simp add: snd_data_def snd_at_def)

text \<open>The callbacks run while \<^verbatim>\<open>tcp_input_pcb\<close> is the block, and \<^verbatim>\<open>tcp_output\<close> then does nothing.\<close>

lemma tcp_output_any:
  assumes "snd_inv S q z pcb" "snd_at q z a n pcb" "state pcb \<noteq> LISTEN"
  shows "\<exists>err pcb' e' n'. tcp_output input pcb e = Some (err, pcb', e') \<and>
    snd_inv S q z pcb' \<and> n \<le> n' \<and> snd_at q z a n' pcb' \<and>
    snd_lbb pcb' = snd_lbb pcb \<and> mss pcb' = mss pcb \<and> state pcb' = state pcb \<and>
    (\<exists>ts. tx_log e' = tx_log e @ ts \<and> (\<forall>t \<in> set ts. tx_sent S q (a + unat (send_window pcb)) t))"
proof (cases input)
  case True
  then have "tcp_output input pcb e = Some (ERR_OK, pcb, e)" using assms(3) by (simp add: tcp_output_def)
  then show ?thesis using assms(1,2) by (intro exI [of _ ERR_OK] exI [of _ pcb] exI [of _ e] exI [of _ n]) simp
next
  case False
  then show ?thesis using tcp_output_ok [OF assms, of e] by fastforce
qed

lemma tcp_recved_window:
  fixes pcb :: tcp_pcb and n :: u16
  assumes "rcv_at r edge pcb" "rcv_ann_right_edge pcb = sq a" "a \<le> edge" "r + 65536 \<le> a + 1073741824" "rcv_wnd pcb \<le> TCP_WND"
  defines "w \<equiv> rcv_wnd pcb + n"
  shows "\<exists>k v p edge'. tcp_update_rcv_ann_wnd
      (if w > TCP_WND \<or> w < rcv_wnd pcb then pcb\<lparr>rcv_wnd := TCP_WND\<rparr> else pcb\<lparr>rcv_wnd := w\<rparr>) = Some (k, p) \<and>
    p = pcb\<lparr>rcv_wnd := v, rcv_ann_wnd := rcv_ann_wnd p\<rparr> \<and> v \<le> TCP_WND \<and> edge \<le> edge' \<and> rcv_at r edge' p"
proof -
  define v where "v = (if w > TCP_WND \<or> w < rcv_wnd pcb then TCP_WND else w)"
  define edge' where "edge' = r + unat v"
  have p: "(if w > TCP_WND \<or> w < rcv_wnd pcb then pcb\<lparr>rcv_wnd := TCP_WND\<rparr> else pcb\<lparr>rcv_wnd := w\<rparr>) = pcb\<lparr>rcv_wnd := v\<rparr>"
    by (simp add: v_def)
  have v: "rcv_wnd pcb \<le> v" "v \<le> TCP_WND" using assms(5) by (auto simp: v_def not_less)
  note r = rcv_atD [OF assms(1)]
  have edge: "edge \<le> edge'" "edge' < r + 65536"
    using v(1) r(3,5) u16_lt [of v] by (simp_all add: edge'_def word_le_nat_alt)
  have "edge_at r edge' (pcb\<lparr>rcv_wnd := v\<rparr>)"
    using r(1) assms(2-4) edge by (auto simp: edge_at_def edge'_def intro: exI [of _ a])
  then obtain k x where "tcp_update_rcv_ann_wnd (pcb\<lparr>rcv_wnd := v\<rparr>) = Some (k, pcb\<lparr>rcv_wnd := v\<rparr>\<lparr>rcv_ann_wnd := x\<rparr>)"
      "rcv_at r edge' (pcb\<lparr>rcv_wnd := v\<rparr>\<lparr>rcv_ann_wnd := x\<rparr>)"
    using tcp_update_rcv_ann_wnd_ok by blast
  then show ?thesis unfolding p using v(2) edge(1)
    by (intro exI [of _ k] exI [of _ v] exI [of _ "pcb\<lparr>rcv_wnd := v\<rparr>\<lparr>rcv_ann_wnd := x\<rparr>"] exI [of _ edge']) simp
qed

text \<open>\<^verbatim>\<open>tcp_recved\<close> moves the right edge of the window forward or not at all and keeps both queues.\<close>

lemma tcp_recved_ok:
  assumes "rcv_at r edge pcb" "rcv_ann_right_edge pcb = sq b" "b \<le> edge" "r + 65536 \<le> b + 1073741824" "rcv_wnd pcb \<le> TCP_WND"
    and "snd_inv S q z pcb" "snd_at q z a n pcb" "state pcb \<noteq> LISTEN"
  shows "\<exists>pcb' e' edge' n'. tcp_recved input pcb k e = Some (pcb', e') \<and> edge \<le> edge' \<and> rcv_at r edge' pcb' \<and>
    rcv_wnd pcb' \<le> TCP_WND \<and> ooseq pcb' = ooseq pcb \<and>
    (\<exists>b' \<ge> min r b. b' \<le> edge' \<and> rcv_ann_right_edge pcb' = sq b') \<and>
    snd_inv S q z pcb' \<and> n \<le> n' \<and> snd_at q z a n' pcb' \<and> snd_lbb pcb' = snd_lbb pcb \<and> mss pcb' = mss pcb \<and> state pcb' = state pcb \<and>
    (\<exists>ts. tx_log e' = tx_log e @ ts \<and>
       (\<forall>t \<in> set ts. tx_sent S q (a + unat (send_window pcb)) t \<and> tx_ackno t = sq r))"
proof -
  let ?w = "rcv_wnd pcb + k"
  obtain infl v p edge' where p: "tcp_update_rcv_ann_wnd
      (if ?w > TCP_WND \<or> ?w < rcv_wnd pcb then pcb\<lparr>rcv_wnd := TCP_WND\<rparr> else pcb\<lparr>rcv_wnd := ?w\<rparr>) = Some (infl, p)"
    "p = pcb\<lparr>rcv_wnd := v, rcv_ann_wnd := rcv_ann_wnd p\<rparr>" "v \<le> TCP_WND" "edge \<le> edge'" "rcv_at r edge' p"
    using tcp_recved_window [OF assms(1-5)] by blast
  have same: "snd_data p = snd_data pcb" "state p = state pcb" "ooseq p = ooseq pcb" "rcv_wnd p = v"
      "rcv_ann_right_edge p = sq b" "mss p = mss pcb" "snd_lbb p = snd_lbb pcb" "send_window p = send_window pcb"
    using assms(2) by (subst p(2); simp add: snd_data_def send_window_def)+
  have inv: "snd_inv S q z p" "snd_at q z a n p" using snd_inv_data snd_at_data same(1) assms(6,7) by blast+
  have step: "tcp_recved input pcb k e =
      (if infl \<ge> TCP_WND_UPDATE_THRESHOLD
       then do { (_, pcb, e) \<leftarrow> tcp_output input (tcp_ack_now p) e; Some (pcb, e) } else Some (p, e))"
    unfolding tcp_recved_def Let_def p(1) using assms(8) by simp
  show ?thesis
  proof (cases "infl \<ge> TCP_WND_UPDATE_THRESHOLD")
    case False
    then have "tcp_recved input pcb k e = Some (p, e)" using step by simp
    then show ?thesis using p inv same assms(3)
      by (intro exI [of _ p] exI [of _ e] exI [of _ edge'] exI [of _ n]) (auto intro: exI [of _ b])
  next
    case True
    let ?p = "tcp_ack_now p"
    have ack: "snd_data ?p = snd_data p" "state ?p = state p" "rcv_part ?p = rcv_part p" "rcv_ann_right_edge ?p = rcv_ann_right_edge p"
        "mss ?p = mss p" "snd_lbb ?p = snd_lbb p" "send_window ?p = send_window p"
      by (simp_all add: tcp_ack_now_def tcp_set_flags_def snd_data_def rcv_part_def send_window_def)
    have pre: "snd_inv S q z ?p" "snd_at q z a n ?p" "state ?p \<noteq> LISTEN"
      using inv ack(1,2) same(2) assms(8) snd_inv_data [OF ack(1)] snd_at_data [OF ack(1)] by simp_all
    obtain err pcb' e' n' ts where out: "tcp_output input ?p e = Some (err, pcb', e')" "snd_inv S q z pcb'" "n \<le> n'"
        "snd_at q z a n' pcb'" "snd_lbb pcb' = snd_lbb ?p" "mss pcb' = mss ?p" "state pcb' = state ?p"
        "tx_log e' = tx_log e @ ts" "\<forall>t \<in> set ts. tx_sent S q (a + unat (send_window ?p)) t"
      using tcp_output_any [OF pre, of input e] by blast
    have frame: "rcv_kept ?p pcb'" "log_acks (rcv_nxt ?p) e e'"
      using tcp_output_frame [OF out(1)] by (simp_all add: snd_frame_def)
    have at: "rcv_at r edge' ?p" using p(5) by simp
    have at': "rcv_at r edge' pcb'" using rcv_at_kept [OF at frame(1)] .
    have part: "rcv_wnd pcb' = v" "ooseq pcb' = ooseq pcb"
      using frame(1) ack(3) same(3,4) by (simp_all add: rcv_kept_def rcv_part_def)
    have "rcv_nxt ?p + ucast (rcv_ann_wnd ?p) = sq (r + unat (rcv_ann_wnd ?p))"
      using rcv_atD(1) [OF at] sq_ucast [of r "rcv_ann_wnd ?p"] by simp
    moreover have "r + unat (rcv_ann_wnd ?p) \<le> edge'" using at by (simp add: rcv_at_def)
    ultimately have b': "\<exists>b' \<ge> min r b. b' \<le> edge' \<and> rcv_ann_right_edge pcb' = sq b'"
      using frame(1) ack(4) same(5) assms(3) p(4) unfolding rcv_kept_def
      by (auto intro: exI [of _ b] exI [of _ "r + unat (rcv_ann_wnd ?p)"])
    have "\<forall>t \<in> set ts. tx_ackno t = sq r" using frame(2) out(8) rcv_atD(1) [OF at] by (auto simp: log_acks_def)
    then show ?thesis
      using step True out at' part b' p(3,4) ack same
      by (intro exI [of _ pcb'] exI [of _ e'] exI [of _ edge'] exI [of _ n']) auto
  qed
qed

end
