(* ===== verification/Tcp_Transfer.thy ===== *)
theory Tcp_Transfer
  imports Tcp_App
begin

text \<open>
  Two established connections talk to each other over a network that loses, repeats, delays and
  reorders segments. A step is a call of the code on one end: the application writes or takes
  bytes, output, a retransmission after a timeout, or a segment of the other end arrives, any of
  those that were ever sent; some of the steps have conditions that the code does not check. The main theorem composes the sending and the receiving side: what an
  end delivers is a prefix of what the other end wrote, and what is not delivered yet is still on
  the send queue.
\<close>

section \<open>The ends and their steps\<close>

record tcp_end =
  e_pcb :: tcp_pcb
  e_env :: tcp_env
  e_written :: "u8 list"
  e_delivered :: "u8 list"

abbreviation e_log :: "tcp_end \<Rightarrow> tx_seg list" where "e_log E \<equiv> tx_log (e_env E)"

text \<open>
  What \<^verbatim>\<open>tcp_input\<close> makes of a segment that arrives: the header fields in the variables of the
  module and the data, in any pbufs, in \<^verbatim>\<open>inseg\<close>.
\<close>

definition segment_in :: "tx_seg \<Rightarrow> payloads \<Rightarrow> tcp_in" where
  "segment_in t p =
     \<lparr>inseg = \<lparr>seqno = tx_seqno t, len = word_of_nat (tot_len p), hdr = tx_hdr t, seg_flags = 0, seg_p = p, p_ref = 1,
        oversize_left = 0\<rparr>,
      i_seqno = tx_seqno t, i_ackno = tx_ackno t, i_wnd = tx_wnd t, i_flags = tx_hdr t,
      tcplen = word_of_nat (tot_len p) + (if tx_hdr t AND (TCP_FIN OR TCP_SYN) \<noteq> 0 then 1 else 0),
      recv_acked = 0, recv_flags = 0, recv_data = None\<rparr>"

text \<open>
  The premises of a step that are not the call itself are: the next byte to write is behind the last
  unsent segment, with the segment size as it was; a retransmission finds the segments in flight
  before the unsent ones; and a segment from the future ends within the window. The code does not check them. Each of them can fail,
  see \<open>Tcp_Write\<close> and \<open>Tcp_Reassembly\<close>, and then the transfer is not correct. The streams are shorter than half a gigabyte, because
  the numbers wrap around.
\<close>

definition short_stream :: nat where "short_stream = 536870912"

definition fits_window :: "tx_seg \<Rightarrow> tcp_pcb \<Rightarrow> bool" where
  "fits_window t pcb \<longleftrightarrow>
     (TCP_SEQ_LT (rcv_nxt pcb) (tx_seqno t) \<longrightarrow>
        tx_seqno t - rcv_nxt pcb + word_of_nat (length (tx_data t)) \<le> ucast (rcv_wnd pcb))"

definition flight_first :: "tcp_pcb \<Rightarrow> bool" where
  "flight_first pcb \<longleftrightarrow>
     unacked pcb = [] \<or> unsent pcb = [] \<or> TCP_SEQ_LT (seqno (last (unacked pcb))) (seqno (hd (unsent pcb)))"

inductive end_step :: "tx_seg list \<Rightarrow> tcp_end \<Rightarrow> tcp_end \<Rightarrow> bool" for peer where
  app_write: "tcp_write (e_pcb E) buf apiflags (e_env E) = Some (err, pcb, e) \<Longrightarrow>
     tail_ends (e_pcb E) \<Longrightarrow> tail_ok (e_pcb E) \<Longrightarrow> length buf < 65536 \<Longrightarrow>
     length (e_written E) + length buf \<le> short_stream \<Longrightarrow>
     end_step peer E (E\<lparr>e_pcb := pcb, e_env := e, e_written := e_written E @ (if err = ERR_OK then buf else [])\<rparr>)"
| app_output: "tcp_output False (e_pcb E) (e_env E) = Some (err, pcb, e) \<Longrightarrow>
     end_step peer E (E\<lparr>e_pcb := pcb, e_env := e\<rparr>)"
| rto_timeout: "tcp_rexmit_rto False (e_pcb E) (e_env E) = Some (pcb, e) \<Longrightarrow> flight_first (e_pcb E) \<Longrightarrow>
     end_step peer E (E\<lparr>e_pcb := pcb, e_env := e\<rparr>)"
| arrival: "tcp_receive (e_pcb E) (segment_in t p) (e_env E) = Some (pcb, i, e) \<Longrightarrow>
     t \<in> set peer \<Longrightarrow> concat p = tx_data t \<Longrightarrow> tx_hdr t AND (TCP_SYN OR TCP_RST) = 0 \<Longrightarrow>
     fits_window t (e_pcb E) \<Longrightarrow>
     end_step peer E (E\<lparr>e_pcb := pcb, e_env := e, e_delivered := e_delivered E @ delivered i\<rparr>)"
| app_recved: "tcp_recved input (e_pcb E) n (e_env E) = Some (pcb, e) \<Longrightarrow>
     end_step peer E (E\<lparr>e_pcb := pcb, e_env := e\<rparr>)"
| other_env: "tx_log e = e_log E \<Longrightarrow> end_step peer E (E\<lparr>e_env := e\<rparr>)"

inductive transfer_step :: "tcp_end \<times> tcp_end \<Rightarrow> tcp_end \<times> tcp_end \<Rightarrow> bool" where
  left: "end_step (e_log B) A A' \<Longrightarrow> transfer_step (A, B) (A', B)"
| right: "end_step (e_log A) B B' \<Longrightarrow> transfer_step (A, B) (A, B')"

inductive_cases transfer_stepE: "transfer_step (A, B) y"

text \<open>A connection after its handshake: the next byte to send at \<open>b\<close>, the next byte to receive at \<open>c\<close>.\<close>

definition established :: "nat \<Rightarrow> nat \<Rightarrow> tcp_end \<Rightarrow> bool" where
  "established b c E \<longleftrightarrow>
     (let pcb = e_pcb E in
       0 < b \<and> 0 < c \<and> state pcb = ESTABLISHED \<and> unsent pcb = [] \<and> unacked pcb = [] \<and> ooseq pcb = [] \<and> 0 < mss pcb \<and>
       snd_queuelen pcb = 0 \<and> snd_buf pcb = TCP_SND_BUF \<and>
       lastack pcb = sq b \<and> snd_nxt pcb = sq b \<and> snd_lbb pcb = sq b \<and>
       rcv_nxt pcb = sq c \<and> rcv_wnd pcb \<le> TCP_WND \<and> rcv_ann_wnd pcb \<le> rcv_wnd pcb \<and>
       rcv_ann_right_edge pcb = sq (c + unat (rcv_ann_wnd pcb)) \<and>
       e_log E = [] \<and> e_written E = [] \<and> e_delivered E = [])"

section \<open>The invariant\<close>

text \<open>The stream of an end, from the position \<open>b\<close> on and without an end, begins with what was written.\<close>

definition of_written :: "stream \<Rightarrow> nat \<Rightarrow> u8 list \<Rightarrow> bool" where
  "of_written S b W \<longleftrightarrow> fin_at S = None \<and> W = map (byte_at S) [b ..< b + length W]"

definition tx_slice :: "stream \<Rightarrow> nat \<Rightarrow> nat \<Rightarrow> tx_seg \<Rightarrow> bool" where
  "tx_slice S b z t \<longleftrightarrow>
     tx_hdr t AND TCP_FIN = 0 \<and>
     (tx_data t = [] \<or>
      (\<exists>p \<ge> b. tx_seqno t = sq p \<and> tx_data t = map (byte_at S) [p ..< p + length (tx_data t)] \<and>
         p + length (tx_data t) \<le> z \<and> length (tx_data t) < 65536))"

definition tx_acks :: "nat \<Rightarrow> nat \<Rightarrow> tx_seg \<Rightarrow> bool" where
  "tx_acks c r t \<longleftrightarrow> (\<exists>k \<ge> c. k \<le> r \<and> tx_ackno t = sq k)"

text \<open>
  One end: the sending half with everything from \<open>a\<close> to the end \<open>z\<close> of what was written on its
  queues, and the receiving half, which has everything before \<open>r\<close> of what the other end wrote up to \<open>y\<close>.
\<close>

definition snd_half :: "stream \<Rightarrow> nat \<Rightarrow> nat \<Rightarrow> nat \<Rightarrow> tcp_pcb \<Rightarrow> bool" where
  "snd_half S b z a pcb \<longleftrightarrow>
     (\<exists>q \<ge> b. \<exists>n. snd_inv S q z pcb \<and> snd_at q z a n pcb) \<and> z \<le> b + short_stream \<and>
     snd_lbb pcb = sq z \<and> 0 < mss pcb \<and> state pcb = ESTABLISHED"

definition rcv_half :: "stream \<Rightarrow> nat \<Rightarrow> nat \<Rightarrow> nat \<Rightarrow> tcp_pcb \<Rightarrow> bool" where
  "rcv_half T c y r pcb \<longleftrightarrow>
     0 < c \<and> c \<le> r \<and> r \<le> y \<and> rcv_wnd pcb \<le> TCP_WND \<and>
     (\<exists>edge. rcv_at r edge pcb \<and> oos_ok T edge (r + 1) (ooseq pcb) \<and>
        oos_ok (T\<lparr>fin_at := Some y\<rparr>) edge (r + 1) (ooseq pcb) \<and>
        (\<exists>x \<ge> c. x \<le> edge \<and> rcv_ann_right_edge pcb = sq x))"

definition end_ok :: "stream \<Rightarrow> nat \<Rightarrow> stream \<Rightarrow> nat \<Rightarrow> nat \<Rightarrow> nat \<Rightarrow> nat \<Rightarrow> tcp_end \<Rightarrow> bool" where
  "end_ok S b T c y a r E \<longleftrightarrow>
     (let z = b + length (e_written E) in
       snd_half S b z a (e_pcb E) \<and> rcv_half T c y r (e_pcb E) \<and>
       e_delivered E = map (byte_at T) [c ..< r] \<and>
       (\<forall>t \<in> set (e_log E). tx_slice S b z t \<and> tx_acks c r t))"

definition transfer_ok :: "nat \<Rightarrow> nat \<Rightarrow> tcp_end \<times> tcp_end \<Rightarrow> bool" where
  "transfer_ok b c = (\<lambda>(A, B).
     \<forall>S T. of_written S b (e_written A) \<and> of_written T c (e_written B) \<longrightarrow>
       (\<exists>a r a' r'. end_ok S b T c (c + length (e_written B)) a r A \<and>
          end_ok T c S b (b + length (e_written A)) a' r' B \<and> a \<le> r' \<and> a' \<le> r))"

lemma of_written_append: "of_written S b (V @ W) \<Longrightarrow> of_written S b V"
  unfolding of_written_def by (metis append_take_drop_id append_eq_conv_conj length_append length_take take_map take_upt
      add.assoc add_le_cancel_left le_add1)

lemma of_written_next:
  assumes "of_written S b (V @ W)"
  shows "W = map (byte_at S) [b + length V ..< b + length V + length W]"
proof -
  have "V @ W = map (byte_at S) [b ..< b + length V + length W]" using assms by (simp add: of_written_def add.assoc)
  then have "drop (length V) (V @ W) = map (byte_at S) [b + length V ..< b + length V + length W]" by (simp add: drop_map)
  then show ?thesis by simp
qed

lemma tx_slice_mono: "tx_slice S b z t \<Longrightarrow> z \<le> z' \<Longrightarrow> tx_slice S b z' t"
  unfolding tx_slice_def by (meson order_trans)

lemma tx_acks_mono: "tx_acks c r t \<Longrightarrow> r \<le> r' \<Longrightarrow> tx_acks c r' t"
  unfolding tx_acks_def by (meson order_trans)

lemma tx_empty: "tx_data t = [] \<Longrightarrow> tx_hdr t = TCP_ACK \<Longrightarrow> tx_slice S b z t"
  by (simp add: tx_slice_def tcp_hdr_flag_defs)

text \<open>
  The queues depend on the written part of the stream only. In particular, the end of what was
  written, seen as the end of the stream, bounds the segments.
\<close>

lemma snd_segs_agree:
  "snd_segs S q Q z \<Longrightarrow> fin_at S = None \<Longrightarrow> \<forall>k < z. byte_at S' k = byte_at S k \<Longrightarrow>
   \<forall>f. fin_at S' = Some f \<longrightarrow> z \<le> f \<Longrightarrow> snd_segs S' q Q z"
proof (induction Q arbitrary: q)
  case (Cons s ss)
  have "q + qlen s \<le> z" using Cons.prems(1) snd_segs_le by fastforce
  then have "q + slen s \<le> z" by (simp add: qlen_def split: if_splits)
  moreover from this have "map (byte_at S') [q ..< q + slen s] = map (byte_at S) [q ..< q + slen s]"
    using Cons.prems(3) by simp
  ultimately show ?case using Cons by (auto simp: seg_ok_def)
qed simp

lemma snd_inv_agree:
  "snd_inv S q z pcb \<Longrightarrow> fin_at S = None \<Longrightarrow> \<forall>k < z. byte_at S' k = byte_at S k \<Longrightarrow>
   \<forall>f. fin_at S' = Some f \<longrightarrow> z \<le> f \<Longrightarrow> snd_inv S' q z pcb"
  unfolding snd_inv_def using snd_segs_agree [of S q _ z S'] by blast

lemma snd_inv_end: "snd_inv S q z pcb \<Longrightarrow> fin_at S = None \<Longrightarrow> snd_inv (S\<lparr>fin_at := Some z\<rparr>) q z pcb"
  by (erule snd_inv_agree) simp_all

lemma tx_sent_slice:
  assumes "tx_sent S q w t" "tx_sent (S\<lparr>fin_at := Some z\<rparr>) q w' t" "fin_at S = None" "b \<le> q"
  shows "tx_slice S b z t"
proof (cases "tx_data t = [] \<and> tx_hdr t = TCP_ACK")
  case True
  then show ?thesis by (simp add: tx_empty)
next
  case False
  then have ok: "tx_ok S q w t" "tx_ok (S\<lparr>fin_at := Some z\<rparr>) q w' t" using assms(1,2) by (auto simp: tx_sent_def)
  have "tx_hdr t AND TCP_FIN = 0" using ok(1) assms(3) by (auto simp: tx_ok_def)
  moreover obtain p where "p \<ge> q" "tx_seqno t = sq p" "tx_data t = map (byte_at S) [p ..< p + length (tx_data t)]"
      "p + length (tx_data t) \<le> z" "length (tx_data t) < 65536"
    using ok(2) by (auto simp: tx_ok_def)
  ultimately show ?thesis using assms(4) unfolding tx_slice_def by (meson order_trans)
qed


section \<open>Retransmission after a timeout\<close>

lemma shuffles_in_order:
  assumes "Q \<in> shuffles A (u # U)" "snd_segs S q Q z" "z \<le> q + 1073741824" "A \<noteq> []"
    and "TCP_SEQ_LT (seqno (last A)) (seqno u)"
  shows "Q = A @ u # U"
  using assms
proof (induction Q arbitrary: A q)
  case (Cons x Q)
  have pos: "z \<le> q + qlen x + 1073741824" using Cons.prems(3) by simp
  from Cons.prems(1) show ?case
  proof (cases rule: shuffles_ConsE)
    case (1 A')
    show ?thesis
    proof (cases "A' = []")
      case False
      then show ?thesis using 1 Cons.IH [OF 1(2), of "q + qlen x"] Cons.prems(2,5) pos by simp
    qed (use 1 in simp)
  next
    case (2 B')
    have "last A \<in> set Q" using 2(2) Cons.prems(4) by (simp add: set_shuffles)
    then obtain p where p: "p \<ge> q + qlen x" "p + qlen (last A) \<le> z" "seg_ok S p (last A)"
      using snd_segs_mem [of S "q + qlen x" Q z "last A"] Cons.prems(2) by auto
    have x: "seqno x = sq q" "u = x" using Cons.prems(2) 2(1) by (simp_all add: seg_ok_def)
    have "TCP_SEQ_LT (sq p) (sq q)" using Cons.prems(5) x p(3) by (simp add: seg_ok_def)
    then have "p < q" using sq_compare(1) [of p q] p(1,2) Cons.prems(3) by simp
    then show ?thesis using p(1) by simp
  qed
qed simp

lemma tcp_rexmit_rto_prepare_ok:
  assumes "snd_inv S q z pcb" "flight_first pcb" "tcp_rexmit_rto_prepare pcb = (err, p)"
  shows "snd_inv S q z p" "lastack p = lastack pcb" "snd_nxt p = snd_nxt pcb" "snd_lbb p = snd_lbb pcb" "mss p = mss pcb"
    "state p = state pcb"
proof -
  show "lastack p = lastack pcb" "snd_nxt p = snd_nxt pcb" "snd_lbb p = snd_lbb pcb" "mss p = mss pcb" "state p = state pcb"
    using assms(3) by (auto simp: tcp_rexmit_rto_prepare_def Let_def tcp_set_flags_def split: if_splits)
  show "snd_inv S q z p"
  proof (cases "p = pcb")
    case False
    then have p: "unacked p = []" "unsent p = unacked pcb @ unsent pcb" "unacked pcb \<noteq> []"
        "snd_queuelen p = snd_queuelen pcb" "snd_buf p = snd_buf pcb"
      using assms(3) by (auto simp: tcp_rexmit_rto_prepare_def Let_def tcp_set_flags_def split: if_splits)
    obtain Q where Q: "Q \<in> shuffles (unacked pcb) (unsent pcb)" "snd_segs S q Q z" using assms(1) by (auto simp: snd_inv_def)
    have "Q = unacked pcb @ unsent pcb"
    proof (cases "unsent pcb")
      case Nil
      then show ?thesis using Q(1) by simp
    next
      case (Cons u U)
      show ?thesis unfolding Cons
        by (rule shuffles_in_order [OF _ Q(2) snd_inv_short' [OF assms(1)]])
          (use Q(1) Cons p(3) assms(2) in \<open>simp_all add: flight_first_def\<close>)
    qed
    then show ?thesis using assms(1) Q(2) p by (simp add: snd_inv_def)
  qed (use assms(1) in simp)
qed

section \<open>Every step keeps an end in order\<close>

text \<open>The receiving half stays when the code of the sending half runs.\<close>

lemma rcv_half_kept:
  assumes "rcv_half T c y r pcb" "rcv_kept pcb pcb'"
  shows "rcv_half T c y r pcb'"
proof -
  obtain edge x where at: "rcv_at r edge pcb" "oos_ok T edge (r + 1) (ooseq pcb)"
      "oos_ok (T\<lparr>fin_at := Some y\<rparr>) edge (r + 1) (ooseq pcb)" "x \<ge> c" "x \<le> edge" "rcv_ann_right_edge pcb = sq x"
    using assms(1) by (auto simp: rcv_half_def)
  have "rcv_nxt pcb + ucast (rcv_ann_wnd pcb) = sq (r + unat (rcv_ann_wnd pcb))"
    using rcv_atD(1) [OF at(1)] sq_ucast [of r "rcv_ann_wnd pcb"] by simp
  moreover have "r + unat (rcv_ann_wnd pcb) \<le> edge" "c \<le> r" using at(1) assms(1) by (simp_all add: rcv_at_def rcv_half_def)
  ultimately have "\<exists>x \<ge> c. x \<le> edge \<and> rcv_ann_right_edge pcb' = sq x"
    using assms(2) at(4-6) unfolding rcv_kept_def
    by (auto intro: exI [of _ x] exI [of _ "r + unat (rcv_ann_wnd pcb)"])
  moreover have "rcv_at r edge pcb'" by (rule rcv_at_kept [OF at(1) assms(2)])
  ultimately show ?thesis using assms at(2,3) by (auto simp: rcv_half_def rcv_kept_def rcv_part_def)
qed

lemma rcv_half_nxt: "rcv_half T c y r pcb \<Longrightarrow> rcv_nxt pcb = sq r \<and> c \<le> r"
  unfolding rcv_half_def using rcv_atD(1) by blast

text \<open>An end after a step of its sending half.\<close>

lemma end_ok_sent:
  assumes "end_ok S b T c y a r E" "snd_frame (e_pcb E, e_env E) (pcb, e)"
    and "snd_half S b (b + length (e_written E) + length W) a' pcb"
    and "tx_log e = e_log E @ ts" "\<forall>t \<in> set ts. tx_slice S b (b + length (e_written E) + length W) t"
  shows "end_ok S b T c y a' r (E\<lparr>e_pcb := pcb, e_env := e, e_written := e_written E @ W\<rparr>)"
proof -
  note ok = assms(1) [unfolded end_ok_def Let_def]
  have "rcv_half T c y r pcb" using rcv_half_kept ok assms(2) by (auto simp: snd_frame_def)
  moreover have "rcv_nxt (e_pcb E) = sq r" "c \<le> r" using rcv_half_nxt ok by blast+
  then have "\<forall>t \<in> set ts. tx_acks c r t"
    using assms(2,4) by (auto simp: snd_frame_def log_acks_def tx_acks_def intro: exI [of _ r])
  moreover have "\<forall>t \<in> set (e_log E). tx_slice S b (b + length (e_written E) + length W) t"
    using ok tx_slice_mono by (meson le_add1)
  ultimately show ?thesis using ok assms(3-5) by (auto simp: end_ok_def Let_def add.assoc)
qed

lemma end_output_ok:
  assumes "end_ok S b T c y a r E" "fin_at S = None"
  shows "\<exists>err pcb e. tcp_output False (e_pcb E) (e_env E) = Some (err, pcb, e) \<and>
    end_ok S b T c y a r (E\<lparr>e_pcb := pcb, e_env := e\<rparr>)"
proof -
  let ?pcb = "e_pcb E" and ?z = "b + length (e_written E)"
  note ok = assms(1) [unfolded end_ok_def Let_def]
  obtain q n where q: "q \<ge> b" "snd_inv S q ?z ?pcb" "snd_at q ?z a n ?pcb" using ok by (auto simp: snd_half_def)
  have st: "state ?pcb \<noteq> LISTEN" using ok by (simp add: snd_half_def)
  obtain err pcb e n' ts where out: "tcp_output False ?pcb (e_env E) = Some (err, pcb, e)" "snd_inv S q ?z pcb"
      "snd_at q ?z a n' pcb" "snd_lbb pcb = snd_lbb ?pcb" "mss pcb = mss ?pcb" "state pcb = state ?pcb"
      "tx_log e = e_log E @ ts" "\<forall>t \<in> set ts. tx_sent S q (a + unat (send_window ?pcb)) t"
    using tcp_output_ok [OF q(2,3) st, of "e_env E"] by blast
  have "\<forall>t \<in> set ts. tx_sent (S\<lparr>fin_at := Some ?z\<rparr>) q (a + unat (send_window ?pcb)) t"
    using tcp_output_ok [OF snd_inv_end [OF q(2) assms(2)] q(3) st, of "e_env E"] out(1,7) by auto
  then have ts: "\<forall>t \<in> set ts. tx_slice S b ?z t" using tx_sent_slice out(8) assms(2) q(1) by blast
  have "snd_half S b ?z a pcb" using out q(1) ok by (auto simp: snd_half_def)
  then show ?thesis using end_ok_sent [OF assms(1) tcp_output_frame [OF out(1)], of "[]" a ts] out(1,7) ts by auto
qed

lemma end_rto_ok:
  assumes "end_ok S b T c y a r E" "fin_at S = None" "flight_first (e_pcb E)"
  shows "\<exists>pcb e. tcp_rexmit_rto False (e_pcb E) (e_env E) = Some (pcb, e) \<and>
    end_ok S b T c y a r (E\<lparr>e_pcb := pcb, e_env := e\<rparr>)"
proof -
  let ?pcb = "e_pcb E"
  note ok = assms(1) [unfolded end_ok_def Let_def]
  obtain err p where prep: "tcp_rexmit_rto_prepare ?pcb = (err, p)" by fastforce
  obtain q n where q: "q \<ge> b" "snd_inv S q (b + length (e_written E)) ?pcb" "snd_at q (b + length (e_written E)) a n ?pcb"
    using ok by (auto simp: snd_half_def)
  note keep = tcp_rexmit_rto_prepare_ok [OF q(2) assms(3) prep] and frame = tcp_rexmit_frame(2) [OF prep]
  define p' where "p' = (if err = ERR_OK \<and> nrtx p < 0xff then p\<lparr>nrtx := nrtx p + 1\<rparr> else p)"
  have same: "rcv_part p' = rcv_part p" "rcv_ann_right_edge p' = rcv_ann_right_edge p" "lastack p' = lastack p"
      "snd_nxt p' = snd_nxt p" "snd_lbb p' = snd_lbb p" "mss p' = mss p" "state p' = state p"
      "unacked p' = unacked p" "unsent p' = unsent p" "snd_queuelen p' = snd_queuelen p" "snd_buf p' = snd_buf p"
    by (simp_all add: p'_def rcv_part_def)
  have "snd_frame (?pcb, e_env E) (p', e_env E)" using frame same by (simp add: snd_frame_same)
  moreover have "snd_half S b (b + length (e_written E)) a p'"
    using ok q(1,3) keep same snd_inv_cong [OF keep(1) same(8-11)] by (auto simp: snd_half_def snd_at_def)
  ultimately have mid: "end_ok S b T c y a r (E\<lparr>e_pcb := p'\<rparr>)"
    using end_ok_sent [OF assms(1), of p' "e_env E" "[]" a "[]"] by simp
  show ?thesis
  proof (cases "err = ERR_OK")
    case True
    then show ?thesis using end_output_ok [OF mid assms(2)] prep
      by (auto simp: tcp_rexmit_rto_def tcp_rexmit_rto_commit_def p'_def)
  next
    case False
    then show ?thesis using mid prep by (auto simp: tcp_rexmit_rto_def p'_def)
  qed
qed

lemma end_write_ok:
  assumes "end_ok S b T c y a r E" "fin_at S = None" "tail_ends (e_pcb E)" "tail_ok (e_pcb E)"
    "length buf < 65536" "length (e_written E) + length buf \<le> short_stream"
  shows "\<exists>err pcb e. tcp_write (e_pcb E) buf apiflags (e_env E) = Some (err, pcb, e) \<and>
    (let W = (if err = ERR_OK then buf else []) in
      of_written S b (e_written E @ W) \<longrightarrow> end_ok S b T c y a r (E\<lparr>e_pcb := pcb, e_env := e, e_written := e_written E @ W\<rparr>))"
proof -
  let ?pcb = "e_pcb E" and ?z = "b + length (e_written E)"
  define S' where "S' = S\<lparr>byte_at := (\<lambda>k. if k < ?z then byte_at S k else buf ! (k - ?z))\<rparr>"
  have S': "fin_at S' = None" "\<forall>k < ?z. byte_at S' k = byte_at S k" "buf = map (byte_at S') [?z ..< ?z + length buf]"
    using assms(2) by (auto simp: S'_def intro: nth_equalityI)
  note ok = assms(1) [unfolded end_ok_def Let_def]
  obtain q n where q: "q \<ge> b" "snd_inv S q ?z ?pcb" "snd_at q ?z a n ?pcb" using ok by (auto simp: snd_half_def)
  have inv: "snd_inv S' q ?z ?pcb" by (rule snd_inv_agree [OF q(2) assms(2) S'(2)]) (simp add: S'(1))
  have pre: "snd_lbb ?pcb = sq ?z" "0 < mss ?pcb" using ok by (simp_all add: snd_half_def)
  have fin: "\<And>f. fin_at S' = Some f \<Longrightarrow> ?z + length buf \<le> f" using S'(1) by simp
  obtain err pcb e where w: "tcp_write ?pcb buf apiflags (e_env E) = Some (err, pcb, e)" "tx_log e = e_log E"
      "if err = ERR_OK
       then snd_inv S' q (?z + length buf) pcb \<and> tail_ends pcb \<and> tail_ok pcb \<and> snd_lbb pcb = sq (?z + length buf) \<and>
         unacked pcb = unacked ?pcb \<and> lastack pcb = lastack ?pcb \<and> snd_nxt pcb = snd_nxt ?pcb \<and> mss pcb = mss ?pcb \<and>
         state pcb = state ?pcb
       else (pcb = ?pcb \<or> pcb = tcp_set_flags TF_NAGLEMEMERR ?pcb) \<and> tcp_seg_pool e = tcp_seg_pool (e_env E)"
    using tcp_write_ok [OF inv assms(3,4) pre S'(3) assms(5) fin, of apiflags "e_env E"] by auto
  define W where "W = (if err = ERR_OK then buf else [])"
  have "snd_half S b (?z + length W) a pcb" if W: "of_written S b (e_written E @ W)"
  proof (cases "err = ERR_OK")
    case True
    have "byte_at S k = byte_at S' k" if "k < ?z + length buf" for k
    proof (cases "k < ?z")
      case False
      have "buf = map (byte_at S) [?z ..< ?z + length buf]" using of_written_next [OF W] True by (simp add: W_def)
      then have "buf ! (k - ?z) = map (byte_at S) [?z ..< ?z + length buf] ! (k - ?z)" by (rule arg_cong)
      then have "buf ! (k - ?z) = byte_at S k" using that False by simp
      then show ?thesis using False by (simp add: S'_def)
    qed (use S'(2) in simp)
    then have "snd_inv S q (?z + length buf) pcb" using snd_inv_agree [of S' q "?z + length buf" pcb S] w(3) True S'(1) assms(2) by simp
    moreover have "snd_at q (?z + length buf) a n pcb" using w(3) True q(3) by (simp add: snd_at_def)
    ultimately have "\<exists>q \<ge> b. \<exists>n. snd_inv S q (?z + length buf) pcb \<and> snd_at q (?z + length buf) a n pcb" using q(1) by auto
    then show ?thesis using w(3) True ok assms(6) by (simp add: snd_half_def W_def add.assoc)
  next
    case False
    then have "pcb = ?pcb \<or> pcb = tcp_set_flags TF_NAGLEMEMERR ?pcb" using w(3) by simp
    moreover have "snd_part (tcp_set_flags TF_NAGLEMEMERR ?pcb) = snd_part ?pcb" by (simp add: snd_part_simps)
    ultimately have part: "snd_part pcb = snd_part ?pcb" by auto
    show ?thesis using False q ok snd_part_inv [OF part] snd_part_at [OF part] part by (auto simp: W_def snd_half_def snd_part_def)
  qed
  then show ?thesis
    using end_ok_sent [OF assms(1) tcp_write_frame [OF w(1,2)], of W a "[]"] w(1,2) by (auto simp: W_def [symmetric] Let_def)
qed

lemma tcp_receive_data_empty:
  "tcplen i = 0 \<Longrightarrow> tcp_receive_data pcb i e = Some (if TCP_SEQ_BETWEEN (i_seqno i) (rcv_nxt pcb)
     (rcv_nxt pcb + ucast (rcv_wnd pcb) - 1) then pcb else tcp_ack_now pcb, i, e)"
  by (simp add: tcp_receive_data_def)

lemma segment_in_at:
  assumes "tx_data t = map (byte_at T) [p ..< p + length (tx_data t)]" "tx_seqno t = sq p" "tx_data t \<noteq> []"
    "length (tx_data t) < 65536" "concat ps = tx_data t" "tx_hdr t AND TCP_FIN = 0" "tx_hdr t AND TCP_SYN = 0"
    "\<And>f. fin_at T = Some f \<Longrightarrow> p + length (tx_data t) \<le> f"
  shows "in_at T p (segment_in t ps)" "tlen (inseg (segment_in t ps)) = length (tx_data t)"
proof -
  let ?s = "inseg (segment_in t ps)"
  have h: "\<not> has_hdr TCP_FIN ?s" "\<not> has_hdr TCP_SYN ?s" using assms(6,7) by (simp_all add: has_hdr_def segment_in_def)
  have n: "slen ?s = length (tx_data t)" using assms(4,5) by (simp add: segment_in_def tot_len_def unat_of_nat16)
  then show l: "tlen ?s = length (tx_data t)" using h by (simp add: tlen_def)
  have none: "tx_hdr t AND (TCP_FIN OR TCP_SYN) = 0" using assms(6,7) by (simp add: bit.conj_disj_distrib)
  have "concat (seg_p ?s) = map (byte_at T) [p ..< p + slen ?s]" unfolding n using assms(1,5) by (simp add: segment_in_def)
  moreover have "seqno ?s = sq p" using assms(2) by (simp add: segment_in_def)
  ultimately have "seg_at T p ?s" unfolding seg_at_def l using h n assms(3,4,8) by simp
  moreover have "tcplen (segment_in t ps) = word_of_nat (length (tx_data t))"
    using none assms(5) by (simp add: segment_in_def tot_len_def)
  ultimately show "in_at T p (segment_in t ps)" using l assms(2) by (simp add: in_at_def) (simp add: segment_in_def)
qed

lemma tcp_receive_ack_log:
  assumes "tcp_receive_ack pcb i e = Some (p, i', e')"
  shows "\<exists>ts. tx_log e' = tx_log e @ ts \<and> (\<forall>t \<in> set ts. tx_data t = [] \<and> tx_hdr t = TCP_ACK)"
proof -
  have free: "tx_log e1 = tx_log e0" if "tcp_free_acked_segments k ss oq p0 n0 e0 = Some (x, p1, n1, e1)" for k ss oq p0 n0 e0 x p1 n1 e1
    using that by (induction ss arbitrary: p0 n0 e0) (auto simp: Let_def lwip_assert_bind_Some split: if_splits)
  have new: "tx_log e1 = tx_log e0" if "ack_new_data p0 i e0 = Some (p1, i1, e1)" for p0 e0 p1 i1 e1
    using that unfolding ack_new_data_def Let_def by (clarsimp simp: bind_eq_Some_conv) (metis free)
  have ack: "\<exists>ts. tx_log e1 = tx_log e0 @ ts \<and> (\<forall>t \<in> set ts. tx_data t = [] \<and> tx_hdr t = TCP_ACK)"
    if "tcp_send_empty_ack p0 e0 = (err, p1, e1)" for p0 e0 err p1 e1
    using tcp_send_empty_ack_part(2) [OF that] by blast
  show ?thesis
    using assms by (auto simp: tcp_receive_ack_def Let_def bind_eq_Some_conv dest: new intro: ack split: if_splits prod.splits)
qed


text \<open>The data part of a segment with data, on the receiving half.\<close>

lemma rcv_half_data:
  assumes "rcv_half T c y r pcb" "state pcb = ESTABLISHED" "fin_at T = None" "y \<le> c + short_stream"
    and "in_at T p i" "in_at (T\<lparr>fin_at := Some y\<rparr>) p i" "c \<le> p" "p + tlen (inseg i) \<le> y"
    and "r < p \<Longrightarrow> p + tlen (inseg i) \<le> r + unat (rcv_wnd pcb)"
    and "recv_data i = None" "\<not> got_fin i"
  shows "\<exists>pcb' i' e' r'. tcp_receive_data pcb i e = Some (pcb', i', e') \<and> r \<le> r' \<and> rcv_half T c y r' pcb' \<and>
    delivered i' = map (byte_at T) [r ..< r'] \<and> snd_data pcb' = snd_data pcb \<and> state pcb' = ESTABLISHED \<and>
    log_empty e e' (sq r)"
proof -
  let ?T = "T\<lparr>fin_at := Some y\<rparr>"
  obtain edge x where at: "rcv_at r edge pcb" "oos_ok T edge (r + 1) (ooseq pcb)" "oos_ok ?T edge (r + 1) (ooseq pcb)"
      "c \<le> x" "x \<le> edge" "rcv_ann_right_edge pcb = sq x"
    using assms(1) by (auto simp: rcv_half_def)
  have r: "0 < r" "c \<le> r" "r \<le> y" "rcv_wnd pcb \<le> TCP_WND" using assms(1) by (auto simp: rcv_half_def)
  have near: "p < r + 1073741824" "r < p + 1073741824"
    using assms(4,7,8) r(2,3) by (simp_all add: short_stream_def)
  have fit: "r < p \<Longrightarrow> p + tlen (inseg i) \<le> edge" using assms(9) rcv_atD(3,5) [OF at(1)] by simp
  have st: "state pcb < CLOSE_WAIT" using assms(2) by (simp add: tcp_state_order)
  have nf: "\<not> fin_passed T r" "\<not> fin_passed ?T r" using assms(3) r(3) by (simp_all add: fin_passed_def)
  obtain pcb' i' e' r1 where run: "tcp_receive_data pcb i e = Some (pcb', i', e')" "r \<le> r1" "rcv_at r1 edge pcb'"
      "oos_ok T edge (r1 + 1) (ooseq pcb')" "passed T r r1 i'"
    using tcp_receive_data_ok [OF at(1,2) assms(5) near fit r(1) nf(1) st assms(10,11), of e] by auto
  obtain r2 where run2: "r \<le> r2" "rcv_at r2 edge pcb'" "oos_ok ?T edge (r2 + 1) (ooseq pcb')" "passed ?T r r2 i'"
    using tcp_receive_data_ok [OF at(1,3) assms(6) near fit r(1) nf(2) st assms(10,11), of e] run(1) by auto
  have same: "r2 = r1"
    using sq_compare(5) [of r2 r1] rcv_atD(1,3,4) [OF run(3)] rcv_atD(1,3,4) [OF run2(2)] by simp
  have gf: "\<not> got_fin i'" using run(5) assms(3) by (simp add: passed_def fin_passed_def)
  then have le: "r1 \<le> y" using run2(4) same by (auto simp: passed_def fin_passed_def)
  note frame = tcp_receive_data_frame [OF run(1), unfolded rcv_frame_def prod.case]
  have "rcv_nxt pcb + ucast (rcv_ann_wnd pcb) = sq (r + unat (rcv_ann_wnd pcb))"
    using rcv_atD(1) [OF at(1)] sq_ucast [of r "rcv_ann_wnd pcb"] by simp
  moreover have "r + unat (rcv_ann_wnd pcb) \<le> edge" using at(1) by (simp add: rcv_at_def)
  ultimately have x': "\<exists>x \<ge> c. x \<le> edge \<and> rcv_ann_right_edge pcb' = sq x"
    using frame at(4-6) r(2) by (auto intro: exI [of _ x] exI [of _ "r + unat (rcv_ann_wnd pcb)"])
  have "unat (rcv_wnd pcb') \<le> unat (rcv_wnd pcb)" using rcv_atD(5) [OF at(1)] rcv_atD(5) [OF run(3)] run(2) by simp
  then have "rcv_wnd pcb' \<le> TCP_WND" using r(4) by (simp add: word_le_nat_alt)
  then have "rcv_half T c y r1 pcb'"
    using assms(1) run(2-4) run2(3) same le x' unfolding rcv_half_def by auto
  moreover have "delivered i' = map (byte_at T) [r ..< r1]" using run(5) assms(3) by (simp add: passed_def data_end_def)
  moreover have "state pcb' = ESTABLISHED" using frame gf assms(2) by auto
  ultimately show ?thesis using run(1,2) frame rcv_atD(1) [OF at(1)] by auto
qed

lemma in_at_acked: "in_at T p (i\<lparr>recv_acked := k\<rparr>) = in_at T p i"
  by (simp add: in_at_def)

lemma end_receive_ok:
  assumes "end_ok S b T c y a r E" "a \<le> r'" "r' \<le> b + length (e_written E)" "fin_at T = None" "y \<le> c + short_stream"
    and "tx_slice T c y t" "tx_acks b r' t" "concat ps = tx_data t" "tx_hdr t AND (TCP_SYN OR TCP_RST) = 0"
    and "fits_window t (e_pcb E)"
  shows "\<exists>pcb i e a' r2. tcp_receive (e_pcb E) (segment_in t ps) (e_env E) = Some (pcb, i, e) \<and> a' \<le> r' \<and> r \<le> r2 \<and>
    end_ok S b T c y a' r2 (E\<lparr>e_pcb := pcb, e_env := e, e_delivered := e_delivered E @ delivered i\<rparr>)"
proof -
  let ?pcb = "e_pcb E" and ?z = "b + length (e_written E)" and ?i = "segment_in t ps"
  note ok = assms(1) [unfolded end_ok_def Let_def]
  obtain q n where q: "q \<ge> b" "snd_inv S q ?z ?pcb" "snd_at q ?z a n ?pcb" using ok by (auto simp: snd_half_def)
  have i: "recv_acked ?i = 0" "recv_data ?i = None" "\<not> got_fin ?i" "i_ackno ?i = tx_ackno t"
    by (simp_all add: segment_in_def got_fin_def)
  obtain p1 i1 e1 q1 a1 where ack: "tcp_receive_ack ?pcb ?i (e_env E) = Some (p1, i1, e1)" "q \<le> q1" "a \<le> a1"
      "snd_inv S q1 ?z p1" "snd_at q1 ?z a1 n p1" "snd_lbb p1 = snd_lbb ?pcb" "state p1 = state ?pcb" "mss p1 = mss ?pcb"
      "a < a1 \<longrightarrow> i_ackno ?i = sq a1"
    using tcp_receive_ack_ok [OF q(2,3) i(1), of "e_env E"] by blast
  obtain k where k: "i1 = ?i\<lparr>recv_acked := k\<rparr>" and frame: "snd_frame (?pcb, e_env E) (p1, e1)"
    using tcp_receive_ack_frame [OF ack(1)] by blast
  obtain ts where ts: "tx_log e1 = e_log E @ ts" "\<forall>t \<in> set ts. tx_data t = [] \<and> tx_hdr t = TCP_ACK"
    using tcp_receive_ack_log [OF ack(1)] by blast
  have a1: "a1 \<le> r'"
  proof (cases "a < a1")
    case True
    obtain k where k: "b \<le> k" "k \<le> r'" "sq k = sq a1" using assms(7) True ack(9) i(4) by (auto simp: tx_acks_def)
    have "b \<le> a1" "a1 \<le> ?z" "?z \<le> b + short_stream" using ack(2,5) q(1) ok by (auto simp: snd_at_def snd_half_def)
    then have "k = a1" using sq_compare(5) [of k a1] k assms(3) by (simp add: short_stream_def)
    then show ?thesis using k by simp
  qed (use ack(3) assms(2) in simp)
  have "snd_half S b ?z a1 p1" using ack q(1) ok by (auto simp: snd_half_def intro: exI [of _ q1])
  then have mid: "end_ok S b T c y a1 r (E\<lparr>e_pcb := p1, e_env := e1\<rparr>)"
    using end_ok_sent [OF assms(1) frame, of "[]" a1 ts] ts tx_empty by auto
  note mid' = mid [unfolded end_ok_def Let_def, simplified]
  have st: "state ?pcb = ESTABLISHED" "state p1 = ESTABLISHED" using ok ack(7) by (simp_all add: snd_half_def)
  have run: "tcp_receive ?pcb ?i (e_env E) = tcp_receive_data p1 i1 e1" using st ack(1) by (simp add: tcp_receive_def)
  have fin: "tx_hdr t AND TCP_FIN = 0" and syn: "tx_hdr t AND TCP_SYN = 0"
    using assms(6,9) by (auto simp: tx_slice_def bit.conj_disj_distrib or_eq_0_iff)
  show ?thesis
  proof (cases "tx_data t = []")
    case True
    have "tx_hdr t AND (TCP_FIN OR TCP_SYN) = 0" using fin syn by (simp add: bit.conj_disj_distrib)
    moreover have "tot_len ps = 0" using True assms(8) by (simp add: tot_len_def del: concat_eq_Nil_conv)
    ultimately have len: "tcplen i1 = 0" using k by (simp add: segment_in_def)
    obtain p2 where p2: "tcp_receive_data p1 i1 e1 = Some (p2, i1, e1)" "p2 = p1 \<or> p2 = tcp_ack_now p1"
      using tcp_receive_data_empty [OF len, of p1 e1] by auto
    have part: "snd_part p2 = snd_part p1" "rcv_part p2 = rcv_part p1" "rcv_ann_right_edge p2 = rcv_ann_right_edge p1"
      using p2(2) by (auto simp: tcp_ack_now_def snd_part_simps rcv_part_def)
    have half: "snd_half S b ?z a1 p2"
      using mid' snd_part_inv [OF part(1)] snd_part_at [OF part(1)] part(1) by (auto simp: snd_half_def snd_part_def)
    have none: "delivered i1 = []" using k i(2) by (simp add: delivered_def)
    have "snd_frame (p1, e1) (p2, e1)" by (rule snd_frame_same [OF part(2,3) refl])
    then have "end_ok S b T c y a1 r (E\<lparr>e_pcb := p2, e_env := e1\<rparr>)"
      using end_ok_sent [OF mid, of p2 e1 "[]" a1 "[]"] half by simp
    then show ?thesis using run p2(1) a1 none by (intro exI [of _ p2] exI [of _ i1] exI [of _ e1] exI [of _ a1] exI [of _ r]) simp
  next
    case False
    then obtain p where p: "p \<ge> c" "tx_seqno t = sq p" "tx_data t = map (byte_at T) [p ..< p + length (tx_data t)]"
        "p + length (tx_data t) \<le> y" "length (tx_data t) < 65536"
      using assms(6) by (auto simp: tx_slice_def)
    have bytes: "tx_data t = map (byte_at (T\<lparr>fin_at := Some y\<rparr>)) [p ..< p + length (tx_data t)]" using p(3) by simp
    note in1 = segment_in_at [OF p(3,2) False p(5) assms(8) fin syn] and in2 = segment_in_at [OF bytes p(2) False p(5) assms(8) fin syn]
    have "in_at T p ?i" by (rule in1(1)) (simp add: assms(4))
    moreover have "in_at (T\<lparr>fin_at := Some y\<rparr>) p ?i" by (rule in2(1)) (use p(4) in simp)
    moreover have "tlen (inseg ?i) = length (tx_data t)" by (rule in1(2)) (simp add: assms(4))
    moreover have "inseg i1 = inseg ?i" by (simp add: k)
    ultimately have inv: "in_at T p i1" "in_at (T\<lparr>fin_at := Some y\<rparr>) p i1" "tlen (inseg i1) = length (tx_data t)"
      by (simp_all only: k in_at_acked)
    have half: "rcv_half T c y r p1" using mid' by simp
    have "rcv_half T c y r ?pcb" using ok by blast
    then have "rcv_nxt ?pcb = sq r" by (rule rcv_half_nxt [THEN conjunct1])
    moreover have "c \<le> r" "r \<le> y" using half by (simp_all add: rcv_half_def)
    moreover have "rcv_wnd p1 = rcv_wnd ?pcb" using frame by (simp add: snd_frame_def rcv_kept_def rcv_part_def)
    ultimately have r: "c \<le> r" "r \<le> y" "rcv_nxt ?pcb = sq r" "rcv_wnd p1 = rcv_wnd ?pcb" by blast+
    have fit: "p + tlen (inseg i1) \<le> r + unat (rcv_wnd p1)" if "r < p"
    proof -
      have "TCP_SEQ_LT (sq r) (sq p)" using sq_compare(1) [of r p] that p(4) r(1) assms(5) by (simp add: short_stream_def)
      then have "sq p - sq r + word_of_nat (length (tx_data t)) \<le> (ucast (rcv_wnd ?pcb) :: u32)"
        using assms(10) p(2) r(3) by (simp add: fits_window_def)
      moreover have "sq p - sq r + word_of_nat (length (tx_data t)) = sq (p - r + length (tx_data t))" using that by simp
      moreover have "p - r + length (tx_data t) < 4294967296" using that p(4) r(1) assms(5) by (simp add: short_stream_def)
      then have "unat (sq (p - r + length (tx_data t))) = p - r + length (tx_data t)" by (simp only: unat_of_nat) simp
      ultimately have "p - r + length (tx_data t) \<le> unat (rcv_wnd ?pcb)"
        unfolding word_le_nat_alt by (simp add: unat_ucast_up)
      then show ?thesis using that inv(3) r(4) by simp
    qed
    have none: "recv_data i1 = None" "\<not> got_fin i1" using k i by (simp_all add: got_fin_def)
    have le: "p + tlen (inseg i1) \<le> y" using p(4) inv(3) by simp
    obtain p2 i2 e2 r2 where data: "tcp_receive_data p1 i1 e1 = Some (p2, i2, e2)" "r \<le> r2" "rcv_half T c y r2 p2"
        "delivered i2 = map (byte_at T) [r ..< r2]" "snd_data p2 = snd_data p1" "state p2 = ESTABLISHED" "log_empty e1 e2 (sq r)"
      using rcv_half_data [OF half st(2) assms(4,5) inv(1,2) p(1) le fit none, of e1] by auto
    obtain us where us: "tx_log e2 = tx_log e1 @ us" "\<forall>t \<in> set us. tx_data t = [] \<and> tx_hdr t = TCP_ACK \<and> tx_ackno t = sq r"
      using data(7) by (auto simp: log_empty_def)
    have "snd_half S b ?z a1 p2"
      using mid' snd_inv_data [OF data(5)] snd_at_data [OF data(5)] data(5,6) by (auto simp: snd_half_def snd_data_def)
    moreover have "e_delivered E @ delivered i2 = map (byte_at T) [c ..< r2]"
    proof -
      have "[c ..< r] @ [r ..< r2] = [c ..< r2]" using upt_add_eq_append [OF r(1), of "r2 - r"] data(2) by simp
      then show ?thesis using mid' data(4) by (metis map_append)
    qed
    moreover have "tx_slice S b ?z t \<and> tx_acks c r2 t" if "t \<in> set (tx_log e2)" for t
      using that us mid' tx_acks_mono [of c r _ r2] data(2) r(1) tx_empty by (auto simp: tx_acks_def intro: exI [of _ r])
    ultimately show ?thesis using run data(1-3) a1 by (auto simp: end_ok_def Let_def)
  qed
qed


lemma oos_ok_wider: "oos_ok S edge lo ss \<Longrightarrow> edge \<le> edge' \<Longrightarrow> oos_ok S edge' lo ss"
  by (induction ss arbitrary: lo) (auto intro: order_trans)

lemma end_recved_ok:
  assumes "end_ok S b T c y a r E" "fin_at S = None" "y \<le> c + short_stream"
  shows "\<exists>pcb e. tcp_recved input (e_pcb E) k (e_env E) = Some (pcb, e) \<and>
    end_ok S b T c y a r (E\<lparr>e_pcb := pcb, e_env := e\<rparr>)"
proof -
  let ?pcb = "e_pcb E" and ?z = "b + length (e_written E)"
  note ok = assms(1) [unfolded end_ok_def Let_def]
  obtain q n where q: "q \<ge> b" "snd_inv S q ?z ?pcb" "snd_at q ?z a n ?pcb" using ok by (auto simp: snd_half_def)
  have half: "rcv_half T c y r ?pcb" using ok by blast
  obtain edge x where at: "rcv_at r edge ?pcb" "oos_ok T edge (r + 1) (ooseq ?pcb)"
      "oos_ok (T\<lparr>fin_at := Some y\<rparr>) edge (r + 1) (ooseq ?pcb)" "c \<le> x" "x \<le> edge" "rcv_ann_right_edge ?pcb = sq x"
    using half by (auto simp: rcv_half_def)
  have pre: "r + 65536 \<le> x + 1073741824" "rcv_wnd ?pcb \<le> TCP_WND" "state ?pcb \<noteq> LISTEN"
    using half at(4) assms(3) ok by (simp_all add: rcv_half_def snd_half_def short_stream_def)
  note recved = tcp_recved_ok [OF at(1,6,5) pre(1,2) _ q(3) pre(3), where k = k and e = "e_env E" and input = input]
  obtain pcb e edge' n' x' ts where run: "tcp_recved input ?pcb k (e_env E) = Some (pcb, e)" "edge \<le> edge'" "rcv_at r edge' pcb"
      "rcv_wnd pcb \<le> TCP_WND" "ooseq pcb = ooseq ?pcb" "min r x \<le> x'" "x' \<le> edge'" "rcv_ann_right_edge pcb = sq x'"
      "snd_inv S q ?z pcb" "snd_at q ?z a n' pcb" "snd_lbb pcb = snd_lbb ?pcb" "mss pcb = mss ?pcb" "state pcb = state ?pcb"
      "tx_log e = e_log E @ ts" "\<forall>t \<in> set ts. tx_sent S q (a + unat (send_window ?pcb)) t \<and> tx_ackno t = sq r"
    using recved [OF q(2)] by blast
  have "\<forall>t \<in> set ts. tx_sent (S\<lparr>fin_at := Some ?z\<rparr>) q (a + unat (send_window ?pcb)) t"
    using recved [OF snd_inv_end [OF q(2) assms(2)]] run(1,14) by auto
  then have ts: "tx_slice S b ?z t" if "t \<in> set ts" for t using that tx_sent_slice run(15) assms(2) q(1) by blast
  have "snd_half S b ?z a pcb" using run(9-13) q(1) ok by (auto simp: snd_half_def)
  moreover have right: "\<exists>x \<ge> c. x \<le> edge' \<and> rcv_ann_right_edge pcb = sq x"
    using run(6-8) at(4) half by (intro exI [of _ x']) (auto simp: rcv_half_def)
  have "0 < c" "c \<le> r" "r \<le> y" using half by (simp_all add: rcv_half_def)
  then have "rcv_half T c y r pcb"
    unfolding rcv_half_def run(5) using run(3,4) right oos_ok_wider [OF at(2) run(2)] oos_ok_wider [OF at(3) run(2)] by blast
  moreover have "tx_acks c r t" if "t \<in> set ts" for t using that run(15) half by (auto simp: tx_acks_def rcv_half_def)
  ultimately have "end_ok S b T c y a r (E\<lparr>e_pcb := pcb, e_env := e\<rparr>)"
    using ok run(14) ts by (auto simp: end_ok_def Let_def)
  then show ?thesis using run(1) by blast
qed

section \<open>The connection\<close>

text \<open>When the other end writes, the receiving half stays in order.\<close>

lemma oos_ok_no_fin: "oos_ok T edge lo ss \<Longrightarrow> fin_at T = None \<Longrightarrow> s \<in> set ss \<Longrightarrow> \<not> has_hdr TCP_FIN s"
  by (induction ss arbitrary: lo) (auto simp: seg_at_def)

lemma oos_ok_later:
  "oos_ok (T\<lparr>fin_at := Some y\<rparr>) edge lo ss \<Longrightarrow> \<forall>s \<in> set ss. \<not> has_hdr TCP_FIN s \<Longrightarrow> y \<le> y' \<Longrightarrow>
   oos_ok (T\<lparr>fin_at := Some y'\<rparr>) edge lo ss"
  by (induction ss arbitrary: lo) (auto simp: seg_at_def intro: order_trans)

lemma end_ok_later:
  assumes "end_ok S b T c y a r E" "y \<le> y'" "fin_at T = None"
  shows "end_ok S b T c y' a r E"
proof -
  have "rcv_half T c y r (e_pcb E)" using assms(1) by (simp add: end_ok_def Let_def)
  then have "rcv_half T c y' r (e_pcb E)"
    using assms(2,3) oos_ok_later [OF _ _ assms(2)] oos_ok_no_fin unfolding rcv_half_def by (meson order_trans)
  then show ?thesis using assms(1) by (simp add: end_ok_def Let_def)
qed

text \<open>One step of an end.\<close>

lemma end_step_ok:
  assumes "end_step peer E E'" "end_ok S b T c y a r E" "of_written S b (e_written E')" "fin_at T = None" "y \<le> c + short_stream"
    and "a \<le> r'" "r' \<le> b + length (e_written E)" "\<And>t. t \<in> set peer \<Longrightarrow> tx_slice T c y t \<and> tx_acks b r' t"
  shows "\<exists>a' r2. end_ok S b T c y a' r2 E' \<and> a' \<le> r' \<and> r \<le> r2 \<and> (\<exists>W. e_written E' = e_written E @ W)"
proof -
  have fin: "fin_at S = None" using assms(3) by (simp add: of_written_def)
  from assms(1) show ?thesis
  proof cases
    case (app_write buf apiflags err pcb e)
    then have "end_ok S b T c y a r E'"
      using end_write_ok [OF assms(2) fin app_write(3-6), of apiflags] assms(3) by (simp add: Let_def)
    then show ?thesis using app_write(1) assms(6) by (intro exI [of _ a] exI [of _ r]) simp
  next
    case (app_output err pcb e)
    then show ?thesis using end_output_ok [OF assms(2) fin] assms(6) by fastforce
  next
    case (rto_timeout pcb e)
    then show ?thesis using end_rto_ok [OF assms(2) fin rto_timeout(3)] assms(6) by fastforce
  next
    case (arrival t p pcb i e)
    then show ?thesis
      using end_receive_ok [OF assms(2,6,7,4,5) _ _ arrival(4-6)] assms(8) by fastforce
  next
    case (app_recved input n pcb e)
    then show ?thesis using end_recved_ok [OF assms(2) fin assms(5), where input = input and k = n] assms(6) by fastforce
  next
    case (other_env e)
    then have "end_ok S b T c y a r E'" using assms(2) by (simp add: end_ok_def Let_def)
    then show ?thesis using other_env(1) assms(6) by auto
  qed
qed


lemma of_written_any: "\<exists>S. of_written S b W"
  by (rule exI [of _ "\<lparr>byte_at = (\<lambda>k. W ! (k - b)), fin_at = None\<rparr>"]) (simp add: of_written_def nth_equalityI)

lemma end_ok_log: "end_ok S b T c y a r E \<Longrightarrow> t \<in> set (e_log E) \<Longrightarrow> tx_slice S b (b + length (e_written E)) t \<and> tx_acks c r t"
  by (simp add: end_ok_def Let_def)

lemma end_ok_bounds:
  assumes "end_ok S b T c y a r E"
  shows "length (e_written E) \<le> short_stream" "r \<le> y"
  using assms by (auto simp: end_ok_def Let_def snd_half_def rcv_half_def)

lemma transfer_step_left:
  assumes "end_step (e_log B) A A'" "transfer_ok b c (A, B)"
  shows "transfer_ok b c (A', B)"
  unfolding transfer_ok_def prod.case
proof (intro allI impI)
  fix S T
  assume st: "of_written S b (e_written A') \<and> of_written T c (e_written B)"
  have fin: "fin_at S = None" "fin_at T = None" using st by (simp_all add: of_written_def)
  from assms(1) have "\<exists>W. e_written A' = e_written A @ W" by cases auto
  then obtain W where W: "e_written A' = e_written A @ W" by blast
  then have "of_written S b (e_written A)" using st of_written_append by metis
  then obtain a r a' r' where ok: "end_ok S b T c (c + length (e_written B)) a r A"
      "end_ok T c S b (b + length (e_written A)) a' r' B" "a \<le> r'" "a' \<le> r"
    using assms(2) st unfolding transfer_ok_def by blast
  obtain a1 r1 where step: "end_ok S b T c (c + length (e_written B)) a1 r1 A'" "a1 \<le> r'" "r \<le> r1"
    using end_step_ok [OF assms(1) ok(1) conjunct1 [OF st] fin(2) _ ok(3)] end_ok_bounds [OF ok(2)] end_ok_log [OF ok(2)] by auto
  have "end_ok T c S b (b + length (e_written A')) a' r' B" by (rule end_ok_later [OF ok(2) _ fin(1)]) (simp add: W)
  then show "\<exists>a r a' r'. end_ok S b T c (c + length (e_written B)) a r A' \<and>
      end_ok T c S b (b + length (e_written A')) a' r' B \<and> a \<le> r' \<and> a' \<le> r"
    using step ok(4) by (meson order_trans)
qed

lemma transfer_ok_swap: "transfer_ok b c (A, B) \<Longrightarrow> transfer_ok c b (B, A)"
  unfolding transfer_ok_def by blast

lemma transfer_step_ok: "transfer_step x y \<Longrightarrow> transfer_ok b c x \<Longrightarrow> transfer_ok b c y"
  by (induction rule: transfer_step.induct) (blast intro: transfer_step_left transfer_ok_swap)+

lemma established_ok:
  assumes "established b c A" "established c b B"
  shows "transfer_ok b c (A, B)"
proof -
  have one: "end_ok S b T c c b c E" if "established b c E" for S T b c E
  proof -
    note E = that [unfolded established_def Let_def]
    have z: "b + length (e_written E) = b" using E by simp
    have "snd_inv S b b (e_pcb E) \<and> snd_at b b b b (e_pcb E)" using E by (simp add: snd_inv_def snd_at_def)
    then have "snd_half S b b b (e_pcb E)" using E by (auto simp: snd_half_def)
    moreover have "rcv_at c (c + unat (rcv_wnd (e_pcb E))) (e_pcb E)"
      using E u16_lt [of "rcv_wnd (e_pcb E)"] unfolding rcv_at_def edge_at_def
      by (intro conjI exI [of _ "c + unat (rcv_ann_wnd (e_pcb E))"]) (simp_all add: word_le_nat_alt)
    then have "rcv_half T c c c (e_pcb E)"
      using E unfolding rcv_half_def
      by (intro conjI exI [of _ "c + unat (rcv_wnd (e_pcb E))"] exI [of _ "c + unat (rcv_ann_wnd (e_pcb E))"])
        (simp_all add: word_le_nat_alt)
    ultimately show ?thesis using E z by (simp add: end_ok_def)
  qed
  have W: "e_written A = []" "e_written B = []" using assms by (simp_all add: established_def Let_def)
  show ?thesis unfolding transfer_ok_def prod.case W list.size add_0_right
    using one [OF assms(1)] one [OF assms(2)] by blast
qed

lemma transfer_reachable:
  assumes "transfer_step\<^sup>*\<^sup>* (A\<^sub>0, B\<^sub>0) (A, B)" "established b c A\<^sub>0" "established c b B\<^sub>0"
  shows "transfer_ok b c (A, B)"
  using assms(1) by (induction rule: rtranclp_induct) (simp_all add: established_ok [OF assms(2,3)] transfer_step_ok)

text \<open>What an end has delivered is the beginning of what the other end wrote.\<close>

lemma transfer_prefix:
  assumes "transfer_ok b c (A, B)"
  shows "e_delivered B = take (length (e_delivered B)) (e_written A)"
    and "of_written S b (e_written A) \<Longrightarrow>
      \<exists>q. b \<le> q \<and> q \<le> b + length (e_delivered B) \<and> snd_inv S q (b + length (e_written A)) (e_pcb A)"
proof -
  obtain S\<^sub>0 T where ST: "of_written S\<^sub>0 b (e_written A)" "of_written T c (e_written B)" using of_written_any by blast
  have main: "e_delivered B = take (length (e_delivered B)) (e_written A) \<and>
      (\<exists>q. b \<le> q \<and> q \<le> b + length (e_delivered B) \<and> snd_inv S q (b + length (e_written A)) (e_pcb A))"
    if S: "of_written S b (e_written A)" for S
  proof -
    obtain a r a' r' where ok: "end_ok S b T c (c + length (e_written B)) a r A"
        "end_ok T c S b (b + length (e_written A)) a' r' B" "a \<le> r'" "a' \<le> r"
      using assms S ST(2) unfolding transfer_ok_def by blast
    note B = ok(2) [unfolded end_ok_def Let_def]
    have r: "b \<le> r'" "r' \<le> b + length (e_written A)" using B by (simp_all add: rcv_half_def)
    have d: "e_delivered B = map (byte_at S) [b ..< r']" using B by simp
    have "e_written A = map (byte_at S) [b ..< b + length (e_written A)]" using S by (simp add: of_written_def)
    then have "take (r' - b) (e_written A) = map (byte_at S) [b ..< r']" using r by (metis take_map take_upt le_add_diff_inverse)
    moreover obtain q n where "q \<ge> b" "snd_inv S q (b + length (e_written A)) (e_pcb A)" "q \<le> a"
      using ok(1) by (auto simp: end_ok_def Let_def snd_half_def snd_at_def)
    ultimately show ?thesis using d r ok(3) by (auto intro!: exI [of _ q])
  qed
  show "e_delivered B = take (length (e_delivered B)) (e_written A)" using main [OF ST(1)] by blast
  show "of_written S b (e_written A) \<Longrightarrow>
      \<exists>q. b \<le> q \<and> q \<le> b + length (e_delivered B) \<and> snd_inv S q (b + length (e_written A)) (e_pcb A)"
    using main by blast
qed


text \<open>C1: the bytes arrive in order and once, under the conditions of the steps. Two connections after their handshake exchange
  segments that may be lost, repeated, delayed and reordered, and memory and the IP layer may refuse anything. The steps demand what the code does not check:
  a write finds the end of the last unsent segment at the next byte to write (\<^verbatim>\<open>tail_ends\<close>, \<^verbatim>\<open>tail_ok\<close>; \<open>tcp_write_after_rexmit_overlaps\<close> shows what
  happens otherwise, after a fast retransmit); a timeout finds the segments in flight before the unsent ones (\<^verbatim>\<open>flight_first\<close>); an arriving segment
  that is early ends within the receive window (\<^verbatim>\<open>fits_window\<close>, see \<open>tcp_receive_overrun_aborts\<close>); there is no SYN, RST or FIN, and each application writes less than half a gigabyte.
  Then at any time what an end has delivered to its application is a prefix of what the other application wrote, and the
  written bytes from there on are still on the send queue, so that nothing is given up before it has arrived.\<close>

theorem tcp_transfer_in_order:
  assumes "transfer_step\<^sup>*\<^sup>* (A\<^sub>0, B\<^sub>0) (A, B)" and "established b c A\<^sub>0" and "established c b B\<^sub>0"
  shows "e_delivered B = take (length (e_delivered B)) (e_written A) \<and>
    e_delivered A = take (length (e_delivered A)) (e_written B) \<and>
    (\<forall>S. of_written S b (e_written A) \<longrightarrow>
      (\<exists>q. b \<le> q \<and> q \<le> b + length (e_delivered B) \<and> snd_inv S q (b + length (e_written A)) (e_pcb A)))"
proof -
  have ok: "transfer_ok b c (A, B)" using assms by (rule transfer_reachable)
  show ?thesis using transfer_prefix [OF ok] transfer_prefix(1) [OF transfer_ok_swap [OF ok]] by blast
qed

text \<open>C2: no call of the transfer fails. In every state that two connected ends can reach, \<^verbatim>\<open>tcp_output\<close>, \<^verbatim>\<open>tcp_recved\<close>,
  and, under the conditions of the steps, \<^verbatim>\<open>tcp_rexmit_rto\<close>, \<^verbatim>\<open>tcp_write\<close> and \<^verbatim>\<open>tcp_receive\<close> on any segment
  the other end has ever sent, come back: they pass no assertion that fails and their loops end.\<close>

theorem tcp_transfer_returns:
  assumes "transfer_step\<^sup>*\<^sup>* (A\<^sub>0, B\<^sub>0) (A, B)" and "established b c A\<^sub>0" and "established c b B\<^sub>0"
  shows "tcp_output False (e_pcb A) (e_env A) \<noteq> None \<and> tcp_recved input (e_pcb A) n (e_env A) \<noteq> None \<and>
    (flight_first (e_pcb A) \<longrightarrow> tcp_rexmit_rto False (e_pcb A) (e_env A) \<noteq> None) \<and>
    (tail_ends (e_pcb A) \<and> tail_ok (e_pcb A) \<and> length buf < 65536 \<and> length (e_written A) + length buf \<le> short_stream \<longrightarrow>
       tcp_write (e_pcb A) buf apiflags (e_env A) \<noteq> None) \<and>
    (\<forall>t \<in> set (e_log B). concat p = tx_data t \<and> tx_hdr t AND (TCP_SYN OR TCP_RST) = 0 \<and> fits_window t (e_pcb A) \<longrightarrow>
       tcp_receive (e_pcb A) (segment_in t p) (e_env A) \<noteq> None)"
proof -
  obtain S T where ST: "of_written S b (e_written A)" "of_written T c (e_written B)" using of_written_any by blast
  have fin: "fin_at S = None" "fin_at T = None" using ST by (simp_all add: of_written_def)
  obtain a r a' r' where ok: "end_ok S b T c (c + length (e_written B)) a r A"
      "end_ok T c S b (b + length (e_written A)) a' r' B" "a \<le> r'" "a' \<le> r"
    using transfer_reachable [OF assms] ST unfolding transfer_ok_def by blast
  note bounds = end_ok_bounds [OF ok(2)]
  then have short: "c + length (e_written B) \<le> c + short_stream" by simp
  have "tcp_output False (e_pcb A) (e_env A) \<noteq> None" using end_output_ok [OF ok(1) fin(1)] by blast
  moreover have "tcp_recved input (e_pcb A) n (e_env A) \<noteq> None" using end_recved_ok [OF ok(1) fin(1) short] by blast
  moreover have "tcp_rexmit_rto False (e_pcb A) (e_env A) \<noteq> None" if "flight_first (e_pcb A)"
    using end_rto_ok [OF ok(1) fin(1) that] by blast
  moreover have "tcp_write (e_pcb A) buf apiflags (e_env A) \<noteq> None"
    if "tail_ends (e_pcb A)" "tail_ok (e_pcb A)" "length buf < 65536" "length (e_written A) + length buf \<le> short_stream"
    using end_write_ok [OF ok(1) fin(1) that] by blast
  moreover have "tcp_receive (e_pcb A) (segment_in t p) (e_env A) \<noteq> None"
    if "t \<in> set (e_log B)" "concat p = tx_data t" "tx_hdr t AND (TCP_SYN OR TCP_RST) = 0" "fits_window t (e_pcb A)" for t
    using end_receive_ok [OF ok(1,3) bounds(2) fin(2) short _ _ that(2-4)] end_ok_log [OF ok(2) that(1)] by blast
  ultimately show ?thesis by blast
qed

text \<open>An instance: three bytes are written, sent and delivered.\<close>

definition example_end :: "nat \<Rightarrow> nat \<Rightarrow> tcp_end" where
  "example_end b c =
     \<lparr>e_pcb = (tcp_pcb_new 1 0 0)\<lparr>state := ESTABLISHED, lastack := sq b, snd_nxt := sq b, snd_lbb := sq b, rcv_nxt := sq c,
        rcv_ann_right_edge := sq c + ucast TCP_WND, snd_wnd := 3000, snd_wnd_max := 3000, cwnd := 3000, local_ip := IP_ADDR4 1\<rparr>,
      e_env = example_env, e_written = [], e_delivered = []\<rparr>"

definition can_write :: "u8 list \<Rightarrow> tcp_end \<Rightarrow> bool" where
  "can_write buf E \<longleftrightarrow>
     tail_ends (e_pcb E) \<and> tail_ok (e_pcb E) \<and> length buf < 65536 \<and> length (e_written E) + length buf \<le> short_stream"

definition do_write :: "u8 list \<Rightarrow> tcp_end \<Rightarrow> tcp_end option" where
  "do_write buf E =
     map_option (\<lambda>(err, pcb, e). E\<lparr>e_pcb := pcb, e_env := e, e_written := e_written E @ (if err = ERR_OK then buf else [])\<rparr>)
       (tcp_write (e_pcb E) buf 1 (e_env E))"

definition do_output :: "tcp_end \<Rightarrow> tcp_end option" where
  "do_output E = map_option (\<lambda>(err, pcb, e). E\<lparr>e_pcb := pcb, e_env := e\<rparr>) (tcp_output False (e_pcb E) (e_env E))"

definition do_arrival :: "tx_seg list \<Rightarrow> tcp_end \<Rightarrow> tcp_end option" where
  "do_arrival log E =
     (case log of
        [] \<Rightarrow> None
      | t # _ \<Rightarrow>
          if tx_hdr t AND (TCP_SYN OR TCP_RST) = 0 \<and> fits_window t (e_pcb E)
          then map_option (\<lambda>(pcb, i, e). E\<lparr>e_pcb := pcb, e_env := e, e_delivered := e_delivered E @ delivered i\<rparr>)
            (tcp_receive (e_pcb E) (segment_in t [tx_data t]) (e_env E))
          else None)"

lemma do_steps:
  "do_write buf E = Some E' \<Longrightarrow> can_write buf E \<Longrightarrow> end_step peer E E'" "do_output E = Some E' \<Longrightarrow> end_step peer E E'"
  "do_arrival peer E = Some E' \<Longrightarrow> end_step peer E E'"
proof -
  show "end_step peer E E'" if w: "do_write buf E = Some E'" "can_write buf E"
  proof -
    obtain err pcb e where r: "tcp_write (e_pcb E) buf 1 (e_env E) = Some (err, pcb, e)"
        "E' = E\<lparr>e_pcb := pcb, e_env := e, e_written := e_written E @ (if err = ERR_OK then buf else [])\<rparr>"
      using w(1) by (auto simp: do_write_def)
    show ?thesis unfolding r(2) by (rule app_write [OF r(1)]) (use w(2) in \<open>simp_all add: can_write_def\<close>)
  qed
  show "end_step peer E E'" if "do_output E = Some E'"
    using that by (auto simp: do_output_def intro: app_output)
  show "end_step peer E E'" if "do_arrival peer E = Some E'"
    using that by (auto simp: do_arrival_def intro!: arrival split: if_splits list.splits)
qed

definition example_transfer :: "tcp_end \<Rightarrow> tcp_end \<Rightarrow> u8 list \<Rightarrow> (tcp_end \<times> tcp_end) option" where
  "example_transfer A B buf = do {
     A \<leftarrow> do_write buf A;
     A \<leftarrow> do_output A;
     B \<leftarrow> do_arrival (e_log A) B;
     Some (A, B)
   }"

lemma example_transfer_reachable:
  assumes "example_transfer A B buf = Some (A', B')" "can_write buf A"
  shows "transfer_step\<^sup>*\<^sup>* (A, B) (A', B')"
proof -
  obtain A1 where "do_write buf A = Some A1" "do_output A1 = Some A'" "do_arrival (e_log A') B = Some B'"
    using assms(1) by (auto simp: example_transfer_def bind_eq_Some_conv)
  then have "transfer_step (A, B) (A1, B)" "transfer_step (A1, B) (A', B)" "transfer_step (A', B) (A', B')"
    using assms(2) by (auto intro: left right do_steps)
  then show ?thesis by (meson rtranclp.rtrancl_refl rtranclp.rtrancl_into_rtrancl)
qed

lemma example_can_write: "can_write [1, 2, 3] (example_end b c)"
  by (simp add: can_write_def example_end_def tcp_pcb_new_def tail_ends_def tail_ok_def tail_fits_def short_stream_def)

lemma transfer_swap: "transfer_step\<^sup>*\<^sup>* (A, B) (A', B') \<Longrightarrow> transfer_step\<^sup>*\<^sup>* (B, A) (B', A')"
proof (induction "(A', B')" arbitrary: A' B' rule: rtranclp_induct)
  case (step y)
  obtain C D where y: "y = (C, D)" by fastforce
  have "transfer_step (D, C) (B', A')" using step(2) unfolding y by (auto elim!: transfer_stepE intro: left right)
  then show ?case using step(3) [of C D] y by simp
qed simp

lemma example_end_established: "0 < b \<Longrightarrow> 0 < c \<Longrightarrow> established b c (example_end b c)"
  by (simp add: established_def example_end_def example_env_def tcp_pcb_new_def INITIAL_MSS_def TCP_WND_def)

declare tcp_write_segments.simps [code]

lemma example_transfer_result:
  "\<exists>A B. example_transfer (example_end 1000 2000) (example_end 2000 1000) [1, 2, 3] = Some (A, B) \<and> e_delivered B = [1, 2, 3]"
proof -
  have "(case example_transfer (example_end 1000 2000) (example_end 2000 1000) [1, 2, 3] of
      None \<Rightarrow> False | Some (A, B) \<Rightarrow> e_delivered B = [1, 2, 3])"
    by code_simp
  then show ?thesis by (auto split: option.splits prod.splits)
qed

theorem tcp_transfer_in_order_witness:
  "\<exists>A B. transfer_step\<^sup>*\<^sup>* (example_end 1000 2000, example_end 2000 1000) (A, B) \<and> e_delivered B = [1, 2, 3] \<and>
    e_delivered B = take (length (e_delivered B)) (e_written A) \<and>
    e_delivered A = take (length (e_delivered A)) (e_written B) \<and>
    (\<forall>S. of_written S 1000 (e_written A) \<longrightarrow>
      (\<exists>q. 1000 \<le> q \<and> q \<le> 1000 + length (e_delivered B) \<and> snd_inv S q (1000 + length (e_written A)) (e_pcb A)))"
proof -
  obtain A B where run: "example_transfer (example_end 1000 2000) (example_end 2000 1000) [1, 2, 3] = Some (A, B)"
      "e_delivered B = [1, 2, 3]"
    using example_transfer_result by blast
  have start: "established 1000 2000 (example_end 1000 2000)" "established 2000 1000 (example_end 2000 1000)"
    by (rule example_end_established; simp)+
  note steps = example_transfer_reachable [OF run(1) example_can_write]
  show ?thesis using steps run(2) tcp_transfer_in_order [OF steps start] by blast
qed

theorem tcp_transfer_returns_witness:
  "\<exists>A B. transfer_step\<^sup>*\<^sup>* (example_end 2000 1000, example_end 1000 2000) (A, B) \<and> e_delivered A = [1, 2, 3] \<and>
    tcp_output False (e_pcb A) (e_env A) \<noteq> None \<and> tcp_recved False (e_pcb A) 3 (e_env A) \<noteq> None \<and>
    (flight_first (e_pcb A) \<longrightarrow> tcp_rexmit_rto False (e_pcb A) (e_env A) \<noteq> None) \<and>
    (tail_ends (e_pcb A) \<and> tail_ok (e_pcb A) \<and> length [4, 5 :: u8] < 65536 \<and>
       length (e_written A) + length [4, 5 :: u8] \<le> short_stream \<longrightarrow>
       tcp_write (e_pcb A) [4, 5] 1 (e_env A) \<noteq> None) \<and>
    (\<forall>t \<in> set (e_log B). concat [[1, 2, 3]] = tx_data t \<and> tx_hdr t AND (TCP_SYN OR TCP_RST) = 0 \<and> fits_window t (e_pcb A) \<longrightarrow>
       tcp_receive (e_pcb A) (segment_in t [[1, 2, 3]]) (e_env A) \<noteq> None)"
proof -
  obtain B A where run: "example_transfer (example_end 1000 2000) (example_end 2000 1000) [1, 2, 3] = Some (B, A)"
      "e_delivered A = [1, 2, 3]"
    using example_transfer_result by blast
  have start: "established 2000 1000 (example_end 2000 1000)" "established 1000 2000 (example_end 1000 2000)"
    by (rule example_end_established; simp)+
  have steps: "transfer_step\<^sup>*\<^sup>* (example_end 2000 1000, example_end 1000 2000) (A, B)"
    using example_transfer_reachable [OF run(1) example_can_write] by (rule transfer_swap)
  show ?thesis using steps run(2) tcp_transfer_returns [OF steps start, of False 3 "[4, 5]" 1 "[[1, 2, 3]]"] by blast
qed

end
