(* ===== verification/Tcp_Pcbs.thy ===== *)
theory Tcp_Pcbs
  imports Tcp_Send
begin

text \<open>
  The control blocks of \<^verbatim>\<open>core/tcp.c\<close>: their memory, the lists of bound, active and waiting blocks, how
  a block is allocated, bound, connected, closed, aborted and freed.

  A pointer to a block is a number; \<open>pcbs\<close> is the memory, with \<open>None\<close> for a free element of the pool
  \<^verbatim>\<open>MEMP_TCP_PCB\<close>, so that an access to a freed block fails. The lists hold pointers, first element first.
  The listening blocks have their own pool and list.

  What the application is told is recorded in \<open>events\<close>, and \<open>answer\<close> is what its callbacks return; a callback
  that returns \<^verbatim>\<open>ERR_ABRT\<close> has called \<^verbatim>\<open>tcp_abort\<close> on the block before, as the interface demands. The zones of
  link-local IPv6 addresses are chosen by \<open>zoned\<close>.
\<close>

section \<open>State\<close>

type_synonym pcb_id = nat

record tcp_pcb_listen =
  l_local_ip :: ip_addr_t
  l_so_options :: u8
  l_tos :: u8
  l_ttl :: u8
  l_prio :: u8
  l_local_port :: u16
  l_accept :: bool

datatype tcp_event =
  Ev_accept pcb_id
| Ev_accept_mem
| Ev_connected pcb_id
| Ev_sent pcb_id u16
| Ev_recv pcb_id payloads
| Ev_closed pcb_id
| Ev_poll pcb_id
| Ev_err pcb_id err_t

record tcp_stack =
  pcbs :: "pcb_id \<Rightarrow> tcp_pcb option"
  pcb_pool :: "pcb_id list"
  bound_pcbs :: "pcb_id list"
  active_pcbs :: "pcb_id list"
  tw_pcbs :: "pcb_id list"
  listen_pcbs :: "(nat \<times> tcp_pcb_listen) list"
  listen_pool :: "nat list"
  active_pcbs_changed :: bool
  tcpip_tcp_timer_active :: bool
  tcp_port :: u16
  tcp_iss :: u32
  tcp_timer :: u8
  tcp_timer_ctr :: u8
  tcp_input_pcb :: "pcb_id option"
  input_close :: bool
  st_env :: tcp_env
  events :: "tcp_event list"
  answer :: "tcp_event list \<Rightarrow> tcp_event \<Rightarrow> err_t"
  zoned :: "ip_addr_t \<Rightarrow> ip_addr_t"

text \<open>An access to a block, and a call of a function on it.\<close>

definition put_pcb :: "pcb_id \<Rightarrow> tcp_pcb \<Rightarrow> tcp_stack \<Rightarrow> tcp_stack" where
  "put_pcb x pcb s = s\<lparr>pcbs := (pcbs s)(x := Some pcb)\<rparr>"

definition upd_pcb :: "(tcp_pcb \<Rightarrow> tcp_pcb) \<Rightarrow> pcb_id \<Rightarrow> tcp_stack \<Rightarrow> tcp_stack option" where
  "upd_pcb f x s = do { pcb \<leftarrow> pcbs s x; Some (put_pcb x (f pcb) s) }"

definition on_pcb ::
  "(tcp_pcb \<Rightarrow> tcp_env \<Rightarrow> ('a \<times> tcp_pcb \<times> tcp_env) option) \<Rightarrow> pcb_id \<Rightarrow> tcp_stack \<Rightarrow> ('a \<times> tcp_stack) option" where
  "on_pcb f x s = do {
     pcb \<leftarrow> pcbs s x;
     (a, pcb, e) \<leftarrow> f pcb (st_env s);
     Some (a, (put_pcb x pcb s)\<lparr>st_env := e\<rparr>)
   }"

definition output_pcb :: "pcb_id \<Rightarrow> tcp_stack \<Rightarrow> (err_t \<times> tcp_stack) option" where
  "output_pcb x s = on_pcb (tcp_output (tcp_input_pcb s = Some x)) x s"

section \<open>Lists\<close>

text \<open>The start of the periodic timer, seen from the lists; \<^verbatim>\<open>sys_timeout\<close> is in \<open>Sys_Timeouts\<close>.\<close>

definition timer_needed :: "tcp_stack \<Rightarrow> tcp_stack" where
  "timer_needed s =
     (if active_pcbs s \<noteq> [] \<or> tw_pcbs s \<noteq> [] then s\<lparr>tcpip_tcp_timer_active := True\<rparr> else s)"

definition reg_bound :: "pcb_id \<Rightarrow> tcp_stack \<Rightarrow> tcp_stack" where
  "reg_bound x s = timer_needed (s\<lparr>bound_pcbs := x # bound_pcbs s\<rparr>)"

definition reg_tw :: "pcb_id \<Rightarrow> tcp_stack \<Rightarrow> tcp_stack" where
  "reg_tw x s = timer_needed (s\<lparr>tw_pcbs := x # tw_pcbs s\<rparr>)"

definition TCP_REG_ACTIVE :: "pcb_id \<Rightarrow> tcp_stack \<Rightarrow> tcp_stack" where
  "TCP_REG_ACTIVE x s = (timer_needed (s\<lparr>active_pcbs := x # active_pcbs s\<rparr>))\<lparr>active_pcbs_changed := True\<rparr>"

definition rmv_bound :: "pcb_id \<Rightarrow> tcp_stack \<Rightarrow> tcp_stack" where
  "rmv_bound x s = s\<lparr>bound_pcbs := remove1 x (bound_pcbs s)\<rparr>"

definition rmv_tw :: "pcb_id \<Rightarrow> tcp_stack \<Rightarrow> tcp_stack" where
  "rmv_tw x s = s\<lparr>tw_pcbs := remove1 x (tw_pcbs s)\<rparr>"

definition rmv_active :: "pcb_id \<Rightarrow> tcp_stack \<Rightarrow> tcp_stack" where
  "rmv_active x s = s\<lparr>active_pcbs := remove1 x (active_pcbs s)\<rparr>"

definition TCP_RMV_ACTIVE :: "pcb_id \<Rightarrow> tcp_stack \<Rightarrow> tcp_stack" where
  "TCP_RMV_ACTIVE x s = (rmv_active x s)\<lparr>active_pcbs_changed := True\<rparr>"

section \<open>Purging and freeing\<close>

definition tcp_free_ooseq :: "tcp_pcb \<Rightarrow> tcp_env \<Rightarrow> tcp_pcb \<times> tcp_env" where
  "tcp_free_ooseq pcb e =
     (if ooseq pcb \<noteq> [] then (pcb\<lparr>ooseq := []\<rparr>, tcp_segs_free (ooseq pcb) e) else (pcb, e))"

definition tcp_pcb_purge :: "tcp_pcb \<Rightarrow> tcp_env \<Rightarrow> tcp_pcb \<times> tcp_env" where
  "tcp_pcb_purge pcb e =
     (if state pcb \<noteq> CLOSED \<and> state pcb \<noteq> TIME_WAIT \<and> state pcb \<noteq> LISTEN
      then
        (let pcb = (if refused_data pcb \<noteq> None then pcb\<lparr>refused_data := None, refused_fin := False\<rparr> else pcb);
             (pcb, e) = tcp_free_ooseq pcb e;
             pcb = pcb\<lparr>rtime := - 1\<rparr>;
             e = tcp_segs_free (unacked pcb) (tcp_segs_free (unsent pcb) e)
         in (pcb\<lparr>unacked := [], unsent := [], unsent_oversize := 0\<rparr>, e))
      else (pcb, e))"

definition purge_pcb :: "pcb_id \<Rightarrow> tcp_stack \<Rightarrow> tcp_stack option" where
  "purge_pcb x s = do {
     pcb \<leftarrow> pcbs s x;
     let (pcb, e) = tcp_pcb_purge pcb (st_env s);
     Some ((put_pcb x pcb s)\<lparr>st_env := e\<rparr>)
   }"

text \<open>The first argument takes the block off its list.\<close>

definition tcp_pcb_remove :: "(pcb_id \<Rightarrow> tcp_stack \<Rightarrow> tcp_stack) \<Rightarrow> pcb_id \<Rightarrow> tcp_stack \<Rightarrow> tcp_stack option" where
  "tcp_pcb_remove rmv x s = do {
     s \<leftarrow> purge_pcb x (rmv x s);
     pcb \<leftarrow> pcbs s x;
     s \<leftarrow> (if state pcb \<noteq> TIME_WAIT \<and> state pcb \<noteq> LISTEN \<and> tcp_is_flag_set TF_ACK_DELAY pcb
           then do { s \<leftarrow> upd_pcb tcp_ack_now x s; (_, s) \<leftarrow> output_pcb x s; Some s }
           else Some s);
     pcb \<leftarrow> pcbs s x;
     lwip_assert (unsent pcb = [] \<and> unacked pcb = [] \<and> ooseq pcb = []);
     Some (put_pcb x (pcb\<lparr>state := CLOSED, local_port := 0\<rparr>) s)
   }"

definition TCP_PCB_REMOVE_ACTIVE :: "pcb_id \<Rightarrow> tcp_stack \<Rightarrow> tcp_stack option" where
  "TCP_PCB_REMOVE_ACTIVE x s = do {
     s \<leftarrow> tcp_pcb_remove rmv_active x s;
     Some (s\<lparr>active_pcbs_changed := True\<rparr>)
   }"

definition tcp_free :: "pcb_id \<Rightarrow> tcp_stack \<Rightarrow> tcp_stack option" where
  "tcp_free x s = do {
     pcb \<leftarrow> pcbs s x;
     lwip_assert (state pcb \<noteq> LISTEN);
     Some (s\<lparr>pcbs := (pcbs s)(x := None), pcb_pool := x # pcb_pool s\<rparr>)
   }"

text \<open>The event of a failed connection; blocks without a callback tell nobody.\<close>

definition event_err :: "tcp_callbacks \<Rightarrow> pcb_id \<Rightarrow> err_t \<Rightarrow> tcp_stack \<Rightarrow> tcp_stack" where
  "event_err cb x err s = (if cb = Cb_stream then s\<lparr>events := events s @ [Ev_err x err]\<rparr> else s)"

definition tcp_abandon :: "pcb_id \<Rightarrow> bool \<Rightarrow> tcp_stack \<Rightarrow> tcp_stack option" where
  "tcp_abandon x reset s = do {
     pcb \<leftarrow> pcbs s x;
     lwip_assert (state pcb \<noteq> LISTEN);
     if state pcb = TIME_WAIT
     then do { s \<leftarrow> tcp_pcb_remove rmv_tw x s; tcp_free x s }
     else do {
       let sno = snd_nxt pcb;
       let ackno = rcv_nxt pcb;
       let cb = callbacks pcb;
       let closed = (state pcb = CLOSED);
       let lport = (if closed then 0 else local_port pcb);
       s \<leftarrow> (if closed then Some (if local_port pcb \<noteq> 0 then rmv_bound x s else s) else TCP_PCB_REMOVE_ACTIVE x s);
       pcb \<leftarrow> pcbs s x;
       let e = tcp_segs_free (ooseq pcb) (tcp_segs_free (unsent pcb) (tcp_segs_free (unacked pcb) (st_env s)));
       let e = (if \<not> closed \<and> reset
                then tcp_rst sno ackno (local_ip pcb) (remote_ip pcb) lport (remote_port pcb) e else e);
       s \<leftarrow> tcp_free x (s\<lparr>st_env := e\<rparr>);
       Some (event_err cb x ERR_ABRT s)
     }
   }"

definition tcp_abort :: "pcb_id \<Rightarrow> tcp_stack \<Rightarrow> tcp_stack option" where
  "tcp_abort x s = tcp_abandon x True s"

section \<open>Closing\<close>

definition tcp_close_shutdown_fin :: "pcb_id \<Rightarrow> tcp_stack \<Rightarrow> (err_t \<times> tcp_stack) option" where
  "tcp_close_shutdown_fin x s = do {
     pcb \<leftarrow> pcbs s x;
     let nxt = (if state pcb = SYN_RCVD \<or> state pcb = ESTABLISHED then Some FIN_WAIT_1
                else if state pcb = CLOSE_WAIT then Some LAST_ACK else None);
     case nxt of
       None \<Rightarrow> Some (ERR_OK, s)
     | Some st \<Rightarrow> do {
         (err, s) \<leftarrow> on_pcb tcp_send_fin x s;
         if err = ERR_OK
         then do {
           s \<leftarrow> upd_pcb (\<lambda>pcb. pcb\<lparr>state := st\<rparr>) x s;
           (_, s) \<leftarrow> output_pcb x s;
           Some (ERR_OK, s)
         }
         else if err = ERR_MEM
         then do { s \<leftarrow> upd_pcb (tcp_set_flags TF_CLOSEPEND) x s; Some (ERR_OK, s) }
         else Some (err, s)
       }
   }"

definition tcp_close_shutdown :: "pcb_id \<Rightarrow> bool \<Rightarrow> tcp_stack \<Rightarrow> (err_t \<times> tcp_stack) option" where
  "tcp_close_shutdown x rst_on_unacked_data s = do {
     pcb \<leftarrow> pcbs s x;
     if rst_on_unacked_data \<and> (state pcb = ESTABLISHED \<or> state pcb = CLOSE_WAIT) \<and>
        (refused_data pcb \<noteq> None \<or> rcv_wnd pcb \<noteq> TCP_WND)
     then do {
       lwip_assert (tcp_is_flag_set TF_RXCLOSED pcb);
       let e = tcp_rst (snd_nxt pcb) (rcv_nxt pcb) (local_ip pcb) (remote_ip pcb) (local_port pcb) (remote_port pcb) (st_env s);
       s \<leftarrow> purge_pcb x (s\<lparr>st_env := e\<rparr>);
       let s = TCP_RMV_ACTIVE x s;
       if tcp_input_pcb s = Some x then Some (ERR_OK, s\<lparr>input_close := True\<rparr>)
       else do { s \<leftarrow> tcp_free x s; Some (ERR_OK, s) }
     }
     else if state pcb = CLOSED
     then do { s \<leftarrow> tcp_free x (if local_port pcb \<noteq> 0 then rmv_bound x s else s); Some (ERR_OK, s) }
     else if state pcb = SYN_SENT
     then do { s \<leftarrow> TCP_PCB_REMOVE_ACTIVE x s; s \<leftarrow> tcp_free x s; Some (ERR_OK, s) }
     else tcp_close_shutdown_fin x s
   }"

definition tcp_close :: "pcb_id \<Rightarrow> tcp_stack \<Rightarrow> (err_t \<times> tcp_stack) option" where
  "tcp_close x s = do {
     s \<leftarrow> upd_pcb (tcp_set_flags TF_RXCLOSED) x s;
     tcp_close_shutdown x True s
   }"

definition tcp_shutdown :: "pcb_id \<Rightarrow> bool \<Rightarrow> bool \<Rightarrow> tcp_stack \<Rightarrow> (err_t \<times> tcp_stack) option" where
  "tcp_shutdown x shut_rx shut_tx s = do {
     s \<leftarrow> (if shut_rx then upd_pcb (tcp_set_flags TF_RXCLOSED) x s else Some s);
     if shut_rx \<and> shut_tx then tcp_close_shutdown x True s
     else do {
       s \<leftarrow> (if shut_rx then upd_pcb (\<lambda>pcb. pcb\<lparr>refused_data := None, refused_fin := False\<rparr>) x s else Some s);
       if shut_tx
       then do {
         pcb \<leftarrow> pcbs s x;
         if state pcb = SYN_RCVD \<or> state pcb = ESTABLISHED \<or> state pcb = CLOSE_WAIT
         then tcp_close_shutdown x shut_rx s
         else Some (ERR_CONN, s)
       }
       else Some (ERR_OK, s)
     }
   }"


section \<open>Allocation\<close>

definition inactivity_of :: "tcp_env \<Rightarrow> tcp_pcb \<Rightarrow> u32" where
  "inactivity_of e pcb = tcp_ticks e - tmr pcb"

text \<open>The oldest block of a list with a state: the last one of those with the longest inactivity.\<close>

fun kill_search :: "tcp_env \<Rightarrow> (tcp_pcb \<Rightarrow> bool) \<Rightarrow> (pcb_id \<times> tcp_pcb) list \<Rightarrow> u32 \<Rightarrow> pcb_id option \<Rightarrow> pcb_id option" where
  "kill_search e P [] inactivity inactive = inactive"
| "kill_search e P ((x, pcb) # ps) inactivity inactive =
     (if P pcb \<and> inactivity_of e pcb \<ge> inactivity
      then kill_search e P ps (inactivity_of e pcb) (Some x)
      else kill_search e P ps inactivity inactive)"

fun kill_prio_search ::
  "tcp_env \<Rightarrow> (pcb_id \<times> tcp_pcb) list \<Rightarrow> u8 \<Rightarrow> u32 \<Rightarrow> pcb_id option \<Rightarrow> pcb_id option" where
  "kill_prio_search e [] mprio inactivity inactive = inactive"
| "kill_prio_search e ((x, pcb) # ps) mprio inactivity inactive =
     (if prio pcb < mprio \<or> prio pcb = mprio \<and> inactivity_of e pcb \<ge> inactivity
      then kill_prio_search e ps (prio pcb) (inactivity_of e pcb) (Some x)
      else kill_prio_search e ps mprio inactivity inactive)"

text \<open>The blocks of a list, read from memory.\<close>

fun list_pcbs :: "tcp_stack \<Rightarrow> pcb_id list \<Rightarrow> (pcb_id \<times> tcp_pcb) list option" where
  "list_pcbs s [] = Some []"
| "list_pcbs s (x # xs) = do { pcb \<leftarrow> pcbs s x; ps \<leftarrow> list_pcbs s xs; Some ((x, pcb) # ps) }"

definition TCP_PRIO_MAX :: u8 where "TCP_PRIO_MAX = 127"
definition TCP_PRIO_NORMAL :: u8 where "TCP_PRIO_NORMAL = 64"

definition abandon_found :: "pcb_id option \<Rightarrow> bool \<Rightarrow> tcp_stack \<Rightarrow> tcp_stack option" where
  "abandon_found found reset s = (case found of None \<Rightarrow> Some s | Some x \<Rightarrow> tcp_abandon x reset s)"

definition tcp_kill_prio :: "u8 \<Rightarrow> tcp_stack \<Rightarrow> tcp_stack option" where
  "tcp_kill_prio pr s =
     (let mprio = min TCP_PRIO_MAX pr
      in if mprio = 0 then Some s
         else do {
           ps \<leftarrow> list_pcbs s (active_pcbs s);
           abandon_found (kill_prio_search (st_env s) ps (mprio - 1) 0 None) True s
         })"

definition tcp_kill_state :: "tcp_state \<Rightarrow> tcp_stack \<Rightarrow> tcp_stack option" where
  "tcp_kill_state st s = do {
     lwip_assert (st = CLOSING \<or> st = LAST_ACK);
     ps \<leftarrow> list_pcbs s (active_pcbs s);
     abandon_found (kill_search (st_env s) (\<lambda>pcb. state pcb = st) ps 0 None) False s
   }"

definition tcp_kill_timewait :: "tcp_stack \<Rightarrow> tcp_stack option" where
  "tcp_kill_timewait s = do {
     ps \<leftarrow> list_pcbs s (tw_pcbs s);
     abandon_found (kill_search (st_env s) (\<lambda>_. True) ps 0 None) True s
   }"

text \<open>
  The pointer to the next block is read before the FIN goes out. Closing takes no block off the list, so
  the walk is over the list as it was.
\<close>

fun handle_closepend_loop :: "pcb_id list \<Rightarrow> tcp_stack \<Rightarrow> tcp_stack option" where
  "handle_closepend_loop [] s = Some s"
| "handle_closepend_loop (x # xs) s = do {
     pcb \<leftarrow> pcbs s x;
     s \<leftarrow> (if tcp_is_flag_set TF_CLOSEPEND pcb
           then do {
             s \<leftarrow> upd_pcb (tcp_clear_flags TF_CLOSEPEND) x s;
             (_, s) \<leftarrow> tcp_close_shutdown_fin x s;
             Some s
           }
           else Some s);
     handle_closepend_loop xs s
   }"

definition tcp_handle_closepend :: "tcp_stack \<Rightarrow> tcp_stack option" where
  "tcp_handle_closepend s = handle_closepend_loop (active_pcbs s) s"

text \<open>\<open>tcp_make_room\<close> is one attempt after the other until an element of the pool is free.\<close>

definition unless_free :: "(tcp_stack \<Rightarrow> tcp_stack option) \<Rightarrow> tcp_stack \<Rightarrow> tcp_stack option" where
  "unless_free f s = (if pcb_pool s \<noteq> [] then Some s else f s)"

definition tcp_make_room :: "u8 \<Rightarrow> tcp_stack \<Rightarrow> tcp_stack option" where
  "tcp_make_room pr s = do {
     s \<leftarrow> unless_free (\<lambda>s. do { s \<leftarrow> tcp_handle_closepend s; tcp_kill_timewait s }) s;
     s \<leftarrow> unless_free (tcp_kill_state LAST_ACK) s;
     s \<leftarrow> unless_free (tcp_kill_state CLOSING) s;
     unless_free (tcp_kill_prio pr) s
   }"

definition tcp_alloc :: "u8 \<Rightarrow> tcp_stack \<Rightarrow> (pcb_id option \<times> tcp_stack) option" where
  "tcp_alloc pr s = do {
     s \<leftarrow> tcp_make_room pr s;
     case pcb_pool s of
       [] \<Rightarrow> Some (None, s)
     | x # xs \<Rightarrow>
         Some (Some x, (put_pcb x (tcp_pcb_new pr (tcp_ticks (st_env s)) (tcp_timer_ctr s)) s)\<lparr>pcb_pool := xs\<rparr>)
   }"

definition tcp_new_ip_type :: "ip_addr_t \<Rightarrow> tcp_stack \<Rightarrow> (pcb_id option \<times> tcp_stack) option" where
  "tcp_new_ip_type any s = do {
     (r, s) \<leftarrow> tcp_alloc TCP_PRIO_NORMAL s;
     case r of
       None \<Rightarrow> Some (None, s)
     | Some x \<Rightarrow> do { s \<leftarrow> upd_pcb (\<lambda>pcb. pcb\<lparr>local_ip := any, remote_ip := any\<rparr>) x s; Some (Some x, s) }
   }"

section \<open>Ports and addresses\<close>

definition TCP_LOCAL_PORT_RANGE_START :: u16 where "TCP_LOCAL_PORT_RANGE_START = 0xc000"
definition TCP_LOCAL_PORT_RANGE_END :: u16 where "TCP_LOCAL_PORT_RANGE_END = 0xffff"

definition TCP_ENSURE_LOCAL_PORT_RANGE :: "u32 \<Rightarrow> u16" where
  "TCP_ENSURE_LOCAL_PORT_RANGE port =
     ucast ((port AND ucast (NOT TCP_LOCAL_PORT_RANGE_START)) + ucast TCP_LOCAL_PORT_RANGE_START)"

definition tcp_init :: "u32 \<Rightarrow> tcp_stack \<Rightarrow> tcp_stack" where
  "tcp_init rand s = s\<lparr>tcp_port := TCP_ENSURE_LOCAL_PORT_RANGE rand\<rparr>"

text \<open>The local ports of all lists, listening blocks first.\<close>

definition local_ports :: "tcp_stack \<Rightarrow> u16 list option" where
  "local_ports s = do {
     ps \<leftarrow> list_pcbs s (bound_pcbs s @ active_pcbs s @ tw_pcbs s);
     Some (map (l_local_port \<circ> snd) (listen_pcbs s) @ map (local_port \<circ> snd) ps)
   }"

definition next_port :: "u16 \<Rightarrow> u16" where
  "next_port port =
     (if port + 1 = TCP_LOCAL_PORT_RANGE_END then TCP_LOCAL_PORT_RANGE_START else port + 1)"

text \<open>The result and the last port tried. The counter does not reach the width of \<^verbatim>\<open>u16_t\<close>.\<close>

function new_port_loop :: "u16 list \<Rightarrow> nat \<Rightarrow> u16 \<Rightarrow> u16 \<times> u16" where
  "new_port_loop used n port =
     (let port = next_port port
      in if port \<in> set used
         then if n + 1 > unat (TCP_LOCAL_PORT_RANGE_END - TCP_LOCAL_PORT_RANGE_START) then (0, port)
              else new_port_loop used (n + 1) port
         else (port, port))"
  by auto
termination
  by (relation "measure (\<lambda>(used, n, port). unat (TCP_LOCAL_PORT_RANGE_END - TCP_LOCAL_PORT_RANGE_START) + 1 - n)") auto

declare new_port_loop.simps [simp del]

definition tcp_new_port :: "tcp_stack \<Rightarrow> (u16 \<times> tcp_stack) option" where
  "tcp_new_port s = do {
     used \<leftarrow> local_ports s;
     let (port, last_port) = new_port_loop used 0 (tcp_port s);
     Some (port, s\<lparr>tcp_port := last_port\<rparr>)
   }"

definition addr_conflict :: "ip_addr_t \<Rightarrow> ip_addr_t \<Rightarrow> bool" where
  "addr_conflict ipaddr loc \<longleftrightarrow>
     IP_IS_V6 ipaddr = IP_IS_V6 loc \<and> (ip_addr_isany loc \<or> ip_addr_isany ipaddr \<or> loc = ipaddr)"

definition same_type :: "ip_addr_t \<Rightarrow> ip_addr_t \<Rightarrow> bool" where
  "same_type a b \<longleftrightarrow> IP_IS_V6 a = IP_IS_V6 b \<and> (a = IP_ADDR_ANY_TYPE \<longleftrightarrow> b = IP_ADDR_ANY_TYPE)"

definition tcp_bind :: "pcb_id \<Rightarrow> ip_addr_t \<Rightarrow> u16 \<Rightarrow> tcp_stack \<Rightarrow> (err_t \<times> tcp_stack) option" where
  "tcp_bind x ipaddr port s = do {
     pcb \<leftarrow> pcbs s x;
     lwip_assert (state pcb = CLOSED);
     let ipaddr = (if IP_IS_V6 ipaddr then zoned s ipaddr else ipaddr);
     ps \<leftarrow> list_pcbs s (bound_pcbs s @ active_pcbs s @ tw_pcbs s);
     let taken = map (\<lambda>(_, l). (l_local_port l, l_local_ip l)) (listen_pcbs s) @ map (\<lambda>(_, p). (local_port p, local_ip p)) ps;
     if port \<noteq> 0 \<and> (\<exists>(q, loc) \<in> set taken. q = port \<and> addr_conflict ipaddr loc) then Some (ERR_USE, s)
     else do {
       (port, s) \<leftarrow> (if port = 0 then tcp_new_port s else Some (port, s));
       if port = 0 then Some (ERR_BUF, s)
       else do {
         s \<leftarrow> upd_pcb (\<lambda>pcb. (if \<not> ip_addr_isany ipaddr \<or> \<not> same_type ipaddr (local_ip pcb)
                             then pcb\<lparr>local_ip := ipaddr\<rparr> else pcb)\<lparr>local_port := port\<rparr>) x s;
         Some (ERR_OK, reg_bound x s)
       }
     }
   }"

definition tcp_bind_netif :: "pcb_id \<Rightarrow> u8 \<Rightarrow> tcp_stack \<Rightarrow> tcp_stack option" where
  "tcp_bind_netif x idx s = upd_pcb (\<lambda>pcb. pcb\<lparr>netif_idx := idx\<rparr>) x s"

definition tcp_setprio :: "pcb_id \<Rightarrow> u8 \<Rightarrow> tcp_stack \<Rightarrow> tcp_stack option" where
  "tcp_setprio x pr s = upd_pcb (\<lambda>pcb. pcb\<lparr>prio := pr\<rparr>) x s"

section \<open>Listening\<close>

text \<open>
  \<^verbatim>\<open>LWIP_ERROR\<close> stops the program when the block is not closed, so that the test for a block that listens
  already, further down, is never true.
\<close>

definition tcp_listen_with_backlog_and_err :: "pcb_id \<Rightarrow> tcp_stack \<Rightarrow> (nat option \<times> err_t \<times> tcp_stack) option" where
  "tcp_listen_with_backlog_and_err x s = do {
     pcb \<leftarrow> pcbs s x;
     lwip_assert (state pcb = CLOSED);
     case listen_pool s of
       [] \<Rightarrow> Some (None, ERR_MEM, s)
     | l # ls \<Rightarrow> do {
         let lpcb = \<lparr>l_local_ip = local_ip pcb, l_so_options = so_options pcb, l_tos = tos pcb, l_ttl = ttl pcb,
                     l_prio = prio pcb, l_local_port = local_port pcb, l_accept = False\<rparr>;
         s \<leftarrow> tcp_free x (if local_port pcb \<noteq> 0 then rmv_bound x s else s);
         Some (Some l, ERR_OK, timer_needed (s\<lparr>listen_pool := ls, listen_pcbs := (l, lpcb) # listen_pcbs s\<rparr>))
       }
   }"

definition tcp_accept :: "nat \<Rightarrow> bool \<Rightarrow> tcp_stack \<Rightarrow> tcp_stack" where
  "tcp_accept l accept s =
     s\<lparr>listen_pcbs := map (\<lambda>(m, lpcb). (m, if m = l then lpcb\<lparr>l_accept := accept\<rparr> else lpcb)) (listen_pcbs s)\<rparr>"

definition tcp_listen_closed :: "nat \<Rightarrow> tcp_stack \<Rightarrow> tcp_stack" where
  "tcp_listen_closed l s =
     s\<lparr>pcbs := (\<lambda>x. if x \<in> set (bound_pcbs s) \<union> set (active_pcbs s) \<union> set (tw_pcbs s)
        then map_option (\<lambda>pcb. if listener pcb = Some l then pcb\<lparr>listener := None\<rparr> else pcb) (pcbs s x)
        else pcbs s x)\<rparr>"

text \<open>\<^verbatim>\<open>tcp_close\<close> of a listening block.\<close>

definition tcp_close_listen :: "nat \<Rightarrow> tcp_stack \<Rightarrow> tcp_stack option" where
  "tcp_close_listen l s = do {
     lwip_assert (l \<in> fst ` set (listen_pcbs s));
     let s = tcp_listen_closed l s;
     Some (s\<lparr>listen_pcbs := filter (\<lambda>(m, _). m \<noteq> l) (listen_pcbs s), listen_pool := l # listen_pool s\<rparr>)
   }"

section \<open>Connecting\<close>

definition tcp_next_iss :: "tcp_stack \<Rightarrow> u32 \<times> tcp_stack" where
  "tcp_next_iss s = (let iss = tcp_iss s + tcp_ticks (st_env s) in (iss, s\<lparr>tcp_iss := iss\<rparr>))"

definition tcp_connect :: "pcb_id \<Rightarrow> ip_addr_t \<Rightarrow> u16 \<Rightarrow> tcp_stack \<Rightarrow> (err_t \<times> tcp_stack) option" where
  "tcp_connect x ipaddr port s = do {
     pcb \<leftarrow> pcbs s x;
     lwip_assert (state pcb = CLOSED);
     let pcb = pcb\<lparr>remote_ip := ipaddr, remote_port := port\<rparr>;
     let e = st_env s;
     case (if netif_idx pcb \<noteq> 0 then netif_get_by_index e (netif_idx pcb) else ip_route e (local_ip pcb) (remote_ip pcb)) of
       None \<Rightarrow> Some (ERR_RTE, put_pcb x pcb s)
     | Some netif \<Rightarrow>
     case (if ip_addr_isany (local_ip pcb) then nif_local_ip netif ipaddr else Some (local_ip pcb)) of
       None \<Rightarrow> Some (ERR_RTE, put_pcb x pcb s)
     | Some lip \<Rightarrow> do {
         let pcb = pcb\<lparr>local_ip := lip, remote_ip := (if IP_IS_V6 ipaddr then zoned s ipaddr else ipaddr)\<rparr>;
         let old_local_port = local_port pcb;
         let s = put_pcb x pcb s;
         (lport, s) \<leftarrow> (if old_local_port = 0 then tcp_new_port s else Some (old_local_port, s));
         s \<leftarrow> upd_pcb (\<lambda>pcb. pcb\<lparr>local_port := lport\<rparr>) x s;
         if lport = 0 then Some (ERR_BUF, s)
         else do {
           let (iss, s) = tcp_next_iss s;
           s \<leftarrow> upd_pcb (\<lambda>pcb. pcb\<lparr>rcv_nxt := 0, snd_nxt := iss, lastack := iss - 1, snd_wl2 := iss - 1, snd_lbb := iss - 1,
              rcv_wnd := TCP_WND, rcv_ann_wnd := TCP_WND, rcv_ann_right_edge := 0, snd_wnd := TCP_WND,
              mss := tcp_eff_send_mss_netif INITIAL_MSS (Some netif) (remote_ip pcb) e, cwnd := 1\<rparr>) x s;
           (err, s) \<leftarrow> on_pcb (\<lambda>pcb. tcp_enqueue_flags pcb TCP_SYN) x s;
           if err = ERR_OK
           then do {
             s \<leftarrow> upd_pcb (\<lambda>pcb. pcb\<lparr>state := SYN_SENT\<rparr>) x s;
             let s = (if old_local_port \<noteq> 0 then rmv_bound x s else s);
             (_, s) \<leftarrow> output_pcb x (TCP_REG_ACTIVE x s);
             Some (err, s)
           }
           else Some (err, s)
         }
       }
   }"

end
