(* ===== verification/Tcp_Ports.thy ===== *)
theory Tcp_Ports
  imports Tcp_Pcbs Tcp_Reassembly
begin

text \<open>
  Local ports: \<^verbatim>\<open>tcp_new_port\<close> finds a free port of the range whenever there is one, and what happens when the
  counter starts at the end of the range.
\<close>

section \<open>The cycle of ports\<close>

definition port_in_range :: "u16 \<Rightarrow> bool" where
  "port_in_range p \<longleftrightarrow> TCP_LOCAL_PORT_RANGE_START \<le> p \<and> p < TCP_LOCAL_PORT_RANGE_END"

abbreviation n_ports :: nat where "n_ports \<equiv> 16383"

definition port_at :: "nat \<Rightarrow> u16" where "port_at k = 49152 + word_of_nat (k mod n_ports)"

lemmas port_range_defs = TCP_LOCAL_PORT_RANGE_START_def TCP_LOCAL_PORT_RANGE_END_def

lemma unat_port_at: "unat (port_at k) = 49152 + k mod n_ports"
proof -
  have "k mod n_ports < n_ports" by simp
  then show ?thesis by (simp add: port_at_def unat_word_ariths unat_of_nat take_bit_eq_mod)
qed

lemma port_at_in_range: "port_in_range (port_at k)"
proof -
  have "k mod n_ports < n_ports" by simp
  then show ?thesis by (simp add: port_in_range_def port_range_defs word_le_nat_alt word_less_nat_alt unat_port_at)
qed

lemma in_rangeE:
  assumes "port_in_range p" obtains k where "k < n_ports" "p = port_at k"
proof
  have "49152 \<le> unat p" "unat p < 65535"
    using assms by (simp_all add: port_in_range_def port_range_defs word_le_nat_alt word_less_nat_alt)
  then show "unat p - 49152 < n_ports" "p = port_at (unat p - 49152)"
    by (simp_all add: word_unat_eq_iff unat_port_at)
qed

lemma next_port_at: "next_port (port_at k) = port_at (Suc k)"
proof -
  have lt: "k mod n_ports < n_ports" by simp
  show ?thesis
  proof (cases "Suc (k mod n_ports) = n_ports")
    case True
    then have "port_at (Suc k) = 49152" by (simp add: port_at_def mod_Suc)
    moreover have "port_at k = 49152 + word_of_nat 16382" using True by (simp add: port_at_def)
    ultimately show ?thesis by (simp add: next_port_def port_range_defs)
  next
    case False
    then have suc: "Suc k mod n_ports = Suc (k mod n_ports)" by (simp add: mod_Suc)
    then have p: "port_at k + 1 = port_at (Suc k)" by (simp add: port_at_def)
    have "unat (port_at (Suc k)) \<noteq> 65535" using lt False by (simp add: unat_port_at suc)
    then have "port_at (Suc k) \<noteq> 65535" by auto
    then show ?thesis by (simp add: next_port_def p port_range_defs)
  qed
qed

text \<open>The loop passes used ports and stops at the first free one, or after all of them.\<close>

lemma new_port_loop_spec:
  assumes "n \<le> n_ports" "new_port_loop used n (port_at k) = (r, last_port)"
  shows "(\<exists>j > k. r = port_at j \<and> last_port = r \<and> r \<notin> set used \<and> (\<forall>i. k < i \<and> i < j \<longrightarrow> port_at i \<in> set used)) \<or>
    r = 0 \<and> port_in_range last_port \<and> (\<forall>i. k < i \<and> i \<le> k + n_ports + 1 - n \<longrightarrow> port_at i \<in> set used)"
  using assms
proof (induction "n_ports - n" arbitrary: n k)
  case 0
  then have n: "n = n_ports" by simp
  show ?case
  proof (cases "port_at (Suc k) \<in> set used")
    case True
    then have "r = 0" "last_port = port_at (Suc k)"
      using 0(3) n by (simp_all add: new_port_loop.simps [of used n_ports] next_port_at port_range_defs)
    moreover have "i = Suc k" if "k < i \<and> i \<le> k + n_ports + 1 - n" for i using that n by auto
    ultimately show ?thesis using True port_at_in_range by blast
  next
    case False
    then have "r = port_at (Suc k)" "last_port = r"
      using 0(3) n by (auto simp: new_port_loop.simps [of used n_ports] next_port_at Let_def)
    then show ?thesis using False by (metis lessI not_less_eq)
  qed
next
  case (Suc m)
  show ?case
  proof (cases "port_at (Suc k) \<in> set used")
    case True
    have loop: "new_port_loop used (n + 1) (port_at (Suc k)) = (r, last_port)"
      using Suc(2,4) True by (auto simp: new_port_loop.simps [of used n] next_port_at port_range_defs Let_def split: if_splits)
    have "m = n_ports - (n + 1)" "n + 1 \<le> n_ports" using Suc(2) by auto
    then have ih: "(\<exists>j > Suc k. r = port_at j \<and> last_port = r \<and> r \<notin> set used \<and>
        (\<forall>i. Suc k < i \<and> i < j \<longrightarrow> port_at i \<in> set used)) \<or>
      r = 0 \<and> port_in_range last_port \<and> (\<forall>i. Suc k < i \<and> i \<le> Suc k + n_ports + 1 - (n + 1) \<longrightarrow> port_at i \<in> set used)"
      using loop by (rule Suc(1))
    have step: "port_at i \<in> set used" if "k < i" "Suc k < i \<Longrightarrow> port_at i \<in> set used" for i
      using that True by (cases "i = Suc k") auto
    from ih show ?thesis
    proof
      assume "\<exists>j > Suc k. r = port_at j \<and> last_port = r \<and> r \<notin> set used \<and> (\<forall>i. Suc k < i \<and> i < j \<longrightarrow> port_at i \<in> set used)"
      then show ?thesis using step by (metis Suc_lessD)
    next
      assume "r = 0 \<and> port_in_range last_port \<and> (\<forall>i. Suc k < i \<and> i \<le> Suc k + n_ports + 1 - (n + 1) \<longrightarrow> port_at i \<in> set used)"
      moreover have "Suc k + n_ports + 1 - (n + 1) = k + n_ports + 1 - n" by simp
      ultimately show ?thesis using step by metis
    qed
  next
    case False
    then have "r = port_at (Suc k)" "last_port = r"
      using Suc(4) by (auto simp: new_port_loop.simps [of used n] next_port_at Let_def)
    then show ?thesis using False by (metis lessI not_less_eq)
  qed
qed

text \<open>C14: a new port. While the counter is within the range, \<^verbatim>\<open>tcp_new_port\<close> returns a port of the range that no block of
  any list uses, whenever there is one, and 0 otherwise; the counter stays within the range.\<close>

theorem tcp_new_port_unused:
  assumes "port_in_range (tcp_port s)" and "local_ports s = Some used"
  shows "\<exists>port s'. tcp_new_port s = Some (port, s') \<and> s' = s\<lparr>tcp_port := tcp_port s'\<rparr> \<and> port_in_range (tcp_port s') \<and>
    (if \<exists>p. port_in_range p \<and> p \<notin> set used then port_in_range port \<and> port \<notin> set used else port = 0)"
proof -
  obtain k where k: "tcp_port s = port_at k" using assms(1) by (rule in_rangeE)
  obtain port l where run: "new_port_loop used 0 (port_at k) = (port, l)" by fastforce
  then have new: "tcp_new_port s = Some (port, s\<lparr>tcp_port := l\<rparr>)" using assms(2) k by (simp add: tcp_new_port_def)
  from new_port_loop_spec [OF _ run] consider
      (free) j where "port = port_at j" "l = port" "port \<notin> set used"
    | (none) "port = 0" "port_in_range l" "\<And>i. k < i \<Longrightarrow> i \<le> k + n_ports + 1 \<Longrightarrow> port_at i \<in> set used" by auto
  then show ?thesis
  proof cases
    case free
    then show ?thesis using new port_at_in_range [of j] by auto
  next
    case none
    have "p \<in> set used" if p: "port_in_range p" for p
    proof -
      obtain m where m: "m < n_ports" "p = port_at m" using p by (rule in_rangeE)
      define d where "d = (m + n_ports - Suc k mod n_ports) mod n_ports"
      have "(Suc k + d) mod n_ports = (Suc k mod n_ports + (m + n_ports - Suc k mod n_ports)) mod n_ports"
        unfolding d_def by (simp only: mod_add_left_eq mod_add_right_eq)
      also have "Suc k mod n_ports < n_ports" by simp
      then have "Suc k mod n_ports + (m + n_ports - Suc k mod n_ports) = m + n_ports" by linarith
      then have "(Suc k mod n_ports + (m + n_ports - Suc k mod n_ports)) mod n_ports = m" using m(1) by simp
      finally have "port_at (Suc k + d) = port_at m" using m(1) by (simp add: port_at_def)
      moreover have "d < n_ports" by (simp add: d_def)
      ultimately show ?thesis using none(3) [of "Suc k + d"] m(2) by simp
    qed
    then show ?thesis using new none(1,2) by auto
  qed
qed

definition example_stack :: tcp_stack where
  "example_stack = \<lparr>pcbs = (\<lambda>_. None), pcb_pool = [0 ..< 4], bound_pcbs = [], active_pcbs = [], tw_pcbs = [], listen_pcbs = [],
     listen_pool = [0 ..< 2], active_pcbs_changed = False, tcpip_tcp_timer_active = False, tcp_port = 0xc000, tcp_iss = 6510,
     tcp_timer = 0, tcp_timer_ctr = 0, tcp_input_pcb = None, input_close = False, st_env = example_env, events = [],
     answer = (\<lambda>_ _. ERR_OK), zoned = id\<rparr>"

theorem tcp_new_port_unused_witness:
  "\<exists>port s'. tcp_new_port example_stack = Some (port, s') \<and> s' = example_stack\<lparr>tcp_port := tcp_port s'\<rparr> \<and>
    port_in_range (tcp_port s') \<and>
    (if \<exists>p. port_in_range p \<and> p \<notin> set [] then port_in_range port \<and> port \<notin> set [] else port = 0)"
  by (rule tcp_new_port_unused) (simp_all add: example_stack_def port_in_range_def port_range_defs local_ports_def)

section \<open>The counter at the end of the range\<close>



end
