(* ===== verification/Tcp_Process.thy ===== *)
theory Tcp_Process
  imports Tcp_App Tcp_Pcbs Tcp_Opt
begin

text \<open>
  A segment that arrives, \<^verbatim>\<open>tcp_input\<close> of \<^verbatim>\<open>core/tcp_in.c\<close>: its header, the search for the connection it
  belongs to, the state machine \<^verbatim>\<open>tcp_process\<close>, the segments for listening and waiting blocks, and what the
  application is told. The options of \<^verbatim>\<open>TUN2SOCKS\<close> make every SYN belong to the first listening block.

  The bytes of the packet are given by the payloads of its pbufs, the first of which begins with the
  TCP header; the IP layer also passes the addresses, the interface and whether the destination is a
  broadcast or multicast address. Checksums are not checked in this configuration.
\<close>

section \<open>The header\<close>

record tcp_packet =
  pk_p :: payloads
  pk_src :: ip_addr_t
  pk_dst :: ip_addr_t
  pk_netif :: u8
  pk_cast :: bool

definition get16 :: "u8 list \<Rightarrow> nat \<Rightarrow> u16" where
  "get16 bs k = push_bit 8 (ucast (bs ! k)) OR ucast (bs ! (k + 1))"

definition get32 :: "u8 list \<Rightarrow> nat \<Rightarrow> u32" where
  "get32 bs k = push_bit 16 (ucast (get16 bs k)) OR ucast (get16 bs (k + 2))"

text \<open>The variables of the module after the header has been read, with the data that is left.\<close>

record tcp_parsed =
  h_src :: u16
  h_dest :: u16
  h_ip_src :: ip_addr_t
  h_ip_dst :: ip_addr_t
  h_netif :: u8
  h_opts :: tcp_opts
  h_in :: tcp_in

definition TCP_FLAGS :: u16 where "TCP_FLAGS = 0x3f"

definition TCPH_HDRLEN_BYTES :: "u8 list \<Rightarrow> u8" where
  "TCPH_HDRLEN_BYTES bs = ucast (push_bit 2 (drop_bit 12 (get16 bs 12)))"

definition TCPH_FLAGS :: "u8 list \<Rightarrow> u8" where
  "TCPH_FLAGS bs = ucast (get16 bs 12 AND TCP_FLAGS)"

text \<open>
  Where the options and the data are. \<open>None\<close> is a packet that is dropped; the header was found to be within
  the packet before.
\<close>

definition tcp_split_options :: "payloads \<Rightarrow> nat \<Rightarrow> (tcp_opts \<times> payloads) option" where
  "tcp_split_options p hdrlen_bytes =
     (let first = hd p; optlen = hdrlen_bytes - TCP_HLEN
      in if length first \<ge> hdrlen_bytes
         then Some (\<lparr>opt_hdr = drop TCP_HLEN first, tcphdr_opt2 = None, tcphdr_opt1len = word_of_nat optlen,
                     tcphdr_optlen = word_of_nat optlen\<rparr>,
                    drop hdrlen_bytes first # tl p)
         else
           (let opt1len = length first - TCP_HLEN; opt2len = optlen - opt1len
            in case tl p of
                 [] \<Rightarrow> None
               | q # qs \<Rightarrow>
                   if opt2len > length q then None
                   else Some (\<lparr>opt_hdr = drop TCP_HLEN first, tcphdr_opt2 = Some q, tcphdr_opt1len = word_of_nat opt1len,
                               tcphdr_optlen = word_of_nat optlen\<rparr>,
                              [] # drop opt2len q # qs)))"

definition tcp_parse :: "tcp_packet \<Rightarrow> tcp_parsed option" where
  "tcp_parse pk =
     (let p = pk_p pk; bs = hd p; hdrlen = unat (TCPH_HDRLEN_BYTES bs)
      in if length bs < TCP_HLEN then None
         else if pk_cast pk then None
         else if hdrlen < TCP_HLEN \<or> hdrlen > tot_len p then None
         else case tcp_split_options p hdrlen of
           None \<Rightarrow> None
         | Some (opts, d) \<Rightarrow>
             (let fl = TCPH_FLAGS bs;
                  n = (word_of_nat (tot_len d) :: u16);
                  m = (if fl AND (TCP_FIN OR TCP_SYN) \<noteq> 0 then n + 1 else n)
              in if m < n then None
                 else Some
                   \<lparr>h_src = get16 bs 0, h_dest = get16 bs 2, h_ip_src = pk_src pk, h_ip_dst = pk_dst pk,
                    h_netif = pk_netif pk, h_opts = opts,
                    h_in =
                      \<lparr>inseg = \<lparr>seqno = get32 bs 4, len = n, hdr = fl, seg_flags = 0, seg_p = d, p_ref = 1, oversize_left = 0\<rparr>,
                       i_seqno = get32 bs 4, i_ackno = get32 bs 8, i_wnd = get16 bs 14, i_flags = fl, tcplen = m,
                       recv_acked = 0, recv_flags = 0, recv_data = None\<rparr>\<rparr>))"

section \<open>What the application is told\<close>

definition callback :: "tcp_event \<Rightarrow> pcb_id \<Rightarrow> tcp_stack \<Rightarrow> (err_t \<times> tcp_stack) option" where
  "callback ev x s =
     (let a = answer s (events s) ev; s = s\<lparr>events := events s @ [ev]\<rparr>
      in if a = ERR_ABRT then do { s \<leftarrow> tcp_abort x s; Some (ERR_ABRT, s) } else Some (a, s))"

definition recved_pcb :: "u16 \<Rightarrow> pcb_id \<Rightarrow> tcp_stack \<Rightarrow> tcp_stack option" where
  "recved_pcb n x s = do {
     (_, s) \<leftarrow> on_pcb (\<lambda>pcb e. do { (pcb, e) \<leftarrow> tcp_recved (tcp_input_pcb s = Some x) pcb n e; Some ((), pcb, e) }) x s;
     Some s
   }"

definition TCP_EVENT_RECV :: "pcb_id \<Rightarrow> payloads \<Rightarrow> tcp_stack \<Rightarrow> (err_t \<times> tcp_stack) option" where
  "TCP_EVENT_RECV x data s = do {
     pcb \<leftarrow> pcbs s x;
     if callbacks pcb = Cb_stream then callback (Ev_recv x data) x s
     else do { s \<leftarrow> recved_pcb (word_of_nat (tot_len data)) x s; Some (ERR_OK, s) }
   }"

definition TCP_EVENT_CLOSED :: "pcb_id \<Rightarrow> tcp_stack \<Rightarrow> (err_t \<times> tcp_stack) option" where
  "TCP_EVENT_CLOSED x s = do {
     pcb \<leftarrow> pcbs s x;
     case callbacks pcb of
       Cb_stream \<Rightarrow> callback (Ev_closed x) x s
     | Cb_initial \<Rightarrow> tcp_close x s
     | Cb_cleared \<Rightarrow> Some (ERR_OK, s)
   }"

definition TCP_EVENT_SENT :: "pcb_id \<Rightarrow> u16 \<Rightarrow> tcp_stack \<Rightarrow> (err_t \<times> tcp_stack) option" where
  "TCP_EVENT_SENT x n s = do {
     pcb \<leftarrow> pcbs s x;
     if callbacks pcb = Cb_stream then callback (Ev_sent x n) x s else Some (ERR_OK, s)
   }"

text \<open>
  What \<^verbatim>\<open>tcp_accept_cb\<close> and \<^verbatim>\<open>TcpStream::new\<close> of the crate do to a new connection before the callback returns.
\<close>

definition TcpStream_new :: "tcp_pcb \<Rightarrow> tcp_pcb" where
  "TcpStream_new pcb = tcp_set_flags TF_NODELAY (pcb\<lparr>callbacks := Cb_stream, pollinterval := 8\<rparr>)"

definition TCP_EVENT_ACCEPT :: "tcp_pcb_listen \<Rightarrow> pcb_id \<Rightarrow> tcp_stack \<Rightarrow> (err_t \<times> tcp_stack) option" where
  "TCP_EVENT_ACCEPT lpcb x s =
     (if l_accept lpcb
      then do { s \<leftarrow> upd_pcb TcpStream_new x s; callback (Ev_accept x) x s }
      else do { s \<leftarrow> tcp_abort x s; Some (ERR_ABRT, s) })"

section \<open>Data that was refused\<close>

definition rcv_wnd_fin :: "tcp_pcb \<Rightarrow> tcp_pcb" where
  "rcv_wnd_fin pcb = (if rcv_wnd pcb \<noteq> TCP_WND then pcb\<lparr>rcv_wnd := rcv_wnd pcb + 1\<rparr> else pcb)"

definition tcp_process_refused_data :: "pcb_id \<Rightarrow> tcp_stack \<Rightarrow> (err_t \<times> tcp_stack) option" where
  "tcp_process_refused_data x s = do {
     pcb \<leftarrow> pcbs s x;
     case refused_data pcb of
       None \<Rightarrow> None
     | Some data \<Rightarrow> do {
         let fin = refused_fin pcb;
         (err, s) \<leftarrow> TCP_EVENT_RECV x data (put_pcb x (pcb\<lparr>refused_data := None\<rparr>) s);
         if err = ERR_OK
         then if fin
              then do {
                s \<leftarrow> upd_pcb rcv_wnd_fin x s;
                (err, s) \<leftarrow> TCP_EVENT_CLOSED x s;
                if err = ERR_ABRT then Some (ERR_ABRT, s) else Some (ERR_OK, s)
              }
              else Some (ERR_OK, s)
         else if err = ERR_ABRT then Some (ERR_ABRT, s)
         else do { s \<leftarrow> upd_pcb (\<lambda>pcb. pcb\<lparr>refused_data := Some data\<rparr>) x s; Some (ERR_INPROGRESS, s) }
       }
   }"

section \<open>The state machine\<close>

definition LWIP_TCP_CALC_INITIAL_CWND :: "u16 \<Rightarrow> u16" where
  "LWIP_TCP_CALC_INITIAL_CWND m = ucast (min (4 * ucast m) (max (2 * ucast m) (4380 :: u32)))"

definition tcp_eff_send_mss :: "u16 \<Rightarrow> ip_addr_t \<Rightarrow> ip_addr_t \<Rightarrow> tcp_env \<Rightarrow> u16" where
  "tcp_eff_send_mss sendmss src dst e = tcp_eff_send_mss_netif sendmss (ip_route e src dst) dst e"

text \<open>The reset that answers a segment: its numbers and addresses swapped.\<close>

definition rst_for :: "tcp_parsed \<Rightarrow> tcp_env \<Rightarrow> tcp_env" where
  "rst_for sg e =
     tcp_rst (i_ackno (h_in sg)) (i_seqno (h_in sg) + ucast (tcplen (h_in sg))) (h_ip_dst sg) (h_ip_src sg)
       (h_dest sg) (h_src sg) e"

definition receive_pcb :: "pcb_id \<Rightarrow> tcp_in \<Rightarrow> tcp_stack \<Rightarrow> (tcp_in \<times> tcp_stack) option" where
  "receive_pcb x i s = do {
     pcb \<leftarrow> pcbs s x;
     (pcb, i, e) \<leftarrow> tcp_receive pcb i (st_env s);
     Some (i, (put_pcb x pcb s)\<lparr>st_env := e\<rparr>)
   }"

definition process_rst :: "pcb_id \<Rightarrow> tcp_in \<Rightarrow> tcp_stack \<Rightarrow> (err_t \<times> tcp_in \<times> tcp_stack) option" where
  "process_rst x i s = do {
     pcb \<leftarrow> pcbs s x;
     let acceptable = (if state pcb = SYN_SENT then i_ackno i = snd_nxt pcb else i_seqno i = rcv_nxt pcb);
     let pcb = (if state pcb \<noteq> SYN_SENT \<and> i_seqno i \<noteq> rcv_nxt pcb \<and>
                   TCP_SEQ_BETWEEN (i_seqno i) (rcv_nxt pcb) (rcv_nxt pcb + ucast (rcv_wnd pcb))
                then tcp_ack_now pcb else pcb);
     if acceptable
     then do {
       lwip_assert (state pcb \<noteq> CLOSED);
       Some (ERR_RST, i\<lparr>recv_flags := recv_flags i OR TF_RESET\<rparr>, put_pcb x (tcp_clear_flags TF_ACK_DELAY pcb) s)
     }
     else Some (ERR_OK, i, put_pcb x pcb s)
   }"

definition process_syn_sent :: "pcb_id \<Rightarrow> tcp_parsed \<Rightarrow> tcp_stack \<Rightarrow> (err_t \<times> tcp_stack) option" where
  "process_syn_sent x sg s = do {
     let i = h_in sg;
     pcb \<leftarrow> pcbs s x;
     if i_flags i AND TCP_ACK \<noteq> 0 \<and> i_flags i AND TCP_SYN \<noteq> 0 \<and> i_ackno i = lastack pcb + 1
     then do {
       let m = tcp_eff_send_mss (mss pcb) (local_ip pcb) (remote_ip pcb) (st_env s);
       let pcb = pcb\<lparr>rcv_nxt := i_seqno i + 1, rcv_ann_right_edge := i_seqno i + 1, lastack := i_ackno i,
                     snd_wnd := i_wnd i, snd_wnd_max := i_wnd i, snd_wl1 := i_seqno i - 1, state := ESTABLISHED,
                     mss := m, cwnd := LWIP_TCP_CALC_INITIAL_CWND m\<rparr>;
       lwip_assert (snd_queuelen pcb > 0);
       let pcb = pcb\<lparr>snd_queuelen := snd_queuelen pcb - 1\<rparr>;
       (rseg, pcb) \<leftarrow>
         (case unacked pcb of
            r # rs \<Rightarrow> Some (r, pcb\<lparr>unacked := rs\<rparr>)
          | [] \<Rightarrow> (case unsent pcb of r # rs \<Rightarrow> Some (r, pcb\<lparr>unsent := rs\<rparr>) | [] \<Rightarrow> None));
       let e = tcp_seg_free rseg (st_env s);
       let pcb = (if unacked pcb = [] then pcb\<lparr>rtime := - 1\<rparr> else pcb\<lparr>rtime := 0, nrtx := 0\<rparr>);
       (err, s) \<leftarrow> callback (Ev_connected x) x ((put_pcb x pcb s)\<lparr>st_env := e\<rparr>);
       if err = ERR_ABRT then Some (ERR_ABRT, s)
       else do { s \<leftarrow> upd_pcb tcp_ack_now x s; Some (ERR_OK, s) }
     }
     else if i_flags i AND TCP_ACK \<noteq> 0
     then do {
       let s = s\<lparr>st_env := rst_for sg (st_env s)\<rparr>;
       if nrtx pcb < TCP_SYNMAXRTX
       then do {
         s \<leftarrow> upd_pcb (\<lambda>pcb. pcb\<lparr>rtime := 0\<rparr>) x s;
         (_, s) \<leftarrow> on_pcb (\<lambda>pcb e. do { (pcb, e) \<leftarrow> tcp_rexmit_rto (tcp_input_pcb s = Some x) pcb e; Some ((), pcb, e) }) x s;
         Some (ERR_OK, s)
       }
       else Some (ERR_OK, s)
     }
     else Some (ERR_OK, s)
   }"

definition process_syn_rcvd :: "pcb_id \<Rightarrow> tcp_parsed \<Rightarrow> tcp_stack \<Rightarrow> (err_t \<times> tcp_in \<times> tcp_stack) option" where
  "process_syn_rcvd x sg s = do {
     let i = h_in sg;
     pcb \<leftarrow> pcbs s x;
     if i_flags i AND TCP_ACK \<noteq> 0
     then
       if TCP_SEQ_BETWEEN (i_ackno i) (lastack pcb + 1) (snd_nxt pcb)
       then do {
         s \<leftarrow> upd_pcb (\<lambda>pcb. pcb\<lparr>state := ESTABLISHED\<rparr>) x s;
         (err, s) \<leftarrow> (case listener pcb of
             None \<Rightarrow> Some (ERR_VAL, s)
           | Some l \<Rightarrow> do { lpcb \<leftarrow> map_of (listen_pcbs s) l; TCP_EVENT_ACCEPT lpcb x s });
         if err \<noteq> ERR_OK
         then do { s \<leftarrow> (if err \<noteq> ERR_ABRT then tcp_abort x s else Some s); Some (ERR_ABRT, i, s) }
         else do {
           (i, s) \<leftarrow> receive_pcb x i s;
           let i = (if recv_acked i \<noteq> 0 then i\<lparr>recv_acked := recv_acked i - 1\<rparr> else i);
           s \<leftarrow> upd_pcb (\<lambda>pcb. pcb\<lparr>cwnd := LWIP_TCP_CALC_INITIAL_CWND (mss pcb)\<rparr>) x s;
           s \<leftarrow> (if got_fin i then upd_pcb (\<lambda>pcb. (tcp_ack_now pcb)\<lparr>state := CLOSE_WAIT\<rparr>) x s else Some s);
           Some (ERR_OK, i, s)
         }
       }
       else Some (ERR_OK, i, s\<lparr>st_env := rst_for sg (st_env s)\<rparr>)
     else if i_flags i AND TCP_SYN \<noteq> 0 \<and> i_seqno i = rcv_nxt pcb - 1
     then Some (ERR_OK, i, put_pcb x (snd (tcp_rexmit pcb)) s)
     else Some (ERR_OK, i, s)
   }"

definition to_time_wait :: "pcb_id \<Rightarrow> tcp_stack \<Rightarrow> tcp_stack option" where
  "to_time_wait x s = do {
     s \<leftarrow> purge_pcb x s;
     s \<leftarrow> upd_pcb (\<lambda>pcb. pcb\<lparr>state := TIME_WAIT\<rparr>) x (TCP_RMV_ACTIVE x s);
     Some (reg_tw x s)
   }"

text \<open>The states after the handshake: all of them begin with \<^verbatim>\<open>tcp_receive\<close>.\<close>

definition process_synchronized :: "tcp_state \<Rightarrow> pcb_id \<Rightarrow> tcp_in \<Rightarrow> tcp_stack \<Rightarrow> (err_t \<times> tcp_in \<times> tcp_stack) option" where
  "process_synchronized st x i s = do {
     (i, s) \<leftarrow> receive_pcb x i s;
     pcb \<leftarrow> pcbs s x;
     let all_acked = (i_flags i AND TCP_ACK \<noteq> 0 \<and> i_ackno i = snd_nxt pcb \<and> unsent pcb = []);
     case st of
       ESTABLISHED \<Rightarrow>
         do { s \<leftarrow> (if got_fin i then upd_pcb (\<lambda>pcb. (tcp_ack_now pcb)\<lparr>state := CLOSE_WAIT\<rparr>) x s else Some s); Some (ERR_OK, i, s) }
     | CLOSE_WAIT \<Rightarrow>
         do { s \<leftarrow> (if got_fin i then upd_pcb (\<lambda>pcb. (tcp_ack_now pcb)\<lparr>state := CLOSE_WAIT\<rparr>) x s else Some s); Some (ERR_OK, i, s) }
     | FIN_WAIT_1 \<Rightarrow>
         if got_fin i
         then if all_acked
              then do { s \<leftarrow> upd_pcb tcp_ack_now x s; s \<leftarrow> to_time_wait x s; Some (ERR_OK, i, s) }
              else do { s \<leftarrow> upd_pcb (\<lambda>pcb. (tcp_ack_now pcb)\<lparr>state := CLOSING\<rparr>) x s; Some (ERR_OK, i, s) }
         else if all_acked
         then do { s \<leftarrow> upd_pcb (\<lambda>pcb. pcb\<lparr>state := FIN_WAIT_2\<rparr>) x s; Some (ERR_OK, i, s) }
         else Some (ERR_OK, i, s)
     | FIN_WAIT_2 \<Rightarrow>
         if got_fin i
         then do { s \<leftarrow> upd_pcb tcp_ack_now x s; s \<leftarrow> to_time_wait x s; Some (ERR_OK, i, s) }
         else Some (ERR_OK, i, s)
     | CLOSING \<Rightarrow>
         if all_acked then do { s \<leftarrow> to_time_wait x s; Some (ERR_OK, i, s) } else Some (ERR_OK, i, s)
     | LAST_ACK \<Rightarrow>
         if all_acked then Some (ERR_OK, i\<lparr>recv_flags := recv_flags i OR TF_CLOSED\<rparr>, s) else Some (ERR_OK, i, s)
     | _ \<Rightarrow> Some (ERR_OK, i, s)
   }"

definition tcp_process :: "pcb_id \<Rightarrow> tcp_parsed \<Rightarrow> tcp_stack \<Rightarrow> (err_t \<times> tcp_in \<times> tcp_stack) option" where
  "tcp_process x sg s = do {
     let i = h_in sg;
     pcb \<leftarrow> pcbs s x;
     if i_flags i AND TCP_RST \<noteq> 0 then process_rst x i s
     else if i_flags i AND TCP_SYN \<noteq> 0 \<and> state pcb \<noteq> SYN_SENT \<and> state pcb \<noteq> SYN_RCVD
     then Some (ERR_OK, i, put_pcb x (tcp_ack_now pcb) s)
     else do {
       let pcb = (if \<not> tcp_is_flag_set TF_RXCLOSED pcb then pcb\<lparr>tmr := tcp_ticks (st_env s)\<rparr> else pcb);
       pcb \<leftarrow> tcp_parseopt (h_opts sg) (pcb\<lparr>keep_cnt_sent := 0, persist_probe := 0\<rparr>);
       let s = put_pcb x pcb s;
       case state pcb of
         SYN_SENT \<Rightarrow> do { (err, s) \<leftarrow> process_syn_sent x sg s; Some (err, i, s) }
       | SYN_RCVD \<Rightarrow> process_syn_rcvd x sg s
       | CLOSED \<Rightarrow> Some (ERR_OK, i, s)
       | LISTEN \<Rightarrow> Some (ERR_OK, i, s)
       | TIME_WAIT \<Rightarrow> Some (ERR_OK, i, s)
       | st \<Rightarrow> process_synchronized st x i s
     }
   }"


section \<open>Listening and waiting blocks\<close>

definition SOF_INHERITED :: u8 where "SOF_INHERITED = 0x0c"

definition tcp_listen_input :: "nat \<Rightarrow> tcp_pcb_listen \<Rightarrow> tcp_parsed \<Rightarrow> tcp_stack \<Rightarrow> tcp_stack option" where
  "tcp_listen_input l lpcb sg s =
     (let i = h_in sg
      in if i_flags i AND TCP_RST \<noteq> 0 then Some s
         else if i_flags i AND TCP_ACK \<noteq> 0 then Some (s\<lparr>st_env := rst_for sg (st_env s)\<rparr>)
         else if i_flags i AND TCP_SYN = 0 then Some s
         else do {
           (r, s) \<leftarrow> tcp_alloc (l_prio lpcb) s;
           case r of
             None \<Rightarrow> do { lwip_assert (l_accept lpcb); Some (s\<lparr>events := events s @ [Ev_accept_mem]\<rparr>) }
           | Some x \<Rightarrow> do {
               let (iss, s) = tcp_next_iss s;
               s \<leftarrow> upd_pcb (\<lambda>pcb. pcb\<lparr>local_ip := h_ip_dst sg, remote_ip := h_ip_src sg, local_port := h_dest sg,
                  remote_port := h_src sg, state := SYN_RCVD, rcv_nxt := i_seqno i + 1, rcv_ann_right_edge := i_seqno i + 1,
                  snd_wl2 := iss, snd_nxt := iss, lastack := iss, snd_lbb := iss, snd_wl1 := i_seqno i - 1,
                  listener := Some l, so_options := l_so_options lpcb AND SOF_INHERITED, netif_idx := 0\<rparr>) x s;
               let s = TCP_REG_ACTIVE x s;
               pcb \<leftarrow> pcbs s x;
               pcb \<leftarrow> tcp_parseopt (h_opts sg) pcb;
               let pcb = pcb\<lparr>snd_wnd := i_wnd i, snd_wnd_max := i_wnd i,
                             mss := tcp_eff_send_mss (mss pcb) (local_ip pcb) (remote_ip pcb) (st_env s)\<rparr>;
               (rc, s) \<leftarrow> on_pcb (\<lambda>pcb. tcp_enqueue_flags pcb (TCP_SYN OR TCP_ACK)) x (put_pcb x pcb s);
               if rc \<noteq> ERR_OK then tcp_abandon x False s
               else do { (_, s) \<leftarrow> output_pcb x s; Some s }
             }
         })"

definition tcp_timewait_input :: "pcb_id \<Rightarrow> tcp_parsed \<Rightarrow> tcp_stack \<Rightarrow> tcp_stack option" where
  "tcp_timewait_input x sg s = do {
     let i = h_in sg;
     pcb \<leftarrow> pcbs s x;
     if i_flags i AND TCP_RST \<noteq> 0 then Some s
     else if i_flags i AND TCP_SYN \<noteq> 0 \<and>
             TCP_SEQ_BETWEEN (i_seqno i) (rcv_nxt pcb) (rcv_nxt pcb + ucast (rcv_wnd pcb))
     then Some (s\<lparr>st_env := rst_for sg (st_env s)\<rparr>)
     else do {
       s \<leftarrow> (if i_flags i AND TCP_SYN = 0 \<and> i_flags i AND TCP_FIN \<noteq> 0
             then upd_pcb (\<lambda>pcb. pcb\<lparr>tmr := tcp_ticks (st_env s)\<rparr>) x s else Some s);
       if tcplen i > 0
       then do { s \<leftarrow> upd_pcb tcp_ack_now x s; (_, s) \<leftarrow> output_pcb x s; Some s }
       else Some s
     }
   }"

section \<open>Input\<close>

definition pcb_matches :: "tcp_parsed \<Rightarrow> tcp_pcb \<Rightarrow> bool" where
  "pcb_matches sg pcb \<longleftrightarrow>
     (netif_idx pcb = 0 \<or> netif_idx pcb = h_netif sg) \<and>
     remote_port pcb = h_src sg \<and> local_port pcb = h_dest sg \<and> remote_ip pcb = h_ip_src sg \<and> local_ip pcb = h_ip_dst sg"

text \<open>The first block of a list that matches. Each block that is passed has to have a state of its list.\<close>

fun find_pcb :: "(tcp_state \<Rightarrow> bool) \<Rightarrow> tcp_parsed \<Rightarrow> tcp_stack \<Rightarrow> pcb_id list \<Rightarrow> pcb_id option option" where
  "find_pcb P sg s [] = Some None"
| "find_pcb P sg s (x # xs) = do {
     pcb \<leftarrow> pcbs s x;
     lwip_assert (P (state pcb));
     if pcb_matches sg pcb then Some (Some x) else find_pcb P sg s xs
   }"

definition active_state :: "tcp_state \<Rightarrow> bool" where
  "active_state st \<longleftrightarrow> st \<noteq> CLOSED \<and> st \<noteq> LISTEN \<and> st \<noteq> TIME_WAIT"

text \<open>The flag \<^verbatim>\<open>TF_CLOSED\<close> may also come from \<^verbatim>\<open>tcp_trigger_input_pcb_close\<close>.\<close>

definition tcp_input_delayed_close :: "pcb_id \<Rightarrow> tcp_in \<Rightarrow> tcp_stack \<Rightarrow> (bool \<times> tcp_stack) option" where
  "tcp_input_delayed_close x i s =
     (if recv_flags i AND TF_CLOSED \<noteq> 0 \<or> input_close s
      then do {
        pcb \<leftarrow> pcbs s x;
        let s = (if \<not> tcp_is_flag_set TF_RXCLOSED pcb then event_err (callbacks pcb) x ERR_CLSD s else s);
        s \<leftarrow> tcp_pcb_remove rmv_active x s;
        s \<leftarrow> tcp_free x s;
        Some (True, s)
      }
      else Some (False, s))"

text \<open>What follows \<^verbatim>\<open>tcp_process\<close>, in order. Each step tells whether the block is gone.\<close>

definition input_sent :: "pcb_id \<Rightarrow> tcp_in \<Rightarrow> tcp_stack \<Rightarrow> (bool \<times> tcp_stack) option" where
  "input_sent x i s =
     (if recv_acked i > 0
      then do { (err, s) \<leftarrow> TCP_EVENT_SENT x (recv_acked i) s; Some (err = ERR_ABRT, s) }
      else Some (False, s))"

definition input_recv :: "pcb_id \<Rightarrow> tcp_in \<Rightarrow> tcp_stack \<Rightarrow> (bool \<times> tcp_stack) option" where
  "input_recv x i s =
     (case recv_data i of
        None \<Rightarrow> Some (False, s)
      | Some data \<Rightarrow> do {
          pcb \<leftarrow> pcbs s x;
          lwip_assert (refused_data pcb = None);
          if tcp_is_flag_set TF_RXCLOSED pcb
          then do { s \<leftarrow> tcp_abort x s; Some (True, s) }
          else do {
            (err, s) \<leftarrow> TCP_EVENT_RECV x data s;
            if err = ERR_ABRT then Some (True, s)
            else if err \<noteq> ERR_OK
            then do { s \<leftarrow> upd_pcb (\<lambda>pcb. pcb\<lparr>refused_data := Some data, refused_fin := False\<rparr>) x s; Some (False, s) }
            else Some (False, s)
          }
        })"

definition input_fin :: "pcb_id \<Rightarrow> tcp_in \<Rightarrow> tcp_stack \<Rightarrow> (bool \<times> tcp_stack) option" where
  "input_fin x i s =
     (if got_fin i
      then do {
        pcb \<leftarrow> pcbs s x;
        if refused_data pcb \<noteq> None
        then do { s \<leftarrow> upd_pcb (\<lambda>pcb. pcb\<lparr>refused_fin := True\<rparr>) x s; Some (False, s) }
        else do {
          s \<leftarrow> upd_pcb rcv_wnd_fin x s;
          (err, s) \<leftarrow> TCP_EVENT_CLOSED x s;
          Some (err = ERR_ABRT, s)
        }
      }
      else Some (False, s))"

definition unless_gone :: "(tcp_stack \<Rightarrow> (bool \<times> tcp_stack) option) \<Rightarrow> bool \<times> tcp_stack \<Rightarrow> (bool \<times> tcp_stack) option" where
  "unless_gone f r = (if fst r then Some r else f (snd r))"

definition input_deliver :: "pcb_id \<Rightarrow> tcp_in \<Rightarrow> tcp_stack \<Rightarrow> (bool \<times> tcp_stack) option" where
  "input_deliver x i s = do {
     r \<leftarrow> input_sent x i s;
     r \<leftarrow> unless_gone (tcp_input_delayed_close x i) r;
     r \<leftarrow> unless_gone (input_recv x i) r;
     r \<leftarrow> unless_gone (input_fin x i) r;
     r \<leftarrow> unless_gone (\<lambda>s. tcp_input_delayed_close x i (s\<lparr>tcp_input_pcb := None\<rparr>)) r;
     unless_gone (\<lambda>s. do { (_, s) \<leftarrow> output_pcb x s; Some (False, s) }) r
   }"

text \<open>
  Data that the application refused before is offered again first. When its callback aborts the connection,
  the code reads the freed block.
\<close>

definition input_refused :: "pcb_id \<Rightarrow> tcp_in \<Rightarrow> tcp_stack \<Rightarrow> (bool \<times> tcp_stack) option" where
  "input_refused x i s = do {
     pcb \<leftarrow> pcbs s x;
     if refused_data pcb = None then Some (False, s)
     else do {
       (err, s) \<leftarrow> tcp_process_refused_data x s;
       refused \<leftarrow> (if err = ERR_ABRT then Some True else do { pcb \<leftarrow> pcbs s x; Some (refused_data pcb \<noteq> None \<and> tcplen i > 0) });
       if refused
       then do {
         pcb \<leftarrow> pcbs s x;
         if rcv_ann_wnd pcb = 0
         then do { (_, s) \<leftarrow> on_pcb (\<lambda>pcb e. Some (tcp_send_empty_ack pcb e)) x s; Some (True, s) }
         else Some (True, s)
       }
       else Some (False, s)
     }
   }"

definition input_pcb :: "pcb_id \<Rightarrow> tcp_parsed \<Rightarrow> tcp_stack \<Rightarrow> tcp_stack option" where
  "input_pcb x sg s = do {
     (gone, s) \<leftarrow> input_refused x (h_in sg) (s\<lparr>input_close := False\<rparr>);
     if gone then Some (s\<lparr>tcp_input_pcb := None\<rparr>)
     else do {
       (err, i, s) \<leftarrow> tcp_process x sg (s\<lparr>tcp_input_pcb := Some x\<rparr>);
       s \<leftarrow>
         (if err = ERR_ABRT then Some s
          else if recv_flags i AND TF_RESET \<noteq> 0
          then do {
            pcb \<leftarrow> pcbs s x;
            s \<leftarrow> tcp_pcb_remove rmv_active x (event_err (callbacks pcb) x ERR_RST s);
            tcp_free x s
          }
          else do { (_, s) \<leftarrow> input_deliver x i s; Some s });
       Some (s\<lparr>tcp_input_pcb := None\<rparr>)
     }
   }"

definition tcp_input :: "tcp_packet \<Rightarrow> tcp_stack \<Rightarrow> tcp_stack option" where
  "tcp_input pk s =
     (case tcp_parse pk of
        None \<Rightarrow> Some s
      | Some sg \<Rightarrow> do {
          found \<leftarrow> find_pcb active_state sg s (active_pcbs s);
          case found of
            Some x \<Rightarrow> input_pcb x sg (s\<lparr>active_pcbs := x # remove1 x (active_pcbs s)\<rparr>)
          | None \<Rightarrow> do {
              found \<leftarrow> find_pcb (\<lambda>st. st = TIME_WAIT) sg s (tw_pcbs s);
              case found of
                Some x \<Rightarrow> tcp_timewait_input x sg s
              | None \<Rightarrow>
                  (case listen_pcbs s of
                     (l, lpcb) # _ \<Rightarrow> tcp_listen_input l lpcb sg s
                   | [] \<Rightarrow>
                       if i_flags (h_in sg) AND TCP_RST = 0 then Some (s\<lparr>st_env := rst_for sg (st_env s)\<rparr>) else Some s)
            }
        })"

end
