(* ===== verification/Tcp_Timer.thy ===== *)
theory Tcp_Timer
  imports Tcp_Process
begin

text \<open>
  The timers of \<^verbatim>\<open>core/tcp.c\<close>: \<^verbatim>\<open>tcp_slowtmr\<close> with the persist timer, the retransmission timer and the
  timeouts of a connection, \<^verbatim>\<open>tcp_fasttmr\<close>, \<^verbatim>\<open>tcp_txnow\<close> and \<^verbatim>\<open>tcp_tmr\<close>.

  A walk over the active blocks starts again when a callback has changed the list; blocks that this run of the
  timer has seen are skipped, so that it ends. The model has fuel for the steps of the walk.
\<close>

section \<open>One connection\<close>

definition TCP_SLOW_INTERVAL :: u32 where "TCP_SLOW_INTERVAL = 500"
definition TCP_FIN_WAIT_TIMEOUT :: u32 where "TCP_FIN_WAIT_TIMEOUT = 20000"
definition TCP_SYN_RCVD_TIMEOUT :: u32 where "TCP_SYN_RCVD_TIMEOUT = 20000"
definition TCP_OOSEQ_TIMEOUT :: u32 where "TCP_OOSEQ_TIMEOUT = 6"
definition TCP_MSL :: u32 where "TCP_MSL = 60000"
definition TCP_KEEPINTVL_DEFAULT :: nat where "TCP_KEEPINTVL_DEFAULT = 10000"
definition TCP_MAXIDLE :: nat where "TCP_MAXIDLE = 2 * TCP_KEEPINTVL_DEFAULT"
definition SOF_KEEPALIVE :: u8 where "SOF_KEEPALIVE = 0x08"

definition tcp_backoff :: "nat list" where "tcp_backoff = [1, 2, 3, 4, 5, 6, 7, 7, 7, 7, 7, 7, 7]"
definition tcp_persist_backoff :: "u8 list" where "tcp_persist_backoff = [3, 6, 12, 24, 48, 96, 120]"

text \<open>
  The persist timer. The result is whether the connection is given up. An index outside of the table cannot
  happen, see \<open>persist_ok\<close> below.
\<close>

definition persist_next :: "tcp_pcb \<Rightarrow> tcp_pcb" where
  "persist_next pcb =
     pcb\<lparr>persist_cnt := 0,
         persist_backoff := (if persist_backoff pcb < 7 then persist_backoff pcb + 1 else persist_backoff pcb)\<rparr>"

definition slowtmr_persist :: "bool \<Rightarrow> tcp_pcb \<Rightarrow> tcp_env \<Rightarrow> (bool \<times> tcp_pcb \<times> tcp_env) option" where
  "slowtmr_persist input pcb e = do {
     lwip_assert (unacked pcb = []);
     lwip_assert (unsent pcb \<noteq> []);
     if persist_probe pcb \<ge> TCP_MAXRTX then Some (True, pcb, e)
     else do {
       let k = unat (persist_backoff pcb) - 1;
       lwip_assert (k < length tcp_persist_backoff);
       let backoff_cnt = tcp_persist_backoff ! k;
       let pcb = (if persist_cnt pcb < backoff_cnt then pcb\<lparr>persist_cnt := persist_cnt pcb + 1\<rparr> else pcb);
       if persist_cnt pcb < backoff_cnt then Some (False, pcb, e)
       else if snd_wnd pcb = 0
       then
         (let (err, pcb, e) = tcp_zero_window_probe pcb e
          in Some (False, if err = ERR_OK then persist_next pcb else pcb, e))
       else do {
         (err, pcb, e) \<leftarrow> tcp_split_unsent_seg pcb (snd_wnd pcb) e;
         if err = ERR_OK
         then do {
           (err, pcb, e) \<leftarrow> tcp_output input pcb e;
           Some (False, if err = ERR_OK then pcb else persist_next pcb, e)
         }
         else Some (False, persist_next pcb, e)
       }
     }
   }"

definition rto_backoff :: "tcp_pcb \<Rightarrow> tcp_pcb" where
  "rto_backoff pcb =
     (let pcb =
        (if state pcb \<noteq> SYN_SENT
         then
           (let calc_rto = (sa pcb div 8 + sv pcb) * 2 ^ (tcp_backoff ! min (unat (nrtx pcb)) 12)
            in pcb\<lparr>rto := s16 (min calc_rto 0x7fff)\<rparr>)
         else pcb);
        eff_wnd = min (cwnd pcb) (snd_wnd pcb);
        ssth = drop_bit 1 eff_wnd;
        ssth = (if ssth < push_bit 1 (mss pcb) then push_bit 1 (mss pcb) else ssth)
      in pcb\<lparr>rtime := 0, ssthresh := ssth, cwnd := mss pcb, bytes_acked := 0\<rparr>)"

definition slowtmr_rto :: "bool \<Rightarrow> tcp_pcb \<Rightarrow> tcp_env \<Rightarrow> (tcp_pcb \<times> tcp_env) option" where
  "slowtmr_rto input pcb e =
     (let pcb = (if rtime pcb \<ge> 0 \<and> rtime pcb < 0x7fff then pcb\<lparr>rtime := rtime pcb + 1\<rparr> else pcb)
      in if rtime pcb \<ge> rto pcb
         then
           (let (err, pcb) = tcp_rexmit_rto_prepare pcb
            in if err = ERR_OK \<or> unacked pcb = [] \<and> unsent pcb \<noteq> []
               then tcp_rexmit_rto_commit input (rto_backoff pcb) e
               else Some (pcb, e))
         else Some (pcb, e))"

text \<open>Giving up after too many retransmissions, otherwise one of the two timers.\<close>

definition slowtmr_timers :: "bool \<Rightarrow> tcp_pcb \<Rightarrow> tcp_env \<Rightarrow> (bool \<times> tcp_pcb \<times> tcp_env) option" where
  "slowtmr_timers input pcb e =
     (if state pcb = SYN_SENT \<and> nrtx pcb \<ge> TCP_SYNMAXRTX then Some (True, pcb, e)
      else if nrtx pcb \<ge> TCP_MAXRTX then Some (True, pcb, e)
      else if persist_backoff pcb > 0 then slowtmr_persist input pcb e
      else do { (pcb, e) \<leftarrow> slowtmr_rto input pcb e; Some (False, pcb, e) })"

definition idle_ticks :: "tcp_pcb \<Rightarrow> tcp_env \<Rightarrow> u32" where
  "idle_ticks pcb e = tcp_ticks e - tmr pcb"

definition keepalive_active :: "tcp_pcb \<Rightarrow> bool" where
  "keepalive_active pcb \<longleftrightarrow>
     so_options pcb AND SOF_KEEPALIVE \<noteq> 0 \<and> (state pcb = ESTABLISHED \<or> state pcb = CLOSE_WAIT)"

text \<open>
  The result is whether the connection is given up with a reset. The limits are computed in \<^verbatim>\<open>unsigned long\<close>,
  which has 64 bits, and do not wrap around.
\<close>

definition slowtmr_keepalive :: "tcp_pcb \<Rightarrow> tcp_env \<Rightarrow> bool \<times> tcp_pcb \<times> tcp_env" where
  "slowtmr_keepalive pcb e =
     (if keepalive_active pcb
      then
        if unat (idle_ticks pcb e) > (unat (keep_idle pcb) + TCP_MAXIDLE) div unat TCP_SLOW_INTERVAL then (True, pcb, e)
        else if unat (idle_ticks pcb e) >
          (unat (keep_idle pcb) + unat (keep_cnt_sent pcb) * TCP_KEEPINTVL_DEFAULT) div unat TCP_SLOW_INTERVAL
        then
          (let (err, pcb, e) = tcp_keepalive pcb e
           in (False, if err = ERR_OK then pcb\<lparr>keep_cnt_sent := keep_cnt_sent pcb + 1\<rparr> else pcb, e))
        else (False, pcb, e)
      else (False, pcb, e))"

definition slowtmr_ooseq :: "tcp_pcb \<Rightarrow> tcp_env \<Rightarrow> tcp_pcb \<times> tcp_env" where
  "slowtmr_ooseq pcb e =
     (if ooseq pcb \<noteq> [] \<and> idle_ticks pcb e \<ge> word_of_int (rto pcb) * TCP_OOSEQ_TIMEOUT
      then tcp_free_ooseq pcb e else (pcb, e))"

definition slowtmr_stuck :: "tcp_pcb \<Rightarrow> tcp_env \<Rightarrow> bool" where
  "slowtmr_stuck pcb e \<longleftrightarrow>
     state pcb = SYN_RCVD \<and> idle_ticks pcb e > TCP_SYN_RCVD_TIMEOUT div TCP_SLOW_INTERVAL \<or>
     state pcb = LAST_ACK \<and> idle_ticks pcb e > 2 * TCP_MSL div TCP_SLOW_INTERVAL"

definition slowtmr_pcb :: "bool \<Rightarrow> tcp_pcb \<Rightarrow> tcp_env \<Rightarrow> (bool \<times> bool \<times> tcp_pcb \<times> tcp_env) option" where
  "slowtmr_pcb input pcb e = do {
     (gone, pcb, e) \<leftarrow> slowtmr_timers input pcb e;
     let gone = (gone \<or> state pcb = FIN_WAIT_2 \<and> tcp_is_flag_set TF_RXCLOSED pcb \<and>
                   idle_ticks pcb e > TCP_FIN_WAIT_TIMEOUT div TCP_SLOW_INTERVAL);
     let (reset, pcb, e) = slowtmr_keepalive pcb e;
     let (pcb, e) = slowtmr_ooseq pcb e;
     Some (gone \<or> reset \<or> slowtmr_stuck pcb e, reset, pcb, e)
   }"

section \<open>The walk over the connections\<close>

text \<open>
  A block that is given up is purged, taken off the list and freed; the error callback is told. Otherwise the
  application may be polled; its callback answers, and \<^verbatim>\<open>tcp_output\<close> follows.
\<close>

definition slowtmr_remove :: "pcb_id \<Rightarrow> bool \<Rightarrow> tcp_stack \<Rightarrow> (bool \<times> tcp_stack) option" where
  "slowtmr_remove x reset s = do {
     s \<leftarrow> purge_pcb x s;
     pcb \<leftarrow> pcbs s x;
     let s = rmv_active x s;
     let s = (if reset
              then s\<lparr>st_env := tcp_rst (snd_nxt pcb) (rcv_nxt pcb) (local_ip pcb) (remote_ip pcb) (local_port pcb)
                       (remote_port pcb) (st_env s)\<rparr>
              else s);
     s \<leftarrow> tcp_free x s;
     let s = event_err (callbacks pcb) x ERR_ABRT (s\<lparr>active_pcbs_changed := False\<rparr>);
     Some (active_pcbs_changed s, s)
   }"

definition slowtmr_poll :: "pcb_id \<Rightarrow> tcp_stack \<Rightarrow> (bool \<times> tcp_stack) option" where
  "slowtmr_poll x s = do {
     s \<leftarrow> upd_pcb (\<lambda>pcb. pcb\<lparr>polltmr := polltmr pcb + 1\<rparr>) x s;
     pcb \<leftarrow> pcbs s x;
     if polltmr pcb \<ge> pollinterval pcb
     then do {
       s \<leftarrow> upd_pcb (\<lambda>pcb. pcb\<lparr>polltmr := 0\<rparr>) x s;
       let s = s\<lparr>active_pcbs_changed := False\<rparr>;
       (err, s) \<leftarrow> (if callbacks pcb = Cb_stream then callback (Ev_poll x) x s else Some (ERR_OK, s));
       if active_pcbs_changed s then Some (True, s)
       else if err = ERR_OK then do { (_, s) \<leftarrow> output_pcb x s; Some (False, s) }
       else Some (False, s)
     }
     else Some (False, s)
   }"

definition slowtmr_step :: "pcb_id \<Rightarrow> tcp_stack \<Rightarrow> (bool \<times> tcp_stack) option" where
  "slowtmr_step x s = do {
     s \<leftarrow> upd_pcb (\<lambda>pcb. pcb\<lparr>last_timer := tcp_timer_ctr s\<rparr>) x s;
     pcb \<leftarrow> pcbs s x;
     (gone, reset, pcb, e) \<leftarrow> slowtmr_pcb (tcp_input_pcb s = Some x) pcb (st_env s);
     let s = (put_pcb x pcb s)\<lparr>st_env := e\<rparr>;
     if gone then slowtmr_remove x reset s else slowtmr_poll x s
   }"

text \<open>
  The rest of the list is a rest of the list as it was when the walk began. The flag of a step tells that a
  callback has changed the list, so that the walk starts again.
\<close>

fun slowtmr_walk :: "nat \<Rightarrow> pcb_id list \<Rightarrow> tcp_stack \<Rightarrow> tcp_stack option" where
  "slowtmr_walk fuel [] s = Some s"
| "slowtmr_walk 0 (x # xs) s = None"
| "slowtmr_walk (Suc fuel) (x # xs) s = do {
     pcb \<leftarrow> pcbs s x;
     lwip_assert (active_state (state pcb));
     if last_timer pcb = tcp_timer_ctr s then slowtmr_walk fuel xs s
     else do {
       (changed, s) \<leftarrow> slowtmr_step x s;
       if changed then slowtmr_walk fuel (active_pcbs s) s else slowtmr_walk fuel xs s
     }
   }"

fun slowtmr_timewait :: "pcb_id list \<Rightarrow> tcp_stack \<Rightarrow> tcp_stack option" where
  "slowtmr_timewait [] s = Some s"
| "slowtmr_timewait (x # xs) s = do {
     pcb \<leftarrow> pcbs s x;
     lwip_assert (state pcb = TIME_WAIT);
     s \<leftarrow> (if idle_ticks pcb (st_env s) > 2 * TCP_MSL div TCP_SLOW_INTERVAL
           then do { s \<leftarrow> purge_pcb x s; tcp_free x (rmv_tw x s) } else Some s);
     slowtmr_timewait xs s
   }"

text \<open>
  Each round of the walk passes the blocks seen before and handles one more, so this fuel is enough, as \<open>slowtmr_walk_returns\<close> in
  \<open>Tcp_Walk\<close> shows for the slow timer.
\<close>

definition walk_fuel :: "tcp_stack \<Rightarrow> nat" where
  "walk_fuel s = (length (active_pcbs s) + 1) * (length (active_pcbs s) + 1)"

definition tcp_slowtmr :: "tcp_stack \<Rightarrow> tcp_stack option" where
  "tcp_slowtmr s = do {
     let s = s\<lparr>st_env := (st_env s)\<lparr>tcp_ticks := tcp_ticks (st_env s) + 1\<rparr>, tcp_timer_ctr := tcp_timer_ctr s + 1\<rparr>;
     s \<leftarrow> slowtmr_walk (walk_fuel s) (active_pcbs s) s;
     slowtmr_timewait (tw_pcbs s) s
   }"

section \<open>The fast timer\<close>

definition fasttmr_step :: "pcb_id \<Rightarrow> tcp_stack \<Rightarrow> (bool \<times> tcp_stack) option" where
  "fasttmr_step x s = do {
     s \<leftarrow> upd_pcb (\<lambda>pcb. pcb\<lparr>last_timer := tcp_timer_ctr s\<rparr>) x s;
     pcb \<leftarrow> pcbs s x;
     s \<leftarrow> (if tcp_is_flag_set TF_ACK_DELAY pcb
           then do {
             s \<leftarrow> upd_pcb tcp_ack_now x s;
             (_, s) \<leftarrow> output_pcb x s;
             upd_pcb (tcp_clear_flags (TF_ACK_DELAY OR TF_ACK_NOW)) x s
           }
           else Some s);
     pcb \<leftarrow> pcbs s x;
     s \<leftarrow> (if tcp_is_flag_set TF_CLOSEPEND pcb
           then do { s \<leftarrow> upd_pcb (tcp_clear_flags TF_CLOSEPEND) x s; (_, s) \<leftarrow> tcp_close_shutdown_fin x s; Some s }
           else Some s);
     pcb \<leftarrow> pcbs s x;
     if refused_data pcb \<noteq> None
     then do {
       (_, s) \<leftarrow> tcp_process_refused_data x (s\<lparr>active_pcbs_changed := False\<rparr>);
       Some (active_pcbs_changed s, s)
     }
     else Some (False, s)
   }"

fun fasttmr_walk :: "nat \<Rightarrow> pcb_id list \<Rightarrow> tcp_stack \<Rightarrow> tcp_stack option" where
  "fasttmr_walk fuel [] s = Some s"
| "fasttmr_walk 0 (x # xs) s = None"
| "fasttmr_walk (Suc fuel) (x # xs) s = do {
     pcb \<leftarrow> pcbs s x;
     if last_timer pcb = tcp_timer_ctr s then fasttmr_walk fuel xs s
     else do {
       (changed, s) \<leftarrow> fasttmr_step x s;
       if changed then fasttmr_walk fuel (active_pcbs s) s else fasttmr_walk fuel xs s
     }
   }"

definition tcp_fasttmr :: "tcp_stack \<Rightarrow> tcp_stack option" where
  "tcp_fasttmr s =
     (let s = s\<lparr>tcp_timer_ctr := tcp_timer_ctr s + 1\<rparr> in fasttmr_walk (walk_fuel s) (active_pcbs s) s)"

fun txnow_walk :: "pcb_id list \<Rightarrow> tcp_stack \<Rightarrow> tcp_stack option" where
  "txnow_walk [] s = Some s"
| "txnow_walk (x # xs) s = do {
     pcb \<leftarrow> pcbs s x;
     s \<leftarrow> (if tcp_is_flag_set TF_NAGLEMEMERR pcb then do { (_, s) \<leftarrow> output_pcb x s; Some s } else Some s);
     txnow_walk xs s
   }"

definition tcp_txnow :: "tcp_stack \<Rightarrow> tcp_stack option" where
  "tcp_txnow s = txnow_walk (active_pcbs s) s"

definition tcp_tmr :: "tcp_stack \<Rightarrow> tcp_stack option" where
  "tcp_tmr s = do {
     s \<leftarrow> tcp_fasttmr s;
     let s = s\<lparr>tcp_timer := tcp_timer s + 1\<rparr>;
     if tcp_timer s AND 1 \<noteq> 0 then tcp_slowtmr s else Some s
   }"


section \<open>The persist timer and a probe that is acknowledged\<close>

lemma probe_fields:
  assumes "tcp_zero_window_probe pcb e = (err, p, e')"
  shows "unsent p = unsent pcb" "unacked p = unacked pcb" "state p = state pcb" "persist_backoff p = persist_backoff pcb"
    "snd_queuelen p = snd_queuelen pcb" "lastack p = lastack pcb" "snd_wnd p = snd_wnd pcb" "rcv_nxt p = rcv_nxt pcb"
    "rcv_wnd p = rcv_wnd pcb"
    "err = ERR_OK \<Longrightarrow> unsent pcb = s # ss \<Longrightarrow> snd_nxt p = (if TCP_SEQ_LT (snd_nxt pcb) (seqno s + 1) then seqno s + 1 else snd_nxt pcb)"
  using assms
  by (auto simp: tcp_zero_window_probe_def Let_def announced_def split: list.splits option.splits if_splits)

lemma ack_fields:
  "unsent (ack_update_window pcb i) = unsent pcb" "unacked (ack_update_window pcb i) = unacked pcb"
  "state (ack_update_window pcb i) = state pcb" "persist_backoff (ack_update_window pcb i) = persist_backoff pcb"
  "snd_queuelen (ack_update_window pcb i) = snd_queuelen pcb" "lastack (ack_update_window pcb i) = lastack pcb"
  "snd_nxt (ack_update_window pcb i) = snd_nxt pcb"
  "unsent (ack_rtt pcb i e) = unsent pcb" "unacked (ack_rtt pcb i e) = unacked pcb" "state (ack_rtt pcb i e) = state pcb"
  "persist_backoff (ack_rtt pcb i e) = persist_backoff pcb" "nrtx (ack_rtt pcb i e) = nrtx pcb"
  "unsent (ack_congestion n pcb) = unsent pcb" "unacked (ack_congestion n pcb) = unacked pcb"
  "state (ack_congestion n pcb) = state pcb" "persist_backoff (ack_congestion n pcb) = persist_backoff pcb"
  "nrtx (ack_congestion n pcb) = nrtx pcb" "snd_queuelen (ack_congestion n pcb) = snd_queuelen pcb"
  "unsent (ack_rto_done pcb) = unsent pcb" "unacked (ack_rto_done pcb) = unacked pcb" "state (ack_rto_done pcb) = state pcb"
  "persist_backoff (ack_rto_done pcb) = persist_backoff pcb" "nrtx (ack_rto_done pcb) = nrtx pcb"
  by (simp_all add: ack_update_window_def ack_rtt_def ack_congestion_def ack_rto_done_def tcp_clear_flags_def Let_def split: list.split)

text \<open>An acknowledgement of the last segment, which is unsent because the window is closed.\<close>

lemma ack_new_data_last:
  assumes "unacked pcb = []" "unsent pcb = [s]" "seqno s + TCP_TCPLEN s = i_ackno i"
    and "snd_queuelen pcb = word_of_nat (length (seg_p s))"
  shows "\<exists>p i' e'. ack_new_data pcb i e = Some (p, i', e') \<and> unsent p = [] \<and> unacked p = [] \<and> nrtx p = 0 \<and>
    state p = state pcb \<and> persist_backoff p = persist_backoff pcb \<and> i' = i\<lparr>recv_acked := recv_acked i'\<rparr>"
proof -
  have leq: "TCP_SEQ_LEQ (i_ackno i) (i_ackno i)" by (simp add: TCP_SEQ_LEQ_def)
  show ?thesis
    by (simp add: ack_new_data_def assms ack_fields leq tcp_clear_flags_def Let_def)
qed

text \<open>C7: an acknowledged probe stops the program. The window of the remote side is closed and one byte waits,
  so that the persist timer runs and sends the byte as a probe. When the remote side takes the byte but keeps its window
  closed, the acknowledgement frees the segment and leaves the persist timer on: the next run of the
  slow timer fails the assertion that the send buffer is not empty.\<close>

theorem probe_acked_aborts:
  assumes "state pcb = ESTABLISHED" and "unacked pcb = []" and "unsent pcb = [s]" and "TCP_TCPLEN s = 1"
    and "snd_queuelen pcb = word_of_nat (length (seg_p s))" and "lastack pcb = seqno s" and "snd_nxt pcb = seqno s"
    and "persist_backoff pcb > 0" and "tcp_zero_window_probe pcb e = (ERR_OK, p1, e1)"
    and "i_flags i = TCP_ACK" and "i_ackno i = seqno s + 1" and "i_wnd i = 0" and "tcplen i = 0"
  shows "\<exists>p2 i2 e2. tcp_receive p1 i e1 = Some (p2, i2, e2) \<and> unsent p2 = [] \<and> persist_backoff p2 > 0 \<and>
    (\<forall>input e3. slowtmr_pcb input p2 e3 = None)"
proof -
  note probe = probe_fields [OF assms(9)]
  have "sint ((0 :: u32) - 1) < 0" "sint ((1 :: u32) - 0) > 0" by simp_all
  have lt: "TCP_SEQ_LT (seqno s) (seqno s + 1)" "\<not> TCP_SEQ_LEQ (seqno s + 1) (seqno s)"
    "TCP_SEQ_BETWEEN (seqno s + 1) (seqno s + 1) (seqno s + 1)"
    by (simp_all add: TCP_SEQ_LT_def TCP_SEQ_LEQ_def TCP_SEQ_BETWEEN_def TCP_SEQ_GEQ_def)
  have nxt: "snd_nxt p1 = seqno s + 1" using probe(10) [OF refl assms(3)] lt(1) assms(7) by simp
  let ?w = "ack_update_window p1 i"
  obtain p i' e' where ack: "ack_new_data ?w i e1 = Some (p, i', e')" "unsent p = []" "unacked p = []" "nrtx p = 0"
      "state p = ESTABLISHED" "persist_backoff p = persist_backoff pcb" "i' = i\<lparr>recv_acked := recv_acked i'\<rparr>"
    using ack_new_data_last [of ?w s i e1] assms probe by (auto simp: ack_fields)
  have "i_flags i AND TCP_ACK \<noteq> 0" using assms(10) by (simp add: tcp_hdr_flag_defs)
  then have "tcp_receive_ack p1 i e1 = Some (ack_rtt p i' e', i', e')"
    using ack(1) lt nxt assms(6,11) probe by (simp add: tcp_receive_ack_def ack_fields)
  moreover have "tcplen i' = 0" using assms(13) by (subst ack(7)) simp
  ultimately obtain p2 where p2: "tcp_receive p1 i e1 = Some (p2, i', e')" "p2 = ack_rtt p i' e' \<or> p2 = tcp_ack_now (ack_rtt p i' e')"
    using assms(1) probe(3) by (cases "TCP_SEQ_BETWEEN (i_seqno i') (rcv_nxt (ack_rtt p i' e'))
        (rcv_nxt (ack_rtt p i' e') + ucast (rcv_wnd (ack_rtt p i' e')) - 1)") (simp_all add: tcp_receive_def tcp_receive_data_def)
  then have p2': "unsent p2 = []" "persist_backoff p2 = persist_backoff pcb" "state p2 = ESTABLISHED" "nrtx p2 = 0" "unacked p2 = []"
    using ack by (auto simp: ack_fields tcp_ack_now_def tcp_set_flags_def)
  then have "slowtmr_pcb input p2 e3 = None" for input e3
    using assms(8) by (simp add: slowtmr_pcb_def slowtmr_timers_def slowtmr_persist_def TCP_SYNMAXRTX_def TCP_MAXRTX_def)
  then show ?thesis using p2(1) p2' assms(8) by auto
qed

text \<open>An instance: the byte at 1000 is probed, and acknowledged with a closed window.\<close>

definition example_probed :: tcp_pcb where
  "example_probed = (example_snd 1000 1001 [] [example_queue 1000 1 0])\<lparr>snd_wnd := 0, persist_backoff := 1\<rparr>"

theorem probe_acked_aborts_witness:
  "\<exists>p1 e1 p2 i2 e2. tcp_zero_window_probe example_probed example_env = (ERR_OK, p1, e1) \<and>
    tcp_receive p1 ((example_in 0 0)\<lparr>i_ackno := 1001\<rparr>) e1 = Some (p2, i2, e2) \<and> unsent p2 = [] \<and> persist_backoff p2 > 0 \<and>
    (\<forall>input e3. slowtmr_pcb input p2 e3 = None)"
proof -
  have "fst (tcp_zero_window_probe example_probed example_env) = ERR_OK" by code_simp
  then obtain p1 e1 where probe: "tcp_zero_window_probe example_probed example_env = (ERR_OK, p1, e1)"
    by (metis prod.collapse)
  have "\<exists>p2 i2 e2. tcp_receive p1 ((example_in 0 0)\<lparr>i_ackno := 1001\<rparr>) e1 = Some (p2, i2, e2) \<and> unsent p2 = [] \<and>
      persist_backoff p2 > 0 \<and> (\<forall>input e3. slowtmr_pcb input p2 e3 = None)"
    by (rule probe_acked_aborts [where s = "example_queue 1000 1 0", OF _ _ _ _ _ _ _ _ probe]; code_simp)
  then show ?thesis using probe by blast
qed

end
