(* ===== verification/Tcp_Place.thy ===== *)
theory Tcp_Place
  imports Tcp_Timer
begin

text \<open>
  Which functions leave a control block where it is: its state, its listener and its port decide on which list it has
  to be. Sending, the timers and options keep them; \<^verbatim>\<open>tcp_receive\<close> goes from ESTABLISHED to CLOSE_WAIT at most, and only with a FIN.
\<close>

definition place :: "tcp_pcb \<Rightarrow> tcp_state \<times> nat option \<times> u16" where
  "place pcb = (state pcb, listener pcb, local_port pcb)"

named_theorems place_simps \<open>functions that keep the place of a block\<close>

lemma place_state: "place p = place q \<Longrightarrow> state p = state q"
  by (simp add: place_def)

lemma place_if [place_simps]: "place (if c then p else q) = (if c then place p else place q)"
  by simp

text \<open>Just enough to take the code apart; the numbers in it do not matter here.\<close>

lemmas taken_apart = Let_def bind_eq_Some_conv option.inject prod.inject option.distinct prod.case option.case list.case
  not_None_eq simp_thms ex_simps split_paired_Ex if_True if_False if_cancel

section \<open>Sending\<close>

lemma place_update [place_simps]:
  "place (p\<lparr>local_ip := a\<rparr>) = place p" "place (p\<lparr>remote_ip := a\<rparr>) = place p" "place (p\<lparr>so_options := o8\<rparr>) = place p"
  "place (p\<lparr>prio := o8\<rparr>) = place p" "place (p\<lparr>netif_idx := o8\<rparr>) = place p" "place (p\<lparr>remote_port := n\<rparr>) = place p" "place (p\<lparr>flags := n\<rparr>) = place p" "place (p\<lparr>polltmr := o8\<rparr>) = place p"
  "place (p\<lparr>pollinterval := o8\<rparr>) = place p" "place (p\<lparr>last_timer := o8\<rparr>) = place p" "place (p\<lparr>tmr := w\<rparr>) = place p"
  "place (p\<lparr>rcv_nxt := w\<rparr>) = place p" "place (p\<lparr>rcv_wnd := n\<rparr>) = place p" "place (p\<lparr>rcv_ann_wnd := n\<rparr>) = place p"
  "place (p\<lparr>rcv_ann_right_edge := w\<rparr>) = place p" "place (p\<lparr>rtime := z\<rparr>) = place p" "place (p\<lparr>mss := n\<rparr>) = place p"
  "place (p\<lparr>rttest := w\<rparr>) = place p" "place (p\<lparr>rtseq := w\<rparr>) = place p" "place (p\<lparr>sa := z\<rparr>) = place p" "place (p\<lparr>sv := z\<rparr>) = place p"
  "place (p\<lparr>rto := z\<rparr>) = place p" "place (p\<lparr>nrtx := o8\<rparr>) = place p" "place (p\<lparr>dupacks := o8\<rparr>) = place p"
  "place (p\<lparr>lastack := w\<rparr>) = place p" "place (p\<lparr>cwnd := n\<rparr>) = place p" "place (p\<lparr>ssthresh := n\<rparr>) = place p"
  "place (p\<lparr>rto_end := w\<rparr>) = place p" "place (p\<lparr>snd_nxt := w\<rparr>) = place p" "place (p\<lparr>snd_wl1 := w\<rparr>) = place p"
  "place (p\<lparr>snd_wl2 := w\<rparr>) = place p" "place (p\<lparr>snd_lbb := w\<rparr>) = place p" "place (p\<lparr>snd_wnd := n\<rparr>) = place p"
  "place (p\<lparr>snd_wnd_max := n\<rparr>) = place p" "place (p\<lparr>snd_buf := n\<rparr>) = place p" "place (p\<lparr>snd_queuelen := n\<rparr>) = place p"
  "place (p\<lparr>unsent_oversize := n\<rparr>) = place p" "place (p\<lparr>bytes_acked := n\<rparr>) = place p" "place (p\<lparr>unsent := ss\<rparr>) = place p"
  "place (p\<lparr>unacked := ss\<rparr>) = place p" "place (p\<lparr>ooseq := ss\<rparr>) = place p" "place (p\<lparr>refused_data := d\<rparr>) = place p"
  "place (p\<lparr>refused_fin := b\<rparr>) = place p" "place (p\<lparr>persist_cnt := o8\<rparr>) = place p" "place (p\<lparr>persist_backoff := o8\<rparr>) = place p"
  "place (p\<lparr>persist_probe := o8\<rparr>) = place p" "place (p\<lparr>keep_cnt_sent := o8\<rparr>) = place p" "place (p\<lparr>callbacks := cb\<rparr>) = place p"
  by (simp_all add: place_def)

lemma place_set_state: "place (p\<lparr>state := st\<rparr>) = (st, listener p, local_port p)"
  by (simp add: place_def)

lemma place_flags [place_simps]:
  "place (tcp_set_flags f p) = place p" "place (tcp_clear_flags f p) = place p" "place (tcp_ack_now p) = place p"
  "place (tcp_ack p) = place p" "place (announced p) = place p"
  by (simp_all add: place_def tcp_set_flags_def tcp_clear_flags_def tcp_ack_now_def tcp_ack_def announced_def)

lemma place_recvd [place_simps]:
  "place (rcv_wnd_fin p) = place p" "place (TcpStream_new p) = place p"
  by (simp_all add: rcv_wnd_fin_def TcpStream_new_def place_simps)

lemma place_send_empty_ack: "tcp_send_empty_ack p e = (err, p', e') \<Longrightarrow> place p' = place p"
  by (auto simp: tcp_send_empty_ack_def place_simps split: option.splits if_splits)

lemma place_output_segment: "tcp_output_segment seg p nif e = Some (err, p', e') \<Longrightarrow> place p' = place p"
  by (auto simp: tcp_output_segment_def Let_def bind_eq_Some_conv place_simps split: option.splits if_splits)

lemma place_output_sent: "tcp_output_sent seg segs p e = (p', e') \<Longrightarrow> place p' = place p"
  by (auto simp: tcp_output_sent_def Let_def place_simps split: if_splits)

lemma place_output_loop: "tcp_output_loop wnd nif segs p e = Some (err, p', e') \<Longrightarrow> place p' = place p"
proof (induction wnd nif segs p e rule: tcp_output_loop.induct)
  case (2 wnd nif seg segs p e)
  let ?seg = "if state p \<noteq> SYN_SENT then seg\<lparr>hdr := hdr seg OR TCP_ACK\<rparr> else seg"
  show ?case
  proof (cases "seqno seg - lastack p + ucast (len seg) \<le> wnd \<and> hdr seg AND TCP_RST = 0 \<and>
      (tcp_do_output_nagle p \<or> tcp_is_flag_set (TF_NAGLEMEMERR OR TF_FIN) p)")
    case False
    then show ?thesis using 2(2) by (auto simp: bind_eq_Some_conv split: if_splits)
  next
    case True
    then obtain err1 p1 e1 where seg: "tcp_output_segment ?seg (p\<lparr>unsent := ?seg # segs\<rparr>) nif e = Some (err1, p1, e1)"
      using 2(2) by (auto simp: Let_def bind_eq_Some_conv simp del: fun_upd_apply split: if_splits)
    have p1: "place p1 = place p" using place_output_segment [OF seg] by (simp add: place_simps)
    show ?thesis
    proof (cases "err1 = ERR_OK")
      case False
      then show ?thesis using 2(2) True seg p1 by (auto simp: Let_def place_simps split: if_splits)
    next
      case err: True
      obtain p2 e2 where sent: "tcp_output_sent ?seg segs p1 e1 = (p2, e2)" by fastforce
      have "tcp_output_loop wnd nif segs p2 e2 = Some (err, p', e')"
        using 2(2) True seg sent err by (auto simp: Let_def split: if_splits)
      then have "place p' = place p2"
        by (intro 2(1) [of _ ?seg "p\<lparr>unsent := ?seg # segs\<rparr>" _ err1 "(p1, e1)" p1 e1 "tcp_output_sent ?seg segs p1 e1"])
          (use True seg sent err in auto)
      then show ?thesis using place_output_sent [OF sent] p1 by simp
    qed
  qed
qed simp

lemma place_output: "tcp_output input p e = Some (err, p', e') \<Longrightarrow> place p' = place p"
  by (auto simp only: tcp_output_def taken_apart place_simps dest!: place_send_empty_ack place_output_loop
      split: list.splits option.splits if_splits)

lemma place_enqueue_flags: "tcp_enqueue_flags p fl e = Some (err, p', e') \<Longrightarrow> place p' = place p"
  by (auto simp: tcp_enqueue_flags_def Let_def bind_eq_Some_conv place_simps split: option.splits prod.splits if_splits)

lemma place_send_fin: "tcp_send_fin p e = Some (err, p', e') \<Longrightarrow> place p' = place p"
  by (auto simp: tcp_send_fin_def place_simps dest: place_enqueue_flags split: if_splits)

lemma place_split: "tcp_split_unsent_seg p n e = Some (err, p', e') \<Longrightarrow> place p' = place p"
  by (auto simp only: tcp_split_unsent_seg_def taken_apart place_simps
      split: list.splits option.splits prod.splits if_splits)

lemma place_write_checks: "tcp_write_checks p n = Some (err, p') \<Longrightarrow> place p' = place p"
  by (auto simp only: tcp_write_checks_def taken_apart place_simps split: if_splits)

lemma place_write_memerr: "tcp_write_memerr q p e = Some (err, p', e') \<Longrightarrow> place p' = place p"
  by (auto simp only: tcp_write_memerr_def taken_apart place_simps)

lemma place_write:
  assumes "tcp_write p buf fl e = Some (err, p', e')" shows "place p' = place p"
proof -
  obtain err1 q where q: "tcp_write_checks p (word_of_nat (length buf)) = Some (err1, q)"
    using assms by (auto simp: tcp_write_def Let_def bind_eq_Some_conv)
  note pq = place_write_checks [OF q]
  show ?thesis
  proof (cases "err1 = ERR_OK")
    case False
    then show ?thesis using assms q pq by (simp add: tcp_write_def)
  next
    case True
    then obtain tail e1 where rest: "(case tail of None \<Rightarrow> tcp_write_memerr [] q e1
       | Some (oversize_used, added, queuelen, oversize, oversize_add) \<Rightarrow> do {
           let pos = oversize_used + length added;
           (ok, queue, queuelen, oversize, e) \<leftarrow>
             tcp_write_segments q (tcp_mss_local p) fl pos (drop pos buf) [] queuelen oversize e1;
           if \<not> ok then tcp_write_memerr queue q e
           else do {
             old \<leftarrow>
               (if unsent q = [] then Some []
                else do {
                  s \<leftarrow> tcp_write_commit_tail (take oversize_used buf) added oversize_add (last (unsent q));
                  Some (butlast (unsent q) @ [s])
                });
             let touched = (queue \<noteq> [] \<or> added \<noteq> [] \<or> unsent q \<noteq> [] \<and> unsent_oversize q > 0);
             let segs = old @ queue;
             let segs = (if touched \<and> fl AND TCP_WRITE_FLAG_MORE = 0 then on_last set_psh segs else segs);
             lwip_assert (queuelen = 0 \<or> unacked q \<noteq> [] \<or> segs \<noteq> []);
             Some (ERR_OK, q\<lparr>unsent := segs, unsent_oversize := word_of_nat oversize,
               snd_lbb := snd_lbb q + word_of_nat (length buf), snd_buf := snd_buf q - word_of_nat (length buf),
               snd_queuelen := queuelen\<rparr>, e)
           }
         }) = Some (err, p', e')"
      using assms q by (auto simp only: tcp_write_def taken_apart split: if_splits)
    show ?thesis
    proof (cases tail)
      case None
      then have "tcp_write_memerr [] q e1 = Some (err, p', e')" using rest by simp
      then show ?thesis using place_write_memerr pq by metis
    next
      case (Some t)
      obtain a b c d f where t: "t = (a, b, c, d, f)" by (metis prod.exhaust)
      obtain ok queue n ov e2 where run: "tcp_write_segments q (tcp_mss_local p) fl (a + length b) (drop (a + length b) buf) [] c d e1 =
          Some (ok, queue, n, ov, e2)"
        using rest by (simp only: Some t taken_apart) blast
      show ?thesis
      proof (cases ok)
        case False
        then show ?thesis using rest run pq place_write_memerr by (auto simp only: Some t taken_apart bind.bind_lunit)
      next
        case True
        then show ?thesis using rest run pq by (auto simp only: Some t taken_apart bind.bind_lunit place_simps)
      qed
    qed
  qed
qed

lemma place_rexmit_rto_prepare: "tcp_rexmit_rto_prepare p = (err, p') \<Longrightarrow> place p' = place p"
  by (auto simp: tcp_rexmit_rto_prepare_def Let_def place_simps split: if_splits)

lemma place_rexmit_rto_commit: "tcp_rexmit_rto_commit input p e = Some (p', e') \<Longrightarrow> place p' = place p"
  by (auto simp: tcp_rexmit_rto_commit_def bind_eq_Some_conv place_simps dest!: place_output split: if_splits)

lemma place_rexmit_rto: "tcp_rexmit_rto input p e = Some (p', e') \<Longrightarrow> place p' = place p"
  using place_rexmit_rto_prepare place_rexmit_rto_commit
  by (fastforce simp: tcp_rexmit_rto_def split: prod.splits if_splits)

lemma place_rexmit: "tcp_rexmit p = (err, p') \<Longrightarrow> place p' = place p"
  by (auto simp: tcp_rexmit_def Let_def place_simps split: list.splits if_splits)

lemma place_rexmit_fast [place_simps]: "place (tcp_rexmit_fast p) = place p"
  using place_rexmit [of p] by (simp add: tcp_rexmit_fast_def taken_apart place_simps split: prod.split)

lemma place_ann_wnd: "tcp_update_rcv_ann_wnd p = Some (n, p') \<Longrightarrow> place p' = place p"
  by (auto simp: tcp_update_rcv_ann_wnd_def Let_def place_simps split: if_splits)

lemma place_recved:
  assumes "tcp_recved input p n e = Some (p', e')" shows "place p' = place p"
proof -
  let ?w = "rcv_wnd p + n"
  let ?p = "if ?w > TCP_WND \<or> ?w < rcv_wnd p then p\<lparr>rcv_wnd := TCP_WND\<rparr> else p\<lparr>rcv_wnd := ?w\<rparr>"
  obtain m q where q: "tcp_update_rcv_ann_wnd ?p = Some (m, q)"
      and rest: "(if m \<ge> TCP_WND_UPDATE_THRESHOLD
         then do { (_, pcb, e) \<leftarrow> tcp_output input (tcp_ack_now q) e; Some (pcb, e) } else Some (q, e)) = Some (p', e')"
    using assms by (simp only: tcp_recved_def taken_apart) blast
  have "place q = place p" using place_ann_wnd [OF q] by (simp only: place_simps if_cancel)
  then show ?thesis using rest by (auto simp only: taken_apart place_simps dest!: place_output split: if_splits)
qed

lemma place_parseopt: "tcp_parseopt opts p = Some p' \<Longrightarrow> place p' = place p"
  by (auto simp: tcp_parseopt_def bind_eq_Some_conv place_simps split: if_splits)

lemma place_zero_window_probe: "tcp_zero_window_probe p e = (err, p', e') \<Longrightarrow> place p' = place p"
  by (auto simp: tcp_zero_window_probe_def Let_def place_simps split: list.splits option.splits if_splits)

lemma place_keepalive: "tcp_keepalive p e = (err, p', e') \<Longrightarrow> place p' = place p"
  by (auto simp: tcp_keepalive_def place_simps split: option.splits)

section \<open>Purging\<close>

lemma place_free_ooseq: "tcp_free_ooseq p e = (p', e') \<Longrightarrow> place p' = place p"
  by (auto simp: tcp_free_ooseq_def place_simps split: if_splits)

lemma place_purge: "tcp_pcb_purge p e = (p', e') \<Longrightarrow> place p' = place p"
  by (auto simp: tcp_pcb_purge_def tcp_free_ooseq_def Let_def place_simps split: if_splits)

section \<open>The slow timer\<close>

lemma place_timer [place_simps]: "place (persist_next p) = place p" "place (rto_backoff p) = place p"
  by (simp_all add: persist_next_def rto_backoff_def Let_def place_simps)

lemma place_persist: "slowtmr_persist input p e = Some (gone, p', e') \<Longrightarrow> place p' = place p"
  by (auto simp only: slowtmr_persist_def taken_apart place_simps
      dest!: place_zero_window_probe place_split place_output split: prod.splits if_splits)

lemma place_rto: "slowtmr_rto input p e = Some (p', e') \<Longrightarrow> place p' = place p"
  by (auto simp: slowtmr_rto_def Let_def place_simps dest!: place_rexmit_rto_prepare place_rexmit_rto_commit
      split: prod.splits if_splits)

lemma place_timers: "slowtmr_timers input p e = Some (gone, p', e') \<Longrightarrow> place p' = place p"
  by (auto simp only: slowtmr_timers_def taken_apart place_simps dest!: place_persist place_rto split: if_splits)

lemma place_slowtmr_keepalive: "slowtmr_keepalive p e = (reset, p', e') \<Longrightarrow> place p' = place p"
  by (cases "tcp_keepalive p e")
     (auto simp only: slowtmr_keepalive_def taken_apart place_simps dest!: place_keepalive split: if_splits)

lemma place_slowtmr_ooseq: "slowtmr_ooseq p e = (p', e') \<Longrightarrow> place p' = place p"
  by (auto simp only: slowtmr_ooseq_def taken_apart dest!: place_free_ooseq split: if_splits)

lemma place_slowtmr:
  assumes "slowtmr_pcb input p e = Some (gone, reset, p', e')" shows "place p' = place p"
proof -
  obtain g q e1 where timers: "slowtmr_timers input p e = Some (g, q, e1)"
    using assms by (auto simp: slowtmr_pcb_def bind_eq_Some_conv)
  obtain r q2 e2 where keepalive: "slowtmr_keepalive q e1 = (r, q2, e2)" by (metis prod.exhaust)
  obtain q3 e3 where "slowtmr_ooseq q2 e2 = (q3, e3)" by fastforce
  moreover from this have "p' = q3" using assms timers keepalive by (simp add: slowtmr_pcb_def)
  ultimately show ?thesis using place_timers [OF timers] place_slowtmr_keepalive [OF keepalive] place_slowtmr_ooseq by simp
qed

section \<open>Receiving\<close>

lemma place_ack_simps [place_simps]:
  "place (ack_update_window p i) = place p" "place (ack_duplicate r p i) = place p" "place (ack_congestion n p) = place p"
  "place (ack_rto_done p) = place p" "place (ack_rtt p i e) = place p"
  by (simp_all only: ack_update_window_def ack_duplicate_def ack_congestion_def ack_rto_done_def ack_rtt_def taken_apart place_simps)

lemma place_free_acked: "tcp_free_acked_segments a ss other p n e = Some (ss', p', n', e') \<Longrightarrow> place p' = place p"
  by (induction a ss other p n e rule: tcp_free_acked_segments.induct)
     (auto simp: Let_def bind_eq_Some_conv place_simps split: if_splits)

lemma place_ack_new_data: "ack_new_data p i e = Some (p', i', e') \<Longrightarrow> place p' = place p"
  by (auto simp: ack_new_data_def Let_def bind_eq_Some_conv place_simps dest!: place_free_acked split: if_splits)

lemma place_receive_ack: "tcp_receive_ack p i e = Some (p', i', e') \<Longrightarrow> place p' = place p"
  by (auto simp: tcp_receive_ack_def Let_def bind_eq_Some_conv place_simps dest!: place_ack_new_data place_send_empty_ack
      split: prod.splits if_splits)

text \<open>The only change of state by received data.\<close>

definition place_fin :: "tcp_pcb \<Rightarrow> tcp_pcb \<Rightarrow> tcp_in \<Rightarrow> bool" where
  "place_fin p p' i \<longleftrightarrow> place p' = place p \<or>
     state p = ESTABLISHED \<and> got_fin i \<and> place p' = (CLOSE_WAIT, listener p, local_port p)"

lemma place_advance: "rcv_advance n p = Some p' \<Longrightarrow> place p' = place p"
  by (auto simp: rcv_advance_def bind_eq_Some_conv place_simps dest!: place_ann_wnd split: if_splits)

lemma place_trim_front: "rcv_trim_front p i = Some (p', i') \<Longrightarrow> place p' = place p"
  by (auto simp: rcv_trim_front_def Let_def bind_eq_Some_conv place_simps split: if_splits)

lemma place_adjust_ooseq: "rcv_adjust_ooseq p i e = Some (p', i', e') \<Longrightarrow> place p' = place p"
  by (auto simp: rcv_adjust_ooseq_def Let_def bind_eq_Some_conv place_simps split: prod.splits if_splits)

lemma place_out_of_sequence:
  assumes "rcv_out_of_sequence p i e = Some (p', i', e')" shows "place p' = place p"
proof -
  obtain q e1 where "fst (snd (tcp_send_empty_ack (p\<lparr>ooseq := q\<rparr>) e1)) = p'"
    using assms by (auto simp: rcv_out_of_sequence_def bind_eq_Some_conv case_prod_beta)
  then show ?thesis
    by (cases "tcp_send_empty_ack (p\<lparr>ooseq := q\<rparr>) e1") (auto simp: place_simps dest: place_send_empty_ack)
qed

lemma bind_SomeE: "f \<bind> g = Some y \<Longrightarrow> (\<And>x. f = Some x \<Longrightarrow> g x = Some y \<Longrightarrow> R) \<Longrightarrow> R"
  by (cases f) auto

lemma place_dequeue: "rcv_dequeue cs p i e = Some (p', i', e') \<Longrightarrow> place_fin p p' i'"
proof (induction cs arbitrary: p i e)
  case (Cons c cs)
  show ?case
  proof (cases "seqno c = rcv_nxt p")
    case False
    then show ?thesis using Cons.prems by (auto simp: place_fin_def place_simps)
  next
    case True
    let ?i = "rcv_got_fin c (rcv_pass_data (seg_p c) (i\<lparr>i_seqno := seqno c\<rparr>))"
    obtain q where q: "rcv_advance (TCP_TCPLEN c) p = Some q" using True Cons.prems by (auto simp: bind_eq_Some_conv)
    let ?q = "if has_hdr TCP_FIN c \<and> state q = ESTABLISHED then q\<lparr>state := CLOSE_WAIT\<rparr> else q"
    have run: "rcv_dequeue cs ?q ?i (tcp_seg_free c e) = Some (p', i', e')" using True Cons.prems q by (simp add: Let_def)
    have ih: "place_fin ?q p' i'" by (rule Cons.IH [OF run])
    have "place q = place p" by (rule place_advance [OF q])
    moreover have "got_fin i'" if "has_hdr TCP_FIN c"
      by (rule rcv_dequeue_got_fin [OF run]) (use that in \<open>simp add: rcv_got_fin_def got_fin_def tcp_recv_flag_defs bit.disj_conj_distrib bit.conj_disj_distrib2\<close>)
    ultimately show ?thesis using ih by (auto simp: place_fin_def place_def split: if_splits)
  qed
qed (auto simp: place_fin_def place_simps)

lemma place_fin_trans: "place q = place p \<Longrightarrow> place_fin q p' i \<Longrightarrow> place_fin p p' i"
  by (auto simp: place_fin_def place_def)

lemma place_in_sequence:
  assumes "rcv_in_sequence p i e = Some (p', i', e')" shows "place_fin p p' i'"
proof -
  obtain i1 where i1: "rcv_trim_window p i = Some i1"
    using assms unfolding rcv_in_sequence_def by - (erule bind_SomeE, rule that)
  obtain q1 i2 e1 where adjust: "rcv_adjust_ooseq p i1 e = Some (q1, i2, e1)"
    using assms unfolding rcv_in_sequence_def i1 bind.bind_lunit by - (erule bind_SomeE, metis prod.exhaust that)
  obtain q2 where advance: "rcv_advance (ucast (tcplen i2)) (q1\<lparr>rcv_nxt := i_seqno i2\<rparr>) = Some q2"
    using assms unfolding rcv_in_sequence_def i1 adjust bind.bind_lunit prod.case by - (erule bind_SomeE, rule that)
  define i3 where "i3 = rcv_got_fin (inseg (if tot_len (seg_p (inseg i2)) > 0 then i2\<lparr>recv_data := Some (seg_p (inseg i2))\<rparr> else i2))
    (if tot_len (seg_p (inseg i2)) > 0 then i2\<lparr>recv_data := Some (seg_p (inseg i2))\<rparr> else i2)"
  have "do { (pcb, i, e) \<leftarrow> rcv_dequeue (ooseq q2) q2 i3 e1; Some (tcp_ack pcb, i, e) } = Some (p', i', e')"
    using assms by (simp only: rcv_in_sequence_def i1 adjust advance bind.bind_lunit prod.case Let_def i3_def)
  then obtain q3 where dequeue: "rcv_dequeue (ooseq q2) q2 i3 e1 = Some (q3, i', e')" and p': "p' = tcp_ack q3"
    by (auto simp: bind_eq_Some_conv)
  have "place q2 = place p" using place_adjust_ooseq [OF adjust] place_advance [OF advance] by (simp add: place_simps)
  then have "place_fin p q3 i'" using place_dequeue [OF dequeue] by (rule place_fin_trans)
  then show ?thesis by (simp add: p' place_fin_def place_simps)
qed

lemma place_receive_data:
  assumes "tcp_receive_data p i e = Some (p', i', e')" shows "place_fin p p' i'"
proof -
  have window: "place_fin p p' i'" if w: "rcv_in_window p i e = Some (p', i', e')" for p i
  proof (cases "TCP_SEQ_BETWEEN (i_seqno i) (rcv_nxt p) (rcv_nxt p + ucast (rcv_wnd p) - 1)")
    case True
    then show ?thesis
      using w place_in_sequence place_out_of_sequence by (auto simp: rcv_in_window_def place_fin_def split: if_splits)
  next
    case False
    obtain err q e1 where "tcp_send_empty_ack p e = (err, q, e1)" by (metis prod.exhaust)
    then show ?thesis using w False place_send_empty_ack by (auto simp: rcv_in_window_def place_fin_def)
  qed
  show ?thesis
  proof (cases "tcplen i > 0 \<and> state p < CLOSE_WAIT")
    case True
    then obtain q j where "rcv_trim_front p i = Some (q, j)" "rcv_in_window q j e = Some (p', i', e')"
      using assms by (auto simp: tcp_receive_data_def bind_eq_Some_conv)
    then show ?thesis using window place_trim_front place_fin_trans by metis
  next
    case False
    then show ?thesis using assms by (auto simp: tcp_receive_data_def place_fin_def place_simps split: if_splits)
  qed
qed

lemma place_receive:
  assumes "tcp_receive p i e = Some (p', i', e')" shows "place_fin p p' i'"
proof -
  obtain q j e1 where "tcp_receive_ack p i e = Some (q, j, e1)" "tcp_receive_data q j e1 = Some (p', i', e')"
    using assms by (auto simp: tcp_receive_def bind_eq_Some_conv)
  then show ?thesis using place_receive_ack place_receive_data place_fin_trans by metis
qed

end
