(* ===== verification/Tcp_Lists.thy ===== *)
theory Tcp_Lists
  imports Tcp_Place
begin

text \<open>
  The invariant of the lists of control blocks, first for the lists alone and then for the state of the stack:
  every element of the pool is free or holds one block, no block is on two lists, each list holds
  blocks of its states only, every block that has left CLOSED is on a list, listeners exist, and the timer runs while there is
  something to time.

  \<open>L\<close> holds blocks that are about to be freed and may be off the lists until then.
\<close>

section \<open>Lists and places\<close>

type_synonym place = "tcp_state \<times> nat option \<times> u16"

definition place_ok :: "pcb_id set \<Rightarrow> pcb_id list \<Rightarrow> pcb_id list \<Rightarrow> nat list \<Rightarrow> pcb_id \<Rightarrow> place \<Rightarrow> bool" where
  "place_ok L active tw lids x v \<longleftrightarrow>
     (fst v \<noteq> CLOSED \<longrightarrow> x \<in> set active \<union> set tw \<union> L) \<and>
     (fst (snd v) = None \<or> fst v \<noteq> CLOSED \<and> the (fst (snd v)) \<in> set lids)"

definition lists_ok ::
  "pcb_id set \<Rightarrow> pcb_id set \<Rightarrow> (pcb_id \<Rightarrow> place option) \<Rightarrow> pcb_id list \<Rightarrow> pcb_id list \<Rightarrow> pcb_id list \<Rightarrow> pcb_id list \<Rightarrow>
     nat list \<Rightarrow> nat list \<Rightarrow> bool \<Rightarrow> bool" where
  "lists_ok U L P pool bound active tw lids lpool timer \<longleftrightarrow>
     distinct (pool @ bound @ active @ tw) \<and> distinct (lids @ lpool) \<and> dom P \<union> set pool = U \<and> dom P \<inter> set pool = {} \<and>
     (\<forall>x \<in> set bound. \<exists>v. P x = Some v \<and> fst v = CLOSED \<and> snd (snd v) \<noteq> 0) \<and>
     (\<forall>x \<in> set active. \<exists>v. P x = Some v \<and> active_state (fst v)) \<and>
     (\<forall>x \<in> set tw. \<exists>v. P x = Some v \<and> fst v = TIME_WAIT) \<and>
     (\<forall>x v. P x = Some v \<longrightarrow> place_ok L active tw lids x v) \<and>
     (active \<noteq> [] \<or> tw \<noteq> [] \<longrightarrow> timer)"

declare split_paired_Ex [simp del] split_paired_All [simp del]

lemma active_state_simps [simp]:
  "\<not> active_state CLOSED" "\<not> active_state LISTEN" "\<not> active_state TIME_WAIT" "active_state SYN_SENT" "active_state SYN_RCVD"
  "active_state ESTABLISHED" "active_state FIN_WAIT_1" "active_state FIN_WAIT_2" "active_state CLOSE_WAIT" "active_state CLOSING"
  "active_state LAST_ACK"
  by (simp_all add: active_state_def)

lemma lists_ok_mono: "lists_ok U L P pool bound active tw lids lpool timer \<Longrightarrow> L \<subseteq> L' \<Longrightarrow>
    lists_ok U L' P pool bound active tw lids lpool timer"
  unfolding lists_ok_def place_ok_def by blast

lemma lists_ok_where:
  assumes "lists_ok U L P pool bound active tw lids lpool timer" and "P x = Some (st, l, n)"
  shows "x \<notin> set pool" "x \<in> set bound \<Longrightarrow> st = CLOSED \<and> n \<noteq> 0" "x \<in> set active \<Longrightarrow> active_state st" "x \<in> set tw \<Longrightarrow> st = TIME_WAIT"
    "place_ok L active tw lids x (st, l, n)" "x \<in> U"
proof -
  note ok = assms(1) [unfolded lists_ok_def]
  have "x \<in> dom P" using assms(2) by blast
  then show "x \<notin> set pool" "x \<in> U" using ok by blast+
  show "place_ok L active tw lids x (st, l, n)" using ok assms(2) by blast
  show "st = CLOSED \<and> n \<noteq> 0" if "x \<in> set bound"
    using ok that assms(2) by (metis fst_conv snd_conv option.inject)
  show "active_state st" if "x \<in> set active"
    using ok that assms(2) by (metis fst_conv option.inject)
  show "st = TIME_WAIT" if "x \<in> set tw"
    using ok that assms(2) by (metis fst_conv option.inject)
qed

text \<open>A block within its list.\<close>

lemma lists_ok_upd:
  assumes ok: "lists_ok U L P pool bound active tw lids lpool timer" and p: "P x = Some v0"
    and "x \<in> set bound \<Longrightarrow> fst v = CLOSED \<and> snd (snd v) \<noteq> 0" and "x \<in> set active \<Longrightarrow> active_state (fst v)"
    and "x \<in> set tw \<Longrightarrow> fst v = TIME_WAIT" and "place_ok L active tw lids x v"
  shows "lists_ok U L (P(x \<mapsto> v)) pool bound active tw lids lpool timer"
proof -
  have "dom (P(x \<mapsto> v)) = dom P" using p by auto
  then show ?thesis using assms unfolding lists_ok_def by simp
qed

lemma lists_ok_active:
  assumes "lists_ok U L P pool bound active tw lids lpool timer" and "P x = Some (st0, l, n)"
    and "active_state st0" and "active_state st"
  shows "lists_ok U L (P(x \<mapsto> (st, l, m))) pool bound active tw lids lpool timer"
proof (rule lists_ok_upd [OF assms(1,2)])
  note w = lists_ok_where [OF assms(1,2)]
  show "x \<in> set bound \<Longrightarrow> fst (st, l, m) = CLOSED \<and> snd (snd (st, l, m)) \<noteq> 0" "x \<in> set tw \<Longrightarrow> fst (st, l, m) = TIME_WAIT"
    using w(2,4) assms(3) by auto
  show "place_ok L active tw lids x (st, l, m)" using w(5) assms(3,4) by (auto simp: place_ok_def active_state_def)
qed (use assms(4) in simp)

lemma lists_ok_closed:
  assumes "lists_ok U L P pool bound active tw lids lpool timer" and "P x = Some (CLOSED, l, n)" and "n = 0 \<or> m = n"
  shows "lists_ok U L (P(x \<mapsto> (CLOSED, l, m))) pool bound active tw lids lpool timer"
proof (rule lists_ok_upd [OF assms(1,2)])
  note w = lists_ok_where [OF assms(1,2)]
  show "x \<in> set bound \<Longrightarrow> fst (CLOSED, l, m) = CLOSED \<and> snd (snd (CLOSED, l, m)) \<noteq> 0"
    "x \<in> set active \<Longrightarrow> active_state (fst (CLOSED, l, m))" "x \<in> set tw \<Longrightarrow> fst (CLOSED, l, m) = TIME_WAIT"
    using w(2-4) assms(3) by auto
  show "place_ok L active tw lids x (CLOSED, l, m)" using w(5) by (simp add: place_ok_def)
qed

text \<open>Blocks that leave and join lists. The second argument of \<open>place_ok\<close> only matters for the blocks that it is about.\<close>

lemma place_ok_lists:
  assumes "\<forall>x v. P x = Some v \<longrightarrow> place_ok L active tw lids x v" and "set active \<union> set tw \<union> L \<subseteq> insert y (set active' \<union> set tw' \<union> L')"
    and "set lids \<subseteq> set lids'"
  shows "P x = Some v \<Longrightarrow> x \<noteq> y \<Longrightarrow> place_ok L' active' tw' lids' x v"
  using assms unfolding place_ok_def by blast

text \<open>A block that is freed, whatever list it was on.\<close>

lemma lists_ok_gone:
  assumes ok: "lists_ok U L P pool bound active tw lids lpool timer" and p: "P x = Some v"
  shows "lists_ok U (L - {x}) (P(x := None)) (x # pool) (remove1 x bound) (remove1 x active) (remove1 x tw) lids lpool timer"
proof -
  note ok' = ok [unfolded lists_ok_def]
  have d: "distinct bound" "distinct active" "distinct tw" using ok' by simp_all
  note sets = set_remove1_eq [OF d(1)] set_remove1_eq [OF d(2)] set_remove1_eq [OF d(3)]
  have x: "x \<in> dom P" using p by blast
  have place: "place_ok (L - {x}) (remove1 x active) (remove1 x tw) lids y w" if "(P(x := None)) y = Some w" for y w
    by (rule place_ok_lists [of P L active tw lids x]) (use ok' that in \<open>auto simp: sets split: if_splits\<close>)
  have timer: "remove1 x active \<noteq> [] \<or> remove1 x tw \<noteq> [] \<Longrightarrow> timer" using ok' by auto
  have dist: "distinct ((x # pool) @ remove1 x bound @ remove1 x active @ remove1 x tw)"
    using ok' x by (auto simp: sets d)
  have "dom (P(x := None)) \<union> set (x # pool) = U" "dom (P(x := None)) \<inter> set (x # pool) = {}" using ok' x by auto
  then show ?thesis unfolding lists_ok_def using ok' dist place timer by (simp add: sets)
qed

text \<open>A block that is taken off the list of active blocks and freed later, or moved to the waiting blocks.\<close>

lemma lists_ok_loose:
  assumes ok: "lists_ok U L P pool bound active tw lids lpool timer"
  shows "lists_ok U (insert x L) P pool bound (remove1 x active) tw lids lpool timer"
proof -
  note ok' = ok [unfolded lists_ok_def]
  have d: "distinct active" using ok' by simp
  note sets = set_remove1_eq [OF d]
  have place: "place_ok (insert x L) (remove1 x active) tw lids y w" if "P y = Some w" for y w
    using ok' that unfolding place_ok_def sets by blast
  have timer: "remove1 x active \<noteq> [] \<or> tw \<noteq> [] \<Longrightarrow> timer" using ok' by auto
  have dist: "distinct (pool @ bound @ remove1 x active @ tw)" using ok' by (auto simp: sets d)
  show ?thesis unfolding lists_ok_def using ok' dist place timer by (simp add: sets)
qed

lemma lists_ok_time_wait:
  assumes ok: "lists_ok U L P pool bound active tw lids lpool timer" and p: "P x = Some (st, l, n)" and st: "active_state st"
  shows "lists_ok U L (P(x \<mapsto> (TIME_WAIT, l, n))) pool bound (remove1 x active) (x # tw) lids lpool True"
proof -
  note ok' = ok [unfolded lists_ok_def] and w = lists_ok_where [OF ok p]
  have d: "distinct active" using ok' by simp
  note sets = set_remove1_eq [OF d]
  have x: "x \<notin> set bound" "x \<notin> set tw" "x \<notin> set pool" using w st by auto
  have place: "place_ok L (remove1 x active) (x # tw) lids y v" if "(P(x \<mapsto> (TIME_WAIT, l, n))) y = Some v" for y v
    using ok' that w(5) st unfolding place_ok_def sets by (cases "y = x") (auto simp: active_state_def)
  have dist: "distinct (pool @ bound @ remove1 x active @ x # tw)" using ok' x by (auto simp: sets d)
  have "dom (P(x \<mapsto> (TIME_WAIT, l, n))) = dom P" using p by auto
  then show ?thesis unfolding lists_ok_def using ok' dist place x by (simp add: sets) blast
qed

text \<open>A new block, and a closed block that joins a list.\<close>

lemma lists_ok_alloc:
  assumes ok: "lists_ok U L P (x # pool) bound active tw lids lpool timer"
  shows "lists_ok U L (P(x \<mapsto> (CLOSED, None, n))) pool bound active tw lids lpool timer"
proof -
  note ok' = ok [unfolded lists_ok_def]
  have x: "x \<notin> set pool" "x \<notin> set bound" "x \<notin> set active" "x \<notin> set tw" "x \<notin> dom P" using ok' by auto
  have place: "place_ok L active tw lids y v" if "(P(x \<mapsto> (CLOSED, None, n))) y = Some v" for y v
    using ok' that by (cases "y = x") (auto simp: place_ok_def)
  show ?thesis unfolding lists_ok_def using ok' place x by auto
qed

lemma lists_ok_bind:
  assumes ok: "lists_ok U L P pool bound active tw lids lpool timer" and p: "P x = Some (CLOSED, l, n)"
    and "x \<notin> set bound" and "m \<noteq> 0"
  shows "lists_ok U L (P(x \<mapsto> (CLOSED, l, m))) pool (x # bound) active tw lids lpool timer"
proof -
  note ok' = ok [unfolded lists_ok_def] and w = lists_ok_where [OF ok p]
  have x: "x \<notin> set active" "x \<notin> set tw" "x \<notin> set pool" using w by auto
  have place: "place_ok L active tw lids y v" if "(P(x \<mapsto> (CLOSED, l, m))) y = Some v" for y v
    using ok' that w(5) by (cases "y = x") (auto simp: place_ok_def)
  have "dom (P(x \<mapsto> (CLOSED, l, m))) = dom P" using p by auto
  then show ?thesis unfolding lists_ok_def using ok' place x assms(3,4) by simp blast
qed

lemma lists_ok_join:
  assumes ok: "lists_ok U L P pool bound active tw lids lpool timer" and p: "P x = Some (CLOSED, l, n)"
    and st: "active_state st" and k: "k = None \<or> the k \<in> set lids"
  shows "lists_ok U L (P(x \<mapsto> (st, k, m))) pool (remove1 x bound) (x # active) tw lids lpool True"
proof -
  note ok' = ok [unfolded lists_ok_def] and w = lists_ok_where [OF ok p]
  have d: "distinct bound" using ok' by simp
  note sets = set_remove1_eq [OF d]
  have x: "x \<notin> set active" "x \<notin> set tw" "x \<notin> set pool" using w by auto
  have place: "place_ok L (x # active) tw lids y v" if "(P(x \<mapsto> (st, k, m))) y = Some v" for y v
    using ok' that k st unfolding place_ok_def by (cases "y = x") (auto simp: active_state_def)
  have dist: "distinct (pool @ remove1 x bound @ (x # active) @ tw)" using ok' x by (auto simp: sets d)
  have "dom (P(x \<mapsto> (st, k, m))) = dom P" using p by auto
  then show ?thesis unfolding lists_ok_def using ok' dist place x st by (simp add: sets)
qed

lemma lists_ok_front:
  assumes ok: "lists_ok U L P pool bound active tw lids lpool timer" and "x \<in> set active"
  shows "lists_ok U L P pool bound (x # remove1 x active) tw lids lpool timer"
proof -
  note ok' = ok [unfolded lists_ok_def]
  have d: "distinct active" using ok' by simp
  then have sets: "set (x # remove1 x active) = set active" using assms(2) by auto
  have dist: "distinct (pool @ bound @ (x # remove1 x active) @ tw)"
    using ok' assms(2) by (simp add: d) blast
  have place: "place_ok L (x # remove1 x active) tw lids y v = place_ok L active tw lids y v" for y v
    using sets by (simp only: place_ok_def)
  have "active \<noteq> []" using assms(2) by auto
  then show ?thesis unfolding lists_ok_def place sets using ok' dist by simp
qed

declare split_paired_Ex [simp] split_paired_All [simp]

end
