(* ===== verification/Tcp_Stack.thy ===== *)
theory Tcp_Stack
  imports Tcp_Lists
begin

text \<open>
  The invariant of the lists for the state of the stack, kept by every operation of the interface, by every segment that
  arrives and by the timers.
\<close>

section \<open>The invariant\<close>

definition places :: "tcp_stack \<Rightarrow> pcb_id \<Rightarrow> place option" where
  "places s = (\<lambda>x. map_option place (pcbs s x))"

definition stack_ok :: "pcb_id set \<Rightarrow> pcb_id set \<Rightarrow> tcp_stack \<Rightarrow> bool" where
  "stack_ok U L s \<longleftrightarrow>
     lists_ok U L (places s) (pcb_pool s) (bound_pcbs s) (active_pcbs s) (tw_pcbs s) (map fst (listen_pcbs s)) (listen_pool s)
       (tcpip_tcp_timer_active s)"

text \<open>All that the invariant looks at, and the connection that \<^verbatim>\<open>tcp_input\<close> is about.\<close>

definition shape where
  "shape s =
     (places s, pcb_pool s, bound_pcbs s, active_pcbs s, tw_pcbs s, map fst (listen_pcbs s), listen_pool s,
      tcpip_tcp_timer_active s, tcp_input_pcb s, input_close s)"

lemma shape_ok: "shape s = shape t \<Longrightarrow> stack_ok U L s = stack_ok U L t"
  by (simp add: shape_def stack_ok_def)

lemma shape_place: "shape s = shape t \<Longrightarrow> map_option place (pcbs s x) = map_option place (pcbs t x)"
  by (auto simp: shape_def places_def dest: fun_cong)

lemma shape_place_Some:
  assumes "shape s = shape t" "pcbs t x = Some p" shows "\<exists>q. pcbs s x = Some q \<and> place q = place p"
  using shape_place [OF assms(1), of x] assms(2) by auto

lemma shape_lists: "shape s = shape t \<Longrightarrow> active_pcbs s = active_pcbs t" "shape s = shape t \<Longrightarrow> tcp_input_pcb s = tcp_input_pcb t"
  "shape s = shape t \<Longrightarrow> input_close s = input_close t" "shape s = shape t \<Longrightarrow> bound_pcbs s = bound_pcbs t"
  "shape s = shape t \<Longrightarrow> tw_pcbs s = tw_pcbs t" "shape s = shape t \<Longrightarrow> map fst (listen_pcbs s) = map fst (listen_pcbs t)"
  by (simp_all add: shape_def)

lemma shape_frame [simp]:
  "shape (s\<lparr>st_env := e\<rparr>) = shape s" "shape (s\<lparr>events := ev\<rparr>) = shape s" "shape (s\<lparr>active_pcbs_changed := b\<rparr>) = shape s"
  "shape (s\<lparr>tcp_port := n\<rparr>) = shape s" "shape (s\<lparr>tcp_iss := w\<rparr>) = shape s" "shape (s\<lparr>tcp_timer := k\<rparr>) = shape s"
  "shape (s\<lparr>tcp_timer_ctr := k\<rparr>) = shape s" "shape (s\<lparr>answer := f\<rparr>) = shape s"
  by (simp_all add: shape_def places_def)

lemma places_put: "places (put_pcb x p s) = (places s)(x \<mapsto> place p)"
  by (auto simp: places_def put_pcb_def)

lemma places_Some: "pcbs s x = Some p \<Longrightarrow> places s x = Some (place p)"
  by (simp add: places_def)

lemma shape_put: "pcbs s x = Some q \<Longrightarrow> place p = place q \<Longrightarrow> shape (put_pcb x p s) = shape s"
  using places_Some [of s x q] by (simp add: shape_def places_put fun_upd_idem) (simp add: put_pcb_def)

lemma put_pcb_fields [simp]:
  "pcbs (put_pcb x p s) x = Some p" "y \<noteq> x \<Longrightarrow> pcbs (put_pcb x p s) y = pcbs s y" "pcb_pool (put_pcb x p s) = pcb_pool s"
  "bound_pcbs (put_pcb x p s) = bound_pcbs s" "active_pcbs (put_pcb x p s) = active_pcbs s" "tw_pcbs (put_pcb x p s) = tw_pcbs s"
  "listen_pcbs (put_pcb x p s) = listen_pcbs s" "listen_pool (put_pcb x p s) = listen_pool s"
  "tcpip_tcp_timer_active (put_pcb x p s) = tcpip_tcp_timer_active s" "tcp_input_pcb (put_pcb x p s) = tcp_input_pcb s"
  "input_close (put_pcb x p s) = input_close s" "st_env (put_pcb x p s) = st_env s" "tcp_iss (put_pcb x p s) = tcp_iss s"
  by (simp_all add: put_pcb_def)

section \<open>Calls that leave every block in its place\<close>

lemma shape_upd:
  assumes "upd_pcb f x s = Some s'" and "\<And>p. place (f p) = place p" shows "shape s' = shape s"
proof -
  obtain p where "pcbs s x = Some p" "s' = put_pcb x (f p) s" using assms(1) by (auto simp: upd_pcb_def bind_eq_Some_conv)
  then show ?thesis using assms(2) by (simp add: shape_put)
qed

lemma shape_upd_flags:
  "upd_pcb (tcp_set_flags fl) x s = Some s' \<Longrightarrow> shape s' = shape s" "upd_pcb (tcp_clear_flags fl) x s = Some s' \<Longrightarrow> shape s' = shape s"
  "upd_pcb tcp_ack_now x s = Some s' \<Longrightarrow> shape s' = shape s"
  by (erule shape_upd, simp add: place_simps)+

lemma shape_on:
  assumes "on_pcb f x s = Some (a, s')" and "\<And>p e a p' e'. f p e = Some (a, p', e') \<Longrightarrow> place p' = place p"
  shows "shape s' = shape s"
proof -
  obtain p p' e' where "pcbs s x = Some p" "f p (st_env s) = Some (a, p', e')" "s' = (put_pcb x p' s)\<lparr>st_env := e'\<rparr>"
    using assms(1) by (auto simp: on_pcb_def bind_eq_Some_conv)
  then show ?thesis using assms(2) by (simp add: shape_put)
qed

lemma shape_output: "output_pcb x s = Some (err, s') \<Longrightarrow> shape s' = shape s"
  unfolding output_pcb_def by (erule shape_on) (rule place_output)

lemma shape_purge:
  assumes "purge_pcb x s = Some s'" shows "shape s' = shape s"
proof -
  obtain p p' e' where p: "pcbs s x = Some p" "tcp_pcb_purge p (st_env s) = (p', e')" "s' = (put_pcb x p' s)\<lparr>st_env := e'\<rparr>"
    using assms by (cases "pcbs s x"; cases "tcp_pcb_purge (the (pcbs s x)) (st_env s)") (auto simp: purge_pcb_def)
  then show ?thesis using place_purge [OF p(2)] by (simp add: shape_put)
qed

lemma shape_event_err [simp]: "shape (event_err cb x err s) = shape s"
  by (simp add: event_err_def)

lemma shape_recved: "recved_pcb n x s = Some s' \<Longrightarrow> shape s' = shape s"
  by (auto simp: recved_pcb_def bind_eq_Some_conv elim!: shape_on dest: place_recved)

section \<open>Freeing\<close>

definition free_pcb :: "pcb_id \<Rightarrow> tcp_stack \<Rightarrow> tcp_stack" where
  "free_pcb x s = s\<lparr>pcbs := (pcbs s)(x := None), pcb_pool := x # pcb_pool s\<rparr>"

definition gone :: "pcb_id \<Rightarrow> tcp_stack \<Rightarrow> tcp_stack" where
  "gone x s = free_pcb x (rmv_tw x (rmv_active x (rmv_bound x s)))"

lemma places_free [simp]: "places (free_pcb x s) = (places s)(x := None)"
  by (auto simp: places_def free_pcb_def)

lemma gone_ok: "stack_ok U L s \<Longrightarrow> pcbs s x = Some p \<Longrightarrow> stack_ok U (L - {x}) (gone x s)"
  using lists_ok_gone [of U L "places s" _ _ _ _ _ _ _ x "place p"]
  by (simp add: stack_ok_def gone_def rmv_tw_def rmv_active_def rmv_bound_def)
     (simp add: free_pcb_def places_def)

lemma free_shape: "shape s = shape t \<Longrightarrow> shape (free_pcb x s) = shape (free_pcb x t)"
  by (simp add: shape_def) (simp add: free_pcb_def)

lemma tcp_free_eq: "tcp_free x s = Some s' \<Longrightarrow> s' = free_pcb x s \<and> (\<exists>p. pcbs s x = Some p)"
  by (auto simp: tcp_free_def free_pcb_def bind_eq_Some_conv)

text \<open>Which lists a block can be on.\<close>

lemma stack_ok_where:
  assumes "stack_ok U L s" and "pcbs s x = Some p"
  shows "x \<in> set (bound_pcbs s) \<Longrightarrow> state p = CLOSED \<and> local_port p \<noteq> 0"
    "x \<in> set (active_pcbs s) \<Longrightarrow> active_state (state p)" "x \<in> set (tw_pcbs s) \<Longrightarrow> state p = TIME_WAIT"
    "state p \<noteq> CLOSED \<Longrightarrow> x \<notin> L \<Longrightarrow> x \<in> set (active_pcbs s) \<union> set (tw_pcbs s)"
    "listener p = None \<or> state p \<noteq> CLOSED \<and> the (listener p) \<in> fst ` set (listen_pcbs s)"
proof -
  have p: "places s x = Some (state p, listener p, local_port p)" using places_Some [OF assms(2)] by (simp add: place_def)
  note w = lists_ok_where [OF assms(1) [unfolded stack_ok_def] p]
  show "x \<in> set (bound_pcbs s) \<Longrightarrow> state p = CLOSED \<and> local_port p \<noteq> 0"
    "x \<in> set (active_pcbs s) \<Longrightarrow> active_state (state p)" "x \<in> set (tw_pcbs s) \<Longrightarrow> state p = TIME_WAIT"
    by (rule w; assumption)+
  show "state p \<noteq> CLOSED \<Longrightarrow> x \<notin> L \<Longrightarrow> x \<in> set (active_pcbs s) \<union> set (tw_pcbs s)"
    "listener p = None \<or> state p \<noteq> CLOSED \<and> the (listener p) \<in> fst ` set (listen_pcbs s)"
    using w(5) by (auto simp: place_ok_def)
qed

lemma stack_ok_member:
  assumes "stack_ok U L s"
  shows "x \<in> set (active_pcbs s) \<Longrightarrow> \<exists>p. pcbs s x = Some p \<and> active_state (state p)"
    "x \<in> set (tw_pcbs s) \<Longrightarrow> \<exists>p. pcbs s x = Some p \<and> state p = TIME_WAIT"
    "x \<in> set (bound_pcbs s) \<Longrightarrow> \<exists>p. pcbs s x = Some p \<and> state p = CLOSED"
  using assms by (auto simp: stack_ok_def lists_ok_def places_def place_def Ball_def)

lemma gone_cases:
  assumes "stack_ok U L s" and "pcbs s x = Some p"
  shows "active_state (state p) \<Longrightarrow> gone x s = free_pcb x (rmv_active x s)"
    "state p = TIME_WAIT \<Longrightarrow> gone x s = free_pcb x (rmv_tw x s)"
    "state p = CLOSED \<Longrightarrow> gone x s = free_pcb x (if local_port p \<noteq> 0 then rmv_bound x s else s)"
proof -
  note w = stack_ok_where [OF assms]
  have "x \<notin> set (bound_pcbs s)" "x \<notin> set (tw_pcbs s)" if "active_state (state p)"
    using w(1,3) that by (auto simp: active_state_def)
  then show "active_state (state p) \<Longrightarrow> gone x s = free_pcb x (rmv_active x s)"
    by (simp add: gone_def rmv_active_def rmv_bound_def rmv_tw_def remove1_idem)
  have "x \<notin> set (bound_pcbs s)" "x \<notin> set (active_pcbs s)" if "state p = TIME_WAIT"
    using w(1,2) that by auto
  then show "state p = TIME_WAIT \<Longrightarrow> gone x s = free_pcb x (rmv_tw x s)"
    by (simp add: gone_def rmv_active_def rmv_bound_def rmv_tw_def remove1_idem)
  have "x \<notin> set (tw_pcbs s)" "x \<notin> set (active_pcbs s)" "local_port p = 0 \<Longrightarrow> x \<notin> set (bound_pcbs s)" if "state p = CLOSED"
    using w(1-3) that by auto
  then show "state p = CLOSED \<Longrightarrow> gone x s = free_pcb x (if local_port p \<noteq> 0 then rmv_bound x s else s)"
    by (simp add: gone_def rmv_active_def rmv_bound_def rmv_tw_def remove1_idem)
qed

lemma stack_ok_shape: "stack_ok U L t \<Longrightarrow> shape s = shape t \<Longrightarrow> stack_ok U L s"
  using shape_ok [of s t U L] by simp

text \<open>\<^verbatim>\<open>tcp_pcb_remove\<close> leaves a closed block, and \<^verbatim>\<open>tcp_free\<close> always follows it.\<close>

definition takes_off :: "(pcb_id \<Rightarrow> tcp_stack \<Rightarrow> tcp_stack) \<Rightarrow> bool" where
  "takes_off rmv \<longleftrightarrow> rmv = rmv_active \<or> rmv = rmv_tw"

lemma takes_off_shape:
  "takes_off rmv \<Longrightarrow> shape s = shape t \<Longrightarrow> shape (rmv x s) = shape (rmv x t)" "takes_off rmv \<Longrightarrow> pcbs (rmv x s) = pcbs s"
proof -
  have "places (rmv_active x s) = places s" "places (rmv_tw x s) = places s" for s
    by (simp_all add: places_def rmv_active_def rmv_tw_def)
  then show "takes_off rmv \<Longrightarrow> shape s = shape t \<Longrightarrow> shape (rmv x s) = shape (rmv x t)"
    by (auto simp: takes_off_def shape_def) (simp_all add: rmv_active_def rmv_tw_def)
  show "takes_off rmv \<Longrightarrow> pcbs (rmv x s) = pcbs s" by (auto simp: takes_off_def rmv_active_def rmv_tw_def)
qed

lemma tcp_pcb_remove_free:
  assumes "tcp_pcb_remove rmv x s = Some s1" and off: "takes_off rmv" and "tcp_free x s2 = Some s3" and "shape s2 = shape s1"
  shows "\<exists>p. pcbs s x = Some p \<and> shape s3 = shape (free_pcb x (rmv x s))"
proof -
  obtain sp where sp: "purge_pcb x (rmv x s) = Some sp" using assms(1) by (auto simp: tcp_pcb_remove_def bind_eq_Some_conv)
  note shp = shape_purge [OF sp]
  obtain q where q: "pcbs sp x = Some q"
    using assms(1) sp by (auto simp: tcp_pcb_remove_def bind_eq_Some_conv)
  let ?ack = "state q \<noteq> TIME_WAIT \<and> state q \<noteq> LISTEN \<and> tcp_is_flag_set TF_ACK_DELAY q"
  obtain so where so: "(if ?ack then do { s \<leftarrow> upd_pcb tcp_ack_now x sp; (_, s) \<leftarrow> output_pcb x s; Some s } else Some sp) = Some so"
      and rest: "do { pcb \<leftarrow> pcbs so x; lwip_assert (unsent pcb = [] \<and> unacked pcb = [] \<and> ooseq pcb = []);
         Some (put_pcb x (pcb\<lparr>state := CLOSED, local_port := 0\<rparr>) so) } = Some s1"
    using assms(1) unfolding tcp_pcb_remove_def sp bind.bind_lunit q by - (erule bind_SomeE, rule that)
  have "shape so = shape sp"
    using so by (auto simp: bind_eq_Some_conv dest!: shape_output split: if_splits elim!: shape_upd [where f = tcp_ack_now, THEN trans [rotated]])
       (auto simp: place_simps dest: shape_upd)
  then have so_shape: "shape so = shape (rmv x s)" using shp by simp
  obtain pcb where s1: "pcbs so x = Some pcb" "s1 = put_pcb x (pcb\<lparr>state := CLOSED, local_port := 0\<rparr>) so"
    using rest by (auto simp: bind_eq_Some_conv)
  have "shape s3 = shape (free_pcb x s1)" using tcp_free_eq [OF assms(3)] free_shape [OF assms(4)] by simp
  also have "\<dots> = shape (free_pcb x so)"
    by (simp add: s1(2) shape_def places_put) (simp add: free_pcb_def put_pcb_def)
  also have "\<dots> = shape (free_pcb x (rmv x s))" using free_shape [OF so_shape] .
  finally have "shape s3 = shape (free_pcb x (rmv x s))" .
  moreover obtain p where "pcbs (rmv x s) x = Some p" using shape_place_Some [OF so_shape [symmetric] s1(1)] by blast
  ultimately show ?thesis by (simp add: takes_off_shape(2) [OF off])
qed

text \<open>Aborting frees the block, wherever it is.\<close>

lemma tcp_abandon_gone:
  assumes ok: "stack_ok U L s" and run: "tcp_abandon x reset s = Some s'"
  shows "shape s' = shape (gone x s)" "\<exists>p. pcbs s x = Some p"
proof -
  obtain p where p: "pcbs s x = Some p" and "state p \<noteq> LISTEN" using run by (auto simp: tcp_abandon_def bind_eq_Some_conv)
  then show "\<exists>p. pcbs s x = Some p" by blast
  note cases = gone_cases [OF ok p]
  consider "state p = TIME_WAIT" | "state p = CLOSED" | "active_state (state p)" "state p \<noteq> CLOSED" "state p \<noteq> TIME_WAIT"
    using \<open>state p \<noteq> LISTEN\<close> by (auto simp: active_state_def)
  then show "shape s' = shape (gone x s)"
  proof cases
    case 1
    then obtain s1 where "tcp_pcb_remove rmv_tw x s = Some s1" "tcp_free x s1 = Some s'"
      using run p by (auto simp: tcp_abandon_def bind_eq_Some_conv)
    then show ?thesis using tcp_pcb_remove_free [of rmv_tw x s s1 s1 s'] cases(2) 1 by (simp add: takes_off_def)
  next
    case 2
    let ?s = "if local_port p \<noteq> 0 then rmv_bound x s else s"
    obtain e s2 where "tcp_free x (?s\<lparr>st_env := e\<rparr>) = Some s2" "s' = event_err (callbacks p) x ERR_ABRT s2"
      using run p 2 by (auto simp: tcp_abandon_def Let_def bind_eq_Some_conv)
    moreover from this have "shape s2 = shape (free_pcb x ?s)" using tcp_free_eq free_shape [of "?s\<lparr>st_env := e\<rparr>" ?s x] by auto
    ultimately show ?thesis using cases(3) 2 by simp
  next
    case 3
    then obtain e s1 s2 where s1: "TCP_PCB_REMOVE_ACTIVE x s = Some s1" "tcp_free x (s1\<lparr>st_env := e\<rparr>) = Some s2"
        "s' = event_err (callbacks p) x ERR_ABRT s2"
      using run p by (auto simp: tcp_abandon_def Let_def bind_eq_Some_conv)
    then obtain s0 where "tcp_pcb_remove rmv_active x s = Some s0" "s1 = s0\<lparr>active_pcbs_changed := True\<rparr>"
      by (auto simp: TCP_PCB_REMOVE_ACTIVE_def bind_eq_Some_conv)
    then show ?thesis using tcp_pcb_remove_free [of rmv_active x s s0 "s1\<lparr>st_env := e\<rparr>" s2] s1 cases(1) 3 by (simp add: takes_off_def)
  qed
qed

lemma tcp_abandon_ok:
  assumes "stack_ok U L s" and "tcp_abandon x reset s = Some s'"
  shows "stack_ok U (L - {x}) s'" "pcbs s' x = None" "tcp_input_pcb s' = tcp_input_pcb s" "input_close s' = input_close s"
proof -
  note g = tcp_abandon_gone [OF assms]
  then show "stack_ok U (L - {x}) s'" using gone_ok [OF assms(1)] shape_ok [OF g(1)] by blast
  show "pcbs s' x = None" using shape_place [OF g(1), of x] by (simp add: gone_def free_pcb_def)
  show "tcp_input_pcb s' = tcp_input_pcb s" "input_close s' = input_close s"
    using shape_lists(2,3) [OF g(1)] by (simp_all add: gone_def free_pcb_def rmv_tw_def rmv_active_def rmv_bound_def)
qed

section \<open>Closing\<close>

definition same_input :: "tcp_stack \<Rightarrow> tcp_stack \<Rightarrow> bool" where
  "same_input s s' \<longleftrightarrow>
     tcp_input_pcb s' = tcp_input_pcb s \<and> input_close s' = input_close s \<and> map fst (listen_pcbs s') = map fst (listen_pcbs s)"

lemma same_input_shape: "shape s' = shape s \<Longrightarrow> same_input s s'"
  by (simp add: same_input_def shape_def)

lemma same_input_gone: "shape s' = shape (gone x s) \<Longrightarrow> same_input s s'"
  using shape_lists(2,3,6) [of s' "gone x s"]
  by (simp add: same_input_def gone_def free_pcb_def rmv_tw_def rmv_active_def rmv_bound_def)

lemma gone_weak:
  assumes "stack_ok U L s" "pcbs s x = Some p" "shape s' = shape (gone x s)" shows "stack_ok U (L - {x}) s'" "stack_ok U L s'"
proof -
  show *: "stack_ok U (L - {x}) s'" using gone_ok [OF assms(1,2)] assms(3) by (rule stack_ok_shape)
  show "stack_ok U L s'" using * unfolding stack_ok_def by (rule lists_ok_mono) blast
qed

lemma set_state_ok:
  assumes "stack_ok U L s" and "upd_pcb f x s = Some s'" and "pcbs s x = Some p" and "active_state (state p)"
    and "place (f p) = (st, listener p, local_port p)" and "active_state st"
  shows "stack_ok U L s'" "same_input s s'" "active_pcbs s' = active_pcbs s" "pcbs s' x = Some (f p)"
proof -
  have s': "s' = put_pcb x (f p) s" using assms(2,3) by (simp add: upd_pcb_def)
  have "places s x = Some (state p, listener p, local_port p)" using places_Some [OF assms(3)] by (simp add: place_def)
  then show "stack_ok U L s'"
    using lists_ok_active [OF assms(1) [unfolded stack_ok_def], of x] assms(4-6) by (simp add: stack_ok_def s' places_put)
  show "same_input s s'" "active_pcbs s' = active_pcbs s" "pcbs s' x = Some (f p)" by (simp_all add: s' same_input_def)
qed

lemma close_shutdown_fin_ok:
  assumes ok: "stack_ok U L s" and run: "tcp_close_shutdown_fin x s = Some (err, s')"
  shows "stack_ok U L s'" "same_input s s'" "active_pcbs s' = active_pcbs s"
proof -
  obtain p where p: "pcbs s x = Some p" using run by (auto simp: tcp_close_shutdown_fin_def bind_eq_Some_conv)
  define nxt where "nxt = (if state p = SYN_RCVD \<or> state p = ESTABLISHED then Some FIN_WAIT_1
    else if state p = CLOSE_WAIT then Some LAST_ACK else None)"
  have "stack_ok U L s' \<and> same_input s s' \<and> active_pcbs s' = active_pcbs s"
  proof (cases nxt)
    case None
    then have "s' = s" using run p by (simp add: tcp_close_shutdown_fin_def nxt_def split: if_splits)
    then show ?thesis using ok by (simp add: same_input_def)
  next
    case (Some st)
    then have st: "active_state (state p)" "active_state st" by (auto simp: nxt_def split: if_splits)
    obtain err1 s1 where s1: "on_pcb tcp_send_fin x s = Some (err1, s1)"
      and rest: "(if err1 = ERR_OK
         then do { s \<leftarrow> upd_pcb (\<lambda>pcb. pcb\<lparr>state := st\<rparr>) x s1; (_, s) \<leftarrow> output_pcb x s; Some (ERR_OK, s) }
         else if err1 = ERR_MEM then do { s \<leftarrow> upd_pcb (tcp_set_flags TF_CLOSEPEND) x s1; Some (ERR_OK, s) }
         else Some (err1, s1)) = Some (err, s')"
      using run p Some by (auto simp: tcp_close_shutdown_fin_def nxt_def [symmetric] bind_eq_Some_conv)
    have sh1: "shape s1 = shape s" by (rule shape_on [OF s1]) (rule place_send_fin)
    have ok1: "stack_ok U L s1" using ok sh1 by (rule stack_ok_shape)
    consider (fin) s2 where "err1 = ERR_OK" "upd_pcb (\<lambda>pcb. pcb\<lparr>state := st\<rparr>) x s1 = Some s2" "\<exists>e. output_pcb x s2 = Some (e, s')"
      | (other) "shape s' = shape s1"
      using rest by (auto simp: bind_eq_Some_conv dest!: shape_upd_flags split: if_splits)
    then show ?thesis
    proof cases
      case other
      then have sh: "shape s' = shape s" using sh1 by (rule trans)
      show ?thesis using stack_ok_shape [OF ok sh] same_input_shape [OF sh] shape_lists(1) [OF sh] by blast
    next
      case fin
      obtain p1 where p1: "pcbs s1 x = Some p1" "place p1 = place p" using shape_place_Some [OF sh1 p] by blast
      note set = set_state_ok [OF ok1 fin(2) p1(1)]
      have ok2: "stack_ok U L s2" "same_input s1 s2" "active_pcbs s2 = active_pcbs s1"
        by (rule set; use p1(2) st in \<open>simp add: place_def\<close>)+
      obtain e where sh2: "shape s' = shape s2" using fin(3) shape_output by blast
      then show ?thesis
        using stack_ok_shape [OF ok2(1) sh2] ok2 same_input_shape [OF sh1] same_input_shape [OF sh2] shape_lists(1) [OF sh1] shape_lists(1) [OF sh2]
        by (auto simp: same_input_def)
    qed
  qed
  then show "stack_ok U L s'" "same_input s s'" "active_pcbs s' = active_pcbs s" by blast+
qed

text \<open>A block that is closed while its segment is handled is off the lists until the end.\<close>

definition loose :: "pcb_id \<Rightarrow> tcp_stack \<Rightarrow> bool" where
  "loose x s \<longleftrightarrow> tcp_input_pcb s = Some x \<and> input_close s \<and> (\<exists>p. pcbs s x = Some p \<and> active_state (state p))"

lemma close_shutdown_ok:
  assumes ok: "stack_ok U L s" and run: "tcp_close_shutdown x r s = Some (err, s')"
  shows "stack_ok U L s' \<and> same_input s s' \<or> tcp_input_pcb s = Some x \<and> loose x s' \<and> stack_ok U (insert x L) s'"
proof -
  obtain p where p: "pcbs s x = Some p" using run by (auto simp: tcp_close_shutdown_def bind_eq_Some_conv)
  note cases = gone_cases [OF ok p]
  have freed: ?thesis if "shape s' = shape (gone x s)"
    using gone_weak(2) [OF ok p that] same_input_gone [OF that] by blast
  let ?rst = "r \<and> (state p = ESTABLISHED \<or> state p = CLOSE_WAIT) \<and> (refused_data p \<noteq> None \<or> rcv_wnd p \<noteq> TCP_WND)"
  consider (rst) ?rst | (closed) "\<not> ?rst" "state p = CLOSED" | (syn) "\<not> ?rst" "state p = SYN_SENT"
    | (fin) "\<not> ?rst" "state p \<noteq> CLOSED" "state p \<noteq> SYN_SENT" by blast
  then show ?thesis
  proof cases
    case rst
    then obtain e s1 where s1: "purge_pcb x (s\<lparr>st_env := e\<rparr>) = Some s1"
        and rest: "(if tcp_input_pcb (TCP_RMV_ACTIVE x s1) = Some x then Some (ERR_OK, (TCP_RMV_ACTIVE x s1)\<lparr>input_close := True\<rparr>)
          else do { s \<leftarrow> tcp_free x (TCP_RMV_ACTIVE x s1); Some (ERR_OK, s) }) = Some (err, s')"
      using run p by (auto simp: tcp_close_shutdown_def Let_def bind_eq_Some_conv)
    have sh1: "shape s1 = shape s" using shape_purge [OF s1] by simp
    have act: "active_state (state p)" using rst by auto
    obtain p1 where p1: "pcbs s1 x = Some p1" "place p1 = place p" using shape_place_Some [OF sh1 p] by blast
    show ?thesis
    proof (cases "tcp_input_pcb s = Some x")
      case True
      then have s': "s' = (TCP_RMV_ACTIVE x s1)\<lparr>input_close := True\<rparr>"
        using rest shape_lists(2) [OF sh1] by (simp add: TCP_RMV_ACTIVE_def rmv_active_def)
      have ok1: "stack_ok U L s1" using ok sh1 by (rule stack_ok_shape)
      have "places s' = places s1" by (simp add: s' TCP_RMV_ACTIVE_def rmv_active_def places_def)
      then have "stack_ok U (insert x L) s'"
        using lists_ok_loose [OF ok1 [unfolded stack_ok_def], of x] by (simp add: stack_ok_def s' TCP_RMV_ACTIVE_def rmv_active_def)
      moreover have "loose x s'"
        using True p1 act shape_lists(2) [OF sh1] place_state [OF p1(2)]
        by (simp add: loose_def s' TCP_RMV_ACTIVE_def rmv_active_def)
      ultimately show ?thesis using True by blast
    next
      case False
      then have "tcp_free x (TCP_RMV_ACTIVE x s1) = Some s'"
        using rest shape_lists(2) [OF sh1] by (auto simp: TCP_RMV_ACTIVE_def rmv_active_def bind_eq_Some_conv)
      then have "s' = free_pcb x (TCP_RMV_ACTIVE x s1)" by (simp add: tcp_free_eq)
      moreover have "shape (TCP_RMV_ACTIVE x s1) = shape (rmv_active x s)"
        using takes_off_shape(1) [of rmv_active s1 s x] sh1 by (simp add: TCP_RMV_ACTIVE_def takes_off_def)
      ultimately show ?thesis using freed free_shape [of "TCP_RMV_ACTIVE x s1" "rmv_active x s" x] cases(1) [OF act] by simp
    qed
  next
    case closed
    then have "tcp_free x (if local_port p \<noteq> 0 then rmv_bound x s else s) = Some s'"
      using run p by (auto simp: tcp_close_shutdown_def bind_eq_Some_conv)
    then have "s' = gone x s" using tcp_free_eq cases(3) closed(2) by simp
    then show ?thesis using freed by simp
  next
    case syn
    then obtain s1 where "TCP_PCB_REMOVE_ACTIVE x s = Some s1" "tcp_free x s1 = Some s'"
      using run p by (auto simp: tcp_close_shutdown_def bind_eq_Some_conv)
    moreover from this obtain s0 where "tcp_pcb_remove rmv_active x s = Some s0" "s1 = s0\<lparr>active_pcbs_changed := True\<rparr>"
      by (auto simp: TCP_PCB_REMOVE_ACTIVE_def bind_eq_Some_conv)
    ultimately show ?thesis
      using freed tcp_pcb_remove_free [of rmv_active x s s0 s1 s'] cases(1) syn by (simp add: takes_off_def)
  next
    case fin
    then have "tcp_close_shutdown_fin x s = Some (err, s')" using run p by (auto simp: tcp_close_shutdown_def)
    then show ?thesis using close_shutdown_fin_ok [OF ok] by blast
  qed
qed

lemma close_ok:
  assumes ok: "stack_ok U L s" and run: "tcp_close x s = Some (err, s')"
  shows "stack_ok U L s' \<and> same_input s s' \<or> tcp_input_pcb s = Some x \<and> loose x s' \<and> stack_ok U (insert x L) s'"
proof -
  obtain s1 where s1: "upd_pcb (tcp_set_flags TF_RXCLOSED) x s = Some s1" "tcp_close_shutdown x True s1 = Some (err, s')"
    using run by (auto simp: tcp_close_def bind_eq_Some_conv)
  have sh: "shape s1 = shape s" using shape_upd [OF s1(1)] by (simp add: place_simps)
  have "stack_ok U L s1" using ok sh by (rule stack_ok_shape)
  from close_shutdown_ok [OF this s1(2)] show ?thesis using same_input_shape [OF sh] by (auto simp: same_input_def)
qed

lemma shutdown_ok:
  assumes ok: "stack_ok U L s" and run: "tcp_shutdown x rx tx s = Some (err, s')" and idle: "tcp_input_pcb s = None"
  shows "stack_ok U L s'" "same_input s s'"
proof -
  obtain s1 where s1: "(if rx then upd_pcb (tcp_set_flags TF_RXCLOSED) x s else Some s) = Some s1"
    using run by (auto simp: tcp_shutdown_def bind_eq_Some_conv split: if_splits)
  have sh1: "shape s1 = shape s" using s1 by (auto simp: place_simps dest!: shape_upd split: if_splits)
  have fin: "stack_ok U L s' \<and> same_input s s'" if "tcp_close_shutdown x r t = Some (err, s')" "shape t = shape s" for r t
    using close_shutdown_ok [OF stack_ok_shape [OF ok that(2)] that(1)] idle same_input_shape [OF that(2)]
    by (auto simp: same_input_def)
  have "stack_ok U L s' \<and> same_input s s'"
  proof (cases "rx \<and> tx")
    case True
    then have "tcp_close_shutdown x True s1 = Some (err, s')" using run s1 by (simp add: tcp_shutdown_def)
    then show ?thesis using fin sh1 by blast
  next
    case False
    obtain s2 where s2: "(if rx then upd_pcb (\<lambda>pcb. pcb\<lparr>refused_data := None, refused_fin := False\<rparr>) x s1 else Some s1) = Some s2"
        and rest: "(if tx then do { pcb \<leftarrow> pcbs s2 x;
            if state pcb = SYN_RCVD \<or> state pcb = ESTABLISHED \<or> state pcb = CLOSE_WAIT
            then tcp_close_shutdown x rx s2 else Some (ERR_CONN, s2) } else Some (ERR_OK, s2)) = Some (err, s')"
      using run s1 False unfolding tcp_shutdown_def s1 bind.bind_lunit by - (simp only: if_False, erule bind_SomeE, rule that)
    have sh2: "shape s2 = shape s" using s2 sh1 by (auto simp: place_simps dest!: shape_upd split: if_splits)
    then show ?thesis
      using rest fin [OF _ sh2] stack_ok_shape [OF ok sh2] same_input_shape [OF sh2] by (auto simp: bind_eq_Some_conv split: if_splits)
  qed
  then show "stack_ok U L s'" "same_input s s'" by blast+
qed

end
