(* ===== verification/Tcp_Calls.thy ===== *)
theory Tcp_Calls
  imports Tcp_Stack
begin

text \<open>The invariant of the lists and the calls of the application: allocating, binding, listening and connecting.\<close>

section \<open>Making room\<close>

lemma abandon_found_ok:
  assumes "stack_ok U L s" and "abandon_found found reset s = Some s'"
  shows "stack_ok U L s'" "same_input s s'"
proof -
  have "stack_ok U L s' \<and> same_input s s'"
  proof (cases found)
    case None
    then show ?thesis using assms by (simp add: abandon_found_def same_input_def)
  next
    case (Some y)
    then have run: "tcp_abandon y reset s = Some s'" using assms(2) by (simp add: abandon_found_def)
    then show ?thesis
      using tcp_abandon_gone [OF assms(1) run] gone_weak(2) [OF assms(1)] same_input_gone by blast
  qed
  then show "stack_ok U L s'" "same_input s s'" by blast+
qed

lemma handle_closepend_ok:
  assumes "stack_ok U L s" and "handle_closepend_loop xs s = Some s'"
  shows "stack_ok U L s' \<and> same_input s s'"
  using assms
proof (induction xs arbitrary: s)
  case (Cons x xs)
  then obtain p where p: "pcbs s x = Some p" by (auto simp: bind_eq_Some_conv)
  show ?case
  proof (cases "tcp_is_flag_set TF_CLOSEPEND p")
    case False
    then show ?thesis using Cons p by simp
  next
    case True
    then obtain s1 e s2 where s1: "upd_pcb (tcp_clear_flags TF_CLOSEPEND) x s = Some s1"
        "tcp_close_shutdown_fin x s1 = Some (e, s2)" "handle_closepend_loop xs s2 = Some s'"
      using Cons.prems(2) p by (auto simp: bind_eq_Some_conv)
    note sh1 = shape_upd_flags(2) [OF s1(1)]
    have ok1: "stack_ok U L s1" using Cons.prems(1) sh1 by (rule stack_ok_shape)
    note fin = close_shutdown_fin_ok [OF ok1 s1(2)]
    show ?thesis using Cons.IH [OF fin(1) s1(3)] fin(2) same_input_shape [OF sh1] by (simp add: same_input_def)
  qed
qed (simp add: same_input_def)

lemma unless_free_ok:
  assumes "unless_free f s = Some s'" and "stack_ok U L s" and "f s = Some s' \<Longrightarrow> stack_ok U L s' \<and> same_input s s'"
  shows "stack_ok U L s' \<and> same_input s s'"
  using assms by (auto simp: unless_free_def same_input_def split: if_splits)

lemma same_input_trans: "same_input s t \<Longrightarrow> same_input t u \<Longrightarrow> same_input s u"
  by (simp add: same_input_def)

lemma tcp_make_room_ok:
  assumes ok: "stack_ok U L s" and run: "tcp_make_room pr s = Some s'"
  shows "stack_ok U L s' \<and> same_input s s'"
proof -
  obtain s1 s2 s3 where
    r1: "unless_free (\<lambda>s. do { s \<leftarrow> tcp_handle_closepend s; tcp_kill_timewait s }) s = Some s1" and
    r2: "unless_free (tcp_kill_state LAST_ACK) s1 = Some s2" and r3: "unless_free (tcp_kill_state CLOSING) s2 = Some s3" and
    r4: "unless_free (tcp_kill_prio pr) s3 = Some s'"
    using run by (auto simp: tcp_make_room_def bind_eq_Some_conv)
  have kill: "stack_ok U L t' \<and> same_input t t'" if "stack_ok U L t" "abandon_found f r t = Some t'" for t t' f r
    using abandon_found_ok [OF that] by blast
  have 1: "stack_ok U L s1 \<and> same_input s s1"
  proof (rule unless_free_ok [OF r1 ok])
    assume "do { s \<leftarrow> tcp_handle_closepend s; tcp_kill_timewait s } = Some s1"
    then obtain t where t: "tcp_handle_closepend s = Some t" "tcp_kill_timewait t = Some s1" by (auto simp: bind_eq_Some_conv)
    then obtain f where "abandon_found f True t = Some s1" by (auto simp: tcp_kill_timewait_def bind_eq_Some_conv)
    moreover have "stack_ok U L t \<and> same_input s t" using handle_closepend_ok [OF ok] t(1) by (simp add: tcp_handle_closepend_def)
    ultimately show "stack_ok U L s1 \<and> same_input s s1" using kill same_input_trans by blast
  qed
  have state: "stack_ok U L t' \<and> same_input t t'" if "unless_free (tcp_kill_state st) t = Some t'" "stack_ok U L t" for t t' st
  proof (rule unless_free_ok [OF that])
    assume "tcp_kill_state st t = Some t'"
    then obtain f where "abandon_found f False t = Some t'" by (auto simp: tcp_kill_state_def bind_eq_Some_conv)
    then show "stack_ok U L t' \<and> same_input t t'" using kill that(2) by blast
  qed
  have 2: "stack_ok U L s2 \<and> same_input s1 s2" using state [OF r2] 1 by blast
  have 3: "stack_ok U L s3 \<and> same_input s2 s3" using state [OF r3] 2 by blast
  have 4: "stack_ok U L s' \<and> same_input s3 s'"
  proof (rule unless_free_ok [OF r4])
    show "stack_ok U L s3" using 3 by blast
    assume "tcp_kill_prio pr s3 = Some s'"
    then have "s' = s3 \<or> (\<exists>f. abandon_found f True s3 = Some s')"
      by (auto simp: tcp_kill_prio_def Let_def bind_eq_Some_conv split: if_splits)
    then show "stack_ok U L s' \<and> same_input s3 s'" using kill 3 by (auto simp: same_input_def)
  qed
  show ?thesis using 1 2 3 4 same_input_trans by blast
qed

section \<open>New blocks\<close>

lemma place_new [simp]: "place (tcp_pcb_new pr n k) = (CLOSED, None, 0)"
  by (simp add: place_def tcp_pcb_new_def)

lemma tcp_alloc_ok:
  assumes ok: "stack_ok U L s" and run: "tcp_alloc pr s = Some (r, s')"
  shows "stack_ok U L s'" "same_input s s'" "r = Some x \<Longrightarrow> \<exists>p. pcbs s' x = Some p \<and> place p = (CLOSED, None, 0)"
proof -
  obtain t where t: "tcp_make_room pr s = Some t" using run by (auto simp: tcp_alloc_def bind_eq_Some_conv)
  note room = tcp_make_room_ok [OF ok t]
  have "stack_ok U L s' \<and> same_input s s' \<and> (r = Some x \<longrightarrow> (\<exists>p. pcbs s' x = Some p \<and> place p = (CLOSED, None, 0)))"
  proof (cases "pcb_pool t")
    case Nil
    then show ?thesis using run t room by (simp add: tcp_alloc_def)
  next
    case (Cons y ys)
    then have r: "r = Some y" "s' = (put_pcb y (tcp_pcb_new pr (tcp_ticks (st_env t)) (tcp_timer_ctr t)) t)\<lparr>pcb_pool := ys\<rparr>"
      using run t by (simp_all add: tcp_alloc_def)
    have "places s' = (places t)(y \<mapsto> (CLOSED, None, 0))"
      unfolding r(2) by (auto simp: places_def put_pcb_def fun_eq_iff)
    then have "stack_ok U L s'"
      using lists_ok_alloc [of U L "places t" y ys] room Cons by (simp add: stack_ok_def r(2))
    then show ?thesis using r room by (auto simp: same_input_def)
  qed
  then show "stack_ok U L s'" "same_input s s'" "r = Some x \<Longrightarrow> \<exists>p. pcbs s' x = Some p \<and> place p = (CLOSED, None, 0)" by blast+
qed

lemma tcp_new_ok:
  assumes ok: "stack_ok U L s" and run: "tcp_new_ip_type any s = Some (r, s')"
  shows "stack_ok U L s'" "same_input s s'"
proof -
  obtain r0 t where t: "tcp_alloc TCP_PRIO_NORMAL s = Some (r0, t)" using run by (auto simp: tcp_new_ip_type_def bind_eq_Some_conv)
  have "shape s' = shape t"
    using run t by (auto simp: tcp_new_ip_type_def bind_eq_Some_conv place_simps split: option.splits dest!: shape_upd)
  then show "stack_ok U L s'" "same_input s s'"
    using tcp_alloc_ok(1,2) [OF ok t] stack_ok_shape same_input_shape same_input_trans by blast+
qed

section \<open>Binding and connecting\<close>

lemma new_port_shape: "tcp_new_port s = Some (port, s') \<Longrightarrow> shape s' = shape s"
  by (auto simp: tcp_new_port_def bind_eq_Some_conv case_prod_beta)

lemma closed_place:
  assumes "stack_ok U L s" "pcbs s x = Some p" "state p = CLOSED" shows "place p = (CLOSED, None, local_port p)"
  using stack_ok_where(5) [OF assms(1,2)] assms(3) by (simp add: place_def)

lemma tcp_bind_ok:
  assumes ok: "stack_ok U L s" and run: "tcp_bind x ip port s = Some (err, s')" and unbound: "x \<notin> set (bound_pcbs s)"
  shows "stack_ok U L s'" "same_input s s'"
proof -
  obtain p where p: "pcbs s x = Some p" "state p = CLOSED" using run by (auto simp: tcp_bind_def bind_eq_Some_conv)
  have "shape s' = shape s \<or> (\<exists>t n f. shape t = shape s \<and> n \<noteq> 0 \<and> upd_pcb f x t \<noteq> None \<and> (\<forall>p. place (f p) = (state p, listener p, n)) \<and>
      s' = reg_bound x (the (upd_pcb f x t)))"
  proof -
    obtain ps where ps: "list_pcbs s (bound_pcbs s @ active_pcbs s @ tw_pcbs s) = Some ps"
      using run p by (auto simp: tcp_bind_def Let_def bind_eq_Some_conv)
    let ?ip = "if IP_IS_V6 ip then zoned s ip else ip"
    let ?f = "\<lambda>n pcb. (if \<not> ip_addr_isany ?ip \<or> \<not> same_type ?ip (local_ip pcb) then pcb\<lparr>local_ip := ?ip\<rparr> else pcb)\<lparr>local_port := n\<rparr>"
    have f: "place (?f n pcb) = (state pcb, listener pcb, n)" for n pcb by (simp add: place_def)
    show ?thesis
    proof (cases "err = ERR_USE \<and> s' = s")
      case False
      then obtain n t where t: "(if port = 0 then tcp_new_port s else Some (port, s)) = Some (n, t)"
          and rest: "(if n = 0 then Some (ERR_BUF, t) else do { s \<leftarrow> upd_pcb (?f n) x t; Some (ERR_OK, reg_bound x s) }) = Some (err, s')"
        using run p ps by (auto simp: tcp_bind_def Let_def bind_eq_Some_conv split: if_splits)
      have sh: "shape t = shape s" using t new_port_shape by (auto split: if_splits)
      show ?thesis
      proof (cases "n = 0")
        case True
        then show ?thesis using rest sh by simp
      next
        case False
        then obtain u where "upd_pcb (?f n) x t = Some u" "s' = reg_bound x u" using rest by (auto simp: bind_eq_Some_conv)
        then show ?thesis using sh False f by (intro disjI2 exI [of _ t] exI [of _ n] exI [of _ "?f n"]) simp
      qed
    qed simp
  qed
  then consider "shape s' = shape s" | t n f u where "shape t = shape s" "n \<noteq> 0" "upd_pcb f x t = Some u"
      "\<And>p. place (f p) = (state p, listener p, n)" "s' = reg_bound x u" by force
  then have "stack_ok U L s' \<and> same_input s s'"
  proof cases
    case 1
    then show ?thesis using stack_ok_shape [OF ok] same_input_shape by blast
  next
    case 2
    have okt: "stack_ok U L t" using ok 2(1) by (rule stack_ok_shape)
    obtain q where q: "pcbs t x = Some q" "place q = place p" using shape_place_Some [OF 2(1) p(1)] by blast
    have qc: "state q = CLOSED" using q(2) p(2) by (simp add: place_def)
    have u: "u = put_pcb x (f q) t" using 2(3) q(1) by (simp add: upd_pcb_def)
    have "places t x = Some (CLOSED, None, local_port q)" using places_Some [OF q(1)] closed_place [OF okt q(1) qc] by simp
    then have *: "lists_ok U L ((places t)(x \<mapsto> (CLOSED, None, n))) (pcb_pool t) (x # bound_pcbs t) (active_pcbs t) (tw_pcbs t)
        (map fst (listen_pcbs t)) (listen_pool t) (tcpip_tcp_timer_active t)"
      using lists_ok_bind [OF okt [unfolded stack_ok_def], of x None] unbound 2(2) shape_lists(4) [OF 2(1)] by simp
    moreover have "places u = (places t)(x \<mapsto> (CLOSED, None, n))"
      using 2(4) [of q] qc closed_place [OF okt q(1) qc] by (simp add: u places_put place_def)
    moreover have "places (reg_bound x u) = places u"
      by (simp add: reg_bound_def timer_needed_def places_def)
    moreover have "active_pcbs t \<noteq> [] \<or> tw_pcbs t \<noteq> [] \<Longrightarrow> tcpip_tcp_timer_active t" using okt by (auto simp: stack_ok_def lists_ok_def)
    ultimately have "stack_ok U L s'"
      by (auto simp: stack_ok_def 2(5) reg_bound_def timer_needed_def u)
    moreover have "same_input t s'" by (simp add: same_input_def 2(5) reg_bound_def timer_needed_def u)
    ultimately show ?thesis using same_input_shape [OF 2(1)] same_input_trans by blast
  qed
  then show "stack_ok U L s'" "same_input s s'" by blast+
qed

text \<open>A closed block that joins the active blocks.\<close>

lemma join_active_ok:
  assumes ok: "stack_ok U L s" and p: "pcbs s x = Some p" "state p = CLOSED" and "active_state (state q)"
    and "listener q = None \<or> the (listener q) \<in> fst ` set (listen_pcbs s)"
    and off: "t = put_pcb x q (if b then rmv_bound x s else s)" "b \<or> x \<notin> set (bound_pcbs s)"
  shows "stack_ok U L (TCP_REG_ACTIVE x t)" "same_input s (TCP_REG_ACTIVE x t)"
proof -
  have "places s x = Some (CLOSED, None, local_port p)" using places_Some [OF p(1)] closed_place [OF ok p] by simp
  then have "lists_ok U L ((places s)(x \<mapsto> (state q, listener q, local_port q))) (pcb_pool s) (remove1 x (bound_pcbs s))
      (x # active_pcbs s) (tw_pcbs s) (map fst (listen_pcbs s)) (listen_pool s) True"
    using lists_ok_join [OF ok [unfolded stack_ok_def], of x None] assms(4,5) by simp
  moreover have "bound_pcbs t = remove1 x (bound_pcbs s)" using off by (auto simp: rmv_bound_def remove1_idem)
  moreover have "places (TCP_REG_ACTIVE x t) = (places s)(x \<mapsto> place q)"
    unfolding off(1) by (auto simp: places_def TCP_REG_ACTIVE_def timer_needed_def put_pcb_def rmv_bound_def)
  ultimately show "stack_ok U L (TCP_REG_ACTIVE x t)"
    by (simp add: stack_ok_def TCP_REG_ACTIVE_def timer_needed_def place_def off(1)) (simp add: rmv_bound_def split: if_splits)
  show "same_input s (TCP_REG_ACTIVE x t)"
    by (simp add: same_input_def off(1) TCP_REG_ACTIVE_def timer_needed_def rmv_bound_def)
qed

text \<open>A closed block that gets a port without being bound, as \<^verbatim>\<open>tcp_connect\<close> does.\<close>

lemma set_port_ok:
  assumes ok: "stack_ok U L s" and p: "pcbs s x = Some p" "state p = CLOSED" and "local_port p = 0 \<or> n = local_port p"
    and "place q = (CLOSED, None, n)"
  shows "stack_ok U L (put_pcb x q s)"
proof -
  have "places s x = Some (CLOSED, None, local_port p)" using places_Some [OF p(1)] closed_place [OF ok p] by simp
  then show ?thesis using lists_ok_closed [OF ok [unfolded stack_ok_def], of x None "local_port p" n] assms(4,5)
    by (simp add: stack_ok_def places_put)
qed

lemma tcp_next_iss_shape [simp]: "tcp_next_iss s = (iss, s') \<Longrightarrow> shape s' = shape s \<and> pcbs s' = pcbs s"
  by (auto simp: tcp_next_iss_def Let_def)

lemma tcp_connect_ok:
  assumes ok: "stack_ok U L s" and run: "tcp_connect x ip port s = Some (err, s')"
  shows "stack_ok U L s'" "same_input s s'"
proof -
  obtain p0 where p0: "pcbs s x = Some p0" "state p0 = CLOSED" using run by (auto simp: tcp_connect_def bind_eq_Some_conv)
  define p1 where "p1 = p0\<lparr>remote_ip := ip, remote_port := port\<rparr>"
  define E where "E = st_env s"
  have p1: "place p1 = place p0" by (simp add: p1_def place_simps)
  have simple: "stack_ok U L s' \<and> same_input s s'" if "shape s' = shape s"
    using stack_ok_shape [OF ok that] same_input_shape [OF that] by blast
  have put1: "shape (put_pcb x q s) = shape s" if "place q = place p0" for q using shape_put [OF p0(1) that] .
  define nif where "nif = (if netif_idx p1 \<noteq> 0 then netif_get_by_index E (netif_idx p1)
    else ip_route E (local_ip p1) (remote_ip p1))"
  have closed: "lwip_assert (state p0 = CLOSED) = Some ()" using p0(2) by (simp add: lwip_assert_def)
  note body = run [unfolded tcp_connect_def p0(1) bind.bind_lunit closed Let_def, folded E_def, folded p1_def, folded nif_def]
  have "stack_ok U L s' \<and> same_input s s'"
  proof (cases nif)
    case None
    then have "s' = put_pcb x p1 s" using body by simp
    then show ?thesis using simple put1 p1 by simp
  next
    case nif: (Some netif)
    define lip where "lip = (if ip_addr_isany (local_ip p1) then nif_local_ip netif ip else Some (local_ip p1))"
    note body = body [unfolded nif option.case, folded lip_def]
    show ?thesis
    proof (cases lip)
      case None
      then have "s' = put_pcb x p1 s" using body by simp
      then show ?thesis using simple put1 p1 by simp
    next
      case lip: (Some l)
      define p2 where "p2 = p1\<lparr>local_ip := l, remote_ip := (if IP_IS_V6 ip then zoned s ip else ip)\<rparr>"
      have p2: "place p2 = place p0" "local_port p2 = local_port p0" using p1 by (simp_all add: p2_def place_simps p1_def)
      define s2 where "s2 = put_pcb x p2 s"
      note body = body [unfolded lip option.case, folded p2_def, folded s2_def]
      have sh2: "shape s2 = shape s" using put1 p2 by (simp add: s2_def)
      obtain n s3 where s3: "(if local_port p2 = 0 then tcp_new_port s2 else Some (local_port p2, s2)) = Some (n, s3)"
        using body by (auto simp: bind_eq_Some_conv)
      have sh3: "shape s3 = shape s" using s3 sh2 new_port_shape by (auto split: if_splits)
      have n: "local_port p0 = 0 \<or> n = local_port p0" using s3 p2(2) by (auto split: if_splits)
      obtain p3 where p3: "pcbs s3 x = Some p3" "place p3 = place p0" using shape_place_Some [OF sh3 p0(1)] by blast
      define s4 where "s4 = put_pcb x (p3\<lparr>local_port := n\<rparr>) s3"
      have rest: "(if n = 0 then Some (ERR_BUF, s4)
         else do {
           let (iss, s) = tcp_next_iss s4;
           s \<leftarrow> upd_pcb (\<lambda>pcb. pcb\<lparr>rcv_nxt := 0, snd_nxt := iss, lastack := iss - 1, snd_wl2 := iss - 1, snd_lbb := iss - 1,
              rcv_wnd := TCP_WND, rcv_ann_wnd := TCP_WND, rcv_ann_right_edge := 0, snd_wnd := TCP_WND,
              mss := tcp_eff_send_mss_netif INITIAL_MSS (Some netif) (remote_ip pcb) E, cwnd := 1\<rparr>) x s;
           (err, s) \<leftarrow> on_pcb (\<lambda>pcb. tcp_enqueue_flags pcb TCP_SYN) x s;
           if err = ERR_OK
           then do {
             s \<leftarrow> upd_pcb (\<lambda>pcb. pcb\<lparr>state := SYN_SENT\<rparr>) x s;
             let s = (if local_port p2 \<noteq> 0 then rmv_bound x s else s);
             (_, s) \<leftarrow> output_pcb x (TCP_REG_ACTIVE x s);
             Some (err, s)
           }
           else Some (err, s)
         }) = Some (err, s')"
        using body unfolding s3 bind.bind_lunit prod.case upd_pcb_def p3(1) s4_def Let_def by simp
      have ok3: "stack_ok U L s3" using ok sh3 by (rule stack_ok_shape)
      have c3: "state p3 = CLOSED" "local_port p3 = local_port p0" using p3(2) p0(2) by (simp_all add: place_def)
      have place4: "place (p3\<lparr>local_port := n\<rparr>) = (CLOSED, None, n)" using closed_place [OF ok3 p3(1) c3(1)] by (simp add: place_def)
      have ok4: "stack_ok U L s4" unfolding s4_def by (rule set_port_ok [OF ok3 p3(1) c3(1) _ place4]) (use n c3 in simp)
      have in4: "same_input s s4" using same_input_shape [OF sh3] by (simp add: s4_def same_input_def)
      show ?thesis
      proof (cases "n = 0")
        case True
        then show ?thesis using rest ok4 in4 by simp
      next
        case False
        obtain iss s5 where iss: "tcp_next_iss s4 = (iss, s5)" by fastforce
        obtain s6 where s6: "upd_pcb (\<lambda>pcb. pcb\<lparr>rcv_nxt := 0, snd_nxt := iss, lastack := iss - 1, snd_wl2 := iss - 1, snd_lbb := iss - 1,
              rcv_wnd := TCP_WND, rcv_ann_wnd := TCP_WND, rcv_ann_right_edge := 0, snd_wnd := TCP_WND,
              mss := tcp_eff_send_mss_netif INITIAL_MSS (Some netif) (remote_ip pcb) E, cwnd := 1\<rparr>) x s5 = Some s6"
          using rest False iss by (auto simp: bind_eq_Some_conv)
        obtain err7 s7 where s7: "on_pcb (\<lambda>pcb. tcp_enqueue_flags pcb TCP_SYN) x s6 = Some (err7, s7)"
            and rest7: "(if err7 = ERR_OK
             then do {
               s \<leftarrow> upd_pcb (\<lambda>pcb. pcb\<lparr>state := SYN_SENT\<rparr>) x s7;
               let s = (if local_port p2 \<noteq> 0 then rmv_bound x s else s);
               (_, s) \<leftarrow> output_pcb x (TCP_REG_ACTIVE x s);
               Some (err7, s)
             }
             else Some (err7, s7)) = Some (err, s')"
          using rest False iss s6 by (auto simp: bind_eq_Some_conv)
        have sh6: "shape s6 = shape s5" by (rule shape_upd [OF s6]) (simp add: place_simps)
        have sh7: "shape s7 = shape s6" by (rule shape_on [OF s7]) (rule place_enqueue_flags)
        have sh: "shape s7 = shape s4" using sh6 sh7 iss by simp
        have ok7: "stack_ok U L s7" using ok4 sh by (rule stack_ok_shape)
        have in7: "same_input s s7" using in4 same_input_shape [OF sh] by (rule same_input_trans)
        show ?thesis
        proof (cases "err7 = ERR_OK")
          case False
          then show ?thesis using rest7 ok7 in7 by simp
        next
          case True
          obtain p7 where p7: "pcbs s7 x = Some p7" "place p7 = (CLOSED, None, n)"
            using shape_place_Some [OF sh, of x] place4 by (auto simp: s4_def)
          define q where "q = p7\<lparr>state := SYN_SENT\<rparr>"
          let ?t = "put_pcb x q (if local_port p2 \<noteq> 0 then rmv_bound x s7 else s7)"
          have t: "(if local_port p2 \<noteq> 0 then rmv_bound x (put_pcb x q s7) else put_pcb x q s7) = ?t"
            by (simp add: rmv_bound_def put_pcb_def)
          obtain e where out: "output_pcb x (TCP_REG_ACTIVE x ?t) = Some (e, s')"
            using rest7 True p7(1) by (auto simp: upd_pcb_def q_def [symmetric] t bind_eq_Some_conv Let_def)
          have bound: "local_port p2 \<noteq> 0 \<or> x \<notin> set (bound_pcbs s7)"
            using stack_ok_where(1) [OF ok p0(1)] p2(2) shape_lists(4) [OF sh] shape_lists(4) [OF sh3] by (auto simp: s4_def)
          have c7: "state p7 = CLOSED" "listener p7 = None" using p7(2) by (simp_all add: place_def)
          have "stack_ok U L (TCP_REG_ACTIVE x ?t)" "same_input s7 (TCP_REG_ACTIVE x ?t)"
            by (rule join_active_ok [OF ok7 p7(1) c7(1) _ _ refl bound]; simp add: q_def c7)+
          then show ?thesis using stack_ok_shape [OF _ shape_output [OF out]] same_input_shape [OF shape_output [OF out]] in7
              same_input_trans by blast
        qed
      qed
    qed
  qed
  then show "stack_ok U L s'" "same_input s s'" by blast+
qed

section \<open>Listening\<close>

lemma lists_ok_listen:
  assumes "lists_ok U L P pool bound active tw lids (l # lpool) timer"
  shows "lists_ok U L P pool bound active tw (l # lids) lpool timer"
proof -
  have "place_ok L active tw (l # lids) x v" if "place_ok L active tw lids x v" for x v using that by (auto simp: place_ok_def)
  then show ?thesis using assms unfolding lists_ok_def by auto
qed

definition forget :: "nat \<Rightarrow> place \<Rightarrow> place" where
  "forget l v = (fst v, if fst (snd v) = Some l then None else fst (snd v), snd (snd v))"

lemma lists_ok_unlisten:
  assumes ok: "lists_ok U L P pool bound active tw lids lpool timer" and l: "l \<in> set lids"
  shows "lists_ok U L (\<lambda>x. map_option (forget l) (P x)) pool bound active tw (filter (\<lambda>m. m \<noteq> l) lids) (l # lpool) timer"
proof -
  let ?P = "\<lambda>x. map_option (forget l) (P x)"
  note ok' = ok [unfolded lists_ok_def]
  have dom: "dom ?P = dom P" by (auto simp: dom_def)
  have place: "place_ok L active tw (filter (\<lambda>m. m \<noteq> l) lids) x v" if P': "?P x = Some v" for x v
  proof -
    obtain w where w: "P x = Some w" "v = forget l w" using P' by auto
    then have "place_ok L active tw lids x w" using ok' by blast
    then show ?thesis by (auto simp: w(2) place_ok_def forget_def)
  qed
  have "distinct (filter (\<lambda>m. m \<noteq> l) lids @ l # lpool)" using ok' l by auto
  moreover have "\<forall>x \<in> set bound. \<exists>v. ?P x = Some v \<and> fst v = CLOSED \<and> snd (snd v) \<noteq> 0"
    "\<forall>x \<in> set active. \<exists>v. ?P x = Some v \<and> active_state (fst v)" "\<forall>x \<in> set tw. \<exists>v. ?P x = Some v \<and> fst v = TIME_WAIT"
    using ok' by (fastforce simp: forget_def)+
  ultimately show ?thesis unfolding lists_ok_def dom using ok' place by blast
qed

lemma tcp_listen_ok:
  assumes ok: "stack_ok U L s" and run: "tcp_listen_with_backlog_and_err x s = Some (r, err, s')"
  shows "stack_ok U L s'" "tcp_input_pcb s' = tcp_input_pcb s"
proof -
  obtain p where p: "pcbs s x = Some p" "state p = CLOSED" using run by (auto simp: tcp_listen_with_backlog_and_err_def bind_eq_Some_conv)
  have "stack_ok U L s' \<and> tcp_input_pcb s' = tcp_input_pcb s"
  proof (cases "listen_pool s")
    case Nil
    then show ?thesis using run p ok by (simp add: tcp_listen_with_backlog_and_err_def)
  next
    case (Cons l ls)
    then obtain t lpcb where t: "tcp_free x (if local_port p \<noteq> 0 then rmv_bound x s else s) = Some t"
        and s': "s' = timer_needed (t\<lparr>listen_pool := ls, listen_pcbs := (l, lpcb) # listen_pcbs s\<rparr>)"
    proof -
      obtain t where t: "tcp_free x (if local_port p \<noteq> 0 then rmv_bound x s else s) = Some t"
        using run p Cons by (auto simp: tcp_listen_with_backlog_and_err_def Let_def bind_eq_Some_conv)
      then have "t = free_pcb x (if local_port p \<noteq> 0 then rmv_bound x s else s)" using tcp_free_eq by blast
      then have "listen_pcbs t = listen_pcbs s" by (simp add: free_pcb_def rmv_bound_def)
      then show ?thesis using run p Cons t that by (auto simp: tcp_listen_with_backlog_and_err_def Let_def)
    qed
    have g: "t = gone x s" using tcp_free_eq t gone_cases(3) [OF ok p] by simp
    have okt: "stack_ok U L t" "same_input s t" using gone_weak(2) [OF ok p(1), of t] same_input_gone g by auto
    have lt: "listen_pcbs t = listen_pcbs s" "listen_pool t = l # ls"
      using Cons by (simp_all add: g gone_def free_pcb_def rmv_tw_def rmv_active_def rmv_bound_def)
    have "lists_ok U L (places t) (pcb_pool t) (bound_pcbs t) (active_pcbs t) (tw_pcbs t) (l # map fst (listen_pcbs t)) ls
        (tcpip_tcp_timer_active t)"
      using okt(1) unfolding stack_ok_def lt(2) by (rule lists_ok_listen)
    moreover have "active_pcbs t \<noteq> [] \<or> tw_pcbs t \<noteq> [] \<Longrightarrow> tcpip_tcp_timer_active t"
      using okt(1) by (auto simp: stack_ok_def lists_ok_def)
    moreover have "places s' = places t" by (simp add: s' timer_needed_def places_def)
    ultimately have "stack_ok U L s'" by (auto simp: stack_ok_def s' timer_needed_def lt(1))
    then show ?thesis using okt(2) by (simp add: same_input_def s' timer_needed_def)
  qed
  then show "stack_ok U L s'" "tcp_input_pcb s' = tcp_input_pcb s" by blast+
qed

lemma tcp_accept_ok: "stack_ok U L s \<Longrightarrow> stack_ok U L (tcp_accept l b s)" "same_input s (tcp_accept l b s)"
proof -
  have lids: "map fst (listen_pcbs (tcp_accept l b s)) = map fst (listen_pcbs s)" by (auto simp: tcp_accept_def)
  have "places (tcp_accept l b s) = places s" by (simp add: places_def tcp_accept_def)
  then show "stack_ok U L s \<Longrightarrow> stack_ok U L (tcp_accept l b s)" using lids by (simp add: stack_ok_def) (simp add: tcp_accept_def)
  show "same_input s (tcp_accept l b s)" using lids by (simp add: same_input_def) (simp add: tcp_accept_def)
qed

lemma tcp_close_listen_ok:
  assumes ok: "stack_ok U {} s" and run: "tcp_close_listen l s = Some s'"
  shows "stack_ok U {} s'" "tcp_input_pcb s' = tcp_input_pcb s"
proof -
  have l: "l \<in> set (map fst (listen_pcbs s))" using run by (auto simp: tcp_close_listen_def bind_eq_Some_conv lwip_assert_def split: if_splits)
  have s': "s' = (tcp_listen_closed l s)\<lparr>listen_pcbs := filter (\<lambda>(m, _). m \<noteq> l) (listen_pcbs s), listen_pool := l # listen_pool s\<rparr>"
    using run l by (simp add: tcp_close_listen_def) (auto simp: tcp_listen_closed_def)
  have places: "places s' = (\<lambda>x. map_option (forget l) (places s x))"
  proof
    fix x
    show "places s' x = map_option (forget l) (places s x)"
    proof (cases "pcbs s x")
      case None
      then show ?thesis by (simp add: s' places_def tcp_listen_closed_def)
    next
      case (Some p)
      show ?thesis
      proof (cases "x \<in> set (bound_pcbs s) \<union> set (active_pcbs s) \<union> set (tw_pcbs s)")
        case True
        then show ?thesis using Some by (simp add: s' places_def tcp_listen_closed_def place_def forget_def)
      next
        case False
        then have "listener p = None" using stack_ok_where(4,5) [OF ok Some] by auto
        then show ?thesis using False Some by (simp add: s' places_def tcp_listen_closed_def place_def forget_def)
      qed
    qed
  qed
  have "map fst (filter (\<lambda>(m, _). m \<noteq> l) xs) = filter (\<lambda>m. m \<noteq> l) (map fst xs)" for xs :: "(nat \<times> tcp_pcb_listen) list"
    by (induction xs) auto
  note kept = this [of "listen_pcbs s"]
  then show "stack_ok U {} s'"
    using lists_ok_unlisten [OF ok [unfolded stack_ok_def] l] by (simp add: stack_ok_def places) (simp add: s' tcp_listen_closed_def kept)
  show "tcp_input_pcb s' = tcp_input_pcb s" by (simp add: s' tcp_listen_closed_def)
qed

end
