(* ===== verification/Tcp_Segments.thy ===== *)
theory Tcp_Segments
  imports Tcp_Calls
begin

text \<open>
  The invariant of the lists and the segments that arrive, the callbacks of the application and the timers. It also shows
  which changes of state a segment can cause.
\<close>

section \<open>Callbacks\<close>

text \<open>A callback leaves the lists alone, or it has aborted the connection.\<close>

definition told :: "pcb_id set \<Rightarrow> pcb_id \<Rightarrow> err_t \<Rightarrow> tcp_stack \<Rightarrow> tcp_stack \<Rightarrow> bool" where
  "told U x err s s' \<longleftrightarrow>
     same_input s s' \<and> (if err = ERR_ABRT then stack_ok U {} s \<longrightarrow> stack_ok U {} s' \<and> pcbs s' x = None else shape s' = shape s)"

lemma told_shape: "shape s' = shape s \<Longrightarrow> err \<noteq> ERR_ABRT \<Longrightarrow> told U x err s s'"
  by (simp add: told_def same_input_shape)

lemma abort_told:
  assumes "stack_ok U {} s" and "tcp_abort x s = Some s'" shows "stack_ok U {} s'" "pcbs s' x = None" "same_input s s'"
proof -
  have run: "tcp_abandon x True s = Some s'" using assms(2) by (simp add: tcp_abort_def)
  show "stack_ok U {} s'" "pcbs s' x = None" using tcp_abandon_ok(1,2) [OF assms(1) run] by simp_all
  show "same_input s s'" using tcp_abandon_gone(1) [OF assms(1) run] by (rule same_input_gone)
qed

lemma callback_told:
  assumes ok: "stack_ok U {} s" and run: "callback ev x s = Some (err, s')" shows "told U x err s s'"
proof (cases "answer s (events s) ev = ERR_ABRT")
  case True
  then have e: "err = ERR_ABRT" and ab: "tcp_abort x (s\<lparr>events := events s @ [ev]\<rparr>) = Some s'"
    using run by (auto simp: callback_def Let_def bind_eq_Some_conv)
  have "stack_ok U {} (s\<lparr>events := events s @ [ev]\<rparr>)" using ok shape_frame(2) by (rule stack_ok_shape)
  from abort_told [OF this ab] show ?thesis by (simp add: told_def e same_input_def)
next
  case False
  then show ?thesis using run by (auto simp: callback_def Let_def intro!: told_shape)
qed

lemma recv_told:
  assumes ok: "stack_ok U {} s" and run: "TCP_EVENT_RECV x d s = Some (err, s')" shows "told U x err s s'"
proof -
  obtain p where p: "pcbs s x = Some p" using run by (auto simp: TCP_EVENT_RECV_def bind_eq_Some_conv)
  show ?thesis
  proof (cases "callbacks p = Cb_stream")
    case True
    then show ?thesis using run p callback_told [OF ok] by (auto simp: TCP_EVENT_RECV_def)
  next
    case False
    have "shape s' = shape s \<and> err \<noteq> ERR_ABRT"
      using run p False by (cases "callbacks p") (auto simp: TCP_EVENT_RECV_def bind_eq_Some_conv intro: shape_recved)
    then show ?thesis by (simp add: told_shape)
  qed
qed

lemma sent_told:
  assumes ok: "stack_ok U {} s" and run: "TCP_EVENT_SENT x n s = Some (err, s')" shows "told U x err s s'"
proof -
  obtain p where p: "pcbs s x = Some p" using run by (auto simp: TCP_EVENT_SENT_def bind_eq_Some_conv)
  show ?thesis
  proof (cases "callbacks p = Cb_stream")
    case True
    then show ?thesis using run p callback_told [OF ok] by (auto simp: TCP_EVENT_SENT_def)
  next
    case False
    then have "shape s' = shape s \<and> err \<noteq> ERR_ABRT" using run p by (auto simp: TCP_EVENT_SENT_def)
    then show ?thesis by (simp add: told_shape)
  qed
qed

lemma accept_told:
  assumes ok: "stack_ok U {} s" and run: "TCP_EVENT_ACCEPT lp x s = Some (err, s')" shows "told U x err s s'"
proof (cases "l_accept lp")
  case True
  then obtain t where t: "upd_pcb TcpStream_new x s = Some t" "callback (Ev_accept x) x t = Some (err, s')"
    using run by (auto simp: TCP_EVENT_ACCEPT_def bind_eq_Some_conv)
  have sh: "shape t = shape s" by (rule shape_upd [OF t(1)]) (simp add: place_simps)
  have "stack_ok U {} t" using ok sh by (rule stack_ok_shape)
  then have "told U x err t s'" using t(2) by (rule callback_told)
  then show ?thesis using sh same_input_shape [OF sh] same_input_trans [of s t s'] shape_ok [OF sh] by (auto simp: told_def split: if_splits)
next
  case False
  then show ?thesis using run abort_told [OF ok] by (auto simp: TCP_EVENT_ACCEPT_def told_def bind_eq_Some_conv)
qed

text \<open>The end of the data may close the block, when no application is there.\<close>

lemma close_loose:
  assumes ok: "stack_ok U L s" and run: "tcp_close x s = Some (err, s')" and "\<not> input_close s" "loose x s'"
  shows "err = ERR_OK"
proof (rule ccontr)
  assume err: "err \<noteq> ERR_OK"
  obtain s1 where s1: "upd_pcb (tcp_set_flags TF_RXCLOSED) x s = Some s1" "tcp_close_shutdown x True s1 = Some (err, s')"
    using run by (auto simp: tcp_close_def bind_eq_Some_conv)
  have sh: "shape s1 = shape s" using shape_upd [OF s1(1)] by (simp add: place_simps)
  have "tcp_close_shutdown_fin x s1 = Some (err, s')"
    using s1(2) err by (auto simp: tcp_close_shutdown_def Let_def bind_eq_Some_conv split: if_splits tcp_state.splits)
  from close_shutdown_fin_ok(2) [OF stack_ok_shape [OF ok sh] this] show False
    using same_input_shape [OF sh] assms(3,4) by (simp add: same_input_def loose_def)
qed

lemma closed_told:
  assumes ok: "stack_ok U {} s" and run: "TCP_EVENT_CLOSED x s = Some (err, s')"
  shows "stack_ok U {} s' \<and> same_input s s' \<or>
    tcp_input_pcb s = Some x \<and> loose x s' \<and> stack_ok U {x} s' \<and> (input_close s \<or> err = ERR_OK)"
proof -
  obtain p where p: "pcbs s x = Some p" using run by (auto simp: TCP_EVENT_CLOSED_def bind_eq_Some_conv)
  show ?thesis
  proof (cases "callbacks p")
    case Cb_initial
    then have "tcp_close x s = Some (err, s')" using run p by (simp add: TCP_EVENT_CLOSED_def)
    from close_ok [OF ok this] close_loose [OF ok this] show ?thesis by blast
  next
    case Cb_stream
    then have "callback (Ev_closed x) x s = Some (err, s')" using run p by (simp add: TCP_EVENT_CLOSED_def)
    from callback_told [OF ok this] show ?thesis
      using ok stack_ok_shape [OF ok, of s'] by (auto simp: told_def split: if_splits)
  next
    case Cb_cleared
    then show ?thesis using run p ok by (simp add: TCP_EVENT_CLOSED_def same_input_def)
  qed
qed

lemma told_ok: "told U x err s s' \<Longrightarrow> stack_ok U {} s \<Longrightarrow> stack_ok U {} s' \<and> same_input s s'"
  using stack_ok_shape [of U "{}" s s'] by (auto simp: told_def split: if_splits)

text \<open>Data that was refused, outside of a segment's handling.\<close>

lemma refused_ok:
  assumes ok: "stack_ok U {} s" and run: "tcp_process_refused_data x s = Some (err, s')" and idle: "tcp_input_pcb s = None"
  shows "stack_ok U {} s'" "same_input s s'"
proof -
  obtain p d where p: "pcbs s x = Some p" "refused_data p = Some d"
    using run by (auto simp: tcp_process_refused_data_def bind_eq_Some_conv split: option.splits)
  let ?s = "put_pcb x (p\<lparr>refused_data := None\<rparr>) s"
  have sh0: "shape ?s = shape s" using shape_put [OF p(1)] by (simp add: place_simps)
  have ok0: "stack_ok U {} ?s" using ok sh0 by (rule stack_ok_shape)
  obtain err1 s1 where s1: "TCP_EVENT_RECV x d ?s = Some (err1, s1)"
      and rest: "(if err1 = ERR_OK
         then if refused_fin p
              then do {
                s \<leftarrow> upd_pcb rcv_wnd_fin x s1;
                (err, s) \<leftarrow> TCP_EVENT_CLOSED x s;
                if err = ERR_ABRT then Some (ERR_ABRT, s) else Some (ERR_OK, s)
              }
              else Some (ERR_OK, s1)
         else if err1 = ERR_ABRT then Some (ERR_ABRT, s1)
         else do { s \<leftarrow> upd_pcb (\<lambda>pcb. pcb\<lparr>refused_data := Some d\<rparr>) x s1; Some (ERR_INPROGRESS, s) }) = Some (err, s')"
    using run p by (auto simp: tcp_process_refused_data_def Let_def bind_eq_Some_conv)
  have 1: "stack_ok U {} s1" "same_input s s1"
    using told_ok [OF recv_told [OF ok0 s1] ok0] same_input_shape [OF sh0] same_input_trans by blast+
  have set: "stack_ok U {} t \<and> same_input s t" if "upd_pcb f x s1 = Some t" "\<And>p. place (f p) = place p" for f t
    using stack_ok_shape [OF 1(1) shape_upd [OF that]] same_input_trans [OF 1(2) same_input_shape [OF shape_upd [OF that]]] by blast
  have "stack_ok U {} s' \<and> same_input s s'"
  proof (cases "err1 = ERR_OK \<and> refused_fin p")
    case True
    then obtain t err2 where t: "upd_pcb rcv_wnd_fin x s1 = Some t" "TCP_EVENT_CLOSED x t = Some (err2, s')"
      using rest by (auto simp: bind_eq_Some_conv split: if_splits)
    have "stack_ok U {} t \<and> same_input s t" using t(1) by (rule set) (simp add: place_simps)
    then show ?thesis using closed_told [OF _ t(2)] idle same_input_trans by (auto simp: same_input_def)
  next
    case False
    then show ?thesis using rest 1 set by (auto simp: bind_eq_Some_conv place_simps split: if_splits)
  qed
  then show "stack_ok U {} s'" "same_input s s'" by blast+
qed

end
