(* ===== verification/Tcp_Machine.thy ===== *)
theory Tcp_Machine
  imports Tcp_Segments
begin

text \<open>
  The state machine: which states a segment can move a connection to, and that \<^verbatim>\<open>tcp_process\<close> keeps the invariant of
  the lists.
\<close>

section \<open>What \<^verbatim>\<open>tcp_receive\<close> says of the segment\<close>

text \<open>The flags of the header stay, and of the flags for the application only \<^verbatim>\<open>TF_GOT_FIN\<close> may be added.\<close>

definition flags_kept :: "tcp_in \<Rightarrow> tcp_in \<Rightarrow> bool" where
  "flags_kept i i' \<longleftrightarrow>
     i_flags i' = i_flags i \<and> (recv_flags i' = recv_flags i \<or> recv_flags i' = recv_flags i OR TF_GOT_FIN)"

lemma flags_kept_trans: "flags_kept i j \<Longrightarrow> flags_kept j k \<Longrightarrow> flags_kept i k"
  by (auto simp: flags_kept_def or.assoc)

lemma flags_kept_same: "i_flags i' = i_flags i \<Longrightarrow> recv_flags i' = recv_flags i \<Longrightarrow> flags_kept i i'"
  by (simp add: flags_kept_def)

lemma flags_kept_refl [simp]: "flags_kept i i"
  by (simp add: flags_kept_def)

lemma kept_set_tcplen [simp]: "i_flags (set_tcplen i) = i_flags i" "recv_flags (set_tcplen i) = recv_flags i"
  by (simp_all add: set_tcplen_def)

lemma kept_got_fin: "flags_kept i (rcv_got_fin s i)"
  by (simp add: flags_kept_def rcv_got_fin_def)

lemma kept_pass_data: "flags_kept i (rcv_pass_data p i)"
  by (simp add: flags_kept_def rcv_pass_data_def)

lemma kept_trim_front: "rcv_trim_front p i = Some (p', i') \<Longrightarrow> flags_kept i i'"
  by (auto simp: rcv_trim_front_def Let_def bind_eq_Some_conv intro!: flags_kept_same split: if_splits)

lemma kept_trim_window: "rcv_trim_window p i = Some i' \<Longrightarrow> flags_kept i i'"
  by (auto simp: rcv_trim_window_def Let_def intro!: flags_kept_same split: if_splits)

lemma kept_covered: "rcv_covered i ns e = (i', ns', e') \<Longrightarrow> flags_kept i i'"
proof (induction i ns e rule: rcv_covered.induct)
  case (2 i nxt ns e)
  then show ?case
    by (auto simp: Let_def flags_kept_def split: if_splits)
qed simp

lemma kept_trim_overlap: "rcv_trim_overlap i ns = Some i' \<Longrightarrow> flags_kept i i'"
  by (auto simp: rcv_trim_overlap_def Let_def intro!: flags_kept_same split: list.splits if_splits)

lemma kept_adjust: "rcv_adjust_ooseq p i e = Some (p', i', e') \<Longrightarrow> flags_kept i i'"
  by (auto simp: rcv_adjust_ooseq_def Let_def bind_eq_Some_conv dest!: kept_covered kept_trim_overlap intro: flags_kept_trans
      split: prod.splits if_splits)

lemma kept_dequeue: "rcv_dequeue cs p i e = Some (p', i', e') \<Longrightarrow> flags_kept i i'"
proof (induction cs arbitrary: p i e)
  case (Cons c cs)
  show ?case
  proof (cases "seqno c = rcv_nxt p")
    case True
    let ?i = "i\<lparr>i_seqno := seqno c\<rparr>"
    obtain q f where "rcv_dequeue cs q (rcv_got_fin c (rcv_pass_data (seg_p c) ?i)) f = Some (p', i', e')"
      using True Cons.prems by (auto simp: Let_def bind_eq_Some_conv)
    from Cons.IH [OF this] have "flags_kept ?i i'" using kept_pass_data kept_got_fin flags_kept_trans by blast
    then show ?thesis by (simp add: flags_kept_def)
  qed (use Cons.prems in auto)
qed simp

lemma kept_in_sequence:
  assumes "rcv_in_sequence p i e = Some (p', i', e')" shows "flags_kept i i'"
proof -
  obtain i1 where i1: "rcv_trim_window p i = Some i1"
    using assms unfolding rcv_in_sequence_def by - (erule bind_SomeE, rule that)
  obtain q1 i2 e1 where adjust: "rcv_adjust_ooseq p i1 e = Some (q1, i2, e1)"
    using assms unfolding rcv_in_sequence_def i1 bind.bind_lunit by - (erule bind_SomeE, metis prod.exhaust that)
  obtain q2 where advance: "rcv_advance (ucast (tcplen i2)) (q1\<lparr>rcv_nxt := i_seqno i2\<rparr>) = Some q2"
    using assms unfolding rcv_in_sequence_def i1 adjust bind.bind_lunit prod.case by - (erule bind_SomeE, rule that)
  define i3 where "i3 = (if tot_len (seg_p (inseg i2)) > 0 then i2\<lparr>recv_data := Some (seg_p (inseg i2))\<rparr> else i2)"
  define i4 where "i4 = rcv_got_fin (inseg i3) i3"
  have "do { (pcb, i, e) \<leftarrow> rcv_dequeue (ooseq q2) q2 i4 e1; Some (tcp_ack pcb, i, e) } = Some (p', i', e')"
    using assms by (simp only: rcv_in_sequence_def i1 adjust advance bind.bind_lunit prod.case Let_def i3_def i4_def)
  then obtain q3 where dequeue: "rcv_dequeue (ooseq q2) q2 i4 e1 = Some (q3, i', e')" by (auto simp: bind_eq_Some_conv)
  have "flags_kept i2 i3" by (simp add: i3_def flags_kept_def)
  then show ?thesis
    using kept_trim_window [OF i1] kept_adjust [OF adjust] kept_got_fin [of i3] kept_dequeue [OF dequeue] flags_kept_trans
    unfolding i4_def by meson
qed

lemma kept_append: "oos_append p nxt i e = Some (q, i', e') \<Longrightarrow> flags_kept i i'"
  by (auto simp: oos_append_def Let_def intro!: flags_kept_same split: option.splits if_splits)

lemma kept_walk: "oos_walk p i prev ns e = Some (q, i', e') \<Longrightarrow> flags_kept i i'"
proof (induction p i prev ns e arbitrary: q i' e' rule: oos_walk.induct)
  case (2 p i prev nxt ns e)
  then show ?case
    by (auto simp: Let_def bind_eq_Some_conv dest!: kept_append split: if_splits option.splits prod.splits)
qed (auto split: option.splits)

lemma kept_out_of_sequence: "rcv_out_of_sequence p i e = Some (p', i', e') \<Longrightarrow> flags_kept i i'"
  by (auto simp: rcv_out_of_sequence_def bind_eq_Some_conv case_prod_beta dest!: kept_walk split: if_splits option.splits)

lemma kept_receive_ack: "tcp_receive_ack p i e = Some (p', i', e') \<Longrightarrow> flags_kept i i'"
  by (auto simp: tcp_receive_ack_def ack_new_data_def Let_def bind_eq_Some_conv intro!: flags_kept_same split: prod.splits if_splits)

lemma kept_receive_data: "tcp_receive_data p i e = Some (p', i', e') \<Longrightarrow> flags_kept i i'"
  by (auto simp: tcp_receive_data_def rcv_in_window_def Let_def bind_eq_Some_conv
      dest!: kept_trim_front kept_in_sequence kept_out_of_sequence intro: flags_kept_trans split: prod.splits if_splits)

lemma kept_receive:
  assumes "tcp_receive p i e = Some (p', i', e')" shows "flags_kept i i'"
proof -
  obtain q j e1 where "tcp_receive_ack p i e = Some (q, j, e1)" "tcp_receive_data q j e1 = Some (p', i', e')"
    using assms by (auto simp: tcp_receive_def bind_eq_Some_conv)
  then show ?thesis using kept_receive_ack kept_receive_data flags_kept_trans by metis
qed


section \<open>The transitions\<close>

text \<open>
  The moves between states that a segment with the flags \<open>fl\<close> can cause. \<open>fin\<close> tells that the stream of the
  remote side has ended with this segment, by its own FIN or by one that was queued before.
\<close>

inductive segment_moves :: "u8 \<Rightarrow> bool \<Rightarrow> tcp_state \<Rightarrow> tcp_state \<Rightarrow> bool" for fl fin where
  connected: "fl AND TCP_SYN \<noteq> 0 \<Longrightarrow> fl AND TCP_ACK \<noteq> 0 \<Longrightarrow> segment_moves fl fin SYN_SENT ESTABLISHED"
| accepted: "fl AND TCP_ACK \<noteq> 0 \<Longrightarrow> \<not> fin \<Longrightarrow> segment_moves fl fin SYN_RCVD ESTABLISHED"
| accepted_fin: "fl AND TCP_ACK \<noteq> 0 \<Longrightarrow> fin \<Longrightarrow> segment_moves fl fin SYN_RCVD CLOSE_WAIT"
| remote_closed: "fin \<Longrightarrow> segment_moves fl fin ESTABLISHED CLOSE_WAIT"
| fin_acked: "fl AND TCP_ACK \<noteq> 0 \<Longrightarrow> \<not> fin \<Longrightarrow> segment_moves fl fin FIN_WAIT_1 FIN_WAIT_2"
| fin_crossed: "fin \<Longrightarrow> segment_moves fl fin FIN_WAIT_1 CLOSING"
| fin_acked_closed: "fl AND TCP_ACK \<noteq> 0 \<Longrightarrow> fin \<Longrightarrow> segment_moves fl fin FIN_WAIT_1 TIME_WAIT"
| closed_after: "fin \<Longrightarrow> segment_moves fl fin FIN_WAIT_2 TIME_WAIT"
| crossed_acked: "fl AND TCP_ACK \<noteq> 0 \<Longrightarrow> segment_moves fl fin CLOSING TIME_WAIT"

inductive_cases segment_movesE: "segment_moves fl fin st st'"

inductive_simps segment_moves_simps:
  "segment_moves fl fin SYN_SENT st'" "segment_moves fl fin SYN_RCVD st'" "segment_moves fl fin ESTABLISHED st'"
  "segment_moves fl fin FIN_WAIT_1 st'" "segment_moves fl fin FIN_WAIT_2 st'" "segment_moves fl fin CLOSE_WAIT st'"
  "segment_moves fl fin CLOSING st'" "segment_moves fl fin LAST_ACK st'" "segment_moves fl fin TIME_WAIT st'"

code_pred segment_moves .

text \<open>A reset moves no connection, and a SYN only one that has not been established.\<close>

definition moved :: "u8 \<Rightarrow> bool \<Rightarrow> tcp_state \<Rightarrow> tcp_state \<Rightarrow> bool" where
  "moved fl fin st st' \<longleftrightarrow>
     st' = st \<or> fl AND TCP_RST = 0 \<and> (fl AND TCP_SYN \<noteq> 0 \<longrightarrow> st = SYN_SENT \<or> st = SYN_RCVD) \<and> segment_moves fl fin st st'"

text \<open>The result of handling a segment for the block at \<open>x\<close>, which was in the state \<open>st\<close>.\<close>

definition processed :: "pcb_id set \<Rightarrow> pcb_id \<Rightarrow> u8 \<Rightarrow> tcp_state \<Rightarrow> tcp_stack \<Rightarrow> err_t \<times> tcp_in \<times> tcp_stack \<Rightarrow> bool" where
  "processed U x fl st s r \<longleftrightarrow>
     (case r of (err, i, s') \<Rightarrow> stack_ok U {} s' \<and> same_input s s' \<and>
        (if err = ERR_ABRT then pcbs s' x = None
         else \<exists>p. pcbs s' x = Some p \<and> moved fl (got_fin i) st (state p) \<and>
                (recv_flags i AND TF_CLOSED \<noteq> 0 \<or> recv_flags i AND TF_RESET \<noteq> 0 \<longrightarrow> active_state (state p))))"

lemma recv_flag_tests:
  "(TF_GOT_FIN :: u8) AND TF_CLOSED = 0" "(TF_GOT_FIN :: u8) AND TF_RESET = 0"
  by (simp_all add: tcp_recv_flag_defs)

lemma kept_quiet:
  assumes "flags_kept i i'" "recv_flags i = 0" shows "recv_flags i' AND TF_CLOSED = 0" "recv_flags i' AND TF_RESET = 0"
  using assms by (auto simp: flags_kept_def recv_flag_tests)

lemma put_active_ok:
  assumes "stack_ok U L s" "pcbs s x = Some p" "active_state (state p)" "place q = (st, listener p, local_port p)" "active_state st"
  shows "stack_ok U L (put_pcb x q s)"
proof -
  have "places s x = Some (state p, listener p, local_port p)" using places_Some [OF assms(2)] by (simp add: place_def)
  then show ?thesis
    using lists_ok_active [OF assms(1) [unfolded stack_ok_def], of x] assms(3-5) by (simp add: stack_ok_def places_put)
qed

lemma told_place:
  assumes "told U x err s s'" "err \<noteq> ERR_ABRT" "pcbs s y = Some p" shows "\<exists>q. pcbs s' y = Some q \<and> place q = place p"
  using assms shape_place_Some [of s' s y p] by (simp add: told_def)

lemma told_gone: "told U x ERR_ABRT s s' \<Longrightarrow> stack_ok U {} s \<Longrightarrow> pcbs s' x = None"
  by (simp add: told_def)

lemma processedI:
  assumes "stack_ok U {} s'" "same_input s s'" "err \<noteq> ERR_ABRT" "pcbs s' x = Some q" "moved fl (got_fin i) st (state q)"
    and "recv_flags i AND TF_CLOSED \<noteq> 0 \<or> recv_flags i AND TF_RESET \<noteq> 0 \<Longrightarrow> active_state (state q)"
  shows "processed U x fl st s (err, i, s')"
  using assms by (simp add: processed_def)

lemma processed_gone:
  assumes "stack_ok U {} s'" "same_input s s'" "pcbs s' x = None" shows "processed U x fl st s (ERR_ABRT, i, s')"
  using assms by (simp add: processed_def)

lemma processed_shape:
  assumes "stack_ok U {} s" "pcbs s x = Some p" "shape s' = shape s" "err \<noteq> ERR_ABRT"
    and "recv_flags i AND TF_CLOSED \<noteq> 0 \<or> recv_flags i AND TF_RESET \<noteq> 0 \<Longrightarrow> active_state (state p)"
  shows "processed U x fl (state p) s (err, i, s')"
proof -
  obtain q where q: "pcbs s' x = Some q" "place q = place p" using shape_place_Some [OF assms(3,2)] by blast
  then show ?thesis
    using stack_ok_shape [OF assms(1,3)] same_input_shape [OF assms(3)] assms(4,5) place_state [OF q(2)]
    by (simp add: processed_def moved_def)
qed

section \<open>Each state\<close>

lemma process_rst_ok:
  assumes ok: "stack_ok U {} s" and p: "pcbs s x = Some p" "active_state (state p)" and "recv_flags i = 0"
    and run: "process_rst x i s = Some r"
  shows "processed U x fl (state p) s r"
proof -
  obtain err i' s' where r: "r = (err, i', s')" by (cases r)
  have "shape s' = shape s \<and> err \<noteq> ERR_ABRT"
    using run p(1) by (auto simp: r process_rst_def Let_def bind_eq_Some_conv place_simps intro!: shape_put [OF p(1)] split: if_splits)
  then show ?thesis unfolding r using p by (intro processed_shape [OF ok]) simp_all
qed

lemma moved_SYN_SENT: "fl AND TCP_RST = 0 \<Longrightarrow> fl AND TCP_ACK \<noteq> 0 \<Longrightarrow> fl AND TCP_SYN \<noteq> 0 \<Longrightarrow> moved fl fin SYN_SENT ESTABLISHED"
  by (simp add: moved_def segment_moves_simps)

lemma syn_sent_connected:
  assumes run: "process_syn_sent x sg s = Some (err, s')" and p: "pcbs s x = Some p"
    and syn_ack: "i_flags (h_in sg) AND TCP_ACK \<noteq> 0 \<and> i_flags (h_in sg) AND TCP_SYN \<noteq> 0 \<and> i_ackno (h_in sg) = lastack p + 1"
  shows "\<exists>q e err1 s1. place q = (ESTABLISHED, listener p, local_port p) \<and>
    callback (Ev_connected x) x ((put_pcb x q s)\<lparr>st_env := e\<rparr>) = Some (err1, s1) \<and>
    (if err1 = ERR_ABRT then Some (ERR_ABRT, s1) else do { s \<leftarrow> upd_pcb tcp_ack_now x s1; Some (ERR_OK, s) }) = Some (err, s')"
proof -
  let ?i = "h_in sg"
  define m where "m = tcp_eff_send_mss (mss p) (local_ip p) (remote_ip p) (st_env s)"
  define q0 where "q0 = p\<lparr>rcv_nxt := i_seqno ?i + 1, rcv_ann_right_edge := i_seqno ?i + 1, lastack := i_ackno ?i,
     snd_wnd := i_wnd ?i, snd_wnd_max := i_wnd ?i, snd_wl1 := i_seqno ?i - 1, state := ESTABLISHED,
     mss := m, cwnd := LWIP_TCP_CALC_INITIAL_CWND m\<rparr>"
  define q1 where "q1 = q0\<lparr>snd_queuelen := snd_queuelen q0 - 1\<rparr>"
  define first where "first = (case unacked q1 of
            r # rs \<Rightarrow> Some (r, q1\<lparr>unacked := rs\<rparr>)
          | [] \<Rightarrow> (case unsent q1 of r # rs \<Rightarrow> Some (r, q1\<lparr>unsent := rs\<rparr>) | [] \<Rightarrow> None))"
  let ?q = "\<lambda>q. if unacked q = [] then q\<lparr>rtime := - 1\<rparr> else q\<lparr>rtime := 0, nrtx := 0\<rparr>"
  have "do { lwip_assert (snd_queuelen q0 > 0); (rseg, q) \<leftarrow> first;
      (err, s) \<leftarrow> callback (Ev_connected x) x ((put_pcb x (?q q) s)\<lparr>st_env := tcp_seg_free rseg (st_env s)\<rparr>);
      if err = ERR_ABRT then Some (ERR_ABRT, s) else do { s \<leftarrow> upd_pcb tcp_ack_now x s; Some (ERR_OK, s) } } = Some (err, s')"
    using run syn_ack unfolding process_syn_sent_def p bind.bind_lunit Let_def first_def q1_def q0_def m_def by simp
  then obtain rseg q where q: "first = Some (rseg, q)"
    and run: "do { (err, s) \<leftarrow> callback (Ev_connected x) x ((put_pcb x (?q q) s)\<lparr>st_env := tcp_seg_free rseg (st_env s)\<rparr>);
      if err = ERR_ABRT then Some (ERR_ABRT, s) else do { s \<leftarrow> upd_pcb tcp_ack_now x s; Some (ERR_OK, s) } } = Some (err, s')"
    by (auto elim!: bind_SomeE)
  have "place q = place q1" using q by (auto simp: first_def place_simps split: list.splits)
  also have "place q1 = (ESTABLISHED, listener p, local_port p)" by (simp add: q1_def q0_def place_def)
  finally have place: "place (?q q) = (ESTABLISHED, listener p, local_port p)" by (simp add: place_simps)
  obtain err1 s1 where "callback (Ev_connected x) x ((put_pcb x (?q q) s)\<lparr>st_env := tcp_seg_free rseg (st_env s)\<rparr>) = Some (err1, s1)"
      "(if err1 = ERR_ABRT then Some (ERR_ABRT, s1) else do { s \<leftarrow> upd_pcb tcp_ack_now x s1; Some (ERR_OK, s) }) = Some (err, s')"
    using run by - (erule bind_SomeE, simp only: case_prod_beta, rule that, simp_all)
  then show ?thesis using place by blast
qed

lemma process_syn_sent_ok:
  assumes ok: "stack_ok U {} s" and p: "pcbs s x = Some p" "state p = SYN_SENT" and fl: "i_flags (h_in sg) AND TCP_RST = 0"
    and "recv_flags (h_in sg) = 0" and run: "process_syn_sent x sg s = Some (err, s')"
  shows "processed U x (i_flags (h_in sg)) SYN_SENT s (err, h_in sg, s')"
proof -
  let ?i = "h_in sg"
  have same: ?thesis if "shape s' = shape s" "err \<noteq> ERR_ABRT"
    using processed_shape [OF ok p(1) that(1,2), of ?i "i_flags ?i"] p(2) assms(5) by simp
  show ?thesis
  proof (cases "i_flags ?i AND TCP_ACK \<noteq> 0 \<and> i_flags ?i AND TCP_SYN \<noteq> 0 \<and> i_ackno ?i = lastack p + 1")
    case True
    note syn_ack = this
    then obtain q e err1 s1 where place_q: "place q = (ESTABLISHED, listener p, local_port p)"
      and s1: "callback (Ev_connected x) x ((put_pcb x q s)\<lparr>st_env := e\<rparr>) = Some (err1, s1)"
      and rest: "(if err1 = ERR_ABRT then Some (ERR_ABRT, s1)
         else do { s \<leftarrow> upd_pcb tcp_ack_now x s1; Some (ERR_OK, s) }) = Some (err, s')"
      using syn_sent_connected [OF run p(1) True] by blast
    let ?t = "(put_pcb x q s)\<lparr>st_env := e\<rparr>"
    have "stack_ok U {} (put_pcb x q s)" by (rule put_active_ok [OF ok p(1) _ place_q]) (simp_all add: p(2))
    then have okt: "stack_ok U {} ?t" using shape_frame(1) by (rule stack_ok_shape)
    have t: "same_input s ?t" by (simp add: same_input_def)
    note told = callback_told [OF okt s1] and ok1 = told_ok [OF callback_told [OF okt s1] okt]
    show ?thesis
    proof (cases "err1 = ERR_ABRT")
      case True
      then have s': "err = ERR_ABRT" "s' = s1" using rest by auto
      have "pcbs s1 x = None" using told_gone [of U x ?t s1] told okt True by simp
      moreover have "same_input s s1" using t ok1 by (simp add: same_input_def)
      ultimately show ?thesis unfolding s' using ok1 by (intro processed_gone) simp_all
    next
      case False
      then have s': "upd_pcb tcp_ack_now x s1 = Some s'" "err = ERR_OK" using rest by (auto simp: bind_eq_Some_conv)
      have sh: "shape s' = shape s1" using s'(1) by (rule shape_upd_flags)
      have "pcbs ?t x = Some q" by simp
      then obtain q1 where "pcbs s1 x = Some q1" "place q1 = place q" using told_place [OF told False] by blast
      then obtain q2 where q2: "pcbs s' x = Some q2" "place q2 = place q" using shape_place_Some [OF sh] by force
      then have "state q2 = ESTABLISHED" using place_q by (simp add: place_def)
      note st = this
      have "moved (i_flags ?i) (got_fin ?i) SYN_SENT (state q2)" unfolding st using moved_SYN_SENT fl syn_ack by blast
      moreover have "stack_ok U {} s'" using ok1 sh by (blast intro: stack_ok_shape)
      moreover have "same_input s s'" using t ok1 same_input_shape [OF sh] by (simp add: same_input_def)
      ultimately show ?thesis unfolding s'(2) using q2(1) by (intro processedI) (simp_all add: assms(5))
    qed
  next
    case False
    let ?t = "s\<lparr>st_env := rst_for sg (st_env s)\<rparr>"
    have eq: "process_syn_sent x sg s =
        (if i_flags ?i AND TCP_ACK = 0 then Some (ERR_OK, s)
         else if \<not> nrtx p < TCP_SYNMAXRTX then Some (ERR_OK, ?t)
         else do {
           s \<leftarrow> upd_pcb (\<lambda>pcb. pcb\<lparr>rtime := 0\<rparr>) x ?t;
           (_, s) \<leftarrow> on_pcb (\<lambda>pcb e. do { (pcb, e) \<leftarrow> tcp_rexmit_rto (tcp_input_pcb s = Some x) pcb e; Some ((), pcb, e) }) x s;
           Some (ERR_OK, s) })"
      unfolding process_syn_sent_def p(1) bind.bind_lunit Let_def using False by auto
    have "shape v = shape s"
      if "upd_pcb (\<lambda>pcb. pcb\<lparr>rtime := 0\<rparr>) x ?t = Some u"
        "on_pcb (\<lambda>pcb e. do { (pcb, e) \<leftarrow> tcp_rexmit_rto inp pcb e; Some ((), pcb, e) }) x u = Some (b, v)" for u v b inp
    proof -
      have "shape u = shape ?t" using that(1) by (rule shape_upd) (simp add: place_simps)
      moreover have "shape v = shape u" using that(2) by (rule shape_on) (auto simp: bind_eq_Some_conv dest: place_rexmit_rto)
      ultimately show ?thesis by simp
    qed
    then have "shape s' = shape s \<and> err \<noteq> ERR_ABRT"
      using run unfolding eq by (auto simp: bind_eq_Some_conv split: if_splits)
    then show ?thesis using same by blast
  qed
qed

lemma receive_pcb_ok:
  assumes ok: "stack_ok U L s" and p: "pcbs s x = Some p" "active_state (state p)" and run: "receive_pcb x i s = Some (i', s')"
  shows "stack_ok U L s'" "same_input s s'" "flags_kept i i'" "\<exists>p'. pcbs s' x = Some p' \<and> place_fin p p' i'"
proof -
  obtain p' e' where q: "tcp_receive p i (st_env s) = Some (p', i', e')" "s' = (put_pcb x p' s)\<lparr>st_env := e'\<rparr>"
    using run p(1) by (auto simp: receive_pcb_def bind_eq_Some_conv)
  note fin = place_receive [OF q(1)]
  have "stack_ok U L (put_pcb x p' s)"
  proof (cases "place p' = place p")
    case True
    then show ?thesis using put_active_ok [OF ok p, of p' "state p"] p(2) by (simp add: place_def)
  next
    case False
    then show ?thesis using fin put_active_ok [OF ok p, of p' CLOSE_WAIT] by (simp add: place_fin_def)
  qed
  then show "stack_ok U L s'" unfolding q(2) using shape_frame(1) by (rule stack_ok_shape)
  show "same_input s s'" by (simp add: q(2) same_input_def)
  show "flags_kept i i'" using q(1) by (rule kept_receive)
  show "\<exists>p'. pcbs s' x = Some p' \<and> place_fin p p' i'" using fin by (simp add: q(2))
qed

text \<open>What is left when the state has been set.\<close>

lemma set_state_done:
  assumes "stack_ok U {} s" "pcbs s x = Some p" "active_state (state p)" "upd_pcb f x s = Some s'"
    and "\<And>p. place (f p) = (st, listener p, local_port p)" "active_state st"
  shows "stack_ok U {} s' \<and> same_input s s' \<and> (\<exists>q. pcbs s' x = Some q \<and> state q = st)"
proof -
  have pl: "place (f p) = (st, listener p, local_port p)" by (rule assms(5))
  then have "state (f p) = st" by (simp add: place_def)
  then show ?thesis using set_state_ok [OF assms(1,4,2,3) pl assms(6)] by blast
qed

lemma close_wait_step:
  assumes "stack_ok U {} s" "pcbs s x = Some p" "active_state (state p)"
    and "(if got_fin i then upd_pcb (\<lambda>pcb. (tcp_ack_now pcb)\<lparr>state := CLOSE_WAIT\<rparr>) x s else Some s) = Some s'"
  shows "stack_ok U {} s' \<and> same_input s s' \<and> (\<exists>q. pcbs s' x = Some q \<and> state q = (if got_fin i then CLOSE_WAIT else state p))"
proof (cases "got_fin i")
  case True
  then show ?thesis
    using set_state_done [OF assms(1-3), of "\<lambda>pcb. (tcp_ack_now pcb)\<lparr>state := CLOSE_WAIT\<rparr>" s' CLOSE_WAIT] assms(4)
    by (simp add: place_def tcp_ack_now_def tcp_set_flags_def)
next
  case False
  then show ?thesis using assms by (simp add: same_input_def)
qed

lemma to_time_wait_ok:
  assumes ok: "stack_ok U {} s" and p: "pcbs s x = Some p" "active_state (state p)" and run: "to_time_wait x s = Some s'"
  shows "stack_ok U {} s' \<and> same_input s s' \<and> (\<exists>q. pcbs s' x = Some q \<and> state q = TIME_WAIT)"
proof -
  obtain s1 where s1: "purge_pcb x s = Some s1" using run by (auto simp: to_time_wait_def bind_eq_Some_conv)
  have sh: "shape s1 = shape s" using s1 by (rule shape_purge)
  obtain q where q: "pcbs s1 x = Some q" "place q = place p" using shape_place_Some [OF sh p(1)] by blast
  have s': "s' = reg_tw x (put_pcb x (q\<lparr>state := TIME_WAIT\<rparr>) (TCP_RMV_ACTIVE x s1))"
    using run s1 q(1) by (simp add: to_time_wait_def upd_pcb_def TCP_RMV_ACTIVE_def rmv_active_def)
  have ok1: "stack_ok U {} s1" using ok sh by (rule stack_ok_shape)
  have act: "active_state (state q)" using p(2) place_state [OF q(2)] by simp
  have "places s1 x = Some (state q, listener q, local_port q)" using places_Some [OF q(1)] by (simp add: place_def)
  note tw = lists_ok_time_wait [OF ok1 [unfolded stack_ok_def] this act]
  have pl: "places s' = (places s1)(x \<mapsto> (TIME_WAIT, listener q, local_port q))"
    by (auto simp: s' reg_tw_def timer_needed_def TCP_RMV_ACTIVE_def rmv_active_def places_def put_pcb_def place_def)
  have "stack_ok U {} s'"
    using tw by (simp add: stack_ok_def pl) (simp add: s' reg_tw_def timer_needed_def TCP_RMV_ACTIVE_def rmv_active_def)
  then show ?thesis using same_input_shape [OF sh] by (simp add: s' reg_tw_def timer_needed_def TCP_RMV_ACTIVE_def rmv_active_def same_input_def)
qed

lemma moved_simps:
  "moved fl fin st st" "fl AND TCP_RST = 0 \<Longrightarrow> fl AND TCP_ACK \<noteq> 0 \<Longrightarrow> moved fl fin SYN_RCVD (if fin then CLOSE_WAIT else ESTABLISHED)"
  by (simp_all add: moved_def segment_moves_simps)

lemma accepted_told:
  assumes ok: "stack_ok U {} s" and run: "(case l of None \<Rightarrow> Some (ERR_VAL, s)
      | Some l \<Rightarrow> do { lpcb \<leftarrow> map_of (listen_pcbs s) l; TCP_EVENT_ACCEPT lpcb x s }) = Some (err, s')"
  shows "told U x err s s'"
proof (cases l)
  case None
  then show ?thesis using run by (auto intro: told_shape)
next
  case (Some k)
  then show ?thesis using run accept_told [OF ok] by (auto simp: bind_eq_Some_conv)
qed

lemma process_syn_rcvd_ok:
  assumes ok: "stack_ok U {} s" and p: "pcbs s x = Some p" "state p = SYN_RCVD" and fl: "i_flags (h_in sg) AND TCP_RST = 0"
    and quiet: "recv_flags (h_in sg) = 0" and run: "process_syn_rcvd x sg s = Some r"
  shows "processed U x (i_flags (h_in sg)) SYN_RCVD s r"
proof -
  let ?i = "h_in sg"
  have act: "active_state (state p)" using p(2) by simp
  obtain err i s' where r: "r = (err, i, s')" by (cases r)
  show ?thesis
  proof (cases "i_flags ?i AND TCP_ACK \<noteq> 0 \<and> TCP_SEQ_BETWEEN (i_ackno ?i) (lastack p + 1) (snd_nxt p)")
    case False
    then have "shape s' = shape s \<and> err \<noteq> ERR_ABRT \<and> recv_flags i = 0"
      using run p(1) quiet place_rexmit [of p "fst (tcp_rexmit p)" "snd (tcp_rexmit p)"]
      unfolding process_syn_rcvd_def p(1) bind.bind_lunit Let_def r by (auto intro!: shape_put [OF p(1)] split: if_splits)
    then show ?thesis unfolding r using processed_shape [OF ok p(1), of s' err i] p(2) by simp
  next
    case True
    obtain s1 where s1: "upd_pcb (\<lambda>pcb. pcb\<lparr>state := ESTABLISHED\<rparr>) x s = Some s1"
      using run True unfolding process_syn_rcvd_def p(1) bind.bind_lunit Let_def by (auto simp: bind_eq_Some_conv)
    obtain err1 s2 where s2: "(case listener p of None \<Rightarrow> Some (ERR_VAL, s1)
           | Some l \<Rightarrow> do { lpcb \<leftarrow> map_of (listen_pcbs s1) l; TCP_EVENT_ACCEPT lpcb x s1 }) = Some (err1, s2)"
      using run True unfolding process_syn_rcvd_def p(1) bind.bind_lunit Let_def s1
      by (simp only: if_True simp_thms bind.bind_lunit) (elim bind_SomeE, metis prod.exhaust)
    have rest: "(if err1 \<noteq> ERR_OK
         then do { s \<leftarrow> (if err1 \<noteq> ERR_ABRT then tcp_abort x s2 else Some s2); Some (ERR_ABRT, ?i, s) }
         else do {
           (i, s) \<leftarrow> receive_pcb x ?i s2;
           let i = (if recv_acked i \<noteq> 0 then i\<lparr>recv_acked := recv_acked i - 1\<rparr> else i);
           s \<leftarrow> upd_pcb (\<lambda>pcb. pcb\<lparr>cwnd := LWIP_TCP_CALC_INITIAL_CWND (mss pcb)\<rparr>) x s;
           s \<leftarrow> (if got_fin i then upd_pcb (\<lambda>pcb. (tcp_ack_now pcb)\<lparr>state := CLOSE_WAIT\<rparr>) x s else Some s);
           Some (ERR_OK, i, s)
         }) = Some r"
      using run True unfolding process_syn_rcvd_def p(1) bind.bind_lunit Let_def s1
      by (simp only: if_True simp_thms bind.bind_lunit s2 prod.case)
    have ok1: "stack_ok U {} s1" "same_input s s1" and st1: "\<exists>q. pcbs s1 x = Some q \<and> state q = ESTABLISHED"
      using set_state_done [OF ok p(1) act s1, of ESTABLISHED] by (simp_all add: place_def)
    note told = accepted_told [OF ok1(1) s2]
    have ok2: "stack_ok U {} s2" "same_input s s2" using told_ok [OF told ok1(1)] ok1(2) by (auto simp: same_input_def)
    show ?thesis
    proof (cases "err1 = ERR_OK")
      case False
      then have "stack_ok U {} s' \<and> pcbs s' x = None \<and> same_input s s' \<and> err = ERR_ABRT"
        using rest told told_gone [of U x s1 s2] ok1 ok2 abort_told [OF ok2(1), of x]
        unfolding r by (auto simp: bind_eq_Some_conv same_input_def split: if_splits)
      then show ?thesis unfolding r using processed_gone by blast
    next
      case True
      obtain q where q: "pcbs s1 x = Some q" "state q = ESTABLISHED" using st1 by blast
      have "err1 \<noteq> ERR_ABRT" using True by simp
      then obtain q2 where pl2: "pcbs s2 x = Some q2" "place q2 = place q" using told_place [OF told _ q(1)] by blast
      have q2: "pcbs s2 x = Some q2" "state q2 = ESTABLISHED" using pl2(1) place_state [OF pl2(2)] q(2) by simp_all
      obtain i3 s3 where s3: "receive_pcb x ?i s2 = Some (i3, s3)" using rest True by (auto simp: bind_eq_Some_conv)
      define i4 where "i4 = (if recv_acked i3 \<noteq> 0 then i3\<lparr>recv_acked := recv_acked i3 - 1\<rparr> else i3)"
      obtain s4 where s4: "upd_pcb (\<lambda>pcb. pcb\<lparr>cwnd := LWIP_TCP_CALC_INITIAL_CWND (mss pcb)\<rparr>) x s3 = Some s4"
        using rest True s3 by (auto simp: Let_def elim!: bind_SomeE)
      have "do { s \<leftarrow> (if got_fin i4 then upd_pcb (\<lambda>pcb. (tcp_ack_now pcb)\<lparr>state := CLOSE_WAIT\<rparr>) x s4 else Some s4); Some (ERR_OK, i4, s) } = Some r"
        using rest True s3 s4 by (simp add: Let_def i4_def)
      then obtain t where s5': "(if got_fin i4 then upd_pcb (\<lambda>pcb. (tcp_ack_now pcb)\<lparr>state := CLOSE_WAIT\<rparr>) x s4 else Some s4) = Some t"
        and "Some (ERR_OK, i4, t) = Some r" by (rule bind_SomeE)
      then have r': "err = ERR_OK" "i = i4" and s5: "(if got_fin i4 then upd_pcb (\<lambda>pcb. (tcp_ack_now pcb)\<lparr>state := CLOSE_WAIT\<rparr>) x s4 else Some s4) = Some s'"
        unfolding r by simp_all
      have act2: "active_state (state q2)" by (simp add: q2(2))
      note rcv = receive_pcb_ok [OF ok2(1) q2(1) act2 s3]
      have sh4: "shape s4 = shape s3" using s4 by (rule shape_upd) (simp add: place_simps)
      have ok4: "stack_ok U {} s4" using rcv(1) sh4 by (rule stack_ok_shape)
      obtain q3 where q3: "pcbs s3 x = Some q3" "place_fin q2 q3 i3" using rcv(4) by blast
      obtain q4 where q4: "pcbs s4 x = Some q4" "place q4 = place q3" using shape_place_Some [OF sh4 q3(1)] by blast
      have fin: "got_fin i4 = got_fin i3" "recv_flags i4 = recv_flags i3" by (simp_all add: i4_def got_fin_def)
      have st4: "state q4 = ESTABLISHED \<or> got_fin i4 \<and> state q4 = CLOSE_WAIT"
        using q3(2) place_state [OF q4(2)] q2(2) fin by (auto simp: place_fin_def place_def)
      then have act4: "active_state (state q4)" by auto
      obtain q5 where q5: "stack_ok U {} s'" "same_input s4 s'" "pcbs s' x = Some q5" "state q5 = (if got_fin i4 then CLOSE_WAIT else state q4)"
        using close_wait_step [OF ok4 q4(1) act4 s5] by blast
      have same: "same_input s s'" using ok2(2) rcv(2) same_input_shape [OF sh4] q5(2) by (simp add: same_input_def)
      have st: "state q5 = (if got_fin i4 then CLOSE_WAIT else ESTABLISHED)" using q5(4) st4 by auto
      have "moved (i_flags ?i) (got_fin i4) SYN_RCVD (state q5)" unfolding st by (rule moved_simps(2) [OF fl]) (use \<open>_ \<and> _\<close> in simp)
      moreover have "active_state (state q5)" unfolding st by simp
      ultimately show ?thesis unfolding r r' using processedI [OF q5(1) same _ q5(3)] by simp
    qed
  qed
qed

text \<open>The states after the handshake.\<close>

lemma process_synchronized_ok:
  assumes ok: "stack_ok U {} s" and p: "pcbs s x = Some p" "state p = st" and fl: "i_flags i AND TCP_RST = 0"
    "i_flags i AND TCP_SYN = 0" and quiet: "recv_flags i = 0" and run: "process_synchronized st x i s = Some r"
    and st: "active_state st" "st \<noteq> SYN_SENT" "st \<noteq> SYN_RCVD"
  shows "processed U x (i_flags i) st s r"
proof -
  obtain err i' s' where r: "r = (err, i', s')" by (cases r)
  obtain i1 s1 where s1: "receive_pcb x i s = Some (i1, s1)"
    using run by (auto simp: process_synchronized_def bind_eq_Some_conv)
  have act: "active_state (state p)" using p(2) st by simp
  note rcv = receive_pcb_ok [OF ok p(1) act s1]
  obtain q where q: "pcbs s1 x = Some q" "place_fin p q i1" using rcv(4) by blast
  have flags: "i_flags i1 = i_flags i" "recv_flags i1 AND TF_CLOSED = 0" "recv_flags i1 AND TF_RESET = 0"
    using rcv(3) kept_quiet [OF rcv(3) quiet] by (simp_all add: flags_kept_def)
  have stq: "state q = st \<or> st = ESTABLISHED \<and> got_fin i1 \<and> state q = CLOSE_WAIT"
    using q(2) p(2) by (auto simp: place_fin_def place_def)
  then have actq: "active_state (state q)" using st by auto
  have finish: "processed U x (i_flags i) st s (ERR_OK, i1, t)"
    if d: "stack_ok U {} t \<and> same_input s1 t \<and> (\<exists>q. pcbs t x = Some q \<and> state q = st')"
      and m: "moved (i_flags i) (got_fin i1) st st'" for t st'
  proof -
    obtain q' where "pcbs t x = Some q'" "state q' = st'" using d by blast
    then show ?thesis
      using d m rcv(2) flags by (intro processedI [of U t s _ x q']) (auto simp: same_input_def)
  qed
  note same = finish [of s1 "state q"]
  let ?all_acked = "i_flags i1 AND TCP_ACK \<noteq> 0 \<and> i_ackno i1 = snd_nxt q \<and> unsent q = []"
  have body: "(case st of
       ESTABLISHED \<Rightarrow>
         do { s \<leftarrow> (if got_fin i1 then upd_pcb (\<lambda>pcb. (tcp_ack_now pcb)\<lparr>state := CLOSE_WAIT\<rparr>) x s1 else Some s1); Some (ERR_OK, i1, s) }
     | CLOSE_WAIT \<Rightarrow>
         do { s \<leftarrow> (if got_fin i1 then upd_pcb (\<lambda>pcb. (tcp_ack_now pcb)\<lparr>state := CLOSE_WAIT\<rparr>) x s1 else Some s1); Some (ERR_OK, i1, s) }
     | FIN_WAIT_1 \<Rightarrow>
         if got_fin i1
         then if ?all_acked
              then do { s \<leftarrow> upd_pcb tcp_ack_now x s1; s \<leftarrow> to_time_wait x s; Some (ERR_OK, i1, s) }
              else do { s \<leftarrow> upd_pcb (\<lambda>pcb. (tcp_ack_now pcb)\<lparr>state := CLOSING\<rparr>) x s1; Some (ERR_OK, i1, s) }
         else if ?all_acked
         then do { s \<leftarrow> upd_pcb (\<lambda>pcb. pcb\<lparr>state := FIN_WAIT_2\<rparr>) x s1; Some (ERR_OK, i1, s) }
         else Some (ERR_OK, i1, s1)
     | FIN_WAIT_2 \<Rightarrow>
         if got_fin i1
         then do { s \<leftarrow> upd_pcb tcp_ack_now x s1; s \<leftarrow> to_time_wait x s; Some (ERR_OK, i1, s) }
         else Some (ERR_OK, i1, s1)
     | CLOSING \<Rightarrow>
         if ?all_acked then do { s \<leftarrow> to_time_wait x s1; Some (ERR_OK, i1, s) } else Some (ERR_OK, i1, s1)
     | LAST_ACK \<Rightarrow>
         if ?all_acked then Some (ERR_OK, i1\<lparr>recv_flags := recv_flags i1 OR TF_CLOSED\<rparr>, s1) else Some (ERR_OK, i1, s1)
     | _ \<Rightarrow> Some (ERR_OK, i1, s1)) = Some r"
    using run unfolding process_synchronized_def s1 bind.bind_lunit prod.case q(1) Let_def .
  have waits: "stack_ok U {} t \<and> same_input s1 t \<and> (\<exists>q. pcbs t x = Some q \<and> state q = TIME_WAIT)"
    if "upd_pcb tcp_ack_now x s1 = Some u" "to_time_wait x u = Some t" for t u
  proof -
    have sh: "shape u = shape s1" using that(1) by (rule shape_upd_flags)
    obtain v where v: "pcbs u x = Some v" "place v = place q" using shape_place_Some [OF sh q(1)] by blast
    have "active_state (state v)" using actq place_state [OF v(2)] by simp
    from to_time_wait_ok [OF stack_ok_shape [OF rcv(1) sh] v(1) this that(2)] show ?thesis
      using same_input_shape [OF sh] by (auto simp: same_input_def)
  qed
  have closing: "stack_ok U {} t \<and> same_input s1 t \<and> (\<exists>q. pcbs t x = Some q \<and> state q = CLOSING)"
    if "upd_pcb (\<lambda>pcb. (tcp_ack_now pcb)\<lparr>state := CLOSING\<rparr>) x s1 = Some t" for t
    by (rule set_state_done [OF rcv(1) q(1) actq that]) (simp_all add: place_def tcp_ack_now_def tcp_set_flags_def)
  have fin_wait_2: "stack_ok U {} t \<and> same_input s1 t \<and> (\<exists>q. pcbs t x = Some q \<and> state q = FIN_WAIT_2)"
    if "upd_pcb (\<lambda>pcb. pcb\<lparr>state := FIN_WAIT_2\<rparr>) x s1 = Some t" for t
    by (rule set_state_done [OF rcv(1) q(1) actq that]) (simp_all add: place_def)
  have stay: "processed U x (i_flags i) st s (ERR_OK, i1, s1)" if "state q = st"
    by (rule same) (use rcv(1) q(1) that in \<open>simp_all add: same_input_def moved_def\<close>)
  note moves = moved_def segment_moves_simps fl flags(1)
  consider "st = ESTABLISHED \<or> st = CLOSE_WAIT" | "st = FIN_WAIT_1" | "st = FIN_WAIT_2" | "st = CLOSING" | "st = LAST_ACK"
    using st by (cases st) auto
  then show ?thesis
  proof cases
    case 1
    then have s': "(if got_fin i1 then upd_pcb (\<lambda>pcb. (tcp_ack_now pcb)\<lparr>state := CLOSE_WAIT\<rparr>) x s1 else Some s1) = Some s'"
        and r': "err = ERR_OK" "i' = i1"
      using body by (auto simp: r bind_eq_Some_conv simp del: if_split split: if_splits)
    show ?thesis unfolding r r'
      by (rule finish [OF close_wait_step [OF rcv(1) q(1) actq s']]) (use 1 stq in \<open>auto simp: moves\<close>)
  next
    case 2
    show ?thesis
    proof (cases "got_fin i1")
      case True
      show ?thesis
      proof (cases ?all_acked)
        case all: True
        then obtain u where "upd_pcb tcp_ack_now x s1 = Some u" "to_time_wait x u = Some s'" "r = (ERR_OK, i1, s')"
          using body 2 True by (auto simp: r bind_eq_Some_conv)
        then show ?thesis using finish [OF waits] 2 True all by (simp add: moves)
      next
        case False
        then obtain t where "upd_pcb (\<lambda>pcb. (tcp_ack_now pcb)\<lparr>state := CLOSING\<rparr>) x s1 = Some t" "r = (ERR_OK, i1, t)"
          using body 2 True by (auto simp: bind_eq_Some_conv)
        then show ?thesis using finish [OF closing] 2 True by (simp add: moves)
      qed
    next
      case False
      show ?thesis
      proof (cases ?all_acked)
        case all: True
        then obtain t where "upd_pcb (\<lambda>pcb. pcb\<lparr>state := FIN_WAIT_2\<rparr>) x s1 = Some t" "r = (ERR_OK, i1, t)"
          using body 2 False by (auto simp: bind_eq_Some_conv)
        then show ?thesis using finish [OF fin_wait_2] 2 False all by (simp add: moves)
      next
        case no: False
        then have "r = (ERR_OK, i1, s1)" using body 2 False by (auto split: if_splits)
        then show ?thesis using stay stq 2 by simp
      qed
    qed
  next
    case 3
    show ?thesis
    proof (cases "got_fin i1")
      case True
      then obtain u where "upd_pcb tcp_ack_now x s1 = Some u" "to_time_wait x u = Some s'" "r = (ERR_OK, i1, s')"
        using body 3 by (auto simp: r bind_eq_Some_conv)
      then show ?thesis using finish [OF waits] 3 True by (simp add: moves)
    next
      case False
      then show ?thesis using body 3 stay stq by simp
    qed
  next
    case 4
    show ?thesis
    proof (cases ?all_acked)
      case True
      then obtain t where "to_time_wait x s1 = Some t" "r = (ERR_OK, i1, t)"
        using body 4 by (auto simp: bind_eq_Some_conv)
      then show ?thesis using finish [OF to_time_wait_ok [OF rcv(1) q(1) actq]] 4 True by (simp add: moves)
    next
      case False
      then have "r = (ERR_OK, i1, s1)" using body 4 by (auto split: if_splits)
      then show ?thesis using stay stq 4 by simp
    qed
  next
    case 5
    show ?thesis
    proof (cases ?all_acked)
      case True
      then have "r = (ERR_OK, i1\<lparr>recv_flags := recv_flags i1 OR TF_CLOSED\<rparr>, s1)" using body 5 by auto
      then show ?thesis
        using rcv(1,2) q(1) stq 5 by (auto intro!: processedI simp: moved_def)
    next
      case False
      then have "r = (ERR_OK, i1, s1)" using body 5 by (auto split: if_splits)
      then show ?thesis using stay stq 5 by simp
    qed
  qed
qed

lemma process_ok:
  assumes ok: "stack_ok U {} s" and p: "pcbs s x = Some p" "active_state (state p)" and quiet: "recv_flags (h_in sg) = 0"
    and run: "tcp_process x sg s = Some r"
  shows "processed U x (i_flags (h_in sg)) (state p) s r"
proof -
  let ?i = "h_in sg"
  show ?thesis
  proof (cases "i_flags ?i AND TCP_RST = 0")
    case False
    then have "process_rst x ?i s = Some r" using run p by (simp add: tcp_process_def Let_def)
    then show ?thesis using process_rst_ok [OF ok p quiet] by simp
  next
    case fl: True
    show ?thesis
    proof (cases "i_flags ?i AND TCP_SYN \<noteq> 0 \<and> state p \<noteq> SYN_SENT \<and> state p \<noteq> SYN_RCVD")
      case True
      then have r: "r = (ERR_OK, ?i, put_pcb x (tcp_ack_now p) s)" using run p fl by (simp add: tcp_process_def Let_def)
      show ?thesis unfolding r
        by (rule processed_shape [OF ok p(1)]) (simp_all add: shape_put [OF p(1)] place_simps quiet)
    next
      case False
      define p0 where "p0 = (if \<not> tcp_is_flag_set TF_RXCLOSED p then p\<lparr>tmr := tcp_ticks (st_env s)\<rparr> else p)"
      obtain q where q: "tcp_parseopt (h_opts sg) (p0\<lparr>keep_cnt_sent := 0, persist_probe := 0\<rparr>) = Some q"
          and body: "(case state q of
               SYN_SENT \<Rightarrow> do { (err, s) \<leftarrow> process_syn_sent x sg (put_pcb x q s); Some (err, ?i, s) }
             | SYN_RCVD \<Rightarrow> process_syn_rcvd x sg (put_pcb x q s)
             | CLOSED \<Rightarrow> Some (ERR_OK, ?i, put_pcb x q s)
             | LISTEN \<Rightarrow> Some (ERR_OK, ?i, put_pcb x q s)
             | TIME_WAIT \<Rightarrow> Some (ERR_OK, ?i, put_pcb x q s)
             | st \<Rightarrow> process_synchronized st x ?i (put_pcb x q s)) = Some r"
        using run fl False unfolding tcp_process_def p(1) bind.bind_lunit Let_def p0_def [symmetric]
        by (simp only: if_False simp_thms) (auto elim!: bind_SomeE)
      let ?s = "put_pcb x q s"
      have place: "place q = place p" using place_parseopt [OF q] by (simp add: p0_def place_simps)
      have sh: "shape ?s = shape s" by (rule shape_put [OF p(1) place])
      have ok': "stack_ok U {} ?s" using ok sh by (rule stack_ok_shape)
      have q': "pcbs ?s x = Some q" "state q = state p" using place_state [OF place] by simp_all
      have "processed U x (i_flags ?i) (state p) ?s r"
      proof (cases "state p = SYN_SENT \<or> state p = SYN_RCVD")
        case True
        then show ?thesis
          using body q' process_syn_sent_ok [OF ok' q'(1) _ fl quiet] process_syn_rcvd_ok [OF ok' q'(1) _ fl quiet, of r]
          by (cases "state p = SYN_SENT") (auto simp: bind_eq_Some_conv)
      next
        case no: False
        then have "process_synchronized (state p) x ?i ?s = Some r" using body q'(2) p(2) by (cases "state p") auto
        then show ?thesis using process_synchronized_ok [OF ok' q'(1,2) fl _ quiet] False no p(2) by blast
      qed
      then show ?thesis using same_input_shape [OF sh] by (auto simp: processed_def same_input_def)
    qed
  qed
qed

end
