(* ===== verification/Tcp_Invariant.thy ===== *)
theory Tcp_Invariant
  imports Tcp_Machine
begin

text \<open>
  The invariant of the lists over whole calls: a segment from \<^verbatim>\<open>tcp_input\<close> to the end of its handling, the timers, and every
  call of the application. The reachable states of the stack satisfy it.
\<close>

section \<open>What follows the state machine\<close>

lemma stack_ok_input [simp]: "stack_ok U L (s\<lparr>tcp_input_pcb := v\<rparr>) = stack_ok U L s" "stack_ok U L (s\<lparr>input_close := b\<rparr>) = stack_ok U L s"
  by (simp_all add: stack_ok_def places_def)

definition delivering :: "pcb_id set \<Rightarrow> pcb_id \<Rightarrow> bool \<times> tcp_stack \<Rightarrow> bool" where
  "delivering U x r \<longleftrightarrow>
     stack_ok U {} (snd r) \<and> (\<not> fst r \<longrightarrow> tcp_input_pcb (snd r) = Some x \<and> \<not> input_close (snd r))"

definition delivered :: "pcb_id set \<Rightarrow> pcb_id \<Rightarrow> bool \<times> tcp_stack \<Rightarrow> bool" where
  "delivered U x r \<longleftrightarrow> delivering U x r \<or> \<not> fst r \<and> loose x (snd r) \<and> stack_ok U {x} (snd r)"

lemma delivering_told:
  assumes "delivering U x (False, s)" "told U x err s s'" shows "delivering U x (err = ERR_ABRT, s')"
  using assms told_ok [OF assms(2)] by (auto simp: delivering_def same_input_def)

lemma delivering_shape:
  assumes "delivering U x (False, s)" "shape s' = shape s" shows "delivering U x (False, s')"
  using assms stack_ok_shape [OF _ assms(2)] same_input_shape [OF assms(2)] by (auto simp: delivering_def same_input_def)

lemma input_sent_ok:
  assumes d: "delivering U x (False, s)" and p: "pcbs s x = Some p" and run: "input_sent x i s = Some r"
  shows "delivering U x r" "\<not> fst r \<Longrightarrow> \<exists>q. pcbs (snd r) x = Some q \<and> place q = place p"
proof -
  have "delivering U x r \<and> (\<not> fst r \<longrightarrow> (\<exists>q. pcbs (snd r) x = Some q \<and> place q = place p))"
  proof (cases "recv_acked i > 0")
    case True
    then obtain err s' where s': "TCP_EVENT_SENT x (recv_acked i) s = Some (err, s')" "r = (err = ERR_ABRT, s')"
      using run by (auto simp: input_sent_def bind_eq_Some_conv)
    have ok: "stack_ok U {} s" using d by (simp add: delivering_def)
    note told = sent_told [OF ok s'(1)]
    show ?thesis unfolding s'(2) using delivering_told [OF d told] told_place [OF told _ p] by simp
  next
    case False
    then show ?thesis using run d p by (auto simp: input_sent_def)
  qed
  then show "delivering U x r" "\<not> fst r \<Longrightarrow> \<exists>q. pcbs (snd r) x = Some q \<and> place q = place p" by blast+
qed

text \<open>A block that is taken off the list of active blocks and freed.\<close>

lemma remove_active_ok:
  assumes ok: "stack_ok U L s" "L \<subseteq> {x}" and p: "pcbs s x = Some p" "active_state (state p)" and sh: "shape t = shape s"
    and run: "tcp_pcb_remove rmv_active x t = Some t1" "tcp_free x t1 = Some s'"
  shows "stack_ok U {} s'" "same_input s s'"
proof -
  have ok': "stack_ok U L t" using ok(1) sh by (rule stack_ok_shape)
  obtain q where q: "pcbs t x = Some q" "place q = place p" using shape_place_Some [OF sh p(1)] by blast
  have "shape s' = shape (free_pcb x (rmv_active x t))"
    using tcp_pcb_remove_free [OF run(1) _ run(2) refl] by (auto simp: takes_off_def)
  also have "\<dots> = shape (gone x t)" using gone_cases(1) [OF ok' q(1)] p(2) place_state [OF q(2)] by simp
  finally have g: "shape s' = shape (gone x t)" .
  have empty: "L - {x} = {}" using ok(2) by blast
  show "stack_ok U {} s'" using gone_weak(1) [OF ok' q(1) g] unfolding empty .
  show "same_input s s'" using same_input_gone [OF g] same_input_shape [OF sh] by (simp add: same_input_def)
qed

lemma delayed_close_ok:
  assumes "stack_ok U L s" "L \<subseteq> {x}" "pcbs s x = Some p" "active_state (state p)"
    and run: "tcp_input_delayed_close x i s = Some r" and close: "recv_flags i AND TF_CLOSED \<noteq> 0 \<or> input_close s"
  shows "fst r" "stack_ok U {} (snd r)"
proof -
  let ?t = "if \<not> tcp_is_flag_set TF_RXCLOSED p then event_err (callbacks p) x ERR_CLSD s else s"
  obtain t1 s' where t1: "tcp_pcb_remove rmv_active x ?t = Some t1" "tcp_free x t1 = Some s'" and r: "r = (True, s')"
    using run close assms(3) by (auto simp: tcp_input_delayed_close_def Let_def bind_eq_Some_conv)
  have "shape ?t = shape s" by simp
  from remove_active_ok(1) [OF assms(1-4) this t1] show "fst r" "stack_ok U {} (snd r)" by (simp_all add: r)
qed

lemma delayed_close_not:
  "tcp_input_delayed_close x i s = Some r \<Longrightarrow> \<not> (recv_flags i AND TF_CLOSED \<noteq> 0 \<or> input_close s) \<Longrightarrow> r = (False, s)"
  by (auto simp: tcp_input_delayed_close_def)

lemma input_recv_ok:
  assumes d: "delivering U x (False, s)" and run: "input_recv x i s = Some r"
  shows "delivering U x r"
proof (cases "recv_data i")
  case None
  then show ?thesis using run d by (simp add: input_recv_def)
next
  case (Some data)
  obtain p where p: "pcbs s x = Some p" using run Some by (auto simp: input_recv_def bind_eq_Some_conv)
  have ok: "stack_ok U {} s" using d by (simp add: delivering_def)
  show ?thesis
  proof (cases "tcp_is_flag_set TF_RXCLOSED p")
    case True
    then obtain s' where "tcp_abort x s = Some s'" "r = (True, s')"
      using run Some p by (auto simp: input_recv_def bind_eq_Some_conv)
    then show ?thesis using abort_told(1) [OF ok] by (simp add: delivering_def)
  next
    case False
    then obtain err s1 where s1: "TCP_EVENT_RECV x data s = Some (err, s1)"
        and rest: "(if err = ERR_ABRT then Some (True, s1)
            else if err \<noteq> ERR_OK
            then do { s \<leftarrow> upd_pcb (\<lambda>pcb. pcb\<lparr>refused_data := Some data, refused_fin := False\<rparr>) x s1; Some (False, s) }
            else Some (False, s1)) = Some r"
      using run Some p by (auto simp: input_recv_def bind_eq_Some_conv)
    have 1: "delivering U x (err = ERR_ABRT, s1)" using d recv_told [OF ok s1] by (rule delivering_told)
    show ?thesis
    proof (cases "err = ERR_ABRT \<or> err = ERR_OK")
      case True
      then show ?thesis using rest 1 by auto
    next
      case False
      then obtain s2 where s2: "upd_pcb (\<lambda>pcb. pcb\<lparr>refused_data := Some data, refused_fin := False\<rparr>) x s1 = Some s2" "r = (False, s2)"
        using rest by (auto simp: bind_eq_Some_conv)
      have "shape s2 = shape s1" using s2(1) by (rule shape_upd) (simp add: place_simps)
      then show ?thesis using delivering_shape [of U x s1 s2] 1 False s2(2) by simp
    qed
  qed
qed

lemma input_fin_ok:
  assumes d: "delivering U x (False, s)" and run: "input_fin x i s = Some r"
  shows "delivered U x r"
proof (cases "got_fin i")
  case False
  then show ?thesis using run d by (simp add: input_fin_def delivered_def)
next
  case True
  then obtain p where p: "pcbs s x = Some p" using run by (auto simp: input_fin_def bind_eq_Some_conv)
  show ?thesis
  proof (cases "refused_data p = None")
    case False
    then obtain s1 where s1: "upd_pcb (\<lambda>pcb. pcb\<lparr>refused_fin := True\<rparr>) x s = Some s1" "r = (False, s1)"
      using run p True by (auto simp: input_fin_def bind_eq_Some_conv)
    have "shape s1 = shape s" using s1(1) by (rule shape_upd) (simp add: place_simps)
    then show ?thesis using delivering_shape [OF d] s1(2) by (simp add: delivered_def)
  next
    case True
    then obtain s1 err s2 where s1: "upd_pcb rcv_wnd_fin x s = Some s1" and s2: "TCP_EVENT_CLOSED x s1 = Some (err, s2)"
        and r: "r = (err = ERR_ABRT, s2)"
      using run p \<open>got_fin i\<close> by (auto simp: input_fin_def bind_eq_Some_conv)
    have "shape s1 = shape s" using s1 by (rule shape_upd) (simp add: place_simps)
    with d have 1: "delivering U x (False, s1)" by (rule delivering_shape)
    then have "stack_ok U {} s1" by (simp add: delivering_def)
    from closed_told [OF this s2] show ?thesis
      unfolding r using 1 by (auto simp: delivered_def delivering_def same_input_def)
  qed
qed

lemma unless_gone_cases:
  assumes "unless_gone f r = Some r'" shows "fst r \<and> r' = r \<or> \<not> fst r \<and> f (snd r) = Some r'"
  using assms by (auto simp: unless_gone_def split: if_splits)

lemma input_deliver_ok:
  assumes d: "delivering U x (False, s)" and p: "pcbs s x = Some p"
    and act: "recv_flags i AND TF_CLOSED \<noteq> 0 \<Longrightarrow> active_state (state p)" and run: "input_deliver x i s = Some r"
  shows "stack_ok U {} (snd r)"
proof -
  obtain r1 r2 r3 r4 r5 where
    r1: "input_sent x i s = Some r1" and r2: "unless_gone (tcp_input_delayed_close x i) r1 = Some r2" and
    r3: "unless_gone (input_recv x i) r2 = Some r3" and r4: "unless_gone (input_fin x i) r3 = Some r4" and
    r5: "unless_gone (\<lambda>s. tcp_input_delayed_close x i (s\<lparr>tcp_input_pcb := None\<rparr>)) r4 = Some r5" and
    r6: "unless_gone (\<lambda>s. do { (_, s) \<leftarrow> output_pcb x s; Some (False, s) }) r5 = Some r"
    using run unfolding input_deliver_def by (elim bind_SomeE)
  note 1 = input_sent_ok [OF d p r1]
  have 2: "delivering U x r2 \<and> (\<not> fst r2 \<longrightarrow> recv_flags i AND TF_CLOSED = 0)"
  proof (cases "fst r1")
    case True
    then show ?thesis using 1 unless_gone_cases [OF r2] by auto
  next
    case False
    then have run2: "tcp_input_delayed_close x i (snd r1) = Some r2" using unless_gone_cases [OF r2] by blast
    obtain q where q: "pcbs (snd r1) x = Some q" "place q = place p" using 1(2) [OF False] by blast
    have inp: "stack_ok U {} (snd r1)" "\<not> input_close (snd r1)" using 1(1) False by (simp_all add: delivering_def)
    show ?thesis
    proof (cases "recv_flags i AND TF_CLOSED \<noteq> 0")
      case True
      then have "active_state (state q)" using act place_state [OF q(2)] by simp
      from delayed_close_ok [OF inp(1) _ q(1) this run2] show ?thesis using True by (simp add: delivering_def)
    next
      case no: False
      then have "r2 = (False, snd r1)" using delayed_close_not [OF run2] inp(2) by blast
      then show ?thesis using 1(1) False no by (simp add: delivering_def)
    qed
  qed
  have 3: "delivering U x r3 \<and> (\<not> fst r3 \<longrightarrow> recv_flags i AND TF_CLOSED = 0)"
    using unless_gone_cases [OF r3] 2 input_recv_ok [of U x "snd r2" i r3] by (cases r2) auto
  have 4: "delivered U x r4 \<and> (\<not> fst r4 \<longrightarrow> recv_flags i AND TF_CLOSED = 0)"
    using unless_gone_cases [OF r4] 3 input_fin_ok [of U x "snd r3" i r4] by (cases r3) (auto simp: delivered_def)
  have 5: "stack_ok U {} (snd r5)"
  proof (cases "fst r4")
    case True
    then show ?thesis using unless_gone_cases [OF r5] 4 by (auto simp: delivered_def delivering_def)
  next
    case False
    let ?s = "(snd r4)\<lparr>tcp_input_pcb := None\<rparr>"
    have run5: "tcp_input_delayed_close x i ?s = Some r5" using False unless_gone_cases [OF r5] by blast
    consider "stack_ok U {} (snd r4)" "\<not> input_close (snd r4)" | "loose x (snd r4)" "stack_ok U {x} (snd r4)"
      using 4 False by (auto simp: delivered_def delivering_def)
    then show ?thesis
    proof cases
      case 1
      then have "r5 = (False, ?s)" using delayed_close_not [OF run5] 4 False by simp
      then show ?thesis using 1 by simp
    next
      case 2
      then obtain q where q: "pcbs ?s x = Some q" "active_state (state q)" "input_close ?s" by (auto simp: loose_def)
      show ?thesis by (rule delayed_close_ok(2) [OF _ subset_refl q(1,2) run5]) (use 2 q(3) in simp_all)
    qed
  qed
  show ?thesis
  proof (cases "fst r5")
    case True
    then show ?thesis using unless_gone_cases [OF r6] 5 by auto
  next
    case False
    then obtain e t where t: "output_pcb x (snd r5) = Some (e, t)" "r = (False, t)"
      using unless_gone_cases [OF r6] by (auto simp: bind_eq_Some_conv)
    then show ?thesis using stack_ok_shape [OF 5 shape_output [OF t(1)]] by simp
  qed
qed


section \<open>A whole segment\<close>

definition idle_ok :: "pcb_id set \<Rightarrow> tcp_stack \<Rightarrow> bool" where
  "idle_ok U s \<longleftrightarrow> stack_ok U {} s \<and> tcp_input_pcb s = None"

lemma active_on_list:
  assumes "stack_ok U {} s" "pcbs s x = Some p" "active_state (state p)" shows "x \<in> set (active_pcbs s)"
  using stack_ok_where(3,4) [OF assms(1,2)] assms(3) by (auto simp: active_state_def)

lemma close_active:
  assumes ok: "stack_ok U {} s" and p: "pcbs s x = Some p" "active_state (state p)" and run: "tcp_close x s = Some (err, s')"
    and p': "pcbs s' x = Some p'"
  shows "active_state (state p')"
proof -
  obtain s1 where s1: "upd_pcb (tcp_set_flags TF_RXCLOSED) x s = Some s1" and close: "tcp_close_shutdown x True s1 = Some (err, s')"
    using run by (auto simp: tcp_close_def bind_eq_Some_conv)
  have sh: "shape s1 = shape s" using s1 by (rule shape_upd) (simp add: place_simps)
  have ok1: "stack_ok U {} s1" using ok sh by (rule stack_ok_shape)
  obtain q where q: "pcbs s1 x = Some q" "place q = place p" using shape_place_Some [OF sh p(1)] by blast
  have act: "active_state (state q)" using p(2) place_state [OF q(2)] by simp
  have freed: False if "tcp_free x t = Some s'" for t using tcp_free_eq [OF that] p' by (auto simp: free_pcb_def)
  consider (fin) "tcp_close_shutdown_fin x s1 = Some (err, s')" | (free) t where "tcp_free x t = Some s'"
    | (input) e t where "purge_pcb x (s1\<lparr>st_env := e\<rparr>) = Some t" "s' = (TCP_RMV_ACTIVE x t)\<lparr>input_close := True\<rparr>"
    using close q(1) by (auto simp: tcp_close_shutdown_def Let_def bind_eq_Some_conv split: if_splits)
  then show ?thesis
  proof cases
    case fin
    have "x \<in> set (active_pcbs s')" using close_shutdown_fin_ok(3) [OF ok1 fin] active_on_list [OF ok1 q(1) act] by simp
    then show ?thesis using stack_ok_where(2) [OF close_shutdown_fin_ok(1) [OF ok1 fin] p'] by blast
  next
    case input
    have "shape t = shape s1" using shape_purge [OF input(1)] by simp
    from shape_place_Some [OF this q(1)] obtain v where v: "pcbs t x = Some v" "place v = place q" by blast
    then have "p' = v" using p' input(2) by (simp add: TCP_RMV_ACTIVE_def rmv_active_def)
    then show ?thesis using act place_state [OF v(2)] by simp
  next
    case free
    then show ?thesis using freed by blast
  qed
qed


text \<open>A block that is still there is still active.\<close>

definition stays_active :: "pcb_id \<Rightarrow> tcp_stack \<Rightarrow> bool" where
  "stays_active x s \<longleftrightarrow> (\<forall>p. pcbs s x = Some p \<longrightarrow> active_state (state p))"

lemma stays_active_shape:
  assumes "stays_active x s" "shape s' = shape s" shows "stays_active x s'"
proof (unfold stays_active_def, intro allI impI)
  fix p assume p: "pcbs s' x = Some p"
  obtain q where "pcbs s x = Some q" "place q = place p" using shape_place_Some [OF assms(2) [symmetric] p] by blast
  then show "active_state (state p)" using assms(1) place_state [of q p] by (simp add: stays_active_def)
qed

lemma stays_active_told:
  assumes "stays_active x s" "told U x err s s'" "stack_ok U {} s" shows "stays_active x s'"
proof (cases "err = ERR_ABRT")
  case True
  then show ?thesis using told_gone [of U x s s'] assms by (simp add: stays_active_def)
next
  case False
  then have "shape s' = shape s" using assms(2) by (simp add: told_def)
  with assms(1) show ?thesis by (rule stays_active_shape)
qed

lemma stays_active_closed:
  assumes ok: "stack_ok U {} s" and a: "stays_active x s" and run: "TCP_EVENT_CLOSED x s = Some (err, s')" shows "stays_active x s'"
proof -
  obtain p where p: "pcbs s x = Some p" using run by (auto simp: TCP_EVENT_CLOSED_def bind_eq_Some_conv)
  show ?thesis
  proof (cases "callbacks p")
    case Cb_initial
    then have close: "tcp_close x s = Some (err, s')" using run p by (simp add: TCP_EVENT_CLOSED_def)
    have "active_state (state p)" using a p by (simp add: stays_active_def)
    then show ?thesis using close_active [OF ok p _ close] by (simp add: stays_active_def)
  next
    case Cb_stream
    then have "callback (Ev_closed x) x s = Some (err, s')" using run p by (simp add: TCP_EVENT_CLOSED_def)
    from stays_active_told [OF a callback_told [OF ok this] ok] show ?thesis .
  next
    case Cb_cleared
    then show ?thesis using run p a by (simp add: TCP_EVENT_CLOSED_def)
  qed
qed

lemma stays_active_refused:
  assumes ok: "stack_ok U {} s" and a: "stays_active x s" and run: "tcp_process_refused_data x s = Some (err, s')"
  shows "stays_active x s'"
proof -
  obtain p d where p: "pcbs s x = Some p" "refused_data p = Some d"
    using run by (auto simp: tcp_process_refused_data_def bind_eq_Some_conv split: option.splits)
  let ?s = "put_pcb x (p\<lparr>refused_data := None\<rparr>) s"
  have sh0: "shape ?s = shape s" using shape_put [OF p(1)] by (simp add: place_simps)
  have ok0: "stack_ok U {} ?s" using ok sh0 by (rule stack_ok_shape)
  obtain err1 s1 where s1: "TCP_EVENT_RECV x d ?s = Some (err1, s1)"
      and rest: "(if err1 = ERR_OK
         then if refused_fin p
              then do {
                s \<leftarrow> upd_pcb rcv_wnd_fin x s1;
                (err, s) \<leftarrow> TCP_EVENT_CLOSED x s;
                if err = ERR_ABRT then Some (ERR_ABRT, s) else Some (ERR_OK, s)
              }
              else Some (ERR_OK, s1)
         else if err1 = ERR_ABRT then Some (ERR_ABRT, s1)
         else do { s \<leftarrow> upd_pcb (\<lambda>pcb. pcb\<lparr>refused_data := Some d\<rparr>) x s1; Some (ERR_INPROGRESS, s) }) = Some (err, s')"
    using run p by (auto simp: tcp_process_refused_data_def Let_def bind_eq_Some_conv)
  note told = recv_told [OF ok0 s1]
  have 1: "stack_ok U {} s1" "stays_active x s1"
    using told_ok [OF told ok0] stays_active_told [OF stays_active_shape [OF a sh0] told ok0] by blast+
  have upd: "shape t = shape s1" if "upd_pcb f x s1 = Some t" "\<And>p. place (f p) = place p" for f t using that by (rule shape_upd)
  show ?thesis
  proof (cases "err1 = ERR_OK \<and> refused_fin p")
    case True
    then obtain t err2 where t: "upd_pcb rcv_wnd_fin x s1 = Some t" "TCP_EVENT_CLOSED x t = Some (err2, s')"
      using rest by (auto simp: bind_eq_Some_conv split: if_splits)
    have sh: "shape t = shape s1" using t(1) by (rule upd) (simp add: place_simps)
    show ?thesis by (rule stays_active_closed [OF stack_ok_shape [OF 1(1) sh] stays_active_shape [OF 1(2) sh] t(2)])
  next
    case False
    then show ?thesis using rest 1(2) stays_active_shape [OF 1(2) upd]
      by (auto simp: bind_eq_Some_conv place_simps split: if_splits)
  qed
qed

lemma input_refused_ok:
  assumes ok: "idle_ok U s" and a: "stays_active x s" and run: "input_refused x i s = Some (g, s')"
  shows "idle_ok U s' \<and> input_close s' = input_close s \<and> stays_active x s'"
proof -
  obtain p where p: "pcbs s x = Some p" using run by (auto simp: input_refused_def bind_eq_Some_conv)
  show ?thesis
  proof (cases "refused_data p = None")
    case True
    then show ?thesis using run p ok a by (simp add: input_refused_def)
  next
    case False
    then obtain err s1 where s1: "tcp_process_refused_data x s = Some (err, s1)"
      and s': "s' = s1 \<or> (\<exists>b. on_pcb (\<lambda>pcb e. Some (tcp_send_empty_ack pcb e)) x s1 = Some (b, s'))"
      using run p by (auto simp: input_refused_def bind_eq_Some_conv split: if_splits)
    have idle: "stack_ok U {} s" "tcp_input_pcb s = None" using ok by (simp_all add: idle_ok_def)
    note 1 = refused_ok [OF idle(1) s1 idle(2)] stays_active_refused [OF idle(1) a s1]
    have sh: "shape s' = shape s1" using s' by (auto intro: shape_on dest: place_send_empty_ack)
    show ?thesis
      using stack_ok_shape [OF 1(1) sh] stays_active_shape [OF 1(3) sh] same_input_shape [OF sh] 1(2) idle(2)
      by (simp add: idle_ok_def same_input_def)
  qed
qed

lemma input_pcb_ok:
  assumes ok: "idle_ok U s" and a: "stays_active x s" and quiet: "recv_flags (h_in sg) = 0" and run: "input_pcb x sg s = Some s'"
  shows "idle_ok U s'"
proof -
  let ?s = "s\<lparr>input_close := False\<rparr>"
  obtain g s1 where s1: "input_refused x (h_in sg) ?s = Some (g, s1)"
    using run by (auto simp: input_pcb_def elim!: bind_SomeE)
  have "idle_ok U ?s" "stays_active x ?s" using ok a by (simp_all add: idle_ok_def stays_active_def)
  from input_refused_ok [OF this s1] have 1: "idle_ok U s1" "\<not> input_close s1" "stays_active x s1" by simp_all
  show ?thesis
  proof (cases g)
    case True
    then have "s' = s1\<lparr>tcp_input_pcb := None\<rparr>" using run s1 by (simp add: input_pcb_def)
    then show ?thesis using 1(1) by (simp add: idle_ok_def)
  next
    case False
    let ?t = "s1\<lparr>tcp_input_pcb := Some x\<rparr>"
    obtain err i s2 where s2: "tcp_process x sg ?t = Some (err, i, s2)"
      using run s1 False by (auto simp: input_pcb_def elim!: bind_SomeE)
    obtain s3 where s3: "(if err = ERR_ABRT then Some s2
          else if recv_flags i AND TF_RESET \<noteq> 0
          then do {
            pcb \<leftarrow> pcbs s2 x;
            s \<leftarrow> tcp_pcb_remove rmv_active x (event_err (callbacks pcb) x ERR_RST s2);
            tcp_free x s
          }
          else do { (_, s) \<leftarrow> input_deliver x i s2; Some s }) = Some s3" and s': "s' = s3\<lparr>tcp_input_pcb := None\<rparr>"
      using run s1 False unfolding input_pcb_def by (simp only: s1 s2 bind.bind_lunit prod.case if_False simp_thms) (auto elim!: bind_SomeE)
    obtain p where p: "pcbs ?t x = Some p" using s2 by (cases "pcbs ?t x") (simp_all add: tcp_process_def Let_def)
    have act: "active_state (state p)" using 1(3) p by (simp add: stays_active_def)
    have okt: "stack_ok U {} ?t" using 1(1) by (simp add: idle_ok_def)
    have pr: "stack_ok U {} s2" "same_input ?t s2"
      "err \<noteq> ERR_ABRT \<Longrightarrow> \<exists>q. pcbs s2 x = Some q \<and> (recv_flags i AND TF_CLOSED \<noteq> 0 \<or> recv_flags i AND TF_RESET \<noteq> 0 \<longrightarrow> active_state (state q))"
      using process_ok [OF okt p act quiet s2] by (auto simp: processed_def)
    have "stack_ok U {} s3"
    proof (cases "err = ERR_ABRT")
      case True
      then show ?thesis using s3 pr(1) by simp
    next
      case False
      then obtain q where q: "pcbs s2 x = Some q"
          "recv_flags i AND TF_CLOSED \<noteq> 0 \<or> recv_flags i AND TF_RESET \<noteq> 0 \<Longrightarrow> active_state (state q)" using pr(3) by blast
      show ?thesis
      proof (cases "recv_flags i AND TF_RESET = 0")
        case no: False
        then obtain t1 where t1: "tcp_pcb_remove rmv_active x (event_err (callbacks q) x ERR_RST s2) = Some t1" "tcp_free x t1 = Some s3"
          using s3 False q(1) by (auto simp: bind_eq_Some_conv)
        show ?thesis by (rule remove_active_ok(1) [OF pr(1) _ q(1) _ _ t1]) (use q(2) no in simp_all)
      next
        case True
        then obtain r where r: "input_deliver x i s2 = Some r" "s3 = snd r" using s3 False by (auto simp: bind_eq_Some_conv)
        have "delivering U x (False, s2)" using pr(1,2) 1(2) by (simp add: delivering_def same_input_def)
        from input_deliver_ok [OF this q(1) _ r(1)] q(2) show ?thesis by (simp add: r(2))
      qed
    qed
    then show ?thesis by (simp add: s' idle_ok_def)
  qed
qed


text \<open>A SYN for a listening block makes a new active block.\<close>

lemma tcp_listen_input_ok:
  assumes ok: "stack_ok U {} s" and l: "l \<in> fst ` set (listen_pcbs s)" and run: "tcp_listen_input l lpcb sg s = Some s'"
  shows "stack_ok U {} s' \<and> same_input s s'"
proof (cases "i_flags (h_in sg) AND TCP_RST \<noteq> 0 \<or> i_flags (h_in sg) AND TCP_ACK \<noteq> 0 \<or> i_flags (h_in sg) AND TCP_SYN = 0")
  case True
  then have "shape s' = shape s" using run by (auto simp: tcp_listen_input_def Let_def split: if_splits)
  then show ?thesis using stack_ok_shape [OF ok] same_input_shape by blast
next
  case False
  let ?i = "h_in sg"
  obtain r t where t: "tcp_alloc (l_prio lpcb) s = Some (r, t)"
    using run False by (auto simp: tcp_listen_input_def Let_def elim!: bind_SomeE)
  note alloc = tcp_alloc_ok [OF ok t]
  show ?thesis
  proof (cases r)
    case None
    then have "shape s' = shape t" using run False t by (auto simp: tcp_listen_input_def Let_def bind_eq_Some_conv)
    then show ?thesis using stack_ok_shape [OF alloc(1)] same_input_shape same_input_trans [OF alloc(2)] by blast
  next
    case (Some x)
    obtain p0 where p0: "pcbs t x = Some p0" "place p0 = (CLOSED, None, 0)" using alloc(3) [OF Some] by blast
    obtain iss t1 where t1: "tcp_next_iss t = (iss, t1)" by fastforce
    note sh1 = tcp_next_iss_shape [OF t1]
    have ok1: "stack_ok U {} t1" using alloc(1) sh1 stack_ok_shape by blast
    have p1: "pcbs t1 x = Some p0" using sh1 p0(1) by simp
    define q where "q = p0\<lparr>local_ip := h_ip_dst sg, remote_ip := h_ip_src sg, local_port := h_dest sg,
                  remote_port := h_src sg, state := SYN_RCVD, rcv_nxt := i_seqno ?i + 1, rcv_ann_right_edge := i_seqno ?i + 1,
                  snd_wl2 := iss, snd_nxt := iss, lastack := iss, snd_lbb := iss, snd_wl1 := i_seqno ?i - 1,
                  listener := Some l, so_options := l_so_options lpcb AND SOF_INHERITED, netif_idx := 0\<rparr>"
    let ?t2 = "put_pcb x q t1" let ?t3 = "TCP_REG_ACTIVE x ?t2"
    have closed: "state p0 = CLOSED" "local_port p0 = 0" using p0(2) by (simp_all add: place_def)
    have "x \<notin> set (bound_pcbs t1)" using stack_ok_where(1) [OF ok1 p1] closed by blast
    moreover have same1: "same_input s t1" using alloc(2) sh1 same_input_shape same_input_trans by blast
    then have "l \<in> fst ` set (listen_pcbs t1)" using l by (metis same_input_def list.set_map)
    ultimately have join: "stack_ok U {} ?t3" "same_input t1 ?t3"
      using join_active_ok [OF ok1 p1 closed(1), of q ?t2 False] by (simp_all add: q_def)
    have p3: "pcbs ?t3 x = Some q" by (simp add: TCP_REG_ACTIVE_def timer_needed_def)
    obtain v where v: "tcp_parseopt (h_opts sg) q = Some v" and
      rest: "(let pcb = v\<lparr>snd_wnd := i_wnd ?i, snd_wnd_max := i_wnd ?i,
                             mss := tcp_eff_send_mss (mss v) (local_ip v) (remote_ip v) (st_env ?t3)\<rparr> in do {
               (rc, s) \<leftarrow> on_pcb (\<lambda>pcb. tcp_enqueue_flags pcb (TCP_SYN OR TCP_ACK)) x (put_pcb x pcb ?t3);
               if rc \<noteq> ERR_OK then tcp_abandon x False s
               else do { (_, s) \<leftarrow> output_pcb x s; Some s } }) = Some s'"
    proof -
      have "do {
               pcb \<leftarrow> tcp_parseopt (h_opts sg) q;
               let pcb = pcb\<lparr>snd_wnd := i_wnd ?i, snd_wnd_max := i_wnd ?i,
                             mss := tcp_eff_send_mss (mss pcb) (local_ip pcb) (remote_ip pcb) (st_env ?t3)\<rparr>;
               (rc, s) \<leftarrow> on_pcb (\<lambda>pcb. tcp_enqueue_flags pcb (TCP_SYN OR TCP_ACK)) x (put_pcb x pcb ?t3);
               if rc \<noteq> ERR_OK then tcp_abandon x False s
               else do { (_, s) \<leftarrow> output_pcb x s; Some s }
             } = Some s'"
        using run False t Some t1 p1 p3 by (simp add: tcp_listen_input_def Let_def upd_pcb_def q_def)
      then show ?thesis using that by (rule bind_SomeE)
    qed
    define w where "w = v\<lparr>snd_wnd := i_wnd ?i, snd_wnd_max := i_wnd ?i,
                             mss := tcp_eff_send_mss (mss v) (local_ip v) (remote_ip v) (st_env ?t3)\<rparr>"
    have "place w = place q" using place_parseopt [OF v] by (simp add: w_def place_simps)
    then have sh4: "shape (put_pcb x w ?t3) = shape ?t3" using shape_put [OF p3] by simp
    obtain rc t5 where t5: "on_pcb (\<lambda>pcb. tcp_enqueue_flags pcb (TCP_SYN OR TCP_ACK)) x (put_pcb x w ?t3) = Some (rc, t5)"
        and rest5: "(if rc \<noteq> ERR_OK then tcp_abandon x False t5 else do { (_, s) \<leftarrow> output_pcb x t5; Some s }) = Some s'"
      using rest unfolding Let_def w_def [symmetric] by (auto elim!: bind_SomeE)
    have "shape t5 = shape (put_pcb x w ?t3)" using t5 by (rule shape_on) (rule place_enqueue_flags)
    then have sh5: "shape t5 = shape ?t3" using sh4 by simp
    have ok5: "stack_ok U {} t5" using join(1) sh5 by (rule stack_ok_shape)
    have same5: "same_input s t5" using same1 join(2) same_input_shape [OF sh5] by (simp add: same_input_def)
    show ?thesis
    proof (cases "rc = ERR_OK")
      case True
      then obtain b where "output_pcb x t5 = Some (b, s')" using rest5 by (auto simp: bind_eq_Some_conv)
      from shape_output [OF this] show ?thesis
        using stack_ok_shape [OF ok5] same_input_shape same_input_trans [OF same5] by blast
    next
      case False
      then have run5: "tcp_abandon x False t5 = Some s'" using rest5 by simp
      obtain u where u: "pcbs t5 x = Some u" using tcp_abandon_gone(2) [OF ok5 run5] by blast
      note g = tcp_abandon_gone(1) [OF ok5 run5]
      show ?thesis using gone_weak(2) [OF ok5 u g] same_input_gone [OF g] same_input_trans [OF same5] by blast
    qed
  qed
qed

lemma tcp_timewait_input_ok:
  assumes ok: "stack_ok U {} s" and run: "tcp_timewait_input x sg s = Some s'"
  shows "stack_ok U {} s' \<and> same_input s s'"
proof -
  let ?i = "h_in sg"
  obtain p where p: "pcbs s x = Some p" using run by (auto simp: tcp_timewait_input_def Let_def elim!: bind_SomeE)
  have acks: "shape s' = shape t" if run: "do { s \<leftarrow> upd_pcb tcp_ack_now x t; (_, s) \<leftarrow> output_pcb x s; Some s } = Some s'" for t
  proof -
    obtain u b where "upd_pcb tcp_ack_now x t = Some u" "output_pcb x u = Some (b, s')" using run by (auto simp: bind_eq_Some_conv)
    then show ?thesis using shape_upd_flags(3) shape_output by metis
  qed
  have "shape s' = shape s"
  proof (cases "i_flags ?i AND TCP_RST \<noteq> 0 \<or> i_flags ?i AND TCP_SYN \<noteq> 0 \<and>
             TCP_SEQ_BETWEEN (i_seqno ?i) (rcv_nxt p) (rcv_nxt p + ucast (rcv_wnd p))")
    case True
    then show ?thesis using run p by (auto simp: tcp_timewait_input_def Let_def split: if_splits)
  next
    case False
    then obtain t where t: "(if i_flags ?i AND TCP_SYN = 0 \<and> i_flags ?i AND TCP_FIN \<noteq> 0
             then upd_pcb (\<lambda>pcb. pcb\<lparr>tmr := tcp_ticks (st_env s)\<rparr>) x s else Some s) = Some t"
        and rest: "(if tcplen ?i > 0 then do { s \<leftarrow> upd_pcb tcp_ack_now x t; (_, s) \<leftarrow> output_pcb x s; Some s } else Some t) = Some s'"
      using run p by (auto simp: tcp_timewait_input_def Let_def elim!: bind_SomeE)
    have "shape t = shape s" using t by (auto simp: place_simps dest!: shape_upd split: if_splits)
    then show ?thesis using rest acks [of t] by (auto split: if_splits)
  qed
  then show ?thesis using stack_ok_shape [OF ok] same_input_shape by blast
qed

lemma find_pcb_in: "find_pcb P sg s xs = Some (Some x) \<Longrightarrow> x \<in> set xs"
  by (induction xs) (auto simp: bind_eq_Some_conv split: if_splits)

lemma tcp_parse_quiet: "tcp_parse pk = Some sg \<Longrightarrow> recv_flags (h_in sg) = 0"
  by (auto simp: tcp_parse_def Let_def split: if_splits option.splits prod.splits)

lemma tcp_input_ok:
  assumes ok: "idle_ok U s" and run: "tcp_input pk s = Some s'" shows "idle_ok U s'"
proof (cases "tcp_parse pk")
  case None
  then show ?thesis using run ok by (simp add: tcp_input_def)
next
  case (Some sg)
  have ok': "stack_ok U {} s" "tcp_input_pcb s = None" using ok by (simp_all add: idle_ok_def)
  have same: "idle_ok U t" if "stack_ok U {} t \<and> same_input s t" for t using that ok'(2) by (simp add: idle_ok_def same_input_def)
  obtain found where found: "find_pcb active_state sg s (active_pcbs s) = Some found"
    using run Some by (auto simp: tcp_input_def elim!: bind_SomeE)
  show ?thesis
  proof (cases found)
    case (Some x)
    let ?s = "s\<lparr>active_pcbs := x # remove1 x (active_pcbs s)\<rparr>"
    have x: "x \<in> set (active_pcbs s)" using found Some find_pcb_in by blast
    have "stack_ok U {} ?s"
      using lists_ok_front [OF ok'(1) [unfolded stack_ok_def] x] by (simp add: stack_ok_def places_def)
    then have "idle_ok U ?s" using ok'(2) by (simp add: idle_ok_def)
    moreover have "stays_active x ?s" using stack_ok_member(1) [OF ok'(1) x] by (auto simp: stays_active_def)
    moreover have "input_pcb x sg ?s = Some s'" using run found Some \<open>tcp_parse pk = Some sg\<close> by (simp add: tcp_input_def)
    ultimately show ?thesis using input_pcb_ok tcp_parse_quiet [OF \<open>tcp_parse pk = Some sg\<close>] by blast
  next
    case None
    then obtain waiting where waiting: "find_pcb (\<lambda>st. st = TIME_WAIT) sg s (tw_pcbs s) = Some waiting"
      using run found \<open>tcp_parse pk = Some sg\<close> by (auto simp: tcp_input_def elim!: bind_SomeE)
    note eqs = found waiting \<open>tcp_parse pk = Some sg\<close> None
    show ?thesis
    proof (cases waiting)
      case (Some x)
      then have "tcp_timewait_input x sg s = Some s'" using run eqs by (simp add: tcp_input_def)
      then show ?thesis using same tcp_timewait_input_ok [OF ok'(1)] by blast
    next
      case no: None
      show ?thesis
      proof (cases "listen_pcbs s")
        case Nil
        then have "shape s' = shape s" using run eqs no by (auto simp: tcp_input_def split: if_splits)
        then show ?thesis using same stack_ok_shape [OF ok'(1)] same_input_shape by blast
      next
        case (Cons m ls)
        then have "tcp_listen_input (fst m) (snd m) sg s = Some s'" using run eqs no by (simp add: tcp_input_def case_prod_beta)
        moreover have "fst m \<in> fst ` set (listen_pcbs s)" using Cons by simp
        ultimately show ?thesis using same tcp_listen_input_ok [OF ok'(1)] by blast
      qed
    qed
  qed
qed


section \<open>The timers\<close>

lemma idle_shape: "idle_ok U s \<Longrightarrow> shape s' = shape s \<Longrightarrow> idle_ok U s'"
  using stack_ok_shape [of U "{}" s s'] same_input_shape [of s' s] by (simp add: idle_ok_def same_input_def)

lemma idle_same: "idle_ok U s \<Longrightarrow> stack_ok U {} s' \<Longrightarrow> same_input s s' \<Longrightarrow> idle_ok U s'"
  by (simp add: idle_ok_def same_input_def)

lemma idle_told: "idle_ok U s \<Longrightarrow> told U x err s s' \<Longrightarrow> idle_ok U s'"
  using told_ok [of U x err s s'] idle_same [of U s s'] by (simp add: idle_ok_def)

lemma idle_freed:
  assumes ok: "idle_ok U s" and q: "pcbs t x = Some q" and sh: "shape t = shape s" and gone: "gone x t = free_pcb x v"
    and run: "tcp_free x u = Some s'" and u: "shape u = shape v"
  shows "idle_ok U s'"
proof -
  have okt: "stack_ok U {} t" using ok sh stack_ok_shape by (auto simp: idle_ok_def)
  have g: "shape s' = shape (gone x t)" using tcp_free_eq [OF run] free_shape [OF u] gone by simp
  show ?thesis
    using idle_same [OF ok gone_weak(2) [OF okt q g]] same_input_gone [OF g] same_input_shape [OF sh] by (simp add: same_input_def)
qed

lemma slowtmr_remove_ok:
  assumes ok: "idle_ok U s" and p: "pcbs s x = Some p" "active_state (state p)" and run: "slowtmr_remove x reset s = Some (b, s')"
  shows "idle_ok U s'"
proof -
  obtain t where t: "purge_pcb x s = Some t" using run by (auto simp: slowtmr_remove_def elim!: bind_SomeE)
  have sh: "shape t = shape s" using t by (rule shape_purge)
  obtain q where q: "pcbs t x = Some q" "place q = place p" using shape_place_Some [OF sh p(1)] by blast
  obtain u v where u: "shape u = shape (rmv_active x t)" "tcp_free x u = Some v" and s': "shape s' = shape v"
  proof -
    let ?u = "if reset then (rmv_active x t)\<lparr>st_env := tcp_rst (snd_nxt q) (rcv_nxt q) (local_ip q) (remote_ip q) (local_port q)
                       (remote_port q) (st_env (rmv_active x t))\<rparr> else rmv_active x t"
    obtain v where "tcp_free x ?u = Some v" "s' = event_err (callbacks q) x ERR_ABRT (v\<lparr>active_pcbs_changed := False\<rparr>)"
      using run t q(1) by (auto simp: slowtmr_remove_def Let_def elim!: bind_SomeE)
    then show ?thesis using that [of ?u v] by simp
  qed
  have okt: "stack_ok U {} t" using ok sh stack_ok_shape by (auto simp: idle_ok_def)
  have "active_state (state q)" using p(2) place_state [OF q(2)] by simp
  then have "idle_ok U v" using idle_freed [OF ok q(1) sh gone_cases(1) [OF okt q(1)] u(2,1)] by blast
  then show ?thesis using s' by (rule idle_shape)
qed

lemma slowtmr_poll_ok:
  assumes ok: "idle_ok U s" and run: "slowtmr_poll x s = Some (b, s')" shows "idle_ok U s'"
proof -
  obtain t where t: "upd_pcb (\<lambda>pcb. pcb\<lparr>polltmr := polltmr pcb + 1\<rparr>) x s = Some t"
    using run by (auto simp: slowtmr_poll_def elim!: bind_SomeE)
  have sht: "shape t = shape s" using t by (rule shape_upd) (simp add: place_simps)
  obtain p where p: "pcbs t x = Some p" using run t by (auto simp: slowtmr_poll_def elim!: bind_SomeE)
  show ?thesis
  proof (cases "polltmr p \<ge> pollinterval p")
    case False
    then have "s' = t" using run t p by (simp add: slowtmr_poll_def)
    then show ?thesis using idle_shape [OF ok sht] by simp
  next
    case True
    obtain u where u: "upd_pcb (\<lambda>pcb. pcb\<lparr>polltmr := 0\<rparr>) x t = Some u"
      using run t p True by (auto simp: slowtmr_poll_def elim!: bind_SomeE)
    let ?u = "u\<lparr>active_pcbs_changed := False\<rparr>"
    have "shape u = shape t" using u by (rule shape_upd) (simp add: place_simps)
    then have oku: "idle_ok U ?u" using idle_shape [OF ok, of ?u] sht by simp
    obtain err v where v: "(if callbacks p = Cb_stream then callback (Ev_poll x) x ?u else Some (ERR_OK, ?u)) = Some (err, v)"
      and rest: "(if active_pcbs_changed v then Some (True, v)
       else if err = ERR_OK then do { (_, s) \<leftarrow> output_pcb x v; Some (False, s) }
       else Some (False, v)) = Some (b, s')"
      using run t p True u unfolding slowtmr_poll_def by (simp only: bind.bind_lunit Let_def if_True) (auto elim!: bind_SomeE)
    have "stack_ok U {} ?u" using oku by (simp add: idle_ok_def)
    note told = callback_told [OF this]
    have "idle_ok U v"
    proof (cases "callbacks p = Cb_stream")
      case True
      then have "callback (Ev_poll x) x ?u = Some (err, v)" using v by simp
      from idle_told [OF oku told [OF this]] show ?thesis .
    next
      case False
      then show ?thesis using v oku by simp
    qed
    then show ?thesis using rest idle_shape shape_output by (auto simp: bind_eq_Some_conv split: if_splits)
  qed
qed

lemma slowtmr_step_ok:
  assumes ok: "idle_ok U s" and p: "pcbs s x = Some p" "active_state (state p)" and run: "slowtmr_step x s = Some (b, s')"
  shows "idle_ok U s'"
proof -
  obtain t where t: "upd_pcb (\<lambda>pcb. pcb\<lparr>last_timer := tcp_timer_ctr s\<rparr>) x s = Some t"
    using run by (auto simp: slowtmr_step_def elim!: bind_SomeE)
  have sht: "shape t = shape s" using t by (rule shape_upd) (simp add: place_simps)
  obtain q where q: "pcbs t x = Some q" "place q = place p" using shape_place_Some [OF sht p(1)] by blast
  obtain g reset v e where v: "slowtmr_pcb (tcp_input_pcb t = Some x) q (st_env t) = Some (g, reset, v, e)"
    and rest: "(if g then slowtmr_remove x reset ((put_pcb x v t)\<lparr>st_env := e\<rparr>) else slowtmr_poll x ((put_pcb x v t)\<lparr>st_env := e\<rparr>)) = Some (b, s')"
    using run t q(1) by (auto simp: slowtmr_step_def Let_def elim!: bind_SomeE)
  let ?u = "(put_pcb x v t)\<lparr>st_env := e\<rparr>"
  have "place v = place q" using v by (rule place_slowtmr)
  moreover from this have "shape ?u = shape t" using shape_put [OF q(1)] by simp
  ultimately have u: "idle_ok U ?u" "pcbs ?u x = Some v" "active_state (state v)"
    using idle_shape [OF ok, of ?u] sht p(2) place_state [of v p] q(2) by simp_all
  show ?thesis using rest slowtmr_remove_ok [OF u] slowtmr_poll_ok [OF u(1)] by (auto split: if_splits)
qed

lemma slowtmr_walk_ok: "slowtmr_walk fuel xs s = Some s' \<Longrightarrow> idle_ok U s \<Longrightarrow> idle_ok U s'"
proof (induction fuel xs s rule: slowtmr_walk.induct)
  case (3 fuel x xs s)
  obtain p where p: "pcbs s x = Some p" "active_state (state p)" using "3.prems"(1) by (auto simp: bind_eq_Some_conv)
  show ?case
  proof (cases "last_timer p = tcp_timer_ctr s")
    case True
    then show ?thesis using 3 p by simp
  next
    case False
    then obtain c t where t: "slowtmr_step x s = Some (c, t)" using "3.prems"(1) p by (auto elim!: bind_SomeE)
    then have run: "slowtmr_walk fuel (if c then active_pcbs t else xs) t = Some s'" using "3.prems"(1) p False by (simp split: if_splits)
    have okt: "idle_ok U t" by (rule slowtmr_step_ok [OF "3.prems"(2) p t])
    show ?thesis using "3.IH"(2,3) [OF p(1) _ False t refl] p(2) run okt by (cases c) simp_all
  qed
qed simp_all

lemma slowtmr_timewait_ok: "slowtmr_timewait xs s = Some s' \<Longrightarrow> idle_ok U s \<Longrightarrow> idle_ok U s'"
proof (induction xs arbitrary: s)
  case (Cons x xs)
  obtain p where p: "pcbs s x = Some p" "state p = TIME_WAIT" using Cons.prems(1) by (auto simp: bind_eq_Some_conv)
  obtain t where t: "(if idle_ticks p (st_env s) > 2 * TCP_MSL div TCP_SLOW_INTERVAL
           then do { s \<leftarrow> purge_pcb x s; tcp_free x (rmv_tw x s) } else Some s) = Some t" and rest: "slowtmr_timewait xs t = Some s'"
    using Cons.prems(1) p by (auto elim!: bind_SomeE)
  have "idle_ok U t"
  proof (cases "idle_ticks p (st_env s) > 2 * TCP_MSL div TCP_SLOW_INTERVAL")
    case True
    then obtain u where u: "purge_pcb x s = Some u" "tcp_free x (rmv_tw x u) = Some t" using t by (auto elim!: bind_SomeE)
    have sh: "shape u = shape s" using u(1) by (rule shape_purge)
    have oku: "stack_ok U {} u" using Cons.prems(2) sh stack_ok_shape by (auto simp: idle_ok_def)
    obtain q where q: "pcbs u x = Some q" "place q = place p" using shape_place_Some [OF sh p(1)] by blast
    have "state q = TIME_WAIT" using p(2) place_state [OF q(2)] by simp
    then show ?thesis using idle_freed [OF Cons.prems(2) q(1) sh gone_cases(2) [OF oku q(1)] u(2) refl] by blast
  next
    case False
    then show ?thesis using t Cons.prems(2) by simp
  qed
  then show ?case using Cons.IH rest by blast
qed simp

lemma tcp_slowtmr_ok:
  assumes "idle_ok U s" "tcp_slowtmr s = Some s'" shows "idle_ok U s'"
proof -
  let ?s = "s\<lparr>st_env := (st_env s)\<lparr>tcp_ticks := tcp_ticks (st_env s) + 1\<rparr>, tcp_timer_ctr := tcp_timer_ctr s + 1\<rparr>"
  obtain t where "slowtmr_walk (walk_fuel ?s) (active_pcbs ?s) ?s = Some t" "slowtmr_timewait (tw_pcbs t) t = Some s'"
    using assms(2) by (auto simp: tcp_slowtmr_def Let_def elim!: bind_SomeE)
  moreover have "idle_ok U ?s" using idle_shape [OF assms(1), of ?s] by simp
  ultimately show ?thesis using slowtmr_walk_ok slowtmr_timewait_ok by blast
qed

lemma fasttmr_step_ok:
  assumes ok: "idle_ok U s" and run: "fasttmr_step x s = Some (b, s')" shows "idle_ok U s'"
proof -
  obtain s1 where s1: "upd_pcb (\<lambda>pcb. pcb\<lparr>last_timer := tcp_timer_ctr s\<rparr>) x s = Some s1"
    using run by (auto simp: fasttmr_step_def elim!: bind_SomeE)
  have sh1: "shape s1 = shape s" using s1 by (rule shape_upd) (simp add: place_simps)
  obtain p1 where p1: "pcbs s1 x = Some p1" using run s1 by (auto simp: fasttmr_step_def elim!: bind_SomeE)
  obtain s2 where s2: "(if tcp_is_flag_set TF_ACK_DELAY p1
           then do {
             s \<leftarrow> upd_pcb tcp_ack_now x s1;
             (_, s) \<leftarrow> output_pcb x s;
             upd_pcb (tcp_clear_flags (TF_ACK_DELAY OR TF_ACK_NOW)) x s
           }
           else Some s1) = Some s2"
    using run s1 p1 by (auto simp: fasttmr_step_def simp del: if_split elim!: bind_SomeE)
  have sh2: "shape s2 = shape s1"
  proof (cases "tcp_is_flag_set TF_ACK_DELAY p1")
    case True
    then obtain u b v where "upd_pcb tcp_ack_now x s1 = Some u" "output_pcb x u = Some (b, v)"
        "upd_pcb (tcp_clear_flags (TF_ACK_DELAY OR TF_ACK_NOW)) x v = Some s2"
      using s2 by (auto elim!: bind_SomeE)
    then show ?thesis using shape_upd_flags(2,3) shape_output by metis
  next
    case False
    then show ?thesis using s2 by simp
  qed
  have ok2: "idle_ok U s2" using idle_shape [OF ok] sh1 sh2 by simp
  obtain p2 where p2: "pcbs s2 x = Some p2"
    using run s1 p1 s2 by (simp add: fasttmr_step_def del: if_split) (auto elim!: bind_SomeE)
  obtain s3 where s3: "(if tcp_is_flag_set TF_CLOSEPEND p2
           then do { s \<leftarrow> upd_pcb (tcp_clear_flags TF_CLOSEPEND) x s2; (_, s) \<leftarrow> tcp_close_shutdown_fin x s; Some s }
           else Some s2) = Some s3" and
     rest: "do { pcb \<leftarrow> pcbs s3 x;
     if refused_data pcb \<noteq> None
     then do {
       (_, s) \<leftarrow> tcp_process_refused_data x (s3\<lparr>active_pcbs_changed := False\<rparr>);
       Some (active_pcbs_changed s, s)
     }
     else Some (False, s3) } = Some (b, s')"
    using run s1 p1 s2 p2 by (simp add: fasttmr_step_def del: if_split) (auto elim!: bind_SomeE)
  have ok3: "idle_ok U s3"
  proof (cases "tcp_is_flag_set TF_CLOSEPEND p2")
    case True
    then obtain u e where u: "upd_pcb (tcp_clear_flags TF_CLOSEPEND) x s2 = Some u" "tcp_close_shutdown_fin x u = Some (e, s3)"
      using s3 by (auto elim!: bind_SomeE)
    have oku: "idle_ok U u" using idle_shape [OF ok2 shape_upd_flags(2) [OF u(1)]] .
    then have "stack_ok U {} u" by (simp add: idle_ok_def)
    from close_shutdown_fin_ok(1,2) [OF this u(2)] show ?thesis using idle_same [OF oku] by blast
  next
    case False
    then show ?thesis using s3 ok2 by simp
  qed
  obtain p3 where p3: "pcbs s3 x = Some p3" using rest by (auto elim!: bind_SomeE)
  show ?thesis
  proof (cases "refused_data p3 = None")
    case True
    then show ?thesis using rest p3 ok3 by simp
  next
    case False
    let ?t = "s3\<lparr>active_pcbs_changed := False\<rparr>"
    obtain e where e: "tcp_process_refused_data x ?t = Some (e, s')" using rest p3 False by (auto elim!: bind_SomeE)
    have okt: "idle_ok U ?t" using idle_shape [OF ok3, of ?t] by simp
    then have "stack_ok U {} ?t" "tcp_input_pcb ?t = None" by (simp_all add: idle_ok_def)
    from refused_ok [OF this(1) e this(2)] show ?thesis using idle_same [OF okt] by blast
  qed
qed

lemma fasttmr_walk_ok: "fasttmr_walk fuel xs s = Some s' \<Longrightarrow> idle_ok U s \<Longrightarrow> idle_ok U s'"
proof (induction fuel xs s rule: fasttmr_walk.induct)
  case (3 fuel x xs s)
  obtain p where p: "pcbs s x = Some p" using "3.prems"(1) by (auto elim!: bind_SomeE)
  show ?case
  proof (cases "last_timer p = tcp_timer_ctr s")
    case True
    then show ?thesis using 3 p by simp
  next
    case False
    then obtain c t where t: "fasttmr_step x s = Some (c, t)" using "3.prems"(1) p by (auto elim!: bind_SomeE)
    then have run: "fasttmr_walk fuel (if c then active_pcbs t else xs) t = Some s'" using "3.prems"(1) p False by (simp split: if_splits)
    have okt: "idle_ok U t" by (rule fasttmr_step_ok [OF "3.prems"(2) t])
    show ?thesis using "3.IH"(2,3) [OF p(1) False t refl] run okt by (cases c) simp_all
  qed
qed simp_all

lemma tcp_fasttmr_ok:
  assumes "idle_ok U s" "tcp_fasttmr s = Some s'" shows "idle_ok U s'"
proof -
  let ?s = "s\<lparr>tcp_timer_ctr := tcp_timer_ctr s + 1\<rparr>"
  have "idle_ok U ?s" using idle_shape [OF assms(1), of ?s] by simp
  then show ?thesis using assms(2) fasttmr_walk_ok by (auto simp: tcp_fasttmr_def Let_def)
qed

lemma txnow_walk_shape: "txnow_walk xs s = Some s' \<Longrightarrow> shape s' = shape s"
proof (induction xs arbitrary: s)
  case (Cons x xs)
  then obtain t where "shape t = shape s" "txnow_walk xs t = Some s'"
    by (auto dest!: shape_output elim!: bind_SomeE split: if_splits)
  then show ?case using Cons.IH by metis
qed simp

lemma tcp_tmr_ok:
  assumes ok: "idle_ok U s" and run: "tcp_tmr s = Some s'" shows "idle_ok U s'"
proof -
  obtain t where t: "tcp_fasttmr s = Some t" using run by (auto simp: tcp_tmr_def elim!: bind_SomeE)
  let ?t = "t\<lparr>tcp_timer := tcp_timer t + 1\<rparr>"
  have "idle_ok U ?t" using idle_shape [OF tcp_fasttmr_ok [OF ok t], of ?t] by simp
  then show ?thesis using run t tcp_slowtmr_ok by (auto simp: tcp_tmr_def Let_def split: if_splits)
qed

end
