(* ===== verification/Tcp_Walk.thy ===== *)
theory Tcp_Walk
  imports Tcp_Invariant
begin

text \<open>
  The walk of \<^verbatim>\<open>tcp_slowtmr\<close> over the active blocks: a step for one block leaves the other blocks alone and marks its own
  block as seen, so that the walk, which starts again whenever a callback has changed the list, meets
  blocks of the list only and comes to its end. A connection that is closed on one side is
  followed through any number of runs of the timer.
\<close>

section \<open>The mark of the timer\<close>

named_theorems mark_simps \<open>functions that keep the mark of a block\<close>

lemma mark_flags [mark_simps]:
  "last_timer (tcp_set_flags f p) = last_timer p" "last_timer (tcp_clear_flags f p) = last_timer p"
  "last_timer (tcp_ack_now p) = last_timer p" "last_timer (tcp_ack p) = last_timer p" "last_timer (announced p) = last_timer p"
  "last_timer (persist_next p) = last_timer p" "last_timer (rto_backoff p) = last_timer p"
  by (simp_all add: tcp_set_flags_def tcp_clear_flags_def tcp_ack_now_def tcp_ack_def announced_def persist_next_def
      rto_backoff_def Let_def)

lemma mark_update [mark_simps]:
  "last_timer (p\<lparr>unsent := ss\<rparr>) = last_timer p" "last_timer (p\<lparr>persist_cnt := o8\<rparr>) = last_timer p"
  "last_timer (p\<lparr>persist_backoff := o8\<rparr>) = last_timer p" "last_timer (p\<lparr>persist_probe := o8\<rparr>) = last_timer p"
  "last_timer (p\<lparr>unsent_oversize := n\<rparr>) = last_timer p" "last_timer (p\<lparr>local_ip := a\<rparr>) = last_timer p"
  "last_timer (p\<lparr>snd_queuelen := n\<rparr>) = last_timer p" "last_timer (p\<lparr>rtime := z\<rparr>) = last_timer p"
  "last_timer (p\<lparr>keep_cnt_sent := o8\<rparr>) = last_timer p" "last_timer (p\<lparr>ooseq := ss\<rparr>) = last_timer p"
  "last_timer (p\<lparr>snd_nxt := w\<rparr>) = last_timer p"
  by simp_all

lemma mark_send_empty_ack: "tcp_send_empty_ack p e = (err, p', e') \<Longrightarrow> last_timer p' = last_timer p"
  by (auto simp: tcp_send_empty_ack_def mark_simps split: option.splits if_splits)

lemma mark_output_segment: "tcp_output_segment seg p nif e = Some (err, p', e') \<Longrightarrow> last_timer p' = last_timer p"
  by (auto simp: tcp_output_segment_def Let_def bind_eq_Some_conv mark_simps split: option.splits if_splits)

lemma mark_output_sent: "tcp_output_sent seg segs p e = (p', e') \<Longrightarrow> last_timer p' = last_timer p"
  by (auto simp: tcp_output_sent_def Let_def mark_simps split: if_splits)

lemma mark_output_loop: "tcp_output_loop wnd nif segs p e = Some (err, p', e') \<Longrightarrow> last_timer p' = last_timer p"
proof (induction wnd nif segs p e rule: tcp_output_loop.induct)
  case (2 wnd nif seg segs p e)
  let ?seg = "if state p \<noteq> SYN_SENT then seg\<lparr>hdr := hdr seg OR TCP_ACK\<rparr> else seg"
  show ?case
  proof (cases "seqno seg - lastack p + ucast (len seg) \<le> wnd \<and> hdr seg AND TCP_RST = 0 \<and>
      (tcp_do_output_nagle p \<or> tcp_is_flag_set (TF_NAGLEMEMERR OR TF_FIN) p)")
    case False
    then show ?thesis using 2(2) by (auto simp: bind_eq_Some_conv split: if_splits)
  next
    case True
    then obtain err1 p1 e1 where seg: "tcp_output_segment ?seg (p\<lparr>unsent := ?seg # segs\<rparr>) nif e = Some (err1, p1, e1)"
      using 2(2) by (auto simp: Let_def bind_eq_Some_conv simp del: fun_upd_apply split: if_splits)
    have p1: "last_timer p1 = last_timer p" using mark_output_segment [OF seg] by (simp add: mark_simps)
    show ?thesis
    proof (cases "err1 = ERR_OK")
      case False
      then show ?thesis using 2(2) True seg p1 by (auto simp: Let_def mark_simps split: if_splits)
    next
      case err: True
      obtain p2 e2 where sent: "tcp_output_sent ?seg segs p1 e1 = (p2, e2)" by fastforce
      have "tcp_output_loop wnd nif segs p2 e2 = Some (err, p', e')"
        using 2(2) True seg sent err by (auto simp: Let_def split: if_splits)
      then have "last_timer p' = last_timer p2"
        by (intro 2(1) [of _ ?seg "p\<lparr>unsent := ?seg # segs\<rparr>" _ err1 "(p1, e1)" p1 e1 "tcp_output_sent ?seg segs p1 e1"])
          (use True seg sent err in auto)
      then show ?thesis using mark_output_sent [OF sent] p1 by simp
    qed
  qed
qed simp

lemma mark_output: "tcp_output input p e = Some (err, p', e') \<Longrightarrow> last_timer p' = last_timer p"
  by (auto simp only: tcp_output_def taken_apart mark_simps dest!: mark_send_empty_ack mark_output_loop
      split: list.splits option.splits if_splits)

lemma mark_split: "tcp_split_unsent_seg p n e = Some (err, p', e') \<Longrightarrow> last_timer p' = last_timer p"
  by (auto simp only: tcp_split_unsent_seg_def taken_apart mark_simps
      split: list.splits option.splits prod.splits if_splits)

lemma mark_rexmit_rto_prepare: "tcp_rexmit_rto_prepare p = (err, p') \<Longrightarrow> last_timer p' = last_timer p"
  by (auto simp: tcp_rexmit_rto_prepare_def Let_def mark_simps split: if_splits)

lemma mark_rexmit_rto_commit: "tcp_rexmit_rto_commit input p e = Some (p', e') \<Longrightarrow> last_timer p' = last_timer p"
  by (auto simp: tcp_rexmit_rto_commit_def bind_eq_Some_conv mark_simps dest!: mark_output split: if_splits)

lemma mark_zero_window_probe: "tcp_zero_window_probe p e = (err, p', e') \<Longrightarrow> last_timer p' = last_timer p"
  by (auto simp: tcp_zero_window_probe_def Let_def mark_simps split: list.splits option.splits if_splits)

lemma mark_keepalive: "tcp_keepalive p e = (err, p', e') \<Longrightarrow> last_timer p' = last_timer p"
  by (auto simp: tcp_keepalive_def mark_simps split: option.splits)

lemma mark_persist: "slowtmr_persist input p e = Some (g, p', e') \<Longrightarrow> last_timer p' = last_timer p"
  by (auto simp only: slowtmr_persist_def taken_apart mark_simps
      dest!: mark_zero_window_probe mark_split mark_output split: prod.splits if_splits)

lemma mark_rto: "slowtmr_rto input p e = Some (p', e') \<Longrightarrow> last_timer p' = last_timer p"
  by (auto simp: slowtmr_rto_def Let_def mark_simps dest!: mark_rexmit_rto_prepare mark_rexmit_rto_commit
      split: prod.splits if_splits)

lemma mark_timers: "slowtmr_timers input p e = Some (g, p', e') \<Longrightarrow> last_timer p' = last_timer p"
  by (auto simp only: slowtmr_timers_def taken_apart mark_simps dest!: mark_persist mark_rto split: if_splits)

lemma mark_slowtmr:
  assumes "slowtmr_pcb input p e = Some (given_up, reset, p', e')" shows "last_timer p' = last_timer p"
proof -
  obtain g q e1 where timers: "slowtmr_timers input p e = Some (g, q, e1)"
    using assms by (auto simp: slowtmr_pcb_def bind_eq_Some_conv)
  obtain r q2 e2 where keepalive: "slowtmr_keepalive q e1 = (r, q2, e2)" by (metis prod.exhaust)
  obtain q3 e3 where oos: "slowtmr_ooseq q2 e2 = (q3, e3)" by fastforce
  have "p' = q3" using assms timers keepalive oos by (simp add: slowtmr_pcb_def)
  moreover have "last_timer q2 = last_timer q" using keepalive
    by (cases "tcp_keepalive q e1")
       (auto simp only: slowtmr_keepalive_def taken_apart mark_simps dest!: mark_keepalive split: if_splits)
  moreover have "last_timer q3 = last_timer q2" using oos
    by (auto simp: slowtmr_ooseq_def tcp_free_ooseq_def split: if_splits)
  ultimately show ?thesis using mark_timers [OF timers] by simp
qed

section \<open>A step leaves the other blocks alone\<close>

definition around :: "pcb_id \<Rightarrow> tcp_stack \<Rightarrow> tcp_stack \<Rightarrow> bool" where
  "around x s s' \<longleftrightarrow>
     (\<forall>y. y \<noteq> x \<longrightarrow> pcbs s' y = pcbs s y) \<and> tcp_timer_ctr s' = tcp_timer_ctr s \<and> answer s' = answer s"

lemma around_refl [simp]: "around x s s"
  by (simp add: around_def)

lemma around_trans [trans]: "around x s t \<Longrightarrow> around x t u \<Longrightarrow> around x s u"
  by (simp add: around_def)

lemma around_put [simp]: "around x s (put_pcb x p s)"
  by (simp add: around_def put_pcb_def)

lemma around_env [simp]:
  "around x s (t\<lparr>st_env := e\<rparr>) = around x s t" "around x s (t\<lparr>events := ev\<rparr>) = around x s t"
  "around x s (t\<lparr>active_pcbs_changed := b\<rparr>) = around x s t" "around x s (event_err cb y err t) = around x s t"
  "around x s (rmv_active y t) = around x s t" "around x s (rmv_tw y t) = around x s t" "around x s (rmv_bound y t) = around x s t"
  "around x s (free_pcb x t) = around x s t"
  by (simp_all add: around_def event_err_def rmv_active_def rmv_tw_def rmv_bound_def free_pcb_def)

lemma around_upd: "upd_pcb f x s = Some s' \<Longrightarrow> around x s s'"
  by (auto simp: upd_pcb_def bind_eq_Some_conv)

lemma around_on: "on_pcb f x s = Some (a, s') \<Longrightarrow> around x s s'"
  by (auto simp: on_pcb_def bind_eq_Some_conv)

lemma around_output: "output_pcb x s = Some (err, s') \<Longrightarrow> around x s s'"
  unfolding output_pcb_def by (rule around_on)

lemma around_purge: "purge_pcb x s = Some s' \<Longrightarrow> around x s s'"
  by (cases "tcp_pcb_purge (the (pcbs s x)) (st_env s)") (auto simp: purge_pcb_def bind_eq_Some_conv)

lemma around_free: "tcp_free x s = Some s' \<Longrightarrow> around x t s' = around x t s"
  by (drule tcp_free_eq) auto

lemma around_remove:
  assumes "tcp_pcb_remove rmv x s = Some s'" and "takes_off rmv"
  shows "around x s s'"
proof -
  obtain t where t: "purge_pcb x (rmv x s) = Some t" using assms(1) by (auto simp: tcp_pcb_remove_def elim!: bind_SomeE)
  have "around x s (rmv x s)" using assms(2) by (auto simp: takes_off_def)
  also note around_purge [OF t]
  also have "around x t s'"
    using assms(1) t by (auto simp: tcp_pcb_remove_def bind_eq_Some_conv dest!: around_upd around_output split: if_splits intro: around_trans)
  finally show ?thesis .
qed

lemma around_abandon:
  assumes "tcp_abandon x reset s = Some s'" shows "around x s s'"
proof -
  obtain p where p: "pcbs s x = Some p" using assms by (auto simp: tcp_abandon_def elim!: bind_SomeE)
  show ?thesis
  proof (cases "state p = TIME_WAIT")
    case True
    then show ?thesis using assms p by (auto simp: tcp_abandon_def around_free takes_off_def elim!: bind_SomeE dest: around_remove)
  next
    case False
    then obtain t where t: "(if state p = CLOSED then Some (if local_port p \<noteq> 0 then rmv_bound x s else s) else TCP_PCB_REMOVE_ACTIVE x s) = Some t"
      and rest: "\<exists>e u. tcp_free x (t\<lparr>st_env := e\<rparr>) = Some u \<and> s' = event_err (callbacks p) x ERR_ABRT u"
      using assms p by (auto simp: tcp_abandon_def Let_def elim!: bind_SomeE)
    have "around x s t"
      using t by (auto simp: TCP_PCB_REMOVE_ACTIVE_def takes_off_def elim!: bind_SomeE dest!: around_remove split: if_splits)
    then show ?thesis using rest around_free by auto
  qed
qed

lemma around_callback: "callback ev x s = Some (err, s') \<Longrightarrow> around x s s'"
  using around_abandon [of x True "s\<lparr>events := events s @ [ev]\<rparr>"]
  by (auto simp: callback_def tcp_abort_def Let_def around_def elim!: bind_SomeE split: if_splits)

section \<open>One step of the walk\<close>

text \<open>The block is seen and stays on the list, or it is freed and taken off.\<close>

definition walk_step :: "pcb_id \<Rightarrow> tcp_stack \<Rightarrow> tcp_stack \<Rightarrow> bool" where
  "walk_step x s s' \<longleftrightarrow>
     around x s s' \<and>
     (pcbs s' x = None \<and> active_pcbs s' = remove1 x (active_pcbs s) \<or>
      (\<exists>p. pcbs s' x = Some p \<and> last_timer p = tcp_timer_ctr s) \<and> active_pcbs s' = active_pcbs s)"

lemma slowtmr_remove_step:
  assumes run: "slowtmr_remove x reset s = Some (b, s')"
  shows "around x s s'" "pcbs s' x = None" "active_pcbs s' = remove1 x (active_pcbs s)"
proof -
  obtain t where t: "purge_pcb x s = Some t" using run by (auto simp: slowtmr_remove_def elim!: bind_SomeE)
  obtain q where q: "pcbs t x = Some q" using run t by (auto simp: slowtmr_remove_def elim!: bind_SomeE)
  let ?u = "if reset then (rmv_active x t)\<lparr>st_env := tcp_rst (snd_nxt q) (rcv_nxt q) (local_ip q) (remote_ip q) (local_port q)
                       (remote_port q) (st_env (rmv_active x t))\<rparr> else rmv_active x t"
  obtain v where v: "tcp_free x ?u = Some v" "s' = event_err (callbacks q) x ERR_ABRT (v\<lparr>active_pcbs_changed := False\<rparr>)"
    using run t q(1) by (auto simp: slowtmr_remove_def Let_def elim!: bind_SomeE)
  have "around x s ?u" using around_purge [OF t] by (cases reset) simp_all
  then show "around x s s'" using v around_free [OF v(1), of s] by simp
  have "v = free_pcb x ?u" using tcp_free_eq [OF v(1)] by simp
  then show "pcbs s' x = None" "active_pcbs s' = remove1 x (active_pcbs s)"
    using v(2) shape_lists(1) [OF shape_purge [OF t]] by (simp_all add: event_err_def free_pcb_def rmv_active_def)
qed

lemma callback_active:
  assumes "stack_ok U {} s" and "callback ev x s = Some (err, s')" and "pcbs s x = Some p" and "active_state (state p)"
  shows "err \<noteq> ERR_ABRT \<and> pcbs s' = pcbs s \<and> active_pcbs s' = active_pcbs s \<and> active_pcbs_changed s' = active_pcbs_changed s \<or>
    pcbs s' x = None \<and> active_pcbs s' = remove1 x (active_pcbs s) \<and> err = ERR_ABRT"
proof (cases "err = ERR_ABRT")
  case True
  let ?t = "s\<lparr>events := events s @ [ev]\<rparr>"
  have run: "tcp_abandon x True ?t = Some s'"
    using assms(2) True by (auto simp: callback_def tcp_abort_def Let_def elim!: bind_SomeE split: if_splits)
  have okt: "stack_ok U {} ?t" and p: "pcbs ?t x = Some p" using assms stack_ok_shape [of U "{}" s ?t] by simp_all
  have "active_pcbs s' = remove1 x (active_pcbs s)"
    using shape_lists(1) [OF tcp_abandon_gone(1) [OF okt run]] gone_cases(1) [OF okt p assms(4)]
    by (simp add: free_pcb_def rmv_active_def)
  then show ?thesis using tcp_abandon_ok(2) [OF okt run] True by simp
next
  case False
  then show ?thesis using assms(2) by (auto simp: callback_def Let_def elim!: bind_SomeE split: if_splits)
qed

lemma walk_stepI:
  "around x s s' \<Longrightarrow> pcbs s' x = Some p \<Longrightarrow> last_timer p = tcp_timer_ctr s \<Longrightarrow> active_pcbs s' = active_pcbs s \<Longrightarrow> walk_step x s s'"
  "around x s s' \<Longrightarrow> pcbs s' x = None \<Longrightarrow> active_pcbs s' = remove1 x (active_pcbs s) \<Longrightarrow> walk_step x s s'"
  by (simp_all add: walk_step_def)

lemma slowtmr_poll_step:
  assumes ok: "stack_ok U {} s" and p: "pcbs s x = Some p" "active_state (state p)" "last_timer p = tcp_timer_ctr s"
    and run: "slowtmr_poll x s = Some (b, s')"
  shows "walk_step x s s'"
proof -
  let ?t = "put_pcb x (p\<lparr>polltmr := polltmr p + 1\<rparr>) s"
  show ?thesis
  proof (cases "polltmr p + 1 \<ge> pollinterval p")
    case False
    then have "s' = ?t" using run p by (simp add: slowtmr_poll_def upd_pcb_def)
    then show ?thesis using p by (intro walk_stepI(1) [of _ _ _ "p\<lparr>polltmr := polltmr p + 1\<rparr>"]) simp_all
  next
    case True
    let ?q = "p\<lparr>polltmr := 0\<rparr>"
    let ?u = "(put_pcb x ?q s)\<lparr>active_pcbs_changed := False\<rparr>"
    have "(put_pcb x (p\<lparr>polltmr := polltmr p + 1, polltmr := 0\<rparr>) ?t) = put_pcb x ?q s" by (simp add: put_pcb_def)
    then obtain err v where v: "(if callbacks p = Cb_stream then callback (Ev_poll x) x ?u else Some (ERR_OK, ?u)) = Some (err, v)"
      and rest: "(if active_pcbs_changed v then Some (True, v)
       else if err = ERR_OK then do { (_, s) \<leftarrow> output_pcb x v; Some (False, s) }
       else Some (False, v)) = Some (b, s')"
      using run p True by (auto simp: slowtmr_poll_def upd_pcb_def Let_def elim!: bind_SomeE)
    have oku: "stack_ok U {} ?u" using ok p(1) shape_put [of s x p ?q] stack_ok_shape [of U "{}" s ?u] by (simp add: place_simps)
    have q: "pcbs ?u x = Some ?q" "active_state (state ?q)" using p by simp_all
    have "(err \<noteq> ERR_ABRT \<and> pcbs v = pcbs ?u \<and> active_pcbs v = active_pcbs s \<or>
        pcbs v x = None \<and> active_pcbs v = remove1 x (active_pcbs s) \<and> err = ERR_ABRT) \<and> around x ?u v"
    proof (cases "callbacks p = Cb_stream")
      case True
      then have cb: "callback (Ev_poll x) x ?u = Some (err, v)" using v by simp
      show ?thesis using callback_active [OF oku cb q] around_callback [OF cb] by auto
    next
      case False
      then show ?thesis using v by auto
    qed
    then have au: "around x ?u v" and "(err \<noteq> ERR_ABRT \<and> pcbs v = pcbs ?u \<and> active_pcbs v = active_pcbs s \<or>
        pcbs v x = None \<and> active_pcbs v = remove1 x (active_pcbs s) \<and> err = ERR_ABRT)" by blast+
    then consider (kept) "pcbs v x = Some ?q" "active_pcbs v = active_pcbs s"
      | (gone) "pcbs v x = None" "active_pcbs v = remove1 x (active_pcbs s)" "err = ERR_ABRT" by auto
    then show ?thesis
    proof cases
      case gone
      then have "s' = v" using rest by (auto split: if_splits)
      have "around x s ?u" by simp
      then have "around x s s'" using au around_trans \<open>s' = v\<close> by blast
      then show ?thesis using gone \<open>s' = v\<close> by (intro walk_stepI(2)) simp_all
    next
      case kept
      consider "s' = v" | err' where "output_pcb x v = Some (err', s')" using rest by (auto simp: bind_eq_Some_conv split: if_splits)
      then obtain q' where q': "pcbs s' x = Some q'" "last_timer q' = last_timer p" "active_pcbs s' = active_pcbs v" "around x v s'"
      proof cases
        case 1
        then show ?thesis using that [of ?q] kept by simp
      next
        case 2
        then obtain q' e where "tcp_output (tcp_input_pcb v = Some x) ?q (st_env v) = Some (err', q', e)" "s' = (put_pcb x q' v)\<lparr>st_env := e\<rparr>"
          using kept(1) by (auto simp: output_pcb_def on_pcb_def bind_eq_Some_conv)
        then show ?thesis using that [of q'] mark_output by fastforce
      qed
      have "around x s ?u" by simp
      from around_trans [OF around_trans [OF this au] q'(4)] show ?thesis
        by (rule walk_stepI(1) [OF _ q'(1)]) (simp_all add: q' p(3) kept(2))
    qed
  qed
qed

lemma slowtmr_step_walk:
  assumes ok: "stack_ok U {} s" and p: "pcbs s x = Some p" "active_state (state p)" and run: "slowtmr_step x s = Some (b, s')"
  shows "walk_step x s s'"
proof -
  let ?p = "p\<lparr>last_timer := tcp_timer_ctr s\<rparr>"
  let ?t = "put_pcb x ?p s"
  obtain g reset v e where v: "slowtmr_pcb (tcp_input_pcb s = Some x) ?p (st_env s) = Some (g, reset, v, e)"
    and rest: "(if g then slowtmr_remove x reset ((put_pcb x v ?t)\<lparr>st_env := e\<rparr>) else slowtmr_poll x ((put_pcb x v ?t)\<lparr>st_env := e\<rparr>)) = Some (b, s')"
    using run p(1) by (auto simp: slowtmr_step_def upd_pcb_def Let_def elim!: bind_SomeE)
  let ?u = "(put_pcb x v ?t)\<lparr>st_env := e\<rparr>"
  have vp: "place v = place p" "last_timer v = tcp_timer_ctr s" using place_slowtmr [OF v] mark_slowtmr [OF v] by (simp_all add: place_simps)
  have u: "?u = (put_pcb x v s)\<lparr>st_env := e\<rparr>" by (simp add: put_pcb_def)
  have "shape ?u = shape s" unfolding u using shape_put [OF p(1) vp(1)] by simp
  then have oku: "stack_ok U {} ?u" using ok stack_ok_shape by blast
  have au: "around x s ?u" unfolding u by simp
  have su: "active_pcbs ?u = active_pcbs s" "tcp_timer_ctr ?u = tcp_timer_ctr s" using au by (simp_all add: around_def)
  show ?thesis
  proof (cases g)
    case True
    then have "slowtmr_remove x reset ?u = Some (b, s')" using rest by simp
    note gone = slowtmr_remove_step [OF this]
    show ?thesis using around_trans [OF au gone(1)] gone(2,3) su by (intro walk_stepI(2)) simp_all
  next
    case False
    have "walk_step x ?u s'"
      using rest False vp p(2) su by (intro slowtmr_poll_step [OF oku, of _ v]) (auto dest: place_state)
    then have rest: "around x ?u s'" "pcbs s' x = None \<and> active_pcbs s' = remove1 x (active_pcbs s) \<or>
        (\<exists>p. pcbs s' x = Some p \<and> last_timer p = tcp_timer_ctr s) \<and> active_pcbs s' = active_pcbs s"
      unfolding walk_step_def su by blast+
    show ?thesis using around_trans [OF au rest(1)] rest(2) unfolding walk_step_def by blast
  qed
qed

section \<open>The walk comes to its end\<close>

text \<open>The blocks that this run has not seen yet.\<close>

definition unseen :: "tcp_stack \<Rightarrow> pcb_id set" where
  "unseen s = {x \<in> set (active_pcbs s). map_option last_timer (pcbs s x) \<noteq> Some (tcp_timer_ctr s)}"

lemma unseen_step:
  assumes step: "walk_step x s s'" and x: "x \<in> unseen s" and d: "distinct (active_pcbs s)"
  shows "card (unseen s') < card (unseen s)" "length (active_pcbs s') \<le> length (active_pcbs s)"
    "y \<in> set (active_pcbs s) \<Longrightarrow> y \<noteq> x \<Longrightarrow> y \<in> set (active_pcbs s')"
proof -
  have "y \<in> unseen s \<and> y \<noteq> x" if "y \<in> unseen s'" for y
    using step that d by (cases "y = x") (auto simp: walk_step_def around_def unseen_def)
  then have "unseen s' \<subset> unseen s" using x by auto
  moreover have "finite (unseen s)" by (simp add: unseen_def)
  ultimately show "card (unseen s') < card (unseen s)" by (rule psubset_card_mono [rotated])
  show "length (active_pcbs s') \<le> length (active_pcbs s)" using step by (auto simp: walk_step_def length_remove1)
  show "y \<in> set (active_pcbs s')" if "y \<in> set (active_pcbs s)" "y \<noteq> x"
    using step that by (auto simp: walk_step_def)
qed

text \<open>A step that fails is one for a block that is on the list.\<close>

definition step_fails :: "pcb_id set \<Rightarrow> bool" where
  "step_fails U \<longleftrightarrow> (\<exists>t x. idle_ok U t \<and> x \<in> set (active_pcbs t) \<and> slowtmr_step x t = None)"

lemma slowtmr_walk_returns:
  assumes "idle_ok U s" and "set xs \<subseteq> set (active_pcbs s)" and "distinct xs" and "length (active_pcbs s) \<le> n"
    and "card (unseen s) * (n + 1) + length xs \<le> fuel" and "slowtmr_walk fuel xs s = None"
  shows "step_fails U"
  using assms
proof (induction fuel xs s rule: slowtmr_walk.induct)
  case (3 fuel x xs s)
  have ok: "stack_ok U {} s" using "3.prems"(1) by (simp add: idle_ok_def)
  have x: "x \<in> set (active_pcbs s)" using "3.prems"(2) by simp
  obtain p where p: "pcbs s x = Some p" "active_state (state p)" using stack_ok_member(1) [OF ok x] by blast
  show ?case
  proof (cases "last_timer p = tcp_timer_ctr s")
    case True
    have "slowtmr_walk fuel xs s = None" using "3.prems"(6) p True by simp
    then show ?thesis using "3.IH"(1) [OF p(1) _ True] p(2) "3.prems"(1-5) by simp
  next
    case False
    show ?thesis
    proof (cases "slowtmr_step x s")
      case None
      then show ?thesis using "3.prems"(1) x unfolding step_fails_def by blast
    next
      case (Some r)
      then obtain c t where t: "slowtmr_step x s = Some (c, t)" by (cases r) simp
      have step: "walk_step x s t" by (rule slowtmr_step_walk [OF ok p t])
      have un: "x \<in> unseen s" using x p False by (simp add: unseen_def)
      have "distinct (active_pcbs s)" using ok by (auto simp: stack_ok_def lists_ok_def)
      note less = unseen_step [OF step un this]
      have okt: "idle_ok U t" by (rule slowtmr_step_ok [OF "3.prems"(1) p t])
      have len: "length (active_pcbs t) \<le> n" using less(2) "3.prems"(4) by simp
      have "(card (unseen t) + 1) * (n + 1) \<le> card (unseen s) * (n + 1)" using less(1) by (intro mult_le_mono1) simp
      then have room: "card (unseen t) * (n + 1) + n + length xs + 1 \<le> fuel" using "3.prems"(5) by simp
      show ?thesis
      proof (cases c)
        case True
        have "distinct (active_pcbs t)" using okt by (auto simp: idle_ok_def stack_ok_def lists_ok_def)
        moreover have "slowtmr_walk fuel (active_pcbs t) t = None" using "3.prems"(6) p False t True by simp
        ultimately show ?thesis
          using "3.IH"(2) [OF p(1) _ False t refl] p(2) True okt len room by simp
      next
        case c: False
        have "set xs \<subseteq> set (active_pcbs t)" using "3.prems"(2,3) less(3) by auto
        moreover have "slowtmr_walk fuel xs t = None" using "3.prems"(6) p False t c by simp
        ultimately show ?thesis
          using "3.IH"(3) [OF p(1) _ False t refl] p(2) c okt len room "3.prems"(3) by simp
      qed
    qed
  qed
qed simp_all

lemma tcp_slowtmr_walk:
  assumes "idle_ok U s"
  defines "s1 \<equiv> s\<lparr>st_env := (st_env s)\<lparr>tcp_ticks := tcp_ticks (st_env s) + 1\<rparr>, tcp_timer_ctr := tcp_timer_ctr s + 1\<rparr>"
  shows "step_fails U \<or> (\<exists>t. slowtmr_walk (walk_fuel s1) (active_pcbs s1) s1 = Some t \<and> idle_ok U t)"
proof (cases "slowtmr_walk (walk_fuel s1) (active_pcbs s1) s1")
  case (Some t)
  have "idle_ok U s1" using idle_shape [OF assms(1), of s1] by (simp add: s1_def)
  then show ?thesis using slowtmr_walk_ok [OF Some] Some by blast
next
  case None
  let ?n = "length (active_pcbs s1)"
  have ok: "idle_ok U s1" using idle_shape [OF assms(1), of s1] by (simp add: s1_def)
  then have d: "distinct (active_pcbs s1)" by (auto simp: idle_ok_def stack_ok_def lists_ok_def)
  have "card (unseen s1) \<le> ?n"
    using card_mono [of "set (active_pcbs s1)" "unseen s1"] card_length [of "active_pcbs s1"] by (auto simp: unseen_def intro: order_trans)
  then have "card (unseen s1) * (?n + 1) + ?n \<le> walk_fuel s1"
    using mult_le_mono1 [of "card (unseen s1)" ?n "?n + 1"] by (simp add: walk_fuel_def)
  then show ?thesis using slowtmr_walk_returns [OF ok _ d _ _ None] by blast
qed

section \<open>A connection that is closed on one side\<close>

text \<open>The FIN is acknowledged, nothing waits to be sent, and no acknowledgement is due.\<close>

definition half_closed :: "tcp_pcb \<Rightarrow> bool" where
  "half_closed pcb \<longleftrightarrow>
     state pcb = FIN_WAIT_2 \<and> \<not> tcp_is_flag_set TF_RXCLOSED pcb \<and> \<not> tcp_is_flag_set TF_ACK_NOW pcb \<and>
     unsent pcb = [] \<and> unacked pcb = [] \<and> persist_backoff pcb = 0 \<and> nrtx pcb < TCP_MAXRTX"

lemma half_closed_slowtmr:
  assumes "half_closed pcb"
  shows "\<exists>pcb' e'. slowtmr_pcb input pcb e = Some (False, False, pcb', e') \<and> half_closed pcb' \<and> callbacks pcb' = callbacks pcb \<and>
    tx_log e' = tx_log e"
proof -
  note hc = assms [unfolded half_closed_def]
  define p where "p = (if rtime pcb \<ge> 0 \<and> rtime pcb < 0x7fff then pcb\<lparr>rtime := rtime pcb + 1\<rparr> else pcb)"
  have p: "half_closed p" "callbacks p = callbacks pcb" using hc by (simp_all add: p_def half_closed_def tcp_is_flag_set_def)
  then have "tcp_rexmit_rto_prepare p = (ERR_VAL, p)" by (simp add: tcp_rexmit_rto_prepare_def half_closed_def)
  then have "slowtmr_rto input pcb e = Some (p, e)"
    using p by (simp add: slowtmr_rto_def p_def [symmetric] half_closed_def)
  then have timers: "slowtmr_timers input pcb e = Some (False, p, e)"
    using hc by (simp add: slowtmr_timers_def not_le)
  have "slowtmr_keepalive p e = (False, p, e)"
    using p by (simp add: slowtmr_keepalive_def keepalive_active_def half_closed_def)
  moreover obtain p' e' where oos: "slowtmr_ooseq p e = (p', e')" by fastforce
  moreover have p': "half_closed p'" "callbacks p' = callbacks p" "tx_log e' = tx_log e" "\<not> slowtmr_stuck p' e'"
    using oos p by (auto simp: slowtmr_ooseq_def tcp_free_ooseq_def half_closed_def slowtmr_stuck_def tcp_is_flag_set_def split: if_splits)
  ultimately show ?thesis using timers p by (simp add: slowtmr_pcb_def half_closed_def)
qed

lemma flag_stays_clear: "\<not> tcp_is_flag_set f p \<Longrightarrow> \<not> tcp_is_flag_set f (tcp_clear_flags g p)"
proof -
  have "(flags p AND NOT g) AND f = (flags p AND f) AND NOT g" by (simp add: ac_simps)
  then show "\<not> tcp_is_flag_set f p \<Longrightarrow> \<not> tcp_is_flag_set f (tcp_clear_flags g p)"
    by (simp add: tcp_is_flag_set_def tcp_clear_flags_def)
qed

lemma half_closed_output:
  assumes "half_closed p"
  shows "\<exists>err p'. tcp_output input p e = Some (err, p', e) \<and> half_closed p' \<and> callbacks p' = callbacks p"
  using assms flag_stays_clear [of _ p TF_NAGLEMEMERR]
  by (cases input) (simp_all add: tcp_output_def half_closed_def Let_def, simp_all add: tcp_clear_flags_def)

text \<open>A block that waits on the list; its poll callback, if it has one, does not abort it.\<close>

definition waits :: "pcb_id \<Rightarrow> tcp_stack \<Rightarrow> bool" where
  "waits x s \<longleftrightarrow>
     x \<in> set (active_pcbs s) \<and>
     (\<exists>p. pcbs s x = Some p \<and> half_closed p \<and> (callbacks p \<noteq> Cb_stream \<or> (\<forall>evs. answer s evs (Ev_poll x) \<noteq> ERR_ABRT)))"

lemma pcbs_env: "pcbs (s\<lparr>st_env := e\<rparr>) x = pcbs s x" "pcbs (s\<lparr>active_pcbs_changed := b\<rparr>) x = pcbs s x"
  by simp_all

lemma waits_step:
  assumes "waits x s"
  shows "\<exists>b t. slowtmr_step x s = Some (b, t) \<and> waits x t \<and> tx_log (st_env t) = tx_log (st_env s)"
proof -
  obtain p where p: "pcbs s x = Some p" "half_closed p" "callbacks p \<noteq> Cb_stream \<or> (\<forall>evs. answer s evs (Ev_poll x) \<noteq> ERR_ABRT)"
    and x: "x \<in> set (active_pcbs s)" using assms by (auto simp: waits_def)
  let ?p = "p\<lparr>last_timer := tcp_timer_ctr s\<rparr>"
  have "half_closed ?p" using p(2) by (simp add: half_closed_def tcp_is_flag_set_def)
  then obtain q e where q: "slowtmr_pcb (tcp_input_pcb s = Some x) ?p (st_env s) = Some (False, False, q, e)" "half_closed q"
      "callbacks q = callbacks p" "tx_log e = tx_log (st_env s)" using half_closed_slowtmr [of ?p] by fastforce
  let ?u = "(put_pcb x q s)\<lparr>st_env := e\<rparr>"
  have step: "slowtmr_step x s = slowtmr_poll x ?u"
    using p(1) q(1) by (simp add: slowtmr_step_def upd_pcb_def) (simp add: put_pcb_def)
  let ?q = "q\<lparr>polltmr := polltmr q + 1\<rparr>" let ?r = "q\<lparr>polltmr := 0\<rparr>"
  have hq: "half_closed ?q" "half_closed ?r" using q(2) by (simp_all add: half_closed_def tcp_is_flag_set_def)
  show ?thesis
  proof (cases "polltmr q + 1 \<ge> pollinterval q")
    case False
    let ?v = "(put_pcb x ?q s)\<lparr>st_env := e\<rparr>"
    have "slowtmr_poll x ?u = Some (False, ?v)"
      using False by (simp add: slowtmr_poll_def upd_pcb_def) (simp add: put_pcb_def)
    moreover have "waits x ?v" "tx_log (st_env ?v) = tx_log (st_env s)" using hq q(3,4) p(3) x by (simp_all add: waits_def put_pcb_def)
    ultimately show ?thesis using step by auto
  next
    case True
    let ?v = "(put_pcb x ?r s)\<lparr>st_env := e, active_pcbs_changed := False\<rparr>"
    have v: "((put_pcb x ?r (put_pcb x ?q ?u))\<lparr>active_pcbs_changed := False\<rparr>) = ?v" by (simp add: put_pcb_def)
    obtain err w where w: "(if callbacks q = Cb_stream then callback (Ev_poll x) x ?v else Some (ERR_OK, ?v)) = Some (err, w)"
        "\<exists>ev. w = ?v\<lparr>events := ev\<rparr>"
    proof (cases "callbacks q = Cb_stream")
      case True
      then have "answer s (events s) (Ev_poll x) \<noteq> ERR_ABRT" using p(3) q(3) by simp
      then show ?thesis using True that by (auto simp: callback_def Let_def put_pcb_def)
    next
      case False
      have "?v = ?v\<lparr>events := events ?v\<rparr>" by simp
      then show ?thesis using False by (intro that [of ERR_OK ?v] exI [of _ "events ?v"]) simp_all
    qed
    have "pcbs (put_pcb x ?q ?u) x = Some ?q" "polltmr ?q \<ge> pollinterval ?q" "callbacks ?q = callbacks q" "?q\<lparr>polltmr := 0\<rparr> = ?r"
      using True by simp_all
    then have "slowtmr_poll x ?u =
        (if callbacks q = Cb_stream then callback (Ev_poll x) x ?v else Some (ERR_OK, ?v)) \<bind>
          (\<lambda>(err, s). if active_pcbs_changed s then Some (True, s)
            else if err = ERR_OK then do { (_, s) \<leftarrow> output_pcb x s; Some (False, s) } else Some (False, s))"
      unfolding slowtmr_poll_def upd_pcb_def by (simp only: put_pcb_fields pcbs_env bind.bind_lunit if_True Let_def v)
    moreover have "\<not> active_pcbs_changed w" using w(2) by auto
    ultimately have "slowtmr_poll x ?u = (if err = ERR_OK then do { (_, s) \<leftarrow> output_pcb x w; Some (False, s) } else Some (False, w))"
      unfolding w(1) by simp
    moreover obtain err' r where "tcp_output (tcp_input_pcb w = Some x) ?r e = Some (err', r, e)" "half_closed r" "callbacks r = callbacks p"
      using half_closed_output [OF hq(2)] q(3) by fastforce
    moreover have "pcbs w x = Some ?r" "st_env w = e" "active_pcbs w = active_pcbs s" "answer w = answer s" using w(2) by (auto simp: put_pcb_def)
    ultimately show ?thesis using step hq(2) q(3,4) p(3) x
      by (cases "err = ERR_OK") (auto simp: waits_def output_pcb_def on_pcb_def put_pcb_def)
  qed
qed

lemma waits_other:
  assumes "waits x s" and "walk_step y s s'" and "y \<noteq> x"
  shows "waits x s'"
  using assms by (auto simp: waits_def walk_step_def around_def)

lemma waits_walk: "slowtmr_walk fuel xs s = Some s' \<Longrightarrow> idle_ok U s \<Longrightarrow> waits x s \<Longrightarrow> waits x s'"
proof (induction fuel xs s rule: slowtmr_walk.induct)
  case (3 fuel y xs s)
  obtain p where p: "pcbs s y = Some p" "active_state (state p)" using "3.prems"(1) by (auto simp: bind_eq_Some_conv)
  show ?case
  proof (cases "last_timer p = tcp_timer_ctr s")
    case True
    then show ?thesis using 3 p by simp
  next
    case False
    then obtain c t where t: "slowtmr_step y s = Some (c, t)" using "3.prems"(1) p by (auto elim!: bind_SomeE)
    then have run: "slowtmr_walk fuel (if c then active_pcbs t else xs) t = Some s'" using "3.prems"(1) p False by (simp split: if_splits)
    have okt: "idle_ok U t" by (rule slowtmr_step_ok [OF "3.prems"(2) p t])
    have "stack_ok U {} s" using "3.prems"(2) by (simp add: idle_ok_def)
    then have "waits x t"
      using waits_other [OF "3.prems"(3) slowtmr_step_walk [OF _ p t]] waits_step [OF "3.prems"(3)] t by (cases "y = x") auto
    then show ?thesis using "3.IH"(2,3) [OF p(1) _ False t refl] p(2) run okt by (cases c) simp_all
  qed
qed simp_all

lemma waits_timewait: "slowtmr_timewait xs s = Some s' \<Longrightarrow> waits x s \<Longrightarrow> waits x s'"
proof (induction xs arbitrary: s)
  case (Cons y ys)
  obtain q where q: "pcbs s y = Some q" "state q = TIME_WAIT" using Cons.prems(1) by (auto simp: bind_eq_Some_conv)
  obtain t where t: "(if idle_ticks q (st_env s) > 2 * TCP_MSL div TCP_SLOW_INTERVAL
           then do { s \<leftarrow> purge_pcb y s; tcp_free y (rmv_tw y s) } else Some s) = Some t" and rest: "slowtmr_timewait ys t = Some s'"
    using Cons.prems(1) q by (auto elim!: bind_SomeE)
  have "y \<noteq> x" using q Cons.prems(2) by (auto simp: waits_def half_closed_def)
  have "waits x t"
  proof (cases "idle_ticks q (st_env s) > 2 * TCP_MSL div TCP_SLOW_INTERVAL")
    case True
    then obtain u where u: "purge_pcb y s = Some u" "tcp_free y (rmv_tw y u) = Some t" using t by (auto elim!: bind_SomeE)
    have "around y s t" using around_purge [OF u(1)] around_free [OF u(2), of s] by simp
    moreover have "active_pcbs t = active_pcbs s"
      using shape_lists(1) [OF shape_purge [OF u(1)]] tcp_free_eq [OF u(2)] by (simp add: free_pcb_def rmv_tw_def)
    ultimately show ?thesis using Cons.prems(2) \<open>y \<noteq> x\<close> by (auto simp: waits_def around_def)
  next
    case False
    then show ?thesis using t Cons.prems(2) by simp
  qed
  then show ?case using Cons.IH rest by blast
qed simp

text \<open>Any number of runs of the slow timer, with nothing in between.\<close>

primrec slow_runs :: "nat \<Rightarrow> tcp_stack \<Rightarrow> tcp_stack option" where
  "slow_runs 0 s = Some s"
| "slow_runs (Suc n) s = do { s \<leftarrow> slow_runs n s; tcp_slowtmr s }"

lemma waits_slowtmr:
  assumes "idle_ok U s" and "waits x s" and "tcp_slowtmr s = Some s'"
  shows "waits x s'"
proof -
  let ?s = "s\<lparr>st_env := (st_env s)\<lparr>tcp_ticks := tcp_ticks (st_env s) + 1\<rparr>, tcp_timer_ctr := tcp_timer_ctr s + 1\<rparr>"
  obtain t where "slowtmr_walk (walk_fuel ?s) (active_pcbs ?s) ?s = Some t" "slowtmr_timewait (tw_pcbs t) t = Some s'"
    using assms(3) by (auto simp: tcp_slowtmr_def Let_def elim!: bind_SomeE)
  moreover have "idle_ok U ?s" "waits x ?s" using idle_shape [OF assms(1), of ?s] assms(2) by (simp_all add: waits_def)
  ultimately show ?thesis using waits_walk waits_timewait by blast
qed

lemma waits_runs:
  assumes "idle_ok U s" and "waits x s" and "slow_runs n s = Some s'"
  shows "waits x s' \<and> idle_ok U s'"
  using assms(3)
proof (induction n arbitrary: s')
  case (Suc n)
  then show ?case using waits_slowtmr tcp_slowtmr_ok by (auto elim!: bind_SomeE)
qed (use assms in simp)

end
