(* ===== verification/Tcp_Reach.thy ===== *)
theory Tcp_Reach
  imports Tcp_Walk Tcp_Ports
begin

text \<open>
  The states of the stack that can be reached from the start by the calls of the application, the segments and the timers, and
  what holds in all of them.
\<close>

section \<open>Steps\<close>

text \<open>
  The calls of the interface. Two restrictions are not tests of the code. A block that is bound is not bound again:
  \<^verbatim>\<open>tcp_bind\<close> does not look, puts the block on \<^verbatim>\<open>tcp_bound_pcbs\<close> a second time, and the linked list becomes a cycle.
  And the application makes no call from inside a callback, apart from aborting the connection that the callback is about, which it
  reports with \<^verbatim>\<open>ERR_ABRT\<close>. A call whose assertion fails is no step. The surroundings, which are the interfaces, the memory and the
  answers of the callbacks, may change in any way between two calls.
\<close>

inductive stack_step :: "tcp_stack \<Rightarrow> tcp_stack \<Rightarrow> bool" where
  new: "tcp_new_ip_type any s = Some (r, s') \<Longrightarrow> stack_step s s'"
| bind: "tcp_bind x ip port s = Some (err, s') \<Longrightarrow> x \<notin> set (bound_pcbs s) \<Longrightarrow> stack_step s s'"
| bind_netif: "tcp_bind_netif x n s = Some s' \<Longrightarrow> stack_step s s'"
| setprio: "tcp_setprio x pr s = Some s' \<Longrightarrow> stack_step s s'"
| connect: "tcp_connect x ip port s = Some (err, s') \<Longrightarrow> stack_step s s'"
| listen: "tcp_listen_with_backlog_and_err x s = Some (l, err, s') \<Longrightarrow> stack_step s s'"
| accept: "stack_step s (tcp_accept l b s)"
| close_listen: "tcp_close_listen l s = Some s' \<Longrightarrow> stack_step s s'"
| callbacks: "upd_pcb (\<lambda>pcb. pcb\<lparr>callbacks := cb\<rparr>) x s = Some s' \<Longrightarrow> stack_step s s'"
| send: "on_pcb (\<lambda>pcb. tcp_write pcb buf fl) x s = Some (err, s') \<Longrightarrow> stack_step s s'"
| push: "output_pcb x s = Some (err, s') \<Longrightarrow> stack_step s s'"
| recved: "recved_pcb n x s = Some s' \<Longrightarrow> stack_step s s'"
| close: "tcp_close x s = Some (err, s') \<Longrightarrow> stack_step s s'"
| shutdown: "tcp_shutdown x rx tx s = Some (err, s') \<Longrightarrow> stack_step s s'"
| abort: "tcp_abort x s = Some s' \<Longrightarrow> stack_step s s'"
| segment: "tcp_input pk s = Some s' \<Longrightarrow> stack_step s s'"
| timer: "tcp_tmr s = Some s' \<Longrightarrow> stack_step s s'"
| txnow: "tcp_txnow s = Some s' \<Longrightarrow> stack_step s s'"
| surroundings: "stack_step s (s\<lparr>st_env := e, answer := f\<rparr>)"

inductive_cases stack_stepE: "stack_step s s'"

text \<open>The state before the first call: all blocks are in the pools.\<close>

definition stack_initial :: "tcp_stack \<Rightarrow> bool" where
  "stack_initial s \<longleftrightarrow>
     pcbs s = (\<lambda>_. None) \<and> distinct (pcb_pool s) \<and> distinct (listen_pool s) \<and> bound_pcbs s = [] \<and> active_pcbs s = [] \<and>
     tw_pcbs s = [] \<and> listen_pcbs s = [] \<and> tcp_input_pcb s = None"

lemma initial_ok: "stack_initial s \<Longrightarrow> idle_ok (set (pcb_pool s)) s"
  by (simp add: stack_initial_def idle_ok_def stack_ok_def lists_ok_def places_def)

lemma idle_on:
  assumes ok: "idle_ok U s" and run: "on_pcb f x s = Some (a, s')" and "\<And>p e a p' e'. f p e = Some (a, p', e') \<Longrightarrow> place p' = place p"
  shows "idle_ok U s'"
  using ok shape_on [OF run assms(3)] by (rule idle_shape)

lemma idle_upd: "idle_ok U s \<Longrightarrow> upd_pcb f x s = Some s' \<Longrightarrow> (\<And>p. place (f p) = place p) \<Longrightarrow> idle_ok U s'"
  using idle_shape shape_upd by blast

lemma stack_step_ok:
  assumes "stack_step s s'" and ok: "idle_ok U s" shows "idle_ok U s'"
proof -
  have ok': "stack_ok U {} s" "tcp_input_pcb s = None" using ok by (simp_all add: idle_ok_def)
  note same = idle_same [OF ok]
  from assms(1) show ?thesis
  proof cases
    case (new any r)
    from tcp_new_ok [OF ok'(1) this] show ?thesis by (rule same)
  next
    case (bind x ip port err)
    from tcp_bind_ok [OF ok'(1) this] show ?thesis by (rule same)
  next
    case (bind_netif x n)
    then show ?thesis using idle_upd [OF ok] by (simp add: tcp_bind_netif_def place_simps)
  next
    case (setprio x pr)
    then show ?thesis using idle_upd [OF ok] by (simp add: tcp_setprio_def place_simps)
  next
    case (connect x ip port err)
    from tcp_connect_ok [OF ok'(1) this] show ?thesis by (rule same)
  next
    case (listen x l err)
    from tcp_listen_ok [OF ok'(1) this] show ?thesis using ok'(2) by (simp add: idle_ok_def)
  next
    case (accept l b)
    then show ?thesis using tcp_accept_ok(1) [of U "{}" s l b] tcp_accept_ok(2) [of s l b] ok'(1) same by blast
  next
    case (close_listen l)
    from tcp_close_listen_ok [OF ok'(1) this] show ?thesis using ok'(2) by (simp add: idle_ok_def)
  next
    case (callbacks cb x)
    show ?thesis by (rule idle_upd [OF ok callbacks]) (simp add: place_simps)
  next
    case (send buf fl x err)
    show ?thesis by (rule idle_on [OF ok send]) (rule place_write)
  next
    case (push x err)
    from ok shape_output [OF push] show ?thesis by (rule idle_shape)
  next
    case (recved n x)
    from ok shape_recved [OF recved] show ?thesis by (rule idle_shape)
  next
    case (close x err)
    then show ?thesis using close_ok [OF ok'(1) close] ok'(2) same by auto
  next
    case (shutdown x rx tx err)
    from shutdown_ok [OF ok'(1) shutdown ok'(2)] show ?thesis by (rule same)
  next
    case (abort x)
    show ?thesis using abort_told [OF ok'(1) abort] same by blast
  next
    case (segment pk)
    from tcp_input_ok [OF ok segment] show ?thesis .
  next
    case timer
    from tcp_tmr_ok [OF ok timer] show ?thesis .
  next
    case txnow
    from ok txnow_walk_shape [OF txnow [unfolded tcp_txnow_def]] show ?thesis by (rule idle_shape)
  next
    case (surroundings e f)
    then show ?thesis using idle_shape [OF ok, of s'] by simp
  qed
qed

definition stack_reachable :: "tcp_stack \<Rightarrow> tcp_stack \<Rightarrow> bool" where
  "stack_reachable s0 s \<longleftrightarrow> stack_initial s0 \<and> stack_step\<^sup>*\<^sup>* s0 s"

lemma reachable_idle_ok:
  assumes "stack_reachable s0 s" shows "idle_ok (set (pcb_pool s0)) s"
proof -
  have "stack_step\<^sup>*\<^sup>* s0 s" and init: "stack_initial s0" using assms by (simp_all add: stack_reachable_def)
  then show ?thesis by induction (auto intro: initial_ok stack_step_ok)
qed


section \<open>An example\<close>

definition example_packet :: "u8 list \<Rightarrow> u8 list \<Rightarrow> u8 \<Rightarrow> tcp_packet" where
  "example_packet sno ackno fl =
     \<lparr>pk_p = [[3, 232, 0, 80] @ sno @ ackno @ [0x50, fl, 0xff, 0xff, 0, 0, 0, 0]], pk_src = IP_ADDR4 0x0a000001,
      pk_dst = IP_ADDR4 0x0a000002, pk_netif = 1, pk_cast = False\<rparr>"

definition example_listening :: "tcp_stack option" where
  "example_listening = do {
     (_, s) \<leftarrow> tcp_new_ip_type IP_ADDR_ANY_TYPE example_stack;
     (_, s) \<leftarrow> tcp_bind 0 (IP_ADDR4 0) 80 s;
     (_, _, s) \<leftarrow> tcp_listen_with_backlog_and_err 0 s;
     Some (tcp_accept 0 True s)
   }"

definition example_connected :: "tcp_stack option" where
  "example_connected = do {
     s \<leftarrow> example_listening;
     s \<leftarrow> tcp_input (example_packet [0, 0, 0, 100] [0, 0, 0, 0] 2) s;
     tcp_input (example_packet [0, 0, 0, 101] [0, 0, 0x19, 0x6f] 16) s
   }"

declare parseopt_loop.simps [code]

text \<open>The remote side closes the connection.\<close>

definition example_then_fin :: "tcp_stack \<Rightarrow> (err_t \<times> tcp_state option) option" where
  "example_then_fin s = do {
     sg \<leftarrow> tcp_parse (example_packet [0, 0, 0, 101] [0, 0, 0x19, 0x6f] 17);
     (err, i, s) \<leftarrow> tcp_process 0 sg (s\<lparr>tcp_input_pcb := Some 0, input_close := False\<rparr>);
     Some (err, map_option state (pcbs s 0))
   }"

lemma example_connected_result:
  "map_option (\<lambda>s. (active_pcbs s, map_option state (pcbs s 0), example_then_fin s)) example_connected =
     Some ([0], Some ESTABLISHED, Some (ERR_OK, Some CLOSE_WAIT))"
  by code_simp

lemma example_reachable:
  "\<exists>s p. stack_reachable example_stack s \<and> active_pcbs s = [0] \<and> pcbs s 0 = Some p \<and> state p = ESTABLISHED \<and>
     example_connected = Some s"
proof -
  obtain s where s: "example_connected = Some s" and r: "active_pcbs s = [0]" "map_option state (pcbs s 0) = Some ESTABLISHED"
    using example_connected_result by auto
  obtain s1 s2 where l: "example_listening = Some s1" and "tcp_input (example_packet [0, 0, 0, 100] [0, 0, 0, 0] 2) s1 = Some s2"
      "tcp_input (example_packet [0, 0, 0, 101] [0, 0, 0x19, 0x6f] 16) s2 = Some s"
    using s by (auto simp: example_connected_def elim!: bind_SomeE)
  then have "stack_step s1 s2" "stack_step s2 s" by (blast intro: stack_step.segment)+
  moreover obtain r1 t1 e1 t2 l1 e2 t3 where n: "tcp_new_ip_type IP_ADDR_ANY_TYPE example_stack = Some (r1, t1)"
      and b: "tcp_bind 0 (IP_ADDR4 0) 80 t1 = Some (e1, t2)" and "tcp_listen_with_backlog_and_err 0 t2 = Some (l1, e2, t3)"
      "s1 = tcp_accept 0 True t3"
    using l by (auto simp: example_listening_def elim!: bind_SomeE)
  moreover from this have "stack_step example_stack t1" "stack_step t2 t3" "stack_step t3 s1"
    by (blast intro: stack_step.new stack_step.listen stack_step.accept)+
  moreover have "0 \<notin> set (bound_pcbs t1)"
  proof -
    have "map_option (\<lambda>r. bound_pcbs (snd r)) (tcp_new_ip_type IP_ADDR_ANY_TYPE example_stack) = Some []" by code_simp
    then show ?thesis using n by simp
  qed
  then have "stack_step t1 t2" by (rule stack_step.bind [OF b])
  ultimately have "stack_step\<^sup>*\<^sup>* example_stack s" by (meson rtranclp.rtrancl_refl rtranclp.rtrancl_into_rtrancl)
  moreover have "stack_initial example_stack" by (simp add: stack_initial_def example_stack_def)
  ultimately show ?thesis using r s by (auto simp: stack_reachable_def)
qed

section \<open>The lists of reachable states\<close>

text \<open>Every block is on the list that its state says, and on no other one.\<close>

definition stack_typed :: "tcp_stack \<Rightarrow> bool" where
  "stack_typed s \<longleftrightarrow>
     distinct (pcb_pool s @ bound_pcbs s @ active_pcbs s @ tw_pcbs s) \<and>
     (\<forall>x \<in> set (bound_pcbs s). \<exists>p. pcbs s x = Some p \<and> state p = CLOSED \<and> local_port p \<noteq> 0) \<and>
     (\<forall>x \<in> set (active_pcbs s). \<exists>p. pcbs s x = Some p \<and> active_state (state p)) \<and>
     (\<forall>x \<in> set (tw_pcbs s). \<exists>p. pcbs s x = Some p \<and> state p = TIME_WAIT) \<and>
     (\<forall>x p. pcbs s x = Some p \<longrightarrow>
        (state p \<noteq> CLOSED \<longrightarrow> x \<in> set (active_pcbs s @ tw_pcbs s)) \<and>
        (\<forall>l. listener p = Some l \<longrightarrow> state p \<noteq> CLOSED \<and> l \<in> fst ` set (listen_pcbs s))) \<and>
     (active_pcbs s \<noteq> [] \<or> tw_pcbs s \<noteq> [] \<longrightarrow> tcpip_tcp_timer_active s)"

lemma idle_typed:
  assumes "idle_ok U s" shows "stack_typed s"
proof -
  have ok: "stack_ok U {} s" using assms by (simp add: idle_ok_def)
  note lists = ok [unfolded stack_ok_def lists_ok_def]
  note w = stack_ok_where [OF ok] and m = stack_ok_member [OF ok]
  have bound: "\<exists>p. pcbs s x = Some p \<and> state p = CLOSED \<and> local_port p \<noteq> 0" if x: "x \<in> set (bound_pcbs s)" for x
    using m(3) [OF x] w(1) x by blast
  have placed: "(state p \<noteq> CLOSED \<longrightarrow> x \<in> set (active_pcbs s @ tw_pcbs s)) \<and>
        (\<forall>l. listener p = Some l \<longrightarrow> state p \<noteq> CLOSED \<and> l \<in> fst ` set (listen_pcbs s))" if p: "pcbs s x = Some p" for x p
    using w(4) [OF p] w(5) [OF p] by (simp del: set_append set_map image_iff add: set_append [symmetric]) force
  have "distinct (pcb_pool s @ bound_pcbs s @ active_pcbs s @ tw_pcbs s)"
    "active_pcbs s \<noteq> [] \<or> tw_pcbs s \<noteq> [] \<longrightarrow> tcpip_tcp_timer_active s" using lists by blast+
  then show ?thesis unfolding stack_typed_def using bound m(1,2) placed by blast
qed

definition waited_long :: "tcp_stack \<Rightarrow> tcp_pcb \<Rightarrow> bool" where
  "waited_long s p \<longleftrightarrow> idle_ticks p (st_env s) > 2 * TCP_MSL div TCP_SLOW_INTERVAL"

lemma slowtmr_timewait_returns:
  assumes "distinct xs" "\<And>x. x \<in> set xs \<Longrightarrow> \<exists>p. pcbs s x = Some p \<and> state p = TIME_WAIT"
  shows "\<exists>s'. slowtmr_timewait xs s = Some s'"
  using assms
proof (induction xs arbitrary: s)
  case (Cons y ys)
  obtain q where q: "pcbs s y = Some q" "state q = TIME_WAIT" using Cons.prems(2) [of y] by auto
  have "\<exists>t. (if waited_long s q then do { s \<leftarrow> purge_pcb y s; tcp_free y (rmv_tw y s) } else Some s) = Some t \<and>
      (\<forall>z \<in> set ys. pcbs t z = pcbs s z)"
  proof (cases "waited_long s q")
    case True
    have u: "purge_pcb y s = Some (put_pcb y q s)" using q by (simp add: purge_pcb_def tcp_pcb_purge_def put_pcb_def)
    then have "tcp_free y (rmv_tw y (put_pcb y q s)) = Some (free_pcb y (rmv_tw y (put_pcb y q s)))"
      using q(2) by (simp add: tcp_free_def free_pcb_def rmv_tw_def)
    moreover have "pcbs (free_pcb y (rmv_tw y (put_pcb y q s))) z = pcbs s z" if "z \<in> set ys" for z
      using that Cons.prems(1) by (auto simp: free_pcb_def rmv_tw_def put_pcb_def)
    ultimately show ?thesis using True u by simp
  qed simp
  then obtain t where t: "(if waited_long s q then do { s \<leftarrow> purge_pcb y s; tcp_free y (rmv_tw y s) } else Some s) = Some t"
      "\<And>z. z \<in> set ys \<Longrightarrow> pcbs t z = pcbs s z" by blast
  then show ?case using Cons.IH [of t] Cons.prems q by (simp add: waited_long_def)
qed simp




text \<open>C5: no block is lost and none is freed twice. In every reachable state each element of the pool is either free or allocated,
  not both, so that the allocated and the free blocks together are as many as at the start.\<close>

theorem pcb_pool_conserved:
  assumes "stack_reachable s0 s"
  shows "dom (pcbs s) \<union> set (pcb_pool s) = set (pcb_pool s0) \<and> dom (pcbs s) \<inter> set (pcb_pool s) = {} \<and>
    card (dom (pcbs s)) + length (pcb_pool s) = length (pcb_pool s0)"
proof -
  have "stack_ok (set (pcb_pool s0)) {} s" using reachable_idle_ok [OF assms] by (simp add: idle_ok_def)
  moreover have "dom (places s) = dom (pcbs s)" by (auto simp: places_def dom_def)
  ultimately have u: "dom (pcbs s) \<union> set (pcb_pool s) = set (pcb_pool s0)" "dom (pcbs s) \<inter> set (pcb_pool s) = {}"
    and d: "distinct (pcb_pool s)" by (auto simp: stack_ok_def lists_ok_def)
  have d0: "distinct (pcb_pool s0)" using assms by (simp add: stack_reachable_def stack_initial_def)
  have "finite (dom (pcbs s))" using u(1) by (metis List.finite_set finite_Un)
  then have "card (dom (pcbs s)) + card (set (pcb_pool s)) = card (set (pcb_pool s0))"
    using card_Un_disjoint [of "dom (pcbs s)" "set (pcb_pool s)"] u by simp
  then show ?thesis using u d d0 by (simp add: distinct_card)
qed

theorem pcb_pool_conserved_witness:
  "\<exists>s. stack_reachable example_stack s \<and> active_pcbs s = [0] \<and> card (dom (pcbs s)) + length (pcb_pool s) = 4"
proof -
  obtain s where s: "stack_reachable example_stack s" "active_pcbs s = [0]" using example_reachable by blast
  have "length (pcb_pool example_stack) = 4" by (simp add: example_stack_def)
  then show ?thesis using pcb_pool_conserved [OF s(1)] s by auto
qed

section \<open>The state machine\<close>

text \<open>C4: a segment moves a connection along the arrows of the state diagram only. The block ends in its old state, or in the one
  that the flags of the segment and the end of the remote stream allow, or it was aborted by a callback and is freed. A segment with
  RST moves no block, one with SYN only a block in SYN_SENT or SYN_RCVD.\<close>

theorem tcp_process_transitions:
  assumes "stack_reachable s0 s" and "pcbs s x = Some p" and "active_state (state p)" and "tcp_parse pk = Some sg"
    and "tcp_process x sg (s\<lparr>tcp_input_pcb := Some x, input_close := False\<rparr>) = Some (err, i, s')"
  shows "if err = ERR_ABRT then pcbs s' x = None
    else \<exists>p'. pcbs s' x = Some p' \<and> moved (i_flags (h_in sg)) (got_fin i) (state p) (state p')"
proof -
  let ?s = "s\<lparr>tcp_input_pcb := Some x, input_close := False\<rparr>"
  have "stack_ok (set (pcb_pool s0)) {} ?s" using reachable_idle_ok [OF assms(1)] by (simp add: idle_ok_def)
  moreover have "pcbs ?s x = Some p" using assms(2) by simp
  ultimately have "processed (set (pcb_pool s0)) x (i_flags (h_in sg)) (state p) ?s (err, i, s')"
    using process_ok assms(3,5) tcp_parse_quiet [OF assms(4)] by blast
  then show ?thesis by (auto simp: processed_def)
qed

text \<open>An instance: the remote side closes the connection of the example.\<close>

theorem tcp_process_transitions_witness:
  "\<exists>s p sg i s' p'. stack_reachable example_stack s \<and> pcbs s 0 = Some p \<and> state p = ESTABLISHED \<and>
     tcp_process 0 sg (s\<lparr>tcp_input_pcb := Some 0, input_close := False\<rparr>) = Some (ERR_OK, i, s') \<and>
     pcbs s' 0 = Some p' \<and> moved (i_flags (h_in sg)) (got_fin i) ESTABLISHED (state p') \<and> state p' = CLOSE_WAIT"
proof -
  obtain s p where s: "stack_reachable example_stack s" "pcbs s 0 = Some p" "state p = ESTABLISHED" "example_connected = Some s"
    using example_reachable by blast
  have "example_then_fin s = Some (ERR_OK, Some CLOSE_WAIT)" using example_connected_result unfolding s(4) by simp
  then obtain sg i s' p' where r: "tcp_parse (example_packet [0, 0, 0, 101] [0, 0, 0x19, 0x6f] 17) = Some sg"
      "tcp_process 0 sg (s\<lparr>tcp_input_pcb := Some 0, input_close := False\<rparr>) = Some (ERR_OK, i, s')"
      "pcbs s' 0 = Some p'" "state p' = CLOSE_WAIT"
    by (auto simp: example_then_fin_def bind_eq_Some_conv)
  have "active_state (state p)" using s(3) by simp
  from tcp_process_transitions [OF s(1,2) this r(1,2)] have "moved (i_flags (h_in sg)) (got_fin i) ESTABLISHED (state p')"
    using s(3) r(3) by simp
  then show ?thesis using s(1-3) r(2-4) by blast
qed

section \<open>A waiting block that is freed\<close>

text \<open>Blocks that are not there stay away, and the clock stands still while the timer walks over the blocks.\<close>

lemma purge_pcb_frame:
  assumes "purge_pcb x s = Some s'"
  shows "events s' = events s" "tcp_ticks (st_env s') = tcp_ticks (st_env s)" "y \<noteq> x \<Longrightarrow> pcbs s' y = pcbs s y"
    "\<exists>p. pcbs s x = Some p"
proof -
  have ticks: "tcp_ticks (tcp_segs_free ss e) = tcp_ticks e" for ss e
    by (induction ss e rule: tcp_segs_free.induct) (simp_all add: tcp_seg_free_def)
  obtain p p' e' where p: "pcbs s x = Some p" "tcp_pcb_purge p (st_env s) = (p', e')" "s' = (put_pcb x p' s)\<lparr>st_env := e'\<rparr>"
    using assms by (cases "pcbs s x"; cases "tcp_pcb_purge (the (pcbs s x)) (st_env s)") (auto simp: purge_pcb_def)
  then show "events s' = events s" "y \<noteq> x \<Longrightarrow> pcbs s' y = pcbs s y" "\<exists>p. pcbs s x = Some p" by (simp_all add: put_pcb_def)
  show "tcp_ticks (st_env s') = tcp_ticks (st_env s)"
    using p(2,3) by (auto simp: tcp_pcb_purge_def tcp_free_ooseq_def Let_def ticks split: if_splits)
qed

lemma slowtmr_timewait_frees:
  assumes "slowtmr_timewait xs s = Some s'"
  shows "events s' = events s" "pcbs s x = None \<Longrightarrow> pcbs s' x = None"
    "x \<in> set xs \<Longrightarrow> pcbs s x = Some p \<Longrightarrow> waited_long s p \<Longrightarrow> pcbs s' x = None"
proof -
  have "events s' = events s \<and> (pcbs s x = None \<longrightarrow> pcbs s' x = None) \<and>
    (x \<in> set xs \<and> pcbs s x = Some p \<and> waited_long s p \<longrightarrow> pcbs s' x = None)" if "slowtmr_timewait xs s = Some s'" for xs s
    using that
  proof (induction xs arbitrary: s)
    case (Cons y ys)
    obtain q where q: "pcbs s y = Some q" using Cons.prems by (auto elim!: bind_SomeE)
    obtain t where t: "(if waited_long s q then do { s \<leftarrow> purge_pcb y s; tcp_free y (rmv_tw y s) } else Some s) = Some t"
      and rest: "slowtmr_timewait ys t = Some s'"
      using Cons.prems q by (auto simp: waited_long_def elim!: bind_SomeE)
    note ih = Cons.IH [OF rest]
    show ?case
    proof (cases "waited_long s q")
      case False
      then have "t = s" using t by simp
      then show ?thesis using ih q False by auto
    next
      case True
      then obtain u where u: "purge_pcb y s = Some u" "tcp_free y (rmv_tw y u) = Some t" using t by (auto elim!: bind_SomeE)
      note frame = purge_pcb_frame [OF u(1)]
      have t': "t = free_pcb y (rmv_tw y u)" using tcp_free_eq u(2) by blast
      have ev: "events t = events s" "tcp_ticks (st_env t) = tcp_ticks (st_env s)" "pcbs t y = None"
        using frame(1,2) by (simp_all add: t' free_pcb_def rmv_tw_def)
      have other: "pcbs t x = pcbs s x" if "x \<noteq> y" using frame(3) [OF that] that by (simp add: t' free_pcb_def rmv_tw_def)
      have long: "waited_long t p = waited_long s p" using ev(2) by (simp add: waited_long_def idle_ticks_def)
      show ?thesis using ih ev other long by (cases "x = y") auto
    qed
  qed simp
  from this [OF assms] show "events s' = events s" "pcbs s x = None \<Longrightarrow> pcbs s' x = None"
    "x \<in> set xs \<Longrightarrow> pcbs s x = Some p \<Longrightarrow> waited_long s p \<Longrightarrow> pcbs s' x = None" by blast+
qed

lemma tcp_abandon_time_wait:
  assumes "tcp_abandon x reset s = Some s'" "pcbs s x = Some p" "state p = TIME_WAIT"
  shows "pcbs s' x = None" "events s' = events s"
proof -
  have "tcp_abandon x reset s = tcp_pcb_remove rmv_tw x s \<bind> tcp_free x" using assms(2,3) by (simp add: tcp_abandon_def)
  then have "tcp_pcb_remove rmv_tw x s \<bind> tcp_free x = Some s'" using assms(1) by simp
  then obtain t where t: "tcp_pcb_remove rmv_tw x s = Some t" "tcp_free x t = Some s'" by (rule bind_SomeE)
  have "pcbs (rmv_tw x s) x = Some p" using assms(2) by (simp add: rmv_tw_def)
  then have "purge_pcb x (rmv_tw x s) = Some (put_pcb x p (rmv_tw x s))"
    using assms(3) by (simp add: purge_pcb_def tcp_pcb_purge_def put_pcb_def)
  then have "events t = events s" using t(1) assms(3) by (auto simp: tcp_pcb_remove_def put_pcb_def rmv_tw_def elim!: bind_SomeE)
  then show "pcbs s' x = None" "events s' = events s" using tcp_free_eq [OF t(2)] by (simp_all add: free_pcb_def)
qed

lemma tcp_abandon_returns:
  assumes "pcbs s x = Some p" "state p = TIME_WAIT" "unsent p = []" "unacked p = []" "ooseq p = []"
  shows "\<exists>s'. tcp_abandon x reset s = Some s'"
proof -
  have "pcbs (rmv_tw x s) x = Some p" using assms(1) by (simp add: rmv_tw_def)
  then have "purge_pcb x (rmv_tw x s) = Some (put_pcb x p (rmv_tw x s))"
    using assms(2) by (simp add: purge_pcb_def tcp_pcb_purge_def put_pcb_def)
  then show ?thesis using assms by (simp add: tcp_abandon_def tcp_pcb_remove_def tcp_free_def)
qed

text \<open>C6: a block in TIME_WAIT is freed without a word. When it has waited for twice the segment lifetime, the slow timer frees it;
  when it is given up earlier, because a new connection needs a block, \<^verbatim>\<open>tcp_abandon\<close> frees it, and comes back when the queues of the block are
  empty. In both cases no event is added: the error callback is not called, although the application may still hold the block.\<close>

theorem time_wait_freed_silently:
  assumes "stack_typed s" and "x \<in> set (tw_pcbs s)" and "pcbs s x = Some p"
  shows "(waited_long s p \<longrightarrow> (\<exists>s'. slowtmr_timewait (tw_pcbs s) s = Some s' \<and> pcbs s' x = None \<and> events s' = events s)) \<and>
    (\<forall>s'. tcp_abandon x reset s = Some s' \<longrightarrow> pcbs s' x = None \<and> events s' = events s) \<and>
    (unsent p = [] \<and> unacked p = [] \<and> ooseq p = [] \<longrightarrow> tcp_abandon x reset s \<noteq> None)"
proof (intro conjI impI)
  have tw: "distinct (tw_pcbs s)" "\<And>x. x \<in> set (tw_pcbs s) \<Longrightarrow> \<exists>p. pcbs s x = Some p \<and> state p = TIME_WAIT"
    using assms(1) by (auto simp: stack_typed_def)
  then have st: "state p = TIME_WAIT" using assms(2,3) by fastforce
  show "\<exists>s'. slowtmr_timewait (tw_pcbs s) s = Some s' \<and> pcbs s' x = None \<and> events s' = events s" if "waited_long s p"
    using slowtmr_timewait_returns [OF tw] slowtmr_timewait_frees [of "tw_pcbs s" s] assms(2,3) that by blast
  show "\<forall>s'. tcp_abandon x reset s = Some s' \<longrightarrow> pcbs s' x = None \<and> events s' = events s"
    using tcp_abandon_time_wait [OF _ assms(3) st] by blast
  show "tcp_abandon x reset s \<noteq> None" if "unsent p = [] \<and> unacked p = [] \<and> ooseq p = []"
    using tcp_abandon_returns [OF assms(3) st] that by blast
qed

definition example_waiting :: tcp_stack where
  "example_waiting = example_stack\<lparr>pcbs := [0 \<mapsto> (tcp_pcb_new 64 0 0)\<lparr>state := TIME_WAIT, callbacks := Cb_stream\<rparr>],
     pcb_pool := [1, 2, 3], tw_pcbs := [0], tcpip_tcp_timer_active := True, st_env := example_env\<lparr>tcp_ticks := 1000\<rparr>\<rparr>"

theorem time_wait_freed_silently_witness:
  "\<exists>s' s''. slowtmr_timewait (tw_pcbs example_waiting) example_waiting = Some s' \<and> pcbs s' 0 = None \<and> events s' = [] \<and>
     tcp_abandon 0 True example_waiting = Some s'' \<and> pcbs s'' 0 = None \<and> events s'' = []"
proof -
  let ?p = "(tcp_pcb_new 64 0 0)\<lparr>state := TIME_WAIT, callbacks := Cb_stream\<rparr>"
  have typed: "stack_typed example_waiting"
    by (simp add: stack_typed_def example_waiting_def example_stack_def tcp_pcb_new_def)
  have p: "0 \<in> set (tw_pcbs example_waiting)" "pcbs example_waiting 0 = Some ?p" "events example_waiting = []"
    by (simp_all add: example_waiting_def example_stack_def)
  have "waited_long example_waiting ?p" by code_simp
  moreover have "unsent ?p = [] \<and> unacked ?p = [] \<and> ooseq ?p = []" by (simp add: tcp_pcb_new_def)
  ultimately show ?thesis using time_wait_freed_silently [OF typed p(1,2), of True] p(3) by auto
qed

section \<open>A connection that is closed on one side\<close>

text \<open>C8: no timer ends a half closed connection. The sending side is shut down, its FIN is acknowledged, nothing is left to be sent or
  acknowledged, and the application still wants to receive (\<^verbatim>\<open>half_closed\<close>). Its own poll callback, if it has one, does
  not abort it. Then after any number of whole runs of the slow timer, whatever the other connections do in them, the block is still allocated, on the list of
  the active blocks and half closed: it waits (\<^verbatim>\<open>waits\<close>). And in every state in which it waits, also in the middle of a
  run, the step of the timer for this block, with the poll callback and \<^verbatim>\<open>tcp_output\<close>, succeeds, sends nothing and leaves it waiting.\<close>

theorem half_closed_waits:
  assumes "stack_reachable s0 s" and "pcbs s x = Some p" and "half_closed p"
    and "callbacks p \<noteq> Cb_stream \<or> (\<forall>evs. answer s evs (Ev_poll x) \<noteq> ERR_ABRT)" and "slow_runs n s = Some s'"
  shows "x \<in> set (active_pcbs s') \<and> (\<exists>p'. pcbs s' x = Some p' \<and> half_closed p') \<and>
    waits x s' \<and> (\<forall>t. waits x t \<longrightarrow> (\<exists>b u. slowtmr_step x t = Some (b, u) \<and> waits x u \<and> tx_log (st_env u) = tx_log (st_env t)))"
proof -
  have ok: "idle_ok (set (pcb_pool s0)) s" by (rule reachable_idle_ok [OF assms(1)])
  have "state p = FIN_WAIT_2" using assms(3) by (simp add: half_closed_def)
  then have "x \<in> set (active_pcbs s)" using idle_typed [OF ok] assms(2) by (fastforce simp: stack_typed_def)
  then have "waits x s" using assms(2-4) by (auto simp: waits_def)
  then have "waits x s'" using waits_runs [OF ok _ assms(5)] by blast
  then show ?thesis using waits_step by (fastforce simp: waits_def)
qed

text \<open>
  An instance: the connection of the example is shut down, its stream is dropped, which takes the callbacks away, and the remote side
  acknowledges the FIN; two runs of the timer.
\<close>

definition example_half_closed :: "tcp_stack option" where
  "example_half_closed = do {
     s \<leftarrow> example_connected;
     (_, s) \<leftarrow> tcp_shutdown 0 False True s;
     s \<leftarrow> upd_pcb (\<lambda>pcb. pcb\<lparr>callbacks := Cb_cleared\<rparr>) 0 s;
     tcp_input (example_packet [0, 0, 0, 101] [0, 0, 0x19, 0x70] 16) s
   }"

lemma example_half_closed_result:
  "map_option (\<lambda>s. (map_option half_closed (pcbs s 0), map_option callbacks (pcbs s 0), map_option active_pcbs (slow_runs 2 s)))
     example_half_closed = Some (Some True, Some Cb_cleared, Some [0])"
  by code_simp

lemma example_half_closed_reachable:
  "\<exists>s. stack_reachable example_stack s \<and> example_half_closed = Some s"
proof -
  obtain s where s: "stack_reachable example_stack s" "example_connected = Some s" using example_reachable by blast
  obtain u where u: "example_half_closed = Some u" using example_half_closed_result by auto
  have "tcp_shutdown 0 False True s \<bind> (\<lambda>(_, t). upd_pcb (\<lambda>pcb. pcb\<lparr>callbacks := Cb_cleared\<rparr>) 0 t \<bind>
      tcp_input (example_packet [0, 0, 0, 101] [0, 0, 0x19, 0x70] 16)) = Some u"
    using u unfolding example_half_closed_def s(2) by simp
  then obtain r t v where "tcp_shutdown 0 False True s = Some (r, t)" "upd_pcb (\<lambda>pcb. pcb\<lparr>callbacks := Cb_cleared\<rparr>) 0 t = Some v"
      "tcp_input (example_packet [0, 0, 0, 101] [0, 0, 0x19, 0x70] 16) v = Some u"
    by (auto elim!: bind_SomeE)
  then have "stack_step s t" "stack_step t v" "stack_step v u"
    by (blast intro: stack_step.shutdown stack_step.segment stack_step.callbacks)+
  then have "stack_reachable example_stack u" using s(1) unfolding stack_reachable_def by (meson rtranclp.rtrancl_into_rtrancl)
  then show ?thesis using u by blast
qed

theorem half_closed_waits_witness:
  "\<exists>s s' p'. stack_reachable example_stack s \<and> slow_runs 2 s = Some s' \<and> 0 \<in> set (active_pcbs s') \<and>
     pcbs s' 0 = Some p' \<and> half_closed p'"
proof -
  obtain s where s: "stack_reachable example_stack s" "example_half_closed = Some s" using example_half_closed_reachable by blast
  have "map_option half_closed (pcbs s 0) = Some True" "map_option callbacks (pcbs s 0) = Some Cb_cleared"
    "map_option active_pcbs (slow_runs 2 s) = Some [0]"
    using example_half_closed_result unfolding s(2) by simp_all
  then obtain p s' where p: "pcbs s 0 = Some p" "half_closed p" "callbacks p \<noteq> Cb_stream \<or> (\<forall>evs. answer s evs (Ev_poll 0) \<noteq> ERR_ABRT)"
    and s': "slow_runs 2 s = Some s'" by auto
  from half_closed_waits [OF s(1) p s'] show ?thesis using s(1) s' by blast
qed

end
