(* ===== verification/Ip4_Reass.thy ===== *)
theory Ip4_Reass
  imports Tcp_Base Inet_Chksum "HOL-Library.Multiset"
begin

text \<open>
  The reassembly of IPv4 fragments, \<^verbatim>\<open>core/ipv4/ip4_frag.c\<close>: the queue of incomplete datagrams, its limits and
  its timer, and the result of a completed datagram.

  A packet is its header and the bytes behind the header in each of its pbufs. The fields of the header are in
  host order; the checksum is the 16 bit word that is stored in it. A queued fragment has the interval that the
  code keeps in place of the header. The state counts the pbufs that were freed.
\<close>

section \<open>Packets\<close>

record ip_hdr =
  v_hl :: u8
  iph_tos :: u8
  iph_len :: u16
  iph_id :: u16
  iph_offset :: u16
  iph_ttl :: u8
  iph_proto :: u8
  iph_chksum :: u16
  iph_src :: u32
  iph_dest :: u32

record ip4_pbuf =
  pb_hdr :: ip_hdr
  pb_data :: payloads

definition IP_HLEN :: nat where "IP_HLEN = 20"
definition IP_DF :: u16 where "IP_DF = 0x4000"
definition IP_MF :: u16 where "IP_MF = 0x2000"
definition IP_OFFMASK :: u16 where "IP_OFFMASK = 0x1fff"

definition IPH_HL_BYTES :: "ip_hdr \<Rightarrow> u8" where
  "IPH_HL_BYTES iphdr = (v_hl iphdr AND 0x0f) * 4"

definition IPH_OFFSET_BYTES :: "ip_hdr \<Rightarrow> u16" where
  "IPH_OFFSET_BYTES iphdr = (iph_offset iphdr AND IP_OFFMASK) * 8"

definition be_bytes :: "u16 \<Rightarrow> u8 list" where
  "be_bytes w = [ucast (drop_bit 8 w), ucast w]"

definition be_bytes32 :: "u32 \<Rightarrow> u8 list" where
  "be_bytes32 w = be_bytes (ucast (drop_bit 16 w)) @ be_bytes (ucast w)"

definition ip_hdr_bytes :: "ip_hdr \<Rightarrow> u8 list" where
  "ip_hdr_bytes iphdr =
     [v_hl iphdr, iph_tos iphdr] @ be_bytes (iph_len iphdr) @ be_bytes (iph_id iphdr) @ be_bytes (iph_offset iphdr) @
     [iph_ttl iphdr, iph_proto iphdr] @ rev (be_bytes (iph_chksum iphdr)) @ be_bytes32 (iph_src iphdr) @ be_bytes32 (iph_dest iphdr)"

definition with_chksum :: "ip_hdr \<Rightarrow> ip_hdr" where
  "with_chksum iphdr = (let iphdr = iphdr\<lparr>iph_chksum := 0\<rparr> in iphdr\<lparr>iph_chksum := inet_chksum 0 (ip_hdr_bytes iphdr)\<rparr>)"

definition ip_clen :: "payloads \<Rightarrow> u16" where
  "ip_clen p = word_of_nat (length p)"

section \<open>The queue\<close>

record frag =
  f_start :: u16
  f_end :: u16
  f_data :: payloads

record ip_reassdata =
  r_hdr :: ip_hdr
  r_p :: "frag list"
  r_datagram_len :: u16
  r_flags :: u8
  r_timer :: u8

record ip4_reass_state =
  reassdatagrams :: "ip_reassdata list"
  ip_reass_pbufcount :: u16
  reassdata_free :: nat
  pbufs_freed :: nat

definition IP_REASS_FLAG_LASTFRAG :: u8 where "IP_REASS_FLAG_LASTFRAG = 1"
definition IP_REASS_MAXAGE :: u8 where "IP_REASS_MAXAGE = 15"
definition IP_REASS_MAX_PBUFS :: nat where "IP_REASS_MAX_PBUFS = 10"
definition MEMP_NUM_REASSDATA :: nat where "MEMP_NUM_REASSDATA = 5"

definition IP_ADDRESSES_AND_ID_MATCH :: "ip_hdr \<Rightarrow> ip_hdr \<Rightarrow> bool" where
  "IP_ADDRESSES_AND_ID_MATCH a b \<longleftrightarrow> iph_src a = iph_src b \<and> iph_dest a = iph_dest b \<and> iph_id a = iph_id b"

text \<open>\<^verbatim>\<open>pbuf_free\<close> on a packet that is not shared.\<close>

definition free_packet :: "payloads \<Rightarrow> ip4_reass_state \<Rightarrow> ip4_reass_state" where
  "free_packet p s = s\<lparr>pbufs_freed := pbufs_freed s + length p\<rparr>"

text \<open>A datagram at a place of the list that is taken off it.\<close>

definition remove_nth :: "nat \<Rightarrow> 'a list \<Rightarrow> 'a list" where
  "remove_nth k xs = take k xs @ drop (Suc k) xs"

definition ip_reass_dequeue_datagram :: "nat \<Rightarrow> ip4_reass_state \<Rightarrow> ip4_reass_state" where
  "ip_reass_dequeue_datagram k s =
     s\<lparr>reassdatagrams := remove_nth k (reassdatagrams s), reassdata_free := reassdata_free s + 1\<rparr>"

fun free_frags :: "frag list \<Rightarrow> u16 \<Rightarrow> ip4_reass_state \<Rightarrow> (u16 \<times> ip4_reass_state) option" where
  "free_frags [] n s = Some (n, s)"
| "free_frags (f # fs) n s = do {
     let clen = ip_clen (f_data f);
     lwip_assert (unat n + unat clen \<le> 0xffff);
     free_frags fs (n + clen) (free_packet (f_data f) s)
   }"

definition ip_reass_free_complete_datagram :: "nat \<Rightarrow> ip4_reass_state \<Rightarrow> (u16 \<times> ip4_reass_state) option" where
  "ip_reass_free_complete_datagram k s = do {
     lwip_assert (k < length (reassdatagrams s));
     (n, s) \<leftarrow> free_frags (r_p (reassdatagrams s ! k)) 0 s;
     let s = ip_reass_dequeue_datagram k s;
     lwip_assert (ip_reass_pbufcount s \<ge> n);
     Some (n, s\<lparr>ip_reass_pbufcount := ip_reass_pbufcount s - n\<rparr>)
   }"

text \<open>The timer walks over the list; the index is the place in the list as it is then.\<close>

fun ip_reass_tmr_loop :: "nat \<Rightarrow> nat \<Rightarrow> ip4_reass_state \<Rightarrow> ip4_reass_state option" where
  "ip_reass_tmr_loop 0 k s = Some s"
| "ip_reass_tmr_loop (Suc n) k s =
     (let r = reassdatagrams s ! k
      in if r_timer r > 0
         then ip_reass_tmr_loop n (k + 1) (s\<lparr>reassdatagrams := (reassdatagrams s)[k := r\<lparr>r_timer := r_timer r - 1\<rparr>]\<rparr>)
         else do { (_, s) \<leftarrow> ip_reass_free_complete_datagram k s; ip_reass_tmr_loop n k s })"

definition ip_reass_tmr :: "ip4_reass_state \<Rightarrow> ip4_reass_state option" where
  "ip_reass_tmr s = ip_reass_tmr_loop (length (reassdatagrams s)) 0 s"

text \<open>The oldest datagram that is not the one of the header, and the number of the others.\<close>

fun oldest_datagram :: "ip_hdr \<Rightarrow> nat \<Rightarrow> ip_reassdata list \<Rightarrow> (nat \<times> ip_reassdata) option \<Rightarrow> nat \<Rightarrow> nat option \<times> nat" where
  "oldest_datagram iphdr k [] old n = (map_option fst old, n)"
| "oldest_datagram iphdr k (r # rs) old n =
     (if IP_ADDRESSES_AND_ID_MATCH (r_hdr r) iphdr then oldest_datagram iphdr (k + 1) rs old n
      else oldest_datagram iphdr (k + 1) rs
        (case old of None \<Rightarrow> Some (k, r) | Some (_, q) \<Rightarrow> if r_timer r \<le> r_timer q then Some (k, r) else old) (n + 1))"

text \<open>Every round takes one datagram away.\<close>

fun remove_oldest_loop :: "nat \<Rightarrow> ip_hdr \<Rightarrow> nat \<Rightarrow> nat \<Rightarrow> ip4_reass_state \<Rightarrow> (nat \<times> ip4_reass_state) option" where
  "remove_oldest_loop 0 iphdr needed freed s = None"
| "remove_oldest_loop (Suc fuel) iphdr needed freed s =
     (case oldest_datagram iphdr 0 (reassdatagrams s) None 0 of
        (None, _) \<Rightarrow> Some (freed, s)
      | (Some k, n) \<Rightarrow> do {
          (m, s) \<leftarrow> ip_reass_free_complete_datagram k s;
          let freed = freed + unat m;
          if freed < needed \<and> n > 1 then remove_oldest_loop fuel iphdr needed freed s else Some (freed, s)
        })"

definition ip_reass_remove_oldest_datagram :: "ip_hdr \<Rightarrow> nat \<Rightarrow> ip4_reass_state \<Rightarrow> (nat \<times> ip4_reass_state) option" where
  "ip_reass_remove_oldest_datagram iphdr needed s = remove_oldest_loop (length (reassdatagrams s) + 1) iphdr needed 0 s"

definition ip_reass_enqueue_new_datagram :: "ip_hdr \<Rightarrow> u16 \<Rightarrow> ip4_reass_state \<Rightarrow> (bool \<times> ip4_reass_state) option" where
  "ip_reass_enqueue_new_datagram iphdr clen s = do {
     (ok, s) \<leftarrow> (if reassdata_free s = 0
           then do {
             (n, s) \<leftarrow> ip_reass_remove_oldest_datagram iphdr (unat clen) s;
             Some (n \<ge> unat clen \<and> reassdata_free s > 0, s)
           }
           else Some (True, s));
     if \<not> ok then Some (False, s)
     else Some (True, s\<lparr>reassdata_free := reassdata_free s - 1,
       reassdatagrams := \<lparr>r_hdr = iphdr, r_p = [], r_datagram_len = 0, r_flags = 0, r_timer = IP_REASS_MAXAGE\<rparr> # reassdatagrams s\<rparr>)
   }"

section \<open>A fragment that is put into its datagram\<close>

text \<open>
  The walk to the place of the new fragment. The result has the queue with the fragment, whether there was no hole up to
  the fragment, and the fragments behind it.
\<close>

datatype inserted = Dropped | Queued "frag list" bool "frag list"

definition holds_back :: "frag option \<Rightarrow> frag \<Rightarrow> bool" where
  "holds_back prev f = (case prev of None \<Rightarrow> True | Some q \<Rightarrow> f_end q = f_start f)"

fun queue_in :: "frag \<Rightarrow> inserted \<Rightarrow> inserted" where
  "queue_in q Dropped = Dropped"
| "queue_in q (Queued fs valid rest) = Queued (q # fs) valid rest"

fun insert_frag :: "frag \<Rightarrow> frag option \<Rightarrow> bool \<Rightarrow> frag list \<Rightarrow> inserted option" where
  "insert_frag f prev valid [] =
     (case prev of
        None \<Rightarrow> Some (Queued [f] valid [])
      | Some q \<Rightarrow> do { lwip_assert (f_end q \<le> f_start f); Some (Queued [f] (valid \<and> f_end q = f_start f) []) })"
| "insert_frag f prev valid (q # qs) =
     (if f_start f < f_start q
      then
        if (case prev of None \<Rightarrow> False | Some p \<Rightarrow> f_start f < f_end p) \<or> f_end f > f_start q then Some Dropped
        else Some (Queued (f # q # qs) (valid \<and> holds_back prev f) (q # qs))
      else if f_start f = f_start q then Some Dropped
      else if f_start f < f_end q then Some Dropped
      else do { r \<leftarrow> insert_frag f (Some q) (valid \<and> holds_back prev q) qs; Some (queue_in q r) })"

fun no_holes :: "u16 \<Rightarrow> frag list \<Rightarrow> bool" where
  "no_holes e [] = True"
| "no_holes e (q # qs) = (e = f_start q \<and> no_holes (f_end q) qs)"

datatype reass_valid = PBUF_DROPPED | PBUF_QUEUED | TELEGRAM_FINISHED

definition ip_reass_chain_frag_into_datagram_and_validate ::
  "ip_reassdata \<Rightarrow> ip4_pbuf \<Rightarrow> bool \<Rightarrow> (reass_valid \<times> ip_reassdata) option" where
  "ip_reass_chain_frag_into_datagram_and_validate ipr p is_last =
     (let iphdr = pb_hdr p; hlen = ucast (IPH_HL_BYTES iphdr)
      in if hlen > iph_len iphdr then Some (PBUF_DROPPED, ipr)
         else
           (let n = iph_len iphdr - hlen; off = IPH_OFFSET_BYTES iphdr;
                f = \<lparr>f_start = off, f_end = off + n, f_data = pb_data p\<rparr>
            in if f_end f < off then Some (PBUF_DROPPED, ipr)
               else do {
                 r \<leftarrow> insert_frag f None True (r_p ipr);
                 case r of
                   Dropped \<Rightarrow> Some (PBUF_DROPPED, ipr)
                 | Queued fs valid rest \<Rightarrow> do {
                     let ipr = ipr\<lparr>r_p := fs\<rparr>;
                     if is_last \<or> r_flags ipr AND IP_REASS_FLAG_LASTFRAG \<noteq> 0
                     then
                       if valid \<and> f_start (hd fs) = 0 \<and> no_holes (f_end f) rest
                       then do { lwip_assert (length fs > 1); Some (TELEGRAM_FINISHED, ipr) }
                       else Some (PBUF_QUEUED, ipr)
                     else Some (PBUF_QUEUED, ipr)
                   }
               }))"

section \<open>Reassembly\<close>

fun find_datagram :: "ip_hdr \<Rightarrow> nat \<Rightarrow> ip_reassdata list \<Rightarrow> nat option" where
  "find_datagram iphdr k [] = None"
| "find_datagram iphdr k (r # rs) = (if IP_ADDRESSES_AND_ID_MATCH (r_hdr r) iphdr then Some k else find_datagram iphdr (k + 1) rs)"

definition reass_drop :: "ip4_pbuf \<Rightarrow> ip4_reass_state \<Rightarrow> ip4_pbuf option \<times> ip4_reass_state" where
  "reass_drop p s = (None, free_packet (pb_data p) s)"

definition reass_drop_ipr :: "nat \<Rightarrow> ip4_pbuf \<Rightarrow> ip4_reass_state \<Rightarrow> (ip4_pbuf option \<times> ip4_reass_state) option" where
  "reass_drop_ipr k p s =
     (if r_p (reassdatagrams s ! k) = []
      then do { lwip_assert (k = 0); Some (reass_drop p (ip_reass_dequeue_datagram k s)) }
      else Some (reass_drop p s))"

text \<open>The completed datagram leaves the queue: its fragments are one packet with the header of the first.\<close>

definition reass_finish :: "nat \<Rightarrow> ip4_reass_state \<Rightarrow> (ip4_pbuf option \<times> ip4_reass_state) option" where
  "reass_finish k s = do {
     let ipr = reassdatagrams s ! k;
     let datagram_len = r_datagram_len ipr + word_of_nat IP_HLEN;
     let iphdr = with_chksum ((r_hdr ipr)\<lparr>iph_len := datagram_len, iph_offset := 0\<rparr>);
     let p = \<lparr>pb_hdr = iphdr, pb_data = concat (map f_data (r_p ipr))\<rparr>;
     let s = ip_reass_dequeue_datagram k s;
     let clen = ip_clen (pb_data p);
     lwip_assert (ip_reass_pbufcount s \<ge> clen);
     Some (Some p, s\<lparr>ip_reass_pbufcount := ip_reass_pbufcount s - clen\<rparr>)
   }"

text \<open>What follows when the datagram of the fragment is at place \<open>k\<close> of the list.\<close>

definition reass_put :: "nat \<Rightarrow> ip4_pbuf \<Rightarrow> ip4_reass_state \<Rightarrow> (ip4_pbuf option \<times> ip4_reass_state) option" where
  "reass_put k p s =
     (let iphdr = pb_hdr p; off = IPH_OFFSET_BYTES iphdr; n = iph_len iphdr - ucast (IPH_HL_BYTES iphdr); clen = ip_clen (pb_data p);
          is_last = (iph_offset iphdr AND IP_MF = 0); datagram_len = off + n
      in if is_last \<and> (datagram_len < off \<or> datagram_len > 0xffff - word_of_nat IP_HLEN) then reass_drop_ipr k p s
         else do {
           (valid, ipr) \<leftarrow> ip_reass_chain_frag_into_datagram_and_validate (reassdatagrams s ! k) p is_last;
           if valid = PBUF_DROPPED then reass_drop_ipr k p s
           else do {
             let ipr = (if is_last then ipr\<lparr>r_datagram_len := datagram_len, r_flags := r_flags ipr OR IP_REASS_FLAG_LASTFRAG\<rparr> else ipr);
             let s = s\<lparr>reassdatagrams := (reassdatagrams s)[k := ipr], ip_reass_pbufcount := ip_reass_pbufcount s + clen\<rparr>;
             if valid = TELEGRAM_FINISHED then reass_finish k s else Some (None, s)
           }
         })"

definition ip4_reass :: "ip4_pbuf \<Rightarrow> ip4_reass_state \<Rightarrow> (ip4_pbuf option \<times> ip4_reass_state) option" where
  "ip4_reass p s =
     (let iphdr = pb_hdr p; clen = ip_clen (pb_data p)
      in if unat (IPH_HL_BYTES iphdr) \<noteq> IP_HLEN then Some (reass_drop p s)
         else if ucast (IPH_HL_BYTES iphdr) > iph_len iphdr then Some (reass_drop p s)
         else do {
           (full, s) \<leftarrow>
             (if unat (ip_reass_pbufcount s) + unat clen > IP_REASS_MAX_PBUFS
              then do {
                (n, s) \<leftarrow> ip_reass_remove_oldest_datagram iphdr (unat clen) s;
                Some (n = 0 \<or> unat (ip_reass_pbufcount s) + unat clen > IP_REASS_MAX_PBUFS, s)
              }
              else Some (False, s));
           if full then Some (reass_drop p s)
           else case find_datagram iphdr 0 (reassdatagrams s) of
             None \<Rightarrow> do {
               (ok, s) \<leftarrow> ip_reass_enqueue_new_datagram iphdr clen s;
               if ok then reass_put 0 p s else Some (reass_drop p s)
             }
           | Some k \<Rightarrow>
               (let ipr = reassdatagrams s ! k;
                    ipr = (if iph_offset iphdr AND IP_OFFMASK = 0 \<and> iph_offset (r_hdr ipr) AND IP_OFFMASK \<noteq> 0
                           then ipr\<lparr>r_hdr := iphdr\<rparr> else ipr)
                in reass_put k p (s\<lparr>reassdatagrams := (reassdatagrams s)[k := ipr]\<rparr>))
         })"

section \<open>Sorted queues\<close>

definition flen :: "frag \<Rightarrow> nat" where "flen f = tot_len (f_data f)"

text \<open>A fragment that holds its part of the datagram \<open>D\<close>.\<close>

definition frag_holds :: "u8 list \<Rightarrow> frag \<Rightarrow> bool" where
  "frag_holds D f \<longleftrightarrow>
     unat (f_end f) = unat (f_start f) + flen f \<and> unat (f_end f) \<le> length D \<and> 0 < flen f \<and>
     concat (f_data f) = take (flen f) (drop (unat (f_start f)) D)"

definition before :: "frag \<Rightarrow> frag \<Rightarrow> bool" where
  "before a b \<longleftrightarrow> f_end a \<le> f_start b"

abbreviation frags_ok :: "u8 list \<Rightarrow> frag list \<Rightarrow> bool" where
  "frags_ok D fs \<equiv> sorted_wrt before fs \<and> (\<forall>f \<in> set fs. frag_holds D f)"

fun contiguous :: "frag list \<Rightarrow> bool" where
  "contiguous (a # b # fs) = (f_end a = f_start b \<and> contiguous (b # fs))"
| "contiguous fs = True"

lemma contiguous_no_holes: "no_holes (f_end f) fs = contiguous (f # fs)"
  by (induction fs arbitrary: f) auto

lemma holds_start_less: "frag_holds D f \<Longrightarrow> f_start f < f_end f"
  by (simp add: frag_holds_def word_less_nat_alt)

lemma before_trans: "frag_holds D b \<Longrightarrow> before a b \<Longrightarrow> before b c \<Longrightarrow> before a c"
  using holds_start_less [of D b] by (simp add: before_def)

lemma contiguous_append: "contiguous (as @ b # cs) = (contiguous (as @ [b]) \<and> contiguous (b # cs))"
  by (induction as rule: contiguous.induct) auto

text \<open>The walk either drops the fragment or puts it in order; then the two tests for holes say whether the whole queue is contiguous.\<close>

lemma insert_frag_walk:
  assumes "frag_holds D f" "frags_ok D (ps @ qs)" "\<forall>p \<in> set ps. before p f" "prev = (if ps = [] then None else Some (last ps))"
    "valid = contiguous ps"
  shows "\<exists>r. insert_frag f prev valid qs = Some r \<and>
    (case r of Dropped \<Rightarrow> \<exists>q \<in> set qs. \<not> before q f \<and> \<not> before f q
     | Queued fs v rest \<Rightarrow> \<exists>ms. qs = ms @ rest \<and> fs = ms @ f # rest \<and> frags_ok D (ps @ fs) \<and>
         (v \<and> no_holes (f_end f) rest \<longleftrightarrow> contiguous (ps @ fs)))"
  using assms
proof (induction qs arbitrary: ps prev valid)
  case Nil
  have c: "contiguous (ps @ [f]) \<longleftrightarrow> contiguous ps \<and> (ps \<noteq> [] \<longrightarrow> f_end (last ps) = f_start f)"
    by (induction ps rule: contiguous.induct) auto
  show ?case
  proof (cases "ps = []")
    case True
    then show ?thesis using Nil by simp
  next
    case False
    have "f_end (last ps) \<le> f_start f" using Nil.prems(3) False by (simp add: before_def)
    then show ?thesis using Nil False c by (simp add: sorted_wrt_append)
  qed
next
  case (Cons q qs)
  have q: "frag_holds D q" "\<And>p. p \<in> set ps \<Longrightarrow> before p q" "\<And>x. x \<in> set qs \<Longrightarrow> before q x" "sorted_wrt before qs"
    using Cons.prems(2) by (auto simp: sorted_wrt_append)
  have hold: "holds_back prev x \<longleftrightarrow> (ps \<noteq> [] \<longrightarrow> f_end (last ps) = f_start x)" for x
    using Cons.prems(4) by (simp add: holds_back_def)
  have c: "contiguous (ps @ x # xs) \<longleftrightarrow> contiguous ps \<and> (ps \<noteq> [] \<longrightarrow> f_end (last ps) = f_start x) \<and> contiguous (x # xs)" for x xs
    by (induction ps rule: contiguous.induct) auto
  note less = holds_start_less [OF Cons.prems(1)] holds_start_less [OF q(1)]
  show ?case
  proof (cases "f_start f < f_start q")
    case True
    have no: "\<not> (case prev of None \<Rightarrow> False | Some p \<Rightarrow> f_start f < f_end p)"
      using Cons.prems(3,4) by (auto simp: before_def not_less)
    show ?thesis
    proof (cases "f_end f > f_start q")
      case over: True
      then have "\<not> before f q" "\<not> before q f" using less True by (auto simp: before_def)
      then show ?thesis using over True by auto
    next
      case False
      then have fq: "before f q" by (simp add: before_def)
      have "before f x" if "x \<in> set qs" for x using before_trans [OF q(1) fq q(3) [OF that]] .
      then have "frags_ok D (ps @ f # q # qs)"
        using Cons.prems(1-3) fq by (auto simp: sorted_wrt_append)
      then show ?thesis using True False no Cons.prems(5) hold c [of f "q # qs"] by (simp add: contiguous_no_holes)
    qed
  next
    case False
    show ?thesis
    proof (cases "f_start f < f_end q")
      case True
      then have "\<not> before q f" "\<not> before f q" using less False by (auto simp: before_def)
      then show ?thesis using True False by auto
    next
      case ge: False
      then have qf: "before q f" by (simp add: before_def)
      have ne: "f_start f \<noteq> f_start q" using ge less by auto
      have "\<exists>r. insert_frag f (Some q) (valid \<and> holds_back prev q) qs = Some r \<and>
        (case r of Dropped \<Rightarrow> \<exists>q \<in> set qs. \<not> before q f \<and> \<not> before f q
         | Queued fs v rest \<Rightarrow> \<exists>ms. qs = ms @ rest \<and> fs = ms @ f # rest \<and> frags_ok D ((ps @ [q]) @ fs) \<and>
             (v \<and> no_holes (f_end f) rest \<longleftrightarrow> contiguous ((ps @ [q]) @ fs)))"
        by (rule Cons.IH) (use Cons.prems qf hold c [of q "[]"] in auto)
      then obtain r where r: "insert_frag f (Some q) (valid \<and> holds_back prev q) qs = Some r"
        "case r of Dropped \<Rightarrow> \<exists>q \<in> set qs. \<not> before q f \<and> \<not> before f q
         | Queued fs v rest \<Rightarrow> \<exists>ms. qs = ms @ rest \<and> fs = ms @ f # rest \<and> frags_ok D ((ps @ [q]) @ fs) \<and>
             (v \<and> no_holes (f_end f) rest \<longleftrightarrow> contiguous ((ps @ [q]) @ fs))" by blast
      have step: "insert_frag f prev valid (q # qs) = Some (queue_in q r)" using False ge ne r(1) by simp
      show ?thesis
      proof (cases r)
        case Dropped
        then show ?thesis using step r(2) by auto
      next
        case (Queued fs v rest)
        with r(2) have "\<exists>ms. qs = ms @ rest \<and> fs = ms @ f # rest \<and> frags_ok D (ps @ q # fs) \<and>
            ((v \<and> no_holes (f_end f) rest) = contiguous (ps @ q # fs))" by simp
        then obtain ms where "qs = ms @ rest" "fs = ms @ f # rest" "frags_ok D (ps @ q # fs)"
            "(v \<and> no_holes (f_end f) rest) = contiguous (ps @ q # fs)" by blast
        then have "q # qs = (q # ms) @ rest \<and> q # fs = (q # ms) @ f # rest \<and> frags_ok D (ps @ q # fs) \<and>
            ((v \<and> no_holes (f_end f) rest) = contiguous (ps @ q # fs))" by simp
        then show ?thesis using step Queued by (intro exI [of _ "Queued (q # fs) v rest"]) (simp, blast)
      qed
    qed
  qed
qed

lemma insert_frag_ok:
  assumes "frag_holds D f" "frags_ok D qs"
  shows "\<exists>r. insert_frag f None True qs = Some r \<and>
    (case r of Dropped \<Rightarrow> \<exists>q \<in> set qs. \<not> before q f \<and> \<not> before f q
     | Queued fs v rest \<Rightarrow> frags_ok D fs \<and> mset fs = add_mset f (mset qs) \<and> (v \<and> no_holes (f_end f) rest \<longleftrightarrow> contiguous fs))"
proof -
  obtain r where r: "insert_frag f None True qs = Some r"
    "case r of Dropped \<Rightarrow> \<exists>q \<in> set qs. \<not> before q f \<and> \<not> before f q
     | Queued fs v rest \<Rightarrow> \<exists>ms. qs = ms @ rest \<and> fs = ms @ f # rest \<and> frags_ok D ([] @ fs) \<and>
         (v \<and> no_holes (f_end f) rest \<longleftrightarrow> contiguous ([] @ fs))"
    using insert_frag_walk [of D f "[]" qs None True] assms by auto
  show ?thesis
  proof (cases r)
    case Dropped
    then show ?thesis using r by simp
  next
    case (Queued fs v rest)
    then show ?thesis using r by auto
  qed
qed

text \<open>A queue without holes from the start to the end is one that has as many bytes as the datagram.\<close>

lemma frags_bytes_le:
  assumes "frags_ok D fs" "fs \<noteq> []"
  shows "unat (f_start (hd fs)) + sum_list (map flen fs) \<le> unat (f_end (last fs))"
    "unat (f_start (hd fs)) + sum_list (map flen fs) = unat (f_end (last fs)) \<longleftrightarrow> contiguous fs"
proof -
  have "unat (f_start (hd fs)) + sum_list (map flen fs) \<le> unat (f_end (last fs)) \<and>
    (unat (f_start (hd fs)) + sum_list (map flen fs) = unat (f_end (last fs)) \<longleftrightarrow> contiguous fs)"
    using assms
  proof (induction fs rule: contiguous.induct)
    case (1 a b fs)
    have a: "unat (f_end a) = unat (f_start a) + flen a" "unat (f_end a) \<le> unat (f_start b)"
      using 1(2) by (auto simp: frag_holds_def before_def word_le_nat_alt)
    have "f_end a = f_start b \<longleftrightarrow> unat (f_end a) = unat (f_start b)" by (simp add: word_unat_eq_iff)
    then show ?case using 1 a by auto
  qed (auto simp: frag_holds_def)
  then show "unat (f_start (hd fs)) + sum_list (map flen fs) \<le> unat (f_end (last fs))"
    "unat (f_start (hd fs)) + sum_list (map flen fs) = unat (f_end (last fs)) \<longleftrightarrow> contiguous fs" by blast+
qed

lemma contiguous_concat:
  assumes "frags_ok D fs" "contiguous fs" "fs \<noteq> []"
  shows "concat (concat (map f_data fs)) = take (sum_list (map flen fs)) (drop (unat (f_start (hd fs))) D)"
  using assms
proof (induction fs rule: contiguous.induct)
  case (1 a b fs)
  have a: "unat (f_start b) = unat (f_start a) + flen a" "concat (f_data a) = take (flen a) (drop (unat (f_start a)) D)"
    using 1(2,3) by (auto simp: frag_holds_def)
  have "concat (concat (map f_data (b # fs))) = take (sum_list (map flen (b # fs))) (drop (unat (f_start b)) D)"
    using 1 by simp
  then show ?case by (simp add: a take_add add.commute add.left_commute)
qed (auto simp: frag_holds_def)

lemma frags_last:
  assumes "frags_ok D fs" "f \<in> set fs" "unat (f_end f) = length D" shows "unat (f_end (last fs)) = length D"
proof -
  have ne: "fs \<noteq> []" using assms(2) by auto
  then obtain bs l where fs: "fs = bs @ [l]" by (cases fs rule: rev_cases) auto
  have l: "frag_holds D l" using assms(1) fs by simp
  show ?thesis
  proof (cases "f = l")
    case True
    then show ?thesis using assms(3) fs by simp
  next
    case False
    then have "before f l" using assms(1,2) fs by (auto simp: sorted_wrt_append)
    then have "unat (f_end f) \<le> unat (f_start l)" by (simp add: before_def word_le_nat_alt)
    then show ?thesis using l assms(3) by (auto simp: frag_holds_def fs)
  qed
qed

section \<open>The queue holds parts of the datagrams\<close>

definition entry_ok :: "u8 list \<Rightarrow> ip_reassdata \<Rightarrow> bool" where
  "entry_ok D r \<longleftrightarrow>
     frags_ok D (r_p r) \<and>
     (r_flags r AND IP_REASS_FLAG_LASTFRAG \<noteq> 0 \<longleftrightarrow> (\<exists>f \<in> set (r_p r). unat (f_end f) = length D)) \<and>
     (r_flags r AND IP_REASS_FLAG_LASTFRAG \<noteq> 0 \<longrightarrow> unat (r_datagram_len r) = length D)"

text \<open>What a packet has in place of its header while it is queued.\<close>

definition frag_of :: "ip4_pbuf \<Rightarrow> frag" where
  "frag_of p =
     (let off = IPH_OFFSET_BYTES (pb_hdr p)
      in \<lparr>f_start = off, f_end = off + (iph_len (pb_hdr p) - ucast (IPH_HL_BYTES (pb_hdr p))), f_data = pb_data p\<rparr>)"

definition more_frags :: "ip4_pbuf \<Rightarrow> bool" where
  "more_frags p \<longleftrightarrow> iph_offset (pb_hdr p) AND IP_MF \<noteq> 0"

text \<open>A packet that carries a part of the datagram \<open>D\<close>, but not all of it.\<close>

definition packet_of :: "u8 list \<Rightarrow> ip4_pbuf \<Rightarrow> bool" where
  "packet_of D p \<longleftrightarrow>
     unat (IPH_HL_BYTES (pb_hdr p)) = IP_HLEN \<and> unat (iph_len (pb_hdr p)) = IP_HLEN + tot_len (pb_data p) \<and>
     frag_holds D (frag_of p) \<and> (more_frags p \<longleftrightarrow> unat (f_end (frag_of p)) < length D) \<and>
     flen (frag_of p) < length D \<and> length D \<le> 65515 \<and> length (pb_data p) < 65536"

lemma frag_of_simps [simp]: "f_data (frag_of p) = pb_data p" "f_start (frag_of p) = IPH_OFFSET_BYTES (pb_hdr p)"
  by (simp_all add: frag_of_def Let_def)

lemma finished_iff:
  assumes "frags_ok D fs" "fs \<noteq> []"
  shows "sum_list (map flen fs) = length D \<longleftrightarrow>
    contiguous fs \<and> f_start (hd fs) = 0 \<and> (\<exists>f \<in> set fs. unat (f_end f) = length D)"
proof -
  note le = frags_bytes_le [OF assms]
  have last: "last fs \<in> set fs" "frag_holds D (last fs)" using assms by auto
  then have end_le: "unat (f_end (last fs)) \<le> length D" by (simp add: frag_holds_def)
  show ?thesis
  proof
    assume sum: "sum_list (map flen fs) = length D"
    then have "unat (f_start (hd fs)) = 0" "unat (f_end (last fs)) = length D" using le(1) end_le by auto
    moreover from this have "contiguous fs" using le(2) sum by simp
    ultimately show "contiguous fs \<and> f_start (hd fs) = 0 \<and> (\<exists>f \<in> set fs. unat (f_end f) = length D)"
      using last(1) by (auto simp: unat_eq_0)
  next
    assume "contiguous fs \<and> f_start (hd fs) = 0 \<and> (\<exists>f \<in> set fs. unat (f_end f) = length D)"
    then show "sum_list (map flen fs) = length D" using le(2) frags_last [OF assms(1)] by auto
  qed
qed

lemma ip4_packet_lengths:
  assumes "packet_of D p"
  shows "ucast (IPH_HL_BYTES (pb_hdr p)) \<le> iph_len (pb_hdr p)" "IPH_OFFSET_BYTES (pb_hdr p) \<le> f_end (frag_of p)"
    "unat (ip_clen (pb_data p)) = length (pb_data p)"
    "f_end (frag_of p) = IPH_OFFSET_BYTES (pb_hdr p) + (iph_len (pb_hdr p) - ucast (IPH_HL_BYTES (pb_hdr p)))"
proof -
  have "unat (ucast (IPH_HL_BYTES (pb_hdr p)) :: u16) = IP_HLEN" using assms by (simp add: packet_of_def unat_ucast_up)
  then show "ucast (IPH_HL_BYTES (pb_hdr p)) \<le> iph_len (pb_hdr p)" using assms by (simp add: packet_of_def word_le_nat_alt)
  show "IPH_OFFSET_BYTES (pb_hdr p) \<le> f_end (frag_of p)"
    using assms by (simp add: packet_of_def frag_holds_def word_le_nat_alt)
  show "unat (ip_clen (pb_data p)) = length (pb_data p)" using assms by (simp add: packet_of_def ip_clen_def unat_of_nat take_bit_nat_eq_self)
  show "f_end (frag_of p) = IPH_OFFSET_BYTES (pb_hdr p) + (iph_len (pb_hdr p) - ucast (IPH_HL_BYTES (pb_hdr p)))"
    by (simp add: frag_of_def Let_def)
qed

text \<open>The step on one datagram: the fragment is dropped because it overlaps, or it is queued; the datagram is complete when it has all its bytes.\<close>

lemma chain_frag_ok:
  assumes r: "entry_ok D r" and p: "packet_of D p"
  shows "ip_reass_chain_frag_into_datagram_and_validate r p (\<not> more_frags p) = Some (PBUF_DROPPED, r) \<and>
      (\<exists>q \<in> set (r_p r). \<not> before q (frag_of p) \<and> \<not> before (frag_of p) q) \<or>
    (\<exists>fs. ip_reass_chain_frag_into_datagram_and_validate r p (\<not> more_frags p) =
        Some (if sum_list (map flen fs) = length D then TELEGRAM_FINISHED else PBUF_QUEUED, r\<lparr>r_p := fs\<rparr>) \<and>
      frags_ok D fs \<and> mset fs = add_mset (frag_of p) (mset (r_p r)))"
proof -
  let ?f = "frag_of p" let ?hl = "ucast (IPH_HL_BYTES (pb_hdr p)) :: u16" and ?last = "\<not> more_frags p"
  note n = ip4_packet_lengths [OF p]
  have f: "frag_holds D ?f" using p by (simp add: packet_of_def)
  have body: "ip_reass_chain_frag_into_datagram_and_validate r p ?last = do {
      x \<leftarrow> insert_frag ?f None True (r_p r);
      case x of
        Dropped \<Rightarrow> Some (PBUF_DROPPED, r)
      | Queued fs valid rest \<Rightarrow>
          if ?last \<or> r_flags r AND IP_REASS_FLAG_LASTFRAG \<noteq> 0
          then if valid \<and> f_start (hd fs) = 0 \<and> no_holes (f_end ?f) rest
               then do { lwip_assert (length fs > 1); Some (TELEGRAM_FINISHED, r\<lparr>r_p := fs\<rparr>) }
               else Some (PBUF_QUEUED, r\<lparr>r_p := fs\<rparr>)
          else Some (PBUF_QUEUED, r\<lparr>r_p := fs\<rparr>) }"
    using n(1,2,4) unfolding ip_reass_chain_frag_into_datagram_and_validate_def Let_def frag_of_def
    by (simp add: not_less [symmetric] cong: inserted.case_cong)
  have frags: "frags_ok D (r_p r)" using r by (simp add: entry_ok_def)
  obtain x where x: "insert_frag ?f None True (r_p r) = Some x"
    "case x of Dropped \<Rightarrow> \<exists>q \<in> set (r_p r). \<not> before q ?f \<and> \<not> before ?f q
     | Queued fs v rest \<Rightarrow> frags_ok D fs \<and> mset fs = add_mset ?f (mset (r_p r)) \<and> (v \<and> no_holes (f_end ?f) rest \<longleftrightarrow> contiguous fs)"
    using insert_frag_ok [OF f frags] by blast
  show ?thesis
  proof (cases x)
    case Dropped
    then show ?thesis using x body by simp
  next
    case (Queued fs v rest)
    then have fs: "frags_ok D fs" "mset fs = add_mset ?f (mset (r_p r))" "(v \<and> no_holes (f_end ?f) rest) = contiguous fs"
      using x(2) by simp_all
    have ne: "fs \<noteq> []" using fs(2) by auto
    have set: "set fs = insert ?f (set (r_p r))" using fs(2) by (metis set_mset_add_mset_insert set_mset_mset)
    have at_end: "?last \<longleftrightarrow> unat (f_end ?f) = length D"
      using p f by (auto simp: packet_of_def frag_holds_def)
    have ended: "(\<exists>f \<in> set fs. unat (f_end f) = length D) \<longleftrightarrow> ?last \<or> r_flags r AND IP_REASS_FLAG_LASTFRAG \<noteq> 0"
      using r at_end by (auto simp: set entry_ok_def)
    note fin = finished_iff [OF fs(1) ne]
    have two: "length fs > 1" if "sum_list (map flen fs) = length D"
    proof (rule ccontr)
      assume "\<not> length fs > 1"
      then have "fs = [?f]" using ne set by (cases fs; cases "tl fs") auto
      then show False using that p by (simp add: packet_of_def)
    qed
    show ?thesis
    proof (cases "sum_list (map flen fs) = length D")
      case True
      then have "v \<and> f_start (hd fs) = 0 \<and> no_holes (f_end ?f) rest" "?last \<or> r_flags r AND IP_REASS_FLAG_LASTFRAG \<noteq> 0"
        using fin ended fs(3) by blast+
      then show ?thesis using x(1) Queued body fs(1,2) True two by auto
    next
      case False
      then have "\<not> (v \<and> f_start (hd fs) = 0 \<and> no_holes (f_end ?f) rest \<and> (?last \<or> r_flags r AND IP_REASS_FLAG_LASTFRAG \<noteq> 0))"
        using fin ended fs(3) by blast
      then show ?thesis using x(1) Queued body fs(1,2) False by auto
    qed
  qed
qed

section \<open>The counters\<close>

definition reass_key :: "ip_hdr \<Rightarrow> u32 \<times> u32 \<times> u16" where
  "reass_key iphdr = (iph_src iphdr, iph_dest iphdr, iph_id iphdr)"

abbreviation entry_key :: "ip_reassdata \<Rightarrow> u32 \<times> u32 \<times> u16" where
  "entry_key r \<equiv> reass_key (r_hdr r)"

lemma match_key: "IP_ADDRESSES_AND_ID_MATCH a b \<longleftrightarrow> reass_key a = reass_key b"
  by (auto simp: IP_ADDRESSES_AND_ID_MATCH_def reass_key_def)

definition pbufs_of :: "frag list \<Rightarrow> nat" where
  "pbufs_of fs = sum_list (map (\<lambda>f. length (f_data f)) fs)"

definition queued :: "ip4_reass_state \<Rightarrow> nat" where
  "queued s = sum_list (map (\<lambda>r. pbufs_of (r_p r)) (reassdatagrams s))"

text \<open>
  The invariant of the queue. \<open>E\<close> says what else holds of every incomplete datagram.
\<close>

definition entry_wf :: "ip_reassdata \<Rightarrow> bool" where
  "entry_wf r \<longleftrightarrow> (\<forall>f \<in> set (r_p r). f_data f \<noteq> []) \<and> r_timer r \<le> IP_REASS_MAXAGE"

definition reass_inv :: "(ip_reassdata \<Rightarrow> bool) \<Rightarrow> ip4_reass_state \<Rightarrow> bool" where
  "reass_inv E s \<longleftrightarrow>
     unat (ip_reass_pbufcount s) = queued s \<and> queued s \<le> IP_REASS_MAX_PBUFS \<and>
     reassdata_free s + length (reassdatagrams s) = MEMP_NUM_REASSDATA \<and>
     distinct (map entry_key (reassdatagrams s)) \<and> (\<forall>r \<in> set (reassdatagrams s). entry_wf r \<and> E r)"

lemma pbufs_of_simps [simp]: "pbufs_of [] = 0" "pbufs_of (f # fs) = length (f_data f) + pbufs_of fs"
  by (simp_all add: pbufs_of_def)

lemma sum_list_mset: "mset xs = mset ys \<Longrightarrow> sum_list (map g xs) = sum_list (map g ys)" for g :: "'a \<Rightarrow> nat"
  using sum_mset_sum_list [of "map g xs"] sum_mset_sum_list [of "map g ys"] by simp

lemma pbufs_of_mset: "mset fs = mset gs \<Longrightarrow> pbufs_of fs = pbufs_of gs"
  unfolding pbufs_of_def by (rule sum_list_mset)

lemma entry_wf_pos: "entry_wf r \<Longrightarrow> r_p r \<noteq> [] \<Longrightarrow> 0 < pbufs_of (r_p r)"
  by (cases "r_p r") (auto simp: entry_wf_def)

lemma mset_remove_nth: "k < length xs \<Longrightarrow> mset xs = add_mset (xs ! k) (mset (remove_nth k xs))"
  by (subst (1) id_take_nth_drop [of k xs]) (simp_all add: remove_nth_def)

lemma remove_nth_length: "k < length xs \<Longrightarrow> length (remove_nth k xs) = length xs - 1"
  by (simp add: remove_nth_def)

lemma set_remove_nth: "set (remove_nth k xs) \<subseteq> set xs"
  unfolding remove_nth_def by (auto dest: in_set_takeD in_set_dropD)

lemma map_remove_nth: "map g (remove_nth k xs) = remove_nth k (map g xs)"
  by (simp add: remove_nth_def take_map drop_map)

lemma distinct_remove_nth: "distinct xs \<Longrightarrow> distinct (remove_nth k xs)"
  unfolding remove_nth_def by (simp add: set_take_disj_set_drop_if_distinct)

lemma sum_remove_nth: "k < length xs \<Longrightarrow> sum_list (map g xs) = g (xs ! k) + sum_list (map g (remove_nth k xs))" for g :: "'a \<Rightarrow> nat"
  using sum_list_mset [of xs "xs ! k # remove_nth k xs" g] mset_remove_nth [of k xs] by simp

lemma sum_update: "k < length xs \<Longrightarrow> sum_list (map g (xs[k := y])) + g (xs ! k) = sum_list (map g xs) + g y" for g :: "'a \<Rightarrow> nat"
  using member_le_sum_list [of "g (xs ! k)" "map g xs"] by (simp add: map_update sum_list_update)

lemma free_frags_ok:
  "unat n + pbufs_of fs < 65536 \<Longrightarrow>
    free_frags fs n s = Some (n + word_of_nat (pbufs_of fs), s\<lparr>pbufs_freed := pbufs_freed s + pbufs_of fs\<rparr>)"
proof (induction fs arbitrary: n s)
  case (Cons f fs)
  have c: "unat (ip_clen (f_data f)) = length (f_data f)" using Cons.prems by (simp add: ip_clen_def unat_of_nat take_bit_nat_eq_self)
  then have "unat (n + ip_clen (f_data f)) = unat n + length (f_data f)"
    using Cons.prems by (subst unat_add_lem [THEN iffD1]) auto
  then show ?case using Cons c by (simp add: free_packet_def ip_clen_def add.assoc)
qed simp

definition freed_datagram :: "nat \<Rightarrow> ip4_reass_state \<Rightarrow> ip4_reass_state" where
  "freed_datagram k s =
     s\<lparr>reassdatagrams := remove_nth k (reassdatagrams s), reassdata_free := reassdata_free s + 1,
       pbufs_freed := pbufs_freed s + pbufs_of (r_p (reassdatagrams s ! k)),
       ip_reass_pbufcount := ip_reass_pbufcount s - word_of_nat (pbufs_of (r_p (reassdatagrams s ! k)))\<rparr>"

lemma free_datagram_ok:
  assumes "reass_inv E s" "k < length (reassdatagrams s)"
  shows "ip_reass_free_complete_datagram k s = Some (word_of_nat (pbufs_of (r_p (reassdatagrams s ! k))), freed_datagram k s)"
    "reass_inv E (freed_datagram k s)"
    "queued s = pbufs_of (r_p (reassdatagrams s ! k)) + queued (freed_datagram k s)"
    "pbufs_freed (freed_datagram k s) = pbufs_freed s + pbufs_of (r_p (reassdatagrams s ! k))"
proof -
  let ?n = "pbufs_of (r_p (reassdatagrams s ! k))"
  show q: "queued s = ?n + queued (freed_datagram k s)"
    using assms(2) by (simp add: queued_def freed_datagram_def sum_remove_nth)
  have inv: "unat (ip_reass_pbufcount s) = queued s" "queued s \<le> IP_REASS_MAX_PBUFS"
    using assms(1) by (simp_all add: reass_inv_def)
  then have n: "?n \<le> 10" "unat (word_of_nat ?n :: u16) = ?n"
    using q by (simp_all add: IP_REASS_MAX_PBUFS_def unat_of_nat take_bit_nat_eq_self)
  have le: "word_of_nat ?n \<le> ip_reass_pbufcount s" using n q inv by (simp add: word_le_nat_alt)
  show "ip_reass_free_complete_datagram k s = Some (word_of_nat ?n, freed_datagram k s)"
    using assms(2) n le free_frags_ok [of 0 "r_p (reassdatagrams s ! k)" s]
    by (simp add: ip_reass_free_complete_datagram_def ip_reass_dequeue_datagram_def freed_datagram_def)
  show "pbufs_freed (freed_datagram k s) = pbufs_freed s + ?n" by (simp add: freed_datagram_def)
  have "unat (ip_reass_pbufcount (freed_datagram k s)) = queued (freed_datagram k s)"
    using le n inv q by (simp add: freed_datagram_def unat_sub)
  then show "reass_inv E (freed_datagram k s)"
    using assms q set_remove_nth [of k "reassdatagrams s"]
    by (auto simp: reass_inv_def freed_datagram_def remove_nth_length map_remove_nth distinct_remove_nth)
qed

section \<open>The timer\<close>

text \<open>What one tick does to the list.\<close>

definition ticked :: "ip_reassdata list \<Rightarrow> ip_reassdata list" where
  "ticked rs = map (\<lambda>r. r\<lparr>r_timer := r_timer r - 1\<rparr>) (filter (\<lambda>r. r_timer r > 0) rs)"

text \<open>A step that takes datagrams off the list and changes nothing else of it.\<close>

definition conserves :: "ip4_reass_state \<Rightarrow> ip4_reass_state \<Rightarrow> bool" where
  "conserves s s' \<longleftrightarrow> pbufs_freed s' + queued s' = pbufs_freed s + queued s"

lemma conserves_refl [simp]: "conserves s s" by (simp add: conserves_def)

lemma conserves_trans: "conserves s s' \<Longrightarrow> conserves s' s'' \<Longrightarrow> conserves s s''" by (simp add: conserves_def)

lemma freed_conserves: "reass_inv E s \<Longrightarrow> k < length (reassdatagrams s) \<Longrightarrow> conserves s (freed_datagram k s)"
  using free_datagram_ok(3,4) [of E s k] by (simp add: conserves_def)

definition dec_timer :: "ip_reassdata \<Rightarrow> ip_reassdata" where
  "dec_timer r = r\<lparr>r_timer := r_timer r - 1\<rparr>"

lemma tick_entry:
  assumes "reass_inv E s" "k < length (reassdatagrams s)" "r_timer (reassdatagrams s ! k) > 0" "\<And>r. E r \<Longrightarrow> E (dec_timer r)"
  shows "reass_inv E (s\<lparr>reassdatagrams := (reassdatagrams s)[k := dec_timer (reassdatagrams s ! k)]\<rparr>)"
    "conserves s (s\<lparr>reassdatagrams := (reassdatagrams s)[k := dec_timer (reassdatagrams s ! k)]\<rparr>)"
proof -
  let ?rs = "reassdatagrams s" let ?r = "?rs ! k"
  let ?s = "s\<lparr>reassdatagrams := ?rs[k := dec_timer ?r]\<rparr>"
  have q: "queued ?s = queued s"
    using sum_update [OF assms(2), of "\<lambda>r. pbufs_of (r_p r)" "dec_timer ?r"] by (simp add: queued_def dec_timer_def)
  have key: "map entry_key (?rs[k := dec_timer ?r]) = map entry_key ?rs"
    using assms(2) by (simp add: map_update list_update_same_conv dec_timer_def)
  have r: "entry_wf ?r" "E ?r" using assms(1,2) by (auto simp: reass_inv_def)
  have "r_timer ?r - 1 \<le> r_timer ?r" using assms(3) by (simp add: word_less_nat_alt word_le_nat_alt unat_sub)
  then have wf: "entry_wf (dec_timer ?r)" using r(1) by (auto simp: entry_wf_def dec_timer_def)
  then have all: "\<forall>r \<in> set (?rs[k := dec_timer ?r]). entry_wf r \<and> E r"
    using assms(1) assms(4) [OF r(2)] set_update_subset_insert [of ?rs k "dec_timer ?r"] by (auto simp: reass_inv_def)
  show "conserves s ?s" using q by (simp add: conserves_def)
  show "reass_inv E ?s" using assms(1) q key all by (simp add: reass_inv_def)
qed

lemma tmr_loop_ok:
  assumes "reass_inv E s" "\<And>r. E r \<Longrightarrow> E (dec_timer r)" "reassdatagrams s = ps @ rs" "k = length ps"
  shows "\<exists>s'. ip_reass_tmr_loop (length rs) k s = Some s' \<and> reass_inv E s' \<and> conserves s s' \<and> reassdatagrams s' = ps @ ticked rs"
  using assms(1,3,4)
proof (induction rs arbitrary: ps k s)
  case Nil
  then show ?case by (simp add: ticked_def)
next
  case (Cons r rs)
  have k: "k < length (reassdatagrams s)" and r: "reassdatagrams s ! k = r" using Cons.prems(2,3) by simp_all
  show ?case
  proof (cases "r_timer r > 0")
    case True
    let ?s = "s\<lparr>reassdatagrams := (reassdatagrams s)[k := dec_timer r]\<rparr>"
    have t: "reass_inv E ?s" "conserves s ?s" using tick_entry [OF Cons.prems(1) k _ assms(2)] True r by simp_all
    have "reassdatagrams ?s = (ps @ [dec_timer r]) @ rs" using Cons.prems(2,3) by simp
    from Cons.IH [OF t(1) this, of "k + 1"] obtain s' where
      s': "ip_reass_tmr_loop (length rs) (k + 1) ?s = Some s'" "reass_inv E s'" "conserves ?s s'"
        "reassdatagrams s' = (ps @ [dec_timer r]) @ ticked rs"
      using Cons.prems(3) by auto
    have "ip_reass_tmr_loop (length (r # rs)) k s = Some s'" using s'(1) True r by (simp add: Let_def dec_timer_def)
    moreover have "reassdatagrams s' = ps @ ticked (r # rs)" using s'(4) True by (simp add: ticked_def dec_timer_def)
    ultimately show ?thesis using s' conserves_trans [OF t(2) s'(3)] by blast
  next
    case False
    let ?s = "freed_datagram k s"
    note f = free_datagram_ok [OF Cons.prems(1) k] freed_conserves [OF Cons.prems(1) k]
    have "reassdatagrams ?s = ps @ rs" using Cons.prems(2,3) by (simp add: freed_datagram_def remove_nth_def)
    from Cons.IH [OF f(2) this Cons.prems(3)] obtain s' where
      s': "ip_reass_tmr_loop (length rs) k ?s = Some s'" "reass_inv E s'" "conserves ?s s'" "reassdatagrams s' = ps @ ticked rs"
      by blast
    have "ip_reass_tmr_loop (length (r # rs)) k s = Some s'" using s'(1) False r f(1) by (simp add: Let_def)
    moreover have "ticked (r # rs) = ticked rs" using False by (simp add: ticked_def)
    ultimately show ?thesis using s' conserves_trans [OF f(5) s'(3)] by auto
  qed
qed

lemma tmr_ok:
  assumes "reass_inv E s" "\<And>r. E r \<Longrightarrow> E (dec_timer r)"
  shows "\<exists>s'. ip_reass_tmr s = Some s' \<and> reass_inv E s' \<and> conserves s s' \<and> reassdatagrams s' = ticked (reassdatagrams s)"
  using tmr_loop_ok [OF assms(1), of "[]" "reassdatagrams s" 0] assms(2) by (simp add: ip_reass_tmr_def)

fun ip_reass_ticks :: "nat \<Rightarrow> ip4_reass_state \<Rightarrow> ip4_reass_state option" where
  "ip_reass_ticks 0 s = Some s"
| "ip_reass_ticks (Suc n) s = do { s \<leftarrow> ip_reass_tmr s; ip_reass_ticks n s }"

lemma ticks_ok:
  assumes "reass_inv E s" "\<And>r. E r \<Longrightarrow> E (dec_timer r)"
  shows "\<exists>s'. ip_reass_ticks n s = Some s' \<and> reass_inv E s' \<and> conserves s s' \<and> reassdatagrams s' = (ticked ^^ n) (reassdatagrams s)"
  using assms(1)
proof (induction n arbitrary: s)
  case (Suc n)
  obtain s1 where s1: "ip_reass_tmr s = Some s1" "reass_inv E s1" "conserves s s1" "reassdatagrams s1 = ticked (reassdatagrams s)"
    using tmr_ok [OF Suc.prems assms(2)] by blast
  obtain s2 where "ip_reass_ticks n s1 = Some s2" "reass_inv E s2" "conserves s1 s2" "reassdatagrams s2 = (ticked ^^ n) (reassdatagrams s1)"
    using Suc.IH [OF s1(2)] by blast
  then show ?case using s1 conserves_trans [OF s1(3)] by (auto simp: funpow_swap1)
qed simp

lemma ticked_all: "\<forall>r \<in> set rs. unat (r_timer r) \<le> n \<Longrightarrow> (ticked ^^ Suc n) rs = []"
proof (induction n arbitrary: rs)
  case 0
  then show ?case by (auto simp: ticked_def filter_empty_conv unat_eq_0)
next
  case (Suc n)
  have "\<forall>r \<in> set (ticked rs). unat (r_timer r) \<le> n"
  proof
    fix r assume "r \<in> set (ticked rs)"
    then obtain q where q: "q \<in> set rs" "r_timer q > 0" "r_timer r = r_timer q - 1" by (auto simp: ticked_def)
    have "unat (r_timer q - 1) = unat (r_timer q) - 1" using q(2) by (simp add: unat_sub word_less_nat_alt word_le_nat_alt)
    then show "unat (r_timer r) \<le> n" using Suc.prems q by auto
  qed
  then have "(ticked ^^ Suc n) (ticked rs) = []" by (rule Suc.IH)
  then show ?case by (simp only: funpow_Suc_right comp_def)
qed

section \<open>Room for a fragment\<close>

abbreviation others :: "ip_hdr \<Rightarrow> ip_reassdata list \<Rightarrow> nat" where
  "others iphdr rs \<equiv> length (filter (\<lambda>r. entry_key r \<noteq> reass_key iphdr) rs)"

lemma oldest_datagram_eq:
  "oldest_datagram iphdr k rs old n = (res, m) \<Longrightarrow> m = n + others iphdr rs \<and>
    (case res of None \<Rightarrow> old = None \<and> others iphdr rs = 0
     | Some j \<Rightarrow> (k \<le> j \<and> j < k + length rs \<and> entry_key (rs ! (j - k)) \<noteq> reass_key iphdr) \<or> map_option fst old = Some j)"
proof (induction iphdr k rs old n rule: oldest_datagram.induct)
  case (1 iphdr k old n)
  then show ?case by (cases old) auto
next
  case (2 iphdr k r rs old n)
  show ?case
  proof (cases "IP_ADDRESSES_AND_ID_MATCH (r_hdr r) iphdr")
    case True
    then have IH: "m = n + others iphdr rs" "case res of None \<Rightarrow> old = None \<and> others iphdr rs = 0
     | Some j \<Rightarrow> (k + 1 \<le> j \<and> j < k + 1 + length rs \<and> entry_key (rs ! (j - (k + 1))) \<noteq> reass_key iphdr) \<or> map_option fst old = Some j"
      using 2 by auto
    then show ?thesis using True by (cases res) (auto simp: match_key nth_Cons' Suc_diff_le)
  next
    case False
    let ?old = "case old of None \<Rightarrow> Some (k, r) | Some (_, q) \<Rightarrow> if r_timer r \<le> r_timer q then Some (k, r) else old"
    have old: "?old \<noteq> None" "map_option fst ?old = Some j \<Longrightarrow> j = k \<or> map_option fst old = Some j" for j
      by (auto split: option.splits if_splits)
    have IH: "m = n + 1 + others iphdr rs" "case res of None \<Rightarrow> ?old = None \<and> others iphdr rs = 0
     | Some j \<Rightarrow> (k + 1 \<le> j \<and> j < k + 1 + length rs \<and> entry_key (rs ! (j - (k + 1))) \<noteq> reass_key iphdr) \<or> map_option fst ?old = Some j"
      using 2(2) [OF False] 2(3) False by auto
    show ?thesis
    proof (cases res)
      case None
      then show ?thesis using IH old by simp
    next
      case (Some j)
      then show ?thesis using IH old(2) [of j] False by (auto simp: match_key nth_Cons')
    qed
  qed
qed

text \<open>The datagrams of the list have a fragment each.\<close>

abbreviation held :: "(ip_reassdata \<Rightarrow> bool) \<Rightarrow> ip_reassdata \<Rightarrow> bool" where
  "held E \<equiv> \<lambda>r. r_p r \<noteq> [] \<and> E r"

lemma filter_remove_nth: "k < length xs \<Longrightarrow> \<not> P (xs ! k) \<Longrightarrow> filter P (remove_nth k xs) = filter P xs"
  using id_take_nth_drop [of k xs] by (metis (no_types, lifting) filter.simps(2) filter_append remove_nth_def)

lemma filter_remove_nth_length: "k < length xs \<Longrightarrow> P (xs ! k) \<Longrightarrow> length (filter P xs) = Suc (length (filter P (remove_nth k xs)))"
  by (subst (1) id_take_nth_drop [of k xs]) (simp_all add: remove_nth_def)

text \<open>A step that takes other datagrams off the list to make room: the datagram of the header stays.\<close>

definition makes_room :: "ip_hdr \<Rightarrow> nat \<Rightarrow> ip4_reass_state \<Rightarrow> ip4_reass_state \<Rightarrow> bool" where
  "makes_room iphdr m s s' \<longleftrightarrow>
     queued s = m + queued s' \<and> pbufs_freed s' = pbufs_freed s + m \<and> set (reassdatagrams s') \<subseteq> set (reassdatagrams s) \<and>
     filter (\<lambda>r. entry_key r = reass_key iphdr) (reassdatagrams s') = filter (\<lambda>r. entry_key r = reass_key iphdr) (reassdatagrams s)"

lemma makes_room_trans: "makes_room iphdr m s s' \<Longrightarrow> makes_room iphdr n s' s'' \<Longrightarrow> makes_room iphdr (m + n) s s''"
  unfolding makes_room_def by auto

lemma makes_room_refl: "makes_room iphdr 0 s s" by (simp add: makes_room_def)

lemma remove_oldest_loop_ok:
  assumes "reass_inv (held E) s" "others iphdr (reassdatagrams s) < fuel"
  shows "\<exists>m s'. remove_oldest_loop fuel iphdr needed freed s = Some (freed + m, s') \<and> reass_inv (held E) s' \<and> makes_room iphdr m s s' \<and>
    (needed \<le> freed + m \<or> others iphdr (reassdatagrams s') = 0) \<and> (others iphdr (reassdatagrams s) > 0 \<longrightarrow> m > 0 \<and> reassdata_free s' > 0)"
  using assms
proof (induction fuel arbitrary: s freed)
  case (Suc fuel)
  obtain res n where o: "oldest_datagram iphdr 0 (reassdatagrams s) None 0 = (res, n)" by fastforce
  note old = oldest_datagram_eq [OF o]
  show ?case
  proof (cases res)
    case None
    then have "remove_oldest_loop (Suc fuel) iphdr needed freed s = Some (freed + 0, s)" using o by simp
    then show ?thesis using old None Suc.prems(1) makes_room_refl [of iphdr s] by fastforce
  next
    case (Some k)
    then have k: "k < length (reassdatagrams s)" "entry_key (reassdatagrams s ! k) \<noteq> reass_key iphdr" using old by simp_all
    let ?s = "freed_datagram k s" let ?m = "pbufs_of (r_p (reassdatagrams s ! k))"
    note f = free_datagram_ok [OF Suc.prems(1) k(1)]
    have "entry_wf (reassdatagrams s ! k)" "r_p (reassdatagrams s ! k) \<noteq> []" using Suc.prems(1) k(1) by (auto simp: reass_inv_def)
    then have pos: "0 < ?m" by (rule entry_wf_pos)
    have "?m \<le> 10" using f(3) Suc.prems(1) by (simp add: reass_inv_def IP_REASS_MAX_PBUFS_def)
    then have m: "unat (word_of_nat ?m :: u16) = ?m" by (simp add: unat_of_nat take_bit_nat_eq_self)
    have room: "makes_room iphdr ?m s ?s"
      using f(3,4) k set_remove_nth [of k "reassdatagrams s"]
      by (simp add: makes_room_def freed_datagram_def filter_remove_nth)
    have less: "others iphdr (reassdatagrams s) = Suc (others iphdr (reassdatagrams ?s))"
      using filter_remove_nth_length [OF k(1), of "\<lambda>r. entry_key r \<noteq> reass_key iphdr"] k(2) by (simp add: freed_datagram_def)
    have free: "reassdata_free ?s > 0" by (simp add: freed_datagram_def)
    have n: "n = others iphdr (reassdatagrams s)" using old by simp
    show ?thesis
    proof (cases "freed + ?m < needed \<and> n > 1")
      case True
      from Suc.IH [OF f(2), of "freed + ?m"] less Suc.prems(2) obtain m' s' where
        s': "remove_oldest_loop fuel iphdr needed (freed + ?m) ?s = Some (freed + ?m + m', s')" "reass_inv (held E) s'"
          "makes_room iphdr m' ?s s'" "needed \<le> freed + ?m + m' \<or> others iphdr (reassdatagrams s') = 0"
          "others iphdr (reassdatagrams ?s) > 0 \<longrightarrow> m' > 0 \<and> reassdata_free s' > 0" by auto
      have "remove_oldest_loop (Suc fuel) iphdr needed freed s = Some (freed + (?m + m'), s')"
        using s'(1) True o Some f(1) m by (simp add: add.assoc Let_def)
      then show ?thesis using s' pos True n less makes_room_trans [OF room s'(3)]
        by (intro exI [of _ "?m + m'"] exI [of _ s']) (simp add: add.assoc)
    next
      case False
      then have "remove_oldest_loop (Suc fuel) iphdr needed freed s = Some (freed + ?m, ?s)"
        using o Some f(1) m by (auto simp: Let_def)
      then show ?thesis using False f(2) room pos free less n
        by (intro exI [of _ "?m"] exI [of _ ?s]) auto
    qed
  qed
qed simp

lemma remove_oldest_ok:
  assumes "reass_inv (held E) s"
  shows "\<exists>m s'. ip_reass_remove_oldest_datagram iphdr needed s = Some (m, s') \<and> reass_inv (held E) s' \<and> makes_room iphdr m s s' \<and>
    (needed \<le> m \<or> others iphdr (reassdatagrams s') = 0) \<and> (others iphdr (reassdatagrams s) > 0 \<longrightarrow> m > 0 \<and> reassdata_free s' > 0)"
  using remove_oldest_loop_ok [OF assms, of iphdr "length (reassdatagrams s) + 1" needed 0]
  by (simp add: ip_reass_remove_oldest_datagram_def less_Suc_eq_le)

definition new_datagram :: "ip_hdr \<Rightarrow> ip_reassdata" where
  "new_datagram iphdr = \<lparr>r_hdr = iphdr, r_p = [], r_datagram_len = 0, r_flags = 0, r_timer = IP_REASS_MAXAGE\<rparr>"

abbreviation with_new :: "ip_hdr \<Rightarrow> ip4_reass_state \<Rightarrow> ip4_reass_state" where
  "with_new iphdr s \<equiv> s\<lparr>reassdata_free := reassdata_free s - 1, reassdatagrams := new_datagram iphdr # reassdatagrams s\<rparr>"

lemma queued_lower: "reass_inv (held E) s \<Longrightarrow> length (reassdatagrams s) \<le> queued s"
proof -
  assume inv: "reass_inv (held E) s"
  have "length rs \<le> sum_list (map (\<lambda>r. pbufs_of (r_p r)) rs)" if "\<forall>r \<in> set rs. entry_wf r \<and> r_p r \<noteq> []" for rs
    using that by (induction rs) (auto dest!: entry_wf_pos)
  then show ?thesis using inv by (simp add: reass_inv_def queued_def)
qed

lemma enqueue_ok:
  assumes "reass_inv (held E) s" and room: "queued s + unat clen \<le> IP_REASS_MAX_PBUFS"
  shows "\<exists>ok m s'. ip_reass_enqueue_new_datagram iphdr clen s = Some (ok, if ok then with_new iphdr s' else s') \<and>
    reass_inv (held E) s' \<and> makes_room iphdr m s s' \<and> (ok \<longrightarrow> reassdata_free s' > 0) \<and>
    (reass_key iphdr \<notin> entry_key ` set (reassdatagrams s) \<longrightarrow> ok)"
proof (cases "reassdata_free s = 0")
  case True
  obtain m s' where s': "ip_reass_remove_oldest_datagram iphdr (unat clen) s = Some (m, s')" "reass_inv (held E) s'"
    "makes_room iphdr m s s'" "unat clen \<le> m \<or> others iphdr (reassdatagrams s') = 0"
    "others iphdr (reassdatagrams s) > 0 \<longrightarrow> m > 0 \<and> reassdata_free s' > 0" using remove_oldest_ok [OF assms(1)] by blast
  let ?ok = "m \<ge> unat clen \<and> reassdata_free s' > 0"
  have "ip_reass_enqueue_new_datagram iphdr clen s = Some (?ok, if ?ok then with_new iphdr s' else s')"
    using True s'(1) by (simp add: ip_reass_enqueue_new_datagram_def new_datagram_def)
  moreover have "?ok" if new: "reass_key iphdr \<notin> entry_key ` set (reassdatagrams s)"
  proof -
    have all: "filter (\<lambda>r. entry_key r \<noteq> reass_key iphdr) (reassdatagrams s) = reassdatagrams s" using new by (auto simp: filter_id_conv image_iff)
    have five: "length (reassdatagrams s) = 5" using assms True by (simp add: reass_inv_def MEMP_NUM_REASSDATA_def)
    then have free: "reassdata_free s' > 0" using s'(5) all by simp
    have "unat clen \<le> m"
    proof (cases "others iphdr (reassdatagrams s') = 0")
      case True
      have "set (reassdatagrams s') \<subseteq> set (reassdatagrams s)" using s'(3) by (simp add: makes_room_def)
      then have "filter (\<lambda>r. entry_key r \<noteq> reass_key iphdr) (reassdatagrams s') = reassdatagrams s'"
        using new by (fastforce simp: filter_id_conv image_iff)
      then have "queued s' = 0" using True by (simp add: queued_def)
      then have "m = queued s" using s'(3) by (simp add: makes_room_def)
      then show ?thesis using queued_lower [OF assms(1)] five room by (simp add: IP_REASS_MAX_PBUFS_def)
    next
      case False
      then show ?thesis using s'(4) by blast
    qed
    then show ?thesis using free by blast
  qed
  ultimately show ?thesis using s'(2,3) by blast
next
  case False
  then have "ip_reass_enqueue_new_datagram iphdr clen s = Some (True, with_new iphdr s)"
    by (simp add: ip_reass_enqueue_new_datagram_def new_datagram_def)
  then show ?thesis using assms False makes_room_refl by (intro exI [of _ True] exI [of _ 0] exI [of _ s]) simp
qed

lemma find_datagram_Suc: "find_datagram iphdr (Suc k) rs = map_option Suc (find_datagram iphdr k rs)"
  by (induction rs arbitrary: k) simp_all

lemma find_datagram_eq:
  "case find_datagram iphdr 0 rs of None \<Rightarrow> reass_key iphdr \<notin> entry_key ` set rs
   | Some j \<Rightarrow> j < length rs \<and> entry_key (rs ! j) = reass_key iphdr"
  by (induction rs) (auto simp: match_key find_datagram_Suc split: option.splits)

section \<open>What the queue holds of one datagram\<close>

definition frags_for :: "u32 \<times> u32 \<times> u16 \<Rightarrow> ip4_reass_state \<Rightarrow> frag list" where
  "frags_for key s = concat (map r_p (filter (\<lambda>r. entry_key r = key) (reassdatagrams s)))"

lemma frags_for_nth:
  assumes "distinct (map entry_key (reassdatagrams s))" "k < length (reassdatagrams s)"
  shows "frags_for (entry_key (reassdatagrams s ! k)) s = r_p (reassdatagrams s ! k)"
proof -
  let ?rs = "reassdatagrams s" let ?key = "entry_key (reassdatagrams s ! k)"
  have rs: "?rs = take k ?rs @ ?rs ! k # drop (Suc k) ?rs" using assms(2) by (rule id_take_nth_drop)
  have "distinct (map entry_key (take k ?rs @ ?rs ! k # drop (Suc k) ?rs))" using assms(1) rs by simp
  then have "?key \<notin> entry_key ` set (take k ?rs)" "?key \<notin> entry_key ` set (drop (Suc k) ?rs)" by auto
  then have "filter (\<lambda>r. entry_key r = ?key) (take k ?rs) = []" "filter (\<lambda>r. entry_key r = ?key) (drop (Suc k) ?rs) = []"
    by (auto simp: filter_empty_conv image_iff)
  then have "filter (\<lambda>r. entry_key r = ?key) ?rs = [?rs ! k]" by (subst rs) simp
  then show ?thesis by (simp add: frags_for_def)
qed

lemma frags_for_none: "key \<notin> entry_key ` set (reassdatagrams s) \<Longrightarrow> frags_for key s = []"
  by (auto simp: frags_for_def filter_empty_conv image_iff)

lemma frags_for_room: "makes_room iphdr m s s' \<Longrightarrow> frags_for (reass_key iphdr) s' = frags_for (reass_key iphdr) s"
  by (simp add: makes_room_def frags_for_def)

text \<open>The state with the entry of the fragment: it is the only one that may still be without fragments.\<close>

definition put_pre :: "(ip_reassdata \<Rightarrow> bool) \<Rightarrow> nat \<Rightarrow> ip4_pbuf \<Rightarrow> ip4_reass_state \<Rightarrow> bool" where
  "put_pre E k p s \<longleftrightarrow>
     reass_inv E s \<and> k < length (reassdatagrams s) \<and> entry_key (reassdatagrams s ! k) = reass_key (pb_hdr p) \<and>
     (\<forall>j < length (reassdatagrams s). j \<noteq> k \<longrightarrow> r_p (reassdatagrams s ! j) \<noteq> []) \<and>
     (r_p (reassdatagrams s ! k) = [] \<longrightarrow> k = 0) \<and> queued s + length (pb_data p) \<le> IP_REASS_MAX_PBUFS \<and> pb_data p \<noteq> []"

lemma set_nth_all: "(\<forall>r \<in> set rs. P r) \<longleftrightarrow> (\<forall>j < length rs. P (rs ! j))"
  by (metis in_set_conv_nth)

lemma drop_ipr_ok:
  assumes "put_pre E k p s"
  shows "\<exists>s'. reass_drop_ipr k p s = Some (None, s') \<and> reass_inv (held E) s' \<and> queued s' = queued s \<and>
    pbufs_freed s' = pbufs_freed s + length (pb_data p) \<and> (\<forall>key. frags_for key s' = frags_for key s)"
proof (cases "r_p (reassdatagrams s ! k) = []")
  case False
  then have "\<forall>r \<in> set (reassdatagrams s). r_p r \<noteq> []" using assms by (auto simp: put_pre_def set_nth_all)
  then show ?thesis using False assms
    by (simp add: reass_drop_ipr_def reass_drop_def free_packet_def put_pre_def reass_inv_def queued_def frags_for_def)
next
  case True
  then have k: "k = 0" using assms by (simp add: put_pre_def)
  have pre: "reass_inv E s" "0 < length (reassdatagrams s)" "\<forall>j < length (reassdatagrams s). j \<noteq> 0 \<longrightarrow> r_p (reassdatagrams s ! j) \<noteq> []"
    using assms k by (auto simp: put_pre_def)
  then obtain r rs where rs: "reassdatagrams s = r # rs" by (cases "reassdatagrams s") auto
  have "r_p x \<noteq> []" if "x \<in> set rs" for x
  proof -
    obtain j where "j < length rs" "rs ! j = x" using \<open>x \<in> set rs\<close> by (auto simp: in_set_conv_nth)
    then show ?thesis using pre(3) [rule_format, of "Suc j"] rs by simp
  qed
  then show ?thesis using True k pre(1) rs
    by (auto simp: reass_drop_ipr_def reass_drop_def free_packet_def ip_reass_dequeue_datagram_def remove_nth_def
      reass_inv_def queued_def frags_for_def)
qed

definition queued_at :: "nat \<Rightarrow> ip_reassdata \<Rightarrow> ip4_pbuf \<Rightarrow> ip4_reass_state \<Rightarrow> ip4_reass_state" where
  "queued_at k r p s =
     s\<lparr>reassdatagrams := (reassdatagrams s)[k := r], ip_reass_pbufcount := ip_reass_pbufcount s + ip_clen (pb_data p)\<rparr>"

lemma queued_at_ok:
  assumes pre: "put_pre E k p s"
    and r: "entry_key r = entry_key (reassdatagrams s ! k)" "mset (r_p r) = add_mset f (mset (r_p (reassdatagrams s ! k)))"
      "f_data f = pb_data p" "r_timer r = r_timer (reassdatagrams s ! k)" "E r"
  shows "reass_inv (held E) (queued_at k r p s)" "queued (queued_at k r p s) = queued s + length (pb_data p)"
    "pbufs_freed (queued_at k r p s) = pbufs_freed s" "frags_for (reass_key (pb_hdr p)) (queued_at k r p s) = r_p r"
    "k < length (reassdatagrams (queued_at k r p s))" "reassdatagrams (queued_at k r p s) ! k = r"
proof -
  let ?rs = "reassdatagrams s" let ?s = "queued_at k r p s"
  have inv: "reass_inv E s" and k: "k < length ?rs" and key: "entry_key (?rs ! k) = reass_key (pb_hdr p)"
    and n: "queued s + length (pb_data p) \<le> 10" "pb_data p \<noteq> []"
    using pre by (simp_all add: put_pre_def IP_REASS_MAX_PBUFS_def)
  have rs: "reassdatagrams ?s = ?rs[k := r]" by (simp add: queued_at_def)
  have n_r: "pbufs_of (r_p r) = length (pb_data p) + pbufs_of (r_p (?rs ! k))"
    using pbufs_of_mset [of "r_p r" "f # r_p (?rs ! k)"] r(2,3) by simp
  show q: "queued ?s = queued s + length (pb_data p)"
    using sum_update [OF k, of "\<lambda>r. pbufs_of (r_p r)" r] n_r by (simp add: queued_def rs)
  show "pbufs_freed ?s = pbufs_freed s" by (simp add: queued_at_def)
  show kl: "k < length (reassdatagrams ?s)" and at: "reassdatagrams ?s ! k = r" using k by (simp_all add: rs)
  have keys: "map entry_key (reassdatagrams ?s) = map entry_key ?rs"
    using k r(1) by (simp add: rs map_update list_update_same_conv)
  have dist: "distinct (map entry_key (reassdatagrams ?s))" using inv keys by (simp add: reass_inv_def)
  show "frags_for (reass_key (pb_hdr p)) ?s = r_p r" using frags_for_nth [OF dist kl] at r(1) key by simp
  have wf_k: "entry_wf (?rs ! k)" using inv k by (auto simp: reass_inv_def)
  have set_r: "set (r_p r) = insert f (set (r_p (?rs ! k)))" using r(2) by (metis set_mset_add_mset_insert set_mset_mset)
  then have wf: "entry_wf r" "r_p r \<noteq> []" using wf_k r(3,4) n(2) by (auto simp: entry_wf_def)
  have others: "entry_wf (?rs ! j) \<and> E (?rs ! j) \<and> r_p (?rs ! j) \<noteq> []" if "j < length ?rs" "j \<noteq> k" for j
    using that inv pre by (auto simp: reass_inv_def put_pre_def)
  have all: "\<forall>x \<in> set (reassdatagrams ?s). entry_wf x \<and> held E x"
    using wf r(5) others by (auto simp: set_nth_all rs nth_list_update [OF k])
  have c: "unat (ip_clen (pb_data p)) = length (pb_data p)" using n by (simp add: ip_clen_def unat_of_nat take_bit_nat_eq_self)
  then have "unat (ip_reass_pbufcount ?s) = queued ?s"
    using inv n q unfolding queued_at_def by (simp add: reass_inv_def) (subst unat_add_lem [THEN iffD1], simp_all)
  then show "reass_inv (held E) ?s"
    using all dist inv n q by (simp add: reass_inv_def IP_REASS_MAX_PBUFS_def) (simp add: queued_at_def)
qed

definition whole_packet :: "ip_reassdata \<Rightarrow> ip4_pbuf" where
  "whole_packet r =
     \<lparr>pb_hdr = with_chksum ((r_hdr r)\<lparr>iph_len := r_datagram_len r + word_of_nat IP_HLEN, iph_offset := 0\<rparr>),
      pb_data = concat (map f_data (r_p r))\<rparr>"

lemma pbufs_of_concat: "length (concat (map f_data fs)) = pbufs_of fs"
  by (simp add: pbufs_of_def length_concat comp_def)

lemma finish_ok:
  assumes "reass_inv (held E) s" "k < length (reassdatagrams s)"
  shows "\<exists>s'. reass_finish k s = Some (Some (whole_packet (reassdatagrams s ! k)), s') \<and> reass_inv (held E) s' \<and>
    queued s = queued s' + pbufs_of (r_p (reassdatagrams s ! k)) \<and> pbufs_freed s' = pbufs_freed s \<and>
    frags_for (entry_key (reassdatagrams s ! k)) s' = []"
proof -
  let ?r = "reassdatagrams s ! k"
  let ?s = "(freed_datagram k s)\<lparr>pbufs_freed := pbufs_freed s\<rparr>"
  note f = free_datagram_ok [OF assms]
  have n: "pbufs_of (r_p ?r) \<le> queued s" "unat (ip_reass_pbufcount s) = queued s" "queued s \<le> 10"
    using f(3) assms(1) by (auto simp: reass_inv_def IP_REASS_MAX_PBUFS_def)
  then have le: "word_of_nat (pbufs_of (r_p ?r)) \<le> ip_reass_pbufcount s"
    by (simp add: word_le_nat_alt unat_of_nat take_bit_nat_eq_self)
  have "reass_finish k s = Some (Some (whole_packet ?r), ?s)"
    using le by (simp add: reass_finish_def whole_packet_def Let_def ip_reass_dequeue_datagram_def freed_datagram_def
      ip_clen_def pbufs_of_concat)
  moreover have "reass_inv (held E) ?s" "queued ?s = queued (freed_datagram k s)"
    using f(2) by (simp_all add: reass_inv_def queued_def)
  moreover have "entry_key ?r \<notin> entry_key ` set (remove_nth k (reassdatagrams s))"
  proof -
    have "distinct (map entry_key (take k (reassdatagrams s) @ ?r # drop (Suc k) (reassdatagrams s)))"
      using assms by (simp add: reass_inv_def id_take_nth_drop [symmetric])
    then show ?thesis by (auto simp: remove_nth_def)
  qed
  then have "frags_for (entry_key ?r) ?s = []" by (intro frags_for_none) (simp add: freed_datagram_def)
  ultimately show ?thesis using f(3) by (intro exI [of _ ?s]) simp
qed

text \<open>The fragment that is put into the datagram at place \<open>k\<close>.\<close>

definition marked :: "ip4_pbuf \<Rightarrow> ip_reassdata \<Rightarrow> ip_reassdata" where
  "marked p r =
     (if more_frags p then r
      else r\<lparr>r_datagram_len := f_end (frag_of p), r_flags := r_flags r OR IP_REASS_FLAG_LASTFRAG\<rparr>)"

definition too_long :: "ip4_pbuf \<Rightarrow> bool" where
  "too_long p \<longleftrightarrow> \<not> more_frags p \<and> (f_end (frag_of p) < f_start (frag_of p) \<or> f_end (frag_of p) > 0xffff - word_of_nat IP_HLEN)"

lemma put_eq:
  "reass_put k p s =
     (if too_long p then reass_drop_ipr k p s
      else do {
        (v, r) \<leftarrow> ip_reass_chain_frag_into_datagram_and_validate (reassdatagrams s ! k) p (\<not> more_frags p);
        if v = PBUF_DROPPED then reass_drop_ipr k p s
        else if v = TELEGRAM_FINISHED then reass_finish k (queued_at k (marked p r) p s)
        else Some (None, queued_at k (marked p r) p s)
      })"
  by (cases "iph_offset (pb_hdr p) AND IP_MF = 0")
    (auto simp: reass_put_def Let_def too_long_def frag_of_def more_frags_def marked_def queued_at_def split: bind_splits)

lemma queued_own:
  assumes "others iphdr (reassdatagrams s) = 0" shows "queued s = pbufs_of (frags_for (reass_key iphdr) s)"
proof -
  have "filter (\<lambda>r. entry_key r = reass_key iphdr) (reassdatagrams s) = reassdatagrams s"
    using assms by (auto simp: filter_empty_conv filter_id_conv)
  then have "frags_for (reass_key iphdr) s = concat (map r_p (reassdatagrams s))" by (simp add: frags_for_def)
  moreover have "pbufs_of (concat (map r_p rs)) = sum_list (map (\<lambda>r. pbufs_of (r_p r)) rs)" for rs :: "ip_reassdata list"
    by (induction rs) (simp_all add: pbufs_of_def)
  ultimately show ?thesis by (simp add: queued_def)
qed

text \<open>A packet has room when its own datagram leaves it enough pbufs: the other datagrams are thrown away for it.\<close>

definition has_room :: "ip4_pbuf \<Rightarrow> ip4_reass_state \<Rightarrow> bool" where
  "has_room p s \<longleftrightarrow> pbufs_of (frags_for (reass_key (pb_hdr p)) s) + length (pb_data p) \<le> IP_REASS_MAX_PBUFS"

definition same_frags :: "ip4_pbuf \<Rightarrow> ip4_reass_state \<Rightarrow> ip4_reass_state \<Rightarrow> bool" where
  "same_frags p s s' \<longleftrightarrow> conserves s s' \<and> frags_for (reass_key (pb_hdr p)) s' = frags_for (reass_key (pb_hdr p)) s"

lemma room_same: "makes_room (pb_hdr p) m s s' \<Longrightarrow> same_frags p s s'"
  using frags_for_room [of "pb_hdr p" m s s'] by (simp add: same_frags_def makes_room_def conserves_def)

lemma same_frags_trans: "same_frags p s s' \<Longrightarrow> same_frags p s' s'' \<Longrightarrow> same_frags p s s''"
  by (auto simp: same_frags_def conserves_def)

definition packet_wf :: "ip4_pbuf \<Rightarrow> bool" where
  "packet_wf p \<longleftrightarrow> pb_data p \<noteq> [] \<and> length (pb_data p) < 65536"

lemma packet_clen: "packet_wf p \<Longrightarrow> unat (ip_clen (pb_data p)) = length (pb_data p)"
  by (simp add: packet_wf_def ip_clen_def unat_of_nat take_bit_nat_eq_self)

text \<open>The first test: there is room for the pbufs of the packet, or it is made, or the packet is dropped.\<close>

definition reass_room :: "ip4_pbuf \<Rightarrow> ip4_reass_state \<Rightarrow> (bool \<times> ip4_reass_state) option" where
  "reass_room p s =
     (if unat (ip_reass_pbufcount s) + unat (ip_clen (pb_data p)) > IP_REASS_MAX_PBUFS
      then do {
        (n, s) \<leftarrow> ip_reass_remove_oldest_datagram (pb_hdr p) (unat (ip_clen (pb_data p))) s;
        Some (n = 0 \<or> unat (ip_reass_pbufcount s) + unat (ip_clen (pb_data p)) > IP_REASS_MAX_PBUFS, s)
      }
      else Some (False, s))"

lemma reass_room_ok:
  assumes "reass_inv (held E) s" "packet_wf p"
  shows "\<exists>full s'. reass_room p s = Some (full, s') \<and> reass_inv (held E) s' \<and> same_frags p s s' \<and>
    (\<not> full \<longrightarrow> queued s' + length (pb_data p) \<le> IP_REASS_MAX_PBUFS) \<and> (has_room p s \<longrightarrow> \<not> full)"
proof (cases "queued s + length (pb_data p) > IP_REASS_MAX_PBUFS")
  case False
  then have "reass_room p s = Some (False, s)" using assms(1) packet_clen [OF assms(2)] by (simp add: reass_room_def reass_inv_def)
  then show ?thesis using False assms(1) by (intro exI [of _ False] exI [of _ s]) (simp add: same_frags_def)
next
  case True
  obtain m s' where s': "ip_reass_remove_oldest_datagram (pb_hdr p) (unat (ip_clen (pb_data p))) s = Some (m, s')"
    "reass_inv (held E) s'" "makes_room (pb_hdr p) m s s'"
    "unat (ip_clen (pb_data p)) \<le> m \<or> others (pb_hdr p) (reassdatagrams s') = 0"
    "others (pb_hdr p) (reassdatagrams s) > 0 \<longrightarrow> m > 0 \<and> reassdata_free s' > 0" using remove_oldest_ok [OF assms(1)] by blast
  let ?full = "m = 0 \<or> queued s' + length (pb_data p) > IP_REASS_MAX_PBUFS"
  have "reass_room p s = Some (?full, s')"
    using True s'(1,2) assms(1) packet_clen [OF assms(2)] by (simp add: reass_room_def reass_inv_def)
  moreover have "\<not> ?full" if "has_room p s"
  proof -
    have le: "queued s \<le> IP_REASS_MAX_PBUFS" using assms(1) by (simp add: reass_inv_def)
    have "others (pb_hdr p) (reassdatagrams s) \<noteq> 0"
    proof
      assume "others (pb_hdr p) (reassdatagrams s) = 0"
      then show False using queued_own [of "pb_hdr p" s] that True by (simp add: has_room_def)
    qed
    then have m: "m > 0" using s'(5) by simp
    have q: "queued s = m + queued s'" using s'(3) by (simp add: makes_room_def)
    have "queued s' + length (pb_data p) \<le> IP_REASS_MAX_PBUFS"
    proof (cases "others (pb_hdr p) (reassdatagrams s') = 0")
      case True
      then have "queued s' = pbufs_of (frags_for (reass_key (pb_hdr p)) s')" by (rule queued_own)
      then show ?thesis using that frags_for_room [OF s'(3)] by (simp add: has_room_def)
    next
      case False
      then show ?thesis using s'(4) q le packet_clen [OF assms(2)] by simp
    qed
    then show ?thesis using m by simp
  qed
  ultimately show ?thesis using s'(2) room_same [OF s'(3)]
    by (intro exI [of _ ?full] exI [of _ s']) simp
qed

text \<open>The entry of the fragment is found or made.\<close>

lemma with_new_ok:
  assumes "reass_inv (held E) s" "reassdata_free s > 0" "reass_key (pb_hdr p) \<notin> entry_key ` set (reassdatagrams s)"
    "queued s + length (pb_data p) \<le> IP_REASS_MAX_PBUFS" "packet_wf p" "E (new_datagram (pb_hdr p))"
  shows "put_pre E 0 p (with_new (pb_hdr p) s)" "same_frags p s (with_new (pb_hdr p) s)"
proof -
  have "r_p (reassdatagrams s ! j) \<noteq> []" if "j < length (reassdatagrams s)" for j
    using assms(1) that by (auto simp: reass_inv_def)
  then show "put_pre E 0 p (with_new (pb_hdr p) s)"
    using assms unfolding put_pre_def reass_inv_def
    by (auto simp: queued_def new_datagram_def entry_wf_def packet_wf_def less_Suc_eq_0_disj)
  show "same_frags p s (with_new (pb_hdr p) s)"
    by (simp add: same_frags_def conserves_def queued_def frags_for_def new_datagram_def)
qed

definition first_hdr :: "ip4_pbuf \<Rightarrow> ip_reassdata \<Rightarrow> ip_reassdata" where
  "first_hdr p r =
     (if iph_offset (pb_hdr p) AND IP_OFFMASK = 0 \<and> iph_offset (r_hdr r) AND IP_OFFMASK \<noteq> 0 then r\<lparr>r_hdr := pb_hdr p\<rparr> else r)"

lemma found_ok:
  assumes "reass_inv (held E) s" "k < length (reassdatagrams s)" "entry_key (reassdatagrams s ! k) = reass_key (pb_hdr p)"
    "queued s + length (pb_data p) \<le> IP_REASS_MAX_PBUFS" "packet_wf p" "E (first_hdr p (reassdatagrams s ! k))"
  shows "put_pre E k p (s\<lparr>reassdatagrams := (reassdatagrams s)[k := first_hdr p (reassdatagrams s ! k)]\<rparr>)"
    "same_frags p s (s\<lparr>reassdatagrams := (reassdatagrams s)[k := first_hdr p (reassdatagrams s ! k)]\<rparr>)"
proof -
  let ?rs = "reassdatagrams s" let ?r = "first_hdr p (?rs ! k)"
  let ?s = "s\<lparr>reassdatagrams := ?rs[k := ?r]\<rparr>"
  have r: "r_p ?r = r_p (?rs ! k)" "entry_key ?r = entry_key (?rs ! k)" "r_timer ?r = r_timer (?rs ! k)"
    using assms(3) by (simp_all add: first_hdr_def)
  have q: "queued ?s = queued s" using sum_update [OF assms(2), of "\<lambda>r. pbufs_of (r_p r)" ?r] r(1) by (simp add: queued_def)
  have keys: "map entry_key (?rs[k := ?r]) = map entry_key ?rs" using assms(2) r(2) by (simp add: map_update list_update_same_conv)
  have old: "entry_wf (?rs ! j) \<and> held E (?rs ! j)" if "j < length ?rs" for j using assms(1) that by (auto simp: reass_inv_def)
  then have wf: "entry_wf ?r" "r_p ?r \<noteq> []" using r assms(2) by (simp_all add: entry_wf_def)
  have all: "\<forall>x \<in> set (?rs[k := ?r]). entry_wf x \<and> held E x"
    using wf assms(6) old by (auto simp: set_nth_all nth_list_update [OF assms(2)])
  have inv: "reass_inv (held E) ?s" using assms(1) q keys all by (simp add: reass_inv_def)
  then have "reass_inv E ?s" by (auto simp: reass_inv_def)
  then show "put_pre E k p ?s" using assms(2-5) q r(2) old wf(2) by (simp add: put_pre_def packet_wf_def)
  have d: "distinct (map entry_key ?rs)" "distinct (map entry_key (reassdatagrams ?s))" using assms(1) keys by (simp_all add: reass_inv_def)
  have "frags_for (reass_key (pb_hdr p)) ?s = frags_for (reass_key (pb_hdr p)) s"
    using frags_for_nth [OF d(1) assms(2)] frags_for_nth [OF d(2), of k] assms(2,3) r(1,2) by simp
  then show "same_frags p s ?s" using q by (simp add: same_frags_def conserves_def)
qed

text \<open>\<^verbatim>\<open>ip4_reass\<close> either drops the packet because there is no room, or goes on with its entry.\<close>

lemma reass_located:
  assumes inv: "reass_inv (held E) s" and p: "packet_wf p"
    "unat (IPH_HL_BYTES (pb_hdr p)) = IP_HLEN" "ucast (IPH_HL_BYTES (pb_hdr p)) \<le> iph_len (pb_hdr p)"
    and E: "E (new_datagram (pb_hdr p))" "\<And>r. E r \<Longrightarrow> entry_key r = reass_key (pb_hdr p) \<Longrightarrow> E (first_hdr p r)"
  shows "(\<exists>s'. ip4_reass p s = Some (reass_drop p s') \<and> reass_inv (held E) s' \<and> same_frags p s s' \<and> \<not> has_room p s) \<or>
    (\<exists>k s'. ip4_reass p s = reass_put k p s' \<and> put_pre E k p s' \<and> same_frags p s s')"
proof -
  obtain full s1 where s1: "reass_room p s = Some (full, s1)" "reass_inv (held E) s1" "same_frags p s s1"
    "\<not> full \<longrightarrow> queued s1 + length (pb_data p) \<le> IP_REASS_MAX_PBUFS" "has_room p s \<longrightarrow> \<not> full"
    using reass_room_ok [OF inv p(1)] by blast
  have body: "ip4_reass p s = (if full then Some (reass_drop p s1)
      else case find_datagram (pb_hdr p) 0 (reassdatagrams s1) of
        None \<Rightarrow> do {
          (ok, s) \<leftarrow> ip_reass_enqueue_new_datagram (pb_hdr p) (ip_clen (pb_data p)) s1;
          if ok then reass_put 0 p s else Some (reass_drop p s)
        }
      | Some k \<Rightarrow> reass_put k p (s1\<lparr>reassdatagrams := (reassdatagrams s1)[k := first_hdr p (reassdatagrams s1 ! k)]\<rparr>))"
    using p(2,3) s1(1) unfolding ip4_reass_def Let_def reass_room_def first_hdr_def
    by (simp add: not_less [symmetric] cong: option.case_cong)
  show ?thesis
  proof (cases full)
    case True
    then show ?thesis using body s1 by auto
  next
    case False
    then have room: "queued s1 + length (pb_data p) \<le> IP_REASS_MAX_PBUFS" using s1(4) by simp
    note find = find_datagram_eq [of "pb_hdr p" "reassdatagrams s1"]
    show ?thesis
    proof (cases "find_datagram (pb_hdr p) 0 (reassdatagrams s1)")
      case (Some k)
      then have k: "k < length (reassdatagrams s1)" "entry_key (reassdatagrams s1 ! k) = reass_key (pb_hdr p)" using find by simp_all
      have "E (reassdatagrams s1 ! k)" using s1(2) k(1) by (auto simp: reass_inv_def)
      note f = found_ok [OF s1(2) k room p(1) E(2) [OF this k(2)]]
      show ?thesis using body False Some f(1) same_frags_trans [OF s1(3) f(2)] by auto
    next
      case None
      then have new: "reass_key (pb_hdr p) \<notin> entry_key ` set (reassdatagrams s1)" using find by simp
      obtain ok m s2 where s2: "ip_reass_enqueue_new_datagram (pb_hdr p) (ip_clen (pb_data p)) s1 = Some (ok, if ok then with_new (pb_hdr p) s2 else s2)"
        "reass_inv (held E) s2" "makes_room (pb_hdr p) m s1 s2" "ok \<longrightarrow> reassdata_free s2 > 0"
        "reass_key (pb_hdr p) \<notin> entry_key ` set (reassdatagrams s1) \<longrightarrow> ok"
        using enqueue_ok [OF s1(2), of "ip_clen (pb_data p)" "pb_hdr p"] room packet_clen [OF p(1)] by auto
      have same: "same_frags p s s2" using same_frags_trans [OF s1(3) room_same [OF s2(3)]] .
      have ok: ok using s2(5) new by blast
      have "queued s2 + length (pb_data p) \<le> IP_REASS_MAX_PBUFS" "set (reassdatagrams s2) \<subseteq> set (reassdatagrams s1)"
          using room s2(3) by (simp_all add: makes_room_def)
      moreover from this have "reass_key (pb_hdr p) \<notin> entry_key ` set (reassdatagrams s2)" using new by blast
      ultimately have n: "put_pre E 0 p (with_new (pb_hdr p) s2)" "same_frags p s2 (with_new (pb_hdr p) s2)"
        using with_new_ok [OF s2(2) _ _ _ p(1) E(1)] s2(4) ok by simp_all
      show ?thesis using body False None s2(1) ok n(1) same_frags_trans [OF same n(2)] by auto
    qed
  qed
qed

section \<open>The datagrams that are put together\<close>

text \<open>Every datagram has one content: \<open>sent\<close> gives the bytes behind the header for the addresses and the identification.\<close>

definition parts_of :: "(u32 \<times> u32 \<times> u16 \<Rightarrow> u8 list) \<Rightarrow> ip_reassdata \<Rightarrow> bool" where
  "parts_of sent r \<longleftrightarrow> entry_ok (sent (entry_key r)) r"

definition overlaps :: "frag \<Rightarrow> frag list \<Rightarrow> bool" where
  "overlaps f fs \<longleftrightarrow> (\<exists>q \<in> set fs. \<not> before q f \<and> \<not> before f q)"

definition frags_len :: "frag list \<Rightarrow> nat" where
  "frags_len fs = sum_list (map flen fs)"

text \<open>The packet that has the whole datagram.\<close>

definition is_whole :: "u8 list \<Rightarrow> ip4_pbuf \<Rightarrow> ip4_pbuf \<Rightarrow> bool" where
  "is_whole D p q \<longleftrightarrow>
     concat (pb_data q) = D \<and> unat (iph_len (pb_hdr q)) = IP_HLEN + length D \<and> iph_offset (pb_hdr q) = 0 \<and>
     reass_key (pb_hdr q) = reass_key (pb_hdr p)"

text \<open>
  The step of one datagram: the fragment is thrown away, and only when it overlaps or there is no room; or it is queued, and
  bytes are still missing; or the datagram is complete.
\<close>

definition datagram_step :: "u8 list \<Rightarrow> ip4_pbuf \<Rightarrow> bool \<Rightarrow> frag list \<Rightarrow> ip4_pbuf option \<Rightarrow> frag list \<Rightarrow> bool" where
  "datagram_step D p room fs res fs' \<longleftrightarrow>
     res = None \<and> fs' = fs \<and> (overlaps (frag_of p) fs \<or> \<not> room) \<or>
     \<not> overlaps (frag_of p) fs \<and>
     (if frags_len fs + flen (frag_of p) = length D then (\<exists>q. res = Some q \<and> is_whole D p q) \<and> fs' = []
      else res = None \<and> mset fs' = add_mset (frag_of p) (mset fs))"

lemma sorted_no_overlap:
  assumes "sorted_wrt before fs" "mset fs = add_mset f (mset gs)" shows "\<not> overlaps f gs"
proof -
  have "f \<in> set fs" using assms(2) by (metis union_single_eq_member set_mset_mset)
  then obtain xs ys where fs: "fs = xs @ f # ys" by (meson split_list)
  then have "mset gs = mset xs + mset ys" using assms(2) by simp
  then have "set gs = set xs \<union> set ys" by (metis set_mset_mset set_mset_union)
  then show ?thesis using assms(1) by (auto simp: overlaps_def fs sorted_wrt_append)
qed

lemma frags_len_mset: "mset fs = add_mset f (mset gs) \<Longrightarrow> sum_list (map flen fs) = frags_len gs + flen f"
  using sum_list_mset [of fs "f # gs" flen] by (simp add: frags_len_def)

lemma entry_ok_marked:
  assumes "entry_ok D r" "packet_of D p" "frags_ok D fs" "mset fs = add_mset (frag_of p) (mset (r_p r))"
  shows "entry_ok D (marked p (r\<lparr>r_p := fs\<rparr>))"
proof -
  have set: "set fs = insert (frag_of p) (set (r_p r))" using assms(4) by (metis set_mset_add_mset_insert set_mset_mset)
  have at_end: "\<not> more_frags p \<longleftrightarrow> unat (f_end (frag_of p)) = length D"
    using assms(2) by (auto simp: packet_of_def frag_holds_def)
  have "(f OR 1) AND 1 \<noteq> 0" for f :: u8
  proof -
    have "bit ((f OR 1) AND 1) 0" by (simp add: bit_simps)
    then show ?thesis by (metis bit_0_eq bot_apply bot_bool_def)
  qed
  then show ?thesis using assms(1,3) at_end by (auto simp: entry_ok_def marked_def set IP_REASS_FLAG_LASTFRAG_def)
qed

lemma whole_ok:
  assumes "entry_ok D r" "frags_len (r_p r) = length D" "r_p r \<noteq> []" "length D \<le> 65515" "entry_key r = reass_key (pb_hdr p)"
  shows "is_whole D p (whole_packet r)"
proof -
  have ok: "frags_ok D (r_p r)" using assms(1) by (simp add: entry_ok_def)
  have fin: "contiguous (r_p r)" "f_start (hd (r_p r)) = 0" "\<exists>f \<in> set (r_p r). unat (f_end f) = length D"
    using finished_iff [OF ok assms(3)] assms(2) by (auto simp: frags_len_def)
  then have "unat (r_datagram_len r) = length D" using assms(1) by (auto simp: entry_ok_def)
  then have "unat (r_datagram_len r + word_of_nat IP_HLEN) = IP_HLEN + length D"
    using assms(4) by (subst unat_add_lem [THEN iffD1]) (simp_all add: IP_HLEN_def)
  moreover have "concat (concat (map f_data (r_p r))) = D"
    using contiguous_concat [OF ok fin(1) assms(3)] fin(2) assms(2) by (simp add: frags_len_def)
  ultimately show ?thesis using assms(5) by (simp add: is_whole_def whole_packet_def with_chksum_def Let_def reass_key_def)
qed

lemma put_parts:
  assumes pre: "put_pre (parts_of sent) k p s" and p: "packet_of (sent (reass_key (pb_hdr p))) p"
  shows "\<exists>res s'. reass_put k p s = Some (res, s') \<and> reass_inv (held (parts_of sent)) s' \<and>
    pbufs_freed s' + queued s' + (case res of None \<Rightarrow> 0 | Some q \<Rightarrow> length (pb_data q)) = pbufs_freed s + queued s + length (pb_data p) \<and>
    datagram_step (sent (reass_key (pb_hdr p))) p True (frags_for (reass_key (pb_hdr p)) s) res (frags_for (reass_key (pb_hdr p)) s')"
proof -
  let ?r = "reassdatagrams s ! k" let ?key = "reass_key (pb_hdr p)" let ?D = "sent ?key"
  have k: "k < length (reassdatagrams s)" and key: "entry_key ?r = ?key" and inv: "reass_inv (parts_of sent) s"
    using pre by (simp_all add: put_pre_def)
  have own: "frags_for ?key s = r_p ?r" using frags_for_nth [OF _ k] inv key by (simp add: reass_inv_def)
  have "parts_of sent ?r" using inv k by (auto simp: reass_inv_def)
  then have r: "entry_ok ?D ?r" by (simp add: parts_of_def key)
  note n = ip4_packet_lengths [OF p]
  have "unat (0xffff - word_of_nat IP_HLEN :: u16) = 65515" by (simp add: IP_HLEN_def)
  then have fits: "\<not> too_long p"
    using n(2) p by (auto simp: too_long_def packet_of_def frag_holds_def not_less word_le_nat_alt)
  consider (drop) "ip_reass_chain_frag_into_datagram_and_validate ?r p (\<not> more_frags p) = Some (PBUF_DROPPED, ?r)"
      "overlaps (frag_of p) (r_p ?r)"
    | (queue) fs where "ip_reass_chain_frag_into_datagram_and_validate ?r p (\<not> more_frags p) =
        Some (if sum_list (map flen fs) = length ?D then TELEGRAM_FINISHED else PBUF_QUEUED, ?r\<lparr>r_p := fs\<rparr>)"
      "frags_ok ?D fs" "mset fs = add_mset (frag_of p) (mset (r_p ?r))"
    using chain_frag_ok [OF r p] unfolding overlaps_def by blast
  then show ?thesis
  proof cases
    case drop
    then have "reass_put k p s = reass_drop_ipr k p s" using fits by (simp add: put_eq)
    obtain s' where "reass_drop_ipr k p s = Some (None, s')" "reass_inv (held (parts_of sent)) s'" "queued s' = queued s"
      "pbufs_freed s' = pbufs_freed s + length (pb_data p)" "frags_for ?key s' = frags_for ?key s" using drop_ipr_ok [OF pre] by blast
    then show ?thesis using \<open>reass_put k p s = reass_drop_ipr k p s\<close> drop(2) own by (simp add: datagram_step_def)
  next
    case queue
    let ?r' = "marked p (?r\<lparr>r_p := fs\<rparr>)"
    have r': "entry_key ?r' = ?key" "r_p ?r' = fs" "r_timer ?r' = r_timer ?r" "entry_ok ?D ?r'"
      using entry_ok_marked [OF r p queue(2,3)] key by (simp_all add: marked_def)
    have E: "parts_of sent ?r'" using r'(1,4) by (simp add: parts_of_def)
    have "mset (r_p ?r') = add_mset (frag_of p) (mset (r_p ?r))" "entry_key ?r' = entry_key ?r" using queue(3) r'(1,2) key by simp_all
    note q = queued_at_ok [OF pre this(2,1) frag_of_simps(1) r'(3) E]
    let ?s = "queued_at k ?r' p s"
    have len: "sum_list (map flen fs) = frags_len (r_p ?r) + flen (frag_of p)" using frags_len_mset [OF queue(3)] .
    have no: "\<not> overlaps (frag_of p) (r_p ?r)" using sorted_no_overlap [OF _ queue(3)] queue(2) by simp
    show ?thesis
    proof (cases "sum_list (map flen fs) = length ?D")
      case False
      then have "reass_put k p s = Some (None, ?s)" using fits queue(1) by (simp add: put_eq)
      then show ?thesis using q no own False len r'(2) queue(3) by (auto simp: datagram_step_def)
    next
      case True
      then have put: "reass_put k p s = reass_finish k ?s" using fits queue(1) by (simp add: put_eq)
      obtain s' where s': "reass_finish k ?s = Some (Some (whole_packet ?r'), s')" "reass_inv (held (parts_of sent)) s'"
        "queued ?s = queued s' + pbufs_of (r_p ?r')" "pbufs_freed s' = pbufs_freed ?s" "frags_for (entry_key ?r') s' = []"
        using finish_ok [OF q(1,5)] q(6) by auto
      have "fs \<noteq> []" using queue(3) by auto
      then have whole: "is_whole ?D p (whole_packet ?r')"
        using whole_ok [OF r'(4) _ _ _ r'(1)] True r'(2) p by (simp add: frags_len_def packet_of_def)
      have "length (pb_data (whole_packet ?r')) = pbufs_of (r_p ?r')" by (simp add: whole_packet_def pbufs_of_concat)
      then show ?thesis using put s' q(2,3) no own True len whole r'(1) by (auto simp: datagram_step_def)
    qed
  qed
qed

lemma step_room: "datagram_step D p True fs res fs' \<Longrightarrow> datagram_step D p room fs res fs'"
  by (auto simp: datagram_step_def)

lemma entry_ok_hdr: "entry_ok D r \<Longrightarrow> entry_ok D (r\<lparr>r_hdr := iphdr\<rparr>)"
  by (simp add: entry_ok_def)

lemma parts_of_tick: "parts_of sent r \<Longrightarrow> parts_of sent (dec_timer r)"
  by (simp add: parts_of_def entry_ok_def dec_timer_def)

lemma reass_step_ok:
  assumes "reass_inv (held (parts_of sent)) s" "packet_of (sent (reass_key (pb_hdr p))) p" "pb_data p \<noteq> []"
  shows "\<exists>res s'. ip4_reass p s = Some (res, s') \<and> reass_inv (held (parts_of sent)) s' \<and>
    pbufs_freed s' + queued s' + (case res of None \<Rightarrow> 0 | Some q \<Rightarrow> length (pb_data q)) = pbufs_freed s + queued s + length (pb_data p) \<and>
    datagram_step (sent (reass_key (pb_hdr p))) p (has_room p s)
      (frags_for (reass_key (pb_hdr p)) s) res (frags_for (reass_key (pb_hdr p)) s')"
proof -
  let ?key = "reass_key (pb_hdr p)"
  have wf: "packet_wf p" "unat (IPH_HL_BYTES (pb_hdr p)) = IP_HLEN" using assms(2,3) by (simp_all add: packet_of_def packet_wf_def)
  have new: "parts_of sent (new_datagram (pb_hdr p))" by (simp add: parts_of_def entry_ok_def new_datagram_def)
  have first: "parts_of sent (first_hdr p r)" if "parts_of sent r" "entry_key r = ?key" for r
    using that entry_ok_hdr [of "sent ?key" r "pb_hdr p"] by (simp add: parts_of_def first_hdr_def)
  consider (no_room) s1 where "ip4_reass p s = Some (reass_drop p s1)" "reass_inv (held (parts_of sent)) s1" "same_frags p s s1" "\<not> has_room p s"
    | (put) k s1 where "ip4_reass p s = reass_put k p s1" "put_pre (parts_of sent) k p s1" "same_frags p s s1"
    using reass_located [OF assms(1) wf ip4_packet_lengths(1) [OF assms(2)] new first] by blast
  then show ?thesis
  proof cases
    case no_room
    then show ?thesis
      by (auto simp: reass_drop_def free_packet_def reass_inv_def queued_def same_frags_def conserves_def frags_for_def datagram_step_def)
  next
    case put
    obtain res s' where s': "reass_put k p s1 = Some (res, s')" "reass_inv (held (parts_of sent)) s'"
      "pbufs_freed s' + queued s' + (case res of None \<Rightarrow> 0 | Some q \<Rightarrow> length (pb_data q)) = pbufs_freed s1 + queued s1 + length (pb_data p)"
      "datagram_step (sent ?key) p True (frags_for ?key s1) res (frags_for ?key s')" using put_parts [OF put(2) assms(2)] by blast
    show ?thesis using put(1,3) s' step_room [OF s'(4), of "has_room p s"] by (auto simp: same_frags_def conserves_def)
  qed
qed

lemma all_time_out:
  assumes "reass_inv (\<lambda>_. True) s"
  shows "\<exists>s'. ip_reass_ticks 16 s = Some s' \<and> reassdatagrams s' = [] \<and> ip_reass_pbufcount s' = 0 \<and>
    reassdata_free s' = MEMP_NUM_REASSDATA \<and> pbufs_freed s' = pbufs_freed s + queued s"
proof -
  obtain s' where s': "ip_reass_ticks 16 s = Some s'" "reass_inv (\<lambda>_. True) s'" "conserves s s'"
    "reassdatagrams s' = (ticked ^^ 16) (reassdatagrams s)" using ticks_ok [OF assms] by blast
  have "\<forall>r \<in> set (reassdatagrams s). unat (r_timer r) \<le> 15"
    using assms by (auto simp: reass_inv_def entry_wf_def IP_REASS_MAXAGE_def word_le_nat_alt)
  then have "(ticked ^^ Suc 15) (reassdatagrams s) = []" by (rule ticked_all)
  then have "reassdatagrams s' = []" using s'(4) by simp
  moreover from this have "queued s' = 0" by (simp add: queued_def)
  ultimately show ?thesis using s' by (simp add: reass_inv_def conserves_def unat_eq_0)
qed

section \<open>Packets of any kind\<close>

lemma insert_frag_total:
  "(\<And>q. prev = Some q \<Longrightarrow> f_end q \<le> f_start f) \<Longrightarrow>
    \<exists>r. insert_frag f prev valid qs = Some r \<and> (\<forall>fs v rest. r = Queued fs v rest \<longrightarrow> mset fs = add_mset f (mset qs))"
proof (induction qs arbitrary: prev valid)
  case Nil
  then show ?case by (cases prev) auto
next
  case (Cons q qs)
  show ?case
  proof (cases "f_start f < f_start q \<or> f_start f = f_start q \<or> f_start f < f_end q")
    case True
    then show ?thesis by auto
  next
    case False
    then have "f_end q \<le> f_start f" by (simp add: not_less)
    then obtain r where r: "insert_frag f (Some q) (valid \<and> holds_back prev q) qs = Some r"
      "\<forall>fs v rest. r = Queued fs v rest \<longrightarrow> mset fs = add_mset f (mset qs)" using Cons.IH [of "Some q"] by fastforce
    then show ?thesis using False by (cases r) auto
  qed
qed

definition flags_ok :: "ip_reassdata \<Rightarrow> bool" where
  "flags_ok r \<longleftrightarrow> (r_p r = [] \<longrightarrow> r_flags r AND IP_REASS_FLAG_LASTFRAG = 0)"

text \<open>What \<^verbatim>\<open>ip4_input\<close> takes for a fragment.\<close>

definition is_fragment :: "ip4_pbuf \<Rightarrow> bool" where
  "is_fragment p \<longleftrightarrow> iph_offset (pb_hdr p) AND (IP_OFFMASK OR IP_MF) \<noteq> 0"

lemma fragment_start:
  assumes "is_fragment p" "\<not> more_frags p" shows "f_start (frag_of p) \<noteq> 0"
proof
  let ?o = "iph_offset (pb_hdr p)"
  assume "f_start (frag_of p) = 0"
  then have zero: "(?o AND IP_OFFMASK) * 8 = 0" by (simp add: IPH_OFFSET_BYTES_def)
  have "?o AND IP_OFFMASK \<le> IP_OFFMASK" by (rule word_and_le1)
  then have lt: "unat (?o AND IP_OFFMASK) \<le> 8191" by (simp add: IP_OFFMASK_def word_le_nat_alt)
  then have "unat ((?o AND IP_OFFMASK) * 8) = unat (?o AND IP_OFFMASK) * 8" by (subst unat_mult_lem [THEN iffD1]) simp_all
  then have "?o AND IP_OFFMASK = 0" using zero by (simp add: unat_eq_0)
  moreover have "?o AND IP_MF = 0" using assms(2) by (simp add: more_frags_def)
  ultimately show False using assms(1) by (simp add: is_fragment_def bit.conj_disj_distrib)
qed

lemma chain_total:
  assumes "flags_ok r" "is_fragment p"
  shows "ip_reass_chain_frag_into_datagram_and_validate r p (\<not> more_frags p) = Some (PBUF_DROPPED, r) \<or>
    (\<exists>fs v. ip_reass_chain_frag_into_datagram_and_validate r p (\<not> more_frags p) = Some (v, r\<lparr>r_p := fs\<rparr>) \<and> v \<noteq> PBUF_DROPPED \<and>
      mset fs = add_mset (frag_of p) (mset (r_p r)))"
proof -
  obtain x where x: "insert_frag (frag_of p) None True (r_p r) = Some x"
    "\<forall>fs v rest. x = Queued fs v rest \<longrightarrow> mset fs = add_mset (frag_of p) (mset (r_p r))"
    using insert_frag_total [of None] by blast
  have two: "length fs > 1" if "f_start (hd fs) = 0" "\<not> more_frags p \<or> r_flags r AND IP_REASS_FLAG_LASTFRAG \<noteq> 0" "x = Queued fs v rest" for fs v rest
  proof (rule ccontr)
    assume short: "\<not> length fs > 1"
    have m: "mset fs = add_mset (frag_of p) (mset (r_p r))" using x(2) that(3) by blast
    then have "size (mset fs) = Suc (length (r_p r))" by simp
    then have e: "r_p r = []" using short by simp
    then have "fs = [frag_of p]" using m by simp
    moreover have "r_flags r AND IP_REASS_FLAG_LASTFRAG = 0" using assms(1) e by (simp add: flags_ok_def)
    ultimately show False using fragment_start [OF assms(2)] that(1,2) by simp
  qed
  show ?thesis
    using x two unfolding ip_reass_chain_frag_into_datagram_and_validate_def Let_def
    by (cases x) (auto simp: frag_of_def Let_def)
qed

lemma put_safe:
  assumes pre: "put_pre flags_ok k p s" and p: "is_fragment p"
  shows "\<exists>res s'. reass_put k p s = Some (res, s') \<and> reass_inv (held flags_ok) s' \<and>
    pbufs_freed s' + queued s' + (case res of None \<Rightarrow> 0 | Some q \<Rightarrow> length (pb_data q)) = pbufs_freed s + queued s + length (pb_data p)"
proof -
  let ?r = "reassdatagrams s ! k"
  have r: "flags_ok ?r" using pre by (auto simp: put_pre_def reass_inv_def)
  have drop: ?thesis if "reass_put k p s = reass_drop_ipr k p s" using drop_ipr_ok [OF pre] that by auto
  show ?thesis
  proof (cases "too_long p")
    case True
    then show ?thesis using drop by (simp add: put_eq)
  next
    case False
    show ?thesis
      using chain_total [OF r p]
    proof (elim disjE exE conjE)
      assume "ip_reass_chain_frag_into_datagram_and_validate ?r p (\<not> more_frags p) = Some (PBUF_DROPPED, ?r)"
      then show ?thesis using drop False by (simp add: put_eq)
    next
      fix fs v
      assume c: "ip_reass_chain_frag_into_datagram_and_validate ?r p (\<not> more_frags p) = Some (v, ?r\<lparr>r_p := fs\<rparr>)" "v \<noteq> PBUF_DROPPED"
        "mset fs = add_mset (frag_of p) (mset (r_p ?r))"
      let ?r' = "marked p (?r\<lparr>r_p := fs\<rparr>)"
      have r': "entry_key ?r' = entry_key ?r" "mset (r_p ?r') = add_mset (frag_of p) (mset (r_p ?r))" "r_timer ?r' = r_timer ?r" "flags_ok ?r'"
        using c(3) by (auto simp: marked_def flags_ok_def)
      note q = queued_at_ok [OF pre r'(1,2) frag_of_simps(1) r'(3,4)]
      let ?s = "queued_at k ?r' p s"
      show ?thesis
      proof (cases "v = TELEGRAM_FINISHED")
        case False
        then show ?thesis using c \<open>\<not> too_long p\<close> q by (simp add: put_eq)
      next
        case True
        then have put: "reass_put k p s = reass_finish k ?s" using c(1) \<open>\<not> too_long p\<close> by (simp add: put_eq)
        obtain s' where s': "reass_finish k ?s = Some (Some (whole_packet ?r'), s')" "reass_inv (held flags_ok) s'"
          "queued ?s = queued s' + pbufs_of (r_p ?r')" "pbufs_freed s' = pbufs_freed ?s" using finish_ok [OF q(1,5)] q(6) by auto
        have "length (pb_data (whole_packet ?r')) = pbufs_of (r_p ?r')" by (simp add: whole_packet_def pbufs_of_concat)
        then show ?thesis using put s' q(2,3) by auto
      qed
    qed
  qed
qed

lemma reass_safe:
  assumes "reass_inv (held flags_ok) s" "is_fragment p" "packet_wf p"
  shows "\<exists>res s'. ip4_reass p s = Some (res, s') \<and> reass_inv (held flags_ok) s' \<and>
    pbufs_freed s' + queued s' + (case res of None \<Rightarrow> 0 | Some q \<Rightarrow> length (pb_data q)) = pbufs_freed s + queued s + length (pb_data p)"
proof (cases "unat (IPH_HL_BYTES (pb_hdr p)) = IP_HLEN \<and> ucast (IPH_HL_BYTES (pb_hdr p)) \<le> iph_len (pb_hdr p)")
  case False
  then have "ip4_reass p s = Some (reass_drop p s)" by (auto simp: ip4_reass_def Let_def not_le)
  then show ?thesis using assms(1) by (auto simp: reass_drop_def free_packet_def reass_inv_def queued_def)
next
  case True
  have new: "flags_ok (new_datagram (pb_hdr p))" by (simp add: flags_ok_def new_datagram_def)
  have first: "flags_ok (first_hdr p r)" if "flags_ok r" for r using that by (simp add: first_hdr_def flags_ok_def)
  consider (no_room) s1 where "ip4_reass p s = Some (reass_drop p s1)" "reass_inv (held flags_ok) s1" "same_frags p s s1"
    | (put) k s1 where "ip4_reass p s = reass_put k p s1" "put_pre flags_ok k p s1" "same_frags p s s1"
    using reass_located [OF assms(1,3) _ _ new first] True by blast
  then show ?thesis
  proof cases
    case no_room
    then show ?thesis by (auto simp: reass_drop_def free_packet_def reass_inv_def queued_def same_frags_def conserves_def)
  next
    case put
    then show ?thesis using put_safe [OF put(2) assms(2)] by (auto simp: same_frags_def conserves_def)
  qed
qed

section \<open>Properties\<close>

definition example_hdr :: ip_hdr where
  "example_hdr = \<lparr>v_hl = 0x45, iph_tos = 0, iph_len = 0, iph_id = 7, iph_offset = 0, iph_ttl = 64, iph_proto = 17, iph_chksum = 0,
     iph_src = 0x0a000001, iph_dest = 0x0a000002\<rparr>"

definition empty_reass :: ip4_reass_state where
  "empty_reass = \<lparr>reassdatagrams = [], ip_reass_pbufcount = 0, reassdata_free = MEMP_NUM_REASSDATA, pbufs_freed = 0\<rparr>"

definition example_frag :: "ip4_pbuf" where
  "example_frag = \<lparr>pb_hdr = example_hdr\<lparr>iph_len := 28, iph_offset := IP_MF\<rparr>, pb_data = [replicate 8 5]\<rparr>"

text \<open>The queue after the fragment.\<close>

definition example_queue :: ip4_reass_state where
  "example_queue = empty_reass\<lparr>ip_reass_pbufcount := 1, reassdata_free := 4,
     reassdatagrams := [(new_datagram (pb_hdr example_frag))\<lparr>r_p := [frag_of example_frag]\<rparr>]\<rparr>"

lemma empty_reass_inv [simp]: "reass_inv E empty_reass" "frags_for key empty_reass = []"
  by (simp_all add: reass_inv_def empty_reass_def queued_def frags_for_def)

lemma example_frag_len [simp]: "pb_data example_frag = [replicate 8 5]" "length (pb_data example_frag) = 1" "packet_wf example_frag"
  by (simp_all add: example_frag_def packet_wf_def)

lemma example_frag_facts:
  "unat (IPH_HL_BYTES (pb_hdr example_frag)) = IP_HLEN \<and> unat (iph_len (pb_hdr example_frag)) = IP_HLEN + tot_len (pb_data example_frag) \<and>
   frag_holds (replicate 16 5) (frag_of example_frag) \<and> unat (f_end (frag_of example_frag)) = 8 \<and> more_frags example_frag \<and>
   flen (frag_of example_frag) = 8 \<and> is_fragment example_frag"
  by code_simp

lemma example_packet_of: "packet_of (replicate 16 5) example_frag"
  using example_frag_facts by (simp add: packet_of_def)

lemma example_queue_inv [simp]: "reass_inv E example_queue \<longleftrightarrow> E ((new_datagram (pb_hdr example_frag))\<lparr>r_p := [frag_of example_frag]\<rparr>)"
  by (simp add: reass_inv_def example_queue_def empty_reass_def queued_def entry_wf_def new_datagram_def frag_of_def Let_def
      IP_REASS_MAX_PBUFS_def MEMP_NUM_REASSDATA_def)

text \<open>C9: reassembly of IPv4 datagrams. Every datagram has one content, given by its addresses and its identification, and the
  packet carries a part of it. Then \<^verbatim>\<open>ip4_reass\<close> returns (no assertion fails, no chain of pbufs is walked off its end) and
  keeps the queue in order: fragments sorted and disjoint, the count of queued pbufs exact and at most \<^verbatim>\<open>IP_REASS_MAX_PBUFS\<close>,
  every \<^verbatim>\<open>ip_reassdata\<close> either on the list or free. No pbuf is lost: each is freed, queued or returned. For the datagram of the packet it
  does one of three things, whatever the order in which the fragments come: it throws the packet away, and only because it
  overlaps a queued fragment or because what is queued of the same datagram leaves no room for its pbufs; or it queues it because bytes are still missing; or it returns one packet that
  has exactly the bytes of the datagram, the right length, offset 0, and the addresses and identification.
\<close>

theorem ip4_reass_correct:
  assumes "reass_inv (held (parts_of sent)) s" "packet_of (sent (reass_key (pb_hdr p))) p" "pb_data p \<noteq> []"
  shows "\<exists>res s'. ip4_reass p s = Some (res, s') \<and> reass_inv (held (parts_of sent)) s' \<and>
    pbufs_freed s' + queued s' + (case res of None \<Rightarrow> 0 | Some q \<Rightarrow> length (pb_data q)) = pbufs_freed s + queued s + length (pb_data p) \<and>
    datagram_step (sent (reass_key (pb_hdr p))) p (has_room p s)
      (frags_for (reass_key (pb_hdr p)) s) res (frags_for (reass_key (pb_hdr p)) s')"
  using assms by (rule reass_step_ok)

theorem ip4_reass_correct_witness:
  "\<exists>res s'. ip4_reass example_frag empty_reass = Some (res, s') \<and> reass_inv (held (parts_of (\<lambda>_. replicate 16 5))) s' \<and>
    pbufs_freed s' + queued s' + (case res of None \<Rightarrow> 0 | Some q \<Rightarrow> length (pb_data q)) = 1 \<and>
    datagram_step (replicate 16 5) example_frag True [] res (frags_for (reass_key (pb_hdr example_frag)) s')"
  using ip4_reass_correct [of "\<lambda>_. replicate 16 5" empty_reass example_frag] example_packet_of
  by (simp add: has_room_def IP_REASS_MAX_PBUFS_def) (simp add: empty_reass_def queued_def)

text \<open>C11: no packet that \<^verbatim>\<open>ip4_input\<close> takes for a fragment can make an assertion of the reassembly fail, whatever its header
  says: lengths that are too short, offsets that overflow, fragments that overlap or contradict each other. The limits of the
  queue hold after it and no pbuf is lost.
\<close>

theorem ip4_reass_safe:
  assumes "reass_inv (held flags_ok) s" "is_fragment p" "packet_wf p"
  shows "\<exists>res s'. ip4_reass p s = Some (res, s') \<and> reass_inv (held flags_ok) s' \<and>
    pbufs_freed s' + queued s' + (case res of None \<Rightarrow> 0 | Some q \<Rightarrow> length (pb_data q)) = pbufs_freed s + queued s + length (pb_data p)"
  using assms by (rule reass_safe)

theorem ip4_reass_safe_witness:
  "\<exists>res s'. ip4_reass example_frag example_queue = Some (res, s') \<and> reass_inv (held flags_ok) s' \<and>
    pbufs_freed s' + queued s' + (case res of None \<Rightarrow> 0 | Some q \<Rightarrow> length (pb_data q)) = pbufs_freed example_queue + queued example_queue + 1"
  using ip4_reass_safe [of example_queue example_frag] example_frag_facts by (simp add: flags_ok_def)

text \<open>C12: datagrams that are never completed do not stay. When no fragment arrives, sixteen ticks of \<^verbatim>\<open>ip_reass_tmr\<close> (one a second)
  empty the queue: every \<^verbatim>\<open>ip_reassdata\<close> is back in its pool, the count of queued pbufs is 0 and exactly the pbufs that were queued
  have been freed.
\<close>

theorem ip_reass_all_time_out:
  assumes "reass_inv (\<lambda>_. True) s"
  shows "\<exists>s'. ip_reass_ticks 16 s = Some s' \<and> reassdatagrams s' = [] \<and> ip_reass_pbufcount s' = 0 \<and>
    reassdata_free s' = MEMP_NUM_REASSDATA \<and> pbufs_freed s' = pbufs_freed s + queued s"
  using assms by (rule all_time_out)

theorem ip_reass_all_time_out_witness:
  "\<exists>s'. ip_reass_ticks 16 example_queue = Some s' \<and> reassdatagrams s' = [] \<and> ip_reass_pbufcount s' = 0 \<and>
    reassdata_free s' = 5 \<and> pbufs_freed s' = 1"
proof -
  have "queued example_queue = 1" "pbufs_freed example_queue = 0"
    by (simp_all add: example_queue_def empty_reass_def queued_def frag_of_def Let_def)
  then show ?thesis using ip_reass_all_time_out [of example_queue] by (simp add: MEMP_NUM_REASSDATA_def)
qed

end
