(* ===== verification/Ip4_Frag.thy ===== *)
theory Ip4_Frag
  imports Ip4_Reass
begin

text \<open>
  The fragmentation of IPv4 packets, \<^verbatim>\<open>ip4_frag\<close> in \<^verbatim>\<open>core/ipv4/ip4_frag.c\<close>, and what it gives together with the
  reassembly of theory \<open>Ip4_Reass\<close>.

  The outcomes of the allocations are a function of their number. The packets that are given to \<^verbatim>\<open>netif->output\<close> are
  collected. The header of a fragment is in a pbuf of its own, so its payloads start with an empty one.
\<close>

section \<open>Fragments of a packet\<close>

text \<open>The pbufs that are mirrored for one fragment, and the chain from the first byte that is not in it.\<close>

fun mirror :: "(nat \<Rightarrow> bool) \<Rightarrow> nat \<Rightarrow> u16 \<Rightarrow> payloads \<Rightarrow> (nat \<times> (payloads \<times> payloads) option) option" where
  "mirror ok n left_to_copy [] = (if left_to_copy = 0 then Some (n, Some ([], [])) else None)"
| "mirror ok n left_to_copy (d # ds) =
     (if left_to_copy = 0 then Some (n, Some ([], d # ds))
      else
        (let newpbuflen = min left_to_copy (word_of_nat (length d))
         in if newpbuflen = 0 then mirror ok n left_to_copy ds
            else if \<not> ok n then Some (n + 1, None)
            else
              (let left_to_copy = left_to_copy - newpbuflen
               in if left_to_copy = 0 then Some (n + 1, Some ([take (unat newpbuflen) d], drop (unat newpbuflen) d # ds))
                  else do {
                    (n, r) \<leftarrow> mirror ok (n + 1) left_to_copy ds;
                    Some (n, map_option (\<lambda>(q, rest). (take (unat newpbuflen) d # q, rest)) r)
                  })))"

definition frag_nfb :: "u16 \<Rightarrow> u16" where
  "frag_nfb mtu =
     (if unat mtu \<ge> IP_HLEN then word_of_nat ((unat mtu - IP_HLEN) div 8)
      else - word_of_nat ((IP_HLEN - unat mtu) div 8))"

definition frag_hdr :: "ip_hdr \<Rightarrow> u16 \<Rightarrow> u16 \<Rightarrow> bool \<Rightarrow> bool \<Rightarrow> ip_hdr" where
  "frag_hdr original_iphdr ofo fragsize is_last mf_set =
     (let tmp = IP_OFFMASK AND ofo;
          tmp = (if \<not> is_last \<or> mf_set then tmp OR IP_MF else tmp)
      in with_chksum (original_iphdr\<lparr>iph_offset := tmp, iph_len := fragsize + word_of_nat IP_HLEN\<rparr>))"

partial_function (option) ip4_frag_loop ::
  "(nat \<Rightarrow> bool) \<Rightarrow> u16 \<Rightarrow> ip_hdr \<Rightarrow> bool \<Rightarrow> nat \<Rightarrow> u16 \<Rightarrow> u16 \<Rightarrow> payloads \<Rightarrow> ip4_pbuf list \<Rightarrow> (err_t \<times> ip4_pbuf list) option" where
  "ip4_frag_loop ok mtu original_iphdr mf_set n left ofo p out =
     (if left = 0 then Some (ERR_OK, out)
      else
        (let fragsize = min left (frag_nfb mtu * 8)
         in if \<not> ok n then Some (ERR_MEM, out)
            else Option.bind (mirror ok (n + 1) fragsize p) (\<lambda>(n, r).
              case r of
                None \<Rightarrow> Some (ERR_MEM, out)
              | Some (q, p) \<Rightarrow>
                  (let is_last = (int (unat left) \<le> int (unat mtu) - int IP_HLEN);
                       rambuf = \<lparr>pb_hdr = frag_hdr original_iphdr ofo fragsize is_last mf_set, pb_data = [] # q\<rparr>
                   in ip4_frag_loop ok mtu original_iphdr mf_set n (left - fragsize) (ofo + frag_nfb mtu) p (out @ [rambuf])))))"

definition ip4_frag :: "(nat \<Rightarrow> bool) \<Rightarrow> u16 \<Rightarrow> ip4_pbuf \<Rightarrow> (err_t \<times> ip4_pbuf list) option" where
  "ip4_frag ok mtu p =
     (let iphdr = pb_hdr p
      in if unat (IPH_HL_BYTES iphdr) \<noteq> IP_HLEN then Some (ERR_VAL, [])
         else
           (let tmp = iph_offset iphdr; ofo = tmp AND IP_OFFMASK; mf_set = (tmp AND IP_MF \<noteq> 0);
                left = word_of_nat (IP_HLEN + tot_len (pb_data p)) - word_of_nat IP_HLEN
            in ip4_frag_loop ok mtu iphdr mf_set 0 left ofo (pb_data p) []))"

section \<open>What one fragment carries\<close>

lemma mirror_Cons:
  assumes "m = min left_to_copy (word_of_nat (length d))" "left_to_copy \<noteq> 0" "\<forall>n. ok n"
  shows "mirror ok n left_to_copy (d # ds) =
     (if m = 0 then mirror ok n left_to_copy ds
      else if left_to_copy - m = 0 then Some (n + 1, Some ([take (unat m) d], drop (unat m) d # ds))
      else do {
        (n, r) \<leftarrow> mirror ok (n + 1) (left_to_copy - m) ds;
        Some (n, map_option (\<lambda>(q, rest). (take (unat m) d # q, rest)) r)
      })"
  using assms by (simp only: mirror.simps Let_def if_False simp_thms)

lemma mirror_ok:
  assumes "\<forall>n. ok n" "unat left \<le> tot_len p" "\<forall>d \<in> set p. length d < 65536"
  shows "\<exists>n' q rest. mirror ok n left p = Some (n', Some (q, rest)) \<and> concat q = take (unat left) (concat p) \<and>
    concat rest = drop (unat left) (concat p) \<and> (\<forall>d \<in> set rest. length d < 65536)"
  using assms(2,3)
proof (induction p arbitrary: n left)
  case Nil
  then show ?case by (simp add: tot_len_def unat_eq_0)
next
  case (Cons d ds)
  show ?case
  proof (cases "left = 0")
    case True
    then show ?thesis using Cons.prems by simp
  next
    case False
    have len: "unat (word_of_nat (length d) :: u16) = length d" using Cons.prems(2) by (simp add: unat_of_nat take_bit_nat_eq_self)
    define m where "m = min left (word_of_nat (length d))"
    have m: "unat m = min (unat left) (length d)" by (simp add: m_def min_def word_le_nat_alt len)
    have minus: "unat (left - m) = unat left - unat m" using m by (simp add: unat_sub word_le_nat_alt)
    show ?thesis
    proof (cases "m = 0")
      case True
      then have "d = []" using m False by (simp add: unat_eq_0 min_def split: if_splits)
      moreover have "mirror ok n left (d # ds) = mirror ok n left ds" using mirror_Cons [OF m_def False assms(1)] True by simp
      ultimately show ?thesis using Cons.IH [of left n] Cons.prems by (simp add: tot_len_def)
    next
      case pos: False
      show ?thesis
      proof (cases "left - m = 0")
        case True
        then have "unat (left - m) = 0" by (simp only: unat_0)
        then have "unat left \<le> length d" using minus m by linarith
        moreover have "mirror ok n left (d # ds) = Some (n + 1, Some ([take (unat m) d], drop (unat m) d # ds))"
          using mirror_Cons [OF m_def False assms(1)] pos True by (simp only: if_False if_True simp_thms)
        ultimately show ?thesis using Cons.prems(2) m by (auto simp del: mirror.simps intro: le_less_trans [OF diff_le_self])
      next
        case more: False
        then have full: "unat m = length d" "length d < unat left" using m minus by (auto simp: unat_eq_0 min_def split: if_splits)
        obtain n' q rest where r: "mirror ok (n + 1) (left - m) ds = Some (n', Some (q, rest))"
          "concat q = take (unat (left - m)) (concat ds)" "concat rest = drop (unat (left - m)) (concat ds)"
          "\<forall>d \<in> set rest. length d < 65536"
        proof -
          have "unat (left - m) \<le> tot_len ds" "\<forall>d \<in> set ds. length d < 65536"
            using Cons.prems minus full by (simp_all add: tot_len_def)
          from Cons.IH [OF this, of "n + 1"] show ?thesis using that by blast
        qed
        have "mirror ok n left (d # ds) = Some (n', Some (take (unat m) d # q, rest))"
          unfolding mirror_Cons [OF m_def False assms(1)] using pos more r(1) by simp
        then show ?thesis using r minus full by simp
      qed
    qed
  qed
qed

lemma with_chksum_simps [simp]:
  "v_hl (with_chksum x) = v_hl x" "iph_len (with_chksum x) = iph_len x" "iph_id (with_chksum x) = iph_id x"
  "iph_offset (with_chksum x) = iph_offset x" "iph_src (with_chksum x) = iph_src x" "iph_dest (with_chksum x) = iph_dest x"
  by (simp_all add: with_chksum_def Let_def)

lemma offset_bits:
  assumes "(ofo :: u16) < 0x2000"
  shows "IP_OFFMASK AND ofo = ofo" "ofo AND IP_OFFMASK = ofo" "(ofo OR IP_MF) AND IP_OFFMASK = ofo"
    "ofo AND IP_MF = 0" "(ofo OR IP_MF) AND IP_MF = IP_MF"
proof -
  have m: "(0x1fff :: u16) = mask 13" by (simp add: mask_eq_exp_minus_1)
  have "ofo AND 0x1fff = take_bit 13 ofo" by (simp only: m take_bit_eq_mask)
  moreover have "unat (take_bit 13 ofo) = unat ofo" using assms by (simp add: unsigned_take_bit_eq take_bit_nat_eq_self word_less_nat_alt)
  ultimately show o: "ofo AND IP_OFFMASK = ofo" by (simp add: IP_OFFMASK_def word_unat_eq_iff)
  then show "IP_OFFMASK AND ofo = ofo" by (simp add: and.commute)
  have "IP_OFFMASK AND IP_MF = 0" by (simp add: IP_OFFMASK_def IP_MF_def)
  then show mf: "ofo AND IP_MF = 0" using o by (metis and.assoc and_zero_eq)
  show "(ofo OR IP_MF) AND IP_OFFMASK = ofo"
    using o by (simp add: bit.conj_disj_distrib2) (simp add: IP_OFFMASK_def IP_MF_def)
  show "(ofo OR IP_MF) AND IP_MF = IP_MF" using mf by (simp add: bit.conj_disj_distrib2)
qed

text \<open>The packets that carry the datagram \<open>D\<close> from the byte \<open>a\<close> on, one behind the other.\<close>

fun fragments_from :: "u8 list \<Rightarrow> u32 \<times> u32 \<times> u16 \<Rightarrow> nat \<Rightarrow> ip4_pbuf list \<Rightarrow> bool" where
  "fragments_from D key a [] = (a = length D)"
| "fragments_from D key a (q # qs) =
     (unat (f_start (frag_of q)) = a \<and> frag_holds D (frag_of q) \<and> reass_key (pb_hdr q) = key \<and>
      unat (IPH_HL_BYTES (pb_hdr q)) = IP_HLEN \<and> unat (iph_len (pb_hdr q)) = IP_HLEN + tot_len (pb_data q) \<and>
      (more_frags q \<longleftrightarrow> a + flen (frag_of q) < length D) \<and> fragments_from D key (a + flen (frag_of q)) qs)"

lemma one_fragment:
  fixes ofo fragsize :: u16
  assumes hdr: "unat (IPH_HL_BYTES iphdr) = IP_HLEN" and o: "8 * unat ofo + unat fragsize \<le> length D" "length D \<le> 65515"
    and q: "concat q = take (unat fragsize) (drop (8 * unat ofo) D)" "0 < unat fragsize"
    and p: "p = \<lparr>pb_hdr = frag_hdr iphdr ofo fragsize is_last False, pb_data = [] # q\<rparr>"
      "is_last \<longleftrightarrow> 8 * unat ofo + unat fragsize = length D"
  shows "unat (f_start (frag_of p)) = 8 * unat ofo" "frag_holds D (frag_of p)" "reass_key (pb_hdr p) = reass_key iphdr"
    "unat (IPH_HL_BYTES (pb_hdr p)) = IP_HLEN" "unat (iph_len (pb_hdr p)) = IP_HLEN + tot_len (pb_data p)"
    "more_frags p \<longleftrightarrow> 8 * unat ofo + flen (frag_of p) < length D" "flen (frag_of p) = unat fragsize"
proof -
  have lt: "ofo < 0x2000" using o by (simp add: word_less_nat_alt)
  note bits = offset_bits [OF lt]
  have off: "iph_offset (pb_hdr p) AND IP_OFFMASK = ofo" by (simp add: p frag_hdr_def Let_def bits)
  have mul: "unat (ofo * 8) = 8 * unat ofo" using o by (subst unat_mult_lem [THEN iffD1]) simp_all
  show st: "unat (f_start (frag_of p)) = 8 * unat ofo" using off mul by (simp add: IPH_OFFSET_BYTES_def)
  show "reass_key (pb_hdr p) = reass_key iphdr" by (simp add: p frag_hdr_def Let_def reass_key_def)
  have hl: "IPH_HL_BYTES (pb_hdr p) = IPH_HL_BYTES iphdr" by (simp add: p frag_hdr_def Let_def IPH_HL_BYTES_def)
  then show "unat (IPH_HL_BYTES (pb_hdr p)) = IP_HLEN" using hdr by simp
  show n: "flen (frag_of p) = unat fragsize" using q(1) o by (simp add: flen_def tot_len_def p)
  have len: "iph_len (pb_hdr p) = fragsize + word_of_nat IP_HLEN" by (simp add: p frag_hdr_def Let_def)
  have ulen: "unat (fragsize + word_of_nat IP_HLEN) = unat fragsize + IP_HLEN"
    using o by (subst unat_add_lem [THEN iffD1]) (simp_all add: IP_HLEN_def)
  then show "unat (iph_len (pb_hdr p)) = IP_HLEN + tot_len (pb_data p)" using len n by (simp add: flen_def)
  have "(ucast (IPH_HL_BYTES (pb_hdr p)) :: u16) = word_of_nat IP_HLEN"
    using hdr hl by (metis of_nat_unat ucast_id unsigned_of_nat of_nat_unat)
  then have e: "f_end (frag_of p) = ofo * 8 + fragsize" using off len by (simp add: frag_of_def Let_def IPH_OFFSET_BYTES_def)
  have ue: "unat (ofo * 8 + fragsize) = 8 * unat ofo + unat fragsize" using o mul by (subst unat_add_lem [THEN iffD1]) simp_all
  show "frag_holds D (frag_of p)"
    using st e ue n o q by (simp add: frag_holds_def p)
  have "IP_MF \<noteq> 0" by (simp add: IP_MF_def)
  then have "more_frags p \<longleftrightarrow> \<not> is_last" by (simp add: more_frags_def p(1) frag_hdr_def Let_def bits)
  then show "more_frags p \<longleftrightarrow> 8 * unat ofo + flen (frag_of p) < length D" using p(2) n o by auto
qed

text \<open>A round of the loop takes as many blocks of eight bytes as fit, or all that is left.\<close>

lemma frag_round:
  fixes left :: u16
  assumes ok: "\<forall>n. ok n" and mtu: "unat mtu = IP_HLEN + 8 * k + x" "x < 8" "0 < k"
    and p: "unat left = length (concat p)" "\<forall>d \<in> set p. length d < 65536" and "left \<noteq> 0"
  defines "fs \<equiv> min left (frag_nfb mtu * 8)"
  shows "unat fs = min (unat left) (8 * k)" "unat (left - fs) = unat left - unat fs" "unat (frag_nfb mtu) = k"
    "\<exists>n' q rest. ip4_frag_loop ok mtu iphdr False n left ofo p out =
        ip4_frag_loop ok mtu iphdr False n' (left - fs) (ofo + frag_nfb mtu) rest
          (out @ [\<lparr>pb_hdr = frag_hdr iphdr ofo fs (unat left \<le> 8 * k + x) False, pb_data = [] # q\<rparr>]) \<and>
      concat q = take (unat fs) (concat p) \<and> concat rest = drop (unat fs) (concat p) \<and> (\<forall>d \<in> set rest. length d < 65536)"
proof -
  have k: "8 * k \<le> 65515" using mtu(1) u16_lt [of mtu] by (simp add: IP_HLEN_def)
  have "(8 * k + x) div 8 = k" using mtu(2) by simp
  then have nfb: "frag_nfb mtu = word_of_nat k" using mtu(1) by (simp add: frag_nfb_def IP_HLEN_def)
  then show uk: "unat (frag_nfb mtu) = k" using k by (simp add: unat_of_nat take_bit_nat_eq_self)
  have unfb: "unat (frag_nfb mtu * 8) = 8 * k" using k uk by (subst unat_mult_lem [THEN iffD1]) simp_all
  show fs: "unat fs = min (unat left) (8 * k)" by (simp add: fs_def min_def word_le_nat_alt unfb)
  then show "unat (left - fs) = unat left - unat fs" by (simp add: unat_sub word_le_nat_alt)
  obtain n' q rest where m: "mirror ok (n + 1) fs p = Some (n', Some (q, rest))" "concat q = take (unat fs) (concat p)"
    "concat rest = drop (unat fs) (concat p)" "\<forall>d \<in> set rest. length d < 65536"
    using mirror_ok [OF ok, of fs p "n + 1"] p fs by (auto simp: tot_len_def)
  have last: "(int (unat left) \<le> int (unat mtu) - int IP_HLEN) = (unat left \<le> 8 * k + x)" using mtu(1) by linarith
  show "\<exists>n' q rest. ip4_frag_loop ok mtu iphdr False n left ofo p out =
        ip4_frag_loop ok mtu iphdr False n' (left - fs) (ofo + frag_nfb mtu) rest
          (out @ [\<lparr>pb_hdr = frag_hdr iphdr ofo fs (unat left \<le> 8 * k + x) False, pb_data = [] # q\<rparr>]) \<and>
      concat q = take (unat fs) (concat p) \<and> concat rest = drop (unat fs) (concat p) \<and> (\<forall>d \<in> set rest. length d < 65536)"
  proof -
    have "ip4_frag_loop ok mtu iphdr False n left ofo p out =
        ip4_frag_loop ok mtu iphdr False n' (left - fs) (ofo + frag_nfb mtu) rest
          (out @ [\<lparr>pb_hdr = frag_hdr iphdr ofo fs (int (unat left) \<le> int (unat mtu) - int IP_HLEN) False, pb_data = [] # q\<rparr>])"
      using m(1) assms(7) ok by (subst ip4_frag_loop.simps) (simp add: fs_def [symmetric] Let_def)
    then show ?thesis using m(2-4) unfolding last by blast
  qed
qed

lemma frag_loop_ok:
  assumes ok: "\<forall>n. ok n" and mtu: "unat mtu = IP_HLEN + 8 * k" "0 < k" and hdr: "unat (IPH_HL_BYTES iphdr) = IP_HLEN" and D: "length D \<le> 65515"
    and p: "concat p = drop (8 * unat ofo) D" "unat left = length (concat p)" "\<forall>d \<in> set p. length d < 65536" "8 * unat ofo \<le> length D \<or> left = 0"
  shows "\<exists>qs. ip4_frag_loop ok mtu iphdr False n left ofo p out = Some (ERR_OK, out @ qs) \<and>
    (left \<noteq> 0 \<longrightarrow> fragments_from D (reass_key iphdr) (8 * unat ofo) qs) \<and> (left = 0 \<longrightarrow> qs = []) \<and> length qs = (unat left + 8 * k - 1) div (8 * k)"
  using p
proof (induction "unat left" arbitrary: n left ofo p out rule: less_induct)
  case less
  show ?case
  proof (cases "left = 0")
    case True
    then show ?thesis using mtu(2) by (subst ip4_frag_loop.simps) simp
  next
    case False
    have le: "8 * unat ofo \<le> length D" using less.prems(4) False by simp
    have total: "8 * unat ofo + unat left = length D" using less.prems(1,2) le by simp
    define fs where "fs = min left (frag_nfb mtu * 8)"
    have m0: "unat mtu = IP_HLEN + 8 * k + 0" "(0 :: nat) < 8" using mtu(1) by simp_all
    note round = frag_round [OF ok m0 mtu(2) less.prems(2,3) False, folded fs_def]
    note fs = round(1) and ul = round(2) and uk = round(3)
    have fpos: "0 < unat fs" using fs False mtu(2) by (simp add: unat_gt_0 word_neq_0_conv)
    define is_last where "is_last = (unat left \<le> 8 * k + 0)"
    have last: "is_last \<longleftrightarrow> 8 * unat ofo + unat fs = length D" using total fs unfolding is_last_def by linarith
    obtain n' q rest where step: "ip4_frag_loop ok mtu iphdr False n left ofo p out =
        ip4_frag_loop ok mtu iphdr False n' (left - fs) (ofo + frag_nfb mtu) rest
          (out @ [\<lparr>pb_hdr = frag_hdr iphdr ofo fs is_last False, pb_data = [] # q\<rparr>])"
      and m: "concat q = take (unat fs) (concat p)" "concat rest = drop (unat fs) (concat p)" "\<forall>d \<in> set rest. length d < 65536"
      using round(4) [where iphdr = iphdr and n = n and ofo = ofo and out = out] unfolding is_last_def by blast
    define r where "r = \<lparr>pb_hdr = frag_hdr iphdr ofo fs is_last False, pb_data = [] # q\<rparr>"
    have o: "8 * unat ofo + unat fs \<le> length D" using total fs by simp
    have q: "concat q = take (unat fs) (drop (8 * unat ofo) D)" using m(1) less.prems(1) by simp
    note one = one_fragment [OF hdr o D q fpos r_def last]
    have k: "8 * k \<le> 65515" using mtu(1) u16_lt [of mtu] by (simp add: IP_HLEN_def)
    have unext: "unat (ofo + frag_nfb mtu) = unat ofo + k"
      using uk total D k by (subst unat_add_lem [THEN iffD1]) simp_all
    have next_eq: "left - fs \<noteq> 0 \<Longrightarrow> 8 * unat (ofo + frag_nfb mtu) = 8 * unat ofo + unat fs"
      using unext fs ul by (auto simp: unat_eq_0 min_def)
    have c: "concat rest = drop (8 * unat (ofo + frag_nfb mtu)) D"
    proof (cases "left - fs = 0")
      case True
      then have "unat left \<le> unat fs" using ul by simp
      then show ?thesis using m(2) less.prems(1,2) unext total fs by simp
    next
      case more: False
      then show ?thesis using m(2) less.prems(1) next_eq by (simp add: add.commute)
    qed
    have l: "unat (left - fs) = length (concat rest)" using ul m(2) less.prems(2) by simp
    have lt: "unat (left - fs) < unat left" using ul fpos fs by simp
    have le': "8 * unat (ofo + frag_nfb mtu) \<le> length D \<or> left - fs = 0" using next_eq o by auto
    obtain qs where qs: "ip4_frag_loop ok mtu iphdr False n' (left - fs) (ofo + frag_nfb mtu) rest (out @ [r]) = Some (ERR_OK, (out @ [r]) @ qs)"
      "left - fs \<noteq> 0 \<longrightarrow> fragments_from D (reass_key iphdr) (8 * unat (ofo + frag_nfb mtu)) qs" "left - fs = 0 \<longrightarrow> qs = []"
      "length qs = (unat (left - fs) + 8 * k - 1) div (8 * k)"
      using less.hyps [OF lt c l m(3) le', of n' "out @ [r]"] by (elim exE conjE)
    have "fragments_from D (reass_key iphdr) (8 * unat ofo) (r # qs)"
    proof (cases "left - fs = 0")
      case True
      then have "unat (left - fs) = 0" by (simp only: unat_0)
      then have "8 * unat ofo + unat fs = length D" using ul fs total by linarith
      moreover have "qs = []" using qs(3) True by blast
      ultimately show ?thesis using one by simp
    next
      case more: False
      then show ?thesis using one qs(2) next_eq by simp
    qed
    moreover have "length (r # qs) = (unat left + 8 * k - 1) div (8 * k)"
    proof (cases "unat left \<le> 8 * k")
      case True
      then have "unat (left - fs) = 0" using ul fs by simp
      moreover have "0 < unat left" using \<open>left \<noteq> 0\<close> by (simp add: unat_gt_0)
      then have "(unat left + 8 * k - 1) div (8 * k) = 1" using True mtu(2) by (intro div_nat_eqI) simp_all
      ultimately show ?thesis using qs(4) mtu(2) by simp
    next
      case False
      then have "unat (left - fs) + 8 * k - 1 + 8 * k = unat left + 8 * k - 1" using ul fs by simp
      then have "(unat left + 8 * k - 1) div (8 * k) = (unat (left - fs) + 8 * k - 1) div (8 * k) + 1"
        using mtu(2) by (metis div_add_self2 mult_is_0 not_gr_zero zero_neq_numeral)
      then show ?thesis using qs(4) by simp
    qed
    ultimately show ?thesis using step [folded r_def] qs(1) False by (intro exI [of _ "r # qs"]) simp
  qed
qed

section \<open>Fragments that are put together again\<close>

text \<open>A packet that was on the wire is in one pbuf.\<close>

definition received :: "ip4_pbuf \<Rightarrow> ip4_pbuf" where
  "received q = q\<lparr>pb_data := [concat (pb_data q)]\<rparr>"

fun reass_feed :: "ip4_pbuf list \<Rightarrow> ip4_reass_state \<Rightarrow> (ip4_pbuf option list \<times> ip4_reass_state) option" where
  "reass_feed [] s = Some ([], s)"
| "reass_feed (p # ps) s = do { (r, s) \<leftarrow> ip4_reass p s; (rs, s) \<leftarrow> reass_feed ps s; Some (r # rs, s) }"

definition apart :: "frag \<Rightarrow> frag \<Rightarrow> bool" where
  "apart f g \<longleftrightarrow> before f g \<or> before g f"

lemma overlaps_apart: "overlaps f fs \<longleftrightarrow> (\<exists>g \<in> set fs. \<not> apart f g)"
  by (auto simp: overlaps_def apart_def)

lemma sorted_wrt_mset:
  assumes "symp P" "sorted_wrt P xs" "mset xs = mset ys" shows "sorted_wrt P ys"
  using assms(2,3)
proof (induction ys arbitrary: xs)
  case (Cons y ys)
  have "y \<in> set xs" using Cons.prems(2) by (metis list.set_intros(1) set_mset_mset)
  then obtain as bs where xs: "xs = as @ y # bs" by (meson split_list)
  then have m: "mset (as @ bs) = mset ys" using Cons.prems(2) by simp
  have "sorted_wrt P (as @ bs)" using Cons.prems(1) xs by (auto simp: sorted_wrt_append)
  then have "sorted_wrt P ys" using Cons.IH m by blast
  moreover have "P y z" if "z \<in> set ys" for z
  proof -
    have "z \<in> set (as @ bs)" using that m by (metis set_mset_mset)
    then show ?thesis using Cons.prems(1) xs assms(1) by (auto simp: sorted_wrt_append dest: sympD)
  qed
  ultimately show ?case by simp
qed simp

text \<open>Packets that have all of the datagram that is not yet in the queue.\<close>

lemma feed_ok:
  assumes "ps \<noteq> []" "reass_inv (held (parts_of sent)) s"
    "\<forall>p \<in> set ps. packet_of (sent key) p \<and> length (pb_data p) = 1 \<and> reass_key (pb_hdr p) = key"
    "pbufs_of (frags_for key s) + length ps \<le> IP_REASS_MAX_PBUFS"
    "frags_len (frags_for key s) + sum_list (map (flen \<circ> frag_of) ps) = length (sent key)"
    "sorted_wrt apart (map frag_of ps)" "\<forall>p \<in> set ps. \<not> overlaps (frag_of p) (frags_for key s)"
  shows "\<exists>q s'. reass_feed ps s = Some (replicate (length ps - 1) None @ [Some q], s') \<and> is_whole (sent key) (last ps) q \<and>
    frags_for key s' = [] \<and> reass_inv (held (parts_of sent)) s'"
  using assms
proof (induction ps arbitrary: s rule: list_nonempty_induct)
  case (single p)
  have p: "packet_of (sent (reass_key (pb_hdr p))) p" "pb_data p \<noteq> []" "reass_key (pb_hdr p) = key" "length (pb_data p) = 1"
    using single.prems(2) by auto
  obtain res s' where s': "ip4_reass p s = Some (res, s')" "reass_inv (held (parts_of sent)) s'"
    "datagram_step (sent key) p (has_room p s) (frags_for key s) res (frags_for key s')"
    using reass_step_ok [OF single.prems(1) p(1,2)] p(3) by auto
  have "has_room p s" using p single.prems(3) by (simp add: has_room_def)
  then have "(\<exists>q. res = Some q \<and> is_whole (sent key) p q) \<and> frags_for key s' = []"
    using s'(3) single.prems(4,6) by (auto simp: datagram_step_def)
  then show ?case using s' by auto
next
  case (cons p ps)
  have p: "packet_of (sent (reass_key (pb_hdr p))) p" "pb_data p \<noteq> []" "reass_key (pb_hdr p) = key" "length (pb_data p) = 1"
    using cons.prems(2) by auto
  obtain res s1 where s1: "ip4_reass p s = Some (res, s1)" "reass_inv (held (parts_of sent)) s1"
    "datagram_step (sent key) p (has_room p s) (frags_for key s) res (frags_for key s1)"
    using reass_step_ok [OF cons.prems(1) p(1,2)] p(3) by auto
  have room: "has_room p s" using p cons.prems(3) by (simp add: has_room_def)
  obtain p' ps' where ps: "ps = p' # ps'" using cons.hyps by (cases ps) auto
  have "0 < flen (frag_of p')" using cons.prems(2) ps by (simp add: packet_of_def frag_holds_def)
  then have "frags_len (frags_for key s) + flen (frag_of p) \<noteq> length (sent key)" using cons.prems(4) ps by simp
  then have q: "res = None" "mset (frags_for key s1) = add_mset (frag_of p) (mset (frags_for key s))"
    using s1(3) room cons.prems(6) by (auto simp: datagram_step_def)
  have set: "set (frags_for key s1) = insert (frag_of p) (set (frags_for key s))" using q(2) by (metis set_mset_add_mset_insert set_mset_mset)
  have "pbufs_of (frags_for key s1) = 1 + pbufs_of (frags_for key s)"
    using pbufs_of_mset [of "frags_for key s1" "frag_of p # frags_for key s"] q(2) p(4) by simp
  moreover have "frags_len (frags_for key s1) = frags_len (frags_for key s) + flen (frag_of p)"
    using frags_len_mset [OF q(2)] by (simp add: frags_len_def)
  moreover have "\<not> overlaps (frag_of p2) (frags_for key s1)" if "p2 \<in> set ps" for p2
    using that cons.prems(5,6) by (auto simp: overlaps_apart set apart_def)
  ultimately have "\<exists>q s'. reass_feed ps s1 = Some (replicate (length ps - 1) None @ [Some q], s') \<and> is_whole (sent key) (last ps) q \<and>
    frags_for key s' = [] \<and> reass_inv (held (parts_of sent)) s'"
    using cons.prems by (intro cons.IH [OF s1(2)]) simp_all
  then obtain q s' where "reass_feed ps s1 = Some (replicate (length ps - 1) None @ [Some q], s')" "is_whole (sent key) (last ps) q"
    "frags_for key s' = []" "reass_inv (held (parts_of sent)) s'" by blast
  moreover have "None # replicate (length ps - 1) None = replicate (length ps) None" using ps by simp
  ultimately show ?case using s1(1) q(1) cons.hyps by simp
qed

lemma received_simps [simp]:
  "f_start (frag_of (received q)) = f_start (frag_of q)" "f_end (frag_of (received q)) = f_end (frag_of q)"
  "flen (frag_of (received q)) = flen (frag_of q)" "frag_holds D (frag_of (received q)) = frag_holds D (frag_of q)"
  "more_frags (received q) = more_frags q" "pb_hdr (received q) = pb_hdr q" "tot_len (pb_data (received q)) = tot_len (pb_data q)"
  by (simp_all add: received_def frag_of_def Let_def flen_def tot_len_def frag_holds_def more_frags_def)

lemma fragments_from_start: "fragments_from D key a qs \<Longrightarrow> q \<in> set qs \<Longrightarrow> a \<le> unat (f_start (frag_of q))"
  by (induction qs arbitrary: a) fastforce+

lemma fragments_from_apart: "fragments_from D key a qs \<Longrightarrow> sorted_wrt apart (map (frag_of \<circ> received) qs)"
proof (induction qs arbitrary: a)
  case (Cons q qs)
  have "before (frag_of (received q)) (frag_of (received r))" if "r \<in> set qs" for r
    using fragments_from_start [OF _ that, of D key "a + flen (frag_of q)"] Cons.prems
    by (simp add: before_def word_le_nat_alt frag_holds_def)
  then show ?case using Cons by (auto simp: apart_def)
qed simp

lemma fragments_from_len: "fragments_from D key a qs \<Longrightarrow> a + sum_list (map (flen \<circ> frag_of) qs) = length D"
proof (induction qs arbitrary: a)
  case (Cons q qs)
  then show ?case using Cons.IH [of "a + flen (frag_of q)"] by (simp add: add.assoc)
qed simp

lemma fragments_from_packet:
  assumes "fragments_from D key 0 qs" "1 < length qs" "length D \<le> 65515" "q \<in> set qs"
  shows "packet_of D (received q) \<and> length (pb_data (received q)) = 1 \<and> reass_key (pb_hdr (received q)) = key"
proof -
  have all: "frag_holds D (frag_of r) \<and> reass_key (pb_hdr r) = key \<and> unat (IPH_HL_BYTES (pb_hdr r)) = IP_HLEN \<and>
      unat (iph_len (pb_hdr r)) = IP_HLEN + tot_len (pb_data r) \<and> (more_frags r \<longleftrightarrow> unat (f_end (frag_of r)) < length D)"
    if "fragments_from D key a rs" "r \<in> set rs" for a rs r
    using that by (induction rs arbitrary: a) (auto simp: frag_holds_def)
  obtain as bs where qs: "qs = as @ q # bs" using assms(4) by (meson split_list)
  then have "as @ bs \<noteq> []" using assms(2) by auto
  then obtain r where "r \<in> set (as @ bs)" by (meson list.set_sel(1))
  then have "0 < flen (frag_of r)" "flen (frag_of r) \<le> sum_list (map (flen \<circ> frag_of) (as @ bs))"
    using all [OF assms(1), of r] qs member_le_sum_list [of "flen (frag_of r)" "map (flen \<circ> frag_of) (as @ bs)"]
    by (auto simp: frag_holds_def)
  then have "flen (frag_of q) < length D" using fragments_from_len [OF assms(1)] qs by simp
  then show ?thesis using all [OF assms(1,4)] assms(3) by (simp add: packet_of_def received_def [of q, THEN arg_cong [of _ _ pb_data]] tot_len_def)
qed

text \<open>What a queue gives for the fragments of a datagram, whatever their order.\<close>

lemma fragments_feed:
  assumes frags: "fragments_from D key 0 qs" "1 < length qs" "length qs \<le> IP_REASS_MAX_PBUFS" "length D \<le> 65515"
    and s: "reass_inv (held (parts_of sent)) s" "sent key = D" "frags_for key s = []" and m: "mset ps = mset (map received qs)"
  shows "\<exists>q s'. reass_feed ps s = Some (replicate (length ps - 1) None @ [Some q], s') \<and> concat (pb_data q) = D \<and>
      reass_key (pb_hdr q) = key \<and> frags_for key s' = []"
proof -
  have set: "set ps = received ` set qs" using m by (metis set_map set_mset_mset)
  have pk: "\<forall>r \<in> set ps. packet_of (sent key) r \<and> length (pb_data r) = 1 \<and> reass_key (pb_hdr r) = key"
    using fragments_from_packet [OF frags(1,2,4)] s(2) by (auto simp: set)
  have len: "length ps = length qs" using m by (metis length_map mset_eq_length)
  have sum: "sum_list (map (flen \<circ> frag_of) ps) = sum_list (map (flen \<circ> frag_of) (map received qs))"
    using m by (metis mset_map sum_mset_sum_list)
  have "symp apart" by (auto simp: symp_def apart_def)
  moreover have "mset (map frag_of (map received qs)) = mset (map frag_of ps)" using m by (metis mset_map)
  ultimately have ap: "sorted_wrt apart (map frag_of ps)"
    using sorted_wrt_mset [of apart "map frag_of (map received qs)" "map frag_of ps"] fragments_from_apart [OF frags(1)] by simp
  have ne: "ps \<noteq> []" using len frags(2) by auto
  obtain q s' where q: "reass_feed ps s = Some (replicate (length ps - 1) None @ [Some q], s')" "is_whole (sent key) (last ps) q" "frags_for key s' = []"
    using feed_ok [OF ne s(1) pk] s(2,3) len frags(3) ap sum fragments_from_len [OF frags(1)]
    by (auto simp: frags_len_def overlaps_def comp_def)
  have "reass_key (pb_hdr (last ps)) = key" using pk ne by simp
  then show ?thesis using q s(2) by (auto simp: is_whole_def)
qed

text \<open>The arguments with which the loop begins, for a packet that is not a fragment.\<close>

lemma ip4_frag_start:
  assumes "unat (IPH_HL_BYTES (pb_hdr p)) = IP_HLEN" "\<not> is_fragment p" "tot_len (pb_data p) \<le> 65515"
  shows "ip4_frag ok mtu p = ip4_frag_loop ok mtu (pb_hdr p) False 0 (word_of_nat (tot_len (pb_data p))) 0 (pb_data p) []"
    "unat (word_of_nat (tot_len (pb_data p)) :: u16) = tot_len (pb_data p)" "\<forall>d \<in> set (pb_data p). length d < 65536"
    "length (concat (pb_data p)) = tot_len (pb_data p)"
proof -
  let ?D = "concat (pb_data p)" let ?n = "tot_len (pb_data p)"
  show D: "length ?D = ?n" by (simp add: tot_len_def)
  show "\<forall>d \<in> set (pb_data p). length d < 65536"
  proof
    fix d assume "d \<in> set (pb_data p)"
    then have "length d \<le> length ?D" by (auto dest!: split_list)
    then show "length d < 65536" using assms(3) D by simp
  qed
  have o: "iph_offset (pb_hdr p) AND IP_OFFMASK = 0" "iph_offset (pb_hdr p) AND IP_MF = 0"
  proof -
    let ?o = "iph_offset (pb_hdr p)"
    have z: "?o AND (IP_OFFMASK OR IP_MF) = 0" using assms(2) by (simp add: is_fragment_def)
    have "(IP_OFFMASK OR IP_MF) AND IP_OFFMASK = IP_OFFMASK" "(IP_OFFMASK OR IP_MF) AND IP_MF = IP_MF"
      by (simp_all add: IP_OFFMASK_def IP_MF_def)
    then show "?o AND IP_OFFMASK = 0" "?o AND IP_MF = 0" using z by (metis and.assoc zero_and_eq)+
  qed
  have "word_of_nat (IP_HLEN + ?n) - word_of_nat IP_HLEN = (word_of_nat ?n :: u16)" by simp
  then show "ip4_frag ok mtu p = ip4_frag_loop ok mtu (pb_hdr p) False 0 (word_of_nat ?n) 0 (pb_data p) []"
    using assms(1) o by (simp add: ip4_frag_def Let_def)
  show "unat (word_of_nat ?n :: u16) = ?n" using assms(3) by (simp add: unat_of_nat take_bit_nat_eq_self)
qed

lemma frag_reass:
  assumes ok: "\<forall>n. ok n" and mtu: "unat mtu = IP_HLEN + 8 * k"
    and p: "unat (IPH_HL_BYTES (pb_hdr p)) = IP_HLEN" "\<not> is_fragment p"
      "8 * k < tot_len (pb_data p)" "tot_len (pb_data p) \<le> 8 * k * IP_REASS_MAX_PBUFS" "tot_len (pb_data p) \<le> 65515"
    and s: "reass_inv (held (parts_of sent)) s" "sent (reass_key (pb_hdr p)) = concat (pb_data p)" "frags_for (reass_key (pb_hdr p)) s = []"
  shows "\<exists>out. ip4_frag ok mtu p = Some (ERR_OK, out) \<and>
    (\<forall>ps. mset ps = mset (map received out) \<longrightarrow>
      (\<exists>q s'. reass_feed ps s = Some (replicate (length ps - 1) None @ [Some q], s') \<and>
        concat (pb_data q) = concat (pb_data p) \<and> reass_key (pb_hdr q) = reass_key (pb_hdr p) \<and>
        frags_for (reass_key (pb_hdr p)) s' = []))"
proof -
  let ?D = "concat (pb_data p)" let ?key = "reass_key (pb_hdr p)" let ?n = "tot_len (pb_data p)"
  note start = ip4_frag_start [OF p(1,2,5)]
  have k: "0 < k" using p(3,4) by (cases k) auto
  have "(word_of_nat ?n :: u16) \<noteq> 0" using start(2) p(3) by (metis less_nat_zero_code unat_0)
  then obtain qs where qs: "ip4_frag_loop ok mtu (pb_hdr p) False 0 (word_of_nat ?n) 0 (pb_data p) [] = Some (ERR_OK, qs)"
    "fragments_from ?D ?key 0 qs" "length qs = (?n + 8 * k - 1) div (8 * k)"
    using frag_loop_ok [OF ok mtu k p(1), where D = ?D and ofo = 0 and p = "pb_data p" and left = "word_of_nat ?n" and n = 0 and out = "[]"]
      start(2-4) p(5) by auto
  have "(8 * k * 1 + 8 * k) div (8 * k) \<le> (?n + 8 * k - 1) div (8 * k)" using p(3) by (intro div_le_mono) simp
  then have two: "1 < length qs" using qs(3) k by simp
  have "(?n + 8 * k - 1) div (8 * k) \<le> (8 * k * 10 + (8 * k - 1)) div (8 * k)"
    using p(4) by (intro div_le_mono) (simp add: IP_REASS_MAX_PBUFS_def)
  also have "\<dots> = 10" using k by (subst div_mult_self4) simp_all
  finally have ten: "length qs \<le> IP_REASS_MAX_PBUFS" using qs(3) by (simp add: IP_REASS_MAX_PBUFS_def)
  have "length ?D \<le> 65515" using p(5) start(4) by simp
  note feed = fragments_feed [OF qs(2) two ten this s]
  show ?thesis using qs(1) feed unfolding start(1) by blast
qed

section \<open>Bad sizes of packets\<close>

text \<open>
  With an MTU that has no room for eight bytes behind the header no byte is taken in a round, and the loop does not end.
\<close>

lemma frag_loop_stuck:
  assumes "ip4_frag_loop ok mtu iphdr mf_set n left ofo p out = Some res"
  shows "(\<forall>n. ok n) \<longrightarrow> frag_nfb mtu = 0 \<longrightarrow> left \<noteq> 0 \<longrightarrow> p \<noteq> [] \<longrightarrow> False"
proof (rule ip4_frag_loop.raw_induct
    [where P = "\<lambda>ok mtu iphdr mf_set n left ofo p out res. (\<forall>n. ok n) \<longrightarrow> frag_nfb mtu = 0 \<longrightarrow> left \<noteq> 0 \<longrightarrow> p \<noteq> [] \<longrightarrow> False", OF _ assms])
  fix f ok mtu iphdr mf_set n and left ofo :: u16 and p out res
  assume IH: "\<And>ok mtu iphdr mf_set n left ofo p out res. f ok mtu iphdr mf_set n left ofo p out = Some res \<Longrightarrow>
      (\<forall>n. ok n) \<longrightarrow> frag_nfb mtu = 0 \<longrightarrow> left \<noteq> 0 \<longrightarrow> p \<noteq> [] \<longrightarrow> False"
    and body: "(if left = 0 then Some (ERR_OK, out)
      else
        (let fragsize = min left (frag_nfb mtu * 8)
         in if \<not> ok n then Some (ERR_MEM, out)
            else Option.bind (mirror ok (n + 1) fragsize p) (\<lambda>(n, r).
              case r of
                None \<Rightarrow> Some (ERR_MEM, out)
              | Some (q, p) \<Rightarrow>
                  (let is_last = (int (unat left) \<le> int (unat mtu) - int IP_HLEN);
                       rambuf = \<lparr>pb_hdr = frag_hdr iphdr ofo fragsize is_last mf_set, pb_data = [] # q\<rparr>
                   in f ok mtu iphdr mf_set n (left - fragsize) (ofo + frag_nfb mtu) p (out @ [rambuf]))))) = Some res"
  show "(\<forall>n. ok n) \<longrightarrow> frag_nfb mtu = 0 \<longrightarrow> left \<noteq> 0 \<longrightarrow> p \<noteq> [] \<longrightarrow> False"
  proof (intro impI)
    assume a: "\<forall>n. ok n" "frag_nfb mtu = 0" "left \<noteq> 0" "p \<noteq> []"
    have "mirror ok (n + 1) 0 p = Some (n + 1, Some ([], p))" using a(4) by (cases p) simp_all
    moreover have "min left 0 = 0" by (simp add: min_def)
    ultimately have "f ok mtu iphdr mf_set (n + 1) left ofo p
        (out @ [\<lparr>pb_hdr = frag_hdr iphdr ofo 0 (int (unat left) \<le> int (unat mtu) - int IP_HLEN) mf_set, pb_data = [[]]\<rparr>]) = Some res"
      using body a(1-3) by (simp add: Let_def)
    then show False using IH a by blast
  qed
qed

lemma ip4_frag_stuck:
  assumes "\<forall>n. ok n" "unat (IPH_HL_BYTES (pb_hdr p)) = IP_HLEN" "IP_HLEN \<le> unat mtu" "unat mtu < IP_HLEN + 8"
    "0 < tot_len (pb_data p)" "tot_len (pb_data p) \<le> 65515"
  shows "ip4_frag ok mtu p = None"
proof -
  have "frag_nfb mtu = 0" using assms(3,4) by (simp add: frag_nfb_def)
  moreover have left: "word_of_nat (IP_HLEN + tot_len (pb_data p)) - word_of_nat IP_HLEN = (word_of_nat (tot_len (pb_data p)) :: u16)" by simp
  moreover have "(word_of_nat (tot_len (pb_data p)) :: u16) \<noteq> 0"
    using assms(5,6) by (simp add: word_of_nat_eq_0_iff) (auto dest: dvd_imp_le)
  moreover have "pb_data p \<noteq> []" using assms(5) by (auto simp: tot_len_def)
  ultimately have "ip4_frag_loop ok mtu (pb_hdr p) mf n (word_of_nat (tot_len (pb_data p))) ofo (pb_data p) [] = None" for mf n ofo
    using frag_loop_stuck [of ok mtu "pb_hdr p" mf n "word_of_nat (tot_len (pb_data p))" ofo "pb_data p" "[]"] assms(1)
    by (cases "ip4_frag_loop ok mtu (pb_hdr p) mf n (word_of_nat (tot_len (pb_data p))) ofo (pb_data p) []") auto
  then show ?thesis using assms(2) left by (simp add: ip4_frag_def Let_def)
qed



definition example_packet :: "nat \<Rightarrow> ip4_pbuf" where
  "example_packet n = \<lparr>pb_hdr = example_hdr, pb_data = [replicate n 5]\<rparr>"





text \<open>C10: what \<^verbatim>\<open>ip4_frag\<close> sends is put together again by \<^verbatim>\<open>ip4_reass\<close>. For an unfragmented packet without options that does not
  fit the MTU, with a multiple of eight bytes of room behind the header and at most \<^verbatim>\<open>IP_REASS_MAX_PBUFS\<close> fragments, and when no
  allocation fails, \<^verbatim>\<open>ip4_frag\<close> returns \<^verbatim>\<open>ERR_OK\<close>. When its packets then arrive in any order at a queue that has nothing of the
  datagram, all but the last are kept and the last one gives the whole datagram, with the same bytes, addresses and identification.
\<close>

theorem ip4_frag_reass:
  assumes ok: "\<forall>n. ok n" and mtu: "unat mtu = IP_HLEN + 8 * k"
    and p: "unat (IPH_HL_BYTES (pb_hdr p)) = IP_HLEN" "\<not> is_fragment p"
      "8 * k < tot_len (pb_data p)" "tot_len (pb_data p) \<le> 8 * k * IP_REASS_MAX_PBUFS" "tot_len (pb_data p) \<le> 65515"
    and s: "reass_inv (held (parts_of sent)) s" "sent (reass_key (pb_hdr p)) = concat (pb_data p)" "frags_for (reass_key (pb_hdr p)) s = []"
  shows "\<exists>out. ip4_frag ok mtu p = Some (ERR_OK, out) \<and>
    (\<forall>ps. mset ps = mset (map received out) \<longrightarrow>
      (\<exists>q s'. reass_feed ps s = Some (replicate (length ps - 1) None @ [Some q], s') \<and>
        concat (pb_data q) = concat (pb_data p) \<and> reass_key (pb_hdr q) = reass_key (pb_hdr p) \<and>
        frags_for (reass_key (pb_hdr p)) s' = []))"
  using assms by (rule frag_reass)

theorem ip4_frag_reass_witness:
  "\<exists>out. ip4_frag (\<lambda>_. True) 28 (example_packet 18) = Some (ERR_OK, out) \<and>
    (\<forall>ps. mset ps = mset (map received out) \<longrightarrow>
      (\<exists>q s'. reass_feed ps empty_reass = Some (replicate (length ps - 1) None @ [Some q], s') \<and>
        concat (pb_data q) = replicate 18 5 \<and> reass_key (pb_hdr q) = reass_key example_hdr \<and>
        frags_for (reass_key example_hdr) s' = []))"
proof -
  let ?p = "example_packet 18"
  have p: "unat (IPH_HL_BYTES (pb_hdr ?p)) = IP_HLEN \<and> \<not> is_fragment ?p \<and> tot_len (pb_data ?p) = 18 \<and>
      concat (pb_data ?p) = replicate 18 5"
    by code_simp
  have hdr: "pb_hdr ?p = example_hdr" by (simp add: example_packet_def)
  have mtu: "unat (28 :: u16) = IP_HLEN + 8 * 1" by (simp add: IP_HLEN_def)
  have all: "\<forall>n :: nat. True" by simp
  have bounds: "8 * 1 < (18 :: nat)" "18 \<le> 8 * 1 * IP_REASS_MAX_PBUFS" "(18 :: nat) \<le> 65515"
    by (simp_all add: IP_REASS_MAX_PBUFS_def)
  show ?thesis
    using ip4_frag_reass [of "\<lambda>_. True" 28 1 ?p "\<lambda>_. concat (pb_data ?p)" empty_reass, OF all mtu _ _ _ _ _ empty_reass_inv(1) refl
        empty_reass_inv(2)] p bounds
    unfolding hdr by metis
qed

end
